(* ===== verification/Prelude.thy ===== *)
theory Prelude
  imports Main "HOL-Library.Word"
begin

unbundle bit_operations_syntax

text \<open>
  What every component of the development shares: the machine types of the code, the
  byte-level \<^verbatim>\<open>memcpy\<close>, the linear search that every executor does in its local read and
  write sets, interference lists (what the other worker threads do to a shared word
  between two atomic accesses of one thread), and reachability in a transition system
  with the locale that turns a one-step invariant into an invariant of every reachable
  state.
\<close>

section \<open>Machine types\<close>

type_synonym u8 = "8 word"
type_synonym u32 = "32 word"
type_synonym u64 = "64 word"
type_synonym key = "64 word"
type_synonym val = "8 word list"

text \<open>
  \<^verbatim>\<open>memcpy(dst, src, n)\<close> on byte buffers: the first \<open>n\<close> bytes of the destination become
  those of the source, the rest stays.
\<close>

definition memcpy :: "val \<Rightarrow> val \<Rightarrow> nat \<Rightarrow> val" where
  "memcpy dst src n = take n src @ drop n dst"

lemma length_memcpy [simp]:
  "n \<le> length src \<Longrightarrow> n \<le> length dst \<Longrightarrow> length (memcpy dst src n) = length dst"
  by (simp add: memcpy_def)

lemma memcpy_full: "length src = n \<Longrightarrow> length dst = n \<Longrightarrow> memcpy dst src n = src"
  by (simp add: memcpy_def)

lemma unat_u64_less: "unat (x :: u64) < 2 ^ 64"
  using unsigned_less [of x, where ?'a = nat] by simp

lemma replicate_numeral: "replicate (numeral n) x = x # replicate (pred_numeral n) x"
  by (simp add: numeral_eq_Suc)

section \<open>Searching a local set\<close>

text \<open>
  The executors keep their read and write sets as vectors and find an element by a
  linear search for its key: the first hit, or \<^verbatim>\<open>nullptr\<close>.
\<close>

definition search_set :: "('e \<Rightarrow> key) \<Rightarrow> key \<Rightarrow> 'e list \<Rightarrow> 'e option" where
  "search_set kf k xs = List.find (\<lambda>e. kf e = k) xs"

lemma search_set_Nil [simp]: "search_set kf k [] = None"
  by (simp add: search_set_def)

lemma search_set_Cons [simp]:
  "search_set kf k (x # xs) = (if kf x = k then Some x else search_set kf k xs)"
  by (simp add: search_set_def)

lemma search_set_None: "search_set kf k xs = None \<longleftrightarrow> k \<notin> kf ` set xs"
  by (induction xs) auto

lemma search_set_Some: "search_set kf k xs = Some e \<Longrightarrow> e \<in> set xs \<and> kf e = k"
  by (induction xs) (auto split: if_splits)

lemma search_set_notNone: "search_set kf k xs \<noteq> None \<longleftrightarrow> k \<in> kf ` set xs"
  by (simp add: search_set_None)

section \<open>Interference\<close>

text \<open>
  A thread that accesses a shared location sees what the other threads did to it since
  its last access. An interference list has one entry per atomic access: the change the
  environment makes right before that access. A spin loop recurses on the list, so its
  model is total; \<open>None\<close> means that the list ended and the thread still spins.
\<close>

type_synonym 's env = "('s \<Rightarrow> 's) list"

definition apply_env :: "'s env \<Rightarrow> 's \<Rightarrow> 's" where
  "apply_env es s = fold (\<lambda>e. e) es s"

lemma apply_env_Nil [simp]: "apply_env [] s = s"
  by (simp add: apply_env_def)

lemma apply_env_Cons [simp]: "apply_env (e # es) s = apply_env es (e s)"
  by (simp add: apply_env_def)

lemma apply_env_append [simp]: "apply_env (xs @ ys) s = apply_env ys (apply_env xs s)"
  by (simp add: apply_env_def)

section \<open>Reachable states and invariants\<close>

inductive reach :: "('s \<Rightarrow> bool) \<Rightarrow> ('s \<Rightarrow> 's \<Rightarrow> bool) \<Rightarrow> 's \<Rightarrow> bool"
  for init :: "'s \<Rightarrow> bool" and step :: "'s \<Rightarrow> 's \<Rightarrow> bool" where
  reach_init: "init s \<Longrightarrow> reach init step s"
| reach_step: "reach init step s \<Longrightarrow> step s t \<Longrightarrow> reach init step t"

text \<open>
  The contract of an inductive invariant: it holds initially and every step keeps it.
  Each protocol interprets this locale with its own initial states, steps and invariant.
\<close>

locale invariant_system =
  fixes init :: "'s \<Rightarrow> bool" and step :: "'s \<Rightarrow> 's \<Rightarrow> bool" and inv :: "'s \<Rightarrow> bool"
  assumes init_inv: "init s \<Longrightarrow> inv s"
    and step_inv: "inv s \<Longrightarrow> step s t \<Longrightarrow> inv t"
begin

lemma reach_inv: "reach init step s \<Longrightarrow> inv s"
  by (induction rule: reach.induct) (blast intro: init_inv step_inv)+

end

end
