(* ===== verification/Rw_Lock.thy ===== *)
theory Rw_Lock
  imports Prelude
begin

text \<open>
  The reader-writer lock of \<^verbatim>\<open>include/rwlock.hh\<close>: one atomic \<^verbatim>\<open>int\<close>, \<open>-1\<close> when write
  locked, the number of readers otherwise. Each operation is modelled twice: as the one
  atomic change it makes to the counter (\<open>r_acq\<close>, \<open>w_acq\<close>, \<open>upg\<close>, \<open>r_rel\<close>, \<open>w_rel\<close>), and
  as the code's loop of atomic loads and compare-and-swaps under an interference list.
  The linearization lemmas say that a loop that returns has made exactly the atomic
  change at its last access, whatever the other threads did in between; the protocols
  rest on the atomic view. The last section states the contract the clients rely on as
  a locale and interprets it on the counter.
\<close>

section \<open>The atomic changes\<close>

definition r_acq :: "u32 \<Rightarrow> u32 option" where
  "r_acq c = (if c \<noteq> -1 then Some (c + 1) else None)"

definition w_acq :: "u32 \<Rightarrow> u32 option" where
  "w_acq c = (if c \<noteq> 0 then None else Some (-1))"

definition upg :: "u32 \<Rightarrow> u32 option" where
  "upg c = (if c \<noteq> 1 then None else Some (-1))"

text \<open>\<^verbatim>\<open>void r_unlock() { counter--; }\<close> and \<^verbatim>\<open>void w_unlock() { counter++; }\<close>\<close>

definition r_rel :: "u32 \<Rightarrow> u32" where
  "r_rel c = c - 1"

definition w_rel :: "u32 \<Rightarrow> u32" where
  "w_rel c = c + 1"

section \<open>The code's loops under interference\<close>

text \<open>
  \<^verbatim>\<open>counter.load\<close> and \<^verbatim>\<open>compare_exchange_strong\<close>: each consumes one entry of the
  interference list. The compare-and-swap returns whether it succeeded, and the value
  it found, which a failure writes back to \<^verbatim>\<open>expected\<close>.
\<close>

fun ctr_load :: "u32 env \<Rightarrow> u32 \<Rightarrow> (u32 \<times> u32 env \<times> u32) option" where
  "ctr_load [] c = None"
| "ctr_load (e # es) c = Some (e c, es, e c)"

text \<open>
  The loop that starts at \<^verbatim>\<open>for (;;)\<close> with \<^verbatim>\<open>expected\<close> already loaded. \<open>step\<close> is the test
  and the computation of \<^verbatim>\<open>desired\<close>: \<open>Some d\<close> goes on to the compare-and-swap, \<open>None\<close>
  returns false.
\<close>

fun try_loop :: "(u32 \<Rightarrow> u32 option) \<Rightarrow> u32 \<Rightarrow> u32 env \<Rightarrow> u32 \<Rightarrow> (bool \<times> u32 env \<times> u32) option" where
  "try_loop step expected es c =
     (case step expected of
        None \<Rightarrow> Some (False, es, c)
      | Some desired \<Rightarrow>
          (case es of
             [] \<Rightarrow> None
           | e # es' \<Rightarrow>
               (if e c = expected then Some (True, es', desired)
                else try_loop step (e c) es' (e c))))"

text \<open>The blocking loops: where \<^verbatim>\<open>try_loop\<close> returns false they load again.\<close>

fun lock_loop :: "(u32 \<Rightarrow> u32 option) \<Rightarrow> u32 \<Rightarrow> u32 env \<Rightarrow> u32 \<Rightarrow> (u32 env \<times> u32) option" where
  "lock_loop step expected [] c = None"
| "lock_loop step expected (e # es) c =
     (case step expected of
        None \<Rightarrow> lock_loop step (e c) es (e c)
      | Some desired \<Rightarrow>
          (if e c = expected then Some (es, desired)
           else lock_loop step (e c) es (e c)))"

definition r_trylock :: "u32 env \<Rightarrow> u32 \<Rightarrow> (bool \<times> u32 env \<times> u32) option" where
  "r_trylock es c =
     Option.bind (ctr_load es c) (\<lambda>(expected, es, c). try_loop r_acq expected es c)"

definition w_trylock :: "u32 env \<Rightarrow> u32 \<Rightarrow> (bool \<times> u32 env \<times> u32) option" where
  "w_trylock es c =
     Option.bind (ctr_load es c) (\<lambda>(expected, es, c). try_loop w_acq expected es c)"

definition tryupgrade :: "u32 env \<Rightarrow> u32 \<Rightarrow> (bool \<times> u32 env \<times> u32) option" where
  "tryupgrade es c =
     Option.bind (ctr_load es c) (\<lambda>(expected, es, c). try_loop upg expected es c)"

definition r_lock :: "u32 env \<Rightarrow> u32 \<Rightarrow> (u32 env \<times> u32) option" where
  "r_lock es c =
     Option.bind (ctr_load es c) (\<lambda>(expected, es, c). lock_loop r_acq expected es c)"

definition w_lock :: "u32 env \<Rightarrow> u32 \<Rightarrow> (u32 env \<times> u32) option" where
  "w_lock es c =
     Option.bind (ctr_load es c) (\<lambda>(expected, es, c). lock_loop w_acq expected es c)"

definition upgrade :: "u32 env \<Rightarrow> u32 \<Rightarrow> (u32 env \<times> u32) option" where
  "upgrade es c =
     Option.bind (ctr_load es c) (\<lambda>(expected, es, c). lock_loop upg expected es c)"

text \<open>
  \<^verbatim>\<open>counter--\<close> and \<^verbatim>\<open>counter++\<close> are one atomic read-modify-write each.
\<close>

fun r_unlock :: "u32 env \<Rightarrow> u32 \<Rightarrow> (u32 env \<times> u32) option" where
  "r_unlock [] c = None"
| "r_unlock (e # es) c = Some (es, r_rel (e c))"

fun w_unlock :: "u32 env \<Rightarrow> u32 \<Rightarrow> (u32 env \<times> u32) option" where
  "w_unlock [] c = None"
| "w_unlock (e # es) c = Some (es, w_rel (e c))"

section \<open>Linearization\<close>

text \<open>
  \<open>atomic_try step es c b es' c'\<close>: the operation consumed a prefix \<open>pre\<close> of the
  interference, during which it changed nothing, and then acted atomically on the
  counter value \<open>c0\<close> it found: on success it stored \<open>step c0\<close>, on failure \<open>step c0\<close> was
  refused and the counter is as it found it.
\<close>

definition atomic_try :: "(u32 \<Rightarrow> u32 option) \<Rightarrow> u32 env \<Rightarrow> u32 \<Rightarrow> bool \<Rightarrow> u32 env \<Rightarrow> u32 \<Rightarrow> bool" where
  "atomic_try step es c b es' c' \<longleftrightarrow>
     (\<exists>pre c0. es = pre @ es' \<and> c0 = apply_env pre c \<and>
        (if b then step c0 = Some c' else step c0 = None \<and> c' = c0))"

declare try_loop.simps [simp del]

lemma try_loop_atomic:
  "try_loop step x es c = Some (b, es', c') \<Longrightarrow> c = x \<Longrightarrow> atomic_try step es c b es' c'"
proof (induction es arbitrary: x c)
  case Nil
  then show ?case
    by (auto simp: try_loop.simps atomic_try_def split: option.splits)
next
  case (Cons e es)
  show ?case
  proof (cases "step x")
    case None
    with Cons.prems show ?thesis
      by (auto simp: try_loop.simps atomic_try_def)
  next
    case (Some d)
    show ?thesis
    proof (cases "e c = x")
      case True
      with Cons.prems Some have "b" "es' = es" "c' = d"
        by (auto simp: try_loop.simps)
      with True Some show ?thesis
        by (auto simp: atomic_try_def intro!: exI [of _ "[e]"])
    next
      case False
      with Cons.prems Some have "try_loop step (e c) es (e c) = Some (b, es', c')"
        by (simp add: try_loop.simps [of step x "e # es"])
      then have "atomic_try step es (e c) b es' c'"
        by (rule Cons.IH) simp
      then obtain pre where "es = pre @ es'"
        "if b then step (apply_env pre (e c)) = Some c'
         else step (apply_env pre (e c)) = None \<and> c' = apply_env pre (e c)"
        by (auto simp: atomic_try_def)
      then show ?thesis
        unfolding atomic_try_def
        by (intro exI [of _ "e # pre"] exI [of _ "apply_env (e # pre) c"]) simp
    qed
  qed
qed

lemma lock_loop_atomic:
  "lock_loop step x es c = Some (es', c') \<Longrightarrow> c = x \<Longrightarrow> atomic_try step es c True es' c'"
proof (induction es arbitrary: x c)
  case Nil
  then show ?case by simp
next
  case (Cons e es)
  show ?case
  proof (cases "\<exists>d. step x = Some d \<and> e c = x")
    case True
    with Cons.prems show ?thesis
      by (auto simp: atomic_try_def intro!: exI [of _ "[e]"])
  next
    case False
    with Cons.prems have "lock_loop step (e c) es (e c) = Some (es', c')"
      by (auto split: option.splits if_splits)
    then have "atomic_try step es (e c) True es' c'"
      by (rule Cons.IH) simp
    then obtain pre where "es = pre @ es'" "step (apply_env pre (e c)) = Some c'"
      by (auto simp: atomic_try_def)
    then show ?thesis
      unfolding atomic_try_def
      by (intro exI [of _ "e # pre"] exI [of _ "apply_env (e # pre) c"]) simp
  qed
qed

lemma atomic_try_Cons:
  "atomic_try step es (e c) b es' c' \<Longrightarrow> atomic_try step (e # es) c b es' c'"
  unfolding atomic_try_def by (metis append_Cons apply_env_Cons)

lemma load_try_atomic:
  "Option.bind (ctr_load es c) (\<lambda>(x, es, c). try_loop step x es c) = Some (b, es', c') \<Longrightarrow>
   atomic_try step es c b es' c'"
  by (cases es) (auto dest: try_loop_atomic intro: atomic_try_Cons)

lemma load_lock_atomic:
  "Option.bind (ctr_load es c) (\<lambda>(x, es, c). lock_loop step x es c) = Some (es', c') \<Longrightarrow>
   atomic_try step es c True es' c'"
  by (cases es) (auto dest: lock_loop_atomic intro: atomic_try_Cons)

lemmas rwlock_defs = r_trylock_def w_trylock_def tryupgrade_def r_lock_def w_lock_def upgrade_def


section \<open>Progress\<close>

text \<open>
  Where the environment leaves the counter alone for the load and the compare-and-swap,
  a try operation returns at once, with the atomic answer.
\<close>

lemma load_try_quiet:
  "e1 c = c \<Longrightarrow> e2 c = c \<Longrightarrow>
   Option.bind (ctr_load (e1 # e2 # es) c) (\<lambda>(x, es, c). try_loop step x es c) =
   (case step c of Some d \<Rightarrow> Some (True, es, d) | None \<Rightarrow> Some (False, e2 # es, c))"
  by (simp add: try_loop.simps split: option.splits)

text \<open>
  A blocking loop returns as soon as the operation is possible at some access and the
  environment leaves the counter alone until the next one.
\<close>

lemma lock_loop_returns:
  "step (apply_env pre c) \<noteq> None \<Longrightarrow> e (apply_env pre c) = apply_env pre c \<Longrightarrow> c = x \<Longrightarrow>
   \<exists>r. lock_loop step x (pre @ e # post) c = Some r"
proof (induction pre arbitrary: x c)
  case Nil
  then show ?case by (auto split: option.splits)
next
  case (Cons e' pre)
  then have "\<exists>r. lock_loop step (e' c) (pre @ e # post) (e' c) = Some r"
    by simp
  then show ?case by (auto split: option.splits)
qed

lemma load_lock_returns:
  assumes "step (apply_env pre c) \<noteq> None" "e (apply_env pre c) = apply_env pre c" "pre \<noteq> []"
  shows "\<exists>r. Option.bind (ctr_load (pre @ e # post) c)
           (\<lambda>(x, es, c). lock_loop step x es c) = Some r"
proof (cases pre)
  case Nil
  with assms show ?thesis by simp
next
  case (Cons e0 pre')
  then have "\<exists>r. lock_loop step (e0 c) (pre' @ e # post) (e0 c) = Some r"
    using assms by (intro lock_loop_returns) simp_all
  then show ?thesis using Cons by simp
qed

section \<open>The contract of a reader-writer lock\<close>

text \<open>
  \<open>rep c n w\<close>: the lock word \<open>c\<close> stands for \<open>n\<close> readers and, when \<open>w\<close> holds, a writer.
  \<open>maxr\<close> bounds the readers the word can count.
\<close>

locale rw_lock =
  fixes rep :: "'c \<Rightarrow> nat \<Rightarrow> bool \<Rightarrow> bool"
    and maxr :: nat
    and rtry wtry uptry :: "'c \<Rightarrow> 'c option"
    and runl wunl :: "'c \<Rightarrow> 'c"
  assumes rep_excl: "rep c n w \<Longrightarrow> w \<Longrightarrow> n = 0"
    and rtry_free: "rep c n False \<Longrightarrow> n < maxr \<Longrightarrow> \<exists>d. rtry c = Some d \<and> rep d (Suc n) False"
    and rtry_busy: "rep c n True \<Longrightarrow> rtry c = None"
    and wtry_free: "rep c 0 False \<Longrightarrow> \<exists>d. wtry c = Some d \<and> rep d 0 True"
    and wtry_busy: "rep c n w \<Longrightarrow> 0 < n \<or> w \<Longrightarrow> wtry c = None"
    and uptry_sole: "rep c 1 False \<Longrightarrow> \<exists>d. uptry c = Some d \<and> rep d 0 True"
    and uptry_busy: "rep c n w \<Longrightarrow> n \<noteq> 1 \<Longrightarrow> uptry c = None"
    and runl_rep: "rep c (Suc n) False \<Longrightarrow> rep (runl c) n False"
    and wunl_rep: "rep c 0 True \<Longrightarrow> rep (wunl c) 0 False"

text \<open>
  The holders of a lock: the set \<open>R\<close> of threads with a read lock and the set \<open>W\<close> of
  threads with the write lock, related to the lock word.
\<close>

definition held :: "('c \<Rightarrow> nat \<Rightarrow> bool \<Rightarrow> bool) \<Rightarrow> 'c \<Rightarrow> 't set \<Rightarrow> 't set \<Rightarrow> bool" where
  "held rep c R W \<longleftrightarrow>
     finite R \<and> (W = {} \<and> rep c (card R) False \<or> (\<exists>t. W = {t}) \<and> R = {} \<and> rep c 0 True)"

context rw_lock
begin

lemma held_init: "rep c 0 False \<Longrightarrow> held rep c {} {}"
  by (simp add: held_def)

lemma held_excl: "held rep c R W \<Longrightarrow> t \<in> W \<Longrightarrow> R = {} \<and> W = {t}"
  by (auto simp: held_def)

lemma held_rtry:
  assumes "held rep c R W" "rtry c = Some d" "t \<notin> R" "card R < maxr"
  shows "held rep d (insert t R) W \<and> W = {}"
proof -
  from assms(1,2) have W: "W = {}" and r: "rep c (card R) False" and f: "finite R"
    using rtry_busy by (auto simp: held_def)
  from rtry_free [OF r assms(4)] assms(2) have "rep d (Suc (card R)) False" by auto
  with W f assms(3) show ?thesis by (simp add: held_def)
qed

lemma held_rtry_None: "held rep c R W \<Longrightarrow> card R < maxr \<Longrightarrow> rtry c = None \<Longrightarrow> W \<noteq> {}"
  using rtry_free by (fastforce simp: held_def)

lemma held_wtry:
  assumes "held rep c R W" "wtry c = Some d"
  shows "held rep d {} {t} \<and> R = {} \<and> W = {}"
proof -
  from assms have W: "W = {}" and r: "rep c (card R) False" and f: "finite R"
    using wtry_busy by (auto simp: held_def)
  from wtry_busy [OF r] assms(2) have R: "R = {}" using f by (cases "R = {}") (auto simp: card_gt_0_iff)
  with r have "rep c 0 False" by simp
  from wtry_free [OF this] assms(2) R W show ?thesis by (auto simp: held_def)
qed

lemma held_uptry:
  assumes "held rep c R W" "uptry c = Some d" "t \<in> R"
  shows "held rep d {} {t} \<and> R = {t} \<and> W = {}"
proof -
  from assms have W: "W = {}" and r: "rep c (card R) False" and f: "finite R"
    by (auto simp: held_def)
  from uptry_busy [OF r] assms(2) have one: "card R = 1" by auto
  with assms(3) have R: "R = {t}" by (auto simp: card_1_singleton_iff)
  from r one have "rep c 1 False" by simp
  from uptry_sole [OF this] assms(2) R W show ?thesis by (auto simp: held_def)
qed

lemma held_runl:
  assumes "held rep c R W" "t \<in> R"
  shows "held rep (runl c) (R - {t}) W"
proof -
  from assms have W: "W = {}" and r: "rep c (card R) False" and f: "finite R"
    by (auto simp: held_def)
  from f assms(2) have "card R = Suc (card (R - {t}))"
    by (metis card.remove)
  with r have "rep (runl c) (card (R - {t})) False"
    by (metis runl_rep)
  with W f show ?thesis by (simp add: held_def)
qed

lemma held_wunl: "held rep c R W \<Longrightarrow> t \<in> W \<Longrightarrow> held rep (wunl c) R (W - {t}) \<and> R = {}"
  using wunl_rep by (auto simp: held_def)

end

text \<open>The counter provides the contract, for up to \<open>2 ^ 32 - 2\<close> readers.\<close>

definition ctr_rep :: "u32 \<Rightarrow> nat \<Rightarrow> bool \<Rightarrow> bool" where
  "ctr_rep c n w \<longleftrightarrow> (if w then n = 0 \<and> c = -1 else n \<le> 2 ^ 32 - 2 \<and> c = of_nat n)"

lemma unat_u32_of_nat: "n < 2 ^ 32 \<Longrightarrow> unat (of_nat n :: u32) = n"
  by (simp add: unsigned_of_nat take_bit_nat_eq_self)

lemma of_nat_u32_inj:
  assumes "n < 2 ^ 32" "m < 2 ^ 32"
  shows "(of_nat n :: u32) = of_nat m \<longleftrightarrow> n = m"
proof
  assume "(of_nat n :: u32) = of_nat m"
  then have "unat (of_nat n :: u32) = unat (of_nat m :: u32)" by (rule arg_cong)
  then show "n = m"
    using unat_u32_of_nat [OF assms(1)] unat_u32_of_nat [OF assms(2)] by argo
qed simp

lemma of_nat_u32_minus1: "n \<le> 2 ^ 32 - 2 \<Longrightarrow> (of_nat n :: u32) \<noteq> -1"
proof
  assume n: "n \<le> 2 ^ 32 - 2" and "(of_nat n :: u32) = -1"
  moreover have "(-1 :: u32) = of_nat (2 ^ 32 - 1)" by simp
  ultimately have "n = 2 ^ 32 - 1"
    using of_nat_u32_inj [of n "2 ^ 32 - 1"] by simp
  with n show False by simp
qed

interpretation rwl: rw_lock ctr_rep "2 ^ 32 - 2" r_acq w_acq upg r_rel w_rel
proof unfold_locales
  fix c n w
  show "ctr_rep c n w \<Longrightarrow> w \<Longrightarrow> n = 0" by (simp add: ctr_rep_def)
  show "ctr_rep c n False \<Longrightarrow> n < 2 ^ 32 - 2 \<Longrightarrow> \<exists>d. r_acq c = Some d \<and> ctr_rep d (Suc n) False"
    using of_nat_u32_minus1 [of n] by (auto simp: ctr_rep_def r_acq_def)
  show "ctr_rep c n True \<Longrightarrow> r_acq c = None" by (simp add: ctr_rep_def r_acq_def)
  show "ctr_rep c 0 False \<Longrightarrow> \<exists>d. w_acq c = Some d \<and> ctr_rep d 0 True"
    by (simp add: ctr_rep_def w_acq_def)
  show "ctr_rep c n w \<Longrightarrow> 0 < n \<or> w \<Longrightarrow> w_acq c = None"
    using of_nat_u32_inj [of n 0] by (auto simp: ctr_rep_def w_acq_def split: if_splits)
  show "ctr_rep c 1 False \<Longrightarrow> \<exists>d. upg c = Some d \<and> ctr_rep d 0 True"
    by (simp add: ctr_rep_def upg_def)
  show "ctr_rep c n w \<Longrightarrow> n \<noteq> 1 \<Longrightarrow> upg c = None"
    using of_nat_u32_inj [of n 1] by (auto simp: ctr_rep_def upg_def split: if_splits)
  show "ctr_rep c (Suc n) False \<Longrightarrow> ctr_rep (r_rel c) n False"
    by (simp add: ctr_rep_def r_rel_def)
  show "ctr_rep c 0 True \<Longrightarrow> ctr_rep (w_rel c) 0 False"
    by (simp add: ctr_rep_def w_rel_def)
qed

section \<open>Theorems\<close>

text \<open>
  C6. The lock operations are linearizable: whatever the other threads do to the counter
  between two accesses, an operation that returns has changed it exactly once, at its
  last access, by the atomic change of that operation (a try operation that returns false
  was refused by the counter value it last saw and changed nothing).
\<close>

theorem rwlock_linearizable:
  "(r_trylock es c = Some (b, es', c') \<longrightarrow> atomic_try r_acq es c b es' c') \<and>
    (w_trylock es c = Some (b, es', c') \<longrightarrow> atomic_try w_acq es c b es' c') \<and>
    (tryupgrade es c = Some (b, es', c') \<longrightarrow> atomic_try upg es c b es' c') \<and>
    (r_lock es c = Some (es', c') \<longrightarrow> atomic_try r_acq es c True es' c') \<and>
    (w_lock es c = Some (es', c') \<longrightarrow> atomic_try w_acq es c True es' c') \<and>
    (upgrade es c = Some (es', c') \<longrightarrow> atomic_try upg es c True es' c')"
  unfolding rwlock_defs by (blast intro: load_try_atomic load_lock_atomic)

theorem rwlock_linearizable_witness:
  "atomic_try r_acq [\<lambda>c. c, \<lambda>c. c + 1, \<lambda>c. c] 1 True [] 3"
  using rwlock_linearizable [where es = "[\<lambda>c. c, \<lambda>c. c + 1, \<lambda>c. c]" and c = 1
      and b = True and es' = "[]" and c' = 3]
  by (simp add: r_trylock_def try_loop.simps r_acq_def)

text \<open>
  Progress of the blocking operations: each returns when, at some access after the
  first load, the counter admits it and the other threads leave the counter alone until
  the next access (a free counter for the write lock, no writer for a read lock, a single
  reader for the upgrade).
\<close>

theorem rwlock_returns:
  assumes "pre \<noteq> []" and "e (apply_env pre c) = apply_env pre c"
  shows "(apply_env pre c \<noteq> -1 \<longrightarrow> (\<exists>r. r_lock (pre @ e # post) c = Some r)) \<and>
    (apply_env pre c = 0 \<longrightarrow> (\<exists>r. w_lock (pre @ e # post) c = Some r)) \<and>
    (apply_env pre c = 1 \<longrightarrow> (\<exists>r. upgrade (pre @ e # post) c = Some r))"
proof -
  have "step (apply_env pre c) \<noteq> None \<Longrightarrow>
      \<exists>r. Option.bind (ctr_load (pre @ e # post) c) (\<lambda>(x, es, c). lock_loop step x es c) = Some r" for step
    using load_lock_returns [where step = step] assms by blast
  from this [of r_acq] this [of w_acq] this [of upg] show ?thesis
    unfolding rwlock_defs by (simp add: r_acq_def w_acq_def upg_def)
qed

theorem rwlock_returns_witness:
  "\<exists>r. w_lock ([\<lambda>c. c, \<lambda>c. c - 1] @ (\<lambda>c. c) # []) 1 = Some r"
  using rwlock_returns [of "[\<lambda>c. c, \<lambda>c. c - 1]" "\<lambda>c. c" 1 "[]"] by simp

text \<open>
  With no other thread at work a lock taken and released leaves the counter as it
  was, and the try operations succeed exactly when the blocking ones would not wait.
\<close>

theorem rwlock_quiet_roundtrip:
  "(c = -1 \<or> r_lock [id, id] c = Some ([], c + 1) \<and> r_unlock [id] (c + 1) = Some ([], c)) \<and>
   (c \<noteq> 0 \<or> w_lock [id, id] c = Some ([], -1) \<and> w_unlock [id] (-1) = Some ([], c)) \<and>
   (\<exists>es c'. r_trylock [id, id] c = Some (c \<noteq> -1, es, c')) \<and>
   (\<exists>es c'. w_trylock [id, id] c = Some (c = 0, es, c')) \<and>
   (\<exists>es c'. tryupgrade [id, id] c = Some (c = 1, es, c'))"
  by (simp add: rwlock_defs r_acq_def w_acq_def upg_def r_rel_def w_rel_def try_loop.simps)

theorem rwlock_quiet_roundtrip_witness:
  "w_lock [id, id] 0 = Some ([], -1) \<and> w_unlock [id] (-1) = Some ([], 0)"
  using rwlock_quiet_roundtrip [of 0] by simp

end
