(* ===== verification/Procedures.thy ===== *)
theory Procedures
  imports Prelude
begin

text \<open>
  The workload description every benchmark shares (\<^verbatim>\<open>include/procedure.hh\<close>), and the
  small helpers of \<^verbatim>\<open>include/util.hh\<close> and \<^verbatim>\<open>common/util.cc\<close> that decide something:
  clock spans, the generator of a transaction's operations, and the number of threads
  that build the table.
\<close>

section \<open>Operations of a transaction\<close>

datatype ope = READ | WRITE | READ_MODIFY_WRITE

record procedure =
  p_ope :: ope
  p_key :: key
  p_ronly :: bool
  p_wonly :: bool

definition Procedure :: "ope \<Rightarrow> key \<Rightarrow> procedure" where
  "Procedure oper k = \<lparr>p_ope = oper, p_key = k, p_ronly = False, p_wonly = False\<rparr>"

text \<open>\<^verbatim>\<open>Procedure::operator<\<close>, the order that \<^verbatim>\<open>std::sort\<close> gets for the procedures.\<close>

definition procedure_less :: "procedure \<Rightarrow> procedure \<Rightarrow> bool" where
  "procedure_less l r =
     (if p_key l = p_key r \<and> p_ope l = WRITE \<and> p_ope r = READ then True
      else if p_key l = p_key r \<and> p_ope l = WRITE \<and> p_ope r = WRITE then True
      else p_key l < p_key r)"

section \<open>Clock spans\<close>

text \<open>
  \<^verbatim>\<open>chkClkSpan\<close>: the difference of two time stamps is taken in \<^verbatim>\<open>uint64_t\<close>, so it wraps.
\<close>

definition chkClkSpan :: "u64 \<Rightarrow> u64 \<Rightarrow> u64 \<Rightarrow> bool" where
  "chkClkSpan start stop threshold =
     (let diff = stop - start in if diff > threshold then True else False)"

definition chkClkSpanSec :: "u64 \<Rightarrow> u64 \<Rightarrow> u32 \<Rightarrow> u64 \<Rightarrow> bool option" where
  "chkClkSpanSec start stop clocks_per_us sec =
     (if clocks_per_us = 0 then None
      else
        (let diff = stop - start;
             diff = diff div ucast clocks_per_us div 1000 div 1000
         in Some (if diff > sec then True else False)))"

lemma chkClkSpan_unat:
  "start \<le> stop \<Longrightarrow> chkClkSpan start stop th \<longleftrightarrow> unat th < unat stop - unat start"
  by (simp add: chkClkSpan_def word_less_nat_alt unat_sub)

section \<open>Generating the operations\<close>

text \<open>
  \<^verbatim>\<open>makeProcedure\<close>. The generators are arguments: \<open>zipf i\<close> and \<open>rk i\<close> are what the
  Zipf and the uniform generator return for the key of operation \<open>i\<close>, \<open>rt i\<close> what
  \<^verbatim>\<open>rnd.next()\<close> returns for its type. A division or a remainder by zero is undefined
  behaviour in C++ (a trap on this target): \<open>None\<close>. The build switch \<^verbatim>\<open>KEY_SORT\<close>, off by
  default, is not modelled, its comparison is (\<open>procedure_less\<close>).
\<close>

record workload =
  tuple_num :: u64
  max_ope :: nat
  thread_num :: u64
  rratio :: u64
  rmw :: bool
  ycsb :: bool
  partitioned :: bool

definition div_u64 :: "u64 \<Rightarrow> u64 \<Rightarrow> u64 option" where
  "div_u64 a b = (if b = 0 then None else Some (a div b))"

definition mod_u64 :: "u64 \<Rightarrow> u64 \<Rightarrow> u64 option" where
  "mod_u64 a b = (if b = 0 then None else Some (a mod b))"

definition proc_key :: "workload \<Rightarrow> u64 \<Rightarrow> u64 \<Rightarrow> u64 \<Rightarrow> key option" where
  "proc_key w thread_id zipf rnd =
     (if ycsb w then
        (if partitioned w then
           Option.bind (div_u64 (tuple_num w) (thread_num w)) (\<lambda>block_size.
           Option.bind (mod_u64 zipf block_size) (\<lambda>m. Some (block_size * thread_id + m)))
         else mod_u64 zipf (tuple_num w))
      else
        (if partitioned w then
           Option.bind (div_u64 (tuple_num w) (thread_num w)) (\<lambda>block_size.
           Option.bind (mod_u64 rnd block_size) (\<lambda>m. Some (block_size * thread_id + m)))
         else mod_u64 rnd (tuple_num w)))"

definition proc_ope :: "workload \<Rightarrow> u64 \<Rightarrow> ope" where
  "proc_ope w r = (if r mod 100 < rratio w then READ
                   else if rmw w then READ_MODIFY_WRITE else WRITE)"

fun make_loop ::
  "workload \<Rightarrow> u64 \<Rightarrow> (nat \<Rightarrow> u64) \<Rightarrow> (nat \<Rightarrow> u64) \<Rightarrow> (nat \<Rightarrow> u64) \<Rightarrow> nat \<Rightarrow> nat
   \<Rightarrow> procedure list \<Rightarrow> bool \<Rightarrow> bool \<Rightarrow> (procedure list \<times> bool \<times> bool) option" where
  "make_loop w tid zipf rk rt i 0 pro ronly wonly = Some (pro, ronly, wonly)"
| "make_loop w tid zipf rk rt i (Suc n) pro ronly wonly =
     (case proc_key w tid (zipf i) (rk i) of
        None \<Rightarrow> None
      | Some k \<Rightarrow>
          (let o' = proc_ope w (rt i)
           in make_loop w tid zipf rk rt (Suc i) n (pro @ [Procedure o' k])
                (if o' = READ then ronly else False) (if o' = READ then False else wonly)))"

text \<open>
  \<^verbatim>\<open>(*pro.begin())\<close> of an empty vector is undefined behaviour: \<open>None\<close>.
\<close>

definition makeProcedure ::
  "workload \<Rightarrow> u64 \<Rightarrow> (nat \<Rightarrow> u64) \<Rightarrow> (nat \<Rightarrow> u64) \<Rightarrow> (nat \<Rightarrow> u64) \<Rightarrow> procedure list option" where
  "makeProcedure w tid zipf rk rt =
     (case make_loop w tid zipf rk rt 0 (max_ope w) [] True True of
        None \<Rightarrow> None
      | Some ([], _, _) \<Rightarrow> None
      | Some (p # ps, ronly, wonly) \<Rightarrow> Some (p\<lparr>p_ronly := ronly, p_wonly := wonly\<rparr> # ps))"

lemma make_loop_spec:
  "make_loop w tid zipf rk rt i n pro ronly wonly = Some (pro', ronly', wonly') \<Longrightarrow>
   \<exists>new. pro' = pro @ new \<and> length new = n \<and>
     (\<forall>j < n. proc_key w tid (zipf (i + j)) (rk (i + j)) = Some (p_key (new ! j)) \<and>
              p_ope (new ! j) = proc_ope w (rt (i + j))) \<and>
     (ronly' \<longleftrightarrow> ronly \<and> (\<forall>p \<in> set new. p_ope p = READ)) \<and>
     (wonly' \<longleftrightarrow> wonly \<and> (\<forall>p \<in> set new. p_ope p \<noteq> READ))"
proof (induction n arbitrary: i pro ronly wonly)
  case 0
  then show ?case by simp
next
  case (Suc n)
  obtain k where k: "proc_key w tid (zipf i) (rk i) = Some k"
    using Suc.prems by (auto split: option.splits)
  let ?p = "Procedure (proc_ope w (rt i)) k"
  have p: "p_key ?p = k" "p_ope ?p = proc_ope w (rt i)" by (simp_all add: Procedure_def)
  have "make_loop w tid zipf rk rt (Suc i) n (pro @ [?p])
      (if proc_ope w (rt i) = READ then ronly else False)
      (if proc_ope w (rt i) = READ then False else wonly) = Some (pro', ronly', wonly')"
    using Suc.prems k by (simp add: Let_def)
  from Suc.IH [OF this] obtain new where new: "pro' = (pro @ [?p]) @ new" "length new = n"
    "\<forall>j < n. proc_key w tid (zipf (Suc i + j)) (rk (Suc i + j)) = Some (p_key (new ! j)) \<and>
             p_ope (new ! j) = proc_ope w (rt (Suc i + j))"
    "ronly' \<longleftrightarrow> (if proc_ope w (rt i) = READ then ronly else False) \<and> (\<forall>p \<in> set new. p_ope p = READ)"
    "wonly' \<longleftrightarrow> (if proc_ope w (rt i) = READ then False else wonly) \<and> (\<forall>p \<in> set new. p_ope p \<noteq> READ)"
    by blast
  have "\<forall>j < Suc n. proc_key w tid (zipf (i + j)) (rk (i + j)) = Some (p_key ((?p # new) ! j)) \<and>
             p_ope ((?p # new) ! j) = proc_ope w (rt (i + j))"
    using k p new(3) by (auto simp: less_Suc_eq_0_disj)
  with new p show ?case by (intro exI [of _ "?p # new"]) auto
qed

text \<open>
  A key that \<^verbatim>\<open>makeProcedure\<close> generates is a record of the table; with a partitioned
  table it is in the block of the generating thread.
\<close>

lemma unat_less_mod: "(b :: u64) \<noteq> 0 \<Longrightarrow> a mod b < b"
  by (simp add: word_less_nat_alt unat_mod unat_gt_0)

lemma proc_key_bound:
  "\<not> partitioned w \<Longrightarrow> proc_key w tid z r = Some k \<Longrightarrow> k < tuple_num w"
  by (auto simp: proc_key_def mod_u64_def unat_less_mod split: if_splits)

lemma proc_key_partition:
  assumes "partitioned w" "tid < thread_num w" "proc_key w tid z r = Some k"
  shows "k < tuple_num w \<and>
    unat k div (unat (tuple_num w) div unat (thread_num w)) = unat tid"
proof -
  define B where "B = unat (tuple_num w) div unat (thread_num w)"
  have "\<exists>m. m < tuple_num w div thread_num w \<and> k = (tuple_num w div thread_num w) * tid + m"
    using assms(1,3)
    by (auto simp: proc_key_def div_u64_def mod_u64_def unat_less_mod split: if_splits)
  then obtain m where m: "m < tuple_num w div thread_num w"
    and k: "k = (tuple_num w div thread_num w) * tid + m"
    by blast
  have B: "unat (tuple_num w div thread_num w) = B" by (simp add: B_def unat_div)
  have mB: "unat m < B" using m B by (simp add: word_less_nat_alt)
  have t: "unat tid + 1 \<le> unat (thread_num w)" using assms(2) by (simp add: word_less_nat_alt)
  have "B * unat tid + B \<le> B * unat (thread_num w)"
    using mult_le_mono2 [OF t, of B] by simp
  also have "\<dots> \<le> unat (tuple_num w)" by (simp add: B_def)
  finally have le: "B * unat tid + B \<le> unat (tuple_num w)" .
  have lt: "B * unat tid + unat m < 2 ^ 64"
    using le mB unat_u64_less [of "tuple_num w"] by simp
  have "unat k = B * unat tid + unat m"
    using lt unfolding k unat_word_ariths B
    by (simp add: mod_mult_left_eq mod_add_left_eq B_def)
  with le mB show ?thesis
    by (simp add: word_less_nat_alt B_def [symmetric] div_add1_eq)
qed

section \<open>Building the table in parallel\<close>

text \<open>
  \<^verbatim>\<open>decideParallelBuildNumber\<close>; \<open>hw\<close> is \<^verbatim>\<open>std::thread::hardware_concurrency()\<close>, which may
  be 0. The inner \<^verbatim>\<open>if (i == 1) ERR\<close> is an abort of the process: \<open>None\<close>.
\<close>

fun decide_loop :: "nat \<Rightarrow> nat \<Rightarrow> nat option" where
  "decide_loop tn 0 = Some 0"
| "decide_loop tn (Suc i) =
     (if tn mod Suc i = 0 then Some (Suc i)
      else if Suc i = 1 then None
      else decide_loop tn i)"

definition decideParallelBuildNumber :: "nat \<Rightarrow> nat \<Rightarrow> nat option" where
  "decideParallelBuildNumber hw tn = (if tn < 1000 then Some 1 else decide_loop tn hw)"

text \<open>
  The range \<open>[first, last]\<close> of records that build thread \<open>i\<close> of \<open>n\<close> initialises, as
  \<^verbatim>\<open>makeDB\<close> passes it to \<^verbatim>\<open>partTableInit\<close>, in \<^verbatim>\<open>size_t\<close> arithmetic.
\<close>

definition part_range :: "nat \<Rightarrow> nat \<Rightarrow> nat \<Rightarrow> nat \<times> nat" where
  "part_range tn n i =
     (i * (tn div n) mod 2 ^ 64, ((i + 1) * (tn div n) + (2 ^ 64 - 1)) mod 2 ^ 64)"

lemma decide_loop_divides:
  "0 < hw \<Longrightarrow> \<exists>n. decide_loop tn hw = Some n \<and> 0 < n \<and> n dvd tn"
proof (induction tn hw rule: decide_loop.induct)
  case (1 tn)
  then show ?case by simp
next
  case (2 tn i)
  then show ?case
    by (cases "tn mod Suc i = 0"; cases i) (auto simp: mod_eq_0_iff_dvd)
qed


lemma decide_loop_le: "decide_loop tn hw = Some n \<Longrightarrow> n \<le> hw"
  by (induction tn hw rule: decide_loop.induct) (auto split: if_splits)

section \<open>Theorems\<close>

text \<open>
  The order of \<^verbatim>\<open>Procedure::operator<\<close> is transitive, but it is not a strict weak
  ordering, which \<^verbatim>\<open>std::sort\<close> requires: it is not irreflexive, a write is smaller than
  itself and than every other write of the same key; and on one key a
  read-modify-write is equivalent to a read and to a write, while the write is smaller
  than the read.
\<close>

theorem procedure_less_order:
  "(procedure_less p p \<longleftrightarrow> p_ope p = WRITE) \<and>
   (procedure_less p q \<and> procedure_less q p \<longleftrightarrow>
      p_key p = p_key q \<and> p_ope p = WRITE \<and> p_ope q = WRITE) \<and>
   (\<not> procedure_less p q \<or> \<not> procedure_less q r \<or> procedure_less p r) \<and>
   \<not> procedure_less (Procedure READ_MODIFY_WRITE k) (Procedure READ k) \<and>
   \<not> procedure_less (Procedure READ k) (Procedure READ_MODIFY_WRITE k) \<and>
   \<not> procedure_less (Procedure READ_MODIFY_WRITE k) (Procedure WRITE k) \<and>
   \<not> procedure_less (Procedure WRITE k) (Procedure READ_MODIFY_WRITE k) \<and>
   procedure_less (Procedure WRITE k) (Procedure READ k)"
  by (cases "p_ope p"; cases "p_ope q"; cases "p_ope r")
    (auto simp: procedure_less_def Procedure_def)

theorem procedure_less_order_witness:
  "procedure_less (Procedure WRITE 1) (Procedure WRITE 1) \<and>
   procedure_less (Procedure WRITE 1) (Procedure READ 1)"
  using procedure_less_order [of "Procedure WRITE 1" "Procedure READ 1" "Procedure READ 2" 1]
  by (simp add: Procedure_def)

text \<open>
  The generated transaction: when \<^verbatim>\<open>makeProcedure\<close> returns, it has produced
  \<open>max_ope\<close> operations; each key is a record of the table and, with a partitioned table
  and \<open>tid < thread_num\<close>, one of the block of the generating thread; the flags on the
  first operation say that all operations are reads, and that none is.
\<close>

theorem makeProcedure_spec:
  assumes "makeProcedure w tid zipf rk rt = Some ps" and "tid < thread_num w"
  shows "length ps = max_ope w \<and>
    (\<forall>p \<in> set ps. p_key p < tuple_num w \<and>
       (partitioned w \<longrightarrow> unat (p_key p) div (unat (tuple_num w) div unat (thread_num w)) = unat tid)) \<and>
    (p_ronly (hd ps) \<longleftrightarrow> (\<forall>p \<in> set ps. p_ope p = READ)) \<and>
    (p_wonly (hd ps) \<longleftrightarrow> (\<forall>p \<in> set ps. p_ope p \<noteq> READ))"
proof -
  obtain p qs r wo where m: "make_loop w tid zipf rk rt 0 (max_ope w) [] True True = Some (p # qs, r, wo)"
    and ps: "ps = p\<lparr>p_ronly := r, p_wonly := wo\<rparr> # qs"
    using assms(1) by (auto simp: makeProcedure_def split: option.splits list.splits prod.splits)
  from make_loop_spec [OF m] have n: "length (p # qs) = max_ope w"
    and key: "\<forall>j < max_ope w. proc_key w tid (zipf j) (rk j) = Some (p_key ((p # qs) ! j))"
    and fl: "r \<longleftrightarrow> (\<forall>p \<in> set (p # qs). p_ope p = READ)" "wo \<longleftrightarrow> (\<forall>p \<in> set (p # qs). p_ope p \<noteq> READ)"
    by auto
  have "p_key q < tuple_num w \<and>
       (partitioned w \<longrightarrow> unat (p_key q) div (unat (tuple_num w) div unat (thread_num w)) = unat tid)"
    if "q \<in> set (p # qs)" for q
  proof -
    from that n obtain j where "j < max_ope w" "(p # qs) ! j = q"
      by (metis in_set_conv_nth)
    with key have "proc_key w tid (zipf j) (rk j) = Some (p_key q)" by auto
    then show ?thesis
      using proc_key_bound proc_key_partition assms(2) by (cases "partitioned w") blast+
  qed
  with n fl show ?thesis by (simp add: ps)
qed

definition demo_workload :: workload where
  "demo_workload = \<lparr>tuple_num = 10, max_ope = 3, thread_num = 2, rratio = 50, rmw = False,
     ycsb = True, partitioned = True\<rparr>"

lemma demo_workload_makes:
  "makeProcedure demo_workload 1 (\<lambda>i. of_nat i + 4) (\<lambda>_. 0) (\<lambda>i. 60 * of_nat i) =
   Some [Procedure READ 9, Procedure WRITE 5, Procedure READ 6]"
  by (simp add: makeProcedure_def demo_workload_def proc_key_def div_u64_def mod_u64_def
      proc_ope_def numeral_3_eq_3 Procedure_def)

theorem makeProcedure_spec_witness:
  "\<not> p_ronly (hd [Procedure READ 9, Procedure WRITE 5, Procedure READ 6])"
  using makeProcedure_spec [OF demo_workload_makes]
  by (simp add: demo_workload_def Procedure_def)

text \<open>
  The parallel build is a partition of the table: when the machine reports at least
  one core, \<^verbatim>\<open>decideParallelBuildNumber\<close> returns a number \<open>n\<close> of build threads, at most
  the cores or 1, and every record is in the range of exactly one of them.
\<close>

theorem parallel_build_partition:
  assumes "0 < hw" and "0 < tn" and "tn < 2 ^ 64"
  shows "\<exists>n. decideParallelBuildNumber hw tn = Some n \<and> 0 < n \<and> n \<le> hw \<and>
    (\<forall>r < tn. \<exists>!i. i < n \<and> fst (part_range tn n i) \<le> r \<and> r \<le> snd (part_range tn n i))"
proof -
  obtain n where n: "decideParallelBuildNumber hw tn = Some n" "0 < n" "n dvd tn" "n \<le> hw"
    using decide_loop_divides [OF assms(1), of tn] decide_loop_le assms(1)
    by (cases "tn < 1000") (auto simp: decideParallelBuildNumber_def Suc_le_eq)
  define b where "b = tn div n"
  have tn: "tn = n * b" using n(3) by (simp add: b_def)
  with assms(2) have b: "0 < b" by (cases b) auto
  have range: "part_range tn n i = (i * b, (i + 1) * b - 1)" if "i < n" for i
  proof -
    have "(i + 1) * b \<le> n * b" using that by (intro mult_le_mono1) simp
    then have le: "i * b + b \<le> tn" using tn by (simp add: algebra_simps)
    then have "((i + 1) * b + (2 ^ 64 - 1)) mod 2 ^ 64 = (i + 1) * b - 1"
    proof -
      have "(i + 1) * b + (2 ^ 64 - 1) = ((i + 1) * b - 1) + 2 ^ 64"
        using b by (simp add: algebra_simps)
      then have "((i + 1) * b + (2 ^ 64 - 1)) mod 2 ^ 64 = ((i + 1) * b - 1) mod 2 ^ 64"
        by (simp only: mod_add_self2)
      with le assms(3) show ?thesis by (simp add: algebra_simps)
    qed
    with le assms(3) b show ?thesis by (simp add: part_range_def b_def [symmetric])
  qed
  have "\<exists>!i. i < n \<and> fst (part_range tn n i) \<le> r \<and> r \<le> snd (part_range tn n i)" if r: "r < tn" for r
  proof -
    have iff: "i < n \<and> fst (part_range tn n i) \<le> r \<and> r \<le> snd (part_range tn n i) \<longleftrightarrow> i = r div b" for i
    proof
      assume a: "i < n \<and> fst (part_range tn n i) \<le> r \<and> r \<le> snd (part_range tn n i)"
      then have "b * i \<le> r" "r < b * Suc i" using b range [of i] by (auto simp: algebra_simps)
      then show "i = r div b" by (simp add: div_nat_eqI)
    next
      assume i: "i = r div b"
      have "r div b < n" using r tn b by (simp add: div_less_iff_less_mult)
      moreover have "r div b * b \<le> r" by (rule div_times_less_eq_dividend)
      moreover have "r < (r div b + 1) * b" using b by (simp add: dividend_less_div_times)
      ultimately show "i < n \<and> fst (part_range tn n i) \<le> r \<and> r \<le> snd (part_range tn n i)"
        using i range [of i] by simp
    qed
    then show ?thesis by simp
  qed
  with n show ?thesis by blast
qed

theorem parallel_build_partition_witness:
  "\<exists>n. decideParallelBuildNumber 8 6000 = Some n \<and> 0 < n \<and> n \<le> 8 \<and>
    (\<forall>r < 6000. \<exists>!i. i < n \<and> fst (part_range 6000 n i) \<le> r \<and> r \<le> snd (part_range 6000 n i))"
  using parallel_build_partition [of 8 6000] by simp

end
