(* ===== verification/Serial_Spec.thy ===== *)
theory Serial_Spec
  imports Prelude "HOL-Library.Multiset"
begin

text \<open>
  The abstract specification of a concurrency control protocol: what it means that a
  set of committed transactions could have run one after the other. A transaction is
  the list of values it read and the list of its writes, each a function of the value
  it overwrites (a write of fewer bytes than the record keeps the rest). The protocols
  prove that what they commit satisfies \<open>serial_ok\<close>.
\<close>

section \<open>Serial execution\<close>

type_synonym db = "key \<Rightarrow> val"

record txrec =
  tx_reads :: "(key \<times> val) list"
  tx_writes :: "(key \<times> (val \<Rightarrow> val)) list"

definition apply_write :: "key \<times> (val \<Rightarrow> val) \<Rightarrow> db \<Rightarrow> db" where
  "apply_write w d = d(fst w := snd w (d (fst w)))"

definition apply_tx :: "txrec \<Rightarrow> db \<Rightarrow> db" where
  "apply_tx t d = fold apply_write (tx_writes t) d"

definition serial_db :: "db \<Rightarrow> txrec list \<Rightarrow> db" where
  "serial_db d ts = fold apply_tx ts d"

text \<open>
  \<open>serial_ok d ts\<close>: run one after the other from database \<open>d\<close>, every transaction of \<open>ts\<close>
  reads exactly the values it recorded.
\<close>

fun serial_ok :: "db \<Rightarrow> txrec list \<Rightarrow> bool" where
  "serial_ok d [] = True"
| "serial_ok d (t # ts) = ((\<forall>(k, v) \<in> set (tx_reads t). d k = v) \<and> serial_ok (apply_tx t d) ts)"

lemma serial_db_Nil [simp]: "serial_db d [] = d"
  by (simp add: serial_db_def)

lemma serial_db_Cons [simp]: "serial_db d (t # ts) = serial_db (apply_tx t d) ts"
  by (simp add: serial_db_def)

lemma serial_db_append [simp]: "serial_db d (xs @ ys) = serial_db (serial_db d xs) ys"
  by (simp add: serial_db_def)

lemma serial_ok_append:
  "serial_ok d (xs @ ys) \<longleftrightarrow> serial_ok d xs \<and> serial_ok (serial_db d xs) ys"
  by (induction xs arbitrary: d) auto

lemma serial_ok_snoc:
  "serial_ok d (ts @ [t]) \<longleftrightarrow>
   serial_ok d ts \<and> (\<forall>(k, v) \<in> set (tx_reads t). serial_db d ts k = v)"
  by (simp add: serial_ok_append)

section \<open>Facts about the writes\<close>

lemma apply_write_same [simp]: "apply_write (k, f) d k = f (d k)"
  by (simp add: apply_write_def)

lemma apply_write_other [simp]: "fst w \<noteq> k \<Longrightarrow> apply_write w d k = d k"
  by (simp add: apply_write_def)

lemma fold_apply_write_other:
  "k \<notin> fst ` set ws \<Longrightarrow> fold apply_write ws d k = d k"
  by (induction ws arbitrary: d) auto

lemma apply_tx_other: "k \<notin> fst ` set (tx_writes t) \<Longrightarrow> apply_tx t d k = d k"
  by (simp add: apply_tx_def fold_apply_write_other)

lemma fold_apply_write_in:
  "distinct (map fst ws) \<Longrightarrow> (k, f) \<in> set ws \<Longrightarrow> fold apply_write ws d k = f (d k)"
proof (induction ws arbitrary: d)
  case Nil
  then show ?case by simp
next
  case (Cons w ws)
  show ?case
  proof (cases "w = (k, f)")
    case True
    with Cons.prems have "k \<notin> fst ` set ws" by auto
    with True show ?thesis by (simp add: fold_apply_write_other)
  next
    case False
    with Cons.prems(2) have f: "(k, f) \<in> set ws" by auto
    then have "k \<in> fst ` set ws" by force
    with Cons.prems(1) have "fst w \<noteq> k" by auto
    with f Cons show ?thesis by simp
  qed
qed

lemma apply_tx_in:
  "distinct (map fst (tx_writes t)) \<Longrightarrow> (k, f) \<in> set (tx_writes t) \<Longrightarrow> apply_tx t d k = f (d k)"
  by (simp add: apply_tx_def fold_apply_write_in)

section \<open>Histories that no order makes serial\<close>

definition unserializable :: "db \<Rightarrow> txrec list \<Rightarrow> bool" where
  "unserializable d ts \<longleftrightarrow> \<not> (\<exists>ps. mset ps = mset ts \<and> serial_ok d ps)"

lemma mset_two:
  assumes "mset ps = mset [a, b]"
  shows "ps = [a, b] \<or> ps = [b, a]"
proof -
  have "length ps = 2" using mset_eq_length [OF assms] by simp
  then obtain x y where "ps = [x, y]" by (cases ps; cases "tl ps") auto
  with assms show ?thesis by (auto simp: add_eq_conv_ex)
qed

lemma mset_three:
  assumes "mset ps = mset [a, b, c]"
  shows "ps \<in> {[a, b, c], [a, c, b], [b, a, c], [b, c, a], [c, a, b], [c, b, a]}"
proof -
  have "length ps = 3" using mset_eq_length [OF assms] by simp
  then obtain x y z where "ps = [x, y, z]" by (cases ps; cases "tl ps"; cases "tl (tl ps)") auto
  with assms show ?thesis by (auto simp: add_eq_conv_ex)
qed

lemma unserializable_two:
  "\<not> serial_ok d [a, b] \<Longrightarrow> \<not> serial_ok d [b, a] \<Longrightarrow> unserializable d [a, b]"
  unfolding unserializable_def using mset_two by metis

lemma unserializable_three:
  "\<forall>ps \<in> {[a, b, c], [a, c, b], [b, a, c], [b, c, a], [c, a, b], [c, b, a]}. \<not> serial_ok d ps \<Longrightarrow>
   unserializable d [a, b, c]"
  unfolding unserializable_def using mset_three by metis

end
