(* ===== verification/Ss2pl_Model.thy ===== *)
theory Ss2pl_Model
  imports Procedures Rw_Lock Serial_Spec
begin

text \<open>
  Strong strict two-phase locking: \<^verbatim>\<open>TxExecutor\<close> of \<^verbatim>\<open>ss2pl/transaction.cc\<close> and the worker
  loop of \<^verbatim>\<open>ss2pl/ss2pl.cc\<close>. A pointer to a tuple, and a pointer to its lock, is the
  index of the tuple in \<^verbatim>\<open>Table\<close> (\<^verbatim>\<open>get_tuple\<close>). Every operation is cut where another worker
  can interleave: at the lock acquisition, at the copy of a payload, at each release.
  Between the cuts an operation touches its executor only. \<open>dlr\<close> is the build switch:
  \<open>DLR0\<close> waits for a lock, \<open>DLR1\<close> aborts.
\<close>

section \<open>State\<close>

datatype dlr = DLR0 | DLR1

datatype txstatus = InFlight | Committed | Aborted

record ss_tuple =
  s_lock :: u32
  s_val :: val

type_synonym ss_table = "key \<Rightarrow> ss_tuple"

text \<open>\<^verbatim>\<open>SetElement\<close>; the payload of a write element is never initialised.\<close>

record set_element =
  se_key :: key
  se_rcdptr :: key
  se_val :: "val option"

record ss_tx =
  ss_thid :: nat
  ss_rlocks :: "key list"
  ss_wlocks :: "key list"
  ss_status :: txstatus
  ss_rset :: "set_element list"
  ss_wset :: "set_element list"
  ss_pro :: "procedure list"
  ss_wval :: val
  ss_ret :: val

definition get_tuple :: "key \<Rightarrow> key" where
  "get_tuple key = key"

definition ss_searchReadSet :: "key \<Rightarrow> ss_tx \<Rightarrow> set_element option" where
  "ss_searchReadSet k t = search_set se_key k (ss_rset t)"

definition ss_searchWriteSet :: "key \<Rightarrow> ss_tx \<Rightarrow> set_element option" where
  "ss_searchWriteSet k t = search_set se_key k (ss_wset t)"

definition set_lock :: "key \<Rightarrow> u32 \<Rightarrow> ss_table \<Rightarrow> ss_table" where
  "set_lock p c tb = tb(p := (tb p)\<lparr>s_lock := c\<rparr>)"

definition set_val :: "key \<Rightarrow> val \<Rightarrow> ss_table \<Rightarrow> ss_table" where
  "set_val p v tb = tb(p := (tb p)\<lparr>s_val := v\<rparr>)"

section \<open>The operations of TxExecutor\<close>

text \<open>
  What an operation leaves to do: \<open>Finished\<close>, the operation returned; \<open>Spinning\<close>, the
  lock is taken and the operation tries again; \<open>Payload\<close>, the lock is held and the
  payload is still to be copied.
\<close>

datatype ss_next = Finished | Spinning | Payload

definition ss_refused :: "dlr \<Rightarrow> ss_tx \<Rightarrow> ss_table \<Rightarrow> ss_next \<times> ss_tx \<times> ss_table" where
  "ss_refused d t tb =
     (case d of DLR0 \<Rightarrow> (Spinning, t, tb)
              | DLR1 \<Rightarrow> (Finished, t\<lparr>ss_status := Aborted\<rparr>, tb))"

definition ss_begin :: "ss_tx \<Rightarrow> ss_tx" where
  "ss_begin t = t\<lparr>ss_status := InFlight\<rparr>"

definition ss_read_lock :: "dlr \<Rightarrow> key \<Rightarrow> ss_tx \<Rightarrow> ss_table \<Rightarrow> ss_next \<times> ss_tx \<times> ss_table" where
  "ss_read_lock d k t tb =
     (if ss_searchWriteSet k t \<noteq> None \<or> ss_searchReadSet k t \<noteq> None then (Finished, t, tb)
      else
        (let tuple = get_tuple k in
         case r_acq (s_lock (tb tuple)) of
           Some c \<Rightarrow> (Payload, t\<lparr>ss_rlocks := ss_rlocks t @ [tuple]\<rparr>, set_lock tuple c tb)
         | None \<Rightarrow> ss_refused d t tb))"

definition ss_read_val :: "key \<Rightarrow> ss_tx \<Rightarrow> ss_table \<Rightarrow> ss_tx" where
  "ss_read_val k t tb =
     t\<lparr>ss_rset := ss_rset t @
        [\<lparr>se_key = k, se_rcdptr = get_tuple k, se_val = Some (s_val (tb (get_tuple k)))\<rparr>]\<rparr>"

text \<open>
  \<^verbatim>\<open>vector::erase\<close> of the first element that satisfies \<open>p\<close>.
\<close>

fun erase_first :: "('a \<Rightarrow> bool) \<Rightarrow> 'a list \<Rightarrow> 'a list" where
  "erase_first p [] = []"
| "erase_first p (x # xs) = (if p x then xs else x # erase_first p xs)"

text \<open>
  The upgrade of an element of the read set, shared word for word by \<^verbatim>\<open>write\<close> and
  \<^verbatim>\<open>readWrite\<close>: upgrade the lock, move it from the read lock list to the write lock list
  (the write set grows inside the loop that finds the lock), drop the read element.
\<close>

definition ss_upgrade ::
  "dlr \<Rightarrow> key \<Rightarrow> set_element \<Rightarrow> ss_tx \<Rightarrow> ss_table \<Rightarrow> ss_next \<times> ss_tx \<times> ss_table" where
  "ss_upgrade d k r t tb =
     (let p = se_rcdptr r in
      case upg (s_lock (tb p)) of
        None \<Rightarrow> ss_refused d t tb
      | Some c \<Rightarrow>
          (let t1 = (if p \<in> set (ss_rlocks t) then
                       t\<lparr>ss_wset := ss_wset t @ [\<lparr>se_key = k, se_rcdptr = p, se_val = None\<rparr>],
                         ss_wlocks := ss_wlocks t @ [p],
                         ss_rlocks := erase_first (\<lambda>l. l = p) (ss_rlocks t)\<rparr>
                     else t)
           in (Finished, t1\<lparr>ss_rset := erase_first (\<lambda>e. se_key e = k) (ss_rset t1)\<rparr>,
               set_lock p c tb)))"

definition ss_register :: "key \<Rightarrow> ss_tx \<Rightarrow> ss_tx" where
  "ss_register k t =
     t\<lparr>ss_wlocks := ss_wlocks t @ [get_tuple k],
       ss_wset := ss_wset t @ [\<lparr>se_key = k, se_rcdptr = get_tuple k, se_val = None\<rparr>]\<rparr>"

definition ss_write :: "dlr \<Rightarrow> key \<Rightarrow> ss_tx \<Rightarrow> ss_table \<Rightarrow> ss_next \<times> ss_tx \<times> ss_table" where
  "ss_write d k t tb =
     (if ss_searchWriteSet k t \<noteq> None then (Finished, t, tb)
      else case ss_searchReadSet k t of
        Some r \<Rightarrow> ss_upgrade d k r t tb
      | None \<Rightarrow>
          (let tuple = get_tuple k in
           case w_acq (s_lock (tb tuple)) of
             None \<Rightarrow> ss_refused d t tb
           | Some c \<Rightarrow> (Finished, ss_register k t, set_lock tuple c tb)))"

definition ss_readWrite_lock :: "dlr \<Rightarrow> key \<Rightarrow> ss_tx \<Rightarrow> ss_table \<Rightarrow> ss_next \<times> ss_tx \<times> ss_table" where
  "ss_readWrite_lock d k t tb =
     (if ss_searchWriteSet k t \<noteq> None then (Finished, t, tb)
      else case ss_searchReadSet k t of
        Some r \<Rightarrow> ss_upgrade d k r t tb
      | None \<Rightarrow>
          (let tuple = get_tuple k in
           case w_acq (s_lock (tb tuple)) of
             None \<Rightarrow> ss_refused d t tb
           | Some c \<Rightarrow> (Payload, t, set_lock tuple c tb)))"

text \<open>The payload is copied to \<^verbatim>\<open>return_val_\<close>, then lock and element are registered.\<close>

definition ss_readWrite_val :: "key \<Rightarrow> ss_tx \<Rightarrow> ss_table \<Rightarrow> ss_tx" where
  "ss_readWrite_val k t tb = ss_register k (t\<lparr>ss_ret := s_val (tb (get_tuple k))\<rparr>)"

text \<open>One iteration of the loop of \<^verbatim>\<open>commit\<close> over the write set.\<close>

definition ss_commit_write :: "nat \<Rightarrow> ss_tx \<Rightarrow> set_element \<Rightarrow> ss_table \<Rightarrow> ss_table" where
  "ss_commit_write val_size t e tb =
     set_val (se_rcdptr e) (memcpy (s_val (tb (se_rcdptr e))) (ss_wval t) val_size) tb"

text \<open>One iteration of each loop of \<^verbatim>\<open>unlockList\<close>.\<close>

definition ss_unlock_r :: "key \<Rightarrow> ss_table \<Rightarrow> ss_table" where
  "ss_unlock_r p tb = set_lock p (r_rel (s_lock (tb p))) tb"

definition ss_unlock_w :: "key \<Rightarrow> ss_table \<Rightarrow> ss_table" where
  "ss_unlock_w p tb = set_lock p (w_rel (s_lock (tb p))) tb"

text \<open>The end of \<^verbatim>\<open>unlockList\<close> and of its two callers: the local sets are cleared.\<close>

definition ss_clear :: "ss_tx \<Rightarrow> ss_tx" where
  "ss_clear t = t\<lparr>ss_rlocks := [], ss_wlocks := [], ss_rset := [], ss_wset := []\<rparr>"

end
