(* ===== verification/Ss2pl_System.thy ===== *)
theory Ss2pl_System
  imports Ss2pl_Model
begin

text \<open>
  Any number of workers of \<^verbatim>\<open>ss2pl/ss2pl.cc\<close> over one table, interleaved at the cuts of
  \<^verbatim>\<open>Ss2pl_Model\<close>. The control point of a worker says where in its loop it is; a step is
  one worker moving. Ghost state: the values a transaction read so far, and the list of
  the transactions that started their commit, in that order.
\<close>

section \<open>Control points and the step of one worker\<close>

datatype ss_outcome = ToCommit | ToRetry

datatype ss_pc =
    MakeProcedure
  | Retry
  | AtOps "procedure list"
  | AtReadVal key "procedure list"
  | AtReadWriteVal key "procedure list"
  | AtCommit "set_element list"
  | AtUnlockR "key list" ss_outcome
  | AtUnlockW "key list" ss_outcome

record ss_sys =
  table :: ss_table
  txs :: "nat \<Rightarrow> ss_tx"
  pcs :: "nat \<Rightarrow> ss_pc"
  g_reads :: "nat \<Rightarrow> (key \<times> val) list"
  g_committed :: "txrec list"

record ss_config =
  c_dlr :: dlr
  c_val_size :: nat
  c_workers :: nat

text \<open>After an operation the worker loop tests \<^verbatim>\<open>status_\<close>: on \<^verbatim>\<open>aborted\<close> it calls \<^verbatim>\<open>abort\<close>.\<close>

definition after_op :: "ss_tx \<Rightarrow> procedure list \<Rightarrow> ss_pc" where
  "after_op t ps =
     (if ss_status t = Aborted then AtUnlockR (ss_rlocks t) ToRetry else AtOps ps)"

definition upd_worker :: "nat \<Rightarrow> ss_tx \<Rightarrow> ss_pc \<Rightarrow> ss_sys \<Rightarrow> ss_sys" where
  "upd_worker w t pc s = s\<lparr>txs := (txs s)(w := t), pcs := (pcs s)(w := pc)\<rparr>"

text \<open>The next control point, given what the operation left to do.\<close>

definition op_result ::
  "nat \<Rightarrow> procedure \<Rightarrow> procedure list \<Rightarrow> (key \<Rightarrow> procedure list \<Rightarrow> ss_pc)
   \<Rightarrow> ss_next \<times> ss_tx \<times> ss_table \<Rightarrow> ss_sys \<Rightarrow> ss_sys" where
  "op_result w p ps payload r s =
     (case r of (n, t, tb) \<Rightarrow>
        (case n of
           Spinning \<Rightarrow> s
         | Finished \<Rightarrow> upd_worker w t (after_op t ps) (s\<lparr>table := tb\<rparr>)
         | Payload \<Rightarrow> upd_worker w t (payload (p_key p) ps) (s\<lparr>table := tb\<rparr>)))"

definition op_step :: "ss_config \<Rightarrow> nat \<Rightarrow> procedure \<Rightarrow> procedure list \<Rightarrow> ss_sys \<Rightarrow> ss_sys" where
  "op_step c w p ps s =
     (let t = txs s w; k = p_key p; d = c_dlr c in
      case p_ope p of
        READ \<Rightarrow> op_result w p ps AtReadVal (ss_read_lock d k t (table s)) s
      | WRITE \<Rightarrow> op_result w p ps AtReadVal (ss_write d k t (table s)) s
      | READ_MODIFY_WRITE \<Rightarrow>
          op_result w p ps AtReadWriteVal (ss_readWrite_lock d k t (table s)) s)"

definition commit_record :: "ss_config \<Rightarrow> nat \<Rightarrow> ss_sys \<Rightarrow> txrec" where
  "commit_record c w s =
     \<lparr>tx_reads = g_reads s w,
      tx_writes = map (\<lambda>e. (se_key e, \<lambda>v. memcpy v (ss_wval (txs s w)) (c_val_size c)))
                    (ss_wset (txs s w))\<rparr>"

text \<open>
  One step of worker \<open>w\<close>; \<open>pro\<close> is what \<^verbatim>\<open>makeProcedure\<close> generates when it is called.
\<close>

definition ss_step :: "ss_config \<Rightarrow> nat \<Rightarrow> procedure list \<Rightarrow> ss_sys \<Rightarrow> ss_sys" where
  "ss_step c w pro s =
     (let t = txs s w; tb = table s in
      case pcs s w of
        MakeProcedure \<Rightarrow> upd_worker w (t\<lparr>ss_pro := pro\<rparr>) Retry s
      | Retry \<Rightarrow>
          (upd_worker w (ss_begin t) (AtOps (ss_pro t)) s)\<lparr>g_reads := (g_reads s)(w := [])\<rparr>
      | AtOps [] \<Rightarrow>
          (upd_worker w t (AtCommit (ss_wset t)) s)
            \<lparr>g_committed := g_committed s @ [commit_record c w s]\<rparr>
      | AtOps (p # ps) \<Rightarrow> op_step c w p ps s
      | AtReadVal k ps \<Rightarrow>
          (let t' = ss_read_val k t tb in
           (upd_worker w t' (after_op t' ps) s)
             \<lparr>g_reads := (g_reads s)(w := g_reads s w @ [(k, s_val (tb (get_tuple k)))])\<rparr>)
      | AtReadWriteVal k ps \<Rightarrow>
          (let t' = ss_readWrite_val k t tb in
           (upd_worker w t' (after_op t' ps) s)
             \<lparr>g_reads := (g_reads s)(w := g_reads s w @ [(k, s_val (tb (get_tuple k)))])\<rparr>)
      | AtCommit (e # es) \<Rightarrow>
          upd_worker w t (AtCommit es) (s\<lparr>table := ss_commit_write (c_val_size c) t e tb\<rparr>)
      | AtCommit [] \<Rightarrow> upd_worker w t (AtUnlockR (ss_rlocks t) ToCommit) s
      | AtUnlockR (p # rs) out \<Rightarrow>
          upd_worker w t (AtUnlockR rs out) (s\<lparr>table := ss_unlock_r p tb\<rparr>)
      | AtUnlockR [] out \<Rightarrow> upd_worker w t (AtUnlockW (ss_wlocks t) out) s
      | AtUnlockW (p # ws) out \<Rightarrow>
          upd_worker w t (AtUnlockW ws out) (s\<lparr>table := ss_unlock_w p tb\<rparr>)
      | AtUnlockW [] out \<Rightarrow>
          upd_worker w (ss_clear t)
            (case out of ToCommit \<Rightarrow> MakeProcedure | ToRetry \<Rightarrow> Retry) s)"

text \<open>
  Initially every lock is free, every executor is as its constructor leaves it, and
  record \<open>k\<close> holds \<open>d k\<close>.
\<close>

definition tx_init :: "nat \<Rightarrow> val \<Rightarrow> ss_tx" where
  "tx_init thid wval =
     \<lparr>ss_thid = thid, ss_rlocks = [], ss_wlocks = [], ss_status = InFlight, ss_rset = [],
      ss_wset = [], ss_pro = [], ss_wval = wval, ss_ret = []\<rparr>"

definition sys_init :: "db \<Rightarrow> (nat \<Rightarrow> val) \<Rightarrow> ss_sys" where
  "sys_init d wv =
     \<lparr>table = (\<lambda>k. \<lparr>s_lock = 0, s_val = d k\<rparr>), txs = (\<lambda>w. tx_init w (wv w)),
      pcs = (\<lambda>_. MakeProcedure), g_reads = (\<lambda>_. []), g_committed = []\<rparr>"

definition ss_start :: "db \<Rightarrow> ss_sys \<Rightarrow> bool" where
  "ss_start d s \<longleftrightarrow> (\<exists>wv. s = sys_init d wv)"

definition ss_next_sys :: "ss_config \<Rightarrow> ss_sys \<Rightarrow> ss_sys \<Rightarrow> bool" where
  "ss_next_sys c s t \<longleftrightarrow> (\<exists>w pro. w < c_workers c \<and> t = ss_step c w pro s)"

abbreviation ss_reach :: "ss_config \<Rightarrow> db \<Rightarrow> ss_sys \<Rightarrow> bool" where
  "ss_reach c d \<equiv> reach (ss_start d) (ss_next_sys c)"

text \<open>A schedule is a list of workers, each with the operations it would generate.\<close>

fun ss_run :: "ss_config \<Rightarrow> (nat \<times> procedure list) list \<Rightarrow> ss_sys \<Rightarrow> ss_sys" where
  "ss_run c [] s = s"
| "ss_run c ((w, pro) # sched) s = ss_run c sched (ss_step c w pro s)"

lemma ss_run_reach:
  "ss_reach c d s \<Longrightarrow> \<forall>(w, pro) \<in> set sched. w < c_workers c \<Longrightarrow> ss_reach c d (ss_run c sched s)"
proof (induction sched arbitrary: s)
  case Nil
  then show ?case by simp
next
  case (Cons a sched)
  obtain w pro where a: "a = (w, pro)" by (cases a)
  with Cons.prems have "ss_next_sys c s (ss_step c w pro s)"
    by (auto simp: ss_next_sys_def)
  with Cons.prems(1) have "ss_reach c d (ss_step c w pro s)"
    by (rule reach_step)
  with Cons a show ?case by simp
qed

end
