(* ===== verification/Ss2pl_Proofs.thy ===== *)
theory Ss2pl_Proofs
  imports Ss2pl_System
begin

text \<open>
  The invariant of the two-phase locking system and its preservation by every step:
  the lock lists of an executor mirror its sets, every lock word counts exactly the
  workers that hold it, a payload differs from the serial database only under a pending
  commit, and what a running transaction read is still the serial value. Serializability
  in commit order is one of its conjuncts.
\<close>

section \<open>Who holds what\<close>

definition rheld :: "ss_tx \<Rightarrow> ss_pc \<Rightarrow> key set" where
  "rheld t pc =
     (case pc of AtUnlockR rs _ \<Rightarrow> set rs | AtUnlockW _ _ \<Rightarrow> {} | _ \<Rightarrow> set (ss_rlocks t))"

definition wheld :: "ss_tx \<Rightarrow> ss_pc \<Rightarrow> key set" where
  "wheld t pc =
     (case pc of AtUnlockW ws _ \<Rightarrow> set ws
               | AtReadWriteVal k _ \<Rightarrow> insert k (set (ss_wlocks t))
               | _ \<Rightarrow> set (ss_wlocks t))"

definition pending :: "ss_pc \<Rightarrow> key set" where
  "pending pc = (case pc of AtCommit es \<Rightarrow> se_key ` set es | _ \<Rightarrow> {})"

definition readers :: "ss_sys \<Rightarrow> key \<Rightarrow> nat set" where
  "readers s k = {w. k \<in> rheld (txs s w) (pcs s w)}"

definition writers :: "ss_sys \<Rightarrow> key \<Rightarrow> nat set" where
  "writers s k = {w. k \<in> wheld (txs s w) (pcs s w)}"

section \<open>The invariant\<close>

text \<open>One worker: lists and sets agree, nothing is locked twice.\<close>

definition wf_tx :: "ss_tx \<Rightarrow> ss_pc \<Rightarrow> bool" where
  "wf_tx t pc \<longleftrightarrow>
     ss_rlocks t = map se_key (ss_rset t) @ (case pc of AtReadVal k _ \<Rightarrow> [k] | _ \<Rightarrow> []) \<and>
     ss_wlocks t = map se_key (ss_wset t) \<and>
     distinct (map se_key (ss_rset t) @ map se_key (ss_wset t) @
       (case pc of AtReadVal k _ \<Rightarrow> [k] | AtReadWriteVal k _ \<Rightarrow> [k] | _ \<Rightarrow> [])) \<and>
     (\<forall>e \<in> set (ss_rset t) \<union> set (ss_wset t). se_rcdptr e = se_key e) \<and>
     (case pc of
        AtUnlockR rs _ \<Rightarrow> distinct rs \<and> set rs \<subseteq> set (ss_rlocks t)
      | AtUnlockW ws _ \<Rightarrow> distinct ws \<and> set ws \<subseteq> set (ss_wlocks t)
      | AtCommit es \<Rightarrow> set es \<subseteq> set (ss_wset t) \<and> distinct (map se_key es)
      | MakeProcedure \<Rightarrow> ss_rset t = [] \<and> ss_wset t = []
      | Retry \<Rightarrow> ss_rset t = [] \<and> ss_wset t = []
      | _ \<Rightarrow> True)"

definition in_ops :: "ss_pc \<Rightarrow> bool" where
  "in_ops pc = (case pc of AtOps _ \<Rightarrow> True | AtReadVal _ _ \<Rightarrow> True | AtReadWriteVal _ _ \<Rightarrow> True
                         | _ \<Rightarrow> False)"

definition wf_inv :: "ss_config \<Rightarrow> ss_sys \<Rightarrow> bool" where
  "wf_inv c s \<longleftrightarrow> (\<forall>w. wf_tx (txs s w) (pcs s w) \<and> (c_workers c \<le> w \<longrightarrow> pcs s w = MakeProcedure))"

definition lock_inv :: "ss_sys \<Rightarrow> bool" where
  "lock_inv s \<longleftrightarrow> (\<forall>k. held ctr_rep (s_lock (table s k)) (readers s k) (writers s k))"

definition val_inv :: "ss_config \<Rightarrow> db \<Rightarrow> ss_sys \<Rightarrow> bool" where
  "val_inv c d s \<longleftrightarrow>
     (\<forall>k. (\<forall>w. k \<notin> pending (pcs s w)) \<longrightarrow> s_val (table s k) = serial_db d (g_committed s) k) \<and>
     (\<forall>w k. k \<in> pending (pcs s w) \<longrightarrow>
        serial_db d (g_committed s) k =
          memcpy (s_val (table s k)) (ss_wval (txs s w)) (c_val_size c))"

definition read_inv :: "db \<Rightarrow> ss_sys \<Rightarrow> bool" where
  "read_inv d s \<longleftrightarrow>
     (\<forall>w k v. in_ops (pcs s w) \<longrightarrow> (k, v) \<in> set (g_reads s w) \<longrightarrow>
        serial_db d (g_committed s) k = v \<and> (w \<in> readers s k \<or> w \<in> writers s k))"

definition ss_inv :: "ss_config \<Rightarrow> db \<Rightarrow> ss_sys \<Rightarrow> bool" where
  "ss_inv c d s \<longleftrightarrow> wf_inv c s \<and> lock_inv s \<and> val_inv c d s \<and> read_inv d s \<and>
     serial_ok d (g_committed s)"

section \<open>Frame lemmas\<close>

lemma upd_worker_simps [simp]:
  "txs (upd_worker w t pc s) = (txs s)(w := t)"
  "pcs (upd_worker w t pc s) = (pcs s)(w := pc)"
  "table (upd_worker w t pc s) = table s"
  "g_reads (upd_worker w t pc s) = g_reads s"
  "g_committed (upd_worker w t pc s) = g_committed s"
  by (simp_all add: upd_worker_def)

lemma readers_simps [simp]:
  "readers (upd_worker w t pc s) k =
     (if k \<in> rheld t pc then insert w (readers s k) else readers s k - {w})"
  "readers (s\<lparr>table := tb\<rparr>) k = readers s k"
  "readers (s\<lparr>g_reads := gr\<rparr>) k = readers s k"
  "readers (s\<lparr>g_committed := gc\<rparr>) k = readers s k"
  by (auto simp: readers_def)

lemma writers_simps [simp]:
  "writers (upd_worker w t pc s) k =
     (if k \<in> wheld t pc then insert w (writers s k) else writers s k - {w})"
  "writers (s\<lparr>table := tb\<rparr>) k = writers s k"
  "writers (s\<lparr>g_reads := gr\<rparr>) k = writers s k"
  "writers (s\<lparr>g_committed := gc\<rparr>) k = writers s k"
  by (auto simp: writers_def)

lemma set_lock_simps [simp]:
  "s_lock (set_lock p c tb k) = (if k = p then c else s_lock (tb k))"
  "s_val (set_lock p c tb k) = s_val (tb k)"
  "s_lock (set_val p v tb k) = s_lock (tb k)"
  "s_val (set_val p v tb k) = (if k = p then v else s_val (tb k))"
  by (simp_all add: set_lock_def set_val_def)

lemma get_tuple_id [simp]: "get_tuple k = k"
  by (simp add: get_tuple_def)

text \<open>
  A step of one worker that leaves all keys but \<open>p\<close> alone keeps the lock invariant if it
  keeps it at \<open>p\<close>; a step that leaves all keys alone keeps it.
\<close>

lemma lock_inv_at:
  assumes inv: "lock_inv s"
    and other: "\<And>k. k \<noteq> p \<Longrightarrow> (k \<in> rheld t pc \<longleftrightarrow> w \<in> readers s k) \<and> (k \<in> wheld t pc \<longleftrightarrow> w \<in> writers s k)"
    and tb: "\<And>k. k \<noteq> p \<Longrightarrow> s_lock (tb k) = s_lock (table s k)"
    and p: "held ctr_rep (s_lock (tb p))
              (if p \<in> rheld t pc then insert w (readers s p) else readers s p - {w})
              (if p \<in> wheld t pc then insert w (writers s p) else writers s p - {w})"
  shows "lock_inv (upd_worker w t pc (s\<lparr>table := tb\<rparr>))"
  unfolding lock_inv_def
proof
  fix k
  show "held ctr_rep (s_lock (table (upd_worker w t pc (s\<lparr>table := tb\<rparr>)) k))
          (readers (upd_worker w t pc (s\<lparr>table := tb\<rparr>)) k)
          (writers (upd_worker w t pc (s\<lparr>table := tb\<rparr>)) k)"
  proof (cases "k = p")
    case True
    with p show ?thesis by (simp split: if_splits)
  next
    case False
    with inv other [OF False] tb [OF False] show ?thesis
      by (cases "w \<in> readers s k"; cases "w \<in> writers s k") (simp_all add: lock_inv_def insert_absorb)
  qed
qed

lemma lock_inv_same:
  assumes inv: "lock_inv s"
    and same: "rheld t pc = rheld (txs s w) (pcs s w)" "wheld t pc = wheld (txs s w) (pcs s w)"
    and tb: "\<And>k. s_lock (tb k) = s_lock (table s k)"
  shows "lock_inv (upd_worker w t pc (s\<lparr>table := tb\<rparr>))"
proof (rule lock_inv_at [where p = undefined])
  from inv show "held ctr_rep (s_lock (tb undefined))
      (if undefined \<in> rheld t pc then insert w (readers s undefined) else readers s undefined - {w})
      (if undefined \<in> wheld t pc then insert w (writers s undefined) else writers s undefined - {w})"
    by (cases "w \<in> readers s undefined"; cases "w \<in> writers s undefined")
      (simp_all add: lock_inv_def readers_def writers_def same tb insert_absorb)
qed (use inv same tb in \<open>auto simp: readers_def writers_def\<close>)

lemma lock_inv_ghost [simp]:
  "lock_inv (s\<lparr>g_reads := gr\<rparr>) = lock_inv s"
  "lock_inv (s\<lparr>g_committed := gc\<rparr>) = lock_inv s"
  by (simp_all add: lock_inv_def)


section \<open>What one operation does\<close>

text \<open>
  The ways an operation of a running transaction can end, from the point of view of the
  lock table: nothing changed (the key is in a local set already, or the transaction
  gave up), a read lock was taken, a write lock was taken with or without the payload
  to copy, a read lock was upgraded.
\<close>

inductive op_effect ::
  "ss_tx \<Rightarrow> ss_table \<Rightarrow> key \<Rightarrow> procedure list \<Rightarrow> ss_tx \<Rightarrow> ss_table \<Rightarrow> ss_pc \<Rightarrow> bool"
  for t tb k ps where
  unchanged: "t' = t \<or> t' = t\<lparr>ss_status := Aborted\<rparr> \<Longrightarrow> op_effect t tb k ps t' tb (after_op t' ps)"
| rlocked: "k \<notin> set (ss_rlocks t) \<Longrightarrow> k \<notin> set (ss_wlocks t) \<Longrightarrow> r_acq (s_lock (tb k)) = Some c \<Longrightarrow>
    op_effect t tb k ps (t\<lparr>ss_rlocks := ss_rlocks t @ [k]\<rparr>) (set_lock k c tb) (AtReadVal k ps)"
| wlocked: "k \<notin> set (ss_rlocks t) \<Longrightarrow> k \<notin> set (ss_wlocks t) \<Longrightarrow> w_acq (s_lock (tb k)) = Some c \<Longrightarrow>
    op_effect t tb k ps (ss_register k t) (set_lock k c tb) (after_op (ss_register k t) ps)"
| wpayload: "k \<notin> set (ss_rlocks t) \<Longrightarrow> k \<notin> set (ss_wlocks t) \<Longrightarrow> w_acq (s_lock (tb k)) = Some c \<Longrightarrow>
    op_effect t tb k ps t (set_lock k c tb) (AtReadWriteVal k ps)"
| upgraded: "k \<in> set (ss_rlocks t) \<Longrightarrow> upg (s_lock (tb k)) = Some c \<Longrightarrow>
    t' = t\<lparr>ss_wset := ss_wset t @ [\<lparr>se_key = k, se_rcdptr = k, se_val = None\<rparr>],
           ss_wlocks := ss_wlocks t @ [k],
           ss_rlocks := erase_first (\<lambda>l. l = k) (ss_rlocks t),
           ss_rset := erase_first (\<lambda>e. se_key e = k) (ss_rset t)\<rparr> \<Longrightarrow>
    op_effect t tb k ps t' (set_lock k c tb) (after_op t' ps)"

lemma wf_tx_AtOps:
  "wf_tx t (AtOps ps) \<longleftrightarrow>
     ss_rlocks t = map se_key (ss_rset t) \<and> ss_wlocks t = map se_key (ss_wset t) \<and>
     distinct (map se_key (ss_rset t) @ map se_key (ss_wset t)) \<and>
     (\<forall>e \<in> set (ss_rset t) \<union> set (ss_wset t). se_rcdptr e = se_key e)"
  by (simp only: wf_tx_def ss_pc.case append_Nil2 simp_thms)

lemma wf_tx_ops:
  assumes "wf_tx t (AtOps ps)"
  shows "ss_rlocks t = map se_key (ss_rset t)" "ss_wlocks t = map se_key (ss_wset t)"
    "distinct (ss_rlocks t @ ss_wlocks t)"
    "e \<in> set (ss_rset t) \<union> set (ss_wset t) \<Longrightarrow> se_rcdptr e = se_key e"
  using assms unfolding wf_tx_AtOps by (metis, metis, metis, metis)

lemma refused_effect:
  "ss_refused d t tb = (n, t', tb') \<Longrightarrow> n = Spinning \<or> n = Finished \<and> op_effect t tb k ps t' tb' (after_op t' ps)"
  by (auto simp: ss_refused_def intro: unchanged split: dlr.splits)

lemma search_locked:
  assumes "wf_tx t (AtOps ps)"
  shows "ss_searchWriteSet k t = None \<longleftrightarrow> k \<notin> set (ss_wlocks t)"
    "ss_searchReadSet k t = None \<longleftrightarrow> k \<notin> set (ss_rlocks t)"
  using wf_tx_ops [OF assms]
  by (simp_all add: ss_searchWriteSet_def ss_searchReadSet_def search_set_None)

lemma upgrade_effect:
  assumes wf: "wf_tx t (AtOps ps)" and r: "ss_searchReadSet k t = Some r"
    and u: "ss_upgrade d k r t tb = (n, t', tb')"
  shows "n = Spinning \<or> n = Finished \<and> op_effect t tb k ps t' tb' (after_op t' ps)"
proof -
  from r have e: "r \<in> set (ss_rset t)" "se_key r = k"
    by (auto simp: ss_searchReadSet_def dest: search_set_Some)
  with wf_tx_ops [OF wf] have p: "se_rcdptr r = k" and k: "k \<in> set (ss_rlocks t)" by auto
  show ?thesis
  proof (cases "upg (s_lock (tb k))")
    case None
    with u p show ?thesis by (auto simp: ss_upgrade_def dest: refused_effect)
  next
    case (Some c)
    with u p k show ?thesis
      by (auto simp: ss_upgrade_def Let_def intro: upgraded)
  qed
qed

lemma read_lock_effect:
  assumes wf: "wf_tx t (AtOps ps)" and u: "ss_read_lock d k t tb = (n, t', tb')"
  shows "n = Spinning \<or> n = Finished \<and> op_effect t tb k ps t' tb' (after_op t' ps) \<or>
    n = Payload \<and> op_effect t tb k ps t' tb' (AtReadVal k ps)"
proof (cases "ss_searchWriteSet k t \<noteq> None \<or> ss_searchReadSet k t \<noteq> None")
  case True
  with u show ?thesis by (auto simp: ss_read_lock_def intro: unchanged)
next
  case False
  with search_locked [OF wf] have k: "k \<notin> set (ss_rlocks t)" "k \<notin> set (ss_wlocks t)" by auto
  show ?thesis
  proof (cases "r_acq (s_lock (tb k))")
    case None
    with u False show ?thesis by (auto simp: ss_read_lock_def Let_def dest: refused_effect)
  next
    case (Some c)
    with u False k show ?thesis by (auto simp: ss_read_lock_def Let_def intro: rlocked)
  qed
qed

lemma write_effect:
  assumes wf: "wf_tx t (AtOps ps)" and u: "ss_write d k t tb = (n, t', tb')"
  shows "n = Spinning \<or> n = Finished \<and> op_effect t tb k ps t' tb' (after_op t' ps)"
proof (cases "ss_searchWriteSet k t")
  case (Some e)
  with u show ?thesis by (auto simp: ss_write_def intro: unchanged)
next
  case None
  show ?thesis
  proof (cases "ss_searchReadSet k t")
    case (Some r)
    with u None show ?thesis by (auto simp: ss_write_def dest!: upgrade_effect [OF wf])
  next
    case N: None
    with None search_locked [OF wf] have k: "k \<notin> set (ss_rlocks t)" "k \<notin> set (ss_wlocks t)" by auto
    show ?thesis
    proof (cases "w_acq (s_lock (tb k))")
      case None
      with u N \<open>ss_searchWriteSet k t = None\<close> show ?thesis
        by (auto simp: ss_write_def Let_def dest: refused_effect)
    next
      case (Some c)
      with u k N \<open>ss_searchWriteSet k t = None\<close> show ?thesis
        by (auto simp: ss_write_def Let_def intro: wlocked)
    qed
  qed
qed

lemma readWrite_effect:
  assumes wf: "wf_tx t (AtOps ps)" and u: "ss_readWrite_lock d k t tb = (n, t', tb')"
  shows "n = Spinning \<or> n = Finished \<and> op_effect t tb k ps t' tb' (after_op t' ps) \<or>
    n = Payload \<and> op_effect t tb k ps t' tb' (AtReadWriteVal k ps)"
proof (cases "ss_searchWriteSet k t")
  case (Some e)
  with u show ?thesis by (auto simp: ss_readWrite_lock_def intro: unchanged)
next
  case None
  show ?thesis
  proof (cases "ss_searchReadSet k t")
    case (Some r)
    with u None show ?thesis by (auto simp: ss_readWrite_lock_def dest!: upgrade_effect [OF wf])
  next
    case N: None
    with None search_locked [OF wf] have k: "k \<notin> set (ss_rlocks t)" "k \<notin> set (ss_wlocks t)" by auto
    show ?thesis
    proof (cases "w_acq (s_lock (tb k))")
      case None
      with u N \<open>ss_searchWriteSet k t = None\<close> show ?thesis
        by (auto simp: ss_readWrite_lock_def Let_def dest: refused_effect)
    next
      case (Some c)
      with u k N \<open>ss_searchWriteSet k t = None\<close> show ?thesis
        by (auto simp: ss_readWrite_lock_def Let_def intro: wpayload)
    qed
  qed
qed

lemma op_result_effect:
  "n = Spinning \<or> n = Finished \<and> E t' tb' (after_op t' ps) \<or>
     n = Payload \<and> E t' tb' (pl (p_key p) ps) \<Longrightarrow>
   op_result w p ps pl (n, t', tb') s = s \<or>
     (\<exists>t2 tb2 pc2. E t2 tb2 pc2 \<and>
        op_result w p ps pl (n, t', tb') s = upd_worker w t2 pc2 (s\<lparr>table := tb2\<rparr>))"
  by (cases n) (auto simp: op_result_def)

lemma op_step_effect:
  assumes "wf_tx (txs s w) (AtOps (p # ps))"
  shows "op_step c w p ps s = s \<or>
    (\<exists>t' tb' pc'. op_effect (txs s w) (table s) (p_key p) ps t' tb' pc' \<and>
       op_step c w p ps s = upd_worker w t' pc' (s\<lparr>table := tb'\<rparr>))"
proof -
  from assms have wf: "wf_tx (txs s w) (AtOps ps)" unfolding wf_tx_AtOps .
  show ?thesis
  proof (cases "p_ope p")
    case READ
    obtain n t' tb' where r: "ss_read_lock (c_dlr c) (p_key p) (txs s w) (table s) = (n, t', tb')"
      by (metis prod_cases3)
    from op_result_effect [where E = "op_effect (txs s w) (table s) (p_key p) ps" and ps = ps and p = p and w = w and s = s and pl = AtReadVal, OF read_lock_effect [OF wf r]] show ?thesis
      by (simp add: op_step_def Let_def READ r)
  next
    case WRITE
    obtain n t' tb' where r: "ss_write (c_dlr c) (p_key p) (txs s w) (table s) = (n, t', tb')"
      by (metis prod_cases3)
    from write_effect [OF wf r] have "n = Spinning \<or>
        n = Finished \<and> op_effect (txs s w) (table s) (p_key p) ps t' tb' (after_op t' ps) \<or>
        n = Payload \<and> op_effect (txs s w) (table s) (p_key p) ps t' tb' (AtReadVal (p_key p) ps)"
      by blast
    from op_result_effect [where E = "op_effect (txs s w) (table s) (p_key p) ps" and w = w and s = s
        and p = p and ps = ps and pl = AtReadVal, OF this] show ?thesis
      by (simp add: op_step_def Let_def WRITE r)
  next
    case READ_MODIFY_WRITE
    obtain n t' tb' where r: "ss_readWrite_lock (c_dlr c) (p_key p) (txs s w) (table s) = (n, t', tb')"
      by (metis prod_cases3)
    from op_result_effect [where E = "op_effect (txs s w) (table s) (p_key p) ps" and ps = ps and p = p and w = w and s = s and pl = AtReadWriteVal, OF readWrite_effect [OF wf r]] show ?thesis
      by (simp add: op_step_def Let_def READ_MODIFY_WRITE r)
  qed
qed


section \<open>Operations keep the invariant\<close>

lemma erase_first_map: "map f (erase_first (\<lambda>e. f e = k) xs) = erase_first (\<lambda>l. l = k) (map f xs)"
  by (induction xs) auto

lemma erase_first_distinct:
  "distinct xs \<Longrightarrow> set (erase_first (\<lambda>l. l = k) xs) = set xs - {k} \<and> distinct (erase_first (\<lambda>l. l = k) xs)"
  by (induction xs) auto

lemma set_erase_first: "set (erase_first p xs) \<subseteq> set xs"
  by (induction xs) auto

lemma after_op_simps [simp]:
  "rheld t (after_op t ps) = set (ss_rlocks t)"
  "wheld t (after_op t ps) = set (ss_wlocks t)"
  "pending (after_op t ps) = {}"
  by (simp_all add: after_op_def rheld_def wheld_def pending_def)

lemma held_simps [simp]:
  "rheld t (AtOps ps) = set (ss_rlocks t)" "wheld t (AtOps ps) = set (ss_wlocks t)"
  "rheld t (AtReadVal k ps) = set (ss_rlocks t)" "wheld t (AtReadVal k ps) = set (ss_wlocks t)"
  "rheld t (AtReadWriteVal k ps) = set (ss_rlocks t)"
  "wheld t (AtReadWriteVal k ps) = insert k (set (ss_wlocks t))"
  "rheld t (AtCommit es) = set (ss_rlocks t)" "wheld t (AtCommit es) = set (ss_wlocks t)"
  "rheld t (AtUnlockR rs out) = set rs" "wheld t (AtUnlockR rs out) = set (ss_wlocks t)"
  "rheld t (AtUnlockW ws out) = {}" "wheld t (AtUnlockW ws out) = set ws"
  "rheld t MakeProcedure = set (ss_rlocks t)" "wheld t MakeProcedure = set (ss_wlocks t)"
  "rheld t Retry = set (ss_rlocks t)" "wheld t Retry = set (ss_wlocks t)"
  by (simp_all add: rheld_def wheld_def)

lemma pending_simps [simp]:
  "pending (AtOps ps) = {}" "pending (AtReadVal k ps) = {}" "pending (AtReadWriteVal k ps) = {}"
  "pending (AtCommit es) = se_key ` set es" "pending (AtUnlockR rs out) = {}"
  "pending (AtUnlockW ws out) = {}" "pending MakeProcedure = {}" "pending Retry = {}"
  by (simp_all add: pending_def)

lemma in_ops_simps [simp]:
  "in_ops (AtOps ps)" "in_ops (AtReadVal k ps)" "in_ops (AtReadWriteVal k ps)"
  "\<not> in_ops (AtCommit es)" "\<not> in_ops (AtUnlockR rs out)" "\<not> in_ops (AtUnlockW ws out)"
  "\<not> in_ops MakeProcedure" "\<not> in_ops Retry"
  by (simp_all add: in_ops_def)

lemma ss_register_simps [simp]:
  "ss_rlocks (ss_register k t) = ss_rlocks t" "ss_wlocks (ss_register k t) = ss_wlocks t @ [k]"
  "ss_rset (ss_register k t) = ss_rset t" "ss_wval (ss_register k t) = ss_wval t"
  "ss_wset (ss_register k t) = ss_wset t @ [\<lparr>se_key = k, se_rcdptr = k, se_val = None\<rparr>]"
  by (simp_all add: ss_register_def)

lemma wf_after_op: "wf_tx t (AtOps ps) \<Longrightarrow> wf_tx t (after_op t ps)"
  by (simp add: after_op_def wf_tx_def)

lemma effect_wf:
  assumes "op_effect t tb k ps t' tb' pc'" and wf: "wf_tx t (AtOps ps)"
  shows "wf_tx t' pc'"
  using assms(1)
proof cases
  case (unchanged)
  from unchanged(3) wf have "wf_tx t' (AtOps ps)" unfolding wf_tx_AtOps by (elim disjE) simp_all
  with unchanged show ?thesis by (simp add: wf_after_op)
next
  case (rlocked c)
  with wf_tx_ops [OF wf] show ?thesis by (simp add: wf_tx_def)
next
  case (wlocked c)
  with wf_tx_ops [OF wf] have "wf_tx t' (AtOps ps)" unfolding wf_tx_AtOps by auto
  with wlocked show ?thesis by (simp add: wf_after_op)
next
  case (wpayload c)
  with wf_tx_ops [OF wf] show ?thesis by (auto simp: wf_tx_def)
next
  case (upgraded c)
  let ?R = "map se_key (ss_rset t)" and ?W = "map se_key (ss_wset t)"
  let ?R' = "erase_first (\<lambda>l. l = k) ?R"
  note w = wf_tx_ops [OF wf]
  have sets: "map se_key (ss_rset t') = ?R'" "map se_key (ss_wset t') = ?W @ [k]"
    "ss_rlocks t' = ?R'" "ss_wlocks t' = ?W @ [k]"
    using w(1,2) by (simp_all add: upgraded(5) erase_first_map)
  have RW: "distinct (?R @ ?W)" using w(1-3) by simp
  have k: "k \<in> set ?R" using w(1) upgraded(3) by simp
  have dR: "distinct ?R" and dW: "distinct ?W" and disj: "set ?R \<inter> set ?W = {}"
    using RW by (simp_all only: distinct_append)
  have sR': "set ?R' = set ?R - {k}" "distinct ?R'"
    using erase_first_distinct [OF dR, of k] by simp_all
  have "distinct (?R' @ ?W @ [k])"
    using sR' dW disj k by (simp only: distinct_append) auto
  moreover have "\<forall>e \<in> set (ss_rset t') \<union> set (ss_wset t'). se_rcdptr e = se_key e"
    using w(4) set_erase_first [of "\<lambda>e. se_key e = k" "ss_rset t"]
    by (auto simp: upgraded(5))
  ultimately have "wf_tx t' (AtOps ps)"
    unfolding wf_tx_AtOps sets by (intro conjI) simp_all
  with upgraded show ?thesis by (simp add: wf_after_op)
qed

lemma effect_frame:
  assumes "op_effect t tb k ps t' tb' pc'"
  shows "s_val (tb' x) = s_val (tb x)" "ss_wval t' = ss_wval t" "pending pc' = {}"
  using assms by (cases; auto)+

lemma effect_holds_more:
  assumes "op_effect t tb k ps t' tb' pc'" and wf: "wf_tx t (AtOps ps)"
  shows "set (ss_rlocks t) \<union> set (ss_wlocks t) \<subseteq> rheld t' pc' \<union> wheld t' pc'"
  using assms(1)
proof cases
  case (upgraded c)
  with erase_first_distinct [of "ss_rlocks t" k] wf_tx_ops(3) [OF wf] show ?thesis by auto
qed auto

lemma readers_bound: "wf_inv c s \<Longrightarrow> readers s k \<subseteq> {..<c_workers c}"
proof
  fix w
  assume wf: "wf_inv c s" and w: "w \<in> readers s k"
  show "w \<in> {..<c_workers c}"
  proof (rule ccontr)
    assume "w \<notin> {..<c_workers c}"
    with wf have "pcs s w = MakeProcedure" by (simp add: wf_inv_def)
    moreover from wf have "wf_tx (txs s w) (pcs s w)" by (simp add: wf_inv_def)
    ultimately show False using w by (simp add: readers_def wf_tx_def)
  qed
qed

lemma readers_card:
  assumes "wf_inv c s" "c_workers c \<le> 2 ^ 32 - 2" "w < c_workers c" "w \<notin> readers s k"
  shows "card (readers s k) < 2 ^ 32 - 2"
proof -
  from readers_bound [OF assms(1)] assms(3,4) have "readers s k \<subset> {..<c_workers c}" by blast
  then have "card (readers s k) < card {..<c_workers c}" by (rule psubset_card_mono [rotated]) simp
  with assms(2) show ?thesis by simp
qed

lemma effect_lock_inv:
  assumes eff: "op_effect (txs s w) (table s) k ps t' tb' pc'"
    and wf: "wf_inv c s" and inv: "lock_inv s" and pc: "pcs s w = AtOps ps'"
    and n: "c_workers c \<le> 2 ^ 32 - 2" "w < c_workers c"
  shows "lock_inv (upd_worker w t' pc' (s\<lparr>table := tb'\<rparr>))"
proof -
  from inv have h: "held ctr_rep (s_lock (table s k)) (readers s k) (writers s k)"
    by (simp add: lock_inv_def)
  from wf pc have wft: "wf_tx (txs s w) (AtOps ps)" unfolding wf_inv_def wf_tx_AtOps
    by (metis wf_tx_AtOps)
  have r: "w \<in> readers s x \<longleftrightarrow> x \<in> set (ss_rlocks (txs s w))"
    and wr: "w \<in> writers s x \<longleftrightarrow> x \<in> set (ss_wlocks (txs s w))" for x
    using pc by (simp_all add: readers_def writers_def)
  from eff show ?thesis
  proof cases
    case unchanged
    then show ?thesis using inv pc by (intro lock_inv_same) auto
  next
    case (rlocked c')
    with r have "w \<notin> readers s k" by simp
    with rwl.held_rtry [OF h rlocked(6), of w] readers_card [OF wf n(1) n(2)] 
    have "held ctr_rep c' (insert w (readers s k)) (writers s k)" "writers s k = {}" by auto
    then show ?thesis using inv rlocked r wr
      by (intro lock_inv_at [where p = k]) auto
  next
    case (wlocked c')
    from rwl.held_wtry [OF h wlocked(6), of w]
    show ?thesis using inv wlocked r wr
      by (intro lock_inv_at [where p = k]) auto
  next
    case (wpayload c')
    from rwl.held_wtry [OF h wpayload(6), of w]
    show ?thesis using inv wpayload r wr
      by (intro lock_inv_at [where p = k]) auto
  next
    case (upgraded c')
    with r have "w \<in> readers s k" by simp
    from rwl.held_uptry [OF h upgraded(4) this] erase_first_distinct [of "ss_rlocks (txs s w)" k]
      wf_tx_ops(3) [OF wft]
    show ?thesis using inv upgraded r wr
      by (intro lock_inv_at [where p = k]) auto
  qed
qed


section \<open>Every step keeps the invariant\<close>

lemma val_inv_upd:
  assumes "val_inv c d s" "pending (pcs s w) = {}" "pending pc = {}"
    and "\<And>k. s_val (tb k) = s_val (table s k)"
  shows "val_inv c d (upd_worker w t pc (s\<lparr>table := tb\<rparr>))"
proof -
  have "k \<in> pending (pcs (upd_worker w t pc (s\<lparr>table := tb\<rparr>)) v) \<longleftrightarrow> k \<in> pending (pcs s v)" for k v
    using assms(2,3) by simp
  moreover have "k \<in> pending (pcs s v) \<Longrightarrow> v \<noteq> w" for k v
    using assms(2) by auto
  ultimately show ?thesis
    using assms(1,4) unfolding val_inv_def by (simp del: upd_worker_simps(2))
qed

lemma read_inv_upd:
  assumes "read_inv d s"
    and "in_ops pc \<Longrightarrow> in_ops (pcs s w) \<and>
       rheld (txs s w) (pcs s w) \<union> wheld (txs s w) (pcs s w) \<subseteq> rheld t pc \<union> wheld t pc"
  shows "read_inv d (upd_worker w t pc (s\<lparr>table := tb\<rparr>))"
  unfolding read_inv_def
proof (intro allI impI)
  fix v k x
  let ?s = "upd_worker w t pc (s\<lparr>table := tb\<rparr>)"
  assume a: "in_ops (pcs ?s v)" "(k, x) \<in> set (g_reads ?s v)"
  have "in_ops (pcs s v)" using a assms(2) by (cases "v = w") auto
  with a assms(1) have "serial_db d (g_committed s) k = x" "v \<in> readers s k \<or> v \<in> writers s k"
    unfolding read_inv_def by auto
  moreover from this assms(2) a have "v \<in> readers ?s k \<or> v \<in> writers ?s k"
    by (cases "v = w") (auto simp: readers_def writers_def)
  ultimately show "serial_db d (g_committed ?s) k = x \<and> (v \<in> readers ?s k \<or> v \<in> writers ?s k)"
    by simp
qed

lemma wf_inv_upd:
  assumes "wf_inv c s" "w < c_workers c" "wf_tx t pc"
  shows "wf_inv c (upd_worker w t pc (s\<lparr>table := tb\<rparr>))"
  using assms by (simp add: wf_inv_def)

text \<open>The steps that change neither the committed list nor what was read.\<close>

lemma plain_step_inv:
  assumes inv: "ss_inv c d s" and w: "w < c_workers c"
    and wf: "wf_tx t pc"
    and li: "lock_inv (upd_worker w t pc (s\<lparr>table := tb\<rparr>))"
    and pend: "pending (pcs s w) = {}" "pending pc = {}"
    and vals: "\<And>k. s_val (tb k) = s_val (table s k)"
    and more: "in_ops pc \<Longrightarrow> in_ops (pcs s w) \<and>
       rheld (txs s w) (pcs s w) \<union> wheld (txs s w) (pcs s w) \<subseteq> rheld t pc \<union> wheld t pc"
  shows "ss_inv c d (upd_worker w t pc (s\<lparr>table := tb\<rparr>))"
  using inv w wf li pend vals more
  by (simp add: ss_inv_def wf_inv_upd val_inv_upd read_inv_upd)

lemma table_same [simp]: "s\<lparr>table := table s\<rparr> = s"
  by simp

lemmas plain_step_inv_same = plain_step_inv [where tb = "table s" and s = s for s, simplified]
lemmas lock_inv_same' = lock_inv_same [where tb = "table s" and s = s for s, simplified]

lemma op_step_inv:
  assumes inv: "ss_inv c d s" and w: "w < c_workers c" and n: "c_workers c \<le> 2 ^ 32 - 2"
    and pc: "pcs s w = AtOps (p # ps)"
  shows "ss_inv c d (op_step c w p ps s)"
proof -
  from inv have wfi: "wf_inv c s" and li: "lock_inv s" by (simp_all add: ss_inv_def)
  from wfi pc have wf: "wf_tx (txs s w) (AtOps (p # ps))"
    unfolding wf_inv_def by metis
  then have wf': "wf_tx (txs s w) (AtOps ps)" unfolding wf_tx_AtOps .
  from op_step_effect [OF wf, of c] show ?thesis
  proof (elim disjE exE conjE)
    assume "op_step c w p ps s = s"
    with inv show ?thesis by simp
  next
    fix t' tb' pc'
    assume eff: "op_effect (txs s w) (table s) (p_key p) ps t' tb' pc'"
      and eq: "op_step c w p ps s = upd_worker w t' pc' (s\<lparr>table := tb'\<rparr>)"
    have "ss_inv c d (upd_worker w t' pc' (s\<lparr>table := tb'\<rparr>))"
    proof (rule plain_step_inv [OF inv w])
      show "wf_tx t' pc'" by (rule effect_wf [OF eff wf'])
      show "lock_inv (upd_worker w t' pc' (s\<lparr>table := tb'\<rparr>))"
        by (rule effect_lock_inv [OF eff wfi li pc n w])
      show "pending (pcs s w) = {}" using pc by simp
      show "pending pc' = {}" by (rule effect_frame(3) [OF eff])
      show "s_val (tb' k) = s_val (table s k)" for k by (rule effect_frame(1) [OF eff])
      show "in_ops (pcs s w) \<and>
          rheld (txs s w) (pcs s w) \<union> wheld (txs s w) (pcs s w) \<subseteq> rheld t' pc' \<union> wheld t' pc'"
        using effect_holds_more [OF eff wf'] pc by simp
    qed
    with eq show ?thesis by simp
  qed
qed

text \<open>A payload copied under a lock is the serial value, and the copy is remembered.\<close>

lemma ss_invD:
  assumes "ss_inv c d s"
  shows "wf_inv c s" "wf_tx (txs s w) (pcs s w)" "lock_inv s"
    "held ctr_rep (s_lock (table s k)) (readers s k) (writers s k)"
    "val_inv c d s" "serial_ok d (g_committed s)"
  using assms by (auto simp: ss_inv_def wf_inv_def lock_inv_def)

lemma read_invD:
  "ss_inv c d s \<Longrightarrow> in_ops (pcs s w) \<Longrightarrow> (k, v) \<in> set (g_reads s w) \<Longrightarrow>
   serial_db d (g_committed s) k = v \<and> (w \<in> readers s k \<or> w \<in> writers s k)"
  unfolding ss_inv_def read_inv_def by blast

lemma pending_writer:
  assumes inv: "ss_inv c d s" and v: "k \<in> pending (pcs s v)"
  shows "v \<in> writers s k"
proof -
  from v obtain es where es: "pcs s v = AtCommit es" "k \<in> se_key ` set es"
    by (auto simp: pending_def split: ss_pc.splits)
  with ss_invD(2) [OF inv, of v] show ?thesis by (auto simp: wf_tx_def writers_def)
qed

lemma writer_excl:
  assumes "ss_inv c d s" "v \<in> writers s k" "w \<in> readers s k \<or> w \<in> writers s k"
  shows "w = v"
  using rwl.held_excl [OF ss_invD(4) [OF assms(1)] assms(2)] assms(3) by auto

lemma no_pending_when_held:
  assumes inv: "ss_inv c d s" and w: "w \<in> readers s k \<or> w \<in> writers s k" and pc: "k \<notin> pending (pcs s w)"
  shows "s_val (table s k) = serial_db d (g_committed s) k"
proof -
  have "k \<notin> pending (pcs s v)" for v
    using writer_excl [OF inv pending_writer [OF inv] w] pc by auto
  with inv show ?thesis by (simp add: ss_inv_def val_inv_def)
qed

lemma payload_step_inv:
  assumes inv: "ss_inv c d s" and w: "w < c_workers c"
    and wf: "wf_tx t pc" and pc: "in_ops (pcs s w)"
    and same: "rheld t pc = rheld (txs s w) (pcs s w)" "wheld t pc = wheld (txs s w) (pcs s w)"
    and pend: "pending pc = {}"
    and k: "w \<in> readers s k \<or> w \<in> writers s k"
  shows "ss_inv c d ((upd_worker w t pc s)
           \<lparr>g_reads := (g_reads s)(w := g_reads s w @ [(k, s_val (table s k))])\<rparr>)"
proof -
  let ?s = "upd_worker w t pc s"
  let ?t = "?s\<lparr>g_reads := (g_reads s)(w := g_reads s w @ [(k, s_val (table s k))])\<rparr>"
  from pc have p0: "pending (pcs s w) = {}" by (cases "pcs s w") auto
  have li: "lock_inv ?s"
    using inv same by (intro lock_inv_same') (auto simp: ss_inv_def)
  have s_inv: "ss_inv c d ?s"
    using plain_step_inv_same [OF inv w wf li p0 pend] pc same by simp
  have v: "s_val (table s k) = serial_db d (g_committed s) k"
    using no_pending_when_held [OF inv k] p0 by simp
  have "read_inv d ?t"
    unfolding read_inv_def
  proof (intro allI impI)
    fix u k' x
    assume "in_ops (pcs ?t u)" "(k', x) \<in> set (g_reads ?t u)"
    then consider "(k', x) \<in> set (g_reads ?s u)" "in_ops (pcs ?s u)" | "u = w" "k' = k" "x = s_val (table s k)"
      by (auto split: if_splits)
    then show "serial_db d (g_committed ?t) k' = x \<and> (u \<in> readers ?t k' \<or> u \<in> writers ?t k')"
    proof cases
      case 1
      with s_inv have "serial_db d (g_committed ?s) k' = x \<and> (u \<in> readers ?s k' \<or> u \<in> writers ?s k')"
        unfolding ss_inv_def read_inv_def by blast
      then show ?thesis by (simp only: readers_simps writers_simps) simp
    next
      case 2
      with v k same show ?thesis by (auto simp: readers_def writers_def)
    qed
  qed
  moreover have "lock_inv ?t" "wf_inv c ?t" "val_inv c d ?t" "serial_ok d (g_committed ?t)"
    using s_inv by (simp_all add: ss_inv_def wf_inv_def val_inv_def)
  ultimately show ?thesis by (simp add: ss_inv_def)
qed

text \<open>
  The start of a commit appends the transaction to the serial history: its reads are
  still the serial values, and from now on its writes are pending.
\<close>

lemma apply_commit:
  assumes wf: "wf_tx (txs s w) (AtOps [])"
  shows "apply_tx (commit_record c w s) D k =
    (if k \<in> set (ss_wlocks (txs s w))
     then memcpy (D k) (ss_wval (txs s w)) (c_val_size c) else D k)"
proof -
  let ?t = "commit_record c w s"
  from wf have "distinct (map fst (tx_writes ?t))"
    by (simp add: commit_record_def wf_tx_def comp_def)
  moreover have "k \<in> set (ss_wlocks (txs s w)) \<Longrightarrow>
      (k, \<lambda>v. memcpy v (ss_wval (txs s w)) (c_val_size c)) \<in> set (tx_writes ?t)"
    using wf by (auto simp: commit_record_def wf_tx_def)
  moreover have "k \<notin> set (ss_wlocks (txs s w)) \<Longrightarrow> k \<notin> fst ` set (tx_writes ?t)"
    using wf by (auto simp: commit_record_def wf_tx_def)
  ultimately show ?thesis by (auto simp: apply_tx_in apply_tx_other)
qed

lemma commit_start_inv:
  assumes inv: "ss_inv c d s" and w: "w < c_workers c" and pc: "pcs s w = AtOps []"
  shows "ss_inv c d ((upd_worker w (txs s w) (AtCommit (ss_wset (txs s w))) s)
           \<lparr>g_committed := g_committed s @ [commit_record c w s]\<rparr>)"
proof -
  let ?D = "serial_db d (g_committed s)"
  let ?s = "upd_worker w (txs s w) (AtCommit (ss_wset (txs s w))) s"
  let ?t = "?s\<lparr>g_committed := g_committed s @ [commit_record c w s]\<rparr>"
  from inv have "wf_tx (txs s w) (pcs s w)" by (simp add: ss_inv_def wf_inv_def)
  with pc have wf: "wf_tx (txs s w) (AtOps [])" by simp
  have wk: "w \<in> writers s k \<longleftrightarrow> k \<in> set (ss_wlocks (txs s w))" for k
    using pc by (simp add: writers_def)
  have wl: "set (ss_wlocks (txs s w)) = se_key ` set (ss_wset (txs s w))"
    using wf by (simp add: wf_tx_def)
  have wf': "wf_tx (txs s w) (AtCommit (ss_wset (txs s w)))"
    using wf by (simp add: wf_tx_def)
  have "wf_inv c ?t" using inv w wf' by (simp add: ss_inv_def wf_inv_def)
  moreover have "lock_inv ?t"
    using inv pc by (simp, intro lock_inv_same') (auto simp: ss_inv_def)
  moreover have "val_inv c d ?t"
  proof -
    have "s_val (table s k) = ?D k" if "k \<in> set (ss_wlocks (txs s w))" for k
      using no_pending_when_held [OF inv, of w k] that wk pc by simp
    moreover have "k \<notin> set (ss_wlocks (txs s w))" if "k \<in> pending (pcs s v)" "v \<noteq> w" for k v
      using writer_excl [OF inv pending_writer [OF inv that(1)]] wk that(2) by auto
    moreover have "val_inv c d s" using inv by (simp add: ss_inv_def)
    ultimately show ?thesis
      using pc unfolding val_inv_def
      by (simp add: apply_commit [OF wf] wl) (metis empty_iff pending_simps(1))
  qed
  moreover have "serial_ok d (g_committed ?t)"
    using ss_invD(6) [OF inv] read_invD [OF inv, of w] pc
    by (auto simp: serial_ok_snoc commit_record_def)
  moreover have "read_inv d ?t"
    unfolding read_inv_def
  proof (intro allI impI)
    fix u k x
    assume a: "in_ops (pcs ?t u)" "(k, x) \<in> set (g_reads ?t u)"
    then have u: "u \<noteq> w" "in_ops (pcs s u)" "(k, x) \<in> set (g_reads s u)"
      by (auto split: if_splits)
    from read_invD [OF inv u(2,3)]
    have h: "?D k = x" "u \<in> readers s k \<or> u \<in> writers s k" by auto
    with writer_excl [OF inv _ h(2), of w] u(1) have "w \<notin> writers s k" by auto
    with h u(1) wk show "serial_db d (g_committed ?t) k = x \<and> (u \<in> readers ?t k \<or> u \<in> writers ?t k)"
      by (auto simp: apply_commit [OF wf])
  qed
  ultimately show ?thesis by (simp add: ss_inv_def)
qed


lemma commit_write_inv:
  assumes inv: "ss_inv c d s" and w: "w < c_workers c" and pc: "pcs s w = AtCommit (e # es)"
  shows "ss_inv c d (upd_worker w (txs s w) (AtCommit es)
           (s\<lparr>table := ss_commit_write (c_val_size c) (txs s w) e (table s)\<rparr>))"
proof -
  let ?tb = "ss_commit_write (c_val_size c) (txs s w) e (table s)"
  let ?t = "upd_worker w (txs s w) (AtCommit es) (s\<lparr>table := ?tb\<rparr>)"
  have wf: "wf_tx (txs s w) (AtCommit (e # es))" using ss_invD(2) [OF inv, of w] pc by simp
  then have e: "se_rcdptr e = se_key e" and fresh: "se_key e \<notin> se_key ` set es"
    by (auto simp: wf_tx_def)
  have tb: "s_lock (?tb k) = s_lock (table s k)"
    "s_val (?tb k) = (if k = se_key e then memcpy (s_val (table s k)) (ss_wval (txs s w)) (c_val_size c)
                      else s_val (table s k))" for k
    by (auto simp: ss_commit_write_def e)
  have wf': "wf_tx (txs s w) (AtCommit es)" using wf by (auto simp: wf_tx_def)
  have "wf_inv c ?t" by (rule wf_inv_upd [OF ss_invD(1) [OF inv] w wf'])
  moreover have "lock_inv ?t"
    using pc tb by (intro lock_inv_same ss_invD(3) [OF inv]) auto
  moreover have "read_inv d ?t"
    using inv by (intro read_inv_upd) (auto simp: ss_inv_def)
  moreover have "val_inv c d ?t"
  proof -
    have "k \<in> pending (pcs s v) \<Longrightarrow> v \<noteq> w \<Longrightarrow> k \<noteq> se_key e" for k v
      using writer_excl [OF inv pending_writer [OF inv], of k v w] pending_writer [OF inv, of k w] pc
      by auto
    moreover have "k \<in> pending (pcs s w) \<longleftrightarrow> k = se_key e \<or> k \<in> se_key ` set es" for k
      using pc by auto
    ultimately show ?thesis
      using ss_invD(5) [OF inv] fresh unfolding val_inv_def
      by (simp add: tb) metis
  qed
  ultimately show ?thesis using ss_invD(6) [OF inv] by (simp add: ss_inv_def)
qed

lemma unlock_r_inv:
  assumes inv: "ss_inv c d s" and w: "w < c_workers c" and pc: "pcs s w = AtUnlockR (p # rs) out"
  shows "ss_inv c d (upd_worker w (txs s w) (AtUnlockR rs out) (s\<lparr>table := ss_unlock_r p (table s)\<rparr>))"
proof (rule plain_step_inv [OF inv w])
  have wf: "wf_tx (txs s w) (AtUnlockR (p # rs) out)" using ss_invD(2) [OF inv, of w] pc by simp
  then show "wf_tx (txs s w) (AtUnlockR rs out)" by (auto simp: wf_tx_def)
  have p: "p \<notin> set rs" "w \<in> readers s p" "p \<notin> set (ss_wlocks (txs s w))" "w \<notin> writers s p"
    using wf pc by (auto simp: wf_tx_def readers_def writers_def)
  have "held ctr_rep (r_rel (s_lock (table s p))) (readers s p - {w}) (writers s p)"
    by (rule rwl.held_runl [OF ss_invD(4) [OF inv] p(2)])
  then show "lock_inv (upd_worker w (txs s w) (AtUnlockR rs out) (s\<lparr>table := ss_unlock_r p (table s)\<rparr>))"
    using p pc by (intro lock_inv_at [where p = p] ss_invD(3) [OF inv])
      (auto simp: ss_unlock_r_def readers_def writers_def)
qed (use pc in \<open>simp_all add: ss_unlock_r_def\<close>)

lemma unlock_w_inv:
  assumes inv: "ss_inv c d s" and w: "w < c_workers c" and pc: "pcs s w = AtUnlockW (p # ws) out"
  shows "ss_inv c d (upd_worker w (txs s w) (AtUnlockW ws out) (s\<lparr>table := ss_unlock_w p (table s)\<rparr>))"
proof (rule plain_step_inv [OF inv w])
  have wf: "wf_tx (txs s w) (AtUnlockW (p # ws) out)" using ss_invD(2) [OF inv, of w] pc by simp
  then show "wf_tx (txs s w) (AtUnlockW ws out)" by (auto simp: wf_tx_def)
  have p: "p \<notin> set ws" "w \<in> writers s p" "w \<notin> readers s p"
    using wf pc by (auto simp: wf_tx_def readers_def writers_def)
  have "held ctr_rep (w_rel (s_lock (table s p))) (readers s p) (writers s p - {w})"
    by (rule conjunct1 [OF rwl.held_wunl [OF ss_invD(4) [OF inv] p(2)]])
  then show "lock_inv (upd_worker w (txs s w) (AtUnlockW ws out) (s\<lparr>table := ss_unlock_w p (table s)\<rparr>))"
    using p pc by (intro lock_inv_at [where p = p] ss_invD(3) [OF inv])
      (auto simp: ss_unlock_w_def readers_def writers_def)
qed (use pc in \<open>simp_all add: ss_unlock_w_def\<close>)


lemma local_step_inv:
  assumes inv: "ss_inv c d s" and w: "w < c_workers c" and wf: "wf_tx t pc"
    and same: "rheld t pc = rheld (txs s w) (pcs s w)" "wheld t pc = wheld (txs s w) (pcs s w)"
    and pend: "pending (pcs s w) = {}" "pending pc = {}" and ops: "\<not> in_ops pc"
  shows "ss_inv c d (upd_worker w t pc s)"
  using plain_step_inv_same [OF inv w wf lock_inv_same' [OF ss_invD(3) [OF inv] same] pend] ops by simp

lemma begin_step_inv:
  assumes inv: "ss_inv c d s" and w: "w < c_workers c" and pc: "pcs s w = Retry"
  shows "ss_inv c d ((upd_worker w (ss_begin (txs s w)) (AtOps (ss_pro (txs s w))) s)
           \<lparr>g_reads := (g_reads s)(w := [])\<rparr>)"
proof -
  let ?s = "upd_worker w (ss_begin (txs s w)) (AtOps (ss_pro (txs s w))) s"
  let ?t = "?s\<lparr>g_reads := (g_reads s)(w := [])\<rparr>"
  have wf: "wf_tx (txs s w) Retry" using ss_invD(2) [OF inv, of w] pc by simp
  then have "wf_tx (ss_begin (txs s w)) (AtOps (ss_pro (txs s w)))"
    by (simp add: wf_tx_def ss_begin_def)
  with inv w have "wf_inv c ?t" by (simp add: ss_inv_def wf_inv_def)
  moreover have "lock_inv ?t"
    using pc by (simp, intro lock_inv_same' ss_invD(3) [OF inv]) (simp_all add: ss_begin_def)
  moreover have "val_inv c d ?t"
  proof -
    have "val_inv c d ?s"
      using val_inv_upd [where tb = "table s", OF ss_invD(5) [OF inv]] pc by simp
    then show ?thesis by (simp add: val_inv_def)
  qed
  moreover have "read_inv d ?t"
    using read_invD [OF inv] by (auto simp: read_inv_def)
  ultimately show ?thesis using ss_invD(6) [OF inv] by (simp add: ss_inv_def)
qed

lemma ss_step_inv:
  assumes inv: "ss_inv c d s" and w: "w < c_workers c" and n: "c_workers c \<le> 2 ^ 32 - 2"
  shows "ss_inv c d (ss_step c w pro s)"
proof (cases "pcs s w")
  case MakeProcedure
  with ss_invD(2) [OF inv, of w] show ?thesis
    unfolding ss_step_def Let_def
    by (simp, intro local_step_inv [OF inv w]) (simp_all add: wf_tx_def)
next
  case Retry
  with begin_step_inv [OF inv w] show ?thesis by (simp add: ss_step_def Let_def)
next
  case (AtOps ps)
  then show ?thesis
    using commit_start_inv [OF inv w] op_step_inv [OF inv w n]
    by (cases ps) (simp_all add: ss_step_def Let_def)
next
  case (AtReadVal k ps)
  let ?t = "ss_read_val k (txs s w) (table s)"
  have wf: "wf_tx (txs s w) (AtReadVal k ps)" using ss_invD(2) [OF inv, of w] AtReadVal by simp
  then have "wf_tx ?t (AtOps ps)"
    unfolding wf_tx_AtOps by (auto simp: wf_tx_def ss_read_val_def)
  with AtReadVal wf show ?thesis
    unfolding ss_step_def Let_def
    by (simp, intro payload_step_inv [OF inv w] wf_after_op)
      (simp_all add: ss_read_val_def wf_tx_def readers_def)
next
  case (AtReadWriteVal k ps)
  let ?t = "ss_readWrite_val k (txs s w) (table s)"
  have wf: "wf_tx (txs s w) (AtReadWriteVal k ps)"
    using ss_invD(2) [OF inv, of w] AtReadWriteVal by simp
  then have "wf_tx ?t (AtOps ps)"
    unfolding wf_tx_AtOps by (auto simp: wf_tx_def ss_readWrite_val_def)
  with AtReadWriteVal wf show ?thesis
    unfolding ss_step_def Let_def
    by (simp, intro payload_step_inv [OF inv w] wf_after_op)
      (simp_all add: ss_readWrite_val_def wf_tx_def writers_def)
next
  case (AtCommit es)
  have wf: "wf_tx (txs s w) (AtCommit es)" using ss_invD(2) [OF inv, of w] AtCommit by simp
  show ?thesis
  proof (cases es)
    case Nil
    with AtCommit wf show ?thesis
      unfolding ss_step_def Let_def
      by (simp, intro local_step_inv [OF inv w]) (simp_all add: wf_tx_def)
  next
    case (Cons e es')
    with AtCommit commit_write_inv [OF inv w] show ?thesis by (simp add: ss_step_def Let_def)
  qed
next
  case (AtUnlockR rs out)
  have wf: "wf_tx (txs s w) (AtUnlockR rs out)" using ss_invD(2) [OF inv, of w] AtUnlockR by simp
  show ?thesis
  proof (cases rs)
    case Nil
    with AtUnlockR wf show ?thesis
      unfolding ss_step_def Let_def
      by (simp, intro local_step_inv [OF inv w]) (simp_all add: wf_tx_def)
  next
    case (Cons e es')
    with AtUnlockR unlock_r_inv [OF inv w] show ?thesis by (simp add: ss_step_def Let_def)
  qed
next
  case (AtUnlockW ws out)
  have wf: "wf_tx (txs s w) (AtUnlockW ws out)" using ss_invD(2) [OF inv, of w] AtUnlockW by simp
  show ?thesis
  proof (cases ws)
    case Nil
    with AtUnlockW wf show ?thesis
      unfolding ss_step_def Let_def
      by (simp, intro local_step_inv [OF inv w])
        (simp_all add: wf_tx_def ss_clear_def split: ss_outcome.splits)
  next
    case (Cons e es')
    with AtUnlockW unlock_w_inv [OF inv w] show ?thesis by (simp add: ss_step_def Let_def)
  qed
qed

lemma sys_init_inv: "ss_inv c d (sys_init d wv)"
  by (simp add: ss_inv_def sys_init_def tx_init_def wf_inv_def wf_tx_def lock_inv_def val_inv_def
      read_inv_def readers_def writers_def rwl.held_init ctr_rep_def)

end
