(* ===== verification/Silo_Tid.thy ===== *)
theory Silo_Tid
  imports Prelude
begin

text \<open>
  \<^verbatim>\<open>Tidword\<close> of \<^verbatim>\<open>silo/include/tuple.hh\<close>: a 64-bit word whose fields are, from the low end,
  \<^verbatim>\<open>lock\<close>, \<^verbatim>\<open>latest\<close>, \<^verbatim>\<open>absent\<close>, a 29-bit \<^verbatim>\<open>tid\<close> and a 32-bit \<^verbatim>\<open>epoch\<close>. The union makes
  both views available: the code compares and swaps the whole word \<^verbatim>\<open>obj_\<close> and reads and
  writes single fields. \<open>tw_ver\<close>, epoch and tid together, is the version of the record.
\<close>

section \<open>Fields\<close>

definition tw_lock :: "u64 \<Rightarrow> bool" where "tw_lock x = bit x 0"

definition tw_latest :: "u64 \<Rightarrow> bool" where "tw_latest x = bit x 1"

definition tw_absent :: "u64 \<Rightarrow> bool" where "tw_absent x = bit x 2"

definition tw_tid :: "u64 \<Rightarrow> u64" where "tw_tid x = take_bit 29 (drop_bit 3 x)"

definition tw_epoch :: "u64 \<Rightarrow> u64" where "tw_epoch x = drop_bit 32 x"

definition tw_ver :: "u64 \<Rightarrow> u64" where "tw_ver x = drop_bit 3 x"

definition tw_set_lock :: "bool \<Rightarrow> u64 \<Rightarrow> u64" where
  "tw_set_lock b x = (if b then set_bit 0 x else unset_bit 0 x)"

definition tw_set_latest :: "bool \<Rightarrow> u64 \<Rightarrow> u64" where
  "tw_set_latest b x = (if b then set_bit 1 x else unset_bit 1 x)"

text \<open>A store to a bit field keeps the low bits of the value and the other fields.\<close>

definition tw_set_tid :: "u64 \<Rightarrow> u64 \<Rightarrow> u64" where
  "tw_set_tid t x = push_bit 32 (drop_bit 32 x) OR push_bit 3 (take_bit 29 t) OR take_bit 3 x"

definition tw_set_epoch :: "u64 \<Rightarrow> u64 \<Rightarrow> u64" where
  "tw_set_epoch e x = push_bit 32 (take_bit 32 e) OR take_bit 32 x"

definition tw_inc_tid :: "u64 \<Rightarrow> u64" where
  "tw_inc_tid x = tw_set_tid (tw_tid x + 1) x"

section \<open>Laws of the fields\<close>

lemmas tw_defs = tw_lock_def tw_latest_def tw_absent_def tw_tid_def tw_epoch_def tw_ver_def
  tw_set_lock_def tw_set_latest_def tw_set_tid_def tw_set_epoch_def tw_inc_tid_def

lemma tw_lock_set [simp]: "tw_lock (tw_set_lock b x) = b"
  by (simp add: tw_defs bit_simps)

lemma tw_ver_set_lock [simp]: "tw_ver (tw_set_lock b x) = tw_ver x"
  by (rule bit_eqI) (auto simp: tw_defs bit_simps)

lemma tw_ver_set_latest [simp]: "tw_ver (tw_set_latest b x) = tw_ver x"
  by (rule bit_eqI) (auto simp: tw_defs bit_simps)

lemma tw_epoch_set_lock [simp]: "tw_epoch (tw_set_lock b x) = tw_epoch x"
  by (rule bit_eqI) (auto simp: tw_defs bit_simps)

lemma tw_epoch_set_latest [simp]: "tw_epoch (tw_set_latest b x) = tw_epoch x"
  by (rule bit_eqI) (auto simp: tw_defs bit_simps)

lemma tw_tid_set_lock [simp]: "tw_tid (tw_set_lock b x) = tw_tid x"
  by (rule bit_eqI) (auto simp: tw_defs bit_simps)

lemma tw_lock_set_latest [simp]: "tw_lock (tw_set_latest b x) = tw_lock x"
  by (simp add: tw_defs bit_simps)

lemma tw_set_lock_same: "\<not> tw_lock x \<Longrightarrow> tw_set_lock False x = x"
  by (rule bit_eqI) (auto simp: tw_defs bit_simps intro: gr0I)

lemma tw_set_lock_set [simp]: "tw_set_lock b (tw_set_lock c x) = tw_set_lock b x"
  by (rule bit_eqI) (auto simp: tw_defs bit_simps)

lemma tw_epoch_inc [simp]: "tw_epoch (tw_inc_tid x) = tw_epoch x"
  by (rule bit_eqI) (auto simp: tw_defs bit_simps dest: bit_imp_le_length)

lemma tw_tid_inc: "tw_tid (tw_inc_tid x) = take_bit 29 (tw_tid x + 1)"
  by (rule bit_eqI) (auto simp: tw_defs bit_simps)

lemma tw_epoch_set_epoch [simp]: "tw_epoch (tw_set_epoch e x) = take_bit 32 e"
  by (rule bit_eqI) (auto simp: tw_defs bit_simps)

lemma tw_tid_set_epoch_0 [simp]: "tw_tid (tw_set_epoch e 0) = 0"
  by (rule bit_eqI) (auto simp: tw_defs bit_simps)

text \<open>The version is the pair of epoch and tid.\<close>

lemma tw_ver_split: "tw_ver x = push_bit 29 (tw_epoch x) OR tw_tid x"
  by (rule bit_eqI) (auto simp: tw_defs bit_simps)

lemma tw_ver_eq_iff: "tw_ver x = tw_ver y \<longleftrightarrow> tw_epoch x = tw_epoch y \<and> tw_tid x = tw_tid y"
proof
  assume v: "tw_ver x = tw_ver y"
  have "tw_epoch x = drop_bit 29 (tw_ver x)" "tw_tid x = take_bit 29 (tw_ver x)" for x
    by (rule bit_eqI; auto simp: tw_defs bit_simps)+
  with v show "tw_epoch x = tw_epoch y \<and> tw_tid x = tw_tid y" by simp
qed (simp add: tw_ver_split)

lemma unat_tw_ver: "unat (tw_ver x) = unat x div 8"
  by (simp add: tw_ver_def drop_bit_eq_div unat_div)

lemma unat_tw_tid: "unat (tw_tid x) = unat x div 8 mod 2 ^ 29"
  by (simp add: tw_tid_def take_bit_eq_mod drop_bit_eq_div unat_div unat_mod)

lemma unat_tw_epoch: "unat (tw_epoch x) = unat x div 2 ^ 32"
  by (simp add: tw_epoch_def drop_bit_eq_div unat_div)

lemma tw_ver_mono: "x \<le> y \<Longrightarrow> tw_ver x \<le> tw_ver y"
  by (simp add: word_le_nat_alt unat_tw_ver div_le_mono)

lemma tw_epoch_mono: "x \<le> y \<Longrightarrow> tw_epoch x \<le> tw_epoch y"
  by (simp add: word_le_nat_alt unat_tw_epoch div_le_mono)

lemma unat_ver_epoch_tid: "unat (tw_ver x) = unat (tw_epoch x) * 2 ^ 29 + unat (tw_tid x)"
proof -
  have "unat x div 2 ^ 32 = unat x div 8 div 2 ^ 29"
    by (simp add: div_mult2_eq [symmetric])
  then show ?thesis
    by (simp add: unat_tw_ver unat_tw_epoch unat_tw_tid)
qed

lemma unat_tw_tid_less: "unat (tw_tid x) < 2 ^ 29"
  by (simp add: unat_tw_tid)

text \<open>
  The increment of the 29-bit field: below its maximum it gives the next version, at its
  maximum it wraps to zero and the version decreases.
\<close>

lemma unat_tid_inc: "unat (tw_tid (tw_inc_tid x)) = (unat (tw_tid x) + 1) mod 2 ^ 29"
proof -
  have "unat (tw_tid x + 1) = unat (tw_tid x) + 1"
    using unat_tw_tid_less [of x] by (simp add: unat_word_ariths)
  then show ?thesis by (simp add: tw_tid_inc take_bit_eq_mod unat_mod)
qed

lemma unat_ver_inc:
  "unat (tw_tid x) \<noteq> 2 ^ 29 - 1 \<Longrightarrow> unat (tw_ver (tw_inc_tid x)) = unat (tw_ver x) + 1"
  using unat_tw_tid_less [of x] by (simp add: unat_ver_epoch_tid unat_tid_inc)

lemma tw_ver_less_epoch: "tw_epoch x < tw_epoch y \<Longrightarrow> tw_ver x < tw_ver y"
  using unat_tw_tid_less [of x]
  by (simp add: word_less_nat_alt unat_ver_epoch_tid)

lemma tw_ver_less_inc: "unat (tw_tid x) \<noteq> 2 ^ 29 - 1 \<Longrightarrow> tw_ver x < tw_ver (tw_inc_tid x)"
  by (simp add: word_less_nat_alt unat_ver_inc)

lemma tw_ver_wrap: "unat (tw_tid x) = 2 ^ 29 - 1 \<Longrightarrow> tw_ver (tw_inc_tid x) < tw_ver x"
  by (simp add: word_less_nat_alt unat_ver_epoch_tid unat_tid_inc)

end
