(* ===== verification/Silo_Model.thy ===== *)
theory Silo_Model
  imports Procedures Silo_Tid Serial_Spec
begin

text \<open>
  Silo's optimistic executor: \<^verbatim>\<open>TxnExecutor\<close> of \<^verbatim>\<open>silo/transaction.cc\<close>. A pointer to a
  tuple is the index of the tuple in \<^verbatim>\<open>Table\<close>. The definitions here are the operations
  on the executor alone and the single shared accesses; \<^verbatim>\<open>Silo_System\<close> puts them in the
  order of the code. The payload of a tuple is copied in one step, the TID word is loaded,
  compared and swapped, or stored in one step.
\<close>

section \<open>State\<close>

record sl_tuple =
  tidword :: u64
  sl_val :: val

type_synonym sl_table = "key \<Rightarrow> sl_tuple"

record sl_relem =
  re_key :: key
  re_rcdptr :: key
  re_tidword :: u64
  re_val :: val

text \<open>\<open>we_buf\<close> is the buffer of \<^verbatim>\<open>val_length_\<close> bytes; the empty buffer is the fast path.\<close>

record sl_welem =
  we_key :: key
  we_rcdptr :: key
  we_buf :: val

datatype sl_status = KInFlight | KCommitted | KAborted

record sl_tx =
  sl_thid :: nat
  read_set :: "sl_relem list"
  write_set :: "sl_welem list"
  pro_set :: "procedure list"
  sl_status :: sl_status
  mrctid :: u64
  max_rset :: u64
  max_wset :: u64
  write_val :: val
  return_val :: val

definition sl_new :: "nat \<Rightarrow> val \<Rightarrow> sl_tx" where
  "sl_new thid wval =
     \<lparr>sl_thid = thid, read_set = [], write_set = [], pro_set = [], sl_status = KInFlight,
      mrctid = 0, max_rset = 0, max_wset = 0, write_val = wval, return_val = []\<rparr>"

definition sl_get_tuple :: "key \<Rightarrow> key" where
  "sl_get_tuple key = key"

definition searchReadSet :: "key \<Rightarrow> sl_tx \<Rightarrow> sl_relem option" where
  "searchReadSet k t = search_set re_key k (read_set t)"

definition searchWriteSet :: "key \<Rightarrow> sl_tx \<Rightarrow> sl_welem option" where
  "searchWriteSet k t = search_set we_key k (write_set t)"

definition set_tidword :: "key \<Rightarrow> u64 \<Rightarrow> sl_table \<Rightarrow> sl_table" where
  "set_tidword p x tb = tb(p := (tb p)\<lparr>tidword := x\<rparr>)"

definition set_payload :: "key \<Rightarrow> val \<Rightarrow> sl_table \<Rightarrow> sl_table" where
  "set_payload p v tb = tb(p := (tb p)\<lparr>sl_val := v\<rparr>)"

section \<open>Read phase\<close>

definition sl_begin :: "sl_tx \<Rightarrow> sl_tx" where
  "sl_begin t = t\<lparr>sl_status := KInFlight, max_wset := 0, max_rset := 0\<rparr>"

text \<open>\<^verbatim>\<open>read\<close>: the early exit, the copy of the payload, the new element of the read set.\<close>

definition sl_read_known :: "key \<Rightarrow> sl_tx \<Rightarrow> bool" where
  "sl_read_known k t \<longleftrightarrow> searchReadSet k t \<noteq> None \<or> searchWriteSet k t \<noteq> None"

definition sl_read_copy :: "key \<Rightarrow> sl_table \<Rightarrow> sl_tx \<Rightarrow> sl_tx" where
  "sl_read_copy k tb t = t\<lparr>return_val := sl_val (tb (sl_get_tuple k))\<rparr>"

definition sl_read_register :: "key \<Rightarrow> u64 \<Rightarrow> sl_tx \<Rightarrow> sl_tx" where
  "sl_read_register k expected t =
     t\<lparr>read_set := read_set t @ [\<lparr>re_key = k, re_rcdptr = sl_get_tuple k,
         re_tidword = expected, re_val = return_val t\<rparr>]\<rparr>"

definition sl_write :: "key \<Rightarrow> val \<Rightarrow> sl_tx \<Rightarrow> sl_tx" where
  "sl_write k v t =
     (if searchWriteSet k t \<noteq> None then t
      else
        (let tuple = (case searchReadSet k t of Some re \<Rightarrow> re_rcdptr re | None \<Rightarrow> sl_get_tuple k)
         in t\<lparr>write_set := write_set t @ [\<lparr>we_key = k, we_rcdptr = tuple, we_buf = v\<rparr>]\<rparr>))"

section \<open>Validation phase\<close>

text \<open>\<^verbatim>\<open>sort(write_set_.begin(), write_set_.end())\<close> by \<^verbatim>\<open>WriteElement::operator<\<close>.\<close>

definition sl_sort :: "sl_tx \<Rightarrow> sl_tx" where
  "sl_sort t = t\<lparr>write_set := sort_key we_key (write_set t)\<rparr>"

text \<open>\<^verbatim>\<open>compareExchange\<close> of a TID word: the flag says whether the word was swapped.\<close>

definition tid_cas :: "key \<Rightarrow> u64 \<Rightarrow> u64 \<Rightarrow> sl_table \<Rightarrow> bool \<times> sl_table" where
  "tid_cas p expected desired tb =
     (if tidword (tb p) = expected then (True, set_tidword p desired tb) else (False, tb))"

definition sl_locked_one :: "u64 \<Rightarrow> sl_tx \<Rightarrow> sl_tx" where
  "sl_locked_one expected t = t\<lparr>max_wset := max (max_wset t) expected\<rparr>"

text \<open>One iteration of \<^verbatim>\<open>unlockWriteSet\<close>: load, clear the lock bit, store.\<close>

definition sl_unlock_one :: "sl_welem \<Rightarrow> sl_table \<Rightarrow> sl_table" where
  "sl_unlock_one e tb =
     (let expected = tidword (tb (we_rcdptr e)); desired = tw_set_lock False expected
      in set_tidword (we_rcdptr e) desired tb)"

text \<open>The three conditions under which an element of the read set fails validation.\<close>

definition sl_read_invalid :: "sl_tx \<Rightarrow> sl_relem \<Rightarrow> u64 \<Rightarrow> bool" where
  "sl_read_invalid t r check \<longleftrightarrow>
     (tw_epoch (re_tidword r) \<noteq> tw_epoch check \<or> tw_tid (re_tidword r) \<noteq> tw_tid check) \<or>
     (tw_lock check \<and> searchWriteSet (re_key r) t = None)"

definition sl_validated_one :: "u64 \<Rightarrow> sl_tx \<Rightarrow> sl_tx" where
  "sl_validated_one check t = t\<lparr>max_rset := max (max_rset t) check\<rparr>"

section \<open>Write phase\<close>

text \<open>\<open>tid_a\<close>, \<open>tid_b\<close> and \<open>tid_c\<close> of \<^verbatim>\<open>writePhase\<close>; \<open>epoch\<close> is the thread-local epoch.\<close>

definition sl_commit_tid :: "u64 \<Rightarrow> sl_tx \<Rightarrow> u64" where
  "sl_commit_tid epoch t =
     (let tid_a = tw_inc_tid (max (max_wset t) (max_rset t));
          tid_b = tw_inc_tid (mrctid t);
          tid_c = tw_set_epoch epoch 0
      in tw_set_latest True (tw_set_lock False (max tid_a (max tid_b tid_c))))"

text \<open>What the copy of \<^verbatim>\<open>writePhase\<close> makes of the payload it finds.\<close>

definition sl_new_payload :: "nat \<Rightarrow> sl_tx \<Rightarrow> sl_welem \<Rightarrow> val \<Rightarrow> val" where
  "sl_new_payload val_size t e v =
     (if length (we_buf e) = 0 then memcpy v (write_val t) val_size
      else memcpy v (we_buf e) (length (we_buf e)))"

definition sl_write_copy :: "nat \<Rightarrow> sl_tx \<Rightarrow> sl_welem \<Rightarrow> sl_table \<Rightarrow> sl_table" where
  "sl_write_copy val_size t e tb =
     set_payload (we_rcdptr e) (sl_new_payload val_size t e (sl_val (tb (we_rcdptr e)))) tb"

definition sl_write_store :: "sl_welem \<Rightarrow> u64 \<Rightarrow> sl_table \<Rightarrow> sl_table" where
  "sl_write_store e maxtid tb = set_tidword (we_rcdptr e) maxtid tb"

text \<open>The end of \<^verbatim>\<open>writePhase\<close>, and \<^verbatim>\<open>abort\<close>.\<close>

definition sl_clear :: "sl_tx \<Rightarrow> sl_tx" where
  "sl_clear t = t\<lparr>read_set := [], write_set := []\<rparr>"

end
