(* ===== verification/Silo_System.thy ===== *)
theory Silo_System
  imports Silo_Model
begin

text \<open>
  Any number of workers of \<^verbatim>\<open>silo/silo.cc\<close> over one table, worker 0 being the leader that
  advances the global epoch, interleaved at every access to a TID word, a payload or an
  epoch. The build switches of \<^verbatim>\<open>lockWriteSet\<close> are \<open>sl_mode\<close>: \<open>NoWaitAbort\<close> is
  \<^verbatim>\<open>NO_WAIT_LOCKING_IN_VALIDATION\<close>, \<open>NoWaitTictoc\<close> is \<^verbatim>\<open>NO_WAIT_OF_TICTOC\<close>, \<open>SpinOnLock\<close> is
  neither. Ghost state: a clock that counts serialization points (the load of the global
  epoch, when all write locks are held), the point of each worker, the committed
  transactions and their TIDs by their point, for every record one more than the point of
  the transaction whose version it holds, the epoch loaded at each point, and two flags
  that tell whether the 29-bit tid or the 32-bit epoch of a TID word has overflowed.
\<close>

section \<open>Control points\<close>

datatype sl_mode = NoWaitAbort | NoWaitTictoc | SpinOnLock

datatype sl_call = CallRead key | CallWrite key val

datatype sl_after = ToAbort | ToRelock

datatype sl_pc =
    SMake
  | SRetry
  | SScan u64 nat u64
  | SBegin
  | SOps "sl_call list"
  | SLoad key "sl_call list"
  | SCopyVal key u64 "sl_call list"
  | SCheck key u64 "sl_call list"
  | SLockLoad "sl_welem list" "sl_welem list"
  | SLockCas "sl_welem list" sl_welem "sl_welem list" u64
  | SUnlock "sl_welem list" sl_after
  | SEpochLoad
  | SEpochStore u64
  | SVal "sl_relem list" "sl_relem list"
  | SWrite "sl_welem list" u64
  | SStore sl_welem "sl_welem list" u64

record sl_config =
  sl_mode :: sl_mode
  sl_val_size :: nat
  sl_workers :: nat
  sl_epoch_span :: u64

record sl_sys =
  sl_table :: sl_table
  sl_txs :: "nat \<Rightarrow> sl_tx"
  sl_pcs :: "nat \<Rightarrow> sl_pc"
  global_epoch :: u64
  local_epoch :: "nat \<Rightarrow> u64"
  epoch_timer_start :: u64
  sl_clock :: nat
  sl_point :: "nat \<Rightarrow> nat"
  sl_com :: "nat \<Rightarrow> txrec option"
  sl_tids :: "nat \<Rightarrow> u64"
  sl_inst :: "key \<Rightarrow> nat"
  sl_wrapped :: bool
  sl_epoch_at :: "nat \<Rightarrow> u64"
  sl_epoch_full :: bool

section \<open>The calls of the worker loop\<close>

fun sl_calls :: "procedure list \<Rightarrow> sl_call list" where
  "sl_calls [] = []"
| "sl_calls (p # ps) =
     (case p_ope p of
        READ \<Rightarrow> [CallRead (p_key p)]
      | WRITE \<Rightarrow> [CallWrite (p_key p) []]
      | READ_MODIFY_WRITE \<Rightarrow> [CallRead (p_key p), CallWrite (p_key p) []]) @ sl_calls ps"

definition sl_upd :: "nat \<Rightarrow> sl_tx \<Rightarrow> sl_pc \<Rightarrow> sl_sys \<Rightarrow> sl_sys" where
  "sl_upd w t pc s = s\<lparr>sl_txs := (sl_txs s)(w := t), sl_pcs := (sl_pcs s)(w := pc)\<rparr>"

definition sl_goto :: "nat \<Rightarrow> sl_pc \<Rightarrow> sl_sys \<Rightarrow> sl_sys" where
  "sl_goto w pc s = s\<lparr>sl_pcs := (sl_pcs s)(w := pc)\<rparr>"

section \<open>The leader\<close>

text \<open>
  \<^verbatim>\<open>leaderWork\<close> at the time stamp \<open>now\<close>, then \<^verbatim>\<open>chkEpochLoaded\<close>, one thread-local epoch
  per step, and \<^verbatim>\<open>atomicAddGE\<close>.
\<close>

definition leaderWork :: "sl_config \<Rightarrow> nat \<Rightarrow> u64 \<Rightarrow> sl_sys \<Rightarrow> sl_sys" where
  "leaderWork c w now s =
     (if chkClkSpan (epoch_timer_start s) now (sl_epoch_span c)
      then sl_goto w (SScan (global_epoch s) 1 now) s
      else sl_goto w SBegin s)"

definition chkEpochLoaded :: "sl_config \<Rightarrow> nat \<Rightarrow> u64 \<Rightarrow> nat \<Rightarrow> u64 \<Rightarrow> sl_sys \<Rightarrow> sl_sys" where
  "chkEpochLoaded c w nowepo i stop s =
     (if i < sl_workers c then
        (if local_epoch s i \<noteq> nowepo then sl_goto w SBegin s
         else sl_goto w (SScan nowepo (Suc i) stop) s)
      else (sl_goto w SBegin s)
        \<lparr>global_epoch := global_epoch s + 1, epoch_timer_start := stop,
         sl_epoch_full := (sl_epoch_full s \<or> 2 ^ 32 \<le> unat (global_epoch s) + 1)\<rparr>)"

section \<open>Reading\<close>

text \<open>Where \<^verbatim>\<open>read\<close> goes with a TID word it has loaded: it spins while the lock is set.\<close>

definition sl_read_loaded :: "key \<Rightarrow> u64 \<Rightarrow> sl_call list \<Rightarrow> sl_pc" where
  "sl_read_loaded k expected cs = (if tw_lock expected then SLoad k cs else SCopyVal k expected cs)"

definition sl_read_check :: "nat \<Rightarrow> key \<Rightarrow> u64 \<Rightarrow> sl_call list \<Rightarrow> sl_sys \<Rightarrow> sl_sys" where
  "sl_read_check w k expected cs s =
     (let check = tidword (sl_table s (sl_get_tuple k)) in
      if expected = check then sl_upd w (sl_read_register k expected (sl_txs s w)) (SOps cs) s
      else sl_goto w (sl_read_loaded k check cs) s)"

section \<open>Locking the write set\<close>

definition sl_lock_cas ::
  "sl_config \<Rightarrow> nat \<Rightarrow> sl_welem list \<Rightarrow> sl_welem \<Rightarrow> sl_welem list \<Rightarrow> u64 \<Rightarrow> sl_sys \<Rightarrow> sl_sys" where
  "sl_lock_cas c w done e rest expected s =
     (if tw_lock expected then
        (case sl_mode c of
           NoWaitAbort \<Rightarrow> sl_upd w ((sl_txs s w)\<lparr>sl_status := KAborted\<rparr>) (SUnlock done ToAbort) s
         | NoWaitTictoc \<Rightarrow> sl_goto w (SUnlock done ToRelock) s
         | SpinOnLock \<Rightarrow> s)
      else
        (case tid_cas (we_rcdptr e) expected (tw_set_lock True expected) (sl_table s) of
           (True, tb) \<Rightarrow>
             (sl_upd w (sl_locked_one expected (sl_txs s w)) (SLockLoad (done @ [e]) rest) s)
               \<lparr>sl_table := tb\<rparr>
         | (False, tb) \<Rightarrow> sl_goto w (SLockCas done e rest (tidword (tb (we_rcdptr e)))) s))"

section \<open>Validating and committing\<close>

definition sl_validate :: "nat \<Rightarrow> sl_relem list \<Rightarrow> sl_relem \<Rightarrow> sl_relem list \<Rightarrow> sl_sys \<Rightarrow> sl_sys" where
  "sl_validate w done r rest s =
     (let t = sl_txs s w; check = tidword (sl_table s (re_rcdptr r)) in
      if sl_read_invalid t r check
      then sl_upd w (t\<lparr>sl_status := KAborted\<rparr>) (SUnlock (write_set t) ToAbort) s
      else sl_upd w (sl_validated_one check t) (SVal (done @ [r]) rest) s)"

definition sl_record :: "nat \<Rightarrow> sl_tx \<Rightarrow> txrec" where
  "sl_record val_size t =
     \<lparr>tx_reads = map (\<lambda>r. (re_key r, re_val r)) (read_set t),
      tx_writes = map (\<lambda>e. (we_key e, sl_new_payload val_size t e)) (write_set t)\<rparr>"

definition sl_commit :: "sl_config \<Rightarrow> nat \<Rightarrow> sl_sys \<Rightarrow> sl_sys" where
  "sl_commit c w s =
     (let t = sl_txs s w; maxtid = sl_commit_tid (local_epoch s w) t in
      (sl_upd w (t\<lparr>sl_status := KCommitted, mrctid := maxtid\<rparr>) (SWrite (write_set t) maxtid) s)
        \<lparr>sl_com := (sl_com s)(sl_point s w := Some (sl_record (sl_val_size c) t)),
         sl_tids := (sl_tids s)(sl_point s w := maxtid),
         sl_wrapped := (sl_wrapped s \<or> unat (tw_tid (max (max_wset t) (max_rset t))) = 2 ^ 29 - 1)\<rparr>)"

section \<open>One step of worker \<open>w\<close>\<close>

definition sl_step :: "sl_config \<Rightarrow> nat \<Rightarrow> procedure list \<Rightarrow> u64 \<Rightarrow> sl_sys \<Rightarrow> sl_sys" where
  "sl_step c w pro now s =
     (let t = sl_txs s w; tb = sl_table s in
      case sl_pcs s w of
        SMake \<Rightarrow> sl_upd w (t\<lparr>pro_set := pro\<rparr>) SRetry s
      | SRetry \<Rightarrow> (if w = 0 then leaderWork c w now s else sl_goto w SBegin s)
      | SScan nowepo i stop \<Rightarrow> chkEpochLoaded c w nowepo i stop s
      | SBegin \<Rightarrow> sl_upd w (sl_begin t) (SOps (sl_calls (pro_set t))) s
      | SOps [] \<Rightarrow> (let t' = sl_sort t in sl_upd w t' (SLockLoad [] (write_set t')) s)
      | SOps (CallRead k # cs) \<Rightarrow>
          (if sl_read_known k t then sl_goto w (SOps cs) s else sl_goto w (SLoad k cs) s)
      | SOps (CallWrite k v # cs) \<Rightarrow> sl_upd w (sl_write k v t) (SOps cs) s
      | SLoad k cs \<Rightarrow> sl_goto w (sl_read_loaded k (tidword (tb (sl_get_tuple k))) cs) s
      | SCopyVal k expected cs \<Rightarrow> sl_upd w (sl_read_copy k tb t) (SCheck k expected cs) s
      | SCheck k expected cs \<Rightarrow> sl_read_check w k expected cs s
      | SLockLoad done [] \<Rightarrow> sl_goto w SEpochLoad s
      | SLockLoad done (e # rest) \<Rightarrow>
          sl_goto w (SLockCas done e rest (tidword (tb (we_rcdptr e)))) s
      | SLockCas done e rest expected \<Rightarrow> sl_lock_cas c w done e rest expected s
      | SUnlock (e # es) out \<Rightarrow> (sl_goto w (SUnlock es out) s)\<lparr>sl_table := sl_unlock_one e tb\<rparr>
      | SUnlock [] ToAbort \<Rightarrow> sl_upd w (sl_clear t) SRetry s
      | SUnlock [] ToRelock \<Rightarrow> sl_goto w (SLockLoad [] (write_set t)) s
      | SEpochLoad \<Rightarrow>
          (sl_goto w (SEpochStore (global_epoch s)) s)
            \<lparr>sl_point := (sl_point s)(w := sl_clock s), sl_clock := Suc (sl_clock s),
             sl_epoch_at := (sl_epoch_at s)(sl_clock s := global_epoch s)\<rparr>
      | SEpochStore e \<Rightarrow>
          (sl_goto w (SVal [] (read_set t)) s)\<lparr>local_epoch := (local_epoch s)(w := e)\<rparr>
      | SVal done (r # rest) \<Rightarrow> sl_validate w done r rest s
      | SVal done [] \<Rightarrow> sl_commit c w s
      | SWrite (e # es) maxtid \<Rightarrow>
          (sl_goto w (SStore e es maxtid) s)\<lparr>sl_table := sl_write_copy (sl_val_size c) t e tb\<rparr>
      | SStore e es maxtid \<Rightarrow>
          (sl_goto w (SWrite es maxtid) s)
            \<lparr>sl_table := sl_write_store e maxtid tb,
             sl_inst := (sl_inst s)(we_rcdptr e := Suc (sl_point s w))\<rparr>
      | SWrite [] maxtid \<Rightarrow> sl_upd w (sl_clear t) SMake s)"

section \<open>The system\<close>

text \<open>
  \<^verbatim>\<open>partTableInit\<close> gives every record the TID word with epoch 1 and \<^verbatim>\<open>latest\<close> (the other
  bits of a fresh page are zero); \<^verbatim>\<open>GlobalEpoch\<close> starts at 1, the thread-local epochs at 0.
\<close>

definition sl_tidword_init :: u64 where
  "sl_tidword_init = tw_set_lock False (tw_set_latest True (tw_set_epoch 1 0))"

definition sl_init :: "db \<Rightarrow> (nat \<Rightarrow> val) \<Rightarrow> u64 \<Rightarrow> sl_sys" where
  "sl_init d wv now =
     \<lparr>sl_table = (\<lambda>k. \<lparr>tidword = sl_tidword_init, sl_val = d k\<rparr>), sl_txs = (\<lambda>w. sl_new w (wv w)),
      sl_pcs = (\<lambda>_. SMake), global_epoch = 1, local_epoch = (\<lambda>_. 0), epoch_timer_start = now,
      sl_clock = 0, sl_point = (\<lambda>_. 0), sl_com = (\<lambda>_. None), sl_tids = (\<lambda>_. 0),
      sl_inst = (\<lambda>_. 0), sl_wrapped = False, sl_epoch_at = (\<lambda>_. 0), sl_epoch_full = False\<rparr>"

definition sl_start :: "db \<Rightarrow> sl_sys \<Rightarrow> bool" where
  "sl_start d s \<longleftrightarrow> (\<exists>wv now. s = sl_init d wv now)"

definition sl_next :: "sl_config \<Rightarrow> sl_sys \<Rightarrow> sl_sys \<Rightarrow> bool" where
  "sl_next c s t \<longleftrightarrow> (\<exists>w pro now. w < sl_workers c \<and> t = sl_step c w pro now s)"

abbreviation sl_reach :: "sl_config \<Rightarrow> db \<Rightarrow> sl_sys \<Rightarrow> bool" where
  "sl_reach c d \<equiv> reach (sl_start d) (sl_next c)"

fun sl_run :: "sl_config \<Rightarrow> (nat \<times> procedure list \<times> u64) list \<Rightarrow> sl_sys \<Rightarrow> sl_sys" where
  "sl_run c [] s = s"
| "sl_run c ((w, pro, now) # sched) s = sl_run c sched (sl_step c w pro now s)"

lemma sl_run_reach:
  "sl_reach c d s \<Longrightarrow> \<forall>m \<in> set sched. fst m < sl_workers c \<Longrightarrow> sl_reach c d (sl_run c sched s)"
proof (induction sched arbitrary: s)
  case Nil
  then show ?case by simp
next
  case (Cons a sched)
  obtain w pro now where a: "a = (w, pro, now)" by (metis prod_cases3)
  with Cons.prems have "sl_next c s (sl_step c w pro now s)"
    by (auto simp: sl_next_def)
  with Cons.prems(1) have "sl_reach c d (sl_step c w pro now s)"
    by (rule reach_step)
  with Cons a show ?case by simp
qed

end
