(* ===== verification/Occ_Spec.thy ===== *)
theory Occ_Spec
  imports Serial_Spec
begin

text \<open>
  An abstract optimistic protocol, the specification that Silo refines. Transactions
  observe versions and values, lock what they write, take a serialization point while they
  hold all their locks, validate their observations, commit, copy the new payloads and
  install the new versions. The state says nothing about how the words encode locks and
  versions, in which order the locks are taken, or what a transaction does on a conflict.
  The invariant shows that the committed transactions, sorted by their points, form a
  serial history.
\<close>

section \<open>Committed transactions by serialization point\<close>

definition com_list :: "(nat \<Rightarrow> txrec option) \<Rightarrow> nat \<Rightarrow> txrec list" where
  "com_list c n = List.map_filter c [0..<n]"

definition db_before :: "db \<Rightarrow> (nat \<Rightarrow> txrec option) \<Rightarrow> nat \<Rightarrow> db" where
  "db_before d c n = serial_db d (com_list c n)"

definition wkeys :: "txrec \<Rightarrow> key set" where "wkeys t = fst ` set (tx_writes t)"

definition rkeys :: "txrec \<Rightarrow> key set" where "rkeys t = fst ` set (tx_reads t)"

lemma com_list_0 [simp]: "com_list c 0 = []"
  by (simp add: com_list_def map_filter_def)

lemma com_list_Suc: "com_list c (Suc n) = com_list c n @ (case c n of None \<Rightarrow> [] | Some t \<Rightarrow> [t])"
  by (simp add: com_list_def map_filter_def split: option.split)

lemma db_before_0 [simp]: "db_before d c 0 = d"
  by (simp add: db_before_def)

lemma db_before_Suc:
  "db_before d c (Suc n) = (case c n of None \<Rightarrow> db_before d c n | Some t \<Rightarrow> apply_tx t (db_before d c n))"
  by (simp add: db_before_def com_list_Suc split: option.split)

lemma fold_apply_write_cong: "d k = d' k \<Longrightarrow> fold apply_write ws d k = fold apply_write ws d' k"
proof (induction ws arbitrary: d d')
  case Nil
  then show ?case by simp
next
  case (Cons w ws)
  have "apply_write w d k = apply_write w d' k"
    using Cons.prems by (cases "k = fst w") (auto simp: apply_write_def)
  then show ?case using Cons.IH [of "apply_write w d" "apply_write w d'"] by simp
qed

lemma apply_tx_cong: "d k = d' k \<Longrightarrow> apply_tx t d k = apply_tx t d' k"
  unfolding apply_tx_def by (rule fold_apply_write_cong)

lemma db_before_stable:
  "m \<le> n \<Longrightarrow> (\<And>s t. m \<le> s \<Longrightarrow> s < n \<Longrightarrow> c s = Some t \<Longrightarrow> k \<notin> wkeys t) \<Longrightarrow>
   db_before d c n k = db_before d c m k"
proof (induction n)
  case 0
  then show ?case by simp
next
  case (Suc n)
  show ?case
  proof (cases "m = Suc n")
    case False
    with Suc.prems have "db_before d c n k = db_before d c m k" by (intro Suc.IH) auto
    moreover have "c n = Some t \<Longrightarrow> k \<notin> wkeys t" for t
      using Suc.prems(2) [of n t] Suc.prems(1) False by simp
    ultimately show ?thesis
      by (auto simp: db_before_Suc apply_tx_other wkeys_def split: option.split)
  qed simp
qed

lemma db_before_upd_ge: "n \<le> p \<Longrightarrow> db_before d (c(p := x)) n = db_before d c n"
  by (induction n) (auto simp: db_before_Suc split: option.split)

lemma db_before_upd_other:
  assumes "c p = None" "k \<notin> wkeys t"
  shows "db_before d (c(p := Some t)) n k = db_before d c n k"
proof (induction n)
  case 0
  then show ?case by simp
next
  case (Suc n)
  show ?case
  proof (cases "n = p")
    case True
    with Suc assms show ?thesis by (simp add: db_before_Suc apply_tx_other wkeys_def)
  next
    case False
    with Suc show ?thesis by (auto simp: db_before_Suc intro: apply_tx_cong split: option.split)
  qed
qed

lemma db_before_upd_write:
  assumes "c p = None" "p < n" "\<And>s u. p < s \<Longrightarrow> s < n \<Longrightarrow> c s = Some u \<Longrightarrow> k \<notin> wkeys u"
  shows "db_before d (c(p := Some t)) n k = apply_tx t (db_before d c n) k"
proof -
  have "db_before d (c(p := Some t)) n k = db_before d (c(p := Some t)) (Suc p) k"
    by (intro db_before_stable) (use assms(2,3) in \<open>auto simp: Suc_le_eq\<close>)
  also have "\<dots> = apply_tx t (db_before d c p) k"
    by (simp add: db_before_Suc db_before_upd_ge)
  also have "\<dots> = apply_tx t (db_before d c n) k"
  proof (rule apply_tx_cong)
    have "db_before d c n k = db_before d c (Suc p) k"
      by (intro db_before_stable) (use assms(2,3) in \<open>auto simp: Suc_le_eq\<close>)
    then show "db_before d c p k = db_before d c n k" using assms(1) by (simp add: db_before_Suc)
  qed
  finally show ?thesis .
qed

lemma serial_ok_com_list:
  "serial_ok d (com_list c n) \<longleftrightarrow>
   (\<forall>s < n. \<forall>t. c s = Some t \<longrightarrow> (\<forall>(k, v) \<in> set (tx_reads t). db_before d c s k = v))"
proof (induction n)
  case 0
  then show ?case by simp
next
  case (Suc n)
  define Q where "Q s (t :: txrec) \<longleftrightarrow> (\<forall>(k, v) \<in> set (tx_reads t). db_before d c s k = v)" for s t
  have "serial_ok d (com_list c (Suc n)) \<longleftrightarrow> serial_ok d (com_list c n) \<and> (\<forall>t. c n = Some t \<longrightarrow> Q n t)"
    by (cases "c n") (simp_all add: com_list_Suc serial_ok_append Q_def db_before_def)
  moreover have "serial_ok d (com_list c n) \<longleftrightarrow> (\<forall>s < n. \<forall>t. c s = Some t \<longrightarrow> Q s t)"
    using Suc by (simp add: Q_def)
  ultimately show ?case unfolding Q_def [symmetric] less_Suc_eq by blast
qed

section \<open>The protocol\<close>

record occ =
  o_bit :: "key \<Rightarrow> bool"
  o_ver :: "key \<Rightarrow> u64"
  o_val :: "key \<Rightarrow> val"
  o_lock :: "nat \<Rightarrow> key set"
  o_low :: "nat \<Rightarrow> u64"
  o_obs :: "nat \<Rightarrow> (key \<times> u64 \<times> val option) set"
  o_stamp :: "nat \<Rightarrow> nat option"
  o_writes :: "nat \<Rightarrow> (key \<times> (val \<Rightarrow> val)) list"
  o_valid :: "nat \<Rightarrow> (key \<times> val) set"
  o_pend :: "nat \<Rightarrow> (key \<times> (val \<Rightarrow> val)) list"
  o_dirty :: "nat \<Rightarrow> key option"
  o_point :: "nat \<Rightarrow> nat"
  o_com :: "nat \<Rightarrow> txrec option"
  o_clock :: nat
  o_inst :: "key \<Rightarrow> nat"

text \<open>
  What a worker may observe: what it has observed, the current version of a record, and
  the current payload of a record whose version it has observed.
\<close>

definition obs_ok :: "occ \<Rightarrow> nat \<Rightarrow> key \<times> u64 \<times> val option \<Rightarrow> bool" where
  "obs_ok s w x \<longleftrightarrow> x \<in> o_obs s w \<or> (\<exists>k. x = (k, o_ver s k, None)) \<or>
     (\<exists>k e. (k, e, None) \<in> o_obs s w \<and> x = (k, e, Some (o_val s k)))"

definition idle :: "occ \<Rightarrow> nat \<Rightarrow> bool" where
  "idle s w \<longleftrightarrow> o_stamp s w = None \<and> o_pend s w = [] \<and> o_dirty s w = None"

inductive occ_step :: "occ \<Rightarrow> occ \<Rightarrow> bool" where
  occ_stay: "occ_step s s"
| occ_local: "\<forall>x \<in> X. obs_ok s w x \<Longrightarrow> o_stamp s w = None \<or> X \<subseteq> o_obs s w \<Longrightarrow>
    o_lock s w = {} \<or> o_low s w \<le> l \<Longrightarrow>
    occ_step s (s\<lparr>o_obs := (o_obs s)(w := X), o_low := (o_low s)(w := l)\<rparr>)"
| occ_lock: "\<not> o_bit s k \<Longrightarrow> idle s w \<Longrightarrow> o_low s w \<le> l \<Longrightarrow> o_ver s k \<le> l \<Longrightarrow>
    occ_step s (s\<lparr>o_bit := (o_bit s)(k := True), o_lock := (o_lock s)(w := insert k (o_lock s w)),
      o_low := (o_low s)(w := l)\<rparr>)"
| occ_unlock: "k \<in> o_lock s w \<Longrightarrow> idle s w \<Longrightarrow>
    occ_step s (s\<lparr>o_bit := (o_bit s)(k := False), o_lock := (o_lock s)(w := o_lock s w - {k})\<rparr>)"
| occ_stamp: "idle s w \<Longrightarrow> fst ` set ws \<subseteq> o_lock s w \<Longrightarrow> distinct (map fst ws) \<Longrightarrow>
    occ_step s (s\<lparr>o_stamp := (o_stamp s)(w := Some (o_clock s)), o_clock := Suc (o_clock s),
      o_writes := (o_writes s)(w := ws), o_valid := (o_valid s)(w := {}),
      o_point := (o_point s)(w := o_clock s)\<rparr>)"
| occ_validate: "o_stamp s w = Some p \<Longrightarrow> (k, o_ver s k, Some v) \<in> o_obs s w \<Longrightarrow>
    \<not> o_bit s k \<or> k \<in> o_lock s w \<Longrightarrow> o_low s w \<le> l \<Longrightarrow>
    occ_step s (s\<lparr>o_valid := (o_valid s)(w := insert (k, v) (o_valid s w)),
      o_low := (o_low s)(w := l)\<rparr>)"
| occ_abandon: "o_stamp s w = Some p \<Longrightarrow>
    occ_step s (s\<lparr>o_stamp := (o_stamp s)(w := None), o_writes := (o_writes s)(w := []),
      o_valid := (o_valid s)(w := {})\<rparr>)"
| occ_commit: "o_stamp s w = Some p \<Longrightarrow> set rs \<subseteq> o_valid s w \<Longrightarrow>
    occ_step s (s\<lparr>o_stamp := (o_stamp s)(w := None), o_writes := (o_writes s)(w := []),
      o_valid := (o_valid s)(w := {}), o_pend := (o_pend s)(w := o_writes s w),
      o_com := (o_com s)(p := Some \<lparr>tx_reads = rs, tx_writes = o_writes s w\<rparr>)\<rparr>)"
| occ_copy: "o_pend s w = (k, f) # ps \<Longrightarrow> o_dirty s w = None \<Longrightarrow>
    occ_step s (s\<lparr>o_val := (o_val s)(k := f (o_val s k)), o_pend := (o_pend s)(w := ps),
      o_dirty := (o_dirty s)(w := Some k)\<rparr>)"
| occ_install: "o_dirty s w = Some k \<Longrightarrow> o_ver s k < n \<Longrightarrow>
    occ_step s (s\<lparr>o_ver := (o_ver s)(k := n), o_bit := (o_bit s)(k := False),
      o_lock := (o_lock s)(w := o_lock s w - {k}), o_dirty := (o_dirty s)(w := None),
      o_inst := (o_inst s)(k := Suc (o_point s w))\<rparr>)"

section \<open>The invariant\<close>

text \<open>\<open>todo s w\<close>: the records whose new version \<open>w\<close> has committed but not installed.\<close>

definition todo :: "occ \<Rightarrow> nat \<Rightarrow> key set" where
  "todo s w = fst ` set (o_pend s w) \<union> set_option (o_dirty s w)"

definition occ_locks :: "occ \<Rightarrow> bool" where
  "occ_locks s \<longleftrightarrow> (\<forall>k. o_bit s k \<longleftrightarrow> (\<exists>w. k \<in> o_lock s w)) \<and>
     (\<forall>k w v. k \<in> o_lock s w \<longrightarrow> k \<in> o_lock s v \<longrightarrow> w = v) \<and>
     (\<forall>k w. k \<in> o_lock s w \<longrightarrow> o_ver s k \<le> o_low s w) \<and>
     (\<forall>k w. k \<in> todo s w \<longrightarrow> k \<in> o_lock s w) \<and>
     (\<forall>k w p. o_stamp s w = Some p \<longrightarrow> k \<in> fst ` set (o_writes s w) \<longrightarrow> k \<in> o_lock s w)"

definition occ_stages :: "occ \<Rightarrow> bool" where
  "occ_stages s \<longleftrightarrow>
     (\<forall>w. distinct (map fst (o_pend s w)) \<and> (\<forall>k. o_dirty s w = Some k \<longrightarrow> k \<notin> fst ` set (o_pend s w))) \<and>
     (\<forall>w p. o_stamp s w = Some p \<longrightarrow> p < o_clock s \<and> o_com s p = None \<and> todo s w = {} \<and>
        o_point s w = p \<and> distinct (map fst (o_writes s w))) \<and>
     (\<forall>w v p. o_stamp s w = Some p \<longrightarrow> o_stamp s v = Some p \<longrightarrow> w = v) \<and>
     (\<forall>p. o_com s p \<noteq> None \<longrightarrow> p < o_clock s) \<and>
     (\<forall>w. todo s w \<noteq> {} \<longrightarrow> o_com s (o_point s w) \<noteq> None) \<and>
     (\<forall>k. o_inst s k \<le> o_clock s)"

text \<open>No transaction with a later point has read or written what a stamped one writes.\<close>

definition occ_later :: "occ \<Rightarrow> bool" where
  "occ_later s \<longleftrightarrow>
     (\<forall>w p k q t. o_stamp s w = Some p \<longrightarrow> k \<in> fst ` set (o_writes s w) \<longrightarrow> p < q \<longrightarrow>
        o_com s q = Some t \<longrightarrow> k \<notin> rkeys t \<and> k \<notin> wkeys t) \<and>
     (\<forall>w v p q k. o_stamp s w = Some p \<longrightarrow> o_stamp s v = Some q \<longrightarrow> w \<noteq> v \<longrightarrow>
        k \<in> fst ` set (o_writes s w) \<longrightarrow> k \<in> fst ` o_valid s v \<longrightarrow> q < p)"

text \<open>The payloads and versions against the serial history.\<close>

definition occ_values :: "db \<Rightarrow> occ \<Rightarrow> bool" where
  "occ_values d s \<longleftrightarrow>
     (\<forall>k. (\<forall>w. k \<notin> fst ` set (o_pend s w)) \<longrightarrow> o_val s k = db_before d (o_com s) (o_clock s) k) \<and>
     (\<forall>w k f. (k, f) \<in> set (o_pend s w) \<longrightarrow>
        db_before d (o_com s) (o_clock s) k = f (o_val s k)) \<and>
     (\<forall>p t k. o_com s p = Some t \<longrightarrow> k \<in> wkeys t \<longrightarrow> (\<forall>w. k \<notin> todo s w) \<longrightarrow> p < o_inst s k) \<and>
     (\<forall>p t k w. o_com s p = Some t \<longrightarrow> k \<in> wkeys t \<longrightarrow> k \<in> todo s w \<longrightarrow> p \<le> o_point s w)"

definition occ_reads :: "db \<Rightarrow> occ \<Rightarrow> bool" where
  "occ_reads d s \<longleftrightarrow>
     (\<forall>w k e x. (k, e, x) \<in> o_obs s w \<longrightarrow> e \<le> o_ver s k) \<and>
     (\<forall>w k v. (k, o_ver s k, Some v) \<in> o_obs s w \<longrightarrow> (\<forall>u. o_dirty s u \<noteq> Some k) \<longrightarrow> v = o_val s k) \<and>
     (\<forall>w p k v. o_stamp s w = Some p \<longrightarrow> (k, o_ver s k, Some v) \<in> o_obs s w \<longrightarrow> o_inst s k \<le> p) \<and>
     (\<forall>w p k v. o_stamp s w = Some p \<longrightarrow> (k, v) \<in> o_valid s w \<longrightarrow> db_before d (o_com s) p k = v) \<and>
     (\<forall>p t k v. o_com s p = Some t \<longrightarrow> (k, v) \<in> set (tx_reads t) \<longrightarrow> db_before d (o_com s) p k = v)"

definition occ_inv :: "db \<Rightarrow> occ \<Rightarrow> bool" where
  "occ_inv d s \<longleftrightarrow> occ_locks s \<and> occ_stages s \<and> occ_later s \<and> occ_values d s \<and> occ_reads d s"

lemma occ_inv_serial: "occ_inv d s \<Longrightarrow> serial_ok d (com_list (o_com s) (o_clock s))"
  unfolding serial_ok_com_list occ_inv_def occ_reads_def by blast

end
