(* ===== verification/Occ_Proofs.thy ===== *)
theory Occ_Proofs
  imports Occ_Spec
begin

text \<open>Every step of the abstract optimistic protocol keeps its invariant.\<close>

lemma todo_upd [simp]:
  "todo (s\<lparr>o_pend := (o_pend s)(w := ps)\<rparr>) v =
   (if v = w then fst ` set ps \<union> set_option (o_dirty s w) else todo s v)"
  by (simp add: todo_def)

lemmas occ_inv_defs = occ_locks_def occ_stages_def occ_later_def occ_values_def occ_reads_def

lemma inv_parts:
  assumes "occ_inv d s"
  shows inv_locks: "occ_locks s" and inv_stages: "occ_stages s" and inv_later: "occ_later s"
    and inv_values: "occ_values d s" and inv_reads: "occ_reads d s"
  using assms by (simp_all add: occ_inv_def)

lemma inv_excl: "occ_inv d s \<Longrightarrow> k \<in> o_lock s w \<Longrightarrow> k \<in> o_lock s v \<Longrightarrow> w = v"
  unfolding occ_inv_def occ_locks_def by (elim conjE) meson

lemma inv_bit: "occ_inv d s \<Longrightarrow> o_bit s k \<longleftrightarrow> (\<exists>w. k \<in> o_lock s w)"
  unfolding occ_inv_def occ_locks_def by (elim conjE) meson

lemma inv_low: "occ_inv d s \<Longrightarrow> k \<in> o_lock s w \<Longrightarrow> o_ver s k \<le> o_low s w"
  unfolding occ_inv_def occ_locks_def by (elim conjE) meson

lemma occ_locksI:
  assumes "\<And>k. o_bit s k \<longleftrightarrow> (\<exists>w. k \<in> o_lock s w)"
    and "\<And>k w v. k \<in> o_lock s w \<Longrightarrow> k \<in> o_lock s v \<Longrightarrow> w = v"
    and "\<And>k w. k \<in> o_lock s w \<Longrightarrow> o_ver s k \<le> o_low s w"
    and "\<And>k w. k \<in> todo s w \<Longrightarrow> k \<in> o_lock s w"
    and "\<And>k w p. o_stamp s w = Some p \<Longrightarrow> k \<in> fst ` set (o_writes s w) \<Longrightarrow> k \<in> o_lock s w"
  shows "occ_locks s"
  unfolding occ_locks_def using assms(2-5) by (intro conjI allI impI assms(1); simp)

lemma inv_todo: "occ_inv d s \<Longrightarrow> k \<in> todo s w \<Longrightarrow> k \<in> o_lock s w"
  unfolding occ_inv_def occ_locks_def by (elim conjE) meson

lemma inv_writes:
  "occ_inv d s \<Longrightarrow> o_stamp s w = Some p \<Longrightarrow> k \<in> fst ` set (o_writes s w) \<Longrightarrow> k \<in> o_lock s w"
  unfolding occ_inv_def occ_locks_def by (elim conjE) meson

lemma inv_stamp:
  assumes "occ_inv d s" "o_stamp s w = Some p"
  shows "p < o_clock s" "o_com s p = None" "todo s w = {}" "o_point s w = p"
    "distinct (map fst (o_writes s w))"
  using assms unfolding occ_inv_def occ_stages_def by blast+

lemma inv_obs_ver: "occ_inv d s \<Longrightarrow> (k, e, x) \<in> o_obs s w \<Longrightarrow> e \<le> o_ver s k"
  unfolding occ_inv_def occ_reads_def by blast

lemma inv_obs_val:
  "occ_inv d s \<Longrightarrow> (k, o_ver s k, Some v) \<in> o_obs s w \<Longrightarrow> \<forall>u. o_dirty s u \<noteq> Some k \<Longrightarrow> v = o_val s k"
  unfolding occ_inv_def occ_reads_def by blast

lemma inv_obs_inst:
  "occ_inv d s \<Longrightarrow> o_stamp s w = Some p \<Longrightarrow> (k, o_ver s k, Some v) \<in> o_obs s w \<Longrightarrow> o_inst s k \<le> p"
  unfolding occ_inv_def occ_reads_def by blast

lemma inv_valid:
  "occ_inv d s \<Longrightarrow> o_stamp s w = Some p \<Longrightarrow> (k, v) \<in> o_valid s w \<Longrightarrow> db_before d (o_com s) p k = v"
  unfolding occ_inv_def occ_reads_def by blast

lemma inv_com:
  "occ_inv d s \<Longrightarrow> o_com s p = Some t \<Longrightarrow> (k, v) \<in> set (tx_reads t) \<Longrightarrow> db_before d (o_com s) p k = v"
  unfolding occ_inv_def occ_reads_def by blast

lemma occ_readsI:
  assumes "\<And>k e x w. (k, e, x) \<in> o_obs s w \<Longrightarrow> e \<le> o_ver s k"
    and "\<And>k v w. (k, o_ver s k, Some v) \<in> o_obs s w \<Longrightarrow> \<forall>u. o_dirty s u \<noteq> Some k \<Longrightarrow> v = o_val s k"
    and "\<And>k v w p. o_stamp s w = Some p \<Longrightarrow> (k, o_ver s k, Some v) \<in> o_obs s w \<Longrightarrow> o_inst s k \<le> p"
    and "\<And>k v w p. o_stamp s w = Some p \<Longrightarrow> (k, v) \<in> o_valid s w \<Longrightarrow> db_before d (o_com s) p k = v"
    and "\<And>k v p t. o_com s p = Some t \<Longrightarrow> (k, v) \<in> set (tx_reads t) \<Longrightarrow> db_before d (o_com s) p k = v"
  shows "occ_reads d s"
  unfolding occ_reads_def by (intro conjI allI impI) (fact assms | rule assms; assumption)+

lemma occ_stagesI:
  assumes "\<And>w. distinct (map fst (o_pend s w))"
    and "\<And>w k. o_dirty s w = Some k \<Longrightarrow> k \<notin> fst ` set (o_pend s w)"
    and "\<And>w p. o_stamp s w = Some p \<Longrightarrow> p < o_clock s \<and> o_com s p = None \<and> todo s w = {} \<and>
        o_point s w = p \<and> distinct (map fst (o_writes s w))"
    and "\<And>w v p. o_stamp s w = Some p \<Longrightarrow> o_stamp s v = Some p \<Longrightarrow> w = v"
    and "\<And>p. o_com s p \<noteq> None \<Longrightarrow> p < o_clock s"
    and "\<And>w. todo s w \<noteq> {} \<Longrightarrow> o_com s (o_point s w) \<noteq> None"
    and "\<And>k. o_inst s k \<le> o_clock s"
  shows "occ_stages s"
  unfolding occ_stages_def using assms(2,4) by (intro conjI allI impI assms; blast)

lemma inv_pend:
  assumes "occ_inv d s"
  shows "distinct (map fst (o_pend s w))" "o_dirty s w = Some k \<Longrightarrow> k \<notin> fst ` set (o_pend s w)"
  using assms unfolding occ_inv_def occ_stages_def by blast+

lemma inv_inj: "occ_inv d s \<Longrightarrow> o_stamp s w = Some p \<Longrightarrow> o_stamp s v = Some p \<Longrightarrow> w = v"
  unfolding occ_inv_def occ_stages_def by blast

lemma inv_clock:
  assumes "occ_inv d s"
  shows "o_com s p \<noteq> None \<Longrightarrow> p < o_clock s" "o_inst s k \<le> o_clock s"
    "todo s w \<noteq> {} \<Longrightarrow> o_com s (o_point s w) \<noteq> None"
  using assms unfolding occ_inv_def occ_stages_def by blast+

lemma inv_no_later:
  "occ_inv d s \<Longrightarrow> o_stamp s w = Some p \<Longrightarrow> k \<in> fst ` set (o_writes s w) \<Longrightarrow> p < q \<Longrightarrow>
   o_com s q = Some t \<Longrightarrow> k \<notin> rkeys t \<and> k \<notin> wkeys t"
  unfolding occ_inv_def occ_later_def by blast

lemma inv_order:
  "occ_inv d s \<Longrightarrow> o_stamp s w = Some p \<Longrightarrow> o_stamp s v = Some q \<Longrightarrow> w \<noteq> v \<Longrightarrow>
   k \<in> fst ` set (o_writes s w) \<Longrightarrow> k \<in> fst ` o_valid s v \<Longrightarrow> q < p"
  unfolding occ_inv_def occ_later_def by blast

lemma occ_laterI:
  assumes "\<And>w p k q t. o_stamp s w = Some p \<Longrightarrow> k \<in> fst ` set (o_writes s w) \<Longrightarrow> p < q \<Longrightarrow>
        o_com s q = Some t \<Longrightarrow> k \<notin> rkeys t \<and> k \<notin> wkeys t"
    and "\<And>w v p q k. o_stamp s w = Some p \<Longrightarrow> o_stamp s v = Some q \<Longrightarrow> w \<noteq> v \<Longrightarrow>
        k \<in> fst ` set (o_writes s w) \<Longrightarrow> k \<in> fst ` o_valid s v \<Longrightarrow> q < p"
  shows "occ_later s"
  unfolding occ_later_def by (intro conjI allI impI) (use assms in \<open>meson\<close>)+

lemma inv_settled:
  "occ_inv d s \<Longrightarrow> \<forall>w. k \<notin> fst ` set (o_pend s w) \<Longrightarrow> o_val s k = db_before d (o_com s) (o_clock s) k"
  unfolding occ_inv_def occ_values_def by blast

lemma inv_pending:
  "occ_inv d s \<Longrightarrow> (k, f) \<in> set (o_pend s w) \<Longrightarrow> db_before d (o_com s) (o_clock s) k = f (o_val s k)"
  unfolding occ_inv_def occ_values_def by blast

lemma inv_writers:
  assumes "occ_inv d s" "o_com s p = Some t" "k \<in> wkeys t"
  shows "\<forall>w. k \<notin> todo s w \<Longrightarrow> p < o_inst s k" "k \<in> todo s w \<Longrightarrow> p \<le> o_point s w"
  using assms unfolding occ_inv_def occ_values_def by blast+

lemma occ_valuesI:
  assumes "\<And>k. \<forall>w. k \<notin> fst ` set (o_pend s w) \<Longrightarrow> o_val s k = db_before d (o_com s) (o_clock s) k"
    and "\<And>k f w. (k, f) \<in> set (o_pend s w) \<Longrightarrow> db_before d (o_com s) (o_clock s) k = f (o_val s k)"
    and "\<And>p t k. o_com s p = Some t \<Longrightarrow> k \<in> wkeys t \<Longrightarrow> \<forall>w. k \<notin> todo s w \<Longrightarrow> p < o_inst s k"
    and "\<And>p t k w. o_com s p = Some t \<Longrightarrow> k \<in> wkeys t \<Longrightarrow> k \<in> todo s w \<Longrightarrow> p \<le> o_point s w"
  shows "occ_values d s"
  unfolding occ_values_def by (intro conjI allI impI) (fact assms | rule assms; assumption)+

lemma idle_todo: "idle s w \<longleftrightarrow> o_stamp s w = None \<and> todo s w = {}"
  by (cases "o_dirty s w") (auto simp: idle_def todo_def)

lemma occ_local_inv:
  assumes inv: "occ_inv d s" and X: "\<forall>x \<in> X. obs_ok s w x"
    and st: "o_stamp s w = None \<or> X \<subseteq> o_obs s w" and l: "o_lock s w = {} \<or> o_low s w \<le> l"
  shows "occ_inv d (s\<lparr>o_obs := (o_obs s)(w := X), o_low := (o_low s)(w := l)\<rparr>)" (is "occ_inv d ?t")
proof -
  have t: "todo ?t = todo s" by (rule ext) (simp add: todo_def)
  have "occ_locks ?t"
  proof (rule occ_locksI)
    show "k \<in> o_lock ?t v \<Longrightarrow> o_ver ?t k \<le> o_low ?t v" for k v
      using inv_low [OF inv, of k v] l by (auto intro: order_trans)
    show "o_stamp ?t v = Some p \<Longrightarrow> k \<in> fst ` set (o_writes ?t v) \<Longrightarrow> k \<in> o_lock ?t v" for k v p
      using inv_writes [OF inv, of v p k] by simp
  qed (use inv_bit [OF inv] inv_excl [OF inv] inv_todo [OF inv] in \<open>auto simp: t\<close>)
  moreover have "occ_stages ?t" using inv_stages [OF inv] by (simp add: occ_stages_def t)
  moreover have "occ_later ?t" using inv_later [OF inv] by (simp add: occ_later_def)
  moreover have "occ_values d ?t" using inv_values [OF inv] by (simp add: occ_values_def t)
  moreover have "occ_reads d ?t"
  proof (rule occ_readsI)
    show "e \<le> o_ver ?t k" if "(k, e, x) \<in> o_obs ?t v" for k e x v
      using that X inv_obs_ver [OF inv] by (auto simp: obs_ok_def split: if_splits)
    show "x = o_val ?t k" if "(k, o_ver ?t k, Some x) \<in> o_obs ?t v" "\<forall>u. o_dirty ?t u \<noteq> Some k" for k v x
    proof (cases "v = w")
      case True
      with that(1) X have "obs_ok s w (k, o_ver s k, Some x)" by simp
      with that(2) show ?thesis using inv_obs_val [OF inv, of k x w] by (auto simp: obs_ok_def)
    next
      case False
      with that show ?thesis using inv_obs_val [OF inv, of k x v] by simp
    qed
    show "o_inst ?t k \<le> p" if "o_stamp ?t v = Some p" "(k, o_ver ?t k, Some x) \<in> o_obs ?t v" for k v p x
    proof -
      from that st have "(k, o_ver s k, Some x) \<in> o_obs s v" by (auto split: if_splits)
      with that show ?thesis using inv_obs_inst [OF inv, of v p k x] by simp
    qed
  qed (use inv_valid [OF inv] inv_com [OF inv] in simp_all)
  ultimately show ?thesis by (simp add: occ_inv_def)
qed

lemma occ_lock_inv:
  assumes inv: "occ_inv d s" and k: "\<not> o_bit s k" and id: "idle s w"
    and l: "o_low s w \<le> l" "o_ver s k \<le> l"
  shows "occ_inv d (s\<lparr>o_bit := (o_bit s)(k := True), o_lock := (o_lock s)(w := insert k (o_lock s w)),
      o_low := (o_low s)(w := l)\<rparr>)" (is "occ_inv d ?t")
proof -
  have t: "todo ?t = todo s" by (rule ext) (simp add: todo_def)
  have free: "k \<notin> o_lock s v" for v using inv_bit [OF inv] k by blast
  have mem: "j \<in> o_lock ?t v \<longleftrightarrow> j \<in> o_lock s v \<or> j = k \<and> v = w" for j v by auto
  have "occ_locks ?t"
  proof (rule occ_locksI; unfold mem)
    show "o_bit ?t j \<longleftrightarrow> (\<exists>v. j \<in> o_lock s v \<or> j = k \<and> v = w)" for j
      using inv_bit [OF inv] by auto
    show "i \<in> o_lock s u \<or> i = k \<and> u = w \<Longrightarrow> i \<in> o_lock s v \<or> i = k \<and> v = w \<Longrightarrow> u = v" for i u v
      using inv_excl [OF inv] free by blast
    show "i \<in> o_lock s u \<or> i = k \<and> u = w \<Longrightarrow> o_ver ?t i \<le> o_low ?t u" for i u
      using inv_low [OF inv, of i u] l by (auto intro: order_trans)
    show "i \<in> todo ?t u \<Longrightarrow> i \<in> o_lock s u \<or> i = k \<and> u = w" for i u
      using inv_todo [OF inv] t by auto
    show "o_stamp ?t u = Some p \<Longrightarrow> i \<in> fst ` set (o_writes ?t u) \<Longrightarrow>
        i \<in> o_lock s u \<or> i = k \<and> u = w" for i u p
      using inv_writes [OF inv, of u p i] by simp
  qed
  moreover have "occ_stages ?t" using inv_stages [OF inv] by (simp add: occ_stages_def t)
  moreover have "occ_later ?t" using inv_later [OF inv] by (simp add: occ_later_def)
  moreover have "occ_values d ?t" using inv_values [OF inv] by (simp add: occ_values_def t)
  moreover have "occ_reads d ?t" using inv_reads [OF inv] by (simp add: occ_reads_def)
  ultimately show ?thesis by (simp add: occ_inv_def)
qed

lemma occ_unlock_inv:
  assumes inv: "occ_inv d s" and k: "k \<in> o_lock s w" and id: "idle s w"
  shows "occ_inv d (s\<lparr>o_bit := (o_bit s)(k := False), o_lock := (o_lock s)(w := o_lock s w - {k})\<rparr>)"
    (is "occ_inv d ?t")
proof -
  have t: "todo ?t = todo s" by (rule ext) (simp add: todo_def)
  have other: "v \<noteq> w \<Longrightarrow> k \<notin> o_lock s v" for v using inv_excl [OF inv k] by blast
  have mem: "j \<in> o_lock ?t v \<longleftrightarrow> j \<in> o_lock s v \<and> j \<noteq> k" for j v
    using other [of v] by auto
  have "occ_locks ?t"
  proof (rule occ_locksI; unfold mem)
    show "o_bit ?t j \<longleftrightarrow> (\<exists>v. j \<in> o_lock s v \<and> j \<noteq> k)" for j
      using inv_bit [OF inv] by auto
    show "i \<in> todo ?t u \<Longrightarrow> i \<in> o_lock s u \<and> i \<noteq> k" for i u
      using inv_todo [OF inv, of i u] other [of u] id t by (auto simp: idle_todo)
    show "o_stamp ?t u = Some p \<Longrightarrow> i \<in> fst ` set (o_writes ?t u) \<Longrightarrow> i \<in> o_lock s u \<and> i \<noteq> k" for i u p
      using inv_writes [OF inv, of u p i] other [of u] id by (cases "u = w") (auto simp: idle_todo)
  qed (use inv_excl [OF inv] inv_low [OF inv] in auto)
  moreover have "occ_stages ?t" using inv_stages [OF inv] by (simp add: occ_stages_def t)
  moreover have "occ_later ?t" using inv_later [OF inv] by (simp add: occ_later_def)
  moreover have "occ_values d ?t" using inv_values [OF inv] by (simp add: occ_values_def t)
  moreover have "occ_reads d ?t" using inv_reads [OF inv] by (simp add: occ_reads_def)
  ultimately show ?thesis by (simp add: occ_inv_def)
qed

lemma occ_stamp_inv:
  assumes inv: "occ_inv d s" and id: "idle s w" and ws: "fst ` set ws \<subseteq> o_lock s w"
    and di: "distinct (map fst ws)"
  shows "occ_inv d (s\<lparr>o_stamp := (o_stamp s)(w := Some (o_clock s)), o_clock := Suc (o_clock s),
      o_writes := (o_writes s)(w := ws), o_valid := (o_valid s)(w := {}),
      o_point := (o_point s)(w := o_clock s)\<rparr>)" (is "occ_inv d ?t")
proof -
  have t: "todo ?t = todo s" by (rule ext) (simp add: todo_def)
  have fresh: "o_com s (o_clock s) = None" using inv_clock(1) [OF inv, of "o_clock s"] by blast
  have tw: "todo s w = {}" using id by (simp add: idle_todo)
  have old: "o_stamp s v = Some p \<Longrightarrow> p < o_clock s" for v p using inv_stamp [OF inv] by blast
  have "occ_locks ?t"
  proof (rule occ_locksI)
    show "o_stamp ?t v = Some p \<Longrightarrow> k \<in> fst ` set (o_writes ?t v) \<Longrightarrow> k \<in> o_lock ?t v" for k v p
      using inv_writes [OF inv, of v p k] ws by (cases "v = w") auto
  qed (use inv_bit [OF inv] inv_excl [OF inv] inv_todo [OF inv] inv_low [OF inv] in \<open>auto simp: t\<close>)
  moreover have "occ_stages ?t"
  proof (rule occ_stagesI; (unfold t)?)
    show "o_stamp ?t v = Some p \<Longrightarrow> p < o_clock ?t \<and> o_com ?t p = None \<and> todo s v = {} \<and>
        o_point ?t v = p \<and> distinct (map fst (o_writes ?t v))" for v p
      using inv_stamp [OF inv, of v p] fresh di tw by (cases "v = w") auto
    show "o_stamp ?t u = Some p \<Longrightarrow> o_stamp ?t v = Some p \<Longrightarrow> u = v" for u v p
      using inv_inj [OF inv, of u p v] old by (auto split: if_splits)
    show "todo s v \<noteq> {} \<Longrightarrow> o_com ?t (o_point ?t v) \<noteq> None" for v
      using inv_clock(3) [OF inv, of v] tw by (cases "v = w") auto
    show "o_com ?t p \<noteq> None \<Longrightarrow> p < o_clock ?t" for p
      using inv_clock(1) [OF inv, of p] by simp
  qed (use inv_pend [OF inv] inv_clock(2) [OF inv] in \<open>auto intro: le_SucI\<close>)
  moreover have "occ_later ?t"
  proof (rule occ_laterI)
    fix v p k q u
    assume a: "o_stamp ?t v = Some p" "k \<in> fst ` set (o_writes ?t v)" "p < q" "o_com ?t q = Some u"
    then have "q < o_clock s" using inv_clock(1) [OF inv, of q] by simp
    with a show "k \<notin> rkeys u \<and> k \<notin> wkeys u"
      using inv_no_later [OF inv, of v p k q u] by (cases "v = w") auto
  next
    fix u v p q k
    assume "o_stamp ?t u = Some p" "o_stamp ?t v = Some q" "u \<noteq> v"
      "k \<in> fst ` set (o_writes ?t u)" "k \<in> fst ` o_valid ?t v"
    then show "q < p"
      using inv_order [OF inv, of u p v q k] old [of v q] by (cases "u = w"; cases "v = w") auto
  qed
  moreover have "occ_values d ?t"
  proof (rule occ_valuesI; (unfold t)?)
    show "k \<in> todo s v \<Longrightarrow> o_com ?t p = Some u \<Longrightarrow> k \<in> wkeys u \<Longrightarrow> p \<le> o_point ?t v" for k v p u
      using inv_writers(2) [OF inv, of p u k v] tw by (cases "v = w") auto
  qed (use inv_settled [OF inv] inv_pending [OF inv] inv_writers(1) [OF inv] fresh in \<open>simp_all add: db_before_Suc\<close>)
  moreover have "occ_reads d ?t"
  proof (rule occ_readsI)
    show "o_stamp ?t v = Some p \<Longrightarrow> (k, o_ver ?t k, Some x) \<in> o_obs ?t v \<Longrightarrow> o_inst ?t k \<le> p" for k v p x
      using inv_obs_inst [OF inv, of v p k x] inv_clock(2) [OF inv, of k] by (cases "v = w") auto
    show "o_stamp ?t v = Some p \<Longrightarrow> (k, x) \<in> o_valid ?t v \<Longrightarrow> db_before d (o_com ?t) p k = x" for k v p x
      using inv_valid [OF inv, of v p k x] by (cases "v = w") auto
  qed (use inv_obs_ver [OF inv] inv_obs_val [OF inv] inv_com [OF inv] in auto)
  ultimately show ?thesis by (simp add: occ_inv_def)
qed

lemma occ_validated_value:
  assumes inv: "occ_inv d s" and st: "o_stamp s w = Some p"
    and ob: "(k, o_ver s k, Some v) \<in> o_obs s w" and free: "\<not> o_bit s k \<or> k \<in> o_lock s w"
  shows "db_before d (o_com s) p k = v" and "\<And>u. k \<in> o_lock s u \<Longrightarrow> u = w"
proof -
  show lock: "\<And>u. k \<in> o_lock s u \<Longrightarrow> u = w"
    using free inv_bit [OF inv, of k] inv_excl [OF inv, of k] by blast
  have nt: "k \<notin> todo s u" for u
    using lock [of u] inv_todo [OF inv, of k u] inv_stamp(3) [OF inv st] by auto
  then have "o_dirty s u \<noteq> Some k" "k \<notin> fst ` set (o_pend s u)" for u
    by (auto simp: todo_def)
  with inv_obs_val [OF inv ob] inv_settled [OF inv, of k]
  have v: "v = db_before d (o_com s) (o_clock s) k" by simp
  have "db_before d (o_com s) (o_clock s) k = db_before d (o_com s) p k"
  proof (rule db_before_stable)
    show "p \<le> o_clock s" using inv_stamp(1) [OF inv st] by simp
    show "k \<notin> wkeys t" if "p \<le> q" "o_com s q = Some t" for q t
      using inv_writers(1) [OF inv that(2), of k] nt inv_obs_inst [OF inv st ob] that(1) by force
  qed
  with v show "db_before d (o_com s) p k = v" by simp
qed

lemma occ_validate_inv:
  assumes inv: "occ_inv d s" and st: "o_stamp s w = Some p"
    and ob: "(k, o_ver s k, Some v) \<in> o_obs s w" and free: "\<not> o_bit s k \<or> k \<in> o_lock s w"
    and l: "o_low s w \<le> l"
  shows "occ_inv d (s\<lparr>o_valid := (o_valid s)(w := insert (k, v) (o_valid s w)),
      o_low := (o_low s)(w := l)\<rparr>)" (is "occ_inv d ?t")
proof -
  have t: "todo ?t = todo s" by (rule ext) (simp add: todo_def)
  note val = occ_validated_value [OF inv st ob free]
  have "occ_locks ?t"
  proof (rule occ_locksI)
    show "i \<in> o_lock ?t u \<Longrightarrow> o_ver ?t i \<le> o_low ?t u" for i u
      using inv_low [OF inv, of i u] l by (auto intro: order_trans)
    show "o_stamp ?t u = Some q \<Longrightarrow> i \<in> fst ` set (o_writes ?t u) \<Longrightarrow> i \<in> o_lock ?t u" for i u q
      using inv_writes [OF inv, of u q i] by simp
  qed (use inv_bit [OF inv] inv_excl [OF inv] inv_todo [OF inv] in \<open>auto simp: t\<close>)
  moreover have "occ_stages ?t" using inv_stages [OF inv] by (simp add: occ_stages_def t)
  moreover have "occ_later ?t"
  proof (rule occ_laterI)
    show "o_stamp ?t u = Some q \<Longrightarrow> i \<in> fst ` set (o_writes ?t u) \<Longrightarrow> q < r \<Longrightarrow> o_com ?t r = Some x \<Longrightarrow>
        i \<notin> rkeys x \<and> i \<notin> wkeys x" for u q i r x
      using inv_no_later [OF inv, of u q i r x] by simp
  next
    fix u z q r i
    assume a: "o_stamp ?t u = Some q" "o_stamp ?t z = Some r" "u \<noteq> z"
      "i \<in> fst ` set (o_writes ?t u)" "i \<in> fst ` o_valid ?t z"
    then have "i \<in> o_lock s u" using inv_writes [OF inv, of u q i] by simp
    with a val(2) have "i \<in> fst ` o_valid s z" by (auto split: if_splits)
    with a show "r < q" using inv_order [OF inv, of u q z r i] by simp
  qed
  moreover have "occ_values d ?t" using inv_values [OF inv] by (simp add: occ_values_def t)
  moreover have "occ_reads d ?t"
  proof (rule occ_readsI)
    show "o_stamp ?t u = Some q \<Longrightarrow> (i, x) \<in> o_valid ?t u \<Longrightarrow> db_before d (o_com ?t) q i = x" for i u q x
      using inv_valid [OF inv, of u q i x] val(1) st by (auto split: if_splits)
  qed (use inv_obs_ver [OF inv] inv_obs_val [OF inv] inv_com [OF inv] inv_obs_inst [OF inv] in auto)
  ultimately show ?thesis by (simp add: occ_inv_def)
qed

lemma occ_abandon_inv:
  assumes inv: "occ_inv d s" and st: "o_stamp s w = Some p"
  shows "occ_inv d (s\<lparr>o_stamp := (o_stamp s)(w := None), o_writes := (o_writes s)(w := []),
      o_valid := (o_valid s)(w := {})\<rparr>)" (is "occ_inv d ?t")
proof -
  have t: "todo ?t = todo s" by (rule ext) (simp add: todo_def)
  have "occ_locks ?t"
  proof (rule occ_locksI)
    show "o_stamp ?t u = Some q \<Longrightarrow> i \<in> fst ` set (o_writes ?t u) \<Longrightarrow> i \<in> o_lock ?t u" for i u q
      using inv_writes [OF inv, of u q i] by (cases "u = w") auto
  qed (use inv_bit [OF inv] inv_excl [OF inv] inv_todo [OF inv] inv_low [OF inv] in \<open>auto simp: t\<close>)
  moreover have "occ_stages ?t"
  proof (rule occ_stagesI; (unfold t)?)
    show "o_stamp ?t v = Some q \<Longrightarrow> q < o_clock ?t \<and> o_com ?t q = None \<and> todo s v = {} \<and>
        o_point ?t v = q \<and> distinct (map fst (o_writes ?t v))" for v q
      using inv_stamp [OF inv, of v q] by (cases "v = w") auto
    show "o_stamp ?t u = Some q \<Longrightarrow> o_stamp ?t v = Some q \<Longrightarrow> u = v" for u v q
      using inv_inj [OF inv, of u q v] by (auto split: if_splits)
  qed (use inv_pend [OF inv] inv_clock [OF inv] in auto)
  moreover have "occ_later ?t"
  proof (rule occ_laterI)
    show "o_stamp ?t u = Some q \<Longrightarrow> i \<in> fst ` set (o_writes ?t u) \<Longrightarrow> q < r \<Longrightarrow> o_com ?t r = Some x \<Longrightarrow>
        i \<notin> rkeys x \<and> i \<notin> wkeys x" for u q i r x
      using inv_no_later [OF inv, of u q i r x] by (cases "u = w") auto
    show "o_stamp ?t u = Some q \<Longrightarrow> o_stamp ?t z = Some r \<Longrightarrow> u \<noteq> z \<Longrightarrow>
      i \<in> fst ` set (o_writes ?t u) \<Longrightarrow> i \<in> fst ` o_valid ?t z \<Longrightarrow> r < q" for u z q r i
      using inv_order [OF inv, of u q z r i] by (cases "u = w"; cases "z = w") auto
  qed
  moreover have "occ_values d ?t" using inv_values [OF inv] by (simp add: occ_values_def t)
  moreover have "occ_reads d ?t"
  proof (rule occ_readsI)
    show "o_stamp ?t v = Some q \<Longrightarrow> (k, o_ver ?t k, Some x) \<in> o_obs ?t v \<Longrightarrow> o_inst ?t k \<le> q" for k v q x
      using inv_obs_inst [OF inv, of v q k x] by (cases "v = w") auto
    show "o_stamp ?t u = Some q \<Longrightarrow> (i, x) \<in> o_valid ?t u \<Longrightarrow> db_before d (o_com ?t) q i = x" for i u q x
      using inv_valid [OF inv, of u q i x] by (cases "u = w") auto
  qed (use inv_obs_ver [OF inv] inv_obs_val [OF inv] inv_com [OF inv] in auto)
  ultimately show ?thesis by (simp add: occ_inv_def)
qed

lemma occ_commit_inv:
  assumes inv: "occ_inv d s" and st: "o_stamp s w = Some p" and rs: "set rs \<subseteq> o_valid s w"
  shows "occ_inv d (s\<lparr>o_stamp := (o_stamp s)(w := None), o_writes := (o_writes s)(w := []),
      o_valid := (o_valid s)(w := {}), o_pend := (o_pend s)(w := o_writes s w),
      o_com := (o_com s)(p := Some \<lparr>tx_reads = rs, tx_writes = o_writes s w\<rparr>)\<rparr>)"
    (is "occ_inv d ?t")
proof -
  let ?r = "\<lparr>tx_reads = rs, tx_writes = o_writes s w\<rparr>"
  note p = inv_stamp [OF inv st]
  have dw: "o_dirty s w = None" "o_pend s w = []" using p(3) by (auto simp: todo_def)
  have t: "todo ?t v = (if v = w then fst ` set (o_writes s w) else todo s v)" for v
    using dw by (simp add: todo_def)
  have wk: "k \<in> wkeys ?r \<longleftrightarrow> k \<in> fst ` set (o_writes s w)" for k by (simp add: wkeys_def)
  have lock: "k \<in> fst ` set (o_writes s w) \<Longrightarrow> k \<in> o_lock s w" for k
    using inv_writes [OF inv st] by simp
  have other: "k \<in> fst ` set (o_writes s w) \<Longrightarrow> k \<in> o_lock s v \<Longrightarrow> v = w" for k v
    using lock inv_excl [OF inv] by blast
  have fresh: "k \<in> fst ` set (o_writes s w) \<Longrightarrow> p < q \<Longrightarrow> o_com s q = Some u \<Longrightarrow> k \<notin> wkeys u" for k q u
    using inv_no_later [OF inv st] by blast
  have same: "k \<notin> fst ` set (o_writes s w) \<Longrightarrow> db_before d (o_com ?t) n k = db_before d (o_com s) n k" for k n
    using db_before_upd_other [of "o_com s" p k ?r d n] p(2) wk by simp
  have new: "db_before d (o_com ?t) (o_clock s) k = f (db_before d (o_com s) (o_clock s) k)"
    if "(k, f) \<in> set (o_writes s w)" for k f
  proof -
    have k: "k \<in> fst ` set (o_writes s w)" using that by force
    have "db_before d (o_com ?t) (o_clock s) k = apply_tx ?r (db_before d (o_com s) (o_clock s)) k"
      using db_before_upd_write [of "o_com s" p "o_clock s" k d ?r] p(1,2) fresh [OF k] by simp
    with that p(5) show ?thesis by (simp add: apply_tx_in)
  qed
  have "occ_locks ?t"
  proof (rule occ_locksI)
    show "o_stamp ?t u = Some q \<Longrightarrow> i \<in> fst ` set (o_writes ?t u) \<Longrightarrow> i \<in> o_lock ?t u" for i u q
      using inv_writes [OF inv, of u q i] by (cases "u = w") auto
    show "i \<in> todo ?t u \<Longrightarrow> i \<in> o_lock ?t u" for i u
      using inv_todo [OF inv, of i u] lock [of i] by (cases "u = w") (auto simp: t)
  qed (use inv_bit [OF inv] inv_excl [OF inv] inv_low [OF inv] in auto)
  moreover have "occ_stages ?t"
  proof (rule occ_stagesI)
    show "o_stamp ?t v = Some q \<Longrightarrow> q < o_clock ?t \<and> o_com ?t q = None \<and> todo ?t v = {} \<and>
        o_point ?t v = q \<and> distinct (map fst (o_writes ?t v))" for v q
      using inv_stamp [OF inv, of v q] inv_inj [OF inv st, of v] by (cases "v = w") (auto simp: t)
    show "o_stamp ?t u = Some q \<Longrightarrow> o_stamp ?t v = Some q \<Longrightarrow> u = v" for u v q
      using inv_inj [OF inv, of u q v] by (auto split: if_splits)
    show "todo ?t v \<noteq> {} \<Longrightarrow> o_com ?t (o_point ?t v) \<noteq> None" for v
      using inv_clock(3) [OF inv, of v] p(4) by (cases "v = w") (auto simp: t)
    show "o_com ?t q \<noteq> None \<Longrightarrow> q < o_clock ?t" for q
      using inv_clock(1) [OF inv, of q] p(1) by (cases "q = p") auto
    show "o_dirty ?t v = Some k \<Longrightarrow> k \<notin> fst ` set (o_pend ?t v)" for v k
      using inv_pend(2) [OF inv, of v k] dw by (cases "v = w") auto
  qed (use inv_pend(1) [OF inv] inv_clock(2) [OF inv] p(5) in auto)
  moreover have "occ_later ?t"
  proof (rule occ_laterI)
    fix u q i r x
    assume a: "o_stamp ?t u = Some q" "i \<in> fst ` set (o_writes ?t u)" "q < r" "o_com ?t r = Some x"
    then have u: "u \<noteq> w" "o_stamp s u = Some q" "i \<in> fst ` set (o_writes s u)" by (auto split: if_splits)
    show "i \<notin> rkeys x \<and> i \<notin> wkeys x"
    proof (cases "r = p")
      case True
      with a have x: "x = ?r" by simp
      have "i \<notin> wkeys x" using other [of i u] inv_writes [OF inv u(2,3)] u(1) by (auto simp: x wkeys_def)
      moreover have "i \<notin> rkeys x"
      proof
        assume "i \<in> rkeys x"
        then have "i \<in> fst ` o_valid s w" using rs by (auto simp: x rkeys_def)
        from inv_order [OF inv u(2) st u(1,3) this] a(3) True show False by simp
      qed
      ultimately show ?thesis by blast
    next
      case False
      with a u show ?thesis using inv_no_later [OF inv u(2,3), of r x] by simp
    qed
  next
    show "o_stamp ?t u = Some q \<Longrightarrow> o_stamp ?t z = Some r \<Longrightarrow> u \<noteq> z \<Longrightarrow>
      i \<in> fst ` set (o_writes ?t u) \<Longrightarrow> i \<in> fst ` o_valid ?t z \<Longrightarrow> r < q" for u z q r i
      using inv_order [OF inv, of u q z r i] by (cases "u = w"; cases "z = w") auto
  qed
  moreover have "occ_values d ?t"
  proof (rule occ_valuesI)
    fix k assume a: "\<forall>v. k \<notin> fst ` set (o_pend ?t v)"
    then have kw: "k \<notin> fst ` set (o_writes s w)" using spec [OF a, of w] by simp
    have "\<forall>v. k \<notin> fst ` set (o_pend s v)"
    proof
      fix v show "k \<notin> fst ` set (o_pend s v)" using a [rule_format, of v] dw by (cases "v = w") auto
    qed
    then show "o_val ?t k = db_before d (o_com ?t) (o_clock ?t) k"
      using inv_settled [OF inv, of k] same [OF kw] by simp
  next
    fix k f v assume a: "(k, f) \<in> set (o_pend ?t v)"
    show "db_before d (o_com ?t) (o_clock ?t) k = f (o_val ?t k)"
    proof (cases "v = w")
      case True
      with a have kf: "(k, f) \<in> set (o_writes s w)" by simp
      then have "k \<in> fst ` set (o_writes s w)" by force
      then have kw: "k \<in> fst ` set (o_writes s w)" .
      have "k \<notin> fst ` set (o_pend s u)" for u
        using other [OF kw, of u] inv_todo [OF inv, of k u] dw by (cases "u = w") (auto simp: todo_def)
      then have "\<forall>u. k \<notin> fst ` set (o_pend s u)" by blast
      with inv_settled [OF inv, of k] new [OF kf] show ?thesis by simp
    next
      case False
      with a have kf: "(k, f) \<in> set (o_pend s v)" by simp
      then have "k \<in> todo s v" by (force simp: todo_def)
      with inv_todo [OF inv] other [of k v] False have "k \<notin> fst ` set (o_writes s w)" by blast
      with inv_pending [OF inv kf] same show ?thesis by simp
    qed
  next
    fix q x k assume a: "o_com ?t q = Some x" "k \<in> wkeys x" "\<forall>v. k \<notin> todo ?t v"
    have kw: "k \<notin> fst ` set (o_writes s w)" using spec [OF a(3), of w] by (simp add: t)
    have td: "\<forall>v. k \<notin> todo s v"
    proof
      fix v show "k \<notin> todo s v" using a(3) [rule_format, of v] p(3) by (cases "v = w") (auto simp: t)
    qed
    from kw a wk have "q \<noteq> p" by auto
    with a inv_writers(1) [OF inv, of q x k] td show "q < o_inst ?t k" by simp
  next
    fix q x k v assume a: "o_com ?t q = Some x" "k \<in> wkeys x" "k \<in> todo ?t v"
    show "q \<le> o_point ?t v"
    proof (cases "v = w")
      case True
      with a have k: "k \<in> fst ` set (o_writes s w)" by (simp add: t)
      show ?thesis
      proof (cases "q = p")
        case False
        with a have "o_com s q = Some x" by simp
        with fresh [OF k, of q x] a(2) have "\<not> p < q" by blast
        with True p(4) show ?thesis by simp
      qed (use True p(4) in simp)
    next
      case False
      with a have k: "k \<in> todo s v" by (simp add: t)
      with inv_todo [OF inv] other [of k v] False have "k \<notin> fst ` set (o_writes s w)" by blast
      with a wk have "q \<noteq> p" by auto
      with a inv_writers(2) [OF inv, of q x k v] k show ?thesis by simp
    qed
  qed
  moreover have "occ_reads d ?t"
  proof (rule occ_readsI)
    show "o_stamp ?t v = Some q \<Longrightarrow> (k, o_ver ?t k, Some x) \<in> o_obs ?t v \<Longrightarrow> o_inst ?t k \<le> q" for k v q x
      using inv_obs_inst [OF inv, of v q k x] by (cases "v = w") auto
    show "db_before d (o_com ?t) q i = x" if "o_stamp ?t u = Some q" "(i, x) \<in> o_valid ?t u" for i u q x
    proof -
      from that have u: "u \<noteq> w" "o_stamp s u = Some q" "(i, x) \<in> o_valid s u" by (auto split: if_splits)
      have v: "db_before d (o_com s) q i = x" by (rule inv_valid [OF inv u(2,3)])
      show ?thesis
      proof (cases "i \<in> fst ` set (o_writes s w)")
        case True
        from u(3) have "i \<in> fst ` o_valid s u" by force
        from inv_order [OF inv st u(2) _ True this] u(1) have "q < p" by blast
        with v show ?thesis by (simp add: db_before_upd_ge)
      next
        case False
        with v same show ?thesis by simp
      qed
    qed
    show "db_before d (o_com ?t) q i = x" if "o_com ?t q = Some y" "(i, x) \<in> set (tx_reads y)" for i q x y
    proof (cases "q = p")
      case True
      with that have "(i, x) \<in> o_valid s w" using rs by auto
      with inv_valid [OF inv st, of i x] True show ?thesis by (simp add: db_before_upd_ge)
    next
      case False
      with that have y: "o_com s q = Some y" by simp
      have v: "db_before d (o_com s) q i = x" by (rule inv_com [OF inv y that(2)])
      have "i \<in> rkeys y" using that(2) by (force simp: rkeys_def)
      then have "i \<in> fst ` set (o_writes s w) \<Longrightarrow> \<not> p < q"
        using inv_no_later [OF inv st, of i q y] y by blast
      with v False same show ?thesis
        by (cases "i \<in> fst ` set (o_writes s w)") (simp_all add: db_before_upd_ge)
    qed
  qed (use inv_obs_ver [OF inv] inv_obs_val [OF inv] in auto)
  ultimately show ?thesis by (simp add: occ_inv_def)
qed

lemma occ_copy_inv:
  assumes inv: "occ_inv d s" and pe: "o_pend s w = (k, f) # ps" and di: "o_dirty s w = None"
  shows "occ_inv d (s\<lparr>o_val := (o_val s)(k := f (o_val s k)), o_pend := (o_pend s)(w := ps),
      o_dirty := (o_dirty s)(w := Some k)\<rparr>)" (is "occ_inv d ?t")
proof -
  have t: "todo ?t = todo s" by (rule ext) (use pe di in \<open>simp add: todo_def\<close>)
  have kps: "k \<notin> fst ` set ps" and dps: "distinct (map fst ps)"
    using inv_pend(1) [OF inv, of w] pe by auto
  have kt: "k \<in> todo s w" using pe by (simp add: todo_def)
  have other: "k \<in> todo s v \<Longrightarrow> v = w" for v
    using inv_todo [OF inv kt] inv_todo [OF inv, of k v] inv_excl [OF inv] by blast
  have pend: "(j, g) \<in> set (o_pend ?t v) \<longleftrightarrow> (j, g) \<in> set (o_pend s v) \<and> j \<noteq> k" for j g v
  proof (cases "v = w")
    case True
    then show ?thesis using kps pe by (auto simp: image_iff)
  next
    case False
    then show ?thesis using other [of v] by (force simp: todo_def)
  qed
  have "occ_locks ?t"
  proof (rule occ_locksI)
    show "o_stamp ?t v = Some p \<Longrightarrow> j \<in> fst ` set (o_writes ?t v) \<Longrightarrow> j \<in> o_lock ?t v" for j v p
      using inv_writes [OF inv, of v p j] by simp
  qed (use inv_bit [OF inv] inv_excl [OF inv] inv_todo [OF inv] inv_low [OF inv] in \<open>auto simp: t\<close>)
  moreover have "occ_stages ?t"
  proof (rule occ_stagesI; (unfold t)?)
    show "o_stamp ?t v = Some q \<Longrightarrow> q < o_clock ?t \<and> o_com ?t q = None \<and> todo s v = {} \<and>
        o_point ?t v = q \<and> distinct (map fst (o_writes ?t v))" for v q
      using inv_stamp [OF inv, of v q] by auto
    show "o_stamp ?t u = Some q \<Longrightarrow> o_stamp ?t v = Some q \<Longrightarrow> u = v" for u v q
      using inv_inj [OF inv, of u q v] by simp
    show "o_dirty ?t v = Some j \<Longrightarrow> j \<notin> fst ` set (o_pend ?t v)" for v j
      using inv_pend(2) [OF inv, of v j] kps by (cases "v = w") auto
    show "distinct (map fst (o_pend ?t v))" for v
      using inv_pend(1) [OF inv, of v] dps by simp
  qed (use inv_clock [OF inv] in auto)
  moreover have "occ_later ?t" using inv_later [OF inv] by (simp add: occ_later_def)
  moreover have "occ_values d ?t"
  proof (rule occ_valuesI; (unfold t)?)
    fix j assume a: "\<forall>v. j \<notin> fst ` set (o_pend ?t v)"
    show "o_val ?t j = db_before d (o_com ?t) (o_clock ?t) j"
    proof (cases "j = k")
      case True
      with inv_pending [OF inv, of k f w] pe show ?thesis by simp
    next
      case False
      have "\<forall>v. j \<notin> fst ` set (o_pend s v)"
      proof
        fix v show "j \<notin> fst ` set (o_pend s v)"
          using spec [OF a, of v] False pe by (cases "v = w") auto
      qed
      with False inv_settled [OF inv, of j] show ?thesis by simp
    qed
  next
    fix j g v assume "(j, g) \<in> set (o_pend ?t v)"
    then have "(j, g) \<in> set (o_pend s v)" "j \<noteq> k" unfolding pend by auto
    then show "db_before d (o_com ?t) (o_clock ?t) j = g (o_val ?t j)"
      using inv_pending [OF inv, of j g v] by simp
  qed (use inv_writers [OF inv] in simp_all)
  moreover have "occ_reads d ?t"
  proof (rule occ_readsI)
    fix j x v assume a: "(j, o_ver ?t j, Some x) \<in> o_obs ?t v" "\<forall>u. o_dirty ?t u \<noteq> Some j"
    then have j: "j \<noteq> k" using spec [OF a(2), of w] by auto
    have "o_dirty s u \<noteq> Some j" for u using spec [OF a(2), of u] di by (cases "u = w") auto
    then show "x = o_val ?t j" using inv_obs_val [OF inv, of j x v] a(1) j by simp
  qed (use inv_obs_ver [OF inv] inv_com [OF inv] inv_obs_inst [OF inv] inv_valid [OF inv] in auto)
  ultimately show ?thesis by (simp add: occ_inv_def)
qed

lemma occ_install_inv:
  assumes inv: "occ_inv d s" and di: "o_dirty s w = Some k" and n: "o_ver s k < n"
  shows "occ_inv d (s\<lparr>o_ver := (o_ver s)(k := n), o_bit := (o_bit s)(k := False),
      o_lock := (o_lock s)(w := o_lock s w - {k}), o_dirty := (o_dirty s)(w := None),
      o_inst := (o_inst s)(k := Suc (o_point s w))\<rparr>)" (is "occ_inv d ?t")
proof -
  have kt: "k \<in> todo s w" using di by (simp add: todo_def)
  have k: "k \<in> o_lock s w" by (rule inv_todo [OF inv kt])
  have other: "k \<in> o_lock s v \<Longrightarrow> v = w" for v using k inv_excl [OF inv] by blast
  have kp: "k \<notin> fst ` set (o_pend s w)" by (rule inv_pend(2) [OF inv di])
  have td: "j \<in> todo ?t v \<longleftrightarrow> j \<in> todo s v \<and> j \<noteq> k" for j v
    using di kp other [of v] inv_todo [OF inv, of k v] by (cases "v = w") (auto simp: todo_def)
  have mem: "j \<in> o_lock ?t v \<longleftrightarrow> j \<in> o_lock s v \<and> j \<noteq> k" for j v using other [of v] by auto
  have stw: "o_stamp s w = None" using inv_stamp(3) [OF inv, of w] kt by (cases "o_stamp s w") auto
  have "occ_locks ?t"
  proof (rule occ_locksI; (unfold mem td)?)
    show "o_bit ?t j \<longleftrightarrow> (\<exists>v. j \<in> o_lock s v \<and> j \<noteq> k)" for j
      using inv_bit [OF inv, of j] by auto
    show "o_stamp ?t u = Some q \<Longrightarrow> i \<in> fst ` set (o_writes ?t u) \<Longrightarrow> i \<in> o_lock s u \<and> i \<noteq> k" for i u q
      using inv_writes [OF inv, of u q i] other [of u] stw by (cases "u = w") auto
  qed (use inv_excl [OF inv] inv_low [OF inv] inv_todo [OF inv] in auto)
  moreover have "occ_stages ?t"
  proof (rule occ_stagesI)
    show "o_stamp ?t v = Some q \<Longrightarrow> q < o_clock ?t \<and> o_com ?t q = None \<and> todo ?t v = {} \<and>
        o_point ?t v = q \<and> distinct (map fst (o_writes ?t v))" for v q
      using inv_stamp [OF inv, of v q] td [of _ v] by auto
    show "o_stamp ?t u = Some q \<Longrightarrow> o_stamp ?t v = Some q \<Longrightarrow> u = v" for u v q
      using inv_inj [OF inv, of u q v] by simp
    show "o_dirty ?t v = Some j \<Longrightarrow> j \<notin> fst ` set (o_pend ?t v)" for v j
      using inv_pend(2) [OF inv, of v j] by (cases "v = w") auto
    show "todo ?t v \<noteq> {} \<Longrightarrow> o_com ?t (o_point ?t v) \<noteq> None" for v
    proof -
      assume "todo ?t v \<noteq> {}"
      then have "todo s v \<noteq> {}" using td [of _ v] by blast
      then show ?thesis using inv_clock(3) [OF inv] by simp
    qed
    show "o_inst ?t j \<le> o_clock ?t" for j
    proof -
      have "todo s w \<noteq> {}" using kt by blast
      from inv_clock(1) [OF inv inv_clock(3) [OF inv this]] inv_clock(2) [OF inv, of j]
      show ?thesis by simp
    qed
  qed (use inv_pend(1) [OF inv] inv_clock(1) [OF inv] in auto)
  moreover have "occ_later ?t" using inv_later [OF inv] by (simp add: occ_later_def)
  moreover have "occ_values d ?t"
  proof (rule occ_valuesI; (unfold td)?)
    fix p u j assume a: "o_com ?t p = Some u" "j \<in> wkeys u" "\<forall>v. \<not> (j \<in> todo s v \<and> j \<noteq> k)"
    show "p < o_inst ?t j"
    proof (cases "j = k")
      case True
      with a inv_writers(2) [OF inv, of p u k w] kt show ?thesis by simp
    next
      case False
      with a inv_writers(1) [OF inv, of p u j] show ?thesis by simp
    qed
  qed (use inv_settled [OF inv] inv_pending [OF inv] inv_writers(2) [OF inv] in auto)
  moreover have "occ_reads d ?t"
  proof (rule occ_readsI)
    have stale: "(k, n, x) \<notin> o_obs s v" for x v
      using inv_obs_ver [OF inv, of k n x v] n by auto
    show "(j, e, x) \<in> o_obs ?t v \<Longrightarrow> e \<le> o_ver ?t j" for j e x v
      using inv_obs_ver [OF inv, of j e x v] n by auto
    show "o_stamp ?t v = Some q \<Longrightarrow> (j, o_ver ?t j, Some x) \<in> o_obs ?t v \<Longrightarrow> o_inst ?t j \<le> q" for j v q x
      using inv_obs_inst [OF inv, of v q j x] stale by (cases "j = k") auto
    fix j x v assume a: "(j, o_ver ?t j, Some x) \<in> o_obs ?t v" "\<forall>u. o_dirty ?t u \<noteq> Some j"
    then have j: "j \<noteq> k" using stale by auto
    have "o_dirty s u \<noteq> Some j" for u using spec [OF a(2), of u] di j by (cases "u = w") auto
    then show "x = o_val ?t j" using inv_obs_val [OF inv, of j x v] a(1) j by simp
  qed (use inv_com [OF inv] inv_valid [OF inv] in auto)
  ultimately show ?thesis by (simp add: occ_inv_def)
qed

lemma occ_step_inv: "occ_step s t \<Longrightarrow> occ_inv d s \<Longrightarrow> occ_inv d t"
proof (induction rule: occ_step.induct)
  case (occ_local X s w l)
  then show ?case by (intro occ_local_inv)
next
  case (occ_lock s k w l)
  then show ?case by (intro occ_lock_inv)
next
  case (occ_unlock k s w)
  then show ?case by (intro occ_unlock_inv)
next
  case (occ_stamp s w ws)
  then show ?case by (intro occ_stamp_inv)
next
  case (occ_validate s w p k v l)
  then show ?case by (intro occ_validate_inv)
next
  case (occ_abandon s w p)
  then show ?case by (intro occ_abandon_inv)
next
  case (occ_commit s w p rs)
  then show ?case by (intro occ_commit_inv)
next
  case (occ_copy s w k f ps)
  then show ?case by (intro occ_copy_inv)
next
  case (occ_install s w k n)
  then show ?case by (intro occ_install_inv)
qed

section \<open>The system\<close>

definition occ_init :: "db \<Rightarrow> occ \<Rightarrow> bool" where
  "occ_init d s \<longleftrightarrow> (\<forall>k. \<not> o_bit s k) \<and> o_val s = d \<and> (\<forall>w. o_lock s w = {}) \<and> (\<forall>w. o_obs s w = {}) \<and>
     (\<forall>w. o_stamp s w = None) \<and> (\<forall>w. o_pend s w = []) \<and> (\<forall>w. o_dirty s w = None) \<and>
     (\<forall>p. o_com s p = None) \<and> o_clock s = 0 \<and> (\<forall>k. o_inst s k = 0)"

lemma occ_init_inv: "occ_init d s \<Longrightarrow> occ_inv d s"
  by (simp add: occ_init_def occ_inv_def occ_inv_defs todo_def)

interpretation occ_sys: invariant_system "occ_init d" occ_step "occ_inv d" for d
  by unfold_locales (auto intro: occ_init_inv occ_step_inv)

end
