(* ===== verification/Silo_Proofs.thy ===== *)
theory Silo_Proofs
  imports Silo_System Occ_Proofs
begin

text \<open>
  Silo refines the abstract optimistic protocol: the abstraction \<open>sl_abs\<close> forgets the
  encoding of the TID words, the order of the locks, the epochs and the control points, and
  every step of a worker is a step of \<^verbatim>\<open>Occ_Spec\<close> or changes nothing in it, as long as no
  29-bit tid has wrapped.
\<close>

section \<open>Well-formed executors\<close>

definition sl_wf_tx :: "sl_tx \<Rightarrow> bool" where
  "sl_wf_tx t \<longleftrightarrow> distinct (map we_key (write_set t)) \<and>
     (\<forall>e \<in> set (write_set t). we_rcdptr e = we_key e) \<and>
     (\<forall>r \<in> set (read_set t). re_rcdptr r = re_key r)"

fun sl_wf_pc :: "sl_tx \<Rightarrow> sl_pc \<Rightarrow> bool" where
  "sl_wf_pc t (SLockLoad done rest) = (done @ rest = write_set t)"
| "sl_wf_pc t (SLockCas done e rest x) = (done @ e # rest = write_set t)"
| "sl_wf_pc t (SUnlock es out) =
     (distinct (map we_key es) \<and> set es \<subseteq> set (write_set t))"
| "sl_wf_pc t (SVal done rest) = (done @ rest = read_set t)"
| "sl_wf_pc t (SWrite es m) =
     (distinct (map we_key es) \<and> set es \<subseteq> set (write_set t) \<and> \<not> tw_lock m)"
| "sl_wf_pc t (SStore e es m) =
     (distinct (map we_key (e # es)) \<and> set (e # es) \<subseteq> set (write_set t) \<and> \<not> tw_lock m)"
| "sl_wf_pc t pc = True"

definition sl_low :: "sl_tx \<Rightarrow> u64" where
  "sl_low t = tw_ver (max (max_wset t) (max_rset t))"

text \<open>The version being installed is later than every version locked or read.\<close>

fun sl_fresh :: "sl_tx \<Rightarrow> sl_pc \<Rightarrow> bool" where
  "sl_fresh t (SWrite es m) = (sl_low t < tw_ver m)"
| "sl_fresh t (SStore e es m) = (sl_low t < tw_ver m)"
| "sl_fresh t pc = True"

definition sl_wf :: "sl_sys \<Rightarrow> bool" where
  "sl_wf s \<longleftrightarrow> (\<forall>w. sl_wf_tx (sl_txs s w) \<and> sl_wf_pc (sl_txs s w) (sl_pcs s w)) \<and>
     (\<not> sl_wrapped s \<longrightarrow> (\<forall>w. sl_fresh (sl_txs s w) (sl_pcs s w)))"

lemma sl_low_mono:
  "sl_low t \<le> sl_low (sl_locked_one x t)" "tw_ver x \<le> sl_low (sl_locked_one x t)"
  "sl_low t \<le> sl_low (sl_validated_one x t)"
  by (auto simp: sl_low_def sl_locked_one_def sl_validated_one_def le_max_iff_disj intro!: tw_ver_mono)

lemma sl_commit_tid_fresh:
  assumes "unat (tw_tid (max (max_wset t) (max_rset t))) \<noteq> 2 ^ 29 - 1"
  shows "sl_low t < tw_ver (sl_commit_tid e t)"
proof -
  let ?a = "tw_inc_tid (max (max_wset t) (max_rset t))"
  have "sl_low t < tw_ver ?a"
    unfolding sl_low_def by (rule tw_ver_less_inc [OF assms])
  also have "tw_ver ?a \<le> tw_ver (max ?a (max (tw_inc_tid (mrctid t)) (tw_set_epoch e 0)))"
    by (intro tw_ver_mono) simp
  finally show ?thesis by (simp add: sl_commit_tid_def Let_def)
qed

lemma sl_commit_tid_unlocked: "\<not> tw_lock (sl_commit_tid e t)"
  by (simp add: sl_commit_tid_def Let_def)

lemma sl_write_wf: "sl_wf_tx t \<Longrightarrow> sl_wf_tx (sl_write k v t)"
  by (auto simp: sl_wf_tx_def sl_write_def searchWriteSet_def searchReadSet_def search_set_None
      sl_get_tuple_def Let_def dest!: search_set_Some split: option.split)

lemma sl_sort_wf: "sl_wf_tx t \<Longrightarrow> sl_wf_tx (sl_sort t)"
  by (simp add: sl_wf_tx_def sl_sort_def distinct_map)

lemma sl_upd_sel [simp]:
  "sl_txs (sl_upd w t pc s) = (sl_txs s)(w := t)" "sl_pcs (sl_upd w t pc s) = (sl_pcs s)(w := pc)"
  "sl_wrapped (sl_upd w t pc s) = sl_wrapped s" "sl_table (sl_upd w t pc s) = sl_table s"
  "sl_clock (sl_upd w t pc s) = sl_clock s" "sl_point (sl_upd w t pc s) = sl_point s"
  "sl_com (sl_upd w t pc s) = sl_com s" "sl_inst (sl_upd w t pc s) = sl_inst s"
  by (simp_all add: sl_upd_def)

lemma sl_goto_sel [simp]:
  "sl_txs (sl_goto w pc s) = sl_txs s" "sl_pcs (sl_goto w pc s) = (sl_pcs s)(w := pc)"
  "sl_wrapped (sl_goto w pc s) = sl_wrapped s" "sl_table (sl_goto w pc s) = sl_table s"
  "sl_clock (sl_goto w pc s) = sl_clock s" "sl_point (sl_goto w pc s) = sl_point s"
  "sl_com (sl_goto w pc s) = sl_com s" "sl_inst (sl_goto w pc s) = sl_inst s"
  by (simp_all add: sl_goto_def)

text \<open>What a step does to the executor and the control point of the worker that moves.\<close>

lemma sl_wf_upd:
  assumes "sl_wf s" and "sl_wf_tx (sl_txs s' w)" and "sl_wf_pc (sl_txs s' w) (sl_pcs s' w)"
    and "\<And>v. v \<noteq> w \<Longrightarrow> sl_txs s' v = sl_txs s v" and "\<And>v. v \<noteq> w \<Longrightarrow> sl_pcs s' v = sl_pcs s v"
    and "\<not> sl_wrapped s' \<Longrightarrow> \<not> sl_wrapped s"
    and "\<not> sl_wrapped s' \<Longrightarrow> sl_fresh (sl_txs s' w) (sl_pcs s' w)"
  shows "sl_wf s'"
proof -
  have "sl_wf_tx (sl_txs s' v) \<and> sl_wf_pc (sl_txs s' v) (sl_pcs s' v)" for v
    using assms(1-5) by (cases "v = w") (auto simp: sl_wf_def)
  moreover have "\<not> sl_wrapped s' \<Longrightarrow> sl_fresh (sl_txs s' v) (sl_pcs s' v)" for v
    using assms(1,4-7) by (cases "v = w") (auto simp: sl_wf_def)
  ultimately show ?thesis by (simp add: sl_wf_def)
qed

lemma sl_wfD:
  assumes "sl_wf s"
  shows "sl_wf_tx (sl_txs s w)" "sl_pcs s w = pc \<Longrightarrow> sl_wf_pc (sl_txs s w) pc"
    "\<not> sl_wrapped s \<Longrightarrow> sl_pcs s w = pc \<Longrightarrow> sl_fresh (sl_txs s w) pc"
  using assms by (auto simp: sl_wf_def)

lemma sl_read_loaded_wf [simp]: "sl_wf_pc t (sl_read_loaded k x cs)" "sl_fresh t (sl_read_loaded k x cs)"
  by (simp_all add: sl_read_loaded_def)

lemma sl_lock_cas_wf:
  assumes wf: "sl_wf s" and pc: "sl_pcs s w = SLockCas done e rest x"
  shows "sl_wf (sl_lock_cas c w done e rest x s)"
proof -
  note [simp] = sl_wfD(2) [OF wf pc, simplified, symmetric]
  have wt: "sl_wf_tx (sl_txs s w)" by (rule sl_wfD(1) [OF wf])
  then have d: "distinct (map we_key done)" by (simp add: sl_wf_tx_def)
  show ?thesis
  proof (cases "tw_lock x")
    case True
    then show ?thesis
      using d wf wt by (cases "sl_mode c")
        (auto simp: sl_lock_cas_def sl_wf_tx_def intro!: sl_wf_upd [OF wf, where w = w])
  next
    case False
    then show ?thesis
      using wt by (auto simp: sl_lock_cas_def tid_cas_def sl_wf_tx_def sl_locked_one_def
          intro!: sl_wf_upd [OF wf, where w = w])
  qed
qed

lemma sl_ops_cases:
  "(cs = [] \<Longrightarrow> P) \<Longrightarrow> (\<And>k r. cs = CallRead k # r \<Longrightarrow> P) \<Longrightarrow>
   (\<And>k v r. cs = CallWrite k v # r \<Longrightarrow> P) \<Longrightarrow> P"
  by (cases cs; cases "hd cs") auto

lemma sl_step_wf:
  assumes wf: "sl_wf s"
  shows "sl_wf (sl_step c w pro now s)"
proof -
  let ?t = "sl_txs s w"
  note upd = sl_wf_upd [OF wf, where w = w]
  have wt: "sl_wf_tx ?t" by (rule sl_wfD(1) [OF wf])
  note wp = sl_wfD(2) [OF wf, where w = w] and fr = sl_wfD(3) [OF wf, where w = w]
  show ?thesis
  proof (cases "sl_pcs s w")
    case SMake
    then show ?thesis using wt
      by (auto simp: sl_step_def Let_def sl_wf_tx_def intro!: upd)
  next
    case SRetry
    then show ?thesis using wt by (auto simp: sl_step_def Let_def leaderWork_def intro!: upd)
  next
    case (SScan e i stop)
    then show ?thesis using wt by (auto simp: sl_step_def Let_def chkEpochLoaded_def intro!: upd)
  next
    case SBegin
    then show ?thesis using wt by (auto simp: sl_step_def Let_def sl_wf_tx_def sl_begin_def intro!: upd)
  next
    case (SOps cs)
    show ?thesis
    proof (cases cs)
      case Nil
      with SOps show ?thesis using sl_sort_wf [OF wt] by (auto simp: sl_step_def Let_def intro!: upd)
    next
      case (Cons a cs')
      with SOps show ?thesis using sl_write_wf [OF wt] wt
        by (cases a) (auto simp: sl_step_def Let_def intro!: upd)
    qed
  next
    case (SLoad k cs)
    then show ?thesis using wt by (auto simp: sl_step_def Let_def intro!: upd)
  next
    case (SCopyVal k x cs)
    then show ?thesis using wt by (auto simp: sl_step_def Let_def sl_read_copy_def sl_wf_tx_def intro!: upd)
  next
    case (SCheck k x cs)
    then show ?thesis using wt
      by (auto simp: sl_step_def Let_def sl_read_check_def sl_read_register_def sl_wf_tx_def
          sl_get_tuple_def intro!: upd)
  next
    case (SLockLoad dn rest)
    with wp wt show ?thesis by (cases rest) (auto simp: sl_step_def Let_def intro!: upd)
  next
    case (SLockCas dn e rest x)
    with sl_lock_cas_wf [OF wf] show ?thesis by (simp add: sl_step_def)
  next
    case (SUnlock es out)
    show ?thesis
    proof (cases es)
      case Nil
      with SUnlock wt show ?thesis
        by (cases out) (auto simp: sl_step_def Let_def sl_clear_def sl_wf_tx_def intro!: upd)
    next
      case (Cons e es')
      with SUnlock wp [OF SUnlock] wt show ?thesis by (auto simp: sl_step_def Let_def intro!: upd)
    qed
  next
    case SEpochLoad
    then show ?thesis using wt by (auto simp: sl_step_def Let_def intro!: upd)
  next
    case (SEpochStore e)
    then show ?thesis using wt by (auto simp: sl_step_def Let_def intro!: upd)
  next
    case (SVal dn rest)
    show ?thesis
    proof (cases rest)
      case Nil
      have "\<not> sl_wrapped (sl_commit c w s) \<Longrightarrow>
          sl_low ?t < tw_ver (sl_commit_tid (local_epoch s w) ?t)"
        using sl_commit_tid_fresh by (simp add: sl_commit_def Let_def)
      with Nil SVal wt show ?thesis
        by (auto simp: sl_step_def sl_commit_def Let_def sl_wf_tx_def sl_commit_tid_unlocked sl_low_def
            intro!: upd)
    next
      case (Cons r rest')
      with SVal wt wp [OF SVal] show ?thesis
        by (auto simp: sl_step_def sl_validate_def Let_def sl_wf_tx_def sl_validated_one_def
            intro!: upd)
    qed
  next
    case (SWrite es m)
    show ?thesis
    proof (cases es)
      case Nil
      with SWrite wt show ?thesis
        by (auto simp: sl_step_def Let_def sl_clear_def sl_wf_tx_def intro!: upd)
    next
      case (Cons e es')
      with SWrite wp [OF SWrite] fr [OF _ SWrite] wt show ?thesis
        by (auto simp: sl_step_def Let_def intro!: upd)
    qed
  next
    case (SStore e es m)
    with wp [OF SStore] fr [OF _ SStore] wt show ?thesis
      by (auto simp: sl_step_def Let_def intro!: upd)
  qed
qed

lemma sl_init_wf: "sl_start d s \<Longrightarrow> sl_wf s"
  by (auto simp: sl_start_def sl_init_def sl_wf_def sl_wf_tx_def sl_new_def)

lemma sl_lock_cas_wrapped [simp]: "sl_wrapped (sl_lock_cas c w dn e rest x s) = sl_wrapped s"
  by (cases "sl_mode c") (simp_all add: sl_lock_cas_def tid_cas_def)

lemma sl_wrapped_mono: "sl_wrapped s \<Longrightarrow> sl_wrapped (sl_step c w pro now s)"
proof (cases "sl_pcs s w")
  case (SOps cs)
  then show "sl_wrapped s \<Longrightarrow> ?thesis"
    by (cases cs rule: sl_ops_cases) (auto simp: sl_step_def Let_def)
next
  case (SUnlock es out)
  then show "sl_wrapped s \<Longrightarrow> ?thesis"
    by (cases es; cases out) (auto simp: sl_step_def Let_def)
qed (auto simp: sl_step_def Let_def leaderWork_def chkEpochLoaded_def sl_read_check_def
      sl_validate_def sl_commit_def split: list.split)

end
