(* ===== verification/Silo_Refinement.thy ===== *)
theory Silo_Refinement
  imports Silo_Proofs
begin

text \<open>
  The abstraction function from the state of Silo to the abstract optimistic protocol, and
  the simulation: each step of a worker is a step of \<^verbatim>\<open>Occ_Spec\<close>.
\<close>

section \<open>The abstraction\<close>

fun sl_locked :: "sl_tx \<Rightarrow> sl_pc \<Rightarrow> key set" where
  "sl_locked t (SLockLoad done rest) = we_key ` set done"
| "sl_locked t (SLockCas done e rest x) = we_key ` set done"
| "sl_locked t (SUnlock es out) = we_key ` set es"
| "sl_locked t SEpochLoad = we_key ` set (write_set t)"
| "sl_locked t (SEpochStore e) = we_key ` set (write_set t)"
| "sl_locked t (SVal done rest) = we_key ` set (write_set t)"
| "sl_locked t (SWrite es m) = we_key ` set es"
| "sl_locked t (SStore e es m) = insert (we_key e) (we_key ` set es)"
| "sl_locked t pc = {}"

definition sl_robs :: "sl_tx \<Rightarrow> (key \<times> u64 \<times> val option) set" where
  "sl_robs t = (\<lambda>r. (re_key r, tw_ver (re_tidword r), Some (re_val r))) ` set (read_set t)"

fun sl_pobs :: "sl_tx \<Rightarrow> sl_pc \<Rightarrow> (key \<times> u64 \<times> val option) set" where
  "sl_pobs t (SCopyVal k x cs) = {(k, tw_ver x, None)}"
| "sl_pobs t (SCheck k x cs) = {(k, tw_ver x, Some (return_val t))}"
| "sl_pobs t pc = {}"

fun sl_stamped :: "sl_pc \<Rightarrow> bool" where
  "sl_stamped (SEpochStore e) = True"
| "sl_stamped (SVal done rest) = True"
| "sl_stamped pc = False"

fun sl_valid :: "sl_pc \<Rightarrow> (key \<times> val) set" where
  "sl_valid (SVal done rest) = (\<lambda>r. (re_key r, re_val r)) ` set done"
| "sl_valid pc = {}"

definition sl_writes :: "nat \<Rightarrow> sl_tx \<Rightarrow> sl_welem list \<Rightarrow> (key \<times> (val \<Rightarrow> val)) list" where
  "sl_writes vs t es = map (\<lambda>e. (we_key e, sl_new_payload vs t e)) es"

fun sl_pend :: "nat \<Rightarrow> sl_tx \<Rightarrow> sl_pc \<Rightarrow> (key \<times> (val \<Rightarrow> val)) list" where
  "sl_pend vs t (SWrite es m) = sl_writes vs t es"
| "sl_pend vs t (SStore e es m) = sl_writes vs t es"
| "sl_pend vs t pc = []"

fun sl_dirty :: "sl_pc \<Rightarrow> key option" where
  "sl_dirty (SStore e es m) = Some (we_key e)"
| "sl_dirty pc = None"

definition sl_abs :: "sl_config \<Rightarrow> sl_sys \<Rightarrow> occ" where
  "sl_abs c s =
     \<lparr>o_bit = (\<lambda>k. tw_lock (tidword (sl_table s k))),
      o_ver = (\<lambda>k. tw_ver (tidword (sl_table s k))),
      o_val = (\<lambda>k. sl_val (sl_table s k)),
      o_lock = (\<lambda>w. sl_locked (sl_txs s w) (sl_pcs s w)),
      o_low = (\<lambda>w. sl_low (sl_txs s w)),
      o_obs = (\<lambda>w. sl_robs (sl_txs s w) \<union> sl_pobs (sl_txs s w) (sl_pcs s w)),
      o_stamp = (\<lambda>w. if sl_stamped (sl_pcs s w) then Some (sl_point s w) else None),
      o_writes = (\<lambda>w. if sl_stamped (sl_pcs s w)
        then sl_writes (sl_val_size c) (sl_txs s w) (write_set (sl_txs s w)) else []),
      o_valid = (\<lambda>w. sl_valid (sl_pcs s w)),
      o_pend = (\<lambda>w. sl_pend (sl_val_size c) (sl_txs s w) (sl_pcs s w)),
      o_dirty = (\<lambda>w. sl_dirty (sl_pcs s w)),
      o_point = sl_point s, o_com = sl_com s, o_clock = sl_clock s, o_inst = sl_inst s\<rparr>"

lemma sl_abs_sel [simp]:
  "o_bit (sl_abs c s) k = tw_lock (tidword (sl_table s k))"
  "o_ver (sl_abs c s) k = tw_ver (tidword (sl_table s k))"
  "o_val (sl_abs c s) k = sl_val (sl_table s k)"
  "o_lock (sl_abs c s) w = sl_locked (sl_txs s w) (sl_pcs s w)"
  "o_low (sl_abs c s) w = sl_low (sl_txs s w)"
  "o_obs (sl_abs c s) w = sl_robs (sl_txs s w) \<union> sl_pobs (sl_txs s w) (sl_pcs s w)"
  "o_stamp (sl_abs c s) w = (if sl_stamped (sl_pcs s w) then Some (sl_point s w) else None)"
  "o_writes (sl_abs c s) w = (if sl_stamped (sl_pcs s w)
     then sl_writes (sl_val_size c) (sl_txs s w) (write_set (sl_txs s w)) else [])"
  "o_valid (sl_abs c s) w = sl_valid (sl_pcs s w)"
  "o_pend (sl_abs c s) w = sl_pend (sl_val_size c) (sl_txs s w) (sl_pcs s w)"
  "o_dirty (sl_abs c s) w = sl_dirty (sl_pcs s w)"
  "o_point (sl_abs c s) = sl_point s" "o_com (sl_abs c s) = sl_com s"
  "o_clock (sl_abs c s) = sl_clock s" "o_inst (sl_abs c s) = sl_inst s"
  by (simp_all add: sl_abs_def)

text \<open>Two abstract states are equal when they agree pointwise.\<close>

lemma occ_eqI:
  fixes s t :: occ
  assumes "\<And>k. o_bit s k = o_bit t k" "\<And>k. o_ver s k = o_ver t k" "\<And>k. o_val s k = o_val t k"
    "\<And>w. o_lock s w = o_lock t w" "\<And>w. o_low s w = o_low t w" "\<And>w. o_obs s w = o_obs t w"
    "\<And>w. o_stamp s w = o_stamp t w" "\<And>w. o_writes s w = o_writes t w"
    "\<And>w. o_valid s w = o_valid t w" "\<And>w. o_pend s w = o_pend t w"
    "\<And>w. o_dirty s w = o_dirty t w" "\<And>w. o_point s w = o_point t w"
    "\<And>p. o_com s p = o_com t p" "o_clock s = o_clock t" "\<And>k. o_inst s k = o_inst t k"
  shows "s = t"
  using assms by (intro occ.equality ext) auto

lemma sl_abs_stay:
  assumes "sl_table s' = sl_table s" and "sl_point s' = sl_point s" and "sl_com s' = sl_com s"
    and "sl_clock s' = sl_clock s" and "sl_inst s' = sl_inst s"
    and "\<And>v. v \<noteq> w \<Longrightarrow> sl_txs s' v = sl_txs s v" and "\<And>v. v \<noteq> w \<Longrightarrow> sl_pcs s' v = sl_pcs s v"
    and "sl_locked (sl_txs s' w) (sl_pcs s' w) = sl_locked (sl_txs s w) (sl_pcs s w)"
    and "sl_stamped (sl_pcs s' w) = sl_stamped (sl_pcs s w)"
    and "sl_stamped (sl_pcs s w) \<Longrightarrow> sl_txs s' w = sl_txs s w"
    and "sl_valid (sl_pcs s' w) = sl_valid (sl_pcs s w)"
    and "sl_pend (sl_val_size c) (sl_txs s' w) (sl_pcs s' w) = sl_pend (sl_val_size c) (sl_txs s w) (sl_pcs s w)"
    and "sl_dirty (sl_pcs s' w) = sl_dirty (sl_pcs s w)"
    and "\<forall>x \<in> sl_robs (sl_txs s' w) \<union> sl_pobs (sl_txs s' w) (sl_pcs s' w). obs_ok (sl_abs c s) w x"
    and "\<not> sl_stamped (sl_pcs s w) \<or>
       sl_robs (sl_txs s' w) \<union> sl_pobs (sl_txs s' w) (sl_pcs s' w) \<subseteq> o_obs (sl_abs c s) w"
    and "sl_locked (sl_txs s w) (sl_pcs s w) = {} \<or> sl_low (sl_txs s w) \<le> sl_low (sl_txs s' w)"
  shows "occ_step (sl_abs c s) (sl_abs c s')"
proof -
  obtain t pc where tp: "sl_txs s' w = t" "sl_pcs s' w = pc" by blast
  have T: "sl_txs s' = (sl_txs s)(w := t)" and P: "sl_pcs s' = (sl_pcs s)(w := pc)"
    using assms(6,7) tp by auto
  let ?X = "sl_robs t \<union> sl_pobs t pc"
  have "occ_step (sl_abs c s) ((sl_abs c s)\<lparr>o_obs := (o_obs (sl_abs c s))(w := ?X),
      o_low := (o_low (sl_abs c s))(w := sl_low t)\<rparr>)"
    using assms(14-16) tp by (intro occ_local) auto
  also have "(sl_abs c s)\<lparr>o_obs := (o_obs (sl_abs c s))(w := ?X),
      o_low := (o_low (sl_abs c s))(w := sl_low t)\<rparr> = sl_abs c s'"
    using assms(1-5) assms(8-13) [unfolded tp] by (intro occ_eqI) (simp_all add: T P)
  finally show ?thesis .
qed

section \<open>The simulation\<close>

lemma obs_ok_old:
  "x \<in> sl_robs (sl_txs s w) \<Longrightarrow> obs_ok (sl_abs c s) w x"
  "x \<in> sl_pobs (sl_txs s w) (sl_pcs s w) \<Longrightarrow> obs_ok (sl_abs c s) w x"
  by (simp_all add: obs_ok_def)

lemma obs_ok_new: "obs_ok (sl_abs c s) w (k, tw_ver (tidword (sl_table s k)), None)"
  by (auto simp: obs_ok_def)

lemma obs_ok_copy:
  "(k, e, None) \<in> sl_pobs (sl_txs s w) (sl_pcs s w) \<Longrightarrow>
   obs_ok (sl_abs c s) w (k, e, Some (sl_val (sl_table s k)))"
  by (auto simp: obs_ok_def)

lemma sl_robs_simps [simp]:
  "sl_robs (t\<lparr>pro_set := x\<rparr>) = sl_robs t" "sl_robs (t\<lparr>sl_status := y\<rparr>) = sl_robs t"
  "sl_robs (sl_begin t) = sl_robs t" "sl_robs (sl_sort t) = sl_robs t"
  "sl_robs (sl_write k v t) = sl_robs t" "sl_robs (sl_read_copy k tb t) = sl_robs t"
  "sl_robs (sl_clear t) = {}" "sl_robs (sl_locked_one z t) = sl_robs t"
  "sl_robs (sl_validated_one z t) = sl_robs t"
  "sl_robs (t\<lparr>sl_status := y, mrctid := z\<rparr>) = sl_robs t"
  "sl_robs (sl_read_register k z t) = insert (k, tw_ver z, Some (return_val t)) (sl_robs t)"
  by (simp_all add: sl_robs_def sl_begin_def sl_sort_def sl_write_def sl_read_copy_def sl_clear_def
      sl_locked_one_def sl_validated_one_def sl_read_register_def Let_def)

lemma sl_low_simps [simp]:
  "sl_low (t\<lparr>pro_set := x\<rparr>) = sl_low t" "sl_low (t\<lparr>sl_status := y\<rparr>) = sl_low t"
  "sl_low (t\<lparr>sl_status := y, mrctid := z\<rparr>) = sl_low t"
  by (simp_all add: sl_low_def)

lemma sl_locked_simps [simp]:
  "sl_locked t (sl_read_loaded k x cs) = {}" "sl_stamped (sl_read_loaded k x cs) = False"
  "sl_valid (sl_read_loaded k x cs) = {}" "sl_pend vs t (sl_read_loaded k x cs) = []"
  "sl_dirty (sl_read_loaded k x cs) = None"
  by (simp_all add: sl_read_loaded_def)

lemma sl_pobs_loaded: "sl_pobs t (sl_read_loaded k x cs) \<subseteq> {(k, tw_ver x, None)}"
  by (auto simp: sl_read_loaded_def)

lemma sl_exec_sim:
  assumes "sl_pcs s w = SMake \<or> sl_pcs s w = SRetry \<or> sl_pcs s w = SBegin \<or>
    (\<exists>e i stop. sl_pcs s w = SScan e i stop) \<or> (\<exists>cs. sl_pcs s w = SOps cs)"
  shows "occ_step (sl_abs c s) (sl_abs c (sl_step c w pro now s))"
  using assms
proof (elim disjE exE)
  assume "sl_pcs s w = SMake"
  then show ?thesis
    by (intro sl_abs_stay [where w = w]) (auto simp: sl_step_def Let_def obs_ok_old)
next
  assume "sl_pcs s w = SRetry"
  then show ?thesis
    by (intro sl_abs_stay [where w = w]) (auto simp: sl_step_def Let_def leaderWork_def obs_ok_old)
next
  assume "sl_pcs s w = SBegin"
  then show ?thesis
    by (intro sl_abs_stay [where w = w]) (auto simp: sl_step_def Let_def obs_ok_old)
next
  fix e i stop assume "sl_pcs s w = SScan e i stop"
  then show ?thesis
    by (intro sl_abs_stay [where w = w]) (auto simp: sl_step_def Let_def chkEpochLoaded_def obs_ok_old)
next
  fix cs assume pc: "sl_pcs s w = SOps cs"
  show ?thesis
  proof (rule sl_ops_cases [of cs])
    assume "cs = []"
    with pc show ?thesis
      by (intro sl_abs_stay [where w = w]) (auto simp: sl_step_def Let_def obs_ok_old)
  next
    fix k r assume "cs = CallRead k # r"
    with pc show ?thesis
      by (intro sl_abs_stay [where w = w]) (auto simp: sl_step_def Let_def obs_ok_old)
  next
    fix k v r assume "cs = CallWrite k v # r"
    with pc show ?thesis
      by (intro sl_abs_stay [where w = w]) (auto simp: sl_step_def Let_def obs_ok_old)
  qed
qed

lemma sl_read_sim:
  assumes "(\<exists>k cs. sl_pcs s w = SLoad k cs) \<or> (\<exists>k x cs. sl_pcs s w = SCopyVal k x cs) \<or>
    (\<exists>k x cs. sl_pcs s w = SCheck k x cs)"
  shows "occ_step (sl_abs c s) (sl_abs c (sl_step c w pro now s))"
  using assms
proof (elim disjE exE)
  fix k cs assume pc: "sl_pcs s w = SLoad k cs"
  then show ?thesis
    by (intro sl_abs_stay [where w = w])
      (auto simp: sl_step_def Let_def obs_ok_old sl_get_tuple_def obs_ok_new
        dest!: subsetD [OF sl_pobs_loaded])
next
  fix k x cs assume pc: "sl_pcs s w = SCopyVal k x cs"
  then have "obs_ok (sl_abs c s) w (k, tw_ver x, Some (sl_val (sl_table s k)))"
    by (intro obs_ok_copy) simp
  with pc show ?thesis
    by (intro sl_abs_stay [where w = w])
      (auto simp: sl_step_def Let_def obs_ok_old sl_read_copy_def sl_get_tuple_def sl_robs_def)
next
  fix k x cs assume pc: "sl_pcs s w = SCheck k x cs"
  then have "obs_ok (sl_abs c s) w (k, tw_ver x, Some (return_val (sl_txs s w)))"
    by (intro obs_ok_old) simp
  with pc show ?thesis
    by (intro sl_abs_stay [where w = w])
      (auto simp: sl_step_def sl_read_check_def Let_def obs_ok_old sl_get_tuple_def obs_ok_new
        dest!: subsetD [OF sl_pobs_loaded])
qed

lemma sl_lock_sim:
  assumes wf: "sl_wf s" and pc: "sl_pcs s w = SLockCas dn e rest x"
  shows "occ_step (sl_abs c s) (sl_abs c (sl_lock_cas c w dn e rest x s))"
proof (cases "\<not> tw_lock x \<and> tidword (sl_table s (we_rcdptr e)) = x")
  case False
  with pc show ?thesis
    by (cases "sl_mode c")
      (intro sl_abs_stay [where w = w]; auto simp: sl_lock_cas_def tid_cas_def obs_ok_old)+
next
  case True
  let ?t = "sl_locked_one x (sl_txs s w)"
  let ?k = "we_key e"
  have k: "we_rcdptr e = ?k"
    using sl_wfD(1,2) [OF wf] pc by (metis in_set_conv_decomp sl_wf_pc.simps(2) sl_wf_tx_def)
  from True have "occ_step (sl_abs c s) ((sl_abs c s)\<lparr>o_bit := (o_bit (sl_abs c s))(?k := True),
      o_lock := (o_lock (sl_abs c s))(w := insert ?k (o_lock (sl_abs c s) w)),
      o_low := (o_low (sl_abs c s))(w := sl_low ?t)\<rparr>)"
    using sl_low_mono k by (intro occ_lock) (auto simp: pc idle_def)
  also have "(sl_abs c s)\<lparr>o_bit := (o_bit (sl_abs c s))(?k := True),
      o_lock := (o_lock (sl_abs c s))(w := insert ?k (o_lock (sl_abs c s) w)),
      o_low := (o_low (sl_abs c s))(w := sl_low ?t)\<rparr> = sl_abs c (sl_lock_cas c w dn e rest x s)"
    using True k by (intro occ_eqI) (auto simp: sl_lock_cas_def tid_cas_def pc set_tidword_def)
  finally show ?thesis .
qed

lemma sl_unlock_sim:
  assumes wf: "sl_wf s" and pc: "sl_pcs s w = SUnlock es out"
  shows "occ_step (sl_abs c s) (sl_abs c (sl_step c w pro now s))"
proof (cases es)
  case Nil
  with pc show ?thesis
    by (cases out) (intro sl_abs_stay [where w = w]; auto simp: sl_step_def Let_def obs_ok_old)+
next
  case (Cons e es')
  let ?k = "we_key e"
  have e: "e \<in> set (write_set (sl_txs s w))" "?k \<notin> we_key ` set es'"
    using sl_wfD(2) [OF wf pc] Cons by auto
  then have k: "we_rcdptr e = ?k" using sl_wfD(1) [OF wf, of w] by (simp add: sl_wf_tx_def)
  have "occ_step (sl_abs c s) ((sl_abs c s)\<lparr>o_bit := (o_bit (sl_abs c s))(?k := False),
      o_lock := (o_lock (sl_abs c s))(w := o_lock (sl_abs c s) w - {?k})\<rparr>)"
    by (intro occ_unlock) (auto simp: pc Cons idle_def)
  also have "(sl_abs c s)\<lparr>o_bit := (o_bit (sl_abs c s))(?k := False),
      o_lock := (o_lock (sl_abs c s))(w := o_lock (sl_abs c s) w - {?k})\<rparr> =
      sl_abs c (sl_step c w pro now s)"
    using e k by (intro occ_eqI)
      (auto simp: sl_step_def sl_unlock_one_def Let_def pc Cons set_tidword_def)
  finally show ?thesis .
qed

lemma sl_fence_sim:
  assumes wf: "sl_wf s" and pc: "sl_pcs s w = SEpochLoad"
  shows "occ_step (sl_abs c s) (sl_abs c (sl_step c w pro now s))"
proof -
  let ?ws = "sl_writes (sl_val_size c) (sl_txs s w) (write_set (sl_txs s w))"
  have "map fst ?ws = map we_key (write_set (sl_txs s w))"
    by (simp add: sl_writes_def)
  moreover from this have "fst ` set ?ws = we_key ` set (write_set (sl_txs s w))"
    by (metis set_map)
  moreover have "distinct (map we_key (write_set (sl_txs s w)))"
    using sl_wfD(1) [OF wf, of w] by (simp add: sl_wf_tx_def)
  ultimately have "occ_step (sl_abs c s) ((sl_abs c s)
      \<lparr>o_stamp := (o_stamp (sl_abs c s))(w := Some (o_clock (sl_abs c s))),
       o_clock := Suc (o_clock (sl_abs c s)), o_writes := (o_writes (sl_abs c s))(w := ?ws),
       o_valid := (o_valid (sl_abs c s))(w := {}),
       o_point := (o_point (sl_abs c s))(w := o_clock (sl_abs c s))\<rparr>)"
    by (intro occ_stamp) (auto simp: pc idle_def)
  also have "(sl_abs c s)
      \<lparr>o_stamp := (o_stamp (sl_abs c s))(w := Some (o_clock (sl_abs c s))),
       o_clock := Suc (o_clock (sl_abs c s)), o_writes := (o_writes (sl_abs c s))(w := ?ws),
       o_valid := (o_valid (sl_abs c s))(w := {}),
       o_point := (o_point (sl_abs c s))(w := o_clock (sl_abs c s))\<rparr> =
      sl_abs c (sl_step c w pro now s)"
    by (intro occ_eqI) (auto simp: sl_step_def Let_def pc)
  finally show ?thesis .
qed

lemma sl_validate_sim:
  assumes wf: "sl_wf s" and pc: "sl_pcs s w = SVal dn (r # rest)"
  shows "occ_step (sl_abs c s) (sl_abs c (sl_validate w dn r rest s))"
proof -
  let ?t = "sl_txs s w" and ?k = "re_key r"
  let ?x = "tidword (sl_table s (re_rcdptr r))"
  have r: "r \<in> set (read_set ?t)" using sl_wfD(2) [OF wf pc] by (metis in_set_conv_decomp sl_wf_pc.simps(4))
  then have k: "re_rcdptr r = ?k" using sl_wfD(1) [OF wf, of w] by (simp add: sl_wf_tx_def)
  show ?thesis
  proof (cases "sl_read_invalid ?t r ?x")
    case True
    have "occ_step (sl_abs c s) ((sl_abs c s)\<lparr>o_stamp := (o_stamp (sl_abs c s))(w := None),
        o_writes := (o_writes (sl_abs c s))(w := []), o_valid := (o_valid (sl_abs c s))(w := {})\<rparr>)"
      by (intro occ_abandon [where p = "sl_point s w"]) (simp add: pc)
    also have "(sl_abs c s)\<lparr>o_stamp := (o_stamp (sl_abs c s))(w := None),
        o_writes := (o_writes (sl_abs c s))(w := []), o_valid := (o_valid (sl_abs c s))(w := {})\<rparr> =
        sl_abs c (sl_validate w dn r rest s)"
      using True by (intro occ_eqI) (auto simp: sl_validate_def Let_def pc)
    finally show ?thesis .
  next
    case False
    then have v: "tw_ver (re_tidword r) = tw_ver ?x"
      by (simp add: sl_read_invalid_def tw_ver_eq_iff)
    have l: "\<not> tw_lock ?x \<or> ?k \<in> we_key ` set (write_set ?t)"
      using False search_set_notNone [of we_key ?k "write_set ?t"]
      unfolding sl_read_invalid_def searchWriteSet_def by blast
    have "(?k, tw_ver ?x, Some (re_val r)) \<in> sl_robs ?t"
      using r v by (force simp: sl_robs_def)
    then have "occ_step (sl_abs c s) ((sl_abs c s)
        \<lparr>o_valid := (o_valid (sl_abs c s))(w := insert (?k, re_val r) (o_valid (sl_abs c s) w)),
         o_low := (o_low (sl_abs c s))(w := sl_low (sl_validated_one ?x ?t))\<rparr>)"
      using l k sl_low_mono(3) by (intro occ_validate [where p = "sl_point s w"]) (auto simp: pc)
    also have "(sl_abs c s)
        \<lparr>o_valid := (o_valid (sl_abs c s))(w := insert (?k, re_val r) (o_valid (sl_abs c s) w)),
         o_low := (o_low (sl_abs c s))(w := sl_low (sl_validated_one ?x ?t))\<rparr> =
        sl_abs c (sl_validate w dn r rest s)"
      using False by (intro occ_eqI)
        (auto simp: sl_validate_def Let_def pc sl_writes_def sl_validated_one_def sl_new_payload_def
          sl_robs_def fun_eq_iff)
    finally show ?thesis .
  qed
qed

lemma sl_commit_sim:
  assumes wf: "sl_wf s" and pc: "sl_pcs s w = SVal dn []"
  shows "occ_step (sl_abs c s) (sl_abs c (sl_commit c w s))"
proof -
  let ?t = "sl_txs s w" and ?a = "sl_abs c s"
  let ?rs = "map (\<lambda>r. (re_key r, re_val r)) (read_set ?t)"
  have dn: "dn = read_set ?t" using sl_wfD(2) [OF wf pc] by simp
  have "occ_step ?a (?a\<lparr>o_stamp := (o_stamp ?a)(w := None), o_writes := (o_writes ?a)(w := []),
      o_valid := (o_valid ?a)(w := {}), o_pend := (o_pend ?a)(w := o_writes ?a w),
      o_com := (o_com ?a)(sl_point s w := Some \<lparr>tx_reads = ?rs, tx_writes = o_writes ?a w\<rparr>)\<rparr>)"
    by (intro occ_commit) (auto simp: pc dn)
  also have "?a\<lparr>o_stamp := (o_stamp ?a)(w := None), o_writes := (o_writes ?a)(w := []),
      o_valid := (o_valid ?a)(w := {}), o_pend := (o_pend ?a)(w := o_writes ?a w),
      o_com := (o_com ?a)(sl_point s w := Some \<lparr>tx_reads = ?rs, tx_writes = o_writes ?a w\<rparr>)\<rparr> =
      sl_abs c (sl_commit c w s)"
    by (intro occ_eqI)
      (auto simp: sl_commit_def Let_def pc sl_writes_def sl_new_payload_def sl_record_def fun_eq_iff)
  finally show ?thesis .
qed

lemma sl_write_sim:
  assumes wf: "sl_wf s" and pc: "sl_pcs s w = SWrite es m"
  shows "occ_step (sl_abs c s) (sl_abs c (sl_step c w pro now s))"
proof (cases es)
  case Nil
  with pc show ?thesis
    by (intro sl_abs_stay [where w = w]) (auto simp: sl_step_def Let_def sl_writes_def)
next
  case (Cons e es')
  let ?t = "sl_txs s w" and ?a = "sl_abs c s" and ?k = "we_key e"
  let ?f = "sl_new_payload (sl_val_size c) ?t e"
  have "e \<in> set (write_set ?t)" using sl_wfD(2) [OF wf pc] Cons by auto
  then have k: "we_rcdptr e = ?k" using sl_wfD(1) [OF wf, of w] by (simp add: sl_wf_tx_def)
  have "occ_step ?a (?a\<lparr>o_val := (o_val ?a)(?k := ?f (o_val ?a ?k)),
      o_pend := (o_pend ?a)(w := sl_writes (sl_val_size c) ?t es'),
      o_dirty := (o_dirty ?a)(w := Some ?k)\<rparr>)"
    by (intro occ_copy) (auto simp: pc Cons sl_writes_def)
  also have "?a\<lparr>o_val := (o_val ?a)(?k := ?f (o_val ?a ?k)),
      o_pend := (o_pend ?a)(w := sl_writes (sl_val_size c) ?t es'),
      o_dirty := (o_dirty ?a)(w := Some ?k)\<rparr> = sl_abs c (sl_step c w pro now s)"
    using k by (intro occ_eqI)
      (auto simp: sl_step_def Let_def pc Cons sl_write_copy_def set_payload_def)
  finally show ?thesis .
qed

lemma sl_store_sim:
  assumes wf: "sl_wf s" and nw: "\<not> sl_wrapped s" and inv: "occ_inv d (sl_abs c s)"
    and pc: "sl_pcs s w = SStore e es m"
  shows "occ_step (sl_abs c s) (sl_abs c (sl_step c w pro now s))"
proof -
  let ?t = "sl_txs s w" and ?a = "sl_abs c s" and ?k = "we_key e"
  have e: "e \<in> set (write_set ?t)" "?k \<notin> we_key ` set es" "\<not> tw_lock m"
    using sl_wfD(2) [OF wf pc] by auto
  then have k: "we_rcdptr e = ?k" using sl_wfD(1) [OF wf, of w] by (simp add: sl_wf_tx_def)
  have "o_ver ?a ?k \<le> o_low ?a w" by (rule inv_low [OF inv]) (simp add: pc)
  also have "o_low ?a w < tw_ver m" using sl_wfD(3) [OF wf nw pc] by simp
  finally have "occ_step ?a (?a\<lparr>o_ver := (o_ver ?a)(?k := tw_ver m), o_bit := (o_bit ?a)(?k := False),
      o_lock := (o_lock ?a)(w := o_lock ?a w - {?k}), o_dirty := (o_dirty ?a)(w := None),
      o_inst := (o_inst ?a)(?k := Suc (o_point ?a w))\<rparr>)"
    by (intro occ_install) (auto simp: pc)
  also have "?a\<lparr>o_ver := (o_ver ?a)(?k := tw_ver m), o_bit := (o_bit ?a)(?k := False),
      o_lock := (o_lock ?a)(w := o_lock ?a w - {?k}), o_dirty := (o_dirty ?a)(w := None),
      o_inst := (o_inst ?a)(?k := Suc (o_point ?a w))\<rparr> = sl_abs c (sl_step c w pro now s)"
    using k e by (intro occ_eqI)
      (auto simp: sl_step_def Let_def pc sl_write_store_def set_tidword_def)
  finally show ?thesis .
qed

lemma sl_step_sim:
  assumes wf: "sl_wf s" and nw: "\<not> sl_wrapped s" and inv: "occ_inv d (sl_abs c s)"
  shows "occ_step (sl_abs c s) (sl_abs c (sl_step c w pro now s))"
proof (cases "sl_pcs s w")
  case (SLockLoad dn rest)
  with sl_wfD(2) [OF wf SLockLoad] show ?thesis
    by (cases rest) (intro sl_abs_stay [where w = w]; auto simp: sl_step_def Let_def obs_ok_old)+
next
  case (SLockCas dn e rest x)
  with sl_lock_sim [OF wf SLockCas] show ?thesis by (simp add: sl_step_def)
next
  case (SEpochStore e)
  then show ?thesis
    by (intro sl_abs_stay [where w = w]) (auto simp: sl_step_def Let_def obs_ok_old)
next
  case (SVal dn rest)
  with sl_validate_sim [OF wf] sl_commit_sim [OF wf] show ?thesis
    by (cases rest) (simp_all add: sl_step_def)
qed (use sl_exec_sim sl_read_sim sl_unlock_sim [OF wf] sl_fence_sim [OF wf] sl_write_sim [OF wf]
  sl_store_sim [OF wf nw inv] in \<open>simp_all\<close>)

end
