(* ===== verification/Silo_Epoch.thy ===== *)
theory Silo_Epoch
  imports Silo_Proofs
begin

text \<open>
  The epochs of Silo: the leader advances the global epoch only when every other worker has
  loaded it, and the epoch in a commit TID is the global epoch at the serialization point,
  so the serial order agrees with the order of the epochs.
\<close>

section \<open>The invariant\<close>

definition ep_tx :: "u64 \<Rightarrow> sl_tx \<Rightarrow> bool" where
  "ep_tx e t \<longleftrightarrow> tw_epoch (max_wset t) \<le> e \<and> tw_epoch (max_rset t) \<le> e \<and> tw_epoch (mrctid t) \<le> e \<and>
     (\<forall>r \<in> set (read_set t). tw_epoch (re_tidword r) \<le> e)"

fun ep_pc :: "u64 \<Rightarrow> sl_pc \<Rightarrow> bool" where
  "ep_pc g (SCopyVal k x cs) = (tw_epoch x \<le> g)"
| "ep_pc g (SCheck k x cs) = (tw_epoch x \<le> g)"
| "ep_pc g (SLockCas done e rest x) = (tw_epoch x \<le> g)"
| "ep_pc g (SWrite es m) = (tw_epoch m \<le> g)"
| "ep_pc g (SStore e es m) = (tw_epoch m \<le> g)"
| "ep_pc g pc = True"

text \<open>\<open>p\<close> is the epoch loaded at the point of the worker, \<open>l\<close> its thread-local epoch.\<close>

fun ep_stamp :: "u64 \<Rightarrow> u64 \<Rightarrow> sl_tx \<Rightarrow> sl_pc \<Rightarrow> bool" where
  "ep_stamp p l t (SEpochStore e) = (e = p \<and> ep_tx p t)"
| "ep_stamp p l t (SVal done rest) = (l = p \<and> ep_tx p t)"
| "ep_stamp p l t pc = True"

fun is_stamped :: "sl_pc \<Rightarrow> bool" where
  "is_stamped (SEpochStore e) = True"
| "is_stamped (SVal done rest) = True"
| "is_stamped pc = False"

definition ep_worker :: "sl_sys \<Rightarrow> nat \<Rightarrow> bool" where
  "ep_worker s w \<longleftrightarrow> ep_tx (global_epoch s) (sl_txs s w) \<and> ep_pc (global_epoch s) (sl_pcs s w) \<and>
     ep_stamp (sl_epoch_at s (sl_point s w)) (local_epoch s w) (sl_txs s w) (sl_pcs s w) \<and>
     (is_stamped (sl_pcs s w) \<longrightarrow> sl_point s w < sl_clock s)"

definition ep_history :: "sl_sys \<Rightarrow> bool" where
  "ep_history s \<longleftrightarrow> (\<forall>p q. p \<le> q \<longrightarrow> q < sl_clock s \<longrightarrow> sl_epoch_at s p \<le> sl_epoch_at s q) \<and>
     (\<forall>p < sl_clock s. sl_epoch_at s p \<le> global_epoch s) \<and>
     (\<forall>p t. sl_com s p = Some t \<longrightarrow> p < sl_clock s \<and> tw_epoch (sl_tids s p) = sl_epoch_at s p)"

definition ep_inv :: "sl_sys \<Rightarrow> bool" where
  "ep_inv s \<longleftrightarrow> unat (global_epoch s) < 2 ^ 32 \<and> (\<forall>k. tw_epoch (tidword (sl_table s k)) \<le> global_epoch s) \<and>
     (\<forall>w. ep_worker s w) \<and> ep_history s"

lemma ep_tx_mono: "ep_tx e t \<Longrightarrow> e \<le> f \<Longrightarrow> ep_tx f t"
  by (auto simp: ep_tx_def intro: order_trans)

lemma ep_pc_mono: "ep_pc e pc \<Longrightarrow> e \<le> f \<Longrightarrow> ep_pc f pc"
  by (cases pc) auto

lemma epoch_inc_le:
  assumes "unat (e :: u64) < 2 ^ 32"
  shows "e \<le> e + 1"
  using assms by (simp add: word_le_nat_alt unat_word_ariths)

lemma tw_epoch_max: "tw_epoch (max a b) \<le> e \<longleftrightarrow> tw_epoch a \<le> e \<and> tw_epoch b \<le> e"
proof (cases "a \<le> b")
  case True
  with tw_epoch_mono [OF True] show ?thesis by (auto simp: max_def intro: order_trans)
next
  case False
  then have "b \<le> a" by simp
  from tw_epoch_mono [OF this] False show ?thesis by (auto simp: max_def intro: order_trans)
qed

text \<open>The commit TID carries the thread-local epoch.\<close>

lemma sl_commit_tid_epoch:
  assumes "ep_tx e t" "unat e < 2 ^ 32"
  shows "tw_epoch (sl_commit_tid e t) = e"
proof (rule antisym)
  have e: "take_bit 32 e = e"
  proof -
    have "unat (take_bit 32 e) = unat e" using assms(2) by (simp add: take_bit_eq_mod unat_mod)
    then show ?thesis by (simp add: word_unat_eq_iff)
  qed
  then show "tw_epoch (sl_commit_tid e t) \<le> e"
    using assms(1) by (simp add: sl_commit_tid_def Let_def tw_epoch_max ep_tx_def)
  have "tw_epoch (tw_set_epoch e 0) \<le> tw_epoch (sl_commit_tid e t)"
    unfolding sl_commit_tid_def Let_def tw_epoch_set_latest tw_epoch_set_lock
    by (intro tw_epoch_mono) (simp add: le_max_iff_disj)
  with e show "e \<le> tw_epoch (sl_commit_tid e t)" by simp
qed

section \<open>Preservation\<close>

lemma ep_invD:
  assumes "ep_inv s"
  shows "unat (global_epoch s) < 2 ^ 32" "tw_epoch (tidword (sl_table s k)) \<le> global_epoch s"
    "ep_worker s w" "ep_history s"
  using assms by (auto simp: ep_inv_def)

text \<open>
  Steps that move one worker, change TID words within the epoch, and leave clock, points,
  commits and the global epoch alone.
\<close>

lemma ep_inv_move:
  assumes inv: "ep_inv s"
    and g: "global_epoch s' = global_epoch s" "sl_epoch_at s' = sl_epoch_at s" "sl_point s' = sl_point s"
      "sl_clock s' = sl_clock s" "sl_com s' = sl_com s" "sl_tids s' = sl_tids s"
    and other: "\<And>v. v \<noteq> w \<Longrightarrow> sl_txs s' v = sl_txs s v" "\<And>v. v \<noteq> w \<Longrightarrow> sl_pcs s' v = sl_pcs s v"
      "\<And>v. v \<noteq> w \<Longrightarrow> local_epoch s' v = local_epoch s v"
    and tb: "\<And>k. tw_epoch (tidword (sl_table s' k)) \<le> global_epoch s"
    and new: "ep_tx (global_epoch s) (sl_txs s' w)" "ep_pc (global_epoch s) (sl_pcs s' w)"
      "ep_stamp (sl_epoch_at s (sl_point s w)) (local_epoch s' w) (sl_txs s' w) (sl_pcs s' w)"
      "is_stamped (sl_pcs s' w) \<Longrightarrow> sl_point s w < sl_clock s"
  shows "ep_inv s'"
proof -
  have "ep_worker s' v" for v
    using ep_invD(3) [OF inv, of v] g other new by (cases "v = w") (auto simp: ep_worker_def)
  with inv g tb show ?thesis by (simp add: ep_inv_def ep_history_def)
qed

lemma tw_epoch_0 [simp]: "tw_epoch 0 = 0"
  by (simp add: tw_epoch_def)

lemma ep_tx_simps [simp]:
  "ep_tx e (t\<lparr>pro_set := pr\<rparr>) = ep_tx e t" "ep_tx e (t\<lparr>sl_status := y\<rparr>) = ep_tx e t"
  "ep_tx e (sl_sort t) = ep_tx e t" "ep_tx e (sl_write k v t) = ep_tx e t"
  "ep_tx e (sl_read_copy k tb t) = ep_tx e t"
  "ep_tx e (sl_read_register k x t) \<longleftrightarrow> ep_tx e t \<and> tw_epoch x \<le> e"
  "ep_tx e (sl_locked_one x t) \<longleftrightarrow> ep_tx e t \<and> tw_epoch x \<le> e"
  "ep_tx e (sl_validated_one x t) \<longleftrightarrow> ep_tx e t \<and> tw_epoch x \<le> e"
  "ep_tx e (t\<lparr>sl_status := y, mrctid := x\<rparr>) \<longleftrightarrow>
     ep_tx e (t\<lparr>mrctid := 0\<rparr>) \<and> tw_epoch x \<le> e"
  by (auto simp: ep_tx_def sl_sort_def sl_write_def sl_read_copy_def sl_read_register_def
      sl_locked_one_def sl_validated_one_def tw_epoch_max Let_def)

lemma ep_tx_weaken: "ep_tx e t \<Longrightarrow> ep_tx e (sl_begin t)" "ep_tx e t \<Longrightarrow> ep_tx e (sl_clear t)"
  "ep_tx e t \<Longrightarrow> ep_tx e (t\<lparr>mrctid := 0\<rparr>)"
  by (auto simp: ep_tx_def sl_begin_def sl_clear_def)

lemma sl_upd_ep [simp]:
  "global_epoch (sl_upd w t pc s) = global_epoch s" "local_epoch (sl_upd w t pc s) = local_epoch s"
  "sl_epoch_at (sl_upd w t pc s) = sl_epoch_at s" "sl_tids (sl_upd w t pc s) = sl_tids s"
  "sl_epoch_full (sl_upd w t pc s) = sl_epoch_full s"
  "global_epoch (sl_goto w pc s) = global_epoch s" "local_epoch (sl_goto w pc s) = local_epoch s"
  "sl_epoch_at (sl_goto w pc s) = sl_epoch_at s" "sl_tids (sl_goto w pc s) = sl_tids s"
  "sl_epoch_full (sl_goto w pc s) = sl_epoch_full s"
  by (simp_all add: sl_upd_def sl_goto_def)

lemma ep_loaded [simp]:
  "ep_stamp p l t (sl_read_loaded k x cs)" "is_stamped (sl_read_loaded k x cs) = False"
  "tw_epoch x \<le> g \<Longrightarrow> ep_pc g (sl_read_loaded k x cs)"
  by (simp_all add: sl_read_loaded_def)

lemma ep_tables:
  "(\<And>k. tw_epoch (tidword (tb k)) \<le> g) \<Longrightarrow> tw_epoch x \<le> g \<Longrightarrow> tw_epoch (tidword (set_tidword p x tb k)) \<le> g"
  "(\<And>k. tw_epoch (tidword (tb k)) \<le> g) \<Longrightarrow> tw_epoch (tidword (sl_unlock_one e tb k)) \<le> g"
  "(\<And>k. tw_epoch (tidword (tb k)) \<le> g) \<Longrightarrow> tw_epoch (tidword (sl_write_copy vs t e tb k)) \<le> g"
  by (auto simp: set_tidword_def sl_unlock_one_def Let_def sl_write_copy_def set_payload_def)

lemma ep_exec:
  assumes inv: "ep_inv s"
    and pc: "sl_pcs s w = SMake \<or> sl_pcs s w = SBegin \<or> (\<exists>cs. sl_pcs s w = SOps cs) \<or>
      (\<exists>k cs. sl_pcs s w = SLoad k cs) \<or> (\<exists>k x cs. sl_pcs s w = SCopyVal k x cs) \<or>
      (\<exists>k x cs. sl_pcs s w = SCheck k x cs)"
  shows "ep_inv (sl_step c w pro now s)"
proof -
  note iw = ep_invD(3) [OF inv, of w, unfolded ep_worker_def] and tb = ep_invD(2) [OF inv]
  note move = ep_inv_move [OF inv, where w = w]
  from pc show ?thesis
  proof (elim disjE exE)
    fix cs assume p: "sl_pcs s w = SOps cs"
    show ?thesis
      by (rule sl_ops_cases [of cs]; rule move) (use iw tb p in \<open>auto simp: sl_step_def Let_def split: if_splits\<close>)
  qed (rule move; use iw tb in \<open>auto simp: sl_step_def Let_def sl_read_check_def ep_tx_weaken split: if_splits\<close>)+
qed

lemma ep_leader:
  assumes inv: "ep_inv s" and pc: "sl_pcs s w = SRetry \<or> (\<exists>e i stop. sl_pcs s w = SScan e i stop)"
    and nf: "\<not> sl_epoch_full (sl_step c w pro now s)"
  shows "ep_inv (sl_step c w pro now s)"
proof -
  note iw = ep_invD(3) [OF inv, of w, unfolded ep_worker_def] and tb = ep_invD(2) [OF inv]
  note move = ep_inv_move [OF inv, where w = w]
  from pc show ?thesis
  proof (elim disjE exE)
    assume "sl_pcs s w = SRetry"
    then show ?thesis
      by (intro move) (use iw tb in \<open>auto simp: sl_step_def Let_def leaderWork_def split: if_splits\<close>)
  next
    fix e i stop assume p: "sl_pcs s w = SScan e i stop"
    show ?thesis
    proof (cases "i < sl_workers c")
      case True
      with p show ?thesis
        by (intro move) (use iw tb in \<open>auto simp: sl_step_def Let_def chkEpochLoaded_def split: if_splits\<close>)
    next
      case False
      let ?s = "sl_step c w pro now s"
      let ?g = "global_epoch s + 1"
      have s: "global_epoch ?s = ?g" "sl_epoch_at ?s = sl_epoch_at s" "sl_point ?s = sl_point s"
        "sl_clock ?s = sl_clock s" "sl_com ?s = sl_com s" "sl_tids ?s = sl_tids s" "sl_txs ?s = sl_txs s"
        "sl_pcs ?s = (sl_pcs s)(w := SBegin)" "local_epoch ?s = local_epoch s" "sl_table ?s = sl_table s"
        "\<not> 2 ^ 32 \<le> unat (global_epoch s) + 1"
        using p False nf by (auto simp: sl_step_def chkEpochLoaded_def)
      have le: "global_epoch s \<le> ?g" using epoch_inc_le ep_invD(1) [OF inv] by blast
      have "unat ?g < 2 ^ 32" using s(11) by (simp add: unat_word_ariths)
      moreover have "tw_epoch (tidword (sl_table s k)) \<le> ?g" for k
        using tb le by (rule order_trans)
      moreover have "ep_worker ?s v" for v
        using ep_invD(3) [OF inv, of v] le
        by (auto simp: ep_worker_def s intro: ep_tx_mono ep_pc_mono)
      moreover have "ep_history ?s"
        using ep_invD(4) [OF inv] le by (auto simp: ep_history_def s intro: order_trans)
      ultimately show ?thesis by (simp add: ep_inv_def s)
    qed
  qed
qed

lemma ep_lock:
  assumes inv: "ep_inv s"
    and pc: "(\<exists>dn rest. sl_pcs s w = SLockLoad dn rest) \<or> (\<exists>dn e rest x. sl_pcs s w = SLockCas dn e rest x) \<or>
      (\<exists>es out. sl_pcs s w = SUnlock es out)"
  shows "ep_inv (sl_step c w pro now s)"
proof -
  note iw = ep_invD(3) [OF inv, of w, unfolded ep_worker_def] and tb = ep_invD(2) [OF inv]
  note move = ep_inv_move [OF inv, where w = w]
  from pc show ?thesis
  proof (elim disjE exE)
    fix dn rest assume "sl_pcs s w = SLockLoad dn rest"
    then show ?thesis
      by (cases rest; intro move) (use iw tb in \<open>auto simp: sl_step_def Let_def\<close>)
  next
    fix dn e rest x assume p: "sl_pcs s w = SLockCas dn e rest x"
    then show ?thesis
      by (cases "tw_lock x"; cases "sl_mode c"; intro move)
        (use iw tb in \<open>auto simp: sl_step_def Let_def sl_lock_cas_def tid_cas_def
          ep_tables split: if_splits\<close>)
  next
    fix es out assume "sl_pcs s w = SUnlock es out"
    then show ?thesis
      by (cases es; cases out; intro move)
        (use iw tb in \<open>auto simp: sl_step_def Let_def ep_tables ep_tx_weaken\<close>)
  qed
qed

lemma ep_fence:
  assumes inv: "ep_inv s" and pc: "sl_pcs s w = SEpochLoad"
  shows "ep_inv (sl_step c w pro now s)"
proof -
  let ?s = "sl_step c w pro now s"
  have s: "global_epoch ?s = global_epoch s" "sl_epoch_at ?s = (sl_epoch_at s)(sl_clock s := global_epoch s)"
    "sl_point ?s = (sl_point s)(w := sl_clock s)" "sl_clock ?s = Suc (sl_clock s)"
    "sl_com ?s = sl_com s" "sl_tids ?s = sl_tids s" "sl_txs ?s = sl_txs s" "sl_table ?s = sl_table s"
    "sl_pcs ?s = (sl_pcs s)(w := SEpochStore (global_epoch s))" "local_epoch ?s = local_epoch s"
    by (simp_all add: sl_step_def Let_def pc)
  have "ep_worker ?s v" for v
  proof (cases "v = w")
    case True
    then show ?thesis using ep_invD(3) [OF inv, of w] by (simp add: ep_worker_def s)
  next
    case False
    with ep_invD(3) [OF inv, of v] show ?thesis
      by (cases "sl_pcs s v") (auto simp: ep_worker_def s)
  qed
  moreover have "ep_history ?s"
    using ep_invD(4) [OF inv] unfolding ep_history_def s
    by (auto simp: less_Suc_eq le_less)
  ultimately show ?thesis using inv by (simp add: ep_inv_def s)
qed

lemma ep_commit:
  assumes inv: "ep_inv s" and pc: "sl_pcs s w = SVal dn []"
  shows "ep_inv (sl_commit c w s)"
proof -
  let ?t = "sl_txs s w" and ?s = "sl_commit c w s"
  let ?m = "sl_commit_tid (local_epoch s w) ?t" and ?p = "sl_point s w"
  have iw: "ep_worker s w" by (rule ep_invD(3) [OF inv])
  have l: "local_epoch s w = sl_epoch_at s ?p" "ep_tx (local_epoch s w) ?t" "?p < sl_clock s"
    using iw by (auto simp: ep_worker_def pc)
  then have le: "local_epoch s w \<le> global_epoch s"
    using ep_invD(4) [OF inv] by (simp add: ep_history_def)
  then have "unat (local_epoch s w) < 2 ^ 32"
    using ep_invD(1) [OF inv] by (simp add: word_le_nat_alt)
  then have m: "tw_epoch ?m = local_epoch s w" by (rule sl_commit_tid_epoch [OF l(2)])
  have s: "global_epoch ?s = global_epoch s" "sl_epoch_at ?s = sl_epoch_at s" "sl_point ?s = sl_point s"
    "sl_clock ?s = sl_clock s" "sl_com ?s = (sl_com s)(?p := Some (sl_record (sl_val_size c) ?t))"
    "sl_tids ?s = (sl_tids s)(?p := ?m)"
    "sl_txs ?s = (sl_txs s)(w := ?t\<lparr>sl_status := KCommitted, mrctid := ?m\<rparr>)" "sl_table ?s = sl_table s"
    "sl_pcs ?s = (sl_pcs s)(w := SWrite (write_set ?t) ?m)" "local_epoch ?s = local_epoch s"
    by (simp_all add: sl_commit_def Let_def)
  have "ep_worker ?s v" for v
  proof (cases "v = w")
    case True
    with iw le m show ?thesis by (auto simp: ep_worker_def s ep_tx_weaken)
  next
    case False
    with ep_invD(3) [OF inv, of v] show ?thesis by (simp add: ep_worker_def s)
  qed
  moreover have "ep_history ?s"
    using ep_invD(4) [OF inv] m l by (auto simp: ep_history_def s)
  ultimately show ?thesis using inv by (simp add: ep_inv_def s)
qed

lemma ep_rest:
  assumes inv: "ep_inv s" and wf: "sl_wf s"
    and pc: "(\<exists>e. sl_pcs s w = SEpochStore e) \<or> (\<exists>dn r rest. sl_pcs s w = SVal dn (r # rest)) \<or>
      (\<exists>es m. sl_pcs s w = SWrite es m) \<or> (\<exists>e es m. sl_pcs s w = SStore e es m)"
  shows "ep_inv (sl_step c w pro now s)"
proof -
  note iw = ep_invD(3) [OF inv, of w, unfolded ep_worker_def] and tb = ep_invD(2) [OF inv]
  note move = ep_inv_move [OF inv, where w = w]
  from pc show ?thesis
  proof (elim disjE exE)
    fix e assume "sl_pcs s w = SEpochStore e"
    then show ?thesis
      by (intro move) (use iw tb in \<open>auto simp: sl_step_def Let_def\<close>)
  next
    fix dn r rest assume p: "sl_pcs s w = SVal dn (r # rest)"
    let ?x = "tidword (sl_table s (re_rcdptr r))"
    have r: "r \<in> set (read_set (sl_txs s w))"
      using sl_wfD(2) [OF wf p] by (metis in_set_conv_decomp sl_wf_pc.simps(4))
    show ?thesis
    proof (cases "sl_read_invalid (sl_txs s w) r ?x")
      case True
      with p show ?thesis
        by (intro move) (use iw tb in \<open>auto simp: sl_step_def sl_validate_def Let_def\<close>)
    next
      case False
      then have "tw_epoch ?x = tw_epoch (re_tidword r)" by (simp add: sl_read_invalid_def)
      moreover have "ep_tx (sl_epoch_at s (sl_point s w)) (sl_txs s w)" using iw p by simp
      ultimately have "tw_epoch ?x \<le> sl_epoch_at s (sl_point s w)" using r by (simp add: ep_tx_def)
      with False p show ?thesis
        by (intro move) (use iw tb in \<open>auto simp: sl_step_def sl_validate_def Let_def\<close>)
    qed
  next
    fix es m assume "sl_pcs s w = SWrite es m"
    then show ?thesis
      by (cases es; intro move) (use iw tb in \<open>auto simp: sl_step_def Let_def ep_tables ep_tx_weaken\<close>)
  next
    fix e es m assume "sl_pcs s w = SStore e es m"
    then show ?thesis
      by (intro move) (use iw tb in \<open>auto simp: sl_step_def Let_def sl_write_store_def ep_tables\<close>)
  qed
qed

lemma ep_step_inv:
  assumes inv: "ep_inv s" and wf: "sl_wf s" and nf: "\<not> sl_epoch_full (sl_step c w pro now s)"
  shows "ep_inv (sl_step c w pro now s)"
proof (cases "sl_pcs s w")
  case (SVal dn rest)
  show ?thesis
  proof (cases rest)
    case Nil
    with SVal ep_commit [OF inv, of w dn c] show ?thesis by (simp add: sl_step_def)
  next
    case (Cons r rest')
    with SVal show ?thesis by (intro ep_rest [OF inv wf]) simp
  qed
qed (use ep_exec [OF inv] ep_leader [OF inv _ nf] ep_lock [OF inv] ep_fence [OF inv]
  ep_rest [OF inv wf] in \<open>simp_all\<close>)

lemma sl_epoch_full_mono: "sl_epoch_full s \<Longrightarrow> sl_epoch_full (sl_step c w pro now s)"
proof (cases "sl_pcs s w")
  case (SOps cs)
  then show "sl_epoch_full s \<Longrightarrow> ?thesis"
    by (cases cs rule: sl_ops_cases) (auto simp: sl_step_def Let_def)
next
  case (SUnlock es out)
  then show "sl_epoch_full s \<Longrightarrow> ?thesis"
    by (cases es; cases out) (auto simp: sl_step_def Let_def)
next
  case (SLockCas dn e rest x)
  then show "sl_epoch_full s \<Longrightarrow> ?thesis"
    by (cases "sl_mode c") (auto simp: sl_step_def Let_def sl_lock_cas_def tid_cas_def)
qed (auto simp: sl_step_def Let_def leaderWork_def chkEpochLoaded_def sl_read_check_def
      sl_validate_def sl_commit_def split: list.split)

lemma sl_init_ep: "sl_start d s \<Longrightarrow> ep_inv s"
  by (auto simp: sl_start_def sl_init_def ep_inv_def ep_worker_def ep_history_def sl_new_def ep_tx_def
      sl_tidword_init_def)

section \<open>How far the workers lag behind the global epoch\<close>

fun lag_pc :: "(nat \<Rightarrow> u64) \<Rightarrow> u64 \<Rightarrow> nat \<Rightarrow> sl_pc \<Rightarrow> bool" where
  "lag_pc l g w (SEpochStore e) = (l w \<le> e \<and> e \<le> g)"
| "lag_pc l g w (SScan e j stop) = (w = 0 \<and> e = g \<and> (\<forall>i. 1 \<le> i \<longrightarrow> i < j \<longrightarrow> l i = g))"
| "lag_pc l g w pc = True"

definition lag_inv :: "sl_config \<Rightarrow> sl_sys \<Rightarrow> bool" where
  "lag_inv c s \<longleftrightarrow> (\<forall>w. local_epoch s w \<le> global_epoch s \<and>
       lag_pc (local_epoch s) (global_epoch s) w (sl_pcs s w)) \<and>
     (\<forall>i. 1 \<le> i \<longrightarrow> i < sl_workers c \<longrightarrow> unat (global_epoch s) \<le> unat (local_epoch s i) + 1)"

lemma lag_move:
  assumes "lag_inv c s" and "local_epoch s' = local_epoch s" and "global_epoch s' = global_epoch s"
    and "\<And>v. v \<noteq> w \<Longrightarrow> sl_pcs s' v = sl_pcs s v"
    and "lag_pc (local_epoch s) (global_epoch s) w (sl_pcs s' w)"
  shows "lag_inv c s'"
proof -
  have "lag_pc (local_epoch s) (global_epoch s) v (sl_pcs s' v)" for v
    using assms by (cases "v = w") (auto simp: lag_inv_def)
  with assms(1-3) show ?thesis by (simp add: lag_inv_def)
qed

lemma lag_loaded [simp]: "lag_pc l g w (sl_read_loaded k x cs)"
  by (simp add: sl_read_loaded_def)

lemma lag_scan:
  assumes inv: "lag_inv c s" and pc: "sl_pcs s w = SScan e i stop"
    and nf: "\<not> sl_epoch_full (sl_step c w pro now s)"
  shows "lag_inv c (sl_step c w pro now s)"
proof (cases "i < sl_workers c")
  case True
  have "lag_pc (local_epoch s) (global_epoch s) w (SScan e i stop)"
    using inv unfolding lag_inv_def pc [symmetric] by blast
  with True pc show ?thesis
    by (intro lag_move [OF inv, where w = w])
      (auto simp: sl_step_def Let_def chkEpochLoaded_def less_Suc_eq)
next
  case False
  let ?s = "sl_step c w pro now s"
  have s: "global_epoch ?s = global_epoch s + 1" "sl_pcs ?s = (sl_pcs s)(w := SBegin)"
    "local_epoch ?s = local_epoch s" "\<not> 2 ^ 32 \<le> unat (global_epoch s) + 1"
    using pc False nf by (auto simp: sl_step_def chkEpochLoaded_def)
  have g: "unat (global_epoch s + 1) = unat (global_epoch s) + 1"
    using s(4) by (simp add: unat_word_ariths)
  have old: "local_epoch s v \<le> global_epoch s" "lag_pc (local_epoch s) (global_epoch s) v (sl_pcs s v)" for v
    using inv by (auto simp: lag_inv_def)
  have "lag_pc (local_epoch s) (global_epoch s + 1) v (sl_pcs ?s v)" for v
  proof (cases "v = w")
    case False
    then have "sl_pcs ?s v = sl_pcs s v" by (simp add: s)
    then show ?thesis
      using old(2) [of v] old(2) [of w] pc g False
      by (cases "sl_pcs s v") (auto simp: word_le_nat_alt)
  qed (simp add: s)
  moreover have "local_epoch s v \<le> global_epoch s + 1" for v
    using old(1) [of v] g by (simp add: word_le_nat_alt)
  moreover have "1 \<le> v \<Longrightarrow> v < sl_workers c \<Longrightarrow> unat (global_epoch s + 1) \<le> unat (local_epoch s v) + 1" for v
    using old(2) [of w] pc False g by simp
  ultimately show ?thesis by (simp add: lag_inv_def s)
qed

lemma lag_store:
  assumes inv: "lag_inv c s" and pc: "sl_pcs s w = SEpochStore e"
  shows "lag_inv c (sl_step c w pro now s)"
proof -
  let ?s = "sl_step c w pro now s"
  have s: "global_epoch ?s = global_epoch s" "sl_pcs ?s = (sl_pcs s)(w := SVal [] (read_set (sl_txs s w)))"
    "local_epoch ?s = (local_epoch s)(w := e)"
    by (simp_all add: sl_step_def Let_def pc)
  have e: "local_epoch s w \<le> e" "e \<le> global_epoch s"
    using inv pc by (auto simp: lag_inv_def dest: spec [of _ w])
  have "lag_pc (local_epoch ?s) (global_epoch s) v (sl_pcs ?s v)" for v
  proof (cases "v = w")
    case False
    have "lag_pc (local_epoch s) (global_epoch s) v (sl_pcs s v)" using inv by (simp add: lag_inv_def)
    with False e show ?thesis by (cases "sl_pcs s v") (auto simp: s)
  qed (simp add: s)
  moreover have "unat (local_epoch s w) \<le> unat e" using e(1) by (simp add: word_le_nat_alt)
  ultimately show ?thesis using inv e(2) by (auto simp: lag_inv_def s intro: order_trans)
qed

lemma lag_step_inv:
  assumes inv: "lag_inv c s" and nf: "\<not> sl_epoch_full (sl_step c w pro now s)"
  shows "lag_inv c (sl_step c w pro now s)"
proof (cases "sl_pcs s w")
  case (SOps cs)
  then show ?thesis
    by (cases cs rule: sl_ops_cases; intro lag_move [OF inv, where w = w])
      (auto simp: sl_step_def Let_def)
next
  case (SUnlock es out)
  then show ?thesis
    by (cases es; cases out; intro lag_move [OF inv, where w = w])
      (auto simp: sl_step_def Let_def)
next
  case (SLockCas dn e rest x)
  then show ?thesis
    by (cases "sl_mode c"; intro lag_move [OF inv, where w = w])
      (auto simp: sl_step_def Let_def sl_lock_cas_def tid_cas_def)
next
  case (SScan e i stop)
  show ?thesis by (rule lag_scan [OF inv SScan nf])
next
  case (SEpochStore e)
  show ?thesis by (rule lag_store [OF inv SEpochStore])
next
  case SRetry
  then show ?thesis
    by (intro lag_move [OF inv, where w = w]) (auto simp: sl_step_def Let_def leaderWork_def)
next
  case SEpochLoad
  moreover have "local_epoch s w \<le> global_epoch s" using inv by (simp add: lag_inv_def)
  ultimately show ?thesis
    by (intro lag_move [OF inv, where w = w]) (auto simp: sl_step_def Let_def)
qed (intro lag_move [OF inv, where w = w];
  auto simp: sl_step_def Let_def sl_read_check_def sl_validate_def sl_commit_def split: list.split)+

lemma sl_init_lag: "sl_start d s \<Longrightarrow> lag_inv c s"
  by (auto simp: sl_start_def sl_init_def lag_inv_def)

end
