(* ===== verification/Silo_Theorems.thy ===== *)
theory Silo_Theorems
  imports Silo_Refinement Silo_Epoch
begin

text \<open>
  What Silo promises: it refines the abstract optimistic protocol, so what it commits is
  serializable in the order of the serialization points; the lock bits exclude; commit
  TIDs grow and carry the epoch of the serialization point; epochs lag by at most one.
  And what one of its build variants does not do: come back from a lock it once saw taken.
\<close>

lemma sl_abs_init: "sl_start d s \<Longrightarrow> occ_init d (sl_abs c s)"
  by (auto simp: sl_start_def sl_init_def occ_init_def sl_abs_def sl_tidword_init_def sl_robs_def sl_new_def)

interpretation sl_sys: invariant_system "sl_start d" "sl_next c"
  "\<lambda>s. sl_wf s \<and> (sl_wrapped s \<or> occ_inv d (sl_abs c s) \<and> reach (occ_init d) occ_step (sl_abs c s)) \<and>
     (sl_epoch_full s \<or> ep_inv s \<and> lag_inv c s)" for c d
proof unfold_locales
  fix s assume i: "sl_start d s"
  then have "occ_init d (sl_abs c s)" by (rule sl_abs_init)
  with sl_init_wf [OF i] sl_init_ep [OF i] sl_init_lag [OF i]
  show "sl_wf s \<and> (sl_wrapped s \<or> occ_inv d (sl_abs c s) \<and> reach (occ_init d) occ_step (sl_abs c s)) \<and>
     (sl_epoch_full s \<or> ep_inv s \<and> lag_inv c s)"
    by (auto intro: occ_init_inv reach_init)
next
  fix s t
  assume inv: "sl_wf s \<and> (sl_wrapped s \<or> occ_inv d (sl_abs c s) \<and> reach (occ_init d) occ_step (sl_abs c s)) \<and>
     (sl_epoch_full s \<or> ep_inv s \<and> lag_inv c s)" and "sl_next c s t"
  then obtain w pro now where t: "t = sl_step c w pro now s" by (auto simp: sl_next_def)
  have "sl_wf t" using inv sl_step_wf by (simp add: t)
  moreover have "sl_wrapped t \<or> occ_inv d (sl_abs c t) \<and> reach (occ_init d) occ_step (sl_abs c t)"
    using inv sl_step_sim [of s d c w pro now] sl_wrapped_mono [of s c w pro now] t
    by (auto intro: occ_step_inv reach_step)
  moreover have "sl_epoch_full t \<or> ep_inv t \<and> lag_inv c t"
    using inv ep_step_inv [of s c w pro now] lag_step_inv [of c s w pro now]
      sl_epoch_full_mono [of s c w pro now] t by auto
  ultimately show "sl_wf t \<and> (sl_wrapped t \<or> occ_inv d (sl_abs c t) \<and> reach (occ_init d) occ_step (sl_abs c t)) \<and>
     (sl_epoch_full t \<or> ep_inv t \<and> lag_inv c t)" by simp
qed

lemma sl_reach_occ:
  "sl_reach c d s \<Longrightarrow> \<not> sl_wrapped s \<Longrightarrow> occ_inv d (sl_abs c s) \<and> reach (occ_init d) occ_step (sl_abs c s)"
  using sl_sys.reach_inv by blast

lemma sl_reach_ep: "sl_reach c d s \<Longrightarrow> \<not> sl_epoch_full s \<Longrightarrow> ep_inv s \<and> lag_inv c s"
  using sl_sys.reach_inv by blast

lemma sl_step_frame:
  assumes "v \<noteq> w"
  shows "sl_pcs (sl_step c v pro now s) w = sl_pcs s w"
proof (cases "sl_pcs s v")
  case (SOps cs)
  with assms show ?thesis
    by (cases cs rule: sl_ops_cases) (auto simp: sl_step_def Let_def)
next
  case (SUnlock es out)
  with assms show ?thesis
    by (cases es; cases out) (auto simp: sl_step_def Let_def)
next
  case (SLockCas dn e rest x)
  with assms show ?thesis
    by (cases "sl_mode c") (auto simp: sl_step_def Let_def sl_lock_cas_def tid_cas_def)
qed (use assms in \<open>auto simp: sl_step_def Let_def leaderWork_def chkEpochLoaded_def sl_read_check_def
      sl_validate_def sl_commit_def split: list.split\<close>)

section \<open>A concrete run\<close>

text \<open>
  Both workers read record 0, worker 0 overwrites it and commits, worker 1 finds its read
  invalid, unlocks and starts over.
\<close>

definition sdemo_cfg :: "sl_mode \<Rightarrow> sl_config" where
  "sdemo_cfg m = \<lparr>sl_mode = m, sl_val_size = 1, sl_workers = 2, sl_epoch_span = 100\<rparr>"

definition sdemo_pro :: "procedure list" where
  "sdemo_pro = [Procedure READ_MODIFY_WRITE 0]"

definition sdemo_start :: sl_sys where
  "sdemo_start = sl_init (\<lambda>_. [0]) (\<lambda>w. [of_nat w + 1]) 0"

definition moves :: "nat \<Rightarrow> nat \<Rightarrow> (nat \<times> procedure list \<times> u64) list" where
  "moves w n = replicate n (w, sdemo_pro, 0)"

definition sdemo_end :: sl_sys where
  "sdemo_end = sl_run (sdemo_cfg NoWaitAbort) (moves 0 7 @ moves 1 7 @ moves 0 12 @ moves 1 10) sdemo_start"

lemma replicate_num: "replicate (numeral n) x = x # replicate (pred_numeral n) x"
  by (simp add: numeral_eq_Suc)

lemmas sdemo_eval =
  sl_step_def Let_def sl_upd_def sl_goto_def leaderWork_def chkClkSpan_def sl_read_loaded_def
  sl_read_check_def sl_lock_cas_def sl_validate_def sl_record_def sl_commit_def sl_new_def
  sl_get_tuple_def searchReadSet_def searchWriteSet_def set_tidword_def set_payload_def sl_begin_def
  sl_read_known_def sl_read_copy_def sl_read_register_def sl_write_def sl_sort_def tid_cas_def
  sl_locked_one_def sl_unlock_one_def sl_read_invalid_def sl_validated_one_def sl_commit_tid_def
  sl_new_payload_def sl_write_copy_def sl_write_store_def sl_clear_def sl_tidword_init_def
  sl_init_def sdemo_start_def sdemo_cfg_def sdemo_pro_def moves_def Procedure_def memcpy_def
  replicate_num tw_defs set_bit_eq_or unset_bit_eq_and_not

lemma sdemo_end_state:
  "com_list (sl_com sdemo_end) (sl_clock sdemo_end) =
     [\<lparr>tx_reads = [(0, [0])], tx_writes = [(0, \<lambda>v. memcpy v [1] 1)]\<rparr>]"
  "\<not> sl_wrapped sdemo_end" "\<not> sl_epoch_full sdemo_end" "sl_com sdemo_end 0 \<noteq> None"
  "sl_val (sl_table sdemo_end 0) = [1]" "tidword (sl_table sdemo_end 0) = 4294967306"
  by (simp_all add: sdemo_end_def sdemo_eval com_list_def map_filter_def fun_eq_iff)

lemma sdemo_end_reach: "sl_reach (sdemo_cfg NoWaitAbort) (\<lambda>_. [0]) sdemo_end"
  unfolding sdemo_end_def
  by (rule sl_run_reach [OF reach_init]) (auto simp: moves_def sdemo_cfg_def sl_start_def sdemo_start_def)

section \<open>Safety\<close>

text \<open>
  C7. Silo refines the abstract optimistic protocol: whatever the interleaving, and in each
  of the three build variants, the abstraction of a reachable state is reachable in the
  protocol of \<open>Occ_Spec\<close>, as long as no 29-bit tid has overflowed.
\<close>

theorem silo_refines_occ:
  assumes "sl_reach c d s" and "\<not> sl_wrapped s"
  shows "reach (occ_init d) occ_step (sl_abs c s)"
  using sl_reach_occ [OF assms] by simp

theorem silo_refines_occ_witness:
  "reach (occ_init (\<lambda>_. [0])) occ_step (sl_abs (sdemo_cfg NoWaitAbort) sdemo_end)"
  by (rule silo_refines_occ [OF sdemo_end_reach sdemo_end_state(2)])



text \<open>
  The lock bit of a record is set exactly when some worker holds its lock, and at most
  one does; when nobody is about to write the record, its payload is the one the committed
  transactions leave in it.
\<close>

theorem silo_locks:
  assumes "sl_reach c d s" and "\<not> sl_wrapped s"
  shows "(tw_lock (tidword (sl_table s k)) \<longleftrightarrow> (\<exists>w. k \<in> sl_locked (sl_txs s w) (sl_pcs s w))) \<and>
    (\<forall>w v. k \<in> sl_locked (sl_txs s w) (sl_pcs s w) \<longrightarrow>
       k \<in> sl_locked (sl_txs s v) (sl_pcs s v) \<longrightarrow> v = w) \<and>
    (\<not> tw_lock (tidword (sl_table s k)) \<longrightarrow>
       sl_val (sl_table s k) = db_before d (sl_com s) (sl_clock s) k)"
proof -
  have inv: "occ_inv d (sl_abs c s)" using sl_reach_occ [OF assms] by simp
  have "k \<notin> fst ` set (o_pend (sl_abs c s) w)" if "\<not> tw_lock (tidword (sl_table s k))" for w
    using inv_todo [OF inv, of k w] inv_bit [OF inv, of k] that by (auto simp: todo_def)
  then have "\<not> tw_lock (tidword (sl_table s k)) \<Longrightarrow>
      sl_val (sl_table s k) = db_before d (sl_com s) (sl_clock s) k"
    using inv_settled [OF inv, of k] by simp
  moreover have "v = w" if "k \<in> sl_locked (sl_txs s w) (sl_pcs s w)"
      "k \<in> sl_locked (sl_txs s v) (sl_pcs s v)" for v w
    using inv_excl [OF inv, of k v w] that by simp
  ultimately show ?thesis using inv_bit [OF inv, of k] by simp
qed

theorem silo_locks_witness:
  "sl_val (sl_table sdemo_end 0) = db_before (\<lambda>_. [0]) (sl_com sdemo_end) (sl_clock sdemo_end) 0"
  using silo_locks [OF sdemo_end_reach sdemo_end_state(2), of 0] sdemo_end_state(6)
  by (simp add: tw_lock_def)

section \<open>Commit TIDs and epochs\<close>

text \<open>
  C9. The commit TID, away from overflow: its version is later than that of every record
  the transaction locked or validated, later than the worker's previous commit TID, not
  before the worker's epoch, and the word to be stored has the lock bit clear and the
  \<open>latest\<close> bit set.
\<close>

theorem silo_commit_tid:
  assumes "unat (tw_tid (max (max_wset t) (max_rset t))) \<noteq> 2 ^ 29 - 1"
    and "unat (tw_tid (mrctid t)) \<noteq> 2 ^ 29 - 1"
  shows "tw_ver (max_wset t) < tw_ver (sl_commit_tid e t) \<and>
    tw_ver (max_rset t) < tw_ver (sl_commit_tid e t) \<and> tw_ver (mrctid t) < tw_ver (sl_commit_tid e t) \<and>
    take_bit 32 e \<le> tw_epoch (sl_commit_tid e t) \<and>
    \<not> tw_lock (sl_commit_tid e t) \<and> tw_latest (sl_commit_tid e t)"
proof -
  let ?m = "sl_commit_tid e t"
  have low: "sl_low t < tw_ver ?m" by (rule sl_commit_tid_fresh [OF assms(1)])
  have "tw_ver (max_wset t) \<le> sl_low t" "tw_ver (max_rset t) \<le> sl_low t"
    by (simp_all add: sl_low_def tw_ver_mono)
  moreover have "tw_ver (mrctid t) < tw_ver ?m"
  proof -
    have "tw_ver (mrctid t) < tw_ver (tw_inc_tid (mrctid t))" by (rule tw_ver_less_inc [OF assms(2)])
    also have "\<dots> \<le> tw_ver ?m"
      by (simp add: sl_commit_tid_def Let_def) (intro tw_ver_mono, simp add: le_max_iff_disj)
    finally show ?thesis .
  qed
  moreover have "take_bit 32 e \<le> tw_epoch ?m"
  proof -
    have "tw_epoch (tw_set_epoch e 0) \<le> tw_epoch ?m"
      unfolding sl_commit_tid_def Let_def tw_epoch_set_latest tw_epoch_set_lock
      by (intro tw_epoch_mono) (simp add: le_max_iff_disj)
    then show ?thesis by simp
  qed
  moreover have "tw_latest ?m" by (simp add: sl_commit_tid_def Let_def tw_latest_def tw_set_latest_def bit_simps)
  ultimately show ?thesis using low sl_commit_tid_unlocked by (auto intro: le_less_trans)
qed

theorem silo_commit_tid_witness:
  "tw_ver 4294967298 < tw_ver (sl_commit_tid 1 (sl_new 0 []\<lparr>max_wset := 4294967298\<rparr>))"
  using silo_commit_tid [of "sl_new 0 []\<lparr>max_wset := 4294967298\<rparr>" 1]
  by (simp add: sl_new_def unat_tw_tid)

text \<open>
  C10. Overflow of the 29-bit tid: when the latest version among the records locked or
  validated has the largest tid of its epoch, and neither the worker's own last TID nor
  its epoch is ahead, the increment wraps inside the field, and the commit TID is
  \<^emph>\<open>older\<close> than the version it replaces.
\<close>

theorem silo_tid_overflow:
  assumes "unat (tw_tid (max_wset t)) = 2 ^ 29 - 1" and "max_rset t \<le> max_wset t"
    and "tw_ver (tw_inc_tid (mrctid t)) < tw_ver (max_wset t)"
    and "take_bit 32 e \<le> tw_epoch (max_wset t)"
  shows "tw_ver (sl_commit_tid e t) < tw_ver (max_wset t)"
proof -
  have m: "max (max_wset t) (max_rset t) = max_wset t" using assms(2) by (simp add: max_def)
  have a: "tw_ver (tw_inc_tid (max_wset t)) < tw_ver (max_wset t)" by (rule tw_ver_wrap [OF assms(1)])
  have "unat (take_bit 32 e) \<le> unat (tw_epoch (max_wset t))" using assms(4) by (simp add: word_le_nat_alt)
  then have c: "tw_ver (tw_set_epoch e 0) < tw_ver (max_wset t)"
    by (simp add: word_less_nat_alt unat_ver_epoch_tid assms(1))
  have "tw_ver (sl_commit_tid e t) =
      tw_ver (max (tw_inc_tid (max_wset t)) (max (tw_inc_tid (mrctid t)) (tw_set_epoch e 0)))"
    by (simp add: sl_commit_tid_def Let_def m)
  with a assms(3) c show ?thesis by (simp add: max_def)
qed

theorem silo_tid_overflow_witness:
  "tw_ver (sl_commit_tid 1 (sl_new 0 []\<lparr>max_wset := 8589934586\<rparr>)) <
   tw_ver (max_wset (sl_new 0 []\<lparr>max_wset := 8589934586\<rparr>))"
proof (rule silo_tid_overflow)
  show "unat (tw_tid (max_wset (sl_new 0 []\<lparr>max_wset := 8589934586\<rparr>))) = 2 ^ 29 - 1"
    by (simp add: sl_new_def unat_tw_tid)
  show "tw_ver (tw_inc_tid (mrctid (sl_new 0 []\<lparr>max_wset := 8589934586\<rparr>))) <
      tw_ver (max_wset (sl_new 0 []\<lparr>max_wset := 8589934586\<rparr>))"
    by (simp add: sl_new_def tw_defs)
qed (simp_all add: sl_new_def tw_defs)

text \<open>
  Epochs agree with the serial order: the epoch of a commit TID is the global epoch
  loaded at the serialization point, so along the serial order the epochs never decrease
  (while the global epoch fits the 32-bit field).
\<close>

theorem silo_epoch_order:
  assumes "sl_reach c d s" and "\<not> sl_epoch_full s" and "sl_com s p \<noteq> None" and "sl_com s q \<noteq> None" and "p \<le> q"
  shows "tw_epoch (sl_tids s p) = sl_epoch_at s p \<and> tw_epoch (sl_tids s p) \<le> tw_epoch (sl_tids s q) \<and>
    tw_epoch (sl_tids s q) \<le> global_epoch s"
proof -
  have h: "ep_history s" using sl_reach_ep [OF assms(1,2)] ep_invD(4) by blast
  with assms(3,4) have "q < sl_clock s" "tw_epoch (sl_tids s p) = sl_epoch_at s p"
    "tw_epoch (sl_tids s q) = sl_epoch_at s q" by (auto simp: ep_history_def)
  with h assms(5) show ?thesis by (simp add: ep_history_def)
qed

theorem silo_epoch_order_witness: "tw_epoch (sl_tids sdemo_end 0) \<le> global_epoch sdemo_end"
  using silo_epoch_order [OF sdemo_end_reach sdemo_end_state(3,4,4) order_refl] by blast



section \<open>The variant that waits\<close>

text \<open>
  With neither \<^verbatim>\<open>NO_WAIT_LOCKING_IN_VALIDATION\<close> nor \<^verbatim>\<open>NO_WAIT_OF_TICTOC\<close>, a worker that
  finds a lock taken in \<^verbatim>\<open>lockWriteSet\<close> never loads the TID word again: it spins for ever,
  whatever all the workers do from then on, also after the lock has been released.
\<close>

theorem silo_spins_forever:
  assumes "sl_mode c = SpinOnLock" and "sl_pcs s w = SLockCas held e rest x" and "tw_lock x"
  shows "sl_pcs (sl_run c sched s) w = SLockCas held e rest x"
  using assms(2)
proof (induction sched arbitrary: s)
  case Nil
  then show ?case by simp
next
  case (Cons a sched)
  obtain v pro now where a: "a = (v, pro, now)" by (metis prod_cases3)
  have "sl_pcs (sl_step c v pro now s) w = SLockCas held e rest x"
  proof (cases "v = w")
    case True
    with Cons.prems assms show ?thesis by (simp add: sl_step_def sl_lock_cas_def)
  next
    case False
    then show ?thesis using Cons.prems sl_step_frame [of v w c pro now s] by simp
  qed
  from Cons.IH [OF this] a show ?case by simp
qed

definition sdemo_spin :: sl_sys where
  "sdemo_spin = sl_run (sdemo_cfg SpinOnLock) (moves 1 7 @ moves 0 11 @ moves 1 3) sdemo_start"

theorem silo_spins_forever_witness:
  "sl_pcs (sl_run (sdemo_cfg SpinOnLock) (moves 0 10 @ moves 1 10) sdemo_spin) 1 =
   SLockCas [] \<lparr>we_key = 0, we_rcdptr = 0, we_buf = []\<rparr> [] 4294967299"
  by (rule silo_spins_forever)
    (simp_all add: sdemo_spin_def sdemo_eval)

end
