(* ===== verification/Tictoc_Word.thy ===== *)
theory Tictoc_Word
  imports Prelude
begin

text \<open>
  \<^verbatim>\<open>TsWord\<close> of \<^verbatim>\<open>tictoc/include/tuple.hh\<close>: a 64-bit word whose fields are, from the low
  end, \<^verbatim>\<open>lock\<close>, a 15-bit \<^verbatim>\<open>delta\<close> and a 48-bit \<^verbatim>\<open>wts\<close>; the read timestamp is \<^verbatim>\<open>wts + delta\<close>.
\<close>

section \<open>Fields\<close>

definition tsw_lock :: "u64 \<Rightarrow> bool" where "tsw_lock x = bit x 0"

definition tsw_delta :: "u64 \<Rightarrow> u64" where "tsw_delta x = take_bit 15 (drop_bit 1 x)"

definition tsw_wts :: "u64 \<Rightarrow> u64" where "tsw_wts x = drop_bit 16 x"

definition tsw_rts :: "u64 \<Rightarrow> u64" where "tsw_rts x = tsw_wts x + tsw_delta x"

definition tsw_set_lock :: "bool \<Rightarrow> u64 \<Rightarrow> u64" where
  "tsw_set_lock b x = (if b then set_bit 0 x else unset_bit 0 x)"

definition tsw_set_delta :: "u64 \<Rightarrow> u64 \<Rightarrow> u64" where
  "tsw_set_delta d x = push_bit 16 (drop_bit 16 x) OR push_bit 1 (take_bit 15 d) OR take_bit 1 x"

definition tsw_set_wts :: "u64 \<Rightarrow> u64 \<Rightarrow> u64" where
  "tsw_set_wts t x = push_bit 16 (take_bit 48 t) OR take_bit 16 x"

lemmas tsw_defs = tsw_lock_def tsw_delta_def tsw_wts_def tsw_rts_def tsw_set_lock_def
  tsw_set_delta_def tsw_set_wts_def

section \<open>Laws of the fields\<close>

lemma tsw_lock_set [simp]:
  "tsw_lock (tsw_set_lock b x) = b" "tsw_lock (tsw_set_delta d x) = tsw_lock x"
  "tsw_lock (tsw_set_wts t x) = tsw_lock x"
  by (simp_all add: tsw_defs bit_0 even_set_bit_iff even_unset_bit_iff even_or_iff
      even_push_bit_iff even_take_bit_eq del: push_bit_Suc)

lemma tsw_delta_set_lock [simp]: "tsw_delta (tsw_set_lock b x) = tsw_delta x"
  by (rule bit_eqI) (auto simp: tsw_defs bit_simps simp del: push_bit_Suc)

lemma tsw_wts_set_lock [simp]: "tsw_wts (tsw_set_lock b x) = tsw_wts x"
  by (rule bit_eqI) (auto simp: tsw_defs bit_simps simp del: push_bit_Suc)

lemma tsw_rts_set_lock [simp]: "tsw_rts (tsw_set_lock b x) = tsw_rts x"
  by (simp add: tsw_rts_def)

lemma tsw_delta_set_delta [simp]: "tsw_delta (tsw_set_delta d x) = take_bit 15 d"
  by (rule bit_eqI) (auto simp: tsw_defs bit_simps simp del: push_bit_Suc)

lemma tsw_wts_set_delta [simp]: "tsw_wts (tsw_set_delta d x) = tsw_wts x"
  by (rule bit_eqI) (auto simp: tsw_defs bit_simps simp del: push_bit_Suc dest: bit_imp_le_length)

lemma tsw_delta_set_wts [simp]: "tsw_delta (tsw_set_wts t x) = tsw_delta x"
  by (rule bit_eqI) (auto simp: tsw_defs bit_simps simp del: push_bit_Suc)

lemma tsw_wts_set_wts [simp]: "tsw_wts (tsw_set_wts t x) = take_bit 48 t"
  by (rule bit_eqI) (auto simp: tsw_defs bit_simps simp del: push_bit_Suc)

lemma unat_tsw_wts: "unat (tsw_wts x) = unat x div 2 ^ 16"
  by (simp add: tsw_wts_def drop_bit_eq_div unat_div)

lemma unat_tsw_wts_less: "unat (tsw_wts x) < 2 ^ 48"
  using unat_u64_less [of x] by (simp add: unat_tsw_wts less_mult_imp_div_less)

lemma unat_tsw_delta: "unat (tsw_delta x) = unat x div 2 mod 2 ^ 15"
  by (simp add: tsw_delta_def take_bit_eq_mod drop_bit_eq_div unat_div unat_mod)

lemma unat_tsw_delta_less: "unat (tsw_delta x) < 2 ^ 15"
  by (simp add: unat_tsw_delta)

text \<open>The sum that \<^verbatim>\<open>rts()\<close> computes never wraps, nor does its successor.\<close>

lemma unat_tsw_rts: "unat (tsw_rts x) = unat (tsw_wts x) + unat (tsw_delta x)"
  using unat_tsw_wts_less [of x] unat_tsw_delta_less [of x]
  by (simp add: tsw_rts_def unat_word_ariths)

lemma unat_tsw_rts_less: "unat (tsw_rts x) < 2 ^ 49"
  using unat_tsw_wts_less [of x] unat_tsw_delta_less [of x] by (simp add: unat_tsw_rts)

lemma unat_tsw_rts_Suc: "unat (tsw_rts x + 1) = unat (tsw_rts x) + 1"
  using unat_tsw_rts_less [of x] by (simp add: unat_word_ariths)

section \<open>Extension of the read timestamp\<close>

text \<open>
  The new word of \<^verbatim>\<open>validationPhase\<close> for a commit timestamp \<open>cts\<close> above the read timestamp.
  The difference that does not fit the 15 bits of \<^verbatim>\<open>delta\<close> moves the write timestamp.
\<close>

definition tsw_extend :: "u64 \<Rightarrow> u64 \<Rightarrow> u64" where
  "tsw_extend cts v1 =
     (let delta = cts - tsw_wts v1;
          shift = delta - (delta AND 0x7fff);
          v2 = tsw_set_wts (tsw_wts v1 + shift) v1
      in tsw_set_delta (delta - shift) v2)"

lemma and_7fff: "x AND 0x7fff = take_bit 15 (x :: u64)"
  by (simp add: take_bit_eq_mask mask_eq_exp_minus_1)

lemma tsw_extend_fields:
  assumes "tsw_rts v1 < cts" and "unat cts < 2 ^ 48"
  shows "unat (tsw_rts (tsw_extend cts v1)) = unat cts"
    and "tsw_wts v1 \<le> tsw_wts (tsw_extend cts v1)"
    and "tsw_lock (tsw_extend cts v1) = tsw_lock v1"
proof -
  let ?d = "unat cts - unat (tsw_wts v1)"
  have le: "unat (tsw_wts v1) \<le> unat cts" using assms(1) by (simp add: word_less_nat_alt unat_tsw_rts)
  then have d: "unat (cts - tsw_wts v1) = ?d" by (simp add: unat_sub word_le_nat_alt)
  have m: "unat (take_bit 15 (cts - tsw_wts v1)) = ?d mod 2 ^ 15"
    by (simp add: take_bit_eq_mod unat_mod d)
  have sh: "unat (cts - tsw_wts v1 - take_bit 15 (cts - tsw_wts v1)) = ?d - ?d mod 2 ^ 15"
    by (subst unat_sub) (simp_all add: word_le_nat_alt d m)
  have rest: "cts - tsw_wts v1 - (cts - tsw_wts v1 - take_bit 15 (cts - tsw_wts v1)) =
      take_bit 15 (cts - tsw_wts v1)" by simp
  have "unat (tsw_wts v1 + (cts - tsw_wts v1 - take_bit 15 (cts - tsw_wts v1))) =
      unat (tsw_wts v1) + (?d - ?d mod 2 ^ 15)"
    using assms(2) le by (subst unat_add_lem [THEN iffD1]) (simp_all add: sh)
  moreover from this have "\<dots> < 2 ^ 48" using assms(2) le by simp
  ultimately have w: "unat (tsw_wts (tsw_extend cts v1)) = unat (tsw_wts v1) + (?d - ?d mod 2 ^ 15)"
    by (simp add: tsw_extend_def Let_def and_7fff take_bit_eq_mod unat_mod)
  have de: "unat (tsw_delta (tsw_extend cts v1)) = ?d mod 2 ^ 15"
    by (simp add: tsw_extend_def Let_def and_7fff m)
  show "unat (tsw_rts (tsw_extend cts v1)) = unat cts"
    using le by (simp add: unat_tsw_rts w de)
  show "tsw_wts v1 \<le> tsw_wts (tsw_extend cts v1)" by (simp add: word_le_nat_alt w)
  show "tsw_lock (tsw_extend cts v1) = tsw_lock v1" by (simp add: tsw_extend_def Let_def)
qed

text \<open>The word \<^verbatim>\<open>writePhase\<close> stores: all three fields are assigned.\<close>

definition tsw_result :: "u64 \<Rightarrow> u64 \<Rightarrow> u64" where
  "tsw_result cts result = tsw_set_lock False (tsw_set_delta 0 (tsw_set_wts cts result))"

lemma tsw_result_fields:
  assumes "unat cts < 2 ^ 48"
  shows "tsw_wts (tsw_result cts x) = cts" and "tsw_rts (tsw_result cts x) = cts"
    and "\<not> tsw_lock (tsw_result cts x)"
proof -
  have "take_bit 48 cts = cts" using assms by (simp add: word_unat_eq_iff take_bit_eq_mod unat_mod)
  then show "tsw_wts (tsw_result cts x) = cts" by (simp add: tsw_result_def)
  then show "tsw_rts (tsw_result cts x) = cts" by (simp add: tsw_rts_def) (simp add: tsw_result_def)
  show "\<not> tsw_lock (tsw_result cts x)" by (simp add: tsw_result_def)
qed

end
