(* ===== verification/Tictoc_Model.thy ===== *)
theory Tictoc_Model
  imports Procedures Tictoc_Word Serial_Spec
begin

text \<open>
  The executor of TicToc, \<^verbatim>\<open>TxExecutor\<close> of \<^verbatim>\<open>tictoc/transaction.cc\<close>: its state, the
  operations that touch only that state, and the single shared accesses, which
  \<^verbatim>\<open>Tictoc_System\<close> puts in the order of the code. A pointer to a tuple is its index in
  \<^verbatim>\<open>Table\<close>; the payload is copied in one step, as for Silo.
\<close>

section \<open>State\<close>

record tc_tuple =
  tsw :: u64
  pre_tsw :: u64
  tc_val :: val

type_synonym tc_table = "key \<Rightarrow> tc_tuple"

record tc_elem =
  te_key :: key
  te_rcdptr :: key
  te_val :: val
  te_tsw :: u64

datatype tc_status = TInFlight | TCommitted | TAborted

record tc_tx =
  tc_thid :: nat
  commit_ts :: u64
  appro_commit_ts :: u64
  wonly :: bool
  tc_pro_set :: "procedure list"
  tc_status :: tc_status
  tc_read_set :: "tc_elem list"
  tc_write_set :: "tc_elem list"
  tc_write_val :: val
  tc_return_val :: val

text \<open>The constructor leaves the two timestamps and the status to \<^verbatim>\<open>begin\<close>.\<close>

definition tc_new :: "nat \<Rightarrow> val \<Rightarrow> tc_tx" where
  "tc_new thid wval =
     \<lparr>tc_thid = thid, commit_ts = 0, appro_commit_ts = 0, wonly = False, tc_pro_set = [],
      tc_status = TInFlight, tc_read_set = [], tc_write_set = [], tc_write_val = wval,
      tc_return_val = []\<rparr>"

definition tc_get_tuple :: "key \<Rightarrow> key" where
  "tc_get_tuple key = key"

definition tc_searchReadSet :: "key \<Rightarrow> tc_tx \<Rightarrow> tc_elem option" where
  "tc_searchReadSet k t = search_set te_key k (tc_read_set t)"

definition tc_searchWriteSet :: "key \<Rightarrow> tc_tx \<Rightarrow> tc_elem option" where
  "tc_searchWriteSet k t = search_set te_key k (tc_write_set t)"

definition set_tsw :: "key \<Rightarrow> u64 \<Rightarrow> tc_table \<Rightarrow> tc_table" where
  "set_tsw p x tb = tb(p := (tb p)\<lparr>tsw := x\<rparr>)"

definition set_pre_tsw :: "key \<Rightarrow> u64 \<Rightarrow> tc_table \<Rightarrow> tc_table" where
  "set_pre_tsw p x tb = tb(p := (tb p)\<lparr>pre_tsw := x\<rparr>)"

definition set_tc_val :: "key \<Rightarrow> val \<Rightarrow> tc_table \<Rightarrow> tc_table" where
  "set_tc_val p v tb = tb(p := (tb p)\<lparr>tc_val := v\<rparr>)"

text \<open>\<^verbatim>\<open>__atomic_compare_exchange_n\<close> on a timestamp word.\<close>

definition tsw_cas :: "key \<Rightarrow> u64 \<Rightarrow> u64 \<Rightarrow> tc_table \<Rightarrow> bool \<times> tc_table" where
  "tsw_cas p expected desired tb =
     (if tsw (tb p) = expected then (True, set_tsw p desired tb) else (False, tb))"

section \<open>Read phase\<close>

definition tc_begin :: "tc_tx \<Rightarrow> tc_tx" where
  "tc_begin t = t\<lparr>tc_status := TInFlight, commit_ts := 0, appro_commit_ts := 0\<rparr>"

definition preemptiveAborts :: "u64 \<Rightarrow> tc_tx \<Rightarrow> bool \<times> tc_tx" where
  "preemptiveAborts v1 t =
     (if tsw_rts v1 < appro_commit_ts t then (True, t\<lparr>tc_status := TAborted\<rparr>) else (False, t))"

definition tc_read_known :: "key \<Rightarrow> tc_tx \<Rightarrow> bool" where
  "tc_read_known k t \<longleftrightarrow> tc_searchReadSet k t \<noteq> None \<or> tc_searchWriteSet k t \<noteq> None"

definition tc_read_copy :: "key \<Rightarrow> tc_table \<Rightarrow> tc_tx \<Rightarrow> tc_tx" where
  "tc_read_copy k tb t = t\<lparr>tc_return_val := tc_val (tb (tc_get_tuple k))\<rparr>"

definition tc_read_register :: "key \<Rightarrow> u64 \<Rightarrow> tc_tx \<Rightarrow> tc_tx" where
  "tc_read_register k v1 t =
     t\<lparr>appro_commit_ts := max (appro_commit_ts t) (tsw_wts v1),
       tc_read_set := tc_read_set t @ [\<lparr>te_key = k, te_rcdptr = tc_get_tuple k,
         te_val = tc_return_val t, te_tsw = v1\<rparr>]\<rparr>"

text \<open>\<^verbatim>\<open>write\<close>: the tuple it addresses, and what it does with the timestamp word it loads there.\<close>

definition tc_write_ptr :: "key \<Rightarrow> tc_tx \<Rightarrow> key" where
  "tc_write_ptr k t = (case tc_searchReadSet k t of Some re \<Rightarrow> te_rcdptr re | None \<Rightarrow> tc_get_tuple k)"

definition tc_write_register :: "key \<Rightarrow> u64 \<Rightarrow> tc_tx \<Rightarrow> tc_tx" where
  "tc_write_register k x t =
     t\<lparr>appro_commit_ts := max (appro_commit_ts t) (tsw_rts x + 1),
       tc_write_set := tc_write_set t @ [\<lparr>te_key = k, te_rcdptr = tc_write_ptr k t,
         te_val = [], te_tsw = x\<rparr>]\<rparr>"

section \<open>Validation and write phase\<close>

text \<open>\<^verbatim>\<open>sort(write_set_.begin(), write_set_.end())\<close> by \<^verbatim>\<open>SetElement::operator<\<close>.\<close>

definition tc_sort :: "tc_tx \<Rightarrow> tc_tx" where
  "tc_sort t = t\<lparr>tc_write_set := sort_key te_key (tc_write_set t)\<rparr>"

definition tc_locked_one :: "u64 \<Rightarrow> tc_tx \<Rightarrow> tc_tx" where
  "tc_locked_one desired t = t\<lparr>commit_ts := max (commit_ts t) (tsw_rts desired + 1)\<rparr>"

text \<open>One iteration of \<^verbatim>\<open>unlockWriteSet\<close>: load, clear the lock bit, store.\<close>

definition tc_unlock_one :: "tc_elem \<Rightarrow> tc_table \<Rightarrow> tc_table" where
  "tc_unlock_one e tb =
     (let expected = tsw (tb (te_rcdptr e)); desired = tsw_set_lock False expected
      in set_tsw (te_rcdptr e) desired tb)"

text \<open>Step 2 of \<^verbatim>\<open>validationPhase\<close>: the commit timestamp over the read set.\<close>

definition tc_commit_ts :: "tc_tx \<Rightarrow> tc_tx" where
  "tc_commit_ts t = t\<lparr>commit_ts := fold (\<lambda>r c. max c (tsw_wts (te_tsw r))) (tc_read_set t) (commit_ts t)\<rparr>"

text \<open>What step 3 does with a read element when it has loaded \<open>v1\<close>.\<close>

datatype tc_verdict = VValid | VFail | VHistory | VExtend

definition tc_validate_one :: "bool \<Rightarrow> tc_tx \<Rightarrow> tc_elem \<Rightarrow> u64 \<Rightarrow> tc_verdict" where
  "tc_validate_one history t r v1 =
     (if tsw_wts (te_tsw r) \<noteq> tsw_wts v1 then (if history then VHistory else VFail)
      else
        (let inW = tc_searchWriteSet (te_key r) t in
         if tsw_rts v1 < commit_ts t \<and> tsw_lock v1 \<and> inW = None then VFail
         else if inW \<noteq> None then VValid
         else if tsw_rts v1 < commit_ts t then VExtend
         else VValid))"

text \<open>The history test: the previous version's \<^verbatim>\<open>wts\<close> against the commit timestamp.\<close>

definition tc_history_ok :: "tc_tx \<Rightarrow> u64 \<Rightarrow> u64 \<Rightarrow> bool" where
  "tc_history_ok t pre_v1 v1 \<longleftrightarrow> tsw_wts pre_v1 \<le> commit_ts t \<and> commit_ts t < tsw_wts v1"

text \<open>Pre-verify of \<^verbatim>\<open>lockWriteSet\<close>, for a read element and the word \<open>v1\<close> loaded.\<close>

definition tc_preverify_one :: "bool \<Rightarrow> tc_tx \<Rightarrow> tc_elem \<Rightarrow> u64 \<Rightarrow> tc_verdict" where
  "tc_preverify_one history t r v1 =
     (if tsw_rts (te_tsw r) < commit_ts t then
        (if tsw_wts (te_tsw r) \<noteq> tsw_wts v1 then (if history then VHistory else VFail)
         else if tsw_rts v1 < commit_ts t \<and> tsw_lock v1 then VFail
         else VValid)
      else VValid)"

definition tc_new_payload :: "nat \<Rightarrow> tc_tx \<Rightarrow> val \<Rightarrow> val" where
  "tc_new_payload val_size t v = memcpy v (tc_write_val t) val_size"

definition tc_write_copy :: "nat \<Rightarrow> tc_tx \<Rightarrow> tc_elem \<Rightarrow> tc_table \<Rightarrow> tc_table" where
  "tc_write_copy val_size t e tb =
     set_tc_val (te_rcdptr e) (tc_new_payload val_size t (tc_val (tb (te_rcdptr e)))) tb"

definition tc_write_pre :: "tc_elem \<Rightarrow> tc_table \<Rightarrow> tc_table" where
  "tc_write_pre e tb = set_pre_tsw (te_rcdptr e) (te_tsw e) tb"

definition tc_write_store :: "tc_tx \<Rightarrow> tc_elem \<Rightarrow> tc_table \<Rightarrow> tc_table" where
  "tc_write_store t e tb = set_tsw (te_rcdptr e) (tsw_result (commit_ts t) 0) tb"

text \<open>The end of \<^verbatim>\<open>writePhase\<close>, and \<^verbatim>\<open>abort\<close>.\<close>

definition tc_clear :: "tc_tx \<Rightarrow> tc_tx" where
  "tc_clear t = t\<lparr>tc_read_set := [], tc_write_set := []\<rparr>"

end
