(* ===== verification/Serial_Order.thy ===== *)
theory Serial_Order
  imports Serial_Spec "HOL-Library.Product_Lexorder"
begin

text \<open>
  Serial histories whose order is not the order of the commits: each committed transaction
  has a position in some linear order, its commit timestamp and its rank among the commits,
  for instance. \<open>ser d c p\<close> is the database that the committed transactions at positions
  before \<open>p\<close> leave.
\<close>

type_synonym 'i history = "('i \<times> txrec) list"

definition writes_key :: "key \<Rightarrow> 'i \<times> txrec \<Rightarrow> bool" where
  "writes_key k x \<longleftrightarrow> k \<in> fst ` set (tx_writes (snd x))"

definition in_order :: "('i :: linorder) history \<Rightarrow> 'i history" where
  "in_order c = sort_key fst c"

definition ser :: "db \<Rightarrow> ('i :: linorder) history \<Rightarrow> 'i \<Rightarrow> db" where
  "ser d c p = serial_db d (map snd (in_order (filter (\<lambda>x. fst x < p) c)))"

definition ser_all :: "db \<Rightarrow> ('i :: linorder) history \<Rightarrow> db" where
  "ser_all d c = serial_db d (map snd (in_order c))"

lemma fold_apply_write_at: "d k = d' k \<Longrightarrow> fold apply_write ws d k = fold apply_write ws d' k"
proof (induction ws arbitrary: d d')
  case Nil
  then show ?case by simp
next
  case (Cons w ws)
  have "apply_write w d k = apply_write w d' k"
    using Cons.prems by (cases "k = fst w") (auto simp: apply_write_def)
  then show ?case using Cons.IH [of "apply_write w d" "apply_write w d'"] by simp
qed

lemma apply_tx_at: "d k = d' k \<Longrightarrow> apply_tx t d k = apply_tx t d' k"
  unfolding apply_tx_def by (rule fold_apply_write_at)

lemma serial_db_at: "d k = d' k \<Longrightarrow> serial_db d ts k = serial_db d' ts k"
proof (induction ts arbitrary: d d')
  case Nil
  then show ?case by simp
next
  case (Cons t ts)
  show ?case using Cons.IH [of "apply_tx t d" "apply_tx t d'"] apply_tx_at [of d k d' t] Cons.prems by simp
qed

text \<open>Only the writers of a record matter for its value.\<close>

lemma serial_db_writers:
  "serial_db d (map snd xs) k = serial_db d (map snd (filter (writes_key k) xs)) k"
proof (induction xs arbitrary: d)
  case Nil
  then show ?case by simp
next
  case (Cons x xs)
  show ?case
  proof (cases "writes_key k x")
    case True
    then show ?thesis using Cons.IH [of "apply_tx (snd x) d"] by simp
  next
    case False
    then have "apply_tx (snd x) d k = d k" by (simp add: writes_key_def apply_tx_other)
    then have "serial_db (apply_tx (snd x) d) (map snd xs) k = serial_db d (map snd xs) k"
      by (rule serial_db_at)
    with False Cons.IH [of d] show ?thesis by simp
  qed
qed

lemma ser_writers:
  "ser d c p k = serial_db d (map snd (in_order (filter (writes_key k) (filter (\<lambda>x. fst x < p) c)))) k"
  unfolding ser_def in_order_def
  by (subst serial_db_writers) (simp add: filter_sort)

lemma ser_all_writers:
  "ser_all d c k = serial_db d (map snd (in_order (filter (writes_key k) c))) k"
  unfolding ser_all_def in_order_def
  by (subst serial_db_writers) (simp add: filter_sort)

lemma ser_cong:
  "filter (writes_key k) (filter (\<lambda>x. fst x < p) c) = filter (writes_key k) (filter (\<lambda>x. fst x < q) c') \<Longrightarrow>
   ser d c p k = ser d c' q k"
  by (simp add: ser_writers)

text \<open>No writer of the record between two positions: the same value at both.\<close>

lemma ser_stable:
  assumes "p \<le> q" "\<And>x. x \<in> set c \<Longrightarrow> p \<le> fst x \<Longrightarrow> fst x < q \<Longrightarrow> \<not> writes_key k x"
  shows "ser d c q k = ser d c p k"
proof (rule ser_cong)
  have "filter (writes_key k) (filter (\<lambda>x. fst x < q) c) = filter (\<lambda>x. writes_key k x \<and> fst x < q) c"
    by (simp add: filter_filter conj_commute)
  also have "\<dots> = filter (\<lambda>x. writes_key k x \<and> fst x < p) c"
  proof (rule filter_cong [OF refl])
    show "(writes_key k x \<and> fst x < q) = (writes_key k x \<and> fst x < p)" if "x \<in> set c" for x
      using assms(1) assms(2) [OF that] by (cases "p \<le> fst x") auto
  qed
  also have "\<dots> = filter (writes_key k) (filter (\<lambda>x. fst x < p) c)"
    by (simp add: filter_filter conj_commute)
  finally show "filter (writes_key k) (filter (\<lambda>x. fst x < q) c) =
      filter (writes_key k) (filter (\<lambda>x. fst x < p) c)" .
qed

lemma ser_all_stable:
  assumes "\<And>x. x \<in> set c \<Longrightarrow> p \<le> fst x \<Longrightarrow> \<not> writes_key k x"
  shows "ser_all d c k = ser d c p k"
proof -
  have "filter (writes_key k) c = filter (writes_key k) (filter (\<lambda>x. fst x < p) c)"
    unfolding filter_filter
  proof (rule filter_cong [OF refl])
    show "writes_key k x = (fst x < p \<and> writes_key k x)" if "x \<in> set c" for x
      using assms [OF that] by (cases "p \<le> fst x") auto
  qed
  then show ?thesis unfolding ser_all_writers ser_writers by metis
qed

text \<open>A new commit at position \<open>q\<close>.\<close>

lemma ser_add_later: "\<not> q < p \<Longrightarrow> ser d (c @ [(q, t)]) p = ser d c p"
  by (simp add: ser_def)

lemma ser_add_other: "k \<notin> fst ` set (tx_writes t) \<Longrightarrow> ser d (c @ [(q, t)]) p k = ser d c p k"
  by (rule ser_cong) (simp add: writes_key_def)

lemma ser_all_add_other: "k \<notin> fst ` set (tx_writes t) \<Longrightarrow> ser_all d (c @ [(q, t)]) k = ser_all d c k"
  unfolding ser_all_writers by (simp add: writes_key_def)

lemma in_order_snoc:
  assumes "\<forall>x \<in> set c. fst x < q"
  shows "in_order (c @ [(q, t)]) = in_order c @ [(q, t)]"
  unfolding in_order_def
proof (rule properties_for_sort_key)
  show "mset (sort_key fst c @ [(q, t)]) = mset (c @ [(q, t)])" by simp
  show "sorted (map fst (sort_key fst c @ [(q, t)]))"
    using assms by (auto simp: sorted_append less_imp_le)
  show "filter (\<lambda>x. fst k = fst x) (sort_key fst c @ [(q, t)]) = filter (\<lambda>x. fst k = fst x) (c @ [(q, t)])" for k
    by (use sort_key_stable [of fst "fst k" c] in \<open>simp add: eq_commute [of "fst k"]\<close>)
qed

lemma ser_all_add_write:
  assumes "\<And>x. x \<in> set c \<Longrightarrow> writes_key k x \<Longrightarrow> fst x < q"
  shows "ser_all d (c @ [(q, t)]) k = apply_tx t (ser_all d c) k"
proof (cases "writes_key k (q, t)")
  case True
  have "in_order (filter (writes_key k) (c @ [(q, t)])) = in_order (filter (writes_key k) c) @ [(q, t)]"
    using True assms by (simp add: in_order_snoc)
  then have "ser_all d (c @ [(q, t)]) k =
      apply_tx t (serial_db d (map snd (in_order (filter (writes_key k) c)))) k"
    by (simp add: ser_all_writers)
  also have "\<dots> = apply_tx t (ser_all d c) k"
    by (rule apply_tx_at) (simp add: ser_all_writers)
  finally show ?thesis .
next
  case False
  then show ?thesis by (simp add: ser_all_add_other apply_tx_other writes_key_def)
qed

text \<open>
  A history with distinct positions is serial when every transaction reads what the
  transactions before it leave.
\<close>

lemma serial_ok_sorted:
  assumes "sorted (map fst xs)" "distinct (map fst xs)"
    and "\<And>p t k v. (p, t) \<in> set xs \<Longrightarrow> (k, v) \<in> set (tx_reads t) \<Longrightarrow>
      serial_db d (map snd (filter (\<lambda>x. fst x < p) xs)) k = v"
  shows "serial_ok d (map snd xs)"
  using assms
proof (induction xs rule: rev_induct)
  case Nil
  then show ?case by simp
next
  case (snoc x xs)
  have less: "\<forall>y \<in> set xs. fst y < fst x"
  proof
    fix y assume "y \<in> set xs"
    then have "fst y \<le> fst x" "fst y \<noteq> fst x"
      using snoc.prems(1,2) by (auto simp: sorted_append image_iff dest: bspec)
    then show "fst y < fst x" by simp
  qed
  have "serial_ok d (map snd xs)"
  proof (rule snoc.IH)
    show "sorted (map fst xs)" "distinct (map fst xs)" using snoc.prems by (auto simp: sorted_append)
    show "serial_db d (map snd (filter (\<lambda>x. fst x < p) xs)) k = v"
      if "(p, t) \<in> set xs" "(k, v) \<in> set (tx_reads t)" for p t k v
    proof -
      from that(1) less have "p < fst x" by force
      then have "filter (\<lambda>y. fst y < p) (xs @ [x]) = filter (\<lambda>y. fst y < p) xs" by simp
      then show ?thesis using snoc.prems(3) [of p t k v] that by simp
    qed
  qed
  moreover have "serial_db d (map snd xs) k = v" if "(k, v) \<in> set (tx_reads (snd x))" for k v
  proof -
    have "filter (\<lambda>y. fst y < fst x) (xs @ [x]) = xs" using less by simp
    then show ?thesis using snoc.prems(3) [of "fst x" "snd x" k v] that by simp
  qed
  ultimately show ?case by (auto simp: serial_ok_snoc)
qed

lemma serial_ok_in_order:
  assumes "distinct (map fst c)"
    and "\<And>p t k v. (p, t) \<in> set c \<Longrightarrow> (k, v) \<in> set (tx_reads t) \<Longrightarrow> ser d c p k = v"
  shows "serial_ok d (map snd (in_order c))"
proof (rule serial_ok_sorted)
  show "sorted (map fst (in_order c))" by (simp add: in_order_def)
  show "distinct (map fst (in_order c))"
    using assms(1) by (simp add: in_order_def distinct_map)
  fix p t k v assume "(p, t) \<in> set (in_order c)" "(k, v) \<in> set (tx_reads t)"
  then have "ser d c p k = v" by (intro assms(2)) (simp_all add: in_order_def)
  then show "serial_db d (map snd (filter (\<lambda>x. fst x < p) (in_order c))) k = v"
    by (simp add: ser_def in_order_def filter_sort)
qed

end
