(* ===== verification/Tictoc_System.thy ===== *)
theory Tictoc_System
  imports Tictoc_Model Serial_Order
begin

text \<open>
  Any number of workers of \<^verbatim>\<open>tictoc/tictoc.cc\<close> over one table, interleaved at every access
  to a timestamp word or a payload. The build switches are \<open>tc_mode\<close> (as for Silo, but the
  spinning variant loads the word again), \<open>tc_history\<close> (\<^verbatim>\<open>TIMESTAMP_HISTORY\<close>) and
  \<open>tc_preempt\<close> (\<^verbatim>\<open>PREEMPTIVE_ABORTS\<close>). Ghost state: the committed transactions with their
  position, the commit timestamp and the rank among the commits; the position of each
  worker's last commit; a flag that some commit timestamp did not fit 48 bits.
\<close>

section \<open>Control points\<close>

datatype tc_mode = NoWaitLock | NoWaitVerify | SpinLock

datatype tc_call = CRead key | CWrite key | CStatus

datatype tc_after = AfterFail | AfterConflict

datatype tc_pc =
    TMake
  | TRetry
  | TOps "tc_call list"
  | TLoad key "tc_call list"
  | TCopy key u64 "tc_call list"
  | TCheck key u64 "tc_call list"
  | TWriteLoad key "tc_call list"
  | TLockLoad "tc_elem list" "tc_elem list"
  | TLockCas "tc_elem list" tc_elem "tc_elem list" u64
  | TUnlock "tc_elem list" tc_after
  | TVerify "tc_elem list"
  | TVerifyHist tc_elem "tc_elem list" u64
  | TStage
  | TVal "tc_elem list" "tc_elem list"
  | TValHist "tc_elem list" tc_elem "tc_elem list" u64
  | TExtend "tc_elem list" tc_elem "tc_elem list" u64
  | TWrite "tc_elem list"
  | TPre tc_elem "tc_elem list"
  | TStore tc_elem "tc_elem list"

record tc_config =
  tc_mode :: tc_mode
  tc_history :: bool
  tc_preempt :: bool
  tc_val_size :: nat

record tc_sys =
  tc_table :: tc_table
  tc_txs :: "nat \<Rightarrow> tc_tx"
  tc_pcs :: "nat \<Rightarrow> tc_pc"
  tc_point :: "nat \<Rightarrow> nat \<times> nat"
  tc_com :: "(nat \<times> nat) history"
  tc_full :: bool

section \<open>The calls of the worker loop\<close>

fun tc_calls :: "procedure list \<Rightarrow> tc_call list" where
  "tc_calls [] = []"
| "tc_calls (p # ps) =
     (case p_ope p of
        READ \<Rightarrow> [CRead (p_key p)]
      | WRITE \<Rightarrow> [CWrite (p_key p)]
      | READ_MODIFY_WRITE \<Rightarrow> [CRead (p_key p), CWrite (p_key p)]) @ CStatus # tc_calls ps"

definition tc_upd :: "nat \<Rightarrow> tc_tx \<Rightarrow> tc_pc \<Rightarrow> tc_sys \<Rightarrow> tc_sys" where
  "tc_upd w t pc s = s\<lparr>tc_txs := (tc_txs s)(w := t), tc_pcs := (tc_pcs s)(w := pc)\<rparr>"

definition tc_goto :: "nat \<Rightarrow> tc_pc \<Rightarrow> tc_sys \<Rightarrow> tc_sys" where
  "tc_goto w pc s = s\<lparr>tc_pcs := (tc_pcs s)(w := pc)\<rparr>"

section \<open>Reading\<close>

text \<open>
  The head of the loop of \<^verbatim>\<open>read\<close> with the word \<open>v1\<close>: on a lock, an early abort or another
  load; otherwise the payload.
\<close>

definition tc_read_loop :: "tc_config \<Rightarrow> nat \<Rightarrow> key \<Rightarrow> u64 \<Rightarrow> tc_call list \<Rightarrow> tc_sys \<Rightarrow> tc_sys" where
  "tc_read_loop c w k v1 cs s =
     (if tsw_lock v1 then
        (if tc_preempt c then
           (case preemptiveAborts v1 (tc_txs s w) of
              (True, t) \<Rightarrow> tc_upd w t (TOps cs) s
            | (False, t) \<Rightarrow> tc_goto w (TLoad k cs) s)
         else tc_goto w (TLoad k cs) s)
      else tc_goto w (TCopy k v1 cs) s)"

definition tc_read_check :: "tc_config \<Rightarrow> nat \<Rightarrow> key \<Rightarrow> u64 \<Rightarrow> tc_call list \<Rightarrow> tc_sys \<Rightarrow> tc_sys" where
  "tc_read_check c w k v1 cs s =
     (let v2 = tsw (tc_table s (tc_get_tuple k)) in
      if v1 = v2 \<and> \<not> tsw_lock v1
      then tc_upd w (tc_read_register k v1 (tc_txs s w)) (TOps cs) s
      else tc_read_loop c w k v2 cs s)"

section \<open>Locking the write set\<close>

definition tc_lock_cas ::
  "tc_config \<Rightarrow> nat \<Rightarrow> tc_elem list \<Rightarrow> tc_elem \<Rightarrow> tc_elem list \<Rightarrow> u64 \<Rightarrow> tc_sys \<Rightarrow> tc_sys" where
  "tc_lock_cas c w held e rest expected s =
     (let t = tc_txs s w in
      if tsw_lock expected then
        (if \<not> wonly t \<and> tc_mode c = NoWaitLock
         then tc_upd w (t\<lparr>tc_status := TAborted\<rparr>) (TUnlock held AfterFail) s
         else if \<not> wonly t \<and> tc_mode c = NoWaitVerify
         then tc_goto w (TUnlock held AfterConflict) s
         else tc_goto w (TLockCas held e rest (tsw (tc_table s (te_rcdptr e)))) s)
      else
        (let desired = tsw_set_lock True expected in
         case tsw_cas (te_rcdptr e) expected desired (tc_table s) of
           (True, tb) \<Rightarrow>
             (tc_upd w (tc_locked_one desired t) (TLockLoad (held @ [e]) rest) s)\<lparr>tc_table := tb\<rparr>
         | (False, tb) \<Rightarrow> tc_goto w (TLockCas held e rest (tsw (tb (te_rcdptr e)))) s))"

text \<open>
  Pre-verify. When it fails, \<^verbatim>\<open>lockWriteSet\<close> returns with the status set to aborted and no
  lock held, and \<^verbatim>\<open>validationPhase\<close>, which looks at the status only under
  \<^verbatim>\<open>NO_WAIT_LOCKING_IN_VALIDATION\<close>, goes on.
\<close>

definition tc_verify_fail :: "nat \<Rightarrow> tc_sys \<Rightarrow> tc_sys" where
  "tc_verify_fail w s = tc_upd w ((tc_txs s w)\<lparr>tc_status := TAborted\<rparr>) TStage s"

definition tc_verify :: "tc_config \<Rightarrow> nat \<Rightarrow> tc_elem \<Rightarrow> tc_elem list \<Rightarrow> tc_sys \<Rightarrow> tc_sys" where
  "tc_verify c w r rest s =
     (let v1 = tsw (tc_table s (te_rcdptr r)) in
      case tc_preverify_one (tc_history c) (tc_txs s w) r v1 of
        VFail \<Rightarrow> tc_verify_fail w s
      | VHistory \<Rightarrow> tc_goto w (TVerifyHist r rest v1) s
      | _ \<Rightarrow> tc_goto w (TVerify rest) s)"

section \<open>Validating and committing\<close>

definition tc_fail :: "nat \<Rightarrow> tc_sys \<Rightarrow> tc_sys" where
  "tc_fail w s = tc_goto w (TUnlock (tc_write_set (tc_txs s w)) AfterFail) s"

definition tc_val_loop ::
  "tc_config \<Rightarrow> nat \<Rightarrow> tc_elem list \<Rightarrow> tc_elem \<Rightarrow> tc_elem list \<Rightarrow> u64 \<Rightarrow> tc_sys \<Rightarrow> tc_sys" where
  "tc_val_loop c w done r rest v1 s =
     (case tc_validate_one (tc_history c) (tc_txs s w) r v1 of
        VFail \<Rightarrow> tc_fail w s
      | VHistory \<Rightarrow> tc_goto w (TValHist done r rest v1) s
      | VValid \<Rightarrow> tc_goto w (TVal (done @ [r]) rest) s
      | VExtend \<Rightarrow> tc_goto w (TExtend done r rest v1) s)"

definition tc_validate :: "tc_config \<Rightarrow> nat \<Rightarrow> tc_elem list \<Rightarrow> tc_elem \<Rightarrow> tc_elem list \<Rightarrow> tc_sys \<Rightarrow> tc_sys" where
  "tc_validate c w done r rest s =
     (let v1 = tsw (tc_table s (te_rcdptr r)) in
      if tsw_rts (te_tsw r) < commit_ts (tc_txs s w) then tc_val_loop c w done r rest v1 s
      else tc_goto w (TVal (done @ [r]) rest) s)"

definition tc_extend ::
  "tc_config \<Rightarrow> nat \<Rightarrow> tc_elem list \<Rightarrow> tc_elem \<Rightarrow> tc_elem list \<Rightarrow> u64 \<Rightarrow> tc_sys \<Rightarrow> tc_sys" where
  "tc_extend c w done r rest v1 s =
     (case tsw_cas (te_rcdptr r) v1 (tsw_extend (commit_ts (tc_txs s w)) v1) (tc_table s) of
        (True, tb) \<Rightarrow> (tc_goto w (TVal (done @ [r]) rest) s)\<lparr>tc_table := tb\<rparr>
      | (False, tb) \<Rightarrow> tc_val_loop c w done r rest (tsw (tb (te_rcdptr r))) s)"

definition tc_record :: "nat \<Rightarrow> tc_tx \<Rightarrow> txrec" where
  "tc_record val_size t =
     \<lparr>tx_reads = map (\<lambda>r. (te_key r, te_val r)) (tc_read_set t),
      tx_writes = map (\<lambda>e. (te_key e, tc_new_payload val_size t)) (tc_write_set t)\<rparr>"

definition tc_commit :: "tc_config \<Rightarrow> nat \<Rightarrow> tc_sys \<Rightarrow> tc_sys" where
  "tc_commit c w s =
     (let t = tc_txs s w; p = (unat (commit_ts t), length (tc_com s)) in
      (tc_goto w (TWrite (tc_write_set t)) s)
        \<lparr>tc_point := (tc_point s)(w := p), tc_com := tc_com s @ [(p, tc_record (tc_val_size c) t)]\<rparr>)"

section \<open>One step of worker \<open>w\<close>\<close>

definition tc_step :: "tc_config \<Rightarrow> nat \<Rightarrow> procedure list \<Rightarrow> tc_sys \<Rightarrow> tc_sys" where
  "tc_step c w pro s =
     (let t = tc_txs s w; tb = tc_table s in
      case tc_pcs s w of
        TMake \<Rightarrow> tc_upd w (t\<lparr>tc_pro_set := pro\<rparr>) TRetry s
      | TRetry \<Rightarrow> tc_upd w (tc_begin t) (TOps (tc_calls (tc_pro_set t))) s
      | TOps [] \<Rightarrow> (let t' = tc_sort t in tc_upd w t' (TLockLoad [] (tc_write_set t')) s)
      | TOps (CRead k # cs) \<Rightarrow>
          (if tc_read_known k t then tc_goto w (TOps cs) s else tc_goto w (TLoad k cs) s)
      | TOps (CWrite k # cs) \<Rightarrow>
          (if tc_searchWriteSet k t \<noteq> None then tc_goto w (TOps cs) s
           else tc_goto w (TWriteLoad k cs) s)
      | TOps (CStatus # cs) \<Rightarrow>
          (if tc_status t = TAborted then tc_upd w (tc_clear t) TRetry s else tc_goto w (TOps cs) s)
      | TLoad k cs \<Rightarrow> tc_read_loop c w k (tsw (tb (tc_get_tuple k))) cs s
      | TCopy k v1 cs \<Rightarrow> tc_upd w (tc_read_copy k tb t) (TCheck k v1 cs) s
      | TCheck k v1 cs \<Rightarrow> tc_read_check c w k v1 cs s
      | TWriteLoad k cs \<Rightarrow>
          tc_upd w (tc_write_register k (tsw (tb (tc_write_ptr k t))) t) (TOps cs) s
      | TLockLoad held [] \<Rightarrow> tc_goto w TStage s
      | TLockLoad held (e # rest) \<Rightarrow> tc_goto w (TLockCas held e rest (tsw (tb (te_rcdptr e)))) s
      | TLockCas held e rest expected \<Rightarrow> tc_lock_cas c w held e rest expected s
      | TUnlock (e # es) out \<Rightarrow> (tc_goto w (TUnlock es out) s)\<lparr>tc_table := tc_unlock_one e tb\<rparr>
      | TUnlock [] AfterFail \<Rightarrow> tc_upd w (tc_clear t) TRetry s
      | TUnlock [] AfterConflict \<Rightarrow> tc_goto w (TVerify (tc_read_set t)) s
      | TVerify [] \<Rightarrow> tc_goto w (TLockLoad [] (tc_write_set t)) s
      | TVerify (r # rest) \<Rightarrow> tc_verify c w r rest s
      | TVerifyHist r rest v1 \<Rightarrow>
          (if tc_history_ok t (pre_tsw (tb (te_rcdptr r))) v1 then tc_goto w (TVerify rest) s
           else tc_verify_fail w s)
      | TStage \<Rightarrow>
          (let t' = tc_commit_ts t in
           (tc_upd w t' (TVal [] (tc_read_set t')) s)
             \<lparr>tc_full := (tc_full s \<or> 2 ^ 48 \<le> unat (commit_ts t'))\<rparr>)
      | TVal done (r # rest) \<Rightarrow> tc_validate c w done r rest s
      | TVal done [] \<Rightarrow> tc_commit c w s
      | TValHist done r rest v1 \<Rightarrow>
          (if tc_history_ok t (pre_tsw (tb (te_rcdptr r))) v1
           then tc_goto w (TVal (done @ [r]) rest) s else tc_fail w s)
      | TExtend done r rest v1 \<Rightarrow> tc_extend c w done r rest v1 s
      | TWrite (e # es) \<Rightarrow>
          (tc_goto w (if tc_history c then TPre e es else TStore e es) s)
            \<lparr>tc_table := tc_write_copy (tc_val_size c) t e tb\<rparr>
      | TPre e es \<Rightarrow> (tc_goto w (TStore e es) s)\<lparr>tc_table := tc_write_pre e tb\<rparr>
      | TStore e es \<Rightarrow> (tc_goto w (TWrite es) s)\<lparr>tc_table := tc_write_store t e tb\<rparr>
      | TWrite [] \<Rightarrow> tc_upd w (tc_clear t) TMake s)"

section \<open>The system\<close>

definition tc_init :: "db \<Rightarrow> (nat \<Rightarrow> val) \<Rightarrow> tc_sys" where
  "tc_init d wv =
     \<lparr>tc_table = (\<lambda>k. \<lparr>tsw = 0, pre_tsw = 0, tc_val = d k\<rparr>), tc_txs = (\<lambda>w. tc_new w (wv w)),
      tc_pcs = (\<lambda>_. TMake), tc_point = (\<lambda>_. (0, 0)), tc_com = [], tc_full = False\<rparr>"

definition tc_start :: "db \<Rightarrow> tc_sys \<Rightarrow> bool" where
  "tc_start d s \<longleftrightarrow> (\<exists>wv. s = tc_init d wv)"

definition tc_next :: "tc_config \<Rightarrow> tc_sys \<Rightarrow> tc_sys \<Rightarrow> bool" where
  "tc_next c s t \<longleftrightarrow> (\<exists>w pro. t = tc_step c w pro s)"

abbreviation tc_reach :: "tc_config \<Rightarrow> db \<Rightarrow> tc_sys \<Rightarrow> bool" where
  "tc_reach c d \<equiv> reach (tc_start d) (tc_next c)"

fun tc_run :: "tc_config \<Rightarrow> (nat \<times> procedure list) list \<Rightarrow> tc_sys \<Rightarrow> tc_sys" where
  "tc_run c [] s = s"
| "tc_run c ((w, pro) # sched) s = tc_run c sched (tc_step c w pro s)"

lemma tc_run_reach: "tc_reach c d s \<Longrightarrow> tc_reach c d (tc_run c sched s)"
proof (induction sched arbitrary: s)
  case Nil
  then show ?case by simp
next
  case (Cons a sched)
  have "tc_next c s (tc_step c (fst a) (snd a) s)" unfolding tc_next_def by blast
  with Cons.prems have "tc_reach c d (tc_step c (fst a) (snd a) s)" by (rule reach_step)
  with Cons.IH show ?case by (cases a) simp
qed

end
