(* ===== verification/Ts_Spec.thy ===== *)
theory Ts_Spec
  imports Serial_Order
begin

text \<open>
  An abstract protocol with data-driven timestamps, the specification that TicToc refines.
  Every record carries the interval \<open>[wts, rts]\<close> in which its current version is known to
  be the valid one. A transaction locks what it writes, takes a commit timestamp above the
  intervals of the locked records and inside those of the records it read, extending them
  if need be, and commits. The committed transactions, sorted by their timestamp and then
  by their commit, form a serial history.
\<close>

section \<open>The protocol\<close>

record tso =
  t_bit :: "key \<Rightarrow> bool"
  t_wts :: "key \<Rightarrow> nat"
  t_rts :: "key \<Rightarrow> nat"
  t_val :: "key \<Rightarrow> val"
  t_lock :: "nat \<Rightarrow> key set"
  t_cts :: "nat \<Rightarrow> nat"
  t_pre :: "nat \<Rightarrow> (key \<times> nat \<times> val option) set"
  t_obs :: "nat \<Rightarrow> (key \<times> nat \<times> nat \<times> val) set"
  t_staged :: "nat \<Rightarrow> bool"
  t_writes :: "nat \<Rightarrow> (key \<times> (val \<Rightarrow> val)) list"
  t_valid :: "nat \<Rightarrow> (key \<times> val) set"
  t_pend :: "nat \<Rightarrow> (key \<times> (val \<Rightarrow> val)) list"
  t_dirty :: "nat \<Rightarrow> key option"
  t_point :: "nat \<Rightarrow> nat \<times> nat"
  t_com :: "(nat \<times> nat) history"

definition t_todo :: "tso \<Rightarrow> nat \<Rightarrow> key set" where
  "t_todo s w = fst ` set (t_pend s w) \<union> set_option (t_dirty s w)"

definition t_idle :: "tso \<Rightarrow> nat \<Rightarrow> bool" where
  "t_idle s w \<longleftrightarrow> \<not> t_staged s w \<and> t_todo s w = {}"

definition pre_ok :: "tso \<Rightarrow> nat \<Rightarrow> key \<times> nat \<times> val option \<Rightarrow> bool" where
  "pre_ok s w x \<longleftrightarrow> x \<in> t_pre s w \<or> (\<exists>k. x = (k, t_wts s k, None)) \<or>
     (\<exists>k a. (k, a, None) \<in> t_pre s w \<and> x = (k, a, Some (t_val s k)))"

definition read_ok :: "tso \<Rightarrow> nat \<Rightarrow> key \<times> nat \<times> nat \<times> val \<Rightarrow> bool" where
  "read_ok s w y \<longleftrightarrow> y \<in> t_obs s w \<or>
     (\<exists>k v. (k, t_wts s k, Some v) \<in> t_pre s w \<and> \<not> t_bit s k \<and> y = (k, t_wts s k, t_rts s k, v))"

inductive ts_step :: "tso \<Rightarrow> tso \<Rightarrow> bool" where
  ts_stay: "ts_step s s"
| ts_local: "\<forall>x \<in> X. pre_ok s w x \<Longrightarrow> \<forall>y \<in> Y. read_ok s w y \<Longrightarrow>
    t_idle s w \<and> (t_lock s w = {} \<or> t_cts s w \<le> l) \<or> l = t_cts s w \<Longrightarrow>
    ts_step s (s\<lparr>t_pre := (t_pre s)(w := X), t_obs := (t_obs s)(w := Y), t_cts := (t_cts s)(w := l)\<rparr>)"
| ts_lock: "\<not> t_bit s k \<Longrightarrow> t_idle s w \<Longrightarrow> t_cts s w \<le> l \<Longrightarrow> t_rts s k < l \<Longrightarrow>
    ts_step s (s\<lparr>t_bit := (t_bit s)(k := True), t_lock := (t_lock s)(w := insert k (t_lock s w)),
      t_cts := (t_cts s)(w := l)\<rparr>)"
| ts_unlock: "k \<in> t_lock s w \<Longrightarrow> t_idle s w \<Longrightarrow>
    ts_step s (s\<lparr>t_bit := (t_bit s)(k := False), t_lock := (t_lock s)(w := t_lock s w - {k})\<rparr>)"
| ts_stage: "t_idle s w \<Longrightarrow> fst ` set ws \<subseteq> t_lock s w \<Longrightarrow> distinct (map fst ws) \<Longrightarrow> t_cts s w \<le> l \<Longrightarrow>
    ts_step s (s\<lparr>t_staged := (t_staged s)(w := True), t_writes := (t_writes s)(w := ws),
      t_valid := (t_valid s)(w := {}), t_cts := (t_cts s)(w := l)\<rparr>)"
| ts_validate: "t_staged s w \<Longrightarrow> (k, a, b, v) \<in> t_obs s w \<Longrightarrow> a \<le> t_cts s w \<Longrightarrow>
    t_cts s w \<le> b \<or> a = t_wts s k \<and> (t_cts s w \<le> t_rts s k \<or> k \<in> fst ` set (t_writes s w)) \<Longrightarrow>
    ts_step s (s\<lparr>t_valid := (t_valid s)(w := insert (k, v) (t_valid s w))\<rparr>)"
| ts_extend: "t_staged s w \<Longrightarrow> (k, a, b, v) \<in> t_obs s w \<Longrightarrow> a \<le> t_cts s w \<Longrightarrow> a = t_wts s k \<Longrightarrow>
    \<not> t_bit s k \<Longrightarrow> t_wts s k \<le> wt \<Longrightarrow> t_rts s k \<le> rt \<Longrightarrow> wt \<le> rt \<Longrightarrow> t_cts s w \<le> rt \<Longrightarrow>
    ts_step s (s\<lparr>t_wts := (t_wts s)(k := wt), t_rts := (t_rts s)(k := rt),
      t_valid := (t_valid s)(w := insert (k, v) (t_valid s w))\<rparr>)"
| ts_abandon: "t_staged s w \<Longrightarrow>
    ts_step s (s\<lparr>t_staged := (t_staged s)(w := False), t_writes := (t_writes s)(w := []),
      t_valid := (t_valid s)(w := {})\<rparr>)"
| ts_commit: "t_staged s w \<Longrightarrow> set rs \<subseteq> t_valid s w \<Longrightarrow>
    ts_step s (s\<lparr>t_staged := (t_staged s)(w := False), t_writes := (t_writes s)(w := []),
      t_valid := (t_valid s)(w := {}), t_pend := (t_pend s)(w := t_writes s w),
      t_point := (t_point s)(w := (t_cts s w, length (t_com s))),
      t_com := t_com s @ [((t_cts s w, length (t_com s)), \<lparr>tx_reads = rs, tx_writes = t_writes s w\<rparr>)]\<rparr>)"
| ts_copy: "t_pend s w = (k, f) # ps \<Longrightarrow> t_dirty s w = None \<Longrightarrow>
    ts_step s (s\<lparr>t_val := (t_val s)(k := f (t_val s k)), t_pend := (t_pend s)(w := ps),
      t_dirty := (t_dirty s)(w := Some k)\<rparr>)"
| ts_install: "t_dirty s w = Some k \<Longrightarrow>
    ts_step s (s\<lparr>t_wts := (t_wts s)(k := t_cts s w), t_rts := (t_rts s)(k := t_cts s w),
      t_bit := (t_bit s)(k := False), t_lock := (t_lock s)(w := t_lock s w - {k}),
      t_dirty := (t_dirty s)(w := None)\<rparr>)"

section \<open>The invariant\<close>

text \<open>The value of a record after all transactions with a commit timestamp up to \<open>t\<close>.\<close>

definition val_at :: "db \<Rightarrow> tso \<Rightarrow> nat \<Rightarrow> key \<Rightarrow> val" where
  "val_at d s t k = ser d (t_com s) (Suc t, 0) k"

definition ts_locks :: "tso \<Rightarrow> bool" where
  "ts_locks s \<longleftrightarrow> (\<forall>k. t_bit s k \<longleftrightarrow> (\<exists>w. k \<in> t_lock s w)) \<and>
     (\<forall>k w v. k \<in> t_lock s w \<longrightarrow> k \<in> t_lock s v \<longrightarrow> w = v) \<and>
     (\<forall>k w. k \<in> t_lock s w \<longrightarrow> t_rts s k < t_cts s w) \<and>
     (\<forall>k w. k \<in> t_todo s w \<longrightarrow> k \<in> t_lock s w) \<and>
     (\<forall>k w. t_staged s w \<longrightarrow> k \<in> fst ` set (t_writes s w) \<longrightarrow> k \<in> t_lock s w) \<and>
     (\<forall>k. t_wts s k \<le> t_rts s k)"

definition ts_stages :: "tso \<Rightarrow> bool" where
  "ts_stages s \<longleftrightarrow> (\<forall>w. distinct (map fst (t_pend s w))) \<and>
     (\<forall>w k. t_dirty s w = Some k \<longrightarrow> k \<notin> fst ` set (t_pend s w)) \<and>
     (\<forall>w. t_staged s w \<longrightarrow> t_todo s w = {} \<and> distinct (map fst (t_writes s w))) \<and>
     distinct (map fst (t_com s)) \<and> (\<forall>x \<in> set (t_com s). snd (fst x) < length (t_com s)) \<and>
     (\<forall>w. t_todo s w \<noteq> {} \<longrightarrow> fst (t_point s w) = t_cts s w)"

definition ts_values :: "db \<Rightarrow> tso \<Rightarrow> bool" where
  "ts_values d s \<longleftrightarrow>
     (\<forall>k. (\<forall>w. k \<notin> fst ` set (t_pend s w)) \<longrightarrow> t_val s k = ser_all d (t_com s) k) \<and>
     (\<forall>w k f. (k, f) \<in> set (t_pend s w) \<longrightarrow> ser_all d (t_com s) k = f (t_val s k)) \<and>
     (\<forall>x k. x \<in> set (t_com s) \<longrightarrow> writes_key k x \<longrightarrow>
        fst (fst x) \<le> t_wts s k \<or> (\<exists>w. k \<in> t_todo s w \<and> fst x = t_point s w))"

text \<open>
  \<open>covers s k a b t\<close>: a version of \<open>k\<close> observed with the interval from \<open>a\<close> to \<open>b\<close> is the valid
  one at time \<open>t\<close>, by the interval as it was or, for the current version, as it is.
\<close>

definition covers :: "tso \<Rightarrow> key \<Rightarrow> nat \<Rightarrow> nat \<Rightarrow> nat \<Rightarrow> bool" where
  "covers s k a b t \<longleftrightarrow> a \<le> t \<and> (t \<le> b \<or> a = t_wts s k \<and> t \<le> t_rts s k)"

definition ts_pres :: "tso \<Rightarrow> bool" where
  "ts_pres s \<longleftrightarrow> (\<forall>w k a x. (k, a, x) \<in> t_pre s w \<longrightarrow> a \<le> t_wts s k) \<and>
     (\<forall>w k v. (k, t_wts s k, Some v) \<in> t_pre s w \<longrightarrow> (\<forall>u. t_dirty s u \<noteq> Some k) \<longrightarrow> v = t_val s k)"

definition ts_obss :: "db \<Rightarrow> tso \<Rightarrow> bool" where
  "ts_obss d s \<longleftrightarrow> (\<forall>w k a b v. (k, a, b, v) \<in> t_obs s w \<longrightarrow> a \<le> t_wts s k \<and> b \<le> t_rts s k) \<and>
     (\<forall>w k a b v t. (k, a, b, v) \<in> t_obs s w \<longrightarrow> covers s k a b t \<longrightarrow> val_at d s t k = v)"

definition ts_valids :: "db \<Rightarrow> tso \<Rightarrow> bool" where
  "ts_valids d s \<longleftrightarrow> (\<forall>w k v. t_staged s w \<longrightarrow> (k, v) \<in> t_valid s w \<longrightarrow> val_at d s (t_cts s w) k = v \<and>
     (t_cts s w \<le> t_rts s k \<or> k \<in> fst ` set (t_writes s w)))"

definition ts_readers :: "db \<Rightarrow> tso \<Rightarrow> bool" where
  "ts_readers d s \<longleftrightarrow>
     (\<forall>p t k v. (p, t) \<in> set (t_com s) \<longrightarrow> (k, v) \<in> set (tx_reads t) \<longrightarrow> ser d (t_com s) p k = v \<and>
        (fst p \<le> t_rts s k \<or> (\<exists>w. k \<in> t_todo s w \<and> t_point s w = p)))"

definition ts_inv :: "db \<Rightarrow> tso \<Rightarrow> bool" where
  "ts_inv d s \<longleftrightarrow> ts_locks s \<and> ts_stages s \<and> ts_values d s \<and> ts_pres s \<and> ts_obss d s \<and>
     ts_valids d s \<and> ts_readers d s"

lemma ts_inv_serial: "ts_inv d s \<Longrightarrow> serial_ok d (map snd (in_order (t_com s)))"
  by (rule serial_ok_in_order) (auto simp: ts_inv_def ts_stages_def ts_readers_def)

end
