(* ===== verification/Ts_Proofs.thy ===== *)
theory Ts_Proofs
  imports Ts_Spec
begin

text \<open>Every step of the abstract timestamp protocol keeps its invariant.\<close>

section \<open>Using and proving the invariant\<close>

lemma tinv_parts:
  assumes "ts_inv d s"
  shows tinv_locks: "ts_locks s" and tinv_stages: "ts_stages s"
    and tinv_values: "ts_values d s" and tinv_pres: "ts_pres s" and tinv_obss: "ts_obss d s"
    and tinv_valids: "ts_valids d s" and tinv_readers: "ts_readers d s"
  using assms by (simp_all add: ts_inv_def)

lemma tinv_lock:
  assumes "ts_inv d s"
  shows tinv_bit: "t_bit s k \<longleftrightarrow> (\<exists>w. k \<in> t_lock s w)"
    and tinv_excl: "k \<in> t_lock s w \<Longrightarrow> k \<in> t_lock s v \<Longrightarrow> w = v"
    and tinv_cts: "k \<in> t_lock s w \<Longrightarrow> t_rts s k < t_cts s w"
    and tinv_todo: "k \<in> t_todo s w \<Longrightarrow> k \<in> t_lock s w"
    and tinv_writes: "t_staged s w \<Longrightarrow> k \<in> fst ` set (t_writes s w) \<Longrightarrow> k \<in> t_lock s w"
    and tinv_range: "t_wts s k \<le> t_rts s k"
  using tinv_locks [OF assms] unfolding ts_locks_def by (elim conjE, meson)+

lemma ts_locksI:
  assumes "\<And>k. t_bit s k \<longleftrightarrow> (\<exists>w. k \<in> t_lock s w)"
    and "\<And>k w v. k \<in> t_lock s w \<Longrightarrow> k \<in> t_lock s v \<Longrightarrow> w = v"
    and "\<And>k w. k \<in> t_lock s w \<Longrightarrow> t_rts s k < t_cts s w"
    and "\<And>k w. k \<in> t_todo s w \<Longrightarrow> k \<in> t_lock s w"
    and "\<And>k w. t_staged s w \<Longrightarrow> k \<in> fst ` set (t_writes s w) \<Longrightarrow> k \<in> t_lock s w"
    and "\<And>k. t_wts s k \<le> t_rts s k"
  shows "ts_locks s"
  unfolding ts_locks_def using assms(2-6) by (intro conjI allI impI assms(1); simp)

lemma tinv_stage:
  assumes "ts_inv d s"
  shows tinv_pend: "distinct (map fst (t_pend s w))"
    and tinv_dirty: "t_dirty s w = Some k \<Longrightarrow> k \<notin> fst ` set (t_pend s w)"
    and tinv_staged: "t_staged s w \<Longrightarrow> t_todo s w = {} \<and> distinct (map fst (t_writes s w))"
    and tinv_com: "distinct (map fst (t_com s))" "x \<in> set (t_com s) \<Longrightarrow> snd (fst x) < length (t_com s)"
    and tinv_point: "t_todo s w \<noteq> {} \<Longrightarrow> fst (t_point s w) = t_cts s w"
  using tinv_stages [OF assms] unfolding ts_stages_def by blast+

lemma ts_stagesI:
  assumes "\<And>w. distinct (map fst (t_pend s w))"
    and "\<And>w k. t_dirty s w = Some k \<Longrightarrow> k \<notin> fst ` set (t_pend s w)"
    and "\<And>w. t_staged s w \<Longrightarrow> t_todo s w = {} \<and> distinct (map fst (t_writes s w))"
    and "distinct (map fst (t_com s))" "\<And>x. x \<in> set (t_com s) \<Longrightarrow> snd (fst x) < length (t_com s)"
    and "\<And>w. t_todo s w \<noteq> {} \<Longrightarrow> fst (t_point s w) = t_cts s w"
  shows "ts_stages s"
  unfolding ts_stages_def using assms(2) by (intro conjI allI impI ballI assms; blast)

lemma tinv_value:
  assumes "ts_inv d s"
  shows tinv_settled: "\<forall>w. k \<notin> fst ` set (t_pend s w) \<Longrightarrow> t_val s k = ser_all d (t_com s) k"
    and tinv_pending: "(k, f) \<in> set (t_pend s w) \<Longrightarrow> ser_all d (t_com s) k = f (t_val s k)"
    and tinv_writer: "x \<in> set (t_com s) \<Longrightarrow> writes_key k x \<Longrightarrow>
        fst (fst x) \<le> t_wts s k \<or> (\<exists>w. k \<in> t_todo s w \<and> fst x = t_point s w)"
  using tinv_values [OF assms] unfolding ts_values_def by (elim conjE, meson)+

lemma ts_valuesI:
  assumes "\<And>k. \<forall>w. k \<notin> fst ` set (t_pend s w) \<Longrightarrow> t_val s k = ser_all d (t_com s) k"
    and "\<And>w k f. (k, f) \<in> set (t_pend s w) \<Longrightarrow> ser_all d (t_com s) k = f (t_val s k)"
    and "\<And>x k. x \<in> set (t_com s) \<Longrightarrow> writes_key k x \<Longrightarrow>
        fst (fst x) \<le> t_wts s k \<or> (\<exists>w. k \<in> t_todo s w \<and> fst x = t_point s w)"
  shows "ts_values d s"
  unfolding ts_values_def by (intro conjI allI impI) (fact assms | rule assms; assumption)+

lemma tinv_pre:
  assumes "ts_inv d s"
  shows "(k, a, x) \<in> t_pre s w \<Longrightarrow> a \<le> t_wts s k"
  using tinv_pres [OF assms] unfolding ts_pres_def by blast

lemma tinv_pre_val:
  assumes "ts_inv d s"
  shows "(k, t_wts s k, Some v) \<in> t_pre s w \<Longrightarrow> \<forall>u. t_dirty s u \<noteq> Some k \<Longrightarrow> v = t_val s k"
  using tinv_pres [OF assms] unfolding ts_pres_def by blast

lemma tinv_obs:
  assumes "ts_inv d s"
  shows "(k, a, b, v) \<in> t_obs s w \<Longrightarrow> a \<le> t_wts s k \<and> b \<le> t_rts s k"
  using tinv_obss [OF assms] unfolding ts_obss_def by blast

lemma tinv_obs_val:
  assumes "ts_inv d s"
  shows "(k, a, b, v) \<in> t_obs s w \<Longrightarrow> covers s k a b t \<Longrightarrow> val_at d s t k = v"
  using tinv_obss [OF assms] unfolding ts_obss_def by blast

lemma tinv_valid:
  assumes "ts_inv d s"
  shows "t_staged s w \<Longrightarrow> (k, v) \<in> t_valid s w \<Longrightarrow> val_at d s (t_cts s w) k = v \<and>
    (t_cts s w \<le> t_rts s k \<or> k \<in> fst ` set (t_writes s w))"
  using tinv_valids [OF assms] unfolding ts_valids_def by blast

lemma tinv_reader:
  assumes "ts_inv d s"
  shows "(p, u) \<in> set (t_com s) \<Longrightarrow> (k, v) \<in> set (tx_reads u) \<Longrightarrow> ser d (t_com s) p k = v \<and>
    (fst p \<le> t_rts s k \<or> (\<exists>w. k \<in> t_todo s w \<and> t_point s w = p))"
  using tinv_readers [OF assms] unfolding ts_readers_def by blast

lemma ts_presI:
  assumes "\<And>w k a x. (k, a, x) \<in> t_pre s w \<Longrightarrow> a \<le> t_wts s k"
    and "\<And>w k v. (k, t_wts s k, Some v) \<in> t_pre s w \<Longrightarrow> \<forall>u. t_dirty s u \<noteq> Some k \<Longrightarrow> v = t_val s k"
  shows "ts_pres s"
  unfolding ts_pres_def using assms by blast

lemma ts_obssI:
  assumes "\<And>w k a b v. (k, a, b, v) \<in> t_obs s w \<Longrightarrow> a \<le> t_wts s k \<and> b \<le> t_rts s k"
    and "\<And>w k a b v t. (k, a, b, v) \<in> t_obs s w \<Longrightarrow> covers s k a b t \<Longrightarrow> val_at d s t k = v"
  shows "ts_obss d s"
  unfolding ts_obss_def using assms by blast

lemma ts_validsI:
  assumes "\<And>w k v. t_staged s w \<Longrightarrow> (k, v) \<in> t_valid s w \<Longrightarrow> val_at d s (t_cts s w) k = v \<and>
    (t_cts s w \<le> t_rts s k \<or> k \<in> fst ` set (t_writes s w))"
  shows "ts_valids d s"
  unfolding ts_valids_def using assms by blast

lemma ts_readersI:
  assumes "\<And>p u k v. (p, u) \<in> set (t_com s) \<Longrightarrow> (k, v) \<in> set (tx_reads u) \<Longrightarrow> ser d (t_com s) p k = v \<and>
    (fst p \<le> t_rts s k \<or> (\<exists>w. k \<in> t_todo s w \<and> t_point s w = p))"
  shows "ts_readers d s"
  unfolding ts_readers_def using assms by blast

text \<open>A step that leaves the records and the history alone keeps what only speaks of them.\<close>

lemma readers_cong:
  "ts_readers d s \<Longrightarrow> t_com t = t_com s \<Longrightarrow> t_rts t = t_rts s \<Longrightarrow> t_todo t = t_todo s \<Longrightarrow>
   t_point t = t_point s \<Longrightarrow> ts_readers d t"
  by (simp add: ts_readers_def)

lemma pres_cong:
  "ts_pres s \<Longrightarrow> t_pre t = t_pre s \<Longrightarrow> t_wts t = t_wts s \<Longrightarrow> t_val t = t_val s \<Longrightarrow>
   t_dirty t = t_dirty s \<Longrightarrow> ts_pres t"
  by (simp add: ts_pres_def)

lemma obss_cong:
  "ts_obss d s \<Longrightarrow> t_obs t = t_obs s \<Longrightarrow> t_wts t = t_wts s \<Longrightarrow> t_rts t = t_rts s \<Longrightarrow>
   t_com t = t_com s \<Longrightarrow> ts_obss d t"
  by (simp add: ts_obss_def covers_def val_at_def)

lemma values_cong:
  "ts_values d s \<Longrightarrow> t_pend t = t_pend s \<Longrightarrow> t_val t = t_val s \<Longrightarrow> t_com t = t_com s \<Longrightarrow>
   t_wts t = t_wts s \<Longrightarrow> t_todo t = t_todo s \<Longrightarrow> t_point t = t_point s \<Longrightarrow> ts_values d t"
  by (simp add: ts_values_def)

text \<open>A record that no committer has still to install: nothing was written after \<open>wts\<close>.\<close>

lemma quiet_value:
  assumes inv: "ts_inv d s" and q: "\<And>w. k \<notin> t_todo s w" and t: "t_wts s k \<le> t"
  shows "val_at d s t k = ser_all d (t_com s) k"
proof -
  have "ser_all d (t_com s) k = ser d (t_com s) (Suc t, 0) k"
  proof (rule ser_all_stable)
    show "\<not> writes_key k x" if "x \<in> set (t_com s)" "(Suc t, 0) \<le> fst x" for x
    proof
      assume "writes_key k x"
      from tinv_writer [OF inv that(1) this] q have "fst (fst x) \<le> t_wts s k" by blast
      with that(2) t show False by (cases "fst x") auto
    qed
  qed
  then show ?thesis by (simp add: val_at_def)
qed

lemma unlocked_quiet: "ts_inv d s \<Longrightarrow> \<not> t_bit s k \<Longrightarrow> k \<notin> t_todo s w"
  using tinv_todo tinv_bit by blast

lemma quiet_settled:
  assumes inv: "ts_inv d s" and q: "\<And>w. k \<notin> t_todo s w"
  shows "t_val s k = ser_all d (t_com s) k"
  using q by (intro tinv_settled [OF inv]) (auto simp: t_todo_def)

section \<open>Steps outside the commit\<close>

lemma ts_local_inv:
  assumes inv: "ts_inv d s" and X: "\<forall>x \<in> X. pre_ok s w x" and Y: "\<forall>y \<in> Y. read_ok s w y"
    and l: "t_idle s w \<and> (t_lock s w = {} \<or> t_cts s w \<le> l) \<or> l = t_cts s w"
  shows "ts_inv d (s\<lparr>t_pre := (t_pre s)(w := X), t_obs := (t_obs s)(w := Y), t_cts := (t_cts s)(w := l)\<rparr>)"
    (is "ts_inv d ?t")
proof -
  have t: "t_todo ?t = t_todo s" by (rule ext) (simp add: t_todo_def)
  have v: "val_at d ?t = val_at d s" by (intro ext) (simp add: val_at_def)
  have "ts_locks ?t"
  proof (rule ts_locksI)
    show "k \<in> t_lock ?t u \<Longrightarrow> t_rts ?t k < t_cts ?t u" for k u
      using tinv_cts [OF inv, of k u] l by (cases "u = w") (auto intro: less_le_trans)
    show "t_staged ?t u \<Longrightarrow> k \<in> fst ` set (t_writes ?t u) \<Longrightarrow> k \<in> t_lock ?t u" for k u
      using tinv_writes [OF inv, of u k] by simp
  qed (use tinv_bit [OF inv] tinv_excl [OF inv] tinv_todo [OF inv] tinv_range [OF inv] in \<open>auto simp: t\<close>)
  moreover have "ts_stages ?t"
  proof (rule ts_stagesI; (unfold t)?)
    show "t_todo s u \<noteq> {} \<Longrightarrow> fst (t_point ?t u) = t_cts ?t u" for u
      using tinv_point [OF inv, of u] l by (cases "u = w") (auto simp: t_idle_def)
  qed (use tinv_pend [OF inv] tinv_dirty [OF inv] tinv_staged [OF inv] tinv_com [OF inv] in auto)
  moreover have "ts_values d ?t" by (rule values_cong [OF tinv_values [OF inv]]) (simp_all add: t)
  moreover have "ts_pres ?t"
  proof (rule ts_presI)
    show "a \<le> t_wts ?t k" if "(k, a, x) \<in> t_pre ?t u" for u k a x
      using that X tinv_pre [OF inv] by (auto simp: pre_ok_def split: if_splits)
    show "x = t_val ?t k" if "(k, t_wts ?t k, Some x) \<in> t_pre ?t u" "\<forall>u. t_dirty ?t u \<noteq> Some k" for u k x
    proof (cases "u = w")
      case True
      with that(1) X have "pre_ok s w (k, t_wts s k, Some x)" by simp
      with that(2) show ?thesis using tinv_pre_val [OF inv, of k x w] by (auto simp: pre_ok_def)
    next
      case False
      with that show ?thesis using tinv_pre_val [OF inv, of k x u] by simp
    qed
  qed
  moreover have "ts_obss d ?t"
  proof (rule ts_obssI; (unfold v)?)
    have Yok: "y \<in> t_obs ?t u \<Longrightarrow> read_ok s u y" for y u
      using Y by (cases "u = w") (auto simp: read_ok_def)
    show "a \<le> t_wts ?t k \<and> b \<le> t_rts ?t k" if "(k, a, b, x) \<in> t_obs ?t u" for u k a b x
      using Yok [OF that] tinv_obs [OF inv, of k a b x u] by (auto simp: read_ok_def)
    show "val_at d s r k = x" if "(k, a, b, x) \<in> t_obs ?t u" "covers ?t k a b r" for u k a b x r
    proof -
      from that(2) have r: "covers s k a b r" by (simp add: covers_def)
      from Yok [OF that(1)] consider "(k, a, b, x) \<in> t_obs s u"
        | "(k, t_wts s k, Some x) \<in> t_pre s u" "\<not> t_bit s k" "a = t_wts s k"
        by (auto simp: read_ok_def)
      then show ?thesis
      proof cases
        case 1
        then show ?thesis by (rule tinv_obs_val [OF inv _ r])
      next
        case 2
        have q: "k \<notin> t_todo s z" for z by (rule unlocked_quiet [OF inv 2(2)])
        then have "\<forall>z. t_dirty s z \<noteq> Some k" by (auto simp: t_todo_def)
        from tinv_pre_val [OF inv 2(1) this] quiet_settled [OF inv q] quiet_value [OF inv q] 2(3) r
        show ?thesis by (simp add: covers_def)
      qed
    qed
  qed
  moreover have "ts_valids d ?t"
  proof (rule ts_validsI; (unfold v)?)
    show "t_staged ?t u \<Longrightarrow> (k, x) \<in> t_valid ?t u \<Longrightarrow> val_at d s (t_cts ?t u) k = x \<and>
        (t_cts ?t u \<le> t_rts ?t k \<or> k \<in> fst ` set (t_writes ?t u))" for u k x
      using tinv_valid [OF inv, of u k x] l by (cases "u = w") (auto simp: t_idle_def)
  qed
  moreover have "ts_readers d ?t" by (rule readers_cong [OF tinv_readers [OF inv]]) (simp_all add: t)
  ultimately show ?thesis by (simp add: ts_inv_def)
qed

lemma ts_lock_inv:
  assumes inv: "ts_inv d s" and k: "\<not> t_bit s k" and id: "t_idle s w"
    and l: "t_cts s w \<le> l" "t_rts s k < l"
  shows "ts_inv d (s\<lparr>t_bit := (t_bit s)(k := True), t_lock := (t_lock s)(w := insert k (t_lock s w)),
      t_cts := (t_cts s)(w := l)\<rparr>)" (is "ts_inv d ?t")
proof -
  have t: "t_todo ?t = t_todo s" by (rule ext) (simp add: t_todo_def)
  have v: "val_at d ?t = val_at d s" by (intro ext) (simp add: val_at_def)
  have free: "k \<notin> t_lock s u" for u using tinv_bit [OF inv] k by blast
  have mem: "j \<in> t_lock ?t u \<longleftrightarrow> j \<in> t_lock s u \<or> j = k \<and> u = w" for j u by auto
  have "ts_locks ?t"
  proof (rule ts_locksI; (unfold mem t)?)
    show "t_bit ?t j \<longleftrightarrow> (\<exists>u. j \<in> t_lock s u \<or> j = k \<and> u = w)" for j
      using tinv_bit [OF inv] by auto
    show "j \<in> t_lock s u \<or> j = k \<and> u = w \<Longrightarrow> j \<in> t_lock s z \<or> j = k \<and> z = w \<Longrightarrow> u = z" for j u z
      using tinv_excl [OF inv] free by blast
    show "j \<in> t_lock s u \<or> j = k \<and> u = w \<Longrightarrow> t_rts ?t j < t_cts ?t u" for j u
      using tinv_cts [OF inv, of j u] l by (cases "u = w") auto
    show "t_staged ?t u \<Longrightarrow> j \<in> fst ` set (t_writes ?t u) \<Longrightarrow> j \<in> t_lock s u \<or> j = k \<and> u = w" for j u
      using tinv_writes [OF inv, of u j] by simp
  qed (use tinv_todo [OF inv] tinv_range [OF inv] in auto)
  moreover have "ts_stages ?t"
  proof (rule ts_stagesI; (unfold t)?)
    show "t_todo s u \<noteq> {} \<Longrightarrow> fst (t_point ?t u) = t_cts ?t u" for u
      using tinv_point [OF inv, of u] id by (cases "u = w") (auto simp: t_idle_def)
  qed (use tinv_pend [OF inv] tinv_dirty [OF inv] tinv_staged [OF inv] tinv_com [OF inv] in auto)
  moreover have "ts_values d ?t" by (rule values_cong [OF tinv_values [OF inv]]) (simp_all add: t)
  moreover have "ts_pres ?t" by (rule pres_cong [OF tinv_pres [OF inv]]) simp_all
  moreover have "ts_obss d ?t" by (rule obss_cong [OF tinv_obss [OF inv]]) simp_all
  moreover have "ts_valids d ?t"
  proof (rule ts_validsI; (unfold v)?)
    show "t_staged ?t u \<Longrightarrow> (j, x) \<in> t_valid ?t u \<Longrightarrow> val_at d s (t_cts ?t u) j = x \<and>
        (t_cts ?t u \<le> t_rts ?t j \<or> j \<in> fst ` set (t_writes ?t u))" for u j x
      using tinv_valid [OF inv, of u j x] id by (cases "u = w") (auto simp: t_idle_def)
  qed
  moreover have "ts_readers d ?t" by (rule readers_cong [OF tinv_readers [OF inv]]) (simp_all add: t)
  ultimately show ?thesis by (simp add: ts_inv_def)
qed

lemma ts_unlock_inv:
  assumes inv: "ts_inv d s" and k: "k \<in> t_lock s w" and id: "t_idle s w"
  shows "ts_inv d (s\<lparr>t_bit := (t_bit s)(k := False), t_lock := (t_lock s)(w := t_lock s w - {k})\<rparr>)"
    (is "ts_inv d ?t")
proof -
  have t: "t_todo ?t = t_todo s" by (rule ext) (simp add: t_todo_def)
  have v: "val_at d ?t = val_at d s" by (intro ext) (simp add: val_at_def)
  have other: "u \<noteq> w \<Longrightarrow> k \<notin> t_lock s u" for u using tinv_excl [OF inv k] by blast
  have mem: "j \<in> t_lock ?t u \<longleftrightarrow> j \<in> t_lock s u \<and> j \<noteq> k" for j u using other [of u] by auto
  have "ts_locks ?t"
  proof (rule ts_locksI; (unfold mem t)?)
    show "t_bit ?t j \<longleftrightarrow> (\<exists>u. j \<in> t_lock s u \<and> j \<noteq> k)" for j
      using tinv_bit [OF inv] by auto
    show "j \<in> t_todo s u \<Longrightarrow> j \<in> t_lock s u \<and> j \<noteq> k" for j u
      using tinv_todo [OF inv, of j u] other [of u] id by (cases "u = w") (auto simp: t_idle_def)
    show "t_staged ?t u \<Longrightarrow> j \<in> fst ` set (t_writes ?t u) \<Longrightarrow> j \<in> t_lock s u \<and> j \<noteq> k" for j u
      using tinv_writes [OF inv, of u j] other [of u] id by (cases "u = w") (auto simp: t_idle_def)
  qed (use tinv_excl [OF inv] tinv_cts [OF inv] tinv_range [OF inv] in auto)
  moreover have "ts_stages ?t" using tinv_stages [OF inv] by (simp add: ts_stages_def t)
  moreover have "ts_values d ?t" by (rule values_cong [OF tinv_values [OF inv]]) (simp_all add: t)
  moreover have "ts_pres ?t" by (rule pres_cong [OF tinv_pres [OF inv]]) simp_all
  moreover have "ts_obss d ?t" by (rule obss_cong [OF tinv_obss [OF inv]]) simp_all
  moreover have "ts_valids d ?t" using tinv_valids [OF inv] by (simp add: ts_valids_def v)
  moreover have "ts_readers d ?t" by (rule readers_cong [OF tinv_readers [OF inv]]) (simp_all add: t)
  ultimately show ?thesis by (simp add: ts_inv_def)
qed

lemma ts_stage_inv:
  assumes inv: "ts_inv d s" and id: "t_idle s w" and ws: "fst ` set ws \<subseteq> t_lock s w" "distinct (map fst ws)"
    and l: "t_cts s w \<le> l"
  shows "ts_inv d (s\<lparr>t_staged := (t_staged s)(w := True), t_writes := (t_writes s)(w := ws),
      t_valid := (t_valid s)(w := {}), t_cts := (t_cts s)(w := l)\<rparr>)" (is "ts_inv d ?t")
proof -
  have t: "t_todo ?t = t_todo s" by (rule ext) (simp add: t_todo_def)
  have v: "val_at d ?t = val_at d s" by (intro ext) (simp add: val_at_def)
  from id have tw: "t_todo s w = {}" by (simp add: t_idle_def)
  have "ts_locks ?t"
  proof (rule ts_locksI; (unfold t)?)
    show "k \<in> t_lock ?t u \<Longrightarrow> t_rts ?t k < t_cts ?t u" for k u
      using tinv_cts [OF inv, of k u] l by (cases "u = w") auto
    show "t_staged ?t u \<Longrightarrow> k \<in> fst ` set (t_writes ?t u) \<Longrightarrow> k \<in> t_lock ?t u" for k u
      using tinv_writes [OF inv, of u k] ws(1) by (cases "u = w") auto
  qed (use tinv_bit [OF inv] tinv_excl [OF inv] tinv_todo [OF inv] tinv_range [OF inv] in auto)
  moreover have "ts_stages ?t"
  proof (rule ts_stagesI; (unfold t)?)
    show "t_staged ?t u \<Longrightarrow> t_todo s u = {} \<and> distinct (map fst (t_writes ?t u))" for u
      using tinv_staged [OF inv, of u] tw ws(2) by (cases "u = w") auto
    show "t_todo s u \<noteq> {} \<Longrightarrow> fst (t_point ?t u) = t_cts ?t u" for u
      using tinv_point [OF inv, of u] tw by (cases "u = w") auto
  qed (use tinv_pend [OF inv] tinv_dirty [OF inv] tinv_com [OF inv] in auto)
  moreover have "ts_values d ?t" by (rule values_cong [OF tinv_values [OF inv]]) (simp_all add: t)
  moreover have "ts_pres ?t" by (rule pres_cong [OF tinv_pres [OF inv]]) simp_all
  moreover have "ts_obss d ?t" by (rule obss_cong [OF tinv_obss [OF inv]]) simp_all
  moreover have "ts_valids d ?t"
  proof (rule ts_validsI; (unfold v)?)
    show "t_staged ?t u \<Longrightarrow> (j, x) \<in> t_valid ?t u \<Longrightarrow> val_at d s (t_cts ?t u) j = x \<and>
        (t_cts ?t u \<le> t_rts ?t j \<or> j \<in> fst ` set (t_writes ?t u))" for u j x
      using tinv_valid [OF inv, of u j x] by (cases "u = w") auto
  qed
  moreover have "ts_readers d ?t" by (rule readers_cong [OF tinv_readers [OF inv]]) (simp_all add: t)
  ultimately show ?thesis by (simp add: ts_inv_def)
qed

lemma staged_quiet: "ts_inv d s \<Longrightarrow> t_staged s w \<Longrightarrow> k \<in> t_lock s w \<Longrightarrow> k \<notin> t_todo s u"
  using tinv_todo tinv_excl tinv_staged by blast

lemma staged_write_quiet:
  "ts_inv d s \<Longrightarrow> t_staged s w \<Longrightarrow> k \<in> fst ` set (t_writes s w) \<Longrightarrow> k \<notin> t_todo s u"
  by (rule staged_quiet [OF _ _ tinv_writes])

text \<open>The observed current version of a quiet record is valid at every later time.\<close>

lemma quiet_obs:
  assumes inv: "ts_inv d s" and q: "\<And>u. k \<notin> t_todo s u"
    and o: "(k, t_wts s k, b, v) \<in> t_obs s w" and t: "t_wts s k \<le> t"
  shows "val_at d s t k = v"
proof -
  have "covers s k (t_wts s k) b (t_wts s k)" using tinv_range [OF inv] by (simp add: covers_def)
  from tinv_obs_val [OF inv o this] have "val_at d s (t_wts s k) k = v" .
  with quiet_value [OF inv q order_refl] quiet_value [OF inv q t] show ?thesis by simp
qed

lemma ts_validate_inv:
  assumes inv: "ts_inv d s" and st: "t_staged s w" and o: "(k, a, b, v) \<in> t_obs s w"
    and a: "a \<le> t_cts s w"
    and c: "t_cts s w \<le> b \<or> a = t_wts s k \<and> (t_cts s w \<le> t_rts s k \<or> k \<in> fst ` set (t_writes s w))"
  shows "ts_inv d (s\<lparr>t_valid := (t_valid s)(w := insert (k, v) (t_valid s w))\<rparr>)" (is "ts_inv d ?t")
proof -
  have t: "t_todo ?t = t_todo s" by (rule ext) (simp add: t_todo_def)
  have v: "val_at d ?t = val_at d s" by (intro ext) (simp add: val_at_def)
  have new: "val_at d s (t_cts s w) k = v \<and> (t_cts s w \<le> t_rts s k \<or> k \<in> fst ` set (t_writes s w))"
  proof (cases "covers s k a b (t_cts s w)")
    case True
    have "t_cts s w \<le> t_rts s k" using True tinv_obs [OF inv o] by (auto simp: covers_def)
    with tinv_obs_val [OF inv o True] show ?thesis by simp
  next
    case False
    with a c have k: "a = t_wts s k" "k \<in> fst ` set (t_writes s w)" by (auto simp: covers_def)
    from quiet_obs [OF inv staged_write_quiet [OF inv st k(2)]] o a k show ?thesis by simp
  qed
  have "ts_locks ?t" using tinv_locks [OF inv] by (simp add: ts_locks_def t)
  moreover have "ts_stages ?t" using tinv_stages [OF inv] by (simp add: ts_stages_def t)
  moreover have "ts_values d ?t" by (rule values_cong [OF tinv_values [OF inv]]) (simp_all add: t)
  moreover have "ts_pres ?t" by (rule pres_cong [OF tinv_pres [OF inv]]) simp_all
  moreover have "ts_obss d ?t" by (rule obss_cong [OF tinv_obss [OF inv]]) simp_all
  moreover have "ts_valids d ?t"
  proof (rule ts_validsI; (unfold v)?)
    show "t_staged ?t u \<Longrightarrow> (j, x) \<in> t_valid ?t u \<Longrightarrow> val_at d s (t_cts ?t u) j = x \<and>
        (t_cts ?t u \<le> t_rts ?t j \<or> j \<in> fst ` set (t_writes ?t u))" for u j x
      using tinv_valid [OF inv, of u j x] new by (cases "u = w") auto
  qed
  moreover have "ts_readers d ?t" by (rule readers_cong [OF tinv_readers [OF inv]]) (simp_all add: t)
  ultimately show ?thesis by (simp add: ts_inv_def)
qed

lemma ts_extend_inv:
  assumes inv: "ts_inv d s" and st: "t_staged s w" and o: "(k, a, b, v) \<in> t_obs s w"
    and a: "a \<le> t_cts s w" "a = t_wts s k" and nb: "\<not> t_bit s k"
    and g: "t_wts s k \<le> wt" "t_rts s k \<le> rt" "wt \<le> rt" "t_cts s w \<le> rt"
  shows "ts_inv d (s\<lparr>t_wts := (t_wts s)(k := wt), t_rts := (t_rts s)(k := rt),
      t_valid := (t_valid s)(w := insert (k, v) (t_valid s w))\<rparr>)" (is "ts_inv d ?t")
proof -
  have t: "t_todo ?t = t_todo s" by (rule ext) (simp add: t_todo_def)
  have v: "val_at d ?t = val_at d s" by (intro ext) (simp add: val_at_def)
  have q: "k \<notin> t_todo s u" for u by (rule unlocked_quiet [OF inv nb])
  have wts: "t_wts s j \<le> t_wts ?t j" for j using g by simp
  have rts: "t_rts s j \<le> t_rts ?t j" for j using g by simp
  have "ts_locks ?t"
  proof (rule ts_locksI; (unfold t)?)
    show "j \<in> t_lock ?t u \<Longrightarrow> t_rts ?t j < t_cts ?t u" for j u
      using tinv_cts [OF inv, of j u] tinv_bit [OF inv, of k] nb by (cases "j = k") auto
    show "t_staged ?t u \<Longrightarrow> j \<in> fst ` set (t_writes ?t u) \<Longrightarrow> j \<in> t_lock ?t u" for j u
      using tinv_writes [OF inv, of u j] by simp
  qed (use tinv_bit [OF inv] tinv_excl [OF inv] tinv_todo [OF inv] tinv_range [OF inv] g in auto)
  moreover have "ts_stages ?t" using tinv_stages [OF inv] by (simp add: ts_stages_def t)
  moreover have "ts_values d ?t"
  proof (rule ts_valuesI; (unfold t)?)
    show "fst (fst x) \<le> t_wts ?t j \<or> (\<exists>w. j \<in> t_todo s w \<and> fst x = t_point ?t w)"
      if "x \<in> set (t_com ?t)" "writes_key j x" for x j
      using tinv_writer [OF inv, of x j] that wts [of j] by auto
  qed (use tinv_settled [OF inv] tinv_pending [OF inv] in auto)
  moreover have "ts_pres ?t"
  proof (rule ts_presI)
    show "e \<le> t_wts ?t j" if "(j, e, x) \<in> t_pre ?t u" for u j e x
      using tinv_pre [OF inv, of j e x u] that wts [of j] by simp
    show "x = t_val ?t j" if "(j, t_wts ?t j, Some x) \<in> t_pre ?t u" "\<forall>z. t_dirty ?t z \<noteq> Some j" for u j x
    proof -
      from tinv_pre [OF inv, of j "t_wts ?t j" "Some x" u] that(1) wts [of j]
      have "t_wts ?t j = t_wts s j" by simp
      with that tinv_pre_val [OF inv, of j x u] show ?thesis by simp
    qed
  qed
  moreover have "ts_obss d ?t"
  proof (rule ts_obssI; (unfold v)?)
    show "e \<le> t_wts ?t j \<and> f \<le> t_rts ?t j" if "(j, e, f, x) \<in> t_obs ?t u" for u j e f x
      using tinv_obs [OF inv, of j e f x u] that wts [of j] rts [of j] by simp
    show "val_at d s r j = x" if b: "(j, e, f, x) \<in> t_obs ?t u" and c: "covers ?t j e f r" for u j e f x r
    proof (cases "covers s j e f r")
      case True
      with b tinv_obs_val [OF inv] show ?thesis by simp
    next
      case False
      with c have jk: "j = k" "e = wt" "e \<le> r" by (auto simp: covers_def split: if_splits)
      with b tinv_obs [OF inv, of j e f x u] g have "e = t_wts s k" by simp
      with b jk quiet_obs [OF inv q] show ?thesis by simp
    qed
  qed
  moreover have "ts_valids d ?t"
  proof (rule ts_validsI; (unfold v)?)
    have new: "val_at d s (t_cts s w) k = v" using quiet_obs [OF inv q] o a by simp
    show "t_staged ?t u \<Longrightarrow> (j, x) \<in> t_valid ?t u \<Longrightarrow> val_at d s (t_cts ?t u) j = x \<and>
        (t_cts ?t u \<le> t_rts ?t j \<or> j \<in> fst ` set (t_writes ?t u))" for u j x
      using tinv_valid [OF inv, of u j x] rts [of j] new g st
      by (cases "u = w"; cases "(j, x) = (k, v)") auto
  qed
  moreover have "ts_readers d ?t"
  proof (rule ts_readersI; (unfold t)?)
    show "ser d (t_com ?t) p j = x \<and> (fst p \<le> t_rts ?t j \<or> (\<exists>z. j \<in> t_todo s z \<and> t_point ?t z = p))"
      if "(p, u) \<in> set (t_com ?t)" "(j, x) \<in> set (tx_reads u)" for p u j x
      using tinv_reader [OF inv, of p u j x] that rts [of j] by auto
  qed
  ultimately show ?thesis by (simp add: ts_inv_def)
qed

lemma ts_abandon_inv:
  assumes inv: "ts_inv d s"
  shows "ts_inv d (s\<lparr>t_staged := (t_staged s)(w := False), t_writes := (t_writes s)(w := []),
      t_valid := (t_valid s)(w := {})\<rparr>)" (is "ts_inv d ?t")
proof -
  have t: "t_todo ?t = t_todo s" by (rule ext) (simp add: t_todo_def)
  have v: "val_at d ?t = val_at d s" by (intro ext) (simp add: val_at_def)
  have "ts_locks ?t"
  proof (rule ts_locksI; (unfold t)?)
    show "t_staged ?t u \<Longrightarrow> k \<in> fst ` set (t_writes ?t u) \<Longrightarrow> k \<in> t_lock ?t u" for k u
      using tinv_writes [OF inv, of u k] by (cases "u = w") auto
  qed (use tinv_bit [OF inv] tinv_excl [OF inv] tinv_cts [OF inv] tinv_todo [OF inv] tinv_range [OF inv] in auto)
  moreover have "ts_stages ?t"
  proof (rule ts_stagesI; (unfold t)?)
    show "t_staged ?t u \<Longrightarrow> t_todo s u = {} \<and> distinct (map fst (t_writes ?t u))" for u
      using tinv_staged [OF inv, of u] by (cases "u = w") auto
  qed (use tinv_pend [OF inv] tinv_dirty [OF inv] tinv_com [OF inv] tinv_point [OF inv] in auto)
  moreover have "ts_values d ?t" by (rule values_cong [OF tinv_values [OF inv]]) (simp_all add: t)
  moreover have "ts_pres ?t" by (rule pres_cong [OF tinv_pres [OF inv]]) simp_all
  moreover have "ts_obss d ?t" by (rule obss_cong [OF tinv_obss [OF inv]]) simp_all
  moreover have "ts_valids d ?t"
  proof (rule ts_validsI; (unfold v)?)
    show "t_staged ?t u \<Longrightarrow> (j, x) \<in> t_valid ?t u \<Longrightarrow> val_at d s (t_cts ?t u) j = x \<and>
        (t_cts ?t u \<le> t_rts ?t j \<or> j \<in> fst ` set (t_writes ?t u))" for u j x
      using tinv_valid [OF inv, of u j x] by (cases "u = w") auto
  qed
  moreover have "ts_readers d ?t" by (rule readers_cong [OF tinv_readers [OF inv]]) (simp_all add: t)
  ultimately show ?thesis by (simp add: ts_inv_def)
qed

section \<open>The commit\<close>

lemma ts_commit_inv:
  assumes inv: "ts_inv d s" and st: "t_staged s w" and rs: "set rs \<subseteq> t_valid s w"
  shows "ts_inv d (s\<lparr>t_staged := (t_staged s)(w := False), t_writes := (t_writes s)(w := []),
      t_valid := (t_valid s)(w := {}), t_pend := (t_pend s)(w := t_writes s w),
      t_point := (t_point s)(w := (t_cts s w, length (t_com s))),
      t_com := t_com s @ [((t_cts s w, length (t_com s)), \<lparr>tx_reads = rs, tx_writes = t_writes s w\<rparr>)]\<rparr>)"
    (is "ts_inv d ?t")
proof -
  define c n where "c = t_cts s w" and "n = length (t_com s)"
  define x where "x = \<lparr>tx_reads = rs, tx_writes = t_writes s w\<rparr>"
  define W where "W = fst ` set (t_writes s w)"
  have com: "t_com ?t = t_com s @ [((c, n), x)]" by (simp add: c_def n_def x_def)
  have tw: "t_todo s w = {}" "t_pend s w = []" "t_dirty s w = None"
    using tinv_staged [OF inv st] by (auto simp: t_todo_def)
  have t: "t_todo ?t = (t_todo s)(w := W)" by (rule ext) (simp add: t_todo_def tw W_def)
  have lk: "k \<in> W \<Longrightarrow> k \<in> t_lock s w" for k using tinv_writes [OF inv st] by (simp add: W_def)
  have qW: "k \<in> W \<Longrightarrow> k \<notin> t_todo s u" for k u using staged_quiet [OF inv st lk] .
  have low: "k \<in> W \<Longrightarrow> t_rts s k < c" for k using tinv_cts [OF inv lk] by (simp add: c_def)
  have other: "k \<notin> W \<Longrightarrow> ser d (t_com ?t) p k = ser d (t_com s) p k" for k p
    unfolding com by (rule ser_add_other) (simp add: W_def x_def)
  have keep: "ser d (t_com ?t) p k = ser d (t_com s) p k" if "k \<in> W \<Longrightarrow> fst p \<le> t_rts s k" for k p
  proof (cases "k \<in> W")
    case True
    with that low [of k] have "\<not> (c, n) < p" by (cases p) auto
    then show ?thesis unfolding com by (simp add: ser_add_later)
  qed (rule other)
  have at: "val_at d ?t r k = val_at d s r k" if "k \<in> W \<Longrightarrow> r \<le> t_rts s k" for r k
  proof (cases "k \<in> W")
    case True
    with that low [of k] have "\<not> (c, n) < (Suc r, 0)" by simp
    then show ?thesis unfolding val_at_def com by (simp add: ser_add_later)
  qed (simp only: val_at_def other not_False_eq_True)
  have all: "k \<notin> W \<Longrightarrow> ser_all d (t_com ?t) k = ser_all d (t_com s) k" for k
    unfolding com by (rule ser_all_add_other) (simp add: W_def x_def)
  have "ts_locks ?t"
  proof (rule ts_locksI; (unfold t)?)
    show "k \<in> ((t_todo s)(w := W)) u \<Longrightarrow> k \<in> t_lock ?t u" for k u
      using tinv_todo [OF inv, of k u] lk by (cases "u = w") auto
    show "t_staged ?t u \<Longrightarrow> k \<in> fst ` set (t_writes ?t u) \<Longrightarrow> k \<in> t_lock ?t u" for k u
      using tinv_writes [OF inv, of u k] by (cases "u = w") auto
  qed (use tinv_bit [OF inv] tinv_excl [OF inv] tinv_cts [OF inv] tinv_range [OF inv] in auto)
  moreover have "ts_stages ?t"
  proof (rule ts_stagesI; (unfold t)?)
    show "distinct (map fst (t_pend ?t u))" for u
      using tinv_pend [OF inv, of u] tinv_staged [OF inv st] by simp
    show "t_dirty ?t u = Some k \<Longrightarrow> k \<notin> fst ` set (t_pend ?t u)" for u k
      using tinv_dirty [OF inv, of u k] tw by (cases "u = w") auto
    show "t_staged ?t u \<Longrightarrow> ((t_todo s)(w := W)) u = {} \<and> distinct (map fst (t_writes ?t u))" for u
      using tinv_staged [OF inv, of u] by (cases "u = w") auto
    have "(c, n) \<notin> fst ` set (t_com s)" using tinv_com(2) [OF inv] by (force simp: n_def)
    then show "distinct (map fst (t_com ?t))" using tinv_com(1) [OF inv] unfolding com by simp
    show "y \<in> set (t_com ?t) \<Longrightarrow> snd (fst y) < length (t_com ?t)" for y
      using tinv_com(2) [OF inv, of y] unfolding com by (auto simp: n_def)
    show "((t_todo s)(w := W)) u \<noteq> {} \<Longrightarrow> fst (t_point ?t u) = t_cts ?t u" for u
      using tinv_point [OF inv, of u] by (cases "u = w") auto
  qed
  moreover have "ts_values d ?t"
  proof (rule ts_valuesI; (unfold t)?)
    show "t_val ?t k = ser_all d (t_com ?t) k" if a: "\<forall>u. k \<notin> fst ` set (t_pend ?t u)" for k
    proof -
      have "k \<notin> W" using spec [OF a, of w] by (simp add: W_def)
      have "k \<notin> fst ` set (t_pend s u)" for u using spec [OF a, of u] tw by (cases "u = w") auto
      then show ?thesis using tinv_settled [OF inv, of k] all [OF \<open>k \<notin> W\<close>] by simp
    qed
    show "ser_all d (t_com ?t) k = f (t_val ?t k)" if a: "(k, f) \<in> set (t_pend ?t u)" for u k f
    proof (cases "u = w")
      case True
      with a have kf: "(k, f) \<in> set (t_writes s w)" by simp
      then have k: "k \<in> W" unfolding W_def by force
      have "ser_all d (t_com ?t) k = apply_tx x (ser_all d (t_com s)) k"
        unfolding com
      proof (rule ser_all_add_write)
        show "fst y < (c, n)" if "y \<in> set (t_com s)" "writes_key k y" for y
          using tinv_writer [OF inv that] qW [OF k] low [OF k] tinv_range [OF inv, of k]
          by (cases "fst y") auto
      qed
      also have "\<dots> = f (ser_all d (t_com s) k)"
        by (rule apply_tx_in) (use tinv_staged [OF inv st] kf in \<open>simp_all add: x_def\<close>)
      finally show ?thesis using quiet_settled [OF inv qW [OF k]] by simp
    next
      case False
      with a have kf: "(k, f) \<in> set (t_pend s u)" by simp
      then have "k \<in> t_todo s u" by (force simp: t_todo_def)
      with qW have "k \<notin> W" by blast
      with tinv_pending [OF inv kf] all show ?thesis by simp
    qed
    show "fst (fst y) \<le> t_wts ?t k \<or> (\<exists>u. k \<in> ((t_todo s)(w := W)) u \<and> fst y = t_point ?t u)"
      if y: "y \<in> set (t_com ?t)" "writes_key k y" for y k
    proof (cases "y = ((c, n), x)")
      case True
      with y(2) have "k \<in> W" by (simp add: writes_key_def x_def W_def)
      with True show ?thesis by (intro disjI2 exI [of _ w]) (simp add: c_def n_def)
    next
      case False
      with y have y: "y \<in> set (t_com s)" "writes_key k y" unfolding com by simp_all
      from tinv_writer [OF inv this] consider "fst (fst y) \<le> t_wts s k"
        | u where "k \<in> t_todo s u" "fst y = t_point s u" by blast
      then show ?thesis
      proof cases
        case (2 u)
        with tw have "u \<noteq> w" by auto
        with 2 show ?thesis by (intro disjI2 exI [of _ u]) simp
      qed simp
    qed
  qed
  moreover have "ts_pres ?t" by (rule pres_cong [OF tinv_pres [OF inv]]) simp_all
  moreover have "ts_obss d ?t"
  proof (rule ts_obssI)
    show "val_at d ?t r k = v" if o: "(k, a, b, v) \<in> t_obs ?t u" and c: "covers ?t k a b r" for u k a b v r
    proof -
      from o c have o: "(k, a, b, v) \<in> t_obs s u" and c: "covers s k a b r" by (simp_all add: covers_def)
      have "r \<le> t_rts s k" using c tinv_obs [OF inv o] by (auto simp: covers_def)
      then show ?thesis using tinv_obs_val [OF inv o c] at [of k r] by simp
    qed
  qed (use tinv_obs [OF inv] in auto)
  moreover have "ts_valids d ?t"
  proof (rule ts_validsI)
    show "val_at d ?t (t_cts ?t u) k = v \<and> (t_cts ?t u \<le> t_rts ?t k \<or> k \<in> fst ` set (t_writes ?t u))"
      if "t_staged ?t u" "(k, v) \<in> t_valid ?t u" for u k v
    proof -
      from that have u: "u \<noteq> w" "t_staged s u" "(k, v) \<in> t_valid s u" by (auto split: if_splits)
      note V = tinv_valid [OF inv u(2,3)]
      have "t_cts s u \<le> t_rts s k" if "k \<in> W"
        using V tinv_writes [OF inv u(2), of k] lk [OF that] tinv_excl [OF inv] u(1) by blast
      with V at [of k "t_cts s u"] u(1) show ?thesis by simp
    qed
  qed
  moreover have "ts_readers d ?t"
  proof (rule ts_readersI; (unfold t)?)
    show "ser d (t_com ?t) p k = v \<and>
        (fst p \<le> t_rts ?t k \<or> (\<exists>z. k \<in> ((t_todo s)(w := W)) z \<and> t_point ?t z = p))"
      if a: "(p, u) \<in> set (t_com ?t)" "(k, v) \<in> set (tx_reads u)" for p u k v
    proof (cases "(p, u) = ((c, n), x)")
      case True
      with a(2) rs have kv: "(k, v) \<in> t_valid s w" by (auto simp: x_def)
      note V = tinv_valid [OF inv st kv]
      have "ser d (t_com ?t) (c, n) k = ser d (t_com s) (c, n) k"
        unfolding com by (simp add: ser_add_later)
      also have "\<dots> = ser d (t_com s) (Suc c, 0) k"
      proof (rule ser_stable [symmetric])
        show "\<not> writes_key k y" if "y \<in> set (t_com s)" "(c, n) \<le> fst y" "fst y < (Suc c, 0)" for y
          using tinv_com(2) [OF inv that(1)] that(2,3) by (cases "fst y") (auto simp: n_def)
      qed simp
      also have "\<dots> = v" using V by (simp add: val_at_def c_def)
      finally have "ser d (t_com ?t) (c, n) k = v" .
      moreover have "c \<le> t_rts s k \<or> k \<in> W" using V by (simp add: c_def W_def)
      ultimately show ?thesis using True by (auto simp: c_def n_def intro: exI [of _ w])
    next
      case False
      with a(1) have pu: "(p, u) \<in> set (t_com s)" unfolding com by auto
      note R = tinv_reader [OF inv pu a(2)]
      from R have v: "ser d (t_com s) p k = v" by blast
      from R consider "fst p \<le> t_rts s k" | z where "k \<in> t_todo s z" "t_point s z = p" by blast
      then show ?thesis
      proof cases
        case 1
        then show ?thesis using v keep [of k p] by simp
      next
        case (2 z)
        from 2(1) qW have "k \<notin> W" by blast
        moreover have "z \<noteq> w" using 2 tw by auto
        ultimately show ?thesis using v other [of k p] 2 by (auto intro: exI [of _ z])
      qed
    qed
  qed
  ultimately show ?thesis by (simp add: ts_inv_def)
qed

section \<open>The write phase\<close>

lemma ts_copy_inv:
  assumes inv: "ts_inv d s" and pe: "t_pend s w = (k, f) # ps" and di: "t_dirty s w = None"
  shows "ts_inv d (s\<lparr>t_val := (t_val s)(k := f (t_val s k)), t_pend := (t_pend s)(w := ps),
      t_dirty := (t_dirty s)(w := Some k)\<rparr>)" (is "ts_inv d ?t")
proof -
  have t: "t_todo ?t = t_todo s" by (rule ext) (use pe di in \<open>simp add: t_todo_def\<close>)
  have v: "val_at d ?t = val_at d s" by (intro ext) (simp add: val_at_def)
  have kps: "k \<notin> fst ` set ps" and dps: "distinct (map fst ps)"
    using tinv_pend [OF inv, of w] pe by auto
  have kt: "k \<in> t_todo s w" using pe by (simp add: t_todo_def)
  have other: "k \<in> t_todo s u \<Longrightarrow> u = w" for u
    using tinv_todo [OF inv kt] tinv_todo [OF inv, of k u] tinv_excl [OF inv] by blast
  have pend: "(j, g) \<in> set (t_pend ?t u) \<longleftrightarrow> (j, g) \<in> set (t_pend s u) \<and> j \<noteq> k" for j g u
  proof (cases "u = w")
    case True
    then show ?thesis using kps pe by (auto simp: image_iff)
  next
    case False
    then show ?thesis using other [of u] by (force simp: t_todo_def)
  qed
  have "ts_locks ?t" using tinv_locks [OF inv] by (simp add: ts_locks_def t)
  moreover have "ts_stages ?t"
  proof (rule ts_stagesI; (unfold t)?)
    show "t_dirty ?t u = Some j \<Longrightarrow> j \<notin> fst ` set (t_pend ?t u)" for u j
      using tinv_dirty [OF inv, of u j] kps by (cases "u = w") auto
    show "distinct (map fst (t_pend ?t u))" for u
      using tinv_pend [OF inv, of u] dps by simp
    show "t_staged ?t u \<Longrightarrow> t_todo s u = {} \<and> distinct (map fst (t_writes ?t u))" for u
      using tinv_staged [OF inv, of u] by simp
    show "t_todo s u \<noteq> {} \<Longrightarrow> fst (t_point ?t u) = t_cts ?t u" for u
      using tinv_point [OF inv, of u] by simp
  qed (use tinv_com [OF inv] in auto)
  moreover have "ts_values d ?t"
  proof (rule ts_valuesI; (unfold t)?)
    show "t_val ?t j = ser_all d (t_com ?t) j" if a: "\<forall>u. j \<notin> fst ` set (t_pend ?t u)" for j
    proof (cases "j = k")
      case True
      with tinv_pending [OF inv, of k f w] pe show ?thesis by simp
    next
      case False
      have "\<forall>u. j \<notin> fst ` set (t_pend s u)"
      proof
        fix u show "j \<notin> fst ` set (t_pend s u)"
          using spec [OF a, of u] False pe by (cases "u = w") auto
      qed
      with False tinv_settled [OF inv, of j] show ?thesis by simp
    qed
    show "ser_all d (t_com ?t) j = g (t_val ?t j)" if a: "(j, g) \<in> set (t_pend ?t u)" for u j g
    proof -
      have "(j, g) \<in> set (t_pend s u)" "j \<noteq> k" using a unfolding pend by auto
      then show ?thesis using tinv_pending [OF inv, of j g u] by simp
    qed
    show "fst (fst y) \<le> t_wts ?t j \<or> (\<exists>u. j \<in> t_todo s u \<and> fst y = t_point ?t u)"
      if "y \<in> set (t_com ?t)" "writes_key j y" for y j
      using tinv_writer [OF inv, of y j] that by simp
  qed
  moreover have "ts_pres ?t"
  proof (rule ts_presI)
    show "x = t_val ?t j" if a: "(j, t_wts ?t j, Some x) \<in> t_pre ?t u" "\<forall>z. t_dirty ?t z \<noteq> Some j" for u j x
    proof -
      from a have j: "j \<noteq> k" using spec [OF a(2), of w] by auto
      have "t_dirty s z \<noteq> Some j" for z using spec [OF a(2), of z] di by (cases "z = w") auto
      then show ?thesis using tinv_pre_val [OF inv, of j x u] a(1) j by simp
    qed
    show "(j, a, x) \<in> t_pre ?t u \<Longrightarrow> a \<le> t_wts ?t j" for u j a x
      using tinv_pre [OF inv, of j a x u] by simp
  qed
  moreover have "ts_obss d ?t" by (rule obss_cong [OF tinv_obss [OF inv]]) simp_all
  moreover have "ts_valids d ?t" using tinv_valids [OF inv] by (simp add: ts_valids_def v)
  moreover have "ts_readers d ?t" by (rule readers_cong [OF tinv_readers [OF inv]]) (simp_all add: t)
  ultimately show ?thesis by (simp add: ts_inv_def)
qed

lemma ts_install_inv:
  assumes inv: "ts_inv d s" and di: "t_dirty s w = Some k"
  shows "ts_inv d (s\<lparr>t_wts := (t_wts s)(k := t_cts s w), t_rts := (t_rts s)(k := t_cts s w),
      t_bit := (t_bit s)(k := False), t_lock := (t_lock s)(w := t_lock s w - {k}),
      t_dirty := (t_dirty s)(w := None)\<rparr>)" (is "ts_inv d ?t")
proof -
  have v: "val_at d ?t = val_at d s" by (intro ext) (simp add: val_at_def)
  have kt: "k \<in> t_todo s w" using di by (simp add: t_todo_def)
  have k: "k \<in> t_lock s w" by (rule tinv_todo [OF inv kt])
  have other: "k \<in> t_lock s u \<Longrightarrow> u = w" for u using k tinv_excl [OF inv] by blast
  have kp: "k \<notin> fst ` set (t_pend s w)" by (rule tinv_dirty [OF inv di])
  have td: "j \<in> t_todo ?t u \<longleftrightarrow> j \<in> t_todo s u \<and> j \<noteq> k" for j u
    using di kp other [of u] tinv_todo [OF inv, of k u] by (cases "u = w") (auto simp: t_todo_def)
  have mem: "j \<in> t_lock ?t u \<longleftrightarrow> j \<in> t_lock s u \<and> j \<noteq> k" for j u using other [of u] by auto
  have st: "\<not> t_staged s w" using tinv_staged [OF inv, of w] kt by blast
  have low: "t_rts s k < t_cts s w" by (rule tinv_cts [OF inv k])
  have wts: "t_wts s j \<le> t_wts ?t j" and rts: "t_rts s j \<le> t_rts ?t j" for j
    using low tinv_range [OF inv, of k] by auto
  have pt: "fst (t_point s w) = t_cts s w" using tinv_point [OF inv, of w] kt by blast
  have "ts_locks ?t"
  proof (rule ts_locksI; (unfold mem td)?)
    show "t_bit ?t j \<longleftrightarrow> (\<exists>u. j \<in> t_lock s u \<and> j \<noteq> k)" for j
      using tinv_bit [OF inv, of j] by auto
    show "t_staged ?t u \<Longrightarrow> i \<in> fst ` set (t_writes ?t u) \<Longrightarrow> i \<in> t_lock s u \<and> i \<noteq> k" for i u
      using tinv_writes [OF inv, of u i] other [of u] st by (cases "u = w") auto
    show "j \<in> t_lock s u \<and> j \<noteq> k \<Longrightarrow> t_rts ?t j < t_cts ?t u" for j u
      using tinv_cts [OF inv, of j u] by simp
  qed (use tinv_excl [OF inv] tinv_todo [OF inv] tinv_range [OF inv] in auto)
  moreover have "ts_stages ?t"
  proof (rule ts_stagesI)
    show "t_dirty ?t u = Some j \<Longrightarrow> j \<notin> fst ` set (t_pend ?t u)" for u j
      using tinv_dirty [OF inv, of u j] by (cases "u = w") auto
    show "t_staged ?t u \<Longrightarrow> t_todo ?t u = {} \<and> distinct (map fst (t_writes ?t u))" for u
      using tinv_staged [OF inv, of u] td [of _ u] by auto
    show "t_todo ?t u \<noteq> {} \<Longrightarrow> fst (t_point ?t u) = t_cts ?t u" for u
    proof -
      assume "t_todo ?t u \<noteq> {}"
      then have "t_todo s u \<noteq> {}" using td [of _ u] by blast
      then show ?thesis using tinv_point [OF inv, of u] by simp
    qed
  qed (use tinv_pend [OF inv] tinv_com [OF inv] in auto)
  moreover have "ts_values d ?t"
  proof (rule ts_valuesI; (unfold td)?)
    show "fst (fst y) \<le> t_wts ?t j \<or> (\<exists>u. (j \<in> t_todo s u \<and> j \<noteq> k) \<and> fst y = t_point ?t u)"
      if "y \<in> set (t_com ?t)" "writes_key j y" for y j
    proof (cases "j = k")
      case True
      from that True tinv_writer [OF inv, of y k] consider "fst (fst y) \<le> t_wts s k"
        | u where "k \<in> t_todo s u" "fst y = t_point s u" by auto
      then show ?thesis
      proof cases
        case 1
        with wts [of k] True show ?thesis by simp
      next
        case (2 u)
        with other [of u] tinv_todo [OF inv, of k u] have "u = w" by blast
        with 2 pt True show ?thesis by simp
      qed
    next
      case False
      with that tinv_writer [OF inv, of y j] show ?thesis by simp
    qed
  qed (use tinv_settled [OF inv] tinv_pending [OF inv] in auto)
  moreover have "ts_pres ?t"
  proof (rule ts_presI)
    show "a \<le> t_wts ?t j" if "(j, a, x) \<in> t_pre ?t u" for u j a x
      using tinv_pre [OF inv, of j a x u] that wts [of j] by simp
    show "x = t_val ?t j" if a: "(j, t_wts ?t j, Some x) \<in> t_pre ?t u" "\<forall>z. t_dirty ?t z \<noteq> Some j" for u j x
    proof -
      have "t_wts ?t j \<le> t_wts s j" using tinv_pre [OF inv, of j "t_wts ?t j" "Some x" u] a(1) by simp
      with low tinv_range [OF inv, of k] have j: "j \<noteq> k" by auto
      have "t_dirty s z \<noteq> Some j" for z using spec [OF a(2), of z] di j by (cases "z = w") auto
      then show ?thesis using tinv_pre_val [OF inv, of j x u] a(1) j by simp
    qed
  qed
  moreover have "ts_obss d ?t"
  proof (rule ts_obssI; (unfold v)?)
    show "a \<le> t_wts ?t j \<and> b \<le> t_rts ?t j" if "(j, a, b, x) \<in> t_obs ?t u" for u j a b x
      using tinv_obs [OF inv, of j a b x u] that wts [of j] rts [of j] by simp
    show "val_at d s r j = x" if o: "(j, a, b, x) \<in> t_obs ?t u" and c: "covers ?t j a b r" for u j a b x r
    proof -
      from o have o: "(j, a, b, x) \<in> t_obs s u" by simp
      have "covers s j a b r"
        using c tinv_obs [OF inv o] low tinv_range [OF inv, of k]
        by (cases "j = k") (auto simp: covers_def)
      then show ?thesis by (rule tinv_obs_val [OF inv o])
    qed
  qed
  moreover have "ts_valids d ?t"
  proof (rule ts_validsI; (unfold v)?)
    show "val_at d s (t_cts ?t u) j = x \<and> (t_cts ?t u \<le> t_rts ?t j \<or> j \<in> fst ` set (t_writes ?t u))"
      if "t_staged ?t u" "(j, x) \<in> t_valid ?t u" for u j x
      using tinv_valid [OF inv, of u j x] that rts [of j] by auto
  qed
  moreover have "ts_readers d ?t"
  proof (rule ts_readersI; (unfold td)?)
    show "ser d (t_com ?t) p j = x \<and>
        (fst p \<le> t_rts ?t j \<or> (\<exists>z. (j \<in> t_todo s z \<and> j \<noteq> k) \<and> t_point ?t z = p))"
      if a: "(p, u) \<in> set (t_com ?t)" "(j, x) \<in> set (tx_reads u)" for p u j x
    proof -
      from a have pu: "(p, u) \<in> set (t_com s)" by simp
      note R = tinv_reader [OF inv pu a(2)]
      from R have x: "ser d (t_com s) p j = x" by blast
      from R consider "fst p \<le> t_rts s j" | z where "j \<in> t_todo s z" "t_point s z = p" by blast
      then show ?thesis
      proof cases
        case 1
        with x rts [of j] show ?thesis by simp
      next
        case (2 z)
        show ?thesis
        proof (cases "j = k")
          case True
          with 2 other [of z] tinv_todo [OF inv, of k z] have "z = w" by blast
          with 2 pt x True show ?thesis by simp
        next
          case False
          with 2 x show ?thesis by (auto intro: exI [of _ z])
        qed
      qed
    qed
  qed
  ultimately show ?thesis by (simp add: ts_inv_def)
qed

section \<open>The system\<close>

lemma ts_step_inv: "ts_step s t \<Longrightarrow> ts_inv d s \<Longrightarrow> ts_inv d t"
proof (induction rule: ts_step.induct)
  case (ts_stay s)
  then show ?case by simp
next
  case (ts_local X s w Y l)
  then show ?case by (intro ts_local_inv)
next
  case (ts_lock s k w l)
  then show ?case by (intro ts_lock_inv)
next
  case (ts_unlock k s w)
  then show ?case by (intro ts_unlock_inv)
next
  case (ts_stage s w ws l)
  then show ?case by (intro ts_stage_inv)
next
  case (ts_validate s w k a b v)
  then show ?case by (intro ts_validate_inv)
next
  case (ts_extend s w k a b v wt rt)
  then show ?case by (intro ts_extend_inv)
next
  case (ts_abandon s w)
  then show ?case by (intro ts_abandon_inv)
next
  case (ts_commit s w rs)
  then show ?case by (intro ts_commit_inv)
next
  case (ts_copy s w k f ps)
  then show ?case by (intro ts_copy_inv)
next
  case (ts_install s w k)
  then show ?case by (intro ts_install_inv)
qed

definition ts_init :: "db \<Rightarrow> tso \<Rightarrow> bool" where
  "ts_init d s \<longleftrightarrow> (\<forall>k. \<not> t_bit s k) \<and> (\<forall>k. t_wts s k \<le> t_rts s k) \<and> t_val s = d \<and>
     (\<forall>w. t_lock s w = {}) \<and> (\<forall>w. t_pre s w = {}) \<and> (\<forall>w. t_obs s w = {}) \<and>
     (\<forall>w. \<not> t_staged s w) \<and> (\<forall>w. t_pend s w = []) \<and> (\<forall>w. t_dirty s w = None) \<and> t_com s = []"

lemma ts_init_inv: "ts_init d s \<Longrightarrow> ts_inv d s"
  by (simp add: ts_init_def ts_inv_def ts_locks_def ts_stages_def ts_values_def ts_pres_def
      ts_obss_def ts_valids_def ts_readers_def t_todo_def ser_all_def in_order_def)

interpretation ts_sys: invariant_system "ts_init d" ts_step "ts_inv d" for d
  by unfold_locales (auto intro: ts_init_inv ts_step_inv)

end
