(* ===== verification/Tictoc_Proofs.thy ===== *)
theory Tictoc_Proofs
  imports Tictoc_System Ts_Proofs
begin

text \<open>
  Well-formedness of TicToc's executors at every control point, for the build variants that
  are to be correct: no timestamp history, and not the variant that goes on after a failed
  pre-verify.
\<close>

definition tc_plain :: "tc_config \<Rightarrow> bool" where
  "tc_plain c \<longleftrightarrow> tc_mode c \<noteq> NoWaitVerify \<and> \<not> tc_history c"

section \<open>Well-formed executors\<close>

definition tc_wf_tx :: "tc_tx \<Rightarrow> bool" where
  "tc_wf_tx t \<longleftrightarrow> distinct (map te_key (tc_write_set t)) \<and>
     (\<forall>e \<in> set (tc_write_set t). te_rcdptr e = te_key e) \<and>
     (\<forall>r \<in> set (tc_read_set t). te_rcdptr r = te_key r)"

definition tc_above :: "tc_tx \<Rightarrow> bool" where
  "tc_above t \<longleftrightarrow> (\<forall>r \<in> set (tc_read_set t). tsw_wts (te_tsw r) \<le> commit_ts t)"

fun tc_wf_pc :: "tc_tx \<Rightarrow> tc_pc \<Rightarrow> bool" where
  "tc_wf_pc t (TLockLoad held rest) = (held @ rest = tc_write_set t)"
| "tc_wf_pc t (TLockCas held e rest x) = (held @ e # rest = tc_write_set t)"
| "tc_wf_pc t (TUnlock es out) =
     (distinct (map te_key es) \<and> set es \<subseteq> set (tc_write_set t) \<and> out = AfterFail)"
| "tc_wf_pc t (TWriteLoad k cs) = (tc_searchWriteSet k t = None)"
| "tc_wf_pc t (TVerify rest) = False"
| "tc_wf_pc t (TVerifyHist r rest x) = False"
| "tc_wf_pc t (TVal done rest) = (done @ rest = tc_read_set t \<and> tc_above t)"
| "tc_wf_pc t (TValHist done r rest x) = False"
| "tc_wf_pc t (TExtend done r rest x) =
     (done @ r # rest = tc_read_set t \<and> tc_above t \<and> tsw_wts (te_tsw r) = tsw_wts x \<and>
      tsw_rts x < commit_ts t \<and> \<not> tsw_lock x)"
| "tc_wf_pc t (TWrite es) = (distinct (map te_key es) \<and> set es \<subseteq> set (tc_write_set t))"
| "tc_wf_pc t (TPre e es) = False"
| "tc_wf_pc t (TStore e es) =
     (distinct (map te_key (e # es)) \<and> set (e # es) \<subseteq> set (tc_write_set t))"
| "tc_wf_pc t pc = True"

text \<open>A commit timestamp in use fits the 48-bit field.\<close>

fun tc_small :: "tc_tx \<Rightarrow> tc_pc \<Rightarrow> bool" where
  "tc_small t (TVal done rest) = (unat (commit_ts t) < 2 ^ 48)"
| "tc_small t (TExtend done r rest x) = (unat (commit_ts t) < 2 ^ 48)"
| "tc_small t (TWrite es) = (unat (commit_ts t) < 2 ^ 48)"
| "tc_small t (TStore e es) = (unat (commit_ts t) < 2 ^ 48)"
| "tc_small t pc = True"

definition tc_wf :: "tc_sys \<Rightarrow> bool" where
  "tc_wf s \<longleftrightarrow> (\<forall>w. tc_wf_tx (tc_txs s w) \<and> tc_wf_pc (tc_txs s w) (tc_pcs s w)) \<and>
     (\<not> tc_full s \<longrightarrow> (\<forall>w. tc_small (tc_txs s w) (tc_pcs s w)))"

lemma tc_upd_sel [simp]:
  "tc_txs (tc_upd w t pc s) = (tc_txs s)(w := t)" "tc_pcs (tc_upd w t pc s) = (tc_pcs s)(w := pc)"
  "tc_full (tc_upd w t pc s) = tc_full s" "tc_table (tc_upd w t pc s) = tc_table s"
  "tc_point (tc_upd w t pc s) = tc_point s" "tc_com (tc_upd w t pc s) = tc_com s"
  by (simp_all add: tc_upd_def)

lemma tc_goto_sel [simp]:
  "tc_txs (tc_goto w pc s) = tc_txs s" "tc_pcs (tc_goto w pc s) = (tc_pcs s)(w := pc)"
  "tc_full (tc_goto w pc s) = tc_full s" "tc_table (tc_goto w pc s) = tc_table s"
  "tc_point (tc_goto w pc s) = tc_point s" "tc_com (tc_goto w pc s) = tc_com s"
  by (simp_all add: tc_goto_def)

lemma tc_wf_upd:
  assumes "tc_wf s" and "tc_wf_tx (tc_txs s' w)" and "tc_wf_pc (tc_txs s' w) (tc_pcs s' w)"
    and "\<And>v. v \<noteq> w \<Longrightarrow> tc_txs s' v = tc_txs s v" and "\<And>v. v \<noteq> w \<Longrightarrow> tc_pcs s' v = tc_pcs s v"
    and "\<not> tc_full s' \<Longrightarrow> \<not> tc_full s"
    and "\<not> tc_full s' \<Longrightarrow> tc_small (tc_txs s' w) (tc_pcs s' w)"
  shows "tc_wf s'"
proof -
  have "tc_wf_tx (tc_txs s' v) \<and> tc_wf_pc (tc_txs s' v) (tc_pcs s' v)" for v
    using assms(1-5) by (cases "v = w") (auto simp: tc_wf_def)
  moreover have "\<not> tc_full s' \<Longrightarrow> tc_small (tc_txs s' v) (tc_pcs s' v)" for v
    using assms(1,4-7) by (cases "v = w") (auto simp: tc_wf_def)
  ultimately show ?thesis by (simp add: tc_wf_def)
qed

lemma tc_wfD:
  assumes "tc_wf s"
  shows "tc_wf_tx (tc_txs s w)" "tc_pcs s w = pc \<Longrightarrow> tc_wf_pc (tc_txs s w) pc"
    "\<not> tc_full s \<Longrightarrow> tc_pcs s w = pc \<Longrightarrow> tc_small (tc_txs s w) pc"
  using assms by (auto simp: tc_wf_def)

section \<open>The operations\<close>

lemma tc_write_register_wf:
  "tc_wf_tx t \<Longrightarrow> tc_searchWriteSet k t = None \<Longrightarrow> tc_wf_tx (tc_write_register k x t)"
  by (auto simp: tc_wf_tx_def tc_write_register_def tc_write_ptr_def tc_searchWriteSet_def
      tc_searchReadSet_def search_set_None tc_get_tuple_def dest!: search_set_Some split: option.split)

lemma tc_write_ptr_key: "tc_wf_tx t \<Longrightarrow> tc_write_ptr k t = k"
  by (auto simp: tc_wf_tx_def tc_write_ptr_def tc_searchReadSet_def tc_get_tuple_def
      dest!: search_set_Some split: option.split)

lemma tc_sort_wf: "tc_wf_tx t \<Longrightarrow> tc_wf_tx (tc_sort t)"
  by (simp add: tc_wf_tx_def tc_sort_def distinct_map)

lemma fold_max_ge: "c \<le> fold (\<lambda>r c. max c (f r)) rs (c :: 'a :: linorder)"
  by (induction rs arbitrary: c) (auto intro: order_trans [OF max.cobounded1])

lemma fold_max_mem: "r \<in> set rs \<Longrightarrow> f r \<le> fold (\<lambda>r c. max c (f r)) rs (c :: 'a :: linorder)"
  by (induction rs arbitrary: c) (auto intro: order_trans [OF max.cobounded2] fold_max_ge)

lemma tc_commit_ts_above:
  "tc_above (tc_commit_ts t)" "commit_ts t \<le> commit_ts (tc_commit_ts t)"
  using fold_max_mem [where f = "\<lambda>r. tsw_wts (te_tsw r)"] fold_max_ge
  by (auto simp: tc_above_def tc_commit_ts_def)

lemma tc_commit_ts_sel [simp]:
  "tc_read_set (tc_commit_ts t) = tc_read_set t" "tc_write_set (tc_commit_ts t) = tc_write_set t"
  "tc_wf_tx (tc_commit_ts t) = tc_wf_tx t" "tc_write_val (tc_commit_ts t) = tc_write_val t"
  by (simp_all add: tc_commit_ts_def tc_wf_tx_def)

lemma tc_begin_sel [simp]:
  "tc_wf_tx (tc_begin t) = tc_wf_tx t" "tc_wf_tx (tc_clear t)"
  "tc_wf_tx (t\<lparr>tc_pro_set := p\<rparr>) = tc_wf_tx t" "tc_wf_tx (t\<lparr>tc_status := y\<rparr>) = tc_wf_tx t"
  "tc_wf_tx (tc_read_copy k tb t) = tc_wf_tx t" "tc_wf_tx (tc_locked_one x t) = tc_wf_tx t"
  "tc_wf_tx (tc_read_register k x t) = tc_wf_tx t"
  by (auto simp: tc_begin_def tc_clear_def tc_read_copy_def tc_locked_one_def tc_read_register_def
      tc_wf_tx_def tc_get_tuple_def)

lemma tc_locked_one_sel [simp]:
  "tc_write_set (tc_locked_one x t) = tc_write_set t" "tc_read_set (tc_locked_one x t) = tc_read_set t"
  by (simp_all add: tc_locked_one_def)

lemma preemptive_cases:
  "(tsw_rts v1 < appro_commit_ts t \<Longrightarrow> P (True, t\<lparr>tc_status := TAborted\<rparr>)) \<Longrightarrow> P (False, t) \<Longrightarrow>
   P (preemptiveAborts v1 t)"
  by (simp add: preemptiveAborts_def)

text \<open>Where \<open>tc_read_loop\<close> goes.\<close>

lemma tc_read_loop_cases:
  assumes "\<And>t. t = tc_txs s w \<or> t = (tc_txs s w)\<lparr>tc_status := TAborted\<rparr> \<Longrightarrow> P (tc_upd w t (TOps cs) s)"
    and "P (tc_goto w (TLoad k cs) s)" and "\<not> tsw_lock v1 \<Longrightarrow> P (tc_goto w (TCopy k v1 cs) s)"
  shows "P (tc_read_loop c w k v1 cs s)"
  using assms by (simp add: tc_read_loop_def preemptiveAborts_def)

lemma tc_validate_one_cases:
  assumes "\<not> h"
  shows "tc_validate_one h t r v1 = VFail \<or>
    tc_validate_one h t r v1 = VValid \<and> tsw_wts (te_tsw r) = tsw_wts v1 \<and>
      (commit_ts t \<le> tsw_rts v1 \<or> te_key r \<in> te_key ` set (tc_write_set t)) \<or>
    tc_validate_one h t r v1 = VExtend \<and> tsw_wts (te_tsw r) = tsw_wts v1 \<and>
      tsw_rts v1 < commit_ts t \<and> \<not> tsw_lock v1"
proof -
  have "tc_searchWriteSet (te_key r) t \<noteq> None \<longleftrightarrow> te_key r \<in> te_key ` set (tc_write_set t)"
    unfolding tc_searchWriteSet_def by (rule search_set_notNone)
  with assms show ?thesis
    by (cases "tsw_rts v1 < commit_ts t") (simp_all add: tc_validate_one_def Let_def not_less)
qed

text \<open>Where the validation of one element goes.\<close>

lemma tc_val_loop_cases:
  assumes "\<not> tc_history c"
    and "P (tc_fail w s)"
    and "tsw_wts (te_tsw r) = tsw_wts v1 \<Longrightarrow> commit_ts (tc_txs s w) \<le> tsw_rts v1 \<or>
      te_key r \<in> te_key ` set (tc_write_set (tc_txs s w)) \<Longrightarrow> P (tc_goto w (TVal (dn @ [r]) rest) s)"
    and "tsw_wts (te_tsw r) = tsw_wts v1 \<Longrightarrow> tsw_rts v1 < commit_ts (tc_txs s w) \<Longrightarrow> \<not> tsw_lock v1 \<Longrightarrow>
      P (tc_goto w (TExtend dn r rest v1) s)"
  shows "P (tc_val_loop c w dn r rest v1 s)"
  using tc_validate_one_cases [OF assms(1), of "tc_txs s w" r v1] assms(2-4)
  by (auto simp: tc_val_loop_def)

section \<open>Every step keeps the executors well formed\<close>

text \<open>Where an attempt to lock goes.\<close>

lemma tc_lock_cas_cases:
  assumes "tc_plain c"
    and "P (tc_upd w ((tc_txs s w)\<lparr>tc_status := TAborted\<rparr>) (TUnlock held AfterFail) s)"
    and "\<And>y. P (tc_goto w (TLockCas held e rest y) s)"
    and "\<not> tsw_lock x \<Longrightarrow> tsw (tc_table s (te_rcdptr e)) = x \<Longrightarrow>
      P ((tc_upd w (tc_locked_one (tsw_set_lock True x) (tc_txs s w)) (TLockLoad (held @ [e]) rest) s)
        \<lparr>tc_table := set_tsw (te_rcdptr e) (tsw_set_lock True x) (tc_table s)\<rparr>)"
  shows "P (tc_lock_cas c w held e rest x s)"
  using assms by (simp add: tc_lock_cas_def tsw_cas_def Let_def tc_plain_def)

lemma tc_lock_cas_wf:
  assumes wf: "tc_wf s" and pl: "tc_plain c" and pc: "tc_pcs s w = TLockCas held e rest x"
  shows "tc_wf (tc_lock_cas c w held e rest x s)"
proof -
  have ws: "tc_write_set (tc_txs s w) = held @ e # rest" using tc_wfD(2) [OF wf pc] by simp
  have wt: "tc_wf_tx (tc_txs s w)" by (rule tc_wfD(1) [OF wf])
  then have d: "distinct (map te_key held)" by (simp add: tc_wf_tx_def ws)
  show ?thesis
    by (rule tc_lock_cas_cases [OF pl]; (rule tc_wf_upd [OF wf, where w = w])?)
      (use wt d ws in auto)
qed

lemma tc_fail_wf:
  assumes wf: "tc_wf s"
  shows "tc_wf (tc_fail w s)"
  by (rule tc_wf_upd [OF wf, where w = w])
    (use tc_wfD(1) [OF wf, of w] in \<open>simp_all add: tc_fail_def tc_wf_tx_def\<close>)

lemma tc_val_loop_wf:
  assumes wf: "tc_wf s" and pl: "tc_plain c"
    and r: "dn @ r # rest = tc_read_set (tc_txs s w)" "tc_above (tc_txs s w)"
    and sm: "\<not> tc_full s \<Longrightarrow> unat (commit_ts (tc_txs s w)) < 2 ^ 48"
  shows "tc_wf (tc_val_loop c w dn r rest v1 s)"
proof (rule tc_val_loop_cases)
  show "\<not> tc_history c" using pl by (simp add: tc_plain_def)
  show "tc_wf (tc_fail w s)" by (rule tc_fail_wf [OF wf])
qed (use r sm tc_wfD(1) [OF wf, of w] in \<open>auto intro!: tc_wf_upd [OF wf, where w = w]\<close>)

lemma tc_calls_cases:
  "(cs = [] \<Longrightarrow> P) \<Longrightarrow> (\<And>k r. cs = CRead k # r \<Longrightarrow> P) \<Longrightarrow> (\<And>k r. cs = CWrite k # r \<Longrightarrow> P) \<Longrightarrow>
   (\<And>r. cs = CStatus # r \<Longrightarrow> P) \<Longrightarrow> P"
  by (cases cs; cases "hd cs") auto

lemma tc_step_wf:
  assumes wf: "tc_wf s" and pl: "tc_plain c"
  shows "tc_wf (tc_step c w pro s)"
proof -
  let ?t = "tc_txs s w"
  note upd = tc_wf_upd [OF wf, where w = w]
  have wt: "tc_wf_tx ?t" by (rule tc_wfD(1) [OF wf])
  note wp = tc_wfD(2) [OF wf, where w = w] and sm = tc_wfD(3) [OF wf, where w = w]
  show ?thesis
  proof (cases "tc_pcs s w")
    case TMake
    then show ?thesis using wt by (auto simp: tc_step_def Let_def intro!: upd)
  next
    case TRetry
    then show ?thesis using wt by (auto simp: tc_step_def Let_def intro!: upd)
  next
    case (TOps cs)
    show ?thesis
    proof (rule tc_calls_cases [of cs])
      assume "cs = []"
      with TOps show ?thesis using tc_sort_wf [OF wt] by (auto simp: tc_step_def Let_def intro!: upd)
    next
      fix k r assume "cs = CRead k # r"
      with TOps show ?thesis using wt by (auto simp: tc_step_def Let_def intro!: upd)
    next
      fix k r assume "cs = CWrite k # r"
      with TOps show ?thesis using wt by (auto simp: tc_step_def Let_def intro!: upd)
    next
      fix r assume "cs = CStatus # r"
      with TOps show ?thesis using wt by (auto simp: tc_step_def Let_def intro!: upd)
    qed
  next
    case (TLoad k cs)
    show ?thesis unfolding tc_step_def Let_def TLoad
      by (simp, rule tc_read_loop_cases) (use wt in \<open>auto intro!: upd\<close>)
  next
    case (TCopy k x cs)
    then show ?thesis using wt by (auto simp: tc_step_def Let_def intro!: upd)
  next
    case (TCheck k x cs)
    have "tc_wf (tc_read_loop c w k y cs s)" for y
      by (rule tc_read_loop_cases) (use wt in \<open>auto intro!: upd\<close>)
    with TCheck show ?thesis using wt
      by (auto simp: tc_step_def Let_def tc_read_check_def intro!: upd)
  next
    case (TWriteLoad k cs)
    with tc_write_register_wf [OF wt] wp [OF TWriteLoad] show ?thesis
      by (auto simp: tc_step_def Let_def intro!: upd)
  next
    case (TLockLoad held rest)
    with wp wt show ?thesis by (cases rest) (auto simp: tc_step_def Let_def intro!: upd)
  next
    case (TLockCas held e rest x)
    with tc_lock_cas_wf [OF wf pl] show ?thesis by (simp add: tc_step_def)
  next
    case (TUnlock es out)
    show ?thesis
    proof (cases es)
      case Nil
      with TUnlock wt wp [OF TUnlock] show ?thesis
        by (auto simp: tc_step_def Let_def intro!: upd)
    next
      case (Cons e es')
      with TUnlock wt wp [OF TUnlock] show ?thesis
        by (auto simp: tc_step_def Let_def intro!: upd)
    qed
  next
    case TStage
    then show ?thesis using wt tc_commit_ts_above
      by (auto simp: tc_step_def Let_def not_le intro!: upd)
  next
    case (TVal dn rest)
    show ?thesis
    proof (cases rest)
      case Nil
      with TVal wt wp [OF TVal] sm [OF _ TVal] show ?thesis
        by (auto simp: tc_step_def Let_def tc_commit_def tc_wf_tx_def intro!: upd)
    next
      case (Cons r rest')
      have r: "dn @ r # rest' = tc_read_set ?t" "tc_above ?t" using wp [OF TVal] Cons by simp_all
      have "tc_wf (tc_val_loop c w dn r rest' v1 s)" for v1
        using tc_val_loop_wf [OF wf pl r] sm [OF _ TVal] by simp
      with TVal Cons wt r sm [OF _ TVal] show ?thesis
        by (auto simp: tc_step_def tc_validate_def Let_def intro!: upd)
    qed
  next
    case (TExtend dn r rest x)
    have r: "dn @ r # rest = tc_read_set ?t" "tc_above ?t" using wp [OF TExtend] by simp_all
    have "tc_wf (tc_val_loop c w dn r rest v1 s)" for v1
      using tc_val_loop_wf [OF wf pl r] sm [OF _ TExtend] by simp
    with TExtend wt r sm [OF _ TExtend] show ?thesis
      by (auto simp: tc_step_def tc_extend_def tsw_cas_def intro!: upd)
  next
    case (TWrite es)
    show ?thesis
    proof (cases es)
      case Nil
      with TWrite wt show ?thesis by (auto simp: tc_step_def Let_def intro!: upd)
    next
      case (Cons e es')
      with TWrite wp [OF TWrite] sm [OF _ TWrite] wt pl show ?thesis
        by (auto simp: tc_step_def Let_def tc_plain_def intro!: upd)
    qed
  next
    case (TStore e es)
    with wp [OF TStore] sm [OF _ TStore] wt show ?thesis
      by (auto simp: tc_step_def Let_def intro!: upd)
  qed (use wp in auto)
qed

lemma tc_init_wf: "tc_start d s \<Longrightarrow> tc_wf s"
  by (auto simp: tc_start_def tc_init_def tc_wf_def tc_wf_tx_def tc_new_def)

end
