(* ===== verification/Tictoc_Refinement.thy ===== *)
theory Tictoc_Refinement
  imports Tictoc_Proofs
begin

text \<open>
  The abstraction function from the state of TicToc to the abstract timestamp protocol, and
  the simulation: each step of a worker is a step of \<^verbatim>\<open>Ts_Spec\<close>.
\<close>

section \<open>The abstraction\<close>

fun tc_locked :: "tc_tx \<Rightarrow> tc_pc \<Rightarrow> key set" where
  "tc_locked t (TLockLoad held rest) = te_key ` set held"
| "tc_locked t (TLockCas held e rest x) = te_key ` set held"
| "tc_locked t (TUnlock es out) = te_key ` set es"
| "tc_locked t TStage = te_key ` set (tc_write_set t)"
| "tc_locked t (TVal done rest) = te_key ` set (tc_write_set t)"
| "tc_locked t (TValHist done r rest x) = te_key ` set (tc_write_set t)"
| "tc_locked t (TExtend done r rest x) = te_key ` set (tc_write_set t)"
| "tc_locked t (TWrite es) = te_key ` set es"
| "tc_locked t (TPre e es) = insert (te_key e) (te_key ` set es)"
| "tc_locked t (TStore e es) = insert (te_key e) (te_key ` set es)"
| "tc_locked t pc = {}"

definition tc_robs :: "tc_tx \<Rightarrow> (key \<times> nat \<times> nat \<times> val) set" where
  "tc_robs t = (\<lambda>r. (te_key r, unat (tsw_wts (te_tsw r)), unat (tsw_rts (te_tsw r)), te_val r)) `
     set (tc_read_set t)"

fun tc_pobs :: "tc_tx \<Rightarrow> tc_pc \<Rightarrow> (key \<times> nat \<times> val option) set" where
  "tc_pobs t (TCopy k x cs) = {(k, unat (tsw_wts x), None)}"
| "tc_pobs t (TCheck k x cs) = {(k, unat (tsw_wts x), Some (tc_return_val t))}"
| "tc_pobs t pc = {}"

fun tc_staged :: "tc_pc \<Rightarrow> bool" where
  "tc_staged (TVal done rest) = True"
| "tc_staged (TValHist done r rest x) = True"
| "tc_staged (TExtend done r rest x) = True"
| "tc_staged pc = False"

fun tc_valid :: "tc_pc \<Rightarrow> (key \<times> val) set" where
  "tc_valid (TVal done rest) = (\<lambda>r. (te_key r, te_val r)) ` set done"
| "tc_valid (TValHist done r rest x) = (\<lambda>r. (te_key r, te_val r)) ` set done"
| "tc_valid (TExtend done r rest x) = (\<lambda>r. (te_key r, te_val r)) ` set done"
| "tc_valid pc = {}"

definition tc_writes :: "nat \<Rightarrow> tc_tx \<Rightarrow> tc_elem list \<Rightarrow> (key \<times> (val \<Rightarrow> val)) list" where
  "tc_writes vs t es = map (\<lambda>e. (te_key e, tc_new_payload vs t)) es"

fun tc_pend :: "nat \<Rightarrow> tc_tx \<Rightarrow> tc_pc \<Rightarrow> (key \<times> (val \<Rightarrow> val)) list" where
  "tc_pend vs t (TWrite es) = tc_writes vs t es"
| "tc_pend vs t (TPre e es) = tc_writes vs t es"
| "tc_pend vs t (TStore e es) = tc_writes vs t es"
| "tc_pend vs t pc = []"

fun tc_dirty :: "tc_pc \<Rightarrow> key option" where
  "tc_dirty (TPre e es) = Some (te_key e)"
| "tc_dirty (TStore e es) = Some (te_key e)"
| "tc_dirty pc = None"

definition tc_abs :: "tc_config \<Rightarrow> tc_sys \<Rightarrow> tso" where
  "tc_abs c s =
     \<lparr>t_bit = (\<lambda>k. tsw_lock (tsw (tc_table s k))),
      t_wts = (\<lambda>k. unat (tsw_wts (tsw (tc_table s k)))),
      t_rts = (\<lambda>k. unat (tsw_rts (tsw (tc_table s k)))),
      t_val = (\<lambda>k. tc_val (tc_table s k)),
      t_lock = (\<lambda>w. tc_locked (tc_txs s w) (tc_pcs s w)),
      t_cts = (\<lambda>w. unat (commit_ts (tc_txs s w))),
      t_pre = (\<lambda>w. tc_pobs (tc_txs s w) (tc_pcs s w)),
      t_obs = (\<lambda>w. tc_robs (tc_txs s w)),
      t_staged = (\<lambda>w. tc_staged (tc_pcs s w)),
      t_writes = (\<lambda>w. if tc_staged (tc_pcs s w)
        then tc_writes (tc_val_size c) (tc_txs s w) (tc_write_set (tc_txs s w)) else []),
      t_valid = (\<lambda>w. tc_valid (tc_pcs s w)),
      t_pend = (\<lambda>w. tc_pend (tc_val_size c) (tc_txs s w) (tc_pcs s w)),
      t_dirty = (\<lambda>w. tc_dirty (tc_pcs s w)),
      t_point = tc_point s, t_com = tc_com s\<rparr>"

lemma tc_abs_sel [simp]:
  "t_bit (tc_abs c s) k = tsw_lock (tsw (tc_table s k))"
  "t_wts (tc_abs c s) k = unat (tsw_wts (tsw (tc_table s k)))"
  "t_rts (tc_abs c s) k = unat (tsw_rts (tsw (tc_table s k)))"
  "t_val (tc_abs c s) k = tc_val (tc_table s k)"
  "t_lock (tc_abs c s) w = tc_locked (tc_txs s w) (tc_pcs s w)"
  "t_cts (tc_abs c s) w = unat (commit_ts (tc_txs s w))"
  "t_pre (tc_abs c s) w = tc_pobs (tc_txs s w) (tc_pcs s w)"
  "t_obs (tc_abs c s) w = tc_robs (tc_txs s w)"
  "t_staged (tc_abs c s) w = tc_staged (tc_pcs s w)"
  "t_writes (tc_abs c s) w = (if tc_staged (tc_pcs s w)
     then tc_writes (tc_val_size c) (tc_txs s w) (tc_write_set (tc_txs s w)) else [])"
  "t_valid (tc_abs c s) w = tc_valid (tc_pcs s w)"
  "t_pend (tc_abs c s) w = tc_pend (tc_val_size c) (tc_txs s w) (tc_pcs s w)"
  "t_dirty (tc_abs c s) w = tc_dirty (tc_pcs s w)"
  "t_point (tc_abs c s) = tc_point s" "t_com (tc_abs c s) = tc_com s"
  by (simp_all add: tc_abs_def)

lemma tso_eqI:
  fixes s t :: tso
  assumes "\<And>k. t_bit s k = t_bit t k" "\<And>k. t_wts s k = t_wts t k" "\<And>k. t_rts s k = t_rts t k"
    "\<And>k. t_val s k = t_val t k" "\<And>w. t_lock s w = t_lock t w" "\<And>w. t_cts s w = t_cts t w"
    "\<And>w. t_pre s w = t_pre t w" "\<And>w. t_obs s w = t_obs t w" "\<And>w. t_staged s w = t_staged t w"
    "\<And>w. t_writes s w = t_writes t w" "\<And>w. t_valid s w = t_valid t w" "\<And>w. t_pend s w = t_pend t w"
    "\<And>w. t_dirty s w = t_dirty t w" "\<And>w. t_point s w = t_point t w" "t_com s = t_com t"
  shows "s = t"
  using assms by (intro tso.equality ext) auto

lemma tc_abs_stay:
  assumes "tc_table s' = tc_table s" and "tc_point s' = tc_point s" and "tc_com s' = tc_com s"
    and "\<And>v. v \<noteq> w \<Longrightarrow> tc_txs s' v = tc_txs s v" and "\<And>v. v \<noteq> w \<Longrightarrow> tc_pcs s' v = tc_pcs s v"
    and "tc_locked (tc_txs s' w) (tc_pcs s' w) = tc_locked (tc_txs s w) (tc_pcs s w)"
    and "tc_staged (tc_pcs s' w) = tc_staged (tc_pcs s w)"
    and "tc_staged (tc_pcs s w) \<Longrightarrow> tc_txs s' w = tc_txs s w"
    and "tc_valid (tc_pcs s' w) = tc_valid (tc_pcs s w)"
    and "tc_pend (tc_val_size c) (tc_txs s' w) (tc_pcs s' w) = tc_pend (tc_val_size c) (tc_txs s w) (tc_pcs s w)"
    and "tc_dirty (tc_pcs s' w) = tc_dirty (tc_pcs s w)"
    and "\<forall>x \<in> tc_pobs (tc_txs s' w) (tc_pcs s' w). pre_ok (tc_abs c s) w x"
    and "\<forall>y \<in> tc_robs (tc_txs s' w). read_ok (tc_abs c s) w y"
    and "t_idle (tc_abs c s) w \<and> tc_locked (tc_txs s w) (tc_pcs s w) = {} \<or>
      commit_ts (tc_txs s' w) = commit_ts (tc_txs s w)"
  shows "ts_step (tc_abs c s) (tc_abs c s')"
proof -
  obtain t pc where tp: "tc_txs s' w = t" "tc_pcs s' w = pc" by blast
  have T: "tc_txs s' = (tc_txs s)(w := t)" and P: "tc_pcs s' = (tc_pcs s)(w := pc)"
    using assms(4,5) tp by auto
  have "ts_step (tc_abs c s) ((tc_abs c s)\<lparr>t_pre := (t_pre (tc_abs c s))(w := tc_pobs t pc),
      t_obs := (t_obs (tc_abs c s))(w := tc_robs t),
      t_cts := (t_cts (tc_abs c s))(w := unat (commit_ts t))\<rparr>)"
    using assms(12-14) tp by (intro ts_local) auto
  also have "(tc_abs c s)\<lparr>t_pre := (t_pre (tc_abs c s))(w := tc_pobs t pc),
      t_obs := (t_obs (tc_abs c s))(w := tc_robs t),
      t_cts := (t_cts (tc_abs c s))(w := unat (commit_ts t))\<rparr> = tc_abs c s'"
    using assms(1-3) assms(6-11) [unfolded tp] by (intro tso_eqI) (simp_all add: T P)
  finally show ?thesis .
qed

section \<open>Observations\<close>

lemma pre_ok_old: "x \<in> tc_pobs (tc_txs s w) (tc_pcs s w) \<Longrightarrow> pre_ok (tc_abs c s) w x"
  by (simp add: pre_ok_def)

lemma pre_ok_new: "pre_ok (tc_abs c s) w (k, unat (tsw_wts (tsw (tc_table s k))), None)"
  by (auto simp: pre_ok_def)

lemma pre_ok_copy:
  "(k, a, None) \<in> tc_pobs (tc_txs s w) (tc_pcs s w) \<Longrightarrow>
   pre_ok (tc_abs c s) w (k, a, Some (tc_val (tc_table s k)))"
  by (auto simp: pre_ok_def)

lemma read_ok_old: "y \<in> tc_robs (tc_txs s w) \<Longrightarrow> read_ok (tc_abs c s) w y"
  by (simp add: read_ok_def)

lemma read_ok_new:
  "x = tsw (tc_table s k) \<Longrightarrow> \<not> tsw_lock x \<Longrightarrow>
   (k, unat (tsw_wts x), Some v) \<in> tc_pobs (tc_txs s w) (tc_pcs s w) \<Longrightarrow>
   read_ok (tc_abs c s) w (k, unat (tsw_wts x), unat (tsw_rts x), v)"
  by (auto simp: read_ok_def)

lemma tc_robs_simps [simp]:
  "tc_robs (t\<lparr>tc_pro_set := x\<rparr>) = tc_robs t" "tc_robs (t\<lparr>tc_status := y\<rparr>) = tc_robs t"
  "tc_robs (tc_begin t) = tc_robs t" "tc_robs (tc_sort t) = tc_robs t"
  "tc_robs (tc_write_register k z t) = tc_robs t" "tc_robs (tc_read_copy k tb t) = tc_robs t"
  "tc_robs (tc_clear t) = {}" "tc_robs (tc_locked_one z t) = tc_robs t"
  "tc_robs (tc_commit_ts t) = tc_robs t"
  "tc_robs (tc_read_register k z t) =
     insert (k, unat (tsw_wts z), unat (tsw_rts z), tc_return_val t) (tc_robs t)"
  by (simp_all add: tc_robs_def tc_begin_def tc_sort_def tc_write_register_def tc_read_copy_def
      tc_clear_def tc_locked_one_def tc_commit_ts_def tc_read_register_def tc_get_tuple_def)

lemma commit_ts_simps [simp]:
  "commit_ts (t\<lparr>tc_pro_set := x\<rparr>) = commit_ts t" "commit_ts (t\<lparr>tc_status := y\<rparr>) = commit_ts t"
  "commit_ts (tc_sort t) = commit_ts t" "commit_ts (tc_write_register k z t) = commit_ts t"
  "commit_ts (tc_read_copy k tb t) = commit_ts t" "commit_ts (tc_clear t) = commit_ts t"
  "commit_ts (tc_read_register k z t) = commit_ts t"
  by (simp_all add: tc_sort_def tc_write_register_def tc_read_copy_def tc_clear_def tc_read_register_def)

lemma tc_return_val_copy [simp]: "tc_return_val (tc_read_copy k tb t) = tc_val (tb k)"
  by (simp add: tc_read_copy_def tc_get_tuple_def)

section \<open>The simulation\<close>

lemma tc_exec_sim:
  assumes "tc_pcs s w = TMake \<or> tc_pcs s w = TRetry \<or> (\<exists>cs. tc_pcs s w = TOps cs)"
  shows "ts_step (tc_abs c s) (tc_abs c (tc_step c w pro s))"
  using assms
proof (elim disjE exE)
  assume "tc_pcs s w = TMake"
  then show ?thesis
    by (intro tc_abs_stay [where w = w]) (auto simp: tc_step_def Let_def read_ok_old)
next
  assume "tc_pcs s w = TRetry"
  then show ?thesis
    by (intro tc_abs_stay [where w = w]) (auto simp: tc_step_def Let_def read_ok_old t_idle_def t_todo_def)
next
  fix cs assume pc: "tc_pcs s w = TOps cs"
  show ?thesis
    by (rule tc_calls_cases [of cs]; (intro tc_abs_stay [where w = w])?)
      (use pc in \<open>auto simp: tc_step_def Let_def read_ok_old\<close>)
qed

lemma tc_read_loop_sim:
  assumes "tc_locked (tc_txs s w) (tc_pcs s w) = {}" "\<not> tc_staged (tc_pcs s w)"
    "tc_valid (tc_pcs s w) = {}" "tc_pend (tc_val_size c) (tc_txs s w) (tc_pcs s w) = []"
    "tc_dirty (tc_pcs s w) = None" and "v1 = tsw (tc_table s k)"
  shows "ts_step (tc_abs c s) (tc_abs c (tc_read_loop c w k v1 cs s))"
  by (rule tc_read_loop_cases; (intro tc_abs_stay [where w = w])?)
    (use assms in \<open>auto simp: read_ok_old pre_ok_new\<close>)

lemma tc_read_sim:
  assumes wf: "tc_wf s" and "(\<exists>k cs. tc_pcs s w = TLoad k cs) \<or> (\<exists>k x cs. tc_pcs s w = TCopy k x cs) \<or>
    (\<exists>k x cs. tc_pcs s w = TCheck k x cs) \<or> (\<exists>k cs. tc_pcs s w = TWriteLoad k cs)"
  shows "ts_step (tc_abs c s) (tc_abs c (tc_step c w pro s))"
  using assms(2)
proof (elim disjE exE)
  fix k cs assume pc: "tc_pcs s w = TLoad k cs"
  then show ?thesis using tc_read_loop_sim [of s w c "tsw (tc_table s k)" k cs]
    by (simp add: tc_step_def Let_def tc_get_tuple_def)
next
  fix k x cs assume pc: "tc_pcs s w = TCopy k x cs"
  then have "pre_ok (tc_abs c s) w (k, unat (tsw_wts x), Some (tc_val (tc_table s k)))"
    by (intro pre_ok_copy) simp
  with pc show ?thesis
    by (intro tc_abs_stay [where w = w]) (auto simp: tc_step_def Let_def read_ok_old)
next
  fix k x cs assume pc: "tc_pcs s w = TCheck k x cs"
  show ?thesis
  proof (cases "x = tsw (tc_table s k) \<and> \<not> tsw_lock x")
    case True
    with pc have "read_ok (tc_abs c s) w (k, unat (tsw_wts x), unat (tsw_rts x), tc_return_val (tc_txs s w))"
      by (intro read_ok_new) auto
    with pc True show ?thesis
      by (intro tc_abs_stay [where w = w])
        (auto simp: tc_step_def Let_def tc_read_check_def tc_get_tuple_def read_ok_old)
  next
    case False
    with pc tc_read_loop_sim [of s w c "tsw (tc_table s k)" k cs] show ?thesis
      by (auto simp: tc_step_def Let_def tc_read_check_def tc_get_tuple_def)
  qed
next
  fix k cs assume pc: "tc_pcs s w = TWriteLoad k cs"
  then show ?thesis
    by (intro tc_abs_stay [where w = w]) (auto simp: tc_step_def Let_def read_ok_old)
qed

lemma unat_max: "unat (max x y) = max (unat x) (unat y)"
  by (simp add: max_def word_le_nat_alt)

lemma tc_locked_one_cts:
  "unat (commit_ts t) \<le> unat (commit_ts (tc_locked_one (tsw_set_lock b x) t))"
  "unat (tsw_rts x) < unat (commit_ts (tc_locked_one (tsw_set_lock b x) t))"
  by (simp_all add: tc_locked_one_def unat_max unat_tsw_rts_Suc)

lemma tc_lock_sim:
  assumes wf: "tc_wf s" and pl: "tc_plain c" and pc: "tc_pcs s w = TLockCas held e rest x"
  shows "ts_step (tc_abs c s) (tc_abs c (tc_lock_cas c w held e rest x s))"
proof (rule tc_lock_cas_cases [OF pl])
  let ?a = "tc_abs c s" and ?t = "tc_locked_one (tsw_set_lock True x) (tc_txs s w)" and ?k = "te_key e"
  assume free: "\<not> tsw_lock x" and x: "tsw (tc_table s (te_rcdptr e)) = x"
  have "e \<in> set (tc_write_set (tc_txs s w))"
    using tc_wfD(2) [OF wf pc] by (metis in_set_conv_decomp tc_wf_pc.simps(2))
  then have k: "te_rcdptr e = ?k" using tc_wfD(1) [OF wf, of w] by (simp add: tc_wf_tx_def)
  have "ts_step ?a (?a\<lparr>t_bit := (t_bit ?a)(?k := True), t_lock := (t_lock ?a)(w := insert ?k (t_lock ?a w)),
      t_cts := (t_cts ?a)(w := unat (commit_ts ?t))\<rparr>)"
    using free x k tc_locked_one_cts by (intro ts_lock) (auto simp: pc t_idle_def t_todo_def)
  also have "?a\<lparr>t_bit := (t_bit ?a)(?k := True), t_lock := (t_lock ?a)(w := insert ?k (t_lock ?a w)),
      t_cts := (t_cts ?a)(w := unat (commit_ts ?t))\<rparr> =
      tc_abs c ((tc_upd w ?t (TLockLoad (held @ [e]) rest) s)
        \<lparr>tc_table := set_tsw (te_rcdptr e) (tsw_set_lock True x) (tc_table s)\<rparr>)"
    using free x k by (intro tso_eqI) (auto simp: pc set_tsw_def)
  finally show "ts_step ?a (tc_abs c ((tc_upd w ?t (TLockLoad (held @ [e]) rest) s)
        \<lparr>tc_table := set_tsw (te_rcdptr e) (tsw_set_lock True x) (tc_table s)\<rparr>))" .
qed (use pc in \<open>intro tc_abs_stay [where w = w]; auto simp: read_ok_old\<close>)+

lemma tc_unlock_sim:
  assumes wf: "tc_wf s" and pc: "tc_pcs s w = TUnlock es out"
  shows "ts_step (tc_abs c s) (tc_abs c (tc_step c w pro s))"
proof (cases es)
  case Nil
  with pc tc_wfD(2) [OF wf pc] show ?thesis
    by (intro tc_abs_stay [where w = w]) (auto simp: tc_step_def Let_def read_ok_old)
next
  case (Cons e es')
  let ?k = "te_key e" and ?a = "tc_abs c s"
  have e: "e \<in> set (tc_write_set (tc_txs s w))" "?k \<notin> te_key ` set es'"
    using tc_wfD(2) [OF wf pc] Cons by auto
  then have k: "te_rcdptr e = ?k" using tc_wfD(1) [OF wf, of w] by (simp add: tc_wf_tx_def)
  have "ts_step ?a (?a\<lparr>t_bit := (t_bit ?a)(?k := False), t_lock := (t_lock ?a)(w := t_lock ?a w - {?k})\<rparr>)"
    by (intro ts_unlock) (auto simp: pc Cons t_idle_def t_todo_def)
  also have "?a\<lparr>t_bit := (t_bit ?a)(?k := False), t_lock := (t_lock ?a)(w := t_lock ?a w - {?k})\<rparr> =
      tc_abs c (tc_step c w pro s)"
    using e k by (intro tso_eqI)
      (auto simp: tc_step_def tc_unlock_one_def Let_def pc Cons set_tsw_def)
  finally show ?thesis .
qed

lemma tc_stage_sim:
  assumes wf: "tc_wf s" and pc: "tc_pcs s w = TStage"
  shows "ts_step (tc_abs c s) (tc_abs c (tc_step c w pro s))"
proof -
  let ?t = "tc_txs s w" and ?a = "tc_abs c s"
  let ?ws = "tc_writes (tc_val_size c) ?t (tc_write_set ?t)"
  have m: "map fst ?ws = map te_key (tc_write_set ?t)" by (simp add: tc_writes_def)
  then have "fst ` set ?ws = te_key ` set (tc_write_set ?t)" by (metis set_map)
  moreover have "distinct (map te_key (tc_write_set ?t))"
    using tc_wfD(1) [OF wf, of w] by (simp add: tc_wf_tx_def)
  ultimately have "ts_step ?a (?a\<lparr>t_staged := (t_staged ?a)(w := True), t_writes := (t_writes ?a)(w := ?ws),
      t_valid := (t_valid ?a)(w := {}), t_cts := (t_cts ?a)(w := unat (commit_ts (tc_commit_ts ?t)))\<rparr>)"
    using m tc_commit_ts_above(2) [of ?t]
    by (intro ts_stage) (auto simp: pc t_idle_def t_todo_def word_le_nat_alt)
  also have "?a\<lparr>t_staged := (t_staged ?a)(w := True), t_writes := (t_writes ?a)(w := ?ws),
      t_valid := (t_valid ?a)(w := {}), t_cts := (t_cts ?a)(w := unat (commit_ts (tc_commit_ts ?t)))\<rparr> =
      tc_abs c (tc_step c w pro s)"
    by (intro tso_eqI) (auto simp: tc_step_def Let_def pc tc_writes_def tc_new_payload_def fun_eq_iff)
  finally show ?thesis .
qed

text \<open>A staged worker gives up, or has one more element of its read set validated.\<close>

lemma tc_fail_sim:
  assumes "tc_staged (tc_pcs s w)"
  shows "ts_step (tc_abs c s) (tc_abs c (tc_fail w s))"
proof -
  let ?a = "tc_abs c s"
  have "ts_step ?a (?a\<lparr>t_staged := (t_staged ?a)(w := False), t_writes := (t_writes ?a)(w := []),
      t_valid := (t_valid ?a)(w := {})\<rparr>)"
    using assms by (intro ts_abandon) simp
  also have "?a\<lparr>t_staged := (t_staged ?a)(w := False), t_writes := (t_writes ?a)(w := []),
      t_valid := (t_valid ?a)(w := {})\<rparr> = tc_abs c (tc_fail w s)"
    by (cases "tc_pcs s w"; use assms in \<open>simp_all\<close>)
      (intro tso_eqI; auto simp: tc_fail_def)+
  finally show ?thesis .
qed

lemma tc_staged_cases:
  assumes "(tc_pcs s w = TVal dn (r # rest)) \<or> (\<exists>x. tc_pcs s w = TExtend dn r rest x)"
  shows "tc_staged (tc_pcs s w)" "tc_valid (tc_pcs s w) = (\<lambda>r. (te_key r, te_val r)) ` set dn"
    "tc_locked (tc_txs s w) (tc_pcs s w) = te_key ` set (tc_write_set (tc_txs s w))"
    "tc_pend n (tc_txs s w) (tc_pcs s w) = []" "tc_dirty (tc_pcs s w) = None"
    "tc_pobs (tc_txs s w) (tc_pcs s w) = {}"
  using assms by auto

lemma tc_valid_sim:
  assumes wf: "tc_wf s"
    and pc: "(tc_pcs s w = TVal dn (r # rest)) \<or> (\<exists>x. tc_pcs s w = TExtend dn r rest x)"
    and v: "commit_ts (tc_txs s w) \<le> tsw_rts (te_tsw r) \<or>
      tsw_wts (te_tsw r) = tsw_wts (tsw (tc_table s (te_key r))) \<and>
      (commit_ts (tc_txs s w) \<le> tsw_rts (tsw (tc_table s (te_key r))) \<or>
       te_key r \<in> te_key ` set (tc_write_set (tc_txs s w)))"
  shows "ts_step (tc_abs c s) (tc_abs c (tc_goto w (TVal (dn @ [r]) rest) s))"
proof -
  let ?t = "tc_txs s w" and ?a = "tc_abs c s" and ?k = "te_key r"
  have "dn @ r # rest = tc_read_set ?t \<and> tc_above ?t"
    using pc by (elim disjE exE) (drule tc_wfD(2) [OF wf], simp)+
  then have r: "r \<in> set (tc_read_set ?t)" "tc_above ?t" by (metis in_set_conv_decomp)+
  then have o: "(?k, unat (tsw_wts (te_tsw r)), unat (tsw_rts (te_tsw r)), te_val r) \<in> t_obs ?a w"
    by (auto simp: tc_robs_def)
  note st = tc_staged_cases [OF pc]
  have f: "fst ` set (t_writes ?a w) = te_key ` set (tc_write_set ?t)"
    using st(1) by (simp add: tc_writes_def image_image)
  have "ts_step ?a (?a\<lparr>t_valid := (t_valid ?a)(w := insert (?k, te_val r) (t_valid ?a w))\<rparr>)"
  proof (rule ts_validate [OF _ o])
    show "unat (tsw_wts (te_tsw r)) \<le> t_cts ?a w"
      using r by (simp add: tc_above_def word_le_nat_alt)
    show "t_cts ?a w \<le> unat (tsw_rts (te_tsw r)) \<or> unat (tsw_wts (te_tsw r)) = t_wts ?a ?k \<and>
        (t_cts ?a w \<le> t_rts ?a ?k \<or> ?k \<in> fst ` set (t_writes ?a w))"
      unfolding f using v by (auto simp: word_le_nat_alt)
  qed (use st(1) in simp)
  also have "?a\<lparr>t_valid := (t_valid ?a)(w := insert (?k, te_val r) (t_valid ?a w))\<rparr> =
      tc_abs c (tc_goto w (TVal (dn @ [r]) rest) s)"
    using st by (intro tso_eqI) auto
  finally show ?thesis .
qed

lemma tc_val_loop_sim:
  assumes wf: "tc_wf s" and pl: "tc_plain c"
    and pc: "(tc_pcs s w = TVal dn (r # rest)) \<or> (\<exists>x. tc_pcs s w = TExtend dn r rest x)"
    and v1: "v1 = tsw (tc_table s (te_key r))"
  shows "ts_step (tc_abs c s) (tc_abs c (tc_val_loop c w dn r rest v1 s))"
proof (rule tc_val_loop_cases)
  show "\<not> tc_history c" using pl by (simp add: tc_plain_def)
  show "ts_step (tc_abs c s) (tc_abs c (tc_fail w s))"
    by (rule tc_fail_sim [OF tc_staged_cases(1) [OF pc]])
  show "ts_step (tc_abs c s) (tc_abs c (tc_goto w (TVal (dn @ [r]) rest) s))"
    if "tsw_wts (te_tsw r) = tsw_wts v1" "commit_ts (tc_txs s w) \<le> tsw_rts v1 \<or>
      te_key r \<in> te_key ` set (tc_write_set (tc_txs s w))"
    by (rule tc_valid_sim [OF wf pc]) (use that v1 in simp)
  show "ts_step (tc_abs c s) (tc_abs c (tc_goto w (TExtend dn r rest v1) s))"
    by (intro tc_abs_stay [where w = w]) (use tc_staged_cases [OF pc] in \<open>auto simp: read_ok_old\<close>)
qed

lemma tc_extend_sim:
  assumes wf: "tc_wf s" and pl: "tc_plain c" and nf: "\<not> tc_full s"
    and pc: "tc_pcs s w = TExtend dn r rest v1"
  shows "ts_step (tc_abs c s) (tc_abs c (tc_extend c w dn r rest v1 s))"
proof -
  let ?t = "tc_txs s w" and ?a = "tc_abs c s" and ?k = "te_key r"
  let ?v2 = "tsw_extend (commit_ts ?t) v1"
  have P: "dn @ r # rest = tc_read_set ?t" "tc_above ?t" "tsw_wts (te_tsw r) = tsw_wts v1"
    "tsw_rts v1 < commit_ts ?t" "\<not> tsw_lock v1" using tc_wfD(2) [OF wf pc] by simp_all
  have r: "r \<in> set (tc_read_set ?t)" using P(1) by (metis in_set_conv_decomp)
  then have k: "te_rcdptr r = ?k" using tc_wfD(1) [OF wf, of w] by (simp add: tc_wf_tx_def)
  show ?thesis
  proof (cases "tsw (tc_table s ?k) = v1")
    case False
    have "ts_step ?a (tc_abs c (tc_val_loop c w dn r rest (tsw (tc_table s ?k)) s))"
      by (rule tc_val_loop_sim [OF wf pl]) (use pc in auto)
    with False k show ?thesis by (simp add: tc_extend_def tsw_cas_def)
  next
    case True
    have small: "unat (commit_ts ?t) < 2 ^ 48" using tc_wfD(3) [OF wf nf pc] by simp
    note F = tsw_extend_fields [OF P(4) small]
    have o: "(?k, unat (tsw_wts (te_tsw r)), unat (tsw_rts (te_tsw r)), te_val r) \<in> t_obs ?a w"
      using r by (auto simp: tc_robs_def)
    have "ts_step ?a (?a\<lparr>t_wts := (t_wts ?a)(?k := unat (tsw_wts ?v2)),
        t_rts := (t_rts ?a)(?k := unat (tsw_rts ?v2)),
        t_valid := (t_valid ?a)(w := insert (?k, te_val r) (t_valid ?a w))\<rparr>)"
    proof (rule ts_extend [OF _ o])
      show "unat (tsw_wts (te_tsw r)) \<le> t_cts ?a w" using P(2) r by (simp add: tc_above_def word_le_nat_alt)
      show "t_wts ?a ?k \<le> unat (tsw_wts ?v2)" using F(2) True by (simp add: word_le_nat_alt)
      show "t_rts ?a ?k \<le> unat (tsw_rts ?v2)" using F(1) True P(4) by (simp add: word_less_nat_alt)
    qed (use True P F in \<open>simp_all add: pc unat_tsw_rts\<close>)
    also have "?a\<lparr>t_wts := (t_wts ?a)(?k := unat (tsw_wts ?v2)),
        t_rts := (t_rts ?a)(?k := unat (tsw_rts ?v2)),
        t_valid := (t_valid ?a)(w := insert (?k, te_val r) (t_valid ?a w))\<rparr> =
        tc_abs c (tc_extend c w dn r rest v1 s)"
      using True k F P by (intro tso_eqI) (auto simp: tc_extend_def tsw_cas_def pc set_tsw_def)
    finally show ?thesis .
  qed
qed

lemma tc_commit_sim:
  assumes wf: "tc_wf s" and pc: "tc_pcs s w = TVal dn []"
  shows "ts_step (tc_abs c s) (tc_abs c (tc_commit c w s))"
proof -
  let ?t = "tc_txs s w" and ?a = "tc_abs c s"
  let ?rs = "map (\<lambda>r. (te_key r, te_val r)) (tc_read_set ?t)"
  have dn: "dn = tc_read_set ?t" using tc_wfD(2) [OF wf pc] by simp
  have "ts_step ?a (?a\<lparr>t_staged := (t_staged ?a)(w := False), t_writes := (t_writes ?a)(w := []),
      t_valid := (t_valid ?a)(w := {}), t_pend := (t_pend ?a)(w := t_writes ?a w),
      t_point := (t_point ?a)(w := (t_cts ?a w, length (t_com ?a))),
      t_com := t_com ?a @ [((t_cts ?a w, length (t_com ?a)), \<lparr>tx_reads = ?rs, tx_writes = t_writes ?a w\<rparr>)]\<rparr>)"
    by (intro ts_commit) (auto simp: pc dn)
  also have "?a\<lparr>t_staged := (t_staged ?a)(w := False), t_writes := (t_writes ?a)(w := []),
      t_valid := (t_valid ?a)(w := {}), t_pend := (t_pend ?a)(w := t_writes ?a w),
      t_point := (t_point ?a)(w := (t_cts ?a w, length (t_com ?a))),
      t_com := t_com ?a @ [((t_cts ?a w, length (t_com ?a)), \<lparr>tx_reads = ?rs, tx_writes = t_writes ?a w\<rparr>)]\<rparr> =
      tc_abs c (tc_commit c w s)"
    by (intro tso_eqI) (auto simp: tc_commit_def Let_def pc tc_writes_def tc_record_def)
  finally show ?thesis .
qed

lemma tc_write_sim:
  assumes wf: "tc_wf s" and pl: "tc_plain c" and pc: "tc_pcs s w = TWrite es"
  shows "ts_step (tc_abs c s) (tc_abs c (tc_step c w pro s))"
proof (cases es)
  case Nil
  with pc show ?thesis
    by (intro tc_abs_stay [where w = w]) (auto simp: tc_step_def Let_def tc_writes_def)
next
  case (Cons e es')
  let ?t = "tc_txs s w" and ?a = "tc_abs c s" and ?k = "te_key e"
  let ?f = "tc_new_payload (tc_val_size c) ?t"
  have "e \<in> set (tc_write_set ?t)" using tc_wfD(2) [OF wf pc] Cons by auto
  then have k: "te_rcdptr e = ?k" using tc_wfD(1) [OF wf, of w] by (simp add: tc_wf_tx_def)
  have "ts_step ?a (?a\<lparr>t_val := (t_val ?a)(?k := ?f (t_val ?a ?k)),
      t_pend := (t_pend ?a)(w := tc_writes (tc_val_size c) ?t es'),
      t_dirty := (t_dirty ?a)(w := Some ?k)\<rparr>)"
    by (intro ts_copy) (auto simp: pc Cons tc_writes_def)
  also have "?a\<lparr>t_val := (t_val ?a)(?k := ?f (t_val ?a ?k)),
      t_pend := (t_pend ?a)(w := tc_writes (tc_val_size c) ?t es'),
      t_dirty := (t_dirty ?a)(w := Some ?k)\<rparr> = tc_abs c (tc_step c w pro s)"
    using k pl by (intro tso_eqI)
      (auto simp: tc_step_def Let_def pc Cons tc_write_copy_def set_tc_val_def tc_plain_def)
  finally show ?thesis .
qed

lemma tc_store_sim:
  assumes wf: "tc_wf s" and nf: "\<not> tc_full s" and pc: "tc_pcs s w = TStore e es"
  shows "ts_step (tc_abs c s) (tc_abs c (tc_step c w pro s))"
proof -
  let ?t = "tc_txs s w" and ?a = "tc_abs c s" and ?k = "te_key e"
  have e: "e \<in> set (tc_write_set ?t)" "?k \<notin> te_key ` set es" using tc_wfD(2) [OF wf pc] by auto
  then have k: "te_rcdptr e = ?k" using tc_wfD(1) [OF wf, of w] by (simp add: tc_wf_tx_def)
  have small: "unat (commit_ts ?t) < 2 ^ 48" using tc_wfD(3) [OF wf nf pc] by simp
  have "ts_step ?a (?a\<lparr>t_wts := (t_wts ?a)(?k := t_cts ?a w), t_rts := (t_rts ?a)(?k := t_cts ?a w),
      t_bit := (t_bit ?a)(?k := False), t_lock := (t_lock ?a)(w := t_lock ?a w - {?k}),
      t_dirty := (t_dirty ?a)(w := None)\<rparr>)"
    by (intro ts_install) (simp add: pc)
  also have "?a\<lparr>t_wts := (t_wts ?a)(?k := t_cts ?a w), t_rts := (t_rts ?a)(?k := t_cts ?a w),
      t_bit := (t_bit ?a)(?k := False), t_lock := (t_lock ?a)(w := t_lock ?a w - {?k}),
      t_dirty := (t_dirty ?a)(w := None)\<rparr> = tc_abs c (tc_step c w pro s)"
    using k e tsw_result_fields [OF small] by (intro tso_eqI)
      (auto simp: tc_step_def Let_def pc tc_write_store_def set_tsw_def)
  finally show ?thesis .
qed

lemma tc_step_sim:
  assumes wf: "tc_wf s" and pl: "tc_plain c" and nf: "\<not> tc_full s"
  shows "ts_step (tc_abs c s) (tc_abs c (tc_step c w pro s))"
proof (cases "tc_pcs s w")
  case (TLockLoad held rest)
  with tc_wfD(2) [OF wf TLockLoad] show ?thesis
    by (cases rest) (intro tc_abs_stay [where w = w]; auto simp: tc_step_def Let_def read_ok_old)+
next
  case (TLockCas held e rest x)
  with tc_lock_sim [OF wf pl TLockCas] show ?thesis by (simp add: tc_step_def)
next
  case (TVal dn rest)
  show ?thesis
  proof (cases rest)
    case Nil
    with TVal tc_commit_sim [OF wf] show ?thesis by (simp add: tc_step_def)
  next
    case (Cons r rest')
    then have pc: "tc_pcs s w = TVal dn (r # rest') \<or> (\<exists>x. tc_pcs s w = TExtend dn r rest' x)"
      using TVal by simp
    have "r \<in> set (tc_read_set (tc_txs s w))"
      using tc_wfD(2) [OF wf TVal] Cons by (metis in_set_conv_decomp tc_wf_pc.simps(7))
    then have k: "te_rcdptr r = te_key r" using tc_wfD(1) [OF wf, of w] by (simp add: tc_wf_tx_def)
    show ?thesis
    proof (cases "tsw_rts (te_tsw r) < commit_ts (tc_txs s w)")
      case True
      with TVal Cons k tc_val_loop_sim [OF wf pl pc refl] show ?thesis
        by (simp add: tc_step_def tc_validate_def)
    next
      case False
      then have "ts_step (tc_abs c s) (tc_abs c (tc_goto w (TVal (dn @ [r]) rest') s))"
        by (intro tc_valid_sim [OF wf pc] disjI1) simp
      with TVal Cons False show ?thesis by (simp add: tc_step_def tc_validate_def)
    qed
  qed
next
  case (TExtend dn r rest x)
  with tc_extend_sim [OF wf pl nf TExtend] show ?thesis by (simp add: tc_step_def)
next
  case (TWrite es)
  then show ?thesis by (rule tc_write_sim [OF wf pl])
qed (use tc_exec_sim tc_read_sim [OF wf] tc_unlock_sim [OF wf] tc_stage_sim [OF wf]
  tc_store_sim [OF wf nf] tc_wfD(2) [OF wf, of w] in \<open>simp_all\<close>)

end
