(* ===== verification/Tictoc_Theorems.thy ===== *)
theory Tictoc_Theorems
  imports Tictoc_Refinement
begin

text \<open>
  What TicToc promises: the committed transactions in the order of their commit timestamps
  form a serial history, the lock bits exclude, the interval of a record only grows. And
  two build variants in which it does not keep its promise: with the timestamp history (on
  by default) and with the waiting variant of \<^verbatim>\<open>NO_WAIT_OF_TICTOC\<close>.
\<close>

section \<open>The invariant\<close>

lemma tc_abs_init: "tc_start d s \<Longrightarrow> ts_init d (tc_abs c s)"
  by (auto simp: tc_start_def tc_init_def ts_init_def tc_abs_def tc_robs_def tc_new_def tsw_lock_def
      unat_tsw_rts)

lemma tc_full_mono:
  assumes "tc_full s"
  shows "tc_full (tc_step c w pro s)"
proof (cases "tc_pcs s w")
  case (TOps cs)
  with assms show ?thesis by (cases cs rule: tc_calls_cases) (auto simp: tc_step_def Let_def)
next
  case (TUnlock es out)
  with assms show ?thesis by (cases es; cases out) (auto simp: tc_step_def Let_def)
qed (use assms in \<open>auto simp: tc_step_def Let_def tc_read_check_def tc_read_loop_def preemptiveAborts_def
      tc_lock_cas_def tsw_cas_def tc_verify_def tc_verify_fail_def tc_validate_def tc_val_loop_def
      tc_fail_def tc_extend_def tc_commit_def split: list.split tc_verdict.split\<close>)

definition tc_ok :: "tc_config \<Rightarrow> db \<Rightarrow> tc_sys \<Rightarrow> bool" where
  "tc_ok c d s \<longleftrightarrow> (tc_plain c \<longrightarrow> tc_wf s \<and> (tc_full s \<or> ts_inv d (tc_abs c s)))"

interpretation tc_sys: invariant_system "tc_start d" "tc_next c" "tc_ok c d" for c d
proof unfold_locales
  show "tc_ok c d s" if "tc_start d s" for s
    using tc_init_wf [OF that] ts_init_inv [OF tc_abs_init [OF that]] by (simp add: tc_ok_def)
  show "tc_ok c d t" if "tc_ok c d s" "tc_next c s t" for s t
    using that tc_step_wf [of s c] tc_step_sim [of s c] tc_full_mono [of s c] ts_step_inv
    unfolding tc_ok_def tc_next_def by metis
qed

lemma tc_reach_inv:
  "tc_reach c d s \<Longrightarrow> tc_plain c \<Longrightarrow> \<not> tc_full s \<Longrightarrow> ts_inv d (tc_abs c s)"
  using tc_sys.reach_inv [of d c s] by (simp add: tc_ok_def)

section \<open>Concrete runs\<close>

definition tdemo_cfg :: "tc_mode \<Rightarrow> bool \<Rightarrow> tc_config" where
  "tdemo_cfg m h = \<lparr>tc_mode = m, tc_history = h, tc_preempt = True, tc_val_size = 1\<rparr>"

definition tdemo_start :: tc_sys where
  "tdemo_start = tc_init (\<lambda>_. [0]) (\<lambda>w. [of_nat w + 1])"

definition tmoves :: "nat \<Rightarrow> procedure list \<Rightarrow> nat \<Rightarrow> (nat \<times> procedure list) list" where
  "tmoves w pro n = replicate n (w, pro)"

lemmas tdemo_eval =
  tc_step_def Let_def tc_upd_def tc_goto_def tc_read_loop_def preemptiveAborts_def tc_read_check_def
  tc_lock_cas_def tsw_cas_def tc_verify_def tc_verify_fail_def tc_validate_def tc_val_loop_def
  tc_fail_def tc_extend_def tc_commit_def tc_record_def tc_new_def tc_get_tuple_def
  tc_searchReadSet_def tc_searchWriteSet_def set_tsw_def set_pre_tsw_def set_tc_val_def tc_begin_def
  tc_read_known_def tc_read_copy_def tc_read_register_def tc_write_ptr_def tc_write_register_def
  tc_sort_def tc_locked_one_def tc_unlock_one_def tc_commit_ts_def tc_validate_one_def
  tc_history_ok_def tc_preverify_one_def tc_new_payload_def tc_write_copy_def tc_write_pre_def
  tc_write_store_def tc_clear_def tc_init_def tdemo_start_def tdemo_cfg_def tmoves_def
  Procedure_def memcpy_def replicate_numeral tsw_defs tsw_extend_def tsw_result_def set_bit_eq_or
  unset_bit_eq_and_not

text \<open>
  Worker 1 reads record 0, worker 0 overwrites it and commits at timestamp 1, worker 1
  commits at timestamp 0: before worker 0 in the serial order, although it committed later.
\<close>

definition tdemo_end :: tc_sys where
  "tdemo_end = tc_run (tdemo_cfg NoWaitLock False)
     (tmoves 1 [Procedure READ 0] 6 @ tmoves 0 [Procedure READ_MODIFY_WRITE 0] 19 @ tmoves 1 [] 6)
     tdemo_start"

lemma tdemo_end_state:
  "tc_com tdemo_end =
     [((1, 0), \<lparr>tx_reads = [(0, [0])], tx_writes = [(0, \<lambda>v. memcpy v [1] 1)]\<rparr>),
      ((0, 1), \<lparr>tx_reads = [(0, [0])], tx_writes = []\<rparr>)]"
  "\<not> tc_full tdemo_end" "tsw (tc_table tdemo_end 0) = 65536" "tc_val (tc_table tdemo_end 0) = [1]"
  by (simp_all add: tdemo_end_def tdemo_eval fun_eq_iff)

lemma tdemo_reach: "tc_reach c (\<lambda>_. [0]) (tc_run c sched tdemo_start)"
  by (rule tc_run_reach [OF reach_init]) (auto simp: tc_start_def tdemo_start_def)

lemma tdemo_end_reach: "tc_reach (tdemo_cfg NoWaitLock False) (\<lambda>_. [0]) tdemo_end"
  unfolding tdemo_end_def by (rule tdemo_reach)

lemma tdemo_plain: "tc_plain (tdemo_cfg NoWaitLock False)"
  by (simp add: tc_plain_def tdemo_cfg_def)

section \<open>Safety\<close>

text \<open>
  C12. Serializability of TicToc without timestamp history, in the variants that abort or spin
  on a lock: the committed transactions, sorted by their commit timestamp and then by their
  commit, form a serial history, whatever the interleaving of any number of workers, as
  long as the commit timestamps fit their 48 bits.
\<close>

theorem tictoc_serializable:
  assumes "tc_reach c d s" and "tc_plain c" and "\<not> tc_full s"
  shows "serial_ok d (map snd (in_order (tc_com s)))"
  using ts_inv_serial [OF tc_reach_inv [OF assms]] by simp

theorem tictoc_serializable_witness:
  "serial_ok (\<lambda>_. [0]) [\<lparr>tx_reads = [(0, [0])], tx_writes = []\<rparr>,
     \<lparr>tx_reads = [(0, [0])], tx_writes = [(0, \<lambda>v. memcpy v [1] 1)]\<rparr>]"
  using tictoc_serializable [OF tdemo_end_reach tdemo_plain tdemo_end_state(2)]
  by (simp add: tdemo_end_state(1) in_order_def)

text \<open>
  The lock bit of a record is set exactly when some worker holds its lock, and at most
  one does; a worker that holds a lock has a commit timestamp above the record's read
  timestamp; and an unlocked record holds the payload the committed transactions, in
  timestamp order, leave in it.
\<close>

theorem tictoc_locks:
  assumes "tc_reach c d s" and "tc_plain c" and "\<not> tc_full s"
  shows "(tsw_lock (tsw (tc_table s k)) \<longleftrightarrow> (\<exists>w. k \<in> tc_locked (tc_txs s w) (tc_pcs s w))) \<and>
    (\<forall>w v. k \<in> tc_locked (tc_txs s w) (tc_pcs s w) \<longrightarrow>
       k \<in> tc_locked (tc_txs s v) (tc_pcs s v) \<longrightarrow> v = w) \<and>
    (\<forall>w. k \<in> tc_locked (tc_txs s w) (tc_pcs s w) \<longrightarrow>
       tsw_rts (tsw (tc_table s k)) < commit_ts (tc_txs s w)) \<and>
    (\<not> tsw_lock (tsw (tc_table s k)) \<longrightarrow> tc_val (tc_table s k) = ser_all d (tc_com s) k)"
proof -
  have inv: "ts_inv d (tc_abs c s)" by (rule tc_reach_inv [OF assms])
  have "\<not> tsw_lock (tsw (tc_table s k)) \<Longrightarrow> tc_val (tc_table s k) = ser_all d (tc_com s) k"
    using quiet_settled [OF inv unlocked_quiet [OF inv], of k] by simp
  moreover have "v = w" if "k \<in> tc_locked (tc_txs s w) (tc_pcs s w)"
      "k \<in> tc_locked (tc_txs s v) (tc_pcs s v)" for v w
    using tinv_excl [OF inv, of k v w] that by simp
  moreover have "tsw_rts (tsw (tc_table s k)) < commit_ts (tc_txs s w)"
    if "k \<in> tc_locked (tc_txs s w) (tc_pcs s w)" for w
    using tinv_cts [OF inv, of k w] that by (simp add: word_less_nat_alt)
  ultimately show ?thesis using tinv_bit [OF inv, of k] by simp
qed

theorem tictoc_locks_witness:
  "tc_val (tc_table tdemo_end 0) = ser_all (\<lambda>_. [0]) (tc_com tdemo_end) 0"
  using tictoc_locks [OF tdemo_end_reach tdemo_plain tdemo_end_state(2), of 0] tdemo_end_state(3)
  by (simp add: tsw_lock_def)

text \<open>
  Extension of a read timestamp, also when the difference exceeds the 15 bits of
  \<^verbatim>\<open>delta\<close>: the new word has read timestamp \<open>cts\<close>, its write timestamp does not go back
  and stays within the interval, and the lock bit is unchanged.
\<close>

theorem tictoc_extension:
  assumes "tsw_rts v1 < cts" and "unat cts < 2 ^ 48"
  shows "tsw_rts (tsw_extend cts v1) = cts \<and> tsw_wts v1 \<le> tsw_wts (tsw_extend cts v1) \<and>
    tsw_wts (tsw_extend cts v1) \<le> cts \<and> tsw_lock (tsw_extend cts v1) = tsw_lock v1"
proof -
  note F = tsw_extend_fields [OF assms]
  then have "tsw_wts (tsw_extend cts v1) \<le> cts" by (simp add: word_le_nat_alt unat_tsw_rts)
  with F show ?thesis by (simp add: word_unat_eq_iff)
qed

theorem tictoc_extension_witness: "tsw_rts (tsw_extend 100000 0) = 100000"
  using tictoc_extension [of 0 100000] by (simp add: tsw_rts_def tsw_wts_def tsw_delta_def)

section \<open>Two variants that are not serializable\<close>

text \<open>
  Worker 2 reads record 0; worker 0 writes records 0 and 1 and commits; worker 2 reads
  record 1; worker 1 writes record 0 and commits; worker 2 validates its stale read of
  record 0 against the timestamp of a version it did not read.
\<close>

definition tdemo_history :: tc_sys where
  "tdemo_history = tc_run (tdemo_cfg NoWaitLock True)
     (tmoves 2 [Procedure READ 0, Procedure READ 1] 7 @
      tmoves 0 [Procedure WRITE 0, Procedure WRITE 1] 23 @ tmoves 2 [] 5 @
      tmoves 1 [Procedure WRITE 0] 15 @ tmoves 2 [] 7) tdemo_start"

lemma tdemo_history_state:
  "map snd (tc_com tdemo_history) =
     [\<lparr>tx_reads = [], tx_writes = [(0, \<lambda>v. memcpy v [1] 1), (1, \<lambda>v. memcpy v [1] 1)]\<rparr>,
      \<lparr>tx_reads = [], tx_writes = [(0, \<lambda>v. memcpy v [2] 1)]\<rparr>,
      \<lparr>tx_reads = [(0, [0]), (1, [1])], tx_writes = []\<rparr>]"
  "\<not> tc_full tdemo_history"
  by (simp_all add: tdemo_history_def tdemo_eval fun_eq_iff)

text \<open>
  C13. With \<^verbatim>\<open>TIMESTAMP_HISTORY\<close>, the default, TicToc is not serializable: a reachable state
  in which no order of the three committed transactions is serial. The history test
  compares the commit timestamp with the previous version, without asking whether that is
  the version the transaction read.
\<close>

theorem tictoc_history_unserializable:
  "\<exists>s. tc_reach (tdemo_cfg NoWaitLock True) (\<lambda>_. [0]) s \<and> \<not> tc_full s \<and>
     unserializable (\<lambda>_. [0]) (map snd (tc_com s))"
proof (intro exI conjI)
  show "tc_reach (tdemo_cfg NoWaitLock True) (\<lambda>_. [0]) tdemo_history"
    unfolding tdemo_history_def by (rule tdemo_reach)
  show "\<not> tc_full tdemo_history" by (rule tdemo_history_state(2))
  show "unserializable (\<lambda>_. [0]) (map snd (tc_com tdemo_history))"
    unfolding tdemo_history_state(1)
    by (rule unserializable_three) (simp add: apply_tx_def apply_write_def memcpy_def)
qed

text \<open>
  Both workers read record 1. Worker 0 has it locked when worker 1, which also writes record
  0, tries to lock it; worker 1 unlocks record 0, fails the pre-verify, and goes on to
  validate and to write with no lock held.
\<close>

definition tdemo_verify :: tc_sys where
  "tdemo_verify = tc_run (tdemo_cfg NoWaitVerify False)
     (tmoves 1 [Procedure READ_MODIFY_WRITE 1, Procedure WRITE 0] 12 @
      tmoves 0 [Procedure READ_MODIFY_WRITE 1] 16 @ tmoves 1 [] 15 @ tmoves 0 [] 3) tdemo_start"

lemma tdemo_verify_state:
  "map snd (tc_com tdemo_verify) =
     [\<lparr>tx_reads = [(1, [0])], tx_writes = [(1, \<lambda>v. memcpy v [1] 1)]\<rparr>,
      \<lparr>tx_reads = [(1, [0])], tx_writes = [(0, \<lambda>v. memcpy v [2] 1), (1, \<lambda>v. memcpy v [2] 1)]\<rparr>]"
  "\<not> tc_full tdemo_verify"
  by (simp_all add: tdemo_verify_def tdemo_eval fun_eq_iff)

text \<open>
  With \<^verbatim>\<open>NO_WAIT_OF_TICTOC\<close> and without \<^verbatim>\<open>NO_WAIT_LOCKING_IN_VALIDATION\<close>, an update is
  lost: a reachable state in which two committed transactions both overwrite a record after
  reading its initial value, because \<^verbatim>\<open>validationPhase\<close> ignores that \<^verbatim>\<open>lockWriteSet\<close> gave up.
\<close>

theorem tictoc_verify_unserializable:
  "\<exists>s. tc_reach (tdemo_cfg NoWaitVerify False) (\<lambda>_. [0]) s \<and> \<not> tc_full s \<and>
     unserializable (\<lambda>_. [0]) (map snd (tc_com s))"
proof (intro exI conjI)
  show "tc_reach (tdemo_cfg NoWaitVerify False) (\<lambda>_. [0]) tdemo_verify"
    unfolding tdemo_verify_def by (rule tdemo_reach)
  show "\<not> tc_full tdemo_verify" by (rule tdemo_verify_state(2))
  show "unserializable (\<lambda>_. [0]) (map snd (tc_com tdemo_verify))"
    unfolding tdemo_verify_state(1)
    by (rule unserializable_two) (simp_all add: apply_tx_def apply_write_def memcpy_def)
qed

end
