(* ===== verification/Standalone_Model.thy ===== *)
theory Standalone_Model
  imports Rw_Lock Serial_Spec
begin

text \<open>
  What the single-file executors of the fork share (\<^verbatim>\<open>lock-manager/ss2pl.cc\<close>,
  \<^verbatim>\<open>fair_determinism/ss2pl.cc\<close>, \<^verbatim>\<open>fair_ss2pl/ss2pl.cc\<close> and their copies): tasks and their
  generation, the reader-writer lock of one atomic counter, the local sets of a
  transaction and its single accesses to a record. A pointer to a tuple or to its lock is
  the index of the tuple in \<^verbatim>\<open>Table\<close>.
\<close>

section \<open>Tasks\<close>

datatype sa_ope = OpRead | OpWrite | OpSleep

record task =
  task_ope :: sa_ope
  task_key :: u64

definition Task :: "sa_ope \<Rightarrow> u64 \<Rightarrow> task" where
  "Task ope k = \<lparr>task_ope = ope, task_key = k\<rparr>"

text \<open>
  \<^verbatim>\<open>makeTask\<close>: \<open>zipf\<close> and \<open>rnd\<close> are the two generators over a shared generator state; the
  result is \<open>None\<close> when the assertion on the key fails. The first argument of the loop is
  the number of iterations left, \<open>i\<close> the loop counter.
\<close>

fun makeTask_loop ::
  "nat \<Rightarrow> ('g \<Rightarrow> u64 \<times> 'g) \<Rightarrow> ('g \<Rightarrow> u64 \<times> 'g) \<Rightarrow> nat \<Rightarrow> u64 \<Rightarrow> u64 \<Rightarrow> nat \<Rightarrow> 'g \<Rightarrow>
    (task list \<times> 'g) option" where
  "makeTask_loop 0 zipf rnd sleep_pos tuple_num rw_rate i g = Some ([], g)"
| "makeTask_loop (Suc n) zipf rnd sleep_pos tuple_num rw_rate i g =
     (case zipf g of (random_gen_key, g1) \<Rightarrow>
        (if \<not> random_gen_key < tuple_num then None
         else
           (case (if i = sleep_pos then (Task OpSleep 0, g1)
                  else (case rnd g1 of (r, g2) \<Rightarrow>
                    (if r mod 100 < rw_rate then (Task OpRead (random_gen_key + 1), g2)
                     else (Task OpWrite (random_gen_key + 1), g2)))) of
              (t, g3) \<Rightarrow>
                map_option (\<lambda>(ts, g'). (t # ts, g'))
                  (makeTask_loop n zipf rnd sleep_pos tuple_num rw_rate (Suc i) g3))))"

definition makeTask ::
  "nat \<Rightarrow> ('g \<Rightarrow> u64 \<times> 'g) \<Rightarrow> ('g \<Rightarrow> u64 \<times> 'g) \<Rightarrow> nat \<Rightarrow> u64 \<Rightarrow> u64 \<Rightarrow> 'g \<Rightarrow>
    (task list \<times> 'g) option" where
  "makeTask max_ope zipf rnd sleep_pos tuple_num rw_rate g =
     makeTask_loop max_ope zipf rnd sleep_pos tuple_num rw_rate 0 g"

text \<open>\<^verbatim>\<open>makeTask_init\<close> of the lock manager: nine writes of the same record and a sleep.\<close>

fun makeTask_init_loop :: "nat \<Rightarrow> ('g \<Rightarrow> u64 \<times> 'g) \<Rightarrow> u64 \<Rightarrow> nat \<Rightarrow> 'g \<Rightarrow> (task list \<times> 'g) option" where
  "makeTask_init_loop 0 zipf tuple_num i g = Some ([], g)"
| "makeTask_init_loop (Suc n) zipf tuple_num i g =
     (case zipf g of (z, g1) \<Rightarrow>
        (let random_gen_key = z mod 1 in
         if \<not> random_gen_key < tuple_num then None
         else map_option
                (\<lambda>(ts, g'). ((if i = 9 then Task OpSleep 0 else Task OpWrite (random_gen_key + 1)) # ts, g'))
                (makeTask_init_loop n zipf tuple_num (Suc i) g1)))"

definition makeTask_init :: "('g \<Rightarrow> u64 \<times> 'g) \<Rightarrow> u64 \<Rightarrow> 'g \<Rightarrow> (task list \<times> 'g) option" where
  "makeTask_init zipf tuple_num g = makeTask_init_loop 10 zipf tuple_num 0 g"

section \<open>The reader-writer lock\<close>

text \<open>
  Every single-file executor has its own copy of the lock. Its \<^verbatim>\<open>try\<close> loops, written out as
  the code has them; the theorem below says that they are the loops of \<^verbatim>\<open>include/rwlock.hh\<close>,
  so that the systems may use the atomic changes \<open>r_acq\<close>, \<open>w_acq\<close> and \<open>upg\<close>.
\<close>

fun r_try_lock_loop :: "u32 \<Rightarrow> u32 env \<Rightarrow> u32 \<Rightarrow> (bool \<times> u32 env \<times> u32) option" where
  "r_try_lock_loop expected [] counter = (if expected \<noteq> - 1 then None else Some (False, [], counter))"
| "r_try_lock_loop expected (e # es) counter =
     (if expected \<noteq> - 1 then
        (let desired = expected + 1 in
         if e counter = expected then Some (True, es, desired)
         else r_try_lock_loop (e counter) es (e counter))
      else Some (False, e # es, counter))"

fun w_try_lock_loop :: "u32 \<Rightarrow> u32 env \<Rightarrow> u32 \<Rightarrow> (bool \<times> u32 env \<times> u32) option" where
  "w_try_lock_loop expected [] counter = (if expected \<noteq> 0 then Some (False, [], counter) else None)"
| "w_try_lock_loop expected (e # es) counter =
     (if expected \<noteq> 0 then Some (False, e # es, counter)
      else if e counter = expected then Some (True, es, - 1)
      else w_try_lock_loop (e counter) es (e counter))"

fun try_upgrade_loop :: "u32 \<Rightarrow> u32 env \<Rightarrow> u32 \<Rightarrow> (bool \<times> u32 env \<times> u32) option" where
  "try_upgrade_loop expected [] counter = (if expected \<noteq> 1 then Some (False, [], counter) else None)"
| "try_upgrade_loop expected (e # es) counter =
     (if expected \<noteq> 1 then Some (False, e # es, counter)
      else if e counter = expected then Some (True, es, - 1)
      else try_upgrade_loop (e counter) es (e counter))"

text \<open>The first load, then the loop.\<close>

definition r_try_lock :: "u32 env \<Rightarrow> u32 \<Rightarrow> (bool \<times> u32 env \<times> u32) option" where
  "r_try_lock es counter =
     (case es of [] \<Rightarrow> None | e # es' \<Rightarrow> r_try_lock_loop (e counter) es' (e counter))"

definition w_try_lock :: "u32 env \<Rightarrow> u32 \<Rightarrow> (bool \<times> u32 env \<times> u32) option" where
  "w_try_lock es counter =
     (case es of [] \<Rightarrow> None | e # es' \<Rightarrow> w_try_lock_loop (e counter) es' (e counter))"

definition try_upgrade :: "u32 env \<Rightarrow> u32 \<Rightarrow> (bool \<times> u32 env \<times> u32) option" where
  "try_upgrade es counter =
     (case es of [] \<Rightarrow> None | e # es' \<Rightarrow> try_upgrade_loop (e counter) es' (e counter))"

lemma try_loops_eq:
  "r_try_lock_loop x es c = try_loop r_acq x es c"
  "w_try_lock_loop x es c = try_loop w_acq x es c"
  "try_upgrade_loop x es c = try_loop upg x es c"
  by (induction es arbitrary: x c) (simp_all add: try_loop.simps r_acq_def w_acq_def upg_def)

text \<open>
  The lock that every single-file executor carries is the lock of \<^verbatim>\<open>include/rwlock.hh\<close>: its
  \<^verbatim>\<open>try\<close> operations do the same to the counter under every interference.
\<close>

theorem standalone_rwlock:
  "r_try_lock es c = r_trylock es c \<and> w_try_lock es c = w_trylock es c \<and> try_upgrade es c = tryupgrade es c"
  by (cases es)
    (simp_all add: r_try_lock_def w_try_lock_def try_upgrade_def rwlock_defs try_loops_eq)

section \<open>Tuples and transactions\<close>

record sa_tuple =
  sa_lock :: u32
  sa_value :: u64

datatype sa_stat = SaInFlight | SaCommitted | SaAborted

record sa_tx =
  sa_status :: sa_stat
  task_set :: "task list"
  r_lock_list :: "key list"
  w_lock_list :: "key list"
  sa_read_set :: "(key \<times> u64) list"
  sa_write_set :: "(key \<times> u64) list"

definition sa_new :: sa_tx where
  "sa_new = \<lparr>sa_status = SaInFlight, task_set = [], r_lock_list = [], w_lock_list = [],
     sa_read_set = [], sa_write_set = []\<rparr>"

definition sa_begin :: "'a sa_tx_scheme \<Rightarrow> 'a sa_tx_scheme" where
  "sa_begin t = t\<lparr>sa_status := SaInFlight\<rparr>"

text \<open>The load and the store of \<^verbatim>\<open>read\<close> and \<^verbatim>\<open>write\<close>, and the elements they add.\<close>

definition sa_read :: "key \<Rightarrow> u64 \<Rightarrow> 'a sa_tx_scheme \<Rightarrow> 'a sa_tx_scheme" where
  "sa_read k v t = t\<lparr>sa_read_set := sa_read_set t @ [(k, v)]\<rparr>"

definition sa_write :: "key \<Rightarrow> 'a sa_tx_scheme \<Rightarrow> 'a sa_tx_scheme" where
  "sa_write k t = t\<lparr>sa_write_set := sa_write_set t @ [(k, 100)]\<rparr>"

text \<open>The end of \<^verbatim>\<open>commit\<close> and of \<^verbatim>\<open>abort\<close>, after the unlocking.\<close>

definition sa_clear :: "'a sa_tx_scheme \<Rightarrow> 'a sa_tx_scheme" where
  "sa_clear t = t\<lparr>r_lock_list := [], w_lock_list := [], sa_read_set := [], sa_write_set := []\<rparr>"

definition set_sa_lock :: "key \<Rightarrow> u32 \<Rightarrow> (key \<Rightarrow> 'a sa_tuple_scheme) \<Rightarrow> key \<Rightarrow> 'a sa_tuple_scheme" where
  "set_sa_lock k c tb = tb(k := (tb k)\<lparr>sa_lock := c\<rparr>)"

definition set_sa_value :: "key \<Rightarrow> u64 \<Rightarrow> (key \<Rightarrow> 'a sa_tuple_scheme) \<Rightarrow> key \<Rightarrow> 'a sa_tuple_scheme" where
  "set_sa_value k v tb = tb(k := (tb k)\<lparr>sa_value := v\<rparr>)"

text \<open>The eight bytes of a value, low byte first.\<close>

definition u64_bytes :: "u64 \<Rightarrow> val" where
  "u64_bytes x = map (\<lambda>i. ucast (drop_bit (8 * i) x)) [0 ..< 8]"

text \<open>What a list of tasks does to a record.\<close>

definition access_of :: "task list \<Rightarrow> key \<Rightarrow> bool option" where
  "access_of ts k =
     (if \<exists>t \<in> set ts. task_ope t = OpWrite \<and> task_key t = k then Some True
      else if \<exists>t \<in> set ts. task_ope t = OpRead \<and> task_key t = k then Some False
      else None)"

lemma access_of_snoc:
  "access_of (ts @ [t]) k =
     (if task_ope t = OpWrite \<and> task_key t = k then Some True
      else if access_of ts k = None \<and> task_ope t = OpRead \<and> task_key t = k then Some False
      else access_of ts k)"
  by (auto simp: access_of_def)

lemma access_of_Cons:
  "access_of (t # ts) k =
     (if task_ope t = OpWrite \<and> task_key t = k then Some True
      else if task_ope t = OpRead \<and> task_key t = k \<and> access_of ts k = None then Some False
      else access_of ts k)"
  by (auto simp: access_of_def)

lemma access_of_take_Suc:
  assumes "pos < length ts"
  shows "access_of (take (Suc pos) ts) =
    (case task_ope (ts ! pos) of
       OpRead \<Rightarrow> (if access_of (take pos ts) (task_key (ts ! pos)) = None
         then (access_of (take pos ts))(task_key (ts ! pos) := Some False) else access_of (take pos ts))
     | OpWrite \<Rightarrow> (access_of (take pos ts))(task_key (ts ! pos) := Some True)
     | OpSleep \<Rightarrow> access_of (take pos ts))"
  using assms by (auto simp: take_Suc_conv_app_nth access_of_snoc fun_eq_iff split: sa_ope.splits)

lemma access_of_task:
  "t \<in> set ts \<Longrightarrow> task_ope t \<noteq> OpSleep \<Longrightarrow> \<exists>b. access_of ts (task_key t) = Some b \<and> (task_ope t = OpWrite \<longrightarrow> b)"
  by (cases "task_ope t") (auto simp: access_of_def)

lemma access_of_Nil [simp]: "access_of [] = (\<lambda>_. None)"
  by (simp add: access_of_def fun_eq_iff)

section \<open>The keys of a generated task\<close>

lemma makeTask_loop_keys:
  assumes "makeTask_loop n zipf rnd sleep_pos tuple_num rw_rate i g = Some (ts, g')"
  shows "length ts = n \<and> (\<forall>t \<in> set ts. task_ope t \<noteq> OpSleep \<longrightarrow>
    (\<exists>z. z < tuple_num \<and> task_key t = z + 1))"
  using assms
proof (induction n arbitrary: i g ts)
  case 0
  then show ?case by simp
next
  case (Suc n)
  obtain z g1 where z: "zipf g = (z, g1)" by (cases "zipf g")
  obtain r g2 where r: "rnd g1 = (r, g2)" by (cases "rnd g1")
  define g3 where "g3 = (if i = sleep_pos then g1 else g2)"
  from Suc.prems z r have lt: "z < tuple_num" by (auto split: if_splits)
  from Suc.prems z r lt obtain ts' where
    rec: "makeTask_loop n zipf rnd sleep_pos tuple_num rw_rate (Suc i) g3 = Some (ts', g')"
    and ts: "ts = (if i = sleep_pos then Task OpSleep 0
      else if r mod 100 < rw_rate then Task OpRead (z + 1) else Task OpWrite (z + 1)) # ts'"
    by (auto simp: g3_def split: if_splits)
  from Suc.IH [OF rec] ts lt show ?case by (auto simp: Task_def)
qed

lemma makeTask_loop_zipf:
  assumes "makeTask_loop n zipf rnd sleep_pos tuple_num rw_rate i g = Some (ts, g')"
  shows "\<forall>t \<in> set ts. task_ope t \<noteq> OpSleep \<longrightarrow> (\<exists>g. task_key t = fst (zipf g) + 1)"
  using assms
proof (induction n arbitrary: i g ts)
  case (Suc n)
  obtain z g1 where z: "zipf g = (z, g1)" by (cases "zipf g")
  obtain r g2 where r: "rnd g1 = (r, g2)" by (cases "rnd g1")
  define g3 where "g3 = (if i = sleep_pos then g1 else g2)"
  from Suc.prems z r have lt: "z < tuple_num" by (auto split: if_splits)
  from Suc.prems z r lt obtain ts' where
    rec: "makeTask_loop n zipf rnd sleep_pos tuple_num rw_rate (Suc i) g3 = Some (ts', g')"
    and ts: "ts = (if i = sleep_pos then Task OpSleep 0
      else if r mod 100 < rw_rate then Task OpRead (z + 1) else Task OpWrite (z + 1)) # ts'"
    by (auto simp: g3_def split: if_splits)
  have "z = fst (zipf g)" using z by simp
  with Suc.IH [OF rec] ts show ?case by (auto simp: Task_def)
qed simp

lemma makeTask_loop_returns:
  assumes "\<And>g. fst (zipf g) < tuple_num"
  shows "\<exists>r. makeTask_loop n zipf rnd sleep_pos tuple_num rw_rate i g = Some r"
proof (induction n arbitrary: i g)
  case (Suc n)
  obtain z g1 where z: "zipf g = (z, g1)" by (cases "zipf g")
  obtain r g2 where r: "rnd g1 = (r, g2)" by (cases "rnd g1")
  have "z < tuple_num" using assms [of g] z by simp
  moreover obtain ts g' where "makeTask_loop n zipf rnd sleep_pos tuple_num rw_rate (Suc i)
      (if i = sleep_pos then g1 else g2) = Some (ts, g')"
    using Suc [of "Suc i" "if i = sleep_pos then g1 else g2"] by auto
  ultimately show ?case using z r by (auto split: if_splits)
qed simp

text \<open>
  \<^verbatim>\<open>makeTask\<close> with a generator of numbers below \<open>n\<close>, \<open>n \<le> tuple_num\<close>: its assertion holds, it
  returns \<open>max_ope\<close> tasks, and every key is between 1 and \<open>n\<close>. So the keys are indices of the
  table if \<open>n < tuple_num\<close> (the lock manager), and with \<open>n = tuple_num\<close> (the other executors)
  the largest key is one past the end of the table, and there is a generator that yields it.
\<close>

theorem standalone_makeTask:
  assumes "\<And>g. fst (zipf g) < n" and "n \<le> tuple_num"
  shows "\<exists>ts g'. makeTask max_ope zipf rnd sleep_pos tuple_num rw_rate g = Some (ts, g') \<and> length ts = max_ope \<and>
    (\<forall>t \<in> set ts. task_ope t \<noteq> OpSleep \<longrightarrow> 1 \<le> unat (task_key t) \<and> unat (task_key t) \<le> unat n) \<and>
    (\<exists>ts' :: task list. makeTask 1 (\<lambda>g. (n - 1, ())) (\<lambda>g. (0, ())) 1 tuple_num 80 () = Some (ts', ()) \<and>
       map task_key ts' = [n])"
proof -
  have lt: "fst (zipf g) < tuple_num" for g using assms(1) [of g] assms(2) by simp
  obtain ts g' where ts: "makeTask max_ope zipf rnd sleep_pos tuple_num rw_rate g = Some (ts, g')"
    using makeTask_loop_returns [of zipf tuple_num, OF lt] unfolding makeTask_def by (metis surj_pair)
  have keys: "\<exists>z. z < n \<and> task_key t = z + 1" if "t \<in> set ts" "task_ope t \<noteq> OpSleep" for t
    using makeTask_loop_zipf [OF ts [unfolded makeTask_def]] that assms(1) by blast
  have "1 \<le> unat (task_key t) \<and> unat (task_key t) \<le> unat n" if "t \<in> set ts" "task_ope t \<noteq> OpSleep" for t
  proof -
    from keys [OF that] obtain z where z: "z < n" "task_key t = z + 1" by blast
    then have "unat z < unat n" by (simp add: word_less_nat_alt)
    moreover from this have "unat (z + 1) = Suc (unat z)"
      using unat_u64_less [of n] by (simp add: unat_word_ariths(1))
    ultimately show ?thesis using z by simp
  qed
  moreover have "length ts = max_ope" using makeTask_loop_keys [OF ts [unfolded makeTask_def]] by simp
  moreover have "n - 1 < n"
  proof -
    have "n \<noteq> 0" using assms(1) [of g] by auto
    then have "0 < unat n" by (simp add: unat_gt_0)
    then show ?thesis by (simp add: word_less_nat_alt unat_sub_if')
  qed
  then have "makeTask 1 (\<lambda>g. (n - 1, ())) (\<lambda>g. (0, ())) 1 tuple_num 80 () = Some ([Task OpRead n], ())"
    using assms(2) by (simp add: makeTask_def)
  ultimately show ?thesis using ts by (auto simp: Task_def)
qed

theorem standalone_makeTask_witness:
  "\<exists>ts g'. makeTask 3 (\<lambda>g. (g mod 7, g + 1)) (\<lambda>g. (g, g + 3)) 1 10 80 (5 :: u64) = Some (ts, g') \<and> length ts = 3"
proof -
  have "fst (g mod 7, g + 1) < (7 :: u64)" for g :: u64 by (simp add: word_mod_less_divisor)
  from standalone_makeTask [where zipf = "\<lambda>g. (g mod 7, g + 1)" and n = 7 and tuple_num = 10 and
      max_ope = 3 and rnd = "\<lambda>g. (g, g + 3)" and sleep_pos = 1 and rw_rate = 80 and g = "5 :: u64", OF this]
  show ?thesis by fastforce
qed

end
