(* ===== verification/Ord_Spec.thy ===== *)
theory Ord_Spec
  imports Serial_Order
begin

text \<open>
  Ordered locking, the specification of the deterministic protocols: every transaction gets
  a number when it enters and declares what it will read and write; it may touch a record
  only after every earlier transaction that conflicts with it there has released the
  record; nothing is released before the commit. Whatever the order of the commits, the
  outcome is that of running the transactions in the order of their numbers.
\<close>

section \<open>The protocol\<close>

text \<open>The access to a record: \<open>Some True\<close> writes it, \<open>Some False\<close> only reads it.\<close>

type_synonym access = "key \<Rightarrow> bool option"

record ord =
  d_clock :: nat
  d_acc :: "nat \<Rightarrow> access"
  d_got :: "nat \<Rightarrow> key set"
  d_rel :: "nat \<Rightarrow> key set"
  d_val :: db
  d_reads :: "nat \<Rightarrow> (key \<times> val) list"
  d_writes :: "nat \<Rightarrow> (key \<times> (val \<Rightarrow> val)) list"
  d_com :: "nat history"

definition conflict :: "access \<Rightarrow> access \<Rightarrow> key \<Rightarrow> bool" where
  "conflict a b k \<longleftrightarrow> a k \<noteq> None \<and> b k \<noteq> None \<and> (a k = Some True \<or> b k = Some True)"

definition d_active :: "ord \<Rightarrow> nat \<Rightarrow> bool" where
  "d_active s p \<longleftrightarrow> p < d_clock s \<and> p \<notin> fst ` set (d_com s)"

definition d_clear :: "ord \<Rightarrow> access \<Rightarrow> nat \<Rightarrow> key \<Rightarrow> bool" where
  "d_clear s a p k \<longleftrightarrow> (\<forall>q < p. conflict (d_acc s q) a k \<longrightarrow> k \<in> d_rel s q)"

abbreviation wkeys_of :: "(key \<times> (val \<Rightarrow> val)) list \<Rightarrow> key set" where
  "wkeys_of ws \<equiv> fst ` set ws"

inductive ord_step :: "ord \<Rightarrow> ord \<Rightarrow> bool" where
  ord_stay: "ord_step s s"
| ord_enter: "n = d_clock s \<Longrightarrow> G \<subseteq> dom a \<Longrightarrow> \<forall>k \<in> G. d_clear s a n k \<Longrightarrow>
    ord_step s (s\<lparr>d_clock := Suc n, d_acc := (d_acc s)(n := a), d_got := (d_got s)(n := G)\<rparr>)"
| ord_grant: "d_active s p \<Longrightarrow> k \<in> dom (d_acc s p) \<Longrightarrow> d_clear s (d_acc s p) p k \<Longrightarrow>
    ord_step s (s\<lparr>d_got := (d_got s)(p := insert k (d_got s p))\<rparr>)"
| ord_read: "d_active s p \<Longrightarrow> k \<in> d_got s p \<Longrightarrow> k \<notin> wkeys_of (d_writes s p) \<Longrightarrow>
    ord_step s (s\<lparr>d_reads := (d_reads s)(p := d_reads s p @ [(k, d_val s k)])\<rparr>)"
| ord_write: "d_active s p \<Longrightarrow> k \<in> d_got s p \<Longrightarrow> d_acc s p k = Some True \<Longrightarrow>
    ord_step s (s\<lparr>d_val := (d_val s)(k := f (d_val s k)),
      d_writes := (d_writes s)(p := d_writes s p @ [(k, f)])\<rparr>)"
| ord_commit: "d_active s p \<Longrightarrow>
    ord_step s (s\<lparr>d_com := d_com s @ [(p, \<lparr>tx_reads = d_reads s p, tx_writes = d_writes s p\<rparr>)]\<rparr>)"
| ord_release: "p \<in> fst ` set (d_com s) \<Longrightarrow>
    ord_step s (s\<lparr>d_rel := (d_rel s)(p := insert k (d_rel s p))\<rparr>)"

section \<open>The invariant\<close>

definition ord_grants :: "ord \<Rightarrow> bool" where
  "ord_grants s \<longleftrightarrow> (\<forall>p k. k \<in> d_got s p \<longrightarrow> p < d_clock s \<longrightarrow> k \<in> dom (d_acc s p)) \<and>
     (\<forall>p k. k \<in> d_got s p \<longrightarrow> p < d_clock s \<longrightarrow> d_clear s (d_acc s p) p k) \<and>
     (\<forall>p k. k \<in> d_rel s p \<longrightarrow> p \<in> fst ` set (d_com s)) \<and>
     (\<forall>p \<in> fst ` set (d_com s). p < d_clock s) \<and> distinct (map fst (d_com s)) \<and>
     (\<forall>p. d_clock s \<le> p \<longrightarrow> d_reads s p = [] \<and> d_writes s p = [])"

definition ord_sets :: "ord \<Rightarrow> bool" where
  "ord_sets s \<longleftrightarrow>
     (\<forall>p k. k \<in> wkeys_of (d_writes s p) \<longrightarrow> k \<in> d_got s p \<and> d_acc s p k = Some True) \<and>
     (\<forall>p k v. (k, v) \<in> set (d_reads s p) \<longrightarrow> k \<in> d_got s p) \<and>
     (\<forall>p t. (p, t) \<in> set (d_com s) \<longrightarrow> tx_reads t = d_reads s p \<and> tx_writes t = d_writes s p)"

definition ord_values :: "db \<Rightarrow> ord \<Rightarrow> bool" where
  "ord_values d s \<longleftrightarrow>
     (\<forall>k. (\<forall>p. d_active s p \<longrightarrow> k \<notin> wkeys_of (d_writes s p)) \<longrightarrow> d_val s k = ser_all d (d_com s) k) \<and>
     (\<forall>p k. d_active s p \<longrightarrow> k \<in> wkeys_of (d_writes s p) \<longrightarrow>
        d_val s k = fold apply_write (d_writes s p) (ser_all d (d_com s)) k) \<and>
     (\<forall>p k v. (k, v) \<in> set (d_reads s p) \<longrightarrow> ser d (d_com s) p k = v)"

definition ord_inv :: "db \<Rightarrow> ord \<Rightarrow> bool" where
  "ord_inv d s \<longleftrightarrow> ord_grants s \<and> ord_sets s \<and> ord_values d s"

lemma ord_inv_serial: "ord_inv d s \<Longrightarrow> serial_ok d (map snd (in_order (d_com s)))"
proof (rule serial_ok_in_order)
  assume inv: "ord_inv d s"
  then show "distinct (map fst (d_com s))" by (simp add: ord_inv_def ord_grants_def)
  fix p t k v assume t: "(p, t) \<in> set (d_com s)" "(k, v) \<in> set (tx_reads t)"
  with inv have "(k, v) \<in> set (d_reads s p)" by (simp add: ord_inv_def ord_sets_def)
  with inv show "ser d (d_com s) p k = v" by (simp add: ord_inv_def ord_values_def)
qed

section \<open>Using the invariant\<close>

lemma oinv_grants: "ord_inv d s \<Longrightarrow> ord_grants s"
  by (simp add: ord_inv_def)

lemma oinv_got:
  assumes "ord_inv d s"
  shows "k \<in> d_got s p \<Longrightarrow> p < d_clock s \<Longrightarrow> k \<in> dom (d_acc s p) \<and> d_clear s (d_acc s p) p k"
  using oinv_grants [OF assms] unfolding ord_grants_def by meson

lemma oinv_rel:
  assumes "ord_inv d s"
  shows "k \<in> d_rel s p \<Longrightarrow> p \<in> fst ` set (d_com s)"
  using oinv_grants [OF assms] unfolding ord_grants_def by meson

lemma oinv_clock:
  assumes "ord_inv d s"
  shows "p \<in> fst ` set (d_com s) \<Longrightarrow> p < d_clock s"
  using oinv_grants [OF assms] unfolding ord_grants_def by (elim conjE) (erule bspec)

lemma oinv_distinct:
  assumes "ord_inv d s"
  shows "distinct (map fst (d_com s))"
  using oinv_grants [OF assms] unfolding ord_grants_def by (elim conjE)

lemma oinv_fresh:
  assumes "ord_inv d s"
  shows "d_clock s \<le> p \<Longrightarrow> d_reads s p = [] \<and> d_writes s p = []"
  using oinv_grants [OF assms] unfolding ord_grants_def by meson

lemma oinv_write:
  assumes "ord_inv d s"
  shows "k \<in> wkeys_of (d_writes s p) \<Longrightarrow> k \<in> d_got s p \<and> d_acc s p k = Some True \<and> p < d_clock s"
proof -
  assume k: "k \<in> wkeys_of (d_writes s p)"
  then have "p < d_clock s" using oinv_fresh [OF assms, of p] by (cases "d_clock s \<le> p") auto
  with assms k show ?thesis unfolding ord_inv_def ord_sets_def by blast
qed

lemma oinv_read:
  assumes "ord_inv d s"
  shows "(k, v) \<in> set (d_reads s p) \<Longrightarrow> k \<in> d_got s p \<and> ser d (d_com s) p k = v \<and> p < d_clock s"
proof -
  assume k: "(k, v) \<in> set (d_reads s p)"
  then have "p < d_clock s" using oinv_fresh [OF assms, of p] by (cases "d_clock s \<le> p") auto
  moreover have "k \<in> d_got s p" using assms k unfolding ord_inv_def ord_sets_def by (elim conjE) meson
  moreover have "ser d (d_com s) p k = v"
    using assms k unfolding ord_inv_def ord_values_def by (elim conjE) meson
  ultimately show ?thesis by simp
qed

lemma oinv_com:
  assumes "ord_inv d s"
  shows "(p, t) \<in> set (d_com s) \<Longrightarrow> tx_reads t = d_reads s p \<and> tx_writes t = d_writes s p"
  using assms unfolding ord_inv_def ord_sets_def by blast

lemma oinv_val:
  assumes "ord_inv d s"
  shows "\<forall>p. d_active s p \<longrightarrow> k \<notin> wkeys_of (d_writes s p) \<Longrightarrow> d_val s k = ser_all d (d_com s) k"
    and "d_active s p \<Longrightarrow> k \<in> wkeys_of (d_writes s p) \<Longrightarrow>
      d_val s k = fold apply_write (d_writes s p) (ser_all d (d_com s)) k"
  using assms unfolding ord_inv_def ord_values_def by blast+

text \<open>
  Two transactions that were both granted a record on which they conflict: the earlier one
  has committed.
\<close>

lemma oinv_excl:
  assumes inv: "ord_inv d s" and "k \<in> d_got s p" "k \<in> d_got s q" "q < p" "p < d_clock s"
    and "conflict (d_acc s q) (d_acc s p) k"
  shows "\<not> d_active s q"
proof -
  have "k \<in> d_rel s q" using oinv_got [OF inv assms(2,5)] assms(4,6) by (simp add: d_clear_def)
  then show ?thesis using oinv_rel [OF inv] by (simp add: d_active_def)
qed

text \<open>A committed writer of a record is earlier than an active transaction granted the record.\<close>

lemma oinv_writer_before:
  assumes inv: "ord_inv d s" and p: "d_active s p" "k \<in> d_got s p"
    and x: "x \<in> set (d_com s)" "writes_key k x"
  shows "fst x < p"
proof (rule ccontr)
  obtain q t where qt: "x = (q, t)" by (cases x)
  assume "\<not> fst x < p"
  moreover have "q \<noteq> p" using p(1) x(1) qt by (force simp: d_active_def)
  ultimately have pq: "p < q" using qt by simp
  have "k \<in> wkeys_of (d_writes s q)" using x qt oinv_com [OF inv, of q t] by (simp add: writes_key_def)
  then have q: "k \<in> d_got s q" "d_acc s q k = Some True" "q < d_clock s" using oinv_write [OF inv] by blast+
  have "k \<in> dom (d_acc s p)" using oinv_got [OF inv p(2)] p(1) by (simp add: d_active_def)
  with q(2) have "conflict (d_acc s p) (d_acc s q) k" by (auto simp: conflict_def)
  from oinv_excl [OF inv q(1) p(2) pq q(3) this] p(1) show False by simp
qed

text \<open>Among the active transactions granted a record, a writer is alone.\<close>

lemma oinv_alone:
  assumes inv: "ord_inv d s" and p: "d_active s p" "k \<in> d_got s p" and q: "d_active s q" "k \<in> d_got s q"
    and w: "d_acc s p k = Some True \<or> d_acc s q k = Some True"
  shows "p = q"
proof (rule ccontr)
  assume "p \<noteq> q"
  have "p < d_clock s" "q < d_clock s" using p q by (simp_all add: d_active_def)
  moreover from this have "k \<in> dom (d_acc s p)" "k \<in> dom (d_acc s q)"
    using oinv_got [OF inv] p(2) q(2) by blast+
  with w have "conflict (d_acc s p) (d_acc s q) k" "conflict (d_acc s q) (d_acc s p) k"
    by (auto simp: conflict_def)
  ultimately show False
    using \<open>p \<noteq> q\<close> oinv_excl [OF inv p(2) q(2)] oinv_excl [OF inv q(2) p(2)] p(1) q(1)
    by (cases p q rule: linorder_cases) auto
qed

text \<open>What an active transaction finds in a record it has not written.\<close>

lemma oinv_reads_from:
  assumes inv: "ord_inv d s" and p: "d_active s p" "k \<in> d_got s p" "k \<notin> wkeys_of (d_writes s p)"
  shows "d_val s k = ser d (d_com s) p k"
proof -
  have "\<forall>q. d_active s q \<longrightarrow> k \<notin> wkeys_of (d_writes s q)"
    using oinv_alone [OF inv p(1,2)] oinv_write [OF inv] p(3) by blast
  then have "d_val s k = ser_all d (d_com s) k" by (rule oinv_val(1) [OF inv])
  also have "\<dots> = ser d (d_com s) p k"
    by (rule ser_all_stable) (use oinv_writer_before [OF inv p(1,2)] in force)
  finally show ?thesis .
qed

section \<open>Every step keeps the invariant\<close>

lemma ord_enter_inv:
  assumes inv: "ord_inv d s" and n: "n = d_clock s" and G: "G \<subseteq> dom a" "\<forall>k \<in> G. d_clear s a n k"
  shows "ord_inv d (s\<lparr>d_clock := Suc n, d_acc := (d_acc s)(n := a), d_got := (d_got s)(n := G)\<rparr>)"
    (is "ord_inv d ?t")
proof -
  have act: "d_active ?t p \<longleftrightarrow> d_active s p \<or> p = n" for p
    using oinv_clock [OF inv, of n] n by (auto simp: d_active_def)
  have fresh: "d_reads s n = []" "d_writes s n = []" using oinv_fresh [OF inv, of n] n by simp_all
  have "ord_grants ?t"
    unfolding ord_grants_def
  proof (intro conjI allI impI)
    show "k \<in> dom (d_acc ?t p)" if "k \<in> d_got ?t p" "p < d_clock ?t" for p k
      using that G n oinv_got [OF inv, of k p] by (cases "p = n") auto
    show "d_clear ?t (d_acc ?t p) p k" if "k \<in> d_got ?t p" "p < d_clock ?t" for p k
      using that G n oinv_got [OF inv, of k p] by (cases "p = n") (auto simp: d_clear_def)
    show "k \<in> d_rel ?t p \<Longrightarrow> p \<in> fst ` set (d_com ?t)" for k p using oinv_rel [OF inv, of k p] by simp
    show "\<forall>p \<in> fst ` set (d_com ?t). p < d_clock ?t" using oinv_clock [OF inv] n by fastforce
    show "distinct (map fst (d_com ?t))" using oinv_distinct [OF inv] by simp
    show "d_reads ?t p = []" "d_writes ?t p = []" if "d_clock ?t \<le> p" for p
      using oinv_fresh [OF inv, of p] that n by simp_all
  qed
  moreover have "ord_sets ?t"
    unfolding ord_sets_def
  proof (intro conjI allI impI)
    show "k \<in> d_got ?t p" "d_acc ?t p k = Some True" if "k \<in> wkeys_of (d_writes ?t p)" for p k
      using that oinv_write [OF inv, of k p] n by (cases "p = n"; simp)+
    show "k \<in> d_got ?t p" if "(k, v) \<in> set (d_reads ?t p)" for p k v
      using that oinv_read [OF inv, of k v p] n by (cases "p = n") simp_all
    show "tx_reads t = d_reads ?t p" "tx_writes t = d_writes ?t p" if "(p, t) \<in> set (d_com ?t)" for p t
      using that oinv_com [OF inv, of p t] by simp_all
  qed
  moreover have "ord_values d ?t"
    using inv fresh unfolding ord_inv_def ord_values_def act by auto
  ultimately show ?thesis by (simp add: ord_inv_def)
qed

text \<open>Granting, reading and releasing leave the table and the history alone.\<close>

lemma ord_grant_inv:
  assumes inv: "ord_inv d s" and p: "d_active s p" and k: "k \<in> dom (d_acc s p)" "d_clear s (d_acc s p) p k"
  shows "ord_inv d (s\<lparr>d_got := (d_got s)(p := insert k (d_got s p))\<rparr>)" (is "ord_inv d ?t")
proof -
  have "ord_grants ?t"
    using oinv_grants [OF inv] k p by (auto simp: ord_grants_def d_clear_def)
  moreover have "ord_sets ?t" using inv unfolding ord_inv_def ord_sets_def by auto
  moreover have "ord_values d ?t"
    using inv by (simp add: ord_inv_def ord_values_def d_active_def)
  ultimately show ?thesis by (simp add: ord_inv_def)
qed

lemma ord_read_inv:
  assumes inv: "ord_inv d s" and p: "d_active s p" "k \<in> d_got s p" "k \<notin> wkeys_of (d_writes s p)"
  shows "ord_inv d (s\<lparr>d_reads := (d_reads s)(p := d_reads s p @ [(k, d_val s k)])\<rparr>)" (is "ord_inv d ?t")
proof -
  have "ord_grants ?t"
    using oinv_grants [OF inv] p by (auto simp: ord_grants_def d_clear_def d_active_def)
  moreover have "ord_sets ?t"
    unfolding ord_sets_def
  proof (intro conjI allI impI)
    show "j \<in> d_got ?t q" "d_acc ?t q j = Some True" if "j \<in> wkeys_of (d_writes ?t q)" for q j
      using that oinv_write [OF inv, of j q] by simp_all
    show "j \<in> d_got ?t q" if "(j, v) \<in> set (d_reads ?t q)" for q j v
      using that oinv_read [OF inv, of j v q] p by (cases "q = p") auto
    show "tx_reads t = d_reads ?t q" "tx_writes t = d_writes ?t q" if "(q, t) \<in> set (d_com ?t)" for q t
      using that oinv_com [OF inv, of q t] p(1) by (force simp: d_active_def)+
  qed
  moreover have "ord_values d ?t"
    using inv oinv_reads_from [OF inv p] by (auto simp: ord_inv_def ord_values_def d_active_def)
  ultimately show ?thesis by (simp add: ord_inv_def)
qed

lemma ord_release_inv:
  assumes inv: "ord_inv d s" and p: "p \<in> fst ` set (d_com s)"
  shows "ord_inv d (s\<lparr>d_rel := (d_rel s)(p := insert k (d_rel s p))\<rparr>)" (is "ord_inv d ?t")
proof -
  have "ord_grants ?t"
    using oinv_grants [OF inv] p by (auto simp: ord_grants_def d_clear_def)
  moreover have "ord_sets ?t" using inv unfolding ord_inv_def ord_sets_def by auto
  moreover have "ord_values d ?t"
    using inv by (simp add: ord_inv_def ord_values_def d_active_def)
  ultimately show ?thesis by (simp add: ord_inv_def)
qed

lemma ord_write_inv:
  assumes inv: "ord_inv d s" and p: "d_active s p" "k \<in> d_got s p" "d_acc s p k = Some True"
  shows "ord_inv d (s\<lparr>d_val := (d_val s)(k := f (d_val s k)),
      d_writes := (d_writes s)(p := d_writes s p @ [(k, f)])\<rparr>)" (is "ord_inv d ?t")
proof -
  have alone: "q = p" if "d_active s q" "k \<in> wkeys_of (d_writes s q)" for q
    using oinv_alone [OF inv that(1) _ p(1,2)] oinv_write [OF inv that(2)] by blast
  have act: "d_active ?t = d_active s" by (rule ext) (simp add: d_active_def)
  have "ord_grants ?t"
    using oinv_grants [OF inv] p by (auto simp: ord_grants_def d_clear_def d_active_def)
  moreover have "ord_sets ?t"
    unfolding ord_sets_def
  proof (intro conjI allI impI)
    show "j \<in> d_got ?t q" "d_acc ?t q j = Some True" if "j \<in> wkeys_of (d_writes ?t q)" for q j
      using that oinv_write [OF inv, of j q] p by (cases "q = p"; auto)+
    show "j \<in> d_got ?t q" if "(j, v) \<in> set (d_reads ?t q)" for q j v
      using that oinv_read [OF inv, of j v q] by simp
    show "tx_reads t = d_reads ?t q" "tx_writes t = d_writes ?t q" if "(q, t) \<in> set (d_com ?t)" for q t
      using that oinv_com [OF inv, of q t] p(1) by (force simp: d_active_def)+
  qed
  moreover have "ord_values d ?t"
    unfolding ord_values_def act
  proof (intro conjI allI impI)
    fix j assume a: "\<forall>q. d_active s q \<longrightarrow> j \<notin> wkeys_of (d_writes ?t q)"
    then have "j \<noteq> k" using p(1) by auto
    moreover have "\<forall>q. d_active s q \<longrightarrow> j \<notin> wkeys_of (d_writes s q)"
      using a by (metis (mono_tags, lifting) fun_upd_apply image_Un ord.select_convs(7) ord.surjective
          ord.update_convs(5,7) set_append Un_iff)
    ultimately show "d_val ?t j = ser_all d (d_com ?t) j" using oinv_val(1) [OF inv, of j] by simp
  next
    fix q j assume q: "d_active s q" and j: "j \<in> wkeys_of (d_writes ?t q)"
    show "d_val ?t j = fold apply_write (d_writes ?t q) (ser_all d (d_com ?t)) j"
    proof (cases "q = p")
      case True
      have "d_val s j = fold apply_write (d_writes s p) (ser_all d (d_com s)) j"
      proof (cases "j \<in> wkeys_of (d_writes s p)")
        case True
        then show ?thesis using oinv_val(2) [OF inv p(1)] by simp
      next
        case False
        with True j have "j = k" \<open>q = p\<close> by auto
        with False alone have "\<forall>q. d_active s q \<longrightarrow> j \<notin> wkeys_of (d_writes s q)" by blast
        with oinv_val(1) [OF inv] False show ?thesis by (simp add: fold_apply_write_other)
      qed
      then show ?thesis using True by (cases "j = k") (simp_all add: apply_write_def)
    next
      case False
      with j have j: "j \<in> wkeys_of (d_writes s q)" by simp
      with False alone [OF q] have "j \<noteq> k" by blast
      with False j oinv_val(2) [OF inv q] show ?thesis by simp
    qed
  next
    show "ser d (d_com ?t) q j = v" if "(j, v) \<in> set (d_reads ?t q)" for q j v
      using that oinv_read [OF inv, of j v q] by simp
  qed
  ultimately show ?thesis by (simp add: ord_inv_def)
qed

lemma ord_commit_inv:
  assumes inv: "ord_inv d s" and p: "d_active s p"
  shows "ord_inv d (s\<lparr>d_com := d_com s @ [(p, \<lparr>tx_reads = d_reads s p, tx_writes = d_writes s p\<rparr>)]\<rparr>)"
    (is "ord_inv d ?t")
proof -
  define x where "x = \<lparr>tx_reads = d_reads s p, tx_writes = d_writes s p\<rparr>"
  have com: "d_com ?t = d_com s @ [(p, x)]" by (simp add: x_def)
  have pn: "p < d_clock s" "p \<notin> fst ` set (d_com s)" using p by (simp_all add: d_active_def)
  have act: "d_active ?t q \<longleftrightarrow> d_active s q \<and> q \<noteq> p" for q by (auto simp: d_active_def)
  let ?W = "wkeys_of (d_writes s p)"
  have W: "k \<in> d_got s p \<and> d_acc s p k = Some True" if "k \<in> ?W" for k
    using oinv_write [OF inv that] by simp
  have other: "ser d (d_com ?t) q k = ser d (d_com s) q k"
    and other_all: "ser_all d (d_com ?t) k = ser_all d (d_com s) k" if "k \<notin> ?W" for q k
    unfolding com using that by (simp_all add: ser_add_other ser_all_add_other x_def)
  have keep: "ser d (d_com ?t) q k = ser d (d_com s) q k" if k: "k \<in> d_got s q" and q: "q < d_clock s" for q k
  proof (cases "k \<in> ?W \<and> p < q")
    case True
    have "k \<in> dom (d_acc s q)" using oinv_got [OF inv k q] by simp
    with W True have "conflict (d_acc s p) (d_acc s q) k" by (auto simp: conflict_def)
    with oinv_excl [OF inv k _ _ q] W True p show ?thesis by blast
  next
    case False
    then show ?thesis using other unfolding com by (cases "k \<in> ?W") (auto simp: ser_add_later)
  qed
  have "ord_grants ?t"
    unfolding ord_grants_def
  proof (intro conjI allI impI)
    show "k \<in> dom (d_acc ?t q)" "d_clear ?t (d_acc ?t q) q k" if "k \<in> d_got ?t q" "q < d_clock ?t" for q k
      using oinv_got [OF inv, of k q] that by (simp_all add: d_clear_def)
    show "k \<in> d_rel ?t q \<Longrightarrow> q \<in> fst ` set (d_com ?t)" for q k using oinv_rel [OF inv, of k q] by simp
    show "\<forall>q \<in> fst ` set (d_com ?t). q < d_clock ?t" using oinv_clock [OF inv] pn by auto
    show "distinct (map fst (d_com ?t))" using oinv_distinct [OF inv] pn by simp
    show "d_reads ?t q = []" "d_writes ?t q = []" if "d_clock ?t \<le> q" for q
      using oinv_fresh [OF inv, of q] that by simp_all
  qed
  moreover have "ord_sets ?t"
    unfolding ord_sets_def
  proof (intro conjI allI impI)
    show "k \<in> d_got ?t q" "d_acc ?t q k = Some True" if "k \<in> wkeys_of (d_writes ?t q)" for q k
      using that oinv_write [OF inv, of k q] by simp_all
    show "k \<in> d_got ?t q" if "(k, v) \<in> set (d_reads ?t q)" for q k v
      using that oinv_read [OF inv, of k v q] by simp
    show "tx_reads t = d_reads ?t q" "tx_writes t = d_writes ?t q" if "(q, t) \<in> set (d_com ?t)" for q t
      using that oinv_com [OF inv, of q t] unfolding com by (auto simp: x_def)
  qed
  moreover have "ord_values d ?t"
    unfolding ord_values_def act
  proof (intro conjI allI impI)
    fix k assume a: "\<forall>q. d_active s q \<and> q \<noteq> p \<longrightarrow> k \<notin> wkeys_of (d_writes ?t q)"
    show "d_val ?t k = ser_all d (d_com ?t) k"
    proof (cases "k \<in> ?W")
      case True
      have "ser_all d (d_com ?t) k = apply_tx x (ser_all d (d_com s)) k"
        unfolding com
        by (rule ser_all_add_write) (use oinv_writer_before [OF inv p] W True in blast)
      then show ?thesis using oinv_val(2) [OF inv p True] by (simp add: apply_tx_def x_def)
    next
      case False
      with a have "\<forall>q. d_active s q \<longrightarrow> k \<notin> wkeys_of (d_writes s q)" by auto
      with oinv_val(1) [OF inv] False other_all show ?thesis by simp
    qed
  next
    fix q k assume q: "d_active s q \<and> q \<noteq> p" and k: "k \<in> wkeys_of (d_writes ?t q)"
    then have k: "k \<in> wkeys_of (d_writes s q)" by simp
    have "k \<notin> ?W" using oinv_alone [OF inv, of q k p] q p oinv_write [OF inv k] W by blast
    then have "ser_all d (d_com ?t) k = ser_all d (d_com s) k" by (rule other_all)
    then have "fold apply_write (d_writes s q) (ser_all d (d_com ?t)) k =
        fold apply_write (d_writes s q) (ser_all d (d_com s)) k" by (rule fold_apply_write_at)
    with oinv_val(2) [OF inv _ k] q
    show "d_val ?t k = fold apply_write (d_writes ?t q) (ser_all d (d_com ?t)) k" by simp
  next
    show "ser d (d_com ?t) q k = v" if "(k, v) \<in> set (d_reads ?t q)" for q k v
      using that oinv_read [OF inv, of k v q] keep [of k q] by simp
  qed
  ultimately show ?thesis by (simp add: ord_inv_def)
qed

lemma ord_step_inv: "ord_step s t \<Longrightarrow> ord_inv d s \<Longrightarrow> ord_inv d t"
proof (induction rule: ord_step.induct)
  case (ord_stay s)
  then show ?case by simp
next
  case (ord_enter n s G a)
  then show ?case by (intro ord_enter_inv)
next
  case (ord_grant s p k)
  then show ?case by (intro ord_grant_inv)
next
  case (ord_read s p k)
  then show ?case by (intro ord_read_inv)
next
  case (ord_write s p k f)
  then show ?case by (intro ord_write_inv)
next
  case (ord_commit s p)
  then show ?case by (intro ord_commit_inv)
next
  case (ord_release p s k)
  then show ?case by (intro ord_release_inv)
qed

definition ord_init :: "db \<Rightarrow> ord \<Rightarrow> bool" where
  "ord_init d s \<longleftrightarrow> d_com s = [] \<and> d_val s = d \<and> (\<forall>p. d_got s p = {}) \<and> (\<forall>p. d_rel s p = {}) \<and>
     (\<forall>p. d_reads s p = []) \<and> (\<forall>p. d_writes s p = [])"

lemma ord_init_inv: "ord_init d s \<Longrightarrow> ord_inv d s"
  by (simp add: ord_init_def ord_inv_def ord_grants_def ord_sets_def ord_values_def d_clear_def
      ser_all_def in_order_def)

interpretation ord_sys: invariant_system "ord_init d" ord_step "ord_inv d" for d
  by unfold_locales (auto intro: ord_init_inv ord_step_inv)

end
