(* ===== verification/Lockmgr_System.thy ===== *)
theory Lockmgr_System
  imports Standalone_Model Ord_Spec
begin

text \<open>
  The lock manager of \<^verbatim>\<open>lock-manager/ss2pl.cc\<close>: under a giant lock a worker takes the next
  transaction number and puts it into the wait list of every record the transaction
  accesses; it then polls its records until its number heads the wait list and the lock is
  free; it runs with all locks held, and releases them. Any number of workers, interleaved
  at every access to the giant lock, the counter, a wait list, a lock or a value. The
  operations of a lock are the atomic changes that \<^verbatim>\<open>Rw_Lock\<close> justifies for the same loops.
  Ghost state: what every transaction number may access, was granted, has released, has read
  (from other transactions) and has written, and the committed transactions.
\<close>

section \<open>State\<close>

record lm_tuple = sa_tuple +
  lock_for_lock :: u32
  wait_list :: "nat list"

record lm_tx = sa_tx +
  future_lock :: "task list"

datatype lm_pc =
    LGiant
  | LGiantTry
  | LFetch
  | LTake nat
  | LReg nat nat
  | LAdd nat nat sa_ope key
  | LPush nat nat sa_ope key
  | LAddUnl nat nat sa_ope key
  | LGiantUnl nat
  | LScan nat nat
  | LTry nat nat
  | LGrab nat nat
  | LErase nat nat
  | LLfl nat nat key
  | LRun nat "task list"
  | LUnlR nat "key list"
  | LUnlW nat "key list"
  | LStop

record lm_config =
  lm_pre :: "nat \<Rightarrow> task list"
  lm_pre_num :: nat
  lm_workers :: nat

record lm_sys =
  lm_table :: "key \<Rightarrow> lm_tuple"
  giant_lock :: u32
  tx_counter :: nat
  lm_quit :: bool
  lm_txs :: "nat \<Rightarrow> lm_tx"
  lm_pcs :: "nat \<Rightarrow> lm_pc"
  commit_cnt :: "nat \<Rightarrow> nat"
  g_acc :: "nat \<Rightarrow> access"
  g_got :: "nat \<Rightarrow> key set"
  g_rel :: "nat \<Rightarrow> key set"
  g_read :: "nat \<Rightarrow> (key \<times> val) list"
  g_write :: "nat \<Rightarrow> (key \<times> (val \<Rightarrow> val)) list"
  g_com :: "nat history"

definition lm_new :: lm_tx where
  "lm_new = sa_tx.extend sa_new \<lparr>future_lock = []\<rparr>"

section \<open>Registration\<close>

text \<open>
  \<^verbatim>\<open>dup_check\<close>: 0 if the first earlier task on the key is a read, 1 if it is a write, -1 if
  there is none. The parameter is an \<^verbatim>\<open>int\<close>, the comparison is between 64-bit words.
\<close>

definition int_arg :: "u64 \<Rightarrow> u64" where
  "int_arg k = scast (ucast k :: u32)"

fun dup_scan :: "task list \<Rightarrow> u64 \<Rightarrow> int" where
  "dup_scan [] k = - 1"
| "dup_scan (t # ts) k =
     (if task_key t = k then
        (case task_ope t of OpRead \<Rightarrow> 0 | OpWrite \<Rightarrow> 1 | OpSleep \<Rightarrow> dup_scan ts k)
      else dup_scan ts k)"

definition dup_check :: "u64 \<Rightarrow> nat \<Rightarrow> lm_tx \<Rightarrow> int" where
  "dup_check k upper t = dup_scan (take upper (task_set t)) (int_arg k)"

text \<open>What \<^verbatim>\<open>lockmanager_regist\<close> does with one task.\<close>

datatype reg_act = RegSkip | RegAdd sa_ope | RegUpgrade

definition reg_item :: "nat \<Rightarrow> task \<Rightarrow> lm_tx \<Rightarrow> reg_act" where
  "reg_item ope_pos item t =
     (case task_ope item of
        OpRead \<Rightarrow> (if dup_check (task_key item) ope_pos t > - 1 then RegSkip else RegAdd OpRead)
      | OpWrite \<Rightarrow>
          (let ret = dup_check (task_key item) ope_pos t in
           if ret = 1 then RegSkip else if ret = 0 then RegUpgrade else RegAdd OpWrite)
      | OpSleep \<Rightarrow> RegSkip)"

fun upgrade_future :: "key \<Rightarrow> task list \<Rightarrow> task list" where
  "upgrade_future k [] = []"
| "upgrade_future k (f # fs) =
     (if k = task_key f then f\<lparr>task_ope := OpWrite\<rparr> # fs else f # upgrade_future k fs)"

definition lm_upd :: "nat \<Rightarrow> lm_tx \<Rightarrow> lm_pc \<Rightarrow> lm_sys \<Rightarrow> lm_sys" where
  "lm_upd w t pc s = s\<lparr>lm_txs := (lm_txs s)(w := t), lm_pcs := (lm_pcs s)(w := pc)\<rparr>"

definition lm_goto :: "nat \<Rightarrow> lm_pc \<Rightarrow> lm_sys \<Rightarrow> lm_sys" where
  "lm_goto w pc s = s\<lparr>lm_pcs := (lm_pcs s)(w := pc)\<rparr>"

definition set_lfl :: "key \<Rightarrow> u32 \<Rightarrow> (key \<Rightarrow> lm_tuple) \<Rightarrow> key \<Rightarrow> lm_tuple" where
  "set_lfl k c tb = tb(k := (tb k)\<lparr>lock_for_lock := c\<rparr>)"

definition set_wait :: "key \<Rightarrow> nat list \<Rightarrow> (key \<Rightarrow> lm_tuple) \<Rightarrow> key \<Rightarrow> lm_tuple" where
  "set_wait k xs tb = tb(k := (tb k)\<lparr>wait_list := xs\<rparr>)"

definition lm_regist :: "nat \<Rightarrow> nat \<Rightarrow> nat \<Rightarrow> lm_sys \<Rightarrow> lm_sys" where
  "lm_regist w tx_id pos s =
     (let t = lm_txs s w in
      if pos < length (task_set t) then
        (let item = task_set t ! pos in
         case reg_item pos item t of
           RegSkip \<Rightarrow> lm_goto w (LReg tx_id (Suc pos)) s
         | RegUpgrade \<Rightarrow>
             lm_upd w (t\<lparr>future_lock := upgrade_future (task_key item) (future_lock t)\<rparr>)
               (LReg tx_id (Suc pos)) s
         | RegAdd ope \<Rightarrow> lm_goto w (LAdd tx_id pos ope (task_key item)) s)
      else lm_goto w (LGiantUnl tx_id) s)"

text \<open>\<^verbatim>\<open>wait_add\<close>, then the element of \<^verbatim>\<open>future_lock_\<close>.\<close>

definition lm_add_lock :: "nat \<Rightarrow> nat \<Rightarrow> nat \<Rightarrow> sa_ope \<Rightarrow> key \<Rightarrow> lm_sys \<Rightarrow> lm_sys" where
  "lm_add_lock w tx_id pos ope k s =
     (case w_acq (lock_for_lock (lm_table s k)) of
        None \<Rightarrow> s
      | Some c \<Rightarrow> (lm_goto w (LPush tx_id pos ope k) s)\<lparr>lm_table := set_lfl k c (lm_table s)\<rparr>)"

definition lm_add_push :: "nat \<Rightarrow> nat \<Rightarrow> nat \<Rightarrow> sa_ope \<Rightarrow> key \<Rightarrow> lm_sys \<Rightarrow> lm_sys" where
  "lm_add_push w tx_id pos ope k s =
     (lm_goto w (LAddUnl tx_id pos ope k) s)
       \<lparr>lm_table := set_wait k (wait_list (lm_table s k) @ [tx_id]) (lm_table s)\<rparr>"

definition lm_add_unlock :: "nat \<Rightarrow> nat \<Rightarrow> nat \<Rightarrow> sa_ope \<Rightarrow> key \<Rightarrow> lm_sys \<Rightarrow> lm_sys" where
  "lm_add_unlock w tx_id pos ope k s =
     (let t = lm_txs s w in
      (lm_upd w (t\<lparr>future_lock := future_lock t @ [Task ope k]\<rparr>) (LReg tx_id (Suc pos)) s)
        \<lparr>lm_table := set_lfl k (w_rel (lock_for_lock (lm_table s k))) (lm_table s)\<rparr>)"

section \<open>Acquisition\<close>

text \<open>
  The pass of \<^verbatim>\<open>check_waitlist\<close> over \<^verbatim>\<open>future_lock_\<close>, at index \<open>i\<close>. (An empty wait list has no
  first element; the invariant shows that it is never empty here.)
\<close>

definition lm_scan :: "nat \<Rightarrow> nat \<Rightarrow> nat \<Rightarrow> lm_sys \<Rightarrow> lm_sys" where
  "lm_scan w tx_id i s =
     (let t = lm_txs s w; fs = future_lock t in
      if fs = [] then lm_goto w (LRun tx_id (task_set t)) s
      else if i < length fs then
        (case wait_list (lm_table s (task_key (fs ! i))) of
           h # _ \<Rightarrow> (if tx_id = h then lm_goto w (LTry tx_id i) s else lm_goto w (LScan tx_id (Suc i)) s)
         | [] \<Rightarrow> lm_goto w (LScan tx_id (Suc i)) s)
      else lm_goto w (LScan tx_id 0) s)"

definition lm_try :: "nat \<Rightarrow> nat \<Rightarrow> nat \<Rightarrow> lm_sys \<Rightarrow> lm_sys" where
  "lm_try w tx_id i s =
     (let k = task_key (future_lock (lm_txs s w) ! i) in
      case w_acq (lock_for_lock (lm_table s k)) of
        None \<Rightarrow> lm_goto w (LScan tx_id (Suc i)) s
      | Some c \<Rightarrow> (lm_goto w (LGrab tx_id i) s)\<lparr>lm_table := set_lfl k c (lm_table s)\<rparr>)"

definition lm_grab :: "nat \<Rightarrow> nat \<Rightarrow> nat \<Rightarrow> lm_sys \<Rightarrow> lm_sys" where
  "lm_grab w tx_id i s =
     (let item = future_lock (lm_txs s w) ! i; k = task_key item; c = sa_lock (lm_table s k) in
      case task_ope item of
        OpSleep \<Rightarrow> lm_goto w (LLfl tx_id i k) s
      | ope \<Rightarrow>
          (case (if ope = OpRead then r_acq c else w_acq c) of
             None \<Rightarrow> lm_goto w (LLfl tx_id (Suc i) k) s
           | Some c' \<Rightarrow>
               (lm_goto w (LErase tx_id i) s)
                 \<lparr>lm_table := set_sa_lock k c' (lm_table s),
                  g_got := (g_got s)(tx_id := insert k (g_got s tx_id))\<rparr>))"

definition erase_at :: "nat \<Rightarrow> 'a list \<Rightarrow> 'a list" where
  "erase_at i xs = take i xs @ drop (Suc i) xs"

definition lm_erase :: "nat \<Rightarrow> nat \<Rightarrow> nat \<Rightarrow> lm_sys \<Rightarrow> lm_sys" where
  "lm_erase w tx_id i s =
     (let t = lm_txs s w; item = future_lock t ! i; k = task_key item;
          t1 = t\<lparr>future_lock := erase_at i (future_lock t)\<rparr>;
          t2 = (if task_ope item = OpRead then t1\<lparr>r_lock_list := r_lock_list t @ [k]\<rparr>
                else t1\<lparr>w_lock_list := w_lock_list t @ [k]\<rparr>)
      in (lm_upd w t2 (LLfl tx_id i k) s)
           \<lparr>lm_table := set_wait k (tl (wait_list (lm_table s k))) (lm_table s)\<rparr>)"

section \<open>Execution and release\<close>

definition lm_exec :: "nat \<Rightarrow> nat \<Rightarrow> task \<Rightarrow> task list \<Rightarrow> lm_sys \<Rightarrow> lm_sys" where
  "lm_exec w tx_id task rest s =
     (let t = lm_txs s w; k = task_key task; v = sa_value (lm_table s k) in
      case task_ope task of
        OpRead \<Rightarrow>
          (lm_upd w (sa_read k v t) (LRun tx_id rest) s)
            \<lparr>g_read := (if k \<in> fst ` set (g_write s tx_id) then g_read s
               else (g_read s)(tx_id := g_read s tx_id @ [(k, u64_bytes v)]))\<rparr>
      | OpWrite \<Rightarrow>
          (lm_upd w (sa_write k t) (LRun tx_id rest) s)
            \<lparr>lm_table := set_sa_value k 100 (lm_table s),
             g_write := (g_write s)(tx_id := g_write s tx_id @ [(k, \<lambda>_. u64_bytes 100)])\<rparr>
      | OpSleep \<Rightarrow> lm_goto w (LRun tx_id rest) s)"

definition lm_commit :: "nat \<Rightarrow> nat \<Rightarrow> lm_sys \<Rightarrow> lm_sys" where
  "lm_commit w tx_id s =
     (lm_goto w (LUnlR tx_id (r_lock_list (lm_txs s w))) s)
       \<lparr>g_com := g_com s @ [(tx_id, \<lparr>tx_reads = g_read s tx_id, tx_writes = g_write s tx_id\<rparr>)]\<rparr>"

definition lm_release :: "nat \<Rightarrow> (u32 \<Rightarrow> u32) \<Rightarrow> key \<Rightarrow> lm_pc \<Rightarrow> nat \<Rightarrow> lm_sys \<Rightarrow> lm_sys" where
  "lm_release w rel k pc tx_id s =
     (lm_goto w pc s)
       \<lparr>lm_table := set_sa_lock k (rel (sa_lock (lm_table s k))) (lm_table s),
        g_rel := (g_rel s)(tx_id := insert k (g_rel s tx_id))\<rparr>"

section \<open>One step of worker \<open>w\<close>\<close>

definition lm_step :: "lm_config \<Rightarrow> nat \<Rightarrow> lm_sys \<Rightarrow> lm_sys" where
  "lm_step c w s =
     (let t = lm_txs s w in
      case lm_pcs s w of
        LGiant \<Rightarrow> lm_goto w (if lm_quit s then LStop else LGiantTry) s
      | LGiantTry \<Rightarrow>
          (case w_acq (giant_lock s) of
             None \<Rightarrow> lm_goto w LGiant s
           | Some g \<Rightarrow> (lm_goto w LFetch s)\<lparr>giant_lock := g\<rparr>)
      | LFetch \<Rightarrow>
          (if tx_counter s \<ge> lm_pre_num c then lm_goto w LStop s
           else lm_goto w (LTake (tx_counter s)) s)
      | LTake tx_id \<Rightarrow>
          (lm_upd w (sa_begin (t\<lparr>task_set := lm_pre c tx_id\<rparr>)) (LReg tx_id 0) s)
            \<lparr>tx_counter := Suc tx_id, g_acc := (g_acc s)(tx_id := access_of (lm_pre c tx_id)),
             g_got := (g_got s)(tx_id := {})\<rparr>
      | LReg tx_id pos \<Rightarrow> lm_regist w tx_id pos s
      | LAdd tx_id pos ope k \<Rightarrow> lm_add_lock w tx_id pos ope k s
      | LPush tx_id pos ope k \<Rightarrow> lm_add_push w tx_id pos ope k s
      | LAddUnl tx_id pos ope k \<Rightarrow> lm_add_unlock w tx_id pos ope k s
      | LGiantUnl tx_id \<Rightarrow> (lm_goto w (LScan tx_id 0) s)\<lparr>giant_lock := w_rel (giant_lock s)\<rparr>
      | LScan tx_id i \<Rightarrow> lm_scan w tx_id i s
      | LTry tx_id i \<Rightarrow> lm_try w tx_id i s
      | LGrab tx_id i \<Rightarrow> lm_grab w tx_id i s
      | LErase tx_id i \<Rightarrow> lm_erase w tx_id i s
      | LLfl tx_id i k \<Rightarrow>
          (lm_goto w (LScan tx_id i) s)
            \<lparr>lm_table := set_lfl k (w_rel (lock_for_lock (lm_table s k))) (lm_table s)\<rparr>
      | LRun tx_id (task # rest) \<Rightarrow> lm_exec w tx_id task rest s
      | LRun tx_id [] \<Rightarrow> lm_commit w tx_id s
      | LUnlR tx_id (k # ks) \<Rightarrow> lm_release w r_rel k (LUnlR tx_id ks) tx_id s
      | LUnlR tx_id [] \<Rightarrow> lm_goto w (LUnlW tx_id (w_lock_list t)) s
      | LUnlW tx_id (k # ks) \<Rightarrow> lm_release w w_rel k (LUnlW tx_id ks) tx_id s
      | LUnlW tx_id [] \<Rightarrow>
          (lm_upd w (sa_clear t) LGiant s)\<lparr>commit_cnt := (commit_cnt s)(w := Suc (commit_cnt s w))\<rparr>
      | LStop \<Rightarrow> s)"

section \<open>The system\<close>

text \<open>\<^verbatim>\<open>makeDB\<close> stores 0 into every value; \<open>first\<close> is the number \<^verbatim>\<open>main\<close> starts \<^verbatim>\<open>tx_counter\<close> at.\<close>

definition lm_init :: "nat \<Rightarrow> lm_sys" where
  "lm_init first =
     \<lparr>lm_table = (\<lambda>_. \<lparr>sa_lock = 0, sa_value = 0, lock_for_lock = 0, wait_list = []\<rparr>), giant_lock = 0,
      tx_counter = first, lm_quit = False, lm_txs = (\<lambda>_. lm_new), lm_pcs = (\<lambda>_. LGiant),
      commit_cnt = (\<lambda>_. 0), g_acc = (\<lambda>_ _. None), g_got = (\<lambda>_. {}), g_rel = (\<lambda>_. {}),
      g_read = (\<lambda>_. []), g_write = (\<lambda>_. []), g_com = []\<rparr>"

definition lm_start :: "lm_sys \<Rightarrow> bool" where
  "lm_start s \<longleftrightarrow> (\<exists>first. s = lm_init first)"

text \<open>A step of a worker, or the main thread's store to \<^verbatim>\<open>quit\<close>.\<close>

definition lm_next :: "lm_config \<Rightarrow> lm_sys \<Rightarrow> lm_sys \<Rightarrow> bool" where
  "lm_next c s t \<longleftrightarrow> (\<exists>w < lm_workers c. t = lm_step c w s) \<or> t = s\<lparr>lm_quit := True\<rparr>"

abbreviation lm_reach :: "lm_config \<Rightarrow> lm_sys \<Rightarrow> bool" where
  "lm_reach c \<equiv> reach lm_start (lm_next c)"

fun lm_run :: "lm_config \<Rightarrow> nat list \<Rightarrow> lm_sys \<Rightarrow> lm_sys" where
  "lm_run c [] s = s"
| "lm_run c (w # ws) s = lm_run c ws (lm_step c w s)"

lemma lm_run_reach:
  "lm_reach c s \<Longrightarrow> \<forall>w \<in> set ws. w < lm_workers c \<Longrightarrow> lm_reach c (lm_run c ws s)"
proof (induction ws arbitrary: s)
  case Nil
  then show ?case by simp
next
  case (Cons w ws)
  then have "lm_next c s (lm_step c w s)" by (auto simp: lm_next_def)
  with Cons.prems(1) have "lm_reach c (lm_step c w s)" by (rule reach_step)
  with Cons show ?case by simp
qed

end
