(* ===== verification/Lockmgr_Proofs.thy ===== *)
theory Lockmgr_Proofs
  imports Lockmgr_System
begin

text \<open>
  What every worker of the lock manager holds and waits for, and the invariants of the
  system: the wait lists are queues in the order of the transaction numbers, the lock words
  count the holders, and a record that an unfinished transaction will access is held by its
  worker, waited for, or about to be registered.
\<close>

section \<open>The executors\<close>

text \<open>The access the lists of a transaction stand for.\<close>

definition mode_of :: "lm_tx \<Rightarrow> access" where
  "mode_of t k =
     (if k \<in> set (w_lock_list t) \<or> (\<exists>f \<in> set (future_lock t). task_ope f = OpWrite \<and> task_key f = k)
      then Some True
      else if k \<in> set (r_lock_list t) \<or> (\<exists>f \<in> set (future_lock t). task_ope f = OpRead \<and> task_key f = k)
      then Some False else None)"

definition lm_keys :: "lm_tx \<Rightarrow> key list" where
  "lm_keys t = map task_key (future_lock t) @ r_lock_list t @ w_lock_list t"

definition lm_lists :: "lm_tx \<Rightarrow> access \<Rightarrow> bool" where
  "lm_lists t a \<longleftrightarrow> distinct (lm_keys t) \<and> (\<forall>f \<in> set (future_lock t). task_ope f \<noteq> OpSleep) \<and> mode_of t = a"

definition small_keys :: "task list \<Rightarrow> bool" where
  "small_keys ts \<longleftrightarrow> (\<forall>t \<in> set ts. unat (task_key t) < 2 ^ 31)"

definition lm_idle :: "lm_tx \<Rightarrow> bool" where
  "lm_idle t \<longleftrightarrow> future_lock t = [] \<and> r_lock_list t = [] \<and> w_lock_list t = []"

definition lm_reg :: "nat \<Rightarrow> lm_tx \<Rightarrow> bool" where
  "lm_reg pos t \<longleftrightarrow> small_keys (task_set t) \<and> pos \<le> length (task_set t) \<and> r_lock_list t = [] \<and>
     w_lock_list t = [] \<and> lm_lists t (access_of (take pos (task_set t)))"

text \<open>A task is being added: it is the first on its key.\<close>

definition lm_adding :: "nat \<Rightarrow> sa_ope \<Rightarrow> key \<Rightarrow> lm_tx \<Rightarrow> bool" where
  "lm_adding pos ope k t \<longleftrightarrow> lm_reg pos t \<and> pos < length (task_set t) \<and> ope \<noteq> OpSleep \<and>
     task_ope (task_set t ! pos) = ope \<and> task_key (task_set t ! pos) = k \<and>
     access_of (take pos (task_set t)) k = None"

abbreviation lm_full :: "lm_tx \<Rightarrow> bool" where
  "lm_full t \<equiv> lm_lists t (access_of (task_set t))"

fun lm_wf_pc :: "lm_tx \<Rightarrow> lm_pc \<Rightarrow> bool" where
  "lm_wf_pc t LGiant = lm_idle t"
| "lm_wf_pc t LGiantTry = lm_idle t"
| "lm_wf_pc t LFetch = lm_idle t"
| "lm_wf_pc t (LTake p) = lm_idle t"
| "lm_wf_pc t (LReg p pos) = lm_reg pos t"
| "lm_wf_pc t (LAdd p pos ope k) = lm_adding pos ope k t"
| "lm_wf_pc t (LPush p pos ope k) = lm_adding pos ope k t"
| "lm_wf_pc t (LAddUnl p pos ope k) = lm_adding pos ope k t"
| "lm_wf_pc t (LGiantUnl p) = lm_full t"
| "lm_wf_pc t (LScan p i) = lm_full t"
| "lm_wf_pc t (LTry p i) = (lm_full t \<and> i < length (future_lock t))"
| "lm_wf_pc t (LGrab p i) = (lm_full t \<and> i < length (future_lock t))"
| "lm_wf_pc t (LErase p i) = (lm_full t \<and> i < length (future_lock t))"
| "lm_wf_pc t (LLfl p i k) = lm_full t"
| "lm_wf_pc t (LRun p ts) = (lm_full t \<and> future_lock t = [] \<and> set ts \<subseteq> set (task_set t))"
| "lm_wf_pc t (LUnlR p ks) = (lm_full t \<and> future_lock t = [] \<and> distinct ks \<and> set ks \<subseteq> set (r_lock_list t))"
| "lm_wf_pc t (LUnlW p ks) = (lm_full t \<and> future_lock t = [] \<and> distinct ks \<and> set ks \<subseteq> set (w_lock_list t))"
| "lm_wf_pc t LStop = lm_idle t"

section \<open>Registration\<close>

lemma int_arg_small:
  assumes "unat k < 2 ^ 31"
  shows "int_arg k = k"
proof -
  have "unat k < 2147483648" using assms by simp
  then have "int (unat k) < 2147483648" by linarith
  then have u: "uint k < 2 ^ 31" by simp
  have "sint (ucast k :: u32) = uint k"
  proof -
    have "sint (ucast k :: u32) = signed_take_bit 31 (uint k)"
      by (simp add: sint_uint unsigned_ucast_eq signed_take_bit_take_bit)
    also have "\<dots> = uint k"
      by (rule signed_take_bit_int_eq_self) (use u order_trans [OF _ uint_ge_0 [of k]] in auto)
    finally show ?thesis .
  qed
  then show ?thesis by (simp add: int_arg_def scast_eq)
qed

lemma dup_scan_cases:
  "(dup_scan ts k = - 1 \<longleftrightarrow> access_of ts k = None) \<and>
   (dup_scan ts k = 1 \<longrightarrow> access_of ts k = Some True) \<and> dup_scan ts k \<in> {- 1, 0, 1}"
proof (induction ts)
  case Nil
  then show ?case by (simp add: access_of_def)
next
  case (Cons t ts)
  then show ?case by (cases "task_ope t") (auto simp: access_of_Cons)
qed

lemma upgrade_future_keys [simp]: "map task_key (upgrade_future k fs) = map task_key fs"
  by (induction fs) auto

lemma upgrade_future_set:
  assumes "distinct (map task_key fs)" "k \<in> task_key ` set fs"
  shows "f \<in> set (upgrade_future k fs) \<longleftrightarrow>
    (if task_key f = k then \<exists>g \<in> set fs. task_key g = k \<and> f = g\<lparr>task_ope := OpWrite\<rparr> else f \<in> set fs)"
  using assms
proof (induction fs)
  case Nil
  then show ?case by simp
next
  case (Cons a fs)
  show ?case
  proof (cases "k = task_key a")
    case True
    with Cons.prems(1) have "k \<notin> task_key ` set fs" by simp
    with True show ?thesis by (auto simp: image_iff)
  next
    case False
    with Cons show ?thesis by auto
  qed
qed

lemma mode_of_keys: "mode_of t k \<noteq> None \<Longrightarrow> k \<in> set (lm_keys t)"
  by (auto simp: mode_of_def lm_keys_def split: if_splits)

lemma mode_of_None: "\<forall>f \<in> set (future_lock t). task_ope f \<noteq> OpSleep \<Longrightarrow> mode_of t k = None \<Longrightarrow> k \<notin> set (lm_keys t)"
  by (auto simp: mode_of_def lm_keys_def split: if_splits) (metis sa_ope.exhaust)

lemma lm_reg_Suc:
  assumes "lm_reg pos t" "pos < length (task_set t)"
    and "lm_lists t' (access_of (take pos (task_set t) @ [task_set t ! pos]))"
    and "task_set t' = task_set t" "r_lock_list t' = []" "w_lock_list t' = []"
  shows "lm_reg (Suc pos) t'"
  using assms by (simp add: lm_reg_def take_Suc_conv_app_nth)

text \<open>The three outcomes of \<open>reg_item\<close>.\<close>

lemma reg_item_wf:
  assumes r: "lm_reg pos t" and pos: "pos < length (task_set t)"
  shows "(reg_item pos (task_set t ! pos) t = RegSkip \<longrightarrow> lm_reg (Suc pos) t) \<and>
    (reg_item pos (task_set t ! pos) t = RegUpgrade \<longrightarrow>
       lm_reg (Suc pos) (t\<lparr>future_lock := upgrade_future (task_key (task_set t ! pos)) (future_lock t)\<rparr>)) \<and>
    (\<forall>ope. reg_item pos (task_set t ! pos) t = RegAdd ope \<longrightarrow>
       lm_adding pos ope (task_key (task_set t ! pos)) t)"
proof -
  let ?item = "task_set t ! pos" and ?pre = "take pos (task_set t)"
  let ?k = "task_key ?item"
  have "int_arg ?k = ?k"
    using r pos by (intro int_arg_small) (simp add: lm_reg_def small_keys_def)
  then have d: "dup_check ?k pos t = dup_scan ?pre ?k" by (simp add: dup_check_def)
  note D = dup_scan_cases [of ?pre ?k, THEN conjunct1]
    dup_scan_cases [of ?pre ?k, THEN conjunct2, THEN conjunct1, rule_format]
    dup_scan_cases [of ?pre ?k, THEN conjunct2, THEN conjunct2]
  have L: "lm_lists t (access_of ?pre)" "r_lock_list t = []" "w_lock_list t = []"
    using r by (simp_all add: lm_reg_def)
  have same: "lm_reg (Suc pos) t" if "access_of (?pre @ [?item]) = access_of ?pre"
    by (rule lm_reg_Suc [OF r pos]) (use L that in simp_all)
  show ?thesis
  proof (cases "task_ope ?item")
    case OpRead
    have "access_of (?pre @ [?item]) = access_of ?pre" if "dup_scan ?pre ?k > - 1"
      using that D OpRead by (auto simp: access_of_snoc fun_eq_iff)
    moreover have "access_of ?pre ?k = None" if "\<not> dup_scan ?pre ?k > - 1"
      using that D by auto
    ultimately show ?thesis using OpRead d same r pos
      by (simp add: reg_item_def lm_adding_def)
  next
    case OpWrite
    have skip: "access_of (?pre @ [?item]) = access_of ?pre" if "dup_scan ?pre ?k = 1"
      using that D(2) OpWrite by (auto simp: access_of_snoc fun_eq_iff)
    have add: "access_of ?pre ?k = None" if "dup_scan ?pre ?k \<noteq> 1" "dup_scan ?pre ?k \<noteq> 0"
      using that D by auto
    have up: "lm_reg (Suc pos) (t\<lparr>future_lock := upgrade_future ?k (future_lock t)\<rparr>)"
      (is "lm_reg _ ?t") if z: "dup_scan ?pre ?k = 0"
    proof (rule lm_reg_Suc [OF r pos])
      have "access_of ?pre ?k \<noteq> None" using D(1) z by auto
      then have k: "?k \<in> task_key ` set (future_lock t)"
        using L mode_of_keys [of t ?k] by (auto simp: lm_lists_def lm_keys_def)
      have dis: "distinct (map task_key (future_lock t))" using L by (simp add: lm_lists_def lm_keys_def)
      note U = upgrade_future_set [OF dis k]
      have "mode_of ?t j = access_of (?pre @ [?item]) j" for j
      proof (cases "j = ?k")
        case True
        obtain g where "g \<in> set (future_lock t)" "task_key g = ?k" using k by auto
        then have "g\<lparr>task_ope := OpWrite\<rparr> \<in> set (upgrade_future ?k (future_lock t))" by (auto simp: U)
        then have "mode_of ?t ?k = Some True"
          using \<open>task_key g = ?k\<close> by (force simp: mode_of_def)
        with True OpWrite show ?thesis by (simp add: access_of_snoc)
      next
        case False
        then have "mode_of ?t j = mode_of t j" by (auto simp: mode_of_def U)
        with False L(1) show ?thesis by (simp add: access_of_snoc lm_lists_def)
      qed
      moreover have "\<forall>f \<in> set (future_lock ?t). task_ope f \<noteq> OpSleep"
        using L(1) by (auto simp: U lm_lists_def split: if_splits)
      ultimately show "lm_lists ?t (access_of (?pre @ [?item]))"
        using L(1) by (auto simp: lm_lists_def lm_keys_def)
    qed (use L in simp_all)
    show ?thesis using OpWrite d same skip add up r pos
      by (auto simp: reg_item_def lm_adding_def Let_def)
  next
    case OpSleep
    then have "access_of (?pre @ [?item]) = access_of ?pre" by (simp add: access_of_snoc fun_eq_iff)
    with OpSleep same show ?thesis by (simp add: reg_item_def)
  qed
qed

lemma lm_added_wf:
  assumes "lm_adding pos ope k t"
  shows "lm_reg (Suc pos) (t\<lparr>future_lock := future_lock t @ [Task ope k]\<rparr>)" (is "lm_reg _ ?t")
    and "k \<notin> set (lm_keys t)"
proof -
  have r: "lm_reg pos t" and pos: "pos < length (task_set t)" and o: "ope \<noteq> OpSleep"
    and item: "task_ope (task_set t ! pos) = ope" "task_key (task_set t ! pos) = k"
    and none: "access_of (take pos (task_set t)) k = None"
    using assms by (simp_all add: lm_adding_def)
  have L: "lm_lists t (access_of (take pos (task_set t)))" "r_lock_list t = []" "w_lock_list t = []"
    using r by (simp_all add: lm_reg_def)
  show new: "k \<notin> set (lm_keys t)" using L none by (intro mode_of_None) (simp_all add: lm_lists_def)
  show "lm_reg (Suc pos) ?t"
  proof (rule lm_reg_Suc [OF r pos])
    have "mode_of ?t j = access_of (take pos (task_set t) @ [task_set t ! pos]) j" for j
    proof (cases "j = k")
      case True
      have "mode_of t k = None" using L none by (simp add: lm_lists_def)
      then show ?thesis using True o item none
        by (cases ope) (auto simp: mode_of_def access_of_snoc Task_def split: if_splits)
    next
      case False
      then have "mode_of ?t j = mode_of t j" by (auto simp: mode_of_def Task_def)
      with False item L(1) show ?thesis by (simp add: access_of_snoc lm_lists_def)
    qed
    then show "lm_lists ?t (access_of (take pos (task_set t) @ [task_set t ! pos]))"
      using L(1) new o by (auto simp: lm_lists_def lm_keys_def Task_def)
  qed (use L in simp_all)
qed

end
