(* ===== verification/Lockmgr_Invariant.thy ===== *)
theory Lockmgr_Invariant
  imports Lockmgr_Proofs
begin

text \<open>
  The invariants of the lock manager as a whole, over transaction numbers: who may hold a
  record (granted and not yet released), that the lock words count exactly these, that the
  wait lists are queues in the order of the numbers with the holders in front, that every
  declared access of a transaction is granted, waited for or still being registered, and
  how the position of a worker in its code fixes what its transaction holds.
\<close>

section \<open>Views of the state\<close>

definition lm_waits :: "lm_sys \<Rightarrow> key \<Rightarrow> nat list" where
  "lm_waits s k = wait_list (lm_table s k)"

definition lm_word :: "lm_sys \<Rightarrow> key \<Rightarrow> u32" where
  "lm_word s k = sa_lock (lm_table s k)"

abbreviation lm_coms :: "lm_sys \<Rightarrow> nat set" where
  "lm_coms s \<equiv> fst ` set (g_com s)"

definition lm_holders :: "lm_sys \<Rightarrow> bool \<Rightarrow> key \<Rightarrow> nat set" where
  "lm_holders s b k =
     {p. p < tx_counter s \<and> k \<in> g_got s p \<and> k \<notin> g_rel s p \<and> g_acc s p k = Some b}"

fun lm_id :: "lm_pc \<Rightarrow> nat option" where
  "lm_id (LReg p pos) = Some p"
| "lm_id (LAdd p pos ope k) = Some p"
| "lm_id (LPush p pos ope k) = Some p"
| "lm_id (LAddUnl p pos ope k) = Some p"
| "lm_id (LGiantUnl p) = Some p"
| "lm_id (LScan p i) = Some p"
| "lm_id (LTry p i) = Some p"
| "lm_id (LGrab p i) = Some p"
| "lm_id (LErase p i) = Some p"
| "lm_id (LLfl p i k) = Some p"
| "lm_id (LRun p ts) = Some p"
| "lm_id (LUnlR p ks) = Some p"
| "lm_id (LUnlW p ks) = Some p"
| "lm_id _ = None"

fun lm_regs :: "lm_pc \<Rightarrow> bool" where
  "lm_regs (LReg p pos) = True"
| "lm_regs (LAdd p pos ope k) = True"
| "lm_regs (LPush p pos ope k) = True"
| "lm_regs (LAddUnl p pos ope k) = True"
| "lm_regs _ = False"

definition lm_giants :: "lm_pc \<Rightarrow> bool" where
  "lm_giants pc \<longleftrightarrow> lm_regs pc \<or> pc = LFetch \<or> (\<exists>p. pc = LTake p) \<or> (\<exists>p. pc = LGiantUnl p)"

lemma lm_giants_simps [simp]:
  "lm_giants LGiant = False" "lm_giants LGiantTry = False" "lm_giants LFetch = True"
  "lm_giants (LTake p) = True" "lm_giants (LReg p pos) = True" "lm_giants (LAdd p pos ope k) = True"
  "lm_giants (LPush p pos ope k) = True" "lm_giants (LAddUnl p pos ope k) = True"
  "lm_giants (LGiantUnl p) = True" "lm_giants (LScan p i) = False" "lm_giants (LTry p i) = False"
  "lm_giants (LGrab p i) = False" "lm_giants (LErase p i) = False" "lm_giants (LLfl p i k) = False"
  "lm_giants (LRun p ts) = False" "lm_giants (LUnlR p ks) = False" "lm_giants (LUnlW p ks) = False"
  "lm_giants LStop = False"
  by (simp_all add: lm_giants_def)

section \<open>The invariants\<close>

definition lm_ids :: "lm_sys \<Rightarrow> bool" where
  "lm_ids s \<longleftrightarrow> (\<forall>v w p. lm_id (lm_pcs s v) = Some p \<longrightarrow> lm_id (lm_pcs s w) = Some p \<longrightarrow> v = w)"

text \<open>A worker that stops because the transactions are exhausted keeps the giant lock.\<close>

definition lm_giant :: "lm_sys \<Rightarrow> bool" where
  "lm_giant s \<longleftrightarrow> (\<exists>G. held ctr_rep (giant_lock s) {} G \<and> {w. lm_giants (lm_pcs s w)} \<subseteq> G)"

definition lm_wf :: "lm_sys \<Rightarrow> bool" where
  "lm_wf s \<longleftrightarrow> (\<forall>w. lm_wf_pc (lm_txs s w) (lm_pcs s w))"

text \<open>What the transaction numbered \<open>p\<close> was granted and has released, where it waits, whether it has committed.\<close>

definition lm_own :: "lm_sys \<Rightarrow> lm_tx \<Rightarrow> nat \<Rightarrow> key set \<Rightarrow> key set \<Rightarrow> key set \<Rightarrow> bool \<Rightarrow> bool" where
  "lm_own s t p G L Q C \<longleftrightarrow> p < tx_counter s \<and> g_acc s p = access_of (task_set t) \<and>
     g_got s p = G \<and> g_rel s p = L \<and> (\<forall>k. p \<in> set (lm_waits s k) \<longleftrightarrow> k \<in> Q) \<and> (p \<in> lm_coms s \<longleftrightarrow> C)"

definition lm_head :: "lm_sys \<Rightarrow> lm_tx \<Rightarrow> nat \<Rightarrow> nat \<Rightarrow> bool" where
  "lm_head s t p i \<longleftrightarrow> (\<exists>xs. lm_waits s (task_key (future_lock t ! i)) = p # xs)"

abbreviation lm_futs :: "lm_tx \<Rightarrow> key set" where
  "lm_futs t \<equiv> task_key ` set (future_lock t)"

abbreviation lm_locked :: "lm_tx \<Rightarrow> key set" where
  "lm_locked t \<equiv> set (r_lock_list t) \<union> set (w_lock_list t)"

fun lm_link :: "lm_sys \<Rightarrow> lm_tx \<Rightarrow> lm_pc \<Rightarrow> bool" where
  "lm_link s t (LTake p) = (p = tx_counter s)"
| "lm_link s t (LReg p pos) = (lm_own s t p {} {} (lm_futs t) False \<and> Suc p = tx_counter s)"
| "lm_link s t (LAdd p pos ope k) = (lm_own s t p {} {} (lm_futs t) False \<and> Suc p = tx_counter s)"
| "lm_link s t (LPush p pos ope k) = (lm_own s t p {} {} (lm_futs t) False \<and> Suc p = tx_counter s)"
| "lm_link s t (LAddUnl p pos ope k) =
     (lm_own s t p {} {} (insert k (lm_futs t)) False \<and> Suc p = tx_counter s)"
| "lm_link s t (LGiantUnl p) = lm_own s t p (lm_locked t) {} (lm_futs t) False"
| "lm_link s t (LScan p i) = lm_own s t p (lm_locked t) {} (lm_futs t) False"
| "lm_link s t (LTry p i) = (lm_own s t p (lm_locked t) {} (lm_futs t) False \<and> lm_head s t p i)"
| "lm_link s t (LGrab p i) = (lm_own s t p (lm_locked t) {} (lm_futs t) False \<and> lm_head s t p i)"
| "lm_link s t (LErase p i) =
     (lm_own s t p (insert (task_key (future_lock t ! i)) (lm_locked t)) {} (lm_futs t) False \<and>
      lm_head s t p i)"
| "lm_link s t (LLfl p i k) = lm_own s t p (lm_locked t) {} (lm_futs t) False"
| "lm_link s t (LRun p ts) = lm_own s t p (lm_locked t) {} {} False"
| "lm_link s t (LUnlR p ks) = lm_own s t p (lm_locked t) (set (r_lock_list t) - set ks) {} True"
| "lm_link s t (LUnlW p ks) =
     lm_own s t p (lm_locked t) (set (r_lock_list t) \<union> (set (w_lock_list t) - set ks)) {} True"
| "lm_link s t _ = True"

definition lm_links :: "lm_sys \<Rightarrow> bool" where
  "lm_links s \<longleftrightarrow> (\<forall>w. lm_link s (lm_txs s w) (lm_pcs s w))"

definition lm_queue :: "lm_sys \<Rightarrow> bool" where
  "lm_queue s \<longleftrightarrow> (\<forall>k. sorted_wrt (<) (lm_waits s k)) \<and>
     (\<forall>k. \<forall>p \<in> set (lm_waits s k). p < tx_counter s) \<and>
     (\<forall>k p q. p < tx_counter s \<longrightarrow> k \<in> g_got s p \<longrightarrow> q \<in> set (lm_waits s k) \<longrightarrow> p \<le> q)"

definition lm_cover :: "lm_sys \<Rightarrow> bool" where
  "lm_cover s \<longleftrightarrow> (\<forall>p k. p < tx_counter s \<longrightarrow> g_acc s p k \<noteq> None \<longrightarrow>
     k \<in> g_got s p \<or> p \<in> set (lm_waits s k) \<or>
     (\<exists>w. lm_id (lm_pcs s w) = Some p \<and> lm_regs (lm_pcs s w)))"

definition lm_locks :: "lm_sys \<Rightarrow> bool" where
  "lm_locks s \<longleftrightarrow> (\<forall>k. held ctr_rep (lm_word s k) (lm_holders s False k) (lm_holders s True k))"

definition lm_fresh :: "lm_sys \<Rightarrow> bool" where
  "lm_fresh s \<longleftrightarrow> (\<forall>p \<ge> tx_counter s. g_rel s p = {} \<and> p \<notin> lm_coms s)"

text \<open>Who waits for a record or was granted it and has not released it is run by some worker.\<close>

definition lm_owned :: "nat \<Rightarrow> lm_sys \<Rightarrow> bool" where
  "lm_owned n s \<longleftrightarrow> (\<forall>p k. p < tx_counter s \<longrightarrow>
     k \<in> g_got s p \<and> k \<notin> g_rel s p \<or> p \<in> set (lm_waits s k) \<longrightarrow>
     (\<exists>w < n. lm_id (lm_pcs s w) = Some p))"

definition lm_inv :: "lm_config \<Rightarrow> lm_sys \<Rightarrow> bool" where
  "lm_inv c s \<longleftrightarrow> lm_ids s \<and> lm_giant s \<and> lm_wf s \<and> lm_links s \<and> lm_queue s \<and> lm_cover s \<and>
     lm_locks s \<and> lm_fresh s \<and> lm_owned (lm_workers c) s"

lemma linv:
  assumes "lm_inv c s"
  shows "lm_ids s" "lm_giant s" "lm_wf s" "lm_links s" "lm_queue s" "lm_cover s" "lm_locks s" "lm_fresh s"
    "lm_owned (lm_workers c) s"
  using assms by (simp_all add: lm_inv_def)

lemma linv_wf: "lm_inv c s \<Longrightarrow> lm_wf_pc (lm_txs s w) (lm_pcs s w)"
  by (simp add: lm_inv_def lm_wf_def)

lemma linv_link: "lm_inv c s \<Longrightarrow> lm_link s (lm_txs s w) (lm_pcs s w)"
  by (simp add: lm_inv_def lm_links_def)

lemma linv_id: "lm_inv c s \<Longrightarrow> lm_id (lm_pcs s v) = Some p \<Longrightarrow> lm_id (lm_pcs s w) = Some p \<Longrightarrow> v = w"
  unfolding lm_inv_def lm_ids_def by blast

lemma linv_giant: "lm_inv c s \<Longrightarrow> lm_giants (lm_pcs s v) \<Longrightarrow> lm_giants (lm_pcs s w) \<Longrightarrow> v = w"
proof -
  assume inv: "lm_inv c s" and v: "lm_giants (lm_pcs s v)" and w: "lm_giants (lm_pcs s w)"
  obtain G where G: "held ctr_rep (giant_lock s) {} G" "{w. lm_giants (lm_pcs s w)} \<subseteq> G"
    using linv(2) [OF inv] unfolding lm_giant_def by blast
  with v w have "v \<in> G" "w \<in> G" by auto
  with rwl.held_excl [OF G(1), of v] show ?thesis by auto
qed

lemma lm_link_own:
  "lm_link s t pc \<Longrightarrow> lm_id pc = Some p \<Longrightarrow> \<exists>G L Q C. lm_own s t p G L Q C"
  by (cases pc) auto

lemma lm_link_less: "lm_link s t pc \<Longrightarrow> lm_id pc = Some p \<Longrightarrow> p < tx_counter s"
  by (drule (1) lm_link_own) (auto simp: lm_own_def)

section \<open>Frames\<close>

lemma lm_upd_simps [simp]:
  "lm_table (lm_upd w t pc s) = lm_table s" "giant_lock (lm_upd w t pc s) = giant_lock s"
  "tx_counter (lm_upd w t pc s) = tx_counter s" "lm_txs (lm_upd w t pc s) = (lm_txs s)(w := t)"
  "lm_pcs (lm_upd w t pc s) = (lm_pcs s)(w := pc)" "g_acc (lm_upd w t pc s) = g_acc s"
  "g_got (lm_upd w t pc s) = g_got s" "g_rel (lm_upd w t pc s) = g_rel s"
  "g_read (lm_upd w t pc s) = g_read s" "g_write (lm_upd w t pc s) = g_write s"
  "g_com (lm_upd w t pc s) = g_com s"
  by (simp_all add: lm_upd_def)

lemma lm_goto_simps [simp]:
  "lm_table (lm_goto w pc s) = lm_table s" "giant_lock (lm_goto w pc s) = giant_lock s"
  "tx_counter (lm_goto w pc s) = tx_counter s" "lm_txs (lm_goto w pc s) = lm_txs s"
  "lm_pcs (lm_goto w pc s) = (lm_pcs s)(w := pc)" "g_acc (lm_goto w pc s) = g_acc s"
  "g_got (lm_goto w pc s) = g_got s" "g_rel (lm_goto w pc s) = g_rel s"
  "g_read (lm_goto w pc s) = g_read s" "g_write (lm_goto w pc s) = g_write s"
  "g_com (lm_goto w pc s) = g_com s"
  by (simp_all add: lm_goto_def)

lemma lm_set_simps [simp]:
  "wait_list (set_lfl k c tb j) = wait_list (tb j)" "sa_lock (set_lfl k c tb j) = sa_lock (tb j)"
  "sa_value (set_lfl k c tb j) = sa_value (tb j)"
  "wait_list (set_wait k xs tb j) = (if j = k then xs else wait_list (tb j))"
  "sa_lock (set_wait k xs tb j) = sa_lock (tb j)" "sa_value (set_wait k xs tb j) = sa_value (tb j)"
  "wait_list (set_sa_lock k c tb j) = wait_list (tb j)"
  "sa_lock (set_sa_lock k c tb j) = (if j = k then c else sa_lock (tb j))"
  "sa_value (set_sa_lock k c tb j) = sa_value (tb j)"
  "wait_list (set_sa_value k v tb j) = wait_list (tb j)"
  "sa_lock (set_sa_value k v tb j) = sa_lock (tb j)"
  "sa_value (set_sa_value k v tb j) = (if j = k then v else sa_value (tb j))"
  by (simp_all add: set_lfl_def set_wait_def set_sa_lock_def set_sa_value_def)

text \<open>The state as the invariants on transaction numbers see it.\<close>

definition lm_alike :: "nat set \<Rightarrow> lm_sys \<Rightarrow> lm_sys \<Rightarrow> bool" where
  "lm_alike P s s' \<longleftrightarrow> (\<forall>q. q \<notin> P \<longrightarrow> g_acc s' q = g_acc s q \<and> g_got s' q = g_got s q \<and>
     g_rel s' q = g_rel s q \<and> (q \<in> lm_coms s' \<longleftrightarrow> q \<in> lm_coms s) \<and>
     (\<forall>k. q \<in> set (lm_waits s' k) \<longleftrightarrow> q \<in> set (lm_waits s k)) \<and>
     (\<forall>k. (\<exists>xs. lm_waits s k = q # xs) \<longrightarrow> (\<exists>xs. lm_waits s' k = q # xs)))"

lemma lm_own_alike:
  "lm_alike P s s' \<Longrightarrow> p \<notin> P \<Longrightarrow> tx_counter s \<le> tx_counter s' \<Longrightarrow> lm_own s t p G L Q C \<Longrightarrow> lm_own s' t p G L Q C"
  by (simp add: lm_own_def lm_alike_def)

lemma lm_head_alike: "lm_alike P s s' \<Longrightarrow> p \<notin> P \<Longrightarrow> lm_head s t p i \<Longrightarrow> lm_head s' t p i"
  by (simp add: lm_head_def lm_alike_def)

lemma lm_link_alike:
  assumes "lm_alike P s s'" "\<And>p. lm_id pc = Some p \<Longrightarrow> p \<notin> P" "tx_counter s \<le> tx_counter s'"
    and "tx_counter s' = tx_counter s \<or> \<not> lm_giants pc" "lm_link s t pc"
  shows "lm_link s' t pc"
  using assms by (cases pc) (auto intro: lm_own_alike lm_head_alike)

section \<open>A step of one worker\<close>

definition lm_same :: "lm_sys \<Rightarrow> lm_sys \<Rightarrow> bool" where
  "lm_same s s' \<longleftrightarrow> tx_counter s' = tx_counter s \<and> g_acc s' = g_acc s \<and> g_got s' = g_got s \<and>
     g_rel s' = g_rel s \<and> g_com s' = g_com s \<and> lm_waits s' = lm_waits s \<and> lm_word s' = lm_word s"

lemma lm_same_alike: "lm_same s s' \<Longrightarrow> lm_alike {} s s'"
  by (simp add: lm_same_def lm_alike_def)

lemma lm_same_inv:
  assumes "lm_same s s'"
  shows "lm_queue s' = lm_queue s" "lm_locks s' = lm_locks s" "lm_fresh s' = lm_fresh s"
  using assms by (simp_all add: lm_same_def lm_queue_def lm_locks_def lm_holders_def lm_fresh_def)

lemma lm_inv_step:
  assumes inv: "lm_inv c s"
    and s': "lm_pcs s' = (lm_pcs s)(w := pc')" "lm_txs s' = (lm_txs s)(w := t')"
    and ids: "\<And>v p. v \<noteq> w \<Longrightarrow> lm_id pc' = Some p \<Longrightarrow> lm_id (lm_pcs s v) \<noteq> Some p"
    and P: "lm_alike P s s'" "\<And>v p. v \<noteq> w \<Longrightarrow> lm_id (lm_pcs s v) = Some p \<Longrightarrow> p \<notin> P"
    and ctr: "tx_counter s \<le> tx_counter s'" "tx_counter s' = tx_counter s \<or> lm_giants (lm_pcs s w)"
    and new: "lm_wf_pc t' pc'" "lm_link s' t' pc'"
    and glob: "lm_giant s'" "lm_queue s'" "lm_cover s'" "lm_locks s'" "lm_fresh s'" "lm_owned (lm_workers c) s'"
  shows "lm_inv c s'"
proof -
  have "lm_ids s'"
    unfolding lm_ids_def s' using ids linv_id [OF inv] by (metis fun_upd_apply)
  moreover have "lm_wf s'" using linv_wf [OF inv] new by (simp add: lm_wf_def s')
  moreover have "lm_link s' (lm_txs s v) (lm_pcs s v)" if v: "v \<noteq> w" for v
    using P(1) P(2) [OF v] ctr(1) _ linv_link [OF inv]
  proof (rule lm_link_alike)
    show "tx_counter s' = tx_counter s \<or> \<not> lm_giants (lm_pcs s v)"
      using ctr(2) linv_giant [OF inv, of v w] v by blast
  qed
  with new have "lm_links s'" by (simp add: lm_links_def s')
  ultimately show ?thesis using glob by (simp add: lm_inv_def)
qed

lemma lm_giant_same:
  assumes "lm_giant s" "giant_lock s' = giant_lock s" "lm_pcs s' = (lm_pcs s)(w := pc')"
    and "lm_giants pc' \<longrightarrow> lm_giants (lm_pcs s w)"
  shows "lm_giant s'"
proof -
  have "{v. lm_giants (lm_pcs s' v)} \<subseteq> {v. lm_giants (lm_pcs s v)}" using assms(3,4) by auto
  with assms(1,2) show ?thesis unfolding lm_giant_def by (metis subset_trans)
qed

lemma lm_cover_same:
  assumes "lm_cover s" "lm_pcs s' = (lm_pcs s)(w := pc')"
    and "tx_counter s' = tx_counter s" "g_acc s' = g_acc s"
    and "\<And>p k. k \<in> g_got s p \<or> p \<in> set (lm_waits s k) \<Longrightarrow> k \<in> g_got s' p \<or> p \<in> set (lm_waits s' k)"
    and "lm_id pc' = lm_id (lm_pcs s w)" "lm_regs pc' = lm_regs (lm_pcs s w)"
  shows "lm_cover s'"
  using assms unfolding lm_cover_def by (metis fun_upd_apply)

lemma lm_owned_same:
  assumes "lm_owned n s" "lm_pcs s' = (lm_pcs s)(w := pc')"
    and "tx_counter s' = tx_counter s"
    and "\<And>p k. k \<in> g_got s' p \<and> k \<notin> g_rel s' p \<or> p \<in> set (lm_waits s' k) \<Longrightarrow>
      k \<in> g_got s p \<and> k \<notin> g_rel s p \<or> p \<in> set (lm_waits s k) \<or> lm_id pc' = Some p \<and> w < n"
    and "lm_id pc' = lm_id (lm_pcs s w)"
  shows "lm_owned n s'"
  using assms unfolding lm_owned_def by (metis fun_upd_apply)

text \<open>A step that leaves the transaction number and everything shared but values and ghosts alone.\<close>

lemma lm_inv_local:
  assumes inv: "lm_inv c s"
    and s': "lm_pcs s' = (lm_pcs s)(w := pc')" "lm_txs s' = (lm_txs s)(w := t')"
    and same: "lm_same s s'" "giant_lock s' = giant_lock s"
    and pc: "lm_id pc' = lm_id (lm_pcs s w)" "lm_regs pc' = lm_regs (lm_pcs s w)"
      "lm_giants pc' \<longrightarrow> lm_giants (lm_pcs s w)"
    and new: "lm_wf_pc t' pc'" "lm_link s t' pc'"
  shows "lm_inv c s'"
proof (rule lm_inv_step [OF inv s'])
  show "lm_id (lm_pcs s v) \<noteq> Some p" if "v \<noteq> w" "lm_id pc' = Some p" for v p
    using linv_id [OF inv, of v p w] that pc(1) by auto
  have ctr: "tx_counter s' = tx_counter s" using same by (simp add: lm_same_def)
  then show "tx_counter s \<le> tx_counter s'" "tx_counter s' = tx_counter s \<or> lm_giants (lm_pcs s w)" by simp_all
  show "lm_alike {} s s'" by (rule lm_same_alike [OF same(1)])
  show "lm_link s' t' pc'" by (rule lm_link_alike [OF lm_same_alike [OF same(1)] _ _ _ new(2)]) (simp_all add: ctr)
  show "lm_giant s'" by (rule lm_giant_same [OF linv(2) [OF inv] same(2) s'(1) pc(3)])
  show "lm_queue s'" "lm_locks s'" "lm_fresh s'" using linv [OF inv] lm_same_inv [OF same(1)] by simp_all
  show "lm_cover s'"
    by (rule lm_cover_same [OF linv(6) [OF inv] s'(1) _ _ _ pc(1,2)]) (use same in \<open>simp_all add: lm_same_def\<close>)
  show "lm_owned (lm_workers c) s'"
    by (rule lm_owned_same [OF linv(9) [OF inv] s'(1) _ _ pc(1)]) (use same in \<open>auto simp: lm_same_def\<close>)
qed (use new in simp_all)

end
