(* ===== verification/Lockmgr_Steps.thy ===== *)
theory Lockmgr_Steps
  imports Lockmgr_Invariant
begin

text \<open>
  Every step of a worker of the lock manager keeps the invariants.
\<close>

lemma lm_regs_other:
  assumes "\<exists>v. lm_id (f v) = Some q \<and> lm_regs (f v)" "\<not> (lm_id (f w) = Some q \<and> lm_regs (f w))"
  shows "\<exists>v. lm_id ((f(w := pc)) v) = Some q \<and> lm_regs ((f(w := pc)) v)"
proof -
  from assms obtain v where "lm_id (f v) = Some q" "lm_regs (f v)" "v \<noteq> w" by metis
  then show ?thesis by (intro exI [of _ v]) simp
qed

section \<open>Steps that only move the worker\<close>

lemma lm_same_goto [simp]: "lm_same s (lm_goto w pc s)"
  by (simp add: lm_same_def lm_waits_def lm_word_def fun_eq_iff)

lemma lm_inv_goto:
  assumes inv: "lm_inv c s"
    and pc: "lm_id pc' = lm_id (lm_pcs s w)" "lm_regs pc' = lm_regs (lm_pcs s w)"
      "lm_giants pc' \<longrightarrow> lm_giants (lm_pcs s w)"
    and new: "lm_wf_pc (lm_txs s w) pc'" "lm_link s (lm_txs s w) pc'"
  shows "lm_inv c (lm_goto w pc' s)"
proof (rule lm_inv_local [OF inv _ _ _ _ pc new])
  show "lm_txs (lm_goto w pc' s) = (lm_txs s)(w := lm_txs s w)" by simp
qed simp_all

lemma lm_same_lfl: "lm_table s' = set_lfl k v (lm_table s) \<Longrightarrow> tx_counter s' = tx_counter s \<Longrightarrow>
    g_acc s' = g_acc s \<Longrightarrow> g_got s' = g_got s \<Longrightarrow> g_rel s' = g_rel s \<Longrightarrow> g_com s' = g_com s \<Longrightarrow> lm_same s s'"
  by (simp add: lm_same_def lm_waits_def lm_word_def fun_eq_iff)

lemma lm_own_futs:
  "lm_own s t p G L Q C \<Longrightarrow> task_set t' = task_set t \<Longrightarrow> Q = Q' \<Longrightarrow> lm_own s t' p G L Q' C"
  by (simp add: lm_own_def)

lemma lm_futs_upgrade [simp]: "task_key ` set (upgrade_future k fs) = task_key ` set fs"
  using upgrade_future_keys [of k fs] by (metis list.set_map)

lemma lm_inv_reg:
  assumes inv: "lm_inv c s" and pc: "lm_pcs s w = LReg p pos"
    and more: "pos < length (task_set (lm_txs s w))"
  shows "lm_inv c (lm_regist w p pos s)"
proof -
  let ?t = "lm_txs s w" and ?item = "task_set (lm_txs s w) ! pos"
  have wf: "lm_reg pos ?t" using linv_wf [OF inv, of w] pc by simp
  have own: "lm_own s ?t p {} {} (lm_futs ?t) False" "Suc p = tx_counter s"
    using linv_link [OF inv, of w] pc by simp_all
  note R = reg_item_wf [OF wf more]
  show ?thesis
  proof (cases "reg_item pos ?item ?t")
    case RegSkip
    with R have "lm_reg (Suc pos) ?t" by simp
    with inv own pc have "lm_inv c (lm_goto w (LReg p (Suc pos)) s)" by (intro lm_inv_goto) simp_all
    with RegSkip more show ?thesis by (simp add: lm_regist_def Let_def)
  next
    case (RegAdd ope)
    with R have "lm_adding pos ope (task_key ?item) ?t" by simp
    with inv own pc have "lm_inv c (lm_goto w (LAdd p pos ope (task_key ?item)) s)" by (intro lm_inv_goto) simp_all
    with RegAdd more show ?thesis by (simp add: lm_regist_def Let_def)
  next
    case RegUpgrade
    let ?t' = "?t\<lparr>future_lock := upgrade_future (task_key ?item) (future_lock ?t)\<rparr>"
    from RegUpgrade R have wf': "lm_reg (Suc pos) ?t'" by simp
    have "lm_inv c (lm_upd w ?t' (LReg p (Suc pos)) s)"
      by (rule lm_inv_local [OF inv, where t' = ?t' and pc' = "LReg p (Suc pos)" and w = w])
        (use wf' own pc in \<open>simp_all add: lm_same_def lm_waits_def lm_word_def fun_eq_iff lm_own_def\<close>)
    with RegUpgrade more show ?thesis by (simp add: lm_regist_def Let_def)
  qed
qed

lemma lm_inv_add_lock:
  assumes inv: "lm_inv c s" and pc: "lm_pcs s w = LAdd p pos ope k"
  shows "lm_inv c (lm_add_lock w p pos ope k s)"
proof (cases "w_acq (lock_for_lock (lm_table s k))")
  case None
  with inv show ?thesis by (simp add: lm_add_lock_def)
next
  case (Some v)
  have "lm_inv c ((lm_goto w (LPush p pos ope k) s)\<lparr>lm_table := set_lfl k v (lm_table s)\<rparr>)"
    by (rule lm_inv_local [OF inv, where t' = "lm_txs s w" and pc' = "LPush p pos ope k" and w = w])
      (use linv_wf [OF inv, of w] linv_link [OF inv, of w] pc in \<open>simp_all add: lm_same_lfl\<close>)
  with Some show ?thesis by (simp add: lm_add_lock_def)
qed

lemma lm_inv_add_unlock:
  assumes inv: "lm_inv c s" and pc: "lm_pcs s w = LAddUnl p pos ope k"
  shows "lm_inv c (lm_add_unlock w p pos ope k s)"
proof -
  let ?t = "lm_txs s w"
  let ?t' = "?t\<lparr>future_lock := future_lock ?t @ [Task ope k]\<rparr>"
  have wf: "lm_reg (Suc pos) ?t'" using linv_wf [OF inv, of w] pc by (simp add: lm_added_wf)
  have own: "lm_own s ?t p {} {} (insert k (lm_futs ?t)) False" "Suc p = tx_counter s"
    using linv_link [OF inv, of w] pc by simp_all
  have "lm_own s ?t' p {} {} (lm_futs ?t') False" by (rule lm_own_futs [OF own(1)]) (simp_all add: Task_def)
  then show ?thesis unfolding lm_add_unlock_def Let_def
    by (intro lm_inv_local [OF inv, where t' = ?t' and pc' = "LReg p (Suc pos)" and w = w])
      (use wf own pc in \<open>simp_all add: lm_same_lfl\<close>)
qed

lemma lm_inv_scan:
  assumes inv: "lm_inv c s" and pc: "lm_pcs s w = LScan p i"
  shows "lm_inv c (lm_scan w p i s)"
proof -
  let ?t = "lm_txs s w"
  have wf: "lm_full ?t" and own: "lm_own s ?t p (lm_locked ?t) {} (lm_futs ?t) False"
    using linv_wf [OF inv, of w] linv_link [OF inv, of w] pc by simp_all
  have scan: "lm_inv c (lm_goto w (LScan p j) s)" for j
    using wf own pc by (intro lm_inv_goto [OF inv]) simp_all
  have run: "lm_inv c (lm_goto w (LRun p (task_set ?t)) s)" if "future_lock ?t = []"
    using wf own pc that by (intro lm_inv_goto [OF inv]) simp_all
  have hd: "lm_inv c (lm_goto w (LTry p i) s)"
    if "i < length (future_lock ?t)" "wait_list (lm_table s (task_key (future_lock ?t ! i))) = p # xs" for xs
    using wf own pc that by (intro lm_inv_goto [OF inv]) (simp_all add: lm_head_def lm_waits_def)
  show ?thesis using scan run hd
    unfolding lm_scan_def Let_def by (auto split: list.split)
qed

lemma lm_inv_try:
  assumes inv: "lm_inv c s" and pc: "lm_pcs s w = LTry p i"
  shows "lm_inv c (lm_try w p i s)"
proof -
  let ?t = "lm_txs s w" and ?k = "task_key (future_lock (lm_txs s w) ! i)"
  have wf: "lm_full ?t" "i < length (future_lock ?t)"
    and own: "lm_own s ?t p (lm_locked ?t) {} (lm_futs ?t) False" "lm_head s ?t p i"
    using linv_wf [OF inv, of w] linv_link [OF inv, of w] pc by simp_all
  show ?thesis
  proof (cases "w_acq (lock_for_lock (lm_table s ?k))")
    case None
    have "lm_inv c (lm_goto w (LScan p (Suc i)) s)"
      using wf own pc by (intro lm_inv_goto [OF inv]) simp_all
    with None show ?thesis by (simp add: lm_try_def Let_def)
  next
    case (Some v)
    have "lm_inv c ((lm_goto w (LGrab p i) s)\<lparr>lm_table := set_lfl ?k v (lm_table s)\<rparr>)"
      by (rule lm_inv_local [OF inv, where t' = ?t and pc' = "LGrab p i" and w = w])
        (use wf own pc in \<open>simp_all add: lm_same_lfl\<close>)
    with Some show ?thesis by (simp add: lm_try_def Let_def)
  qed
qed

lemma lm_inv_lfl:
  assumes inv: "lm_inv c s" and pc: "lm_pcs s w = LLfl p i k"
  shows "lm_inv c ((lm_goto w (LScan p i) s)
    \<lparr>lm_table := set_lfl k (w_rel (lock_for_lock (lm_table s k))) (lm_table s)\<rparr>)"
  by (rule lm_inv_local [OF inv, where t' = "lm_txs s w" and pc' = "LScan p i" and w = w])
    (use linv_wf [OF inv, of w] linv_link [OF inv, of w] pc in \<open>simp_all add: lm_same_lfl\<close>)

lemma lm_full_set [simp]:
  "lm_lists (sa_read k v t) a = lm_lists t a" "lm_lists (sa_write k t) a = lm_lists t a"
  "future_lock (sa_read k v t) = future_lock t" "future_lock (sa_write k t) = future_lock t"
  "task_set (sa_read k v t) = task_set t" "task_set (sa_write k t) = task_set t"
  "r_lock_list (sa_read k v t) = r_lock_list t" "r_lock_list (sa_write k t) = r_lock_list t"
  "w_lock_list (sa_read k v t) = w_lock_list t" "w_lock_list (sa_write k t) = w_lock_list t"
  by (simp_all add: lm_lists_def lm_keys_def mode_of_def fun_eq_iff sa_read_def sa_write_def)

lemma lm_inv_exec:
  assumes inv: "lm_inv c s" and pc: "lm_pcs s w = LRun p (task # rest)"
  shows "lm_inv c (lm_exec w p task rest s)"
proof -
  let ?t = "lm_txs s w"
  have wf: "lm_full ?t" "future_lock ?t = []" "set rest \<subseteq> set (task_set ?t)"
    and own: "lm_own s ?t p (lm_locked ?t) {} {} False"
    using linv_wf [OF inv, of w] linv_link [OF inv, of w] pc by simp_all
  have step: "lm_inv c s'" if "lm_pcs s' = (lm_pcs s)(w := LRun p rest)" "lm_txs s' = (lm_txs s)(w := t')"
    "lm_same s s'" "giant_lock s' = giant_lock s" "t' = ?t \<or> t' = sa_read k v ?t \<or> t' = sa_write k ?t" for s' t' k v
    by (rule lm_inv_local [OF inv that(1,2,3,4)]) (use that(5) wf own pc in \<open>auto simp: lm_own_def\<close>)
  show ?thesis
  proof (cases "task_ope task")
    case OpRead
    then show ?thesis unfolding lm_exec_def Let_def
      by (auto intro!: step simp: lm_same_def lm_waits_def lm_word_def fun_eq_iff)
  next
    case OpWrite
    then show ?thesis unfolding lm_exec_def Let_def
      by (auto intro!: step simp: lm_same_def lm_waits_def lm_word_def fun_eq_iff)
  next
    case OpSleep
    have "lm_inv c (lm_goto w (LRun p rest) s)"
      using wf own pc by (intro lm_inv_goto [OF inv]) simp_all
    with OpSleep show ?thesis by (simp add: lm_exec_def)
  qed
qed

section \<open>The giant lock\<close>

lemma lm_giant_acq:
  assumes "lm_giant s" "w_acq (giant_lock s) = Some g" "giant_lock s' = g"
    "lm_pcs s' = (lm_pcs s)(w := pc')"
  shows "lm_giant s'"
proof -
  obtain G where G: "held ctr_rep (giant_lock s) {} G" "{w. lm_giants (lm_pcs s w)} \<subseteq> G"
    using assms(1) unfolding lm_giant_def by blast
  from rwl.held_wtry [OF G(1) assms(2), of w] have "held ctr_rep g {} {w}" "G = {}" by simp_all
  with G(2) assms(3,4) show ?thesis unfolding lm_giant_def by (intro exI [of _ "{w}"]) auto
qed

lemma lm_giant_rel:
  assumes "lm_giant s" "lm_giants (lm_pcs s w)" "giant_lock s' = w_rel (giant_lock s)"
    "lm_pcs s' = (lm_pcs s)(w := pc')" "\<not> lm_giants pc'"
  shows "lm_giant s'"
proof -
  obtain G where G: "held ctr_rep (giant_lock s) {} G" "{w. lm_giants (lm_pcs s w)} \<subseteq> G"
    using assms(1) unfolding lm_giant_def by blast
  with assms(2) have w: "w \<in> G" by auto
  from rwl.held_excl [OF G(1) w] have "G = {w}" by simp
  with G rwl.held_wunl [OF G(1) w] assms(3-5) show ?thesis
    unfolding lm_giant_def by (intro exI [of _ "{}"]) auto
qed

lemma lm_inv_giant:
  assumes inv: "lm_inv c s" and s': "s' = (lm_goto w pc' s)\<lparr>giant_lock := g\<rparr>"
    and giant: "lm_giant s'"
    and pc: "lm_id pc' = lm_id (lm_pcs s w)" "lm_regs pc' = lm_regs (lm_pcs s w)"
    and new: "lm_wf_pc (lm_txs s w) pc'" "lm_link s (lm_txs s w) pc'"
  shows "lm_inv c s'"
proof -
  have p: "lm_pcs s' = (lm_pcs s)(w := pc')" "lm_txs s' = (lm_txs s)(w := lm_txs s w)" and same: "lm_same s s'"
    by (simp_all add: s' lm_same_def lm_waits_def lm_word_def fun_eq_iff)
  have ctr: "tx_counter s' = tx_counter s" by (simp add: s')
  show ?thesis
  proof (rule lm_inv_step [OF inv p])
    show "lm_id (lm_pcs s v) \<noteq> Some q" if "v \<noteq> w" "lm_id pc' = Some q" for v q
      using linv_id [OF inv, of v q w] that pc(1) by auto
    show "lm_alike {} s s'" by (rule lm_same_alike [OF same])
    show "lm_link s' (lm_txs s w) pc'"
      by (rule lm_link_alike [OF lm_same_alike [OF same] _ _ _ new(2)]) (simp_all add: ctr)
    show "lm_queue s'" "lm_locks s'" "lm_fresh s'" using linv [OF inv] lm_same_inv [OF same] by simp_all
    show "lm_cover s'"
      by (rule lm_cover_same [OF linv(6) [OF inv] p(1) _ _ _ pc]) (use same in \<open>simp_all add: lm_same_def\<close>)
    show "lm_owned (lm_workers c) s'"
      by (rule lm_owned_same [OF linv(9) [OF inv] p(1) _ _ pc(1)]) (use same in \<open>auto simp: lm_same_def\<close>)
  qed (use ctr new giant in simp_all)
qed

text \<open>The end of the registration: every task is covered.\<close>

lemma lm_reg_end:
  assumes "lm_reg pos t" "\<not> pos < length (task_set t)"
  shows "lm_full t" "lm_locked t = {}" "access_of (task_set t) k \<noteq> None \<Longrightarrow> k \<in> lm_futs t"
proof -
  have "pos = length (task_set t)" using assms by (simp add: lm_reg_def)
  with assms(1) have *: "lm_full t" "r_lock_list t = []" "w_lock_list t = []" by (simp_all add: lm_reg_def)
  then show "lm_full t" "lm_locked t = {}" by simp_all
  show "access_of (task_set t) k \<noteq> None \<Longrightarrow> k \<in> lm_futs t"
    using * mode_of_keys [of t k] by (simp add: lm_lists_def lm_keys_def)
qed

lemma lm_inv_reg_end:
  assumes inv: "lm_inv c s" and pc: "lm_pcs s w = LReg p pos"
    and more: "\<not> pos < length (task_set (lm_txs s w))"
  shows "lm_inv c (lm_goto w (LGiantUnl p) s)" (is "lm_inv c ?s")
proof -
  let ?t = "lm_txs s w"
  have wf: "lm_reg pos ?t" using linv_wf [OF inv, of w] pc by simp
  note E = lm_reg_end [OF wf more]
  have own: "lm_own s ?t p {} {} (lm_futs ?t) False"
    using linv_link [OF inv, of w] pc by simp_all
  have own': "lm_own s ?t p (lm_locked ?t) {} (lm_futs ?t) False" using own unfolding E(2) .
  have p: "lm_pcs ?s = (lm_pcs s)(w := LGiantUnl p)" "lm_txs ?s = (lm_txs s)(w := ?t)" and same: "lm_same s ?s"
    by simp_all
  show ?thesis
  proof (rule lm_inv_step [OF inv p])
    show "lm_id (lm_pcs s v) \<noteq> Some q" if "v \<noteq> w" "lm_id (LGiantUnl p) = Some q" for v q
      using linv_id [OF inv, of v q w] that pc by auto
    show "lm_alike {} s ?s" by (rule lm_same_alike [OF same])
    show "lm_link ?s ?t (LGiantUnl p)"
      by (rule lm_link_alike [OF lm_same_alike [OF same]]) (use own' in simp_all)
    show "lm_queue ?s" "lm_locks ?s" "lm_fresh ?s" using linv [OF inv] lm_same_inv [OF same] by simp_all
    show "lm_giant ?s" by (rule lm_giant_same [OF linv(2) [OF inv] _ p(1)]) (simp_all add: pc)
    show "lm_cover ?s"
      unfolding lm_cover_def
    proof (intro allI impI)
      fix q k assume q: "q < tx_counter ?s" "g_acc ?s q k \<noteq> None"
      have w: "k \<in> g_got s q \<or> q \<in> set (lm_waits s k) \<or> (\<exists>v. lm_id (lm_pcs s v) = Some q \<and> lm_regs (lm_pcs s v))"
        using linv(6) [OF inv] q by (simp add: lm_cover_def)
      show "k \<in> g_got ?s q \<or> q \<in> set (lm_waits ?s k) \<or> (\<exists>v. lm_id (lm_pcs ?s v) = Some q \<and> lm_regs (lm_pcs ?s v))"
      proof (cases "q = p")
        case True
        with q own E(3) [of k] have "k \<in> lm_futs ?t" by (simp add: lm_own_def)
        with own have "p \<in> set (lm_waits s k)" by (simp add: lm_own_def)
        with True show ?thesis by (simp add: lm_waits_def)
      next
        case False
        with w pc lm_regs_other [of "lm_pcs s" q w "LGiantUnl p"] show ?thesis
          by (auto simp: lm_waits_def simp del: fun_upd_apply)
      qed
    qed
    show "lm_owned (lm_workers c) ?s"
      by (rule lm_owned_same [OF linv(9) [OF inv] p(1)]) (auto simp: pc lm_waits_def)
  qed (use E in simp_all)
qed

text \<open>A new transaction number.\<close>

lemma lm_inv_take:
  assumes inv: "lm_inv c s" and pc: "lm_pcs s w = LTake p" and keys: "small_keys (lm_pre c p)"
  shows "lm_inv c (lm_step c w s)" (is "lm_inv c ?s")
proof -
  let ?t = "sa_begin ((lm_txs s w)\<lparr>task_set := lm_pre c p\<rparr>)"
  have ctr: "p = tx_counter s" using linv_link [OF inv, of w] pc by simp
  have idle: "lm_idle (lm_txs s w)" using linv_wf [OF inv, of w] pc by simp
  have p: "lm_pcs ?s = (lm_pcs s)(w := LReg p 0)" "lm_txs ?s = (lm_txs s)(w := ?t)"
    and ctr': "tx_counter ?s = Suc p"
    and g: "g_acc ?s = (g_acc s)(p := access_of (lm_pre c p))" "g_got ?s = (g_got s)(p := {})"
      "g_rel ?s = g_rel s" "g_com ?s = g_com s" "lm_waits ?s = lm_waits s" "lm_word ?s = lm_word s"
      "giant_lock ?s = giant_lock s"
    by (simp_all add: lm_step_def pc Let_def lm_waits_def lm_word_def fun_eq_iff)
  have fresh: "g_rel s p = {}" "p \<notin> lm_coms s" using linv(8) [OF inv] ctr by (simp_all add: lm_fresh_def)
  have nw: "p \<notin> set (lm_waits s k)" for k using linv(5) [OF inv] ctr by (auto simp: lm_queue_def)
  have other: "q \<noteq> p" if "lm_id (lm_pcs s v) = Some q" for v q
    using lm_link_less [OF linv_link [OF inv] that] ctr by simp
  have cases: "q < Suc p \<longleftrightarrow> q < tx_counter s \<or> q = p" for q using ctr by auto
  show ?thesis
  proof (rule lm_inv_step [OF inv p])
    show "lm_id (lm_pcs s v) \<noteq> Some q" if "v \<noteq> w" "lm_id (LReg p 0) = Some q" for v q
      using other that by auto
    show "lm_alike {p} s ?s" by (simp add: lm_alike_def g)
    show "q \<notin> {p}" if "v \<noteq> w" "lm_id (lm_pcs s v) = Some q" for v q using other that by auto
    show "lm_wf_pc ?t (LReg p 0)"
      using idle keys by (auto simp: lm_reg_def lm_idle_def lm_lists_def lm_keys_def mode_of_def access_of_def
          sa_begin_def fun_eq_iff)
    show "lm_link ?s ?t (LReg p 0)"
      using idle fresh nw by (simp add: lm_own_def g ctr' sa_begin_def lm_idle_def)
    show "lm_giant ?s" by (rule lm_giant_same [OF linv(2) [OF inv] g(7) p(1)]) (simp add: pc)
    show "lm_queue ?s" using linv(5) [OF inv] unfolding lm_queue_def g ctr' cases by auto
    show "lm_cover ?s"
      unfolding lm_cover_def ctr' cases
    proof (intro allI impI)
      fix q k assume q: "q < tx_counter s \<or> q = p" "g_acc ?s q k \<noteq> None"
      show "k \<in> g_got ?s q \<or> q \<in> set (lm_waits ?s k) \<or> (\<exists>v. lm_id (lm_pcs ?s v) = Some q \<and> lm_regs (lm_pcs ?s v))"
      proof (cases "q = p")
        case True
        then show ?thesis by (auto simp: p intro!: exI [of _ w])
      next
        case False
        with q have "q < tx_counter s" "g_acc s q k \<noteq> None" by (simp_all add: g)
        with linv(6) [OF inv] have "k \<in> g_got s q \<or> q \<in> set (lm_waits s k) \<or>
            (\<exists>v. lm_id (lm_pcs s v) = Some q \<and> lm_regs (lm_pcs s v))" by (simp add: lm_cover_def)
        with pc lm_regs_other [of "lm_pcs s" q w "LReg p 0"] have "k \<in> g_got s q \<or> q \<in> set (lm_waits s k) \<or>
            (\<exists>v. lm_id (lm_pcs ?s v) = Some q \<and> lm_regs (lm_pcs ?s v))"
          unfolding p by (auto simp del: fun_upd_apply)
        with False show ?thesis by (simp add: g)
      qed
    qed
    have "lm_holders ?s b k = lm_holders s b k" for b k
      by (auto simp: lm_holders_def g ctr' cases ctr)
    then show "lm_locks ?s" using linv(7) [OF inv] by (simp add: lm_locks_def g)
    show "lm_fresh ?s" using linv(8) [OF inv] ctr by (simp add: lm_fresh_def g ctr')
    show "lm_owned (lm_workers c) ?s"
      unfolding lm_owned_def ctr' cases
    proof (intro allI impI)
      fix q k assume q: "q < tx_counter s \<or> q = p" "k \<in> g_got ?s q \<and> k \<notin> g_rel ?s q \<or> q \<in> set (lm_waits ?s k)"
      then have "q < tx_counter s" "k \<in> g_got s q \<and> k \<notin> g_rel s q \<or> q \<in> set (lm_waits s k)"
        using nw by (auto simp: g split: if_splits)
      with linv(9) [OF inv] obtain v where "v < lm_workers c" "lm_id (lm_pcs s v) = Some q"
        unfolding lm_owned_def by blast
      moreover from this pc have "v \<noteq> w" by auto
      ultimately show "\<exists>v < lm_workers c. lm_id (lm_pcs ?s v) = Some q" by (auto simp: p)
    qed
  qed (use ctr ctr' pc in simp_all)
qed

section \<open>The wait lists\<close>

lemma lm_inv_push:
  assumes inv: "lm_inv c s" and pc: "lm_pcs s w = LPush p pos ope k" and w: "w < lm_workers c"
  shows "lm_inv c (lm_add_push w p pos ope k s)" (is "lm_inv c ?s")
proof -
  let ?t = "lm_txs s w"
  have wf: "lm_adding pos ope k ?t" using linv_wf [OF inv, of w] pc by simp
  have own: "lm_own s ?t p {} {} (lm_futs ?t) False" and last: "Suc p = tx_counter s"
    using linv_link [OF inv, of w] pc by simp_all
  have "k \<notin> lm_futs ?t" using lm_added_wf(2) [OF wf] by (simp add: lm_keys_def)
  with own have new: "p \<notin> set (lm_waits s k)" by (simp add: lm_own_def)
  have p: "lm_pcs ?s = (lm_pcs s)(w := LAddUnl p pos ope k)" "lm_txs ?s = (lm_txs s)(w := ?t)"
    and g: "g_acc ?s = g_acc s" "g_got ?s = g_got s" "g_rel ?s = g_rel s" "g_com ?s = g_com s"
      "tx_counter ?s = tx_counter s" "lm_word ?s = lm_word s" "giant_lock ?s = giant_lock s"
    and waits: "\<And>j. lm_waits ?s j = (if j = k then lm_waits s k @ [p] else lm_waits s j)"
    by (simp_all add: lm_add_push_def lm_waits_def lm_word_def fun_eq_iff)
  have less: "q < p" if "q \<in> set (lm_waits s k)" for q
  proof -
    have "q < Suc p" using linv(5) [OF inv] that last by (simp add: lm_queue_def)
    moreover have "q \<noteq> p" using that new by auto
    ultimately show ?thesis by simp
  qed
  show ?thesis
  proof (rule lm_inv_step [OF inv p])
    show "lm_id (lm_pcs s v) \<noteq> Some q" if "v \<noteq> w" "lm_id (LAddUnl p pos ope k) = Some q" for v q
      using linv_id [OF inv, of v q w] that pc by auto
    show "lm_alike {p} s ?s" by (auto simp: lm_alike_def g waits)
    show "q \<notin> {p}" if "v \<noteq> w" "lm_id (lm_pcs s v) = Some q" for v q
      using linv_id [OF inv, of v q w] that pc by auto
    show "lm_link ?s ?t (LAddUnl p pos ope k)" using own last by (auto simp: lm_own_def g waits)
    show "lm_giant ?s" by (rule lm_giant_same [OF linv(2) [OF inv] g(7) p(1)]) (simp add: pc)
    have sorted: "sorted_wrt (<) (lm_waits ?s j)" for j
      using linv(5) [OF inv] less by (simp add: lm_queue_def waits sorted_wrt_append)
    have bound: "q < tx_counter s" if "q \<in> set (lm_waits ?s j)" for q j
    proof -
      have "q = p \<or> q \<in> set (lm_waits s j)" using that by (auto simp: waits split: if_splits)
      with linv(5) [OF inv] last show ?thesis by (auto simp: lm_queue_def)
    qed
    have front: "q \<le> r" if "q < tx_counter s" "j \<in> g_got s q" "r \<in> set (lm_waits ?s j)" for q r j
    proof -
      have "r = p \<or> r \<in> set (lm_waits s j)" using that by (auto simp: waits split: if_splits)
      with linv(5) [OF inv] last that show ?thesis by (auto simp: lm_queue_def)
    qed
    from sorted bound front show "lm_queue ?s" by (simp add: lm_queue_def g)
    show "lm_cover ?s"
      by (rule lm_cover_same [OF linv(6) [OF inv] p(1) g(5,1)]) (auto simp: g waits pc)
    show "lm_locks ?s" using linv(7) [OF inv] by (simp add: lm_locks_def lm_holders_def g)
    show "lm_fresh ?s" using linv(8) [OF inv] by (simp add: lm_fresh_def g)
    show "lm_owned (lm_workers c) ?s"
      by (rule lm_owned_same [OF linv(9) [OF inv] p(1) g(5)]) (use w in \<open>auto simp: g pc waits split: if_splits\<close>)
  qed (use g wf in simp_all)
qed

lemma lm_head_sorted:
  assumes "sorted_wrt (<) xs" "xs = p # ys" "(q :: nat) \<in> set xs"
  shows "p \<le> q" "q \<in> set ys \<Longrightarrow> p < q"
  using assms by auto

text \<open>The record taken off the list: it moves to the locks of the transaction.\<close>

lemma erase_at_keys:
  assumes "i < length xs"
  shows "mset xs = add_mset (xs ! i) (mset (erase_at i xs))"
  using assms by (metis add_mset_add_single erase_at_def id_take_nth_drop mset.simps(2) mset_append
      union_mset_add_mset_right)

lemma lm_erased_wf:
  assumes full: "lm_full t" and i: "i < length (future_lock t)"
    and t': "t' = t\<lparr>future_lock := erase_at i (future_lock t), r_lock_list := r, w_lock_list := v\<rparr>"
    and ope: "if task_ope (future_lock t ! i) = OpRead
      then r = r_lock_list t @ [task_key (future_lock t ! i)] \<and> v = w_lock_list t
      else r = r_lock_list t \<and> v = w_lock_list t @ [task_key (future_lock t ! i)]"
  shows "lm_full t'" "lm_locked t' = insert (task_key (future_lock t ! i)) (lm_locked t)"
    "lm_futs t' = lm_futs t - {task_key (future_lock t ! i)}"
proof -
  let ?f = "future_lock t ! i"
  have m: "mset (future_lock t) = add_mset ?f (mset (erase_at i (future_lock t)))"
    by (rule erase_at_keys [OF i])
  then have sets: "set (future_lock t) = insert ?f (set (erase_at i (future_lock t)))"
    by (metis set_mset_add_mset_insert set_mset_mset)
  have "mset (lm_keys t') = mset (lm_keys t)"
    using m ope by (auto simp: lm_keys_def t' split: if_splits)
  with full have dis: "distinct (lm_keys t')" by (metis lm_lists_def mset_eq_imp_distinct_iff)
  have nz: "task_ope ?f \<noteq> OpSleep" using full i by (simp add: lm_lists_def)
  have "mode_of t' = mode_of t"
  proof
    fix k
    show "mode_of t' k = mode_of t k"
      using ope nz unfolding mode_of_def t' sets
      by (cases "task_ope ?f") (auto split: if_splits)
  qed
  with full dis sets show "lm_full t'" by (auto simp: lm_lists_def t')
  show "lm_locked t' = insert (task_key ?f) (lm_locked t)" using ope by (auto simp: t' split: if_splits)
  have "task_key ?f \<notin> task_key ` set (erase_at i (future_lock t))"
    using dis ope by (auto simp: lm_keys_def t' split: if_splits)
  then show "lm_futs t' = lm_futs t - {task_key ?f}" using sets by (auto simp: t')
qed

lemma lm_inv_erase:
  assumes inv: "lm_inv c s" and pc: "lm_pcs s w = LErase p i"
  shows "lm_inv c (lm_erase w p i s)" (is "lm_inv c ?s")
proof -
  let ?t = "lm_txs s w" and ?k = "task_key (future_lock (lm_txs s w) ! i)"
  have wf: "lm_full ?t" "i < length (future_lock ?t)" using linv_wf [OF inv, of w] pc by simp_all
  have own: "lm_own s ?t p (insert ?k (lm_locked ?t)) {} (lm_futs ?t) False" and hd: "lm_head s ?t p i"
    using linv_link [OF inv, of w] pc by simp_all
  define t' where "t' = lm_txs ?s w"
  have t': "\<exists>r v. t' = ?t\<lparr>future_lock := erase_at i (future_lock ?t), r_lock_list := r, w_lock_list := v\<rparr> \<and>
     (if task_ope (future_lock ?t ! i) = OpRead
      then r = r_lock_list ?t @ [?k] \<and> v = w_lock_list ?t
      else r = r_lock_list ?t \<and> v = w_lock_list ?t @ [?k])"
    by (auto simp: t'_def lm_erase_def Let_def)
  then obtain r v where t': "t' = ?t\<lparr>future_lock := erase_at i (future_lock ?t), r_lock_list := r, w_lock_list := v\<rparr>"
    and rv: "if task_ope (future_lock ?t ! i) = OpRead
      then r = r_lock_list ?t @ [?k] \<and> v = w_lock_list ?t
      else r = r_lock_list ?t \<and> v = w_lock_list ?t @ [?k]" by blast
  note E = lm_erased_wf [OF wf t' rv]
  from hd obtain xs where xs: "lm_waits s ?k = p # xs" by (auto simp: lm_head_def)
  have p: "lm_pcs ?s = (lm_pcs s)(w := LLfl p i ?k)" "lm_txs ?s = (lm_txs s)(w := t')"
    and g: "g_acc ?s = g_acc s" "g_got ?s = g_got s" "g_rel ?s = g_rel s" "g_com ?s = g_com s"
      "tx_counter ?s = tx_counter s" "lm_word ?s = lm_word s" "giant_lock ?s = giant_lock s"
    and waits: "\<And>j. lm_waits ?s j = (if j = ?k then xs else lm_waits s j)"
    using xs by (simp_all add: t'_def lm_erase_def Let_def lm_waits_def lm_word_def fun_eq_iff)
  have sorted: "sorted_wrt (<) (p # xs)" using linv(5) [OF inv] xs by (metis lm_queue_def)
  then have np: "p \<notin> set xs" by auto
  have keep: "q \<in> set (lm_waits ?s j) \<longleftrightarrow> q \<in> set (lm_waits s j)" if "q \<noteq> p" for q j
    using that xs by (simp add: waits)
  have sub: "q \<in> set (lm_waits s j)" if "q \<in> set (lm_waits ?s j)" for q j
    using that xs by (auto simp: waits split: if_splits)
  have got: "?k \<in> g_got s p" using own by (simp add: lm_own_def)
  show ?thesis
  proof (rule lm_inv_step [OF inv p])
    show "lm_id (lm_pcs s v) \<noteq> Some q" if "v \<noteq> w" "lm_id (LLfl p i ?k) = Some q" for v q
      using linv_id [OF inv, of v q w] that pc by auto
    show "lm_alike {p} s ?s" using keep xs by (auto simp: lm_alike_def g waits)
    show "q \<notin> {p}" if "v \<noteq> w" "lm_id (lm_pcs s v) = Some q" for v q
      using linv_id [OF inv, of v q w] that pc by auto
    have ts: "task_set t' = task_set ?t" by (simp add: t')
    have "p \<in> set (lm_waits ?s j) \<longleftrightarrow> j \<in> lm_futs t'" for j
      using own np by (auto simp: waits lm_own_def E(3))
    with own E(2) ts show "lm_link ?s t' (LLfl p i ?k)" by (simp add: lm_own_def g)
    show "lm_giant ?s" by (rule lm_giant_same [OF linv(2) [OF inv] g(7) p(1)]) simp
    have "sorted_wrt (<) (lm_waits ?s j)" for j
      using linv(5) [OF inv] sorted by (simp add: lm_queue_def waits)
    with linv(5) [OF inv] sub show "lm_queue ?s" unfolding lm_queue_def g by blast
    show "lm_cover ?s"
    proof (rule lm_cover_same [OF linv(6) [OF inv] p(1) g(5,1)])
      show "j \<in> g_got ?s q \<or> q \<in> set (lm_waits ?s j)" if "j \<in> g_got s q \<or> q \<in> set (lm_waits s j)" for q j
        using that keep got xs by (cases "q = p") (auto simp: g waits)
    qed (simp_all add: pc)
    show "lm_locks ?s" using linv(7) [OF inv] by (simp add: lm_locks_def lm_holders_def g)
    show "lm_fresh ?s" using linv(8) [OF inv] by (simp add: lm_fresh_def g)
    show "lm_owned (lm_workers c) ?s"
      by (rule lm_owned_same [OF linv(9) [OF inv] p(1) g(5)]) (use sub in \<open>auto simp: g pc\<close>)
  qed (use g wf E in simp_all)
qed

section \<open>The locks\<close>

text \<open>The head of a wait list that gets the lock: every earlier conflicting transaction has released it.\<close>

lemma lm_head_clear:
  assumes inv: "lm_inv c s" and hd: "lm_waits s k = p # xs" and p: "p < tx_counter s"
    and q: "q < p" "g_acc s q k \<noteq> None"
  shows "k \<in> g_got s q"
proof -
  have sorted: "sorted_wrt (<) (p # xs)" using linv(5) [OF inv] hd by (metis lm_queue_def)
  then have "q \<notin> set (lm_waits s k)" using lm_head_sorted [OF sorted refl, of q] hd q by auto
  moreover have "\<not> lm_regs (lm_pcs s v)" if v: "lm_id (lm_pcs s v) = Some q" for v
  proof
    assume "lm_regs (lm_pcs s v)"
    then have "Suc q = tx_counter s" using linv_link [OF inv, of v] v by (cases "lm_pcs s v") auto
    with p q show False by simp
  qed
  ultimately show ?thesis using linv(6) [OF inv] p q unfolding lm_cover_def by (meson less_trans)
qed

lemma lm_holders_owned:
  assumes inv: "lm_inv c s" and "p \<in> lm_holders s b k"
  shows "\<exists>w < lm_workers c. lm_id (lm_pcs s w) = Some p"
  using linv(9) [OF inv] assms(2) unfolding lm_holders_def lm_owned_def by blast

lemma lm_holders_card:
  assumes inv: "lm_inv c s" and w: "w < lm_workers c" "lm_id (lm_pcs s w) = Some p" "p \<notin> lm_holders s b k"
    and n: "lm_workers c \<le> 2 ^ 32 - 2"
  shows "card (lm_holders s b k) < 2 ^ 32 - 2"
proof -
  let ?f = "\<lambda>v. the (lm_id (lm_pcs s v))"
  have "lm_holders s b k \<subseteq> ?f ` ({..< lm_workers c} - {w})"
  proof
    fix q assume q: "q \<in> lm_holders s b k"
    with lm_holders_owned [OF inv] obtain v where v: "v < lm_workers c" "lm_id (lm_pcs s v) = Some q" by blast
    with q w have "v \<noteq> w" by auto
    with v show "q \<in> ?f ` ({..< lm_workers c} - {w})" by (intro image_eqI [where x = v]) simp_all
  qed
  then have "card (lm_holders s b k) \<le> card (?f ` ({..< lm_workers c} - {w}))" by (rule card_mono [rotated]) simp
  also have "\<dots> \<le> card ({..< lm_workers c} - {w})" by (rule card_image_le) simp
  also have "\<dots> < card {..< lm_workers c}" by (rule psubset_card_mono) (use w in auto)
  finally show ?thesis using n by simp
qed

lemma lm_inv_grant:
  assumes inv: "lm_inv c s" and pc: "lm_pcs s w = LGrab p i" and w: "w < lm_workers c"
    and n: "lm_workers c \<le> 2 ^ 32 - 2"
    and k: "k = task_key (future_lock (lm_txs s w) ! i)"
    and acq: "(if g_acc s p k = Some False then r_acq (sa_lock (lm_table s k)) else w_acq (sa_lock (lm_table s k))) = Some v"
    and s': "s' = (lm_goto w (LErase p i) s)\<lparr>lm_table := set_sa_lock k v (lm_table s),
                  g_got := (g_got s)(p := insert k (g_got s p))\<rparr>"
  shows "lm_inv c s'"
    and "\<And>q. q < p \<Longrightarrow> conflict (g_acc s q) (g_acc s p) k \<Longrightarrow> k \<in> g_rel s q"
proof -
  let ?t = "lm_txs s w"
  have wf: "lm_full ?t" "i < length (future_lock ?t)" using linv_wf [OF inv, of w] pc by simp_all
  have own: "lm_own s ?t p (lm_locked ?t) {} (lm_futs ?t) False" and hd: "lm_head s ?t p i"
    using linv_link [OF inv, of w] pc by simp_all
  from hd k obtain xs where xs: "lm_waits s k = p # xs" by (auto simp: lm_head_def)
  have fut: "k \<in> lm_futs ?t" using k wf by simp
  then have nl: "k \<notin> lm_locked ?t" using wf by (auto simp: lm_lists_def lm_keys_def)
  have acc: "g_acc s p k = Some False \<or> g_acc s p k = Some True"
  proof -
    have "mode_of ?t k \<noteq> None" using fut wf mode_of_None [of ?t k] by (auto simp: lm_lists_def lm_keys_def)
    then have "g_acc s p k \<noteq> None" using own wf by (simp add: lm_own_def lm_lists_def)
    then show ?thesis by (metis (full_types) not_None_eq)
  qed
  have ctr: "p < tx_counter s" and ng: "k \<notin> g_got s p" "g_rel s p = {}" using own nl by (simp_all add: lm_own_def)
  have p: "lm_pcs s' = (lm_pcs s)(w := LErase p i)" "lm_txs s' = (lm_txs s)(w := ?t)"
    and g: "g_acc s' = g_acc s" "g_got s' = (g_got s)(p := insert k (g_got s p))" "g_rel s' = g_rel s"
      "g_com s' = g_com s" "tx_counter s' = tx_counter s" "giant_lock s' = giant_lock s" "lm_waits s' = lm_waits s"
    and word: "\<And>j. lm_word s' j = (if j = k then v else lm_word s j)"
    by (simp_all add: s' lm_waits_def lm_word_def fun_eq_iff)
  have held: "held ctr_rep (lm_word s k) (lm_holders s False k) (lm_holders s True k)"
    using linv(7) [OF inv] by (simp add: lm_locks_def)
  have np: "p \<notin> lm_holders s b k" for b using ng by (simp add: lm_holders_def)
  have holders: "lm_holders s' b j = (if j = k \<and> g_acc s p k = Some b then insert p (lm_holders s b k) else lm_holders s b j)" for b j
    using ctr ng by (auto simp: lm_holders_def g)
  have new: "held ctr_rep v (lm_holders s' False k) (lm_holders s' True k)"
    and free: "lm_holders s True k = {}" "g_acc s p k = Some True \<Longrightarrow> lm_holders s False k = {}"
  proof -
    have "held ctr_rep v (lm_holders s' False k) (lm_holders s' True k) \<and> lm_holders s True k = {} \<and>
      (g_acc s p k = Some True \<longrightarrow> lm_holders s False k = {})"
    proof (cases "g_acc s p k = Some False")
      case True
      with acq have a: "r_acq (lm_word s k) = Some v" by (simp add: lm_word_def)
      have "card (lm_holders s False k) < 2 ^ 32 - 2"
        by (rule lm_holders_card [OF inv w _ np n]) (simp add: pc)
      from rwl.held_rtry [OF held a np this] True show ?thesis unfolding holders by auto
    next
      case False
      with acc have T: "g_acc s p k = Some True" by simp
      with acq have a: "w_acq (lm_word s k) = Some v" by (simp add: lm_word_def)
      from rwl.held_wtry [OF held a, of p] T show ?thesis unfolding holders by auto
    qed
    then show "held ctr_rep v (lm_holders s' False k) (lm_holders s' True k)" "lm_holders s True k = {}"
      "g_acc s p k = Some True \<Longrightarrow> lm_holders s False k = {}" by simp_all
  qed
  show "k \<in> g_rel s q" if q: "q < p" and cf: "conflict (g_acc s q) (g_acc s p) k" for q
  proof (rule ccontr)
    assume r: "k \<notin> g_rel s q"
    from cf have qa: "g_acc s q k \<noteq> None" by (simp add: conflict_def)
    have "k \<in> g_got s q" by (rule lm_head_clear [OF inv xs ctr q qa])
    with r q ctr have h: "q \<in> lm_holders s (the (g_acc s q k)) k" using qa by (auto simp: lm_holders_def)
    show False
      using cf h free qa by (cases "the (g_acc s q k)") (auto simp: conflict_def)
  qed
  show "lm_inv c s'"
  proof (rule lm_inv_step [OF inv p])
    show "lm_id (lm_pcs s u) \<noteq> Some q" if "u \<noteq> w" "lm_id (LErase p i) = Some q" for u q
      using linv_id [OF inv, of u q w] that pc by auto
    show "lm_alike {p} s s'" by (simp add: lm_alike_def g)
    show "q \<notin> {p}" if "u \<noteq> w" "lm_id (lm_pcs s u) = Some q" for u q
      using linv_id [OF inv, of u q w] that pc by auto
    show "lm_link s' ?t (LErase p i)" using own hd k by (simp add: lm_own_def lm_head_def g)
    show "lm_giant s'" by (rule lm_giant_same [OF linv(2) [OF inv] g(6) p(1)]) simp
    have sorted: "sorted_wrt (<) (p # xs)" using linv(5) [OF inv] xs by (metis lm_queue_def)
    have "q \<le> r" if "q < tx_counter s" "j \<in> g_got s' q" "r \<in> set (lm_waits s j)" for q r j
    proof (cases "q = p \<and> j = k")
      case True
      with that sorted xs show ?thesis using lm_head_sorted(1) [OF sorted refl, of r] by simp
    next
      case False
      with that have "j \<in> g_got s q" by (auto simp: g split: if_splits)
      with that linv(5) [OF inv] show ?thesis by (simp add: lm_queue_def)
    qed
    with linv(5) [OF inv] show "lm_queue s'" by (simp add: lm_queue_def g(5,7))
    show "lm_cover s'" by (rule lm_cover_same [OF linv(6) [OF inv] p(1) g(5,1)]) (auto simp: g pc)
    have "held ctr_rep (lm_word s' j) (lm_holders s' False j) (lm_holders s' True j)" for j
      using linv(7) [OF inv] new by (cases "j = k") (simp_all add: lm_locks_def holders word)
    then show "lm_locks s'" by (simp add: lm_locks_def)
    show "lm_fresh s'" using linv(8) [OF inv] by (simp add: lm_fresh_def g)
    show "lm_owned (lm_workers c) s'"
      by (rule lm_owned_same [OF linv(9) [OF inv] p(1) g(5)]) (use w in \<open>auto simp: g pc split: if_splits\<close>)
  qed (use g wf in simp_all)
qed

lemma lm_fut_mode:
  assumes "lm_full t" "f \<in> set (future_lock t)"
  shows "access_of (task_set t) (task_key f) = Some (task_ope f = OpWrite)" "task_ope f \<noteq> OpSleep"
proof -
  show nz: "task_ope f \<noteq> OpSleep" using assms by (simp add: lm_lists_def)
  have dis: "distinct (map task_key (future_lock t))" "task_key f \<notin> lm_locked t"
    using assms by (auto simp: lm_lists_def lm_keys_def)
  have uniq: "(\<exists>g \<in> set (future_lock t). task_ope g = x \<and> task_key g = task_key f) \<longleftrightarrow> task_ope f = x" for x
    using dis(1) assms(2) by (auto simp: distinct_map inj_on_def)
  have "mode_of t (task_key f) = Some (task_ope f = OpWrite)"
    using dis(2) nz unfolding mode_of_def uniq by (cases "task_ope f") auto
  then show "access_of (task_set t) (task_key f) = Some (task_ope f = OpWrite)"
    using assms by (simp add: lm_lists_def)
qed

lemma lm_inv_grab:
  assumes inv: "lm_inv c s" and pc: "lm_pcs s w = LGrab p i" and w: "w < lm_workers c"
    and n: "lm_workers c \<le> 2 ^ 32 - 2"
  shows "lm_inv c (lm_grab w p i s)"
proof -
  let ?t = "lm_txs s w" and ?item = "future_lock (lm_txs s w) ! i"
  have wf: "lm_full ?t" "i < length (future_lock ?t)" using linv_wf [OF inv, of w] pc by simp_all
  have own: "lm_own s ?t p (lm_locked ?t) {} (lm_futs ?t) False"
    using linv_link [OF inv, of w] pc by simp_all
  note M = lm_fut_mode [OF wf(1) nth_mem [OF wf(2)]]
  have acc: "g_acc s p (task_key ?item) = Some (task_ope ?item = OpWrite)" using M own by (simp add: lm_own_def)
  have fail: "lm_inv c (lm_goto w (LLfl p (Suc i) k) s)" for k
    using wf own pc by (intro lm_inv_goto [OF inv]) simp_all
  have ope: "task_ope ?item = OpRead \<or> task_ope ?item = OpWrite" using M(2) by (cases "task_ope ?item") auto
  show ?thesis
    using ope fail acc lm_inv_grant(1) [OF inv pc w n refl _ refl]
    unfolding lm_grab_def Let_def by (auto split: option.split)
qed

section \<open>Commit and release\<close>

lemma lm_inv_commit:
  assumes inv: "lm_inv c s" and pc: "lm_pcs s w = LRun p []"
  shows "lm_inv c (lm_commit w p s)" (is "lm_inv c ?s")
proof -
  let ?t = "lm_txs s w"
  have wf: "lm_full ?t" "future_lock ?t = []" using linv_wf [OF inv, of w] pc by simp_all
  have own: "lm_own s ?t p (lm_locked ?t) {} {} False" using linv_link [OF inv, of w] pc by simp
  have dis: "distinct (r_lock_list ?t)" using wf by (simp add: lm_lists_def lm_keys_def)
  have p: "lm_pcs ?s = (lm_pcs s)(w := LUnlR p (r_lock_list ?t))" "lm_txs ?s = (lm_txs s)(w := ?t)"
    and g: "g_acc ?s = g_acc s" "g_got ?s = g_got s" "g_rel ?s = g_rel s" "lm_coms ?s = insert p (lm_coms s)"
      "tx_counter ?s = tx_counter s" "giant_lock ?s = giant_lock s" "lm_waits ?s = lm_waits s" "lm_word ?s = lm_word s"
    by (auto simp: lm_commit_def lm_waits_def lm_word_def fun_eq_iff)
  show ?thesis
  proof (rule lm_inv_step [OF inv p])
    show "lm_id (lm_pcs s u) \<noteq> Some q" if "u \<noteq> w" "lm_id (LUnlR p (r_lock_list ?t)) = Some q" for u q
      using linv_id [OF inv, of u q w] that pc by auto
    show "lm_alike {p} s ?s" by (simp add: lm_alike_def g)
    show "q \<notin> {p}" if "u \<noteq> w" "lm_id (lm_pcs s u) = Some q" for u q
      using linv_id [OF inv, of u q w] that pc by auto
    show "lm_link ?s ?t (LUnlR p (r_lock_list ?t))" using own by (simp add: lm_own_def g)
    show "lm_giant ?s" by (rule lm_giant_same [OF linv(2) [OF inv] g(6) p(1)]) simp
    show "lm_queue ?s" "lm_locks ?s"
      using linv(5,7) [OF inv] by (simp_all add: lm_queue_def lm_locks_def lm_holders_def g)
    show "lm_cover ?s" by (rule lm_cover_same [OF linv(6) [OF inv] p(1) g(5,1)]) (auto simp: g pc)
    have "p < tx_counter s" using own by (simp add: lm_own_def)
    then show "lm_fresh ?s" using linv(8) [OF inv] by (simp add: lm_fresh_def g)
    show "lm_owned (lm_workers c) ?s"
      by (rule lm_owned_same [OF linv(9) [OF inv] p(1) g(5)]) (auto simp: g pc)
  qed (use g wf dis in simp_all)
qed

lemma lm_inv_release:
  assumes inv: "lm_inv c s" and id: "lm_id (lm_pcs s w) = Some p" "lm_id pc' = Some p"
    and regs: "\<not> lm_regs (lm_pcs s w)" "\<not> lm_regs pc'" "\<not> lm_giants pc'"
    and own: "lm_own s (lm_txs s w) p G L {} True" and k: "k \<in> G" "k \<notin> L"
    and rel: "g_acc s p k = Some False \<and> rel = r_rel \<or> g_acc s p k = Some True \<and> rel = w_rel"
    and new: "lm_wf_pc (lm_txs s w) pc'"
      "\<And>u. lm_own u (lm_txs s w) p G (insert k L) {} True \<Longrightarrow> lm_link u (lm_txs s w) pc'"
  shows "lm_inv c (lm_release w rel k pc' p s)" (is "lm_inv c ?s")
proof -
  let ?t = "lm_txs s w"
  have p: "lm_pcs ?s = (lm_pcs s)(w := pc')" "lm_txs ?s = (lm_txs s)(w := ?t)"
    and g: "g_acc ?s = g_acc s" "g_got ?s = g_got s" "g_rel ?s = (g_rel s)(p := insert k (g_rel s p))"
      "g_com ?s = g_com s" "tx_counter ?s = tx_counter s" "giant_lock ?s = giant_lock s" "lm_waits ?s = lm_waits s"
    and word: "\<And>j. lm_word ?s j = (if j = k then rel (lm_word s k) else lm_word s j)"
    by (simp_all add: lm_release_def lm_waits_def lm_word_def fun_eq_iff)
  have ctr: "p < tx_counter s" using own by (simp add: lm_own_def)
  have holders: "lm_holders ?s b j = (if j = k then lm_holders s b k - {p} else lm_holders s b j)" for b j
    by (auto simp: lm_holders_def g)
  have h: "p \<in> lm_holders s (g_acc s p k = Some True) k"
    using own k ctr rel by (auto simp: lm_holders_def lm_own_def)
  have held: "held ctr_rep (lm_word s k) (lm_holders s False k) (lm_holders s True k)"
    using linv(7) [OF inv] by (simp add: lm_locks_def)
  have new_held: "held ctr_rep (rel (lm_word s k)) (lm_holders s False k - {p}) (lm_holders s True k - {p})"
    using rel
  proof
    assume r: "g_acc s p k = Some False \<and> rel = r_rel"
    then have "p \<in> lm_holders s False k" "p \<notin> lm_holders s True k" using h by (simp_all add: lm_holders_def)
    with rwl.held_runl [OF held] r show ?thesis by simp
  next
    assume r: "g_acc s p k = Some True \<and> rel = w_rel"
    then have "p \<in> lm_holders s True k" "p \<notin> lm_holders s False k" using h by (simp_all add: lm_holders_def)
    then have "held ctr_rep (w_rel (lm_word s k)) (lm_holders s False k) (lm_holders s True k - {p})"
      "lm_holders s False k - {p} = lm_holders s False k" using rwl.held_wunl [OF held] by blast+
    with r show ?thesis by argo
  qed
  show ?thesis
  proof (rule lm_inv_step [OF inv p])
    show "lm_id (lm_pcs s u) \<noteq> Some q" if "u \<noteq> w" "lm_id pc' = Some q" for u q
      using linv_id [OF inv, of u q w] that id by auto
    show "lm_alike {p} s ?s" by (simp add: lm_alike_def g)
    show "q \<notin> {p}" if "u \<noteq> w" "lm_id (lm_pcs s u) = Some q" for u q
      using linv_id [OF inv, of u q w] that id by auto
    show "lm_link ?s ?t pc'" by (rule new(2)) (use own in \<open>simp add: lm_own_def g\<close>)
    show "lm_giant ?s" by (rule lm_giant_same [OF linv(2) [OF inv] g(6) p(1)]) (simp add: regs)
    show "lm_queue ?s" using linv(5) [OF inv] by (simp add: lm_queue_def g(2,5,7))
    have "held ctr_rep (lm_word ?s j) (lm_holders ?s False j) (lm_holders ?s True j)" for j
      using linv(7) [OF inv] new_held by (cases "j = k") (simp_all add: lm_locks_def holders word)
    then show "lm_locks ?s" by (simp add: lm_locks_def)
    show "lm_cover ?s" by (rule lm_cover_same [OF linv(6) [OF inv] p(1) g(5,1)]) (auto simp: g id regs)
    show "lm_fresh ?s" using linv(8) [OF inv] ctr by (simp add: lm_fresh_def g)
    show "lm_owned (lm_workers c) ?s"
      by (rule lm_owned_same [OF linv(9) [OF inv] p(1) g(5)]) (auto simp: g id split: if_splits)
  qed (use g new in simp_all)
qed

lemma lm_full_locked:
  assumes "lm_full t"
  shows "k \<in> set (r_lock_list t) \<Longrightarrow> access_of (task_set t) k = Some False \<and> k \<notin> set (w_lock_list t)"
    and "k \<in> set (w_lock_list t) \<Longrightarrow> access_of (task_set t) k = Some True \<and> k \<notin> set (r_lock_list t)"
proof -
  have "mode_of t k = access_of (task_set t) k" "distinct (lm_keys t)" using assms by (simp_all add: lm_lists_def)
  then show "k \<in> set (r_lock_list t) \<Longrightarrow> access_of (task_set t) k = Some False \<and> k \<notin> set (w_lock_list t)"
    "k \<in> set (w_lock_list t) \<Longrightarrow> access_of (task_set t) k = Some True \<and> k \<notin> set (r_lock_list t)"
    by (auto simp: mode_of_def lm_keys_def split: if_splits)
qed

lemma lm_inv_unlock_r:
  assumes inv: "lm_inv c s" and pc: "lm_pcs s w = LUnlR p (k # ks)"
  shows "lm_inv c (lm_release w r_rel k (LUnlR p ks) p s)"
proof -
  let ?t = "lm_txs s w"
  have wf: "lm_full ?t" "future_lock ?t = []" "distinct (k # ks)" "set (k # ks) \<subseteq> set (r_lock_list ?t)"
    using linv_wf [OF inv, of w] pc by simp_all
  have own: "lm_own s ?t p (lm_locked ?t) (set (r_lock_list ?t) - set (k # ks)) {} True"
    using linv_link [OF inv, of w] pc by simp
  have L: "insert k (set (r_lock_list ?t) - set (k # ks)) = set (r_lock_list ?t) - set ks" using wf by auto
  show ?thesis
    by (rule lm_inv_release [OF inv _ _ _ _ _ own])
      (use pc wf lm_full_locked(1) [OF wf(1), of k] own L in \<open>auto simp: lm_own_def\<close>)
qed

lemma lm_inv_unlock_w:
  assumes inv: "lm_inv c s" and pc: "lm_pcs s w = LUnlW p (k # ks)"
  shows "lm_inv c (lm_release w w_rel k (LUnlW p ks) p s)"
proof -
  let ?t = "lm_txs s w"
  have wf: "lm_full ?t" "future_lock ?t = []" "distinct (k # ks)" "set (k # ks) \<subseteq> set (w_lock_list ?t)"
    using linv_wf [OF inv, of w] pc by simp_all
  have own: "lm_own s ?t p (lm_locked ?t) (set (r_lock_list ?t) \<union> (set (w_lock_list ?t) - set (k # ks))) {} True"
    using linv_link [OF inv, of w] pc by simp
  have L: "insert k (set (r_lock_list ?t) \<union> (set (w_lock_list ?t) - set (k # ks))) =
      set (r_lock_list ?t) \<union> (set (w_lock_list ?t) - set ks)" using wf by auto
  show ?thesis
    by (rule lm_inv_release [OF inv _ _ _ _ _ own])
      (use pc wf lm_full_locked(2) [OF wf(1), of k] own L in \<open>auto simp: lm_own_def\<close>)
qed

text \<open>The worker leaves the transaction: everything it was granted is released.\<close>

lemma lm_inv_finish:
  assumes inv: "lm_inv c s" and pc: "lm_pcs s w = LUnlW p []"
    and s': "s' = (lm_upd w (sa_clear (lm_txs s w)) LGiant s)\<lparr>commit_cnt := n\<rparr>"
  shows "lm_inv c s'"
proof -
  let ?t = "lm_txs s w"
  have wf: "lm_full ?t" "future_lock ?t = []" using linv_wf [OF inv, of w] pc by simp_all
  have own: "lm_own s ?t p (lm_locked ?t) (lm_locked ?t) {} True"
    using linv_link [OF inv, of w] pc by simp
  have p: "lm_pcs s' = (lm_pcs s)(w := LGiant)" "lm_txs s' = (lm_txs s)(w := sa_clear ?t)"
    and same: "lm_same s s'" and giant: "giant_lock s' = giant_lock s"
    by (simp_all add: s' lm_same_def lm_waits_def lm_word_def fun_eq_iff)
  have g: "g_acc s' = g_acc s" "g_got s' = g_got s" "g_rel s' = g_rel s" "tx_counter s' = tx_counter s"
    "lm_waits s' = lm_waits s"
    using same by (simp_all add: lm_same_def)
  show ?thesis
  proof (rule lm_inv_step [OF inv p])
    show "lm_alike {} s s'" by (rule lm_same_alike [OF same])
    show "lm_giant s'" by (rule lm_giant_same [OF linv(2) [OF inv] giant p(1)]) simp
    show "lm_queue s'" "lm_locks s'" "lm_fresh s'" using linv [OF inv] lm_same_inv [OF same] by simp_all
    show "lm_cover s'"
      unfolding lm_cover_def g
    proof (intro allI impI)
      fix q k assume q: "q < tx_counter s" "g_acc s q k \<noteq> None"
      have "k \<in> g_got s q \<or> q \<in> set (lm_waits s k) \<or> (\<exists>v. lm_id (lm_pcs s v) = Some q \<and> lm_regs (lm_pcs s v))"
        using linv(6) [OF inv] q by (simp add: lm_cover_def)
      then show "k \<in> g_got s q \<or> q \<in> set (lm_waits s k) \<or> (\<exists>v. lm_id (lm_pcs s' v) = Some q \<and> lm_regs (lm_pcs s' v))"
        using lm_regs_other [of "lm_pcs s" q w LGiant] pc unfolding p by (auto simp del: fun_upd_apply)
    qed
    show "lm_owned (lm_workers c) s'"
      unfolding lm_owned_def g
    proof (intro allI impI)
      fix q k assume q: "q < tx_counter s" "k \<in> g_got s q \<and> k \<notin> g_rel s q \<or> q \<in> set (lm_waits s k)"
      then obtain v where v: "v < lm_workers c" "lm_id (lm_pcs s v) = Some q"
        using linv(9) [OF inv] unfolding lm_owned_def by blast
      have "q \<noteq> p" using own q by (auto simp: lm_own_def)
      with v pc have "v \<noteq> w" by auto
      with v show "\<exists>v < lm_workers c. lm_id (lm_pcs s' v) = Some q" by (auto simp: p)
    qed
  qed (use g wf in \<open>simp_all add: lm_idle_def sa_clear_def\<close>)
qed

section \<open>Every step\<close>

lemma lm_inv_lm_step:
  assumes inv: "lm_inv c s" and w: "w < lm_workers c" and n: "lm_workers c \<le> 2 ^ 32 - 2"
    and keys: "\<And>p. small_keys (lm_pre c p)"
  shows "lm_inv c (lm_step c w s)"
proof -
  note wf = linv_wf [OF inv, of w] and link = linv_link [OF inv, of w]
  show ?thesis
  proof (cases "lm_pcs s w")
    case LGiant
    have "lm_inv c (lm_goto w (if lm_quit s then LStop else LGiantTry) s)"
      using wf LGiant by (intro lm_inv_goto [OF inv]) simp_all
    with LGiant show ?thesis by (simp add: lm_step_def)
  next
    case LGiantTry
    show ?thesis
    proof (cases "w_acq (giant_lock s)")
      case None
      have "lm_inv c (lm_goto w LGiant s)" using wf LGiantTry by (intro lm_inv_goto [OF inv]) simp_all
      with LGiantTry None show ?thesis by (simp add: lm_step_def)
    next
      case (Some g)
      have "lm_inv c ((lm_goto w LFetch s)\<lparr>giant_lock := g\<rparr>)"
      proof (rule lm_inv_giant [OF inv refl])
        show "lm_giant ((lm_goto w LFetch s)\<lparr>giant_lock := g\<rparr>)"
          by (rule lm_giant_acq [OF linv(2) [OF inv] Some, where w = w and pc' = LFetch]) simp_all
      qed (use wf LGiantTry in simp_all)
      with LGiantTry Some show ?thesis by (simp add: lm_step_def)
    qed
  next
    case LFetch
    have "lm_inv c (lm_goto w LStop s)" "lm_inv c (lm_goto w (LTake (tx_counter s)) s)"
      using wf LFetch by (auto intro!: lm_inv_goto [OF inv])
    with LFetch show ?thesis by (simp add: lm_step_def)
  next
    case (LTake p)
    then show ?thesis by (rule lm_inv_take [OF inv _ keys])
  next
    case (LReg p pos)
    show ?thesis
    proof (cases "pos < length (task_set (lm_txs s w))")
      case True
      with lm_inv_reg [OF inv LReg] LReg show ?thesis by (simp add: lm_step_def)
    next
      case False
      with lm_inv_reg_end [OF inv LReg] LReg show ?thesis by (simp add: lm_step_def lm_regist_def Let_def)
    qed
  next
    case (LGiantUnl p)
    have "lm_inv c ((lm_goto w (LScan p 0) s)\<lparr>giant_lock := w_rel (giant_lock s)\<rparr>)"
    proof (rule lm_inv_giant [OF inv refl])
      show "lm_giant ((lm_goto w (LScan p 0) s)\<lparr>giant_lock := w_rel (giant_lock s)\<rparr>)"
        by (rule lm_giant_rel [OF linv(2) [OF inv], where w = w and pc' = "LScan p 0"]) (simp_all add: LGiantUnl)
    qed (use wf link LGiantUnl in simp_all)
    with LGiantUnl show ?thesis by (simp add: lm_step_def)
  next
    case (LRun p ts)
    then show ?thesis
      using lm_inv_exec [OF inv, of w p] lm_inv_commit [OF inv, of w p] by (cases ts) (simp_all add: lm_step_def)
  next
    case (LUnlR p ks)
    show ?thesis
    proof (cases ks)
      case Nil
      have "distinct (w_lock_list (lm_txs s w))" using wf LUnlR by (simp add: lm_lists_def lm_keys_def)
      then have "lm_inv c (lm_goto w (LUnlW p (w_lock_list (lm_txs s w))) s)"
        using wf link LUnlR Nil by (intro lm_inv_goto [OF inv]) simp_all
      with LUnlR Nil show ?thesis by (simp add: lm_step_def)
    next
      case (Cons k ks')
      with LUnlR lm_inv_unlock_r [OF inv, of w p k ks'] show ?thesis by (simp add: lm_step_def)
    qed
  next
    case (LUnlW p ks)
    then show ?thesis
      using lm_inv_unlock_w [OF inv, of w p] lm_inv_finish [OF inv, of w p, OF _ refl]
      by (cases ks) (simp_all add: lm_step_def)
  qed (use inv lm_inv_add_lock [OF inv] lm_inv_push [OF inv _ w] lm_inv_add_unlock [OF inv] lm_inv_scan [OF inv]
      lm_inv_try [OF inv] lm_inv_grab [OF inv _ w n] lm_inv_erase [OF inv] lm_inv_lfl [OF inv]
      in \<open>simp_all add: lm_step_def\<close>)
qed

lemma lm_init_inv: "lm_start s \<Longrightarrow> lm_inv c s"
  by (auto simp: lm_start_def lm_init_def lm_inv_def lm_ids_def lm_giant_def lm_wf_def lm_links_def lm_queue_def
      lm_cover_def lm_locks_def lm_fresh_def lm_owned_def lm_idle_def lm_new_def sa_tx.extend_def sa_new_def
      lm_waits_def lm_word_def lm_holders_def intro!: exI [of _ "{}"] rwl.held_init simp: ctr_rep_def)

end
