(* ===== verification/Lockmgr_Theorems.thy ===== *)
theory Lockmgr_Theorems
  imports Lockmgr_Steps
begin

text \<open>
  What the lock manager promises: the committed transactions form a serial history in the
  order of their transaction numbers, the locks exclude, the wait lists serve the
  transactions in the order of their numbers, and the oldest transaction is never blocked.
\<close>

section \<open>Refinement of ordered locking\<close>

definition lm_abs :: "lm_sys \<Rightarrow> ord" where
  "lm_abs s = \<lparr>d_clock = tx_counter s, d_acc = g_acc s, d_got = g_got s, d_rel = g_rel s,
     d_val = (\<lambda>k. u64_bytes (sa_value (lm_table s k))), d_reads = g_read s, d_writes = g_write s,
     d_com = g_com s\<rparr>"

definition lm_ready :: "lm_config \<Rightarrow> bool" where
  "lm_ready c \<longleftrightarrow> lm_workers c \<le> 2 ^ 32 - 2 \<and> (\<forall>p. small_keys (lm_pre c p))"

lemma lm_abs_simps [simp]:
  "lm_abs (lm_goto w pc s) = lm_abs s" "lm_abs (lm_upd w t pc s) = lm_abs s"
  "lm_abs (s\<lparr>giant_lock := g\<rparr>) = lm_abs s" "lm_abs (s\<lparr>commit_cnt := n\<rparr>) = lm_abs s"
  "lm_abs (s\<lparr>lm_quit := b\<rparr>) = lm_abs s"
  by (simp_all add: lm_abs_def)

lemma lm_abs_table:
  "(\<And>k. sa_value (tb k) = sa_value (lm_table s k)) \<Longrightarrow> lm_abs (s\<lparr>lm_table := tb\<rparr>) = lm_abs s"
  by (simp add: lm_abs_def)

lemma lm_own_active: "lm_own s t p G L Q False \<Longrightarrow> d_active (lm_abs s) p"
  by (simp add: lm_own_def d_active_def lm_abs_def)

lemma lm_exec_sim:
  assumes inv: "lm_inv c s" and pc: "lm_pcs s w = LRun p (task # rest)"
  shows "ord_step (lm_abs s) (lm_abs (lm_exec w p task rest s))"
proof -
  let ?t = "lm_txs s w" and ?k = "task_key task"
  have wf: "lm_full ?t" "future_lock ?t = []" "task \<in> set (task_set ?t)"
    and own: "lm_own s ?t p (lm_locked ?t) {} {} False"
    using linv_wf [OF inv, of w] linv_link [OF inv, of w] pc by simp_all
  note act = lm_own_active [OF own]
  have got: "?k \<in> d_got (lm_abs s) p" if "task_ope task \<noteq> OpSleep"
  proof -
    have "access_of (task_set ?t) ?k \<noteq> None" using that wf(3) by (cases "task_ope task") (auto simp: access_of_def)
    with wf mode_of_keys [of ?t ?k] have "?k \<in> lm_locked ?t" by (simp add: lm_lists_def lm_keys_def)
    with own show ?thesis by (simp add: lm_own_def lm_abs_def)
  qed
  show ?thesis
  proof (cases "task_ope task")
    case OpRead
    show ?thesis
    proof (cases "?k \<in> fst ` set (g_write s p)")
      case True
      then have "lm_abs (lm_exec w p task rest s) = lm_abs s"
        using OpRead by (simp add: lm_exec_def Let_def) (simp add: lm_abs_def)
      then show ?thesis using ord_stay by metis
    next
      case False
      then have "?k \<notin> wkeys_of (d_writes (lm_abs s) p)" by (simp add: lm_abs_def)
      from ord_read [OF act got this] OpRead False show ?thesis
        by (simp add: lm_exec_def Let_def lm_abs_def)
    qed
  next
    case OpWrite
    then have "access_of (task_set ?t) ?k = Some True" using wf(3) by (auto simp: access_of_def)
    with own have "d_acc (lm_abs s) p ?k = Some True" by (simp add: lm_own_def lm_abs_def)
    from ord_write [OF act got this, of "\<lambda>_. u64_bytes 100"] OpWrite show ?thesis
      by (simp add: lm_exec_def Let_def lm_abs_def set_sa_value_def fun_upd_def if_distrib cong: if_cong)
  next
    case OpSleep
    then show ?thesis by (simp add: lm_exec_def ord_stay)
  qed
qed

lemma lm_grab_sim:
  assumes inv: "lm_inv c s" and pc: "lm_pcs s w = LGrab p i" and w: "w < lm_workers c"
    and n: "lm_workers c \<le> 2 ^ 32 - 2"
  shows "ord_step (lm_abs s) (lm_abs (lm_grab w p i s))"
proof -
  let ?t = "lm_txs s w" and ?item = "future_lock (lm_txs s w) ! i"
  let ?k = "task_key ?item"
  have wf: "lm_full ?t" "i < length (future_lock ?t)" using linv_wf [OF inv, of w] pc by simp_all
  have own: "lm_own s ?t p (lm_locked ?t) {} (lm_futs ?t) False"
    using linv_link [OF inv, of w] pc by simp_all
  note M = lm_fut_mode [OF wf(1) nth_mem [OF wf(2)]]
  have acc: "g_acc s p ?k = Some (task_ope ?item = OpWrite)" using M own by (simp add: lm_own_def)
  have ope: "task_ope ?item = OpRead \<or> task_ope ?item = OpWrite" using M(2) by (cases "task_ope ?item") auto
  have grant: "ord_step (lm_abs s) (lm_abs ((lm_goto w (LErase p i) s)
      \<lparr>lm_table := set_sa_lock ?k v (lm_table s), g_got := (g_got s)(p := insert ?k (g_got s p))\<rparr>))"
    if v: "(if g_acc s p ?k = Some False then r_acq (sa_lock (lm_table s ?k)) else w_acq (sa_lock (lm_table s ?k))) = Some v"
    for v
  proof -
    have "d_clear (lm_abs s) (d_acc (lm_abs s) p) p ?k"
      using lm_inv_grant(2) [OF inv pc w n refl v refl] by (simp add: d_clear_def lm_abs_def)
    moreover have "?k \<in> dom (d_acc (lm_abs s) p)" using acc by (auto simp: lm_abs_def)
    ultimately have "ord_step (lm_abs s) (lm_abs s\<lparr>d_got := (d_got (lm_abs s))(p := insert ?k (d_got (lm_abs s) p))\<rparr>)"
      by (intro ord_grant lm_own_active [OF own])
    then show ?thesis by (simp add: lm_abs_def)
  qed
  show ?thesis
    using ope acc grant unfolding lm_grab_def Let_def by (auto split: option.split intro: ord_stay)
qed

lemma lm_commit_sim:
  assumes inv: "lm_inv c s" and pc: "lm_pcs s w = LRun p []"
  shows "ord_step (lm_abs s) (lm_abs (lm_commit w p s))"
proof -
  have "lm_own s (lm_txs s w) p (lm_locked (lm_txs s w)) {} {} False"
    using linv_link [OF inv, of w] pc by simp
  from ord_commit [OF lm_own_active [OF this]] show ?thesis by (simp add: lm_commit_def lm_abs_def)
qed

lemma lm_release_sim:
  assumes "p \<in> lm_coms s"
  shows "ord_step (lm_abs s) (lm_abs (lm_release w rel k pc p s))"
  using ord_release [of p "lm_abs s" k] assms by (simp add: lm_release_def lm_abs_def)

lemma lm_take_sim:
  assumes inv: "lm_inv c s" and pc: "lm_pcs s w = LTake p"
  shows "ord_step (lm_abs s) (lm_abs (lm_step c w s))"
proof -
  have "p = d_clock (lm_abs s)" using linv_link [OF inv, of w] pc by (simp add: lm_abs_def)
  from ord_enter [OF this, of "{}" "access_of (lm_pre c p)"] pc show ?thesis
    by (simp add: lm_step_def Let_def lm_abs_def)
qed

lemma lm_step_sim:
  assumes inv: "lm_inv c s" and w: "w < lm_workers c" and n: "lm_workers c \<le> 2 ^ 32 - 2"
  shows "ord_step (lm_abs s) (lm_abs (lm_step c w s))"
proof (cases "lm_pcs s w")
  case (LTake p)
  then show ?thesis by (rule lm_take_sim [OF inv])
next
  case (LGrab p i)
  with lm_grab_sim [OF inv this w n] show ?thesis by (simp add: lm_step_def)
next
  case (LRun p ts)
  then show ?thesis
    using lm_exec_sim [OF inv, of w p] lm_commit_sim [OF inv, of w p] by (cases ts) (simp_all add: lm_step_def)
next
  case (LUnlR p ks)
  then have "p \<in> lm_coms s" using linv_link [OF inv, of w] by (simp add: lm_own_def)
  with LUnlR lm_release_sim show ?thesis by (cases ks) (simp_all add: lm_step_def ord_stay)
next
  case (LUnlW p ks)
  then have "p \<in> lm_coms s" using linv_link [OF inv, of w] by (simp add: lm_own_def)
  with LUnlW lm_release_sim show ?thesis by (cases ks) (simp_all add: lm_step_def ord_stay)
next
  case (LReg p pos)
  have "lm_abs (lm_regist w p pos s) = lm_abs s"
    by (simp add: lm_regist_def Let_def split: reg_act.split)
  with LReg show ?thesis by (simp add: lm_step_def ord_stay)
next
  case (LScan p i)
  have "lm_abs (lm_scan w p i s) = lm_abs s"
    by (simp add: lm_scan_def Let_def split: list.split)
  with LScan show ?thesis by (simp add: lm_step_def ord_stay)
qed (simp_all add: lm_step_def lm_add_lock_def lm_add_push_def lm_add_unlock_def lm_try_def lm_erase_def
    lm_abs_table ord_stay Let_def split: option.split)

section \<open>The invariant of every reachable state\<close>

definition lm_ok :: "lm_config \<Rightarrow> lm_sys \<Rightarrow> bool" where
  "lm_ok c s \<longleftrightarrow> (lm_ready c \<longrightarrow> lm_inv c s \<and> ord_inv (\<lambda>_. u64_bytes 0) (lm_abs s))"

lemma lm_inv_quit: "lm_inv c (s\<lparr>lm_quit := b\<rparr>) = lm_inv c s"
proof -
  have own: "lm_own (s\<lparr>lm_quit := b\<rparr>) t p G L Q C = lm_own s t p G L Q C" for t p G L Q C
    by (simp add: lm_own_def lm_waits_def)
  have "lm_head (s\<lparr>lm_quit := b\<rparr>) t p i = lm_head s t p i" for t p i by (simp add: lm_head_def lm_waits_def)
  with own have "lm_link (s\<lparr>lm_quit := b\<rparr>) t pc = lm_link s t pc" for t pc by (cases pc) simp_all
  then show ?thesis
    by (simp add: lm_inv_def lm_ids_def lm_giant_def lm_wf_def lm_links_def lm_queue_def lm_cover_def
        lm_locks_def lm_fresh_def lm_owned_def lm_waits_def lm_word_def lm_holders_def)
qed

interpretation lm_system: invariant_system lm_start "lm_next c" "lm_ok c" for c
proof unfold_locales
  fix s
  assume s: "lm_start s"
  then have "ord_init (\<lambda>_. u64_bytes 0) (lm_abs s)"
    by (auto simp: lm_start_def lm_init_def lm_abs_def ord_init_def)
  with lm_init_inv [OF s] show "lm_ok c s" by (simp add: lm_ok_def ord_init_inv)
next
  fix s t
  assume ok: "lm_ok c s" and next_t: "lm_next c s t"
  show "lm_ok c t"
    unfolding lm_ok_def
  proof
    assume r: "lm_ready c"
    with ok have inv: "lm_inv c s" "ord_inv (\<lambda>_. u64_bytes 0) (lm_abs s)" by (simp_all add: lm_ok_def)
    from next_t consider w where "w < lm_workers c" "t = lm_step c w s" | "t = s\<lparr>lm_quit := True\<rparr>"
      unfolding lm_next_def by blast
    then show "lm_inv c t \<and> ord_inv (\<lambda>_. u64_bytes 0) (lm_abs t)"
    proof cases
      case 1
      with r have "lm_inv c t" by (simp add: lm_inv_lm_step [OF inv(1)] lm_ready_def)
      moreover have "ord_step (lm_abs s) (lm_abs t)"
        using r 1 by (simp add: lm_step_sim [OF inv(1)] lm_ready_def)
      ultimately show ?thesis using ord_step_inv inv(2) by blast
    next
      case 2
      with inv show ?thesis by (simp add: lm_inv_quit)
    qed
  qed
qed

lemma lm_reach_inv:
  assumes "lm_reach c s" "lm_ready c"
  shows "lm_inv c s" "ord_inv (\<lambda>_. u64_bytes 0) (lm_abs s)"
  using lm_system.reach_inv [OF assms(1)] assms(2) by (simp_all add: lm_ok_def)

section \<open>Concrete runs\<close>

text \<open>
  Two workers: transaction 1 reads record 1 and writes record 2, transaction 2 reads record 2
  and writes record 1. Both register; worker 1, with number 2, polls while worker 0 runs.
\<close>

definition ldemo_cfg :: lm_config where
  "ldemo_cfg = \<lparr>lm_pre = (\<lambda>p. if p = 1 then [Task OpRead 1, Task OpWrite 2]
      else if p = 2 then [Task OpRead 2, Task OpWrite 1] else []), lm_pre_num = 3, lm_workers = 2\<rparr>"

definition ldemo_reg :: lm_sys where
  "ldemo_reg = lm_run ldemo_cfg (replicate 14 0 @ replicate 14 1) (lm_init 1)"

definition ldemo_mid :: lm_sys where
  "ldemo_mid = lm_run ldemo_cfg (replicate 11 0 @ replicate 3 1) ldemo_reg"

definition ldemo_end :: lm_sys where
  "ldemo_end = lm_run ldemo_cfg (replicate 7 0 @ replicate 20 1) ldemo_mid"

definition ldemo_exhausted :: lm_sys where
  "ldemo_exhausted = lm_run ldemo_cfg (replicate 2 1) ldemo_end"

lemmas ldemo_eval =
  ldemo_cfg_def lm_step_def lm_upd_def lm_goto_def lm_regist_def lm_add_lock_def lm_add_push_def
  lm_add_unlock_def lm_scan_def lm_try_def lm_grab_def lm_erase_def lm_exec_def lm_commit_def
  lm_release_def erase_at_def reg_item_def dup_check_def int_arg_def lm_init_def lm_new_def
  sa_tx.extend_def sa_new_def sa_begin_def sa_read_def sa_write_def sa_clear_def set_lfl_def
  set_wait_def set_sa_lock_def set_sa_value_def Task_def w_acq_def r_acq_def w_rel_def r_rel_def
  Let_def replicate_numeral

lemma ldemo_states:
  "lm_pcs ldemo_reg 0 = LScan 1 0" "lm_pcs ldemo_reg 1 = LScan 2 0"
  "future_lock (lm_txs ldemo_reg 0) = [Task OpRead 1, Task OpWrite 2]"
  "task_set (lm_txs ldemo_reg 0) = [Task OpRead 1, Task OpWrite 2]"
  "wait_list (lm_table ldemo_reg 1) = [1, 2]"
  by (simp_all add: ldemo_reg_def ldemo_eval)

lemma ldemo_mid_states:
  "lm_pcs ldemo_mid 0 = LRun 1 [Task OpRead 1, Task OpWrite 2]" "lm_pcs ldemo_mid 1 = LLfl 2 1 2"
  "task_set (lm_txs ldemo_mid 0) = [Task OpRead 1, Task OpWrite 2]"
  "sa_lock (lm_table ldemo_mid 1) = 1" "sa_lock (lm_table ldemo_mid 2) = - 1"
  by (simp_all add: ldemo_mid_def ldemo_reg_def ldemo_eval)


lemma ldemo_exhausted_states: "lm_pcs ldemo_exhausted 1 = LFetch" "tx_counter ldemo_exhausted = 3"
  by (simp_all add: ldemo_exhausted_def ldemo_end_def ldemo_mid_def ldemo_reg_def ldemo_eval)



lemma ldemo_run_reach:
  "lm_reach ldemo_cfg s \<Longrightarrow> lm_reach ldemo_cfg (lm_run ldemo_cfg (replicate n 0 @ replicate m 1) s)"
  by (erule lm_run_reach) (auto simp: ldemo_cfg_def)

lemma ldemo_reach:
  "lm_reach ldemo_cfg ldemo_reg" "lm_reach ldemo_cfg ldemo_mid" "lm_reach ldemo_cfg ldemo_end"
  "lm_reach ldemo_cfg ldemo_exhausted"
proof -
  have "lm_reach ldemo_cfg (lm_init 1)" by (rule reach_init) (auto simp: lm_start_def)
  then show r: "lm_reach ldemo_cfg ldemo_reg" unfolding ldemo_reg_def by (rule ldemo_run_reach)
  then show m: "lm_reach ldemo_cfg ldemo_mid" unfolding ldemo_mid_def by (rule ldemo_run_reach)
  then show e: "lm_reach ldemo_cfg ldemo_end" unfolding ldemo_end_def by (rule ldemo_run_reach)
  from ldemo_run_reach [OF e, of 0 2] show "lm_reach ldemo_cfg ldemo_exhausted" by (simp add: ldemo_exhausted_def)
qed

lemma ldemo_ready: "lm_ready ldemo_cfg"
  by (auto simp: lm_ready_def ldemo_cfg_def small_keys_def Task_def)

section \<open>Safety\<close>



text \<open>A worker that runs its tasks holds every record of them.\<close>

lemma lm_running_holds:
  assumes inv: "lm_inv c s" and pc: "lm_pcs s w = LRun p ts" and t: "t \<in> set (task_set (lm_txs s w))"
    and ope: "task_ope t \<noteq> OpSleep"
  shows "\<exists>b. p \<in> lm_holders s b (task_key t) \<and> (task_ope t = OpWrite \<longrightarrow> b)"
proof -
  let ?t = "lm_txs s w"
  have wf: "lm_full ?t" "future_lock ?t = []" using linv_wf [OF inv, of w] pc by simp_all
  have own: "lm_own s ?t p (lm_locked ?t) {} {} False" using linv_link [OF inv, of w] pc by simp
  have "access_of (task_set ?t) (task_key t) \<noteq> None" using t ope by (cases "task_ope t") (auto simp: access_of_def)
  then obtain b where b: "access_of (task_set ?t) (task_key t) = Some b" by blast
  have "task_ope t = OpWrite \<longrightarrow> b" using b t by (auto simp: access_of_def split: if_splits)
  moreover have "task_key t \<in> lm_locked ?t"
    using wf b mode_of_keys [of ?t "task_key t"] by (simp add: lm_lists_def lm_keys_def)
  ultimately show ?thesis using own b by (auto simp: lm_holders_def lm_own_def)
qed

text \<open>
  C15. Exclusion: while a worker runs its tasks, the lock of a record it writes is write locked
  and no other running worker accesses the record, and the lock of a record it reads is held.
\<close>

theorem lockmgr_exclusion:
  assumes "lm_reach c s" and "lm_ready c" and pc: "lm_pcs s w = LRun p ts"
    and t: "t \<in> set (task_set (lm_txs s w))" "task_ope t \<noteq> OpSleep"
  shows "sa_lock (lm_table s (task_key t)) \<noteq> 0 \<and>
    (task_ope t = OpWrite \<longrightarrow> sa_lock (lm_table s (task_key t)) = - 1 \<and>
      (\<forall>v q us. \<forall>u \<in> set (task_set (lm_txs s v)). v \<noteq> w \<longrightarrow> lm_pcs s v = LRun q us \<longrightarrow>
         task_ope u \<noteq> OpSleep \<longrightarrow> task_key u \<noteq> task_key t))"
proof -
  let ?k = "task_key t"
  note inv = lm_reach_inv(1) [OF assms(1,2)]
  obtain b where b: "p \<in> lm_holders s b ?k" "task_ope t = OpWrite \<longrightarrow> b"
    using lm_running_holds [OF inv pc t] by blast
  have held: "held ctr_rep (sa_lock (lm_table s ?k)) (lm_holders s False ?k) (lm_holders s True ?k)"
    using linv(7) [OF inv] by (simp add: lm_locks_def lm_word_def)
  have "sa_lock (lm_table s ?k) \<noteq> 0"
  proof
    assume "sa_lock (lm_table s ?k) = 0"
    with held have "w_acq (0 :: u32) = Some (- 1)" "held ctr_rep 0 (lm_holders s False ?k) (lm_holders s True ?k)"
      by (simp_all add: w_acq_def)
    from rwl.held_wtry [OF this(2,1), THEN conjunct2] have "lm_holders s b ?k = {}" by (cases b) simp_all
    with b(1) show False by blast
  qed
  moreover have "sa_lock (lm_table s ?k) = - 1 \<and>
      (\<forall>v q us. \<forall>u \<in> set (task_set (lm_txs s v)). v \<noteq> w \<longrightarrow> lm_pcs s v = LRun q us \<longrightarrow>
         task_ope u \<noteq> OpSleep \<longrightarrow> task_key u \<noteq> ?k)" if "task_ope t = OpWrite"
  proof
    from b that have p: "p \<in> lm_holders s True ?k" by simp
    note X = rwl.held_excl [OF held p]
    from held X show "sa_lock (lm_table s ?k) = - 1" by (auto simp: held_def ctr_rep_def)
    show "\<forall>v q us. \<forall>u \<in> set (task_set (lm_txs s v)). v \<noteq> w \<longrightarrow> lm_pcs s v = LRun q us \<longrightarrow>
         task_ope u \<noteq> OpSleep \<longrightarrow> task_key u \<noteq> ?k"
    proof (intro allI ballI impI notI)
      fix v q us u
      assume u: "u \<in> set (task_set (lm_txs s v))" "v \<noteq> w" "lm_pcs s v = LRun q us" "task_ope u \<noteq> OpSleep" "task_key u = ?k"
      then obtain b' where "q \<in> lm_holders s b' ?k" using lm_running_holds [OF inv u(3,1,4)] by auto
      with X have "q = p" by (cases b') auto
      with linv_id [OF inv, of v p w] u pc show False by simp
    qed
  qed
  ultimately show ?thesis by blast
qed

theorem lockmgr_exclusion_witness: "sa_lock (lm_table ldemo_mid (task_key (Task OpWrite 2))) \<noteq> 0"
  using lockmgr_exclusion [OF ldemo_reach(2) ldemo_ready ldemo_mid_states(1), of "Task OpWrite 2"]
  by (simp add: ldemo_mid_states Task_def)

text \<open>
  Registration is complete and without duplicates: when the giant lock has been released,
  the keys a transaction holds or will lock are distinct, it locks for writing exactly the
  keys with a WRITE task and for reading exactly those with a READ and no WRITE task.
\<close>

theorem lockmgr_registered:
  assumes "lm_reach c s" and "lm_ready c" and "lm_pcs s w = LScan p i"
  shows "distinct (map task_key (future_lock (lm_txs s w)) @ r_lock_list (lm_txs s w) @ w_lock_list (lm_txs s w)) \<and>
    (\<forall>k. (k \<in> set (w_lock_list (lm_txs s w)) \<or>
            (\<exists>f \<in> set (future_lock (lm_txs s w)). task_ope f = OpWrite \<and> task_key f = k)) =
          (\<exists>t \<in> set (task_set (lm_txs s w)). task_ope t = OpWrite \<and> task_key t = k)) \<and>
    (\<forall>k. (k \<in> set (r_lock_list (lm_txs s w)) \<or>
            (\<exists>f \<in> set (future_lock (lm_txs s w)). task_ope f = OpRead \<and> task_key f = k)) =
          ((\<exists>t \<in> set (task_set (lm_txs s w)). task_ope t = OpRead \<and> task_key t = k) \<and>
           \<not> (\<exists>t \<in> set (task_set (lm_txs s w)). task_ope t = OpWrite \<and> task_key t = k)))"
proof -
  let ?t = "lm_txs s w"
  have full: "lm_full ?t" using linv_wf [OF lm_reach_inv(1) [OF assms(1,2)], of w] assms(3) by simp
  then have dis: "distinct (lm_keys ?t)" and m: "mode_of ?t k = access_of (task_set ?t) k" for k
    by (simp_all add: lm_lists_def)
  have W: "(k \<in> set (w_lock_list ?t) \<or> (\<exists>f \<in> set (future_lock ?t). task_ope f = OpWrite \<and> task_key f = k)) =
      (mode_of ?t k = Some True)" for k by (simp add: mode_of_def)
  have TW: "(\<exists>t \<in> set (task_set ?t). task_ope t = OpWrite \<and> task_key t = k) = (access_of (task_set ?t) k = Some True)"
    for k by (simp add: access_of_def)
  have TR: "((\<exists>t \<in> set (task_set ?t). task_ope t = OpRead \<and> task_key t = k) \<and>
      access_of (task_set ?t) k \<noteq> Some True) = (access_of (task_set ?t) k = Some False)"
    for k by (auto simp: access_of_def)
  have R: "(k \<in> set (r_lock_list ?t) \<or> (\<exists>f \<in> set (future_lock ?t). task_ope f = OpRead \<and> task_key f = k)) =
      (mode_of ?t k = Some False)" for k
  proof
    assume "k \<in> set (r_lock_list ?t) \<or> (\<exists>f \<in> set (future_lock ?t). task_ope f = OpRead \<and> task_key f = k)"
    then show "mode_of ?t k = Some False"
    proof
      assume "k \<in> set (r_lock_list ?t)"
      then show ?thesis using lm_full_locked(1) [OF full] m by simp
    next
      assume "\<exists>f \<in> set (future_lock ?t). task_ope f = OpRead \<and> task_key f = k"
      then obtain f where "f \<in> set (future_lock ?t)" "task_ope f = OpRead" "task_key f = k" by blast
      with lm_fut_mode(1) [OF full this(1)] m show ?thesis by simp
    qed
  qed (auto simp: mode_of_def split: if_splits)
  show ?thesis unfolding W R TW TR m using dis by (simp add: lm_keys_def)
qed

theorem lockmgr_registered_witness:
  "distinct (map task_key (future_lock (lm_txs ldemo_reg 0)))"
  using lockmgr_registered [OF ldemo_reach(1) ldemo_ready ldemo_states(1)] by simp

section \<open>Order and progress\<close>

text \<open>
  The wait lists are queues in the order of the transaction numbers, and the head that the
  code reads exists: a worker that is about to read \<^verbatim>\<open>wait_list_[0]\<close> of a record it waits for
  finds a list that contains its number, and the worker that removes the first element of
  a list removes its own number.
\<close>

theorem lockmgr_queue:
  assumes "lm_reach c s" and "lm_ready c"
  shows "sorted_wrt (<) (wait_list (lm_table s k)) \<and>
    (\<forall>w p i. lm_pcs s w = LScan p i \<longrightarrow> i < length (future_lock (lm_txs s w)) \<longrightarrow>
       p \<in> set (wait_list (lm_table s (task_key (future_lock (lm_txs s w) ! i))))) \<and>
    (\<forall>w p i. lm_pcs s w = LErase p i \<longrightarrow>
       (\<exists>xs. wait_list (lm_table s (task_key (future_lock (lm_txs s w) ! i))) = p # xs))"
proof (intro conjI allI impI)
  note inv = lm_reach_inv(1) [OF assms]
  show "sorted_wrt (<) (wait_list (lm_table s k))"
    using linv(5) [OF inv] by (simp add: lm_queue_def lm_waits_def)
  show "p \<in> set (wait_list (lm_table s (task_key (future_lock (lm_txs s w) ! i))))"
    if "lm_pcs s w = LScan p i" "i < length (future_lock (lm_txs s w))" for w p i
    using linv_link [OF inv, of w] that by (simp add: lm_own_def lm_waits_def)
  show "\<exists>xs. wait_list (lm_table s (task_key (future_lock (lm_txs s w) ! i))) = p # xs"
    if "lm_pcs s w = LErase p i" for w p i
    using linv_link [OF inv, of w] that by (simp add: lm_head_def lm_waits_def)
qed

theorem lockmgr_queue_witness: "sorted_wrt (<) (wait_list (lm_table ldemo_reg 1))"
  using lockmgr_queue [OF ldemo_reach(1) ldemo_ready, of 1] by simp



lemma lm_giant_stuck:
  assumes "giant_lock s = - 1" "\<forall>v. \<not> lm_giants (lm_pcs s v)"
  shows "giant_lock (lm_step c w s) = - 1 \<and> (\<forall>v. \<not> lm_giants (lm_pcs (lm_step c w s) v))"
proof (cases "lm_pcs s w")
  case (LScan p i)
  with assms show ?thesis by (auto simp: lm_step_def lm_scan_def Let_def split: list.split)
next
  case (LRun p ts)
  with assms show ?thesis
    by (cases ts) (auto simp: lm_step_def lm_exec_def lm_commit_def Let_def split: sa_ope.split)
next
  case (LUnlR p ks)
  with assms show ?thesis by (cases ks) (auto simp: lm_step_def lm_release_def Let_def)
next
  case (LUnlW p ks)
  with assms show ?thesis by (cases ks) (auto simp: lm_step_def lm_release_def Let_def)
next
  case (LGrab p i)
  with assms show ?thesis
    by (auto simp: lm_step_def lm_grab_def Let_def split: sa_ope.split option.split)
qed (use assms spec [OF assms(2), of w] in
    \<open>auto simp: lm_step_def lm_try_def lm_erase_def w_acq_def Let_def split: option.split\<close>)

text \<open>
  C17. When the generated transactions are used up, the worker that finds out returns without
  releasing the giant lock: from then on no worker takes another step past \<^verbatim>\<open>w_try_lock\<close>.
\<close>

theorem lockmgr_exhausted_blocks:
  assumes "lm_reach c s" and "lm_ready c" and pc: "lm_pcs s w = LFetch" and "lm_pre_num c \<le> tx_counter s"
  shows "giant_lock (lm_run c ws (lm_step c w s)) = - 1 \<and>
    (\<forall>v. \<not> lm_giants (lm_pcs (lm_run c ws (lm_step c w s)) v))"
proof -
  note inv = lm_reach_inv(1) [OF assms(1,2)]
  obtain G where G: "held ctr_rep (giant_lock s) {} G" "{w. lm_giants (lm_pcs s w)} \<subseteq> G"
    using linv(2) [OF inv] unfolding lm_giant_def by blast
  with pc have "w \<in> G" by auto
  with G(1) have g: "giant_lock s = - 1" by (auto simp: held_def ctr_rep_def)
  have "\<not> lm_giants (lm_pcs s v)" if "v \<noteq> w" for v using linv_giant [OF inv, of v w] pc that by auto
  with g pc assms(4) have "giant_lock (lm_step c w s) = - 1 \<and> (\<forall>v. \<not> lm_giants (lm_pcs (lm_step c w s) v))"
    by (simp add: lm_step_def)
  then have "giant_lock (lm_run c ws t) = - 1 \<and> (\<forall>v. \<not> lm_giants (lm_pcs (lm_run c ws t) v))"
    if "t = lm_step c w s" for t
    unfolding that
  proof (induction ws arbitrary: s w)
    case (Cons v ws)
    then show ?case using lm_giant_stuck by auto
  qed simp
  then show ?thesis by blast
qed

theorem lockmgr_exhausted_blocks_witness:
  "giant_lock (lm_run ldemo_cfg [0, 1, 0, 0] (lm_step ldemo_cfg 1 ldemo_exhausted)) = - 1"
  using lockmgr_exhausted_blocks [OF ldemo_reach(4) ldemo_ready ldemo_exhausted_states(1), of "[0, 1, 0, 0]"]
  by (simp add: ldemo_exhausted_states(2)) (simp add: ldemo_cfg_def)

end
