(* ===== verification/Lock_Table.thy ===== *)
theory Lock_Table
  imports Standalone_Model Ord_Spec
begin

text \<open>
  A table of reader-writer locks and the access each worker has to each record: the moves a
  worker can make, and that they keep every lock word equal to the number of its holders.
  The executors that lock through \<^verbatim>\<open>r_lock_list_\<close> and \<^verbatim>\<open>w_lock_list_\<close> only have to show that each of
  their steps is a move.
\<close>

section \<open>Moves\<close>

text \<open>The access that the two lock lists of a transaction stand for.\<close>

definition lists_access :: "key list \<Rightarrow> key list \<Rightarrow> access" where
  "lists_access rs ws k = (if k \<in> set ws then Some True else if k \<in> set rs then Some False else None)"

inductive lt_move :: "(key \<Rightarrow> u32) \<Rightarrow> access \<Rightarrow> (key \<Rightarrow> u32) \<Rightarrow> access \<Rightarrow> bool" where
  lt_keep: "lt_move L a L a"
| lt_read: "a k = None \<Longrightarrow> r_acq (L k) = Some c \<Longrightarrow> lt_move L a (L(k := c)) (a(k := Some False))"
| lt_write: "a k = None \<Longrightarrow> w_acq (L k) = Some c \<Longrightarrow> lt_move L a (L(k := c)) (a(k := Some True))"
| lt_upgrade: "a k = Some False \<Longrightarrow> upg (L k) = Some c \<Longrightarrow> lt_move L a (L(k := c)) (a(k := Some True))"
| lt_unread: "a k = Some False \<Longrightarrow> lt_move L a (L(k := r_rel (L k))) (a(k := None))"
| lt_unwrite: "a k = Some True \<Longrightarrow> lt_move L a (L(k := w_rel (L k))) (a(k := None))"

definition lt_ok :: "nat \<Rightarrow> (key \<Rightarrow> u32) \<Rightarrow> (nat \<Rightarrow> access) \<Rightarrow> bool" where
  "lt_ok n L H \<longleftrightarrow> (\<forall>k. held ctr_rep (L k) {w. H w k = Some False} {w. H w k = Some True}) \<and>
     (\<forall>w k. n \<le> w \<longrightarrow> H w k = None)"

section \<open>What the invariant gives\<close>

lemma lt_held: "lt_ok n L H \<Longrightarrow> held ctr_rep (L k) {w. H w k = Some False} {w. H w k = Some True}"
  by (simp add: lt_ok_def)

lemma lt_none: "lt_ok n L H \<Longrightarrow> n \<le> w \<Longrightarrow> H w k = None"
  by (simp add: lt_ok_def)

lemma lt_excl:
  assumes ok: "lt_ok n L H" and "H v k = Some x" "H w k = Some y" "x \<or> y"
  shows "v = w"
proof -
  have "u = u'" if "H u k = Some True" "H u' k = Some z" for u u' z
    using rwl.held_excl [OF lt_held [OF ok], of u k] that by (cases z) auto
  with assms(2-) show ?thesis by (cases x; cases y) auto
qed

lemma lt_word:
  assumes "lt_ok n L H"
  shows "H w k = Some True \<Longrightarrow> L k = - 1" and "H w k = Some b \<Longrightarrow> L k \<noteq> 0"
proof -
  note h = lt_held [OF assms, of k]
  show W: "H w k = Some True \<Longrightarrow> L k = - 1"
    using h by (auto simp: held_def ctr_rep_def)
  assume b: "H w k = Some b"
  show "L k \<noteq> 0"
  proof
    assume z: "L k = 0"
    then have "w_acq (L k) = Some (- 1)" by (simp add: w_acq_def)
    from rwl.held_wtry [OF h this, THEN conjunct2] b show False by (cases b) auto
  qed
qed

lemma lt_free:
  assumes "lt_ok n L H" "\<And>w. H w k = None"
  shows "L k = 0"
proof -
  have "held ctr_rep (L k) ({} :: nat set) {}" using lt_held [OF assms(1), of k] assms(2) by simp
  then show ?thesis by (auto simp: held_def ctr_rep_def)
qed

lemma lt_sole_reader:
  assumes "lt_ok n L H" "\<And>v. v \<noteq> w \<Longrightarrow> H v k = None" "H w k = Some False"
  shows "L k = 1"
proof -
  have "H v k = Some x \<longleftrightarrow> v = w \<and> x = False" for v x
    using assms(2) [of v] assms(3) by (cases "v = w") auto
  then have "{v. H v k = Some False} = {w}" "{v. H v k = Some True} = {}" by simp_all
  with lt_held [OF assms(1), of k] have "held ctr_rep (L k) {w} {}" by argo
  then show ?thesis by (simp add: held_def ctr_rep_def)
qed

section \<open>Moves keep it\<close>

lemma lt_card:
  assumes ok: "lt_ok n L H" and w: "w < n" "H w k \<noteq> Some b" and n: "n \<le> 2 ^ 32 - 2"
  shows "card {v. H v k = Some b} < 2 ^ 32 - 2"
proof -
  have "v < n" if "H v k = Some b" for v
    using lt_none [OF ok, of v k] that by (cases "v < n") simp_all
  with w have "{v. H v k = Some b} \<subset> {..< n}" by auto
  then have "card {v. H v k = Some b} < card {..< n}" by (intro psubset_card_mono) simp_all
  with n show ?thesis by simp
qed

lemma lt_holders_upd:
  "{v. (H(w := (H w)(k := b))) v j = Some x} =
     (if j = k then (if b = Some x then insert w {v. H v k = Some x} else {v. H v k = Some x} - {w})
      else {v. H v j = Some x})"
  by auto

lemma lt_ok_upd:
  assumes "lt_ok n L H" "w < n"
    and "held ctr_rep c
      (if b = Some False then insert w {v. H v k = Some False} else {v. H v k = Some False} - {w})
      (if b = Some True then insert w {v. H v k = Some True} else {v. H v k = Some True} - {w})"
  shows "lt_ok n (L(k := c)) (H(w := (H w)(k := b)))"
  unfolding lt_ok_def
proof (intro conjI allI impI)
  show "held ctr_rep ((L(k := c)) j) {v. (H(w := (H w)(k := b))) v j = Some False}
      {v. (H(w := (H w)(k := b))) v j = Some True}" for j
    unfolding lt_holders_upd using lt_held [OF assms(1), of j] assms(3) by (cases "j = k") simp_all
  show "(H(w := (H w)(k := b))) v j = None" if "n \<le> v" for v j
    using lt_none [OF assms(1) that] that assms(2) by auto
qed

lemma lt_move_ok:
  assumes mv: "lt_move L a L' a'" and a: "a = H w" and ok: "lt_ok n L H" and w: "w < n" and n: "n \<le> 2 ^ 32 - 2"
  shows "lt_ok n L' (H(w := a'))"
  using mv a
proof cases
  case lt_keep
  with a ok show ?thesis by simp
next
  case (lt_read k c)
  have np: "w \<notin> {v. H v k = Some False}" using lt_read(3) a by simp
  have "card {v. H v k = Some False} < 2 ^ 32 - 2" by (rule lt_card [OF ok w _ n]) (use np in simp)
  from rwl.held_rtry [OF lt_held [OF ok] lt_read(4) np this]
  have h: "held ctr_rep c (insert w {v. H v k = Some False}) {v. H v k = Some True}" "{v. H v k = Some True} = {}"
    by blast+
  then have "{v. H v k = Some True} - {w} = {v. H v k = Some True}" by blast
  with h(1) have "lt_ok n (L(k := c)) (H(w := (H w)(k := Some False)))" by (intro lt_ok_upd [OF ok w]) simp
  with lt_read a show ?thesis by simp
next
  case (lt_write k c)
  from rwl.held_wtry [OF lt_held [OF ok] lt_write(4), of w]
  have h: "held ctr_rep c {} {w}" "{v. H v k = Some False} = {}" "{v. H v k = Some True} = {}" by simp_all
  have "lt_ok n (L(k := c)) (H(w := (H w)(k := Some True)))"
    by (rule lt_ok_upd [OF ok w]) (simp add: h del: Collect_empty_eq)
  with lt_write a show ?thesis by simp
next
  case (lt_upgrade k c)
  have "w \<in> {v. H v k = Some False}" using lt_upgrade(3) a by simp
  from rwl.held_uptry [OF lt_held [OF ok] lt_upgrade(4) this]
  have h: "held ctr_rep c {} {w}" "{v. H v k = Some False} = {w}" "{v. H v k = Some True} = {}" by simp_all
  have "lt_ok n (L(k := c)) (H(w := (H w)(k := Some True)))"
    by (rule lt_ok_upd [OF ok w]) (simp add: h del: Collect_empty_eq)
  with lt_upgrade a show ?thesis by simp
next
  case (lt_unread k)
  have w': "w \<in> {v. H v k = Some False}" "w \<notin> {v. H v k = Some True}" using lt_unread(3) a by simp_all
  from rwl.held_runl [OF lt_held [OF ok] w'(1)] w'(2)
  have "lt_ok n (L(k := r_rel (L k))) (H(w := (H w)(k := None)))" by (intro lt_ok_upd [OF ok w]) simp
  with lt_unread a show ?thesis by simp
next
  case (lt_unwrite k)
  have w': "w \<in> {v. H v k = Some True}" "w \<notin> {v. H v k = Some False}" using lt_unwrite(3) a by simp_all
  from rwl.held_wunl [OF lt_held [OF ok] w'(1)]
  have "held ctr_rep (w_rel (L k)) {v. H v k = Some False} ({v. H v k = Some True} - {w})" by blast
  with w'(2) have "lt_ok n (L(k := w_rel (L k))) (H(w := (H w)(k := None)))" by (intro lt_ok_upd [OF ok w]) simp
  with lt_unwrite a show ?thesis by simp
qed

text \<open>The changes of the lists that go with the moves.\<close>

lemma lists_access_simps:
  "lists_access [] [] = (\<lambda>_. None)"
  "k \<notin> set ws \<Longrightarrow> lists_access (rs @ [k]) ws = (lists_access rs ws)(k := Some False)"
  "lists_access rs (ws @ [k]) = (lists_access rs ws)(k := Some True)"
  "k \<notin> set rs \<Longrightarrow> k \<notin> set ws \<Longrightarrow> lists_access rs ws = (lists_access (k # rs) ws)(k := None)"
  "k \<notin> set rs \<Longrightarrow> k \<notin> set ws \<Longrightarrow> lists_access rs ws = (lists_access rs (k # ws))(k := None)"
  by (auto simp: lists_access_def fun_eq_iff)

lemma lists_access_None [simp]: "lists_access rs ws k = None \<longleftrightarrow> k \<notin> set rs \<and> k \<notin> set ws"
  by (simp add: lists_access_def)

lemma lists_access_erase:
  "distinct rs \<Longrightarrow> k \<in> set rs \<Longrightarrow> lists_access (remove1 k rs) (ws @ [k]) = (lists_access rs ws)(k := Some True)"
  by (auto simp: lists_access_def fun_eq_iff)

lemma lt_move_unread:
  assumes "k \<notin> set ks" "k \<notin> set ws"
  shows "lt_move L (lists_access (k # ks) ws) (L(k := r_rel (L k))) (lists_access ks ws)"
  using lt_unread [of "lists_access (k # ks) ws" k L] assms
  unfolding lists_access_simps(4) [OF assms] by (simp add: lists_access_def)

lemma lt_move_unwrite:
  assumes "k \<notin> set ks" "k \<notin> set rs"
  shows "lt_move L (lists_access rs (k # ks)) (L(k := w_rel (L k))) (lists_access rs ks)"
  using lt_unwrite [of "lists_access rs (k # ks)" k L] assms
  unfolding lists_access_simps(5) [OF assms(2,1)] by (simp add: lists_access_def)

end
