(* ===== verification/Fairdet_System.thy ===== *)
theory Fairdet_System
  imports Lock_Table
begin

text \<open>
  Deterministic locking under a giant lock, \<^verbatim>\<open>fair_determinism/ss2pl.cc\<close>: a worker takes the
  giant lock, tries to lock every record of the next transaction, releases what it has and
  starts over when a lock is not available, and only advances the transaction counter and
  releases the giant lock when it has all of them. The system interleaves any number of
  workers at every access to the giant lock, the counter, the flag \<^verbatim>\<open>quit\<close>, a lock or a value.
  Ghost state: the access every transaction number has been granted, what it has released,
  read and written, and the committed transactions.
\<close>

section \<open>State\<close>

datatype fd_pc =
    DPoint
  | DTry
  | DFetch
  | DRetry nat
  | DLock nat nat
  | DUpgFail nat nat key
  | DAbortR nat "key list"
  | DAbortW nat "key list"
  | DStoreCtr nat
  | DGiantUnl nat
  | DRun nat "task list"
  | DUnlR nat "key list"
  | DUnlW nat "key list"
  | DCount
  | DStop

record fd_config =
  fd_pre :: "nat \<Rightarrow> task list"
  fd_pre_num :: nat
  fd_workers :: nat

record fd_sys =
  fd_table :: "key \<Rightarrow> sa_tuple"
  lock_for_locks :: u32
  fd_counter :: nat
  fd_quit :: bool
  fd_txs :: "nat \<Rightarrow> sa_tx"
  fd_pcs :: "nat \<Rightarrow> fd_pc"
  fd_commit_cnt :: "nat \<Rightarrow> nat"
  fd_acc :: "nat \<Rightarrow> access"
  fd_rel :: "nat \<Rightarrow> key set"
  fd_read :: "nat \<Rightarrow> (key \<times> val) list"
  fd_write :: "nat \<Rightarrow> (key \<times> (val \<Rightarrow> val)) list"
  fd_com :: "nat history"

definition fd_upd :: "nat \<Rightarrow> sa_tx \<Rightarrow> fd_pc \<Rightarrow> fd_sys \<Rightarrow> fd_sys" where
  "fd_upd w t pc s = s\<lparr>fd_txs := (fd_txs s)(w := t), fd_pcs := (fd_pcs s)(w := pc)\<rparr>"

definition fd_goto :: "nat \<Rightarrow> fd_pc \<Rightarrow> fd_sys \<Rightarrow> fd_sys" where
  "fd_goto w pc s = s\<lparr>fd_pcs := (fd_pcs s)(w := pc)\<rparr>"

definition fd_set_lock :: "key \<Rightarrow> u32 \<Rightarrow> fd_sys \<Rightarrow> fd_sys" where
  "fd_set_lock k c s = s\<lparr>fd_table := set_sa_lock k c (fd_table s)\<rparr>"

section \<open>Locking\<close>

text \<open>\<^verbatim>\<open>status_ = ABORTED\<close> and the start of \<^verbatim>\<open>abort\<close>: first the read locks.\<close>

definition fd_abort :: "nat \<Rightarrow> nat \<Rightarrow> sa_tx \<Rightarrow> fd_sys \<Rightarrow> fd_sys" where
  "fd_abort w p t s = fd_upd w (t\<lparr>sa_status := SaAborted\<rparr>) (DAbortR p (r_lock_list t)) s"

definition fd_lock_read :: "nat \<Rightarrow> nat \<Rightarrow> nat \<Rightarrow> key \<Rightarrow> fd_sys \<Rightarrow> fd_sys" where
  "fd_lock_read w p pos k s =
     (let t = fd_txs s w in
      if k \<in> set (r_lock_list t) \<or> k \<in> set (w_lock_list t) then fd_goto w (DLock p (Suc pos)) s
      else
        (case r_acq (sa_lock (fd_table s k)) of
           None \<Rightarrow> fd_abort w p t s
         | Some c \<Rightarrow>
             fd_set_lock k c (fd_upd w (t\<lparr>r_lock_list := r_lock_list t @ [k]\<rparr>) (DLock p (Suc pos)) s)))"

text \<open>
  After a successful upgrade the loop over \<^verbatim>\<open>w_lock_list_\<close> finds the record; after a failed one
  it does not, and the code still calls \<^verbatim>\<open>w_try_lock\<close>.
\<close>

definition fd_lock_write :: "nat \<Rightarrow> nat \<Rightarrow> nat \<Rightarrow> key \<Rightarrow> fd_sys \<Rightarrow> fd_sys" where
  "fd_lock_write w p pos k s =
     (let t = fd_txs s w; c = sa_lock (fd_table s k) in
      if k \<in> set (r_lock_list t) then
        (case upg c of
           None \<Rightarrow> (if k \<in> set (w_lock_list t) then fd_abort w p t s else fd_goto w (DUpgFail p pos k) s)
         | Some c' \<Rightarrow>
             fd_set_lock k c'
               (fd_upd w (t\<lparr>w_lock_list := w_lock_list t @ [k], r_lock_list := remove1 k (r_lock_list t)\<rparr>)
                 (DLock p (Suc pos)) s))
      else if k \<in> set (w_lock_list t) then fd_goto w (DLock p (Suc pos)) s
      else
        (case w_acq c of
           None \<Rightarrow> fd_abort w p t s
         | Some c' \<Rightarrow>
             fd_set_lock k c' (fd_upd w (t\<lparr>w_lock_list := w_lock_list t @ [k]\<rparr>) (DLock p (Suc pos)) s)))"

definition fd_upg_fail :: "nat \<Rightarrow> nat \<Rightarrow> key \<Rightarrow> fd_sys \<Rightarrow> fd_sys" where
  "fd_upg_fail w p k s =
     (let t = fd_txs s w in
      case w_acq (sa_lock (fd_table s k)) of
        None \<Rightarrow> fd_abort w p t s
      | Some c \<Rightarrow> fd_set_lock k c (fd_abort w p (t\<lparr>w_lock_list := w_lock_list t @ [k]\<rparr>) s))"

definition fd_lock :: "nat \<Rightarrow> nat \<Rightarrow> nat \<Rightarrow> fd_sys \<Rightarrow> fd_sys" where
  "fd_lock w p pos s =
     (let t = fd_txs s w in
      if pos < length (task_set t) then
        (let item = task_set t ! pos in
         case task_ope item of
           OpRead \<Rightarrow> fd_lock_read w p pos (task_key item) s
         | OpWrite \<Rightarrow> fd_lock_write w p pos (task_key item) s
         | OpSleep \<Rightarrow> fd_goto w (DLock p (Suc pos)) s)
      else fd_goto w (DStoreCtr p) s)"

section \<open>Execution and release\<close>

definition fd_exec :: "nat \<Rightarrow> nat \<Rightarrow> task \<Rightarrow> task list \<Rightarrow> fd_sys \<Rightarrow> fd_sys" where
  "fd_exec w p task rest s =
     (let t = fd_txs s w; k = task_key task; v = sa_value (fd_table s k) in
      case task_ope task of
        OpRead \<Rightarrow>
          (fd_upd w (sa_read k v t) (DRun p rest) s)
            \<lparr>fd_read := (if k \<in> fst ` set (fd_write s p) then fd_read s
               else (fd_read s)(p := fd_read s p @ [(k, u64_bytes v)]))\<rparr>
      | OpWrite \<Rightarrow>
          (fd_upd w (sa_write k t) (DRun p rest) s)
            \<lparr>fd_table := set_sa_value k 100 (fd_table s),
             fd_write := (fd_write s)(p := fd_write s p @ [(k, \<lambda>_. u64_bytes 100)])\<rparr>
      | OpSleep \<Rightarrow> fd_goto w (DRun p rest) s)"

definition fd_commit :: "nat \<Rightarrow> nat \<Rightarrow> fd_sys \<Rightarrow> fd_sys" where
  "fd_commit w p s =
     (fd_goto w (DUnlR p (r_lock_list (fd_txs s w))) s)
       \<lparr>fd_com := fd_com s @ [(p, \<lparr>tx_reads = fd_read s p, tx_writes = fd_write s p\<rparr>)]\<rparr>"

definition fd_release :: "nat \<Rightarrow> (u32 \<Rightarrow> u32) \<Rightarrow> key \<Rightarrow> fd_pc \<Rightarrow> fd_sys \<Rightarrow> fd_sys" where
  "fd_release w rel k pc s = fd_set_lock k (rel (sa_lock (fd_table s k))) (fd_goto w pc s)"

definition fd_released :: "nat \<Rightarrow> key \<Rightarrow> fd_sys \<Rightarrow> fd_sys" where
  "fd_released p k s = s\<lparr>fd_rel := (fd_rel s)(p := insert k (fd_rel s p))\<rparr>"

section \<open>One step of worker \<open>w\<close>\<close>

definition fd_step :: "fd_config \<Rightarrow> nat \<Rightarrow> fd_sys \<Rightarrow> fd_sys" where
  "fd_step c w s =
     (let t = fd_txs s w in
      case fd_pcs s w of
        DPoint \<Rightarrow> fd_goto w (if fd_quit s then DStop else DTry) s
      | DTry \<Rightarrow>
          (case w_acq (lock_for_locks s) of
             None \<Rightarrow> fd_goto w DPoint s
           | Some g \<Rightarrow> (fd_goto w DFetch s)\<lparr>lock_for_locks := g\<rparr>)
      | DFetch \<Rightarrow> fd_goto w (if fd_counter s \<ge> fd_pre_num c then DStop else DRetry (fd_counter s)) s
      | DRetry p \<Rightarrow>
          (if fd_quit s then fd_goto w DStop s
           else fd_upd w (sa_begin (t\<lparr>task_set := fd_pre c p\<rparr>)) (DLock p 0) s)
      | DLock p pos \<Rightarrow> fd_lock w p pos s
      | DUpgFail p pos k \<Rightarrow> fd_upg_fail w p k s
      | DAbortR p (k # ks) \<Rightarrow> fd_release w r_rel k (DAbortR p ks) s
      | DAbortR p [] \<Rightarrow> fd_goto w (DAbortW p (w_lock_list t)) s
      | DAbortW p (k # ks) \<Rightarrow> fd_release w w_rel k (DAbortW p ks) s
      | DAbortW p [] \<Rightarrow> fd_upd w (sa_clear t) (DRetry p) s
      | DStoreCtr p \<Rightarrow>
          (fd_goto w (DGiantUnl p) s)
            \<lparr>fd_counter := Suc p,
             fd_acc := (fd_acc s)(p := lists_access (r_lock_list t) (w_lock_list t))\<rparr>
      | DGiantUnl p \<Rightarrow> (fd_goto w (DRun p (task_set t)) s)\<lparr>lock_for_locks := w_rel (lock_for_locks s)\<rparr>
      | DRun p (task # rest) \<Rightarrow> fd_exec w p task rest s
      | DRun p [] \<Rightarrow> fd_commit w p s
      | DUnlR p (k # ks) \<Rightarrow> fd_released p k (fd_release w r_rel k (DUnlR p ks) s)
      | DUnlR p [] \<Rightarrow> fd_goto w (DUnlW p (w_lock_list t)) s
      | DUnlW p (k # ks) \<Rightarrow> fd_released p k (fd_release w w_rel k (DUnlW p ks) s)
      | DUnlW p [] \<Rightarrow> fd_upd w (sa_clear t) DCount s
      | DCount \<Rightarrow>
          (fd_goto w DPoint s)
            \<lparr>fd_commit_cnt := (if fd_quit s then fd_commit_cnt s
               else (fd_commit_cnt s)(w := Suc (fd_commit_cnt s w)))\<rparr>
      | DStop \<Rightarrow> s)"

section \<open>The system\<close>

definition fd_init :: "nat \<Rightarrow> fd_sys" where
  "fd_init first =
     \<lparr>fd_table = (\<lambda>_. \<lparr>sa_lock = 0, sa_value = 0\<rparr>), lock_for_locks = 0, fd_counter = first,
      fd_quit = False, fd_txs = (\<lambda>_. sa_new), fd_pcs = (\<lambda>_. DPoint), fd_commit_cnt = (\<lambda>_. 0),
      fd_acc = (\<lambda>_ _. None), fd_rel = (\<lambda>_. {}), fd_read = (\<lambda>_. []), fd_write = (\<lambda>_. []), fd_com = []\<rparr>"

definition fd_start :: "fd_sys \<Rightarrow> bool" where
  "fd_start s \<longleftrightarrow> (\<exists>first. s = fd_init first)"

definition fd_next :: "fd_config \<Rightarrow> fd_sys \<Rightarrow> fd_sys \<Rightarrow> bool" where
  "fd_next c s t \<longleftrightarrow> (\<exists>w < fd_workers c. t = fd_step c w s) \<or> t = s\<lparr>fd_quit := True\<rparr>"

abbreviation fd_reach :: "fd_config \<Rightarrow> fd_sys \<Rightarrow> bool" where
  "fd_reach c \<equiv> reach fd_start (fd_next c)"

fun fd_run :: "fd_config \<Rightarrow> nat list \<Rightarrow> fd_sys \<Rightarrow> fd_sys" where
  "fd_run c [] s = s"
| "fd_run c (w # ws) s = fd_run c ws (fd_step c w s)"

lemma fd_run_reach:
  "fd_reach c s \<Longrightarrow> \<forall>w \<in> set ws. w < fd_workers c \<Longrightarrow> fd_reach c (fd_run c ws s)"
proof (induction ws arbitrary: s)
  case (Cons w ws)
  then have "fd_next c s (fd_step c w s)" by (auto simp: fd_next_def)
  with Cons.prems(1) have "fd_reach c (fd_step c w s)" by (rule reach_step)
  with Cons show ?case by simp
qed simp

end
