(* ===== verification/Fairdet_Proofs.thy ===== *)
theory Fairdet_Proofs
  imports Fairdet_System
begin

text \<open>
  The invariants of the giant-lock executor: the lists of a worker mirror the accesses of its
  tasks, every lock word counts its holders, only the holder of the giant lock has a
  transaction number that has not been entered, and an access that was granted and not
  released is held by the worker that runs the transaction.
\<close>

section \<open>Views\<close>

fun fd_id :: "fd_pc \<Rightarrow> nat option" where
  "fd_id (DGiantUnl p) = Some p"
| "fd_id (DRun p ts) = Some p"
| "fd_id (DUnlR p ks) = Some p"
| "fd_id (DUnlW p ks) = Some p"
| "fd_id _ = None"

fun fd_pend :: "fd_pc \<Rightarrow> nat option" where
  "fd_pend (DRetry p) = Some p"
| "fd_pend (DLock p pos) = Some p"
| "fd_pend (DUpgFail p pos k) = Some p"
| "fd_pend (DAbortR p ks) = Some p"
| "fd_pend (DAbortW p ks) = Some p"
| "fd_pend (DStoreCtr p) = Some p"
| "fd_pend _ = None"

definition fd_giants :: "fd_pc \<Rightarrow> bool" where
  "fd_giants pc \<longleftrightarrow> pc = DFetch \<or> fd_pend pc \<noteq> None \<or> (\<exists>p. pc = DGiantUnl p)"

lemma fd_giants_simps [simp]:
  "\<not> fd_giants DPoint" "\<not> fd_giants DTry" "fd_giants DFetch" "fd_giants (DRetry p)" "fd_giants (DLock p pos)"
  "fd_giants (DUpgFail p pos k)" "fd_giants (DAbortR p ks)" "fd_giants (DAbortW p ks)"
  "fd_giants (DStoreCtr p)" "fd_giants (DGiantUnl p)" "\<not> fd_giants (DRun p ts)" "\<not> fd_giants (DUnlR p ks)"
  "\<not> fd_giants (DUnlW p ks)" "\<not> fd_giants DCount" "\<not> fd_giants DStop"
  by (simp_all add: fd_giants_def)

fun fd_hold :: "sa_tx \<Rightarrow> fd_pc \<Rightarrow> access" where
  "fd_hold t (DAbortR p ks) = lists_access ks (w_lock_list t)"
| "fd_hold t (DAbortW p ks) = lists_access [] ks"
| "fd_hold t (DUnlR p ks) = lists_access ks (w_lock_list t)"
| "fd_hold t (DUnlW p ks) = lists_access [] ks"
| "fd_hold t _ = lists_access (r_lock_list t) (w_lock_list t)"

definition fd_lists :: "sa_tx \<Rightarrow> bool" where
  "fd_lists t \<longleftrightarrow> distinct (r_lock_list t @ w_lock_list t)"

abbreviation fd_full :: "sa_tx \<Rightarrow> task list \<Rightarrow> bool" where
  "fd_full t ts \<equiv> fd_lists t \<and> lists_access (r_lock_list t) (w_lock_list t) = access_of ts"

definition fd_idle :: "sa_tx \<Rightarrow> bool" where
  "fd_idle t \<longleftrightarrow> r_lock_list t = [] \<and> w_lock_list t = []"

fun fd_wf_pc :: "sa_tx \<Rightarrow> fd_pc \<Rightarrow> bool" where
  "fd_wf_pc t (DLock p pos) = (pos \<le> length (task_set t) \<and> fd_full t (take pos (task_set t)))"
| "fd_wf_pc t (DUpgFail p pos k) = (fd_lists t \<and> k \<in> set (r_lock_list t))"
| "fd_wf_pc t (DAbortR p ks) = (fd_lists t \<and> distinct ks \<and> set ks \<subseteq> set (r_lock_list t))"
| "fd_wf_pc t (DAbortW p ks) = (fd_lists t \<and> distinct ks \<and> set ks \<subseteq> set (w_lock_list t))"
| "fd_wf_pc t (DStoreCtr p) = fd_full t (task_set t)"
| "fd_wf_pc t (DGiantUnl p) = fd_full t (task_set t)"
| "fd_wf_pc t (DRun p ts) = (fd_full t (task_set t) \<and> set ts \<subseteq> set (task_set t))"
| "fd_wf_pc t (DUnlR p ks) = (fd_full t (task_set t) \<and> distinct ks \<and> set ks \<subseteq> set (r_lock_list t))"
| "fd_wf_pc t (DUnlW p ks) = (fd_full t (task_set t) \<and> distinct ks \<and> set ks \<subseteq> set (w_lock_list t))"
| "fd_wf_pc t _ = fd_idle t"

section \<open>The invariants\<close>

abbreviation fd_coms :: "fd_sys \<Rightarrow> nat set" where
  "fd_coms s \<equiv> fst ` set (fd_com s)"

abbreviation fd_words :: "fd_sys \<Rightarrow> key \<Rightarrow> u32" where
  "fd_words s \<equiv> \<lambda>k. sa_lock (fd_table s k)"

abbreviation fd_holds :: "fd_sys \<Rightarrow> nat \<Rightarrow> access" where
  "fd_holds s \<equiv> \<lambda>w. fd_hold (fd_txs s w) (fd_pcs s w)"

definition fd_own :: "fd_sys \<Rightarrow> sa_tx \<Rightarrow> nat \<Rightarrow> key set \<Rightarrow> bool \<Rightarrow> bool" where
  "fd_own s t p L C \<longleftrightarrow> p < fd_counter s \<and> fd_acc s p = lists_access (r_lock_list t) (w_lock_list t) \<and>
     fd_rel s p = L \<and> (p \<in> fd_coms s \<longleftrightarrow> C)"

fun fd_link :: "fd_sys \<Rightarrow> sa_tx \<Rightarrow> fd_pc \<Rightarrow> bool" where
  "fd_link s t (DGiantUnl p) = fd_own s t p {} False"
| "fd_link s t (DRun p ts) = fd_own s t p {} False"
| "fd_link s t (DUnlR p ks) = fd_own s t p (set (r_lock_list t) - set ks) True"
| "fd_link s t (DUnlW p ks) = fd_own s t p (set (r_lock_list t) \<union> (set (w_lock_list t) - set ks)) True"
| "fd_link s t pc = (\<forall>p. fd_pend pc = Some p \<longrightarrow> p = fd_counter s)"

definition fd_fresh :: "fd_sys \<Rightarrow> bool" where
  "fd_fresh s \<longleftrightarrow> (\<forall>p \<ge> fd_counter s. fd_rel s p = {} \<and> p \<notin> fd_coms s)"

definition fd_owned :: "fd_sys \<Rightarrow> bool" where
  "fd_owned s \<longleftrightarrow> (\<forall>p k. p < fd_counter s \<longrightarrow> fd_acc s p k \<noteq> None \<longrightarrow> k \<notin> fd_rel s p \<longrightarrow>
     (\<exists>w. fd_id (fd_pcs s w) = Some p))"

definition fd_giant :: "fd_sys \<Rightarrow> bool" where
  "fd_giant s \<longleftrightarrow> (\<exists>G. held ctr_rep (lock_for_locks s) {} G \<and> {w. fd_giants (fd_pcs s w)} \<subseteq> G)"

definition fd_ids :: "fd_sys \<Rightarrow> bool" where
  "fd_ids s \<longleftrightarrow> (\<forall>v w p. fd_id (fd_pcs s v) = Some p \<longrightarrow> fd_id (fd_pcs s w) = Some p \<longrightarrow> v = w)"

definition fd_workers_inv :: "fd_sys \<Rightarrow> bool" where
  "fd_workers_inv s \<longleftrightarrow> (\<forall>w. fd_wf_pc (fd_txs s w) (fd_pcs s w) \<and> fd_link s (fd_txs s w) (fd_pcs s w))"

definition fd_inv :: "fd_config \<Rightarrow> fd_sys \<Rightarrow> bool" where
  "fd_inv c s \<longleftrightarrow> fd_ids s \<and> fd_giant s \<and> fd_workers_inv s \<and> lt_ok (fd_workers c) (fd_words s) (fd_holds s) \<and>
     fd_fresh s \<and> fd_owned s"

lemma finv:
  assumes "fd_inv c s"
  shows "fd_ids s" "fd_giant s" "lt_ok (fd_workers c) (fd_words s) (fd_holds s)" "fd_fresh s" "fd_owned s"
    "fd_wf_pc (fd_txs s w) (fd_pcs s w)" "fd_link s (fd_txs s w) (fd_pcs s w)"
  using assms by (simp_all add: fd_inv_def fd_workers_inv_def)

lemma finv_id: "fd_inv c s \<Longrightarrow> fd_id (fd_pcs s v) = Some p \<Longrightarrow> fd_id (fd_pcs s w) = Some p \<Longrightarrow> v = w"
  unfolding fd_inv_def fd_ids_def by blast

lemma finv_giant: "fd_inv c s \<Longrightarrow> fd_giants (fd_pcs s v) \<Longrightarrow> fd_giants (fd_pcs s w) \<Longrightarrow> v = w"
proof -
  assume inv: "fd_inv c s" and v: "fd_giants (fd_pcs s v)" and w: "fd_giants (fd_pcs s w)"
  obtain G where G: "held ctr_rep (lock_for_locks s) {} G" "{w. fd_giants (fd_pcs s w)} \<subseteq> G"
    using finv(2) [OF inv] unfolding fd_giant_def by blast
  with v w have "v \<in> G" "w \<in> G" by auto
  with rwl.held_excl [OF G(1), of v] show ?thesis by auto
qed

section \<open>A step of one worker\<close>

lemma fd_upd_simps [simp]:
  "fd_table (fd_upd w t pc s) = fd_table s" "lock_for_locks (fd_upd w t pc s) = lock_for_locks s"
  "fd_counter (fd_upd w t pc s) = fd_counter s" "fd_txs (fd_upd w t pc s) = (fd_txs s)(w := t)"
  "fd_pcs (fd_upd w t pc s) = (fd_pcs s)(w := pc)" "fd_acc (fd_upd w t pc s) = fd_acc s"
  "fd_rel (fd_upd w t pc s) = fd_rel s" "fd_read (fd_upd w t pc s) = fd_read s"
  "fd_write (fd_upd w t pc s) = fd_write s" "fd_com (fd_upd w t pc s) = fd_com s"
  "fd_table (fd_goto w pc s) = fd_table s" "lock_for_locks (fd_goto w pc s) = lock_for_locks s"
  "fd_counter (fd_goto w pc s) = fd_counter s" "fd_txs (fd_goto w pc s) = fd_txs s"
  "fd_pcs (fd_goto w pc s) = (fd_pcs s)(w := pc)" "fd_acc (fd_goto w pc s) = fd_acc s"
  "fd_rel (fd_goto w pc s) = fd_rel s" "fd_read (fd_goto w pc s) = fd_read s"
  "fd_write (fd_goto w pc s) = fd_write s" "fd_com (fd_goto w pc s) = fd_com s"
  by (simp_all add: fd_upd_def fd_goto_def)

lemma fd_set_lock_simps [simp]:
  "fd_words (fd_set_lock k c s) = (fd_words s)(k := c)"
  "lock_for_locks (fd_set_lock k c s) = lock_for_locks s"
  "fd_counter (fd_set_lock k c s) = fd_counter s" "fd_txs (fd_set_lock k c s) = fd_txs s"
  "fd_pcs (fd_set_lock k c s) = fd_pcs s" "fd_acc (fd_set_lock k c s) = fd_acc s"
  "fd_rel (fd_set_lock k c s) = fd_rel s" "fd_read (fd_set_lock k c s) = fd_read s"
  "fd_write (fd_set_lock k c s) = fd_write s" "fd_com (fd_set_lock k c s) = fd_com s"
  "sa_value (fd_table (fd_set_lock k c s) j) = sa_value (fd_table s j)"
  by (auto simp: fd_set_lock_def set_sa_lock_def fun_eq_iff)

definition fd_alike :: "nat set \<Rightarrow> fd_sys \<Rightarrow> fd_sys \<Rightarrow> bool" where
  "fd_alike P s s' \<longleftrightarrow> (\<forall>q. q \<notin> P \<longrightarrow> fd_acc s' q = fd_acc s q \<and> fd_rel s' q = fd_rel s q \<and>
     (q \<in> fd_coms s' \<longleftrightarrow> q \<in> fd_coms s))"

lemma fd_link_alike:
  assumes "fd_alike P s s'" "\<And>p. fd_id pc = Some p \<Longrightarrow> p \<notin> P" "fd_counter s \<le> fd_counter s'"
    and "fd_counter s' = fd_counter s \<or> \<not> fd_giants pc" "fd_link s t pc"
  shows "fd_link s' t pc"
  using assms by (cases pc) (auto simp: fd_own_def fd_alike_def)

lemma fd_inv_step:
  assumes inv: "fd_inv c s" and w: "w < fd_workers c" and n: "fd_workers c \<le> 2 ^ 32 - 2"
    and s': "fd_pcs s' = (fd_pcs s)(w := pc')" "fd_txs s' = (fd_txs s)(w := t')"
    and ids: "\<And>v p. v \<noteq> w \<Longrightarrow> fd_id pc' = Some p \<Longrightarrow> fd_id (fd_pcs s v) \<noteq> Some p"
    and P: "fd_alike P s s'" "\<And>v p. v \<noteq> w \<Longrightarrow> fd_id (fd_pcs s v) = Some p \<Longrightarrow> p \<notin> P"
    and ctr: "fd_counter s \<le> fd_counter s'" "fd_counter s' = fd_counter s \<or> fd_giants (fd_pcs s w)"
    and new: "fd_wf_pc t' pc'" "fd_link s' t' pc'"
    and mv: "lt_move (fd_words s) (fd_hold (fd_txs s w) (fd_pcs s w)) (fd_words s') (fd_hold t' pc')"
    and glob: "fd_giant s'" "fd_fresh s'" "fd_owned s'"
  shows "fd_inv c s'"
proof -
  have "fd_ids s'"
    unfolding fd_ids_def s' using ids finv_id [OF inv] by (metis fun_upd_apply)
  moreover have "fd_link s' (fd_txs s v) (fd_pcs s v)" if v: "v \<noteq> w" for v
    using P(1) P(2) [OF v] ctr(1) _ finv(7) [OF inv]
  proof (rule fd_link_alike)
    show "fd_counter s' = fd_counter s \<or> \<not> fd_giants (fd_pcs s v)"
      using ctr(2) finv_giant [OF inv, of v w] v by blast
  qed
  then have "fd_workers_inv s'" using new finv(6) [OF inv] by (simp add: fd_workers_inv_def s')
  moreover have "fd_holds s' = (fd_holds s)(w := fd_hold t' pc')" by (auto simp: s' fun_eq_iff)
  then have "lt_ok (fd_workers c) (fd_words s') (fd_holds s')"
    using lt_move_ok [OF mv, of "fd_holds s" w, OF refl finv(3) [OF inv] w n] by argo
  ultimately show ?thesis using glob by (simp add: fd_inv_def)
qed

definition fd_same :: "fd_sys \<Rightarrow> fd_sys \<Rightarrow> bool" where
  "fd_same s s' \<longleftrightarrow> fd_counter s' = fd_counter s \<and> fd_acc s' = fd_acc s \<and> fd_rel s' = fd_rel s \<and>
     fd_com s' = fd_com s"

lemma fd_owned_same:
  assumes "fd_owned s" "fd_pcs s' = (fd_pcs s)(w := pc')" "fd_counter s' = fd_counter s" "fd_acc s' = fd_acc s"
    and "\<And>p. fd_rel s p \<subseteq> fd_rel s' p"
    and "fd_id pc' = fd_id (fd_pcs s w) \<or> (\<exists>p. fd_id (fd_pcs s w) = Some p \<and> (\<forall>k. fd_acc s p k \<noteq> None \<longrightarrow> k \<in> fd_rel s' p))"
  shows "fd_owned s'"
  unfolding fd_owned_def assms(2,3,4)
proof (intro allI impI)
  fix p k assume p: "p < fd_counter s" "fd_acc s p k \<noteq> None" "k \<notin> fd_rel s' p"
  with assms(1,5) obtain v where v: "fd_id (fd_pcs s v) = Some p" unfolding fd_owned_def by blast
  have "fd_id (((fd_pcs s)(w := pc')) v) = Some p" using v p assms(6) by auto
  then show "\<exists>v. fd_id (((fd_pcs s)(w := pc')) v) = Some p" by blast
qed

lemma fd_giant_same:
  assumes "fd_giant s" "lock_for_locks s' = lock_for_locks s" "fd_pcs s' = (fd_pcs s)(w := pc')"
    and "fd_giants pc' \<longrightarrow> fd_giants (fd_pcs s w)"
  shows "fd_giant s'"
proof -
  have "{v. fd_giants (fd_pcs s' v)} \<subseteq> {v. fd_giants (fd_pcs s v)}" using assms(3,4) by auto
  with assms(1,2) show ?thesis unfolding fd_giant_def by (metis subset_trans)
qed

text \<open>A step that leaves the ghost state on transaction numbers alone.\<close>

lemma fd_inv_same:
  assumes inv: "fd_inv c s" and w: "w < fd_workers c" and n: "fd_workers c \<le> 2 ^ 32 - 2"
    and s': "fd_pcs s' = (fd_pcs s)(w := pc')" "fd_txs s' = (fd_txs s)(w := t')"
    and same: "fd_same s s'" and giant: "fd_giant s'"
    and pc: "fd_id pc' = fd_id (fd_pcs s w) \<or>
      fd_id pc' = None \<and> (\<exists>p. fd_id (fd_pcs s w) = Some p \<and> (\<forall>k. fd_acc s p k \<noteq> None \<longrightarrow> k \<in> fd_rel s p))"
    and new: "fd_wf_pc t' pc'" "fd_link s t' pc'"
    and mv: "lt_move (fd_words s) (fd_hold (fd_txs s w) (fd_pcs s w)) (fd_words s') (fd_hold t' pc')"
  shows "fd_inv c s'"
proof (rule fd_inv_step [OF inv w n s'])
  show "fd_id (fd_pcs s v) \<noteq> Some p" if "v \<noteq> w" "fd_id pc' = Some p" for v p
  proof -
    have "fd_id (fd_pcs s w) = Some p" using that(2) pc by (metis option.distinct(1))
    with finv_id [OF inv, of v p w] that(1) show ?thesis by blast
  qed
  show alike: "fd_alike {} s s'" using same by (simp add: fd_alike_def fd_same_def)
  show "fd_link s' t' pc'"
    by (rule fd_link_alike [OF alike _ _ _ new(2)]) (use same in \<open>simp_all add: fd_same_def\<close>)
  show "fd_fresh s'" using finv(4) [OF inv] same by (simp add: fd_fresh_def fd_same_def)
  show "fd_owned s'"
    by (rule fd_owned_same [OF finv(5) [OF inv] s'(1)]) (use same pc in \<open>auto simp: fd_same_def\<close>)
qed (use same new mv giant in \<open>simp_all add: fd_same_def\<close>)

lemma fd_inv_local:
  assumes inv: "fd_inv c s" and w: "w < fd_workers c" and n: "fd_workers c \<le> 2 ^ 32 - 2"
    and s': "fd_pcs s' = (fd_pcs s)(w := pc')" "fd_txs s' = (fd_txs s)(w := t')"
    and same: "fd_same s s'" "lock_for_locks s' = lock_for_locks s"
    and pc: "fd_id pc' = fd_id (fd_pcs s w)" "fd_giants pc' \<longrightarrow> fd_giants (fd_pcs s w)"
    and new: "fd_wf_pc t' pc'" "fd_link s t' pc'"
    and mv: "lt_move (fd_words s) (fd_hold (fd_txs s w) (fd_pcs s w)) (fd_words s') (fd_hold t' pc')"
  shows "fd_inv c s'"
  by (rule fd_inv_same [OF inv w n s' same(1) _ _ new mv])
    (use pc fd_giant_same [OF finv(2) [OF inv] same(2) s'(1)] in simp_all)

lemma fd_inv_goto:
  assumes inv: "fd_inv c s" and w: "w < fd_workers c" and n: "fd_workers c \<le> 2 ^ 32 - 2"
    and pc: "fd_id pc' = fd_id (fd_pcs s w)" "fd_giants pc' \<longrightarrow> fd_giants (fd_pcs s w)"
    and new: "fd_wf_pc (fd_txs s w) pc'" "fd_link s (fd_txs s w) pc'"
    and hold: "fd_hold (fd_txs s w) pc' = fd_hold (fd_txs s w) (fd_pcs s w)"
  shows "fd_inv c (fd_goto w pc' s)"
proof (rule fd_inv_local [OF inv w n _ _ _ _ pc new])
  show "fd_txs (fd_goto w pc' s) = (fd_txs s)(w := fd_txs s w)" by simp
  show "lt_move (fd_words s) (fd_hold (fd_txs s w) (fd_pcs s w)) (fd_words (fd_goto w pc' s)) (fd_hold (fd_txs s w) pc')"
    unfolding hold by (simp add: lt_keep)
qed (simp_all add: fd_same_def)

end
