(* ===== verification/Fairdet_Steps.thy ===== *)
theory Fairdet_Steps
  imports Fairdet_Proofs
begin

text \<open>
  Every step of a worker of the giant-lock executor keeps the invariants.
\<close>

section \<open>Locking\<close>

lemma fd_word_abort [simp]: "fd_words (fd_abort w p t s) = fd_words s"
  by (simp add: fd_abort_def)

lemma fd_hold_giant:
  "fd_pcs s w = DLock p pos \<Longrightarrow> fd_hold t (DLock p pos) = lists_access (r_lock_list t) (w_lock_list t)"
  by simp

lemma fd_inv_abort:
  assumes inv: "fd_inv c s" and w: "w < fd_workers c" and n: "fd_workers c \<le> 2 ^ 32 - 2"
    and pend: "fd_pend (fd_pcs s w) = Some p" "fd_id (fd_pcs s w) = None"
    and hold: "fd_hold (fd_txs s w) (fd_pcs s w) = lists_access (r_lock_list (fd_txs s w)) (w_lock_list (fd_txs s w))"
    and lists: "fd_lists (fd_txs s w)"
  shows "fd_inv c (fd_abort w p (fd_txs s w) s)"
proof -
  let ?t = "fd_txs s w"
  have ctr: "p = fd_counter s" using finv(7) [OF inv, of w] pend by (cases "fd_pcs s w") auto
  have g: "fd_giants (fd_pcs s w)" using pend by (simp add: fd_giants_def)
  show ?thesis
  proof (rule fd_inv_local [OF inv w n, where pc' = "DAbortR p (r_lock_list ?t)" and t' = "?t\<lparr>sa_status := SaAborted\<rparr>"])
    show "lt_move (fd_words s) (fd_hold ?t (fd_pcs s w)) (fd_words (fd_abort w p ?t s))
       (fd_hold (?t\<lparr>sa_status := SaAborted\<rparr>) (DAbortR p (r_lock_list ?t)))"
      by (simp add: hold lt_keep)
  qed (use pend ctr g lists in \<open>simp_all add: fd_abort_def fd_same_def fd_lists_def\<close>)
qed

lemma fd_inv_advance:
  assumes inv: "fd_inv c s" and w: "w < fd_workers c" and n: "fd_workers c \<le> 2 ^ 32 - 2"
    and pc: "fd_pcs s w = DLock p pos" and pos: "pos < length (task_set t')" "task_set t' = task_set (fd_txs s w)"
    and acc: "fd_full t' (take (Suc pos) (task_set t'))"
    and s': "fd_pcs s' = (fd_pcs s)(w := DLock p (Suc pos))" "fd_txs s' = (fd_txs s)(w := t')"
      "fd_same s s'" "lock_for_locks s' = lock_for_locks s"
    and mv: "lt_move (fd_words s) (lists_access (r_lock_list (fd_txs s w)) (w_lock_list (fd_txs s w)))
      (fd_words s') (lists_access (r_lock_list t') (w_lock_list t'))"
  shows "fd_inv c s'"
  by (rule fd_inv_local [OF inv w n s']) (use pc pos acc mv finv(7) [OF inv, of w] in simp_all)

lemma fd_inv_lock_read:
  assumes inv: "fd_inv c s" and w: "w < fd_workers c" and n: "fd_workers c \<le> 2 ^ 32 - 2"
    and pc: "fd_pcs s w = DLock p pos" and pos: "pos < length (task_set (fd_txs s w))"
    and item: "task_ope (task_set (fd_txs s w) ! pos) = OpRead" "k = task_key (task_set (fd_txs s w) ! pos)"
  shows "fd_inv c (fd_lock_read w p pos k s)"
proof -
  let ?t = "fd_txs s w"
  have full: "fd_full ?t (take pos (task_set ?t))" using finv(6) [OF inv, of w] pc by simp
  then have lists: "fd_lists ?t" and acc: "access_of (take pos (task_set ?t)) = lists_access (r_lock_list ?t) (w_lock_list ?t)"
    by simp_all
  note S = access_of_take_Suc [OF pos]
  show ?thesis
  proof (cases "k \<in> set (r_lock_list ?t) \<or> k \<in> set (w_lock_list ?t)")
    case True
    have "fd_full ?t (take (Suc pos) (task_set ?t))"
      using lists True item unfolding S acc by auto
    then have "fd_inv c (fd_goto w (DLock p (Suc pos)) s)"
      by (intro fd_inv_goto [OF inv w n]) (use pos pc finv(7) [OF inv, of w] in simp_all)
    with True show ?thesis by (simp add: fd_lock_read_def Let_def)
  next
    case False
    show ?thesis
    proof (cases "r_acq (sa_lock (fd_table s k))")
      case None
      have "fd_inv c (fd_abort w p ?t s)" by (rule fd_inv_abort [OF inv w n]) (use pc lists in simp_all)
      with False None show ?thesis by (simp add: fd_lock_read_def Let_def)
    next
      case (Some v)
      let ?t' = "?t\<lparr>r_lock_list := r_lock_list ?t @ [k]\<rparr>"
      have "fd_full ?t' (take (Suc pos) (task_set ?t))"
        using lists False item unfolding S acc
        by (auto simp: fd_lists_def lists_access_simps)
      then have "fd_inv c (fd_set_lock k v (fd_upd w ?t' (DLock p (Suc pos)) s))"
      proof (intro fd_inv_advance [OF inv w n pc, of ?t'])
        show "lt_move (fd_words s) (lists_access (r_lock_list ?t) (w_lock_list ?t))
            (fd_words (fd_set_lock k v (fd_upd w ?t' (DLock p (Suc pos)) s)))
            (lists_access (r_lock_list ?t') (w_lock_list ?t'))"
          using lt_read [of "lists_access (r_lock_list ?t) (w_lock_list ?t)" k "fd_words s" v] Some False
          by (simp add: lists_access_simps)
      qed (use pos in \<open>simp_all add: fd_same_def\<close>)
      with False Some show ?thesis by (simp add: fd_lock_read_def Let_def)
    qed
  qed
qed

lemma fd_inv_lock_write:
  assumes inv: "fd_inv c s" and w: "w < fd_workers c" and n: "fd_workers c \<le> 2 ^ 32 - 2"
    and pc: "fd_pcs s w = DLock p pos" and pos: "pos < length (task_set (fd_txs s w))"
    and item: "task_ope (task_set (fd_txs s w) ! pos) = OpWrite" "k = task_key (task_set (fd_txs s w) ! pos)"
  shows "fd_inv c (fd_lock_write w p pos k s)"
proof -
  let ?t = "fd_txs s w" and ?c = "sa_lock (fd_table s k)"
  have full: "fd_full ?t (take pos (task_set ?t))" using finv(6) [OF inv, of w] pc by simp
  then have lists: "fd_lists ?t" and acc: "access_of (take pos (task_set ?t)) = lists_access (r_lock_list ?t) (w_lock_list ?t)"
    by simp_all
  note S = access_of_take_Suc [OF pos]
  have abort: "fd_inv c (fd_abort w p ?t s)" by (rule fd_inv_abort [OF inv w n]) (use pc lists in simp_all)
  have adv: "fd_inv c (fd_set_lock k v (fd_upd w t' (DLock p (Suc pos)) s))"
    if t': "task_set t' = task_set ?t" "fd_lists t'"
      "lists_access (r_lock_list t') (w_lock_list t') = (lists_access (r_lock_list ?t) (w_lock_list ?t))(k := Some True)"
      "lt_move (fd_words s) (lists_access (r_lock_list ?t) (w_lock_list ?t)) ((fd_words s)(k := v))
        ((lists_access (r_lock_list ?t) (w_lock_list ?t))(k := Some True))" for t' v
  proof (rule fd_inv_advance [OF inv w n pc, of t'])
    show "fd_full t' (take (Suc pos) (task_set t'))" using t' item unfolding t'(1) S acc by simp
  qed (use pos t' in \<open>simp_all add: fd_same_def\<close>)
  show ?thesis
  proof (cases "k \<in> set (r_lock_list ?t)")
    case True
    then have nw: "k \<notin> set (w_lock_list ?t)" using lists by (auto simp: fd_lists_def)
    show ?thesis
    proof (cases "upg ?c")
      case None
      have "fd_inv c (fd_goto w (DUpgFail p pos k) s)"
        by (rule fd_inv_goto [OF inv w n]) (use pc lists True finv(7) [OF inv, of w] in simp_all)
      with None True nw show ?thesis by (simp add: fd_lock_write_def Let_def)
    next
      case (Some v)
      have "fd_inv c (fd_set_lock k v (fd_upd w
          (?t\<lparr>w_lock_list := w_lock_list ?t @ [k], r_lock_list := remove1 k (r_lock_list ?t)\<rparr>) (DLock p (Suc pos)) s))"
        by (rule adv) (use lists True nw Some in \<open>auto simp: fd_lists_def lists_access_erase lists_access_def
            intro!: lt_upgrade dest: notin_set_remove1\<close>)
      with Some True show ?thesis by (simp add: fd_lock_write_def Let_def)
    qed
  next
    case nr: False
    show ?thesis
    proof (cases "k \<in> set (w_lock_list ?t)")
      case True
      have "(lists_access (r_lock_list ?t) (w_lock_list ?t))(k := Some True) = lists_access (r_lock_list ?t) (w_lock_list ?t)"
        using True by (auto simp: lists_access_def fun_eq_iff)
      then have "fd_full ?t (take (Suc pos) (task_set ?t))" using lists item unfolding S acc by simp
      then have "fd_inv c (fd_goto w (DLock p (Suc pos)) s)"
        by (intro fd_inv_goto [OF inv w n]) (use pos pc finv(7) [OF inv, of w] in simp_all)
      with True nr show ?thesis by (simp add: fd_lock_write_def Let_def)
    next
      case nw: False
      show ?thesis
      proof (cases "w_acq ?c")
        case None
        with abort nr nw show ?thesis by (simp add: fd_lock_write_def Let_def)
      next
        case (Some v)
        have "fd_inv c (fd_set_lock k v (fd_upd w (?t\<lparr>w_lock_list := w_lock_list ?t @ [k]\<rparr>) (DLock p (Suc pos)) s))"
          by (rule adv) (use lists nr nw Some in \<open>auto simp: fd_lists_def lists_access_simps(3) intro!: lt_write\<close>)
        with Some nr nw show ?thesis by (simp add: fd_lock_write_def Let_def)
      qed
    qed
  qed
qed

text \<open>After a failed upgrade the write lock is not free either: the worker reads the record itself.\<close>

lemma fd_inv_upg_fail:
  assumes inv: "fd_inv c s" and w: "w < fd_workers c" and n: "fd_workers c \<le> 2 ^ 32 - 2"
    and pc: "fd_pcs s w = DUpgFail p pos k"
  shows "fd_inv c (fd_upg_fail w p k s)" "w_acq (sa_lock (fd_table s k)) = None"
proof -
  let ?t = "fd_txs s w"
  have wf: "fd_lists ?t" "k \<in> set (r_lock_list ?t)" using finv(6) [OF inv, of w] pc by simp_all
  then have "fd_holds s w k = Some False" using pc by (auto simp: lists_access_def fd_lists_def)
  from lt_word(2) [OF finv(3) [OF inv] this] show none: "w_acq (sa_lock (fd_table s k)) = None"
    by (simp add: w_acq_def)
  have "fd_inv c (fd_abort w p ?t s)" by (rule fd_inv_abort [OF inv w n]) (use pc wf in simp_all)
  with none show "fd_inv c (fd_upg_fail w p k s)" by (simp add: fd_upg_fail_def Let_def)
qed

lemma fd_inv_lock:
  assumes inv: "fd_inv c s" and w: "w < fd_workers c" and n: "fd_workers c \<le> 2 ^ 32 - 2"
    and pc: "fd_pcs s w = DLock p pos"
  shows "fd_inv c (fd_lock w p pos s)"
proof -
  let ?t = "fd_txs s w"
  have full: "pos \<le> length (task_set ?t)" "fd_full ?t (take pos (task_set ?t))" using finv(6) [OF inv, of w] pc by simp_all
  note link = finv(7) [OF inv, of w]
  show ?thesis
  proof (cases "pos < length (task_set ?t)")
    case True
    note S = access_of_take_Suc [OF True]
    have sleep: "fd_inv c (fd_goto w (DLock p (Suc pos)) s)" if "task_ope (task_set ?t ! pos) = OpSleep"
      by (rule fd_inv_goto [OF inv w n]) (use True full that S pc link in simp_all)
    show ?thesis
      using True sleep fd_inv_lock_read [OF inv w n pc True _ refl] fd_inv_lock_write [OF inv w n pc True _ refl]
      by (simp add: fd_lock_def Let_def split: sa_ope.split)
  next
    case False
    with full have "take pos (task_set ?t) = task_set ?t" by simp
    with full have "fd_inv c (fd_goto w (DStoreCtr p) s)"
      by (intro fd_inv_goto [OF inv w n]) (use pc link in simp_all)
    with False show ?thesis by (simp add: fd_lock_def Let_def)
  qed
qed

section \<open>Releasing\<close>

lemma fd_word_release [simp]: "fd_words (fd_release w rel k pc s) = (fd_words s)(k := rel (fd_words s k))"
  by (simp add: fd_release_def)

lemma fd_release_simps [simp]:
  "lock_for_locks (fd_release w rel k pc s) = lock_for_locks s"
  "fd_counter (fd_release w rel k pc s) = fd_counter s" "fd_txs (fd_release w rel k pc s) = fd_txs s"
  "fd_pcs (fd_release w rel k pc s) = (fd_pcs s)(w := pc)" "fd_acc (fd_release w rel k pc s) = fd_acc s"
  "fd_rel (fd_release w rel k pc s) = fd_rel s" "fd_read (fd_release w rel k pc s) = fd_read s"
  "fd_write (fd_release w rel k pc s) = fd_write s" "fd_com (fd_release w rel k pc s) = fd_com s"
  "sa_value (fd_table (fd_release w rel k pc s) j) = sa_value (fd_table s j)"
  by (simp_all add: fd_release_def)

lemma fd_inv_abort_r:
  assumes inv: "fd_inv c s" and w: "w < fd_workers c" and n: "fd_workers c \<le> 2 ^ 32 - 2"
    and pc: "fd_pcs s w = DAbortR p (k # ks)"
  shows "fd_inv c (fd_release w r_rel k (DAbortR p ks) s)"
proof -
  let ?t = "fd_txs s w"
  have wf: "fd_lists ?t" "distinct (k # ks)" "set (k # ks) \<subseteq> set (r_lock_list ?t)"
    using finv(6) [OF inv, of w] pc by simp_all
  then have k: "k \<notin> set ks" "k \<notin> set (w_lock_list ?t)" by (auto simp: fd_lists_def)
  show ?thesis
  proof (rule fd_inv_local [OF inv w n])
    show "fd_txs (fd_release w r_rel k (DAbortR p ks) s) = (fd_txs s)(w := ?t)" by simp
    show "lt_move (fd_words s) (fd_hold ?t (fd_pcs s w)) (fd_words (fd_release w r_rel k (DAbortR p ks) s))
        (fd_hold ?t (DAbortR p ks))"
      using lt_move_unread [OF k, of "fd_words s"] pc by simp
  qed (use pc wf finv(7) [OF inv, of w] in \<open>simp_all add: fd_same_def\<close>)
qed

lemma fd_inv_abort_w:
  assumes inv: "fd_inv c s" and w: "w < fd_workers c" and n: "fd_workers c \<le> 2 ^ 32 - 2"
    and pc: "fd_pcs s w = DAbortW p (k # ks)"
  shows "fd_inv c (fd_release w w_rel k (DAbortW p ks) s)"
proof -
  let ?t = "fd_txs s w"
  have wf: "fd_lists ?t" "distinct (k # ks)" "set (k # ks) \<subseteq> set (w_lock_list ?t)"
    using finv(6) [OF inv, of w] pc by simp_all
  then have k: "k \<notin> set ks" "k \<notin> set []" by simp_all
  show ?thesis
  proof (rule fd_inv_local [OF inv w n])
    show "fd_txs (fd_release w w_rel k (DAbortW p ks) s) = (fd_txs s)(w := ?t)" by simp
    show "lt_move (fd_words s) (fd_hold ?t (fd_pcs s w)) (fd_words (fd_release w w_rel k (DAbortW p ks) s))
        (fd_hold ?t (DAbortW p ks))"
      using lt_move_unwrite [OF k, of "fd_words s"] pc by simp
  qed (use pc wf finv(7) [OF inv, of w] in \<open>simp_all add: fd_same_def\<close>)
qed

lemma fd_released_simps [simp]:
  "fd_table (fd_released p k s) = fd_table s" "lock_for_locks (fd_released p k s) = lock_for_locks s"
  "fd_counter (fd_released p k s) = fd_counter s" "fd_txs (fd_released p k s) = fd_txs s"
  "fd_pcs (fd_released p k s) = fd_pcs s" "fd_acc (fd_released p k s) = fd_acc s"
  "fd_rel (fd_released p k s) = (fd_rel s)(p := insert k (fd_rel s p))"
  "fd_read (fd_released p k s) = fd_read s" "fd_write (fd_released p k s) = fd_write s"
  "fd_com (fd_released p k s) = fd_com s"
  by (simp_all add: fd_released_def)

lemma fd_inv_unlock:
  assumes inv: "fd_inv c s" and w: "w < fd_workers c" and n: "fd_workers c \<le> 2 ^ 32 - 2"
    and id: "fd_id (fd_pcs s w) = Some p" "fd_id pc' = Some p" "\<not> fd_giants pc'"
    and own: "fd_own s (fd_txs s w) p L True"
    and new: "fd_wf_pc (fd_txs s w) pc'"
      "\<And>u. fd_own u (fd_txs s w) p (insert k L) True \<Longrightarrow> fd_link u (fd_txs s w) pc'"
    and mv: "lt_move (fd_words s) (fd_hold (fd_txs s w) (fd_pcs s w)) ((fd_words s)(k := rel (fd_words s k)))
      (fd_hold (fd_txs s w) pc')"
  shows "fd_inv c (fd_released p k (fd_release w rel k pc' s))" (is "fd_inv c ?s")
proof (rule fd_inv_step [OF inv w n])
  show tx: "fd_txs ?s = (fd_txs s)(w := fd_txs s w)" and pcs: "fd_pcs ?s = (fd_pcs s)(w := pc')" by simp_all
  show "fd_id (fd_pcs s v) \<noteq> Some q" if "v \<noteq> w" "fd_id pc' = Some q" for v q
    using finv_id [OF inv, of v q w] that id by auto
  show "fd_alike {p} s ?s" by (simp add: fd_alike_def)
  show "q \<notin> {p}" if "v \<noteq> w" "fd_id (fd_pcs s v) = Some q" for v q
    using finv_id [OF inv, of v q w] that id by auto
  show "fd_link ?s (fd_txs s w) pc'" by (rule new(2)) (use own in \<open>simp add: fd_own_def\<close>)
  show "fd_giant ?s" by (rule fd_giant_same [OF finv(2) [OF inv] _ pcs]) (use id in simp_all)
  show "fd_fresh ?s" using finv(4) [OF inv] own by (simp add: fd_fresh_def fd_own_def)
  show "fd_owned ?s" by (rule fd_owned_same [OF finv(5) [OF inv] pcs]) (use id in auto)
qed (use new mv in simp_all)

lemma fd_inv_unlock_r:
  assumes inv: "fd_inv c s" and w: "w < fd_workers c" and n: "fd_workers c \<le> 2 ^ 32 - 2"
    and pc: "fd_pcs s w = DUnlR p (k # ks)"
  shows "fd_inv c (fd_released p k (fd_release w r_rel k (DUnlR p ks) s))"
proof -
  let ?t = "fd_txs s w"
  have wf: "fd_full ?t (task_set ?t)" "distinct (k # ks)" "set (k # ks) \<subseteq> set (r_lock_list ?t)"
    using finv(6) [OF inv, of w] pc by simp_all
  then have k: "k \<notin> set ks" "k \<notin> set (w_lock_list ?t)" by (auto simp: fd_lists_def)
  have own: "fd_own s ?t p (set (r_lock_list ?t) - set (k # ks)) True" using finv(7) [OF inv, of w] pc by simp
  have L: "insert k (set (r_lock_list ?t) - set (k # ks)) = set (r_lock_list ?t) - set ks" using wf by auto
  show ?thesis
    by (rule fd_inv_unlock [OF inv w n _ _ _ own])
      (use pc wf L lt_move_unread [OF k, of "fd_words s"] in simp_all)
qed

lemma fd_inv_unlock_w:
  assumes inv: "fd_inv c s" and w: "w < fd_workers c" and n: "fd_workers c \<le> 2 ^ 32 - 2"
    and pc: "fd_pcs s w = DUnlW p (k # ks)"
  shows "fd_inv c (fd_released p k (fd_release w w_rel k (DUnlW p ks) s))"
proof -
  let ?t = "fd_txs s w"
  have wf: "fd_full ?t (task_set ?t)" "distinct (k # ks)" "set (k # ks) \<subseteq> set (w_lock_list ?t)"
    using finv(6) [OF inv, of w] pc by simp_all
  then have k: "k \<notin> set ks" "k \<notin> set []" by simp_all
  have own: "fd_own s ?t p (set (r_lock_list ?t) \<union> (set (w_lock_list ?t) - set (k # ks))) True"
    using finv(7) [OF inv, of w] pc by simp
  have L: "insert k (set (r_lock_list ?t) \<union> (set (w_lock_list ?t) - set (k # ks))) =
      set (r_lock_list ?t) \<union> (set (w_lock_list ?t) - set ks)" using wf by auto
  show ?thesis
    by (rule fd_inv_unlock [OF inv w n _ _ _ own])
      (use pc wf L lt_move_unwrite [OF k, of "fd_words s"] in simp_all)
qed

section \<open>Entering, running, committing\<close>

lemma fd_inv_exec:
  assumes inv: "fd_inv c s" and w: "w < fd_workers c" and n: "fd_workers c \<le> 2 ^ 32 - 2"
    and pc: "fd_pcs s w = DRun p (task # rest)"
  shows "fd_inv c (fd_exec w p task rest s)"
proof -
  let ?t = "fd_txs s w"
  have wf: "fd_full ?t (task_set ?t)" "set rest \<subseteq> set (task_set ?t)" and own: "fd_own s ?t p {} False"
    using finv(6,7) [OF inv, of w] pc by simp_all
  have step: "fd_inv c s'" if s': "fd_pcs s' = (fd_pcs s)(w := DRun p rest)" "fd_txs s' = (fd_txs s)(w := t')"
    "fd_same s s'" "lock_for_locks s' = lock_for_locks s" "fd_words s' = fd_words s"
    "task_set t' = task_set ?t" "r_lock_list t' = r_lock_list ?t" "w_lock_list t' = w_lock_list ?t" for s' t'
    by (rule fd_inv_local [OF inv w n s'(1,2,3,4)])
      (use s' wf own pc in \<open>simp_all add: fd_own_def fd_lists_def lt_keep\<close>)
  show ?thesis
  proof (cases "task_ope task")
    case OpRead
    show ?thesis unfolding fd_exec_def Let_def OpRead sa_ope.case
      by (rule step [where t' = "sa_read (task_key task) (sa_value (fd_table s (task_key task))) ?t"]) (simp_all add: fd_same_def sa_read_def)
  next
    case OpWrite
    show ?thesis unfolding fd_exec_def Let_def OpWrite sa_ope.case
      by (rule step [where t' = "sa_write (task_key task) ?t"]) (simp_all add: fd_same_def sa_write_def set_sa_value_def fun_eq_iff)
  next
    case OpSleep
    have "fd_inv c (fd_goto w (DRun p rest) s)" by (rule fd_inv_goto [OF inv w n]) (use pc wf own in simp_all)
    with OpSleep show ?thesis by (simp add: fd_exec_def)
  qed
qed

lemma fd_inv_commit:
  assumes inv: "fd_inv c s" and w: "w < fd_workers c" and n: "fd_workers c \<le> 2 ^ 32 - 2"
    and pc: "fd_pcs s w = DRun p []"
  shows "fd_inv c (fd_commit w p s)" (is "fd_inv c ?s")
proof -
  let ?t = "fd_txs s w"
  have wf: "fd_full ?t (task_set ?t)" and own: "fd_own s ?t p {} False"
    using finv(6,7) [OF inv, of w] pc by simp_all
  have id: "fd_id (fd_pcs s w) = Some p" using pc by simp
  show ?thesis
  proof (rule fd_inv_step [OF inv w n])
    show pcs: "fd_pcs ?s = (fd_pcs s)(w := DUnlR p (r_lock_list ?t))" and "fd_txs ?s = (fd_txs s)(w := ?t)"
      by (simp_all add: fd_commit_def)
    show "fd_id (fd_pcs s v) \<noteq> Some q" if "v \<noteq> w" "fd_id (DUnlR p (r_lock_list ?t)) = Some q" for v q
      using finv_id [OF inv, of v q w] that id by auto
    show "fd_alike {p} s ?s" by (auto simp: fd_alike_def fd_commit_def)
    show "q \<notin> {p}" if "v \<noteq> w" "fd_id (fd_pcs s v) = Some q" for v q
      using finv_id [OF inv, of v q w] that id by auto
    show "fd_link ?s ?t (DUnlR p (r_lock_list ?t))" using own by (simp add: fd_own_def fd_commit_def)
    show "fd_giant ?s" by (rule fd_giant_same [OF finv(2) [OF inv] _ pcs]) (simp_all add: fd_commit_def)
    show "fd_fresh ?s" using finv(4) [OF inv] own by (auto simp: fd_fresh_def fd_own_def fd_commit_def)
    show "fd_owned ?s" by (rule fd_owned_same [OF finv(5) [OF inv] pcs]) (use id in \<open>simp_all add: fd_commit_def\<close>)
  qed (use pc wf in \<open>simp_all add: fd_commit_def fd_lists_def lt_keep\<close>)
qed

text \<open>The number is entered: the transaction has everything it declares.\<close>

lemma fd_inv_store:
  assumes inv: "fd_inv c s" and w: "w < fd_workers c" and n: "fd_workers c \<le> 2 ^ 32 - 2"
    and pc: "fd_pcs s w = DStoreCtr p"
  shows "fd_inv c (fd_step c w s)" (is "fd_inv c ?s")
proof -
  let ?t = "fd_txs s w"
  have wf: "fd_full ?t (task_set ?t)" and ctr: "p = fd_counter s"
    using finv(6,7) [OF inv, of w] pc by simp_all
  have old: "q < fd_counter s" if "fd_id (fd_pcs s v) = Some q" for v q
    using finv(7) [OF inv, of v] that by (cases "fd_pcs s v") (auto simp: fd_own_def)
  have g: "fd_counter ?s = Suc p" "fd_acc ?s = (fd_acc s)(p := lists_access (r_lock_list ?t) (w_lock_list ?t))"
    "fd_rel ?s = fd_rel s" "fd_com ?s = fd_com s" "fd_table ?s = fd_table s" "lock_for_locks ?s = lock_for_locks s"
    by (simp_all add: fd_step_def pc Let_def)
  have fresh: "fd_rel s p = {}" "p \<notin> fd_coms s" using finv(4) [OF inv] ctr by (simp_all add: fd_fresh_def)
  show ?thesis
  proof (rule fd_inv_step [OF inv w n])
    show pcs: "fd_pcs ?s = (fd_pcs s)(w := DGiantUnl p)" and "fd_txs ?s = (fd_txs s)(w := ?t)"
      by (simp_all add: fd_step_def pc Let_def)
    show "fd_id (fd_pcs s v) \<noteq> Some q" if "v \<noteq> w" "fd_id (DGiantUnl p) = Some q" for v q
      using old [of v q] that ctr by auto
    show "fd_alike {p} s ?s" by (simp add: fd_alike_def g)
    show "q \<notin> {p}" if "v \<noteq> w" "fd_id (fd_pcs s v) = Some q" for v q using old [OF that(2)] ctr by auto
    show "fd_link ?s ?t (DGiantUnl p)" using fresh by (simp add: fd_own_def g)
    show "fd_giant ?s" by (rule fd_giant_same [OF finv(2) [OF inv] g(6) pcs]) (simp add: pc)
    show "fd_fresh ?s" using finv(4) [OF inv] ctr by (simp add: fd_fresh_def g)
    show "fd_owned ?s"
      unfolding fd_owned_def g(1,3)
    proof (intro allI impI)
      fix q k assume q: "q < Suc p" "fd_acc ?s q k \<noteq> None" "k \<notin> fd_rel s q"
      show "\<exists>v. fd_id (fd_pcs ?s v) = Some q"
      proof (cases "q = p")
        case True
        then show ?thesis by (intro exI [of _ w]) (simp add: pcs)
      next
        case False
        with q ctr have "q < fd_counter s" "fd_acc s q k \<noteq> None" by (simp_all add: g)
        with q finv(5) [OF inv] obtain v where "fd_id (fd_pcs s v) = Some q" unfolding fd_owned_def by blast
        moreover from this pc have "v \<noteq> w" by auto
        ultimately show ?thesis by (intro exI [of _ v]) (simp add: pcs)
      qed
    qed
  qed (use pc wf ctr in \<open>simp_all add: g lt_keep\<close>)
qed

section \<open>Every step\<close>

lemma fd_giant_acq:
  assumes "fd_giant s" "w_acq (lock_for_locks s) = Some g" "lock_for_locks s' = g"
    "fd_pcs s' = (fd_pcs s)(w := pc')"
  shows "fd_giant s'"
proof -
  obtain G where G: "held ctr_rep (lock_for_locks s) {} G" "{w. fd_giants (fd_pcs s w)} \<subseteq> G"
    using assms(1) unfolding fd_giant_def by blast
  from rwl.held_wtry [OF G(1) assms(2), of w] have "held ctr_rep g {} {w}" "G = {}" by simp_all
  with G(2) assms(3,4) show ?thesis unfolding fd_giant_def by (intro exI [of _ "{w}"]) auto
qed

lemma fd_giant_rel:
  assumes "fd_giant s" "fd_giants (fd_pcs s w)" "lock_for_locks s' = w_rel (lock_for_locks s)"
    "fd_pcs s' = (fd_pcs s)(w := pc')" "\<not> fd_giants pc'"
  shows "fd_giant s'"
proof -
  obtain G where G: "held ctr_rep (lock_for_locks s) {} G" "{w. fd_giants (fd_pcs s w)} \<subseteq> G"
    using assms(1) unfolding fd_giant_def by blast
  with assms(2) have w: "w \<in> G" by auto
  from rwl.held_excl [OF G(1) w] have "G = {w}" by simp
  with G rwl.held_wunl [OF G(1) w] assms(3-5) show ?thesis
    unfolding fd_giant_def by (intro exI [of _ "{}"]) auto
qed

lemma fd_inv_fd_step:
  assumes inv: "fd_inv c s" and w: "w < fd_workers c" and n: "fd_workers c \<le> 2 ^ 32 - 2"
  shows "fd_inv c (fd_step c w s)"
proof -
  note wf = finv(6) [OF inv, of w] and link = finv(7) [OF inv, of w] and goto = fd_inv_goto [OF inv w n]
  show ?thesis
  proof (cases "fd_pcs s w")
    case DPoint
    have "fd_inv c (fd_goto w (if fd_quit s then DStop else DTry) s)" by (rule goto) (use DPoint wf in simp_all)
    with DPoint show ?thesis by (simp add: fd_step_def)
  next
    case DTry
    show ?thesis
    proof (cases "w_acq (lock_for_locks s)")
      case None
      have "fd_inv c (fd_goto w DPoint s)" by (rule goto) (use DTry wf in simp_all)
      with DTry None show ?thesis by (simp add: fd_step_def)
    next
      case (Some g)
      have "fd_inv c ((fd_goto w DFetch s)\<lparr>lock_for_locks := g\<rparr>)"
        by (rule fd_inv_same [OF inv w n, where pc' = DFetch and t' = "fd_txs s w"])
          (use DTry wf fd_giant_acq [OF finv(2) [OF inv] Some, where w = w and pc' = DFetch] in
            \<open>simp_all add: fd_same_def lt_keep\<close>)
      with DTry Some show ?thesis by (simp add: fd_step_def)
    qed
  next
    case DFetch
    have "fd_inv c (fd_goto w (if fd_counter s \<ge> fd_pre_num c then DStop else DRetry (fd_counter s)) s)"
      by (rule goto) (use DFetch wf in simp_all)
    with DFetch show ?thesis by (simp add: fd_step_def)
  next
    case (DRetry p)
    have "fd_inv c (fd_goto w DStop s)" by (rule goto) (use DRetry wf in simp_all)
    moreover have "fd_inv c (fd_upd w (sa_begin ((fd_txs s w)\<lparr>task_set := fd_pre c p\<rparr>)) (DLock p 0) s)"
      by (rule fd_inv_local [OF inv w n, where pc' = "DLock p 0" and t' = "sa_begin ((fd_txs s w)\<lparr>task_set := fd_pre c p\<rparr>)"])
        (use DRetry wf link in \<open>simp_all add: fd_same_def lt_keep fd_idle_def fd_lists_def sa_begin_def lists_access_simps(1)\<close>)
    ultimately show ?thesis using DRetry by (simp add: fd_step_def Let_def)
  next
    case (DAbortR p ks)
    show ?thesis
    proof (cases ks)
      case Nil
      have "fd_inv c (fd_goto w (DAbortW p (w_lock_list (fd_txs s w))) s)"
        by (rule goto) (use DAbortR Nil wf link in \<open>simp_all add: fd_lists_def\<close>)
      with DAbortR Nil show ?thesis by (simp add: fd_step_def)
    next
      case (Cons k ks')
      with DAbortR fd_inv_abort_r [OF inv w n] show ?thesis by (simp add: fd_step_def)
    qed
  next
    case (DAbortW p ks)
    show ?thesis
    proof (cases ks)
      case Nil
      have "fd_inv c (fd_upd w (sa_clear (fd_txs s w)) (DRetry p) s)"
        by (rule fd_inv_local [OF inv w n, where pc' = "DRetry p" and t' = "sa_clear (fd_txs s w)"])
          (use DAbortW Nil wf link in \<open>simp_all add: fd_same_def lt_keep fd_idle_def sa_clear_def\<close>)
      with DAbortW Nil show ?thesis by (simp add: fd_step_def)
    next
      case (Cons k ks')
      with DAbortW fd_inv_abort_w [OF inv w n] show ?thesis by (simp add: fd_step_def)
    qed
  next
    case (DStoreCtr p)
    then show ?thesis by (rule fd_inv_store [OF inv w n])
  next
    case (DGiantUnl p)
    have "fd_inv c ((fd_goto w (DRun p (task_set (fd_txs s w))) s)\<lparr>lock_for_locks := w_rel (lock_for_locks s)\<rparr>)"
      by (rule fd_inv_same [OF inv w n, where pc' = "DRun p (task_set (fd_txs s w))" and t' = "fd_txs s w"])
        (use DGiantUnl wf link fd_giant_rel [OF finv(2) [OF inv], where w = w and pc' = "DRun p (task_set (fd_txs s w))"]
          in \<open>simp_all add: fd_same_def lt_keep\<close>)
    with DGiantUnl show ?thesis by (simp add: fd_step_def Let_def)
  next
    case (DRun p ts)
    then show ?thesis
      using fd_inv_exec [OF inv w n] fd_inv_commit [OF inv w n] by (cases ts) (simp_all add: fd_step_def)
  next
    case (DUnlR p ks)
    show ?thesis
    proof (cases ks)
      case Nil
      have "fd_inv c (fd_goto w (DUnlW p (w_lock_list (fd_txs s w))) s)"
        by (rule goto) (use DUnlR Nil wf link in \<open>simp_all add: fd_lists_def\<close>)
      with DUnlR Nil show ?thesis by (simp add: fd_step_def)
    next
      case (Cons k ks')
      with DUnlR fd_inv_unlock_r [OF inv w n] show ?thesis by (simp add: fd_step_def)
    qed
  next
    case (DUnlW p ks)
    show ?thesis
    proof (cases ks)
      case Nil
      have "fd_own s (fd_txs s w) p (set (r_lock_list (fd_txs s w)) \<union> set (w_lock_list (fd_txs s w))) True"
        using DUnlW Nil link by simp
      then have "k \<in> fd_rel s p" if "fd_acc s p k \<noteq> None" for k
        using that by (auto simp: fd_own_def lists_access_def split: if_splits)
      then have "fd_inv c (fd_upd w (sa_clear (fd_txs s w)) DCount s)"
        by (intro fd_inv_same [OF inv w n, where pc' = DCount and t' = "sa_clear (fd_txs s w)"])
          (use DUnlW Nil wf fd_giant_same [OF finv(2) [OF inv], where w = w and pc' = DCount] in
            \<open>simp_all add: fd_same_def lt_keep fd_idle_def sa_clear_def\<close>)
      with DUnlW Nil show ?thesis by (simp add: fd_step_def)
    next
      case (Cons k ks')
      with DUnlW fd_inv_unlock_w [OF inv w n] show ?thesis by (simp add: fd_step_def)
    qed
  next
    case DCount
    have "fd_inv c (fd_step c w s)"
      by (rule fd_inv_local [OF inv w n, where pc' = DPoint and t' = "fd_txs s w"])
        (use DCount wf in \<open>simp_all add: fd_step_def fd_same_def lt_keep\<close>)
    then show ?thesis .
  next
    case DStop
    then show ?thesis using inv by (simp add: fd_step_def)
  qed (use fd_inv_lock [OF inv w n] fd_inv_upg_fail(1) [OF inv w n] in \<open>simp_all add: fd_step_def\<close>)
qed

lemma fd_init_inv: "fd_start s \<Longrightarrow> fd_inv c s"
  by (auto simp: fd_start_def fd_init_def fd_inv_def fd_ids_def fd_giant_def fd_workers_inv_def lt_ok_def
      fd_fresh_def fd_owned_def fd_idle_def sa_new_def lists_access_simps(1) ctr_rep_def
      intro!: exI [of _ "{}"] rwl.held_init)

end
