(* ===== verification/Fairdet_Theorems.thy ===== *)
theory Fairdet_Theorems
  imports Fairdet_Steps
begin

text \<open>
  What the giant-lock executor promises: the committed transactions form a serial history in
  the order of their numbers, and a transaction gets all its locks at the first attempt once
  the transactions before it have finished.
\<close>

section \<open>Refinement of ordered locking\<close>

definition fd_abs :: "fd_sys \<Rightarrow> ord" where
  "fd_abs s = \<lparr>d_clock = fd_counter s, d_acc = fd_acc s, d_got = (\<lambda>p. dom (fd_acc s p)), d_rel = fd_rel s,
     d_val = (\<lambda>k. u64_bytes (sa_value (fd_table s k))), d_reads = fd_read s, d_writes = fd_write s,
     d_com = fd_com s\<rparr>"

lemma fd_abs_same:
  assumes "fd_same s s'" "\<And>k. sa_value (fd_table s' k) = sa_value (fd_table s k)"
    "fd_read s' = fd_read s" "fd_write s' = fd_write s"
  shows "ord_step (fd_abs s) (fd_abs s')"
proof -
  have "fd_abs s' = fd_abs s" using assms by (simp add: fd_abs_def fd_same_def)
  then show ?thesis using ord_stay by metis
qed

lemma fd_abs_simps [simp]: "fd_abs (fd_goto w pc s) = fd_abs s" "fd_abs (fd_upd w t pc s) = fd_abs s"
  by (simp_all add: fd_abs_def)

lemma fd_own_active: "fd_own s t p L False \<Longrightarrow> d_active (fd_abs s) p"
  by (simp add: fd_own_def d_active_def fd_abs_def)

lemma fd_hold_acc:
  assumes "fd_link s t pc" "fd_wf_pc t pc" "fd_id pc = Some p" "k \<notin> fd_rel s p"
  shows "fd_hold t pc k = fd_acc s p k"
proof -
  have acc: "fd_acc s p = lists_access (r_lock_list t) (w_lock_list t)"
    using assms(1,3) by (cases pc) (auto simp: fd_own_def)
  show ?thesis
  proof (cases pc)
    case (DUnlR q ks)
    then have "set ks \<subseteq> set (r_lock_list t)" "k \<notin> set (r_lock_list t) - set ks"
      using assms by (auto simp: fd_own_def)
    with DUnlR acc show ?thesis by (auto simp: lists_access_def)
  next
    case (DUnlW q ks)
    then have "set ks \<subseteq> set (w_lock_list t)" "k \<notin> set (r_lock_list t) \<union> (set (w_lock_list t) - set ks)"
      using assms by (auto simp: fd_own_def)
    with DUnlW acc show ?thesis by (auto simp: lists_access_def)
  qed (use assms(3) acc in simp_all)
qed

lemma fd_store_sim:
  assumes inv: "fd_inv c s" and pc: "fd_pcs s w = DStoreCtr p"
  shows "ord_step (fd_abs s) (fd_abs (fd_step c w s))"
proof -
  let ?t = "fd_txs s w"
  let ?a = "lists_access (r_lock_list ?t) (w_lock_list ?t)"
  have ctr: "p = fd_counter s" using finv(7) [OF inv, of w] pc by simp
  have "k \<in> fd_rel s q" if q: "q < p" and cf: "conflict (fd_acc s q) ?a k" for q k
  proof (rule ccontr)
    assume r: "k \<notin> fd_rel s q"
    from cf obtain x y where xy: "fd_acc s q k = Some x" "?a k = Some y" unfolding conflict_def by blast
    with cf have "x \<or> y" by (auto simp: conflict_def)
    with xy(1) r q ctr finv(5) [OF inv] obtain v where v: "fd_id (fd_pcs s v) = Some q" unfolding fd_owned_def by blast
    have "fd_holds s v k = Some x" using fd_hold_acc [OF finv(7,6) [OF inv] v r] xy by simp
    moreover have "fd_holds s w k = Some y" using pc xy by simp
    ultimately have "v = w" using lt_excl [OF finv(3) [OF inv]] \<open>x \<or> y\<close> by blast
    with v pc show False by simp
  qed
  then have "\<forall>k \<in> dom ?a. d_clear (fd_abs s) ?a p k" by (simp add: d_clear_def fd_abs_def)
  then have "ord_step (fd_abs s) (fd_abs s\<lparr>d_clock := Suc p, d_acc := (d_acc (fd_abs s))(p := ?a),
      d_got := (d_got (fd_abs s))(p := dom ?a)\<rparr>)"
    by (intro ord_enter) (simp_all add: ctr fd_abs_def)
  moreover have "fd_abs (fd_step c w s) = fd_abs s\<lparr>d_clock := Suc p, d_acc := (d_acc (fd_abs s))(p := ?a),
      d_got := (d_got (fd_abs s))(p := dom ?a)\<rparr>"
    by (simp add: fd_step_def pc Let_def fd_abs_def fun_eq_iff)
  ultimately show ?thesis by simp
qed

lemma fd_exec_sim:
  assumes inv: "fd_inv c s" and pc: "fd_pcs s w = DRun p (task # rest)"
  shows "ord_step (fd_abs s) (fd_abs (fd_exec w p task rest s))"
proof -
  let ?t = "fd_txs s w" and ?k = "task_key task"
  have wf: "fd_full ?t (task_set ?t)" "task \<in> set (task_set ?t)" and own: "fd_own s ?t p {} False"
    using finv(6,7) [OF inv, of w] pc by simp_all
  note act = fd_own_active [OF own]
  have acc: "fd_acc s p = access_of (task_set ?t)" using own wf by (simp add: fd_own_def)
  have got: "?k \<in> d_got (fd_abs s) p" if "task_ope task \<noteq> OpSleep"
    using access_of_task [OF wf(2) that] acc by (auto simp: fd_abs_def)
  show ?thesis
  proof (cases "task_ope task")
    case OpRead
    show ?thesis
    proof (cases "?k \<in> fst ` set (fd_write s p)")
      case True
      then have "fd_abs (fd_exec w p task rest s) = fd_abs s"
        using OpRead by (simp add: fd_exec_def Let_def) (simp add: fd_abs_def)
      then show ?thesis using ord_stay by metis
    next
      case False
      then have "?k \<notin> wkeys_of (d_writes (fd_abs s) p)" by (simp add: fd_abs_def)
      from ord_read [OF act got this] OpRead False show ?thesis
        by (simp add: fd_exec_def Let_def fd_abs_def)
    qed
  next
    case OpWrite
    then have "d_acc (fd_abs s) p ?k = Some True"
      using access_of_task [OF wf(2)] acc by (auto simp: fd_abs_def)
    from ord_write [OF act got this, of "\<lambda>_. u64_bytes 100"] OpWrite show ?thesis
      by (simp add: fd_exec_def Let_def fd_abs_def set_sa_value_def fun_upd_def if_distrib cong: if_cong)
  next
    case OpSleep
    then show ?thesis by (simp add: fd_exec_def ord_stay)
  qed
qed

lemma fd_commit_sim:
  assumes inv: "fd_inv c s" and pc: "fd_pcs s w = DRun p []"
  shows "ord_step (fd_abs s) (fd_abs (fd_commit w p s))"
proof -
  have "fd_own s (fd_txs s w) p {} False" using finv(7) [OF inv, of w] pc by simp
  from ord_commit [OF fd_own_active [OF this]] show ?thesis by (simp add: fd_commit_def fd_abs_def)
qed

lemma fd_unlock_sim:
  assumes "p \<in> fd_coms s"
  shows "ord_step (fd_abs s) (fd_abs (fd_released p k (fd_release w rel k pc s)))"
  using ord_release [of p "fd_abs s" k] assms by (simp add: fd_abs_def)

lemma fd_lock_sim: "ord_step (fd_abs s) (fd_abs (fd_lock w p pos s))"
  by (rule fd_abs_same)
    (simp_all add: fd_lock_def fd_lock_read_def fd_lock_write_def fd_abort_def fd_same_def Let_def
      split: sa_ope.split option.split)

lemma fd_step_sim:
  assumes inv: "fd_inv c s"
  shows "ord_step (fd_abs s) (fd_abs (fd_step c w s))"
proof (cases "fd_pcs s w")
  case (DStoreCtr p)
  then show ?thesis by (rule fd_store_sim [OF inv])
next
  case (DRun p ts)
  then show ?thesis
    using fd_exec_sim [OF inv, of w p] fd_commit_sim [OF inv, of w p] by (cases ts) (simp_all add: fd_step_def)
next
  case (DUnlR p ks)
  then have "p \<in> fd_coms s" using finv(7) [OF inv, of w] by (simp add: fd_own_def)
  with DUnlR fd_unlock_sim show ?thesis by (cases ks) (simp_all add: fd_step_def ord_stay)
next
  case (DUnlW p ks)
  then have "p \<in> fd_coms s" using finv(7) [OF inv, of w] by (simp add: fd_own_def)
  with DUnlW fd_unlock_sim show ?thesis by (cases ks) (simp_all add: fd_step_def ord_stay)
next
  case (DLock p pos)
  then show ?thesis using fd_lock_sim by (simp add: fd_step_def)
next
  case (DAbortR p ks)
  then show ?thesis by (cases ks) (auto intro!: fd_abs_same simp: fd_step_def fd_same_def)
next
  case (DAbortW p ks)
  then show ?thesis by (cases ks) (auto intro!: fd_abs_same simp: fd_step_def fd_same_def)
qed (auto intro!: fd_abs_same simp: fd_step_def fd_same_def fd_upg_fail_def fd_abort_def Let_def split: option.split)

section \<open>The invariant of every reachable state\<close>

definition fd_ok :: "fd_config \<Rightarrow> fd_sys \<Rightarrow> bool" where
  "fd_ok c s \<longleftrightarrow> (fd_workers c \<le> 2 ^ 32 - 2 \<longrightarrow> fd_inv c s \<and> ord_inv (\<lambda>_. u64_bytes 0) (fd_abs s))"

lemma fd_inv_quit: "fd_inv c (s\<lparr>fd_quit := b\<rparr>) = fd_inv c s"
proof -
  have "fd_link (s\<lparr>fd_quit := b\<rparr>) t pc = fd_link s t pc" for t pc by (cases pc) (simp_all add: fd_own_def)
  then show ?thesis
    by (simp add: fd_inv_def fd_ids_def fd_giant_def fd_workers_inv_def fd_fresh_def fd_owned_def)
qed

interpretation fd_system: invariant_system fd_start "fd_next c" "fd_ok c" for c
proof unfold_locales
  fix s
  assume s: "fd_start s"
  then have "ord_init (\<lambda>_. u64_bytes 0) (fd_abs s)"
    by (auto simp: fd_start_def fd_init_def fd_abs_def ord_init_def)
  with fd_init_inv [OF s] show "fd_ok c s" by (simp add: fd_ok_def ord_init_inv)
next
  fix s t
  assume ok: "fd_ok c s" and next_t: "fd_next c s t"
  show "fd_ok c t"
    unfolding fd_ok_def
  proof
    assume r: "fd_workers c \<le> 2 ^ 32 - 2"
    with ok have inv: "fd_inv c s" "ord_inv (\<lambda>_. u64_bytes 0) (fd_abs s)" by (simp_all add: fd_ok_def)
    from next_t consider w where "w < fd_workers c" "t = fd_step c w s" | "t = s\<lparr>fd_quit := True\<rparr>"
      unfolding fd_next_def by blast
    then show "fd_inv c t \<and> ord_inv (\<lambda>_. u64_bytes 0) (fd_abs t)"
    proof cases
      case 1
      then have "fd_inv c t" using fd_inv_fd_step [OF inv(1) _ r] by simp
      moreover have "ord_step (fd_abs s) (fd_abs t)" using 1 fd_step_sim [OF inv(1)] by simp
      ultimately show ?thesis using ord_step_inv inv(2) by blast
    next
      case 2
      moreover have "fd_abs (s\<lparr>fd_quit := True\<rparr>) = fd_abs s" by (simp add: fd_abs_def)
      ultimately show ?thesis using inv by (simp add: fd_inv_quit)
    qed
  qed
qed

lemma fd_reach_inv:
  assumes "fd_reach c s" "fd_workers c \<le> 2 ^ 32 - 2"
  shows "fd_inv c s" "ord_inv (\<lambda>_. u64_bytes 0) (fd_abs s)"
  using fd_system.reach_inv [OF assms(1)] assms(2) by (simp_all add: fd_ok_def)

section \<open>A concrete run\<close>

text \<open>
  Transaction 3 reads and writes record 1, transaction 4 reads it. Worker 1 gets the giant
  lock while worker 0 still holds record 1, aborts, tries again and succeeds after worker 0 has
  released it.
\<close>

definition fdemo_cfg :: fd_config where
  "fdemo_cfg = \<lparr>fd_pre = (\<lambda>p. if p = 3 then [Task OpRead 1, Task OpWrite 1] else [Task OpRead 1]),
     fd_pre_num = 5, fd_workers = 2\<rparr>"

definition fdemo_mid :: fd_sys where
  "fdemo_mid = fd_run fdemo_cfg (replicate 9 0 @ replicate 5 1) (fd_init 3)"

definition fdemo_end :: fd_sys where
  "fdemo_end = fd_run fdemo_cfg (replicate 8 0 @ replicate 11 1) fdemo_mid"

lemmas fdemo_eval =
  fdemo_cfg_def fd_step_def fd_upd_def fd_goto_def fd_set_lock_def fd_abort_def fd_lock_read_def
  fd_lock_write_def fd_upg_fail_def fd_lock_def fd_exec_def fd_commit_def fd_release_def
  fd_released_def fd_init_def sa_new_def sa_begin_def sa_read_def sa_write_def sa_clear_def
  set_sa_lock_def set_sa_value_def Task_def w_acq_def r_acq_def upg_def w_rel_def r_rel_def
  Let_def replicate_numeral lists_access_def

lemma fdemo_mid_states:
  "fd_pcs fdemo_mid 0 = DRun 3 [Task OpRead 1, Task OpWrite 1]" "fd_pcs fdemo_mid 1 = DAbortR 4 []"
  by (simp_all add: fdemo_mid_def fdemo_eval)

lemma fdemo_end_com:
  "fd_com fdemo_end =
     [(3, \<lparr>tx_reads = [(1, u64_bytes 0)], tx_writes = [(1, \<lambda>_. u64_bytes 100)]\<rparr>),
      (4, \<lparr>tx_reads = [(1, u64_bytes 100)], tx_writes = []\<rparr>)]"
  by (simp add: fdemo_mid_def fdemo_end_def fdemo_eval)

definition fdemo_retry :: fd_sys where
  "fdemo_retry = fd_run fdemo_cfg (replicate 8 0 @ replicate 3 1) fdemo_mid"

lemma fdemo_retry_states:
  "fd_pcs fdemo_retry 0 = DTry" "fd_pcs fdemo_retry 1 = DLock 4 0"
  "task_set (fd_txs fdemo_retry 1) = [Task OpRead 1]"
  by (simp_all add: fdemo_retry_def fdemo_mid_def fdemo_eval)

lemma fdemo_run_reach:
  "fd_reach fdemo_cfg s \<Longrightarrow> fd_reach fdemo_cfg (fd_run fdemo_cfg (replicate n 0 @ replicate m 1) s)"
  by (erule fd_run_reach) (auto simp: fdemo_cfg_def)

lemma fdemo_reach:
  "fd_reach fdemo_cfg fdemo_mid" "fd_reach fdemo_cfg fdemo_end" "fd_reach fdemo_cfg fdemo_retry"
proof -
  have "fd_reach fdemo_cfg (fd_init 3)" by (rule reach_init) (auto simp: fd_start_def)
  then show m: "fd_reach fdemo_cfg fdemo_mid" unfolding fdemo_mid_def by (rule fdemo_run_reach)
  show "fd_reach fdemo_cfg fdemo_end" unfolding fdemo_end_def by (rule fdemo_run_reach [OF m])
  show "fd_reach fdemo_cfg fdemo_retry" unfolding fdemo_retry_def by (rule fdemo_run_reach [OF m])
qed

lemma fdemo_workers: "fd_workers fdemo_cfg \<le> 2 ^ 32 - 2"
  by (simp add: fdemo_cfg_def)

section \<open>Safety\<close>

text \<open>
  C18. Serializability of the giant-lock executor, in a fixed order: sorted by their numbers, the
  committed transactions form a serial history, whatever the interleaving of up to
  \<open>2 ^ 32 - 2\<close> workers and whenever \<^verbatim>\<open>quit\<close> is set.
\<close>

theorem fairdet_serializable:
  assumes "fd_reach c s" and "fd_workers c \<le> 2 ^ 32 - 2"
  shows "serial_ok (\<lambda>_. u64_bytes 0) (map snd (in_order (fd_com s)))"
  using ord_inv_serial [OF fd_reach_inv(2) [OF assms]] by (simp add: fd_abs_def)

theorem fairdet_serializable_witness:
  "serial_ok (\<lambda>_. u64_bytes 0) [\<lparr>tx_reads = [(1, u64_bytes 0)], tx_writes = [(1, \<lambda>_. u64_bytes 100)]\<rparr>,
     \<lparr>tx_reads = [(1, u64_bytes 100)], tx_writes = []\<rparr>]"
  using fairdet_serializable [OF fdemo_reach(2) fdemo_workers]
  by (simp add: fdemo_end_com in_order_def)

section \<open>Progress\<close>

lemma fd_step_other:
  assumes "v \<noteq> w"
  shows "fd_pcs (fd_step c w s) v = fd_pcs s v"
proof (cases "fd_pcs s w")
  case (DRun p ts)
  with assms show ?thesis
    by (cases ts) (auto simp: fd_step_def fd_exec_def fd_commit_def Let_def split: sa_ope.split)
next
  case (DUnlR p ks)
  with assms show ?thesis by (cases ks) (auto simp: fd_step_def Let_def)
next
  case (DUnlW p ks)
  with assms show ?thesis by (cases ks) (auto simp: fd_step_def Let_def)
next
  case (DAbortR p ks)
  with assms show ?thesis by (cases ks) (auto simp: fd_step_def Let_def)
next
  case (DAbortW p ks)
  with assms show ?thesis by (cases ks) (auto simp: fd_step_def Let_def)
qed (use assms in \<open>auto simp: fd_step_def fd_lock_def fd_lock_read_def fd_lock_write_def fd_upg_fail_def
    fd_abort_def Let_def split: option.split sa_ope.split\<close>)

lemma fd_run_other: "v \<notin> set ws \<Longrightarrow> fd_pcs (fd_run c ws s) v = fd_pcs s v"
  by (induction ws arbitrary: s) (auto simp: fd_step_other)

text \<open>When no numbered transaction is running, the next lock is granted.\<close>

lemma fd_lock_granted:
  assumes inv: "fd_inv c s" and pc: "fd_pcs s w = DLock p pos" and none: "\<And>v. fd_id (fd_pcs s v) = None"
  shows "fd_pcs (fd_lock w p pos s) w = (if pos < length (task_set (fd_txs s w)) then DLock p (Suc pos) else DStoreCtr p) \<and>
    task_set (fd_txs (fd_lock w p pos s) w) = task_set (fd_txs s w)"
proof -
  let ?t = "fd_txs s w"
  let ?H = "fd_holds s" and ?k = "task_key (task_set (fd_txs s w) ! pos)"
  have other: "?H v k = None" if "v \<noteq> w" for v k
  proof -
    have "\<not> fd_giants (fd_pcs s v)" using finv_giant [OF inv, of v w] that pc by auto
    then have "fd_idle (fd_txs s v)"
      using none [of v] finv(6) [OF inv, of v] by (cases "fd_pcs s v") auto
    then show ?thesis
      using \<open>\<not> fd_giants (fd_pcs s v)\<close> none [of v]
      by (cases "fd_pcs s v") (auto simp: fd_idle_def lists_access_simps(1))
  qed
  have full: "fd_lists ?t" using finv(6) [OF inv, of w] pc by simp
  note ok = finv(3) [OF inv]
  have free: "sa_lock (fd_table s ?k) = 0" if "?k \<notin> set (r_lock_list ?t)" "?k \<notin> set (w_lock_list ?t)"
  proof (rule lt_free [OF ok])
    show "?H v ?k = None" for v using other [of v ?k] that pc by (cases "v = w") simp_all
  qed
  have sole: "sa_lock (fd_table s ?k) = 1" if "?k \<in> set (r_lock_list ?t)"
  proof (rule lt_sole_reader [OF ok other])
    show "?H w ?k = Some False" using that full pc by (auto simp: lists_access_def fd_lists_def)
  qed
  show ?thesis
    using free sole
    by (auto simp: fd_lock_def fd_lock_read_def fd_lock_write_def Let_def r_acq_def w_acq_def upg_def
        split: sa_ope.split)
qed

text \<open>
  Progress of the lock phase: once no numbered transaction is running, a worker in its lock
  phase gets every remaining lock at the first try and enters its number.
\<close>

theorem fairdet_progress:
  assumes "fd_reach c s" and "fd_workers c \<le> 2 ^ 32 - 2" and "w < fd_workers c"
    and "fd_pcs s w = DLock p pos" and "pos \<le> length (task_set (fd_txs s w))"
    and "\<forall>v. fd_id (fd_pcs s v) = None"
  shows "fd_pcs (fd_run c (replicate (Suc (length (task_set (fd_txs s w)) - pos)) w) s) w = DStoreCtr p"
  using assms
proof (induction "length (task_set (fd_txs s w)) - pos" arbitrary: s pos)
  case 0
  with fd_lock_granted [OF fd_reach_inv(1) [OF 0(2,3)] 0(5)] show ?case by (simp add: fd_step_def)
next
  case (Suc n)
  let ?s = "fd_step c w s"
  have more: "pos < length (task_set (fd_txs s w))" using Suc.hyps(2) by simp
  from fd_lock_granted [OF fd_reach_inv(1) [OF Suc.prems(1,2)] Suc.prems(4)] Suc.prems(4,6) more
  have s': "fd_pcs ?s w = DLock p (Suc pos)" "task_set (fd_txs ?s w) = task_set (fd_txs s w)"
    by (simp_all add: fd_step_def)
  have "fd_next c s ?s" using Suc.prems(3) by (auto simp: fd_next_def)
  with Suc.prems(1) have r: "fd_reach c ?s" by (rule reach_step)
  have "\<forall>v. fd_id (fd_pcs ?s v) = None"
  proof
    show "fd_id (fd_pcs ?s v) = None" for v
      using Suc.prems(6) s'(1) fd_step_other [of v w c s] by (cases "v = w") simp_all
  qed
  with Suc.hyps(1) [OF _ r Suc.prems(2,3) s'(1)] Suc.hyps(2) more s'
  have "fd_pcs (fd_run c (replicate (Suc (length (task_set (fd_txs s w)) - Suc pos)) w) ?s) w = DStoreCtr p"
    by simp
  moreover have "length (task_set (fd_txs s w)) - pos = Suc (length (task_set (fd_txs s w)) - Suc pos)"
    using more by simp
  ultimately show ?case by simp
qed

theorem fairdet_progress_witness: "fd_pcs (fd_run fdemo_cfg [1, 1] fdemo_retry) 1 = DStoreCtr 4"
proof -
  have "fd_id (fd_pcs fdemo_retry v) = None" for v
  proof (cases "v = 0 \<or> v = 1")
    case True
    then show ?thesis using fdemo_retry_states by auto
  next
    case False
    then have "fd_pcs fdemo_retry v = fd_pcs fdemo_mid v" unfolding fdemo_retry_def by (intro fd_run_other) auto
    also have "\<dots> = fd_pcs (fd_init 3) v" unfolding fdemo_mid_def using False by (intro fd_run_other) auto
    finally show ?thesis by (simp add: fd_init_def)
  qed
  with fairdet_progress [OF fdemo_reach(3) fdemo_workers _ fdemo_retry_states(2)] fdemo_retry_states(3)
  show ?thesis by (simp add: fdemo_cfg_def)
qed

end
