(* ===== verification/Fairss_System.thy ===== *)
theory Fairss_System
  imports Lock_Table
begin

text \<open>
  No-wait two-phase locking as a single file, \<^verbatim>\<open>fair_ss2pl/ss2pl.cc\<close>: a worker runs the
  transactions of its own part of \<^verbatim>\<open>Pre_tx_set\<close>, locks a record at its first access, writes in
  place, and on a lock that is not available releases what it has and starts the same
  transaction again. The system interleaves any number of workers at every access to
  \<^verbatim>\<open>quit\<close>, a lock or a value; the ghost state is what the running transactions have read and
  the committed transactions.
\<close>

section \<open>State\<close>

datatype fs_pc =
    FFetch
  | FRetry
  | FOps "task list"
  | FReadVal key "task list"
  | FWriteVal key "task list"
  | FAbortR "key list"
  | FAbortW "key list"
  | FUnlR "key list"
  | FUnlW "key list"
  | FCount
  | FStop

record fs_config =
  fs_pre :: "nat \<Rightarrow> task list"
  fs_workers :: nat

record fs_sys =
  fs_table :: "key \<Rightarrow> sa_tuple"
  fs_quit :: bool
  fs_txs :: "nat \<Rightarrow> sa_tx"
  fs_pos :: "nat \<Rightarrow> nat"
  fs_pcs :: "nat \<Rightarrow> fs_pc"
  fs_commit_cnt :: "nat \<Rightarrow> nat"
  fs_reads :: "nat \<Rightarrow> (key \<times> val) list"
  fs_com :: "txrec list"

definition fs_upd :: "nat \<Rightarrow> sa_tx \<Rightarrow> fs_pc \<Rightarrow> fs_sys \<Rightarrow> fs_sys" where
  "fs_upd w t pc s = s\<lparr>fs_txs := (fs_txs s)(w := t), fs_pcs := (fs_pcs s)(w := pc)\<rparr>"

definition fs_goto :: "nat \<Rightarrow> fs_pc \<Rightarrow> fs_sys \<Rightarrow> fs_sys" where
  "fs_goto w pc s = s\<lparr>fs_pcs := (fs_pcs s)(w := pc)\<rparr>"

definition fs_set_lock :: "key \<Rightarrow> u32 \<Rightarrow> fs_sys \<Rightarrow> fs_sys" where
  "fs_set_lock k c s = s\<lparr>fs_table := set_sa_lock k c (fs_table s)\<rparr>"

section \<open>Read and write\<close>

text \<open>\<^verbatim>\<open>status_ = ABORTED\<close>, noticed after the operation: \<^verbatim>\<open>abort\<close> starts with the read locks.\<close>

definition fs_abort :: "nat \<Rightarrow> sa_tx \<Rightarrow> fs_sys \<Rightarrow> fs_sys" where
  "fs_abort w t s = fs_upd w (t\<lparr>sa_status := SaAborted\<rparr>) (FAbortR (r_lock_list t)) s"

definition fs_read :: "nat \<Rightarrow> key \<Rightarrow> task list \<Rightarrow> fs_sys \<Rightarrow> fs_sys" where
  "fs_read w k rest s =
     (let t = fs_txs s w in
      if k \<in> fst ` set (sa_write_set t) \<or> k \<in> fst ` set (sa_read_set t) then fs_goto w (FOps rest) s
      else
        (case r_acq (sa_lock (fs_table s k)) of
           None \<Rightarrow> fs_abort w t s
         | Some c \<Rightarrow>
             fs_set_lock k c (fs_upd w (t\<lparr>r_lock_list := r_lock_list t @ [k]\<rparr>) (FReadVal k rest) s)))"

definition fs_read_val :: "nat \<Rightarrow> key \<Rightarrow> task list \<Rightarrow> fs_sys \<Rightarrow> fs_sys" where
  "fs_read_val w k rest s =
     (let v = sa_value (fs_table s k) in
      (fs_upd w (sa_read k v (fs_txs s w)) (FOps rest) s)
        \<lparr>fs_reads := (fs_reads s)(w := fs_reads s w @ [(k, u64_bytes v)])\<rparr>)"

fun remove_key :: "key \<Rightarrow> (key \<times> u64) list \<Rightarrow> (key \<times> u64) list" where
  "remove_key k [] = []"
| "remove_key k (x # xs) = (if fst x = k then xs else x # remove_key k xs)"

text \<open>
  The upgrade of a record in the read set: the lists change only if the lock is in
  \<^verbatim>\<open>r_lock_list_\<close>; the store of the value is commented out in the code.
\<close>

definition fs_upgrade :: "key \<Rightarrow> sa_tx \<Rightarrow> sa_tx" where
  "fs_upgrade k t =
     (let t1 = (if k \<in> set (r_lock_list t)
                then t\<lparr>sa_write_set := sa_write_set t @ [(k, 100)], w_lock_list := w_lock_list t @ [k],
                       r_lock_list := remove1 k (r_lock_list t)\<rparr>
                else t)
      in t1\<lparr>sa_read_set := remove_key k (sa_read_set t)\<rparr>)"

definition fs_write :: "nat \<Rightarrow> key \<Rightarrow> task list \<Rightarrow> fs_sys \<Rightarrow> fs_sys" where
  "fs_write w k rest s =
     (let t = fs_txs s w; c = sa_lock (fs_table s k) in
      if k \<in> fst ` set (sa_write_set t) then fs_goto w (FOps rest) s
      else if k \<in> fst ` set (sa_read_set t) then
        (case upg c of
           None \<Rightarrow> fs_abort w t s
         | Some c' \<Rightarrow> fs_set_lock k c' (fs_upd w (fs_upgrade k t) (FOps rest) s))
      else
        (case w_acq c of
           None \<Rightarrow> fs_abort w t s
         | Some c' \<Rightarrow>
             fs_set_lock k c' (fs_upd w (t\<lparr>w_lock_list := w_lock_list t @ [k]\<rparr>) (FWriteVal k rest) s)))"

definition fs_write_val :: "nat \<Rightarrow> key \<Rightarrow> task list \<Rightarrow> fs_sys \<Rightarrow> fs_sys" where
  "fs_write_val w k rest s =
     (fs_upd w (sa_write k (fs_txs s w)) (FOps rest) s)\<lparr>fs_table := set_sa_value k 100 (fs_table s)\<rparr>"

definition fs_op :: "nat \<Rightarrow> task \<Rightarrow> task list \<Rightarrow> fs_sys \<Rightarrow> fs_sys" where
  "fs_op w task rest s =
     (case task_ope task of
        OpRead \<Rightarrow> fs_read w (task_key task) rest s
      | OpWrite \<Rightarrow> fs_write w (task_key task) rest s
      | OpSleep \<Rightarrow> fs_goto w (FOps rest) s)"

definition fs_commit :: "nat \<Rightarrow> fs_sys \<Rightarrow> fs_sys" where
  "fs_commit w s =
     (let t = fs_txs s w in
      (fs_goto w (FUnlR (r_lock_list t)) s)
        \<lparr>fs_com := fs_com s @
           [\<lparr>tx_reads = fs_reads s w, tx_writes = map (\<lambda>(k, v). (k, \<lambda>_. u64_bytes v)) (sa_write_set t)\<rparr>]\<rparr>)"

definition fs_release :: "nat \<Rightarrow> (u32 \<Rightarrow> u32) \<Rightarrow> key \<Rightarrow> fs_pc \<Rightarrow> fs_sys \<Rightarrow> fs_sys" where
  "fs_release w rel k pc s = fs_set_lock k (rel (sa_lock (fs_table s k))) (fs_goto w pc s)"

section \<open>One step of worker \<open>w\<close>\<close>

definition fs_step :: "fs_config \<Rightarrow> nat \<Rightarrow> fs_sys \<Rightarrow> fs_sys" where
  "fs_step c w s =
     (let t = fs_txs s w in
      case fs_pcs s w of
        FFetch \<Rightarrow>
          (if fs_quit s then fs_goto w FStop s
           else (fs_upd w (t\<lparr>task_set := fs_pre c (fs_pos s w)\<rparr>) FRetry s)
                  \<lparr>fs_pos := (fs_pos s)(w := Suc (fs_pos s w))\<rparr>)
      | FRetry \<Rightarrow>
          (if fs_quit s then fs_goto w FStop s
           else (fs_upd w (sa_begin t) (FOps (task_set t)) s)\<lparr>fs_reads := (fs_reads s)(w := [])\<rparr>)
      | FOps (task # rest) \<Rightarrow> fs_op w task rest s
      | FOps [] \<Rightarrow> fs_commit w s
      | FReadVal k rest \<Rightarrow> fs_read_val w k rest s
      | FWriteVal k rest \<Rightarrow> fs_write_val w k rest s
      | FAbortR (k # ks) \<Rightarrow> fs_release w r_rel k (FAbortR ks) s
      | FAbortR [] \<Rightarrow> fs_goto w (FAbortW (w_lock_list t)) s
      | FAbortW (k # ks) \<Rightarrow> fs_release w w_rel k (FAbortW ks) s
      | FAbortW [] \<Rightarrow> fs_upd w (sa_clear t) FRetry s
      | FUnlR (k # ks) \<Rightarrow> fs_release w r_rel k (FUnlR ks) s
      | FUnlR [] \<Rightarrow> fs_goto w (FUnlW (w_lock_list t)) s
      | FUnlW (k # ks) \<Rightarrow> fs_release w w_rel k (FUnlW ks) s
      | FUnlW [] \<Rightarrow> fs_upd w (sa_clear t) FCount s
      | FCount \<Rightarrow>
          (fs_goto w FFetch s)
            \<lparr>fs_commit_cnt := (if fs_quit s then fs_commit_cnt s
               else (fs_commit_cnt s)(w := Suc (fs_commit_cnt s w)))\<rparr>
      | FStop \<Rightarrow> s)"

section \<open>The system\<close>

text \<open>Worker \<open>w\<close> starts at its own part of the generated transactions, \<open>part\<close> long.\<close>

definition fs_init :: "nat \<Rightarrow> fs_sys" where
  "fs_init part =
     \<lparr>fs_table = (\<lambda>_. \<lparr>sa_lock = 0, sa_value = 0\<rparr>), fs_quit = False, fs_txs = (\<lambda>_. sa_new),
      fs_pos = (\<lambda>w. part * w), fs_pcs = (\<lambda>_. FFetch), fs_commit_cnt = (\<lambda>_. 0), fs_reads = (\<lambda>_. []),
      fs_com = []\<rparr>"

definition fs_start :: "fs_sys \<Rightarrow> bool" where
  "fs_start s \<longleftrightarrow> (\<exists>part. s = fs_init part)"

definition fs_next :: "fs_config \<Rightarrow> fs_sys \<Rightarrow> fs_sys \<Rightarrow> bool" where
  "fs_next c s t \<longleftrightarrow> (\<exists>w < fs_workers c. t = fs_step c w s) \<or> t = s\<lparr>fs_quit := True\<rparr>"

abbreviation fs_reach :: "fs_config \<Rightarrow> fs_sys \<Rightarrow> bool" where
  "fs_reach c \<equiv> reach fs_start (fs_next c)"

fun fs_run :: "fs_config \<Rightarrow> nat list \<Rightarrow> fs_sys \<Rightarrow> fs_sys" where
  "fs_run c [] s = s"
| "fs_run c (w # ws) s = fs_run c ws (fs_step c w s)"

lemma fs_run_reach:
  "fs_reach c s \<Longrightarrow> \<forall>w \<in> set ws. w < fs_workers c \<Longrightarrow> fs_reach c (fs_run c ws s)"
proof (induction ws arbitrary: s)
  case (Cons w ws)
  then have "fs_next c s (fs_step c w s)" by (auto simp: fs_next_def)
  with Cons.prems(1) have "fs_reach c (fs_step c w s)" by (rule reach_step)
  with Cons show ?case by simp
qed simp

end
