(* ===== verification/Fairss_Theorems.thy ===== *)
theory Fairss_Theorems
  imports Fairss_System
begin

text \<open>
  The locks of \<^verbatim>\<open>fair_ss2pl\<close> exclude, and yet its outcome is not serializable: it writes in
  place and has no undo, so the writes of an aborted attempt stay, and a write to a record
  that the transaction has read before never reaches the table.
\<close>

section \<open>The locks\<close>

fun fs_hold :: "sa_tx \<Rightarrow> fs_pc \<Rightarrow> access" where
  "fs_hold t (FAbortR ks) = lists_access ks (w_lock_list t)"
| "fs_hold t (FAbortW ks) = lists_access [] ks"
| "fs_hold t (FUnlR ks) = lists_access ks (w_lock_list t)"
| "fs_hold t (FUnlW ks) = lists_access [] ks"
| "fs_hold t _ = lists_access (r_lock_list t) (w_lock_list t)"

text \<open>While operations run, the lists are those of the local sets, up to the one being entered.\<close>

definition fs_sets :: "key list \<Rightarrow> key list \<Rightarrow> sa_tx \<Rightarrow> bool" where
  "fs_sets rs ws t \<longleftrightarrow> distinct (r_lock_list t @ w_lock_list t) \<and>
     map fst (sa_read_set t) @ rs = r_lock_list t \<and> map fst (sa_write_set t) @ ws = w_lock_list t"

lemma fs_sets_keys:
  assumes "fs_sets [] [] t"
  shows "k \<in> fst ` set (sa_read_set t) \<longleftrightarrow> k \<in> set (r_lock_list t)"
    "k \<in> fst ` set (sa_write_set t) \<longleftrightarrow> k \<in> set (w_lock_list t)"
  using assms unfolding fs_sets_def by (metis append_Nil2 list.set_map)+

fun fs_wf_pc :: "sa_tx \<Rightarrow> fs_pc \<Rightarrow> bool" where
  "fs_wf_pc t (FOps ts) = fs_sets [] [] t"
| "fs_wf_pc t (FReadVal k ts) = fs_sets [k] [] t"
| "fs_wf_pc t (FWriteVal k ts) = fs_sets [] [k] t"
| "fs_wf_pc t (FAbortR ks) =
     (distinct (r_lock_list t @ w_lock_list t) \<and> distinct ks \<and> set ks \<subseteq> set (r_lock_list t))"
| "fs_wf_pc t (FAbortW ks) = (distinct (w_lock_list t) \<and> distinct ks)"
| "fs_wf_pc t (FUnlR ks) =
     (distinct (r_lock_list t @ w_lock_list t) \<and> distinct ks \<and> set ks \<subseteq> set (r_lock_list t))"
| "fs_wf_pc t (FUnlW ks) = (distinct (w_lock_list t) \<and> distinct ks)"
| "fs_wf_pc t _ = fs_sets [] [] t"

abbreviation fs_words :: "fs_sys \<Rightarrow> key \<Rightarrow> u32" where
  "fs_words s \<equiv> \<lambda>k. sa_lock (fs_table s k)"

abbreviation fs_holds :: "fs_sys \<Rightarrow> nat \<Rightarrow> access" where
  "fs_holds s \<equiv> \<lambda>w. fs_hold (fs_txs s w) (fs_pcs s w)"

definition fs_inv :: "fs_config \<Rightarrow> fs_sys \<Rightarrow> bool" where
  "fs_inv c s \<longleftrightarrow> (\<forall>w. fs_wf_pc (fs_txs s w) (fs_pcs s w)) \<and> lt_ok (fs_workers c) (fs_words s) (fs_holds s)"

lemma fs_upd_simps [simp]:
  "fs_table (fs_upd w t pc s) = fs_table s" "fs_txs (fs_upd w t pc s) = (fs_txs s)(w := t)"
  "fs_pcs (fs_upd w t pc s) = (fs_pcs s)(w := pc)"
  "fs_table (fs_goto w pc s) = fs_table s" "fs_txs (fs_goto w pc s) = fs_txs s"
  "fs_pcs (fs_goto w pc s) = (fs_pcs s)(w := pc)"
  "fs_words (fs_set_lock k c s) = (fs_words s)(k := c)" "fs_txs (fs_set_lock k c s) = fs_txs s"
  "fs_pcs (fs_set_lock k c s) = fs_pcs s"
  by (auto simp: fs_upd_def fs_goto_def fs_set_lock_def set_sa_lock_def fun_eq_iff)

lemma fs_inv_step:
  assumes inv: "fs_inv c s" and w: "w < fs_workers c" and n: "fs_workers c \<le> 2 ^ 32 - 2"
    and s': "fs_pcs s' = (fs_pcs s)(w := pc')" "fs_txs s' = (fs_txs s)(w := t')"
    and wf: "fs_wf_pc t' pc'"
    and mv: "lt_move (fs_words s) (fs_hold (fs_txs s w) (fs_pcs s w)) (fs_words s') (fs_hold t' pc')"
  shows "fs_inv c s'"
proof -
  have "fs_holds s' = (fs_holds s)(w := fs_hold t' pc')" by (auto simp: s' fun_eq_iff)
  moreover have "lt_ok (fs_workers c) (fs_words s) (fs_holds s)" using inv by (simp add: fs_inv_def)
  ultimately have "lt_ok (fs_workers c) (fs_words s') (fs_holds s')"
    using lt_move_ok [OF mv, of "fs_holds s" w, OF refl _ w n] by argo
  with inv wf show ?thesis by (simp add: fs_inv_def s')
qed

lemma fs_inv_goto:
  assumes inv: "fs_inv c s" and w: "w < fs_workers c" and n: "fs_workers c \<le> 2 ^ 32 - 2"
    and wf: "fs_wf_pc (fs_txs s w) pc'" and hold: "fs_hold (fs_txs s w) pc' = fs_hold (fs_txs s w) (fs_pcs s w)"
  shows "fs_inv c (fs_goto w pc' s)"
proof (rule fs_inv_step [OF inv w n _ _ wf])
  show "fs_txs (fs_goto w pc' s) = (fs_txs s)(w := fs_txs s w)" by simp
  show "lt_move (fs_words s) (fs_hold (fs_txs s w) (fs_pcs s w)) (fs_words (fs_goto w pc' s)) (fs_hold (fs_txs s w) pc')"
    unfolding hold by (simp add: lt_keep)
qed simp

lemma fs_inv_abort:
  assumes inv: "fs_inv c s" and w: "w < fs_workers c" and n: "fs_workers c \<le> 2 ^ 32 - 2"
    and pc: "fs_pcs s w = FOps ts"
  shows "fs_inv c (fs_abort w (fs_txs s w) s)"
proof -
  let ?t = "fs_txs s w"
  have wf: "fs_sets [] [] ?t" using inv pc unfolding fs_inv_def by (metis fs_wf_pc.simps(1))
  show ?thesis
    by (rule fs_inv_step [OF inv w n, where pc' = "FAbortR (r_lock_list ?t)" and t' = "?t\<lparr>sa_status := SaAborted\<rparr>"])
      (use wf pc in \<open>simp_all add: fs_abort_def fs_sets_def lt_keep\<close>)
qed

lemma fs_inv_read:
  assumes inv: "fs_inv c s" and w: "w < fs_workers c" and n: "fs_workers c \<le> 2 ^ 32 - 2"
    and pc: "fs_pcs s w = FOps ts"
  shows "fs_inv c (fs_read w k rest s)"
proof -
  let ?t = "fs_txs s w"
  have wf: "fs_sets [] [] ?t" using inv pc unfolding fs_inv_def by (metis fs_wf_pc.simps(1))
  show ?thesis
  proof (cases "k \<in> fst ` set (sa_write_set ?t) \<or> k \<in> fst ` set (sa_read_set ?t)")
    case True
    have "fs_inv c (fs_goto w (FOps rest) s)" by (rule fs_inv_goto [OF inv w n]) (use wf pc in simp_all)
    with True show ?thesis by (simp add: fs_read_def Let_def)
  next
    case False
    then have k: "k \<notin> set (r_lock_list ?t)" "k \<notin> set (w_lock_list ?t)" using fs_sets_keys [OF wf] by auto
    show ?thesis
    proof (cases "r_acq (sa_lock (fs_table s k))")
      case None
      with False fs_inv_abort [OF inv w n pc] show ?thesis by (simp add: fs_read_def Let_def)
    next
      case (Some v)
      let ?t' = "?t\<lparr>r_lock_list := r_lock_list ?t @ [k]\<rparr>"
      have "fs_inv c (fs_set_lock k v (fs_upd w ?t' (FReadVal k rest) s))"
      proof (rule fs_inv_step [OF inv w n])
        show "fs_wf_pc ?t' (FReadVal k rest)" using wf k by (auto simp: fs_sets_def)
        show "lt_move (fs_words s) (fs_hold ?t (fs_pcs s w)) (fs_words (fs_set_lock k v (fs_upd w ?t' (FReadVal k rest) s)))
            (fs_hold ?t' (FReadVal k rest))"
          using lt_read [of "lists_access (r_lock_list ?t) (w_lock_list ?t)" k "fs_words s" v] Some k pc
          by (simp add: lists_access_simps(2))
      qed simp_all
      with False Some show ?thesis by (simp add: fs_read_def Let_def)
    qed
  qed
qed

lemma remove_key_keys: "map fst (remove_key k xs) = remove1 k (map fst xs)"
  by (induction xs) auto

lemma fs_inv_write:
  assumes inv: "fs_inv c s" and w: "w < fs_workers c" and n: "fs_workers c \<le> 2 ^ 32 - 2"
    and pc: "fs_pcs s w = FOps ts"
  shows "fs_inv c (fs_write w k rest s)"
proof -
  let ?t = "fs_txs s w" and ?c = "sa_lock (fs_table s k)"
  have wf: "fs_sets [] [] ?t" using inv pc unfolding fs_inv_def by (metis fs_wf_pc.simps(1))
  note abort = fs_inv_abort [OF inv w n pc]
  have goto: "fs_inv c (fs_goto w (FOps rest) s)" by (rule fs_inv_goto [OF inv w n]) (use wf pc in simp_all)
  show ?thesis
  proof (cases "k \<in> fst ` set (sa_write_set ?t)")
    case True
    with goto show ?thesis by (simp add: fs_write_def Let_def)
  next
    case nw: False
    then have kw: "k \<notin> set (w_lock_list ?t)" using fs_sets_keys [OF wf] by auto
    show ?thesis
    proof (cases "k \<in> fst ` set (sa_read_set ?t)")
      case True
      then have kr: "k \<in> set (r_lock_list ?t)" using fs_sets_keys [OF wf] by auto
      show ?thesis
      proof (cases "upg ?c")
        case None
        with True nw abort show ?thesis by (simp add: fs_write_def Let_def)
      next
        case (Some v)
        let ?t' = "fs_upgrade k ?t"
        have lists: "r_lock_list ?t' = remove1 k (r_lock_list ?t)" "w_lock_list ?t' = w_lock_list ?t @ [k]"
          "sa_read_set ?t' = remove_key k (sa_read_set ?t)" "sa_write_set ?t' = sa_write_set ?t @ [(k, 100)]"
          using kr by (simp_all add: fs_upgrade_def Let_def)
        have "fs_inv c (fs_set_lock k v (fs_upd w ?t' (FOps rest) s))"
        proof (rule fs_inv_step [OF inv w n])
          show "fs_wf_pc ?t' (FOps rest)"
            using wf kw by (auto simp: fs_sets_def lists remove_key_keys dest: notin_set_remove1)
          have "lists_access (r_lock_list ?t') (w_lock_list ?t') = (lists_access (r_lock_list ?t) (w_lock_list ?t))(k := Some True)"
            unfolding lists by (rule lists_access_erase) (use wf kr in \<open>simp_all add: fs_sets_def\<close>)
          moreover have "lists_access (r_lock_list ?t) (w_lock_list ?t) k = Some False"
            using kr kw by (simp add: lists_access_def)
          ultimately show "lt_move (fs_words s) (fs_hold ?t (fs_pcs s w))
              (fs_words (fs_set_lock k v (fs_upd w ?t' (FOps rest) s))) (fs_hold ?t' (FOps rest))"
            using lt_upgrade [of "lists_access (r_lock_list ?t) (w_lock_list ?t)" k "fs_words s" v] Some pc by simp
        qed simp_all
        with Some True nw show ?thesis by (simp add: fs_write_def Let_def)
      qed
    next
      case nr: False
      then have kr: "k \<notin> set (r_lock_list ?t)" using fs_sets_keys [OF wf] by auto
      show ?thesis
      proof (cases "w_acq ?c")
        case None
        with nr nw abort show ?thesis by (simp add: fs_write_def Let_def)
      next
        case (Some v)
        let ?t' = "?t\<lparr>w_lock_list := w_lock_list ?t @ [k]\<rparr>"
        have "fs_inv c (fs_set_lock k v (fs_upd w ?t' (FWriteVal k rest) s))"
        proof (rule fs_inv_step [OF inv w n])
          show "fs_wf_pc ?t' (FWriteVal k rest)" using wf kr kw by (auto simp: fs_sets_def)
          show "lt_move (fs_words s) (fs_hold ?t (fs_pcs s w))
              (fs_words (fs_set_lock k v (fs_upd w ?t' (FWriteVal k rest) s))) (fs_hold ?t' (FWriteVal k rest))"
            using lt_write [of "lists_access (r_lock_list ?t) (w_lock_list ?t)" k "fs_words s" v] Some kr kw pc
            by (simp add: lists_access_simps(3))
        qed simp_all
        with Some nr nw show ?thesis by (simp add: fs_write_def Let_def)
      qed
    qed
  qed
qed

lemma fs_inv_fs_step:
  assumes inv: "fs_inv c s" and w: "w < fs_workers c" and n: "fs_workers c \<le> 2 ^ 32 - 2"
  shows "fs_inv c (fs_step c w s)"
proof -
  let ?t = "fs_txs s w"
  have wf: "fs_wf_pc ?t (fs_pcs s w)" using inv by (simp add: fs_inv_def)
  note goto = fs_inv_goto [OF inv w n] and step = fs_inv_step [OF inv w n]
  have rel_r: "fs_inv c (fs_release w r_rel k pc' s)"
    if "fs_hold ?t (fs_pcs s w) = lists_access (k # ks) (w_lock_list ?t)" "fs_hold ?t pc' = lists_access ks (w_lock_list ?t)"
      "k \<notin> set ks" "k \<notin> set (w_lock_list ?t)" "fs_wf_pc ?t pc'" for k ks pc'
  proof (rule step)
    show "fs_txs (fs_release w r_rel k pc' s) = (fs_txs s)(w := ?t)" by (simp add: fs_release_def)
    show "lt_move (fs_words s) (fs_hold ?t (fs_pcs s w)) (fs_words (fs_release w r_rel k pc' s)) (fs_hold ?t pc')"
      using lt_move_unread [OF that(3,4), of "fs_words s"] that(1,2) by (simp add: fs_release_def)
  qed (use that in \<open>simp_all add: fs_release_def\<close>)
  have rel_w: "fs_inv c (fs_release w w_rel k pc' s)"
    if "fs_hold ?t (fs_pcs s w) = lists_access [] (k # ks)" "fs_hold ?t pc' = lists_access [] ks"
      "k \<notin> set ks" "fs_wf_pc ?t pc'" for k ks pc'
  proof (rule step)
    show "fs_txs (fs_release w w_rel k pc' s) = (fs_txs s)(w := ?t)" by (simp add: fs_release_def)
    show "lt_move (fs_words s) (fs_hold ?t (fs_pcs s w)) (fs_words (fs_release w w_rel k pc' s)) (fs_hold ?t pc')"
      using lt_move_unwrite [OF that(3), of "[]" "fs_words s"] that(1,2) by (simp add: fs_release_def)
  qed (use that in \<open>simp_all add: fs_release_def\<close>)
  have clear: "fs_inv c (fs_upd w (sa_clear ?t) pc' s)"
    if "fs_hold ?t (fs_pcs s w) = (\<lambda>_. None)" "pc' = FRetry \<or> pc' = FCount" for pc'
    by (rule step [where t' = "sa_clear ?t" and pc' = pc'])
      (use that in \<open>auto simp: sa_clear_def fs_sets_def lists_access_simps(1) lt_keep\<close>)
  show ?thesis
  proof (cases "fs_pcs s w")
    case FFetch
    have "fs_inv c (fs_goto w FStop s)" by (rule goto) (use FFetch wf in simp_all)
    moreover have "fs_inv c ((fs_upd w (?t\<lparr>task_set := fs_pre c (fs_pos s w)\<rparr>) FRetry s)
        \<lparr>fs_pos := (fs_pos s)(w := Suc (fs_pos s w))\<rparr>)"
      by (rule step [where t' = "?t\<lparr>task_set := fs_pre c (fs_pos s w)\<rparr>" and pc' = FRetry])
        (use FFetch wf in \<open>simp_all add: fs_sets_def lt_keep\<close>)
    ultimately show ?thesis using FFetch by (simp add: fs_step_def Let_def)
  next
    case FRetry
    have "fs_inv c (fs_goto w FStop s)" by (rule goto) (use FRetry wf in simp_all)
    moreover have "fs_inv c ((fs_upd w (sa_begin ?t) (FOps (task_set ?t)) s)\<lparr>fs_reads := (fs_reads s)(w := [])\<rparr>)"
      by (rule step [where t' = "sa_begin ?t" and pc' = "FOps (task_set ?t)"])
        (use FRetry wf in \<open>simp_all add: fs_sets_def lt_keep sa_begin_def\<close>)
    ultimately show ?thesis using FRetry by (simp add: fs_step_def Let_def)
  next
    case (FOps ts)
    show ?thesis
    proof (cases ts)
      case Nil
      have "fs_inv c (fs_commit w s)"
        by (rule step [where t' = ?t and pc' = "FUnlR (r_lock_list ?t)"])
          (use FOps wf in \<open>simp_all add: fs_commit_def fs_sets_def lt_keep Let_def\<close>)
      with FOps Nil show ?thesis by (simp add: fs_step_def)
    next
      case (Cons task rest)
      have "fs_inv c (fs_goto w (FOps rest) s)" by (rule goto) (use FOps wf in simp_all)
      with FOps Cons fs_inv_read [OF inv w n FOps] fs_inv_write [OF inv w n FOps] show ?thesis
        by (simp add: fs_step_def fs_op_def split: sa_ope.split)
    qed
  next
    case (FReadVal k rest)
    have "fs_inv c (fs_read_val w k rest s)"
      by (rule step [where t' = "sa_read k (sa_value (fs_table s k)) ?t" and pc' = "FOps rest"])
        (use FReadVal wf in \<open>simp_all add: fs_read_val_def fs_sets_def sa_read_def lt_keep Let_def\<close>)
    with FReadVal show ?thesis by (simp add: fs_step_def)
  next
    case (FWriteVal k rest)
    have "fs_words (fs_write_val w k rest s) = fs_words s"
      by (simp add: fs_write_val_def set_sa_value_def fun_eq_iff)
    then have "fs_inv c (fs_write_val w k rest s)"
      by (intro step [where t' = "sa_write k ?t" and pc' = "FOps rest"])
        (use FWriteVal wf in \<open>simp_all add: fs_write_val_def fs_sets_def sa_write_def lt_keep\<close>)
    with FWriteVal show ?thesis by (simp add: fs_step_def)
  next
    case (FAbortR ks)
    show ?thesis
    proof (cases ks)
      case Nil
      have "fs_inv c (fs_goto w (FAbortW (w_lock_list ?t)) s)" by (rule goto) (use FAbortR Nil wf in simp_all)
      with FAbortR Nil show ?thesis by (simp add: fs_step_def)
    next
      case (Cons k ks')
      have "fs_inv c (fs_release w r_rel k (FAbortR ks') s)" by (rule rel_r) (use FAbortR Cons wf in auto)
      with FAbortR Cons show ?thesis by (simp add: fs_step_def)
    qed
  next
    case (FUnlR ks)
    show ?thesis
    proof (cases ks)
      case Nil
      have "fs_inv c (fs_goto w (FUnlW (w_lock_list ?t)) s)" by (rule goto) (use FUnlR Nil wf in simp_all)
      with FUnlR Nil show ?thesis by (simp add: fs_step_def)
    next
      case (Cons k ks')
      have "fs_inv c (fs_release w r_rel k (FUnlR ks') s)" by (rule rel_r) (use FUnlR Cons wf in auto)
      with FUnlR Cons show ?thesis by (simp add: fs_step_def)
    qed
  next
    case (FAbortW ks)
    then show ?thesis
      using rel_w [of _ _ "FAbortW (tl ks)"] clear [of FRetry] wf
      by (cases ks) (simp_all add: fs_step_def lists_access_simps(1))
  next
    case (FUnlW ks)
    then show ?thesis
      using rel_w [of _ _ "FUnlW (tl ks)"] clear [of FCount] wf
      by (cases ks) (simp_all add: fs_step_def lists_access_simps(1))
  next
    case FCount
    show ?thesis
      by (rule step [where t' = ?t and pc' = FFetch]) (use FCount wf in \<open>simp_all add: fs_step_def lt_keep\<close>)
  next
    case FStop
    then show ?thesis using inv by (simp add: fs_step_def)
  qed
qed

interpretation fs_system: invariant_system fs_start "fs_next c" "\<lambda>s. fs_workers c \<le> 2 ^ 32 - 2 \<longrightarrow> fs_inv c s" for c
proof unfold_locales
  show "fs_workers c \<le> 2 ^ 32 - 2 \<longrightarrow> fs_inv c s" if "fs_start s" for s
    using that by (auto simp: fs_start_def fs_init_def fs_inv_def lt_ok_def fs_sets_def sa_new_def
        lists_access_simps(1) ctr_rep_def intro!: rwl.held_init)
  show "fs_workers c \<le> 2 ^ 32 - 2 \<longrightarrow> fs_inv c t"
    if "fs_workers c \<le> 2 ^ 32 - 2 \<longrightarrow> fs_inv c s" "fs_next c s t" for s t
    using that fs_inv_fs_step by (auto simp: fs_next_def fs_inv_def)
qed

lemma fs_reach_inv: "fs_reach c s \<Longrightarrow> fs_workers c \<le> 2 ^ 32 - 2 \<Longrightarrow> fs_inv c s"
  using fs_system.reach_inv by blast

section \<open>Concrete runs\<close>

text \<open>
  Worker 0 writes record 1 and then aborts at record 2, which worker 1 has locked; worker 1
  reads record 1 and commits.
\<close>

definition xdemo_cfg :: fs_config where
  "xdemo_cfg = \<lparr>fs_pre = (\<lambda>p. if p = 0 then [Task OpWrite 1, Task OpWrite 2]
      else if p = 1 then [Task OpWrite 2, Task OpRead 1] else [Task OpRead 3, Task OpWrite 3]), fs_workers = 3\<rparr>"

definition xdemo_mid :: fs_sys where
  "xdemo_mid = fs_run xdemo_cfg (replicate 4 1 @ replicate 5 0) (fs_init 1)"

definition xdemo_dirty :: fs_sys where
  "xdemo_dirty = fs_run xdemo_cfg (replicate 4 0 @ replicate 3 1) xdemo_mid"

text \<open>Worker 2 alone: it reads record 3, upgrades, commits and unlocks.\<close>

definition xdemo_lost :: fs_sys where
  "xdemo_lost = fs_run xdemo_cfg (replicate 10 2) (fs_init 1)"

lemmas xdemo_eval =
  xdemo_cfg_def fs_step_def fs_upd_def fs_goto_def fs_set_lock_def fs_abort_def fs_read_def
  fs_read_val_def fs_upgrade_def fs_write_def fs_write_val_def fs_op_def fs_commit_def fs_release_def
  fs_init_def sa_new_def sa_begin_def sa_read_def sa_write_def sa_clear_def set_sa_lock_def
  set_sa_value_def Task_def w_acq_def r_acq_def upg_def w_rel_def r_rel_def Let_def replicate_numeral

lemma xdemo_states:
  "fs_pcs xdemo_mid 1 = FOps [Task OpRead 1]" "sa_write_set (fs_txs xdemo_mid 1) = [(2, 100)]"
  "fs_com xdemo_dirty = [\<lparr>tx_reads = [(1, u64_bytes 100)], tx_writes = [(2, \<lambda>_. u64_bytes 100)]\<rparr>]"
  "fs_com xdemo_lost = [\<lparr>tx_reads = [(3, u64_bytes 0)], tx_writes = [(3, \<lambda>_. u64_bytes 100)]\<rparr>]"
  "fs_table xdemo_lost 3 = \<lparr>sa_lock = 0, sa_value = 0\<rparr>"
  by (simp_all add: xdemo_mid_def xdemo_dirty_def xdemo_lost_def xdemo_eval)

lemma xdemo_reach: "fs_reach xdemo_cfg xdemo_mid" "fs_reach xdemo_cfg xdemo_dirty" "fs_reach xdemo_cfg xdemo_lost"
proof -
  have i: "fs_reach xdemo_cfg (fs_init 1)" by (rule reach_init) (auto simp: fs_start_def)
  show m: "fs_reach xdemo_cfg xdemo_mid"
    unfolding xdemo_mid_def by (rule fs_run_reach [OF i]) (auto simp: xdemo_cfg_def)
  show "fs_reach xdemo_cfg xdemo_dirty"
    unfolding xdemo_dirty_def by (rule fs_run_reach [OF m]) (auto simp: xdemo_cfg_def)
  show "fs_reach xdemo_cfg xdemo_lost"
    unfolding xdemo_lost_def by (rule fs_run_reach [OF i]) (auto simp: xdemo_cfg_def)
qed

lemma u64_bytes_100: "u64_bytes 100 \<noteq> u64_bytes 0"
  by (simp add: u64_bytes_def upt_rec)

section \<open>Theorems\<close>

text \<open>
  Exclusion: between two operations of a transaction, a record of its write set is write
  locked and no other running transaction has locked it; a record of its read set is locked.
\<close>

theorem fairss_exclusion:
  assumes "fs_reach c s" and "fs_workers c \<le> 2 ^ 32 - 2" and pc: "fs_pcs s w = FOps ts"
  shows "(k \<in> fst ` set (sa_write_set (fs_txs s w)) \<longrightarrow> sa_lock (fs_table s k) = - 1 \<and>
      (\<forall>v us. v \<noteq> w \<longrightarrow> fs_pcs s v = FOps us \<longrightarrow>
         k \<notin> set (r_lock_list (fs_txs s v)) \<union> set (w_lock_list (fs_txs s v)))) \<and>
    (k \<in> fst ` set (sa_read_set (fs_txs s w)) \<longrightarrow> sa_lock (fs_table s k) \<noteq> 0)"
proof -
  have inv: "fs_inv c s" by (rule fs_reach_inv [OF assms(1,2)])
  then have ok: "lt_ok (fs_workers c) (fs_words s) (fs_holds s)" by (simp add: fs_inv_def)
  have wf: "fs_sets [] [] (fs_txs s w)" using inv pc unfolding fs_inv_def by (metis fs_wf_pc.simps(1))
  note K = fs_sets_keys [OF wf, of k]
  have hold: "fs_holds s w = lists_access (r_lock_list (fs_txs s w)) (w_lock_list (fs_txs s w))" using pc by simp
  show ?thesis
  proof (intro conjI impI)
    assume "k \<in> fst ` set (sa_write_set (fs_txs s w))"
    with K hold have h: "fs_holds s w k = Some True" by (simp add: lists_access_def)
    show "sa_lock (fs_table s k) = - 1" using lt_word(1) [OF ok h] by simp
    show "\<forall>v us. v \<noteq> w \<longrightarrow> fs_pcs s v = FOps us \<longrightarrow>
         k \<notin> set (r_lock_list (fs_txs s v)) \<union> set (w_lock_list (fs_txs s v))"
    proof (intro allI impI notI)
      fix v us assume v: "v \<noteq> w" "fs_pcs s v = FOps us" "k \<in> set (r_lock_list (fs_txs s v)) \<union> set (w_lock_list (fs_txs s v))"
      then have "fs_holds s v k \<noteq> None" by auto
      then obtain b where "fs_holds s v k = Some b" by blast
      with lt_excl [OF ok this h] v(1) show False by simp
    qed
  next
    assume "k \<in> fst ` set (sa_read_set (fs_txs s w))"
    with K hold have "fs_holds s w k \<noteq> None" by simp
    then obtain b where "fs_holds s w k = Some b" by blast
    from lt_word(2) [OF ok this] show "sa_lock (fs_table s k) \<noteq> 0" by simp
  qed
qed

theorem fairss_exclusion_witness: "sa_lock (fs_table xdemo_mid 2) = - 1"
proof -
  have k: "2 \<in> fst ` set (sa_write_set (fs_txs xdemo_mid 1))" unfolding xdemo_states(2) by simp
  have n: "fs_workers xdemo_cfg \<le> 2 ^ 32 - 2" by (simp add: xdemo_cfg_def)
  from fairss_exclusion [OF xdemo_reach(1) n xdemo_states(1), of 2] k show ?thesis by blast
qed


text \<open>
  A write to a record that the transaction has read is lost: there is a run that ends with
  the record unlocked and one committed transaction that wrote it, and whose value is not
  the one any serial run of the committed transactions leaves.
\<close>

theorem fairss_upgrade_lost:
  "\<exists>c s k. fs_reach c s \<and> sa_lock (fs_table s k) = 0 \<and>
     (\<exists>t \<in> set (fs_com s). k \<in> fst ` set (tx_writes t)) \<and>
     (\<nexists>ps. mset ps = mset (fs_com s) \<and> serial_db (\<lambda>_. u64_bytes 0) ps k = u64_bytes (sa_value (fs_table s k)))"
proof -
  have "\<nexists>ps. mset ps = mset (fs_com xdemo_lost) \<and>
      serial_db (\<lambda>_. u64_bytes 0) ps 3 = u64_bytes (sa_value (fs_table xdemo_lost 3))"
    unfolding xdemo_states(4,5) using u64_bytes_100 by (auto simp: apply_tx_def)
  moreover have "\<exists>t \<in> set (fs_com xdemo_lost). 3 \<in> fst ` set (tx_writes t)" by (simp add: xdemo_states)
  moreover have "sa_lock (fs_table xdemo_lost 3) = 0" by (simp add: xdemo_states)
  ultimately show ?thesis using xdemo_reach(3) by blast
qed

end
