(* ===== verification/Kr_System.thy ===== *)
theory Kr_System
  imports Ss2pl_Model
begin

text \<open>
  Optimistic concurrency control after Kung and Robinson: \<^verbatim>\<open>TxnExecutor\<close> of
  \<^verbatim>\<open>occ/transaction.cc\<close> and the worker of \<^verbatim>\<open>occ/occ.cc\<close>. Reads copy the payload without any
  lock, one byte at a time; validation and write phase run under \<^verbatim>\<open>global_lock\<close> and test the
  write sets that committed since the transaction began. \<^verbatim>\<open>startTxId\<close>, \<^verbatim>\<open>progress\<close> and the
  indices of the validation are 32-bit integers, \<^verbatim>\<open>txId\<close> and \<^verbatim>\<open>deletedTxId\<close> 64-bit, with the
  conversions of the code. An access outside \<^verbatim>\<open>ws_list\<close> is undefined behaviour and stops the
  worker in \<open>KFault\<close>. Ghost state: the committed transactions.
\<close>

section \<open>State\<close>

record kr_read =
  kr_key :: key
  kr_rcdptr :: key
  kr_val :: val

record kr_write =
  kw_key :: key
  kw_rcdptr :: key

record kr_tx =
  kr_startTxId :: u32
  kr_rset :: "kr_read list"
  kr_wset :: "kr_write list"
  kr_pro :: "procedure list"
  kr_write_val :: val

datatype kr_call = CallRead key | CallWrite key

datatype kr_pc =
    KMake
  | KRetry
  | KBegin
  | KCalls "kr_call list"
  | KCopy key val "kr_call list"
  | KValidate
  | KWrite "kr_write list" nat
  | KFinish
  | KUnlock kr_pc
  | KStop
  | KFault

record kr_sys =
  kr_table :: "key \<Rightarrow> val"
  kr_global_lock :: u32
  kr_txId :: u64
  kr_ws_list :: "kr_write list list"
  kr_deletedTxId :: u64
  kr_progress :: "u32 list"
  kr_quit :: bool
  kr_txs :: "nat \<Rightarrow> kr_tx"
  kr_pcs :: "nat \<Rightarrow> kr_pc"
  kr_com :: "txrec list"

record kr_config =
  kr_workers :: nat
  kr_val_size :: nat
  kr_gc_threshold :: u64

definition kr_upd :: "nat \<Rightarrow> kr_tx \<Rightarrow> kr_pc \<Rightarrow> kr_sys \<Rightarrow> kr_sys" where
  "kr_upd w t pc s = s\<lparr>kr_txs := (kr_txs s)(w := t), kr_pcs := (kr_pcs s)(w := pc)\<rparr>"

definition kr_goto :: "nat \<Rightarrow> kr_pc \<Rightarrow> kr_sys \<Rightarrow> kr_sys" where
  "kr_goto w pc s = s\<lparr>kr_pcs := (kr_pcs s)(w := pc)\<rparr>"

section \<open>The operations of TxnExecutor\<close>

definition kr_searchReadSet :: "key \<Rightarrow> kr_tx \<Rightarrow> kr_read option" where
  "kr_searchReadSet k t = search_set kr_key k (kr_rset t)"

definition kr_searchWriteSet :: "key \<Rightarrow> kr_tx \<Rightarrow> kr_write option" where
  "kr_searchWriteSet k t = search_set kw_key k (kr_wset t)"

definition kr_begin :: "u64 \<Rightarrow> kr_tx \<Rightarrow> kr_tx" where
  "kr_begin n t = t\<lparr>kr_startTxId := ucast n\<rparr>"

text \<open>\<^verbatim>\<open>read\<close>: where to go on, the copy of the payload or the next operation.\<close>

definition kr_read_op :: "key \<Rightarrow> kr_call list \<Rightarrow> kr_tx \<Rightarrow> kr_pc" where
  "kr_read_op k rest t =
     (if kr_searchReadSet k t \<noteq> None \<or> kr_searchWriteSet k t \<noteq> None then KCalls rest
      else KCopy k [] rest)"

text \<open>The constructor of \<^verbatim>\<open>ReadElement\<close> copies \<^verbatim>\<open>VAL_SIZE\<close> bytes, one per step.\<close>

definition kr_copy :: "kr_config \<Rightarrow> nat \<Rightarrow> key \<Rightarrow> val \<Rightarrow> kr_call list \<Rightarrow> kr_sys \<Rightarrow> kr_sys" where
  "kr_copy c w k buf rest s =
     (let t = kr_txs s w; i = length buf in
      if i < kr_val_size c then kr_goto w (KCopy k (buf @ [kr_table s (get_tuple k) ! i]) rest) s
      else kr_upd w (t\<lparr>kr_rset := kr_rset t @
             [\<lparr>kr_key = k, kr_rcdptr = get_tuple k, kr_val = buf\<rparr>]\<rparr>) (KCalls rest) s)"

definition kr_write_op :: "key \<Rightarrow> kr_tx \<Rightarrow> kr_tx" where
  "kr_write_op k t =
     (if kr_searchWriteSet k t \<noteq> None then t
      else
        (let tuple = (case kr_searchReadSet k t of Some re \<Rightarrow> kr_rcdptr re | None \<Rightarrow> get_tuple k)
         in t\<lparr>kr_wset := kr_wset t @ [\<lparr>kw_key = k, kw_rcdptr = tuple\<rparr>]\<rparr>))"

text \<open>
  The loops of \<^verbatim>\<open>validationPhase\<close>: \<open>Some False\<close> is the early return, \<open>None\<close> an index outside
  the vector (only looked at when there is an element in the read set).
\<close>

fun kr_scan :: "kr_write list list \<Rightarrow> kr_read list \<Rightarrow> int list \<Rightarrow> bool option" where
  "kr_scan ws rs [] = Some True"
| "kr_scan ws rs (i # is) =
     (if rs = [] then kr_scan ws rs is
      else if i < 0 \<or> int (length ws) \<le> i then None
      else if list_ex (\<lambda>r. list_ex (\<lambda>e. kr_key r = kw_key e) (ws ! nat i)) rs then Some False
      else kr_scan ws rs is)"

definition kr_index :: "u64 \<Rightarrow> u64 \<Rightarrow> u32" where
  "kr_index tx deleted = ucast (tx - (deleted + 1))"

definition kr_validationPhase :: "nat \<Rightarrow> kr_sys \<Rightarrow> bool option" where
  "kr_validationPhase w s =
     (let t = kr_txs s w;
          begin' = kr_index (scast (kr_startTxId t)) (kr_deletedTxId s);
          end' = kr_index (kr_txId s) (kr_deletedTxId s)
      in kr_scan (kr_ws_list s) (kr_rset t) [sint begin'..sint end' - 1])"

text \<open>\<^verbatim>\<open>min_element\<close> over \<^verbatim>\<open>vector<int>\<close>\<close>

definition kr_slowest :: "u32 list \<Rightarrow> u32" where
  "kr_slowest ps = fold (\<lambda>x m. if sint x < sint m then x else m) (tl ps) (hd ps)"

text \<open>\<^verbatim>\<open>gc\<close>: \<open>None\<close> when the range to erase is not in the vector.\<close>

definition kr_gc :: "kr_config \<Rightarrow> kr_sys \<Rightarrow> kr_sys option" where
  "kr_gc c s =
     (if kr_gc_threshold c < of_nat (length (kr_ws_list s)) then
        (let slowest = kr_slowest (kr_progress s);
             numTxnsDeleted = (ucast (scast slowest - kr_deletedTxId s) :: u32)
         in if 0 < sint numTxnsDeleted then
              (if nat (sint numTxnsDeleted) \<le> length (kr_ws_list s)
               then Some (s\<lparr>kr_ws_list := drop (nat (sint numTxnsDeleted)) (kr_ws_list s),
                            kr_deletedTxId := scast slowest\<rparr>)
               else None)
            else Some s)
      else Some s)"

text \<open>
  The write phase: one byte of one record per step, then the rest of the function, which the
  other workers can only see through \<^verbatim>\<open>txId\<close> until the lock is released.
\<close>

definition kr_write_byte :: "kr_config \<Rightarrow> nat \<Rightarrow> kr_write \<Rightarrow> kr_write list \<Rightarrow> nat \<Rightarrow> kr_sys \<Rightarrow> kr_sys" where
  "kr_write_byte c w e es i s =
     (let t = kr_txs s w; p = kw_rcdptr e in
      if i < kr_val_size c then
        (kr_goto w (KWrite (e # es) (Suc i)) s)
          \<lparr>kr_table := (kr_table s)(p := (kr_table s p)[i := kr_write_val t ! i])\<rparr>
      else kr_goto w (KWrite es 0) s)"

definition kr_record :: "kr_tx \<Rightarrow> txrec" where
  "kr_record t =
     \<lparr>tx_reads = map (\<lambda>r. (kr_key r, kr_val r)) (kr_rset t),
      tx_writes = map (\<lambda>e. (kw_key e, \<lambda>_. kr_write_val t)) (kr_wset t)\<rparr>"

definition kr_finish :: "kr_config \<Rightarrow> nat \<Rightarrow> kr_sys \<Rightarrow> kr_sys" where
  "kr_finish c w s =
     (let t = kr_txs s w;
          s1 = (kr_upd w (t\<lparr>kr_rset := [], kr_wset := []\<rparr>) (KUnlock KMake) s)
                 \<lparr>kr_ws_list := kr_ws_list s @ [kr_wset t],
                  kr_progress := (kr_progress s)[w := ucast (kr_txId s)],
                  kr_com := kr_com s @ [kr_record t]\<rparr>;
          s2 = s1\<lparr>kr_txId := scast (kr_progress s1 ! w + 1)\<rparr>
      in case kr_gc c s2 of None \<Rightarrow> kr_goto w KFault s2 | Some s3 \<Rightarrow> s3)"

definition kr_abort :: "kr_tx \<Rightarrow> kr_tx" where
  "kr_abort t = t\<lparr>kr_rset := [], kr_wset := []\<rparr>"

section \<open>One step of worker \<open>w\<close>\<close>

fun kr_calls :: "procedure \<Rightarrow> kr_call list" where
  "kr_calls p =
     (case p_ope p of
        READ \<Rightarrow> [CallRead (p_key p)]
      | WRITE \<Rightarrow> [CallWrite (p_key p)]
      | READ_MODIFY_WRITE \<Rightarrow> [CallRead (p_key p), CallWrite (p_key p)])"

text \<open>
  \<open>pro\<close> is what \<^verbatim>\<open>makeProcedure\<close> generates when it is called; \<^verbatim>\<open>w_lock\<close> is its atomic change.
\<close>

definition kr_step :: "kr_config \<Rightarrow> nat \<Rightarrow> procedure list \<Rightarrow> kr_sys \<Rightarrow> kr_sys" where
  "kr_step c w pro s =
     (let t = kr_txs s w in
      case kr_pcs s w of
        KMake \<Rightarrow> (if kr_quit s then kr_goto w KStop s else kr_upd w (t\<lparr>kr_pro := pro\<rparr>) KRetry s)
      | KRetry \<Rightarrow> (if kr_quit s then kr_goto w KStop s else kr_goto w KBegin s)
      | KBegin \<Rightarrow>
          kr_upd w (kr_begin (kr_txId s) t) (KCalls (concat (map kr_calls (kr_pro t)))) s
      | KCalls (CallRead k # rest) \<Rightarrow> kr_goto w (kr_read_op k rest t) s
      | KCalls (CallWrite k # rest) \<Rightarrow> kr_upd w (kr_write_op k t) (KCalls rest) s
      | KCopy k buf rest \<Rightarrow> kr_copy c w k buf rest s
      | KCalls [] \<Rightarrow>
          (case w_acq (kr_global_lock s) of
             None \<Rightarrow> s
           | Some l \<Rightarrow> (kr_goto w KValidate s)\<lparr>kr_global_lock := l\<rparr>)
      | KValidate \<Rightarrow>
          (case kr_validationPhase w s of
             None \<Rightarrow> kr_goto w KFault s
           | Some True \<Rightarrow> kr_goto w (KWrite (kr_wset t) 0) s
           | Some False \<Rightarrow> kr_upd w (kr_abort t) (KUnlock KRetry) s)
      | KWrite (e # es) i \<Rightarrow> kr_write_byte c w e es i s
      | KWrite [] i \<Rightarrow> kr_goto w KFinish s
      | KFinish \<Rightarrow> kr_finish c w s
      | KUnlock pc \<Rightarrow> (kr_goto w pc s)\<lparr>kr_global_lock := w_rel (kr_global_lock s)\<rparr>
      | KStop \<Rightarrow> s
      | KFault \<Rightarrow> s)"

section \<open>The system\<close>

definition kr_init :: "kr_config \<Rightarrow> db \<Rightarrow> (nat \<Rightarrow> val) \<Rightarrow> kr_sys" where
  "kr_init c d wv =
     \<lparr>kr_table = d, kr_global_lock = 0, kr_txId = 0, kr_ws_list = [], kr_deletedTxId = -1,
      kr_progress = replicate (kr_workers c) 0, kr_quit = False,
      kr_txs = (\<lambda>w. \<lparr>kr_startTxId = 0, kr_rset = [], kr_wset = [], kr_pro = [], kr_write_val = wv w\<rparr>),
      kr_pcs = (\<lambda>_. KMake), kr_com = []\<rparr>"

text \<open>Every payload and every \<^verbatim>\<open>write_val_\<close> is an array of \<^verbatim>\<open>VAL_SIZE\<close> bytes.\<close>

definition kr_start :: "kr_config \<Rightarrow> db \<Rightarrow> kr_sys \<Rightarrow> bool" where
  "kr_start c d s \<longleftrightarrow>
     (\<exists>wv. s = kr_init c d wv \<and> (\<forall>w. length (wv w) = kr_val_size c) \<and>
        (\<forall>k. length (d k) = kr_val_size c))"

definition kr_next :: "kr_config \<Rightarrow> kr_sys \<Rightarrow> kr_sys \<Rightarrow> bool" where
  "kr_next c s t \<longleftrightarrow> (\<exists>w pro. w < kr_workers c \<and> t = kr_step c w pro s) \<or> t = s\<lparr>kr_quit := True\<rparr>"

abbreviation kr_reach :: "kr_config \<Rightarrow> db \<Rightarrow> kr_sys \<Rightarrow> bool" where
  "kr_reach c d \<equiv> reach (kr_start c d) (kr_next c)"

fun kr_run :: "kr_config \<Rightarrow> (nat \<times> procedure list) list \<Rightarrow> kr_sys \<Rightarrow> kr_sys" where
  "kr_run c [] s = s"
| "kr_run c ((w, pro) # sched) s = kr_run c sched (kr_step c w pro s)"

lemma kr_run_reach:
  "kr_reach c d s \<Longrightarrow> \<forall>(w, pro) \<in> set sched. w < kr_workers c \<Longrightarrow> kr_reach c d (kr_run c sched s)"
proof (induction sched arbitrary: s)
  case (Cons a sched)
  then have "kr_next c s (kr_step c (fst a) (snd a) s)"
    unfolding kr_next_def by (intro disjI1 exI [of _ "fst a"] exI [of _ "snd a"]) auto
  then have "kr_reach c d (kr_step c (fst a) (snd a) s)"
    using Cons.prems(1) by (blast intro: reach_step)
  with Cons show ?case by (cases a) simp
qed simp

end
