(* ===== verification/Kr_Proofs.thy ===== *)
theory Kr_Proofs
  imports Kr_System
begin

text \<open>
  The invariant of the optimistic executor: who is under the global lock, how the write sets
  kept for the validation correspond to the committed transactions, how far \<^verbatim>\<open>progress\<close> lags,
  and what an unlocked reader knows about the bytes it has copied. All of it is stated for
  fewer than \<open>2 ^ 31\<close> committed transactions, where the 32-bit integers are exact.
\<close>

section \<open>The invariant\<close>

fun in_cs :: "kr_pc \<Rightarrow> bool" where
  "in_cs KValidate = True"
| "in_cs (KWrite es i) = True"
| "in_cs KFinish = True"
| "in_cs (KUnlock pc) = True"
| "in_cs KFault = True"
| "in_cs _ = False"

fun kr_active :: "kr_pc \<Rightarrow> bool" where
  "kr_active (KCalls cs) = True"
| "kr_active (KCopy k buf cs) = True"
| "kr_active KValidate = True"
| "kr_active (KWrite es i) = True"
| "kr_active KFinish = True"
| "kr_active _ = False"

text \<open>The records a worker is about to overwrite or has begun to overwrite.\<close>

fun fluxw :: "kr_pc \<Rightarrow> kr_tx \<Rightarrow> key set" where
  "fluxw (KWrite es i) t = kw_key ` set (kr_wset t)"
| "fluxw KFinish t = kw_key ` set (kr_wset t)"
| "fluxw _ t = {}"

definition kr_flux :: "kr_sys \<Rightarrow> key set" where
  "kr_flux s = (\<Union>w. fluxw (kr_pcs s w) (kr_txs s w))"

definition kr_excl :: "kr_sys \<Rightarrow> bool" where
  "kr_excl s \<longleftrightarrow> (\<forall>v w. in_cs (kr_pcs s v) \<longrightarrow> in_cs (kr_pcs s w) \<longrightarrow> v = w) \<and>
     kr_global_lock s = (if \<exists>w. in_cs (kr_pcs s w) then - 1 else 0)"

text \<open>The records that changed since the transaction number \<open>st\<close>, or are changing.\<close>

definition kr_dirt :: "kr_sys \<Rightarrow> nat \<Rightarrow> key set" where
  "kr_dirt s st =
     kr_flux s \<union> {k. \<exists>i. st \<le> i \<and> i < length (kr_com s) \<and> k \<in> fst ` set (tx_writes (kr_com s ! i))}"

definition kr_look :: "nat \<Rightarrow> (key \<Rightarrow> val) \<Rightarrow> key set \<Rightarrow> kr_tx \<Rightarrow> kr_pc \<Rightarrow> bool" where
  "kr_look n tb dirt t pc \<longleftrightarrow>
     (\<forall>r \<in> set (kr_rset t). kr_key r \<notin> dirt \<longrightarrow> kr_val r = tb (kr_key r)) \<and>
     (case pc of
        KCopy k buf _ \<Rightarrow> length buf \<le> n \<and> (k \<notin> dirt \<longrightarrow> buf = take (length buf) (tb k))
      | _ \<Rightarrow> True)"

definition kr_wf :: "nat \<Rightarrow> kr_tx \<Rightarrow> bool" where
  "kr_wf n t \<longleftrightarrow> length (kr_write_val t) = n \<and>
     (\<forall>e \<in> set (kr_wset t). kw_rcdptr e = kw_key e) \<and> (\<forall>r \<in> set (kr_rset t). kr_rcdptr r = kr_key r)"

definition kr_prog :: "kr_sys \<Rightarrow> nat \<Rightarrow> nat" where
  "kr_prog s w = (if w < length (kr_progress s) then unat (kr_progress s ! w) else 0)"

definition kr_deleted :: "kr_sys \<Rightarrow> nat" where
  "kr_deleted s = unat (kr_deletedTxId s + 1)"

text \<open>What the write phase has done: the records before the current one, and its first bytes.\<close>

definition kr_valid :: "db \<Rightarrow> kr_sys \<Rightarrow> kr_tx \<Rightarrow> bool" where
  "kr_valid d s t \<longleftrightarrow> (\<forall>r \<in> set (kr_rset t). kr_val r = serial_db d (kr_com s) (kr_key r))"

definition kr_written :: "kr_sys \<Rightarrow> kr_tx \<Rightarrow> kr_write list \<Rightarrow> nat \<Rightarrow> bool" where
  "kr_written s t es i \<longleftrightarrow>
     (\<exists>xs. kr_wset t = xs @ es \<and> (\<forall>e \<in> set xs. kr_table s (kw_key e) = kr_write_val t)) \<and>
     (es \<noteq> [] \<longrightarrow> take i (kr_table s (kw_key (hd es))) = take i (kr_write_val t))"

definition kr_stage :: "db \<Rightarrow> kr_sys \<Rightarrow> kr_tx \<Rightarrow> kr_pc \<Rightarrow> bool" where
  "kr_stage d s t pc \<longleftrightarrow>
     (case pc of
        KWrite es i \<Rightarrow> kr_valid d s t \<and> kr_written s t es i
      | KFinish \<Rightarrow> kr_valid d s t \<and> kr_written s t [] 0
      | KFault \<Rightarrow> kr_startTxId t = 0 \<and> kr_deletedTxId s \<noteq> - 1
      | KUnlock pc' \<Rightarrow> pc' = KMake \<or> pc' = KRetry
      | _ \<Rightarrow> True)"

definition kr_began :: "kr_config \<Rightarrow> kr_sys \<Rightarrow> nat \<Rightarrow> kr_tx \<Rightarrow> kr_pc \<Rightarrow> nat \<Rightarrow> bool" where
  "kr_began c s w t pc st \<longleftrightarrow>
     st \<le> length (kr_com s) \<and> kr_startTxId t = of_nat st \<and>
     (kr_prog s w \<noteq> 0 \<longrightarrow> kr_prog s w < st) \<and>
     kr_look (kr_val_size c) (kr_table s) (kr_dirt s st) t pc"

definition kr_wk :: "kr_config \<Rightarrow> db \<Rightarrow> kr_sys \<Rightarrow> nat \<Rightarrow> bool" where
  "kr_wk c d s w \<longleftrightarrow>
     (let t = kr_txs s w; pc = kr_pcs s w in
      kr_wf (kr_val_size c) t \<and>
      (\<not> kr_active pc \<longrightarrow> pc \<noteq> KFault \<longrightarrow> kr_rset t = [] \<and> kr_wset t = []) \<and>
      (kr_active pc \<longrightarrow> (\<exists>st. kr_began c s w t pc st)) \<and>
      kr_stage d s t pc)"

definition kr_counts :: "kr_config \<Rightarrow> kr_sys \<Rightarrow> bool" where
  "kr_counts c s \<longleftrightarrow>
     kr_txId s = of_nat (length (kr_com s)) \<and> kr_deleted s \<le> length (kr_com s) \<and>
     map (map kw_key) (kr_ws_list s) =
       map (\<lambda>t. map fst (tx_writes t)) (drop (kr_deleted s) (kr_com s)) \<and>
     length (kr_progress s) = kr_workers c \<and>
     (\<forall>w < kr_workers c. kr_prog s w < max 1 (length (kr_com s)) \<and> kr_deleted s \<le> Suc (kr_prog s w))"

definition kr_values :: "kr_config \<Rightarrow> db \<Rightarrow> kr_sys \<Rightarrow> bool" where
  "kr_values c d s \<longleftrightarrow>
     (\<forall>k. length (kr_table s k) = kr_val_size c) \<and>
     (\<forall>k. k \<notin> kr_flux s \<longrightarrow> kr_table s k = serial_db d (kr_com s) k) \<and>
     serial_ok d (kr_com s)"

definition kr_good :: "kr_config \<Rightarrow> db \<Rightarrow> kr_sys \<Rightarrow> bool" where
  "kr_good c d s \<longleftrightarrow> kr_excl s \<and> kr_counts c s \<and> kr_values c d s \<and> (\<forall>w. kr_wk c d s w)"

definition kr_inv :: "kr_config \<Rightarrow> db \<Rightarrow> kr_sys \<Rightarrow> bool" where
  "kr_inv c d s \<longleftrightarrow> (length (kr_com s) < 2 ^ 31 \<longrightarrow> kr_good c d s)"

section \<open>Facts about the definitions\<close>

lemma kr_sel_upd [simp]:
  "kr_table (kr_upd w t pc s) = kr_table s" "kr_global_lock (kr_upd w t pc s) = kr_global_lock s"
  "kr_txId (kr_upd w t pc s) = kr_txId s" "kr_ws_list (kr_upd w t pc s) = kr_ws_list s"
  "kr_deletedTxId (kr_upd w t pc s) = kr_deletedTxId s" "kr_progress (kr_upd w t pc s) = kr_progress s"
  "kr_com (kr_upd w t pc s) = kr_com s" "kr_quit (kr_upd w t pc s) = kr_quit s"
  "kr_txs (kr_upd w t pc s) = (kr_txs s)(w := t)" "kr_pcs (kr_upd w t pc s) = (kr_pcs s)(w := pc)"
  by (simp_all add: kr_upd_def)

lemma kr_goto_upd: "kr_goto w pc s = kr_upd w (kr_txs s w) pc s"
  by (simp add: kr_goto_def kr_upd_def)

lemma kr_flux_upd:
  "kr_flux s \<subseteq> fluxw (kr_pcs s w) (kr_txs s w) \<union> (\<Union>v \<in> - {w}. fluxw (kr_pcs s v) (kr_txs s v))"
  by (auto simp: kr_flux_def)

lemma kr_flux_same:
  assumes "kr_txs t = (kr_txs s)(w := x)" "kr_pcs t = (kr_pcs s)(w := pc)"
    and "fluxw pc x = fluxw (kr_pcs s w) (kr_txs s w)"
  shows "kr_flux t = kr_flux s"
proof -
  have "fluxw (kr_pcs t v) (kr_txs t v) = fluxw (kr_pcs s v) (kr_txs s v)" for v
    using assms by (cases "v = w") auto
  then show ?thesis by (simp add: kr_flux_def)
qed

lemma fluxw_out: "\<not> in_cs pc \<Longrightarrow> fluxw pc t = {}"
  by (cases pc) auto

lemma kr_flux_owner:
  assumes "\<forall>v. v \<noteq> w \<longrightarrow> \<not> in_cs (kr_pcs s v)"
  shows "kr_flux s = fluxw (kr_pcs s w) (kr_txs s w)"
proof -
  have "fluxw (kr_pcs s v) (kr_txs s v) \<subseteq> fluxw (kr_pcs s w) (kr_txs s w)" for v
    using assms fluxw_out by (cases "v = w") auto
  then show ?thesis unfolding kr_flux_def by blast
qed

lemma kr_excl_other: "kr_excl s \<Longrightarrow> in_cs (kr_pcs s w) \<Longrightarrow> v \<noteq> w \<Longrightarrow> \<not> in_cs (kr_pcs s v)"
  unfolding kr_excl_def by blast

lemma kr_look_mono:
  assumes "kr_look n tb dirt t pc" "dirt \<subseteq> dirt'" "\<And>k. k \<notin> dirt' \<Longrightarrow> tb' k = tb k"
  shows "kr_look n tb' dirt' t pc"
  using assms unfolding kr_look_def by (cases pc) (auto simp: subset_iff)

lemma kr_wkD:
  assumes "kr_wk c d s w"
  shows kr_wk_wf: "kr_wf (kr_val_size c) (kr_txs s w)"
    and kr_wk_idle: "\<not> kr_active (kr_pcs s w) \<Longrightarrow> kr_pcs s w \<noteq> KFault \<Longrightarrow>
          kr_rset (kr_txs s w) = [] \<and> kr_wset (kr_txs s w) = []"
    and kr_wk_began: "kr_active (kr_pcs s w) \<Longrightarrow> \<exists>st. kr_began c s w (kr_txs s w) (kr_pcs s w) st"
    and kr_wk_stage: "kr_stage d s (kr_txs s w) (kr_pcs s w)"
  using assms by (auto simp: kr_wk_def Let_def)

section \<open>The 32-bit integers are exact\<close>

lemma ucast_of_int: "(ucast (of_int a :: u64) :: u32) = of_int a"
  by (rule word_uint_eqI) (simp add: unsigned_ucast_eq unsigned_of_int)

lemma ucast_of_nat: "(ucast (of_nat a :: u64) :: u32) = of_nat a"
  using ucast_of_int [of "int a"] by simp

lemma sint_of_int_small: "- (2 ^ 31) \<le> z \<Longrightarrow> z < 2 ^ 31 \<Longrightarrow> sint (of_int z :: u32) = z"
  by (simp add: signed_of_int signed_take_bit_int_eq_self)

lemma sint_of_nat_small: "a < 2 ^ 31 \<Longrightarrow> sint (of_nat a :: u32) = int a"
  using sint_of_int_small [of "int a"] by simp

lemma scast_of_nat_small: "a < 2 ^ 31 \<Longrightarrow> (scast (of_nat a :: u32) :: u64) = of_nat a"
  by (metis of_int_of_nat_eq scast_eq sint_of_nat_small)

lemma unat_of_nat_small: "a < 2 ^ 31 \<Longrightarrow> unat (of_nat a :: u32) = a"
  by (simp add: unsigned_of_nat take_bit_nat_eq_self)

lemma kr_index_exact:
  assumes "a < 2 ^ 31" "unat (del + 1) < 2 ^ 31"
  shows "sint (kr_index (of_nat a) del) = int a - int (unat (del + 1))"
proof -
  define z where "z = int a - int (unat (del + 1))"
  have "of_nat a - (del + 1) = (of_int z :: u64)" by (simp add: z_def)
  then have "kr_index (of_nat a) del = of_int z"
    unfolding kr_index_def by (metis ucast_of_int)
  moreover have "- (2 ^ 31) \<le> int a - int m \<and> int a - int m < 2 ^ 31" if "m < 2 ^ 31" for m :: nat
    using that assms(1) by simp
  then have "- (2 ^ 31) \<le> z" "z < 2 ^ 31"
    using assms(2) unfolding z_def by blast+
  ultimately have "sint (kr_index (of_nat a) del) = z"
    using sint_of_int_small by metis
  then show ?thesis by (simp add: z_def)
qed

section \<open>What the validation finds\<close>

lemma kr_scan_True:
  "kr_scan ws rs is = Some True \<Longrightarrow> r \<in> set rs \<Longrightarrow> i \<in> set is \<Longrightarrow>
   0 \<le> i \<and> i < int (length ws) \<and> kr_key r \<notin> kw_key ` set (ws ! nat i)"
  by (induction ws rs "is" rule: kr_scan.induct) (auto simp: list_ex_iff split: if_splits)

lemma kr_scan_None:
  "kr_scan ws rs is = None \<Longrightarrow> \<exists>i \<in> set is. i < 0 \<or> int (length ws) \<le> i"
  by (induction ws rs "is" rule: kr_scan.induct) (auto split: if_splits)

lemma kr_counts_less:
  assumes "kr_counts c s" "length (kr_com s) < 2 ^ 31"
  shows "kr_deleted s < 2 ^ 31" "length (kr_ws_list s) = length (kr_com s) - kr_deleted s"
proof -
  show "kr_deleted s < 2 ^ 31" using assms by (auto simp: kr_counts_def)
  have "length (map (map kw_key) (kr_ws_list s)) =
        length (map (\<lambda>t. map fst (tx_writes t)) (drop (kr_deleted s) (kr_com s)))"
    using assms(1) unfolding kr_counts_def by simp
  then show "length (kr_ws_list s) = length (kr_com s) - kr_deleted s" by simp
qed

lemma kr_ws_nth:
  assumes "kr_counts c s" "length (kr_com s) < 2 ^ 31" "kr_deleted s \<le> j" "j < length (kr_com s)"
  shows "kw_key ` set (kr_ws_list s ! (j - kr_deleted s)) = fst ` set (tx_writes (kr_com s ! j))"
proof -
  let ?i = "j - kr_deleted s"
  have i: "?i < length (kr_ws_list s)" using assms kr_counts_less [OF assms(1,2)] by simp
  have "map (map kw_key) (kr_ws_list s) ! ?i = map (\<lambda>t. map fst (tx_writes t)) (drop (kr_deleted s) (kr_com s)) ! ?i"
    using assms(1) unfolding kr_counts_def by simp
  then have "map kw_key (kr_ws_list s ! ?i) = map fst (tx_writes (kr_com s ! j))"
    using i assms(3,4) by simp
  then show ?thesis by (metis list.set_map)
qed

lemma kr_validation_range:
  assumes "kr_counts c s" "length (kr_com s) < 2 ^ 31" "kr_began c s w (kr_txs s w) pc st"
  shows "kr_validationPhase w s = kr_scan (kr_ws_list s) (kr_rset (kr_txs s w))
           [int st - int (kr_deleted s)..int (length (kr_com s)) - int (kr_deleted s) - 1]"
proof -
  have st: "st < 2 ^ 31" "kr_startTxId (kr_txs s w) = of_nat st" using assms(2,3) by (auto simp: kr_began_def)
  have tx: "kr_txId s = of_nat (length (kr_com s))" using assms(1) by (simp add: kr_counts_def)
  have d: "unat (kr_deletedTxId s + 1) < 2 ^ 31"
    using kr_counts_less(1) [OF assms(1,2)] by (simp add: kr_deleted_def)
  show ?thesis
    unfolding kr_validationPhase_def Let_def st(2) tx scast_of_nat_small [OF st(1)]
      kr_index_exact [OF st(1) d] kr_index_exact [OF assms(2) d] kr_deleted_def ..
qed

lemma kr_validation_True:
  assumes "kr_counts c s" "length (kr_com s) < 2 ^ 31" "kr_began c s w (kr_txs s w) pc st"
    and "kr_validationPhase w s = Some True" "r \<in> set (kr_rset (kr_txs s w))"
    and "st \<le> j" "j < length (kr_com s)"
  shows "kr_key r \<notin> fst ` set (tx_writes (kr_com s ! j))"
proof -
  let ?i = "int j - int (kr_deleted s)"
  have "?i \<in> set [int st - int (kr_deleted s)..int (length (kr_com s)) - int (kr_deleted s) - 1]"
    using assms(6,7) by simp
  with kr_scan_True [OF _ assms(5) this] assms(4) kr_validation_range [OF assms(1-3)]
  have i: "0 \<le> ?i" "kr_key r \<notin> kw_key ` set (kr_ws_list s ! nat ?i)" by auto
  then have "kr_deleted s \<le> j" "nat ?i = j - kr_deleted s" by simp_all
  with i kr_ws_nth [OF assms(1,2) _ assms(7)] show ?thesis by simp
qed

text \<open>
  The validation leaves the vector only if the transaction began before the first commit and
  the write set of the first commit is gone.
\<close>

lemma kr_validation_None:
  assumes "kr_counts c s" "length (kr_com s) < 2 ^ 31" "kr_began c s w (kr_txs s w) pc st"
    and "w < kr_workers c" "kr_validationPhase w s = None"
  shows "st = 0 \<and> kr_deleted s \<noteq> 0"
proof -
  obtain i where "i \<in> set [int st - int (kr_deleted s)..int (length (kr_com s)) - int (kr_deleted s) - 1]"
      "i < 0 \<or> int (length (kr_ws_list s)) \<le> i"
    using kr_scan_None assms(5) kr_validation_range [OF assms(1-3)] by metis
  with kr_counts_less(2) [OF assms(1,2)] have lt: "st < kr_deleted s"
    by auto
  have "kr_deleted s \<le> Suc (kr_prog s w)" using assms(1,4) by (simp add: kr_counts_def)
  moreover have "kr_prog s w \<noteq> 0 \<longrightarrow> kr_prog s w < st" using assms(3) by (simp add: kr_began_def)
  ultimately show ?thesis using lt by (cases "kr_prog s w = 0") auto
qed

section \<open>Workers that do not move\<close>

text \<open>The shared state is the same.\<close>

lemma kr_wk_frame:
  assumes "kr_wk c d s v" "kr_txs t v = kr_txs s v" "kr_pcs t v = kr_pcs s v"
    and "kr_table t = kr_table s" "kr_com t = kr_com s" "kr_deletedTxId t = kr_deletedTxId s"
    and "kr_progress t = kr_progress s" "kr_flux t = kr_flux s"
  shows "kr_wk c d t v"
proof -
  have "kr_dirt t st = kr_dirt s st" for st using assms by (simp add: kr_dirt_def)
  moreover have "kr_prog t v = kr_prog s v" using assms by (simp add: kr_prog_def)
  ultimately have "kr_began c t v x pc st = kr_began c s v x pc st" for x pc st
    using assms by (simp add: kr_began_def)
  moreover have "kr_stage d t x pc = kr_stage d s x pc" for x pc
    using assms by (simp add: kr_stage_def kr_valid_def kr_written_def split: kr_pc.splits)
  ultimately show ?thesis using assms by (simp add: kr_wk_def)
qed

text \<open>Another worker moves under the lock.\<close>

lemma kr_wk_outside:
  assumes wk: "kr_wk c d s v" and out: "\<not> in_cs (kr_pcs s v)"
    and same: "kr_txs t v = kr_txs s v" "kr_pcs t v = kr_pcs s v"
    and com: "length (kr_com s) \<le> length (kr_com t)" and prog: "kr_prog t v = kr_prog s v"
    and dirt: "\<And>st. st \<le> length (kr_com s) \<Longrightarrow> kr_dirt s st \<subseteq> kr_dirt t st"
    and tb: "\<And>k st. st \<le> length (kr_com s) \<Longrightarrow> k \<notin> kr_dirt t st \<Longrightarrow> kr_table t k = kr_table s k"
  shows "kr_wk c d t v"
proof -
  have "kr_began c t v x pc st" if "kr_began c s v x pc st" for x pc st
    using that com prog unfolding kr_began_def
    by (auto intro: kr_look_mono [OF _ dirt tb])
  moreover have "kr_stage d t x (kr_pcs s v)" for x
    using out by (cases "kr_pcs s v") (auto simp: kr_stage_def)
  ultimately show ?thesis
    using wk unfolding kr_wk_def Let_def same by blast
qed

end
