(* ===== verification/Kr_Steps.thy ===== *)
theory Kr_Steps
  imports Kr_Proofs
begin

text \<open>Every step of the optimistic executor keeps its invariant.\<close>

section \<open>Garbage collection of the write sets\<close>

lemma kr_slowest_min:
  assumes "ps \<noteq> []"
  shows "kr_slowest ps \<in> set ps" "\<And>x. x \<in> set ps \<Longrightarrow> sint (kr_slowest ps) \<le> sint x"
proof -
  define f where "f = fold (\<lambda>x m :: u32. if sint x < sint m then x else m)"
  have *: "f xs a \<in> insert a (set xs) \<and> (\<forall>x \<in> insert a (set xs). sint (f xs a) \<le> sint x)" for xs a
  proof (induction xs arbitrary: a)
    case (Cons y ys)
    define b where "b = (if sint y < sint a then y else a)"
    have "f (y # ys) a = f ys b" by (simp add: f_def b_def)
    moreover have "sint b \<le> sint a" "sint b \<le> sint y" "b = a \<or> b = y" by (auto simp: b_def)
    ultimately show ?case using Cons.IH [of b] by auto
  qed (simp add: f_def)
  obtain a xs where ps: "ps = a # xs" using assms by (cases ps) auto
  then have "kr_slowest ps = f xs a" by (simp add: kr_slowest_def f_def)
  with * [of xs a] ps show "kr_slowest ps \<in> set ps" "\<And>x. x \<in> set ps \<Longrightarrow> sint (kr_slowest ps) \<le> sint x"
    by auto
qed

lemma kr_progress_prog:
  assumes "kr_counts c s" "length (kr_com s) < 2 ^ 31" "w < kr_workers c"
  shows "kr_progress s ! w = of_nat (kr_prog s w)" "sint (kr_progress s ! w) = int (kr_prog s w)"
    "kr_prog s w < 2 ^ 31"
proof -
  show a: "kr_progress s ! w = of_nat (kr_prog s w)"
    using assms(1,3) by (simp add: kr_prog_def kr_counts_def)
  have "kr_prog s w < max 1 (length (kr_com s))" using assms(1,3) by (simp add: kr_counts_def)
  with assms(2) show "kr_prog s w < 2 ^ 31" by simp
  with a show "sint (kr_progress s ! w) = int (kr_prog s w)" by (simp add: sint_of_nat_small)
qed

lemma kr_slowest_worker:
  assumes "kr_counts c s" "length (kr_com s) < 2 ^ 31" "0 < kr_workers c"
  obtains w where "w < kr_workers c" "kr_slowest (kr_progress s) = of_nat (kr_prog s w)"
    "\<And>v. v < kr_workers c \<Longrightarrow> kr_prog s w \<le> kr_prog s v"
proof -
  have l: "length (kr_progress s) = kr_workers c" using assms(1) by (simp add: kr_counts_def)
  with assms(3) have ne: "kr_progress s \<noteq> []" by auto
  from kr_slowest_min(1) [OF ne] l obtain w where w: "w < kr_workers c" "kr_slowest (kr_progress s) = kr_progress s ! w"
    by (metis in_set_conv_nth)
  have "kr_prog s w \<le> kr_prog s v" if v: "v < kr_workers c" for v
  proof -
    have "sint (kr_progress s ! w) \<le> sint (kr_progress s ! v)"
      using kr_slowest_min(2) [OF ne] v l unfolding w(2) by simp
    with kr_progress_prog(2) [OF assms(1,2) w(1)] kr_progress_prog(2) [OF assms(1,2) v]
    show ?thesis by linarith
  qed
  with w kr_progress_prog(1) [OF assms(1,2) w(1)] show thesis by (intro that) auto
qed

lemma kr_gc_counts:
  assumes "kr_counts c s" "length (kr_com s) < 2 ^ 31" "0 < kr_workers c" "kr_com s \<noteq> []"
  obtains ws del where "kr_gc c s = Some (s\<lparr>kr_ws_list := ws, kr_deletedTxId := del\<rparr>)"
    "kr_counts c (s\<lparr>kr_ws_list := ws, kr_deletedTxId := del\<rparr>)"
    "kr_gc_threshold c < of_nat (length (kr_ws_list s)) \<or> kr_deletedTxId s \<noteq> - 1 \<Longrightarrow> del \<noteq> - 1"
proof -
  obtain w where w: "w < kr_workers c" "kr_slowest (kr_progress s) = of_nat (kr_prog s w)"
      "\<And>v. v < kr_workers c \<Longrightarrow> kr_prog s w \<le> kr_prog s v"
    using kr_slowest_worker [OF assms(1-3)] by metis
  let ?m = "kr_prog s w" let ?D = "kr_deleted s"
  define n where "n = Suc ?m - ?D"
  have m: "?m < 2 ^ 31" using kr_progress_prog(3) [OF assms(1,2) w(1)] .
  have D: "?D \<le> Suc ?m" "?m < max 1 (length (kr_com s))" using assms(1) w(1) by (simp_all add: kr_counts_def)
  with assms(4) have mn: "Suc ?m \<le> length (kr_com s)" by (cases "kr_com s") auto
  have del: "kr_deletedTxId s = of_nat ?D - 1" by (simp add: kr_deleted_def)
  have "of_nat ?m - kr_deletedTxId s = of_nat n"
    using D(1) by (simp add: n_def del of_nat_diff)
  then have num: "(ucast (of_nat ?m - kr_deletedTxId s) :: u32) = of_nat n"
    by (simp only: ucast_of_nat)
  have n: "n < 2 ^ 31" using mn assms(2) by (simp add: n_def)
  show thesis
  proof (cases "kr_gc_threshold c < of_nat (length (kr_ws_list s)) \<and> 0 < n")
    case False
    then have "kr_gc c s = Some (s\<lparr>kr_ws_list := kr_ws_list s, kr_deletedTxId := kr_deletedTxId s\<rparr>)"
      by (auto simp: kr_gc_def Let_def w(2) scast_of_nat_small [OF m] num sint_of_nat_small [OF n])
    moreover have "kr_deletedTxId s \<noteq> - 1"
      if "kr_gc_threshold c < of_nat (length (kr_ws_list s)) \<or> kr_deletedTxId s \<noteq> - 1"
      using that False D(1) by (auto simp: n_def kr_deleted_def)
    ultimately show thesis
      using assms(1) by (intro that [where ws = "kr_ws_list s" and del = "kr_deletedTxId s"]) simp_all
  next
    case True
    let ?t = "s\<lparr>kr_ws_list := drop n (kr_ws_list s), kr_deletedTxId := of_nat ?m\<rparr>"
    have le: "n \<le> length (kr_ws_list s)" using kr_counts_less(2) [OF assms(1,2)] mn by (simp add: n_def)
    have gc: "kr_gc c s = Some ?t"
      using True le by (simp add: kr_gc_def Let_def w(2) scast_of_nat_small [OF m] num sint_of_nat_small [OF n])
    have "kr_deletedTxId ?t + 1 = of_nat (Suc ?m)" by simp
    then have "kr_deleted ?t = unat (of_nat (Suc ?m) :: u64)" unfolding kr_deleted_def by (rule arg_cong)
    moreover have "Suc ?m < 2 ^ 64" using m by simp
    ultimately have d: "kr_deleted ?t = Suc ?m"
      by (simp only: unsigned_of_nat) (simp add: take_bit_nat_eq_self)
    have "map (map kw_key) (kr_ws_list ?t) = drop n (map (map kw_key) (kr_ws_list s))"
      by (simp add: drop_map)
    also have "\<dots> = map (\<lambda>t. map fst (tx_writes t)) (drop (Suc ?m) (kr_com s))"
      using assms(1) D(1) by (simp add: n_def kr_counts_def drop_map)
    finally have ws: "map (map kw_key) (kr_ws_list ?t) = \<dots>" .
    have "kr_prog ?t v = kr_prog s v" for v by (simp add: kr_prog_def)
    with assms(1) d mn w(3) ws have "kr_counts c ?t" by (simp add: kr_counts_def)
    moreover have "(of_nat ?m :: u64) \<noteq> - 1" using d by (auto simp: kr_deleted_def)
    ultimately show thesis using gc by (intro that)
  qed
qed

section \<open>Steps on the own state\<close>

lemma kr_began_same:
  assumes "kr_com t = kr_com s" "kr_progress t = kr_progress s" "kr_table t = kr_table s" "kr_flux t = kr_flux s"
  shows "kr_began c t w x pc st = kr_began c s w x pc st"
  using assms by (simp add: kr_began_def kr_prog_def kr_dirt_def)

lemma kr_counts_same:
  assumes "kr_com t = kr_com s" "kr_progress t = kr_progress s" "kr_txId t = kr_txId s"
    and "kr_ws_list t = kr_ws_list s" "kr_deletedTxId t = kr_deletedTxId s"
  shows "kr_counts c t = kr_counts c s"
  using assms by (simp add: kr_counts_def kr_prog_def kr_deleted_def)

lemma kr_excl_same:
  "kr_excl s \<Longrightarrow> in_cs pc = in_cs (kr_pcs s w) \<Longrightarrow> kr_excl (kr_upd w x pc s)"
  unfolding kr_excl_def by simp metis

lemma kr_good_local:
  assumes good: "kr_good c d s"
    and same: "in_cs pc = in_cs (kr_pcs s w)" "fluxw pc x = fluxw (kr_pcs s w) (kr_txs s w)"
    and wf: "kr_wf (kr_val_size c) x"
    and idle: "\<not> kr_active pc \<Longrightarrow> pc \<noteq> KFault \<Longrightarrow> kr_rset x = [] \<and> kr_wset x = []"
    and began: "kr_active pc \<Longrightarrow> \<exists>st. kr_began c s w x pc st"
    and stage: "kr_stage d s x pc"
  shows "kr_good c d (kr_upd w x pc s)"
proof -
  let ?t = "kr_upd w x pc s"
  have flux: "kr_flux ?t = kr_flux s" by (rule kr_flux_same [where w = w and x = x and pc = pc]) (simp_all add: same)
  have ex: "kr_excl ?t" using good same(1) by (simp add: kr_good_def kr_excl_same)
  have "kr_counts c ?t" using good kr_counts_same [of ?t s c] by (simp add: kr_good_def)
  moreover have "kr_values c d ?t" using good flux by (simp add: kr_good_def kr_values_def)
  moreover have "kr_wk c d ?t v" for v
  proof (cases "v = w")
    case True
    have "kr_stage d ?t x pc" using stage
      by (simp add: kr_stage_def kr_valid_def kr_written_def split: kr_pc.splits)
    then show ?thesis
      using wf idle began kr_began_same [of ?t s c w x pc] flux True by (auto simp: kr_wk_def)
  next
    case False
    have "kr_wk c d s v" using good by (simp add: kr_good_def)
    then show ?thesis by (rule kr_wk_frame) (use False flux in simp_all)
  qed
  ultimately show ?thesis using ex by (simp add: kr_good_def)
qed

lemma kr_good_quit:
  assumes "kr_good c d s"
  shows "kr_good c d (s\<lparr>kr_quit := True\<rparr>)"
proof -
  let ?t = "s\<lparr>kr_quit := True\<rparr>"
  have flux: "kr_flux ?t = kr_flux s" by (simp add: kr_flux_def)
  have "kr_wk c d ?t v" for v
    by (rule kr_wk_frame [where s = s]) (use assms flux in \<open>simp_all add: kr_good_def\<close>)
  then show ?thesis
    using assms flux kr_counts_same [of ?t s c] by (simp add: kr_good_def kr_excl_def kr_values_def)
qed

section \<open>Steps that begin and read\<close>

lemma kr_good_facts:
  assumes "kr_good c d s"
  shows kr_good_excl: "kr_excl s" and kr_good_counts: "kr_counts c s" and kr_good_values: "kr_values c d s"
    and kr_good_wk: "kr_wk c d s w"
  using assms by (auto simp: kr_good_def)

lemma kr_good_txn:
  assumes "kr_good c d s" "kr_active (kr_pcs s w)"
  obtains st where "kr_began c s w (kr_txs s w) (kr_pcs s w) st"
    "kr_wf (kr_val_size c) (kr_txs s w)"
  using kr_wk_began [OF kr_good_wk [OF assms(1)] assms(2)] kr_wk_wf [OF kr_good_wk [OF assms(1)]] that
  by blast

lemma kr_begin_good:
  assumes "kr_good c d s" "kr_pcs s w = KBegin" "w < kr_workers c"
  shows "kr_good c d (kr_upd w (kr_begin (kr_txId s) (kr_txs s w)) (KCalls cs) s)"
proof (rule kr_good_local [OF assms(1)])
  note wk = kr_good_wk [OF assms(1), of w]
  have e: "kr_rset (kr_txs s w) = []" "kr_wset (kr_txs s w) = []"
    using kr_wk_idle [OF wk] assms(2) by simp_all
  have tx: "kr_txId s = of_nat (length (kr_com s))" and p: "kr_prog s w < max 1 (length (kr_com s))"
    using kr_good_counts [OF assms(1)] assms(3) by (simp_all add: kr_counts_def)
  show "kr_wf (kr_val_size c) (kr_begin (kr_txId s) (kr_txs s w))"
    using kr_wk_wf [OF wk] by (simp add: kr_wf_def kr_begin_def)
  show "\<exists>st. kr_began c s w (kr_begin (kr_txId s) (kr_txs s w)) (KCalls cs) st"
    using p e by (intro exI [of _ "length (kr_com s)"])
      (auto simp: kr_began_def kr_begin_def tx ucast_of_nat kr_look_def)
qed (use assms(2) in \<open>simp_all add: kr_stage_def\<close>)

lemma kr_read_op_good:
  assumes "kr_good c d s" "kr_pcs s w = KCalls (CallRead k # rest)"
  shows "kr_good c d (kr_goto w (kr_read_op k rest (kr_txs s w)) s)"
proof -
  obtain st where st: "kr_began c s w (kr_txs s w) (KCalls (CallRead k # rest)) st"
      "kr_wf (kr_val_size c) (kr_txs s w)"
    using kr_good_txn [OF assms(1), of w] assms(2) by auto
  then have "kr_began c s w (kr_txs s w) (kr_read_op k rest (kr_txs s w)) st"
    by (simp add: kr_began_def kr_look_def kr_read_op_def)
  then show ?thesis unfolding kr_goto_upd
    by (intro kr_good_local [OF assms(1)])
      (use assms(2) st(2) in \<open>auto simp: kr_read_op_def kr_stage_def split: if_splits\<close>)
qed

lemma kr_write_op_good:
  assumes "kr_good c d s" "kr_pcs s w = KCalls (CallWrite k # rest)"
  shows "kr_good c d (kr_upd w (kr_write_op k (kr_txs s w)) (KCalls rest) s)"
proof -
  obtain st where st: "kr_began c s w (kr_txs s w) (KCalls (CallWrite k # rest)) st"
      "kr_wf (kr_val_size c) (kr_txs s w)"
    using kr_good_txn [OF assms(1), of w] assms(2) by auto
  have "kr_rcdptr r = k" if "kr_searchReadSet k (kr_txs s w) = Some r" for r
    using that st(2) search_set_Some [of kr_key k "kr_rset (kr_txs s w)" r]
    by (auto simp: kr_searchReadSet_def kr_wf_def)
  with st(2) have "kr_wf (kr_val_size c) (kr_write_op k (kr_txs s w))"
    by (auto simp: kr_wf_def kr_write_op_def Let_def get_tuple_def split: option.split)
  moreover have "kr_began c s w (kr_write_op k (kr_txs s w)) (KCalls rest) st"
    using st(1) by (simp add: kr_began_def kr_look_def kr_write_op_def Let_def)
  ultimately show ?thesis
    by (intro kr_good_local [OF assms(1)]) (use assms(2) in \<open>auto simp: kr_stage_def\<close>)
qed

lemma kr_copy_good:
  assumes "kr_good c d s" "kr_pcs s w = KCopy k buf rest"
  shows "kr_good c d (kr_copy c w k buf rest s)"
proof -
  obtain st where st: "kr_began c s w (kr_txs s w) (KCopy k buf rest) st"
      "kr_wf (kr_val_size c) (kr_txs s w)"
    using kr_good_txn [OF assms(1), of w] assms(2) by auto
  have len: "length (kr_table s k) = kr_val_size c"
    using kr_good_values [OF assms(1)] by (simp add: kr_values_def)
  have buf: "length buf \<le> kr_val_size c" "k \<notin> kr_dirt s st \<Longrightarrow> buf = take (length buf) (kr_table s k)"
    using st(1) by (simp_all add: kr_began_def kr_look_def)
  show ?thesis
  proof (cases "length buf < kr_val_size c")
    case True
    let ?pc = "KCopy k (buf @ [kr_table s k ! length buf]) rest"
    have "buf @ [kr_table s k ! length buf] = take (Suc (length buf)) (kr_table s k)" if "k \<notin> kr_dirt s st"
      using take_Suc_conv_app_nth [of "length buf" "kr_table s k"] buf(2) [OF that] True len by simp
    then have "kr_began c s w (kr_txs s w) ?pc st"
      using st(1) True len by (simp add: kr_began_def kr_look_def)
    then have "kr_good c d (kr_upd w (kr_txs s w) ?pc s)"
      by (intro kr_good_local [OF assms(1)]) (use assms(2) st(2) in \<open>auto simp: kr_stage_def\<close>)
    with True show ?thesis by (simp add: kr_copy_def Let_def kr_goto_upd get_tuple_def)
  next
    case False
    let ?x = "(kr_txs s w)\<lparr>kr_rset := kr_rset (kr_txs s w) @ [\<lparr>kr_key = k, kr_rcdptr = get_tuple k, kr_val = buf\<rparr>]\<rparr>"
    have "buf = kr_table s k" if "k \<notin> kr_dirt s st" using buf(2) [OF that] False len by simp
    then have "kr_began c s w ?x (KCalls rest) st"
      using st(1) by (auto simp: kr_began_def kr_look_def)
    moreover have "kr_wf (kr_val_size c) ?x" using st(2) by (auto simp: kr_wf_def get_tuple_def)
    ultimately have "kr_good c d (kr_upd w ?x (KCalls rest) s)"
      by (intro kr_good_local [OF assms(1)]) (use assms(2) in \<open>auto simp: kr_stage_def\<close>)
    with False show ?thesis by (simp add: kr_copy_def Let_def)
  qed
qed

section \<open>Steps under the global lock\<close>

lemma kr_excl_cong:
  "kr_pcs t = kr_pcs s \<Longrightarrow> kr_global_lock t = kr_global_lock s \<Longrightarrow> kr_excl s \<Longrightarrow> kr_excl t"
  by (simp add: kr_excl_def)

lemma kr_good_relock:
  assumes "kr_good c d s" "kr_excl (s\<lparr>kr_global_lock := l, kr_pcs := (kr_pcs s)(w := pc)\<rparr>)"
    and "fluxw pc (kr_txs s w) = fluxw (kr_pcs s w) (kr_txs s w)"
    and "kr_wk c d (kr_goto w pc s) w"
  shows "kr_good c d ((kr_goto w pc s)\<lparr>kr_global_lock := l\<rparr>)"
proof -
  let ?t = "(kr_goto w pc s)\<lparr>kr_global_lock := l\<rparr>"
  have flux: "kr_flux ?t = kr_flux s" "kr_flux (kr_goto w pc s) = kr_flux s"
    by (rule kr_flux_same [where w = w and x = "kr_txs s w" and pc = pc], simp_all add: kr_goto_upd assms(3))+
  have f: "kr_flux ?t = kr_flux (kr_goto w pc s)" by (simp only: flux)
  have "kr_counts c ?t = kr_counts c s" by (rule kr_counts_same) (simp_all add: kr_goto_upd)
  moreover have "kr_values c d ?t = kr_values c d s" using flux(1) by (simp add: kr_values_def kr_goto_upd)
  moreover have "kr_excl ?t" by (rule kr_excl_cong [OF _ _ assms(2)]) (simp_all add: kr_goto_upd)
  moreover have "kr_wk c d ?t v" for v
  proof (cases "v = w")
    case True
    show ?thesis unfolding True
      by (rule kr_wk_frame [OF assms(4)]) (simp_all only: f, simp_all add: kr_goto_upd)
  next
    case False
    show ?thesis
      by (rule kr_wk_frame [OF kr_good_wk [OF assms(1)]]) (use False flux in \<open>simp_all add: kr_goto_upd\<close>)
  qed
  ultimately show ?thesis using assms(1) by (simp add: kr_good_def)
qed

lemma kr_lock_good:
  assumes "kr_good c d s" "kr_pcs s w = KCalls []" "w_acq (kr_global_lock s) = Some l"
  shows "kr_good c d ((kr_goto w KValidate s)\<lparr>kr_global_lock := l\<rparr>)"
proof (rule kr_good_relock [OF assms(1)])
  have free: "\<not> in_cs (kr_pcs s v)" for v
    using kr_good_excl [OF assms(1)] assms(3) by (auto simp: kr_excl_def w_acq_def split: if_splits)
  have l: "l = - 1" using assms(3) by (simp add: w_acq_def split: if_splits)
  show "kr_excl (s\<lparr>kr_global_lock := l, kr_pcs := (kr_pcs s)(w := KValidate)\<rparr>)"
    using free l by (simp add: kr_excl_def)
  obtain st where st: "kr_began c s w (kr_txs s w) (KCalls []) st" "kr_wf (kr_val_size c) (kr_txs s w)"
    using kr_good_txn [OF assms(1), of w] assms(2) by auto
  then have "kr_began c s w (kr_txs s w) KValidate st" by (simp add: kr_began_def kr_look_def)
  moreover have "kr_flux (kr_goto w KValidate s) = kr_flux s"
    by (rule kr_flux_same [where w = w and x = "kr_txs s w" and pc = KValidate])
      (simp_all add: kr_goto_upd assms(2))
  ultimately have "kr_began c (kr_goto w KValidate s) w (kr_txs s w) KValidate st"
    by (subst kr_began_same [of _ s]) (simp_all add: kr_goto_upd)
  with st(2) show "kr_wk c d (kr_goto w KValidate s) w"
    by (auto simp: kr_wk_def Let_def kr_goto_upd kr_stage_def)
qed (simp add: assms(2))

lemma kr_unlock_good:
  assumes "kr_good c d s" "kr_pcs s w = KUnlock pc"
  shows "kr_good c d ((kr_goto w pc s)\<lparr>kr_global_lock := w_rel (kr_global_lock s)\<rparr>)"
proof (rule kr_good_relock [OF assms(1)])
  note wk = kr_good_wk [OF assms(1), of w]
  have pc: "pc = KMake \<or> pc = KRetry" using kr_wk_stage [OF wk] assms(2) by (simp add: kr_stage_def)
  have free: "v \<noteq> w \<Longrightarrow> \<not> in_cs (kr_pcs s v)" for v
    using kr_excl_other [OF kr_good_excl [OF assms(1)], of w v] assms(2) by simp
  have "kr_global_lock s = - 1"
    using kr_good_excl [OF assms(1)] assms(2) unfolding kr_excl_def by (metis in_cs.simps(4))
  then show "kr_excl (s\<lparr>kr_global_lock := w_rel (kr_global_lock s), kr_pcs := (kr_pcs s)(w := pc)\<rparr>)"
    using free pc by (auto simp: kr_excl_def w_rel_def)
  show "fluxw pc (kr_txs s w) = fluxw (kr_pcs s w) (kr_txs s w)" using pc assms(2) by auto
  show "kr_wk c d (kr_goto w pc s) w"
    using pc assms(2) kr_wk_wf [OF wk] kr_wk_idle [OF wk] by (auto simp: kr_wk_def kr_goto_upd kr_stage_def)
qed

section \<open>Validation and write phase\<close>

text \<open>The owner of the lock moves: what remains of the invariant for the others.\<close>

lemma kr_owner_moves:
  assumes good: "kr_good c d s" and cs: "in_cs (kr_pcs s w)" "in_cs pc"
    and t: "kr_txs t = (kr_txs s)(w := x)" "kr_pcs t = (kr_pcs s)(w := pc)"
      "kr_global_lock t = kr_global_lock s"
    and com: "length (kr_com s) \<le> length (kr_com t)" and prog: "\<And>v. v \<noteq> w \<Longrightarrow> kr_prog t v = kr_prog s v"
    and dirt: "\<And>st. st \<le> length (kr_com s) \<Longrightarrow> kr_dirt s st \<subseteq> kr_dirt t st"
    and tb: "\<And>k st. st \<le> length (kr_com s) \<Longrightarrow> k \<notin> kr_dirt t st \<Longrightarrow> kr_table t k = kr_table s k"
  shows "kr_excl t" "v \<noteq> w \<Longrightarrow> kr_wk c d t v" "kr_flux s = fluxw (kr_pcs s w) (kr_txs s w)"
    "kr_flux t = fluxw pc x"
proof -
  have out: "\<not> in_cs (kr_pcs s v)" if "v \<noteq> w" for v
    using kr_excl_other [OF kr_good_excl [OF good] cs(1) that] .
  show "kr_flux s = fluxw (kr_pcs s w) (kr_txs s w)" using out by (intro kr_flux_owner) simp
  show "kr_flux t = fluxw pc x" using out kr_flux_owner [of w t] t by simp
  have "kr_global_lock s = - 1" using kr_good_excl [OF good] cs(1) unfolding kr_excl_def by metis
  then show "kr_excl t" using out cs(2) t by (auto simp: kr_excl_def)
  show "kr_wk c d t v" if v: "v \<noteq> w"
    by (rule kr_wk_outside [OF kr_good_wk [OF good] out [OF v]]) (use v t com prog dirt tb in auto)
qed

lemma kr_validate_fault:
  assumes "kr_good c d s" "length (kr_com s) < 2 ^ 31" "w < kr_workers c" "kr_pcs s w = KValidate"
    and "kr_validationPhase w s = None"
  shows "kr_good c d (kr_goto w KFault s)"
proof -
  obtain st where st: "kr_began c s w (kr_txs s w) KValidate st" "kr_wf (kr_val_size c) (kr_txs s w)"
    using kr_good_txn [OF assms(1), of w] assms(4) by auto
  have "st = 0" "kr_deleted s \<noteq> 0"
    using kr_validation_None [OF kr_good_counts [OF assms(1)] assms(2) st(1) assms(3,5)] by auto
  then have "kr_startTxId (kr_txs s w) = 0" "kr_deletedTxId s \<noteq> - 1"
    using st(1) by (auto simp: kr_began_def kr_deleted_def)
  then show ?thesis unfolding kr_goto_upd
    by (intro kr_good_local [OF assms(1)]) (use assms(4) st(2) in \<open>auto simp: kr_stage_def\<close>)
qed

lemma kr_validate_abort:
  assumes "kr_good c d s" "kr_pcs s w = KValidate"
  shows "kr_good c d (kr_upd w (kr_abort (kr_txs s w)) (KUnlock KRetry) s)"
  by (intro kr_good_local [OF assms(1)])
    (use kr_wk_wf [OF kr_good_wk [OF assms(1)], of w] assms(2) in
      \<open>auto simp: kr_stage_def kr_abort_def kr_wf_def\<close>)

lemma kr_validate_commit:
  assumes "kr_good c d s" "length (kr_com s) < 2 ^ 31" "kr_pcs s w = KValidate"
    and "kr_validationPhase w s = Some True"
  shows "kr_good c d (kr_goto w (KWrite (kr_wset (kr_txs s w)) 0) s)"
proof -
  let ?x = "kr_txs s w" let ?pc = "KWrite (kr_wset ?x) 0" let ?t = "kr_upd w ?x ?pc s"
  obtain st where st: "kr_began c s w ?x KValidate st" "kr_wf (kr_val_size c) ?x"
    using kr_good_txn [OF assms(1), of w] assms(3) by auto
  have flux: "kr_flux s = {}"
    using kr_flux_owner [of w s] kr_excl_other [OF kr_good_excl [OF assms(1)], of w] assms(3) by simp
  have dirt: "kr_dirt s n \<subseteq> kr_dirt ?t n" for n using flux by (auto simp: kr_dirt_def)
  have prog: "kr_prog ?t v = kr_prog s v" for v by (simp add: kr_prog_def)
  note moves = kr_owner_moves [OF assms(1), of w ?pc ?t ?x]
  have ex: "kr_excl ?t" and oth: "v \<noteq> w \<Longrightarrow> kr_wk c d ?t v" for v
    using dirt prog assms(3) by (auto intro!: moves)
  have "kr_val r = serial_db d (kr_com s) (kr_key r)" if r: "r \<in> set (kr_rset ?x)" for r
  proof -
    have "kr_key r \<notin> kr_dirt s st"
      using kr_validation_True [OF kr_good_counts [OF assms(1)] assms(2) st(1) assms(4) r] flux
      by (auto simp: kr_dirt_def)
    then have "kr_val r = kr_table s (kr_key r)" using st(1) r by (simp add: kr_began_def kr_look_def)
    with flux kr_good_values [OF assms(1)] show ?thesis by (simp add: kr_values_def)
  qed
  then have "kr_stage d ?t ?x ?pc" by (simp add: kr_stage_def kr_valid_def kr_written_def)
  moreover have "kr_began c ?t w ?x ?pc st"
    using st(1) dirt prog by (auto simp: kr_began_def kr_look_def)
  ultimately have "kr_wk c d ?t w" using st(2) by (auto simp: kr_wk_def Let_def)
  with oth have wk: "kr_wk c d ?t v" for v by (cases "v = w") auto
  have "kr_counts c ?t = kr_counts c s" by (rule kr_counts_same) simp_all
  moreover have "kr_values c d ?t" using kr_good_values [OF assms(1)] flux unfolding kr_values_def kr_sel_upd
    by (intro conjI) (metis empty_iff)+
  ultimately show ?thesis using ex wk assms(1) by (simp add: kr_good_def kr_goto_upd)
qed

lemma kr_written_next:
  assumes "kr_written s t (e # es) i" "length (kr_write_val t) \<le> i" "length (kr_table s (kw_key e)) \<le> i"
  shows "kr_written s t es 0"
proof -
  obtain xs where xs: "kr_wset t = xs @ e # es" "\<forall>e \<in> set xs. kr_table s (kw_key e) = kr_write_val t"
    using assms(1) by (auto simp: kr_written_def)
  have "kr_table s (kw_key e) = kr_write_val t" using assms by (simp add: kr_written_def)
  with xs show ?thesis unfolding kr_written_def
    by (intro conjI exI [of _ "xs @ [e]"]) auto
qed

lemma kr_written_byte:
  assumes "kr_written s t (e # es) i" "i < length (kr_write_val t)" "length (kr_table s (kw_key e)) = length (kr_write_val t)"
    and "kr_table s' = (kr_table s)(kw_key e := (kr_table s (kw_key e))[i := kr_write_val t ! i])"
  shows "kr_written s' t (e # es) (Suc i)"
proof -
  obtain xs where xs: "kr_wset t = xs @ e # es" "\<And>f. f \<in> set xs \<Longrightarrow> kr_table s (kw_key f) = kr_write_val t"
    using assms(1) by (auto simp: kr_written_def)
  have "kr_table s' (kw_key f) = kr_write_val t" if "f \<in> set xs" for f
    using xs(2) [OF that] assms(4) by (cases "kw_key f = kw_key e") auto
  moreover have "take (Suc i) (kr_table s' (kw_key e)) = take (Suc i) (kr_write_val t)"
    using assms by (simp add: kr_written_def take_Suc_conv_app_nth)
  ultimately show ?thesis using xs(1) by (auto simp: kr_written_def)
qed

lemma kr_write_byte_good:
  assumes "kr_good c d s" "kr_pcs s w = KWrite (e # es) i"
  shows "kr_good c d (kr_write_byte c w e es i s)"
proof -
  let ?x = "kr_txs s w" let ?n = "kr_val_size c"
  obtain st where st: "kr_began c s w ?x (KWrite (e # es) i) st" "kr_wf ?n ?x"
    using kr_good_txn [OF assms(1), of w] assms(2) by auto
  have valid: "kr_valid d s ?x" and wr: "kr_written s ?x (e # es) i"
    using kr_wk_stage [OF kr_good_wk [OF assms(1)], of w] assms(2) by (simp_all add: kr_stage_def)
  have e: "e \<in> set (kr_wset ?x)" using wr by (auto simp: kr_written_def)
  have len: "length (kr_write_val ?x) = ?n" "length (kr_table s k) = ?n" "kw_rcdptr e = kw_key e" for k
    using st(2) kr_good_values [OF assms(1)] e by (simp_all add: kr_wf_def kr_values_def)
  show ?thesis
  proof (cases "i < ?n")
    case False
    then have "kr_written s ?x es 0" using kr_written_next [OF wr] len by simp
    moreover have "kr_began c s w ?x (KWrite es 0) st" using st(1) by (simp add: kr_began_def kr_look_def)
    ultimately have "kr_good c d (kr_upd w ?x (KWrite es 0) s)"
      by (intro kr_good_local [OF assms(1)])
        (use assms(2) st(2) valid in \<open>auto simp: kr_stage_def\<close>)
    with False show ?thesis by (simp add: kr_write_byte_def kr_goto_upd)
  next
    case True
    let ?tb = "(kr_table s)(kw_key e := (kr_table s (kw_key e))[i := kr_write_val ?x ! i])"
    let ?pc = "KWrite (e # es) (Suc i)"
    let ?t = "(kr_upd w ?x ?pc s)\<lparr>kr_table := ?tb\<rparr>"
    have flux: "kr_flux ?t = kr_flux s"
      by (rule kr_flux_same [where w = w and x = ?x and pc = ?pc]) (simp_all add: assms(2))
    then have dirt: "kr_dirt ?t n = kr_dirt s n" for n by (simp add: kr_dirt_def)
    have prog: "kr_prog ?t v = kr_prog s v" for v by (simp add: kr_prog_def)
    have key: "kw_key e \<in> kr_flux s"
      using e assms(2) unfolding kr_flux_def by (intro UN_I [of w]) auto
    then have tb: "?tb k = kr_table s k" if "k \<notin> kr_dirt s n" for k n
      using that by (auto simp: kr_dirt_def)
    note moves = kr_owner_moves [OF assms(1), of w ?pc ?t ?x]
    have ex: "kr_excl ?t" and oth: "v \<noteq> w \<Longrightarrow> kr_wk c d ?t v" for v
      using dirt prog tb assms(2) by (auto intro!: moves)
    have "kr_written ?t ?x (e # es) (Suc i)"
      by (rule kr_written_byte [OF wr]) (use True len in simp_all)
    with valid have "kr_stage d ?t ?x ?pc" by (simp add: kr_stage_def kr_valid_def)
    moreover have "kr_began c ?t w ?x ?pc st"
      using st(1) dirt prog tb unfolding kr_began_def kr_look_def by simp
    ultimately have "kr_wk c d ?t w" using st(2) by (auto simp: kr_wk_def Let_def)
    with oth have wk: "kr_wk c d ?t v" for v by (cases "v = w") auto
    have "kr_counts c ?t = kr_counts c s" by (rule kr_counts_same) simp_all
    moreover have "kr_values c d ?t"
      using kr_good_values [OF assms(1)] flux key len by (auto simp: kr_values_def)
    ultimately have "kr_good c d ?t" using ex wk assms(1) by (simp add: kr_good_def)
    moreover have "kr_write_byte c w e es i s = ?t"
      using True len(3) by (simp add: kr_write_byte_def Let_def kr_goto_upd)
    ultimately show ?thesis by simp
  qed
qed

lemma kr_write_end_good:
  assumes "kr_good c d s" "kr_pcs s w = KWrite [] i"
  shows "kr_good c d (kr_goto w KFinish s)"
proof -
  obtain st where st: "kr_began c s w (kr_txs s w) (KWrite [] i) st" "kr_wf (kr_val_size c) (kr_txs s w)"
    using kr_good_txn [OF assms(1), of w] assms(2) by auto
  then have "kr_began c s w (kr_txs s w) KFinish st" by (simp add: kr_began_def kr_look_def)
  moreover have "kr_stage d s (kr_txs s w) KFinish"
    using kr_wk_stage [OF kr_good_wk [OF assms(1)], of w] assms(2) by (simp add: kr_stage_def kr_written_def)
  ultimately show ?thesis unfolding kr_goto_upd
    by (intro kr_good_local [OF assms(1)]) (use assms(2) st(2) in auto)
qed

lemma fold_apply_const:
  "fold apply_write (map (\<lambda>e. (kf e, \<lambda>_. v)) es) d k = (if k \<in> kf ` set es then v else d k)"
  by (induction es arbitrary: d) (auto simp: apply_write_def)

lemma apply_kr_record:
  "apply_tx (kr_record t) d k = (if k \<in> kw_key ` set (kr_wset t) then kr_write_val t else d k)"
  by (simp add: apply_tx_def kr_record_def fold_apply_const)

lemma kr_finish_counts:
  assumes "kr_counts c s" "Suc (length (kr_com s)) < 2 ^ 31" "w < kr_workers c"
    and "kr_com t = kr_com s @ [kr_record x]" "kr_ws_list t = kr_ws_list s @ [kr_wset x]"
    and "kr_progress t = (kr_progress s)[w := of_nat (length (kr_com s))]"
    and "kr_txId t = of_nat (Suc (length (kr_com s)))" "kr_deletedTxId t = kr_deletedTxId s"
  shows "kr_counts c t"
proof -
  let ?n = "length (kr_com s)"
  have d: "kr_deleted t = kr_deleted s" using assms(8) by (simp add: kr_deleted_def)
  have D: "kr_deleted s \<le> ?n" using assms(1) by (simp add: kr_counts_def)
  have l: "length (kr_progress s) = kr_workers c" using assms(1) by (simp add: kr_counts_def)
  have n: "?n < 2 ^ 31" using assms(2) by simp
  have prog: "kr_prog t v = (if v = w then ?n else kr_prog s v)" if "v < kr_workers c" for v
    using that l assms(6) unat_of_nat_small [OF n] by (simp add: kr_prog_def)
  have "kr_prog t v < max 1 (length (kr_com t)) \<and> kr_deleted t \<le> Suc (kr_prog t v)" if v: "v < kr_workers c" for v
  proof -
    have "kr_prog s v < max 1 ?n \<and> kr_deleted s \<le> Suc (kr_prog s v)"
      using assms(1) v by (simp add: kr_counts_def)
    with prog [OF v] d D assms(4) show ?thesis by auto
  qed
  moreover have "map (map kw_key) (kr_ws_list t) = map (\<lambda>t. map fst (tx_writes t)) (drop (kr_deleted t) (kr_com t))"
  proof -
    have "map (map kw_key) (kr_ws_list s) = map (\<lambda>t. map fst (tx_writes t)) (drop (kr_deleted s) (kr_com s))"
      using assms(1) by (simp add: kr_counts_def)
    then show ?thesis using D by (simp add: assms(4,5) d kr_record_def comp_def)
  qed
  ultimately show ?thesis
    using D l by (simp add: kr_counts_def assms(4,6,7) d)
qed

definition kr_finished :: "nat \<Rightarrow> kr_write list list \<Rightarrow> u64 \<Rightarrow> kr_sys \<Rightarrow> kr_sys" where
  "kr_finished w ws del s =
     (let t = kr_txs s w; n = length (kr_com s) in
      (kr_upd w (t\<lparr>kr_rset := [], kr_wset := []\<rparr>) (KUnlock KMake) s)
        \<lparr>kr_ws_list := ws, kr_progress := (kr_progress s)[w := of_nat n],
         kr_com := kr_com s @ [kr_record t], kr_txId := of_nat (Suc n), kr_deletedTxId := del\<rparr>)"

lemma kr_finish_eq:
  assumes "kr_counts c s" "Suc (length (kr_com s)) < 2 ^ 31" "w < kr_workers c"
  obtains ws del where "kr_finish c w s = kr_finished w ws del s" "kr_counts c (kr_finished w ws del s)"
    "kr_gc_threshold c < of_nat (Suc (length (kr_ws_list s))) \<or> kr_deletedTxId s \<noteq> - 1 \<Longrightarrow> del \<noteq> - 1"
proof -
  let ?x = "kr_txs s w"
  define n where "n = length (kr_com s)"
  have tx: "kr_txId s = of_nat n" and l: "length (kr_progress s) = kr_workers c"
    using assms(1) by (simp_all add: kr_counts_def n_def)
  define s2 where "s2 = kr_finished w (kr_ws_list s @ [kr_wset ?x]) (kr_deletedTxId s) s"
  note s2 = s2_def [unfolded kr_finished_def Let_def, folded n_def]
  have "(of_nat n + 1 :: u32) = of_nat (Suc n)" by simp
  then have "(scast (of_nat n + 1 :: u32) :: u64) = of_nat (Suc n)"
    using scast_of_nat_small [of "Suc n"] assms(2) by (simp only: n_def)
  then have fin: "kr_finish c w s = (case kr_gc c s2 of None \<Rightarrow> kr_goto w KFault s2 | Some s3 \<Rightarrow> s3)"
    using assms(3) l by (simp add: kr_finish_def Let_def s2 kr_upd_def tx ucast_of_nat del: of_nat_Suc cong: option.case_cong)
  have "kr_counts c s2"
    by (rule kr_finish_counts [OF assms, where x = ?x]) (simp_all add: s2 n_def)
  moreover have "length (kr_com s2) < 2 ^ 31" using assms(2) by (simp add: s2)
  moreover have "kr_com s2 \<noteq> []" "0 < kr_workers c" using assms(3) by (auto simp: s2)
  ultimately obtain ws del where "kr_gc c s2 = Some (s2\<lparr>kr_ws_list := ws, kr_deletedTxId := del\<rparr>)"
      "kr_counts c (s2\<lparr>kr_ws_list := ws, kr_deletedTxId := del\<rparr>)"
      "kr_gc_threshold c < of_nat (length (kr_ws_list s2)) \<or> kr_deletedTxId s2 \<noteq> - 1 \<Longrightarrow> del \<noteq> - 1"
    using kr_gc_counts by metis
  moreover have "s2\<lparr>kr_ws_list := ws, kr_deletedTxId := del\<rparr> = kr_finished w ws del s"
    by (simp add: s2 kr_finished_def Let_def kr_upd_def n_def)
  moreover have "length (kr_ws_list s2) = Suc (length (kr_ws_list s))" "kr_deletedTxId s2 = kr_deletedTxId s"
    by (simp_all add: s2)
  ultimately show thesis using fin by (intro that [where ws = ws and del = del]) (simp_all del: of_nat_Suc)
qed

lemma kr_finish_good:
  assumes "kr_good c d s" "Suc (length (kr_com s)) < 2 ^ 31" "w < kr_workers c" "kr_pcs s w = KFinish"
  shows "kr_good c d (kr_finish c w s)" "length (kr_com (kr_finish c w s)) = Suc (length (kr_com s))"
proof -
  let ?x = "kr_txs s w" let ?x' = "?x\<lparr>kr_rset := [], kr_wset := []\<rparr>" let ?pc = "KUnlock KMake"
  define n where "n = length (kr_com s)"
  note counts = kr_good_counts [OF assms(1)]
  have wf: "kr_wf (kr_val_size c) ?x" using kr_wk_wf [OF kr_good_wk [OF assms(1)]] .
  have valid: "kr_valid d s ?x" and wr: "kr_written s ?x [] 0"
    using kr_wk_stage [OF kr_good_wk [OF assms(1)], of w] assms(4) by (simp_all add: kr_stage_def)
  obtain ws del where fin: "kr_finish c w s = kr_finished w ws del s" "kr_counts c (kr_finished w ws del s)"
    using kr_finish_eq [OF counts assms(2,3)] by metis
  define t where "t = kr_finished w ws del s"
  have t: "kr_txs t = (kr_txs s)(w := ?x')" "kr_pcs t = (kr_pcs s)(w := ?pc)"
      "kr_global_lock t = kr_global_lock s" "kr_com t = kr_com s @ [kr_record ?x]" "kr_table t = kr_table s"
      "kr_progress t = (kr_progress s)[w := of_nat n]"
    by (simp_all add: t_def kr_finished_def Let_def n_def)
  have flux: "kr_flux s = kw_key ` set (kr_wset ?x)"
    using kr_flux_owner [of w s] kr_excl_other [OF kr_good_excl [OF assms(1)], of w] assms(4) by simp
  have wkeys: "fst ` set (tx_writes (kr_record ?x)) = kw_key ` set (kr_wset ?x)"
    by (auto simp: kr_record_def image_iff)
  have dirt: "kr_dirt s st \<subseteq> kr_dirt t st" if "st \<le> length (kr_com s)" for st
  proof -
    have "k \<in> kr_dirt t st" if "st \<le> i" "i < length (kr_com s)" "k \<in> fst ` set (tx_writes (kr_com s ! i))" for k i
      using that unfolding kr_dirt_def t(4)
      by (intro UnI2 CollectI exI [of _ i]) (simp add: nth_append)
    moreover have "k \<in> kr_dirt t st" if "k \<in> kr_flux s" for k
      using that \<open>st \<le> length (kr_com s)\<close> wkeys flux unfolding kr_dirt_def t(4)
      by (intro UnI2 CollectI exI [of _ "length (kr_com s)"]) auto
    ultimately show ?thesis unfolding kr_dirt_def [of s] by blast
  qed
  have prog: "kr_prog t v = kr_prog s v" if "v \<noteq> w" for v using that by (simp add: kr_prog_def t(6))
  note moves = kr_owner_moves [OF assms(1), of w ?pc t ?x']
  have ex: "kr_excl t" and oth: "v \<noteq> w \<Longrightarrow> kr_wk c d t v" and flt: "kr_flux t = {}" for v
    using moves dirt prog t assms(4) by simp_all
  have "kr_wk c d t w" using wf by (simp add: kr_wk_def t kr_wf_def kr_stage_def)
  with oth have wk: "kr_wk c d t v" for v by (cases "v = w") auto
  have "kr_table s k = (if k \<in> kr_flux s then kr_write_val ?x else serial_db d (kr_com s) k)" for k
    using wr kr_good_values [OF assms(1)] unfolding flux by (auto simp: kr_written_def kr_values_def flux)
  then have "kr_table t k = serial_db d (kr_com t) k" for k
    by (simp add: t apply_kr_record flux)
  moreover have "serial_ok d (kr_com t)"
    using valid kr_good_values [OF assms(1)]
    by (auto simp: t serial_ok_snoc kr_record_def kr_valid_def kr_values_def)
  moreover have "length (kr_table t k) = kr_val_size c" for k
    using kr_good_values [OF assms(1)] by (simp add: t kr_values_def)
  ultimately have "kr_values c d t" by (metis kr_values_def)
  with ex wk fin(2) have "kr_good c d t" by (simp add: kr_good_def t_def)
  moreover have "kr_finish c w s = t" using fin(1) by (simp add: t_def)
  ultimately show "kr_good c d (kr_finish c w s)" "length (kr_com (kr_finish c w s)) = Suc (length (kr_com s))"
    by (simp_all add: t)
qed

section \<open>The invariant\<close>

lemma kr_finish_com: "kr_com (kr_finish c w s) = kr_com s @ [kr_record (kr_txs s w)]"
  by (auto simp: kr_finish_def Let_def kr_goto_upd kr_gc_def split: option.split)

lemma kr_step_com: "length (kr_com s) \<le> length (kr_com (kr_step c w pro s))"
  unfolding kr_step_def Let_def
  by (simp add: kr_goto_upd kr_copy_def kr_write_byte_def Let_def kr_finish_com
      split: kr_pc.split list.split kr_call.split option.split bool.split)

lemma kr_step_good:
  assumes "kr_good c d s" "w < kr_workers c" "length (kr_com (kr_step c w pro s)) < 2 ^ 31"
  shows "kr_good c d (kr_step c w pro s)"
proof -
  note wk = kr_good_wk [OF assms(1), of w]
  have lt: "length (kr_com s) < 2 ^ 31" using assms(3) kr_step_com [of s c w pro] by linarith
  have idle: "kr_good c d (kr_upd w ((kr_txs s w)\<lparr>kr_pro := p\<rparr>) pc s)"
    if "kr_pcs s w = KMake \<or> kr_pcs s w = KRetry" "pc \<in> {KStop, KRetry, KBegin}" for p pc
    by (rule kr_good_local [OF assms(1)])
      (use that kr_wk_wf [OF wk] kr_wk_idle [OF wk] in \<open>auto simp: kr_wf_def kr_stage_def\<close>)
  have stay: "(kr_txs s w)\<lparr>kr_pro := kr_pro (kr_txs s w)\<rparr> = kr_txs s w" by simp
  show ?thesis
  proof (cases "kr_pcs s w")
    case KMake
    then show ?thesis
      using idle [of KStop "kr_pro (kr_txs s w)"] idle [of KRetry pro] by (simp add: kr_step_def kr_goto_upd)
  next
    case KRetry
    then show ?thesis
      using idle [of KStop "kr_pro (kr_txs s w)"] idle [of KBegin "kr_pro (kr_txs s w)"]
      by (simp add: kr_step_def kr_goto_upd)
  next
    case KBegin
    then show ?thesis using kr_begin_good [OF assms(1) _ assms(2)] by (simp add: kr_step_def Let_def)
  next
    case (KCalls cs)
    show ?thesis
    proof (cases cs)
      case Nil
      with KCalls show ?thesis
        using kr_lock_good [OF assms(1), of w] assms(1) by (simp add: kr_step_def split: option.split)
    next
      case (Cons a rest)
      with KCalls show ?thesis
        using kr_read_op_good [OF assms(1), of w] kr_write_op_good [OF assms(1), of w]
        by (cases a) (simp_all add: kr_step_def)
    qed
  next
    case (KCopy k buf rest)
    then show ?thesis using kr_copy_good [OF assms(1)] by (simp add: kr_step_def)
  next
    case KValidate
    then show ?thesis
      using kr_validate_fault [OF assms(1) lt assms(2)] kr_validate_abort [OF assms(1)]
        kr_validate_commit [OF assms(1) lt]
      by (simp add: kr_step_def Let_def split: option.split bool.split)
  next
    case (KWrite es i)
    then show ?thesis
      using kr_write_byte_good [OF assms(1)] kr_write_end_good [OF assms(1)]
      by (cases es) (simp_all add: kr_step_def)
  next
    case KFinish
    then have "kr_step c w pro s = kr_finish c w s" by (simp add: kr_step_def)
    moreover have "Suc (length (kr_com s)) < 2 ^ 31" using assms(3) by (simp add: calculation kr_finish_com)
    ultimately show ?thesis using kr_finish_good(1) [OF assms(1) _ assms(2) KFinish] by simp
  next
    case (KUnlock pc)
    then show ?thesis using kr_unlock_good [OF assms(1)] by (simp add: kr_step_def)
  qed (use assms(1) in \<open>simp_all add: kr_step_def\<close>)
qed

lemma kr_init_inv:
  assumes "kr_start c d s"
  shows "kr_inv c d s"
proof -
  obtain wv where s: "s = kr_init c d wv" "\<forall>w. length (wv w) = kr_val_size c" "\<forall>k. length (d k) = kr_val_size c"
    using assms by (auto simp: kr_start_def)
  have "kr_excl s" "kr_counts c s" "kr_values c d s"
    by (simp_all add: s kr_init_def kr_excl_def kr_counts_def kr_values_def kr_deleted_def kr_prog_def kr_flux_def)
  moreover have "kr_wk c d s w" for w
    using s(2) by (simp add: s(1) kr_init_def kr_wk_def kr_wf_def kr_stage_def)
  ultimately show ?thesis by (simp add: kr_inv_def kr_good_def)
qed

lemma kr_inv_step:
  assumes "kr_inv c d s" "kr_next c s t"
  shows "kr_inv c d t"
  unfolding kr_inv_def
proof
  assume lt: "length (kr_com t) < 2 ^ 31"
  from assms(2) consider (step) w pro where "w < kr_workers c" "t = kr_step c w pro s"
    | (quit) "t = s\<lparr>kr_quit := True\<rparr>" by (auto simp: kr_next_def)
  then show "kr_good c d t"
  proof cases
    case step
    with lt kr_step_com [of s c w pro] have "length (kr_com s) < 2 ^ 31" by simp
    with assms(1) have "kr_good c d s" by (simp add: kr_inv_def)
    with step lt show ?thesis using kr_step_good by blast
  next
    case quit
    with lt assms(1) show ?thesis using kr_good_quit by (simp add: kr_inv_def)
  qed
qed

end
