(* ===== verification/Kr_Theorems.thy ===== *)
theory Kr_Theorems
  imports Kr_Steps
begin

text \<open>
  What the optimistic executor guarantees: the committed transactions are serial in the order
  of \<^verbatim>\<open>txId\<close>, although payloads are read byte by byte without a lock; and where it leaves its
  vector of write sets, because \<^verbatim>\<open>progress\<close> starts at the number of the first transaction.
\<close>

section \<open>Invariant of the reachable states\<close>

interpretation kr_system: invariant_system "kr_start c d" "kr_next c" "kr_inv c d"
  by unfold_locales (blast intro: kr_init_inv kr_inv_step)+

lemma kr_reach_good: "kr_reach c d s \<Longrightarrow> length (kr_com s) < 2 ^ 31 \<Longrightarrow> kr_good c d s"
  using kr_system.reach_inv [of c d s] by (simp add: kr_inv_def)

lemma kr_quiet_flux:
  assumes "kr_excl s" "kr_global_lock s = 0"
  shows "kr_flux s = {}"
proof -
  have "\<not> in_cs (kr_pcs s w)" for w using assms by (auto simp: kr_excl_def split: if_splits)
  then show ?thesis by (simp add: kr_flux_def fluxw_out)
qed

text \<open>
  C20. Optimistic executor: in every interleaving, the transactions committed so far form a
  serial history in the order of their numbers, with the values that were copied byte by byte
  without a lock; whenever the global lock is free the table is the database of that
  serial execution. The bound is the range of the 32-bit transaction numbers.
\<close>

theorem kr_serializable:
  assumes "kr_reach c d s" "length (kr_com s) < 2 ^ 31"
  shows "serial_ok d (kr_com s) \<and>
    (kr_global_lock s = 0 \<longrightarrow> kr_table s = serial_db d (kr_com s))"
proof -
  note good = kr_reach_good [OF assms]
  have "kr_table s = serial_db d (kr_com s)" if "kr_global_lock s = 0"
    using kr_quiet_flux [OF kr_good_excl [OF good] that] kr_good_values [OF good]
    unfolding kr_values_def by (intro ext) blast
  with kr_good_values [OF good] show ?thesis by (simp add: kr_values_def)
qed


section \<open>A schedule that leaves the vector\<close>

lemma kr_step_reach: "kr_reach c d s \<Longrightarrow> w < kr_workers c \<Longrightarrow> kr_reach c d (kr_step c w pro s)"
  by (rule reach_step) (auto simp: kr_next_def)

text \<open>Worker \<open>b\<close> has read a record and waits for the lock; \<open>m\<close> transactions have committed.\<close>

definition kr_late :: "kr_config \<Rightarrow> db \<Rightarrow> nat \<Rightarrow> nat \<Rightarrow> nat \<Rightarrow> kr_sys \<Rightarrow> bool" where
  "kr_late c d a b m s \<longleftrightarrow> kr_reach c d s \<and> kr_pcs s a = KMake \<and> kr_pcs s b = KCalls [] \<and>
     kr_rset (kr_txs s b) \<noteq> [] \<and> kr_startTxId (kr_txs s b) = 0 \<and> \<not> kr_quit s \<and>
     kr_global_lock s = 0 \<and> kr_wset (kr_txs s a) = [] \<and> kr_rset (kr_txs s a) = [] \<and>
     length (kr_com s) = m \<and> (unat (kr_gc_threshold c) < m \<longrightarrow> kr_deletedTxId s \<noteq> - 1)"

lemma kr_copies:
  assumes "kr_reach c d s" "kr_pcs s b = KCopy k buf []" "length buf \<le> kr_val_size c" "b < kr_workers c"
  shows "\<exists>v. kr_reach c d (kr_upd b ((kr_txs s b)\<lparr>kr_rset := kr_rset (kr_txs s b) @
     [\<lparr>kr_key = k, kr_rcdptr = k, kr_val = v\<rparr>]\<rparr>) (KCalls []) s)"
  using assms
proof (induction "kr_val_size c - length buf" arbitrary: s buf)
  case 0
  have "kr_reach c d (kr_step c b [] s)" using kr_step_reach 0 by blast
  moreover have "kr_step c b [] s = kr_upd b ((kr_txs s b)\<lparr>kr_rset := kr_rset (kr_txs s b) @
     [\<lparr>kr_key = k, kr_rcdptr = k, kr_val = buf\<rparr>]\<rparr>) (KCalls []) s"
    using 0 by (simp add: kr_step_def kr_copy_def Let_def get_tuple_def)
  ultimately show ?case by metis
next
  case (Suc n)
  have lt: "length buf < kr_val_size c" using Suc.hyps(2) by linarith
  let ?b = "buf @ [kr_table s k ! length buf]"
  have le: "length ?b \<le> kr_val_size c" using lt by simp
  let ?s = "kr_upd b (kr_txs s b) (KCopy k ?b []) s"
  have "kr_step c b [] s = ?s"
    using lt Suc.prems by (simp add: kr_step_def kr_copy_def Let_def get_tuple_def kr_goto_upd)
  moreover have "kr_reach c d (kr_step c b [] s)" using kr_step_reach Suc.prems by blast
  ultimately have r: "kr_reach c d ?s" by simp
  have "\<exists>v. kr_reach c d (kr_upd b ((kr_txs ?s b)\<lparr>kr_rset := kr_rset (kr_txs ?s b) @
     [\<lparr>kr_key = k, kr_rcdptr = k, kr_val = v\<rparr>]\<rparr>) (KCalls []) ?s)"
    by (rule Suc.hyps(1) [OF _ r _ le]) (use Suc.hyps(2) Suc.prems in simp_all)
  moreover have "kr_upd b x pc ?s = kr_upd b x pc s" for x pc by (simp add: kr_upd_def)
  ultimately show ?case by simp
qed

lemma kr_late_start:
  assumes "\<forall>k. length (d k) = kr_val_size c" "b < kr_workers c" "a \<noteq> b"
  shows "\<exists>s. kr_late c d a b 0 s"
proof -
  define s where "s = kr_init c d (\<lambda>_. replicate (kr_val_size c) 0)"
  let ?pro = "[Procedure READ 0]"
  have r: "kr_reach c d s" using assms(1) by (intro reach_init) (auto simp: kr_start_def s_def)
  define t where "t = kr_step c b [] (kr_step c b [] (kr_step c b [] (kr_step c b ?pro s)))"
  have t: "t = kr_upd b ((kr_txs s b)\<lparr>kr_pro := ?pro\<rparr>) (KCopy 0 [] []) s"
    by (simp add: t_def s_def kr_init_def kr_step_def kr_upd_def kr_goto_def kr_begin_def Procedure_def
        kr_read_op_def kr_searchReadSet_def kr_searchWriteSet_def)
  have "kr_reach c d t" using r assms(2) by (auto simp: t_def intro!: kr_step_reach)
  from kr_copies [OF this _ _ assms(2), of 0 "[]"] t
  obtain v where "kr_reach c d (kr_upd b ((kr_txs t b)\<lparr>kr_rset := kr_rset (kr_txs t b) @
     [\<lparr>kr_key = 0, kr_rcdptr = 0, kr_val = v\<rparr>]\<rparr>) (KCalls []) t)" by auto
  then have "kr_late c d a b 0 (kr_upd b ((kr_txs t b)\<lparr>kr_rset := kr_rset (kr_txs t b) @
     [\<lparr>kr_key = 0, kr_rcdptr = 0, kr_val = v\<rparr>]\<rparr>) (KCalls []) t)"
    using assms(3) by (simp add: kr_late_def t s_def kr_init_def)
  then show ?thesis by blast
qed

lemma kr_scan_empty: "kr_scan ws [] is = Some True"
  by (induction "is") auto

lemma kr_late_step:
  assumes "kr_late c d a b m s" "Suc m < 2 ^ 31" "a < kr_workers c" "a \<noteq> b"
  shows "\<exists>t. kr_late c d a b (Suc m) t"
proof -
  have s: "kr_reach c d s" "kr_pcs s a = KMake" "kr_pcs s b = KCalls []" "\<not> kr_quit s"
      "kr_rset (kr_txs s b) \<noteq> []" "kr_startTxId (kr_txs s b) = 0"
      "kr_global_lock s = 0" "kr_wset (kr_txs s a) = []" "kr_rset (kr_txs s a) = []" "length (kr_com s) = m"
    using assms(1) by (simp_all add: kr_late_def)
  let ?x = "(kr_txs s a)\<lparr>kr_pro := [], kr_startTxId := ucast (kr_txId s)\<rparr>"
  define u where "u = (kr_upd a ?x KFinish s)\<lparr>kr_global_lock := - 1\<rparr>"
  have "kr_run c (replicate 6 (a, [])) s = u"
    using s by (simp add: replicate_numeral u_def kr_step_def Let_def kr_upd_def kr_goto_def kr_begin_def w_acq_def
      kr_validationPhase_def kr_scan_empty)
  moreover have "kr_reach c d (kr_run c (replicate 6 (a, [])) s)"
    by (rule kr_run_reach [OF s(1)]) (use assms(3) in auto)
  ultimately have r: "kr_reach c d u" by simp
  have com: "kr_com u = kr_com s" by (simp add: u_def)
  have "kr_good c d u" using kr_reach_good [OF r] assms(2) com s(10) by simp
  note counts = kr_good_counts [OF this]
  obtain ws del where fin: "kr_finish c a u = kr_finished a ws del u" "kr_counts c (kr_finished a ws del u)"
    "kr_gc_threshold c < of_nat (Suc (length (kr_ws_list u))) \<or> kr_deletedTxId u \<noteq> - 1 \<Longrightarrow> del \<noteq> - 1"
    by (rule kr_finish_eq [OF counts _ assms(3)]) (use assms(2) com s(10) in simp_all)
  define t where "t = kr_step c a [] (kr_step c a [] u)"
  have t: "t = (kr_goto a KMake (kr_finished a ws del u))\<lparr>kr_global_lock := 0\<rparr>"
    by (simp add: t_def kr_step_def u_def [THEN arg_cong, of "\<lambda>u. kr_pcs u a"] fin(1))
      (simp add: kr_finished_def Let_def u_def kr_goto_def w_rel_def)
  have "kr_reach c d t" unfolding t_def using r assms(3) by (intro kr_step_reach)
  moreover have "del \<noteq> - 1" if "unat (kr_gc_threshold c) < Suc m"
  proof (rule fin(3))
    have "length (kr_ws_list u) = m" if "kr_deletedTxId u = - 1"
      using kr_counts_less(2) [OF counts] assms(2) com s(10) that by (simp add: kr_deleted_def)
    moreover have "kr_gc_threshold c < of_nat (Suc m)"
      using that assms(2) by (simp only: word_less_nat_alt unsigned_of_nat) (simp add: take_bit_nat_eq_self)
    ultimately show "kr_gc_threshold c < of_nat (Suc (length (kr_ws_list u))) \<or> kr_deletedTxId u \<noteq> - 1"
      by auto
  qed
  ultimately have "kr_late c d a b (Suc m) t"
    using assms(4) s by (simp add: kr_late_def t kr_goto_def kr_finished_def Let_def u_def)
  then show ?thesis by blast
qed

lemma kr_late_reach:
  assumes "\<forall>k. length (d k) = kr_val_size c" "a < kr_workers c" "b < kr_workers c" "a \<noteq> b"
  shows "m < 2 ^ 31 \<Longrightarrow> \<exists>s. kr_late c d a b m s"
proof (induction m)
  case 0
  show ?case using kr_late_start assms by blast
next
  case (Suc m)
  then show ?case using kr_late_step [OF _ Suc.prems assms(2,4)] by auto
qed

lemma kr_fault_exists:
  assumes "\<forall>k. length (d k) = kr_val_size c" "1 < kr_workers c" "unat (kr_gc_threshold c) < 2 ^ 31 - 2"
  shows "\<exists>s w. kr_reach c d s \<and> length (kr_com s) < 2 ^ 31 \<and> kr_pcs s w = KFault"
proof -
  let ?m = "Suc (unat (kr_gc_threshold c))"
  have m: "?m < 2 ^ 31" using assms(3) by simp
  obtain s where "kr_late c d 0 1 ?m s" using kr_late_reach [of d c 0 1 ?m] assms m by auto
  then have s: "kr_reach c d s" "kr_pcs s 1 = KCalls []" "kr_rset (kr_txs s 1) \<noteq> []"
      "kr_startTxId (kr_txs s 1) = 0" "kr_global_lock s = 0" "length (kr_com s) = ?m" "kr_deletedTxId s \<noteq> - 1"
    by (simp_all add: kr_late_def)
  define u where "u = kr_step c 1 [] s"
  have u: "u = (kr_goto 1 KValidate s)\<lparr>kr_global_lock := - 1\<rparr>"
    using s(2,5) by (simp add: u_def kr_step_def w_acq_def)
  have ur: "kr_reach c d u" unfolding u_def using s(1) assms(2) by (rule kr_step_reach)
  have n: "length (kr_com u) = ?m" using s(6) by (simp add: u kr_goto_upd)
  note good = kr_reach_good [OF ur, unfolded n, OF m]
  have pc: "kr_pcs u 1 = KValidate" by (simp add: u kr_goto_upd)
  obtain st where st: "kr_began c u 1 (kr_txs u 1) KValidate st"
    using kr_good_txn [OF good, of 1] pc by auto
  have "st < 2 ^ 31" "(of_nat st :: u32) = 0" using st n m s(4) by (auto simp: kr_began_def u kr_goto_upd)
  then have st0: "st = 0" using unat_of_nat_small [of st] by simp
  let ?D = "kr_deleted u"
  have D: "?D \<noteq> 0" using s(7) by (simp add: kr_deleted_def u kr_goto_upd unat_eq_zero flip: eq_neg_iff_add_eq_0)
  have "kr_validationPhase 1 u = kr_scan (kr_ws_list u) (kr_rset (kr_txs u 1)) [- int ?D..int ?m - int ?D - 1]"
    using kr_validation_range [OF kr_good_counts [OF good] _ st] n m st0 by simp
  moreover have "[- int ?D..int ?m - int ?D - 1] = (- int ?D) # [1 - int ?D..int ?m - int ?D - 1]"
    by (subst upto_rec1) simp_all
  moreover have "kr_rset (kr_txs u 1) \<noteq> []" using s(3) by (simp add: u kr_goto_upd)
  ultimately have "kr_validationPhase 1 u = None" using D by simp
  then have "kr_pcs (kr_step c 1 [] u) 1 = KFault" using pc by (simp add: kr_step_def kr_goto_upd)
  moreover have "kr_reach c d (kr_step c 1 [] u)" using ur assms(2) by (rule kr_step_reach)
  moreover have "kr_com (kr_step c 1 [] u) = kr_com u"
    using pc \<open>kr_validationPhase 1 u = None\<close> by (simp add: kr_step_def kr_goto_upd)
  moreover have "length (kr_com u) < 2 ^ 31" using n m by (simp only:)
  ultimately show ?thesis by metis
qed

text \<open>
  Optimistic executor: with two workers and any threshold the fault can happen. A
  worker reads in its first transaction while the other commits one transaction more than the threshold.
\<close>

theorem kr_fault_reachable:
  assumes "\<forall>k. length (d k) = kr_val_size c" "1 < kr_workers c" "unat (kr_gc_threshold c) < 2 ^ 31 - 2"
  shows "\<exists>s w. kr_reach c d s \<and> length (kr_com s) < 2 ^ 31 \<and> kr_pcs s w = KFault"
  using assms by (rule kr_fault_exists)

section \<open>Witnesses\<close>

definition kr_demo_config :: kr_config where
  "kr_demo_config = \<lparr>kr_workers = 2, kr_val_size = 1, kr_gc_threshold = 10000\<rparr>"

theorem kr_fault_reachable_witness:
  "\<exists>s w. kr_reach kr_demo_config (\<lambda>_. [0]) s \<and> length (kr_com s) < 2 ^ 31 \<and> kr_pcs s w = KFault"
  by (rule kr_fault_reachable) (simp_all add: kr_demo_config_def)


definition kr_demo :: kr_sys where
  "kr_demo = kr_run kr_demo_config (replicate 15 (0, [Procedure READ_MODIFY_WRITE 1]))
     (kr_init kr_demo_config (\<lambda>_. [0]) (\<lambda>w. [7]))"

lemmas kr_eval = kr_demo_def kr_demo_config_def kr_init_def kr_step_def kr_upd_def kr_goto_def kr_begin_def
  kr_read_op_def kr_write_op_def kr_copy_def kr_searchReadSet_def kr_searchWriteSet_def kr_validationPhase_def
  kr_index_def kr_write_byte_def kr_finish_def kr_gc_def kr_record_def Procedure_def w_acq_def w_rel_def
  get_tuple_def

lemma kr_demo_reach: "kr_reach kr_demo_config (\<lambda>_. [0]) kr_demo"
  unfolding kr_demo_def
  by (rule kr_run_reach, rule reach_init) (auto simp: kr_start_def kr_demo_config_def)

lemma kr_demo_state:
  "kr_com kr_demo = [\<lparr>tx_reads = [(1, [0])], tx_writes = [(1, \<lambda>_. [7])]\<rparr>] \<and> kr_global_lock kr_demo = 0 \<and>
   kr_table kr_demo 1 = [7]"
  by (simp add: kr_eval Let_def replicate_numeral)

theorem kr_serializable_witness:
  "kr_com kr_demo = [\<lparr>tx_reads = [(1, [0])], tx_writes = [(1, \<lambda>_. [7])]\<rparr>] \<and>
   serial_ok (\<lambda>_. [0]) (kr_com kr_demo) \<and> kr_table kr_demo = serial_db (\<lambda>_. [0]) (kr_com kr_demo)"
  using kr_serializable [OF kr_demo_reach] kr_demo_state by simp

end
