(* ===== verification/Random_Gen.thy ===== *)
theory Random_Gen
  imports Prelude
begin

text \<open>
  The pseudo random generator of \<^verbatim>\<open>include/random.hh\<close>, class \<^verbatim>\<open>Xoroshiro128Plus\<close>: 128 bits of
  state in two words. \<^verbatim>\<open>std::random_device\<close> is the parameter of \<open>xo_init\<close>.
\<close>

section \<open>The class\<close>

type_synonym xoro = "u64 \<times> u64"

definition splitMix64 :: "u64 \<Rightarrow> u64" where
  "splitMix64 seed =
     (let z = seed + 0x9e3779b97f4a7c15;
          z = (z XOR drop_bit 30 z) * 0xbf58476d1ce4e5b9;
          z = (z XOR drop_bit 27 z) * 0x94d049bb133111eb
      in z XOR drop_bit 31 z)"

definition xo_init :: "u32 \<Rightarrow> xoro" where
  "xo_init rnd = (let s0 = ucast rnd in (s0, splitMix64 s0))"

definition rotl :: "u64 \<Rightarrow> nat \<Rightarrow> u64" where
  "rotl x k = push_bit k x OR drop_bit (64 - k) x"

definition xo_next :: "xoro \<Rightarrow> u64 \<times> xoro" where
  "xo_next s =
     (let s0 = fst s; s1 = snd s; result = s0 + s1; s1 = s1 XOR s0
      in (result, (rotl s0 24 XOR s1 XOR push_bit 16 s1, rotl s1 37)))"

text \<open>The body of the inner loop of \<^verbatim>\<open>jump\<close> and \<^verbatim>\<open>long_jump\<close>, and the two loops.\<close>

definition jump_bit :: "u64 \<Rightarrow> nat \<Rightarrow> xoro \<times> xoro \<Rightarrow> xoro \<times> xoro" where
  "jump_bit J b p =
     (let (acc, s) = p;
          acc' = (if J AND push_bit b 1 \<noteq> 0 then (fst acc XOR fst s, snd acc XOR snd s) else acc)
      in (acc', snd (xo_next s)))"

definition jump_loops :: "u64 list \<Rightarrow> xoro \<Rightarrow> xoro" where
  "jump_loops JUMP s = fst (fold (\<lambda>J. fold (jump_bit J) [0..<64]) JUMP ((0, 0), s))"

definition xo_jump :: "xoro \<Rightarrow> xoro" where
  "xo_jump s = jump_loops [0xdf900294d8f554a5, 0x170865df4b3201fc] s"

definition xo_long_jump :: "xoro \<Rightarrow> xoro" where
  "xo_long_jump s = jump_loops [0xd2a98b26625eee7b, 0xdddf9b1090aa7ac1] s"

section \<open>The step of the state is linear and invertible\<close>

abbreviation xo_step :: "xoro \<Rightarrow> xoro" where
  "xo_step s \<equiv> snd (xo_next s)"

definition xadd :: "xoro \<Rightarrow> xoro \<Rightarrow> xoro" where
  "xadd s t = (fst s XOR fst t, snd s XOR snd t)"

lemma xadd_simps [simp]:
  "xadd s (0, 0) = s" "xadd (0, 0) s = s" "xadd s s = (0, 0)"
  by (simp_all add: xadd_def)

lemma xadd_ac: "xadd (xadd a b) c = xadd a (xadd b c)" "xadd a b = xadd b a"
  "xadd a (xadd b c) = xadd b (xadd a c)"
  by (simp_all add: xadd_def ac_simps)

lemma xadd_cancel [simp]: "xadd a (xadd a b) = b"
  by (simp add: xadd_def flip: xor.assoc)

lemma xadd_zero_iff: "xadd a b = (0, 0) \<longleftrightarrow> a = b"
  by (metis xadd_cancel xadd_simps(1) xadd_simps(3))

lemma bit_rotl:
  "k \<le> 64 \<Longrightarrow> bit (rotl x k) n \<longleftrightarrow> n < 64 \<and> (if k \<le> n then bit x (n - k) else bit x (n + 64 - k))"
  using bit_imp_le_length [of x "n + 64 - k"]
  by (auto simp: rotl_def bit_or_iff bit_push_bit_iff bit_drop_bit_eq ac_simps dest: bit_imp_le_length)

lemma rotl_zero: "rotl 0 k = 0"
  by (simp add: rotl_def)

lemma rotl_xor:
  assumes "k \<le> 64"
  shows "rotl (x XOR y) k = rotl x k XOR rotl y k"
  by (rule bit_word_eqI) (simp add: bit_rotl [OF assms] bit_xor_iff)

lemma rotl_rotl:
  assumes "k \<le> 64"
  shows "rotl (rotl x k) (64 - k) = x"
  by (rule bit_word_eqI) (use assms in \<open>auto simp: bit_rotl\<close>)

lemma xo_step_eq: "xo_step (a, b) = (rotl a 24 XOR (b XOR a) XOR push_bit 16 (b XOR a), rotl (b XOR a) 37)"
  by (simp add: xo_next_def Let_def)

lemma xo_step_xadd: "xo_step (xadd s t) = xadd (xo_step s) (xo_step t)"
  by (cases s; cases t) (simp add: xo_step_eq xadd_def rotl_xor push_bit_xor ac_simps)

lemma xo_step_zero [simp]: "xo_step (0, 0) = (0, 0)"
  by (simp add: xo_step_eq rotl_def)

definition xo_back :: "xoro \<Rightarrow> xoro" where
  "xo_back s =
     (let x = rotl (snd s) 27; s0 = rotl (fst s XOR x XOR push_bit 16 x) 40 in (s0, x XOR s0))"

lemma xo_back_step: "xo_back (xo_step s) = s"
  using rotl_rotl [of 37] rotl_rotl [of 24]
  by (cases s) (simp add: xo_step_eq xo_back_def Let_def ac_simps)

lemma xo_step_back: "xo_step (xo_back s) = s"
  using rotl_rotl [of 27] rotl_rotl [of 40]
  by (cases s) (simp add: xo_step_eq xo_back_def Let_def ac_simps)

lemma xo_step_inj: "xo_step s = xo_step t \<longleftrightarrow> s = t"
  by (metis xo_back_step)

end
