(* ===== verification/Random_Jump.thy ===== *)
theory Random_Jump
  imports Random_Gen
begin

text \<open>
  \<^verbatim>\<open>jump\<close> is \<open>2 ^ 64\<close> steps of the generator and \<^verbatim>\<open>long_jump\<close> is \<open>2 ^ 96\<close> steps, for every
  state. The step of the state is linear over bits, so a polynomial with bits as coefficients
  can be applied to it. One polynomial of degree 128 annihilates it: this is checked on 14 unit
  states and carried to all others by the step itself. Modulo this polynomial, squaring 64
  (96) times gives the polynomial that is written out in the constants of \<^verbatim>\<open>jump\<close> (\<^verbatim>\<open>long_jump\<close>).
\<close>

section \<open>Polynomials of the step\<close>

fun ev :: "bool list \<Rightarrow> xoro \<Rightarrow> xoro" where
  "ev [] s = (0, 0)"
| "ev (b # bs) s = (if b then xadd s (xo_step (ev bs s)) else xo_step (ev bs s))"

fun xorl :: "bool list \<Rightarrow> bool list \<Rightarrow> bool list" where
  "xorl [] ys = ys"
| "xorl xs [] = xs"
| "xorl (True # xs) (True # ys) = False # xorl xs ys"
| "xorl (True # xs) (False # ys) = True # xorl xs ys"
| "xorl (False # xs) (True # ys) = True # xorl xs ys"
| "xorl (False # xs) (False # ys) = False # xorl xs ys"

lemma ev_xadd: "ev p (xadd s t) = xadd (ev p s) (ev p t)"
  by (induction p) (simp_all add: xo_step_xadd xadd_ac)

lemma ev_step: "ev p (xo_step s) = xo_step (ev p s)"
  by (induction p) (simp_all add: xo_step_xadd)

lemma ev_zero [simp]: "ev p (0, 0) = (0, 0)"
  by (induction p) simp_all

lemma ev_xorl: "ev (xorl p q) s = xadd (ev p s) (ev q s)"
  by (induction p q rule: xorl.induct) (simp_all add: xo_step_xadd xadd_ac)

fun spread :: "bool list \<Rightarrow> bool list" where
  "spread [] = []"
| "spread (b # bs) = b # False # spread bs"

lemma ev_spread: "ev (spread p) s = ev p (ev p s)"
proof (induction p)
  case (Cons b p)
  then show ?case
    by (simp add: ev_xadd ev_step xo_step_xadd xadd_ac)
qed simp

lemma step_pow_xadd: "(xo_step ^^ n) (xadd s t) = xadd ((xo_step ^^ n) s) ((xo_step ^^ n) t)"
  by (induction n) (simp_all add: xo_step_xadd)

lemma step_pow_zero [simp]: "(xo_step ^^ n) (0, 0) = (0, 0)"
  by (induction n) simp_all

lemma step_pow_step: "(xo_step ^^ n) (xo_step s) = xo_step ((xo_step ^^ n) s)"
  by (induction n) simp_all

lemma step_pow_add: "(xo_step ^^ m) ((xo_step ^^ n) s) = (xo_step ^^ (m + n)) s"
  by (simp add: funpow_add)

lemma ev_funpow: "ev p ((xo_step ^^ n) s) = (xo_step ^^ n) (ev p s)"
  by (induction n) (simp_all add: ev_step)

section \<open>Squaring modulo the polynomial\<close>

text \<open>Multiplication by the step, reduced; \<open>m\<close> is without its leading coefficient.\<close>

fun shl :: "bool \<Rightarrow> bool list \<Rightarrow> bool list" where
  "shl c [] = []"
| "shl c (b # bs) = c # shl b bs"

fun lastb :: "bool list \<Rightarrow> bool" where
  "lastb [] = False"
| "lastb [b] = b"
| "lastb (b # c # bs) = lastb (c # bs)"

fun mulx_by :: "bool \<Rightarrow> bool list \<Rightarrow> bool list \<Rightarrow> bool list" where
  "mulx_by True m p = xorl (shl False p) m"
| "mulx_by False m p = shl False p"

definition mulx :: "bool list \<Rightarrow> bool list \<Rightarrow> bool list" where
  "mulx m p = mulx_by (lastb p) m p"

lemma shl_butlast: "shl c bs = butlast (c # bs)"
  by (induction bs arbitrary: c) auto

lemma lastb_last: "bs \<noteq> [] \<Longrightarrow> lastb bs = last bs"
  by (induction bs rule: lastb.induct) auto

lemma mulx_eq:
  "p \<noteq> [] \<Longrightarrow> mulx m p = (if last p then xorl (False # butlast p) m else False # butlast p)"
  by (cases "last p") (simp_all add: mulx_def lastb_last shl_butlast)

text \<open>The even powers of the step, and the sum of those that a polynomial selects.\<close>

fun evens :: "bool list \<Rightarrow> unit list \<Rightarrow> bool list \<Rightarrow> bool list list" where
  "evens m [] p = []"
| "evens m (u # us) p = p # evens m us (mulx m (mulx m p))"

fun comb :: "bool list \<Rightarrow> bool list list \<Rightarrow> bool list" where
  "comb (True # bs) (p # ps) = xorl p (comb bs ps)"
| "comb (False # bs) (p # ps) = comb bs ps"
| "comb bs ps = []"

fun squares :: "bool list list \<Rightarrow> unit list \<Rightarrow> bool list \<Rightarrow> bool list" where
  "squares ps [] p = p"
| "squares ps (u # us) p = squares ps us (comb p ps)"

definition annihilates :: "bool list \<Rightarrow> bool" where
  "annihilates m \<longleftrightarrow> (\<forall>s. ev m s = (0, 0))"

lemma ev_append: "ev (p @ q) s = xadd (ev p s) ((xo_step ^^ length p) (ev q s))"
  by (induction p) (simp_all add: xo_step_xadd xadd_ac)

lemma ev_mulx:
  assumes "annihilates (m @ [True])" "length p = length m" "p \<noteq> []"
  shows "ev (mulx m p) s = xo_step (ev p s)"
proof -
  have m: "ev m s = (xo_step ^^ length m) s"
    using assms(1) by (cases s) (simp add: annihilates_def ev_append xadd_zero_iff)
  have "ev p s = xadd (ev (butlast p) s) ((xo_step ^^ length (butlast p)) (ev [last p] s))"
    using ev_append [of "butlast p" "[last p]" s] assms(3) by simp
  moreover have "xo_step ((xo_step ^^ length (butlast p)) s) = (xo_step ^^ length m) s"
    using assms(2,3) by (cases "length m") (simp_all flip: assms(2))
  ultimately show ?thesis
    using assms(3) by (auto simp: mulx_eq ev_xorl xo_step_xadd m)
qed

lemma length_xorl [simp]: "length (xorl p q) = max (length p) (length q)"
  by (induction p q rule: xorl.induct) simp_all

lemma length_mulx: "length p = length m \<Longrightarrow> p \<noteq> [] \<Longrightarrow> length (mulx m p) = length m"
  by (cases m) (auto simp: mulx_eq)

definition powers :: "nat \<Rightarrow> bool list list \<Rightarrow> bool" where
  "powers j ps \<longleftrightarrow> (\<forall>i < length ps. \<forall>s. ev (ps ! i) s = (xo_step ^^ (2 * (j + i))) s)"

lemma powers_Cons:
  "powers j (p # ps) \<longleftrightarrow> (\<forall>s. ev p s = (xo_step ^^ (2 * j)) s) \<and> powers (Suc j) ps"
  unfolding powers_def by (auto simp: less_Suc_eq_0_disj)

lemma evens_powers:
  assumes "annihilates (m @ [True])" "length p = length m" "p \<noteq> []" "\<And>s. ev p s = (xo_step ^^ (2 * j)) s"
  shows "powers j (evens m us p) \<and> (\<forall>q \<in> set (evens m us p). length q = length m)"
  using assms(2-4)
proof (induction us arbitrary: p j)
  case (Cons u us)
  let ?q = "mulx m (mulx m p)"
  have l: "length (mulx m p) = length m" using Cons.prems by (simp add: length_mulx)
  then have ne: "mulx m p \<noteq> []" using Cons.prems by auto
  have "ev ?q s = (xo_step ^^ (2 * Suc j)) s" for s
    using Cons.prems by (simp add: ev_mulx [OF assms(1) l ne] ev_mulx [OF assms(1) Cons.prems(1,2)])
  moreover have q: "length ?q = length m" by (rule length_mulx [OF l ne])
  moreover have "?q \<noteq> []" using q Cons.prems(1,2) by (metis length_0_conv)
  ultimately have "powers (Suc j) (evens m us ?q) \<and> (\<forall>q \<in> set (evens m us ?q). length q = length m)"
    by (intro Cons.IH)
  with Cons.prems show ?case by (simp add: powers_Cons)
qed (simp add: powers_def)

lemma ev_comb:
  "powers j ps \<Longrightarrow> length bs \<le> length ps \<Longrightarrow> ev (comb bs ps) s = (xo_step ^^ (2 * j)) (ev (spread bs) s)"
  by (induction bs ps arbitrary: j rule: comb.induct)
    (auto simp: powers_Cons ev_xorl step_pow_xadd step_pow_step simp del: split_paired_All)

lemma length_comb: "(\<forall>p \<in> set ps. length p = n) \<Longrightarrow> length (comb bs ps) \<le> n"
  by (induction bs ps rule: comb.induct) auto

definition power_of :: "nat \<Rightarrow> bool list \<Rightarrow> bool" where
  "power_of k p \<longleftrightarrow> (\<forall>s. ev p s = (xo_step ^^ (2 ^ k)) s)"

lemma squares_power:
  assumes "powers 0 ps" "\<forall>p \<in> set ps. length p = length ps"
  shows "power_of k p \<Longrightarrow> length p \<le> length ps \<Longrightarrow> power_of (k + length us) (squares ps us p)"
proof (induction us arbitrary: k p)
  case (Cons u us)
  have "ev (comb p ps) s = (xo_step ^^ (2 ^ Suc k)) s" for s
    using ev_comb [OF assms(1) Cons.prems(2), of s] Cons.prems(1)
    by (simp add: ev_spread power_of_def mult_2 step_pow_add del: split_paired_All)
  then have "power_of (Suc k) (comb p ps)" by (simp add: power_of_def)
  moreover have "length (comb p ps) \<le> length ps" using length_comb assms(2) by blast
  ultimately show ?case using Cons.IH [of "Suc k" "comb p ps"] by simp
qed simp

section \<open>The loops of jump\<close>

definition jump_poly :: "u64 list \<Rightarrow> bool list" where
  "jump_poly JUMP = concat (map (\<lambda>J. map (\<lambda>b. J AND push_bit b 1 \<noteq> 0) [0..<64]) JUMP)"

lemma jump_bits_fold:
  "fold (jump_bit J) bs (acc, s) =
   (xadd acc (ev (map (\<lambda>b. J AND push_bit b 1 \<noteq> 0) bs) s), (xo_step ^^ length bs) s)"
proof (induction bs arbitrary: acc s)
  case (Cons b bs)
  have "jump_bit J b (acc, s) = ((if J AND push_bit b 1 \<noteq> 0 then xadd acc s else acc), xo_step s)"
    by (simp add: jump_bit_def xadd_def)
  with Cons show ?case by (simp add: ev_step xadd_ac step_pow_step)
qed simp

lemma jump_loops_fold:
  "fold (\<lambda>J. fold (jump_bit J) [0..<64]) JUMP (acc, s) =
   (xadd acc (ev (jump_poly JUMP) s), (xo_step ^^ (64 * length JUMP)) s)"
proof (induction JUMP arbitrary: acc s)
  case (Cons J JUMP)
  then show ?case
    by (simp add: jump_bits_fold jump_poly_def ev_append xadd_ac ev_funpow step_pow_add add.commute)
qed (simp add: jump_poly_def)

lemma jump_loops_ev: "jump_loops JUMP s = ev (jump_poly JUMP) s"
  by (simp add: jump_loops_def jump_loops_fold)

end
