(* ===== verification/Random_Poly.thy ===== *)
theory Random_Poly
  imports Random_Jump
begin

text \<open>
  The polynomial that annihilates the step of the generator: the computation on lists of bits,
  the 14 unit states on which it is checked, and the relations that carry it to all others.
\<close>

section \<open>The polynomial\<close>

definition mpoly :: "bool list" where
  "mpoly = [True, False, False, False, False, False, False, False, False, False, False, False, False,
     True, False, True, False, True, False, True, True, False, False, True, True, True, True,
     False, True, False, True, False, False, True, True, False, True, True, True, False, True,
     True, True, True, False, False, False, True, True, True, False, True, True, False, True,
     False, True, False, False, True, False, False, False, False, True, False, True, False,
     True, False, True, True, True, True, False, False, False, False, True, False, True, True,
     False, True, True, True, False, False, True, False, False, False, True, False, True,
     False, False, True, True, True, False, False, False, True, False, True, False, False,
     False, False, False, True, False, False, False, True, False, False, False, False, False,
     False, False, False, False, False, False, False]"

section \<open>The step on lists of bits\<close>

type_synonym bits = "bool list \<times> bool list"

definition bits_of :: "xoro \<Rightarrow> bits" where
  "bits_of s = (map (bit (fst s)) [0..<64], map (bit (snd s)) [0..<64])"

definition rot :: "nat \<Rightarrow> bool list \<Rightarrow> bool list" where
  "rot n xs = drop n xs @ take n xs"

definition bstep_by :: "bool list \<Rightarrow> bool list \<Rightarrow> bits" where
  "bstep_by xs zs =
     (xorl (rot 40 xs) (xorl zs
        (False # False # False # False # False # False # False # False # False # False #
         False # False # False # False # False # False # take 48 zs)), rot 27 zs)"

fun bstep :: "bits \<Rightarrow> bits" where
  "bstep (xs, ys) = bstep_by xs (xorl xs ys)"

fun badd :: "bits \<Rightarrow> bits \<Rightarrow> bits" where
  "badd (xs, ys) (us, vs) = (xorl xs us, xorl ys vs)"

fun bev :: "bool list \<Rightarrow> bits \<Rightarrow> bits" where
  "bev [] s = (replicate 64 False, replicate 64 False)"
| "bev (True # bs) s = badd s (bstep (bev bs s))"
| "bev (False # bs) s = bstep (bev bs s)"

lemma xorl_map: "xorl (map f xs) (map g xs) = map (\<lambda>x. f x \<noteq> g x) xs"
proof (induction xs)
  case (Cons x xs)
  then show ?case by (cases "f x"; cases "g x") simp_all
qed simp

lemma bits_xor: "map (bit (x XOR y)) [0..<64] = xorl (map (bit x) [0..<64]) (map (bit y) [0..<64])"
  by (simp add: xorl_map bit_xor_iff)

lemma bits_rotl:
  assumes "k \<le> 64"
  shows "map (bit (rotl x k)) [0..<64] = rot (64 - k) (map (bit x) [0..<64])"
  by (rule nth_equalityI) (use assms in \<open>auto simp: rot_def nth_append bit_rotl add.commute\<close>)

lemma bits_push:
  "map (bit (push_bit 16 x)) [0..<64] = replicate 16 False @ take 48 (map (bit (x :: u64)) [0..<64])"
  by (rule nth_equalityI) (auto simp: nth_append bit_push_bit_iff)

lemma bits_step: "bits_of (xo_step s) = bstep (bits_of s)"
proof -
  have r: "replicate 16 False @ zs = False # False # False # False # False # False # False # False #
      False # False # False # False # False # False # False # False # zs" for zs
    by (simp add: replicate_numeral)
  have x: "map (bit (b XOR a)) [0..<64] = xorl (map (bit a) [0..<64]) (map (bit b) [0..<64])" for a b :: u64
    by (simp add: xor.commute [of b] bits_xor)
  obtain a b where s: "s = (a, b)" by (cases s)
  define z where "z = b XOR a"
  have "bits_of (xo_step s) = (map (bit (rotl a 24 XOR z XOR push_bit 16 z)) [0..<64], map (bit (rotl z 37)) [0..<64])"
    by (simp only: bits_of_def s xo_step_eq z_def fst_conv snd_conv)
  also have "\<dots> = bstep_by (map (bit a) [0..<64]) (map (bit z) [0..<64])"
    by (simp add: bstep_by_def bits_xor bits_push bits_rotl r)
  also have "\<dots> = bstep (bits_of s)"
    by (simp only: z_def x bits_of_def s bstep.simps fst_conv snd_conv)
  finally show ?thesis .
qed

lemma map_bot: "map (bot :: 'a \<Rightarrow> bool) xs = replicate (length xs) False"
  by (induction xs) simp_all

lemma bits_add: "bits_of (xadd s t) = badd (bits_of s) (bits_of t)"
  by (simp add: bits_of_def xadd_def bits_xor)

lemma bits_ev: "bits_of (ev p s) = bev p (bits_of s)"
proof (induction p)
  case Nil
  show ?case by (simp add: bits_of_def map_bot)
next
  case (Cons b p)
  then show ?case by (cases b) (simp_all add: bits_add bits_step)
qed

lemma bits_of_zero: "bits_of s = (replicate 64 False, replicate 64 False) \<Longrightarrow> s = (0, 0)"
proof -
  have "x = 0" if "map (bit x) [0..<64] = replicate 64 False" for x :: u64
  proof (rule bit_word_eqI)
    fix n
    assume n: "n < LENGTH(64)"
    have "map (bit x) [0..<64] ! n = replicate 64 False ! n" using that by simp
    with n show "bit x n = bit (0 :: u64) n" by simp
  qed
  then show "bits_of s = (replicate 64 False, replicate 64 False) \<Longrightarrow> s = (0, 0)"
    by (cases s) (simp add: bits_of_def)
qed

section \<open>Unit states\<close>

text \<open>State \<open>i\<close> has only bit \<open>i\<close> set.\<close>

definition unit_state :: "nat \<Rightarrow> xoro" where
  "unit_state i = (if i < 64 then (push_bit i 1, 0) else (0, push_bit (i - 64) 1))"

definition killed :: "nat \<Rightarrow> bool" where
  "killed i \<longleftrightarrow> ev (mpoly @ [True]) (unit_state i) = (0, 0)"

definition unit_bits :: "nat \<Rightarrow> bits" where
  "unit_bits i =
     (if i < 64 then (replicate i False @ True # replicate (63 - i) False, replicate 64 False)
      else (replicate 64 False, replicate (i - 64) False @ True # replicate (127 - i) False))"

lemma bits_one:
  assumes "i < 64"
  shows "map (bit (push_bit i 1 :: u64)) [0..<64] = replicate i False @ True # replicate (63 - i) False"
proof (rule nth_equalityI)
  fix n
  assume "n < length (map (bit (push_bit i 1 :: u64)) [0..<64])"
  then show "map (bit (push_bit i 1 :: u64)) [0..<64] ! n = (replicate i False @ True # replicate (63 - i) False) ! n"
    using assms by (auto simp: nth_append nth_Cons bit_push_bit_iff bit_exp_iff split: nat.split)
qed (use assms in simp)

lemma bits_unit: "i < 128 \<Longrightarrow> bits_of (unit_state i) = unit_bits i"
  using bits_one [of i] bits_one [of "i - 64"]
  by (auto simp: unit_state_def unit_bits_def bits_of_def map_bot)

lemma killedI:
  "i < 128 \<Longrightarrow> bev (mpoly @ [True]) (unit_bits i) = (replicate 64 False, replicate 64 False) \<Longrightarrow> killed i"
  unfolding killed_def by (rule bits_of_zero) (simp add: bits_ev bits_unit)

section \<open>Relations between the unit states\<close>

definition usum :: "nat list \<Rightarrow> xoro" where
  "usum is = foldr (\<lambda>i. xadd (unit_state i)) is (0, 0)"

text \<open>Relation \<open>q\<close>: the step takes the sum of the first states to the sum of the second.\<close>

definition rel_l :: "nat \<Rightarrow> nat list" where
  "rel_l q = (if even q then [q div 2, 64 + q div 2] else [64 + q div 2])"

definition rel_r :: "nat \<Rightarrow> nat list" where
  "rel_r q =
     (let j = q div 2 in
      if even q then [(j + 24) mod 64]
      else if j < 48 then [j, j + 16, 64 + (j + 37) mod 64] else [j, 64 + (j + 37) mod 64])"

lemma rotl_unit:
  assumes "j < 64" "k < 64"
  shows "rotl (push_bit j 1) k = push_bit ((j + k) mod 64) 1"
proof (rule bit_word_eqI)
  fix n
  assume n: "n < LENGTH(64)"
  have m: "(j + k) mod 64 = (if j + k < 64 then j + k else j + k - 64)" using assms by (auto simp: mod_if)
  show "bit (rotl (push_bit j 1) k) n = bit (push_bit ((j + k) mod 64) (1 :: u64)) n"
    unfolding m using assms n by (auto simp: bit_rotl bit_push_bit_iff bit_exp_iff)
qed

lemma push_unit: "j < 64 \<Longrightarrow> push_bit 16 (push_bit j 1) = (if j < 48 then push_bit (j + 16) 1 else 0 :: u64)"
  by (rule bit_word_eqI) (auto simp: bit_push_bit_iff bit_exp_iff)

lemma unit_rel:
  assumes "q < 128"
  shows "xo_step (usum (rel_l q)) = usum (rel_r q)"
proof -
  define j where "j = q div 2"
  have j: "j < 64" using assms by (simp add: j_def)
  note r = rotl_unit [OF j, simplified push_bit_of_1] push_unit [OF j, simplified push_bit_of_1]
  show ?thesis
    using j by (simp add: usum_def rel_l_def rel_r_def Let_def unit_state_def xadd_def xo_step_eq r rotl_zero
      flip: j_def)
qed

lemma length_filter_mono: "(\<forall>x \<in> set xs. P x \<longrightarrow> Q x) \<Longrightarrow> length (filter P xs) \<le> length (filter Q xs)"
  by (induction xs) auto

lemma killed_sum:
  "ev p (usum is) = usum' \<Longrightarrow> usum' = foldr (\<lambda>i. xadd (ev p (unit_state i))) is (0, 0)"
  by (induction "is" arbitrary: usum') (simp_all add: usum_def ev_xadd)

lemma ev_usum: "ev p (usum is) = foldr (\<lambda>i. xadd (ev p (unit_state i))) is (0, 0)"
  using killed_sum by blast

lemma usum_killed:
  "filter (\<lambda>i. \<not> killed i) is = ms \<Longrightarrow> ev (mpoly @ [True]) (usum is) = ev (mpoly @ [True]) (usum ms)"
  by (induction "is" arbitrary: ms) (auto simp: ev_usum killed_def)

lemma rel_killed:
  assumes "q < 128" "length (filter (\<lambda>i. \<not> killed i) (rel_l q @ rel_r q)) \<le> 1" "i \<in> set (rel_l q @ rel_r q)"
  shows "killed i"
proof (rule ccontr)
  let ?f = "filter (\<lambda>i. \<not> killed i)" let ?e = "\<lambda>is. ev (mpoly @ [True]) (usum is)"
  assume i: "\<not> killed i"
  have eq: "?e (rel_l q) = (0, 0) \<longleftrightarrow> ?e (rel_r q) = (0, 0)"
    using unit_rel [OF assms(1)] ev_step [of "mpoly @ [True]" "usum (rel_l q)"] xo_step_inj [of _ "(0, 0)"]
    by (metis xo_step_zero)
  have ne: "?e [i] \<noteq> (0, 0)" using i by (simp add: usum_def killed_def)
  have z: "?e [] = (0, 0)" by (simp add: usum_def)
  have "length (?f (rel_l q)) + length (?f (rel_r q)) \<le> 1" using assms(2) by simp
  moreover have "i \<in> set (?f (rel_l q)) \<or> i \<in> set (?f (rel_r q))" using i assms(3) by auto
  ultimately have "?f (rel_l q) = [i] \<and> ?f (rel_r q) = [] \<or> ?f (rel_l q) = [] \<and> ?f (rel_r q) = [i]"
    by (cases "?f (rel_l q)"; cases "?f (rel_r q)") auto
  with eq ne z usum_killed show False by metis
qed

fun closes :: "nat list \<Rightarrow> nat list \<Rightarrow> nat list" where
  "closes ks [] = ks"
| "closes ks (q # qs) =
     (let miss = filter (\<lambda>i. i \<notin> set ks) (rel_l q @ rel_r q)
      in if q < 128 \<and> length miss \<le> 1 then closes (miss @ ks) qs else ks)"

lemma closes_killed:
  "\<forall>k \<in> set ks. killed k \<Longrightarrow> \<forall>k \<in> set (closes ks qs). killed k"
proof (induction ks qs rule: closes.induct)
  case (2 ks q qs)
  let ?miss = "filter (\<lambda>i. i \<notin> set ks) (rel_l q @ rel_r q)"
  show ?case
  proof (cases "q < 128 \<and> length ?miss \<le> 1")
    case True
    have "length (filter (\<lambda>i. \<not> killed i) (rel_l q @ rel_r q)) \<le> length ?miss"
      by (rule length_filter_mono) (use 2(2) in blast)
    with True have le: "q < 128" "length (filter (\<lambda>i. \<not> killed i) (rel_l q @ rel_r q)) \<le> 1" by auto
    have "\<forall>k \<in> set ?miss. killed k" using rel_killed [OF le] by (metis filter_is_subset subsetD)
    then have "\<forall>k \<in> set (?miss @ ks). killed k" using 2(2) by (metis Un_iff set_append)
    moreover have "closes ks (q # qs) = closes (?miss @ ks) qs" using True by (simp add: Let_def)
    ultimately show ?thesis using 2(1) [OF refl True] by metis
  next
    case False
    then have "closes ks (q # qs) = ks" by (simp only: closes.simps Let_def if_False)
    with 2(2) show ?thesis by metis
  qed
qed simp

section \<open>The computation\<close>

definition seeds :: "nat list" where
  "seeds = [0, 24, 16, 40, 56, 13, 29, 5, 8, 2, 7, 4, 1, 6]"

definition order :: "nat list" where
  "order =
    [0, 1, 10, 32, 80, 81, 112, 113, 26, 27, 58, 74, 75, 106, 107, 33, 64, 65, 96, 97,
     16, 17, 48, 49, 90, 91, 122, 123, 11, 43, 59, 84, 4, 36, 52, 53, 100, 101, 116,
     117, 5, 20, 21, 37, 69, 85, 94, 14, 46, 62, 63, 110, 111, 126, 127, 8, 15, 30, 31,
     47, 56, 79, 88, 95, 104, 105, 24, 25, 40, 41, 57, 72, 73, 89, 121, 2, 9, 50, 82,
     98, 99, 18, 19, 34, 35, 51, 66, 67, 83, 92, 115, 3, 12, 44, 60, 61, 108, 109, 124,
     125, 13, 28, 29, 45, 77, 93, 103, 119, 54, 55, 70, 86, 102, 118]"

lemmas upt_eval = upt_rec [of 0] upt_rec [of "Suc 0"] numeral_2_eq_2 [symmetric]

lemmas poly_eval = mpoly_def unit_bits_def replicate_numeral bstep_by_def rot_def

lemma killed_0: "killed 0"
  by (rule killedI) (simp_all add: poly_eval)

lemma killed_24: "killed 24"
  by (rule killedI) (simp_all add: poly_eval)

lemma killed_16: "killed 16"
  by (rule killedI) (simp_all add: poly_eval)

lemma killed_40: "killed 40"
  by (rule killedI) (simp_all add: poly_eval)

lemma killed_56: "killed 56"
  by (rule killedI) (simp_all add: poly_eval)

lemma killed_13: "killed 13"
  by (rule killedI) (simp_all add: poly_eval)

lemma killed_29: "killed 29"
  by (rule killedI) (simp_all add: poly_eval)

lemma killed_5: "killed 5"
  by (rule killedI) (simp_all add: poly_eval)

lemma killed_8: "killed 8"
  by (rule killedI) (simp_all add: poly_eval)

lemma killed_2: "killed 2"
  by (rule killedI) (simp_all add: poly_eval)

lemma killed_7: "killed 7"
  by (rule killedI) (simp_all add: poly_eval)

lemma killed_4: "killed 4"
  by (rule killedI) (simp_all add: poly_eval)

lemma killed_1: "killed 1"
  by (rule killedI) (simp_all add: poly_eval)

lemma killed_6: "killed 6"
  by (rule killedI) (simp_all add: poly_eval)

lemma closes_all: "list_all (\<lambda>i. i \<in> set (closes seeds order)) [0..<128]"
  by (simp add: seeds_def order_def rel_l_def rel_r_def upt_eval)

end
