(* ===== verification/Random_Theorems.thy ===== *)
theory Random_Theorems
  imports Random_Poly
begin

text \<open>
  The theorems of the generator: its step is a bijection that never reaches the zero state, and
  the two jump functions are what their comments say.
\<close>

section \<open>The polynomial annihilates every state\<close>

lemma all_killed:
  assumes "i < 128"
  shows "killed i"
proof -
  have "\<forall>k \<in> set seeds. killed k"
    by (simp add: seeds_def killed_0 killed_24 killed_16 killed_40 killed_56 killed_13 killed_29
        killed_5 killed_8 killed_2 killed_7 killed_4 killed_1 [unfolded One_nat_def] killed_6)
  then have "\<forall>k \<in> set (closes seeds order). killed k" by (rule closes_killed)
  moreover have "i \<in> set (closes seeds order)"
    using closes_all assms unfolding list_all_iff by (metis atLeastLessThan_upt atLeastLessThan_iff le0)
  ultimately show ?thesis by blast
qed

lemma word_by_bits:
  assumes zero: "P (0 :: u64)" and xor: "\<And>x i. i < 64 \<Longrightarrow> P x \<Longrightarrow> P (x XOR push_bit i 1)"
  shows "P x"
proof -
  have "n \<le> 64 \<Longrightarrow> \<forall>i \<ge> n. \<not> bit x i \<Longrightarrow> P x" for n x
  proof (induction n arbitrary: x)
    case 0
    then have "x = 0" by (intro bit_word_eqI) simp
    with zero show ?case by simp
  next
    case (Suc n)
    show ?case
    proof (cases "bit x n")
      case True
      let ?y = "x XOR push_bit n 1"
      have "\<not> bit ?y i" if "n \<le> i" for i
      proof (cases "i = n")
        case False
        with that Suc.prems(2) have "\<not> bit x i" by simp
        with False show ?thesis by (simp add: bit_xor_iff bit_exp_iff)
      qed (use True Suc.prems(1) in \<open>simp add: bit_xor_iff bit_exp_iff\<close>)
      with Suc have "P ?y" by simp
      then have "P (?y XOR push_bit n 1)" using xor [of n ?y] Suc.prems(1) by simp
      then show ?thesis by (simp add: xor.assoc)
    next
      case False
      with Suc show ?thesis by (metis Suc_leD le_antisym not_less_eq_eq)
    qed
  qed
  from this [of 64 x] show ?thesis using bit_imp_le_length [of x] by force
qed

lemma mpoly_annihilates: "annihilates (mpoly @ [True])"
  unfolding annihilates_def
proof
  fix s
  let ?F = "ev (mpoly @ [True])"
  have u: "?F (unit_state i) = (0, 0)" if "i < 128" for i
    using all_killed [OF that] by (simp add: killed_def)
  have "?F (x, 0) = (0, 0)" for x
  proof (rule word_by_bits [where P = "\<lambda>x. ?F (x, 0) = (0, 0)"])
    fix x :: u64 and i :: nat
    assume i: "i < 64" "?F (x, 0) = (0, 0)"
    have "(x XOR push_bit i 1, 0) = xadd (x, 0) (unit_state i)" using i(1) by (simp add: unit_state_def xadd_def)
    with i u [of i] show "?F (x XOR push_bit i 1, 0) = (0, 0)" by (simp only: ev_xadd) (simp add: u)
  qed simp
  moreover have "?F (0, x) = (0, 0)" for x
  proof (rule word_by_bits [where P = "\<lambda>x. ?F (0, x) = (0, 0)"])
    fix x :: u64 and i :: nat
    assume i: "i < 64" "?F (0, x) = (0, 0)"
    have "(0, x XOR push_bit i 1) = xadd (0, x) (unit_state (64 + i))" by (simp add: unit_state_def xadd_def)
    with i u [of "64 + i"] show "?F (0, x XOR push_bit i 1) = (0, 0)" by (simp only: ev_xadd) (simp add: u)
  qed simp
  moreover have "s = xadd (fst s, 0) (0, snd s)" by (simp add: xadd_def)
  ultimately show "?F s = (0, 0)" by (metis ev_xadd xadd_simps(1))
qed

section \<open>Squaring up to the jumps\<close>

definition mtable :: "bool list list" where
  "mtable = evens mpoly (replicate 128 ()) (True # replicate 127 False)"

lemma length_evens [simp]: "length (evens m us p) = length us"
  by (induction us arbitrary: p) simp_all

lemma ev_one: "ev (True # replicate n False) s = s"
proof -
  have "ev (replicate n False) s = (0, 0)" by (induction n) simp_all
  then show ?thesis by simp
qed

lemma length_mpoly: "length mpoly = 128"
  by (simp add: mpoly_def)

lemma mtable_powers: "powers 0 mtable" "\<forall>p \<in> set mtable. length p = length mtable"
proof -
  have "powers 0 mtable \<and> (\<forall>p \<in> set mtable. length p = length mpoly)"
    unfolding mtable_def
    by (rule evens_powers [OF mpoly_annihilates]) (simp_all only: ev_one, simp_all add: length_mpoly)
  then show "powers 0 mtable" "\<forall>p \<in> set mtable. length p = length mtable"
    by (simp_all add: mtable_def length_mpoly)
qed

lemma jump_power:
  assumes "power_of k p" "length p \<le> 128" "squares mtable (replicate n ()) p = q"
  shows "power_of (k + n) q"
  using squares_power [OF mtable_powers assms(1), of "replicate n ()"] assms(2,3)
  by (simp add: mtable_def)

lemma power_of_x: "power_of 0 [False, True]"
  by (simp add: power_of_def)

lemma jump_poly_eval:
  "squares mtable (replicate 64 ()) [False, True] = jump_poly [0xdf900294d8f554a5, 0x170865df4b3201fc]"
  by (simp add: jump_poly_def mtable_def mulx_def mpoly_def replicate_numeral upt_eval)

lemma long_jump_poly_eval:
  "squares mtable (replicate 32 ()) (jump_poly [0xdf900294d8f554a5, 0x170865df4b3201fc]) =
   jump_poly [0xd2a98b26625eee7b, 0xdddf9b1090aa7ac1]"
  by (simp add: jump_poly_def mtable_def mulx_def mpoly_def replicate_numeral upt_eval)

lemma length_jump_poly: "length (jump_poly [J, K]) = 128"
  by (simp add: jump_poly_def)

lemma jump_powers:
  "power_of 64 (jump_poly [0xdf900294d8f554a5, 0x170865df4b3201fc])"
  "power_of 96 (jump_poly [0xd2a98b26625eee7b, 0xdddf9b1090aa7ac1])"
proof -
  show j: "power_of 64 (jump_poly [0xdf900294d8f554a5, 0x170865df4b3201fc])"
    using jump_power [OF power_of_x _ jump_poly_eval] by simp
  show "power_of 96 (jump_poly [0xd2a98b26625eee7b, 0xdddf9b1090aa7ac1])"
    using jump_power [OF j _ long_jump_poly_eval] by (simp add: length_jump_poly)
qed

section \<open>The theorems\<close>

text \<open>
  C27. Random numbers: \<^verbatim>\<open>jump\<close> is exactly \<open>2 ^ 64\<close> calls of \<^verbatim>\<open>next\<close> and \<^verbatim>\<open>long_jump\<close> exactly \<open>2 ^ 96\<close>,
  from every state, as the comments in the class say.
\<close>

theorem xoroshiro_jump:
  "xo_jump s = ((\<lambda>s. snd (xo_next s)) ^^ (2 ^ 64)) s \<and>
   xo_long_jump s = ((\<lambda>s. snd (xo_next s)) ^^ (2 ^ 96)) s"
  using jump_powers unfolding power_of_def xo_jump_def xo_long_jump_def jump_loops_ev by blast

text \<open>
  C28. Random numbers: \<^verbatim>\<open>next\<close> is a bijection on the states, \<open>xo_back\<close> is its inverse, and whatever
  the random device returns, the generator never reaches the zero state, where it would stay.
\<close>

theorem xoroshiro_next:
  "xo_back (snd (xo_next s)) = s \<and> snd (xo_next (xo_back s)) = s \<and>
   ((\<lambda>s. snd (xo_next s)) ^^ n) (xo_init r) \<noteq> (0, 0) \<and> snd (xo_next (0, 0)) = (0, 0)"
proof -
  have "splitMix64 0 \<noteq> 0" by (simp add: splitMix64_def Let_def)
  then have init: "xo_init r \<noteq> (0, 0)" by (auto simp: xo_init_def Let_def)
  have "((\<lambda>s. snd (xo_next s)) ^^ n) (xo_init r) \<noteq> (0, 0)"
  proof (induction n)
    case (Suc n)
    then show ?case using xo_step_inj [of "((\<lambda>s. snd (xo_next s)) ^^ n) (xo_init r)" "(0, 0)"] by simp
  qed (use init in simp)
  then show ?thesis by (simp add: xo_back_step xo_step_back)
qed

end
