(* ===== verification/Si_System.thy ===== *)
theory Si_System
  imports Procedures Ss2pl_Model
begin

text \<open>
  Snapshot isolation over chains of versions: \<^verbatim>\<open>TxExecutor\<close> of \<^verbatim>\<open>si/transaction.cc\<close>, the worker of
  \<^verbatim>\<open>si/si.cc\<close> and the leader's part of \<^verbatim>\<open>si/garbage_collection.cc\<close>, in the build with
  \<^verbatim>\<open>CCTR_ON\<close> (the only one of \<^verbatim>\<open>si/CMakeLists.txt\<close>). A pointer is an address in the heap of
  versions or of elements of the transaction table. Every load or store that another worker can
  observe is a step. The interval of the collector (\<^verbatim>\<open>gc_inter_us\<close>) does not elapse, so
  \<^verbatim>\<open>mainte\<close> does nothing and no published version is used again. Ghost state: the committed
  versions of each record, newest first, the record of every published version, what the readers saw, and the committed transactions.
\<close>

section \<open>State\<close>

datatype version_status = VInFlight | VCommitted | VAborted

record si_version =
  v_prev :: "nat option"
  v_committed_prev :: "nat option"
  v_cstamp :: u32
  v_status :: version_status
  v_val :: val

record si_tuple =
  t_latest :: nat
  t_min_cstamp :: u32
  t_g_clock :: u8

record si_tmt =
  tt_txid :: u32
  tt_lastcstamp :: u32

record si_elem =
  e_key :: key
  e_rcdptr :: key
  e_ver :: nat

record si_gce =
  g_key :: key
  g_rcdptr :: key
  g_ver :: nat
  g_cstamp :: u32

datatype si_status = SiInFlight | SiCommitted | SiAborted

record si_tx =
  x_cstamp :: u32
  x_txid :: u32
  x_rset :: "si_elem list"
  x_wset :: "si_elem list"
  x_pro :: "procedure list"
  x_status :: si_status
  x_write_val :: val
  x_return_val :: val
  x_gcq_for_TMT :: "nat list"
  x_reuse_TMT :: "nat list"
  x_gcq_for_versions :: "si_gce list"
  x_reuse_version :: "nat list"

record si_gcob =
  g_fmin :: u32
  g_fmax :: u32

datatype si_call = SiRead key | SiWrite key

datatype si_pc =
    SMake
  | SRetry
  | SLeadPtr nat u32 u32
  | SLeadVal nat nat u32 u32
  | SQuit
  | SBegin
  | SScanPtr nat nat
  | SScanVal nat nat nat
  | SCalls "si_call list"
  | SReadStatus key nat "si_call list"
  | SReadLoop key nat "si_call list"
  | SReadCopy nat "si_call list"
  | SWriteStatus key key nat nat "si_call list"
  | SWriteCstamp key key nat nat "si_call list"
  | SWriteReload key key nat "si_call list"
  | SWriteWalk key key nat nat nat "si_call list"
  | SWriteCheck key key nat nat nat "si_call list"
  | SWriteCas key key nat nat "si_call list"
  | SCommitStamp "si_elem list"
  | SCommitCopy si_elem "si_elem list"
  | SCommitMark si_elem "si_elem list"
  | SAbort "si_elem list"
  | SStop
  | SError

text \<open>What a committed transaction read (version, and the versions committed when it looked).\<close>

record si_ctx =
  c_txid :: u32
  c_reads :: "(key \<times> nat \<times> nat list) list"
  c_rec :: txrec

record si_sys =
  si_table :: "key \<Rightarrow> si_tuple"
  si_vers :: "nat \<Rightarrow> si_version"
  si_next :: nat
  si_CCtr :: u64
  si_TMT :: "nat \<Rightarrow> nat"
  si_tmts :: "nat \<Rightarrow> si_tmt"
  si_tmt_next :: nat
  si_gcob :: si_gcob
  si_GC_threshold :: u32
  si_quit :: bool
  si_txs :: "nat \<Rightarrow> si_tx"
  si_pcs :: "nat \<Rightarrow> si_pc"
  si_hist :: "key \<Rightarrow> nat list"
  si_pub :: "nat \<Rightarrow> key option"
  si_old :: "nat \<Rightarrow> nat list"
  si_reads :: "nat \<Rightarrow> (key \<times> nat \<times> nat list) list"
  si_vals :: "nat \<Rightarrow> (key \<times> val) list"
  si_com :: "si_ctx list"

record si_config =
  si_workers :: nat
  si_val_size :: nat

definition si_upd :: "nat \<Rightarrow> si_tx \<Rightarrow> si_pc \<Rightarrow> si_sys \<Rightarrow> si_sys" where
  "si_upd w t pc s = s\<lparr>si_txs := (si_txs s)(w := t), si_pcs := (si_pcs s)(w := pc)\<rparr>"

definition si_goto :: "nat \<Rightarrow> si_pc \<Rightarrow> si_sys \<Rightarrow> si_sys" where
  "si_goto w pc s = s\<lparr>si_pcs := (si_pcs s)(w := pc)\<rparr>"

definition si_set_ver :: "nat \<Rightarrow> si_version \<Rightarrow> si_sys \<Rightarrow> si_sys" where
  "si_set_ver a v s = s\<lparr>si_vers := (si_vers s)(a := v)\<rparr>"

section \<open>The leader\<close>

text \<open>\<^verbatim>\<open>decideFirstRange\<close> on the transaction numbers of the table: the minimum starts at zero.\<close>

definition si_decideFirstRange :: "u32 list \<Rightarrow> si_gcob" where
  "si_decideFirstRange txids = \<lparr>g_fmin = fold min txids 0, g_fmax = fold max txids 0\<rparr>"

text \<open>
  The end of \<^verbatim>\<open>chkSecondRange\<close> with \<^verbatim>\<open>decideGcThreshold\<close> and \<^verbatim>\<open>mvSecondRangeToFirstRange\<close>.
\<close>

definition si_leader_end :: "nat \<Rightarrow> u32 \<Rightarrow> u32 \<Rightarrow> si_sys \<Rightarrow> si_sys" where
  "si_leader_end w smin smax s =
     (let g = si_gcob s in
      if g_fmax g < smin then
        (si_goto w SQuit s)\<lparr>si_GC_threshold := g_fmin g, si_gcob := \<lparr>g_fmin = smin, g_fmax = smax\<rparr>\<rparr>
      else si_goto w SQuit s)"

definition si_leader_ptr :: "si_config \<Rightarrow> nat \<Rightarrow> nat \<Rightarrow> u32 \<Rightarrow> u32 \<Rightarrow> si_sys \<Rightarrow> si_sys" where
  "si_leader_ptr c w i smin smax s =
     (if i < si_workers c then si_goto w (SLeadVal i (si_TMT s i) smin smax) s
      else si_leader_end w smin smax s)"

definition si_leader_val :: "nat \<Rightarrow> nat \<Rightarrow> nat \<Rightarrow> u32 \<Rightarrow> u32 \<Rightarrow> si_sys \<Rightarrow> si_sys" where
  "si_leader_val w i tmt smin smax s =
     (let txid = tt_txid (si_tmts s tmt) in
      si_goto w (SLeadPtr (Suc i) (min smin txid) (max smax txid)) s)"

section \<open>Begin\<close>

text \<open>
  The new element comes from the end of the reuse list, or is allocated. The own slot of
  \<^verbatim>\<open>TMT\<close> is written by its worker only.
\<close>

definition si_tbegin :: "nat \<Rightarrow> si_sys \<Rightarrow> si_sys" where
  "si_tbegin w s =
     (let t = si_txs s w; tmt = si_tmts s (si_TMT s w);
          lastcstamp = (if x_status t = SiAborted then tt_lastcstamp tmt else x_cstamp t);
          fresh = (x_reuse_TMT t = []);
          a = (if fresh then si_tmt_next s else last (x_reuse_TMT t));
          t' = t\<lparr>x_txid := lastcstamp, x_reuse_TMT := butlast (x_reuse_TMT t)\<rparr>
      in (si_upd w t' (SScanPtr 0 a) s)
           \<lparr>si_tmts := (si_tmts s)(a := \<lparr>tt_txid = 0, tt_lastcstamp = lastcstamp\<rparr>),
            si_tmt_next := (if fresh then Suc (si_tmt_next s) else si_tmt_next s)\<rparr>)"

text \<open>The end of \<^verbatim>\<open>tbegin\<close>: the store to \<^verbatim>\<open>TMT\<close> publishes the element.\<close>

definition si_register :: "nat \<Rightarrow> nat \<Rightarrow> si_pc \<Rightarrow> si_sys \<Rightarrow> si_sys" where
  "si_register w a pc s =
     (let t = si_txs s w; txid = x_txid t + 1;
          t' = t\<lparr>x_txid := txid, x_gcq_for_TMT := x_gcq_for_TMT t @ [si_TMT s w], x_status := SiInFlight\<rparr>
      in (si_upd w t' pc s)
           \<lparr>si_tmts := (si_tmts s)(a := (si_tmts s a)\<lparr>tt_txid := txid\<rparr>), si_TMT := (si_TMT s)(w := a)\<rparr>)"

fun si_calls :: "procedure \<Rightarrow> si_call list" where
  "si_calls p =
     (case p_ope p of
        READ \<Rightarrow> [SiRead (p_key p)]
      | WRITE \<Rightarrow> [SiWrite (p_key p)]
      | READ_MODIFY_WRITE \<Rightarrow> [SiRead (p_key p), SiWrite (p_key p)])"

definition si_scan_ptr :: "si_config \<Rightarrow> nat \<Rightarrow> nat \<Rightarrow> nat \<Rightarrow> si_sys \<Rightarrow> si_sys" where
  "si_scan_ptr c w i a s =
     (if i < si_workers c then si_goto w (SScanVal i (si_TMT s i) a) s
      else
        (si_register w a (SCalls (concat (map si_calls (x_pro (si_txs s w))))) s)
          \<lparr>si_reads := (si_reads s)(w := []), si_vals := (si_vals s)(w := [])\<rparr>)"

definition si_scan_val :: "nat \<Rightarrow> nat \<Rightarrow> nat \<Rightarrow> nat \<Rightarrow> si_sys \<Rightarrow> si_sys" where
  "si_scan_val w i tmt a s =
     (let t = si_txs s w in
      si_upd w (t\<lparr>x_txid := max (x_txid t) (tt_lastcstamp (si_tmts s tmt))\<rparr>) (SScanPtr (Suc i) a) s)"

section \<open>Read\<close>

definition si_searchReadSet :: "key \<Rightarrow> si_tx \<Rightarrow> si_elem option" where
  "si_searchReadSet k t = search_set e_key k (x_rset t)"

definition si_searchWriteSet :: "key \<Rightarrow> si_tx \<Rightarrow> si_elem option" where
  "si_searchWriteSet k t = search_set e_key k (x_wset t)"

definition si_tread :: "nat \<Rightarrow> key \<Rightarrow> si_call list \<Rightarrow> si_sys \<Rightarrow> si_sys" where
  "si_tread w k rest s =
     (let t = si_txs s w in
      if si_searchWriteSet k t \<noteq> None \<or> si_searchReadSet k t \<noteq> None then si_goto w (SCalls rest) s
      else
        (si_goto w (SReadStatus k (t_latest (si_table s (get_tuple k))) rest) s)
          \<lparr>si_old := (si_old s)(w := si_hist s k)\<rparr>)"

text \<open>A null pointer ends the program.\<close>

definition si_follow :: "nat \<Rightarrow> nat option \<Rightarrow> (nat \<Rightarrow> si_pc) \<Rightarrow> si_sys \<Rightarrow> si_sys" where
  "si_follow w p pc s = (case p of None \<Rightarrow> si_goto w SError s | Some a \<Rightarrow> si_goto w (pc a) s)"

definition si_read_status :: "nat \<Rightarrow> key \<Rightarrow> nat \<Rightarrow> si_call list \<Rightarrow> si_sys \<Rightarrow> si_sys" where
  "si_read_status w k a rest s =
     (let v = si_vers s a in
      if v_status v \<noteq> VCommitted then si_follow w (v_committed_prev v) (\<lambda>b. SReadLoop k b rest) s
      else si_goto w (SReadLoop k a rest) s)"

definition si_read_loop :: "nat \<Rightarrow> key \<Rightarrow> nat \<Rightarrow> si_call list \<Rightarrow> si_sys \<Rightarrow> si_sys" where
  "si_read_loop w k a rest s =
     (let t = si_txs s w; v = si_vers s a in
      if x_txid t < v_cstamp v then si_follow w (v_committed_prev v) (\<lambda>b. SReadLoop k b rest) s
      else
        (si_upd w (t\<lparr>x_rset := x_rset t @ [\<lparr>e_key = k, e_rcdptr = get_tuple k, e_ver = a\<rparr>]\<rparr>) (SReadCopy a rest) s)
          \<lparr>si_reads := (si_reads s)(w := si_reads s w @ [(k, a, si_old s w)]),
           si_vals := (si_vals s)(w := si_vals s w @ [(k, v_val v)])\<rparr>)"

definition si_read_copy :: "si_config \<Rightarrow> nat \<Rightarrow> nat \<Rightarrow> si_call list \<Rightarrow> si_sys \<Rightarrow> si_sys" where
  "si_read_copy c w a rest s =
     (let t = si_txs s w in
      si_upd w (t\<lparr>x_return_val := memcpy (x_return_val t) (v_val (si_vers s a)) (si_val_size c)\<rparr>) (SCalls rest) s)"

section \<open>Write\<close>

text \<open>
  Up to the first load of \<^verbatim>\<open>latest_\<close>: the new version is not visible yet, its address is \<open>d\<close>.
\<close>

definition si_twrite :: "nat \<Rightarrow> key \<Rightarrow> si_call list \<Rightarrow> si_sys \<Rightarrow> si_sys" where
  "si_twrite w k rest s =
     (let t = si_txs s w in
      if si_searchWriteSet k t \<noteq> None then si_goto w (SCalls rest) s
      else
        (let tuple = (case si_searchReadSet k t of Some re \<Rightarrow> e_rcdptr re | None \<Rightarrow> get_tuple k);
             fresh = (x_reuse_version t = []);
             d = (if fresh then si_next s else last (x_reuse_version t));
             t' = t\<lparr>x_reuse_version := butlast (x_reuse_version t)\<rparr>
         in (si_set_ver d ((si_vers s d)\<lparr>v_cstamp := x_txid t, v_status := VInFlight\<rparr>)
              (si_upd w t' (SWriteStatus k tuple d (t_latest (si_table s tuple)) rest) s))
              \<lparr>si_next := (if fresh then Suc (si_next s) else si_next s)\<rparr>))"

definition si_write_abort :: "nat \<Rightarrow> nat \<Rightarrow> si_sys \<Rightarrow> si_sys" where
  "si_write_abort w d s =
     (let t = si_txs s w in
      si_upd w (t\<lparr>x_status := SiAborted, x_reuse_version := x_reuse_version t @ [d]\<rparr>) (SAbort (x_wset t)) s)"

definition si_write_status :: "nat \<Rightarrow> key \<Rightarrow> key \<Rightarrow> nat \<Rightarrow> nat \<Rightarrow> si_call list \<Rightarrow> si_sys \<Rightarrow> si_sys" where
  "si_write_status w k p d e rest s =
     (if v_status (si_vers s e) = VInFlight then si_goto w (SWriteCstamp k p d e rest) s
      else si_goto w (SWriteWalk k p d e e rest) s)"

definition si_write_cstamp :: "nat \<Rightarrow> key \<Rightarrow> key \<Rightarrow> nat \<Rightarrow> nat \<Rightarrow> si_call list \<Rightarrow> si_sys \<Rightarrow> si_sys" where
  "si_write_cstamp w k p d e rest s =
     (if x_txid (si_txs s w) \<le> v_cstamp (si_vers s e) then si_write_abort w d s
      else si_goto w (SWriteReload k p d rest) s)"

definition si_write_walk ::
  "nat \<Rightarrow> key \<Rightarrow> key \<Rightarrow> nat \<Rightarrow> nat \<Rightarrow> nat \<Rightarrow> si_call list \<Rightarrow> si_sys \<Rightarrow> si_sys" where
  "si_write_walk w k p d e v rest s =
     (if v_status (si_vers s v) \<noteq> VCommitted
      then si_follow w (v_committed_prev (si_vers s v)) (\<lambda>b. SWriteWalk k p d e b rest) s
      else si_goto w (SWriteCheck k p d e v rest) s)"

definition si_write_check ::
  "nat \<Rightarrow> key \<Rightarrow> key \<Rightarrow> nat \<Rightarrow> nat \<Rightarrow> nat \<Rightarrow> si_call list \<Rightarrow> si_sys \<Rightarrow> si_sys" where
  "si_write_check w k p d e v rest s =
     (if x_txid (si_txs s w) < v_cstamp (si_vers s v) then si_write_abort w d s
      else si_set_ver d ((si_vers s d)\<lparr>v_prev := Some e, v_committed_prev := Some v\<rparr>)
             (si_goto w (SWriteCas k p d e rest) s))"

definition si_write_cas :: "nat \<Rightarrow> key \<Rightarrow> key \<Rightarrow> nat \<Rightarrow> nat \<Rightarrow> si_call list \<Rightarrow> si_sys \<Rightarrow> si_sys" where
  "si_write_cas w k p d e rest s =
     (let t = si_txs s w; latest = t_latest (si_table s p) in
      if latest = e then
        (si_upd w (t\<lparr>x_wset := x_wset t @ [\<lparr>e_key = k, e_rcdptr = p, e_ver = d\<rparr>]\<rparr>) (SCalls rest) s)
          \<lparr>si_table := (si_table s)(p := (si_table s p)\<lparr>t_latest := d\<rparr>), si_pub := (si_pub s)(d := Some p)\<rparr>
      else si_goto w (SWriteStatus k p d latest rest) s)"

section \<open>Commit and abort\<close>

text \<open>\<^verbatim>\<open>++CCtr\<close> is the serialization point of the transaction.\<close>

definition si_commit :: "nat \<Rightarrow> si_sys \<Rightarrow> si_sys" where
  "si_commit w s =
     (let t = si_txs s w; n = si_CCtr s + 1 in
      (si_upd w (t\<lparr>x_cstamp := ucast n, x_status := SiCommitted\<rparr>) (SCommitStamp (x_wset t)) s)
        \<lparr>si_CCtr := n,
         si_com := si_com s @
           [\<lparr>c_txid = x_txid t, c_reads = si_reads s w,
             c_rec = \<lparr>tx_reads = si_vals s w, tx_writes = map (\<lambda>e. (e_key e, \<lambda>_. x_write_val t)) (x_wset t)\<rparr>\<rparr>]\<rparr>)"

definition si_commit_stamp :: "nat \<Rightarrow> si_elem list \<Rightarrow> si_sys \<Rightarrow> si_sys" where
  "si_commit_stamp w es s =
     (let t = si_txs s w in
      case es of
        e # es \<Rightarrow>
          si_set_ver (e_ver e) ((si_vers s (e_ver e))\<lparr>v_cstamp := x_cstamp t\<rparr>) (si_goto w (SCommitCopy e es) s)
      | [] \<Rightarrow>
          (let a = si_TMT s w in
           (si_upd w (t\<lparr>x_rset := [], x_wset := []\<rparr>) SMake s)
             \<lparr>si_tmts := (si_tmts s)(a := (si_tmts s a)\<lparr>tt_lastcstamp := x_cstamp t\<rparr>)\<rparr>))"

definition si_commit_copy :: "si_config \<Rightarrow> nat \<Rightarrow> si_elem \<Rightarrow> si_elem list \<Rightarrow> si_sys \<Rightarrow> si_sys" where
  "si_commit_copy c w e es s =
     (let v = si_vers s (e_ver e) in
      si_set_ver (e_ver e) (v\<lparr>v_val := memcpy (v_val v) (x_write_val (si_txs s w)) (si_val_size c)\<rparr>)
        (si_goto w (SCommitMark e es) s))"

definition si_gc_push :: "si_elem \<Rightarrow> u32 \<Rightarrow> si_tx \<Rightarrow> si_tx" where
  "si_gc_push e cstamp t =
     t\<lparr>x_gcq_for_versions := x_gcq_for_versions t @
        [\<lparr>g_key = e_key e, g_rcdptr = e_rcdptr e, g_ver = e_ver e, g_cstamp = cstamp\<rparr>]\<rparr>"

definition si_commit_mark :: "nat \<Rightarrow> si_elem \<Rightarrow> si_elem list \<Rightarrow> si_sys \<Rightarrow> si_sys" where
  "si_commit_mark w e es s =
     (let t = si_txs s w in
      (si_set_ver (e_ver e) ((si_vers s (e_ver e))\<lparr>v_status := VCommitted\<rparr>)
        (si_upd w (si_gc_push e (x_cstamp t) t) (SCommitStamp es) s))
        \<lparr>si_hist := (si_hist s)(e_key e := e_ver e # si_hist s (e_key e))\<rparr>)"

definition si_abort :: "nat \<Rightarrow> si_elem list \<Rightarrow> si_sys \<Rightarrow> si_sys" where
  "si_abort w es s =
     (let t = si_txs s w in
      case es of
        e # es \<Rightarrow>
          si_set_ver (e_ver e) ((si_vers s (e_ver e))\<lparr>v_status := VAborted\<rparr>)
            (si_upd w (si_gc_push e (x_txid t) t) (SAbort es) s)
      | [] \<Rightarrow> si_upd w (t\<lparr>x_rset := [], x_wset := []\<rparr>) SRetry s)"

section \<open>One step of worker \<open>w\<close>\<close>

definition si_step :: "si_config \<Rightarrow> nat \<Rightarrow> procedure list \<Rightarrow> si_sys \<Rightarrow> si_sys" where
  "si_step c w pro s =
     (let t = si_txs s w in
      case si_pcs s w of
        SMake \<Rightarrow> (if si_quit s then si_goto w SStop s else si_upd w (t\<lparr>x_pro := pro\<rparr>) SRetry s)
      | SRetry \<Rightarrow> si_goto w (if w = 0 then SLeadPtr 0 (- 1) 0 else SQuit) s
      | SLeadPtr i smin smax \<Rightarrow> si_leader_ptr c w i smin smax s
      | SLeadVal i a smin smax \<Rightarrow> si_leader_val w i a smin smax s
      | SQuit \<Rightarrow> si_goto w (if si_quit s then SStop else SBegin) s
      | SBegin \<Rightarrow> si_tbegin w s
      | SScanPtr i a \<Rightarrow> si_scan_ptr c w i a s
      | SScanVal i tmt a \<Rightarrow> si_scan_val w i tmt a s
      | SCalls (SiRead k # rest) \<Rightarrow> si_tread w k rest s
      | SCalls (SiWrite k # rest) \<Rightarrow> si_twrite w k rest s
      | SCalls [] \<Rightarrow> si_commit w s
      | SReadStatus k a rest \<Rightarrow> si_read_status w k a rest s
      | SReadLoop k a rest \<Rightarrow> si_read_loop w k a rest s
      | SReadCopy a rest \<Rightarrow> si_read_copy c w a rest s
      | SWriteStatus k p d e rest \<Rightarrow> si_write_status w k p d e rest s
      | SWriteCstamp k p d e rest \<Rightarrow> si_write_cstamp w k p d e rest s
      | SWriteReload k p d rest \<Rightarrow> si_goto w (SWriteStatus k p d (t_latest (si_table s p)) rest) s
      | SWriteWalk k p d e v rest \<Rightarrow> si_write_walk w k p d e v rest s
      | SWriteCheck k p d e v rest \<Rightarrow> si_write_check w k p d e v rest s
      | SWriteCas k p d e rest \<Rightarrow> si_write_cas w k p d e rest s
      | SCommitStamp es \<Rightarrow> si_commit_stamp w es s
      | SCommitCopy e es \<Rightarrow> si_commit_copy c w e es s
      | SCommitMark e es \<Rightarrow> si_commit_mark w e es s
      | SAbort es \<Rightarrow> si_abort w es s
      | SStop \<Rightarrow> s
      | SError \<Rightarrow> s)"

section \<open>The system\<close>

text \<open>
  \<^verbatim>\<open>partTableInit\<close>: record \<open>k\<close> has one committed version, at address \<open>unat k\<close>. The elements of
  the table of transactions are at the addresses of the workers; nothing is reserved in advance
  (\<^verbatim>\<open>pre_reserve_version\<close> and \<^verbatim>\<open>pre_reserve_tmt_element\<close> are zero).
\<close>

definition si_init :: "si_config \<Rightarrow> db \<Rightarrow> (nat \<Rightarrow> val) \<Rightarrow> si_sys" where
  "si_init c d wv =
     \<lparr>si_table = (\<lambda>k. \<lparr>t_latest = unat k, t_min_cstamp = 0, t_g_clock = 0\<rparr>),
      si_vers = (\<lambda>a. \<lparr>v_prev = None, v_committed_prev = None, v_cstamp = 0,
                      v_status = (if a < 2 ^ 64 then VCommitted else VInFlight),
                      v_val = (if a < 2 ^ 64 then d (of_nat a) else replicate (si_val_size c) 0)\<rparr>),
      si_next = 2 ^ 64, si_CCtr = 0,
      si_TMT = (\<lambda>w. w), si_tmts = (\<lambda>_. \<lparr>tt_txid = 0, tt_lastcstamp = 0\<rparr>), si_tmt_next = si_workers c,
      si_gcob = si_decideFirstRange (replicate (si_workers c) 0), si_GC_threshold = 0, si_quit = False,
      si_txs = (\<lambda>w. \<lparr>x_cstamp = 0, x_txid = 0, x_rset = [], x_wset = [], x_pro = [], x_status = SiInFlight,
                     x_write_val = wv w, x_return_val = replicate (si_val_size c) 0, x_gcq_for_TMT = [],
                     x_reuse_TMT = [], x_gcq_for_versions = [], x_reuse_version = []\<rparr>),
      si_pcs = (\<lambda>_. SMake), si_hist = (\<lambda>k. [unat k]),
      si_pub = (\<lambda>a. if a < 2 ^ 64 then Some (of_nat a) else None), si_old = (\<lambda>_. []), si_reads = (\<lambda>_. []),
      si_vals = (\<lambda>_. []), si_com = []\<rparr>"

definition si_start :: "si_config \<Rightarrow> db \<Rightarrow> si_sys \<Rightarrow> bool" where
  "si_start c d s \<longleftrightarrow>
     (\<exists>wv. s = si_init c d wv \<and> (\<forall>w. length (wv w) = si_val_size c) \<and>
        (\<forall>k. length (d k) = si_val_size c))"

definition si_next_sys :: "si_config \<Rightarrow> si_sys \<Rightarrow> si_sys \<Rightarrow> bool" where
  "si_next_sys c s t \<longleftrightarrow>
     (\<exists>w pro. w < si_workers c \<and> t = si_step c w pro s) \<or> t = s\<lparr>si_quit := True\<rparr>"

abbreviation si_reach :: "si_config \<Rightarrow> db \<Rightarrow> si_sys \<Rightarrow> bool" where
  "si_reach c d \<equiv> reach (si_start c d) (si_next_sys c)"

fun si_run :: "si_config \<Rightarrow> (nat \<times> procedure list) list \<Rightarrow> si_sys \<Rightarrow> si_sys" where
  "si_run c [] s = s"
| "si_run c ((w, pro) # sched) s = si_run c sched (si_step c w pro s)"

lemma si_step_reach: "si_reach c d s \<Longrightarrow> w < si_workers c \<Longrightarrow> si_reach c d (si_step c w pro s)"
  by (rule reach_step) (auto simp: si_next_sys_def)

lemma si_run_reach:
  "si_reach c d s \<Longrightarrow> \<forall>(w, pro) \<in> set sched. w < si_workers c \<Longrightarrow> si_reach c d (si_run c sched s)"
proof (induction sched arbitrary: s)
  case (Cons a sched)
  then have "si_reach c d (si_step c (fst a) (snd a) s)"
    using si_step_reach [OF Cons.prems(1)] by auto
  with Cons show ?case by (cases a) simp
qed simp

end
