(* ===== verification/Si_Proofs.thy ===== *)
theory Si_Proofs
  imports Si_System
begin

text \<open>
  The invariant of the snapshot isolation executor. The committed versions of a record are the
  chain of \<^verbatim>\<open>committed_prev_\<close>, with decreasing timestamps; \<^verbatim>\<open>latest_\<close> is its head or a version in
  flight or aborted on top of it. A worker owns the versions in flight of its write set and the
  versions it has not published. It is stated for fewer than \<open>2 ^ 32 - 2\<close> commits, where the
  32-bit timestamps do not wrap.
\<close>

section \<open>Reading the heap\<close>

abbreviation vst :: "si_sys \<Rightarrow> nat \<Rightarrow> version_status" where
  "vst s a \<equiv> v_status (si_vers s a)"

abbreviation vcp :: "si_sys \<Rightarrow> nat \<Rightarrow> nat option" where
  "vcp s a \<equiv> v_committed_prev (si_vers s a)"

abbreviation vcs :: "si_sys \<Rightarrow> nat \<Rightarrow> nat" where
  "vcs s a \<equiv> unat (v_cstamp (si_vers s a))"

abbreviation vval :: "si_sys \<Rightarrow> nat \<Rightarrow> val" where
  "vval s a \<equiv> v_val (si_vers s a)"

abbreviation coms :: "si_sys \<Rightarrow> txrec list" where
  "coms s \<equiv> map c_rec (si_com s)"

abbreviation ncom :: "si_sys \<Rightarrow> nat" where
  "ncom s \<equiv> length (si_com s)"

text \<open>A list of versions is a chain from its head to the initial version.\<close>

fun si_chain :: "(nat \<Rightarrow> si_version) \<Rightarrow> nat list \<Rightarrow> bool" where
  "si_chain vs [] = False"
| "si_chain vs [a] = (v_status (vs a) = VCommitted \<and> v_cstamp (vs a) = 0)"
| "si_chain vs (a # b # h) =
     (v_status (vs a) = VCommitted \<and> v_committed_prev (vs a) = Some b \<and>
      unat (v_cstamp (vs b)) < unat (v_cstamp (vs a)) \<and> si_chain vs (b # h))"

lemma si_chain_cong: "(\<And>a. a \<in> set h \<Longrightarrow> vs' a = vs a) \<Longrightarrow> si_chain vs' h = si_chain vs h"
  by (induction vs h rule: si_chain.induct) auto

lemma si_chain_committed: "si_chain vs h \<Longrightarrow> a \<in> set h \<Longrightarrow> v_status (vs a) = VCommitted"
  by (induction vs h rule: si_chain.induct) auto

lemma si_chain_hd: "si_chain vs h \<Longrightarrow> a \<in> set h \<Longrightarrow> unat (v_cstamp (vs a)) \<le> unat (v_cstamp (vs (hd h)))"
  by (induction vs h rule: si_chain.induct) (auto intro: order.trans less_imp_le)

text \<open>Older than the version \<open>a\<close> means not newer than the one before it.\<close>

lemma si_chain_prev:
  "si_chain vs h \<Longrightarrow> a \<in> set h \<Longrightarrow> u \<in> set h \<Longrightarrow>
   unat (v_cstamp (vs u)) < unat (v_cstamp (vs a)) \<Longrightarrow>
   \<exists>b \<in> set h. v_committed_prev (vs a) = Some b \<and> unat (v_cstamp (vs u)) \<le> unat (v_cstamp (vs b))"
proof (induction vs h rule: si_chain.induct)
  case (3 vs x y h)
  show ?case
  proof (cases "a = x")
    case True
    with 3 have "u \<in> set (y # h)" by auto
    then have "unat (v_cstamp (vs u)) \<le> unat (v_cstamp (vs y))"
      using si_chain_hd [of vs "y # h" u] 3(2) by simp
    with True 3(2) show ?thesis by auto
  next
    case False
    then have a: "a \<in> set (y # h)" using 3(3) by simp
    have "u \<noteq> x"
    proof
      assume "u = x"
      with 3(2,5) si_chain_hd [of vs "y # h" a] a show False by simp
    qed
    with 3 a show ?thesis by (metis list.set_intros(2) set_ConsD si_chain.simps(3))
  qed
qed auto

lemma si_chain_initial: "si_chain vs h \<Longrightarrow> \<exists>u \<in> set h. v_cstamp (vs u) = 0"
  by (induction vs h rule: si_chain.induct) auto

lemma si_chain_nonempty: "si_chain vs h \<Longrightarrow> h \<noteq> []"
  by (cases h) auto

section \<open>What a worker owns\<close>

fun si_d :: "si_pc \<Rightarrow> nat list" where
  "si_d (SWriteStatus k p d e cs) = [d]"
| "si_d (SWriteCstamp k p d e cs) = [d]"
| "si_d (SWriteReload k p d cs) = [d]"
| "si_d (SWriteWalk k p d e v cs) = [d]"
| "si_d (SWriteCheck k p d e v cs) = [d]"
| "si_d (SWriteCas k p d e cs) = [d]"
| "si_d pc = []"

definition si_priv :: "si_sys \<Rightarrow> nat \<Rightarrow> nat list" where
  "si_priv s w = si_d (si_pcs s w) @ x_reuse_version (si_txs s w)"

fun si_pend_pc :: "si_pc \<Rightarrow> si_tx \<Rightarrow> si_elem list" where
  "si_pend_pc (SCommitStamp es) t = es"
| "si_pend_pc (SCommitCopy e es) t = e # es"
| "si_pend_pc (SCommitMark e es) t = e # es"
| "si_pend_pc (SAbort es) t = es"
| "si_pend_pc pc t = x_wset t"

abbreviation si_pend :: "si_sys \<Rightarrow> nat \<Rightarrow> si_elem list" where
  "si_pend s w \<equiv> si_pend_pc (si_pcs s w) (si_txs s w)"

fun si_committing :: "si_pc \<Rightarrow> bool" where
  "si_committing (SCommitStamp es) = True"
| "si_committing (SCommitCopy e es) = True"
| "si_committing (SCommitMark e es) = True"
| "si_committing pc = False"

text \<open>The worker is in \<^verbatim>\<open>tbegin\<close>, or before it.\<close>

fun si_idle :: "si_pc \<Rightarrow> bool" where
  "si_idle SMake = True"
| "si_idle SRetry = True"
| "si_idle (SLeadPtr i a b) = True"
| "si_idle (SLeadVal i t a b) = True"
| "si_idle SQuit = True"
| "si_idle SBegin = True"
| "si_idle (SScanPtr i a) = True"
| "si_idle (SScanVal i t a) = True"
| "si_idle SStop = True"
| "si_idle pc = False"

section \<open>Reads\<close>

text \<open>
  A read of version \<open>a\<close> is good when \<open>a\<close> is committed, not later than the snapshot, and not older
  than any version of the snapshot that was committed when the reader loaded \<^verbatim>\<open>latest_\<close>.
\<close>

definition si_newest :: "si_sys \<Rightarrow> nat \<Rightarrow> nat list \<Rightarrow> nat \<Rightarrow> bool" where
  "si_newest s txid old a \<longleftrightarrow> (\<forall>u \<in> set old. vcs s u \<le> txid \<longrightarrow> vcs s u \<le> vcs s a)"

definition si_read_ok :: "si_sys \<Rightarrow> nat \<Rightarrow> key \<times> nat \<times> nat list \<Rightarrow> bool" where
  "si_read_ok s txid r \<longleftrightarrow>
     (case r of (k, a, old) \<Rightarrow>
        a \<in> set (si_hist s k) \<and> vcs s a \<le> txid \<and> set old \<subseteq> set (si_hist s k) \<and> si_newest s txid old a)"

definition si_vals_of :: "si_sys \<Rightarrow> (key \<times> nat \<times> nat list) list \<Rightarrow> (key \<times> val) list" where
  "si_vals_of s rs = map (\<lambda>(k, a, old). (k, vval s a)) rs"

section \<open>The parts of the invariant\<close>

definition si_pend_ok :: "si_sys \<Rightarrow> nat \<Rightarrow> si_elem \<Rightarrow> bool" where
  "si_pend_ok s txid e \<longleftrightarrow>
     e_rcdptr e = e_key e \<and> si_pub s (e_ver e) = Some (e_key e) \<and>
     t_latest (si_table s (e_key e)) = e_ver e \<and> vst s (e_ver e) = VInFlight \<and>
     vcs s (hd (si_hist s (e_key e))) \<le> txid"

text \<open>The version that a writer has found below \<open>e\<close>.\<close>

definition si_below :: "si_sys \<Rightarrow> key \<Rightarrow> nat \<Rightarrow> nat \<Rightarrow> bool" where
  "si_below s k e v \<longleftrightarrow> si_pub s e = Some k \<and> vst s e \<noteq> VInFlight \<and> v \<in> set (si_hist s k) \<and>
     (if vst s e = VCommitted then v = e else vcp s e = Some v)"

definition si_new :: "si_sys \<Rightarrow> si_tx \<Rightarrow> key \<Rightarrow> key \<Rightarrow> nat \<Rightarrow> bool" where
  "si_new s t k p d \<longleftrightarrow> p = k \<and> k \<notin> e_key ` set (x_wset t) \<and> v_status (si_vers s d) = VInFlight"

definition si_pc_ok :: "si_sys \<Rightarrow> nat \<Rightarrow> si_pc \<Rightarrow> bool" where
  "si_pc_ok s w pc \<longleftrightarrow>
     (let t = si_txs s w; txid = unat (x_txid t); old = si_old s w in
      case pc of
        SReadStatus k p cs \<Rightarrow> si_pub s p = Some k \<and> set old \<subseteq> set (si_hist s k) \<and>
          (if vst s p = VCommitted then si_newest s txid old p
           else \<exists>b \<in> set (si_hist s k). vcp s p = Some b \<and> si_newest s txid old b)
      | SReadLoop k a cs \<Rightarrow> a \<in> set (si_hist s k) \<and> set old \<subseteq> set (si_hist s k) \<and> si_newest s txid old a
      | SWriteStatus k p d e cs \<Rightarrow> si_new s t k p d \<and> si_pub s e = Some p
      | SWriteCstamp k p d e cs \<Rightarrow> si_new s t k p d \<and> si_pub s e = Some p
      | SWriteReload k p d cs \<Rightarrow> si_new s t k p d
      | SWriteWalk k p d e v cs \<Rightarrow> si_new s t k p d \<and> si_pub s e = Some p \<and> vst s e \<noteq> VInFlight \<and>
          (v = e \<or> si_below s p e v)
      | SWriteCheck k p d e v cs \<Rightarrow> si_new s t k p d \<and> si_below s p e v
      | SWriteCas k p d e cs \<Rightarrow> si_new s t k p d \<and>
          (\<exists>v. si_below s p e v \<and> vcp s d = Some v \<and> vcs s v \<le> txid)
      | SCommitCopy e es \<Rightarrow> v_cstamp (si_vers s (e_ver e)) = x_cstamp t
      | SCommitMark e es \<Rightarrow> v_cstamp (si_vers s (e_ver e)) = x_cstamp t \<and> vval s (e_ver e) = x_write_val t
      | SScanPtr i a \<Rightarrow> txid \<le> ncom s
      | SScanVal i tmt a \<Rightarrow> txid \<le> ncom s
      | SError \<Rightarrow> False
      | _ \<Rightarrow> True)"

definition si_commit_ok :: "si_sys \<Rightarrow> si_tx \<Rightarrow> si_elem list \<Rightarrow> bool" where
  "si_commit_ok s t es \<longleftrightarrow>
     (\<exists>i < ncom s. unat (x_cstamp t) = Suc i \<and>
        (\<forall>e \<in> set es. vcs s (hd (si_hist s (e_key e))) \<le> i \<and>
           (e_key e, \<lambda>_. x_write_val t) \<in> set (tx_writes (coms s ! i)) \<and> distinct (map fst (tx_writes (coms s ! i)))))"

definition si_wk :: "si_config \<Rightarrow> si_sys \<Rightarrow> nat \<Rightarrow> bool" where
  "si_wk c s w \<longleftrightarrow>
     (let t = si_txs s w; pc = si_pcs s w; txid = unat (x_txid t) in
      length (x_write_val t) = si_val_size c \<and>
      (\<forall>e \<in> set (x_rset t). e_rcdptr e = e_key e) \<and>
      distinct (map e_key (x_wset t)) \<and> distinct (map e_key (si_pend s w)) \<and>
      (si_idle pc \<longrightarrow> x_wset t = [] \<and> x_rset t = []) \<and>
      txid \<le> Suc (ncom s) \<and> unat (x_cstamp t) \<le> ncom s \<and>
      (\<not> si_idle pc \<longrightarrow> (\<forall>r \<in> set (si_reads s w). si_read_ok s txid r) \<and>
         si_vals s w = si_vals_of s (si_reads s w)) \<and>
      (\<forall>e \<in> set (si_pend s w). si_pend_ok s txid e) \<and>
      (si_committing pc \<longrightarrow> si_commit_ok s t (si_pend s w)) \<and>
      distinct (si_priv s w) \<and> (\<forall>a \<in> set (si_priv s w). si_pub s a = None \<and> a < si_next s) \<and>
      si_pc_ok s w pc)"

text \<open>The chains, the published versions and \<^verbatim>\<open>latest_\<close>.\<close>

definition si_heap :: "si_config \<Rightarrow> si_sys \<Rightarrow> bool" where
  "si_heap c s \<longleftrightarrow>
     (\<forall>k. si_chain (si_vers s) (si_hist s k) \<and> vcs s (hd (si_hist s k)) \<le> ncom s \<and>
        (\<forall>a \<in> set (si_hist s k). si_pub s a = Some k)) \<and>
     (\<forall>a k. si_pub s a = Some k \<longrightarrow> a < si_next s \<and>
        (if vst s a = VCommitted then a \<in> set (si_hist s k)
         else \<exists>b \<in> set (si_hist s k). vcp s a = Some b)) \<and>
     (\<forall>k. si_pub s (t_latest (si_table s k)) = Some k \<and>
        (if vst s (t_latest (si_table s k)) = VCommitted then t_latest (si_table s k) = hd (si_hist s k)
         else vcp s (t_latest (si_table s k)) = Some (hd (si_hist s k)))) \<and>
     (\<forall>a. length (vval s a) = si_val_size c)"

text \<open>Versions hold the writes of their transactions; later writes of a record are pending.\<close>

definition si_history :: "db \<Rightarrow> si_sys \<Rightarrow> bool" where
  "si_history d s \<longleftrightarrow>
     (\<forall>k. \<forall>a \<in> set (si_hist s k). vval s a = serial_db d (take (vcs s a) (coms s)) k) \<and>
     (\<forall>i k. i < ncom s \<longrightarrow> k \<in> fst ` set (tx_writes (coms s ! i)) \<longrightarrow>
        i < vcs s (hd (si_hist s k)) \<or>
        (\<exists>w. si_committing (si_pcs s w) \<and> unat (x_cstamp (si_txs s w)) = Suc i \<and>
           k \<in> e_key ` set (si_pend s w))) \<and>
     (\<forall>i j k. i < j \<longrightarrow> j < ncom s \<longrightarrow> k \<in> fst ` set (tx_writes (coms s ! i)) \<longrightarrow>
        k \<in> fst ` set (tx_writes (coms s ! j)) \<longrightarrow> i < unat (c_txid (si_com s ! j))) \<and>
     (\<forall>j < ncom s. (\<forall>r \<in> set (c_reads (si_com s ! j)). si_read_ok s (unat (c_txid (si_com s ! j))) r) \<and>
        tx_reads (coms s ! j) = si_vals_of s (c_reads (si_com s ! j)) \<and>
        unat (c_txid (si_com s ! j)) \<le> Suc j)"

definition si_own :: "si_sys \<Rightarrow> bool" where
  "si_own s \<longleftrightarrow>
     (\<forall>v w. v \<noteq> w \<longrightarrow> e_key ` set (si_pend s v) \<inter> e_key ` set (si_pend s w) = {} \<and>
        set (si_priv s v) \<inter> set (si_priv s w) = {})"

definition si_clock :: "si_sys \<Rightarrow> bool" where
  "si_clock s \<longleftrightarrow> si_CCtr s = of_nat (ncom s) \<and> (\<forall>a. unat (tt_lastcstamp (si_tmts s a)) \<le> ncom s)"

definition si_good :: "si_config \<Rightarrow> db \<Rightarrow> si_sys \<Rightarrow> bool" where
  "si_good c d s \<longleftrightarrow> si_heap c s \<and> si_history d s \<and> si_own s \<and> si_clock s \<and> (\<forall>w. si_wk c s w)"

definition si_inv :: "si_config \<Rightarrow> db \<Rightarrow> si_sys \<Rightarrow> bool" where
  "si_inv c d s \<longleftrightarrow> (ncom s < 2 ^ 32 - 2 \<longrightarrow> si_good c d s)"

section \<open>Facts about the parts\<close>

lemma si_heapD:
  assumes "si_heap c s"
  shows si_heap_chain: "si_chain (si_vers s) (si_hist s k)"
    and si_heap_head: "vcs s (hd (si_hist s k)) \<le> ncom s"
    and si_heap_pub: "a \<in> set (si_hist s k) \<Longrightarrow> si_pub s a = Some k"
    and si_heap_next: "si_pub s a = Some k \<Longrightarrow> a < si_next s"
    and si_heap_com: "si_pub s a = Some k \<Longrightarrow> vst s a = VCommitted \<Longrightarrow> a \<in> set (si_hist s k)"
    and si_heap_below: "si_pub s a = Some k \<Longrightarrow> vst s a \<noteq> VCommitted \<Longrightarrow> \<exists>b \<in> set (si_hist s k). vcp s a = Some b"
    and si_heap_latest: "si_pub s (t_latest (si_table s k)) = Some k"
    and si_heap_top: "vst s (t_latest (si_table s k)) = VCommitted \<Longrightarrow> t_latest (si_table s k) = hd (si_hist s k)"
    and si_heap_under: "vst s (t_latest (si_table s k)) \<noteq> VCommitted \<Longrightarrow>
          vcp s (t_latest (si_table s k)) = Some (hd (si_hist s k))"
    and si_heap_len: "length (vval s a) = si_val_size c"
  using assms unfolding si_heap_def by (blast, blast, blast, blast, metis, metis, blast, metis, metis, blast)

lemma si_heap_hist:
  assumes "si_heap c s" "a \<in> set (si_hist s k)"
  shows "vst s a = VCommitted" "vcs s a \<le> vcs s (hd (si_hist s k))" "vcs s a \<le> ncom s"
proof -
  show "vst s a = VCommitted" using si_chain_committed [OF si_heap_chain [OF assms(1)] assms(2)] .
  show "vcs s a \<le> vcs s (hd (si_hist s k))" using si_chain_hd [OF si_heap_chain [OF assms(1)] assms(2)] .
  with si_heap_head [OF assms(1), of k] show "vcs s a \<le> ncom s" by linarith
qed

lemma si_heap_hd_in: "si_heap c s \<Longrightarrow> hd (si_hist s k) \<in> set (si_hist s k)"
  using si_chain_nonempty [OF si_heap_chain] by (metis hd_in_set)

section \<open>Workers that do not move\<close>

text \<open>What every step does to the published versions, the chains and the commits.\<close>

definition si_evolve :: "si_sys \<Rightarrow> si_sys \<Rightarrow> bool" where
  "si_evolve s t \<longleftrightarrow>
     (\<forall>a k. si_pub s a = Some k \<longrightarrow> si_pub t a = Some k \<and> vcp t a = vcp s a \<and>
        (vst s a \<noteq> VInFlight \<longrightarrow> si_vers t a = si_vers s a) \<and>
        (vst s a = VInFlight \<longrightarrow> vst t a = VCommitted \<longrightarrow>
           a \<in> set (si_hist t k) \<and> (\<forall>u \<in> set (si_hist s k). vcs s u < vcs t a))) \<and>
     (\<forall>k. set (si_hist s k) \<subseteq> set (si_hist t k)) \<and>
     (\<exists>zs. si_com t = si_com s @ zs) \<and> si_next s \<le> si_next t"

definition si_keeps :: "nat \<Rightarrow> si_sys \<Rightarrow> si_sys \<Rightarrow> bool" where
  "si_keeps v s t \<longleftrightarrow>
     si_txs t v = si_txs s v \<and> si_pcs t v = si_pcs s v \<and> si_old t v = si_old s v \<and>
     si_reads t v = si_reads s v \<and> si_vals t v = si_vals s v \<and>
     (\<forall>a \<in> set (si_priv s v). si_vers t a = si_vers s a \<and> si_pub t a = None) \<and>
     (\<forall>e \<in> set (si_pend s v). t_latest (si_table t (e_key e)) = t_latest (si_table s (e_key e)) \<and>
        si_vers t (e_ver e) = si_vers s (e_ver e) \<and> si_hist t (e_key e) = si_hist s (e_key e))"

lemma si_evolveD:
  assumes "si_evolve s t"
  shows si_evolve_pub: "si_pub s a = Some k \<Longrightarrow> si_pub t a = Some k"
    and si_evolve_cp: "si_pub s a = Some k \<Longrightarrow> vcp t a = vcp s a"
    and si_evolve_final: "si_pub s a = Some k \<Longrightarrow> vst s a \<noteq> VInFlight \<Longrightarrow> si_vers t a = si_vers s a"
    and si_evolve_mark: "si_pub s a = Some k \<Longrightarrow> vst s a = VInFlight \<Longrightarrow> vst t a = VCommitted \<Longrightarrow>
          a \<in> set (si_hist t k) \<and> (\<forall>u \<in> set (si_hist s k). vcs s u < vcs t a)"
    and si_evolve_hist: "set (si_hist s k) \<subseteq> set (si_hist t k)"
    and si_evolve_ncom: "ncom s \<le> ncom t"
    and si_evolve_coms: "i < ncom s \<Longrightarrow> si_com t ! i = si_com s ! i"
    and si_evolve_next: "si_next s \<le> si_next t"
  using assms unfolding si_evolve_def by (blast, blast, blast, blast, blast, auto simp: nth_append)

lemma si_evolve_vers:
  assumes "si_heap c s" "si_evolve s t" "a \<in> set (si_hist s k)"
  shows "si_vers t a = si_vers s a" "a \<in> set (si_hist t k)"
proof -
  show "a \<in> set (si_hist t k)" using si_evolve_hist [OF assms(2), of k] assms(3) by blast
  have "vst s a \<noteq> VInFlight" using si_heap_hist(1) [OF assms(1,3)] by simp
  with si_evolve_final [OF assms(2) si_heap_pub [OF assms(1,3)]] show "si_vers t a = si_vers s a" by blast
qed

lemma si_newest_evolve:
  assumes "si_heap c s" "si_evolve s t" "a \<in> set (si_hist s k)" "set old \<subseteq> set (si_hist s k)"
  shows "si_newest t txid old a = si_newest s txid old a"
proof -
  have "si_vers t u = si_vers s u" if "u \<in> set old" for u
    using si_evolve_vers(1) [OF assms(1,2)] assms(4) that by blast
  then show ?thesis using si_evolve_vers(1) [OF assms(1-3)] by (simp add: si_newest_def)
qed

lemma si_read_ok_evolve:
  assumes "si_heap c s" "si_evolve s t" "si_read_ok s txid r"
  shows "si_read_ok t txid r"
proof -
  obtain k a old where r: "r = (k, a, old)" by (cases r)
  with assms(3) have ok: "a \<in> set (si_hist s k)" "vcs s a \<le> txid" "set old \<subseteq> set (si_hist s k)"
      "si_newest s txid old a" by (simp_all add: si_read_ok_def)
  with si_newest_evolve [OF assms(1,2) ok(1,3)] si_evolve_vers [OF assms(1,2) ok(1)]
    si_evolve_hist [OF assms(2), of k]
  show ?thesis by (auto simp: r si_read_ok_def)
qed

lemma si_vals_of_evolve:
  assumes "si_heap c s" "si_evolve s t" "\<forall>r \<in> set rs. si_read_ok s txid r"
  shows "si_vals_of t rs = si_vals_of s rs"
proof -
  have "vval t a = vval s a" if "(k, a, old) \<in> set rs" for k a old
    using that assms(3) si_evolve_vers(1) [OF assms(1,2), of a k] by (fastforce simp: si_read_ok_def)
  then show ?thesis by (auto simp: si_vals_of_def)
qed

lemma si_below_evolve:
  assumes "si_heap c s" "si_evolve s t" "si_below s k e v"
  shows "si_below t k e v"
  using assms(3) si_evolve_final [OF assms(2), of e k] si_evolve_pub [OF assms(2), of e k]
    si_evolve_vers(2) [OF assms(1,2), of v k] by (auto simp: si_below_def)

end
