(* ===== verification/Si_Frame.thy ===== *)
theory Si_Frame
  imports Si_Proofs
begin

text \<open>Workers that do not move keep their part of the invariant, and how to add up a step.\<close>

section \<open>The frame\<close>

lemma si_keepsD:
  assumes "si_keeps v s t"
  shows si_keeps_tx: "si_txs t v = si_txs s v" "si_pcs t v = si_pcs s v" "si_old t v = si_old s v"
      "si_reads t v = si_reads s v" "si_vals t v = si_vals s v"
    and si_keeps_priv: "a \<in> set (si_priv s v) \<Longrightarrow> si_vers t a = si_vers s a"
      "a \<in> set (si_priv s v) \<Longrightarrow> si_pub t a = None"
    and si_keeps_pend: "e \<in> set (si_pend s v) \<Longrightarrow> t_latest (si_table t (e_key e)) = t_latest (si_table s (e_key e))"
      "e \<in> set (si_pend s v) \<Longrightarrow> si_vers t (e_ver e) = si_vers s (e_ver e)"
      "e \<in> set (si_pend s v) \<Longrightarrow> si_hist t (e_key e) = si_hist s (e_key e)"
  using assms unfolding si_keeps_def by blast+

lemma si_status_frame:
  assumes "si_heap c s" "si_evolve s t" "si_pub s p = Some k" "set old \<subseteq> set (si_hist s k)"
    and "if vst s p = VCommitted then si_newest s txid old p
         else \<exists>b \<in> set (si_hist s k). vcp s p = Some b \<and> si_newest s txid old b"
  shows "if vst t p = VCommitted then si_newest t txid old p
         else \<exists>b \<in> set (si_hist t k). vcp t p = Some b \<and> si_newest t txid old b"
proof (cases "vst s p = VCommitted")
  case True
  with assms(5) have "si_newest s txid old p" by simp
  moreover have "p \<in> set (si_hist s k)" using si_heap_com [OF assms(1,3) True] .
  ultimately have "si_newest t txid old p" "vst t p = VCommitted"
    using si_newest_evolve [OF assms(1,2) _ assms(4)] si_evolve_vers(1) [OF assms(1,2)] True by metis+
  then show ?thesis by simp
next
  case False
  with assms(5) obtain b where b: "b \<in> set (si_hist s k)" "vcp s p = Some b" "si_newest s txid old b" by auto
  show ?thesis
  proof (cases "vst t p = VCommitted")
    case True
    have "vst s p = VInFlight" using si_evolve_final [OF assms(2,3)] True False by metis
    then have "\<forall>u \<in> set (si_hist s k). vcs s u < vcs t p" using si_evolve_mark [OF assms(2,3)] True by blast
    then have "vcs t u \<le> vcs t p" if "u \<in> set old" for u
      using si_evolve_vers(1) [OF assms(1,2), of u k] assms(4) that by (metis order_less_imp_le subsetD)
    with True show ?thesis by (simp add: si_newest_def)
  next
    case False
    have "si_newest t txid old b" using si_newest_evolve [OF assms(1,2) b(1) assms(4)] b(3) by simp
    with False b si_evolve_vers(2) [OF assms(1,2) b(1)] si_evolve_cp [OF assms(2,3)] show ?thesis by auto
  qed
qed

lemma si_pc_ok_frame:
  assumes "si_heap c s" "si_evolve s t" "si_keeps v s t" "si_pc_ok s v (si_pcs s v)"
  shows "si_pc_ok t v (si_pcs s v)"
proof -
  note tx = si_keeps_tx [OF assms(3)]
  have d: "si_vers t a = si_vers s a" if "a \<in> set (si_d (si_pcs s v))" for a
    using si_keeps_priv(1) [OF assms(3)] that by (simp add: si_priv_def)
  note pub = si_evolve_pub [OF assms(2)]
  note below = si_below_evolve [OF assms(1,2)]
  note ver = si_evolve_vers [OF assms(1,2)]
  note n = si_evolve_ncom [OF assms(2)]
  show ?thesis
  proof (cases "si_pcs s v")
    case (SReadStatus k p cs)
    with assms(4) have "si_pub s p = Some k" "set (si_old s v) \<subseteq> set (si_hist s k)"
      "if vst s p = VCommitted then si_newest s (unat (x_txid (si_txs s v))) (si_old s v) p
       else \<exists>b \<in> set (si_hist s k). vcp s p = Some b \<and> si_newest s (unat (x_txid (si_txs s v))) (si_old s v) b"
      by (simp_all add: si_pc_ok_def Let_def)
    from this(1,2) si_status_frame [OF assms(1,2) this] pub si_evolve_hist [OF assms(2), of k]
    show ?thesis unfolding SReadStatus by (simp add: si_pc_ok_def Let_def tx)
  next
    case (SReadLoop k a cs)
    with assms(4) have "a \<in> set (si_hist s k)" "set (si_old s v) \<subseteq> set (si_hist s k)"
      "si_newest s (unat (x_txid (si_txs s v))) (si_old s v) a" by (simp_all add: si_pc_ok_def Let_def)
    with si_newest_evolve [OF assms(1,2) this(1,2)] ver(2) si_evolve_hist [OF assms(2), of k]
    show ?thesis unfolding SReadLoop by (auto simp add: si_pc_ok_def Let_def tx)
  next
    case (SWriteWalk k p d' e v' cs)
    with assms(4) have "si_new s (si_txs s v) k p d'" "si_pub s e = Some p" "vst s e \<noteq> VInFlight"
      "v' = e \<or> si_below s p e v'" by (simp_all add: si_pc_ok_def Let_def)
    with si_evolve_final [OF assms(2) this(2,3)] pub below d [of d'] show ?thesis
      unfolding SWriteWalk by (auto simp add: si_pc_ok_def Let_def tx SWriteWalk si_new_def)
  next
    case (SWriteCas k p d' e cs)
    with assms(4) obtain v' where v: "si_new s (si_txs s v) k p d'" "si_below s p e v'" "vcp s d' = Some v'"
      "vcs s v' \<le> unat (x_txid (si_txs s v))" by (auto simp: si_pc_ok_def Let_def)
    then have "si_vers t v' = si_vers s v'" using ver(1) by (auto simp: si_below_def)
    with v below d [of d'] show ?thesis
      unfolding SWriteCas by (auto simp add: si_pc_ok_def Let_def tx SWriteCas si_new_def)
  next
    case (SCommitCopy e es)
    with assms(4) si_keeps_pend(2) [OF assms(3), of e] show ?thesis
      by (simp add: si_pc_ok_def Let_def tx)
  next
    case (SCommitMark e es)
    with assms(4) si_keeps_pend(2) [OF assms(3), of e] show ?thesis
      by (simp add: si_pc_ok_def Let_def tx)
  qed (use assms(4) pub below d n in \<open>auto simp: si_pc_ok_def Let_def tx si_new_def\<close>)
qed

lemma si_commit_ok_frame:
  assumes "si_heap c s" "si_evolve s t" "si_commit_ok s x es"
    and "\<And>e. e \<in> set es \<Longrightarrow> si_hist t (e_key e) = si_hist s (e_key e)"
  shows "si_commit_ok t x es"
proof -
  have "vcs t (hd (si_hist t (e_key e))) = vcs s (hd (si_hist s (e_key e)))" if "e \<in> set es" for e
    using si_evolve_vers(1) [OF assms(1,2) si_heap_hd_in [OF assms(1)]] assms(4) [OF that] by simp
  then show ?thesis
    using assms(3) si_evolve_ncom [OF assms(2)] si_evolve_coms [OF assms(2)] unfolding si_commit_ok_def
    by (metis (no_types, lifting) length_map nth_map order_less_le_trans)
qed

lemma si_pend_ok_frame:
  assumes "si_heap c s" "si_evolve s t" "si_pend_ok s txid e"
    and "t_latest (si_table t (e_key e)) = t_latest (si_table s (e_key e))"
    and "vst t (e_ver e) = vst s (e_ver e)" "si_hist t (e_key e) = si_hist s (e_key e)"
  shows "si_pend_ok t txid e"
  using assms(3-6) si_evolve_pub [OF assms(2)] si_evolve_vers(1) [OF assms(1,2) si_heap_hd_in [OF assms(1)]]
  by (simp add: si_pend_ok_def)

lemma si_wk_frame:
  assumes "si_heap c s" "si_evolve s t" "si_keeps v s t" "si_wk c s v"
  shows "si_wk c t v"
proof -
  note tx = si_keeps_tx [OF assms(3)]
  have pend: "si_pend t v = si_pend s v" and priv: "si_priv t v = si_priv s v" by (simp_all add: tx si_priv_def)
  have "\<forall>r \<in> set (si_reads s v). si_read_ok t (unat (x_txid (si_txs s v))) r"
    "si_vals s v = si_vals_of t (si_reads s v)" if "\<not> si_idle (si_pcs s v)"
    using that assms(4) si_read_ok_evolve [OF assms(1,2)] si_vals_of_evolve [OF assms(1,2)]
    by (auto simp: si_wk_def Let_def)
  moreover have "\<forall>e \<in> set (si_pend s v). si_pend_ok t (unat (x_txid (si_txs s v))) e"
    using assms(4) si_pend_ok_frame [OF assms(1,2)] si_keeps_pend [OF assms(3)] by (simp add: si_wk_def Let_def)
  moreover have "si_committing (si_pcs s v) \<longrightarrow> si_commit_ok t (si_txs s v) (si_pend s v)"
    using assms(4) si_commit_ok_frame [OF assms(1,2)] si_keeps_pend(3) [OF assms(3)] by (simp add: si_wk_def Let_def)
  moreover have "si_pc_ok t v (si_pcs s v)"
    using si_pc_ok_frame [OF assms(1-3)] assms(4) by (simp add: si_wk_def Let_def)
  moreover have "\<forall>a \<in> set (si_priv s v). si_pub t a = None \<and> a < si_next t"
    using assms(4) si_keeps_priv(2) [OF assms(3)] si_evolve_next [OF assms(2)]
    by (auto simp: si_wk_def Let_def)
  ultimately show ?thesis
    using assms(4) si_evolve_ncom [OF assms(2)]
    by (simp add: si_wk_def Let_def tx priv)
qed

end
