(* ===== verification/Si_Quiet.thy ===== *)
theory Si_Quiet
  imports Si_Frame
begin

text \<open>The steps that touch no published version, commit nothing and move no other worker.\<close>

section \<open>Adding up a step\<close>

lemma si_good_move:
  assumes "si_good c d s" "si_evolve s t" "\<And>v. v \<noteq> w \<Longrightarrow> si_keeps v s t"
    and "si_heap c t" "si_history d t" "si_own t" "si_clock t" "si_wk c t w"
  shows "si_good c d t"
  using assms si_wk_frame [OF _ assms(2) assms(3)] unfolding si_good_def by metis

lemma si_goodD:
  assumes "si_good c d s"
  shows si_good_heap: "si_heap c s" and si_good_history: "si_history d s" and si_good_own: "si_own s"
    and si_good_clock: "si_clock s" and si_good_wk: "si_wk c s w"
  using assms by (simp_all add: si_good_def)

lemma si_wkD:
  assumes "si_wk c s w"
  shows si_wk_val: "length (x_write_val (si_txs s w)) = si_val_size c"
    and si_wk_rset: "e \<in> set (x_rset (si_txs s w)) \<Longrightarrow> e_rcdptr e = e_key e"
    and si_wk_wset: "distinct (map e_key (x_wset (si_txs s w)))"
    and si_wk_pend_distinct: "distinct (map e_key (si_pend s w))"
    and si_wk_idle: "si_idle (si_pcs s w) \<Longrightarrow> x_wset (si_txs s w) = [] \<and> x_rset (si_txs s w) = []"
    and si_wk_txid: "unat (x_txid (si_txs s w)) \<le> Suc (ncom s)"
    and si_wk_cstamp: "unat (x_cstamp (si_txs s w)) \<le> ncom s"
    and si_wk_reads: "\<not> si_idle (si_pcs s w) \<Longrightarrow>
          \<forall>r \<in> set (si_reads s w). si_read_ok s (unat (x_txid (si_txs s w))) r"
    and si_wk_vals: "\<not> si_idle (si_pcs s w) \<Longrightarrow> si_vals s w = si_vals_of s (si_reads s w)"
    and si_wk_pend: "e \<in> set (si_pend s w) \<Longrightarrow> si_pend_ok s (unat (x_txid (si_txs s w))) e"
    and si_wk_commit: "si_committing (si_pcs s w) \<Longrightarrow> si_commit_ok s (si_txs s w) (si_pend s w)"
    and si_wk_priv: "distinct (si_priv s w)" "a \<in> set (si_priv s w) \<Longrightarrow> si_pub s a = None"
      "a \<in> set (si_priv s w) \<Longrightarrow> a < si_next s"
    and si_wk_pc: "si_pc_ok s w (si_pcs s w)"
  using assms by (simp_all add: si_wk_def Let_def)

lemma si_ownD:
  assumes "si_own s" "v \<noteq> w"
  shows si_own_pend: "k \<in> e_key ` set (si_pend s v) \<Longrightarrow> k \<notin> e_key ` set (si_pend s w)"
    and si_own_priv: "a \<in> set (si_priv s v) \<Longrightarrow> a \<notin> set (si_priv s w)"
  using assms unfolding si_own_def by blast+

section \<open>Quiet steps\<close>

text \<open>
  \<open>si_quiet\<close> lists what such a step of worker \<open>w\<close> keeps: it may write its own versions that
  are not published, take fresh ones, and change its own part of the state.
\<close>

definition si_quiet :: "si_config \<Rightarrow> nat \<Rightarrow> si_sys \<Rightarrow> si_sys \<Rightarrow> bool" where
  "si_quiet c w s t \<longleftrightarrow>
     si_table t = si_table s \<and> si_hist t = si_hist s \<and> si_pub t = si_pub s \<and> si_com t = si_com s \<and>
     si_next s \<le> si_next t \<and>
     (\<forall>a. a < si_next s \<longrightarrow> a \<notin> set (si_priv s w) \<longrightarrow> si_vers t a = si_vers s a) \<and>
     (\<forall>a. length (vval t a) = si_val_size c) \<and>
     (\<forall>v. v \<noteq> w \<longrightarrow> si_txs t v = si_txs s v \<and> si_pcs t v = si_pcs s v \<and> si_old t v = si_old s v \<and>
        si_reads t v = si_reads s v \<and> si_vals t v = si_vals s v) \<and>
     si_pend t w = si_pend s w \<and> \<not> si_committing (si_pcs t w) \<and>
     (si_committing (si_pcs s w) \<longrightarrow> si_pend s w = []) \<and>
     set (si_priv t w) \<subseteq> set (si_priv s w) \<union> {si_next s..<si_next t}"

lemma si_quietD:
  assumes "si_quiet c w s t"
  shows si_quiet_same: "si_table t = si_table s" "si_hist t = si_hist s" "si_pub t = si_pub s" "si_com t = si_com s"
    and si_quiet_next: "si_next s \<le> si_next t"
    and si_quiet_vers: "a < si_next s \<Longrightarrow> a \<notin> set (si_priv s w) \<Longrightarrow> si_vers t a = si_vers s a"
    and si_quiet_len: "length (vval t a) = si_val_size c"
    and si_quiet_other: "v \<noteq> w \<Longrightarrow> si_txs t v = si_txs s v" "v \<noteq> w \<Longrightarrow> si_pcs t v = si_pcs s v"
      "v \<noteq> w \<Longrightarrow> si_old t v = si_old s v" "v \<noteq> w \<Longrightarrow> si_reads t v = si_reads s v"
      "v \<noteq> w \<Longrightarrow> si_vals t v = si_vals s v"
    and si_quiet_pend: "si_pend t w = si_pend s w" "\<not> si_committing (si_pcs t w)"
      "si_committing (si_pcs s w) \<Longrightarrow> si_pend s w = []"
    and si_quiet_priv: "a \<in> set (si_priv t w) \<Longrightarrow> a \<in> set (si_priv s w) \<or> si_next s \<le> a \<and> a < si_next t"
  using assms unfolding si_quiet_def by (blast, blast, blast, blast, blast, blast, blast, blast, blast, blast, blast,
    blast, blast, blast, blast, meson Un_iff atLeastLessThan_iff subsetD)

lemma si_quiet_pub:
  assumes "si_good c d s" "si_quiet c w s t" "si_pub s a = Some k"
  shows "si_vers t a = si_vers s a"
proof -
  have "a < si_next s" using si_heap_next [OF si_good_heap [OF assms(1)] assms(3)] .
  moreover have "a \<notin> set (si_priv s w)" using si_wk_priv(2) [OF si_good_wk [OF assms(1)]] assms(3) by fastforce
  ultimately show ?thesis by (rule si_quiet_vers [OF assms(2)])
qed

lemma si_quiet_hist:
  assumes "si_good c d s" "si_quiet c w s t" "a \<in> set (si_hist s k)"
  shows "si_vers t a = si_vers s a"
  using si_quiet_pub [OF assms(1,2) si_heap_pub [OF si_good_heap [OF assms(1)] assms(3)]] .

lemma si_quiet_hd: "si_good c d s \<Longrightarrow> si_quiet c w s t \<Longrightarrow> si_vers t (hd (si_hist s k)) = si_vers s (hd (si_hist s k))"
  using si_quiet_hist [OF _ _ si_heap_hd_in [OF si_good_heap]] by metis

lemma si_quiet_evolve:
  assumes "si_good c d s" "si_quiet c w s t"
  shows "si_evolve s t"
  using si_quiet_same [OF assms(2)] si_quiet_next [OF assms(2)] si_quiet_pub [OF assms]
  by (simp add: si_evolve_def)

lemma si_quiet_keeps:
  assumes "si_good c d s" "si_quiet c w s t" "v \<noteq> w"
  shows "si_keeps v s t"
proof -
  note other = si_quiet_other [OF assms(2,3)] and wk = si_good_wk [OF assms(1), of v]
  have "si_vers t a = si_vers s a" if a: "a \<in> set (si_priv s v)" for a
  proof (rule si_quiet_vers [OF assms(2)])
    show "a < si_next s" using si_wk_priv(3) [OF wk a] .
    show "a \<notin> set (si_priv s w)" using si_own_priv [OF si_good_own [OF assms(1)] assms(3) a] .
  qed
  moreover have "si_vers t (e_ver e) = si_vers s (e_ver e)" if "e \<in> set (si_pend s v)" for e
    using si_wk_pend [OF wk that] si_quiet_pub [OF assms(1,2)] by (simp add: si_pend_ok_def)
  ultimately show ?thesis
    using other si_quiet_same [OF assms(2)] si_wk_priv(2) [OF wk] by (simp add: si_keeps_def)
qed

lemma si_quiet_heap:
  assumes "si_good c d s" "si_quiet c w s t"
  shows "si_heap c t"
proof -
  note heap = si_good_heap [OF assms(1)] and same = si_quiet_same [OF assms(2)] and pub = si_quiet_pub [OF assms]
  have chain: "si_chain (si_vers t) (si_hist s k)" for k
    by (subst si_chain_cong [OF si_quiet_hist [OF assms]]) (assumption, rule si_heap_chain [OF heap])
  show ?thesis
    unfolding si_heap_def same
  proof (intro conjI allI impI ballI)
    fix k
    show "si_chain (si_vers t) (si_hist s k)" by (rule chain)
    show "vcs t (hd (si_hist s k)) \<le> ncom s" using si_heap_head [OF heap] si_quiet_hd [OF assms] by simp
    show "si_pub s (t_latest (si_table s k)) = Some k" using si_heap_latest [OF heap] .
    show "if vst t (t_latest (si_table s k)) = VCommitted then t_latest (si_table s k) = hd (si_hist s k)
      else vcp t (t_latest (si_table s k)) = Some (hd (si_hist s k))"
      using si_heap_top [OF heap] si_heap_under [OF heap] pub [OF si_heap_latest [OF heap, of k]] by simp
  next
    fix a k assume "a \<in> set (si_hist s k)"
    then show "si_pub s a = Some k" by (rule si_heap_pub [OF heap])
  next
    fix a k assume a: "si_pub s a = Some k"
    show "a < si_next t" using si_heap_next [OF heap a] si_quiet_next [OF assms(2)] by simp
    show "if vst t a = VCommitted then a \<in> set (si_hist s k) else \<exists>b\<in>set (si_hist s k). vcp t a = Some b"
      using si_heap_com [OF heap a] si_heap_below [OF heap a] pub [OF a] by simp
  qed (rule si_quiet_len [OF assms(2)])
qed

lemma si_quiet_own:
  assumes "si_good c d s" "si_quiet c w s t"
  shows "si_own t"
proof -
  note other = si_quiet_other [OF assms(2)] and own = si_good_own [OF assms(1)]
  have pend: "si_pend t v = si_pend s v" for v
    using other(1,2) [of v] si_quiet_pend(1) [OF assms(2)] by (cases "v = w") simp_all
  have priv: "si_priv t v = si_priv s v" if "v \<noteq> w" for v using other(1,2) [OF that] by (simp add: si_priv_def)
  have disj: "set (si_priv s v) \<inter> set (si_priv t w) = {}" if "v \<noteq> w" for v
  proof -
    have "a \<notin> set (si_priv t w)" if "a \<in> set (si_priv s v)" for a
      using si_own_priv [OF own \<open>v \<noteq> w\<close> that] si_wk_priv(3) [OF si_good_wk [OF assms(1)] that]
        si_quiet_priv [OF assms(2)] by fastforce
    then show ?thesis by blast
  qed
  show ?thesis
    unfolding si_own_def pend
  proof (intro allI impI conjI)
    fix u v :: nat assume "u \<noteq> v"
    then show "e_key ` set (si_pend s u) \<inter> e_key ` set (si_pend s v) = {}" using si_own_pend [OF own] by blast
    show "set (si_priv t u) \<inter> set (si_priv t v) = {}"
      using \<open>u \<noteq> v\<close> si_own_priv [OF own] priv disj by (cases "u = w"; cases "v = w") (auto simp: Int_commute)
  qed
qed

lemma si_quiet_history:
  assumes "si_good c d s" "si_quiet c w s t"
  shows "si_history d t"
proof -
  note heap = si_good_heap [OF assms(1)] and hist = si_good_history [OF assms(1)]
    and same = si_quiet_same [OF assms(2)] and ev = si_quiet_evolve [OF assms]
  have hd: "vcs t (hd (si_hist s k)) = vcs s (hd (si_hist s k))" for k using si_quiet_hd [OF assms] by simp
  have com: "si_committing (si_pcs s v) \<and> unat (x_cstamp (si_txs s v)) = Suc i \<and> k \<in> e_key ` set (si_pend s v) \<Longrightarrow>
     si_committing (si_pcs t v) \<and> unat (x_cstamp (si_txs t v)) = Suc i \<and> k \<in> e_key ` set (si_pend t v)" for v i k
    using si_quiet_other(1,2) [OF assms(2), of v] si_quiet_pend(3) [OF assms(2)] by (cases "v = w") auto
  have reads: "si_read_ok t n r" if "si_read_ok s n r" for n r using si_read_ok_evolve [OF heap ev that] .
  have vals: "si_vals_of t rs = si_vals_of s rs" if "\<forall>r \<in> set rs. si_read_ok s n r" for rs n
    using si_vals_of_evolve [OF heap ev that] .
  show ?thesis
    unfolding si_history_def same hd
  proof (intro conjI)
    show "\<forall>k. \<forall>a\<in>set (si_hist s k). vval t a = serial_db d (take (vcs t a) (coms s)) k"
      using hist si_quiet_hist [OF assms] unfolding si_history_def by metis
    show "\<forall>i k. i < ncom s \<longrightarrow> k \<in> fst ` set (tx_writes (coms s ! i)) \<longrightarrow>
        i < vcs s (hd (si_hist s k)) \<or>
        (\<exists>w. si_committing (si_pcs t w) \<and> unat (x_cstamp (si_txs t w)) = Suc i \<and> k \<in> e_key ` set (si_pend t w))"
      using hist com unfolding si_history_def by meson
    show "\<forall>i j k. i < j \<longrightarrow> j < ncom s \<longrightarrow> k \<in> fst ` set (tx_writes (coms s ! i)) \<longrightarrow>
        k \<in> fst ` set (tx_writes (coms s ! j)) \<longrightarrow> i < unat (c_txid (si_com s ! j))"
      using hist unfolding si_history_def by blast
    show "\<forall>j<ncom s. (\<forall>r\<in>set (c_reads (si_com s ! j)). si_read_ok t (unat (c_txid (si_com s ! j))) r) \<and>
        tx_reads (coms s ! j) = si_vals_of t (c_reads (si_com s ! j)) \<and> unat (c_txid (si_com s ! j)) \<le> Suc j"
      using hist reads vals unfolding si_history_def by metis
  qed
qed

text \<open>The obligations that remain for the worker itself.\<close>

lemma si_quiet_wk:
  assumes good: "si_good c d s" and q: "si_quiet c w s t"
    and val: "x_write_val (si_txs t w) = x_write_val (si_txs s w)"
    and rset: "\<And>e. e \<in> set (x_rset (si_txs t w)) \<Longrightarrow> e_rcdptr e = e_key e"
    and wset: "x_wset (si_txs t w) = x_wset (si_txs s w) \<or> x_wset (si_txs t w) = []"
    and idle: "si_idle (si_pcs t w) \<Longrightarrow> x_wset (si_txs t w) = [] \<and> x_rset (si_txs t w) = []"
    and txid: "unat (x_txid (si_txs t w)) \<le> Suc (ncom s)"
    and cst: "x_cstamp (si_txs t w) = x_cstamp (si_txs s w)"
    and reads: "\<not> si_idle (si_pcs t w) \<Longrightarrow>
          (\<forall>r \<in> set (si_reads t w). si_read_ok t (unat (x_txid (si_txs t w))) r) \<and> si_vals t w = si_vals_of t (si_reads t w)"
    and same: "si_pend s w = [] \<or> x_txid (si_txs t w) = x_txid (si_txs s w)"
    and dist: "distinct (si_priv t w)"
    and fresh: "\<And>a. si_next s \<le> a \<Longrightarrow> a < si_next t \<Longrightarrow> a \<in> set (si_priv t w) \<Longrightarrow> si_pub s a = None"
    and pc: "si_pc_ok t w (si_pcs t w)"
  shows "si_wk c t w"
proof -
  note wk = si_good_wk [OF good, of w] and heap = si_good_heap [OF good] and ev = si_quiet_evolve [OF good q]
  have 1: "si_pend_ok t (unat (x_txid (si_txs t w))) e" if e: "e \<in> set (si_pend s w)" for e
  proof -
    have "x_txid (si_txs t w) = x_txid (si_txs s w)" using same e by auto
    with si_wk_pend [OF wk e] have ok: "si_pend_ok s (unat (x_txid (si_txs t w))) e" by simp
    then have "si_vers t (e_ver e) = si_vers s (e_ver e)"
      using si_quiet_pub [OF good q] by (simp add: si_pend_ok_def)
    then show ?thesis by (intro si_pend_ok_frame [OF heap ev ok]) (simp_all add: si_quiet_same [OF q])
  qed
  have 2: "si_pub s a = None \<and> a < si_next t" if "a \<in> set (si_priv t w)" for a
    using si_quiet_priv [OF q that] si_wk_priv(2,3) [OF wk, of a] si_quiet_next [OF q] fresh [OF _ _ that] by auto
  show ?thesis
    unfolding si_wk_def Let_def si_quiet_same [OF q] si_quiet_pend(1) [OF q] cst
    using 1 2 si_wk_val [OF wk] si_wk_wset [OF wk] si_wk_pend_distinct [OF wk] si_wk_cstamp [OF wk]
      si_quiet_pend(2) [OF q] val rset wset idle txid reads dist pc by auto
qed

text \<open>Reads of before stay good, in the same transaction.\<close>

lemma si_quiet_reads:
  assumes "si_good c d s" "si_quiet c w s t" "\<not> si_idle (si_pcs s w)"
    and "x_txid (si_txs t w) = x_txid (si_txs s w)" "si_reads t w = si_reads s w" "si_vals t w = si_vals s w"
  shows "(\<forall>r \<in> set (si_reads t w). si_read_ok t (unat (x_txid (si_txs t w))) r) \<and> si_vals t w = si_vals_of t (si_reads t w)"
proof -
  note wk = si_good_wk [OF assms(1), of w] and heap = si_good_heap [OF assms(1)]
    and ev = si_quiet_evolve [OF assms(1,2)]
  note reads = si_wk_reads [OF wk assms(3)]
  show ?thesis
    using si_read_ok_evolve [OF heap ev] si_vals_of_evolve [OF heap ev reads] reads si_wk_vals [OF wk assms(3)]
    by (simp add: assms(4-6))
qed

lemma si_good_quiet:
  assumes "si_good c d s" "si_quiet c w s t" "si_clock t" "si_wk c t w"
  shows "si_good c d t"
  using si_good_move [OF assms(1) si_quiet_evolve [OF assms(1,2)] si_quiet_keeps [OF assms(1,2)]
      si_quiet_heap [OF assms(1,2)] si_quiet_history [OF assms(1,2)] si_quiet_own [OF assms(1,2)] assms(3,4)] .

end
