(* ===== verification/Si_Local.thy ===== *)
theory Si_Local
  imports Si_Quiet
begin

text \<open>The quiet steps of the executor, one by one.\<close>

lemmas si_upd_defs = si_upd_def si_goto_def si_set_ver_def

section \<open>Steps that only move the program counter\<close>

definition si_core :: "si_tx \<Rightarrow> si_tx \<Rightarrow> bool" where
  "si_core x y \<longleftrightarrow> x_write_val x = x_write_val y \<and> x_rset x = x_rset y \<and> x_wset x = x_wset y \<and>
     x_cstamp x = x_cstamp y \<and> x_txid x = x_txid y \<and> x_reuse_version x = x_reuse_version y"

lemma si_pend_core: "si_core x y \<Longrightarrow> si_pend_pc pc x = si_pend_pc pc y"
  by (cases pc) (simp_all add: si_core_def)

lemma si_good_silent:
  assumes good: "si_good c d s"
    and shared: "si_table t = si_table s" "si_hist t = si_hist s" "si_pub t = si_pub s" "si_com t = si_com s"
      "si_vers t = si_vers s" "si_next t = si_next s" "si_CCtr t = si_CCtr s" "si_tmts t = si_tmts s"
    and other: "\<And>v. v \<noteq> w \<Longrightarrow> si_txs t v = si_txs s v \<and> si_pcs t v = si_pcs s v \<and> si_old t v = si_old s v"
    and reads: "si_reads t = si_reads s" "si_vals t = si_vals s"
    and core: "si_core (si_txs t w) (si_txs s w)"
    and pc: "\<not> si_committing (si_pcs s w)" "\<not> si_committing (si_pcs t w)" "si_d (si_pcs t w) = si_d (si_pcs s w)"
      "si_pend_pc (si_pcs t w) (si_txs s w) = si_pend_pc (si_pcs s w) (si_txs s w)"
      "si_idle (si_pcs t w) = si_idle (si_pcs s w)"
    and ok: "si_pc_ok t w (si_pcs t w)"
  shows "si_good c d t"
proof -
  note heap = si_good_heap [OF good] and wk = si_good_wk [OF good, of w]
  note c = core [unfolded si_core_def]
  have priv: "si_priv t w = si_priv s w" using pc(3) c by (simp add: si_priv_def)
  have q: "si_quiet c w s t"
    using pc si_pend_core [OF core] si_heap_len [OF heap]
    by (auto simp: si_quiet_def shared other reads priv)
  have rd: "(\<forall>r \<in> set (si_reads t w). si_read_ok t (unat (x_txid (si_txs t w))) r) \<and> si_vals t w = si_vals_of t (si_reads t w)"
    if "\<not> si_idle (si_pcs t w)"
    using si_quiet_reads [OF good q] that c by (simp add: pc(5) reads)
  have "si_wk c t w"
    by (rule si_quiet_wk [OF good q])
      (use c rd si_wk_rset [OF wk] si_wk_idle [OF wk] si_wk_txid [OF wk] si_wk_priv(1) [OF wk] pc(5) ok
        in \<open>auto simp: priv shared\<close>)
  moreover have "si_clock t" using si_good_clock [OF good] by (simp add: si_clock_def shared)
  ultimately show ?thesis using si_good_quiet [OF good q] by blast
qed

lemma si_core_refl [simp]: "si_core x x" by (simp add: si_core_def)

lemma si_good_goto:
  assumes "si_good c d s" "\<not> si_committing (si_pcs s w)" "\<not> si_committing pc" "si_d pc = si_d (si_pcs s w)"
    and "si_pend_pc pc (si_txs s w) = si_pend_pc (si_pcs s w) (si_txs s w)" "si_idle pc = si_idle (si_pcs s w)"
    and "si_pc_ok s w pc"
  shows "si_good c d (si_goto w pc s)"
proof (rule si_good_silent [OF assms(1)])
  have "si_pc_ok (si_goto w pc s) w pc = si_pc_ok s w pc"
    by (cases pc) (simp_all add: si_goto_def si_pc_ok_def Let_def si_new_def si_newest_def si_below_def)
  with assms(7) show "si_pc_ok (si_goto w pc s) w (si_pcs (si_goto w pc s) w)" by (simp add: si_goto_def)
qed (use assms in \<open>simp_all add: si_goto_def\<close>)

section \<open>The begin of a transaction\<close>

lemma si_good_make:
  assumes "si_good c d s" "si_pcs s w = SMake"
  shows "si_good c d (si_upd w ((si_txs s w)\<lparr>x_pro := pro\<rparr>) SRetry s)"
  by (rule si_good_silent [OF assms(1), where w = w])
    (simp_all add: si_upd_def si_core_def assms(2) si_pc_ok_def Let_def)

lemma si_good_leader:
  assumes "si_good c d s" "si_pcs s w = SLeadPtr i a b"
  shows "si_good c d (si_leader_ptr c w i a b s)"
  by (rule si_good_silent [OF assms(1), where w = w])
    (simp_all add: si_leader_ptr_def si_leader_end_def si_goto_def Let_def assms(2) si_pc_ok_def)

lemma si_good_leader_val:
  assumes "si_good c d s" "si_pcs s w = SLeadVal i tm a b"
  shows "si_good c d (si_leader_val w i tm a b s)"
  unfolding si_leader_val_def Let_def
  by (rule si_good_goto [OF assms(1)]) (simp_all add: assms(2) si_pc_ok_def)

lemma si_good_tbegin:
  assumes good: "si_good c d s" and pc: "si_pcs s w = SBegin"
  shows "si_good c d (si_tbegin w s)"
proof -
  let ?t = "si_tbegin w s"
  note wk = si_good_wk [OF good, of w] and heap = si_good_heap [OF good] and clock = si_good_clock [OF good]
  have le: "unat (x_txid (si_txs ?t w)) \<le> ncom s"
    using si_wk_cstamp [OF wk] clock by (auto simp: si_tbegin_def si_upd_def Let_def si_clock_def)
  have w0: "x_wset (si_txs s w) = [] \<and> x_rset (si_txs s w) = []" using si_wk_idle [OF wk] pc by simp
  have q: "si_quiet c w s ?t"
    using si_heap_len [OF heap] pc
    by (auto simp: si_quiet_def si_tbegin_def si_upd_def Let_def si_priv_def)
  have "si_wk c ?t w"
    by (rule si_quiet_wk [OF good q])
      (use le w0 si_wk_priv(1) [OF wk] pc in \<open>simp_all add: si_tbegin_def si_upd_def Let_def si_priv_def si_pc_ok_def\<close>)
  moreover have "si_clock ?t" using clock si_wk_cstamp [OF wk] by (simp add: si_tbegin_def si_upd_def Let_def si_clock_def)
  ultimately show ?thesis using si_good_quiet [OF good q] by blast
qed

lemma si_good_scan_val:
  assumes good: "si_good c d s" and pc: "si_pcs s w = SScanVal i tm a"
  shows "si_good c d (si_scan_val w i tm a s)"
proof -
  let ?t = "si_scan_val w i tm a s"
  note wk = si_good_wk [OF good, of w] and heap = si_good_heap [OF good] and clock = si_good_clock [OF good]
  have "unat (x_txid (si_txs s w)) \<le> ncom s" using si_wk_pc [OF wk] pc by (simp add: si_pc_ok_def Let_def)
  then have le: "unat (x_txid (si_txs ?t w)) \<le> ncom s"
    using clock by (auto simp: si_scan_val_def si_upd_def Let_def si_clock_def max_def)
  have w0: "x_wset (si_txs s w) = [] \<and> x_rset (si_txs s w) = []" using si_wk_idle [OF wk] pc by simp
  have q: "si_quiet c w s ?t"
    using si_heap_len [OF heap] pc
    by (auto simp: si_quiet_def si_scan_val_def si_upd_def Let_def si_priv_def)
  have "si_wk c ?t w"
    by (rule si_quiet_wk [OF good q])
      (use le w0 si_wk_priv(1) [OF wk] pc in \<open>simp_all add: si_scan_val_def si_upd_def Let_def si_priv_def si_pc_ok_def\<close>)
  moreover have "si_clock ?t" using clock by (simp add: si_scan_val_def si_upd_def Let_def si_clock_def)
  ultimately show ?thesis using si_good_quiet [OF good q] by blast
qed

lemma si_good_scan_ptr:
  assumes good: "si_good c d s" and pc: "si_pcs s w = SScanPtr i a" and n: "ncom s < 2 ^ 32 - 2"
  shows "si_good c d (si_scan_ptr c w i a s)"
proof (cases "i < si_workers c")
  case True
  note wk = si_good_wk [OF good, of w]
  have "unat (x_txid (si_txs s w)) \<le> ncom s" using si_wk_pc [OF wk] pc by (simp add: si_pc_ok_def Let_def)
  with True show ?thesis unfolding si_scan_ptr_def
    by simp (rule si_good_goto [OF good], simp_all add: pc si_pc_ok_def)
next
  case False
  let ?t = "si_scan_ptr c w i a s"
  note wk = si_good_wk [OF good, of w] and heap = si_good_heap [OF good] and clock = si_good_clock [OF good]
  note defs = si_scan_ptr_def si_register_def si_upd_def Let_def
  have le: "unat (x_txid (si_txs s w)) \<le> ncom s" using si_wk_pc [OF wk] pc by (simp add: si_pc_ok_def Let_def)
  with n have "unat (x_txid (si_txs s w) + 1) = Suc (unat (x_txid (si_txs s w)))"
    by (simp add: unat_word_ariths)
  with le False have le': "unat (x_txid (si_txs ?t w)) \<le> Suc (ncom s)" by (simp add: defs)
  have w0: "x_wset (si_txs s w) = [] \<and> x_rset (si_txs s w) = []" using si_wk_idle [OF wk] pc by simp
  have q: "si_quiet c w s ?t"
    using si_heap_len [OF heap] pc False by (auto simp: si_quiet_def defs si_priv_def)
  have "si_wk c ?t w"
    by (rule si_quiet_wk [OF good q])
      (use le' w0 si_wk_priv(1) [OF wk] pc False in \<open>simp_all add: defs si_priv_def si_pc_ok_def si_vals_of_def\<close>)
  moreover have "si_clock ?t" using clock False by (simp add: defs si_clock_def)
  ultimately show ?thesis using si_good_quiet [OF good q] by blast
qed

section \<open>Reading\<close>

lemma si_good_tread:
  assumes good: "si_good c d s" and pc: "si_pcs s w = SCalls (SiRead k # rest)"
  shows "si_good c d (si_tread w k rest s)"
proof (cases "si_searchWriteSet k (si_txs s w) \<noteq> None \<or> si_searchReadSet k (si_txs s w) \<noteq> None")
  case True
  then show ?thesis unfolding si_tread_def Let_def
    by (auto intro!: si_good_goto [OF good] simp: pc si_pc_ok_def)
next
  case False
  let ?p = "t_latest (si_table s k)"
  note heap = si_good_heap [OF good]
  have "si_newest s n (si_hist s k) (hd (si_hist s k))" for n
    using si_heap_hist(2) [OF heap] by (simp add: si_newest_def)
  then have "if vst s ?p = VCommitted then si_newest s n (si_hist s k) ?p
      else \<exists>b \<in> set (si_hist s k). vcp s ?p = Some b \<and> si_newest s n (si_hist s k) b" for n
    using si_heap_top [OF heap] si_heap_under [OF heap] si_heap_hd_in [OF heap] by metis
  from this [of "unat (x_txid (si_txs s w))", unfolded si_newest_def] False show ?thesis
    using si_heap_latest [OF heap, of k]
    by (intro si_good_silent [OF good, where w = w])
      (simp_all add: si_tread_def si_goto_def pc si_pc_ok_def Let_def si_newest_def get_tuple_def)
qed

lemma si_good_read_status:
  assumes good: "si_good c d s" and pc: "si_pcs s w = SReadStatus k a rest"
  shows "si_good c d (si_read_status w k a rest s)"
proof -
  note heap = si_good_heap [OF good]
  have "si_pc_ok s w (SReadStatus k a rest)" using si_wk_pc [OF si_good_wk [OF good], of w] pc by simp
  then have ok: "si_pub s a = Some k" "set (si_old s w) \<subseteq> set (si_hist s k)"
      "if vst s a = VCommitted then si_newest s (unat (x_txid (si_txs s w))) (si_old s w) a
       else \<exists>b \<in> set (si_hist s k). vcp s a = Some b \<and> si_newest s (unat (x_txid (si_txs s w))) (si_old s w) b"
    by (simp_all add: si_pc_ok_def Let_def)
  show ?thesis
  proof (cases "vst s a = VCommitted")
    case True
    then have "si_read_status w k a rest s = si_goto w (SReadLoop k a rest) s" by (simp add: si_read_status_def)
    with True show ?thesis using ok si_heap_com [OF heap ok(1) True]
      by (auto intro!: si_good_goto [OF good] simp: pc si_pc_ok_def)
  next
    case False
    with ok(3) obtain b where b: "b \<in> set (si_hist s k)" "vcp s a = Some b"
      "si_newest s (unat (x_txid (si_txs s w))) (si_old s w) b" by auto
    with False have "si_read_status w k a rest s = si_goto w (SReadLoop k b rest) s"
      by (simp add: si_read_status_def si_follow_def)
    with b ok(2) show ?thesis by (auto intro!: si_good_goto [OF good] simp: pc si_pc_ok_def)
  qed
qed

lemma si_good_read_loop:
  assumes good: "si_good c d s" and pc: "si_pcs s w = SReadLoop k a rest"
  shows "si_good c d (si_read_loop w k a rest s)"
proof -
  note heap = si_good_heap [OF good] and wk = si_good_wk [OF good, of w]
  note chain = si_heap_chain [OF heap, of k]
  have "si_pc_ok s w (SReadLoop k a rest)" using si_wk_pc [OF wk] pc by simp
  then have ok: "a \<in> set (si_hist s k)" "set (si_old s w) \<subseteq> set (si_hist s k)"
      "si_newest s (unat (x_txid (si_txs s w))) (si_old s w) a" by (simp_all add: si_pc_ok_def Let_def)
  show ?thesis
  proof (cases "x_txid (si_txs s w) < v_cstamp (si_vers s a)")
    case True
    then have lt: "unat (x_txid (si_txs s w)) < vcs s a" by (simp add: word_less_nat_alt)
    obtain u where "u \<in> set (si_hist s k)" "v_cstamp (si_vers s u) = 0" using si_chain_initial [OF chain] by blast
    with si_chain_prev [OF chain ok(1), of u] lt obtain b where b: "b \<in> set (si_hist s k)" "vcp s a = Some b" by auto
    have "vcs s u \<le> vcs s b" if "u \<in> set (si_old s w)" "vcs s u \<le> unat (x_txid (si_txs s w))" for u
      using si_chain_prev [OF chain ok(1), of u] that ok(2) lt b(2) by fastforce
    then have "si_newest s (unat (x_txid (si_txs s w))) (si_old s w) b" by (simp add: si_newest_def)
    moreover from True b(2) have "si_read_loop w k a rest s = si_goto w (SReadLoop k b rest) s"
      by (simp add: si_read_loop_def si_follow_def Let_def)
    ultimately show ?thesis using b ok(2) by (auto intro!: si_good_goto [OF good] simp: pc si_pc_ok_def)
  next
    case False
    let ?t = "si_read_loop w k a rest s"
    note defs = si_read_loop_def si_upd_def Let_def
    have q: "si_quiet c w s ?t"
      using si_heap_len [OF heap] pc False by (auto simp: si_quiet_def defs si_priv_def)
    have shared: "si_vers ?t = si_vers s" "si_hist ?t = si_hist s" using False by (simp_all add: defs)
    have rok: "si_read_ok ?t n r = si_read_ok s n r" "si_vals_of ?t rs = si_vals_of s rs" for n r rs
      by (simp_all add: si_read_ok_def si_vals_of_def shared si_newest_def)
    have "vcs s a \<le> unat (x_txid (si_txs s w))" using False by (simp add: word_less_nat_alt)
    with ok have new: "si_read_ok s (unat (x_txid (si_txs s w))) (k, a, si_old s w)" by (simp add: si_read_ok_def)
    have idle: "\<not> si_idle (si_pcs s w)" by (simp add: pc)
    have "si_wk c ?t w"
    proof (rule si_quiet_wk [OF good q], unfold rok)
      show "(\<forall>r \<in> set (si_reads ?t w). si_read_ok s (unat (x_txid (si_txs ?t w))) r) \<and> si_vals ?t w = si_vals_of s (si_reads ?t w)"
        using si_wk_reads [OF wk idle] si_wk_vals [OF wk idle] new False by (simp add: defs si_vals_of_def)
    qed (use si_wk_priv(1) [OF wk] si_wk_txid [OF wk] si_wk_rset [OF wk] pc False in
        \<open>auto simp: defs si_priv_def si_pc_ok_def get_tuple_def\<close>)
    moreover have "si_clock ?t" using si_good_clock [OF good] False by (simp add: defs si_clock_def)
    ultimately show ?thesis using si_good_quiet [OF good q] by blast
  qed
qed

lemma si_good_read_copy:
  assumes "si_good c d s" "si_pcs s w = SReadCopy a rest"
  shows "si_good c d (si_read_copy c w a rest s)"
  by (rule si_good_silent [OF assms(1), where w = w])
    (simp_all add: si_read_copy_def si_upd_def Let_def si_core_def assms(2) si_pc_ok_def)

section \<open>Writing, up to the publication of the new version\<close>

lemma si_good_write_abort:
  assumes good: "si_good c d s" and pc: "si_d (si_pcs s w) = [dv]"
    and own: "\<not> si_committing (si_pcs s w)" "si_pend_pc (si_pcs s w) (si_txs s w) = x_wset (si_txs s w)"
      "\<not> si_idle (si_pcs s w)"
  shows "si_good c d (si_write_abort w dv s)"
proof -
  let ?t = "si_write_abort w dv s"
  note heap = si_good_heap [OF good] and wk = si_good_wk [OF good, of w]
  note defs = si_write_abort_def si_upd_def Let_def
  have q: "si_quiet c w s ?t"
    using si_heap_len [OF heap] pc own by (auto simp: si_quiet_def defs si_priv_def)
  have "si_wk c ?t w"
    by (rule si_quiet_wk [OF good q])
      (use si_wk_priv(1) [OF wk] si_wk_txid [OF wk] si_wk_rset [OF wk] si_quiet_reads [OF good q own(3)] pc own in
        \<open>auto simp: defs si_priv_def si_pc_ok_def\<close>)
  moreover have "si_clock ?t" using si_good_clock [OF good] by (simp add: defs si_clock_def)
  ultimately show ?thesis using si_good_quiet [OF good q] by blast
qed

lemma si_good_twrite:
  assumes good: "si_good c d s" and pc: "si_pcs s w = SCalls (SiWrite k # rest)"
  shows "si_good c d (si_twrite w k rest s)"
proof (cases "si_searchWriteSet k (si_txs s w) \<noteq> None")
  case True
  then show ?thesis unfolding si_twrite_def Let_def
    by (auto intro!: si_good_goto [OF good] simp: pc si_pc_ok_def)
next
  case False
  let ?t = "si_twrite w k rest s" and ?r = "x_reuse_version (si_txs s w)"
  define dv where "dv = (if ?r = [] then si_next s else last ?r)"
  note heap = si_good_heap [OF good] and wk = si_good_wk [OF good, of w]
  have tuple: "(case si_searchReadSet k (si_txs s w) of Some re \<Rightarrow> e_rcdptr re | None \<Rightarrow> get_tuple k) = k"
    using si_wk_rset [OF wk] search_set_Some
    by (fastforce simp: si_searchReadSet_def get_tuple_def split: option.splits)
  let ?x = "(si_txs s w)\<lparr>x_reuse_version := butlast ?r\<rparr>"
  have t: "?t = (si_set_ver dv ((si_vers s dv)\<lparr>v_cstamp := x_txid (si_txs s w), v_status := VInFlight\<rparr>)
      (si_upd w ?x (SWriteStatus k k dv (t_latest (si_table s k)) rest) s))
      \<lparr>si_next := (if ?r = [] then Suc (si_next s) else si_next s)\<rparr>"
    using False unfolding si_twrite_def Let_def tuple dv_def by simp
  have k: "k \<notin> e_key ` set (x_wset (si_txs s w))" using False by (simp add: si_searchWriteSet_def search_set_None)
  have priv_s: "si_priv s w = ?r" by (simp add: si_priv_def pc)
  have priv_t: "si_priv ?t w = dv # butlast ?r" unfolding t by (simp add: si_priv_def si_upd_def si_set_ver_def)
  have dv: "?r \<noteq> [] \<Longrightarrow> dv \<in> set ?r" "?r = [] \<Longrightarrow> dv = si_next s" by (simp_all add: dv_def)
  have next_t: "si_next ?t = (if ?r = [] then Suc (si_next s) else si_next s)" unfolding t by simp
  have bl: "a \<in> set (butlast ?r) \<Longrightarrow> a \<in> set ?r" for a by (rule in_set_butlastD)
  have dist: "distinct (dv # butlast ?r)"
  proof (cases "?r = []")
    case False
    then obtain xs x where "?r = xs @ [x]" by (metis rev_exhaust)
    with si_wk_priv(1) [OF wk] priv_s show ?thesis by (simp add: dv_def)
  qed simp
  have pub: "si_pub s dv = None"
  proof (cases "?r = []")
    case True
    then show ?thesis using dv(2) si_heap_next [OF heap, of dv] by (cases "si_pub s dv") auto
  next
    case False
    then show ?thesis using si_wk_priv(2) [OF wk] dv(1) unfolding priv_s by blast
  qed
  have "set (dv # butlast ?r) \<subseteq> set ?r \<union> {si_next s..<si_next ?t}" using dv bl by (auto simp: next_t)
  then have q: "si_quiet c w s ?t"
    unfolding si_quiet_def priv_t unfolding priv_s
    using si_heap_len [OF heap] pc dv by (auto simp: t si_upd_defs Let_def)
  have latest: "si_pub s (t_latest (si_table s k)) = Some k" using si_heap_latest [OF heap] .
  have ok: "si_pc_ok ?t w (si_pcs ?t w)"
    using k latest unfolding t by (simp add: si_upd_defs si_pc_ok_def Let_def si_new_def)
  have "si_wk c ?t w"
  proof (rule si_quiet_wk [OF good q])
    show "distinct (si_priv ?t w)" unfolding priv_t by (rule dist)
    show "si_pc_ok ?t w (si_pcs ?t w)" by (rule ok)
    fix a assume "si_next s \<le> a" "a < si_next ?t" "a \<in> set (si_priv ?t w)"
    then have "a = dv" using dv by (auto simp: next_t split: if_splits)
    then show "si_pub s a = None" using pub by simp
  qed (use si_wk_txid [OF wk] si_wk_rset [OF wk] si_quiet_reads [OF good q] pc in \<open>auto simp: t si_upd_defs\<close>)
  moreover have "si_clock ?t" using si_good_clock [OF good] unfolding t by (simp add: si_upd_defs si_clock_def)
  ultimately show ?thesis using si_good_quiet [OF good q] by blast
qed

lemma si_good_write_status:
  assumes good: "si_good c d s" and pc: "si_pcs s w = SWriteStatus k p dv e rest"
  shows "si_good c d (si_write_status w k p dv e rest s)"
proof -
  have "si_pc_ok s w (SWriteStatus k p dv e rest)" using si_wk_pc [OF si_good_wk [OF good], of w] pc by simp
  then show ?thesis unfolding si_write_status_def
    by (auto intro!: si_good_goto [OF good] simp: pc si_pc_ok_def Let_def)
qed

lemma si_good_write_cstamp:
  assumes good: "si_good c d s" and pc: "si_pcs s w = SWriteCstamp k p dv e rest"
  shows "si_good c d (si_write_cstamp w k p dv e rest s)"
proof -
  have "si_pc_ok s w (SWriteCstamp k p dv e rest)" using si_wk_pc [OF si_good_wk [OF good], of w] pc by simp
  then show ?thesis unfolding si_write_cstamp_def
    by (auto intro!: si_good_goto [OF good] si_good_write_abort [OF good] simp: pc si_pc_ok_def Let_def)
qed

lemma si_good_write_reload:
  assumes good: "si_good c d s" and pc: "si_pcs s w = SWriteReload k p dv rest"
  shows "si_good c d (si_goto w (SWriteStatus k p dv (t_latest (si_table s p)) rest) s)"
proof -
  have "si_pc_ok s w (SWriteReload k p dv rest)" using si_wk_pc [OF si_good_wk [OF good], of w] pc by simp
  then show ?thesis using si_heap_latest [OF si_good_heap [OF good], of p]
    by (auto intro!: si_good_goto [OF good] simp: pc si_pc_ok_def Let_def)
qed

lemma si_good_write_walk:
  assumes good: "si_good c d s" and pc: "si_pcs s w = SWriteWalk k p dv e v rest"
  shows "si_good c d (si_write_walk w k p dv e v rest s)"
proof -
  note heap = si_good_heap [OF good]
  have "si_pc_ok s w (SWriteWalk k p dv e v rest)" using si_wk_pc [OF si_good_wk [OF good], of w] pc by simp
  then have ok: "si_new s (si_txs s w) k p dv" "si_pub s e = Some p" "vst s e \<noteq> VInFlight" "v = e \<or> si_below s p e v"
    by (simp_all add: si_pc_ok_def Let_def)
  show ?thesis
  proof (cases "vst s v = VCommitted")
    case True
    have "si_below s p e v" using ok True si_heap_com [OF heap ok(2)] by (auto simp: si_below_def)
    then show ?thesis using True ok(1) unfolding si_write_walk_def
      by (auto intro!: si_good_goto [OF good] simp: pc si_pc_ok_def Let_def)
  next
    case False
    have "v = e" using ok(4) False si_heap_hist(1) [OF heap, of v p] by (auto simp: si_below_def)
    with False obtain b where b: "b \<in> set (si_hist s p)" "vcp s v = Some b" using si_heap_below [OF heap ok(2)] by auto
    then have "si_below s p e b" using ok False \<open>v = e\<close> by (auto simp: si_below_def)
    moreover have "si_write_walk w k p dv e v rest s = si_goto w (SWriteWalk k p dv e b rest) s"
      using b False by (simp add: si_write_walk_def si_follow_def)
    ultimately show ?thesis using ok
      by (auto intro!: si_good_goto [OF good] simp: pc si_pc_ok_def Let_def)
  qed
qed

lemma si_good_write_check:
  assumes good: "si_good c d s" and pc: "si_pcs s w = SWriteCheck k p dv e v rest"
  shows "si_good c d (si_write_check w k p dv e v rest s)"
proof (cases "x_txid (si_txs s w) < v_cstamp (si_vers s v)")
  case True
  then show ?thesis unfolding si_write_check_def by (simp add: si_good_write_abort [OF good] pc)
next
  case False
  let ?t = "si_write_check w k p dv e v rest s"
  note heap = si_good_heap [OF good] and wk = si_good_wk [OF good, of w]
  have "si_pc_ok s w (SWriteCheck k p dv e v rest)" using si_wk_pc [OF wk] pc by simp
  then have ok: "si_new s (si_txs s w) k p dv" "si_below s p e v" by (simp_all add: si_pc_ok_def Let_def)
  have t: "?t = si_set_ver dv ((si_vers s dv)\<lparr>v_prev := Some e, v_committed_prev := Some v\<rparr>)
      (si_goto w (SWriteCas k p dv e rest) s)" using False by (simp add: si_write_check_def)
  have priv: "si_priv ?t w = si_priv s w" "dv \<in> set (si_priv s w)"
    unfolding t by (simp_all add: si_priv_def si_upd_defs pc)
  have q: "si_quiet c w s ?t"
    unfolding si_quiet_def priv using si_heap_len [OF heap] pc priv(2) by (auto simp: t si_upd_defs)
  have "si_pub s dv = None" using si_wk_priv(2) [OF wk priv(2)] .
  moreover have "si_pub s e = Some p" "si_pub s v = Some p"
    using ok(2) si_heap_pub [OF heap, of v p] by (auto simp: si_below_def)
  ultimately have ne: "e \<noteq> dv" "v \<noteq> dv" by auto
  have ok': "si_pc_ok ?t w (si_pcs ?t w)"
    using ok ne False unfolding t
    by (simp add: si_upd_defs si_pc_ok_def Let_def si_new_def si_below_def word_less_nat_alt)
  have "si_wk c ?t w"
  proof (rule si_quiet_wk [OF good q])
    show "distinct (si_priv ?t w)" using si_wk_priv(1) [OF wk] by (simp add: priv)
    show "si_pc_ok ?t w (si_pcs ?t w)" by (rule ok')
  qed (use si_wk_txid [OF wk] si_wk_rset [OF wk] si_quiet_reads [OF good q] pc in \<open>auto simp: t si_upd_defs\<close>)
  moreover have "si_clock ?t" using si_good_clock [OF good] unfolding t by (simp add: si_upd_defs si_clock_def)
  ultimately show ?thesis using si_good_quiet [OF good q] by blast
qed

section \<open>Leaving a transaction\<close>

lemma si_good_commit_end:
  assumes good: "si_good c d s" and pc: "si_pcs s w = SCommitStamp []"
  shows "si_good c d (si_commit_stamp w [] s)"
proof -
  let ?t = "si_commit_stamp w [] s"
  note heap = si_good_heap [OF good] and wk = si_good_wk [OF good, of w]
  note defs = si_commit_stamp_def si_upd_def Let_def
  have q: "si_quiet c w s ?t"
    using si_heap_len [OF heap] pc by (auto simp: si_quiet_def defs si_priv_def)
  have "si_wk c ?t w"
    by (rule si_quiet_wk [OF good q])
      (use si_wk_priv(1) [OF wk] si_wk_txid [OF wk] pc in \<open>auto simp: defs si_priv_def si_pc_ok_def\<close>)
  moreover have "si_clock ?t" using si_good_clock [OF good] si_wk_cstamp [OF wk] by (simp add: defs si_clock_def)
  ultimately show ?thesis using si_good_quiet [OF good q] by blast
qed

lemma si_good_abort_end:
  assumes good: "si_good c d s" and pc: "si_pcs s w = SAbort []"
  shows "si_good c d (si_abort w [] s)"
proof -
  let ?t = "si_abort w [] s"
  note heap = si_good_heap [OF good] and wk = si_good_wk [OF good, of w]
  note defs = si_abort_def si_upd_def Let_def
  have q: "si_quiet c w s ?t"
    using si_heap_len [OF heap] pc by (auto simp: si_quiet_def defs si_priv_def)
  have "si_wk c ?t w"
    by (rule si_quiet_wk [OF good q])
      (use si_wk_priv(1) [OF wk] si_wk_txid [OF wk] pc in \<open>auto simp: defs si_priv_def si_pc_ok_def\<close>)
  moreover have "si_clock ?t" using si_good_clock [OF good] by (simp add: defs si_clock_def)
  ultimately show ?thesis using si_good_quiet [OF good q] by blast
qed

end
