(* ===== verification/Si_Publish.thy ===== *)
theory Si_Publish
  imports Si_Local
begin

text \<open>The steps on published versions: publication, commit, installation and abort.\<close>

section \<open>A version in flight and its owner\<close>

lemma si_pend_owner:
  assumes "si_good c d s" "e \<in> set (si_pend s w)" "f \<in> set (si_pend s v)" "v \<noteq> w"
  shows "e_key f \<noteq> e_key e" "e_ver f \<noteq> e_ver e"
proof -
  have "e_key e \<notin> e_key ` set (si_pend s v)"
    using si_own_pend [OF si_good_own [OF assms(1)], of w v "e_key e"] assms(2,4) by auto
  with assms(3) show k: "e_key f \<noteq> e_key e" by (metis image_eqI)
  have "si_pub s (e_ver e) = Some (e_key e)" "si_pub s (e_ver f) = Some (e_key f)"
    using si_wk_pend [OF si_good_wk [OF assms(1)]] assms(2,3) by (auto simp: si_pend_ok_def)
  with k show "e_ver f \<noteq> e_ver e" by auto
qed

text \<open>
  \<open>si_owned\<close>: a step of worker \<open>w\<close> that changes the version of its pending element \<open>e\<close>.
\<close>

definition si_owned :: "si_config \<Rightarrow> nat \<Rightarrow> si_elem \<Rightarrow> si_sys \<Rightarrow> si_sys \<Rightarrow> bool" where
  "si_owned c w e s t \<longleftrightarrow>
     si_table t = si_table s \<and> si_pub t = si_pub s \<and> si_com t = si_com s \<and> si_next t = si_next s \<and>
     si_CCtr t = si_CCtr s \<and> si_tmts t = si_tmts s \<and> e \<in> set (si_pend s w) \<and>
     (\<forall>a. a \<noteq> e_ver e \<longrightarrow> si_vers t a = si_vers s a) \<and> vcp t (e_ver e) = vcp s (e_ver e) \<and>
     length (vval t (e_ver e)) = si_val_size c \<and>
     (\<forall>k. si_hist t k = (if vst t (e_ver e) = VCommitted \<and> k = e_key e then e_ver e # si_hist s k else si_hist s k)) \<and>
     (vst t (e_ver e) = VCommitted \<longrightarrow> vcs s (hd (si_hist s (e_key e))) < vcs t (e_ver e) \<and> vcs t (e_ver e) \<le> ncom s) \<and>
     (\<forall>v. v \<noteq> w \<longrightarrow> si_txs t v = si_txs s v \<and> si_pcs t v = si_pcs s v \<and> si_old t v = si_old s v) \<and>
     si_reads t = si_reads s \<and> si_vals t = si_vals s \<and> si_priv t w = si_priv s w"

lemma si_ownedD:
  assumes "si_owned c w e s t"
  shows si_owned_same: "si_table t = si_table s" "si_pub t = si_pub s" "si_com t = si_com s" "si_next t = si_next s"
      "si_CCtr t = si_CCtr s" "si_tmts t = si_tmts s" "si_reads t = si_reads s" "si_vals t = si_vals s"
      "si_priv t w = si_priv s w"
    and si_owned_pend: "e \<in> set (si_pend s w)"
    and si_owned_vers: "a \<noteq> e_ver e \<Longrightarrow> si_vers t a = si_vers s a"
    and si_owned_cp: "vcp t (e_ver e) = vcp s (e_ver e)"
    and si_owned_len: "length (vval t (e_ver e)) = si_val_size c"
    and si_owned_hist: "si_hist t k = (if vst t (e_ver e) = VCommitted \<and> k = e_key e then e_ver e # si_hist s k else si_hist s k)"
    and si_owned_com: "vst t (e_ver e) = VCommitted \<Longrightarrow> vcs s (hd (si_hist s (e_key e))) < vcs t (e_ver e)"
      "vst t (e_ver e) = VCommitted \<Longrightarrow> vcs t (e_ver e) \<le> ncom s"
    and si_owned_other: "v \<noteq> w \<Longrightarrow> si_txs t v = si_txs s v" "v \<noteq> w \<Longrightarrow> si_pcs t v = si_pcs s v"
      "v \<noteq> w \<Longrightarrow> si_old t v = si_old s v"
  using assms unfolding si_owned_def by (blast, blast, blast, blast, blast, blast, blast, blast, blast, blast, blast,
    blast, blast, blast, blast, blast, blast, blast, blast)

lemma si_owned_version:
  assumes "si_good c d s" "si_owned c w e s t"
  shows "si_pub s (e_ver e) = Some (e_key e)" "vst s (e_ver e) = VInFlight"
    "t_latest (si_table s (e_key e)) = e_ver e" "e_ver e \<notin> set (si_hist s k)"
    "vcp s (e_ver e) = Some (hd (si_hist s (e_key e)))"
proof -
  note heap = si_good_heap [OF assms(1)]
  have ok: "si_pend_ok s (unat (x_txid (si_txs s w))) e"
    using si_wk_pend [OF si_good_wk [OF assms(1)] si_owned_pend [OF assms(2)]] .
  then show 1: "si_pub s (e_ver e) = Some (e_key e)" "vst s (e_ver e) = VInFlight"
    "t_latest (si_table s (e_key e)) = e_ver e" by (simp_all add: si_pend_ok_def)
  show "e_ver e \<notin> set (si_hist s k)" using si_heap_hist(1) [OF heap] 1(2) by force
  show "vcp s (e_ver e) = Some (hd (si_hist s (e_key e)))" using si_heap_under [OF heap, of "e_key e"] 1 by simp
qed

lemma si_owned_hist_vers:
  assumes "si_good c d s" "si_owned c w e s t" "a \<in> set (si_hist s k)"
  shows "si_vers t a = si_vers s a"
  using si_owned_vers [OF assms(2), of a] si_owned_version(4) [OF assms(1,2), of k] assms(3) by auto

lemma si_owned_evolve:
  assumes "si_good c d s" "si_owned c w e s t"
  shows "si_evolve s t"
proof -
  note heap = si_good_heap [OF assms(1)] and ver = si_owned_version [OF assms]
  have below: "vcs s u < vcs t (e_ver e)" if "vst t (e_ver e) = VCommitted" "u \<in> set (si_hist s (e_key e))" for u
    using si_owned_com(1) [OF assms(2) that(1)] si_heap_hist(2) [OF heap that(2)] by linarith
  have pub: "si_pub t a = Some k \<and> vcp t a = vcp s a \<and> (vst s a \<noteq> VInFlight \<longrightarrow> si_vers t a = si_vers s a) \<and>
      (vst s a = VInFlight \<longrightarrow> vst t a = VCommitted \<longrightarrow>
         a \<in> set (si_hist t k) \<and> (\<forall>u \<in> set (si_hist s k). vcs s u < vcs t a))" if a: "si_pub s a = Some k" for a k
  proof (cases "a = e_ver e")
    case True
    with a ver(1) have "k = e_key e" by simp
    with True show ?thesis using a ver(2) below si_owned_cp [OF assms(2)] si_owned_hist [OF assms(2), of k]
      by (simp add: si_owned_same(2) [OF assms(2)])
  next
    case False
    then have "si_vers t a = si_vers s a" by (rule si_owned_vers [OF assms(2)])
    then show ?thesis using a by (simp add: si_owned_same(2) [OF assms(2)])
  qed
  show ?thesis unfolding si_evolve_def
    using pub si_owned_hist [OF assms(2)] by (auto simp: si_owned_same [OF assms(2)])
qed

lemma si_owned_keeps:
  assumes "si_good c d s" "si_owned c w e s t" "v \<noteq> w"
  shows "si_keeps v s t"
proof -
  note other = si_owned_other [OF assms(2,3)] and same = si_owned_same [OF assms(2)]
    and wk = si_good_wk [OF assms(1), of v]
  have "si_vers t a = si_vers s a" if "a \<in> set (si_priv s v)" for a
    using si_owned_vers [OF assms(2), of a] si_wk_priv(2) [OF wk that] si_owned_version(1) [OF assms(1,2)]
    by (cases "a = e_ver e") simp_all
  moreover have "si_vers t (e_ver f) = si_vers s (e_ver f) \<and> si_hist t (e_key f) = si_hist s (e_key f)"
    if "f \<in> set (si_pend s v)" for f
    using si_pend_owner [OF assms(1) si_owned_pend [OF assms(2)] that assms(3)]
      si_owned_vers [OF assms(2), of "e_ver f"] si_owned_hist [OF assms(2), of "e_key f"] by simp
  ultimately show ?thesis
    using other same si_wk_priv(2) [OF wk] by (simp add: si_keeps_def)
qed

lemma si_owned_heap:
  assumes "si_good c d s" "si_owned c w e s t"
  shows "si_heap c t"
proof -
  note heap = si_good_heap [OF assms(1)] and ver = si_owned_version [OF assms] and same = si_owned_same [OF assms(2)]
    and hist = si_owned_hist [OF assms(2)]
  let ?a = "e_ver e" and ?k = "e_key e"
  have chain0: "si_chain (si_vers t) (si_hist s k)" for k
    by (subst si_chain_cong [OF si_owned_hist_vers [OF assms]]) (assumption, rule si_heap_chain [OF heap])
  have hd: "si_vers t (hd (si_hist s k)) = si_vers s (hd (si_hist s k))" for k
    using si_owned_hist_vers [OF assms si_heap_hd_in [OF heap]] .
  have "si_chain (si_vers t) (?a # si_hist s ?k)" if "vst t ?a = VCommitted"
  proof -
    obtain b h where h: "si_hist s ?k = b # h" using si_chain_nonempty [OF chain0 [of ?k]] by (cases "si_hist s ?k") auto
    then show ?thesis using that chain0 [of ?k] hd [of ?k] si_owned_com(1) [OF assms(2) that] ver(5) si_owned_cp [OF assms(2)]
      by simp
  qed
  then have chain: "si_chain (si_vers t) (si_hist t k)" for k using chain0 hist [of k] by simp
  show ?thesis
    unfolding si_heap_def
  proof (intro conjI allI impI ballI)
    fix k
    show "si_chain (si_vers t) (si_hist t k)" by (rule chain)
    show "vcs t (hd (si_hist t k)) \<le> ncom t"
      using hist [of k] hd [of k] si_heap_head [OF heap, of k] si_owned_com(2) [OF assms(2)] by (simp add: same)
    show "si_pub t (t_latest (si_table t k)) = Some k" using si_heap_latest [OF heap] by (simp add: same)
    show "if vst t (t_latest (si_table t k)) = VCommitted then t_latest (si_table t k) = hd (si_hist t k)
      else vcp t (t_latest (si_table t k)) = Some (hd (si_hist t k))"
    proof (cases "k = ?k")
      case True
      then show ?thesis using ver(3,5) si_owned_cp [OF assms(2)] hist [of ?k] by (simp add: same)
    next
      case False
      then have "t_latest (si_table s k) \<noteq> ?a" using si_heap_latest [OF heap, of k] ver(1) by auto
      with False show ?thesis
        using si_owned_vers [OF assms(2)] si_heap_top [OF heap, of k] si_heap_under [OF heap, of k] hist [of k]
        by (simp add: same)
    qed
  next
    fix a k assume "a \<in> set (si_hist t k)"
    then show "si_pub t a = Some k" using hist [of k] si_heap_pub [OF heap, of a k] ver(1) by (auto simp: same split: if_splits)
  next
    fix a k assume "si_pub t a = Some k"
    then have a: "si_pub s a = Some k" by (simp add: same)
    show "a < si_next t" using si_heap_next [OF heap a] by (simp add: same)
    show "if vst t a = VCommitted then a \<in> set (si_hist t k) else \<exists>b\<in>set (si_hist t k). vcp t a = Some b"
    proof (cases "a = ?a")
      case True
      with a ver(1) have "k = ?k" by simp
      then show ?thesis using True ver(5) si_owned_cp [OF assms(2)] hist [of k] si_heap_hd_in [OF heap, of k] by simp
    next
      case False
      then have "si_vers t a = si_vers s a" by (rule si_owned_vers [OF assms(2)])
      moreover have "set (si_hist s k) \<subseteq> set (si_hist t k)" using hist [of k] by auto
      ultimately show ?thesis using si_heap_com [OF heap a] si_heap_below [OF heap a] by auto
    qed
  next
    fix a
    show "length (vval t a) = si_val_size c"
      using si_owned_len [OF assms(2)] si_heap_len [OF heap] si_owned_vers [OF assms(2)] by (cases "a = ?a") auto
  qed
qed

text \<open>The element stays pending, or it is done.\<close>

definition si_done :: "nat \<Rightarrow> si_elem \<Rightarrow> si_sys \<Rightarrow> si_sys \<Rightarrow> bool" where
  "si_done w e s t \<longleftrightarrow>
     si_committing (si_pcs t w) = si_committing (si_pcs s w) \<and> si_core (si_txs t w) (si_txs s w) \<and>
     \<not> si_idle (si_pcs s w) \<and> \<not> si_idle (si_pcs t w) \<and>
     (si_pend t w = si_pend s w \<and> vst t (e_ver e) = VInFlight \<or>
      si_pend s w = e # si_pend t w \<and> (si_committing (si_pcs s w) \<longrightarrow> vst t (e_ver e) = VCommitted))"

lemma si_done_pend: "si_done w e s t \<Longrightarrow> f \<in> set (si_pend t w) \<Longrightarrow> f \<in> set (si_pend s w)"
  by (auto simp: si_done_def)

lemma si_done_core: "si_done w e s t \<Longrightarrow> si_core (si_txs t w) (si_txs s w)"
  by (simp add: si_done_def)

lemma si_owned_own:
  assumes "si_good c d s" "si_owned c w e s t" "si_done w e s t"
  shows "si_own t"
proof -
  note other = si_owned_other [OF assms(2)] and own = si_good_own [OF assms(1)]
  have pend: "set (si_pend t v) \<subseteq> set (si_pend s v)" for v
    using other(1,2) [of v] si_done_pend [OF assms(3)] by (cases "v = w") auto
  have priv: "si_priv t v = si_priv s v" for v
    using other(1,2) [of v] si_owned_same(9) [OF assms(2)] by (cases "v = w") (simp_all add: si_priv_def)
  show ?thesis
    unfolding si_own_def priv
  proof (intro allI impI conjI)
    fix u v :: nat assume ne: "u \<noteq> v"
    then have "e_key ` set (si_pend s u) \<inter> e_key ` set (si_pend s v) = {}" using si_own_pend [OF own] by blast
    then show "e_key ` set (si_pend t u) \<inter> e_key ` set (si_pend t v) = {}"
      using image_mono [OF pend [of u], of e_key] image_mono [OF pend [of v], of e_key] by blast
    show "set (si_priv s u) \<inter> set (si_priv s v) = {}" using si_own_priv [OF own ne] by blast
  qed
qed

lemma si_historyD:
  assumes "si_history d s"
  shows si_history_val: "a \<in> set (si_hist s k) \<Longrightarrow> vval s a = serial_db d (take (vcs s a) (coms s)) k"
    and si_history_pend: "i < ncom s \<Longrightarrow> k \<in> fst ` set (tx_writes (coms s ! i)) \<Longrightarrow> i < vcs s (hd (si_hist s k)) \<or>
        (\<exists>w. si_committing (si_pcs s w) \<and> unat (x_cstamp (si_txs s w)) = Suc i \<and> k \<in> e_key ` set (si_pend s w))"
    and si_history_order: "i < j \<Longrightarrow> j < ncom s \<Longrightarrow> k \<in> fst ` set (tx_writes (coms s ! i)) \<Longrightarrow>
        k \<in> fst ` set (tx_writes (coms s ! j)) \<Longrightarrow> i < unat (c_txid (si_com s ! j))"
    and si_history_reads: "j < ncom s \<Longrightarrow> \<forall>r \<in> set (c_reads (si_com s ! j)). si_read_ok s (unat (c_txid (si_com s ! j))) r"
      "j < ncom s \<Longrightarrow> tx_reads (coms s ! j) = si_vals_of s (c_reads (si_com s ! j))"
      "j < ncom s \<Longrightarrow> unat (c_txid (si_com s ! j)) \<le> Suc j"
proof -
  note h = assms [unfolded si_history_def]
  note h2 = conjunct2 [OF h] and h3 = conjunct2 [OF conjunct2 [OF h]] and h4 = conjunct2 [OF conjunct2 [OF conjunct2 [OF h]]]
  show "a \<in> set (si_hist s k) \<Longrightarrow> vval s a = serial_db d (take (vcs s a) (coms s)) k"
    using conjunct1 [OF h] by blast
  show "i < ncom s \<Longrightarrow> k \<in> fst ` set (tx_writes (coms s ! i)) \<Longrightarrow> i < vcs s (hd (si_hist s k)) \<or>
        (\<exists>w. si_committing (si_pcs s w) \<and> unat (x_cstamp (si_txs s w)) = Suc i \<and> k \<in> e_key ` set (si_pend s w))"
    using conjunct1 [OF h2, rule_format, of i k] by simp
  show "i < j \<Longrightarrow> j < ncom s \<Longrightarrow> k \<in> fst ` set (tx_writes (coms s ! i)) \<Longrightarrow>
        k \<in> fst ` set (tx_writes (coms s ! j)) \<Longrightarrow> i < unat (c_txid (si_com s ! j))"
    using conjunct1 [OF h3, rule_format, of i j k] by simp
  show "j < ncom s \<Longrightarrow> \<forall>r \<in> set (c_reads (si_com s ! j)). si_read_ok s (unat (c_txid (si_com s ! j))) r"
      "j < ncom s \<Longrightarrow> tx_reads (coms s ! j) = si_vals_of s (c_reads (si_com s ! j))"
      "j < ncom s \<Longrightarrow> unat (c_txid (si_com s ! j)) \<le> Suc j"
    using h4 by simp_all
qed

lemma si_owned_history:
  assumes good: "si_good c d s" and own: "si_owned c w e s t" and dn: "si_done w e s t"
    and installed: "vst t (e_ver e) = VCommitted \<Longrightarrow> \<exists>i < ncom s. vcs t (e_ver e) = Suc i \<and>
        unat (x_cstamp (si_txs s w)) = Suc i \<and> distinct (map fst (tx_writes (coms s ! i))) \<and>
        (e_key e, \<lambda>_. vval t (e_ver e)) \<in> set (tx_writes (coms s ! i))"
  shows "si_history d t"
proof -
  note heap = si_good_heap [OF good] and h = si_good_history [OF good] and same = si_owned_same [OF own]
    and hist = si_owned_hist [OF own] and ev = si_owned_evolve [OF good own]
  let ?a = "e_ver e" and ?k = "e_key e"
  have val: "vval t a = serial_db d (take (vcs t a) (coms s)) k" if a: "a \<in> set (si_hist t k)" for a k
  proof (cases "a \<in> set (si_hist s k)")
    case True
    then show ?thesis using si_owned_hist_vers [OF good own True] si_history_val [OF h True] by simp
  next
    case False
    with a hist [of k] have *: "vst t ?a = VCommitted" "k = ?k" "a = ?a" by (auto split: if_splits)
    obtain i where i: "i < ncom s" "vcs t ?a = Suc i" "distinct (map fst (tx_writes (coms s ! i)))"
      "(?k, \<lambda>_. vval t ?a) \<in> set (tx_writes (coms s ! i))" using installed [OF *(1)] by blast
    have "take (Suc i) (coms s) = take i (coms s) @ [coms s ! i]" using i(1) by (simp add: take_Suc_conv_app_nth)
    then show ?thesis using apply_tx_in [OF i(3,4)] * i(2) by simp
  qed
  have pend: "i < vcs t (hd (si_hist t k)) \<or>
      (\<exists>v. si_committing (si_pcs t v) \<and> unat (x_cstamp (si_txs t v)) = Suc i \<and> k \<in> e_key ` set (si_pend t v))"
    if i: "i < ncom s" "k \<in> fst ` set (tx_writes (coms s ! i))" for i k
    using si_history_pend [OF h i]
  proof
    assume lt: "i < vcs s (hd (si_hist s k))"
    have "vcs s (hd (si_hist s k)) \<le> vcs t (hd (si_hist t k))"
      using hist [of k] si_owned_com(1) [OF own] si_owned_hist_vers [OF good own si_heap_hd_in [OF heap, of k]]
      by (auto split: if_splits)
    with lt show ?thesis by simp
  next
    assume "\<exists>v. si_committing (si_pcs s v) \<and> unat (x_cstamp (si_txs s v)) = Suc i \<and> k \<in> e_key ` set (si_pend s v)"
    then obtain v where v: "si_committing (si_pcs s v)" "unat (x_cstamp (si_txs s v)) = Suc i"
      "k \<in> e_key ` set (si_pend s v)" by blast
    show ?thesis
    proof (cases "v = w")
      case False
      have "si_committing (si_pcs t v) \<and> unat (x_cstamp (si_txs t v)) = Suc i \<and> k \<in> e_key ` set (si_pend t v)"
        using v unfolding si_owned_other(1,2) [OF own False] by blast
      then show ?thesis by blast
    next
      case True
      then have w: "si_committing (si_pcs t w)" "unat (x_cstamp (si_txs t w)) = Suc i"
        using v dn by (simp_all add: si_done_def si_core_def)
      show ?thesis
      proof (cases "k \<in> e_key ` set (si_pend t w)")
        case True
        with w show ?thesis by blast
      next
        case False
        with dn v True have *: "vst t ?a = VCommitted" "k = ?k" by (auto simp: si_done_def)
        with installed v(2) True have "vcs t ?a = Suc i" by auto
        with * hist [of k] show ?thesis by simp
      qed
    qed
  qed
  have reads: "si_vals_of t (c_reads (si_com s ! j)) = si_vals_of s (c_reads (si_com s ! j))" if "j < ncom s" for j
    using si_vals_of_evolve [OF heap ev si_history_reads(1) [OF h that]] .
  show ?thesis
    unfolding si_history_def same
  proof (intro conjI)
    show "\<forall>k. \<forall>a\<in>set (si_hist t k). vval t a = serial_db d (take (vcs t a) (coms s)) k" using val by blast
    show "\<forall>i k. i < ncom s \<longrightarrow> k \<in> fst ` set (tx_writes (coms s ! i)) \<longrightarrow>
        i < vcs t (hd (si_hist t k)) \<or>
        (\<exists>v. si_committing (si_pcs t v) \<and> unat (x_cstamp (si_txs t v)) = Suc i \<and> k \<in> e_key ` set (si_pend t v))"
      using pend by blast
    show "\<forall>i j k. i < j \<longrightarrow> j < ncom s \<longrightarrow> k \<in> fst ` set (tx_writes (coms s ! i)) \<longrightarrow>
        k \<in> fst ` set (tx_writes (coms s ! j)) \<longrightarrow> i < unat (c_txid (si_com s ! j))"
      using si_history_order [OF h] by blast
    show "\<forall>j<ncom s. (\<forall>r\<in>set (c_reads (si_com s ! j)). si_read_ok t (unat (c_txid (si_com s ! j))) r) \<and>
        tx_reads (coms s ! j) = si_vals_of t (c_reads (si_com s ! j)) \<and> unat (c_txid (si_com s ! j)) \<le> Suc j"
      using si_history_reads [OF h] reads si_read_ok_evolve [OF heap ev] by simp
  qed
qed

lemma si_owned_wk:
  assumes good: "si_good c d s" and own: "si_owned c w e s t" and dn: "si_done w e s t"
    and pc: "si_pc_ok t w (si_pcs t w)"
  shows "si_wk c t w"
proof -
  note wk = si_good_wk [OF good, of w] and heap = si_good_heap [OF good] and same = si_owned_same [OF own]
    and ev = si_owned_evolve [OF good own] and core = si_done_core [OF dn, unfolded si_core_def]
  have idle: "\<not> si_idle (si_pcs s w)" "\<not> si_idle (si_pcs t w)" using dn by (simp_all add: si_done_def)
  have sub: "f \<in> set (si_pend s w)" "vst t (e_ver f) = vst s (e_ver f)" "si_hist t (e_key f) = si_hist s (e_key f)"
    if f: "f \<in> set (si_pend t w)" for f
  proof -
    show s: "f \<in> set (si_pend s w)" using si_done_pend [OF dn f] .
    have pub: "si_pub s (e_ver f) = Some (e_key f)" using si_wk_pend [OF wk s] by (simp add: si_pend_ok_def)
    show "vst t (e_ver f) = vst s (e_ver f)" "si_hist t (e_key f) = si_hist s (e_key f)"
    proof -
      have *: "vst t (e_ver e) = VInFlight \<or> e_key f \<noteq> e_key e"
        using dn imageI [OF f, of e_key] si_wk_pend_distinct [OF wk] by (auto simp: si_done_def)
      then show "si_hist t (e_key f) = si_hist s (e_key f)" using si_owned_hist [OF own, of "e_key f"] by auto
      from * pub si_owned_version(1,2) [OF good own] si_owned_vers [OF own, of "e_ver f"]
      show "vst t (e_ver f) = vst s (e_ver f)" by (cases "e_ver f = e_ver e") auto
    qed
  qed
  have 1: "si_pend_ok t (unat (x_txid (si_txs s w))) f" if "f \<in> set (si_pend t w)" for f
    by (rule si_pend_ok_frame [OF heap ev si_wk_pend [OF wk sub(1)]]) (simp_all add: sub that same)
  have 2: "si_commit_ok t (si_txs s w) (si_pend t w)" if "si_committing (si_pcs t w)"
  proof -
    have "si_commit_ok s (si_txs s w) (si_pend s w)" using si_wk_commit [OF wk] that dn by (simp add: si_done_def)
    then have "si_commit_ok s (si_txs s w) (si_pend t w)" using sub(1) unfolding si_commit_ok_def by meson
    then show ?thesis by (rule si_commit_ok_frame [OF heap ev]) (rule sub(3))
  qed
  then have 2: "si_commit_ok t (si_txs t w) (si_pend t w)" if "si_committing (si_pcs t w)"
    using that core unfolding si_commit_ok_def by simp
  have 3: "distinct (map e_key (si_pend t w))" using dn si_wk_pend_distinct [OF wk] by (auto simp: si_done_def)
  note reads = si_wk_reads [OF wk idle(1)]
  show ?thesis
    unfolding si_wk_def Let_def same
    using 1 2 3 core idle pc si_wk_val [OF wk] si_wk_rset [OF wk] si_wk_wset [OF wk] si_wk_txid [OF wk]
      si_wk_cstamp [OF wk] si_read_ok_evolve [OF heap ev] reads si_vals_of_evolve [OF heap ev reads]
      si_wk_vals [OF wk idle(1)] si_wk_priv [OF wk] by auto
qed

lemma si_good_owned:
  assumes "si_good c d s" "si_owned c w e s t" "si_done w e s t" "si_history d t" "si_pc_ok t w (si_pcs t w)"
  shows "si_good c d t"
proof -
  have "si_clock t" using si_good_clock [OF assms(1)] by (simp add: si_clock_def si_owned_same [OF assms(2)])
  then show ?thesis
    using si_good_move [OF assms(1) si_owned_evolve [OF assms(1,2)] si_owned_keeps [OF assms(1,2)]
      si_owned_heap [OF assms(1,2)] assms(4) si_owned_own [OF assms(1-3)] _ si_owned_wk [OF assms(1-3,5)]] by blast
qed

end
