(* ===== verification/Si_Steps.thy ===== *)
theory Si_Steps
  imports Si_Publish
begin

text \<open>Every step of the snapshot isolation executor keeps its invariant.\<close>

section \<open>Installing and aborting versions\<close>

lemma si_owned_history_same:
  assumes "si_good c d s" "si_owned c w e s t" "si_done w e s t" "vst t (e_ver e) \<noteq> VCommitted"
  shows "si_history d t"
  using si_owned_history [OF assms(1-3)] assms(4) by blast

lemma si_good_commit_stamp:
  assumes good: "si_good c d s" and pc: "si_pcs s w = SCommitStamp (e # es)"
  shows "si_good c d (si_commit_stamp w (e # es) s)"
proof -
  let ?t = "si_commit_stamp w (e # es) s"
  note heap = si_good_heap [OF good] and wk = si_good_wk [OF good, of w]
  have inf: "vst s (e_ver e) = VInFlight" using si_wk_pend [OF wk, of e] pc by (simp add: si_pend_ok_def)
  note defs = si_commit_stamp_def si_upd_defs Let_def
  have own: "si_owned c w e s ?t"
    using si_heap_len [OF heap] inf by (simp add: si_owned_def defs pc si_priv_def)
  have dn: "si_done w e s ?t" using inf by (simp add: si_done_def defs pc)
  show ?thesis
    by (rule si_good_owned [OF good own dn si_owned_history_same [OF good own dn]])
      (simp_all add: defs inf si_pc_ok_def)
qed

lemma si_good_commit_copy:
  assumes good: "si_good c d s" and pc: "si_pcs s w = SCommitCopy e es"
  shows "si_good c d (si_commit_copy c w e es s)"
proof -
  let ?t = "si_commit_copy c w e es s"
  note heap = si_good_heap [OF good] and wk = si_good_wk [OF good, of w]
  have inf: "vst s (e_ver e) = VInFlight" using si_wk_pend [OF wk, of e] pc by (simp add: si_pend_ok_def)
  have val: "memcpy (vval s (e_ver e)) (x_write_val (si_txs s w)) (si_val_size c) = x_write_val (si_txs s w)"
    using memcpy_full [OF si_wk_val [OF wk] si_heap_len [OF heap]] .
  have cs: "v_cstamp (si_vers s (e_ver e)) = x_cstamp (si_txs s w)"
    using si_wk_pc [OF wk] pc by (simp add: si_pc_ok_def Let_def)
  note defs = si_commit_copy_def si_upd_defs Let_def val
  have own: "si_owned c w e s ?t"
    using si_wk_val [OF wk] inf by (simp add: si_owned_def defs pc si_priv_def)
  have dn: "si_done w e s ?t" using inf by (simp add: si_done_def defs pc)
  show ?thesis
    by (rule si_good_owned [OF good own dn si_owned_history_same [OF good own dn]])
      (simp_all add: defs inf si_pc_ok_def cs)
qed

lemma si_good_commit_mark:
  assumes good: "si_good c d s" and pc: "si_pcs s w = SCommitMark e es"
  shows "si_good c d (si_commit_mark w e es s)"
proof -
  let ?t = "si_commit_mark w e es s" and ?a = "e_ver e" and ?k = "e_key e"
  note heap = si_good_heap [OF good] and wk = si_good_wk [OF good, of w]
  have key: "si_pend_ok s (unat (x_txid (si_txs s w))) e" using si_wk_pend [OF wk, of e] pc by simp
  have cs: "v_cstamp (si_vers s ?a) = x_cstamp (si_txs s w)" "vval s ?a = x_write_val (si_txs s w)"
    using si_wk_pc [OF wk] pc by (simp_all add: si_pc_ok_def Let_def)
  have "si_commit_ok s (si_txs s w) (e # es)" using si_wk_commit [OF wk] pc by simp
  then obtain i where i: "i < ncom s" "unat (x_cstamp (si_txs s w)) = Suc i" "vcs s (hd (si_hist s ?k)) \<le> i"
    "(?k, \<lambda>_. x_write_val (si_txs s w)) \<in> set (tx_writes (coms s ! i))" "distinct (map fst (tx_writes (coms s ! i)))"
    unfolding si_commit_ok_def by auto
  note defs = si_commit_mark_def si_upd_defs Let_def si_gc_push_def
  have own: "si_owned c w e s ?t"
    using si_wk_val [OF wk] i cs by (simp add: si_owned_def defs pc si_priv_def)
  have dn: "si_done w e s ?t" using cs by (simp add: si_done_def defs pc si_core_def)
  have "si_history d ?t"
    by (rule si_owned_history [OF good own dn]) (use i cs in \<open>auto simp: defs\<close>)
  then show ?thesis
    by (rule si_good_owned [OF good own dn]) (simp_all add: defs si_pc_ok_def)
qed

lemma si_good_abort:
  assumes good: "si_good c d s" and pc: "si_pcs s w = SAbort (e # es)"
  shows "si_good c d (si_abort w (e # es) s)"
proof -
  let ?t = "si_abort w (e # es) s"
  note heap = si_good_heap [OF good]
  note defs = si_abort_def si_upd_defs Let_def si_gc_push_def
  have own: "si_owned c w e s ?t"
    using si_heap_len [OF heap] by (simp add: si_owned_def defs pc si_priv_def)
  have dn: "si_done w e s ?t" by (simp add: si_done_def defs pc si_core_def)
  show ?thesis
    by (rule si_good_owned [OF good own dn si_owned_history_same [OF good own dn]])
      (simp_all add: defs si_pc_ok_def)
qed

section \<open>Commit\<close>

lemma si_heap_more:
  assumes heap: "si_heap c s" and same: "si_table t = si_table s" "si_vers t = si_vers s" "si_hist t = si_hist s"
      "si_pub t = si_pub s" and le: "si_next t = si_next s" "ncom s \<le> ncom t"
  shows "si_heap c t"
  unfolding si_heap_def same le(1)
proof (intro conjI allI impI ballI)
  fix k
  show "si_chain (si_vers s) (si_hist s k)" by (rule si_heap_chain [OF heap])
  show "vcs s (hd (si_hist s k)) \<le> ncom t" using si_heap_head [OF heap, of k] le(2) by simp
  show "si_pub s (t_latest (si_table s k)) = Some k" by (rule si_heap_latest [OF heap])
  show "if vst s (t_latest (si_table s k)) = VCommitted then t_latest (si_table s k) = hd (si_hist s k)
      else vcp s (t_latest (si_table s k)) = Some (hd (si_hist s k))"
    using si_heap_top [OF heap] si_heap_under [OF heap] by simp
  fix a
  show "a \<in> set (si_hist s k) \<Longrightarrow> si_pub s a = Some k" by (rule si_heap_pub [OF heap])
  assume a: "si_pub s a = Some k"
  show "a < si_next s" by (rule si_heap_next [OF heap a])
  show "if vst s a = VCommitted then a \<in> set (si_hist s k) else \<exists>b\<in>set (si_hist s k). vcp s a = Some b"
    using si_heap_com [OF heap a] si_heap_below [OF heap a] by simp
qed (rule si_heap_len [OF heap])

lemma si_good_commit:
  assumes good: "si_good c d s" and pc: "si_pcs s w = SCalls []" and n: "ncom s < 2 ^ 32 - 2"
  shows "si_good c d (si_commit w s)"
proof -
  let ?t = "si_commit w s" and ?x = "si_txs s w"
  note heap = si_good_heap [OF good] and wk = si_good_wk [OF good, of w] and h = si_good_history [OF good]
  note defs = si_commit_def si_upd_defs Let_def
  define r where "r = \<lparr>tx_reads = si_vals s w, tx_writes = map (\<lambda>e. (e_key e, \<lambda>_ :: val. x_write_val ?x)) (x_wset ?x)\<rparr>"
  define n' where "n' = ncom s"
  have idle: "\<not> si_idle (si_pcs s w)" by (simp add: pc)
  have com: "si_com ?t = si_com s @ [\<lparr>c_txid = x_txid ?x, c_reads = si_reads s w, c_rec = r\<rparr>]"
    by (simp add: defs r_def)
  have cst: "unat (x_cstamp (si_txs ?t w)) = Suc n'"
    using si_good_clock [OF good] n
    by (simp add: defs si_clock_def unsigned_ucast_eq unat_word_ariths n'_def unsigned_of_nat take_bit_nat_eq_self)
  have same: "si_table ?t = si_table s" "si_vers ?t = si_vers s" "si_hist ?t = si_hist s" "si_pub ?t = si_pub s"
    "si_next ?t = si_next s" "si_tmts ?t = si_tmts s" "si_reads ?t = si_reads s" "si_vals ?t = si_vals s"
    "si_old ?t = si_old s"
    by (simp_all add: defs)
  have ok: "si_read_ok ?t m q = si_read_ok s m q" "si_vals_of ?t rs = si_vals_of s rs" for m q rs
    by (simp_all add: si_read_ok_def si_vals_of_def si_newest_def same)
  have other: "si_txs ?t v = si_txs s v" "si_pcs ?t v = si_pcs s v" if "v \<noteq> w" for v using that by (simp_all add: defs)
  have pend: "si_pend ?t v = si_pend s v" and priv: "si_priv ?t v = si_priv s v" for v
    using other [of v] by (cases "v = w"; simp add: defs pc si_priv_def)+
  have ev: "si_evolve s ?t" using com by (simp add: si_evolve_def same)
  have keeps: "si_keeps v s ?t" if "v \<noteq> w" for v
    using other [OF that] si_wk_priv(2) [OF si_good_wk [OF good, of v]] by (simp add: si_keeps_def same)
  have heap': "si_heap c ?t"
    by (rule si_heap_more [OF heap]) (simp_all add: same com)
  have own: "si_own ?t" using si_good_own [OF good] unfolding si_own_def pend priv .
  have clock: "si_clock ?t" using si_good_clock [OF good] by (auto simp: si_clock_def com same le_Suc_eq) (simp add: defs)
  have wpend: "si_pend s w = x_wset ?x" by (simp add: pc)
  have keys: "fst ` set (tx_writes r) = e_key ` set (x_wset ?x)" by (force simp: r_def)
  have nth: "coms ?t ! i = (if i < n' then coms s ! i else r)" "si_com ?t ! i = (if i < n' then si_com s ! i
      else \<lparr>c_txid = x_txid ?x, c_reads = si_reads s w, c_rec = r\<rparr>)" if "i < Suc n'" for i
    using that by (auto simp: com n'_def nth_append less_Suc_eq)
  have len: "ncom ?t = Suc n'" by (simp add: com n'_def)
  have pcw: "si_pcs ?t w = SCommitStamp (x_wset ?x)" by (simp add: defs)
  have hist: "si_history d ?t"
    unfolding si_history_def same len
  proof (intro conjI allI impI ballI)
    fix k a assume a: "a \<in> set (si_hist s k)"
    have "vcs s a \<le> n'" using si_heap_hist(3) [OF heap a] by (simp add: n'_def)
    then show "vval s a = serial_db d (take (vcs s a) (coms ?t)) k"
      using si_history_val [OF h a] by (simp add: com n'_def)
  next
    fix i k assume i: "i < Suc n'" "k \<in> fst ` set (tx_writes (coms ?t ! i))"
    show "i < vcs s (hd (si_hist s k)) \<or>
       (\<exists>v. si_committing (si_pcs ?t v) \<and> unat (x_cstamp (si_txs ?t v)) = Suc i \<and> k \<in> e_key ` set (si_pend ?t v))"
    proof (cases "i < n'")
      case True
      with i nth(1) have "k \<in> fst ` set (tx_writes (coms s ! i))" by simp
      with True si_history_pend [OF h] have "i < vcs s (hd (si_hist s k)) \<or>
        (\<exists>v. si_committing (si_pcs s v) \<and> unat (x_cstamp (si_txs s v)) = Suc i \<and> k \<in> e_key ` set (si_pend s v))"
        by (simp add: n'_def)
      moreover have "v \<noteq> w" if "si_committing (si_pcs s v)" for v using that pc by auto
      ultimately show ?thesis using other pend by metis
    next
      case False
      with i nth(1) have k: "k \<in> e_key ` set (si_pend ?t w)" and n': "i = n'" by (simp_all add: keys pend wpend)
      show ?thesis
      proof (intro disjI2 exI [of _ w] conjI)
        show "k \<in> e_key ` set (si_pend ?t w)" by (rule k)
      qed (simp_all add: cst pcw n')
    qed
  next
    fix i j k assume ij: "i < j" "j < Suc n'" "k \<in> fst ` set (tx_writes (coms ?t ! i))" "k \<in> fst ` set (tx_writes (coms ?t ! j))"
    have i: "k \<in> fst ` set (tx_writes (coms s ! i))" "i < n'" using ij nth(1) [of i] by simp_all
    show "i < unat (c_txid (si_com ?t ! j))"
    proof (cases "j < n'")
      case True
      then show ?thesis using si_history_order [OF h ij(1), of k] i ij nth [of j] by (simp add: n'_def)
    next
      case False
      with ij nth [of j] have k: "k \<in> e_key ` set (si_pend s w)" and j: "c_txid (si_com ?t ! j) = x_txid ?x"
        by (simp_all add: keys wpend)
      then obtain e where e: "e \<in> set (si_pend s w)" "e_key e = k" by auto
      have le: "vcs s (hd (si_hist s k)) \<le> unat (x_txid ?x)" using si_wk_pend [OF wk e(1)] e(2) by (simp add: si_pend_ok_def)
      have "\<not> (\<exists>v. si_committing (si_pcs s v) \<and> unat (x_cstamp (si_txs s v)) = Suc i \<and> k \<in> e_key ` set (si_pend s v))"
        using si_own_pend [OF si_good_own [OF good]] k pc by (metis si_committing.simps(12))
      then have "i < vcs s (hd (si_hist s k))" using si_history_pend [OF h _ i(1)] i(2) by (auto simp: n'_def)
      with le j show ?thesis by simp
    qed
  next
    fix j assume j: "j < Suc n'"
    show "si_read_ok ?t (unat (c_txid (si_com ?t ! j))) q" if "q \<in> set (c_reads (si_com ?t ! j))" for q
      using nth(2) [OF j] si_history_reads(1) [OF h, of j] si_wk_reads [OF wk idle] that
      by (auto simp: ok n'_def split: if_splits)
    show "tx_reads (coms ?t ! j) = si_vals_of ?t (c_reads (si_com ?t ! j))"
      using nth [OF j] si_history_reads(2) [OF h, of j] si_wk_vals [OF wk idle] by (auto simp: ok n'_def r_def split: if_splits)
    show "unat (c_txid (si_com ?t ! j)) \<le> Suc j"
      using nth(2) [OF j] si_history_reads(3) [OF h, of j] si_wk_txid [OF wk] j by (auto simp: n'_def split: if_splits)
  qed
  have commit: "si_commit_ok ?t (si_txs ?t w) (x_wset ?x)"
    unfolding si_commit_ok_def
  proof (intro exI [of _ n'] conjI ballI)
    fix e assume e: "e \<in> set (x_wset ?x)"
    show "vcs ?t (hd (si_hist ?t (e_key e))) \<le> n'" using si_heap_head [OF heap, of "e_key e"] by (simp add: same n'_def)
    show "(e_key e, \<lambda>_. x_write_val (si_txs ?t w)) \<in> set (tx_writes (coms ?t ! n'))"
      using e nth(1) [of n'] by (auto simp: r_def defs)
    show "distinct (map fst (tx_writes (coms ?t ! n')))"
      using nth(1) [of n'] si_wk_wset [OF wk] by (simp add: r_def comp_def)
  qed (use cst len in simp_all)
  have pendok: "si_pend_ok ?t m e = si_pend_ok s m e" for m e by (simp add: si_pend_ok_def same)
  have xt: "x_write_val (si_txs ?t w) = x_write_val ?x" "x_rset (si_txs ?t w) = x_rset ?x"
    "x_wset (si_txs ?t w) = x_wset ?x" "x_txid (si_txs ?t w) = x_txid ?x"
    by (simp_all add: defs)
  have "unat (x_txid ?x) \<le> Suc n'" using si_wk_txid [OF wk] by (simp add: n'_def)
  then have "si_wk c ?t w"
    unfolding si_wk_def Let_def pend priv ok pendok same len wpend xt pcw cst
    using commit si_wk_val [OF wk] si_wk_rset [OF wk] si_wk_wset [OF wk]
      si_wk_reads [OF wk idle] si_wk_vals [OF wk idle] si_wk_priv [OF wk] si_wk_pend [OF wk, unfolded wpend]
    by (simp add: si_pc_ok_def)
  then show ?thesis using si_good_move [OF good ev keeps heap' hist own clock] by blast
qed

section \<open>Publication of a version\<close>

lemma si_good_write_cas:
  assumes good: "si_good c d s" and pc: "si_pcs s w = SWriteCas k p dv e rest"
  shows "si_good c d (si_write_cas w k p dv e rest s)"
proof (cases "t_latest (si_table s p) = e")
  case False
  have "si_pc_ok s w (SWriteCas k p dv e rest)" using si_wk_pc [OF si_good_wk [OF good], of w] pc by simp
  with False show ?thesis
    using si_heap_latest [OF si_good_heap [OF good], of p] unfolding si_write_cas_def
    by (auto intro!: si_good_goto [OF good] simp: pc si_pc_ok_def Let_def)
next
  case True
  let ?t = "si_write_cas w k p dv e rest s" and ?x = "si_txs s w"
  note heap = si_good_heap [OF good] and wk = si_good_wk [OF good, of w] and h = si_good_history [OF good]
  define el where "el = \<lparr>e_key = k, e_rcdptr = p, e_ver = dv\<rparr>"
  have "si_pc_ok s w (SWriteCas k p dv e rest)" using si_wk_pc [OF wk] pc by simp
  then obtain v where new: "p = k" "k \<notin> e_key ` set (x_wset ?x)" "vst s dv = VInFlight"
    and below: "si_below s k e v" "vcp s dv = Some v" "vcs s v \<le> unat (x_txid ?x)"
    by (auto simp: si_pc_ok_def Let_def si_new_def)
  have e: "t_latest (si_table s k) = e" "vst s e \<noteq> VInFlight" using True new(1) below(1) by (simp_all add: si_below_def)
  have v: "v = hd (si_hist s k)"
    using below(1) si_heap_top [OF heap, of k] si_heap_under [OF heap, of k] e by (auto simp: si_below_def split: if_splits)
  note defs = si_write_cas_def si_upd_defs Let_def True new(1)
  have t: "?t = s\<lparr>si_txs := (si_txs s)(w := ?x\<lparr>x_wset := x_wset ?x @ [el]\<rparr>), si_pcs := (si_pcs s)(w := SCalls rest),
      si_table := (si_table s)(k := (si_table s k)\<lparr>t_latest := dv\<rparr>), si_pub := (si_pub s)(dv := Some k)\<rparr>"
    using True by (simp add: si_write_cas_def si_upd_def Let_def new(1) el_def)
  have privs: "dv \<in> set (si_priv s w)" "si_priv s w = dv # si_priv ?t w" by (simp_all add: si_priv_def pc t)
  have pub: "si_pub s dv = None" "dv < si_next s" using si_wk_priv(2,3) [OF wk privs(1)] .
  have same: "si_vers ?t = si_vers s" "si_hist ?t = si_hist s" "si_com ?t = si_com s" "si_next ?t = si_next s"
    "si_CCtr ?t = si_CCtr s" "si_tmts ?t = si_tmts s" "si_reads ?t = si_reads s" "si_vals ?t = si_vals s"
    "si_old ?t = si_old s" "si_table ?t = (si_table s)(k := (si_table s k)\<lparr>t_latest := dv\<rparr>)"
    "si_pub ?t = (si_pub s)(dv := Some k)" "si_pcs ?t w = SCalls rest"
    "si_txs ?t w = ?x\<lparr>x_wset := x_wset ?x @ [el]\<rparr>"
    by (simp_all add: t)
  have other: "si_txs ?t u = si_txs s u" "si_pcs ?t u = si_pcs s u" if "u \<noteq> w" for u using that by (simp_all add: t)
  have ok: "si_read_ok ?t m q = si_read_ok s m q" "si_vals_of ?t rs = si_vals_of s rs" for m q rs
    by (simp_all add: si_read_ok_def si_vals_of_def si_newest_def same)
  have pubne: "a \<noteq> dv" if "si_pub s a = Some k'" for a k' using that pub(1) by auto
  have free: "e_key f \<noteq> k" if "f \<in> set (si_pend s u)" for f u
    using si_wk_pend [OF si_good_wk [OF good] that] e by (auto simp: si_pend_ok_def)
  have pend: "si_pend ?t w = si_pend s w @ [el]" "si_pend s w = x_wset ?x" by (simp_all add: same pc)
  have pend': "si_pend ?t u = si_pend s u" "si_priv ?t u = si_priv s u" if "u \<noteq> w" for u
    using other [OF that] by (simp_all add: si_priv_def)
  have ev: "si_evolve s ?t" using pub(1) by (auto simp: si_evolve_def same)
  have keeps: "si_keeps u s ?t" if "u \<noteq> w" for u
    using other [OF that] si_wk_priv(2) [OF si_good_wk [OF good, of u]] free [of _ u]
      si_own_priv [OF si_good_own [OF good] that] privs(1) by (auto simp: si_keeps_def same)
  have heap': "si_heap c ?t"
    unfolding si_heap_def same(1-4)
  proof (intro conjI allI impI ballI)
    fix a k' assume a: "si_pub ?t a = Some k'"
    show "a < si_next s" using a si_heap_next [OF heap, of a k'] pub(2) by (auto simp: same split: if_splits)
    show "if vst s a = VCommitted then a \<in> set (si_hist s k') else \<exists>b\<in>set (si_hist s k'). vcp s a = Some b"
      using a si_heap_com [OF heap, of a k'] si_heap_below [OF heap, of a k'] new(3) below(2) si_heap_hd_in [OF heap, of k]
      by (auto simp: same v split: if_splits)
  next
    fix k'
    show "si_pub ?t (t_latest (si_table ?t k')) = Some k'"
      using si_heap_latest [OF heap, of k'] pubne by (auto simp: same)
    show "if vst s (t_latest (si_table ?t k')) = VCommitted then t_latest (si_table ?t k') = hd (si_hist s k')
      else vcp s (t_latest (si_table ?t k')) = Some (hd (si_hist s k'))"
      using si_heap_top [OF heap, of k'] si_heap_under [OF heap, of k'] new(3) below(2) by (auto simp: same v)
  next
    fix k' a assume "a \<in> set (si_hist s k')"
    then show "si_pub ?t a = Some k'" using si_heap_pub [OF heap] pub(1) by (fastforce simp: same)
  next
    fix k'
    show "si_chain (si_vers s) (si_hist s k')" by (rule si_heap_chain [OF heap])
    show "vcs s (hd (si_hist s k')) \<le> ncom s" by (rule si_heap_head [OF heap])
  next
    fix a show "length (vval s a) = si_val_size c" by (rule si_heap_len [OF heap])
  qed
  have com: "\<not> si_committing (si_pcs s w)" by (simp add: pc)
  have hist: "si_history d ?t"
    unfolding si_history_def same(1-4) ok
  proof (intro conjI)
    show "\<forall>i k. i < ncom s \<longrightarrow> k \<in> fst ` set (tx_writes (coms s ! i)) \<longrightarrow> i < vcs s (hd (si_hist s k)) \<or>
        (\<exists>v. si_committing (si_pcs ?t v) \<and> unat (x_cstamp (si_txs ?t v)) = Suc i \<and> k \<in> e_key ` set (si_pend ?t v))"
    proof (intro allI impI)
      fix i k' assume "i < ncom s" "k' \<in> fst ` set (tx_writes (coms s ! i))"
      from si_history_pend [OF h this] show "i < vcs s (hd (si_hist s k')) \<or>
        (\<exists>v. si_committing (si_pcs ?t v) \<and> unat (x_cstamp (si_txs ?t v)) = Suc i \<and> k' \<in> e_key ` set (si_pend ?t v))"
      proof (elim disjE exE conjE)
        fix v assume v: "si_committing (si_pcs s v)" "unat (x_cstamp (si_txs s v)) = Suc i" "k' \<in> e_key ` set (si_pend s v)"
        have "v \<noteq> w" using v(1) com by auto
        note o = other [OF this]
        show ?thesis
        proof (intro disjI2 exI [of _ v] conjI)
          show "k' \<in> e_key ` set (si_pend ?t v)" unfolding o by (rule v(3))
        qed (simp_all add: o v(1,2))
      qed simp
    qed
    show "\<forall>i j k. i < j \<longrightarrow> j < ncom s \<longrightarrow> k \<in> fst ` set (tx_writes (coms s ! i)) \<longrightarrow>
        k \<in> fst ` set (tx_writes (coms s ! j)) \<longrightarrow> i < unat (c_txid (si_com s ! j))"
      using si_history_order [OF h] by blast
  qed (use si_history_val [OF h] si_history_reads [OF h] in auto)
  have own: "si_own ?t"
    unfolding si_own_def
  proof (intro allI impI conjI)
    fix u u' :: nat assume ne: "u \<noteq> u'"
    have cases: "(x = k \<and> u = w) \<or> (x \<noteq> k \<and> x \<in> e_key ` set (si_pend s u))" if "x \<in> e_key ` set (si_pend ?t u)" for x u
    proof (cases "u = w")
      case True
      with that have "x \<in> insert k (e_key ` set (si_pend s w))" by (auto simp: pend(1) el_def)
      with True show ?thesis using free [of _ w] by auto
    next
      case False
      with that pend'(1) [OF False] show ?thesis using free [of _ u] by auto
    qed
    show "e_key ` set (si_pend ?t u) \<inter> e_key ` set (si_pend ?t u') = {}"
    proof (rule equals0I)
      fix x assume "x \<in> e_key ` set (si_pend ?t u) \<inter> e_key ` set (si_pend ?t u')"
      then have "x \<in> e_key ` set (si_pend ?t u)" "x \<in> e_key ` set (si_pend ?t u')" by simp_all
      from cases [OF this(1)] cases [OF this(2)] ne have "x \<in> e_key ` set (si_pend s u)" "x \<in> e_key ` set (si_pend s u')"
        by auto
      with si_own_pend [OF si_good_own [OF good] ne] show False by blast
    qed
    have "set (si_priv ?t u) \<subseteq> set (si_priv s u)" for u using pend'(2) [of u] privs(2) by (cases "u = w") auto
    then show "set (si_priv ?t u) \<inter> set (si_priv ?t u') = {}"
      using si_own_priv [OF si_good_own [OF good] ne] by blast
  qed
  have clock: "si_clock ?t" using si_good_clock [OF good] by (simp add: si_clock_def same)
  have idle: "\<not> si_idle (si_pcs s w)" by (simp add: pc)
  have pok: "si_pend_ok ?t (unat (x_txid ?x)) f" if "f \<in> set (si_pend s w)" for f
    using si_wk_pend [OF wk that] free [OF that] pubne by (auto simp: si_pend_ok_def same)
  have "si_pend_ok ?t (unat (x_txid ?x)) el" 
    unfolding si_pend_ok_def same el_def using new below v by simp
  then have "si_wk c ?t w"
    unfolding si_wk_def Let_def pend(1) ok same(3,4)
    using pok pend(2) si_wk_val [OF wk] si_wk_rset [OF wk] si_wk_wset [OF wk] si_wk_txid [OF wk]
      si_wk_cstamp [OF wk] si_wk_reads [OF wk idle] si_wk_vals [OF wk idle] si_wk_priv [OF wk] privs(2) new(2)
    by (auto simp: same si_pc_ok_def el_def)
  then show ?thesis using si_good_move [OF good ev keeps heap' hist own clock] by blast
qed

section \<open>The invariant\<close>

lemma si_good_step:
  assumes good: "si_good c d s" and n: "ncom s < 2 ^ 32 - 2"
  shows "si_good c d (si_step c w pro s)"
proof (cases "si_pcs s w")
  case SMake
  then show ?thesis
    using si_good_make [OF good SMake] si_good_goto [OF good, of w SStop]
    by (simp add: si_step_def Let_def si_pc_ok_def)
next
  case (SCalls cs)
  then show ?thesis
    using si_good_commit [OF good, of w] si_good_tread [OF good, of w] si_good_twrite [OF good, of w] n
    by (simp add: si_step_def Let_def split: list.split si_call.split)
next
  case (SCommitStamp es)
  then show ?thesis using si_good_commit_stamp [OF good, of w] si_good_commit_end [OF good, of w]
    by (cases es) (simp_all add: si_step_def Let_def)
next
  case (SAbort es)
  then show ?thesis using si_good_abort [OF good, of w] si_good_abort_end [OF good, of w]
    by (cases es) (simp_all add: si_step_def Let_def)
next
  case SError
  then show ?thesis using good by (simp add: si_step_def Let_def)
next
  case SStop
  then show ?thesis using good by (simp add: si_step_def Let_def)
qed (use good n in \<open>simp_all add: si_step_def Let_def si_good_goto si_pc_ok_def si_good_leader si_good_leader_val
    si_good_tbegin si_good_scan_ptr si_good_scan_val si_good_read_status si_good_read_loop si_good_read_copy
    si_good_write_status si_good_write_cstamp si_good_write_reload si_good_write_walk si_good_write_check
    si_good_write_cas si_good_commit_copy si_good_commit_mark\<close>)

lemma si_good_quit:
  assumes good: "si_good c d s"
  shows "si_good c d (s\<lparr>si_quit := True\<rparr>)"
proof -
  let ?t = "s\<lparr>si_quit := True\<rparr>"
  note heap = si_good_heap [OF good] and h = si_good_history [OF good]
  have ev: "si_evolve s ?t" by (simp add: si_evolve_def)
  have keeps: "si_keeps v s ?t" for v
    using si_wk_priv(2) [OF si_good_wk [OF good, of v]] by (simp add: si_keeps_def)
  have "si_read_ok ?t m q = si_read_ok s m q" "si_vals_of ?t rs = si_vals_of s rs" for m q rs
    by (simp_all add: si_read_ok_def si_vals_of_def si_newest_def)
  then have hist: "si_history d ?t" using h by (simp add: si_history_def)
  show ?thesis
  proof (rule si_good_move [OF good ev keeps])
    show "si_heap c ?t" by (rule si_heap_more [OF heap]) simp_all
    show "si_own ?t" using si_good_own [OF good] by (simp add: si_own_def si_priv_def)
    show "si_clock ?t" using si_good_clock [OF good] by (simp add: si_clock_def)
    show "si_wk c ?t w" for w using si_wk_frame [OF heap ev keeps si_good_wk [OF good]] .
  qed (rule hist)
qed

text \<open>Only the commit adds to the history of commits.\<close>

lemma si_com_same [simp]:
  "si_com (si_upd w x pc s) = si_com s" "si_com (si_goto w pc s) = si_com s" "si_com (si_set_ver a v s) = si_com s"
  by (simp_all add: si_upd_defs)

lemma si_com_ops [simp]:
  "si_com (si_leader_ptr c w i m n s) = si_com s" "si_com (si_leader_val w i a m n s) = si_com s"
  "si_com (si_tbegin w s) = si_com s" "si_com (si_scan_ptr c w i a s) = si_com s"
  "si_com (si_scan_val w i tm a s) = si_com s" "si_com (si_tread w k rest s) = si_com s"
  "si_com (si_read_status w k a rest s) = si_com s" "si_com (si_read_loop w k a rest s) = si_com s"
  "si_com (si_read_copy c w a rest s) = si_com s" "si_com (si_twrite w k rest s) = si_com s"
  "si_com (si_write_status w k p a e rest s) = si_com s" "si_com (si_write_cstamp w k p a e rest s) = si_com s"
  "si_com (si_write_walk w k p a e v rest s) = si_com s" "si_com (si_write_check w k p a e v rest s) = si_com s"
  "si_com (si_write_cas w k p a e rest s) = si_com s" "si_com (si_commit_stamp w es s) = si_com s"
  "si_com (si_commit_copy c w el es s) = si_com s" "si_com (si_commit_mark w el es s) = si_com s"
  "si_com (si_abort w es s) = si_com s"
  by (simp_all add: si_leader_ptr_def si_leader_end_def si_leader_val_def si_tbegin_def si_scan_ptr_def si_register_def
      si_scan_val_def si_tread_def si_read_status_def si_follow_def si_read_loop_def si_read_copy_def si_twrite_def
      si_write_abort_def si_write_status_def si_write_cstamp_def si_write_walk_def si_write_check_def si_write_cas_def
      si_commit_stamp_def si_commit_copy_def si_commit_mark_def si_abort_def Let_def split: list.split option.split)

lemma si_step_ncom: "ncom s \<le> ncom (si_step c w pro s)"
proof (cases "si_pcs s w")
  case (SCalls cs)
  then show ?thesis by (simp add: si_step_def Let_def si_commit_def split: list.split si_call.split)
qed (simp_all add: si_step_def Let_def)

lemma si_init_good: "si_start c d s \<Longrightarrow> si_good c d s"
  unfolding si_start_def
proof (elim exE conjE)
  fix wv assume s: "s = si_init c d wv" and len: "\<forall>w. length (wv w) = si_val_size c" "\<forall>k. length (d k) = si_val_size c"
  have lt: "unat (k :: key) < 18446744073709551616" for k using unat_u64_less [of k] by simp
  then have heap: "si_heap c s" using len by (auto simp: s si_init_def si_heap_def unsigned_of_nat take_bit_nat_eq_self split: if_splits)
  have "si_history d s" by (simp add: s si_init_def si_history_def lt)
  moreover have "si_own s" by (simp add: s si_init_def si_own_def si_priv_def)
  moreover have "si_clock s" by (simp add: s si_init_def si_clock_def)
  moreover have "si_wk c s w" for w using len by (simp add: s si_init_def si_wk_def si_priv_def si_pc_ok_def)
  ultimately show "si_good c d s" using heap by (simp add: si_good_def)
qed

interpretation si: invariant_system "si_start c d" "si_next_sys c" "si_inv c d" for c d
proof
  show "si_start c d s \<Longrightarrow> si_inv c d s" for s using si_init_good by (simp add: si_inv_def)
next
  fix s t assume inv: "si_inv c d s" and step: "si_next_sys c s t"
  show "si_inv c d t"
    unfolding si_inv_def
  proof
    assume n: "ncom t < 2 ^ 32 - 2"
    from step consider w pro where "t = si_step c w pro s" | "t = s\<lparr>si_quit := True\<rparr>"
      unfolding si_next_sys_def by blast
    then show "si_good c d t"
    proof cases
      case 1
      then have "ncom s \<le> ncom t" using si_step_ncom by simp
      with n have "ncom s < 2 ^ 32 - 2" by (rule order.strict_trans1 [rotated])
      with inv 1 show ?thesis using si_good_step by (simp add: si_inv_def)
    next
      case 2
      with n have "ncom s < 2 ^ 32 - 2" by simp
      with inv 2 show ?thesis using si_good_quit by (simp add: si_inv_def)
    qed
  qed
qed

lemma si_reach_good: "si_reach c d s \<Longrightarrow> ncom s < 2 ^ 32 - 2 \<Longrightarrow> si_good c d s"
  using si.reach_inv unfolding si_inv_def by blast

end
