(* ===== verification/Si_Anomalies.thy ===== *)
theory Si_Anomalies
  imports Si_System
begin

text \<open>
  Two schedules of the snapshot isolation executor that snapshot isolation excludes. A
  transaction takes as its snapshot the largest \<^verbatim>\<open>lastcstamp_\<close> plus one, which is already the
  timestamp of a transaction that has drawn it from \<^verbatim>\<open>CCtr\<close> and is still marking its versions
  one by one: the reader sees the marked ones only, and a writer overwrites what it has not seen.
\<close>

definition moves_of :: "nat \<Rightarrow> nat \<Rightarrow> procedure list \<Rightarrow> (nat \<times> procedure list) list" where
  "moves_of n w pro = replicate n (w, pro)"

definition idemo_config :: si_config where
  "idemo_config = \<lparr>si_workers = 2, si_val_size = 1\<rparr>"

definition idemo_start :: si_sys where
  "idemo_start = si_init idemo_config (\<lambda>_. [0]) (\<lambda>w. [of_nat (Suc w)])"

definition idemo_lost :: si_sys where
  "idemo_lost = si_run idemo_config
     (moves_of 24 0 [Procedure READ_MODIFY_WRITE 1] @ moves_of 13 1 [Procedure READ_MODIFY_WRITE 1] @
      moves_of 3 0 [] @ moves_of 6 1 []) idemo_start"

definition idemo_torn :: si_sys where
  "idemo_torn = si_run idemo_config
     (moves_of 28 0 [Procedure WRITE 1, Procedure WRITE 2] @
      moves_of 18 1 [Procedure READ 1, Procedure READ 2]) idemo_start"

lemmas si_eval = idemo_start_def idemo_config_def moves_of_def si_init_def si_step_def si_upd_def
  si_goto_def si_set_ver_def si_leader_end_def si_leader_ptr_def si_leader_val_def
  si_decideFirstRange_def si_tbegin_def si_register_def si_scan_ptr_def si_scan_val_def
  si_searchReadSet_def si_searchWriteSet_def si_tread_def si_follow_def si_read_status_def
  si_read_loop_def si_read_copy_def si_twrite_def si_write_abort_def si_write_status_def
  si_write_cstamp_def si_write_walk_def si_write_check_def si_write_cas_def si_commit_def
  si_commit_stamp_def si_commit_copy_def si_gc_push_def si_commit_mark_def si_abort_def
  get_tuple_def Procedure_def memcpy_def

lemma idemo_run_reach:
  "\<forall>(w, pro) \<in> set sched. w < 2 \<Longrightarrow> si_reach idemo_config (\<lambda>_. [0]) (si_run idemo_config sched idemo_start)"
  by (rule si_run_reach, rule reach_init)
    (auto simp: si_start_def idemo_start_def idemo_config_def)

lemma idemo_reach:
  "si_reach idemo_config (\<lambda>_. [0]) idemo_lost" "si_reach idemo_config (\<lambda>_. [0]) idemo_torn"
  unfolding idemo_lost_def idemo_torn_def by (rule idemo_run_reach, auto simp: moves_of_def)+

lemma idemo_lost_com:
  "map c_rec (si_com idemo_lost) =
     [\<lparr>tx_reads = [(1, [0])], tx_writes = [(1, \<lambda>_. [1])]\<rparr>,
      \<lparr>tx_reads = [(1, [0])], tx_writes = [(1, \<lambda>_. [2])]\<rparr>]"
  by (simp add: idemo_lost_def si_eval Let_def replicate_numeral)

lemma idemo_torn_com:
  "map c_rec (si_com idemo_torn) =
     [\<lparr>tx_reads = [], tx_writes = [(1, \<lambda>_. [1]), (2, \<lambda>_. [1])]\<rparr>,
      \<lparr>tx_reads = [(1, [1]), (2, [0])], tx_writes = []\<rparr>]"
  by (simp add: idemo_torn_def si_eval Let_def replicate_numeral)

text \<open>
  C26. Snapshot isolation, lost update: a state is reachable in which two committed transactions
  have both read the initial value of a record and both written the record, the second over the
  version of the first. Snapshot isolation forbids it; no serial order explains it.
\<close>

theorem si_lost_update:
  "\<exists>s a b. si_reach idemo_config (\<lambda>_. [0]) s \<and> map c_rec (si_com s) = [a, b] \<and>
     tx_reads a = [(1, [0])] \<and> tx_reads b = [(1, [0])] \<and> 1 \<in> fst ` set (tx_writes a) \<and>
     1 \<in> fst ` set (tx_writes b) \<and> unserializable (\<lambda>_. [0]) (map c_rec (si_com s))"
proof (intro exI conjI)
  show "unserializable (\<lambda>_. [0]) (map c_rec (si_com idemo_lost))"
    unfolding idemo_lost_com by (rule unserializable_two) (simp_all add: apply_tx_def)
qed (rule idemo_reach idemo_lost_com | simp)+

text \<open>
  Snapshot isolation, torn snapshot: a state is reachable in which a committed read-only
  transaction has read one write of another transaction and missed the other: its reads are not
  those of any prefix of the committed transactions.
\<close>

theorem si_torn_snapshot:
  "\<exists>s a b. si_reach idemo_config (\<lambda>_. [0]) s \<and> map c_rec (si_com s) = [a, b] \<and> tx_writes b = [] \<and>
     (\<forall>n. \<exists>(k, v) \<in> set (tx_reads b). serial_db (\<lambda>_. [0]) (take n [a, b]) k \<noteq> v) \<and>
     unserializable (\<lambda>_. [0]) (map c_rec (si_com s))"
proof (intro exI conjI)
  let ?a = "\<lparr>tx_reads = [], tx_writes = [(1, \<lambda>_. [1]), (2, \<lambda>_. [1])]\<rparr>"
  let ?b = "\<lparr>tx_reads = [(1, [1]), (2, [0])], tx_writes = []\<rparr>"
  show "unserializable (\<lambda>_. [0]) (map c_rec (si_com idemo_torn))"
    unfolding idemo_torn_com by (rule unserializable_two) (simp_all add: apply_tx_def apply_write_def)
  show "\<forall>n. \<exists>(k, v) \<in> set (tx_reads ?b). serial_db (\<lambda>_. [0]) (take n [?a, ?b]) k \<noteq> v"
  proof
    fix n
    show "\<exists>(k, v) \<in> set (tx_reads ?b). serial_db (\<lambda>_. [0]) (take n [?a, ?b]) k \<noteq> v"
    proof (cases n)
      case (Suc m)
      then show ?thesis by (cases m) (simp_all add: apply_tx_def apply_write_def)
    qed simp
  qed
qed (rule idemo_reach idemo_torn_com | simp)+

end
