(* ===== verification/Si_Theorems.thy ===== *)
theory Si_Theorems
  imports Si_Steps Si_Anomalies
begin



text \<open>Without a pending write, no later write of the record has committed.\<close>

lemma serial_db_take:
  assumes "\<And>i. n \<le> i \<Longrightarrow> i < length ts \<Longrightarrow> k \<notin> fst ` set (tx_writes (ts ! i))"
  shows "serial_db d (take n ts) k = serial_db d ts k"
proof -
  have "serial_db e us k = e k" if "\<And>t. t \<in> set us \<Longrightarrow> k \<notin> fst ` set (tx_writes t)" for us e
    using that by (induction us arbitrary: e) (auto simp: apply_tx_other)
  moreover have "k \<notin> fst ` set (tx_writes t)" if "t \<in> set (drop n ts)" for t
  proof -
    obtain i where "i < length (drop n ts)" "t = drop n ts ! i" using \<open>t \<in> set (drop n ts)\<close> by (auto simp only: in_set_conv_nth)
    then show ?thesis using assms [of "n + i"] by simp
  qed
  moreover have "serial_db d ts = serial_db (serial_db d (take n ts)) (drop n ts)"
    by (metis append_take_drop_id serial_db_append)
  ultimately show ?thesis by simp
qed

section \<open>The properties\<close>



text \<open>
  C24. Snapshot isolation, first updater wins: of two committed transactions that write the same
  record, the timestamp of the earlier one (its place in the order of \<^verbatim>\<open>CCtr\<close>) is not above the
  snapshot of the later one: their executions are not concurrent by their timestamps.
\<close>

theorem si_updaters_ordered:
  assumes "si_reach c d s" "length (si_com s) < 2 ^ 32 - 2" "i < j" "j < length (si_com s)"
    and "k \<in> fst ` set (tx_writes (c_rec (si_com s ! i)))" "k \<in> fst ` set (tx_writes (c_rec (si_com s ! j)))"
  shows "Suc i \<le> unat (c_txid (si_com s ! j))"
  using si_history_order [OF si_good_history [OF si_reach_good [OF assms(1,2)]] assms(3,4), of k] assms(3-6) by simp

text \<open>
  C25. Snapshot isolation, table: whenever no worker is installing its writes, the newest committed
  version of every record holds the value of the serial execution of all committed transactions
  in the order of \<^verbatim>\<open>CCtr\<close>.
\<close>

theorem si_table_is_serial:
  assumes "si_reach c d s" "length (si_com s) < 2 ^ 32 - 2" "\<forall>w. \<not> si_committing (si_pcs s w)"
  shows "v_val (si_vers s (hd (si_hist s k))) = serial_db d (map c_rec (si_com s)) k"
proof -
  note good = si_reach_good [OF assms(1,2)]
  note h = si_good_history [OF good]
  have "vval s (hd (si_hist s k)) = serial_db d (take (vcs s (hd (si_hist s k))) (coms s)) k"
    by (rule si_history_val [OF h si_heap_hd_in [OF si_good_heap [OF good]]])
  also have "\<dots> = serial_db d (coms s) k"
  proof (rule serial_db_take)
    fix i assume "vcs s (hd (si_hist s k)) \<le> i" "i < length (coms s)"
    then show "k \<notin> fst ` set (tx_writes (coms s ! i))" using si_history_pend [OF h, of i k] assms(3) by auto
  qed
  finally show ?thesis .
qed

section \<open>Witnesses\<close>

lemma idemo_lost_ncom: "length (si_com idemo_lost) = 2"
  using arg_cong [OF idemo_lost_com, of length] by simp

definition idemo_done :: si_sys where
  "idemo_done = si_run idemo_config (moves_of 1 0 [] @ moves_of 4 1 []) idemo_lost"

lemma idemo_done_reach: "si_reach idemo_config (\<lambda>_. [0]) idemo_done"
  unfolding idemo_done_def by (rule si_run_reach [OF idemo_reach(1)]) (auto simp: moves_of_def idemo_config_def)


lemma idemo_done_state:
  "map c_rec (si_com idemo_done) =
     [\<lparr>tx_reads = [(1, [0])], tx_writes = [(1, \<lambda>_. [1])]\<rparr>,
      \<lparr>tx_reads = [(1, [0])], tx_writes = [(1, \<lambda>_. [2])]\<rparr>]"
  "si_pcs idemo_done w = SMake"
  by (simp_all add: idemo_done_def idemo_lost_def si_eval Let_def replicate_numeral)



theorem si_updaters_ordered_witness: "Suc 0 \<le> unat (c_txid (si_com idemo_lost ! 1))"
proof -
  have "c_rec (si_com idemo_lost ! i) = map c_rec (si_com idemo_lost) ! i" if "i < 2" for i
    using that by (simp add: idemo_lost_ncom)
  then show ?thesis
    using si_updaters_ordered [OF idemo_reach(1), of 0 1 1] by (simp add: idemo_lost_ncom idemo_lost_com)
qed

theorem si_table_is_serial_witness:
  "v_val (si_vers idemo_done (hd (si_hist idemo_done 1))) = [2]"
proof -
  have "length (si_com idemo_done) = 2" using arg_cong [OF idemo_done_state(1), of length] by simp
  then show ?thesis
    using si_table_is_serial [OF idemo_done_reach, of 1]
    by (simp add: idemo_done_state apply_tx_def)
qed

end
