(* ===== verification/Mocc_Model.thy ===== *)
theory Mocc_Model
  imports Procedures Ss2pl_Model Rw_Lock
begin

text \<open>
  The data of \<^verbatim>\<open>mocc/\<close>: the TID word and the temperature word of \<^verbatim>\<open>include/tuple.hh\<close>, the elements of the
  local sets and lock lists, and what \<^verbatim>\<open>transaction.cc\<close> computes on them, in the build of
  \<^verbatim>\<open>CMakeLists.txt\<close> (\<^verbatim>\<open>RWLOCK\<close>, \<^verbatim>\<open>TEMPERATURE_RESET_OPT\<close>). A lock is named by the index of its
  record; the 32-bit \<^verbatim>\<open>key_\<close> of a \<^verbatim>\<open>LockElement\<close> is kept beside it.
\<close>

section \<open>Words\<close>

text \<open>\<^verbatim>\<open>Tidword\<close>: the low half is the tid, the high half the epoch. An increment of the tid wraps.\<close>

definition mt_tid :: "u64 \<Rightarrow> u64" where "mt_tid x = take_bit 32 x"

definition mt_epoch :: "u64 \<Rightarrow> u64" where "mt_epoch x = drop_bit 32 x"

definition mt_set_epoch :: "u64 \<Rightarrow> u64 \<Rightarrow> u64" where
  "mt_set_epoch e x = push_bit 32 (take_bit 32 e) OR take_bit 32 x"

definition mt_inc :: "u64 \<Rightarrow> u64" where
  "mt_inc x = push_bit 32 (drop_bit 32 x) OR take_bit 32 (mt_tid x + 1)"

text \<open>\<^verbatim>\<open>Epotemp\<close>: the low half is the temperature, the high half the epoch.\<close>

definition ep_temp :: "u64 \<Rightarrow> u64" where "ep_temp x = take_bit 32 x"

definition ep_epoch :: "u64 \<Rightarrow> u64" where "ep_epoch x = drop_bit 32 x"

definition ep_make :: "u64 \<Rightarrow> u64 \<Rightarrow> u64" where
  "ep_make temp epoch = push_bit 32 (take_bit 32 epoch) OR take_bit 32 temp"

definition TEMP_THRESHOLD :: u64 where "TEMP_THRESHOLD = 5"

definition TEMP_MAX :: u64 where "TEMP_MAX = 20"

lemma mt_inc_bound:
  assumes "unat (mt_tid x) \<noteq> 2 ^ 32 - 1"
  shows "unat (mt_inc x) = Suc (unat x)"
proof -
  have t: "unat (mt_tid x) = unat x mod 2 ^ 32" by (simp add: mt_tid_def take_bit_eq_mod unat_mod)
  have "unat x mod 2 ^ 32 < 2 ^ 32" by simp
  then have lt: "unat (mt_tid x) + 1 < 2 ^ 32" using assms unfolding t by linarith
  have s: "unat (mt_tid x + 1) = unat (mt_tid x) + 1" using lt by (simp add: unat_word_ariths)
  have low: "unat (take_bit 32 (mt_tid x + 1) :: u64) = unat (mt_tid x) + 1"
    using lt by (simp add: take_bit_eq_mod unat_mod s)
  have "push_bit 32 (drop_bit 32 x) AND take_bit 32 (mt_tid x + 1) = 0"
    by (rule bit_eqI) (auto simp: bit_simps)
  then have "mt_inc x = push_bit 32 (drop_bit 32 x) + take_bit 32 (mt_tid x + 1)"
    unfolding mt_inc_def by (rule disjunctive_add_eq_or [symmetric])
  moreover have high: "unat (push_bit 32 (drop_bit 32 x) :: u64) = 2 ^ 32 * (unat x div 2 ^ 32)"
  proof -
    have "2 ^ 32 * (unat x div 2 ^ 32) \<le> unat x" by simp
    also have "\<dots> < 2 ^ 64" by (rule unat_u64_less)
    finally show ?thesis by (simp add: push_bit_eq_mult drop_bit_eq_div unat_word_ariths unat_div mult.commute)
  qed
  moreover have "2 ^ 32 * (unat x div 2 ^ 32) + (unat (mt_tid x) + 1) = Suc (unat x)"
    unfolding t using mult_div_mod_eq [of "2 ^ 32" "unat x"] by linarith
  moreover have "Suc (unat x) < 2 ^ 64"
  proof -
    have "unat x \<noteq> 2 ^ 64 - 1" using assms t by auto
    then show ?thesis using unat_u64_less [of x] by linarith
  qed
  ultimately show ?thesis using low by (simp add: unat_word_ariths)
qed

section \<open>Records\<close>

record mc_tuple =
  m_tidword :: u64
  m_rwlock :: u32
  m_val :: val

record mc_lelem =
  le_key :: u32
  le_lock :: key
  le_mode :: bool

record mc_relem =
  mr_key :: key
  mr_rcdptr :: key
  mr_tidword :: u64
  mr_val :: val
  mr_failed :: bool

record mc_welem =
  mw_key :: key
  mw_rcdptr :: key

datatype mc_status = MInFlight | MCommitted | MAborted

record mc_tx =
  m_read_set :: "mc_relem list"
  m_write_set :: "mc_welem list"
  m_pro_set :: "procedure list"
  m_RLL :: "mc_lelem list"
  m_CLL :: "mc_lelem list"
  m_status :: mc_status
  m_mrctid :: u64
  m_max_rset :: u64
  m_max_wset :: u64
  m_write_val :: val
  m_return_val :: val

type_synonym mc_table = "key \<Rightarrow> mc_tuple"

definition mc_new :: "nat \<Rightarrow> val \<Rightarrow> mc_tx" where
  "mc_new val_size wv =
     \<lparr>m_read_set = [], m_write_set = [], m_pro_set = [], m_RLL = [], m_CLL = [], m_status = MInFlight,
      m_mrctid = 0, m_max_rset = 0, m_max_wset = 0, m_write_val = wv, m_return_val = replicate val_size 0\<rparr>"

section \<open>Local sets and lists\<close>

definition mc_searchReadSet :: "key \<Rightarrow> mc_tx \<Rightarrow> mc_relem option" where
  "mc_searchReadSet k t = search_set mr_key k (m_read_set t)"

definition mc_searchWriteSet :: "key \<Rightarrow> mc_tx \<Rightarrow> mc_welem option" where
  "mc_searchWriteSet k t = search_set mw_key k (m_write_set t)"

text \<open>The key of a lock element, widened for the comparison with a 64-bit key.\<close>

definition le_wide :: "mc_lelem \<Rightarrow> key" where
  "le_wide e = ucast (le_key e)"

definition mc_searchRLL :: "key \<Rightarrow> mc_lelem list \<Rightarrow> mc_lelem option" where
  "mc_searchRLL k rll = search_set le_wide k rll"

definition mc_lelem_of :: "key \<Rightarrow> key \<Rightarrow> bool \<Rightarrow> mc_lelem" where
  "mc_lelem_of k p mode = \<lparr>le_key = ucast k, le_lock = p, le_mode = mode\<rparr>"

definition mc_begin :: "mc_tx \<Rightarrow> mc_tx" where
  "mc_begin t = t\<lparr>m_status := MInFlight, m_max_rset := 0, m_max_wset := 0\<rparr>"

text \<open>The record a write goes to: through the read set when it is there.\<close>

definition mc_write_tuple :: "key \<Rightarrow> mc_tx \<Rightarrow> key" where
  "mc_write_tuple k t = (case mc_searchReadSet k t of Some re \<Rightarrow> mr_rcdptr re | None \<Rightarrow> get_tuple k)"

definition mc_push_read :: "key \<Rightarrow> u64 \<Rightarrow> mc_tx \<Rightarrow> mc_tx" where
  "mc_push_read k tid t =
     t\<lparr>m_read_set := m_read_set t @
        [\<lparr>mr_key = k, mr_rcdptr = get_tuple k, mr_tidword = tid, mr_val = m_return_val t, mr_failed = False\<rparr>]\<rparr>"

definition mc_push_failed :: "key \<Rightarrow> mc_tx \<Rightarrow> mc_tx" where
  "mc_push_failed k t =
     t\<lparr>m_read_set := m_read_set t @
        [\<lparr>mr_key = k, mr_rcdptr = get_tuple k, mr_tidword = 0, mr_val = [], mr_failed = True\<rparr>]\<rparr>"

definition mc_push_write :: "key \<Rightarrow> key \<Rightarrow> mc_tx \<Rightarrow> mc_tx" where
  "mc_push_write k p t = t\<lparr>m_write_set := m_write_set t @ [\<lparr>mw_key = k, mw_rcdptr = p\<rparr>]\<rparr>"

section \<open>The lists of \<^verbatim>\<open>lock\<close>\<close>

text \<open>\<open>mc_has\<close>: the early return of the loop, the lock is there in the mode or a stronger one.\<close>

definition mc_has :: "key \<Rightarrow> bool \<Rightarrow> mc_lelem list \<Rightarrow> bool" where
  "mc_has k mode cll \<longleftrightarrow> (\<exists>e \<in> set cll. le_wide e = k \<and> (mode = le_mode e \<or> mode < le_mode e))"

definition mc_upgrade :: "key \<Rightarrow> mc_lelem list \<Rightarrow> bool" where
  "mc_upgrade k cll \<longleftrightarrow> (\<exists>e \<in> set cll. le_wide e = k)"

definition mc_vioctr :: "key \<Rightarrow> mc_lelem list \<Rightarrow> nat" where
  "mc_vioctr k cll = length (filter (\<lambda>e. k \<le> le_wide e) cll)"

definition mc_threshold :: "key \<Rightarrow> mc_lelem list \<Rightarrow> u32" where
  "mc_threshold k cll = (case List.find (\<lambda>e. k \<le> le_wide e) cll of Some e \<Rightarrow> le_key e | None \<Rightarrow> - 1)"

text \<open>The elements of the retrospective list that the loop before the lock visits to lock them.\<close>

definition mc_prelock :: "u32 \<Rightarrow> key \<Rightarrow> mc_lelem list \<Rightarrow> mc_lelem list" where
  "mc_prelock thr k rll = filter (\<lambda>e. thr < le_key e) (takeWhile (\<lambda>e. le_key e \<le> thr \<or> le_wide e < k) rll)"

text \<open>\<^verbatim>\<open>le\<close> is the last element of the key.\<close>

definition mc_mark_upgraded :: "key \<Rightarrow> mc_lelem list \<Rightarrow> mc_lelem list" where
  "mc_mark_upgraded k cll =
     (case filter (\<lambda>i. le_wide (cll ! i) = k) [0..<length cll] of
        [] \<Rightarrow> cll
      | i # is \<Rightarrow> cll[last (i # is) := (cll ! last (i # is))\<lparr>le_mode := True\<rparr>])"

section \<open>Commit\<close>

definition mc_commit_tid :: "u64 \<Rightarrow> mc_tx \<Rightarrow> u64" where
  "mc_commit_tid local_epoch t =
     (let tid_a = mt_inc (max (m_max_rset t) (m_max_wset t));
          tid_b = mt_inc (m_mrctid t);
          tid_c = mt_set_epoch local_epoch 0
      in max tid_a (max tid_b tid_c))"

definition mc_sort :: "mc_tx \<Rightarrow> mc_tx" where
  "mc_sort t = t\<lparr>m_write_set := sort_key mw_key (m_write_set t)\<rparr>"

definition mc_read_changed :: "mc_relem \<Rightarrow> u64 \<Rightarrow> bool" where
  "mc_read_changed r check \<longleftrightarrow>
     mt_epoch (mr_tidword r) \<noteq> mt_epoch check \<or> mt_tid (mr_tidword r) \<noteq> mt_tid check"

definition mc_fail_read :: "nat \<Rightarrow> mc_tx \<Rightarrow> mc_tx" where
  "mc_fail_read i t =
     t\<lparr>m_read_set := (m_read_set t)[i := (m_read_set t ! i)\<lparr>mr_failed := True\<rparr>], m_status := MAborted\<rparr>"

definition mc_write_locks :: "mc_welem list \<Rightarrow> mc_lelem list" where
  "mc_write_locks ws = map (\<lambda>e. mc_lelem_of (mw_key e) (mw_rcdptr e) True) ws"

lemma mc_read_changed_iff: "mc_read_changed r check \<longleftrightarrow> mr_tidword r \<noteq> check"
proof -
  have "x = push_bit 32 (mt_epoch x) OR mt_tid x" for x
    by (rule bit_eqI) (auto simp: mt_epoch_def mt_tid_def bit_simps)
  then show ?thesis unfolding mc_read_changed_def by metis
qed

end
