(* ===== verification/Mocc_System.thy ===== *)
theory Mocc_System
  imports Mocc_Model Serial_Spec
begin

text \<open>
  \<^verbatim>\<open>TxExecutor\<close> of \<^verbatim>\<open>mocc/transaction.cc\<close>, the worker of \<^verbatim>\<open>mocc/mocc.cc\<close> and the leader of \<^verbatim>\<open>mocc/util.cc\<close>,
  cut at every access to a lock, a TID word, a payload, a temperature or an epoch. A lock is
  taken in one step, when it is free (the loops are those of \<^verbatim>\<open>Rw_Lock\<close>); the worker stays where it
  is as long as it is not. The locks that \<^verbatim>\<open>lock\<close> gives back leave the list before the loop that
  releases them, and are in the program counter then. Besides the procedures and the clock, a
  step takes a word \<open>x\<close> from outside: the random number, what lies before an empty vector
  (\<^verbatim>\<open>CLL_.back()\<close>), and by its last bit whether a weak compare-and-swap fails for no reason.
  Ghost state: the committed transactions with the locks they held, and whether a tid wrapped.
\<close>

section \<open>Control points\<close>

datatype mc_call = McRead key | McWrite key | McRmw key

text \<open>What follows a lock: the rest of a read, of a write, or of the loop of \<^verbatim>\<open>commit\<close>.\<close>

datatype mc_after =
    AftRead key bool "mc_call list"
  | AftHot key key "mc_call list"
  | AftListed key key "mc_call list"
  | AftCommit mc_welem "mc_welem list"

datatype mc_pc =
    MMake
  | MRetry
  | MScan u64 nat u64
  | MQuit
  | MBegin
  | MCalls "mc_call list"
  | MTemp mc_call "mc_call list"
  | MLock key key bool mc_after
  | MRel "mc_lelem list" "mc_lelem list" key key bool mc_after
  | MTry key key bool bool mc_after
  | MAcq "mc_lelem list" key key bool mc_after
  | MLoad key bool "mc_call list"
  | MSpin key bool u64 "mc_call list"
  | MCopy key bool u64 "mc_call list"
  | MCheck key bool u64 "mc_call list"
  | MLkLoad key bool "mc_call list"
  | MLkCopy key bool u64 "mc_call list"
  | MClock "mc_welem list"
  | MWset mc_welem "mc_welem list"
  | MEpochLoad
  | MEpochStore u64
  | MVal nat
  | MValLock nat
  | MValMax nat
  | MWrite "mc_welem list" u64
  | MStore mc_welem "mc_welem list" u64
  | MUnl "mc_lelem list" bool
  | MRll "mc_relem list"
  | MTLoad mc_relem "mc_relem list"
  | MTGE mc_relem "mc_relem list" u64
  | MTReset mc_relem "mc_relem list" u64 u64
  | MTCas mc_relem "mc_relem list" u64
  | MTTest mc_relem "mc_relem list"
  | MStop

record mc_ctx =
  cx_rec :: txrec
  cx_locked :: "key list"

record mc_sys =
  mc_table :: mc_table
  mc_txs :: "nat \<Rightarrow> mc_tx"
  mc_pcs :: "nat \<Rightarrow> mc_pc"
  mc_GlobalEpoch :: u64
  mc_ThLocalEpoch :: "nat \<Rightarrow> u64"
  mc_epoch_timer_start :: u64
  mc_EpotempAry :: "u64 \<Rightarrow> u64"
  mc_quit :: bool
  mc_com :: "mc_ctx list"
  mc_wrapped :: bool

record mc_config =
  mc_workers :: nat
  mc_val_size :: nat
  mc_tuple_num :: nat
  mc_max_ope :: nat
  mc_tuple_size :: u64
  mc_per_xx_temp :: u64
  mc_epoch_span :: u64

definition mc_upd :: "nat \<Rightarrow> mc_tx \<Rightarrow> mc_pc \<Rightarrow> mc_sys \<Rightarrow> mc_sys" where
  "mc_upd w t pc s = s\<lparr>mc_txs := (mc_txs s)(w := t), mc_pcs := (mc_pcs s)(w := pc)\<rparr>"

definition mc_goto :: "nat \<Rightarrow> mc_pc \<Rightarrow> mc_sys \<Rightarrow> mc_sys" where
  "mc_goto w pc s = s\<lparr>mc_pcs := (mc_pcs s)(w := pc)\<rparr>"

definition mc_set_lock :: "key \<Rightarrow> u32 \<Rightarrow> mc_sys \<Rightarrow> mc_sys" where
  "mc_set_lock p n s = s\<lparr>mc_table := (mc_table s)(p := (mc_table s p)\<lparr>m_rwlock := n\<rparr>)\<rparr>"

definition mc_epotemp_index :: "mc_config \<Rightarrow> key \<Rightarrow> u64" where
  "mc_epotemp_index c k = k * mc_tuple_size c div mc_per_xx_temp c"

definition mc_temp_of :: "mc_config \<Rightarrow> key \<Rightarrow> mc_sys \<Rightarrow> u64" where
  "mc_temp_of c k s = mc_EpotempAry s (mc_epotemp_index c k)"

section \<open>The leader\<close>

definition mc_leaderWork :: "mc_config \<Rightarrow> nat \<Rightarrow> u64 \<Rightarrow> mc_sys \<Rightarrow> mc_sys" where
  "mc_leaderWork c w now s =
     (if chkClkSpan (mc_epoch_timer_start s) now (mc_epoch_span c)
      then mc_goto w (MScan (mc_GlobalEpoch s) 1 now) s else mc_goto w MQuit s)"

text \<open>Worker 0 alone stores to the global epoch, so the loop of \<^verbatim>\<open>atomicAddGE\<close> succeeds at once.\<close>

definition mc_atomicAddGE :: "mc_sys \<Rightarrow> mc_sys" where
  "mc_atomicAddGE s = s\<lparr>mc_GlobalEpoch := mc_GlobalEpoch s + 1\<rparr>"

text \<open>One load of a thread-local epoch, or the end of the scan.\<close>

definition mc_chkEpochLoaded :: "mc_config \<Rightarrow> nat \<Rightarrow> u64 \<Rightarrow> nat \<Rightarrow> u64 \<Rightarrow> mc_sys \<Rightarrow> mc_sys" where
  "mc_chkEpochLoaded c w nowepo i stop s =
     (if i < mc_workers c then
        (if mc_ThLocalEpoch s i \<noteq> nowepo then mc_goto w MQuit s else mc_goto w (MScan nowepo (Suc i) stop) s)
      else (mc_atomicAddGE (mc_goto w MQuit s))\<lparr>mc_epoch_timer_start := stop\<rparr>)"

section \<open>Locking\<close>

text \<open>\<^verbatim>\<open>write\<close> after its lock: a second lock when the record is in the retrospective list.\<close>

definition mc_write_end :: "nat \<Rightarrow> key \<Rightarrow> key \<Rightarrow> mc_call list \<Rightarrow> mc_sys \<Rightarrow> mc_sys" where
  "mc_write_end w k p cs s = mc_upd w (mc_push_write k p (mc_txs s w)) (MCalls cs) s"

definition mc_write_listed :: "nat \<Rightarrow> key \<Rightarrow> key \<Rightarrow> mc_call list \<Rightarrow> mc_sys \<Rightarrow> mc_sys" where
  "mc_write_listed w k p cs s =
     (if mc_searchRLL k (m_RLL (mc_txs s w)) \<noteq> None then mc_goto w (MLock k p True (AftListed k p cs)) s
      else mc_write_end w k p cs s)"

definition mc_resume :: "nat \<Rightarrow> mc_after \<Rightarrow> mc_sys \<Rightarrow> mc_sys" where
  "mc_resume w aft s =
     (case aft of
        AftRead k rw cs \<Rightarrow> mc_goto w (MLkLoad k rw cs) s
      | AftHot k p cs \<Rightarrow> mc_write_listed w k p cs s
      | AftListed k p cs \<Rightarrow> mc_write_end w k p cs s
      | AftCommit e es \<Rightarrow> mc_goto w (MWset e es) s)"

definition mc_to_abort :: "nat \<Rightarrow> mc_tx \<Rightarrow> mc_sys \<Rightarrow> mc_sys" where
  "mc_to_abort w t s = mc_upd w (t\<lparr>m_status := MAborted\<rparr>) (MUnl (m_CLL t) False) s"

text \<open>The part of \<^verbatim>\<open>lock\<close> on the lists.\<close>

definition mc_lock :: "nat \<Rightarrow> key \<Rightarrow> key \<Rightarrow> bool \<Rightarrow> mc_after \<Rightarrow> mc_sys \<Rightarrow> mc_sys" where
  "mc_lock w k p mode aft s =
     (let t = mc_txs s w; cll = sort_key le_key (m_CLL t); vio = mc_vioctr k cll; n = length cll - vio in
      if mc_has k mode cll then mc_resume w aft (mc_upd w (t\<lparr>m_CLL := cll\<rparr>) (mc_pcs s w) s)
      else if vio > 100 then mc_upd w (t\<lparr>m_CLL := cll\<rparr>) (MTry k p mode (mc_upgrade k cll) aft) s
      else mc_upd w (t\<lparr>m_CLL := take n cll\<rparr>)
             (MRel (drop n cll) (mc_prelock (mc_threshold k cll) k (m_RLL t)) k p mode aft) s)"

definition mc_release :: "mc_lelem \<Rightarrow> mc_sys \<Rightarrow> mc_sys" where
  "mc_release e s =
     (let n = m_rwlock (mc_table s (le_lock e)) in
      mc_set_lock (le_lock e) (if le_mode e then w_rel n else r_rel n) s)"

definition mc_rel :: "nat \<Rightarrow> mc_lelem list \<Rightarrow> mc_lelem list \<Rightarrow> key \<Rightarrow> key \<Rightarrow> bool \<Rightarrow> mc_after \<Rightarrow> mc_sys \<Rightarrow> mc_sys" where
  "mc_rel w es pre k p mode aft s =
     (case es of
        e # es \<Rightarrow> mc_release e (mc_goto w (MRel es pre k p mode aft) s)
      | [] \<Rightarrow> mc_goto w (MAcq pre k p mode aft) s)"

definition mc_take :: "nat \<Rightarrow> mc_lelem \<Rightarrow> (mc_sys \<Rightarrow> mc_sys) \<Rightarrow> mc_sys \<Rightarrow> mc_sys" where
  "mc_take w e cont s =
     (let t = mc_txs s w; n = m_rwlock (mc_table s (le_lock e)) in
      case (if le_mode e then w_acq n else r_acq n) of
        None \<Rightarrow> s
      | Some n' \<Rightarrow> cont (mc_set_lock (le_lock e) n' (mc_upd w (t\<lparr>m_CLL := m_CLL t @ [e]\<rparr>) (mc_pcs s w) s)))"

definition mc_acq :: "nat \<Rightarrow> mc_lelem list \<Rightarrow> key \<Rightarrow> key \<Rightarrow> bool \<Rightarrow> mc_after \<Rightarrow> mc_sys \<Rightarrow> mc_sys" where
  "mc_acq w pre k p mode aft s =
     (case pre of
        e # pre \<Rightarrow> mc_take w e (mc_goto w (MAcq pre k p mode aft)) s
      | [] \<Rightarrow> mc_take w (mc_lelem_of k p mode) (mc_resume w aft) s)"

text \<open>The branch for more than 100 violations.\<close>

definition mc_try :: "nat \<Rightarrow> key \<Rightarrow> key \<Rightarrow> bool \<Rightarrow> bool \<Rightarrow> mc_after \<Rightarrow> bool \<Rightarrow> mc_sys \<Rightarrow> mc_sys" where
  "mc_try w k p mode up aft spurious s =
     (let t = mc_txs s w; n = m_rwlock (mc_table s p) in
      if mode \<and> up then
        (case upg n of
           Some n' \<Rightarrow>
             if spurious then mc_to_abort w t s
             else mc_resume w aft (mc_set_lock p n' (mc_upd w (t\<lparr>m_CLL := mc_mark_upgraded k (m_CLL t)\<rparr>) (mc_pcs s w) s))
         | None \<Rightarrow> mc_to_abort w t s)
      else
        (case (if mode then w_acq n else r_acq n) of
           Some n' \<Rightarrow>
             mc_resume w aft (mc_set_lock p n' (mc_upd w (t\<lparr>m_CLL := m_CLL t @ [mc_lelem_of k p mode]\<rparr>) (mc_pcs s w) s))
         | None \<Rightarrow> mc_to_abort w t s))"

section \<open>Reading and writing\<close>

definition mc_read_call :: "nat \<Rightarrow> key \<Rightarrow> mc_call list \<Rightarrow> mc_sys \<Rightarrow> mc_sys" where
  "mc_read_call w k cs s =
     (let t = mc_txs s w in
      if mc_searchWriteSet k t \<noteq> None \<or> mc_searchReadSet k t \<noteq> None then mc_goto w (MCalls cs) s
      else mc_goto w (MTemp (McRead k) cs) s)"

definition mc_write_call :: "nat \<Rightarrow> key \<Rightarrow> mc_call list \<Rightarrow> mc_sys \<Rightarrow> mc_sys" where
  "mc_write_call w k cs s =
     (let t = mc_txs s w in
      if mc_searchWriteSet k t \<noteq> None then mc_goto w (MCalls cs) s else mc_goto w (MTemp (McWrite k) cs) s)"

definition mc_rmw_call :: "nat \<Rightarrow> key \<Rightarrow> mc_call list \<Rightarrow> mc_sys \<Rightarrow> mc_sys" where
  "mc_rmw_call w k cs s =
     (let t = mc_txs s w in
      if mc_searchWriteSet k t \<noteq> None then mc_goto w (MCalls cs) s
      else if mc_searchReadSet k t \<noteq> None then mc_write_end w k (mc_write_tuple k t) cs s
      else mc_goto w (MTemp (McRmw k) cs) s)"

text \<open>With the temperature loaded: how \<^verbatim>\<open>read\<close> and \<^verbatim>\<open>read_write\<close> access the record.\<close>

definition mc_read_start :: "mc_config \<Rightarrow> nat \<Rightarrow> key \<Rightarrow> mc_call list \<Rightarrow> mc_sys \<Rightarrow> mc_sys" where
  "mc_read_start c w k cs s =
     (case mc_searchRLL k (m_RLL (mc_txs s w)) of
        Some e \<Rightarrow> mc_goto w (MLock k (get_tuple k) (le_mode e) (AftRead k False cs)) s
      | None \<Rightarrow>
          (if TEMP_THRESHOLD \<le> ep_temp (mc_temp_of c k s)
           then mc_goto w (MLock k (get_tuple k) False (AftRead k False cs)) s
           else mc_goto w (MLoad k False cs) s))"

definition mc_rmw_start :: "mc_config \<Rightarrow> nat \<Rightarrow> key \<Rightarrow> mc_call list \<Rightarrow> mc_sys \<Rightarrow> mc_sys" where
  "mc_rmw_start c w k cs s =
     (case mc_searchRLL k (m_RLL (mc_txs s w)) of
        Some e \<Rightarrow> mc_goto w (MLock k (get_tuple k) (le_mode e) (AftRead k True cs)) s
      | None \<Rightarrow>
          (if TEMP_THRESHOLD \<le> ep_temp (mc_temp_of c k s)
           then mc_goto w (MLock k (get_tuple k) True (AftRead k True cs)) s
           else mc_goto w (MLoad k True cs) s))"

definition mc_write_start :: "mc_config \<Rightarrow> nat \<Rightarrow> key \<Rightarrow> mc_call list \<Rightarrow> mc_sys \<Rightarrow> mc_sys" where
  "mc_write_start c w k cs s =
     (let p = mc_write_tuple k (mc_txs s w) in
      if TEMP_THRESHOLD \<le> ep_temp (mc_temp_of c k s) then mc_goto w (MLock k p True (AftHot k p cs)) s
      else mc_write_listed w k p cs s)"

text \<open>The wait on a write-locked record; \<open>x\<close> is what an empty list gives for \<^verbatim>\<open>back\<close>.\<close>

definition mc_spin :: "nat \<Rightarrow> key \<Rightarrow> bool \<Rightarrow> u64 \<Rightarrow> mc_call list \<Rightarrow> u64 \<Rightarrow> mc_sys \<Rightarrow> mc_sys" where
  "mc_spin w k rw expected cs x s =
     (let t = mc_txs s w; back = (if m_CLL t = [] then take_bit 32 x else le_wide (last (m_CLL t))) in
      if m_rwlock (mc_table s (get_tuple k)) = - 1 then
        (if k < back
         then mc_to_abort w ((if rw then mc_push_write k (get_tuple k) else id) (mc_push_failed k t)) s
         else mc_goto w (MLoad k rw cs) s)
      else mc_goto w (MCopy k rw expected cs) s)"

definition mc_copied :: "mc_config \<Rightarrow> key \<Rightarrow> mc_sys \<Rightarrow> mc_tx \<Rightarrow> mc_tx" where
  "mc_copied c k s t = t\<lparr>m_return_val := memcpy (m_return_val t) (m_val (mc_table s (get_tuple k))) (mc_val_size c)\<rparr>"

definition mc_read_end :: "nat \<Rightarrow> key \<Rightarrow> bool \<Rightarrow> u64 \<Rightarrow> mc_call list \<Rightarrow> mc_tx \<Rightarrow> mc_sys \<Rightarrow> mc_sys" where
  "mc_read_end w k rw tid cs t s =
     mc_upd w ((if rw then mc_push_write k (get_tuple k) else id) (mc_push_read k tid t)) (MCalls cs) s"

definition mc_check :: "nat \<Rightarrow> key \<Rightarrow> bool \<Rightarrow> u64 \<Rightarrow> mc_call list \<Rightarrow> mc_sys \<Rightarrow> mc_sys" where
  "mc_check w k rw expected cs s =
     (let desired = m_tidword (mc_table s (get_tuple k)) in
      if expected = desired then mc_read_end w k rw expected cs (mc_txs s w) s
      else mc_goto w (MSpin k rw desired cs) s)"

section \<open>Commit\<close>

definition mc_validate :: "nat \<Rightarrow> nat \<Rightarrow> mc_sys \<Rightarrow> mc_sys" where
  "mc_validate w i s =
     (let t = mc_txs s w; r = m_read_set t ! i in
      if mc_read_changed r (m_tidword (mc_table s (mr_rcdptr r))) then mc_to_abort w (mc_fail_read i t) s
      else mc_goto w (MValLock i) s)"

definition mc_validate_lock :: "nat \<Rightarrow> nat \<Rightarrow> mc_sys \<Rightarrow> mc_sys" where
  "mc_validate_lock w i s =
     (let t = mc_txs s w; r = m_read_set t ! i in
      if m_rwlock (mc_table s (mr_rcdptr r)) = - 1 \<and> mc_searchWriteSet (mr_key r) t = None
      then mc_to_abort w (mc_fail_read i t) s else mc_goto w (MValMax i) s)"

definition mc_validate_max :: "nat \<Rightarrow> nat \<Rightarrow> mc_sys \<Rightarrow> mc_sys" where
  "mc_validate_max w i s =
     (let t = mc_txs s w; r = m_read_set t ! i in
      mc_upd w (t\<lparr>m_max_rset := max (m_max_rset t) (m_tidword (mc_table s (mr_rcdptr r)))\<rparr>) (MVal (Suc i)) s)"

definition mc_record :: "nat \<Rightarrow> mc_tx \<Rightarrow> mc_ctx" where
  "mc_record val_size t =
     \<lparr>cx_rec = \<lparr>tx_reads = map (\<lambda>r. (mr_key r, mr_val r)) (m_read_set t),
               tx_writes = map (\<lambda>e. (mw_key e, \<lambda>old. memcpy old (m_write_val t) val_size)) (m_write_set t)\<rparr>,
      cx_locked = map le_lock (m_CLL t)\<rparr>"

text \<open>The end of \<^verbatim>\<open>commit\<close> and the start of \<^verbatim>\<open>writePhase\<close>.\<close>

definition mc_commit :: "mc_config \<Rightarrow> nat \<Rightarrow> mc_sys \<Rightarrow> mc_sys" where
  "mc_commit c w s =
     (let t = mc_txs s w; maxtid = mc_commit_tid (mc_ThLocalEpoch s w) t in
      (mc_upd w (t\<lparr>m_mrctid := maxtid\<rparr>) (MWrite (m_write_set t) maxtid) s)
        \<lparr>mc_com := mc_com s @ [mc_record (mc_val_size c) t],
         mc_wrapped := (mc_wrapped s \<or> unat (mt_tid (max (m_max_rset t) (m_max_wset t))) = 2 ^ 32 - 1)\<rparr>)"

definition mc_write_val :: "mc_config \<Rightarrow> nat \<Rightarrow> mc_welem \<Rightarrow> mc_sys \<Rightarrow> mc_sys" where
  "mc_write_val c w e s =
     (let r = mc_table s (mw_rcdptr e) in
      s\<lparr>mc_table := (mc_table s)(mw_rcdptr e := r\<lparr>m_val := memcpy (m_val r) (m_write_val (mc_txs s w)) (mc_val_size c)\<rparr>)\<rparr>)"

definition mc_write_tid :: "mc_welem \<Rightarrow> u64 \<Rightarrow> mc_sys \<Rightarrow> mc_sys" where
  "mc_write_tid e maxtid s =
     s\<lparr>mc_table := (mc_table s)(mw_rcdptr e := (mc_table s (mw_rcdptr e))\<lparr>m_tidword := maxtid\<rparr>)\<rparr>"

text \<open>\<^verbatim>\<open>unlockCLL\<close>, then the end of \<^verbatim>\<open>writePhase\<close> or the start of \<^verbatim>\<open>construct_RLL\<close>.\<close>

definition mc_unlockCLL :: "nat \<Rightarrow> mc_lelem list \<Rightarrow> bool \<Rightarrow> mc_sys \<Rightarrow> mc_sys" where
  "mc_unlockCLL w es ok s =
     (let t = mc_txs s w in
      case es of
        e # es \<Rightarrow> mc_release e (mc_goto w (MUnl es ok) s)
      | [] \<Rightarrow>
          (if ok then mc_upd w (t\<lparr>m_CLL := [], m_RLL := [], m_read_set := [], m_write_set := []\<rparr>) MMake s
           else mc_upd w (t\<lparr>m_CLL := [], m_RLL := mc_write_locks (m_write_set t)\<rparr>) (MRll (m_read_set t)) s))"

section \<open>The retrospective lock list\<close>

definition mc_rll_next :: "nat \<Rightarrow> mc_relem list \<Rightarrow> mc_sys \<Rightarrow> mc_sys" where
  "mc_rll_next w rs s =
     (let t = mc_txs s w in
      case rs of
        r # rs \<Rightarrow> mc_goto w (if mr_failed r then MTLoad r rs else MTTest r rs) s
      | [] \<Rightarrow> mc_upd w (t\<lparr>m_RLL := sort_key le_key (m_RLL t), m_read_set := [], m_write_set := []\<rparr>) MRetry s)"

definition mc_temp_epoch :: "nat \<Rightarrow> mc_relem \<Rightarrow> mc_relem list \<Rightarrow> u64 \<Rightarrow> mc_sys \<Rightarrow> mc_sys" where
  "mc_temp_epoch w r rs expected s =
     (let nowepo = mc_GlobalEpoch s in
      if ep_epoch expected \<noteq> nowepo then mc_goto w (MTReset r rs expected (ep_make 0 nowepo)) s
      else mc_goto w (MTCas r rs expected) s)"

definition mc_temp_store :: "mc_config \<Rightarrow> key \<Rightarrow> u64 \<Rightarrow> mc_sys \<Rightarrow> mc_sys" where
  "mc_temp_store c k v s = s\<lparr>mc_EpotempAry := (mc_EpotempAry s)(mc_epotemp_index c k := v)\<rparr>"

definition mc_temp_cas :: "mc_config \<Rightarrow> nat \<Rightarrow> mc_relem \<Rightarrow> mc_relem list \<Rightarrow> u64 \<Rightarrow> u64 \<Rightarrow> mc_sys \<Rightarrow> mc_sys" where
  "mc_temp_cas c w r rs expected x s =
     (let done = mc_goto w (MTTest r rs) s; now = mc_temp_of c (mr_key r) s in
      if ep_temp expected = TEMP_MAX then done
      else if x mod 2 ^ unat (ep_temp expected) = 0 then
        (if now = expected
         then mc_temp_store c (mr_key r) (ep_make (ep_temp expected + 1) (ep_epoch expected)) done
         else mc_goto w (MTCas r rs now) s)
      else done)"

definition mc_temp_test :: "mc_config \<Rightarrow> nat \<Rightarrow> mc_relem \<Rightarrow> mc_relem list \<Rightarrow> mc_sys \<Rightarrow> mc_sys" where
  "mc_temp_test c w r rs s =
     (let t = mc_txs s w in
      if mc_searchRLL (mr_key r) (m_RLL t) \<noteq> None then mc_goto w (MRll rs) s
      else if TEMP_THRESHOLD \<le> ep_temp (mc_temp_of c (mr_key r) s) \<or> mr_failed r
      then mc_upd w (t\<lparr>m_RLL := m_RLL t @ [mc_lelem_of (mr_key r) (mr_rcdptr r) False]\<rparr>) (MRll rs) s
      else mc_goto w (MRll rs) s)"

section \<open>One step of worker \<open>w\<close>\<close>

fun mc_calls :: "procedure \<Rightarrow> mc_call" where
  "mc_calls p =
     (case p_ope p of READ \<Rightarrow> McRead (p_key p) | WRITE \<Rightarrow> McWrite (p_key p) | READ_MODIFY_WRITE \<Rightarrow> McRmw (p_key p))"

definition mc_step :: "mc_config \<Rightarrow> nat \<Rightarrow> procedure list \<Rightarrow> u64 \<Rightarrow> u64 \<Rightarrow> mc_sys \<Rightarrow> mc_sys" where
  "mc_step c w pro now x s =
     (let t = mc_txs s w; tid = (\<lambda>k. m_tidword (mc_table s k)) in
      case mc_pcs s w of
        MMake \<Rightarrow> (if mc_quit s then mc_goto w MStop s else mc_upd w (t\<lparr>m_pro_set := pro\<rparr>) MRetry s)
      | MRetry \<Rightarrow> (if w = 0 then mc_leaderWork c w now s else mc_goto w MQuit s)
      | MScan nowepo i stop \<Rightarrow> mc_chkEpochLoaded c w nowepo i stop s
      | MQuit \<Rightarrow> mc_goto w (if mc_quit s then MStop else MBegin) s
      | MBegin \<Rightarrow> mc_upd w (mc_begin t) (MCalls (map mc_calls (m_pro_set t))) s
      | MCalls (McRead k # cs) \<Rightarrow> mc_read_call w k cs s
      | MCalls (McWrite k # cs) \<Rightarrow> mc_write_call w k cs s
      | MCalls (McRmw k # cs) \<Rightarrow> mc_rmw_call w k cs s
      | MCalls [] \<Rightarrow> (let t' = mc_sort t in mc_upd w t' (MClock (m_write_set t')) s)
      | MTemp (McRead k) cs \<Rightarrow> mc_read_start c w k cs s
      | MTemp (McRmw k) cs \<Rightarrow> mc_rmw_start c w k cs s
      | MTemp (McWrite k) cs \<Rightarrow> mc_write_start c w k cs s
      | MLock k p mode aft \<Rightarrow> mc_lock w k p mode aft s
      | MRel es pre k p mode aft \<Rightarrow> mc_rel w es pre k p mode aft s
      | MTry k p mode up aft \<Rightarrow> mc_try w k p mode up aft (odd x) s
      | MAcq pre k p mode aft \<Rightarrow> mc_acq w pre k p mode aft s
      | MLoad k rw cs \<Rightarrow> mc_goto w (MSpin k rw (tid (get_tuple k)) cs) s
      | MSpin k rw expected cs \<Rightarrow> mc_spin w k rw expected cs x s
      | MCopy k rw expected cs \<Rightarrow> mc_upd w (mc_copied c k s t) (MCheck k rw expected cs) s
      | MCheck k rw expected cs \<Rightarrow> mc_check w k rw expected cs s
      | MLkLoad k rw cs \<Rightarrow> mc_goto w (MLkCopy k rw (tid (get_tuple k)) cs) s
      | MLkCopy k rw expected cs \<Rightarrow> mc_read_end w k rw expected cs (mc_copied c k s t) s
      | MClock (e # es) \<Rightarrow> mc_goto w (MLock (mw_key e) (mw_rcdptr e) True (AftCommit e es)) s
      | MClock [] \<Rightarrow> mc_goto w MEpochLoad s
      | MWset e es \<Rightarrow> mc_upd w (t\<lparr>m_max_wset := max (m_max_wset t) (tid (mw_rcdptr e))\<rparr>) (MClock es) s
      | MEpochLoad \<Rightarrow> mc_goto w (MEpochStore (mc_GlobalEpoch s)) s
      | MEpochStore e \<Rightarrow> (mc_goto w (MVal 0) s)\<lparr>mc_ThLocalEpoch := (mc_ThLocalEpoch s)(w := e)\<rparr>
      | MVal i \<Rightarrow> (if i < length (m_read_set t) then mc_validate w i s else mc_commit c w s)
      | MValLock i \<Rightarrow> mc_validate_lock w i s
      | MValMax i \<Rightarrow> mc_validate_max w i s
      | MWrite (e # es) maxtid \<Rightarrow> mc_write_val c w e (mc_goto w (MStore e es maxtid) s)
      | MStore e es maxtid \<Rightarrow> mc_write_tid e maxtid (mc_goto w (MWrite es maxtid) s)
      | MWrite [] maxtid \<Rightarrow> mc_goto w (MUnl (m_CLL t) True) s
      | MUnl es ok \<Rightarrow> mc_unlockCLL w es ok s
      | MRll rs \<Rightarrow> mc_rll_next w rs s
      | MTLoad r rs \<Rightarrow> mc_goto w (MTGE r rs (mc_temp_of c (mr_key r) s)) s
      | MTGE r rs expected \<Rightarrow> mc_temp_epoch w r rs expected s
      | MTReset r rs expected desired \<Rightarrow> mc_temp_store c (mr_key r) desired (mc_goto w (MTCas r rs expected) s)
      | MTCas r rs expected \<Rightarrow> mc_temp_cas c w r rs expected x s
      | MTTest r rs \<Rightarrow> mc_temp_test c w r rs s
      | MStop \<Rightarrow> s)"

section \<open>The system\<close>

text \<open>\<^verbatim>\<open>partTableInit\<close>: epoch 1 and tid 0 in every record, temperature 0 in epoch 1.\<close>

definition mc_init :: "mc_config \<Rightarrow> db \<Rightarrow> (nat \<Rightarrow> val) \<Rightarrow> u64 \<Rightarrow> mc_sys" where
  "mc_init c d wv now =
     \<lparr>mc_table = (\<lambda>k. \<lparr>m_tidword = mt_set_epoch 1 0, m_rwlock = 0, m_val = d k\<rparr>),
      mc_txs = (\<lambda>w. mc_new (mc_val_size c) (wv w)), mc_pcs = (\<lambda>_. MMake), mc_GlobalEpoch = 1,
      mc_ThLocalEpoch = (\<lambda>_. 0), mc_epoch_timer_start = now, mc_EpotempAry = (\<lambda>_. ep_make 0 1),
      mc_quit = False, mc_com = [], mc_wrapped = False\<rparr>"

definition mc_start :: "mc_config \<Rightarrow> db \<Rightarrow> mc_sys \<Rightarrow> bool" where
  "mc_start c d s \<longleftrightarrow>
     (\<exists>wv now. s = mc_init c d wv now \<and> (\<forall>w. length (wv w) = mc_val_size c) \<and> (\<forall>k. length (d k) = mc_val_size c))"

text \<open>What \<^verbatim>\<open>makeProcedure\<close> delivers: \<^verbatim>\<open>max_ope\<close> operations on records of the table.\<close>

definition mc_pro_ok :: "mc_config \<Rightarrow> procedure list \<Rightarrow> bool" where
  "mc_pro_ok c pro \<longleftrightarrow> length pro = mc_max_ope c \<and> (\<forall>p \<in> set pro. unat (p_key p) < mc_tuple_num c)"

definition mc_next_sys :: "mc_config \<Rightarrow> mc_sys \<Rightarrow> mc_sys \<Rightarrow> bool" where
  "mc_next_sys c s t \<longleftrightarrow>
     (\<exists>w pro now x. w < mc_workers c \<and> mc_pro_ok c pro \<and> t = mc_step c w pro now x s) \<or> t = s\<lparr>mc_quit := True\<rparr>"

abbreviation mc_reach :: "mc_config \<Rightarrow> db \<Rightarrow> mc_sys \<Rightarrow> bool" where
  "mc_reach c d \<equiv> reach (mc_start c d) (mc_next_sys c)"

fun mc_run :: "mc_config \<Rightarrow> (nat \<times> procedure list \<times> u64) list \<Rightarrow> mc_sys \<Rightarrow> mc_sys" where
  "mc_run c [] s = s"
| "mc_run c ((w, pro, x) # sched) s = mc_run c sched (mc_step c w pro 0 x s)"

lemma mc_step_reach:
  "mc_reach c d s \<Longrightarrow> w < mc_workers c \<Longrightarrow> mc_pro_ok c pro \<Longrightarrow> mc_reach c d (mc_step c w pro now x s)"
  by (rule reach_step) (auto simp: mc_next_sys_def)

lemma mc_run_reach:
  "mc_reach c d s \<Longrightarrow> \<forall>(w, pro, x) \<in> set sched. w < mc_workers c \<and> mc_pro_ok c pro \<Longrightarrow> mc_reach c d (mc_run c sched s)"
proof (induction sched arbitrary: s)
  case (Cons a sched)
  obtain w pro x where a: "a = (w, pro, x)" by (cases a)
  with Cons.prems have "mc_reach c d (mc_step c w pro 0 x s)" using mc_step_reach [OF Cons.prems(1)] by auto
  with Cons a show ?case by simp
qed simp

end
