(* ===== verification/Mocc_Proofs.thy ===== *)
theory Mocc_Proofs
  imports Mocc_System Lock_Table
begin

text \<open>
  The invariant of the MOCC executor: the shape of the local sets and lock lists, the locks against the
  lists of their holders, and the values. It is stated for tables of at most \<open>2 ^ 32\<close> records
  (\<^verbatim>\<open>key_\<close> of a lock element has 32 bits) and transactions of at most 100 operations, for which
  the branch of \<^verbatim>\<open>lock\<close> for too many violations is not entered.
\<close>

section \<open>Lock lists\<close>

definition le_ok :: "key set \<Rightarrow> mc_lelem \<Rightarrow> bool" where
  "le_ok K e \<longleftrightarrow> le_wide e = le_lock e \<and> le_lock e \<in> K"

abbreviation locks :: "mc_lelem list \<Rightarrow> key set" where
  "locks es \<equiv> le_lock ` set es"

text \<open>The access to each record that a list of held locks stands for.\<close>

definition mc_access :: "mc_lelem list \<Rightarrow> access" where
  "mc_access es k = map_option le_mode (search_set le_lock k es)"

lemma mc_access_Nil [simp]: "mc_access [] = (\<lambda>_. None)"
  by (simp add: mc_access_def fun_eq_iff)

lemma mc_access_Cons: "mc_access (e # es) = (mc_access es)(le_lock e := Some (le_mode e))"
  by (auto simp: mc_access_def fun_eq_iff)

lemma mc_access_None: "mc_access es k = None \<longleftrightarrow> k \<notin> locks es"
  by (simp add: mc_access_def search_set_None)

lemma mc_access_in:
  "distinct (map le_lock es) \<Longrightarrow> e \<in> set es \<Longrightarrow> mc_access es (le_lock e) = Some (le_mode e)"
  by (induction es) (auto simp: mc_access_Cons image_iff)

lemma mc_access_Some: "mc_access es k = Some m \<Longrightarrow> \<exists>e \<in> set es. le_lock e = k \<and> le_mode e = m"
  by (auto simp: mc_access_def dest: search_set_Some)

lemma mc_access_cong:
  assumes "distinct (map le_lock es)" "distinct (map le_lock es')" "set es = set es'"
  shows "mc_access es = mc_access es'"
proof
  fix k
  show "mc_access es k = mc_access es' k"
  proof (cases "mc_access es k")
    case None
    then show ?thesis using assms(3) by (metis mc_access_None)
  next
    case (Some m)
    then obtain e where "e \<in> set es" "le_lock e = k" "le_mode e = m" using mc_access_Some by blast
    with mc_access_in [OF assms(2), of e] assms(3) Some show ?thesis by simp
  qed
qed

lemma mc_access_tl:
  "le_lock e \<notin> locks es \<Longrightarrow> mc_access es = (mc_access (e # es))(le_lock e := None)"
  by (auto simp: mc_access_Cons fun_eq_iff mc_access_None)

lemma mc_access_snoc:
  "le_lock e \<notin> locks es \<Longrightarrow> distinct (map le_lock es) \<Longrightarrow>
   mc_access (es @ [e]) = (mc_access es)(le_lock e := Some (le_mode e))"
  unfolding mc_access_Cons [symmetric] by (rule mc_access_cong) auto

text \<open>Lists in increasing order of the records.\<close>

definition le_sorted :: "mc_lelem list \<Rightarrow> bool" where
  "le_sorted es \<longleftrightarrow> sorted_wrt (<) (map le_lock es)"

lemma le_sorted_distinct: "le_sorted es \<Longrightarrow> distinct (map le_lock es)"
  unfolding le_sorted_def strict_sorted_iff by simp

lemma le_sorted_simps [simp]:
  "le_sorted []" "le_sorted (e # es) \<longleftrightarrow> (\<forall>f \<in> set es. le_lock e < le_lock f) \<and> le_sorted es"
  by (simp_all add: le_sorted_def)

lemma le_sorted_snoc: "le_sorted es \<Longrightarrow> \<forall>f \<in> set es. le_lock f < le_lock e \<Longrightarrow> le_sorted (es @ [e])"
  by (simp add: le_sorted_def sorted_wrt_append)

lemma le_sorted_filter: "le_sorted es \<Longrightarrow> le_sorted (filter P es)"
  by (induction es) auto

lemma unat_le_wide: "unat (le_wide e) = unat (le_key e)"
proof -
  have "unat (le_key e) < 2 ^ 32" using unsigned_less [of "le_key e", where ?'a = nat] by simp
  then show ?thesis by (simp add: le_wide_def unsigned_ucast_eq take_bit_nat_eq_self)
qed

lemma le_key_mono: "le_wide a \<le> le_wide b \<Longrightarrow> le_key a \<le> le_key b"
  by (simp add: word_le_nat_alt unat_le_wide)

lemma le_sort_id:
  assumes "le_sorted es" "\<forall>e \<in> set es. le_ok K e"
  shows "sort_key le_key es = es"
proof (rule sort_key_id_if_sorted)
  show "sorted (map le_key es)" using assms
  proof (induction es)
    case (Cons a es)
    have "le_key a \<le> le_key f" if "f \<in> set es" for f
      using Cons.prems that by (intro le_key_mono) (auto simp: le_ok_def)
    with Cons show ?case by simp
  qed simp
qed

lemma le_split:
  assumes "le_sorted es" "\<forall>e \<in> set es. le_ok K e"
  shows "take (length es - mc_vioctr k es) es = filter (\<lambda>e. le_lock e < k) es \<and>
    drop (length es - mc_vioctr k es) es = filter (\<lambda>e. k \<le> le_lock e) es"
  using assms
proof (induction es)
  case (Cons a es)
  show ?case
  proof (cases "k \<le> le_lock a")
    case True
    then have "\<forall>f \<in> set (a # es). k \<le> le_lock f" using Cons.prems(1) by auto
    moreover have "\<forall>f \<in> set (a # es). le_wide f = le_lock f" using Cons.prems(2) by (simp add: le_ok_def)
    ultimately have all: "filter (\<lambda>e. k \<le> le_wide e) (a # es) = a # es" "filter (\<lambda>e. k \<le> le_lock e) (a # es) = a # es"
      "filter (\<lambda>e. le_lock e < k) (a # es) = []"
      by (auto simp: filter_id_conv filter_empty_conv not_less)
    then show ?thesis unfolding mc_vioctr_def all by simp
  next
    case False
    have "mc_vioctr k es \<le> length es" by (simp add: mc_vioctr_def)
    moreover have "mc_vioctr k (a # es) = mc_vioctr k es" using False Cons.prems(2) by (simp add: mc_vioctr_def le_ok_def)
    ultimately show ?thesis using Cons False by (simp add: Suc_diff_le)
  qed
qed simp

text \<open>The loop that should restore canonical order never locks anything: its bounds exclude each other.\<close>

lemma mc_prelock_empty: "mc_prelock (mc_threshold k cll) k rll = []"
proof (cases "List.find (\<lambda>e. k \<le> le_wide e) cll")
  case None
  then show ?thesis by (simp add: mc_prelock_def mc_threshold_def filter_empty_conv not_less)
next
  case (Some e)
  then have k: "k \<le> le_wide e" by (auto simp: find_Some_iff)
  have "le_key f \<le> le_key e" if "le_key f \<le> le_key e \<or> le_wide f < k" for f
    using that k le_key_mono [of f e] by auto
  then show ?thesis using Some
    by (auto simp: mc_prelock_def mc_threshold_def filter_empty_conv not_less dest: set_takeWhileD)
qed

section \<open>Well-formed workers\<close>

text \<open>The locks a worker holds: its list, and what it is about to release.\<close>

fun mc_held :: "mc_pc \<Rightarrow> mc_tx \<Rightarrow> mc_lelem list" where
  "mc_held (MRel es pre k p m aft) t = m_CLL t @ es"
| "mc_held (MUnl es ok) t = es"
| "mc_held pc t = m_CLL t"

fun mc_call_key :: "mc_call \<Rightarrow> key" where
  "mc_call_key (McRead k) = k" | "mc_call_key (McWrite k) = k" | "mc_call_key (McRmw k) = k"

definition mc_calls_ok :: "key set \<Rightarrow> mc_call list \<Rightarrow> bool" where
  "mc_calls_ok K cs \<longleftrightarrow> mc_call_key ` set cs \<subseteq> K"

abbreviation rkeys :: "mc_tx \<Rightarrow> key set" where
  "rkeys t \<equiv> mr_key ` set (m_read_set t)"

abbreviation wkeys :: "mc_tx \<Rightarrow> key set" where
  "wkeys t \<equiv> mw_key ` set (m_write_set t)"

text \<open>The elements of a part of the write set are write locked.\<close>

definition mc_wlocked :: "mc_tx \<Rightarrow> mc_welem list \<Rightarrow> bool" where
  "mc_wlocked t es \<longleftrightarrow> (\<forall>e \<in> set es. mc_access (m_CLL t) (mw_key e) = Some True)"

definition mc_split :: "mc_tx \<Rightarrow> mc_welem list \<Rightarrow> bool" where
  "mc_split t es \<longleftrightarrow> sorted_wrt (<) (map mw_key (m_write_set t)) \<and>
     (\<exists>done. m_write_set t = done @ es \<and> mc_wlocked t done)"

fun mc_aft_key :: "mc_after \<Rightarrow> key" where
  "mc_aft_key (AftRead k rw cs) = k"
| "mc_aft_key (AftHot k p cs) = k"
| "mc_aft_key (AftListed k p cs) = k"
| "mc_aft_key (AftCommit e es) = mw_key e"

fun mc_aft_ok :: "key set \<Rightarrow> mc_tx \<Rightarrow> mc_after \<Rightarrow> bool \<Rightarrow> bool" where
  "mc_aft_ok K t (AftRead k rw cs) m = (k \<in> K \<and> k \<notin> rkeys t \<and> k \<notin> wkeys t \<and> mc_calls_ok K cs)"
| "mc_aft_ok K t (AftHot k p cs) m = (k \<in> K \<and> p = k \<and> k \<notin> wkeys t \<and> mc_calls_ok K cs)"
| "mc_aft_ok K t (AftListed k p cs) m = (k \<in> K \<and> p = k \<and> k \<notin> wkeys t \<and> mc_calls_ok K cs)"
| "mc_aft_ok K t (AftCommit e es) m = (m \<and> mw_key e \<in> K \<and> mc_split t (e # es))"

fun mc_pc_wf :: "key set \<Rightarrow> mc_tx \<Rightarrow> mc_pc \<Rightarrow> bool" where
  "mc_pc_wf K t (MCalls cs) = mc_calls_ok K cs"
| "mc_pc_wf K t (MTemp cl cs) = (mc_calls_ok K (cl # cs) \<and> mc_call_key cl \<notin> wkeys t \<and>
     ((\<forall>k. cl \<noteq> McWrite k) \<longrightarrow> mc_call_key cl \<notin> rkeys t))"
| "mc_pc_wf K t (MLock k p m aft) = (p = k \<and> k = mc_aft_key aft \<and> mc_aft_ok K t aft m)"
| "mc_pc_wf K t (MRel es pre k p m aft) = (p = k \<and> k = mc_aft_key aft \<and> mc_aft_ok K t aft m \<and> pre = [] \<and>
     (\<forall>e \<in> set (m_CLL t). le_lock e < k) \<and> (\<forall>e \<in> set es. k \<le> le_lock e))"
| "mc_pc_wf K t (MTry k p m up aft) = False"
| "mc_pc_wf K t (MAcq pre k p m aft) = (p = k \<and> k = mc_aft_key aft \<and> mc_aft_ok K t aft m \<and> pre = [] \<and>
     (\<forall>e \<in> set (m_CLL t). le_lock e < k))"
| "mc_pc_wf K t (MLoad k rw cs) = (k \<in> K \<and> k \<notin> rkeys t \<and> k \<notin> wkeys t \<and> mc_calls_ok K cs)"
| "mc_pc_wf K t (MSpin k rw i cs) = (k \<in> K \<and> k \<notin> rkeys t \<and> k \<notin> wkeys t \<and> mc_calls_ok K cs)"
| "mc_pc_wf K t (MCopy k rw i cs) = (k \<in> K \<and> k \<notin> rkeys t \<and> k \<notin> wkeys t \<and> mc_calls_ok K cs)"
| "mc_pc_wf K t (MCheck k rw i cs) = (k \<in> K \<and> k \<notin> rkeys t \<and> k \<notin> wkeys t \<and> mc_calls_ok K cs)"
| "mc_pc_wf K t (MLkLoad k rw cs) = (k \<in> K \<and> k \<notin> rkeys t \<and> k \<notin> wkeys t \<and> mc_calls_ok K cs \<and> k \<in> locks (m_CLL t))"
| "mc_pc_wf K t (MLkCopy k rw i cs) = (k \<in> K \<and> k \<notin> rkeys t \<and> k \<notin> wkeys t \<and> mc_calls_ok K cs \<and> k \<in> locks (m_CLL t))"
| "mc_pc_wf K t (MClock es) = mc_split t es"
| "mc_pc_wf K t (MWset e es) = (mc_split t (e # es) \<and> mc_wlocked t [e])"
| "mc_pc_wf K t (MEpochLoad) = mc_split t []"
| "mc_pc_wf K t (MEpochStore g) = mc_split t []"
| "mc_pc_wf K t (MVal i) = mc_split t []"
| "mc_pc_wf K t (MValLock i) = (mc_split t [] \<and> i < length (m_read_set t))"
| "mc_pc_wf K t (MValMax i) = (mc_split t [] \<and> i < length (m_read_set t))"
| "mc_pc_wf K t (MWrite es tid) = (mc_split t [] \<and> (\<exists>done. m_write_set t = done @ es))"
| "mc_pc_wf K t (MStore e es tid) = (mc_split t [] \<and> (\<exists>done. m_write_set t = done @ e # es))"
| "mc_pc_wf K t (MUnl es ok) = ((\<forall>e \<in> set es. le_ok K e) \<and> le_sorted es)"
| "mc_pc_wf K t (MRll rs) = (m_CLL t = [] \<and> (\<forall>r \<in> set rs. mr_rcdptr r = mr_key r \<and> mr_key r \<in> K))"
| "mc_pc_wf K t (MTLoad r rs) = (m_CLL t = [] \<and> (\<forall>r \<in> set (r # rs). mr_rcdptr r = mr_key r \<and> mr_key r \<in> K))"
| "mc_pc_wf K t (MTGE r rs ep) = (m_CLL t = [] \<and> (\<forall>r \<in> set (r # rs). mr_rcdptr r = mr_key r \<and> mr_key r \<in> K))"
| "mc_pc_wf K t (MTReset r rs ep ep') = (m_CLL t = [] \<and> (\<forall>r \<in> set (r # rs). mr_rcdptr r = mr_key r \<and> mr_key r \<in> K))"
| "mc_pc_wf K t (MTCas r rs ep) = (m_CLL t = [] \<and> (\<forall>r \<in> set (r # rs). mr_rcdptr r = mr_key r \<and> mr_key r \<in> K))"
| "mc_pc_wf K t (MTTest r rs) = (m_CLL t = [] \<and> (\<forall>r \<in> set (r # rs). mr_rcdptr r = mr_key r \<and> mr_key r \<in> K))"
| "mc_pc_wf K t MMake = (m_CLL t = [] \<and> m_RLL t = [] \<and> m_read_set t = [] \<and> m_write_set t = [])"
| "mc_pc_wf K t pc = (m_CLL t = [] \<and> m_read_set t = [] \<and> m_write_set t = [])"

text \<open>The record a worker is locking or has just locked, not yet in a local set.\<close>

fun mc_cur :: "mc_pc \<Rightarrow> key set" where
  "mc_cur (MLock k p m aft) = {k}"
| "mc_cur (MRel es pre k p m aft) = {k}"
| "mc_cur (MLkLoad k rw cs) = {k}"
| "mc_cur (MLkCopy k rw i cs) = {k}"
| "mc_cur pc = {}"

definition mc_wf :: "mc_config \<Rightarrow> mc_tx \<Rightarrow> mc_pc \<Rightarrow> bool" where
  "mc_wf c t pc \<longleftrightarrow>
     (let K = p_key ` set (m_pro_set t) in
      length (m_pro_set t) \<le> mc_max_ope c \<and> (\<forall>k \<in> K. unat k < mc_tuple_num c) \<and>
      length (m_write_val t) = mc_val_size c \<and> length (m_return_val t) = mc_val_size c \<and>
      (\<forall>e \<in> set (m_CLL t) \<union> set (m_RLL t). le_ok K e) \<and> le_sorted (m_CLL t) \<and>
      (\<forall>r \<in> set (m_read_set t). mr_rcdptr r = mr_key r \<and> mr_key r \<in> K) \<and>
      (\<forall>e \<in> set (m_write_set t). mw_rcdptr e = mw_key e \<and> mw_key e \<in> K) \<and>
      distinct (map mw_key (m_write_set t)) \<and>
      locks (m_CLL t) \<subseteq> rkeys t \<union> wkeys t \<union> mc_cur pc \<and>
      (\<forall>e \<in> set (mc_held pc t). le_ok K e) \<and> distinct (map le_lock (mc_held pc t)) \<and>
      mc_pc_wf K t pc)"

end
