(* ===== verification/Mocc_Shape.thy ===== *)
theory Mocc_Shape
  imports Mocc_Proofs
begin

text \<open>Every step of a MOCC worker keeps the shape of its lists and is a move of the lock table.\<close>

section \<open>What a step does to its worker\<close>

abbreviation mc_L :: "mc_sys \<Rightarrow> key \<Rightarrow> u32" where
  "mc_L s k \<equiv> m_rwlock (mc_table s k)"

abbreviation mc_acc :: "mc_sys \<Rightarrow> nat \<Rightarrow> access" where
  "mc_acc s w \<equiv> mc_access (mc_held (mc_pcs s w) (mc_txs s w))"

definition mc_moved :: "mc_config \<Rightarrow> nat \<Rightarrow> mc_sys \<Rightarrow> mc_sys \<Rightarrow> bool" where
  "mc_moved c w s t \<longleftrightarrow> mc_wf c (mc_txs t w) (mc_pcs t w) \<and> lt_move (mc_L s) (mc_acc s w) (mc_L t) (mc_acc t w) \<and>
     (\<forall>v. v \<noteq> w \<longrightarrow> mc_txs t v = mc_txs s v \<and> mc_pcs t v = mc_pcs s v)"

abbreviation mc_wfs :: "mc_config \<Rightarrow> nat \<Rightarrow> mc_sys \<Rightarrow> bool" where
  "mc_wfs c w s \<equiv> mc_wf c (mc_txs s w) (mc_pcs s w)"

lemmas mc_upd_defs = mc_upd_def mc_goto_def mc_set_lock_def

text \<open>Steps that leave the locks and the list of held locks alone.\<close>

lemma mc_moved_keep:
  assumes "mc_wf c (mc_txs t w) (mc_pcs t w)" "mc_L t = mc_L s"
    and "mc_held (mc_pcs t w) (mc_txs t w) = mc_held (mc_pcs s w) (mc_txs s w)"
    and "\<And>v. v \<noteq> w \<Longrightarrow> mc_txs t v = mc_txs s v \<and> mc_pcs t v = mc_pcs s v"
  shows "mc_moved c w s t"
  using assms lt_keep by (simp add: mc_moved_def)

lemma mc_moved_goto:
  assumes "mc_wf c (mc_txs s w) pc" "mc_held pc (mc_txs s w) = mc_held (mc_pcs s w) (mc_txs s w)"
  shows "mc_moved c w s (mc_goto w pc s)"
  by (rule mc_moved_keep) (use assms in \<open>simp_all add: mc_goto_def\<close>)

lemma mc_moved_upd:
  assumes "mc_wf c t pc" "mc_held pc t = mc_held (mc_pcs s w) (mc_txs s w)"
  shows "mc_moved c w s (mc_upd w t pc s)"
  by (rule mc_moved_keep) (use assms in \<open>simp_all add: mc_upd_def\<close>)

text \<open>Going from one control point to another with the same lists.\<close>

definition mc_plain :: "mc_pc \<Rightarrow> bool" where
  "mc_plain pc \<longleftrightarrow> (\<forall>t. mc_held pc t = m_CLL t) \<and> mc_cur pc = {}"

lemma mc_plain_simps [simp]:
  "mc_plain MMake" "mc_plain MRetry" "mc_plain (MScan g n st)" "mc_plain MQuit" "mc_plain MBegin" "mc_plain (MCalls cs)"
  "mc_plain (MTemp cl cs)" "mc_plain (MAcq pre k p m aft)" "mc_plain (MLoad k rw cs)" "mc_plain (MSpin k rw i cs)"
  "mc_plain (MCopy k rw i cs)" "mc_plain (MCheck k rw i cs)" "mc_plain (MClock es)" "mc_plain (MWset e es)"
  "mc_plain MEpochLoad" "mc_plain (MEpochStore g)" "mc_plain (MVal n)" "mc_plain (MValLock n)" "mc_plain (MValMax n)"
  "mc_plain (MWrite es tid)" "mc_plain (MStore e es tid)" "mc_plain (MRll rs)" "mc_plain (MTLoad r rs)"
  "mc_plain (MTGE r rs ep)" "mc_plain (MTReset r rs ep ep')" "mc_plain (MTCas r rs ep)" "mc_plain (MTTest r rs)" "mc_plain MStop"
  by (simp_all add: mc_plain_def)

lemma mc_wf_plain:
  assumes "mc_wf c t pc" "mc_plain pc" "mc_plain pc'" "mc_pc_wf (p_key ` set (m_pro_set t)) t pc'"
  shows "mc_wf c t pc'"
  using assms by (simp add: mc_wf_def Let_def mc_plain_def)

lemma mc_moved_plain:
  assumes "mc_wfs c w s" "mc_plain (mc_pcs s w)" "mc_plain pc'"
    and "mc_pc_wf (p_key ` set (m_pro_set (mc_txs s w))) (mc_txs s w) pc'"
  shows "mc_moved c w s (mc_goto w pc' s)"
  by (rule mc_moved_goto) (use assms mc_wf_plain in \<open>auto simp: mc_plain_def\<close>)

text \<open>A change of the fields that no list depends on.\<close>

lemma mc_moved_same_lists:
  assumes "mc_wfs c w s" "mc_plain (mc_pcs s w)" "mc_plain pc'"
    and "m_pro_set t = m_pro_set (mc_txs s w)" "m_CLL t = m_CLL (mc_txs s w)" "m_RLL t = m_RLL (mc_txs s w)"
      "m_read_set t = m_read_set (mc_txs s w)" "m_write_set t = m_write_set (mc_txs s w)"
      "m_write_val t = m_write_val (mc_txs s w)" "length (m_return_val t) = mc_val_size c"
    and "mc_pc_wf (p_key ` set (m_pro_set t)) t pc'"
  shows "mc_moved c w s (mc_upd w t pc' s)"
  by (rule mc_moved_upd) (use assms in \<open>auto simp: mc_plain_def mc_wf_def Let_def\<close>)

section \<open>The leader, begin and the local part of the operations\<close>

lemma mc_moved_begin:
  assumes "mc_wfs c w s" "mc_pcs s w = MBegin"
  shows "mc_moved c w s (mc_upd w (mc_begin (mc_txs s w)) (MCalls (map mc_calls (m_pro_set (mc_txs s w)))) s)"
proof (rule mc_moved_same_lists [OF assms(1)])
  have "mc_call_key (mc_calls p) = p_key p" for p by (cases "p_ope p") simp_all
  then show "mc_pc_wf (p_key ` set (m_pro_set (mc_begin (mc_txs s w)))) (mc_begin (mc_txs s w)) (MCalls (map mc_calls (m_pro_set (mc_txs s w))))"
    by (auto simp: mc_calls_ok_def mc_begin_def)
qed (use assms in \<open>simp_all add: mc_begin_def mc_wf_def Let_def\<close>)

lemma mc_moved_make:
  assumes "mc_wfs c w s" "mc_pcs s w = MMake" "mc_pro_ok c pro"
  shows "mc_moved c w s (mc_upd w ((mc_txs s w)\<lparr>m_pro_set := pro\<rparr>) MRetry s)"
  by (rule mc_moved_upd) (use assms in \<open>auto simp: mc_wf_def Let_def mc_pro_ok_def\<close>)

section \<open>Pushing elements\<close>

lemma mc_search_None [simp]:
  "mc_searchWriteSet k t = None \<longleftrightarrow> k \<notin> wkeys t" "mc_searchReadSet k t = None \<longleftrightarrow> k \<notin> rkeys t"
  by (simp_all add: mc_searchWriteSet_def mc_searchReadSet_def search_set_None)

lemma mc_write_tuple_id:
  assumes "mc_wf c t pc"
  shows "mc_write_tuple k t = k"
  using assms search_set_Some
  by (fastforce simp: mc_write_tuple_def mc_searchReadSet_def mc_wf_def Let_def get_tuple_def split: option.splits)

lemma mc_lelem_of_ok:
  assumes "unat k < mc_tuple_num c" "mc_tuple_num c \<le> 2 ^ 32" "k \<in> K"
  shows "le_ok K (mc_lelem_of k k m)"
proof -
  have lt: "unat k < 2 ^ 32" using assms(1,2) by linarith
  have "unat (ucast (ucast k :: u32) :: key) = unat k"
    using lt by (simp add: unsigned_ucast_eq unsigned_take_bit_eq take_bit_nat_eq_self)
  then have "(ucast (ucast k :: u32) :: key) = k" by (rule word_unat_eq_iff [THEN iffD2])
  with assms(3) show ?thesis by (simp add: le_ok_def le_wide_def mc_lelem_of_def)
qed

lemma mc_wf_push_write:
  assumes "mc_wf c t pc" "mc_held pc t = m_CLL t" "mc_cur pc \<subseteq> {k}" "k \<in> p_key ` set (m_pro_set t)"
    and "k \<notin> wkeys t" "mc_calls_ok (p_key ` set (m_pro_set t)) cs"
  shows "mc_wf c (mc_push_write k k t) (MCalls cs)"
  using assms by (auto simp: mc_wf_def Let_def mc_push_write_def)

lemma mc_wf_push_read:
  assumes "mc_wf c t pc" "mc_held pc t = m_CLL t" "mc_cur pc \<subseteq> {k}" "k \<in> p_key ` set (m_pro_set t)"
    and "mc_calls_ok (p_key ` set (m_pro_set t)) cs"
  shows "mc_wf c (mc_push_read k tid t) (MCalls cs)"
  using assms by (auto simp: mc_wf_def Let_def mc_push_read_def get_tuple_def)

lemma mc_wf_read_end:
  assumes "mc_wf c t pc" "mc_held pc t = m_CLL t" "mc_cur pc \<subseteq> {k}" "k \<in> p_key ` set (m_pro_set t)"
    and "k \<notin> wkeys t" "mc_calls_ok (p_key ` set (m_pro_set t)) cs"
  shows "mc_wf c ((if rw then mc_push_write k k else id) (mc_push_read k tid t)) (MCalls cs)"
proof -
  note r = mc_wf_push_read [OF assms(1-4,6), of tid]
  have "mc_wf c (mc_push_write k k (mc_push_read k tid t)) (MCalls cs)"
    by (rule mc_wf_push_write [OF r]) (use assms in \<open>simp_all add: mc_push_read_def\<close>)
  with r show ?thesis by simp
qed

lemma mc_wf_to_abort:
  assumes "mc_wf c t pc" "mc_held pc t = m_CLL t" "mc_cur pc = {}"
  shows "mc_wf c (t\<lparr>m_status := MAborted\<rparr>) (MUnl (m_CLL t) False)"
  using assms by (auto simp: mc_wf_def Let_def)

lemma mc_wf_fail_read:
  assumes "mc_wf c t pc" "mc_held pc t = m_CLL t" "mc_cur pc = {}" "i < length (m_read_set t)"
  shows "mc_wf c ((mc_fail_read i t)\<lparr>m_status := MAborted\<rparr>) (MUnl (m_CLL t) False)"
proof -
  let ?r = "(m_read_set t ! i)\<lparr>mr_failed := True\<rparr>"
  have keys: "map mr_key ((m_read_set t)[i := ?r]) = map mr_key (m_read_set t)"
    using assms(4) by (simp add: map_update list_update_same_conv)
  then have "mr_key ` set ((m_read_set t)[i := ?r]) = rkeys t" by (metis set_map)
  moreover have "set ((m_read_set t)[i := ?r]) \<subseteq> insert ?r (set (m_read_set t))" by (rule set_update_subset_insert)
  moreover have "mr_rcdptr ?r = mr_key ?r \<and> mr_key ?r \<in> p_key ` set (m_pro_set t)"
    using assms(1) nth_mem [OF assms(4)] by (simp add: mc_wf_def Let_def)
  moreover have "\<forall>r \<in> set (m_read_set t). mr_rcdptr r = mr_key r \<and> mr_key r \<in> p_key ` set (m_pro_set t)"
    using assms(1) by (simp add: mc_wf_def Let_def)
  ultimately have "\<forall>r \<in> set ((m_read_set t)[i := ?r]). mr_rcdptr r = mr_key r \<and> mr_key r \<in> p_key ` set (m_pro_set t)"
    and "mr_key ` set ((m_read_set t)[i := ?r]) = rkeys t" by blast+
  then show ?thesis using assms(1-3) by (auto simp: mc_wf_def Let_def mc_fail_read_def)
qed

section \<open>Calls\<close>

lemma mc_wf_K:
  assumes "mc_wf c t pc"
  shows "k \<in> p_key ` set (m_pro_set t) \<Longrightarrow> unat k < mc_tuple_num c"
    and "length (m_pro_set t) \<le> mc_max_ope c"
  using assms by (auto simp: mc_wf_def Let_def)

lemma mc_wf_pc: "mc_wf c t pc \<Longrightarrow> mc_pc_wf (p_key ` set (m_pro_set t)) t pc"
  by (simp add: mc_wf_def Let_def)

lemma mc_moved_read_call:
  assumes "mc_wfs c w s" "mc_pcs s w = MCalls (McRead k # cs)"
  shows "mc_moved c w s (mc_read_call w k cs s)"
  using assms mc_wf_pc [OF assms(1)] unfolding mc_read_call_def Let_def
  by (auto intro!: mc_moved_plain simp: mc_calls_ok_def)

lemma mc_moved_write_call:
  assumes "mc_wfs c w s" "mc_pcs s w = MCalls (McWrite k # cs)"
  shows "mc_moved c w s (mc_write_call w k cs s)"
  using assms mc_wf_pc [OF assms(1)] unfolding mc_write_call_def Let_def
  by (auto intro!: mc_moved_plain simp: mc_calls_ok_def)

lemma mc_moved_write_end:
  assumes "mc_wfs c w s" "mc_plain (mc_pcs s w)" "k \<in> p_key ` set (m_pro_set (mc_txs s w))"
    and "k \<notin> wkeys (mc_txs s w)" "mc_calls_ok (p_key ` set (m_pro_set (mc_txs s w))) cs"
  shows "mc_moved c w s (mc_write_end w k k cs s)"
  unfolding mc_write_end_def
proof (rule mc_moved_upd)
  show "mc_wf c (mc_push_write k k (mc_txs s w)) (MCalls cs)"
    by (rule mc_wf_push_write [OF assms(1)]) (use assms in \<open>simp_all add: mc_plain_def\<close>)
qed (use assms(2) in \<open>simp add: mc_plain_def mc_push_write_def\<close>)

lemma mc_moved_rmw_call:
  assumes "mc_wfs c w s" "mc_pcs s w = MCalls (McRmw k # cs)"
  shows "mc_moved c w s (mc_rmw_call w k cs s)"
  using assms mc_wf_pc [OF assms(1)] unfolding mc_rmw_call_def Let_def mc_write_tuple_id [OF assms(1)]
  by (auto intro!: mc_moved_plain mc_moved_write_end simp: mc_calls_ok_def)

lemma mc_wf_lock:
  assumes "mc_wf c t pc" "mc_plain pc" "mc_aft_ok (p_key ` set (m_pro_set t)) t aft m" "k = mc_aft_key aft"
  shows "mc_wf c t (MLock k k m aft)"
  using assms by (auto simp: mc_wf_def Let_def mc_plain_def)

lemma mc_moved_lock_start:
  assumes "mc_wfs c w s" "mc_plain (mc_pcs s w)" "mc_aft_ok (p_key ` set (m_pro_set (mc_txs s w))) (mc_txs s w) aft m"
    and "k = mc_aft_key aft"
  shows "mc_moved c w s (mc_goto w (MLock k k m aft) s)"
  by (rule mc_moved_goto) (use mc_wf_lock [OF assms] assms(2) in \<open>auto simp: mc_plain_def\<close>)

lemma mc_moved_read_start:
  assumes "mc_wfs c w s" "mc_pcs s w = MTemp (McRead k) cs"
  shows "mc_moved c w s (mc_read_start c w k cs s)"
  using assms mc_wf_pc [OF assms(1)] unfolding mc_read_start_def
  by (auto intro!: mc_moved_plain mc_moved_lock_start simp: mc_calls_ok_def get_tuple_def split: option.splits)

lemma mc_moved_rmw_start:
  assumes "mc_wfs c w s" "mc_pcs s w = MTemp (McRmw k) cs"
  shows "mc_moved c w s (mc_rmw_start c w k cs s)"
  using assms mc_wf_pc [OF assms(1)] unfolding mc_rmw_start_def
  by (auto intro!: mc_moved_plain mc_moved_lock_start simp: mc_calls_ok_def get_tuple_def split: option.splits)

lemma mc_moved_write_start:
  assumes "mc_wfs c w s" "mc_pcs s w = MTemp (McWrite k) cs"
  shows "mc_moved c w s (mc_write_start c w k cs s)"
  using assms mc_wf_pc [OF assms(1)] unfolding mc_write_start_def Let_def mc_write_tuple_id [OF assms(1)] mc_write_listed_def
  by (auto intro!: mc_moved_write_end mc_moved_lock_start simp: mc_calls_ok_def)

end
