(* ===== verification/Mocc_Moves.thy ===== *)
theory Mocc_Moves
  imports Mocc_Shape
begin

text \<open>The operations of \<^verbatim>\<open>lock\<close>, the reads and the commit of a MOCC worker as moves of the lock table.\<close>

section \<open>After a lock\<close>

lemma mc_resume_wf:
  assumes wf: "mc_wf c (mc_txs s w) (MLock k k m aft)" and k: "k \<in> locks (m_CLL (mc_txs s w))"
    and m: "m \<Longrightarrow> mc_access (m_CLL (mc_txs s w)) k = Some True"
  shows "mc_wfs c w (mc_resume w aft s) \<and> mc_table (mc_resume w aft s) = mc_table s \<and>
    mc_held (mc_pcs (mc_resume w aft s) w) (mc_txs (mc_resume w aft s) w) = m_CLL (mc_txs s w) \<and>
    (\<forall>v. v \<noteq> w \<longrightarrow> mc_txs (mc_resume w aft s) v = mc_txs s v \<and> mc_pcs (mc_resume w aft s) v = mc_pcs s v)"
proof -
  let ?t = "mc_txs s w"
  have pc: "k = mc_aft_key aft" "mc_aft_ok (p_key ` set (m_pro_set ?t)) ?t aft m" using mc_wf_pc [OF wf] by simp_all
  have push: "mc_wf c (mc_push_write k k ?t) (MCalls cs)"
    if "k \<in> p_key ` set (m_pro_set ?t)" "k \<notin> wkeys ?t" "mc_calls_ok (p_key ` set (m_pro_set ?t)) cs" for cs
    by (rule mc_wf_push_write [OF wf]) (use that in simp_all)
  show ?thesis
  proof (cases aft)
    case (AftRead k' rw cs)
    with pc k wf show ?thesis by (auto simp: mc_resume_def mc_goto_def mc_wf_def Let_def)
  next
    case (AftHot k' p cs)
    with pc have *: "k' = k" "p = k" "k \<in> p_key ` set (m_pro_set ?t)" "k \<notin> wkeys ?t"
      "mc_calls_ok (p_key ` set (m_pro_set ?t)) cs" by simp_all
    have "mc_wf c ?t (MLock k k True (AftListed k k cs))"
      using wf * by (auto simp: mc_wf_def Let_def)
    then show ?thesis using AftHot * push [OF *(3-5)]
      by (auto simp: mc_resume_def mc_write_listed_def mc_write_end_def mc_upd_defs mc_push_write_def)
  next
    case (AftListed k' p cs)
    with pc have *: "k' = k" "p = k" "k \<in> p_key ` set (m_pro_set ?t)" "k \<notin> wkeys ?t"
      "mc_calls_ok (p_key ` set (m_pro_set ?t)) cs" by simp_all
    then show ?thesis using AftListed push [OF *(3-5)]
      by (auto simp: mc_resume_def mc_write_end_def mc_upd_defs mc_push_write_def)
  next
    case (AftCommit e es)
    with pc have *: "m" "mw_key e = k" "mc_split ?t (e # es)" by simp_all
    have "k \<in> wkeys ?t" using * by (auto simp: mc_split_def)
    moreover have "mc_wlocked ?t [e]" using m * by (simp add: mc_wlocked_def)
    ultimately show ?thesis using AftCommit * wf
      by (auto simp: mc_resume_def mc_goto_def mc_wf_def Let_def)
  qed
qed

section \<open>Lock\<close>

lemma mc_wf_sorted:
  assumes "mc_wf c t pc"
  shows "le_sorted (m_CLL t)" "\<forall>e \<in> set (m_CLL t). le_ok (p_key ` set (m_pro_set t)) e"
    "distinct (map le_lock (m_CLL t))"
  using assms le_sorted_distinct [of "m_CLL t"] by (simp_all add: mc_wf_def Let_def)

text \<open>Fewer violations than operations.\<close>

lemma mc_vio_le:
  assumes "mc_wf c t pc" "mc_max_ope c \<le> 100"
  shows "mc_vioctr k (m_CLL t) \<le> 100"
proof -
  have "mc_vioctr k (m_CLL t) \<le> length (m_CLL t)" by (simp add: mc_vioctr_def)
  also have "\<dots> = card (locks (m_CLL t))" using distinct_card [OF mc_wf_sorted(3) [OF assms(1)]] by simp
  also have "\<dots> \<le> card (p_key ` set (m_pro_set t))"
    using mc_wf_sorted(2) [OF assms(1)] by (intro card_mono) (auto simp: le_ok_def)
  also have "\<dots> \<le> length (m_pro_set t)" using card_image_le card_length order.trans by blast
  also have "\<dots> \<le> 100" using mc_wf_K(2) [OF assms(1)] assms(2) by simp
  finally show ?thesis .
qed

lemma mc_access_filter:
  "distinct (map le_lock es) \<Longrightarrow> mc_access (filter (\<lambda>e. P (le_lock e)) es) k = (if P k then mc_access es k else None)"
  by (induction es) (auto simp: mc_access_Cons)

lemma mc_split_filter:
  assumes "mc_split t (e # es)" "distinct (map le_lock (m_CLL t))"
  shows "mc_split (t\<lparr>m_CLL := filter (\<lambda>f. le_lock f < mw_key e) (m_CLL t)\<rparr>) (e # es)"
proof -
  obtain ds where d: "m_write_set t = ds @ e # es" "mc_wlocked t ds" using assms(1) by (auto simp: mc_split_def)
  have "\<forall>f \<in> set ds. mw_key f < mw_key e" using assms(1) d(1) by (auto simp: mc_split_def sorted_wrt_append)
  then have "mc_wlocked (t\<lparr>m_CLL := filter (\<lambda>f. le_lock f < mw_key e) (m_CLL t)\<rparr>) ds"
    using d(2) mc_access_filter [OF assms(2), of "\<lambda>k. k < mw_key e"] by (simp add: mc_wlocked_def)
  then show ?thesis using assms(1) d(1) by (auto simp: mc_split_def)
qed

lemma mc_moved_lock:
  assumes wf: "mc_wfs c w s" and pc: "mc_pcs s w = MLock k p m aft" and ope: "mc_max_ope c \<le> 100"
  shows "mc_moved c w s (mc_lock w k p m aft s)"
proof -
  let ?t = "mc_txs s w" and ?K = "p_key ` set (m_pro_set (mc_txs s w))"
  note cll = mc_wf_sorted [OF wf]
  have sort: "sort_key le_key (m_CLL ?t) = m_CLL ?t" using le_sort_id [OF cll(1,2)] .
  have pk: "p = k" "k = mc_aft_key aft" "mc_aft_ok ?K ?t aft m" using mc_wf_pc [OF wf] pc by simp_all
  have same: "mc_upd w ?t (mc_pcs s w) s = s" by (simp add: mc_upd_def)
  show ?thesis
  proof (cases "mc_has k m (m_CLL ?t)")
    case True
    then obtain e where e: "e \<in> set (m_CLL ?t)" "le_wide e = k" "m = le_mode e \<or> m < le_mode e"
      by (auto simp: mc_has_def)
    with cll(2) have "le_lock e = k" by (auto simp: le_ok_def)
    with mc_access_in [OF cll(3) e(1)] e imageI [OF e(1), of le_lock] have "k \<in> locks (m_CLL ?t)" "m \<Longrightarrow> mc_access (m_CLL ?t) k = Some True" by auto
    from mc_resume_wf [OF _ this, of c] wf pc pk(1) have r: "mc_wfs c w (mc_resume w aft s) \<and>
      mc_table (mc_resume w aft s) = mc_table s \<and>
      mc_held (mc_pcs (mc_resume w aft s) w) (mc_txs (mc_resume w aft s) w) = m_CLL ?t \<and>
      (\<forall>v. v \<noteq> w \<longrightarrow> mc_txs (mc_resume w aft s) v = mc_txs s v \<and> mc_pcs (mc_resume w aft s) v = mc_pcs s v)" by simp
    have "mc_lock w k p m aft s = mc_resume w aft s"
      using True same by (simp add: mc_lock_def Let_def sort)
    with r show ?thesis by (intro mc_moved_keep) (simp_all add: pc)
  next
    case False
    let ?n = "length (m_CLL ?t) - mc_vioctr k (m_CLL ?t)"
    let ?lo = "filter (\<lambda>e. le_lock e < k) (m_CLL ?t)" and ?hi = "filter (\<lambda>e. k \<le> le_lock e) (m_CLL ?t)"
    have sp: "take ?n (m_CLL ?t) = ?lo" "drop ?n (m_CLL ?t) = ?hi" using le_split [OF cll(1,2), of k] by blast+
    have "mc_vioctr k (m_CLL ?t) \<le> 100" by (rule mc_vio_le [OF wf ope])
    with False sp have t: "mc_lock w k p m aft s = mc_upd w (?t\<lparr>m_CLL := ?lo\<rparr>) (MRel ?hi [] k k m aft) s"
      by (simp add: mc_lock_def Let_def sort mc_prelock_empty pk(1) not_less)
    have aft: "mc_aft_ok ?K (?t\<lparr>m_CLL := ?lo\<rparr>) aft m"
      using pk(2,3) mc_split_filter [OF _ cll(3)] by (cases aft) simp_all
    have dist: "distinct (map le_lock (?lo @ ?hi))"
      using cll(3) by (auto simp: distinct_map_filter)
    have wf': "mc_wf c (?t\<lparr>m_CLL := ?lo\<rparr>) (MRel ?hi [] k k m aft)"
      using wf pc pk aft dist le_sorted_filter [OF cll(1)] by (auto simp: mc_wf_def Let_def)
    have "mc_access (?lo @ ?hi) = mc_access (m_CLL ?t)"
      by (rule mc_access_cong [OF dist cll(3)]) auto
    then show ?thesis using wf' lt_keep unfolding t by (simp add: mc_moved_def mc_upd_def pc)
  qed
qed

lemma mc_moved_rel:
  assumes wf: "mc_wfs c w s" and pc: "mc_pcs s w = MRel es pre k p m aft"
  shows "mc_moved c w s (mc_rel w es pre k p m aft s)"
proof (cases es)
  case Nil
  let ?t = "mc_txs s w"
  have "mc_pc_wf (p_key ` set (m_pro_set ?t)) ?t (MRel es pre k p m aft)" using mc_wf_pc [OF wf] unfolding pc .
  then have pcw: "mc_pc_wf (p_key ` set (m_pro_set ?t)) ?t (MAcq pre k p m aft)" unfolding mc_pc_wf.simps by blast
  then have "k \<notin> locks (m_CLL ?t)" by auto
  moreover have "locks (m_CLL ?t) \<subseteq> rkeys ?t \<union> wkeys ?t \<union> {k}"
    using wf unfolding mc_wf_def Let_def pc mc_cur.simps by blast
  ultimately have "locks (m_CLL ?t) \<subseteq> rkeys ?t \<union> wkeys ?t \<union> mc_cur (MAcq pre k p m aft)" by auto
  with pc pcw Nil have "mc_moved c w s (mc_goto w (MAcq pre k p m aft) s)"
    using wf by (intro mc_moved_goto) (simp_all add: mc_wf_def Let_def del: mc_pc_wf.simps)
  then show ?thesis using Nil by (simp add: mc_rel_def)
next
  case (Cons e fs)
  let ?t = "mc_txs s w"
  have d: "distinct (map le_lock (m_CLL ?t @ e # fs))" using wf pc Cons by (simp add: mc_wf_def Let_def)
  have acc: "mc_acc s w = mc_access (e # m_CLL ?t @ fs)"
    using pc Cons d mc_access_cong [of "m_CLL ?t @ e # fs" "e # m_CLL ?t @ fs"] by auto
  have wf': "mc_wf c ?t (MRel fs pre k p m aft)" using wf pc Cons by (auto simp: mc_wf_def Let_def)
  have e: "le_lock e \<notin> locks (m_CLL ?t @ fs)" using d by auto
  let ?n = "m_rwlock (mc_table s (le_lock e))"
  have L: "mc_L (mc_rel w es pre k p m aft s) = (mc_L s)(le_lock e := if le_mode e then w_rel ?n else r_rel ?n)"
    using Cons by (auto simp: mc_rel_def mc_release_def mc_upd_defs Let_def)
  define A where "A = mc_access (e # m_CLL ?t @ fs)"
  have at: "A (le_lock e) = Some (le_mode e)" by (simp add: A_def mc_access_Cons)
  have "lt_move (mc_L s) A (mc_L (mc_rel w es pre k p m aft s)) (A(le_lock e := None))"
    unfolding L using at lt_unwrite [of A "le_lock e"] lt_unread [of A "le_lock e"] by (cases "le_mode e") simp_all
  then have "lt_move (mc_L s) (mc_access (e # m_CLL ?t @ fs)) (mc_L (mc_rel w es pre k p m aft s)) (mc_access (m_CLL ?t @ fs))"
    unfolding A_def mc_access_tl [OF e, symmetric] .
  then show ?thesis using wf' Cons
    by (simp add: mc_moved_def acc mc_rel_def mc_release_def mc_upd_defs Let_def)
qed

lemma mc_moved_acq:
  assumes wf: "mc_wfs c w s" and pc: "mc_pcs s w = MAcq pre k p m aft" and num: "mc_tuple_num c \<le> 2 ^ 32"
  shows "mc_moved c w s (mc_acq w pre k p m aft s)"
proof -
  let ?t = "mc_txs s w" and ?K = "p_key ` set (m_pro_set (mc_txs s w))" and ?e = "mc_lelem_of k k m"
  have "mc_pc_wf ?K ?t (MAcq pre k p m aft)" using mc_wf_pc [OF wf] unfolding pc .
  then have *: "p = k" "k = mc_aft_key aft" "mc_aft_ok ?K ?t aft m" "pre = []" "\<forall>e \<in> set (m_CLL ?t). le_lock e < k"
    unfolding mc_pc_wf.simps by blast+
  note cll = mc_wf_sorted [OF wf]
  have kK: "k \<in> ?K" using *(2,3) wf by (cases aft) (auto simp: mc_wf_def Let_def)
  have le: "le_lock ?e = k" "le_mode ?e = m" by (simp_all add: mc_lelem_of_def)
  have fresh: "k \<notin> locks (m_CLL ?t)" using *(5) by auto
  let ?n = "m_rwlock (mc_table s k)" and ?x = "?t\<lparr>m_CLL := m_CLL ?t @ [?e]\<rparr>"
  have acq: "mc_acq w pre k p m aft s = (case (if m then w_acq ?n else r_acq ?n) of None \<Rightarrow> s
      | Some n' \<Rightarrow> mc_resume w aft (mc_set_lock k n' (mc_upd w ?x (mc_pcs s w) s)))"
    using *(1,4) by (simp add: mc_acq_def mc_take_def Let_def le cong: option.case_cong)
  show ?thesis
  proof (cases "if m then w_acq ?n else r_acq ?n")
    case None
    then have "mc_acq w pre k p m aft s = s" using acq by simp
    then show ?thesis using wf lt_keep by (simp add: mc_moved_def)
  next
    case (Some n')
    let ?s = "mc_set_lock k n' (mc_upd w ?x (mc_pcs s w) s)"
    have t: "mc_txs ?s w = ?x" by (simp add: mc_upd_defs)
    have aft: "mc_aft_ok ?K ?x aft m"
    proof (cases aft)
      case (AftCommit e es)
      with * have e: "mc_split ?t (e # es)" "m" "mw_key e \<in> ?K" by simp_all
      have "mc_wlocked ?x ds" if "mc_wlocked ?t ds" for ds
        using that mc_access_snoc [of ?e "m_CLL ?t"] fresh cll(3) le by (auto simp: mc_wlocked_def mc_access_None [symmetric])
      then have "mc_split ?x (e # es)" using e(1) by (auto simp: mc_split_def)
      with AftCommit e show ?thesis by simp
    qed (use *(3) in simp_all)
    have ok: "le_ok ?K ?e" by (rule mc_lelem_of_ok [OF mc_wf_K(1) [OF wf kK] num kK])
    have sorted: "le_sorted (m_CLL ?x)" using le_sorted_snoc [OF cll(1), of ?e] *(5) le by simp
    have "locks (m_CLL ?t) \<subseteq> rkeys ?t \<union> wkeys ?t" using wf pc by (simp add: mc_wf_def Let_def)
    then have A: "mc_wf c (mc_txs ?s w) (MLock k k m aft)"
      unfolding t using wf aft ok sorted le_sorted_distinct [OF sorted] *(2) le by (auto simp: mc_wf_def Let_def)
    have B: "k \<in> locks (m_CLL (mc_txs ?s w))" unfolding t using le by simp
    have C: "m \<Longrightarrow> mc_access (m_CLL (mc_txs ?s w)) k = Some True"
      unfolding t using mc_access_snoc [of ?e "m_CLL ?t"] fresh cll(3) le by simp
    note r = mc_resume_wf [OF A B C, unfolded t]
    have acc: "mc_access (m_CLL ?x) = (mc_access (m_CLL ?t))(k := Some m)"
      using mc_access_snoc [of ?e "m_CLL ?t"] fresh cll(3) le by simp
    have none: "mc_access (m_CLL ?t) k = None" using fresh by (simp add: mc_access_None)
    have L: "mc_L ?s = (mc_L s)(k := n')" by (auto simp: mc_upd_defs)
    have "lt_move (mc_L s) (mc_access (m_CLL ?t)) (mc_L ?s) (mc_access (m_CLL ?x))"
      unfolding acc L using Some none by (cases m) (auto intro: lt_write lt_read)
    then show ?thesis using r acq Some pc by (simp add: mc_moved_def mc_upd_defs)
  qed
qed

section \<open>Reading\<close>

lemma mc_moved_to_abort:
  assumes "mc_wf c t pc" "mc_held pc t = m_CLL t" "mc_cur pc = {}"
    and "mc_held (mc_pcs s w) (mc_txs s w) = m_CLL t"
  shows "mc_moved c w s (mc_to_abort w t s)"
  unfolding mc_to_abort_def
  by (rule mc_moved_upd [OF mc_wf_to_abort [OF assms(1-3)]]) (simp add: assms(4))

lemma mc_wf_push_failed:
  assumes "mc_wf c t pc" "mc_held pc t = m_CLL t" "mc_cur pc = {}" "k \<in> p_key ` set (m_pro_set t)"
  shows "mc_wf c (mc_push_failed k t) (MCalls [])"
  using assms by (auto simp: mc_wf_def Let_def mc_push_failed_def get_tuple_def mc_calls_ok_def)

lemma mc_moved_spin:
  assumes wf: "mc_wfs c w s" and pc: "mc_pcs s w = MSpin k rw i cs"
  shows "mc_moved c w s (mc_spin w k rw i cs x s)"
proof -
  let ?t = "mc_txs s w" and ?K = "p_key ` set (m_pro_set (mc_txs s w))"
  have *: "k \<in> ?K" "k \<notin> rkeys ?t" "k \<notin> wkeys ?t" "mc_calls_ok ?K cs" using mc_wf_pc [OF wf] pc by simp_all
  have f: "mc_wf c (mc_push_failed k ?t) (MCalls [])" by (rule mc_wf_push_failed [OF wf]) (use pc * in simp_all)
  have "mc_wf c (mc_push_write k k (mc_push_failed k ?t)) (MCalls [])"
    by (rule mc_wf_push_write [OF f]) (use * in \<open>simp_all add: mc_push_failed_def mc_calls_ok_def\<close>)
  with f have "mc_moved c w s (mc_to_abort w ((if rw then mc_push_write k k else id) (mc_push_failed k ?t)) s)"
    by (cases rw) (auto intro!: mc_moved_to_abort simp: pc mc_push_failed_def mc_push_write_def)
  moreover have "mc_moved c w s (mc_goto w (MLoad k rw cs) s)" "mc_moved c w s (mc_goto w (MCopy k rw i cs) s)"
    using * by (auto intro!: mc_moved_plain wf simp: pc)
  ultimately show ?thesis unfolding mc_spin_def Let_def get_tuple_def by simp
qed

lemma mc_copied_length:
  assumes "mc_wf c t pc" "\<And>k. length (m_val (mc_table s k)) = mc_val_size c"
  shows "length (m_return_val (mc_copied c k s t)) = mc_val_size c"
  using assms by (simp add: mc_copied_def mc_wf_def Let_def)

lemma mc_moved_copy:
  assumes "mc_wfs c w s" "mc_pcs s w = MCopy k rw i cs" "\<And>k. length (m_val (mc_table s k)) = mc_val_size c"
  shows "mc_moved c w s (mc_upd w (mc_copied c k s (mc_txs s w)) (MCheck k rw i cs) s)"
  by (rule mc_moved_same_lists [OF assms(1)])
    (use assms(2) mc_wf_pc [OF assms(1)] mc_copied_length [OF assms(1,3), of k] in \<open>simp_all add: mc_copied_def\<close>)

lemma mc_moved_read_end:
  assumes "mc_wf c t pc" "mc_held pc t = m_CLL t" "mc_cur pc \<subseteq> {k}" "k \<in> p_key ` set (m_pro_set t)"
    and "k \<notin> wkeys t" "mc_calls_ok (p_key ` set (m_pro_set t)) cs"
    and "mc_held (mc_pcs s w) (mc_txs s w) = m_CLL t"
  shows "mc_moved c w s (mc_read_end w k rw i cs t s)"
  unfolding mc_read_end_def get_tuple_def
  by (rule mc_moved_upd [OF mc_wf_read_end [OF assms(1-6)]]) (simp add: assms(7) mc_push_read_def mc_push_write_def)

lemma mc_moved_check:
  assumes "mc_wfs c w s" "mc_pcs s w = MCheck k rw i cs"
  shows "mc_moved c w s (mc_check w k rw i cs s)"
  using mc_wf_pc [OF assms(1)] assms unfolding mc_check_def Let_def
  by (auto intro!: mc_moved_plain mc_moved_read_end [OF assms(1)])

lemma mc_moved_lk_load:
  assumes "mc_wfs c w s" "mc_pcs s w = MLkLoad k rw cs"
  shows "mc_moved c w s (mc_goto w (MLkCopy k rw i cs) s)"
  by (rule mc_moved_goto) (use assms in \<open>auto simp: mc_wf_def Let_def\<close>)

lemma mc_moved_lk_copy:
  assumes "mc_wfs c w s" "mc_pcs s w = MLkCopy k rw i cs" "\<And>k. length (m_val (mc_table s k)) = mc_val_size c"
  shows "mc_moved c w s (mc_read_end w k rw i cs (mc_copied c k s (mc_txs s w)) s)"
proof (rule mc_moved_read_end)
  show "mc_wf c (mc_copied c k s (mc_txs s w)) (MLkCopy k rw i cs)"
    using assms(1,2) mc_copied_length [OF assms(1,3), of k] by (simp add: mc_wf_def Let_def mc_copied_def)
qed (use mc_wf_pc [OF assms(1)] assms(2) in \<open>simp_all add: mc_copied_def\<close>)

section \<open>Commit\<close>

lemma mc_moved_sort:
  assumes "mc_wfs c w s" "mc_pcs s w = MCalls []"
  shows "mc_moved c w s (mc_upd w (mc_sort (mc_txs s w)) (MClock (m_write_set (mc_sort (mc_txs s w)))) s)"
proof (rule mc_moved_upd)
  let ?t = "mc_txs s w"
  let ?ws = "sort_key mw_key (m_write_set ?t)"
  have d: "distinct (map mw_key (m_write_set ?t))" using assms(1) by (simp add: mc_wf_def Let_def)
  then have dist: "distinct (map mw_key ?ws)" by (simp add: distinct_map)
  then have "sorted_wrt (<) (map mw_key ?ws)" by (simp add: strict_sorted_iff)
  then have "mc_split (mc_sort ?t) ?ws" by (simp add: mc_split_def mc_sort_def mc_wlocked_def)
  then show "mc_wf c (mc_sort ?t) (MClock (m_write_set (mc_sort ?t)))"
    using assms dist by (simp add: mc_wf_def Let_def mc_sort_def)
qed (simp add: mc_sort_def assms(2))

lemma mc_moved_clock:
  assumes "mc_wfs c w s" "mc_pcs s w = MClock (e # es)"
  shows "mc_moved c w s (mc_goto w (MLock (mw_key e) (mw_rcdptr e) True (AftCommit e es)) s)"
proof -
  have sp: "mc_split (mc_txs s w) (e # es)" using mc_wf_pc [OF assms(1)] assms(2) by simp
  then have "e \<in> set (m_write_set (mc_txs s w))" by (auto simp: mc_split_def)
  then have e: "mw_rcdptr e = mw_key e" "mw_key e \<in> p_key ` set (m_pro_set (mc_txs s w))"
    using assms(1) by (simp_all add: mc_wf_def Let_def)
  show ?thesis unfolding e(1) by (rule mc_moved_lock_start [OF assms(1)]) (use sp e assms(2) in simp_all)
qed

lemma mc_moved_wset:
  assumes "mc_wfs c w s" "mc_pcs s w = MWset e es"
  shows "mc_moved c w s (mc_upd w ((mc_txs s w)\<lparr>m_max_wset := n\<rparr>) (MClock es) s)"
proof (rule mc_moved_same_lists [OF assms(1)])
  have "mc_split (mc_txs s w) (e # es)" "mc_wlocked (mc_txs s w) [e]" using mc_wf_pc [OF assms(1)] assms(2) by simp_all
  then obtain ds where ds: "m_write_set (mc_txs s w) = (ds @ [e]) @ es" "mc_wlocked (mc_txs s w) (ds @ [e])"
    "sorted_wrt (<) (map mw_key (m_write_set (mc_txs s w)))" by (auto simp: mc_split_def mc_wlocked_def)
  have "mc_split ((mc_txs s w)\<lparr>m_max_wset := n\<rparr>) es"
    unfolding mc_split_def
  proof (intro conjI exI [of _ "ds @ [e]"])
    show "mc_wlocked ((mc_txs s w)\<lparr>m_max_wset := n\<rparr>) (ds @ [e])" using ds(2) by (simp add: mc_wlocked_def)
  qed (use ds(1,3) in simp_all)
  then show "mc_pc_wf (p_key ` set (m_pro_set ((mc_txs s w)\<lparr>m_max_wset := n\<rparr>))) ((mc_txs s w)\<lparr>m_max_wset := n\<rparr>) (MClock es)"
    by simp
qed (use assms in \<open>simp_all add: mc_wf_def Let_def\<close>)

lemma mc_moved_validate:
  assumes "mc_wfs c w s" "mc_pcs s w = MVal i" "i < length (m_read_set (mc_txs s w))"
  shows "mc_moved c w s (mc_validate w i s)"
proof -
  have "mc_moved c w s (mc_to_abort w (mc_fail_read i (mc_txs s w)) s)"
    unfolding mc_to_abort_def
    by (rule mc_moved_upd) (use mc_wf_fail_read [OF assms(1) _ _ assms(3)] assms(2) in \<open>simp_all add: mc_fail_read_def\<close>)
  moreover have "mc_moved c w s (mc_goto w (MValLock i) s)"
    by (rule mc_moved_plain [OF assms(1)]) (use mc_wf_pc [OF assms(1)] assms in simp_all)
  ultimately show ?thesis unfolding mc_validate_def Let_def by simp
qed

lemma mc_moved_validate_lock:
  assumes "mc_wfs c w s" "mc_pcs s w = MValLock i"
  shows "mc_moved c w s (mc_validate_lock w i s)"
proof -
  have i: "i < length (m_read_set (mc_txs s w))" using mc_wf_pc [OF assms(1)] assms(2) by simp
  have "mc_moved c w s (mc_to_abort w (mc_fail_read i (mc_txs s w)) s)"
    unfolding mc_to_abort_def
    by (rule mc_moved_upd) (use mc_wf_fail_read [OF assms(1) _ _ i] assms(2) in \<open>simp_all add: mc_fail_read_def\<close>)
  moreover have "mc_moved c w s (mc_goto w (MValMax i) s)"
    by (rule mc_moved_plain [OF assms(1)]) (use mc_wf_pc [OF assms(1)] assms in simp_all)
  ultimately show ?thesis unfolding mc_validate_lock_def Let_def by simp
qed

lemma mc_moved_validate_max:
  assumes "mc_wfs c w s" "mc_pcs s w = MValMax i"
  shows "mc_moved c w s (mc_validate_max w i s)"
  unfolding mc_validate_max_def Let_def
  by (rule mc_moved_same_lists [OF assms(1)])
    (use assms mc_wf_pc [OF assms(1)] in \<open>simp_all add: mc_wf_def Let_def mc_split_def mc_wlocked_def\<close>)

lemma mc_moved_commit:
  assumes "mc_wfs c w s" "mc_pcs s w = MVal i"
  shows "mc_moved c w s (mc_commit c w s)"
proof -
  have "mc_split (mc_txs s w) []" using mc_wf_pc [OF assms(1)] assms(2) by simp
  then have "mc_wfs c w (mc_commit c w s)"
    using assms by (auto simp: mc_commit_def mc_upd_def Let_def mc_wf_def mc_split_def mc_wlocked_def)
  then show ?thesis by (rule mc_moved_keep) (simp_all add: mc_commit_def mc_upd_def Let_def assms(2))
qed

lemma mc_moved_write_val:
  assumes "mc_wfs c w s" "mc_pcs s w = MWrite (e # es) tid"
  shows "mc_moved c w s (mc_write_val c w e (mc_goto w (MStore e es tid) s))"
proof (rule mc_moved_keep)
  show "mc_wfs c w (mc_write_val c w e (mc_goto w (MStore e es tid) s))"
    using assms by (simp add: mc_write_val_def mc_goto_def Let_def mc_wf_def)
  show "mc_L (mc_write_val c w e (mc_goto w (MStore e es tid) s)) = mc_L s"
    by (simp add: mc_write_val_def mc_goto_def Let_def fun_eq_iff)
qed (simp_all add: mc_write_val_def mc_goto_def Let_def assms(2))

lemma mc_moved_write_tid:
  assumes "mc_wfs c w s" "mc_pcs s w = MStore e es tid"
  shows "mc_moved c w s (mc_write_tid e tid (mc_goto w (MWrite es tid) s))"
proof (rule mc_moved_keep)
  have "\<exists>ds. m_write_set (mc_txs s w) = ds @ e # es" using mc_wf_pc [OF assms(1)] assms(2) by simp
  then have "\<exists>ds. m_write_set (mc_txs s w) = ds @ es" by (metis append_Cons append_Nil append_assoc)
  then show "mc_wfs c w (mc_write_tid e tid (mc_goto w (MWrite es tid) s))"
    using assms by (simp add: mc_write_tid_def mc_goto_def Let_def mc_wf_def)
  show "mc_L (mc_write_tid e tid (mc_goto w (MWrite es tid) s)) = mc_L s"
    by (simp add: mc_write_tid_def mc_goto_def Let_def fun_eq_iff)
qed (simp_all add: mc_write_tid_def mc_goto_def Let_def assms(2))

section \<open>Unlocking and the retrospective list\<close>

lemma mc_moved_to_unlock:
  assumes "mc_wfs c w s" "mc_pcs s w = MWrite [] tid"
  shows "mc_moved c w s (mc_goto w (MUnl (m_CLL (mc_txs s w)) True) s)"
  by (rule mc_moved_goto) (use assms in \<open>simp_all add: mc_wf_def Let_def\<close>)

lemma mc_wf_unl_Cons:
  assumes "mc_wf c t (MUnl (e # es) ok)"
  shows "mc_wf c t (MUnl es ok)"
  using assms by (simp add: mc_wf_def Let_def)

lemma mc_wf_lists_ok:
  assumes "mc_wf c t pc" "mc_tuple_num c \<le> 2 ^ 32"
  shows "\<forall>e \<in> set (mc_write_locks (m_write_set t)). le_ok (p_key ` set (m_pro_set t)) e"
  using assms mc_lelem_of_ok [OF _ assms(2)] by (auto simp: mc_write_locks_def mc_wf_def Let_def)

lemma mc_moved_unlockCLL:
  assumes wf: "mc_wfs c w s" and pc: "mc_pcs s w = MUnl es ok" and num: "mc_tuple_num c \<le> 2 ^ 32"
  shows "mc_moved c w s (mc_unlockCLL w es ok s)"
proof (cases es)
  case Nil
  let ?t = "mc_txs s w"
  have "mc_wf c (?t\<lparr>m_CLL := [], m_RLL := mc_write_locks (m_write_set ?t)\<rparr>) (MRll (m_read_set ?t))"
    using wf pc mc_wf_lists_ok [OF wf num] by (simp add: mc_wf_def Let_def)
  moreover have "mc_wf c (?t\<lparr>m_CLL := [], m_RLL := [], m_read_set := [], m_write_set := []\<rparr>) MMake"
    using wf pc by (simp add: mc_wf_def Let_def)
  ultimately show ?thesis using Nil by (auto simp: mc_unlockCLL_def Let_def pc intro!: mc_moved_upd)
next
  case (Cons e fs)
  have d: "distinct (map le_lock (e # fs))" using wf pc Cons by (simp add: mc_wf_def Let_def)
  then have e: "le_lock e \<notin> locks fs" by simp
  have wf': "mc_wf c (mc_txs s w) (MUnl fs ok)" using wf pc Cons mc_wf_unl_Cons by simp
  let ?n = "m_rwlock (mc_table s (le_lock e))"
  have L: "mc_L (mc_unlockCLL w es ok s) = (mc_L s)(le_lock e := if le_mode e then w_rel ?n else r_rel ?n)"
    using Cons by (auto simp: mc_unlockCLL_def mc_release_def mc_upd_defs Let_def)
  define A where "A = mc_access (e # fs)"
  have at: "A (le_lock e) = Some (le_mode e)" by (simp add: A_def mc_access_Cons)
  have "lt_move (mc_L s) A (mc_L (mc_unlockCLL w es ok s)) (A(le_lock e := None))"
    unfolding L using at lt_unwrite [of A "le_lock e"] lt_unread [of A "le_lock e"] by (cases "le_mode e") simp_all
  then have "lt_move (mc_L s) (mc_access (e # fs)) (mc_L (mc_unlockCLL w es ok s)) (mc_access fs)"
    unfolding A_def mc_access_tl [OF e, symmetric] .
  then show ?thesis using wf' Cons pc
    by (simp add: mc_moved_def mc_unlockCLL_def mc_release_def mc_upd_defs Let_def)
qed

lemma mc_moved_rll_next:
  assumes "mc_wfs c w s" "mc_pcs s w = MRll rs"
  shows "mc_moved c w s (mc_rll_next w rs s)"
proof (cases rs)
  case Nil
  let ?t = "mc_txs s w"
  have "mc_wf c (?t\<lparr>m_RLL := sort_key le_key (m_RLL ?t), m_read_set := [], m_write_set := []\<rparr>) MRetry"
    using assms by (simp add: mc_wf_def Let_def)
  then show ?thesis using Nil assms(2) by (auto simp: mc_rll_next_def Let_def intro!: mc_moved_upd)
next
  case (Cons r fs)
  then show ?thesis using mc_wf_pc [OF assms(1)] assms
    by (auto simp: mc_rll_next_def Let_def intro!: mc_moved_plain)
qed

lemma mc_moved_temp_test:
  assumes wf: "mc_wfs c w s" and pc: "mc_pcs s w = MTTest r rs" and num: "mc_tuple_num c \<le> 2 ^ 32"
  shows "mc_moved c w s (mc_temp_test c w r rs s)"
proof -
  let ?t = "mc_txs s w"
  have r: "mr_rcdptr r = mr_key r" "mr_key r \<in> p_key ` set (m_pro_set ?t)" using mc_wf_pc [OF wf] pc by simp_all
  have plain: "mc_moved c w s (mc_goto w (MRll rs) s)"
    by (rule mc_moved_plain [OF wf]) (use mc_wf_pc [OF wf] pc in simp_all)
  have "mc_wf c (?t\<lparr>m_RLL := m_RLL ?t @ [mc_lelem_of (mr_key r) (mr_key r) False]\<rparr>) (MRll rs)"
    using wf pc mc_lelem_of_ok [OF mc_wf_K(1) [OF wf r(2)] num r(2)] by (simp add: mc_wf_def Let_def)
  then have "mc_moved c w s (mc_upd w (?t\<lparr>m_RLL := m_RLL ?t @ [mc_lelem_of (mr_key r) (mr_key r) False]\<rparr>) (MRll rs) s)"
    by (rule mc_moved_upd) (simp add: pc)
  with plain r(1) show ?thesis by (simp add: mc_temp_test_def Let_def)
qed

text \<open>Changes of the shared words that no list or lock depends on.\<close>

lemma mc_moved_shared:
  assumes "mc_moved c w s t" "mc_txs u = mc_txs t" "mc_pcs u = mc_pcs t" "mc_L u = mc_L t"
  shows "mc_moved c w s u"
  using assms by (simp add: mc_moved_def)

lemma mc_moved_temp_cas:
  assumes "mc_wfs c w s" "mc_pcs s w = MTCas r rs i"
  shows "mc_moved c w s (mc_temp_cas c w r rs i x s)"
proof -
  have p: "mc_moved c w s (mc_goto w (MTTest r rs) s)" "mc_moved c w s (mc_goto w (MTCas r rs n) s)" for n
    using mc_wf_pc [OF assms(1)] assms(2) by (auto intro!: mc_moved_plain [OF assms(1)])
  have "mc_moved c w s (mc_temp_store c k v (mc_goto w (MTTest r rs) s))" for k v
    by (rule mc_moved_shared [OF p(1)]) (simp_all add: mc_temp_store_def)
  with p show ?thesis by (simp add: mc_temp_cas_def Let_def)
qed

lemma mc_moved_scan:
  assumes "mc_wfs c w s" "mc_pcs s w = MScan g i st"
  shows "mc_moved c w s (mc_chkEpochLoaded c w g i st s)"
proof -
  have p: "mc_moved c w s (mc_goto w MQuit s)" "mc_moved c w s (mc_goto w (MScan g (Suc i) st) s)"
    using mc_wf_pc [OF assms(1)] assms(2) by (auto intro!: mc_moved_plain [OF assms(1)])
  have "mc_moved c w s ((mc_atomicAddGE (mc_goto w MQuit s))\<lparr>mc_epoch_timer_start := st\<rparr>)"
    by (rule mc_moved_shared [OF p(1)]) (simp_all add: mc_atomicAddGE_def)
  with p show ?thesis by (simp add: mc_chkEpochLoaded_def)
qed

section \<open>Every step\<close>

lemma mc_moved_refl: "mc_wfs c w s \<Longrightarrow> mc_moved c w s s"
  by (simp add: mc_moved_def lt_keep)

lemma mc_moved_step:
  assumes wf: "mc_wfs c w s" and len: "\<And>k. length (m_val (mc_table s k)) = mc_val_size c"
    and c: "mc_max_ope c \<le> 100" "mc_tuple_num c \<le> 2 ^ 32" and pro: "mc_pro_ok c pro"
  shows "mc_moved c w s (mc_step c w pro now x s)"
proof -
  note pw = mc_wf_pc [OF wf]
  note plain = mc_moved_plain [OF wf]
  show ?thesis
  proof (cases "mc_pcs s w")
    case MMake
    then show ?thesis using mc_moved_make [OF wf MMake pro] pw by (simp add: mc_step_def Let_def plain)
  next
    case MRetry
    have "mc_moved c w s (mc_goto w MQuit s)" "mc_moved c w s (mc_goto w (MScan g i st) s)" for g i st
      using pw MRetry by (simp_all add: plain)
    then have "mc_moved c w s (if w = 0 then mc_leaderWork c w now s else mc_goto w MQuit s)"
      unfolding mc_leaderWork_def by (simp only: if_split) blast
    with MRetry show ?thesis by (simp add: mc_step_def Let_def)
  next
    case (MCalls cs)
    then show ?thesis
      using mc_moved_sort [OF wf] mc_moved_read_call [OF wf] mc_moved_write_call [OF wf] mc_moved_rmw_call [OF wf]
      by (simp add: mc_step_def Let_def split: list.split mc_call.split)
  next
    case (MTemp cl cs)
    then show ?thesis
      using mc_moved_read_start [OF wf] mc_moved_write_start [OF wf] mc_moved_rmw_start [OF wf]
      by (cases cl) (simp_all add: mc_step_def Let_def)
  next
    case (MClock es)
    then show ?thesis using mc_moved_clock [OF wf] pw by (cases es) (simp_all add: mc_step_def Let_def plain)
  next
    case (MWrite es tid)
    then show ?thesis using mc_moved_write_val [OF wf] mc_moved_to_unlock [OF wf]
      by (cases es) (simp_all add: mc_step_def Let_def)
  next
    case (MEpochStore g)
    have "mc_moved c w s (mc_goto w (MVal 0) s)" using pw MEpochStore by (simp add: plain)
    then show ?thesis using MEpochStore by (simp add: mc_step_def Let_def) (erule mc_moved_shared; simp)
  next
    case (MTReset r rs i d)
    have "mc_moved c w s (mc_goto w (MTCas r rs i) s)" using pw MTReset by (simp add: plain)
    then show ?thesis using MTReset by (simp add: mc_step_def Let_def mc_temp_store_def) (erule mc_moved_shared; simp)
  next
    case (MTGE r rs i)
    then show ?thesis using pw by (simp add: mc_step_def Let_def mc_temp_epoch_def plain)
  next
    case MStop
    then show ?thesis using mc_moved_refl [OF wf] by (simp add: mc_step_def Let_def)
  next
    case (MVal i)
    then show ?thesis using mc_moved_validate [OF wf MVal] mc_moved_commit [OF wf MVal] by (simp add: mc_step_def Let_def)
  next
    case (MTry k p m up aft)
    then show ?thesis using pw by simp
  qed (use pw mc_moved_begin [OF wf] mc_moved_lock [OF wf _ c(1)] mc_moved_rel [OF wf] mc_moved_acq [OF wf _ c(2)]
      mc_moved_spin [OF wf] mc_moved_copy [OF wf _ len] mc_moved_check [OF wf] mc_moved_lk_load [OF wf]
      mc_moved_lk_copy [OF wf _ len] mc_moved_wset [OF wf] mc_moved_validate_lock [OF wf] mc_moved_validate_max [OF wf]
      mc_moved_write_tid [OF wf] mc_moved_unlockCLL [OF wf _ c(2)] mc_moved_rll_next [OF wf]
      mc_moved_temp_test [OF wf _ c(2)] mc_moved_temp_cas [OF wf] mc_moved_scan [OF wf] in
      \<open>simp_all add: mc_step_def Let_def plain\<close>)
qed

end
