(* ===== verification/Mocc_Frame.thy ===== *)
theory Mocc_Frame
  imports Mocc_Moves
begin

text \<open>
  The base of the MOCC invariant: well-formed workers, lock words that count their holders, payloads
  that lag behind the serial database exactly by the pending writes of a write phase. And what a step
  leaves alone: only the three loud steps (commit, payload, TID word) touch the data.
\<close>

section \<open>The base invariant\<close>

abbreviation mc_val :: "mc_sys \<Rightarrow> key \<Rightarrow> val" where
  "mc_val s k \<equiv> m_val (mc_table s k)"

abbreviation mc_tw :: "mc_sys \<Rightarrow> key \<Rightarrow> u64" where
  "mc_tw s k \<equiv> m_tidword (mc_table s k)"

text \<open>The serial database after the first \<open>i\<close> commits, and after all of them.\<close>

definition mc_db :: "db \<Rightarrow> mc_sys \<Rightarrow> nat \<Rightarrow> db" where
  "mc_db d s i = serial_db d (map cx_rec (take i (mc_com s)))"

abbreviation mc_now :: "db \<Rightarrow> mc_sys \<Rightarrow> db" where
  "mc_now d s \<equiv> mc_db d s (length (mc_com s))"

text \<open>The writes of a write phase that have not reached the payload, and the record whose TID word lags.\<close>

fun mc_pend :: "mc_pc \<Rightarrow> key set" where
  "mc_pend (MWrite es tid) = mw_key ` set es"
| "mc_pend (MStore e es tid) = mw_key ` set es"
| "mc_pend pc = {}"

fun mc_fluxw :: "mc_pc \<Rightarrow> key set" where
  "mc_fluxw (MStore e es tid) = {mw_key e}"
| "mc_fluxw pc = {}"

definition mc_flux :: "mc_sys \<Rightarrow> key set" where
  "mc_flux s = (\<Union>w. mc_fluxw (mc_pcs s w))"

definition mc_vals :: "mc_config \<Rightarrow> db \<Rightarrow> mc_sys \<Rightarrow> bool" where
  "mc_vals c d s \<longleftrightarrow> (\<forall>k. length (mc_val s k) = mc_val_size c) \<and>
     (\<forall>k. (\<forall>w. k \<notin> mc_pend (mc_pcs s w)) \<longrightarrow> mc_val s k = mc_now d s k) \<and>
     (\<forall>w. \<forall>k \<in> mc_pend (mc_pcs s w). mc_now d s k = m_write_val (mc_txs s w))"

definition mc_base :: "mc_config \<Rightarrow> db \<Rightarrow> mc_sys \<Rightarrow> bool" where
  "mc_base c d s \<longleftrightarrow> (\<forall>w. mc_wfs c w s) \<and> (\<forall>w \<ge> mc_workers c. mc_pcs s w = MMake) \<and>
     lt_ok (mc_workers c) (mc_L s) (mc_acc s) \<and> mc_vals c d s"

text \<open>The bounds under which the invariant is proved.\<close>

definition mc_bounds :: "mc_config \<Rightarrow> bool" where
  "mc_bounds c \<longleftrightarrow> mc_max_ope c \<le> 100 \<and> mc_tuple_num c \<le> 2 ^ 32 \<and> mc_workers c \<le> 2 ^ 32 - 2"

lemma mc_baseD:
  assumes "mc_base c d s"
  shows mc_base_wf: "mc_wfs c w s" and mc_base_idle: "mc_workers c \<le> w \<Longrightarrow> mc_pcs s w = MMake"
    and mc_base_lt: "lt_ok (mc_workers c) (mc_L s) (mc_acc s)" and mc_base_vals: "mc_vals c d s"
  using assms by (auto simp: mc_base_def)

lemma mc_valsD:
  assumes "mc_vals c d s"
  shows mc_vals_len: "length (mc_val s k) = mc_val_size c"
    and mc_vals_quiet: "(\<And>w. k \<notin> mc_pend (mc_pcs s w)) \<Longrightarrow> mc_val s k = mc_now d s k"
    and mc_vals_pend: "k \<in> mc_pend (mc_pcs s w) \<Longrightarrow> mc_now d s k = m_write_val (mc_txs s w)"
  using assms by (auto simp: mc_vals_def)

section \<open>What the helpers leave alone\<close>

lemma mc_sel_simps [simp]:
  "mc_table (mc_upd w t pc s) = mc_table s" "mc_table (mc_goto w pc s) = mc_table s"
  "mc_com (mc_upd w t pc s) = mc_com s" "mc_com (mc_goto w pc s) = mc_com s" "mc_com (mc_set_lock k n s) = mc_com s"
  "mc_wrapped (mc_upd w t pc s) = mc_wrapped s" "mc_wrapped (mc_goto w pc s) = mc_wrapped s"
  "mc_wrapped (mc_set_lock k n s) = mc_wrapped s"
  "mc_txs (mc_upd w t pc s) = (mc_txs s)(w := t)" "mc_txs (mc_goto w pc s) = mc_txs s" "mc_txs (mc_set_lock k n s) = mc_txs s"
  "mc_pcs (mc_upd w t pc s) = (mc_pcs s)(w := pc)" "mc_pcs (mc_goto w pc s) = (mc_pcs s)(w := pc)"
  "mc_pcs (mc_set_lock k n s) = mc_pcs s"
  "mc_val (mc_set_lock k n s) j = mc_val s j" "mc_tw (mc_set_lock k n s) j = mc_tw s j"
  by (simp_all add: mc_upd_defs)

text \<open>Same data: payloads, TID words and history.\<close>

definition mc_same :: "mc_sys \<Rightarrow> mc_sys \<Rightarrow> bool" where
  "mc_same s t \<longleftrightarrow> (\<forall>k. mc_val t k = mc_val s k \<and> mc_tw t k = mc_tw s k) \<and> mc_com t = mc_com s \<and> mc_wrapped t = mc_wrapped s"

lemma mc_same_refl [simp]: "mc_same s s"
  by (simp add: mc_same_def)

lemma mc_same_trans: "mc_same s t \<Longrightarrow> mc_same t u \<Longrightarrow> mc_same s u"
  by (simp add: mc_same_def)

lemma mc_same_simps [simp]:
  "mc_same s (mc_upd w t pc s') = mc_same s s'" "mc_same s (mc_goto w pc s') = mc_same s s'"
  "mc_same s (mc_set_lock k n s') = mc_same s s'" "mc_same s (mc_release e s') = mc_same s s'"
  "mc_same s (mc_temp_store c k v s') = mc_same s s'"
  "mc_same s (s'\<lparr>mc_ThLocalEpoch := x\<rparr>) = mc_same s s'" "mc_same s (s'\<lparr>mc_epoch_timer_start := y\<rparr>) = mc_same s s'"
  "mc_same s (s'\<lparr>mc_quit := q\<rparr>) = mc_same s s'" "mc_same s (mc_atomicAddGE s') = mc_same s s'"
  by (simp_all add: mc_same_def mc_release_def Let_def mc_temp_store_def mc_atomicAddGE_def)

lemma mc_same_ops [simp]:
  "mc_same s (mc_write_end w k p cs s') = mc_same s s'" "mc_same s (mc_write_listed w k p cs s') = mc_same s s'"
  "mc_same s (mc_to_abort w t s') = mc_same s s'"
  by (simp_all add: mc_write_end_def mc_write_listed_def mc_to_abort_def)

lemma mc_same_resume [simp]: "mc_same s (mc_resume w aft s') = mc_same s s'"
  by (simp add: mc_resume_def split: mc_after.split)

lemma mc_same_lock [simp]: "mc_same s (mc_lock w k p m aft s)"
  by (simp add: mc_lock_def Let_def)

lemma mc_same_take:
  "(\<And>u. mc_same s u \<Longrightarrow> mc_same s (cont u)) \<Longrightarrow> mc_same s (mc_take w e cont s)"
  by (simp add: mc_take_def Let_def split: option.split)

lemma mc_same_acq [simp]: "mc_same s (mc_acq w pre k p m aft s)"
  by (simp add: mc_acq_def mc_same_take split: list.split)

lemma mc_same_try [simp]: "mc_same s (mc_try w k p m up aft sp s)"
  by (simp add: mc_try_def Let_def split: option.split)

lemma mc_same_more [simp]:
  "mc_same s (mc_rel w es pre k p m aft s)" "mc_same s (mc_read_call w k cs s)" "mc_same s (mc_write_call w k cs s)"
  "mc_same s (mc_rmw_call w k cs s)" "mc_same s (mc_read_start c w k cs s)" "mc_same s (mc_rmw_start c w k cs s)"
  "mc_same s (mc_write_start c w k cs s)" "mc_same s (mc_spin w k rw i cs x s)" "mc_same s (mc_read_end w k rw tid cs t s)"
  "mc_same s (mc_check w k rw i cs s)" "mc_same s (mc_validate w n s)" "mc_same s (mc_validate_lock w n s)"
  "mc_same s (mc_validate_max w n s)" "mc_same s (mc_unlockCLL w es ok s)" "mc_same s (mc_rll_next w rs s)"
  "mc_same s (mc_temp_epoch w r rs i s)" "mc_same s (mc_temp_cas c w r rs i x s)" "mc_same s (mc_temp_test c w r rs s)"
  "mc_same s (mc_leaderWork c w now s)" "mc_same s (mc_chkEpochLoaded c w g n st s)"
  by (simp_all add: mc_rel_def mc_read_call_def mc_write_call_def mc_rmw_call_def mc_read_start_def mc_rmw_start_def
      mc_write_start_def mc_spin_def mc_read_end_def mc_check_def mc_validate_def mc_validate_lock_def
      mc_validate_max_def mc_unlockCLL_def mc_rll_next_def mc_temp_epoch_def mc_temp_cas_def mc_temp_test_def
      mc_leaderWork_def mc_chkEpochLoaded_def Let_def split: list.split option.split)

section \<open>Quiet steps\<close>

definition mc_loud :: "mc_sys \<Rightarrow> nat \<Rightarrow> bool" where
  "mc_loud s w \<longleftrightarrow>
     (case mc_pcs s w of
        MVal i \<Rightarrow> length (m_read_set (mc_txs s w)) \<le> i
      | MWrite es tid \<Rightarrow> es \<noteq> []
      | MStore e es tid \<Rightarrow> True
      | _ \<Rightarrow> False)"

lemma mc_step_same: "\<not> mc_loud s w \<Longrightarrow> mc_same s (mc_step c w pro now x s)"
  by (cases "mc_pcs s w")
    (simp_all add: mc_loud_def mc_step_def Let_def split: list.split mc_call.split)

text \<open>The control points after a step that is not loud.\<close>

definition mc_mute :: "mc_pc \<Rightarrow> bool" where
  "mc_mute pc \<longleftrightarrow> mc_pend pc = {} \<and> mc_fluxw pc = {}"

lemma mc_mute_simps [simp]:
  "mc_mute MMake" "mc_mute MRetry" "mc_mute (MScan g n st)" "mc_mute MQuit" "mc_mute MBegin" "mc_mute (MCalls cs)"
  "mc_mute (MTemp cl cs)" "mc_mute (MLock k p m aft)" "mc_mute (MRel fs pre k p m aft)" "mc_mute (MTry k p m up aft)"
  "mc_mute (MAcq pre k p m aft)" "mc_mute (MLoad k rw cs)" "mc_mute (MSpin k rw i cs)"
  "mc_mute (MCopy k rw i cs)" "mc_mute (MCheck k rw i cs)" "mc_mute (MLkLoad k rw cs)" "mc_mute (MLkCopy k rw i cs)"
  "mc_mute (MClock es)" "mc_mute (MWset e es)" "mc_mute MEpochLoad" "mc_mute (MEpochStore g)" "mc_mute (MVal n)"
  "mc_mute (MValLock n)" "mc_mute (MValMax n)" "mc_mute (MWrite [] tid)" "mc_mute (MUnl fs ok)" "mc_mute (MRll rs)"
  "mc_mute (MTLoad r rs)" "mc_mute (MTGE r rs ep)" "mc_mute (MTReset r rs ep ep')" "mc_mute (MTCas r rs ep)"
  "mc_mute (MTTest r rs)" "mc_mute MStop"
  by (simp_all add: mc_mute_def)

lemma mc_pcs_simps [simp]:
  "mc_pcs (mc_release e s) = mc_pcs s" "mc_pcs (mc_temp_store c k v s) = mc_pcs s" "mc_pcs (mc_atomicAddGE s) = mc_pcs s"
  "mc_txs (mc_release e s) = mc_txs s" "mc_txs (mc_temp_store c k v s) = mc_txs s" "mc_txs (mc_atomicAddGE s) = mc_txs s"
  by (simp_all add: mc_release_def Let_def mc_temp_store_def mc_atomicAddGE_def)

lemma mc_mute_resume [simp]: "mc_mute (mc_pcs (mc_resume w aft s) w)"
  by (simp add: mc_resume_def mc_write_end_def mc_write_listed_def split: mc_after.split)

lemma mc_mute_take:
  "mc_mute (mc_pcs s w) \<Longrightarrow> (\<And>u. mc_mute (mc_pcs (cont u) w)) \<Longrightarrow> mc_mute (mc_pcs (mc_take w e cont s) w)"
  by (simp add: mc_take_def Let_def split: option.split)

lemma mc_mute_more [simp]:
  "mc_mute (mc_pcs (mc_write_end w k p cs s) w)" "mc_mute (mc_pcs (mc_write_listed w k p cs s) w)"
  "mc_mute (mc_pcs (mc_to_abort w t s) w)" "mc_mute (mc_pcs (mc_lock w k p m aft s) w)"
  "mc_mute (mc_pcs (mc_rel w es pre k p m aft s) w)" "mc_mute (mc_pcs (mc_read_call w k cs s) w)"
  "mc_mute (mc_pcs (mc_write_call w k cs s) w)" "mc_mute (mc_pcs (mc_rmw_call w k cs s) w)"
  "mc_mute (mc_pcs (mc_read_start c w k cs s) w)" "mc_mute (mc_pcs (mc_rmw_start c w k cs s) w)"
  "mc_mute (mc_pcs (mc_write_start c w k cs s) w)" "mc_mute (mc_pcs (mc_spin w k rw i cs x s) w)"
  "mc_mute (mc_pcs (mc_read_end w k rw tid cs t s) w)" "mc_mute (mc_pcs (mc_check w k rw i cs s) w)"
  "mc_mute (mc_pcs (mc_validate w n s) w)" "mc_mute (mc_pcs (mc_validate_lock w n s) w)"
  "mc_mute (mc_pcs (mc_validate_max w n s) w)" "mc_mute (mc_pcs (mc_unlockCLL w us ok s) w)"
  "mc_mute (mc_pcs (mc_rll_next w rs s) w)" "mc_mute (mc_pcs (mc_temp_epoch w r rs i s) w)"
  "mc_mute (mc_pcs (mc_temp_cas c w r rs i x s) w)" "mc_mute (mc_pcs (mc_temp_test c w r rs s) w)"
  "mc_mute (mc_pcs (mc_leaderWork c w now s) w)" "mc_mute (mc_pcs (mc_chkEpochLoaded c w g n st s) w)"
  "mc_mute (mc_pcs (mc_try w k p m up aft sp s) w)"
  by (simp_all add: mc_write_end_def mc_write_listed_def mc_to_abort_def mc_lock_def mc_rel_def mc_read_call_def
      mc_write_call_def mc_rmw_call_def mc_read_start_def mc_rmw_start_def
      mc_write_start_def mc_spin_def mc_read_end_def mc_check_def mc_validate_def mc_validate_lock_def
      mc_validate_max_def mc_unlockCLL_def mc_rll_next_def mc_temp_epoch_def mc_temp_cas_def mc_temp_test_def
      mc_leaderWork_def mc_chkEpochLoaded_def mc_try_def Let_def split: list.split option.split)

lemma mc_mute_acq [simp]: "mc_pcs s w = MAcq pre k p m aft \<Longrightarrow> mc_mute (mc_pcs (mc_acq w pre k p m aft s) w)"
  by (simp add: mc_acq_def mc_mute_take split: list.split)

lemma mc_step_mute:
  assumes "\<not> mc_loud s w"
  shows "mc_mute (mc_pcs (mc_step c w pro now x s) w)" "mc_mute (mc_pcs s w)"
  using assms by (cases "mc_pcs s w"; simp add: mc_loud_def mc_step_def Let_def split: list.split mc_call.split)+

end
