(* ===== verification/Mocc_Steps.thy ===== *)
theory Mocc_Steps
  imports Mocc_Frame
begin

text \<open>The base of the MOCC invariant is inductive.\<close>

section \<open>Write locks\<close>

lemma mc_pend_locked:
  assumes "mc_wfs c w s" "k \<in> mc_pend (mc_pcs s w) \<union> mc_fluxw (mc_pcs s w)"
  shows "mc_acc s w k = Some True"
proof -
  note pw = mc_wf_pc [OF assms(1)]
  show ?thesis
  proof (cases "mc_pcs s w")
    case (MWrite es tid)
    then show ?thesis using pw assms(2) by (auto simp: mc_split_def mc_wlocked_def)
  next
    case (MStore e es tid)
    then show ?thesis using pw assms(2) by (auto simp: mc_split_def mc_wlocked_def)
  qed (use assms(2) in simp_all)
qed

lemma mc_excl:
  assumes "mc_base c d s" "mc_acc s v k = Some b" "mc_acc s w k = Some b'" "b \<or> b'"
  shows "v = w"
  by (rule lt_excl [OF mc_base_lt [OF assms(1)] assms(2-4)])

text \<open>A record that a worker has locked has no pending write of another worker.\<close>

lemma mc_locked_quiet:
  assumes "mc_base c d s" "mc_acc s w k = Some b" "v \<noteq> w"
  shows "k \<notin> mc_pend (mc_pcs s v)" "k \<notin> mc_fluxw (mc_pcs s v)"
  using mc_excl [OF assms(1) _ assms(2), of v True] assms(3) mc_pend_locked [OF mc_base_wf [OF assms(1)], of k v] by auto

lemma mc_pend_other:
  assumes "mc_base c d s" "k \<in> mc_pend (mc_pcs s w)" "v \<noteq> w"
  shows "k \<notin> mc_pend (mc_pcs s v)"
  using mc_locked_quiet(1) [OF assms(1) mc_pend_locked assms(3)] assms(1,2) mc_base_wf by blast

section \<open>The loud steps\<close>

lemma mc_step_loud:
  "mc_pcs s w = MVal i \<Longrightarrow> length (m_read_set (mc_txs s w)) \<le> i \<Longrightarrow> mc_step c w pro now x s = mc_commit c w s"
  "mc_pcs s w = MWrite (e # es) tid \<Longrightarrow> mc_step c w pro now x s = mc_write_val c w e (mc_goto w (MStore e es tid) s)"
  "mc_pcs s w = MStore e es tid \<Longrightarrow> mc_step c w pro now x s = mc_write_tid e tid (mc_goto w (MWrite es tid) s)"
  by (simp_all add: mc_step_def Let_def)

lemma mc_loud_cases:
  assumes "mc_loud s w"
  obtains (commit) i where "mc_pcs s w = MVal i" "length (m_read_set (mc_txs s w)) \<le> i"
  | (payload) e es tid where "mc_pcs s w = MWrite (e # es) tid"
  | (stamp) e es tid where "mc_pcs s w = MStore e es tid"
  using assms by (cases "mc_pcs s w") (auto simp: mc_loud_def neq_Nil_conv)

lemma mc_commit_simps [simp]:
  "mc_table (mc_commit c w s) = mc_table s"
  "mc_com (mc_commit c w s) = mc_com s @ [mc_record (mc_val_size c) (mc_txs s w)]"
  "mc_pcs (mc_commit c w s) = (mc_pcs s)(w := MWrite (m_write_set (mc_txs s w)) (mc_commit_tid (mc_ThLocalEpoch s w) (mc_txs s w)))"
  "mc_txs (mc_commit c w s) = (mc_txs s)(w := (mc_txs s w)\<lparr>m_mrctid := mc_commit_tid (mc_ThLocalEpoch s w) (mc_txs s w)\<rparr>)"
  by (simp_all add: mc_commit_def Let_def)

lemma mc_write_simps [simp]:
  "mc_com (mc_write_val c w e s) = mc_com s" "mc_pcs (mc_write_val c w e s) = mc_pcs s"
  "mc_txs (mc_write_val c w e s) = mc_txs s" "mc_wrapped (mc_write_val c w e s) = mc_wrapped s"
  "mc_tw (mc_write_val c w e s) k = mc_tw s k"
  "mc_com (mc_write_tid e tid s) = mc_com s" "mc_pcs (mc_write_tid e tid s) = mc_pcs s"
  "mc_txs (mc_write_tid e tid s) = mc_txs s" "mc_wrapped (mc_write_tid e tid s) = mc_wrapped s"
  "mc_val (mc_write_tid e tid s) k = mc_val s k"
  by (simp_all add: mc_write_val_def mc_write_tid_def Let_def)

text \<open>The serial database of a commit: the new values at the write set.\<close>

lemma mc_db_old: "i \<le> length (mc_com s) \<Longrightarrow> mc_com t = mc_com s @ cs \<Longrightarrow> mc_db d t i = mc_db d s i"
  by (simp add: mc_db_def)

lemma mc_now_commit:
  assumes "mc_com t = mc_com s @ [mc_record n tx]" "distinct (map mw_key (m_write_set tx))"
  shows "mc_now d t k = (if k \<in> wkeys tx then memcpy (mc_now d s k) (m_write_val tx) n else mc_now d s k)"
proof -
  let ?r = "cx_rec (mc_record n tx)"
  have now: "mc_now d t k = apply_tx ?r (mc_now d s) k" using assms(1) by (simp add: mc_db_def)
  have keys: "fst ` set (tx_writes ?r) = wkeys tx" by (simp add: mc_record_def image_image)
  show ?thesis
  proof (cases "k \<in> wkeys tx")
    case True
    then have "(k, \<lambda>old. memcpy old (m_write_val tx) n) \<in> set (tx_writes ?r)" by (auto simp: mc_record_def)
    moreover have "distinct (map fst (tx_writes ?r))" using assms(2) by (simp add: mc_record_def comp_def)
    ultimately show ?thesis using True now apply_tx_in by simp
  next
    case False
    then show ?thesis using now keys by (simp add: apply_tx_other)
  qed
qed

text \<open>The facts about a committing worker.\<close>

lemma mc_wf_wset:
  assumes "mc_wf c t pc"
  shows "distinct (map mw_key (m_write_set t))" "length (m_write_val t) = mc_val_size c"
    "e \<in> set (m_write_set t) \<Longrightarrow> mw_rcdptr e = mw_key e"
    "r \<in> set (m_read_set t) \<Longrightarrow> mr_rcdptr r = mr_key r" "length (m_return_val t) = mc_val_size c"
  using assms by (auto simp: mc_wf_def Let_def)

lemma mc_wf_write:
  assumes "mc_wfs c w s" "mc_pcs s w = MWrite (e # es) tid \<or> mc_pcs s w = MStore e es tid"
  shows "mw_rcdptr e = mw_key e" "mw_key e \<notin> mw_key ` set es"
proof -
  have "\<exists>ds. m_write_set (mc_txs s w) = ds @ e # es" using mc_wf_pc [OF assms(1)] assms(2) by auto
  then obtain ds where ds: "m_write_set (mc_txs s w) = ds @ e # es" ..
  then show "mw_rcdptr e = mw_key e" "mw_key e \<notin> mw_key ` set es"
    using mc_wf_wset(1,3) [OF assms(1)] by simp_all
qed

lemma mc_commit_locked:
  assumes "mc_wfs c w s" "mc_pcs s w = MVal i" "k \<in> wkeys (mc_txs s w)"
  shows "mc_acc s w k = Some True"
  using mc_wf_pc [OF assms(1)] assms(2,3) by (auto simp: mc_split_def mc_wlocked_def)

lemma mc_locked_val:
  assumes "mc_base c d s" "mc_acc s w k = Some b" "mc_pend (mc_pcs s w) = {}"
  shows "mc_val s k = mc_now d s k"
proof (rule mc_vals_quiet [OF mc_base_vals [OF assms(1)]])
  show "k \<notin> mc_pend (mc_pcs s v)" for v
    using mc_locked_quiet(1) [OF assms(1,2), of v] assms(3) by (cases "v = w") auto
qed

section \<open>The values\<close>

lemma mc_vals_frame:
  assumes v: "mc_vals c d s"
    and "\<And>k. mc_val t k = mc_val s k" "mc_com t = mc_com s"
    and "\<And>v. mc_pend (mc_pcs t v) = mc_pend (mc_pcs s v)"
    and "\<And>v. mc_pend (mc_pcs s v) \<noteq> {} \<Longrightarrow> m_write_val (mc_txs t v) = m_write_val (mc_txs s v)"
  shows "mc_vals c d t"
proof -
  have "mc_now d t = mc_now d s" using assms(3) by (simp add: mc_db_def)
  moreover have "mc_now d s k = m_write_val (mc_txs t v)" if "k \<in> mc_pend (mc_pcs s v)" for v k
  proof -
    have "mc_pend (mc_pcs s v) \<noteq> {}" using that by blast
    then show ?thesis using mc_vals_pend [OF v that] assms(5) [of v] by simp
  qed
  ultimately show ?thesis using v assms(2,4) by (simp add: mc_vals_def)
qed

lemma mc_vals_commit:
  assumes b: "mc_base c d s" and pc: "mc_pcs s w = MVal i"
  shows "mc_vals c d (mc_commit c w s)"
proof -
  note wf = mc_base_wf [OF b, of w]
  note vals = mc_base_vals [OF b]
  let ?t = "mc_commit c w s"
  let ?tx = "mc_txs s w"
  have now: "mc_now d ?t k = (if k \<in> wkeys ?tx then m_write_val ?tx else mc_now d s k)" for k
  proof -
    have "memcpy (mc_now d s k) (m_write_val ?tx) (mc_val_size c) = m_write_val ?tx" if "k \<in> wkeys ?tx"
    proof -
      have "mc_val s k = mc_now d s k"
        by (rule mc_locked_val [OF b mc_commit_locked [OF wf pc that]]) (simp add: pc)
      then have "length (mc_now d s k) = mc_val_size c" using mc_vals_len [OF vals, of k] by simp
      then show ?thesis using mc_wf_wset(2) [OF wf] by (simp add: memcpy_full)
    qed
    then show ?thesis
      using mc_now_commit [of ?t s "mc_val_size c" ?tx d k] mc_wf_wset(1) [OF wf] by simp
  qed
  show ?thesis
    unfolding mc_vals_def
  proof (intro conjI allI impI ballI)
    show "length (mc_val ?t k) = mc_val_size c" for k using mc_vals_len [OF vals] by simp
  next
    fix k assume q: "\<forall>v. k \<notin> mc_pend (mc_pcs ?t v)"
    then have "k \<notin> wkeys ?tx" "k \<notin> mc_pend (mc_pcs s v)" for v
      using spec [OF q, of w] spec [OF q, of v] by (cases "v = w"; simp add: pc)+
    then show "mc_val ?t k = mc_now d ?t k" using mc_vals_quiet [OF vals, of k] now by simp
  next
    fix v k assume k: "k \<in> mc_pend (mc_pcs ?t v)"
    show "mc_now d ?t k = m_write_val (mc_txs ?t v)"
    proof (cases "v = w")
      case True
      then show ?thesis using k now by simp
    next
      case False
      then have k': "k \<in> mc_pend (mc_pcs s v)" using k by simp
      then have "k \<notin> wkeys ?tx"
        using mc_locked_quiet(1) [OF b mc_commit_locked [OF wf pc] False] by blast
      then show ?thesis using mc_vals_pend [OF vals k'] now False by simp
    qed
  qed
qed

lemma mc_write_val_at:
  assumes "mc_base c d s" "mc_pcs s w = MWrite (e # es) tid" "mc_txs u = mc_txs s" "mc_table u = mc_table s"
  shows "mc_val (mc_write_val c w e u) k = (if k = mw_key e then mc_now d s k else mc_val s k)"
proof -
  note wf = mc_base_wf [OF assms(1), of w]
  have p: "mw_rcdptr e = mw_key e" using mc_wf_write(1) [OF wf] assms(2) by blast
  have "mc_now d s (mw_key e) = m_write_val (mc_txs s w)"
    by (rule mc_vals_pend [OF mc_base_vals [OF assms(1)]]) (simp add: assms(2))
  moreover have "memcpy (mc_val s (mw_key e)) (m_write_val (mc_txs s w)) (mc_val_size c) = m_write_val (mc_txs s w)"
    using mc_wf_wset(2) [OF wf] mc_vals_len [OF mc_base_vals [OF assms(1)]] by (simp add: memcpy_full)
  ultimately show ?thesis using p assms(3,4) by (simp add: mc_write_val_def Let_def)
qed

lemma mc_vals_payload:
  assumes b: "mc_base c d s" and pc: "mc_pcs s w = MWrite (e # es) tid"
  shows "mc_vals c d (mc_write_val c w e (mc_goto w (MStore e es tid) s))"
proof -
  note vals = mc_base_vals [OF b]
  let ?t = "mc_write_val c w e (mc_goto w (MStore e es tid) s)"
  have v: "mc_val ?t k = (if k = mw_key e then mc_now d s k else mc_val s k)" for k
    by (rule mc_write_val_at [OF b pc]) simp_all
  have now: "mc_now d ?t = mc_now d s" by (simp add: mc_db_def)
  have ne: "mw_key e \<notin> mw_key ` set es" using mc_wf_write(2) [OF mc_base_wf [OF b]] pc by blast
  have pend: "mc_pend (mc_pcs ?t u) = mc_pend (mc_pcs s u) - {mw_key e}" for u
  proof (cases "u = w")
    case False
    then show ?thesis using mc_pend_other [OF b, of "mw_key e" w u] pc by auto
  qed (use ne pc in auto)
  show ?thesis
    unfolding mc_vals_def
  proof (intro conjI allI impI ballI)
    fix k
    have "length (mc_now d s (mw_key e)) = mc_val_size c"
      using mc_vals_pend [OF vals, of "mw_key e" w] mc_wf_wset(2) [OF mc_base_wf [OF b]] pc by simp
    then show "length (mc_val ?t k) = mc_val_size c" using mc_vals_len [OF vals] v by simp
  next
    fix k assume q: "\<forall>u. k \<notin> mc_pend (mc_pcs ?t u)"
    show "mc_val ?t k = mc_now d ?t k"
      using mc_vals_quiet [OF vals, of k] q unfolding v now pend by auto
  next
    fix u k assume "k \<in> mc_pend (mc_pcs ?t u)"
    then show "mc_now d ?t k = m_write_val (mc_txs ?t u)" using mc_vals_pend [OF vals, of k u] pend now by simp
  qed
qed

lemma mc_vals_step:
  assumes b: "mc_base c d s" and other: "\<And>v. v \<noteq> w \<Longrightarrow> mc_pcs (mc_step c w pro now x s) v = mc_pcs s v \<and>
    mc_txs (mc_step c w pro now x s) v = mc_txs s v"
  shows "mc_vals c d (mc_step c w pro now x s)"
proof (cases "mc_loud s w")
  case False
  have same: "mc_same s (mc_step c w pro now x s)" by (rule mc_step_same [OF False])
  show ?thesis
  proof (rule mc_vals_frame [OF mc_base_vals [OF b]])
    fix v
    show "mc_pend (mc_pcs (mc_step c w pro now x s) v) = mc_pend (mc_pcs s v)"
      using mc_step_mute [OF False] other [of v] by (cases "v = w") (simp_all add: mc_mute_def)
    show "m_write_val (mc_txs (mc_step c w pro now x s) v) = m_write_val (mc_txs s v)" if "mc_pend (mc_pcs s v) \<noteq> {}"
      using mc_step_mute(2) [OF False] other [of v] that by (cases "v = w") (simp_all add: mc_mute_def)
  qed (use same in \<open>simp_all add: mc_same_def\<close>)
next
  case True
  then show ?thesis
  proof (cases rule: mc_loud_cases)
    case (commit i)
    then show ?thesis using mc_vals_commit [OF b commit(1)] by (simp add: mc_step_loud)
  next
    case (payload e es tid)
    then show ?thesis using mc_vals_payload [OF b payload] by (simp add: mc_step_loud)
  next
    case (stamp e es tid)
    show ?thesis unfolding mc_step_loud(3) [OF stamp]
      by (rule mc_vals_frame [OF mc_base_vals [OF b]]) (use stamp in \<open>simp_all\<close>)
  qed
qed

section \<open>The base is inductive\<close>

lemma mc_base_init: "mc_start c d s \<Longrightarrow> mc_base c d s"
proof -
  assume "mc_start c d s"
  then obtain wv now where s: "s = mc_init c d wv now" and wv: "\<And>w. length (wv w) = mc_val_size c"
    and d: "\<And>k. length (d k) = mc_val_size c" by (auto simp: mc_start_def)
  have "mc_wfs c w s" for w using wv by (simp add: s mc_init_def mc_wf_def mc_new_def Let_def)
  moreover have "lt_ok (mc_workers c) (mc_L s) (mc_acc s)"
    by (simp add: lt_ok_def s mc_init_def mc_new_def held_def ctr_rep_def)
  moreover have "mc_vals c d s" using d by (simp add: mc_vals_def s mc_init_def mc_db_def)
  ultimately show ?thesis by (simp add: mc_base_def s mc_init_def)
qed

lemma mc_base_moved:
  assumes "mc_base c d s" "mc_bounds c" "mc_pro_ok c pro"
  shows "mc_moved c w s (mc_step c w pro now x s)"
  using mc_moved_step [OF mc_base_wf [OF assms(1)] mc_vals_len [OF mc_base_vals [OF assms(1)]] _ _ assms(3)] assms(2)
  by (simp add: mc_bounds_def)

lemma mc_step_others:
  assumes "mc_base c d s" "mc_bounds c" "mc_pro_ok c pro" "v \<noteq> w"
  shows "mc_pcs (mc_step c w pro now x s) v = mc_pcs s v" "mc_txs (mc_step c w pro now x s) v = mc_txs s v"
  using mc_base_moved [OF assms(1-3), of w now x] assms(4) by (auto simp: mc_moved_def)

lemma mc_base_step:
  assumes b: "mc_base c d s" and bd: "mc_bounds c" and pro: "mc_pro_ok c pro" and w: "w < mc_workers c"
  shows "mc_base c d (mc_step c w pro now x s)"
proof -
  let ?t = "mc_step c w pro now x s"
  note mv = mc_base_moved [OF b bd pro, of w now x]
  note other = mc_step_others [OF b bd pro]
  have "mc_wfs c v ?t" for v
    using mv mc_base_wf [OF b, of v] other [of v w] by (cases "v = w") (simp_all add: mc_moved_def)
  moreover have "mc_pcs ?t v = MMake" if "mc_workers c \<le> v" for v
    using mc_base_idle [OF b that] other [of v w] w that by (cases "v = w") simp_all
  moreover have "mc_acc ?t = (mc_acc s)(w := mc_acc ?t w)"
    using other [of _ w] by (auto simp: fun_eq_iff)
  then have "lt_ok (mc_workers c) (mc_L ?t) (mc_acc ?t)"
    using lt_move_ok [OF _ refl mc_base_lt [OF b] w, of "mc_L ?t" "mc_acc ?t w"] mv bd
    by (simp add: mc_moved_def mc_bounds_def)
  moreover have "mc_vals c d ?t" by (rule mc_vals_step [OF b]) (use other [of _ w] in simp)
  ultimately show ?thesis by (simp add: mc_base_def)
qed

lemma mc_base_quit: "mc_base c d s \<Longrightarrow> mc_base c d (s\<lparr>mc_quit := True\<rparr>)"
  by (simp add: mc_base_def mc_vals_def mc_db_def)

end
