(* ===== verification/Mocc_Facts.thy ===== *)
theory Mocc_Facts
  imports Mocc_Steps
begin

text \<open>
  What a MOCC transaction knows about the records it accessed: the values are committed ones, and as long
  as no tid has wrapped, an unchanged TID word means an unchanged payload, except under a
  writer between its two stores. From it: what was read under a lock is what a serial run reads.
\<close>

section \<open>The facts\<close>

definition mc_comm :: "db \<Rightarrow> mc_sys \<Rightarrow> key \<Rightarrow> val \<Rightarrow> bool" where
  "mc_comm d s k v \<longleftrightarrow> (\<exists>i \<le> length (mc_com s). v = mc_db d s i k)"

definition mc_seen :: "mc_sys \<Rightarrow> key \<Rightarrow> u64 \<Rightarrow> val \<Rightarrow> bool" where
  "mc_seen s k tid v \<longleftrightarrow> tid \<le> mc_tw s k \<and> (tid = mc_tw s k \<longrightarrow> k \<notin> mc_flux s \<longrightarrow> v = mc_val s k)"

definition mc_ok :: "db \<Rightarrow> mc_sys \<Rightarrow> key \<Rightarrow> u64 \<Rightarrow> val \<Rightarrow> bool" where
  "mc_ok d s k tid v \<longleftrightarrow> mc_comm d s k v \<and> (\<not> mc_wrapped s \<longrightarrow> mc_seen s k tid v)"

fun mc_aborting :: "mc_pc \<Rightarrow> bool" where
  "mc_aborting (MUnl es ok) = (\<not> ok)"
| "mc_aborting (MRll rs) = True"
| "mc_aborting (MTLoad r rs) = True"
| "mc_aborting (MTGE r rs ep) = True"
| "mc_aborting (MTReset r rs ep ep') = True"
| "mc_aborting (MTCas r rs ep) = True"
| "mc_aborting (MTTest r rs) = True"
| "mc_aborting pc = False"

text \<open>The read set, the read in progress, the TID words of the locked part of the write set, those of the
  writes to come, and the validated reads under a lock.\<close>

definition mc_rf :: "db \<Rightarrow> mc_sys \<Rightarrow> mc_tx \<Rightarrow> mc_pc \<Rightarrow> bool" where
  "mc_rf d s t pc \<longleftrightarrow> mc_aborting pc \<or> (\<forall>r \<in> set (m_read_set t). mc_ok d s (mr_key r) (mr_tidword r) (mr_val r))"

fun mc_pf :: "db \<Rightarrow> mc_sys \<Rightarrow> mc_tx \<Rightarrow> mc_pc \<Rightarrow> bool" where
  "mc_pf d s t (MSpin k rw i cs) = (\<not> mc_wrapped s \<longrightarrow> i \<le> mc_tw s k)"
| "mc_pf d s t (MCopy k rw i cs) = (\<not> mc_wrapped s \<longrightarrow> i \<le> mc_tw s k)"
| "mc_pf d s t (MLkCopy k rw i cs) = (\<not> mc_wrapped s \<longrightarrow> i \<le> mc_tw s k)"
| "mc_pf d s t (MCheck k rw i cs) = mc_ok d s k i (m_return_val t)"
| "mc_pf d s t pc = True"

fun mc_rest_aft :: "mc_after \<Rightarrow> mc_welem list option" where
  "mc_rest_aft (AftCommit e es) = Some (e # es)"
| "mc_rest_aft aft = None"

fun mc_rest :: "mc_pc \<Rightarrow> mc_welem list option" where
  "mc_rest (MClock es) = Some es"
| "mc_rest (MWset e es) = Some (e # es)"
| "mc_rest (MLock k p m aft) = mc_rest_aft aft"
| "mc_rest (MRel fs pre k p m aft) = mc_rest_aft aft"
| "mc_rest (MAcq pre k p m aft) = mc_rest_aft aft"
| "mc_rest MEpochLoad = Some []"
| "mc_rest (MEpochStore g) = Some []"
| "mc_rest (MVal i) = Some []"
| "mc_rest (MValLock i) = Some []"
| "mc_rest (MValMax i) = Some []"
| "mc_rest pc = None"

definition mc_wl :: "mc_sys \<Rightarrow> mc_tx \<Rightarrow> mc_pc \<Rightarrow> bool" where
  "mc_wl s t pc \<longleftrightarrow> (\<not> mc_wrapped s \<longrightarrow> (\<forall>es ds. mc_rest pc = Some es \<longrightarrow> m_write_set t = ds @ es \<longrightarrow>
     (\<forall>e \<in> set ds. mc_tw s (mw_key e) \<le> m_max_wset t)))"

fun mc_stale :: "mc_pc \<Rightarrow> (mc_welem list \<times> u64) option" where
  "mc_stale (MWrite es tid) = Some (es, tid)"
| "mc_stale (MStore e es tid) = Some (e # es, tid)"
| "mc_stale pc = None"

definition mc_pl :: "mc_sys \<Rightarrow> mc_pc \<Rightarrow> bool" where
  "mc_pl s pc \<longleftrightarrow> (\<not> mc_wrapped s \<longrightarrow> (\<forall>es tid. mc_stale pc = Some (es, tid) \<longrightarrow> (\<forall>e \<in> set es. mc_tw s (mw_key e) < tid)))"

fun mc_checked :: "mc_pc \<Rightarrow> nat" where
  "mc_checked (MVal i) = i"
| "mc_checked (MValLock i) = Suc i"
| "mc_checked (MValMax i) = Suc i"
| "mc_checked pc = 0"

definition mc_ck :: "mc_sys \<Rightarrow> mc_tx \<Rightarrow> mc_pc \<Rightarrow> bool" where
  "mc_ck s t pc \<longleftrightarrow> (\<not> mc_wrapped s \<longrightarrow> (\<forall>j < mc_checked pc. j < length (m_read_set t) \<longrightarrow>
     mr_key (m_read_set t ! j) \<in> locks (m_CLL t) \<longrightarrow> mr_val (m_read_set t ! j) = mc_val s (mr_key (m_read_set t ! j))))"

definition mc_fact :: "db \<Rightarrow> mc_sys \<Rightarrow> mc_tx \<Rightarrow> mc_pc \<Rightarrow> bool" where
  "mc_fact d s t pc \<longleftrightarrow> mc_rf d s t pc \<and> mc_pf d s t pc \<and> mc_wl s t pc \<and> mc_pl s pc \<and> mc_ck s t pc"

definition mc_tables :: "db \<Rightarrow> mc_sys \<Rightarrow> bool" where
  "mc_tables d s \<longleftrightarrow> (\<forall>k. mc_comm d s k (mc_val s k))"

definition mc_hist :: "db \<Rightarrow> mc_sys \<Rightarrow> bool" where
  "mc_hist d s \<longleftrightarrow> (\<forall>j < length (mc_com s). \<forall>(k, v) \<in> set (tx_reads (cx_rec (mc_com s ! j))).
     (\<exists>i \<le> j. v = mc_db d s i k) \<and> (\<not> mc_wrapped s \<longrightarrow> k \<in> set (cx_locked (mc_com s ! j)) \<longrightarrow> v = mc_db d s j k))"

definition mc_inv :: "mc_config \<Rightarrow> db \<Rightarrow> mc_sys \<Rightarrow> bool" where
  "mc_inv c d s \<longleftrightarrow> mc_base c d s \<and> (\<forall>w. mc_fact d s (mc_txs s w) (mc_pcs s w)) \<and> mc_tables d s \<and> mc_hist d s"

lemma mc_invD:
  assumes "mc_inv c d s"
  shows mc_inv_base: "mc_base c d s" and mc_inv_fact: "mc_fact d s (mc_txs s w) (mc_pcs s w)"
    and mc_inv_tables: "mc_tables d s" and mc_inv_hist: "mc_hist d s"
  using assms by (auto simp: mc_inv_def)

lemma mc_factD:
  assumes "mc_fact d s t pc"
  shows mc_fact_rf: "mc_rf d s t pc" and mc_fact_pf: "mc_pf d s t pc" and mc_fact_wl: "mc_wl s t pc"
    and mc_fact_pl: "mc_pl s pc" and mc_fact_ck: "mc_ck s t pc"
  using assms by (simp_all add: mc_fact_def)

section \<open>Evolution\<close>

definition mc_evo :: "mc_sys \<Rightarrow> mc_sys \<Rightarrow> bool" where
  "mc_evo s t \<longleftrightarrow> (\<exists>cs. mc_com t = mc_com s @ cs) \<and>
     (\<not> mc_wrapped t \<longrightarrow> \<not> mc_wrapped s \<and>
       (\<forall>k. mc_tw s k \<le> mc_tw t k \<and> (mc_tw t k = mc_tw s k \<longrightarrow> k \<notin> mc_flux t \<longrightarrow> k \<notin> mc_flux s \<and> mc_val t k = mc_val s k)))"

lemma mc_comm_evo:
  assumes "mc_evo s t" "mc_comm d s k v"
  shows "mc_comm d t k v"
proof -
  obtain cs where cs: "mc_com t = mc_com s @ cs" using assms(1) by (auto simp: mc_evo_def)
  obtain i where i: "i \<le> length (mc_com s)" "v = mc_db d s i k" using assms(2) by (auto simp: mc_comm_def)
  then have "i \<le> length (mc_com t)" "v = mc_db d t i k" using cs mc_db_old [OF i(1) cs] by simp_all
  then show ?thesis by (auto simp: mc_comm_def)
qed

lemma mc_ok_evo:
  assumes e: "mc_evo s t" and ok: "mc_ok d s k i v"
  shows "mc_ok d t k i v"
proof -
  have "mc_seen t k i v" if nw: "\<not> mc_wrapped t"
  proof -
    have s: "\<not> mc_wrapped s" "mc_tw s k \<le> mc_tw t k"
      "mc_tw t k = mc_tw s k \<Longrightarrow> k \<notin> mc_flux t \<Longrightarrow> k \<notin> mc_flux s \<and> mc_val t k = mc_val s k"
      using e nw by (simp_all add: mc_evo_def)
    have old: "i \<le> mc_tw s k" "i = mc_tw s k \<Longrightarrow> k \<notin> mc_flux s \<Longrightarrow> v = mc_val s k"
      using ok s(1) by (simp_all add: mc_ok_def mc_seen_def)
    show ?thesis
      unfolding mc_seen_def
    proof (intro conjI impI)
      show "i \<le> mc_tw t k" using old(1) s(2) by (rule order_trans)
    next
      assume i: "i = mc_tw t k" and k: "k \<notin> mc_flux t"
      then have "mc_tw t k = mc_tw s k" using old(1) s(2) by simp
      then show "v = mc_val t k" using s(3) k old(2) i by simp
    qed
  qed
  then show ?thesis using ok mc_comm_evo [OF e] by (simp add: mc_ok_def)
qed

lemma mc_rf_evo: "mc_evo s t \<Longrightarrow> mc_rf d s x pc \<Longrightarrow> mc_rf d t x pc"
  by (auto simp: mc_rf_def intro: mc_ok_evo)

lemma mc_tw_evo:
  assumes "mc_evo s t" "\<not> mc_wrapped s \<longrightarrow> i \<le> mc_tw s k" "\<not> mc_wrapped t"
  shows "i \<le> mc_tw t k"
  using assms order_trans [of i "mc_tw s k" "mc_tw t k"] by (simp add: mc_evo_def)

lemma mc_pf_evo: "mc_evo s t \<Longrightarrow> mc_pf d s x pc \<Longrightarrow> mc_pf d t x pc"
  by (cases pc) (auto intro: mc_ok_evo mc_tw_evo)

section \<open>The other workers\<close>

text \<open>Records that worker \<open>v\<close> has locked do not change.\<close>

definition mc_still :: "mc_sys \<Rightarrow> nat \<Rightarrow> mc_sys \<Rightarrow> bool" where
  "mc_still s v t \<longleftrightarrow> (\<forall>k b. mc_acc s v k = Some b \<longrightarrow> mc_val t k = mc_val s k \<and> mc_tw t k = mc_tw s k)"

lemma mc_access_append: "mc_access xs k = Some m \<Longrightarrow> mc_access (xs @ ys) k = Some m"
  by (induction xs) (auto simp: mc_access_Cons split: if_splits)

lemma mc_CLL_acc:
  assumes "mc_access (m_CLL t) k = Some m" "\<forall>es ok. pc \<noteq> MUnl es ok"
  shows "mc_access (mc_held pc t) k = Some m"
proof (cases pc)
  case (MUnl es ok)
  with assms(2) show ?thesis by blast
qed (use assms(1) in \<open>simp_all add: mc_access_append\<close>)

lemma mc_rest_split:
  assumes "mc_wfs c v s" "mc_rest (mc_pcs s v) = Some es"
  shows "mc_split (mc_txs s v) es"
  using mc_wf_pc [OF assms(1)] assms(2)
  by (cases "mc_pcs s v") (auto elim!: mc_rest_aft.elims)

lemma mc_rest_locked:
  assumes wf: "mc_wfs c v s" and rest: "mc_rest (mc_pcs s v) = Some es" and ws: "m_write_set (mc_txs s v) = ds @ es"
    and e: "e \<in> set ds"
  shows "mc_acc s v (mw_key e) = Some True"
proof (rule mc_CLL_acc)
  obtain ds' where "m_write_set (mc_txs s v) = ds' @ es" "mc_wlocked (mc_txs s v) ds'"
    using mc_rest_split [OF wf rest] by (auto simp: mc_split_def)
  then show "mc_access (m_CLL (mc_txs s v)) (mw_key e) = Some True" using ws e by (auto simp: mc_wlocked_def)
  show "\<forall>es ok. mc_pcs s v \<noteq> MUnl es ok" using rest by auto
qed

lemma mc_stale_locked:
  assumes wf: "mc_wfs c v s" and st: "mc_stale (mc_pcs s v) = Some (es, tid)" and e: "e \<in> set es"
  shows "mc_acc s v (mw_key e) = Some True"
proof (rule mc_pend_locked [OF wf])
  show "mw_key e \<in> mc_pend (mc_pcs s v) \<union> mc_fluxw (mc_pcs s v)" using st e by (cases "mc_pcs s v") auto
qed

lemma mc_checked_locked:
  assumes "j < mc_checked (mc_pcs s v)" "k \<in> locks (m_CLL (mc_txs s v))"
  shows "\<exists>b. mc_acc s v k = Some b"
proof -
  have "mc_held (mc_pcs s v) (mc_txs s v) = m_CLL (mc_txs s v)" using assms(1) by (cases "mc_pcs s v") auto
  then show ?thesis using assms(2) mc_access_None [of "m_CLL (mc_txs s v)" k] by (cases "mc_access (m_CLL (mc_txs s v)) k") auto
qed

lemma mc_fact_other:
  assumes wf: "mc_wfs c v s" and f: "mc_fact d s (mc_txs s v) (mc_pcs s v)" and evo: "mc_evo s t" and st: "mc_still s v t"
  shows "mc_fact d t (mc_txs s v) (mc_pcs s v)"
proof -
  let ?x = "mc_txs s v" and ?pc = "mc_pcs s v"
  have nw: "\<not> mc_wrapped t \<Longrightarrow> \<not> mc_wrapped s" using evo by (simp add: mc_evo_def)
  have still: "mc_acc s v k = Some b \<Longrightarrow> mc_val t k = mc_val s k \<and> mc_tw t k = mc_tw s k" for k b
    using st by (simp add: mc_still_def)
  have "mc_wl t ?x ?pc"
    unfolding mc_wl_def
  proof (intro impI allI ballI)
    fix es ds e assume h: "\<not> mc_wrapped t" "mc_rest ?pc = Some es" "m_write_set ?x = ds @ es" "e \<in> set ds"
    then have "mc_tw s (mw_key e) \<le> m_max_wset ?x" using mc_fact_wl [OF f] nw by (simp add: mc_wl_def)
    then show "mc_tw t (mw_key e) \<le> m_max_wset ?x" using still [OF mc_rest_locked [OF wf h(2-4)]] by simp
  qed
  moreover have "mc_pl t ?pc"
    unfolding mc_pl_def
  proof (intro impI allI ballI)
    fix es tid e assume h: "\<not> mc_wrapped t" "mc_stale ?pc = Some (es, tid)" "e \<in> set es"
    then have "mc_tw s (mw_key e) < tid" using mc_fact_pl [OF f] nw by (simp add: mc_pl_def)
    then show "mc_tw t (mw_key e) < tid" using still [OF mc_stale_locked [OF wf h(2,3)]] by simp
  qed
  moreover have "mc_ck t ?x ?pc"
    unfolding mc_ck_def
  proof (intro impI allI)
    fix j assume h: "\<not> mc_wrapped t" "j < mc_checked ?pc" "j < length (m_read_set ?x)"
      "mr_key (m_read_set ?x ! j) \<in> locks (m_CLL ?x)"
    then have "mr_val (m_read_set ?x ! j) = mc_val s (mr_key (m_read_set ?x ! j))"
      using mc_fact_ck [OF f] nw by (simp add: mc_ck_def)
    moreover obtain b where "mc_acc s v (mr_key (m_read_set ?x ! j)) = Some b"
      using mc_checked_locked [OF h(2,4)] by blast
    ultimately show "mr_val (m_read_set ?x ! j) = mc_val t (mr_key (m_read_set ?x ! j))" using still by simp
  qed
  ultimately show ?thesis
    using mc_rf_evo [OF evo mc_fact_rf [OF f]] mc_pf_evo [OF evo mc_fact_pf [OF f]] by (simp add: mc_fact_def)
qed

end
