(* ===== verification/Mocc_Own.thy ===== *)
theory Mocc_Own
  imports Mocc_Facts
begin

text \<open>The facts of the worker that makes a step which changes no data.\<close>

section \<open>The data is the same\<close>

lemma mc_same_facts:
  assumes "mc_same s t" "mc_flux t = mc_flux s"
  shows "mc_rf d t = mc_rf d s" "mc_pf d t = mc_pf d s" "mc_wl t = mc_wl s" "mc_pl t = mc_pl s" "mc_ck t = mc_ck s"
proof -
  have sel: "mc_val t = mc_val s" "mc_tw t = mc_tw s" "mc_com t = mc_com s" "mc_wrapped t = mc_wrapped s"
    using assms(1) by (simp_all add: mc_same_def)
  have ok: "mc_ok d t = mc_ok d s"
    using assms(2) sel fun_cong [OF sel(1)] fun_cong [OF sel(2)]
    by (simp add: fun_eq_iff mc_ok_def mc_seen_def mc_comm_def mc_db_def)
  show "mc_rf d t = mc_rf d s" by (simp add: fun_eq_iff mc_rf_def ok)
  show "mc_pf d t = mc_pf d s"
  proof (intro ext)
    show "mc_pf d t x pc = mc_pf d s x pc" for x pc
      using fun_cong [OF sel(2)] sel(4) ok by (cases pc) simp_all
  qed
  show "mc_wl t = mc_wl s" "mc_pl t = mc_pl s" "mc_ck t = mc_ck s"
    using fun_cong [OF sel(1)] fun_cong [OF sel(2)] sel(4) by (simp_all add: fun_eq_iff mc_wl_def mc_pl_def mc_ck_def)
qed

lemma mc_flux_quiet:
  assumes "mc_fluxw (mc_pcs t w) = mc_fluxw (mc_pcs s w)" "\<And>v. v \<noteq> w \<Longrightarrow> mc_pcs t v = mc_pcs s v"
  shows "mc_flux t = mc_flux s"
proof -
  have "mc_fluxw (mc_pcs t v) = mc_fluxw (mc_pcs s v)" for v using assms by (cases "v = w") simp_all
  then show ?thesis by (simp add: mc_flux_def)
qed

section \<open>The read set\<close>

definition mc_rs :: "db \<Rightarrow> mc_sys \<Rightarrow> mc_tx \<Rightarrow> bool" where
  "mc_rs d s t \<longleftrightarrow> (\<forall>r \<in> set (m_read_set t). mc_ok d s (mr_key r) (mr_tidword r) (mr_val r))"

lemma mc_rf_rs: "mc_rf d s t pc \<longleftrightarrow> mc_aborting pc \<or> mc_rs d s t"
  by (simp add: mc_rf_def mc_rs_def)

lemma mc_rs_simps [simp]:
  "mc_rs d s (mc_push_write k p t) = mc_rs d s t"
  "mc_rs d s (mc_push_read k i t) \<longleftrightarrow> mc_rs d s t \<and> mc_ok d s k i (m_return_val t)"
  "mc_rs d s (t\<lparr>m_CLL := cll\<rparr>) = mc_rs d s t" "mc_rs d s (t\<lparr>m_pro_set := ps\<rparr>) = mc_rs d s t"
  "mc_rs d s (t\<lparr>m_max_rset := a\<rparr>) = mc_rs d s t" "mc_rs d s (t\<lparr>m_max_wset := a\<rparr>) = mc_rs d s t"
  "mc_rs d s (t\<lparr>m_CLL := cll, m_RLL := rll, m_read_set := [], m_write_set := []\<rparr>)"
  "mc_rs d s (t\<lparr>m_RLL := rll, m_read_set := [], m_write_set := []\<rparr>)"
  "mc_rs d s (mc_begin t) = mc_rs d s t" "mc_rs d s (mc_sort t) = mc_rs d s t"
  "mc_rs d s (mc_copied c k s' t) = mc_rs d s t"
  by (simp_all add: mc_rs_def mc_push_write_def mc_push_read_def mc_begin_def mc_sort_def mc_copied_def conj_commute)

lemma mc_rs_resume: "mc_rs d s (mc_txs u w) \<Longrightarrow> mc_rs d s (mc_txs (mc_resume w aft u) w)"
  by (simp add: mc_resume_def mc_write_end_def mc_write_listed_def split: mc_after.split)

lemma mc_rs_take:
  "mc_rs d s (mc_txs s w) \<Longrightarrow> (\<And>u. mc_rs d s (mc_txs u w) \<Longrightarrow> mc_rs d s (mc_txs (cont u) w)) \<Longrightarrow>
   mc_rs d s (mc_txs (mc_take w e cont s) w)"
  by (simp add: mc_take_def Let_def split: option.split)

lemma mc_rs_plain:
  assumes "mc_rs d s (mc_txs s w)"
  shows "mc_rs d s (mc_txs (mc_write_end w k p cs s) w)" "mc_rs d s (mc_txs (mc_write_listed w k p cs s) w)"
    "mc_rs d s (mc_txs (mc_rel w es pre k p m aft s) w)" "mc_rs d s (mc_txs (mc_read_call w k cs s) w)"
    "mc_rs d s (mc_txs (mc_write_call w k cs s) w)" "mc_rs d s (mc_txs (mc_rmw_call w k cs s) w)"
    "mc_rs d s (mc_txs (mc_read_start c w k cs s) w)" "mc_rs d s (mc_txs (mc_rmw_start c w k cs s) w)"
    "mc_rs d s (mc_txs (mc_write_start c w k cs s) w)" "mc_rs d s (mc_txs (mc_validate_max w n s) w)"
    "mc_rs d s (mc_txs (mc_unlockCLL w us True s) w)"
    "mc_rs d s (mc_txs (mc_leaderWork c w now s) w)" "mc_rs d s (mc_txs (mc_chkEpochLoaded c w g n st s) w)"
  using assms
  by (simp_all add: mc_write_end_def mc_write_listed_def mc_rel_def mc_read_call_def
      mc_write_call_def mc_rmw_call_def mc_read_start_def mc_rmw_start_def mc_write_start_def
      mc_validate_max_def mc_unlockCLL_def mc_leaderWork_def mc_chkEpochLoaded_def Let_def split: list.split option.split)

lemma mc_rs_lock: "mc_rs d s (mc_txs s w) \<Longrightarrow> mc_rs d s (mc_txs (mc_lock w k p m aft s) w)"
  by (simp add: mc_lock_def Let_def mc_rs_resume)

lemma mc_rs_acq: "mc_rs d s (mc_txs s w) \<Longrightarrow> mc_rs d s (mc_txs (mc_acq w pre k p m aft s) w)"
  by (simp add: mc_acq_def mc_rs_take mc_rs_resume split: list.split)

text \<open>Steps that abort, or clear the read set.\<close>

lemma mc_rf_ops:
  assumes "mc_rs d s (mc_txs s w)"
  shows "mc_rf d s (mc_txs (mc_spin w k rw i cs x s) w) (mc_pcs (mc_spin w k rw i cs x s) w)"
    "mc_rf d s (mc_txs (mc_validate w n s) w) (mc_pcs (mc_validate w n s) w)"
    "mc_rf d s (mc_txs (mc_validate_lock w n s) w) (mc_pcs (mc_validate_lock w n s) w)"
  using assms by (simp_all add: mc_rf_rs mc_spin_def mc_validate_def mc_validate_lock_def mc_to_abort_def Let_def)

lemma mc_rf_aborting:
  "mc_rf d s (mc_txs (mc_unlockCLL w us False s) w) (mc_pcs (mc_unlockCLL w us False s) w)"
  "mc_rf d s (mc_txs (mc_rll_next w rs s) w) (mc_pcs (mc_rll_next w rs s) w)"
  "mc_rf d s (mc_txs (mc_temp_epoch w r rs i s) w) (mc_pcs (mc_temp_epoch w r rs i s) w)"
  "mc_rf d s (mc_txs (mc_temp_cas c w r rs i x s) w) (mc_pcs (mc_temp_cas c w r rs i x s) w)"
  "mc_rf d s (mc_txs (mc_temp_test c w r rs s) w) (mc_pcs (mc_temp_test c w r rs s) w)"
  by (simp_all add: mc_rf_rs mc_unlockCLL_def mc_rll_next_def mc_temp_epoch_def mc_temp_cas_def mc_temp_test_def Let_def
      split: list.split)

lemma mc_rf_read_end:
  assumes "mc_rs d s t" "mc_ok d s k i (m_return_val t)"
  shows "mc_rf d s (mc_txs (mc_read_end w k rw i cs t s) w) (mc_pcs (mc_read_end w k rw i cs t s) w)"
  using assms by (simp add: mc_rf_rs mc_read_end_def)

lemma mc_copied_val:
  assumes "mc_base c d s"
  shows "m_return_val (mc_copied c k s (mc_txs s w)) = mc_val s k"
  using mc_wf_wset(5) [OF mc_base_wf [OF assms]] mc_vals_len [OF mc_base_vals [OF assms], of k]
  by (simp_all add: mc_copied_def get_tuple_def memcpy_full)

lemma mc_copied_ok:
  assumes "mc_base c d s" "mc_tables d s" "\<not> mc_wrapped s \<longrightarrow> i \<le> mc_tw s k"
  shows "mc_ok d s k i (m_return_val (mc_copied c k s (mc_txs s w)))"
  using assms(2,3) mc_copied_val [OF assms(1)] by (simp add: mc_ok_def mc_seen_def mc_tables_def)

lemma mc_rf_own:
  assumes inv: "mc_inv c d s" and q: "\<not> mc_loud s w"
  shows "mc_rf d s (mc_txs (mc_step c w pro now x s) w) (mc_pcs (mc_step c w pro now x s) w)"
proof -
  note b = mc_inv_base [OF inv]
  note f = mc_inv_fact [OF inv, of w]
  note rf = mc_fact_rf [OF f]
  have rs: "\<not> mc_aborting (mc_pcs s w) \<Longrightarrow> mc_rs d s (mc_txs s w)" using rf by (simp add: mc_rf_rs)
  have I: "mc_rs d s t \<Longrightarrow> mc_rf d s t pc" for t pc by (simp add: mc_rf_rs)
  show ?thesis
  proof (cases "mc_pcs s w")
    case MRetry
    then show ?thesis using rs mc_rs_plain(12) by (cases "w = 0") (simp_all add: mc_step_def Let_def I)
  next
    case (MCalls cs)
    then show ?thesis using rs mc_rs_plain
      by (simp add: mc_step_def Let_def I split: list.split mc_call.split)
  next
    case (MTemp cl cs)
    then show ?thesis using rs mc_rs_plain by (cases cl) (simp_all add: mc_step_def Let_def I)
  next
    case (MClock es)
    then show ?thesis using rs by (cases es) (simp_all add: mc_step_def Let_def I)
  next
    case (MVal n)
    then show ?thesis using q mc_rf_ops(2) [OF rs] by (simp add: mc_step_def Let_def mc_loud_def)
  next
    case (MWrite es tid)
    then show ?thesis using rs q by (simp add: mc_step_def Let_def I mc_loud_def)
  next
    case (MUnl es ok)
    then show ?thesis using rs mc_rs_plain mc_rf_aborting by (cases ok) (simp_all add: mc_step_def Let_def I)
  next
    case (MStore e es tid)
    then show ?thesis using q by (simp add: mc_loud_def)
  next
    case (MTry k p m up aft)
    then show ?thesis using mc_wf_pc [OF mc_base_wf [OF b, of w]] by simp
  next
    case (MCopy k rw i cs)
    then show ?thesis using rs by (simp add: mc_step_def Let_def I)
  next
    case (MLkCopy k rw i cs)
    then have "mc_ok d s k i (m_return_val (mc_copied c k s (mc_txs s w)))"
      using mc_fact_pf [OF f] by (intro mc_copied_ok [OF b mc_inv_tables [OF inv]]) simp
    then show ?thesis using rs MLkCopy by (simp add: mc_step_def Let_def mc_rf_read_end)
  next
    case (MCheck k rw i cs)
    then have "mc_ok d s k i (m_return_val (mc_txs s w))" using mc_fact_pf [OF f] by simp
    with MCheck rs have "mc_rf d s (mc_txs (mc_check w k rw i cs s) w) (mc_pcs (mc_check w k rw i cs s) w)"
      using mc_rf_read_end [of d s "mc_txs s w" k i w rw cs] by (auto simp: mc_check_def Let_def I)
    with MCheck show ?thesis by (simp add: mc_step_def Let_def)
  next
    case (MTLoad r rs)
    then show ?thesis by (simp add: mc_step_def Let_def mc_rf_def)
  next
    case (MTReset r rs i j)
    then show ?thesis by (simp add: mc_step_def Let_def mc_rf_def)
  next
    case (MAcq pre k p m aft)
    then show ?thesis using mc_rs_acq [OF rs] by (simp add: mc_step_def Let_def I)
  next
    case (MLock k p m aft)
    then show ?thesis using mc_rs_lock [OF rs] by (simp add: mc_step_def Let_def I)
  qed (use rs mc_rs_plain mc_rf_ops mc_rf_aborting in \<open>simp_all add: mc_step_def Let_def I\<close>)
qed

section \<open>The read in progress\<close>

text \<open>Control points that no fact is about.\<close>

definition mc_idle :: "mc_pc \<Rightarrow> bool" where
  "mc_idle pc \<longleftrightarrow> (\<forall>d s t. mc_pf d s t pc) \<and> mc_rest pc = None \<and> mc_checked pc = 0"

lemma mc_idle_simps [simp]:
  "mc_idle MMake" "mc_idle MRetry" "mc_idle (MScan g n st)" "mc_idle MQuit" "mc_idle MBegin" "mc_idle (MCalls cs)"
  "mc_idle (MTemp cl cs)" "mc_idle (MLoad k rw cs)" "mc_idle (MLkLoad k rw cs)" "mc_idle (MWrite es tid)"
  "mc_idle (MTry k p m up aft)" "mc_idle (MUnl fs ok)" "mc_idle (MRll rs)" "mc_idle (MTLoad r rs)" "mc_idle (MTGE r rs ep)"
  "mc_idle (MTReset r rs ep ep')" "mc_idle (MTCas r rs ep)" "mc_idle (MTTest r rs)" "mc_idle MStop"
  "mc_idle (MLock k p m aft) \<longleftrightarrow> mc_rest_aft aft = None" "mc_idle (MRel fs pre k p m aft) \<longleftrightarrow> mc_rest_aft aft = None"
  "mc_idle (MAcq pre k p m aft) \<longleftrightarrow> mc_rest_aft aft = None"
  by (simp_all add: mc_idle_def)

lemma mc_idle_facts:
  assumes "mc_idle pc"
  shows "mc_pf d s t pc" "mc_wl s t pc" "mc_ck s t pc"
  using assms by (simp_all add: mc_idle_def mc_wl_def mc_ck_def)

lemma mc_idle_ops [simp]:
  "mc_idle (mc_pcs (mc_write_end w k p cs s) w)" "mc_idle (mc_pcs (mc_write_listed w k p cs s) w)"
  "mc_idle (mc_pcs (mc_to_abort w t s) w)" "mc_idle (mc_pcs (mc_read_call w k cs s) w)"
  "mc_idle (mc_pcs (mc_write_call w k cs s) w)" "mc_idle (mc_pcs (mc_rmw_call w k cs s) w)"
  "mc_idle (mc_pcs (mc_read_start c w k cs s) w)" "mc_idle (mc_pcs (mc_rmw_start c w k cs s) w)"
  "mc_idle (mc_pcs (mc_write_start c w k cs s) w)" "mc_idle (mc_pcs (mc_read_end w k rw tid cs t s) w)"
  "mc_idle (mc_pcs (mc_unlockCLL w us ok s) w)" "mc_idle (mc_pcs (mc_rll_next w rs s) w)"
  "mc_idle (mc_pcs (mc_temp_epoch w r rs i s) w)" "mc_idle (mc_pcs (mc_temp_cas c w r rs i x s) w)"
  "mc_idle (mc_pcs (mc_temp_test c w r rs s) w)" "mc_idle (mc_pcs (mc_leaderWork c w now s) w)"
  "mc_idle (mc_pcs (mc_chkEpochLoaded c w g n st s) w)"
  by (simp_all add: mc_write_end_def mc_write_listed_def mc_to_abort_def mc_read_call_def
      mc_write_call_def mc_rmw_call_def mc_read_start_def mc_rmw_start_def mc_write_start_def mc_read_end_def
      mc_unlockCLL_def mc_rll_next_def mc_temp_epoch_def mc_temp_cas_def mc_temp_test_def
      mc_leaderWork_def mc_chkEpochLoaded_def Let_def split: list.split option.split)

lemma mc_pf_resume: "mc_pf d s t (mc_pcs (mc_resume w aft u) w)"
  by (simp add: mc_resume_def mc_idle_facts split: mc_after.split)

lemma mc_pf_lock: "mc_pf d s t (mc_pcs (mc_lock w k p m aft u) w)"
  by (simp add: mc_lock_def Let_def mc_pf_resume)

lemma mc_pf_acq:
  "mc_pcs u w = MAcq pre k p m aft \<Longrightarrow> mc_pf d s t (mc_pcs (mc_acq w pre k p m aft u) w)"
  by (simp add: mc_acq_def mc_take_def Let_def mc_pf_resume split: list.split option.split)

lemma mc_pf_own:
  assumes inv: "mc_inv c d s" and q: "\<not> mc_loud s w"
  shows "mc_pf d s (mc_txs (mc_step c w pro now x s) w) (mc_pcs (mc_step c w pro now x s) w)"
proof -
  note b = mc_inv_base [OF inv]
  note pf = mc_fact_pf [OF mc_inv_fact [OF inv, of w]]
  note id = mc_idle_facts(1)
  show ?thesis
  proof (cases "mc_pcs s w")
    case MRetry
    then show ?thesis by (cases "w = 0") (simp_all add: mc_step_def Let_def id)
  next
    case (MCalls cs)
    then show ?thesis by (simp add: mc_step_def Let_def id split: list.split mc_call.split)
  next
    case (MTemp cl cs)
    then show ?thesis by (cases cl) (simp_all add: mc_step_def Let_def id)
  next
    case (MClock es)
    then show ?thesis by (cases es) (simp_all add: mc_step_def Let_def)
  next
    case (MWrite es tid)
    then show ?thesis using q by (simp add: mc_step_def Let_def mc_loud_def)
  next
    case (MStore e es tid)
    then show ?thesis using q by (simp add: mc_loud_def)
  next
    case (MTry k p m up aft)
    then show ?thesis using mc_wf_pc [OF mc_base_wf [OF b, of w]] by simp
  next
    case (MSpin k rw i cs)
    then show ?thesis using pf by (simp add: mc_step_def Let_def mc_spin_def id)
  next
    case (MCopy k rw i cs)
    then have "mc_ok d s k i (m_return_val (mc_copied c k s (mc_txs s w)))"
      using pf by (intro mc_copied_ok [OF b mc_inv_tables [OF inv]]) simp
    then show ?thesis using MCopy by (simp add: mc_step_def Let_def)
  next
    case (MCheck k rw i cs)
    then show ?thesis by (simp add: mc_step_def Let_def mc_check_def id get_tuple_def)
  next
    case (MVal i)
    then show ?thesis using q by (simp add: mc_step_def Let_def mc_validate_def mc_loud_def id)
  next
    case (MAcq pre k p m aft)
    then show ?thesis using mc_pf_acq [OF MAcq] by (simp add: mc_step_def Let_def)
  qed (simp_all add: mc_step_def Let_def id mc_pf_lock mc_rel_def mc_validate_lock_def mc_validate_max_def get_tuple_def
      split: list.split)
qed

section \<open>The write set\<close>

lemma mc_wl_None: "mc_rest pc = None \<Longrightarrow> mc_wl s t pc"
  by (simp add: mc_wl_def)

lemma mc_wl_keep:
  "mc_wl s t pc \<Longrightarrow> m_write_set t' = m_write_set t \<Longrightarrow> m_max_wset t' = m_max_wset t \<Longrightarrow> mc_rest pc' = mc_rest pc \<Longrightarrow>
   mc_wl s t' pc'"
  by (simp add: mc_wl_def)

lemma mc_wl_resume:
  assumes "mc_wl s t (MLock k p m aft)" "m_write_set (mc_txs u w) = m_write_set t" "m_max_wset (mc_txs u w) = m_max_wset t"
  shows "mc_wl s (mc_txs (mc_resume w aft u) w) (mc_pcs (mc_resume w aft u) w)"
proof (cases aft)
  case (AftCommit e es)
  with assms show ?thesis by (simp add: mc_resume_def mc_wl_def)
qed (simp_all add: mc_resume_def mc_idle_facts)

lemma mc_wl_lock:
  assumes "mc_wl s (mc_txs s w) (MLock k p m aft)"
  shows "mc_wl s (mc_txs (mc_lock w k p m aft s) w) (mc_pcs (mc_lock w k p m aft s) w)"
  using mc_wl_resume [OF assms] assms
  by (simp add: mc_lock_def Let_def mc_idle_facts) (simp add: mc_wl_def)

lemma mc_wl_acq:
  assumes "mc_wl s (mc_txs s w) (MAcq [] k p m aft)" "mc_pcs s w = MAcq [] k p m aft"
  shows "mc_wl s (mc_txs (mc_acq w [] k p m aft s) w) (mc_pcs (mc_acq w [] k p m aft s) w)"
proof -
  have a: "mc_wl s (mc_txs s w) (MLock k p m aft)" using assms(1) by (simp add: mc_wl_def)
  then show ?thesis
    using assms mc_wl_resume [OF a] by (simp add: mc_acq_def mc_take_def Let_def split: option.split)
qed

lemma mc_wl_wset:
  assumes wl: "mc_wl s t (MWset e es)" and p: "mw_rcdptr e = mw_key e" and ws: "m_write_set t = xs @ e # es"
  shows "mc_wl s (t\<lparr>m_max_wset := max (m_max_wset t) (mc_tw s (mw_rcdptr e))\<rparr>) (MClock es)"
  unfolding mc_wl_def
proof (intro impI allI ballI)
  fix es' ds f assume h: "\<not> mc_wrapped s" "mc_rest (MClock es) = Some es'"
    "m_write_set (t\<lparr>m_max_wset := max (m_max_wset t) (mc_tw s (mw_rcdptr e))\<rparr>) = ds @ es'" "f \<in> set ds"
  have "mc_tw s (mw_key g) \<le> m_max_wset t" if "g \<in> set xs" for g
    using wl h(1) ws that by (simp add: mc_wl_def)
  moreover have "ds = xs @ [e]" using h(2,3) ws append_same_eq [of ds es "xs @ [e]"] by simp
  ultimately show "mc_tw s (mw_key f) \<le> m_max_wset (t\<lparr>m_max_wset := max (m_max_wset t) (mc_tw s (mw_rcdptr e))\<rparr>)"
    using h(4) p by (auto simp: max.coboundedI1)
qed

lemma mc_wl_own:
  assumes inv: "mc_inv c d s" and q: "\<not> mc_loud s w"
  shows "mc_wl s (mc_txs (mc_step c w pro now x s) w) (mc_pcs (mc_step c w pro now x s) w)"
proof -
  note b = mc_inv_base [OF inv]
  note wf = mc_base_wf [OF b, of w]
  note wl = mc_fact_wl [OF mc_inv_fact [OF inv, of w]]
  note id = mc_idle_facts(2)
  note keep = mc_wl_keep [OF wl]
  show ?thesis
  proof (cases "mc_pcs s w")
    case MRetry
    then show ?thesis by (cases "w = 0") (simp_all add: mc_step_def Let_def id)
  next
    case (MCalls cs)
    have "mc_wl s t (MClock (m_write_set t))" for t by (simp add: mc_wl_def)
    then show ?thesis using MCalls by (simp add: mc_step_def Let_def id split: list.split mc_call.split)
  next
    case (MTemp cl cs)
    then show ?thesis by (cases cl) (simp_all add: mc_step_def Let_def id)
  next
    case (MClock es)
    then show ?thesis by (cases es) (simp_all add: mc_step_def Let_def keep)
  next
    case (MWset e es)
    obtain xs where xs: "m_write_set (mc_txs s w) = xs @ e # es"
      using mc_wf_pc [OF wf] MWset by (auto simp: mc_split_def)
    then have "mw_rcdptr e = mw_key e" using mc_wf_wset(3) [OF wf, of e] by simp
    then show ?thesis using mc_wl_wset [OF _ _ xs] wl MWset by (simp add: mc_step_def Let_def)
  next
    case (MLock k p m aft)
    then show ?thesis using mc_wl_lock wl by (simp add: mc_step_def Let_def)
  next
    case (MAcq pre k p m aft)
    then have "pre = []" using mc_wf_pc [OF wf] by simp
    with MAcq show ?thesis using mc_wl_acq [of s w k p m aft] wl by (simp add: mc_step_def Let_def)
  next
    case (MRel es pre k p m aft)
    then show ?thesis by (cases es) (simp_all add: mc_step_def Let_def mc_rel_def keep)
  next
    case (MWrite es tid)
    then show ?thesis using q by (simp add: mc_step_def Let_def mc_loud_def id)
  next
    case (MStore e es tid)
    then show ?thesis using q by (simp add: mc_loud_def)
  next
    case (MTry k p m up aft)
    then show ?thesis using mc_wf_pc [OF wf] by simp
  next
    case (MVal i)
    then show ?thesis using q by (simp add: mc_step_def Let_def mc_validate_def mc_loud_def id keep)
  next
    case (MValMax i)
    then show ?thesis by (simp add: mc_step_def Let_def mc_validate_max_def keep)
  next
    case (MValLock i)
    then show ?thesis by (simp add: mc_step_def Let_def mc_validate_lock_def keep id)
  qed (simp_all add: mc_step_def Let_def id mc_spin_def mc_check_def mc_wl_None keep)
qed

section \<open>The validated reads\<close>

lemma mc_ck_none: "mc_checked pc = 0 \<Longrightarrow> mc_ck s t pc"
  by (simp add: mc_ck_def)

lemma mc_ck_keep:
  "mc_ck s t pc \<Longrightarrow> m_read_set t' = m_read_set t \<Longrightarrow> m_CLL t' = m_CLL t \<Longrightarrow> mc_checked pc' = mc_checked pc \<Longrightarrow> mc_ck s t' pc'"
  by (simp add: mc_ck_def)

text \<open>A read under a lock whose TID word has not changed.\<close>

lemma mc_ck_validated:
  assumes inv: "mc_inv c d s" and pc: "mc_pcs s w = MVal i" and i: "i < length (m_read_set (mc_txs s w))"
    and same: "mr_tidword (m_read_set (mc_txs s w) ! i) = mc_tw s (mr_key (m_read_set (mc_txs s w) ! i))"
  shows "mc_ck s (mc_txs s w) (MValLock i)"
  unfolding mc_ck_def
proof (intro impI allI)
  let ?t = "mc_txs s w"
  note b = mc_inv_base [OF inv]
  note f = mc_inv_fact [OF inv, of w]
  fix j assume h: "\<not> mc_wrapped s" "j < mc_checked (MValLock i)" "j < length (m_read_set ?t)"
    "mr_key (m_read_set ?t ! j) \<in> locks (m_CLL ?t)"
  show "mr_val (m_read_set ?t ! j) = mc_val s (mr_key (m_read_set ?t ! j))"
  proof (cases "j = i")
    case False
    then show ?thesis using mc_fact_ck [OF f] h pc by (simp add: mc_ck_def)
  next
    case True
    let ?k = "mr_key (m_read_set ?t ! i)"
    have "mc_access (m_CLL ?t) ?k \<noteq> None" using h(4) True by (simp add: mc_access_None)
    then obtain m where m: "mc_acc s w ?k = Some m" using pc by auto
    have "?k \<notin> mc_fluxw (mc_pcs s v)" for v
      using mc_locked_quiet(2) [OF b m, of v] pc by (cases "v = w") simp_all
    then have "?k \<notin> mc_flux s" by (simp add: mc_flux_def)
    moreover have "mc_seen s ?k (mr_tidword (m_read_set ?t ! i)) (mr_val (m_read_set ?t ! i))"
      using mc_fact_rf [OF f] pc nth_mem [OF i] h(1) by (simp add: mc_rf_def mc_ok_def)
    ultimately show ?thesis using same True by (simp add: mc_seen_def)
  qed
qed

lemma mc_ck_resume: "mc_checked (mc_pcs (mc_resume w aft u) w) = 0"
  by (simp add: mc_resume_def mc_write_end_def mc_write_listed_def split: mc_after.split)

lemma mc_ck_acq: "mc_pcs u w = MAcq pre k p m aft \<Longrightarrow> mc_checked (mc_pcs (mc_acq w pre k p m aft u) w) = 0"
  by (simp add: mc_acq_def mc_take_def Let_def mc_ck_resume split: list.split option.split)

lemma mc_ck_own:
  assumes inv: "mc_inv c d s" and q: "\<not> mc_loud s w"
  shows "mc_ck s (mc_txs (mc_step c w pro now x s) w) (mc_pcs (mc_step c w pro now x s) w)"
proof -
  note b = mc_inv_base [OF inv]
  note wf = mc_base_wf [OF b, of w]
  note ck = mc_fact_ck [OF mc_inv_fact [OF inv, of w]]
  note id = mc_idle_facts(3)
  note keep = mc_ck_keep [OF ck]
  show ?thesis
  proof (cases "mc_pcs s w")
    case MRetry
    then show ?thesis by (cases "w = 0") (simp_all add: mc_step_def Let_def id)
  next
    case (MCalls cs)
    then show ?thesis by (simp add: mc_step_def Let_def id mc_ck_none split: list.split mc_call.split)
  next
    case (MTemp cl cs)
    then show ?thesis by (cases cl) (simp_all add: mc_step_def Let_def id)
  next
    case (MClock es)
    then show ?thesis by (cases es) (simp_all add: mc_step_def Let_def mc_ck_none)
  next
    case (MWrite es tid)
    then show ?thesis using q by (simp add: mc_step_def Let_def mc_loud_def id)
  next
    case (MStore e es tid)
    then show ?thesis using q by (simp add: mc_loud_def)
  next
    case (MTry k p m up aft)
    then show ?thesis using mc_wf_pc [OF wf] by simp
  next
    case (MLock k p m aft)
    then show ?thesis by (simp add: mc_step_def Let_def mc_lock_def mc_ck_resume mc_ck_none)
  next
    case (MAcq pre k p m aft)
    then show ?thesis using mc_ck_acq [OF MAcq] by (simp add: mc_step_def Let_def mc_ck_none)
  next
    case (MVal i)
    then have i: "i < length (m_read_set (mc_txs s w))" using q by (simp add: mc_loud_def)
    then have p: "mr_rcdptr (m_read_set (mc_txs s w) ! i) = mr_key (m_read_set (mc_txs s w) ! i)"
      using mc_wf_wset(4) [OF wf] by simp
    show ?thesis using mc_ck_validated [OF inv MVal i] MVal i p
      by (simp add: mc_step_def Let_def mc_validate_def id mc_read_changed_iff)
  next
    case (MValMax i)
    then show ?thesis by (simp add: mc_step_def Let_def mc_validate_max_def keep)
  next
    case (MValLock i)
    then show ?thesis by (simp add: mc_step_def Let_def mc_validate_lock_def keep id)
  qed (simp_all add: mc_step_def Let_def id mc_spin_def mc_check_def mc_rel_def mc_ck_none split: list.split)
qed

section \<open>All facts\<close>

lemma mc_mute_pl: "mc_mute pc \<Longrightarrow> mc_pl s pc"
  by (cases pc) (auto simp: mc_mute_def mc_pl_def)

lemma mc_fact_quiet:
  assumes inv: "mc_inv c d s" and q: "\<not> mc_loud s w" and fl: "mc_flux (mc_step c w pro now x s) = mc_flux s"
  shows "mc_fact d (mc_step c w pro now x s) (mc_txs (mc_step c w pro now x s) w) (mc_pcs (mc_step c w pro now x s) w)"
  unfolding mc_fact_def mc_same_facts [OF mc_step_same [OF q] fl]
  using mc_rf_own [OF inv q] mc_pf_own [OF inv q] mc_wl_own [OF inv q] mc_mute_pl [OF mc_step_mute(1) [OF q]]
    mc_ck_own [OF inv q] by blast

end
