(* ===== verification/Mocc_Loud.thy ===== *)
theory Mocc_Loud
  imports Mocc_Own
begin

text \<open>The steps of MOCC that change data, and the whole invariant.\<close>

section \<open>Evolution and stillness\<close>

lemma mc_flux_in: "k \<in> mc_flux t \<longleftrightarrow> (\<exists>v. k \<in> mc_fluxw (mc_pcs t v))"
  by (simp add: mc_flux_def)

lemma mc_evo_same: "mc_same s t \<Longrightarrow> mc_flux t = mc_flux s \<Longrightarrow> mc_evo s t"
  by (simp add: mc_same_def mc_evo_def)

lemma mc_wrapped_commit:
  "mc_wrapped (mc_commit c w s) \<longleftrightarrow>
     mc_wrapped s \<or> unat (mt_tid (max (m_max_rset (mc_txs s w)) (m_max_wset (mc_txs s w)))) = 2 ^ 32 - 1"
  by (simp add: mc_commit_def Let_def)

lemma mc_evo_commit:
  assumes "mc_pcs s w = MVal i"
  shows "mc_evo s (mc_commit c w s)"
proof -
  have "mc_flux (mc_commit c w s) = mc_flux s" using assms by (intro mc_flux_quiet [of _ w]) simp_all
  moreover have "mc_wrapped s \<Longrightarrow> mc_wrapped (mc_commit c w s)" unfolding mc_wrapped_commit by blast
  ultimately show ?thesis by (auto simp: mc_evo_def)
qed

lemma mc_evo_payload:
  assumes "mc_base c d s" "mc_pcs s w = MWrite (e # es) tid"
  shows "mc_evo s (mc_write_val c w e (mc_goto w (MStore e es tid) s))"
proof -
  let ?t = "mc_write_val c w e (mc_goto w (MStore e es tid) s)"
  have v: "mc_val ?t k = (if k = mw_key e then mc_now d s k else mc_val s k)" for k
    by (rule mc_write_val_at [OF assms]) simp_all
  have "k \<in> mc_fluxw (mc_pcs ?t u)" if "k \<in> mc_fluxw (mc_pcs s u)" for k u
    using that assms(2) by (cases "u = w") simp_all
  then have "mc_flux s \<subseteq> mc_flux ?t" unfolding mc_flux_def by blast
  moreover have "mw_key e \<in> mc_flux ?t" by (auto simp: mc_flux_in intro: exI [of _ w])
  ultimately show ?thesis using v by (auto simp: mc_evo_def)
qed

lemma mc_tid_at:
  assumes "mc_wfs c w s" "mc_pcs s w = MStore e es tid" "mc_table u = mc_table s"
  shows "mc_tw (mc_write_tid e tid u) k = (if k = mw_key e then tid else mc_tw s k)"
  using mc_wf_write(1) [OF assms(1)] assms(2,3) by (simp add: mc_write_tid_def)

lemma mc_evo_stamp:
  assumes inv: "mc_inv c d s" and pc: "mc_pcs s w = MStore e es tid"
  shows "mc_evo s (mc_write_tid e tid (mc_goto w (MWrite es tid) s))"
proof -
  let ?t = "mc_write_tid e tid (mc_goto w (MWrite es tid) s)"
  note wf = mc_base_wf [OF mc_inv_base [OF inv], of w]
  have tw: "mc_tw ?t k = (if k = mw_key e then tid else mc_tw s k)" for k by (rule mc_tid_at [OF wf pc]) simp
  have lt: "\<not> mc_wrapped s \<Longrightarrow> mc_tw s (mw_key e) < tid"
    using mc_fact_pl [OF mc_inv_fact [OF inv, of w]] pc by (simp add: mc_pl_def)
  have "k \<in> mc_fluxw (mc_pcs ?t u)" if "k \<in> mc_fluxw (mc_pcs s u)" "k \<noteq> mw_key e" for k u
    using that pc by (cases "u = w") simp_all
  then have "mc_flux s - {mw_key e} \<subseteq> mc_flux ?t" unfolding mc_flux_def by blast
  then show ?thesis using tw lt by (auto simp: mc_evo_def less_imp_le)
qed

lemma mc_still_other:
  assumes "mc_base c d s" "v \<noteq> w" "mc_acc s w j = Some True"
    and "\<And>k. k \<noteq> j \<Longrightarrow> mc_val t k = mc_val s k \<and> mc_tw t k = mc_tw s k"
  shows "mc_still s v t"
  unfolding mc_still_def
proof (intro allI impI)
  fix k b assume "mc_acc s v k = Some b"
  then have "k \<noteq> j" using mc_excl [OF assms(1) _ assms(3), of v b] assms(2) by auto
  then show "mc_val t k = mc_val s k \<and> mc_tw t k = mc_tw s k" by (rule assms(4))
qed

lemma mc_step_evo:
  assumes inv: "mc_inv c d s" and bd: "mc_bounds c" and pro: "mc_pro_ok c pro"
  shows "mc_evo s (mc_step c w pro now x s)" "v \<noteq> w \<Longrightarrow> mc_still s v (mc_step c w pro now x s)"
proof -
  let ?t = "mc_step c w pro now x s"
  note b = mc_inv_base [OF inv]
  note wf = mc_base_wf [OF b, of w]
  have "mc_evo s ?t \<and> (v \<noteq> w \<longrightarrow> mc_still s v ?t)"
  proof (cases "mc_loud s w")
    case False
    have "mc_fluxw (mc_pcs ?t w) = mc_fluxw (mc_pcs s w)" using mc_step_mute [OF False] by (simp add: mc_mute_def)
    then have "mc_flux ?t = mc_flux s"
      by (rule mc_flux_quiet) (rule mc_step_others [OF b bd pro])
    then show ?thesis using mc_evo_same mc_step_same [OF False] by (simp add: mc_still_def mc_same_def)
  next
    case True
    then show ?thesis
    proof (cases rule: mc_loud_cases)
      case (commit i)
      then show ?thesis using mc_evo_commit [OF commit(1)] by (simp add: mc_step_loud mc_still_def)
    next
      case (payload e es tid)
      have acc: "mc_acc s w (mw_key e) = Some True" by (rule mc_pend_locked [OF wf]) (simp add: payload)
      have "mc_val ?t k = mc_val s k \<and> mc_tw ?t k = mc_tw s k" if "k \<noteq> mw_key e" for k
        using that mc_write_val_at [OF b payload, of "mc_goto w (MStore e es tid) s" k] by (simp add: mc_step_loud(2) [OF payload])
      then show ?thesis using mc_evo_payload [OF b payload] mc_still_other [OF b _ acc]
        by (simp add: mc_step_loud(2) [OF payload])
    next
      case (stamp e es tid)
      have acc: "mc_acc s w (mw_key e) = Some True" by (rule mc_pend_locked [OF wf]) (simp add: stamp)
      have "mc_val ?t k = mc_val s k \<and> mc_tw ?t k = mc_tw s k" if "k \<noteq> mw_key e" for k
        using that mc_tid_at [OF wf stamp, of "mc_goto w (MWrite es tid) s" k] by (simp add: mc_step_loud(3) [OF stamp])
      then show ?thesis using mc_evo_stamp [OF inv stamp] mc_still_other [OF b _ acc]
        by (simp add: mc_step_loud(3) [OF stamp])
    qed
  qed
  then show "mc_evo s ?t" "v \<noteq> w \<Longrightarrow> mc_still s v ?t" by simp_all
qed

section \<open>The facts of a loud worker\<close>

lemma mc_commit_tid_greater:
  assumes "unat (mt_tid (max (m_max_rset t) (m_max_wset t))) \<noteq> 2 ^ 32 - 1"
  shows "m_max_wset t < mc_commit_tid ep t"
proof -
  let ?m = "max (m_max_rset t) (m_max_wset t)"
  have "unat (m_max_wset t) \<le> unat ?m" by (simp add: word_le_nat_alt [symmetric])
  also have "\<dots> < unat (mt_inc ?m)" using mt_inc_bound [OF assms] by simp
  finally have "m_max_wset t < mt_inc ?m" by (simp add: word_less_nat_alt)
  then show ?thesis by (simp add: mc_commit_tid_def Let_def less_max_iff_disj)
qed

lemma mc_pl_commit:
  assumes "mc_inv c d s" "mc_pcs s w = MVal i"
  shows "mc_pl (mc_commit c w s) (mc_pcs (mc_commit c w s) w)"
  unfolding mc_pl_def
proof (intro impI allI ballI)
  fix es tid e assume h: "\<not> mc_wrapped (mc_commit c w s)" "mc_stale (mc_pcs (mc_commit c w s) w) = Some (es, tid)" "e \<in> set es"
  let ?t = "mc_txs s w"
  have nw: "\<not> mc_wrapped s" "unat (mt_tid (max (m_max_rset ?t) (m_max_wset ?t))) \<noteq> 2 ^ 32 - 1"
    using h(1) unfolding mc_wrapped_commit by blast+
  have "mc_tw s (mw_key e) \<le> m_max_wset ?t"
    using mc_fact_wl [OF mc_inv_fact [OF assms(1), of w]] h(2,3) nw(1) assms(2) by (simp add: mc_wl_def)
  also have "\<dots> < tid" using mc_commit_tid_greater [OF nw(2)] h(2) by auto
  finally show "mc_tw (mc_commit c w s) (mw_key e) < tid" by simp
qed

lemma mc_fact_loud:
  assumes inv: "mc_inv c d s" and bd: "mc_bounds c" and pro: "mc_pro_ok c pro" and l: "mc_loud s w"
  shows "mc_fact d (mc_step c w pro now x s) (mc_txs (mc_step c w pro now x s) w) (mc_pcs (mc_step c w pro now x s) w)"
proof -
  let ?t = "mc_step c w pro now x s"
  note wf = mc_base_wf [OF mc_inv_base [OF inv], of w]
  note f = mc_inv_fact [OF inv, of w]
  have "m_read_set (mc_txs ?t w) = m_read_set (mc_txs s w) \<and> \<not> mc_aborting (mc_pcs s w)"
    using l by (cases rule: mc_loud_cases) (simp_all add: mc_step_loud)
  then have "mc_rf d s (mc_txs ?t w) (mc_pcs ?t w)" using mc_fact_rf [OF f] by (simp add: mc_rf_def)
  then have rf: "mc_rf d ?t (mc_txs ?t w) (mc_pcs ?t w)" by (rule mc_rf_evo [OF mc_step_evo(1) [OF inv bd pro]])
  have id: "mc_idle (mc_pcs ?t w) \<or> (\<exists>e es tid. mc_pcs ?t w = MStore e es tid)"
    using l by (cases rule: mc_loud_cases) (simp_all add: mc_step_loud)
  then have rest: "mc_pf d ?t (mc_txs ?t w) (mc_pcs ?t w)" "mc_wl ?t (mc_txs ?t w) (mc_pcs ?t w)" "mc_ck ?t (mc_txs ?t w) (mc_pcs ?t w)"
    by (auto simp: mc_idle_facts mc_wl_None mc_ck_none)
  have "mc_pl ?t (mc_pcs ?t w)"
    using l
  proof (cases rule: mc_loud_cases)
    case (commit i)
    then show ?thesis using mc_pl_commit [OF inv commit(1)] by (simp add: mc_step_loud)
  next
    case (payload e es tid)
    then show ?thesis using mc_fact_pl [OF f] by (simp add: mc_step_loud mc_pl_def)
  next
    case (stamp e es tid)
    have "mw_key e \<notin> mw_key ` set es" by (rule mc_wf_write(2) [OF wf]) (simp add: stamp)
    then have "mw_key e' \<noteq> mw_key e" if "e' \<in> set es" for e' using that by (metis image_eqI)
    then show ?thesis using mc_fact_pl [OF f] stamp mc_tid_at [OF wf stamp, of "mc_goto w (MWrite es tid) s"]
      by (simp add: mc_step_loud(3) [OF stamp] mc_pl_def)
  qed
  with rf rest show ?thesis by (simp add: mc_fact_def)
qed

section \<open>The tables and the history\<close>

lemma mc_comm_now: "mc_comm d s k (mc_now d s k)"
  by (auto simp: mc_comm_def)

lemma mc_tables_step:
  assumes inv: "mc_inv c d s" and bd: "mc_bounds c" and pro: "mc_pro_ok c pro"
  shows "mc_tables d (mc_step c w pro now x s)"
proof -
  let ?t = "mc_step c w pro now x s"
  note old = mc_inv_tables [OF inv, unfolded mc_tables_def, rule_format]
  have "mc_comm d s k (mc_val ?t k)" for k
  proof (cases "mc_loud s w")
    case False
    then show ?thesis using mc_step_same [OF False, of c pro now x] old by (simp add: mc_same_def)
  next
    case True
    then show ?thesis
    proof (cases rule: mc_loud_cases)
      case (payload e es tid)
      then show ?thesis
        using old mc_comm_now mc_write_val_at [OF mc_inv_base [OF inv] payload, of "mc_goto w (MStore e es tid) s" k]
        by (simp add: mc_step_loud)
    qed (use old in \<open>simp_all add: mc_step_loud\<close>)
  qed
  then show ?thesis using mc_comm_evo [OF mc_step_evo(1) [OF inv bd pro]] by (simp add: mc_tables_def)
qed

lemma mc_hist_same:
  assumes "mc_hist d s" "mc_com t = mc_com s" "mc_wrapped s \<longrightarrow> mc_wrapped t"
  shows "mc_hist d t"
  using assms by (auto simp: mc_hist_def mc_db_def)

lemma mc_hist_commit:
  assumes inv: "mc_inv c d s" and pc: "mc_pcs s w = MVal i" and i: "length (m_read_set (mc_txs s w)) \<le> i"
  shows "mc_hist d (mc_commit c w s)"
  unfolding mc_hist_def
proof (intro allI impI ballI)
  let ?t = "mc_commit c w s" and ?x = "mc_txs s w"
  note b = mc_inv_base [OF inv]
  note f = mc_inv_fact [OF inv, of w]
  have wr: "mc_wrapped s \<Longrightarrow> mc_wrapped ?t" unfolding mc_wrapped_commit by blast
  have db: "m \<le> length (mc_com s) \<Longrightarrow> mc_db d ?t m = mc_db d s m" for m by (rule mc_db_old) simp_all
  fix j q assume j: "j < length (mc_com ?t)" and q: "q \<in> set (tx_reads (cx_rec (mc_com ?t ! j)))"
  obtain k v where kv: "q = (k, v)" by (cases q)
  have "(\<exists>m \<le> j. v = mc_db d ?t m k) \<and> (\<not> mc_wrapped ?t \<longrightarrow> k \<in> set (cx_locked (mc_com ?t ! j)) \<longrightarrow> v = mc_db d ?t j k)"
  proof (cases "j = length (mc_com s)")
    case False
    then have j': "j < length (mc_com s)" "mc_com ?t ! j = mc_com s ! j" using j by (simp_all add: nth_append)
    then have "\<exists>m \<le> j. v = mc_db d s m k"
      and "\<not> mc_wrapped s \<longrightarrow> k \<in> set (cx_locked (mc_com s ! j)) \<longrightarrow> v = mc_db d s j k"
      using mc_inv_hist [OF inv] q kv unfolding mc_hist_def by fastforce+
    then obtain m where m: "m \<le> j" "v = mc_db d s m k" by blast
    have "\<exists>m \<le> j. v = mc_db d ?t m k" using m db [of m] j' by (intro exI [of _ m]) simp
    moreover have "\<not> mc_wrapped ?t \<longrightarrow> k \<in> set (cx_locked (mc_com ?t ! j)) \<longrightarrow> v = mc_db d ?t j k"
      using \<open>\<not> mc_wrapped s \<longrightarrow> _\<close> wr db [of j] j' by auto
    ultimately show ?thesis by blast
  next
    case True
    then have new: "mc_com ?t ! j = mc_record (mc_val_size c) ?x" by simp
    then obtain r where "r \<in> set (m_read_set ?x)" and r: "k = mr_key r" "v = mr_val r"
      using q kv by (auto simp: mc_record_def)
    then obtain n where n: "n < length (m_read_set ?x)" "r = m_read_set ?x ! n" by (auto simp: in_set_conv_nth)
    have "mc_comm d s k v" using mc_fact_rf [OF f] pc r n by (simp add: mc_rf_def mc_ok_def)
    then obtain m where m: "m \<le> j" "v = mc_db d s m k" using True by (auto simp: mc_comm_def)
    have "\<exists>m \<le> j. v = mc_db d ?t m k" using m db [of m] True by (intro exI [of _ m]) simp
    moreover have "v = mc_db d ?t j k" if nw: "\<not> mc_wrapped ?t" and l: "k \<in> set (cx_locked (mc_com ?t ! j))"
    proof -
      have l': "k \<in> locks (m_CLL ?x)" using l new by (auto simp: mc_record_def)
      then have "v = mc_val s k" using mc_fact_ck [OF f] nw wr n i pc r by (auto simp: mc_ck_def)
      also have "mc_access (m_CLL ?x) k \<noteq> None" using l' by (simp add: mc_access_None)
      then obtain a where a: "mc_acc s w k = Some a" using pc by auto
      have "mc_val s k = mc_now d s k" by (rule mc_locked_val [OF b a]) (simp add: pc)
      finally show ?thesis using db [of j] True by simp
    qed
    ultimately show ?thesis by blast
  qed
  then show "case q of (k, v) \<Rightarrow> (\<exists>m \<le> j. v = mc_db d ?t m k) \<and>
      (\<not> mc_wrapped ?t \<longrightarrow> k \<in> set (cx_locked (mc_com ?t ! j)) \<longrightarrow> v = mc_db d ?t j k)" using kv by simp
qed

lemma mc_hist_step:
  assumes inv: "mc_inv c d s"
  shows "mc_hist d (mc_step c w pro now x s)"
proof (cases "mc_loud s w")
  case False
  then show ?thesis using mc_step_same [OF False] by (intro mc_hist_same [OF mc_inv_hist [OF inv]]) (simp_all add: mc_same_def)
next
  case True
  then show ?thesis
  proof (cases rule: mc_loud_cases)
    case (commit i)
    then show ?thesis using mc_hist_commit [OF inv] by (simp add: mc_step_loud)
  qed (simp_all add: mc_step_loud mc_hist_same [OF mc_inv_hist [OF inv]])
qed

section \<open>The invariant\<close>

lemma mc_inv_init:
  assumes "mc_start c d s"
  shows "mc_inv c d s"
proof -
  obtain wv now where s: "s = mc_init c d wv now" using assms by (auto simp: mc_start_def)
  have "mc_fact d s (mc_txs s w) (mc_pcs s w)" for w
    by (simp add: s mc_init_def mc_fact_def mc_rf_def mc_wl_def mc_pl_def mc_ck_def mc_new_def)
  moreover have "mc_tables d s" by (simp add: s mc_init_def mc_tables_def mc_comm_def mc_db_def)
  moreover have "mc_hist d s" by (simp add: s mc_init_def mc_hist_def)
  ultimately show ?thesis using mc_base_init [OF assms] by (simp add: mc_inv_def)
qed

lemma mc_inv_step:
  assumes inv: "mc_inv c d s" and bd: "mc_bounds c" and pro: "mc_pro_ok c pro" and w: "w < mc_workers c"
  shows "mc_inv c d (mc_step c w pro now x s)"
proof -
  let ?t = "mc_step c w pro now x s"
  note b = mc_inv_base [OF inv]
  have "mc_fact d ?t (mc_txs ?t v) (mc_pcs ?t v)" for v
  proof (cases "v = w")
    case False
    then show ?thesis
      using mc_fact_other [OF mc_base_wf [OF b] mc_inv_fact [OF inv] mc_step_evo [OF inv bd pro]] mc_step_others [OF b bd pro]
      by simp
  next
    case True
    show ?thesis
    proof (cases "mc_loud s w")
      case l: True
      then show ?thesis using mc_fact_loud [OF inv bd pro l] True by simp
    next
      case q: False
      have "mc_fluxw (mc_pcs ?t w) = mc_fluxw (mc_pcs s w)" using mc_step_mute [OF q] by (simp add: mc_mute_def)
      then have "mc_flux ?t = mc_flux s" by (rule mc_flux_quiet) (rule mc_step_others [OF b bd pro])
      then show ?thesis using mc_fact_quiet [OF inv q] True by simp
    qed
  qed
  then show ?thesis
    using mc_base_step [OF b bd pro w] mc_tables_step [OF inv bd pro] mc_hist_step [OF inv] by (simp add: mc_inv_def)
qed

lemma mc_inv_quit: "mc_inv c d s \<Longrightarrow> mc_inv c d (s\<lparr>mc_quit := True\<rparr>)"
proof -
  assume inv: "mc_inv c d s"
  let ?t = "s\<lparr>mc_quit := True\<rparr>"
  have same: "mc_same s ?t" "mc_flux ?t = mc_flux s" by (simp_all add: mc_flux_def)
  have "mc_fact d ?t = mc_fact d s" unfolding fun_eq_iff mc_fact_def mc_same_facts [OF same] by simp
  then show ?thesis using inv mc_base_quit mc_hist_same [of d s ?t]
    by (simp add: mc_inv_def mc_tables_def mc_comm_def mc_db_def)
qed

end
