(* ===== verification/Mocc_Anomaly.thy ===== *)
theory Mocc_Anomaly
  imports Mocc_System
begin

text \<open>
  A write skew of \<^verbatim>\<open>mocc\<close>. The validation of a read loads the TID word first and the lock afterwards.
  Between the two the writer of the record can store its TID word and unlock.
\<close>

definition mdemo_config :: mc_config where
  "mdemo_config = \<lparr>mc_workers = 2, mc_val_size = 1, mc_tuple_num = 3, mc_max_ope = 2, mc_tuple_size = 64,
     mc_per_xx_temp = 4096, mc_epoch_span = 84000000\<rparr>"

definition mdemo_start :: mc_sys where
  "mdemo_start = mc_init mdemo_config (\<lambda>_. [0]) (\<lambda>w. [of_nat (Suc w)]) 0"

definition mc_moves :: "nat \<Rightarrow> nat \<Rightarrow> procedure list \<Rightarrow> (nat \<times> procedure list \<times> u64) list" where
  "mc_moves n w pro = replicate n (w, pro, 0)"

definition mdemo_skew :: mc_sys where
  "mdemo_skew = mc_run mdemo_config
     (mc_moves 12 0 [Procedure READ 1, Procedure WRITE 2] @ mc_moves 24 1 [Procedure READ 2, Procedure WRITE 1] @
      mc_moves 10 0 [Procedure READ 1, Procedure WRITE 2] @ mc_moves 5 1 [Procedure READ 2, Procedure WRITE 1] @
      mc_moves 3 0 [Procedure READ 1, Procedure WRITE 2]) mdemo_start"

lemmas mc_eval = mdemo_start_def mdemo_config_def mc_moves_def mc_init_def mc_step_def mc_upd_def mc_goto_def
  mc_set_lock_def mc_epotemp_index_def mc_temp_of_def mc_leaderWork_def chkClkSpan_def mc_write_end_def
  mc_write_listed_def mc_resume_def mc_lock_def mc_release_def mc_rel_def mc_take_def mc_acq_def mc_read_call_def
  mc_write_call_def mc_read_start_def mc_write_start_def mc_spin_def mc_copied_def mc_read_end_def mc_check_def mc_validate_def
  mc_validate_lock_def mc_validate_max_def mc_record_def mc_commit_def mc_write_val_def mc_write_tid_def
  mc_unlockCLL_def mt_tid_def mt_epoch_def mt_set_epoch_def mt_inc_def ep_temp_def ep_make_def TEMP_THRESHOLD_def
  mc_new_def mc_searchReadSet_def mc_searchWriteSet_def mc_searchRLL_def mc_lelem_of_def mc_begin_def
  mc_write_tuple_def mc_push_read_def mc_push_write_def mc_has_def mc_vioctr_def mc_threshold_def mc_prelock_def
  mc_commit_tid_def mc_sort_def mc_read_changed_def le_wide_def get_tuple_def Procedure_def memcpy_def
  r_acq_def w_acq_def w_rel_def r_rel_def

lemma mdemo_skew_com:
  "map cx_rec (mc_com mdemo_skew) =
     [\<lparr>tx_reads = [(2, [0])], tx_writes = [(1, \<lambda>old. 2 # drop (Suc 0) old)]\<rparr>,
      \<lparr>tx_reads = [(1, [0])], tx_writes = [(2, \<lambda>old. 1 # drop (Suc 0) old)]\<rparr>]"
  by (simp add: mdemo_skew_def mc_eval Let_def replicate_numeral)

lemma mdemo_start_reach: "mc_reach mdemo_config (\<lambda>_. [0]) mdemo_start"
  by (rule reach_init) (auto simp: mc_start_def mdemo_start_def mdemo_config_def)

lemma mdemo_skew_reach: "mc_reach mdemo_config (\<lambda>_. [0]) mdemo_skew"
  unfolding mdemo_skew_def
  by (rule mc_run_reach [OF mdemo_start_reach])
    (auto simp: mc_moves_def mdemo_config_def mc_pro_ok_def Procedure_def)

text \<open>
  C34. MOCC, write skew: two workers that each read the record the other writes can both commit.
  No serial order of the two transactions explains what they read.
\<close>

theorem mocc_write_skew:
  "\<exists>s a b. mc_reach mdemo_config (\<lambda>_. [0]) s \<and> map cx_rec (mc_com s) = [a, b] \<and>
     tx_reads a = [(2, [0])] \<and> tx_reads b = [(1, [0])] \<and> fst ` set (tx_writes a) = {1} \<and>
     fst ` set (tx_writes b) = {2} \<and> unserializable (\<lambda>_. [0]) (map cx_rec (mc_com s))"
proof (intro exI conjI)
  show "unserializable (\<lambda>_. [0]) (map cx_rec (mc_com mdemo_skew))"
    unfolding mdemo_skew_com by (rule unserializable_two) (simp_all add: apply_tx_def apply_write_def)
qed (rule mdemo_skew_reach mdemo_skew_com | simp)+

end
