(* ===== verification/Silo_Log.thy ===== *)
theory Silo_Log
  imports Silo_Model
begin

text \<open>
  The write-ahead log of Silo (build option \<^verbatim>\<open>WAL\<close>): \<^verbatim>\<open>wal\<close> of \<^verbatim>\<open>silo/transaction.cc\<close>, the records and
  headers of \<^verbatim>\<open>silo/include/log.hh\<close>, the reader \<^verbatim>\<open>silo/replayTest.cc\<close> and the loops of
  \<^verbatim>\<open>include/fileio.hh\<close> below them. Objects are written to the file as they lie in memory: little
  endian, fields at their natural alignment. \<^verbatim>\<open>LogRecord\<close> has no padding when its size is a multiple
  of eight, as with the default \<^verbatim>\<open>VAL_SIZE\<close> 4; the theorems are stated for these sizes.
\<close>

section \<open>Bytes\<close>

primrec le_bytes :: "nat \<Rightarrow> 'a::len word \<Rightarrow> val" where
  "le_bytes 0 x = []"
| "le_bytes (Suc n) x = ucast x # le_bytes n (drop_bit 8 x)"

primrec le_word :: "val \<Rightarrow> 'a::len word" where
  "le_word [] = 0"
| "le_word (b # bs) = ucast b OR push_bit 8 (le_word bs)"

text \<open>The memory of an object as a sequence of \<^verbatim>\<open>int\<close>.\<close>

function le_ints :: "val \<Rightarrow> u32 list" where
  "le_ints bs = (if length bs < 4 then [] else le_word (take 4 bs) # le_ints (drop 4 bs))"
  by auto
termination by (relation "measure length") auto

declare le_ints.simps [simp del]

lemma length_le_bytes [simp]: "length (le_bytes n x) = n"
  by (induction n arbitrary: x) auto

lemma le_word_bytes: "le_word (le_bytes n x) = take_bit (8 * n) x"
proof (induction n arbitrary: x)
  case (Suc n)
  show ?case unfolding le_bytes.simps le_word.simps Suc.IH
    by (rule bit_eqI) (auto simp: bit_simps)
qed simp

section \<open>\<^verbatim>\<open>File::write\<close> and \<^verbatim>\<open>File::read\<close>\<close>

text \<open>
  The results of the system call come from outside: how many bytes the kernel took or gave. \<open>Inl\<close> is
  the error for 0 bytes, \<open>None\<close> means that the results are used up and the loop goes on.
\<close>

fun file_write :: "nat list \<Rightarrow> val \<Rightarrow> val \<Rightarrow> (unit + val) option" where
  "file_write rs buf f =
     (if buf = [] then Some (Inr f)
      else (case rs of
              [] \<Rightarrow> None
            | r # rs' \<Rightarrow>
                (if r = 0 then Some (Inl ()) else file_write rs' (drop r buf) (f @ take r buf))))"

fun file_read :: "nat list \<Rightarrow> nat \<Rightarrow> val \<Rightarrow> (unit + val \<times> val) option" where
  "file_read rs len f =
     (if len = 0 then Some (Inr ([], f))
      else (case rs of
              [] \<Rightarrow> None
            | r # rs' \<Rightarrow>
                (let got = min r (min len (length f)) in
                 if got = 0 then Some (Inl ())
                 else (case file_read rs' (len - got) (drop got f) of
                         Some (Inr (buf, f')) \<Rightarrow> Some (Inr (take got f @ buf, f'))
                       | e \<Rightarrow> e))))"

declare file_write.simps [simp del] file_read.simps [simp del]

lemma file_write_all: "file_write rs buf f = Some (Inr f') \<Longrightarrow> f' = f @ buf"
proof (induction rs buf f rule: file_write.induct)
  case (1 rs buf f)
  show ?case
  proof (cases "buf = []")
    case True
    with 1 show ?thesis by (simp add: file_write.simps)
  next
    case False
    then obtain r rs' where rs: "rs = r # rs'" using 1(2) by (cases rs) (auto simp: file_write.simps)
    with 1(2) False have "r \<noteq> 0" by (auto simp: file_write.simps split: if_splits)
    with 1(1) [OF False rs this] 1(2) rs False show ?thesis by (simp add: file_write.simps [of "r # rs'"])
  qed
qed

lemma file_read_all: "file_read rs len f = Some (Inr (buf, f')) \<Longrightarrow> f = buf @ f' \<and> length buf = len"
proof (induction rs len f arbitrary: buf f' rule: file_read.induct)
  case (1 rs len f)
  show ?case
  proof (cases "len = 0")
    case True
    with 1 show ?thesis by (simp add: file_read.simps)
  next
    case False
    then obtain r rs' where rs: "rs = r # rs'" using 1(2) by (cases rs) (auto simp: file_read.simps)
    define got where "got = min r (min len (length f))"
    have ne: "got \<noteq> 0"
      using 1(2) False rs by (cases "got = 0") (simp_all add: file_read.simps [of "r # rs'"] got_def [symmetric] Let_def)
    then obtain b where b: "file_read rs' (len - got) (drop got f) = Some (Inr (b, f'))" "buf = take got f @ b"
      using 1(2) False rs
      by (auto simp: file_read.simps [of "r # rs'"] got_def [symmetric] Let_def split: option.splits sum.splits prod.splits)
    have "drop got f = b @ f' \<and> length b = len - got" using 1(1) [OF False rs got_def ne b(1)] .
    moreover have "got \<le> len" "got \<le> length f" by (simp_all add: got_def)
    ultimately show ?thesis using b(2) append_take_drop_id [of got f] by simp
  qed
qed

section \<open>Records and headers\<close>

record log_rec =
  lr_tid :: u64
  lr_key :: u32
  lr_val :: val

record log_header =
  lh_chk :: u32
  lh_num :: u32

definition log_header_init :: log_header where
  "log_header_init = \<lparr>lh_chk = 0, lh_num = 0\<rparr>"

definition convertChkSum :: "log_header \<Rightarrow> log_header" where
  "convertChkSum h = h\<lparr>lh_chk := (lh_chk h XOR 0xffffffff) + 1\<rparr>"

definition log_record :: "nat \<Rightarrow> u64 \<Rightarrow> key \<Rightarrow> val \<Rightarrow> log_rec" where
  "log_record n tid k v = \<lparr>lr_tid = tid, lr_key = ucast k, lr_val = take n v\<rparr>"

definition rec_bytes :: "log_rec \<Rightarrow> val" where
  "rec_bytes r = le_bytes 8 (lr_tid r) @ le_bytes 4 (lr_key r) @ lr_val r"

definition computeChkSum :: "log_rec \<Rightarrow> u32" where
  "computeChkSum r = fold (\<lambda>x chk. chk + x) (le_ints (rec_bytes r)) 0"

text \<open>\<^verbatim>\<open>len_val_\<close> follows the two fields.\<close>

definition header_bytes :: "nat \<Rightarrow> log_header \<Rightarrow> val" where
  "header_bytes n h = le_bytes 4 (lh_chk h) @ le_bytes 4 (lh_num h) @ le_bytes 8 (of_nat n :: u64)"

definition rec_size :: "nat \<Rightarrow> nat" where
  "rec_size n = 12 + n"

definition log_layout :: "nat \<Rightarrow> bool" where
  "log_layout n \<longleftrightarrow> rec_size n mod 8 = 0"

section \<open>\<^verbatim>\<open>wal\<close>\<close>

record log_state =
  log_set :: "log_rec list"
  log_header :: log_header
  log_file :: val

definition log_start :: log_state where
  "log_start = \<lparr>log_set = [], log_header = log_header_init, log_file = []\<rparr>"

definition LOGSET_SIZE :: nat where "LOGSET_SIZE = 1000"

definition wal_push :: "log_rec \<Rightarrow> log_state \<Rightarrow> log_state" where
  "wal_push r l =
     (let h = log_header l in
      l\<lparr>log_set := log_set l @ [r], log_header := \<lparr>lh_chk = lh_chk h + computeChkSum r, lh_num = lh_num h + 1\<rparr>\<rparr>)"

definition wal_flush :: "nat \<Rightarrow> log_state \<Rightarrow> log_state" where
  "wal_flush n l =
     (let h = convertChkSum (log_header l) in
      l\<lparr>log_file := log_file l @ header_bytes n h @ concat (map rec_bytes (take (unat (lh_num h)) (log_set l))),
        log_header := log_header_init, log_set := []\<rparr>)"

definition wal :: "nat \<Rightarrow> u64 \<Rightarrow> sl_tx \<Rightarrow> log_state \<Rightarrow> log_state" where
  "wal n ctid t l =
     (let l' = fold (\<lambda>e. wal_push (log_record n ctid (we_key e) (write_val t))) (write_set t) l in
      if LOGSET_SIZE div 2 < length (log_set l') then wal_flush n l' else l')"

section \<open>\<^verbatim>\<open>replayTest\<close>\<close>

definition load_header :: "val \<Rightarrow> log_header" where
  "load_header bs = \<lparr>lh_chk = le_word (take 4 bs), lh_num = le_word (take 4 (drop 4 bs))\<rparr>"

definition load_rec :: "val \<Rightarrow> log_rec" where
  "load_rec bs = \<lparr>lr_tid = le_word (take 8 bs), lr_key = le_word (take 4 (drop 8 bs)), lr_val = drop 12 bs\<rparr>"

primrec replay_recs :: "nat \<Rightarrow> nat \<Rightarrow> u32 \<Rightarrow> val \<Rightarrow> (log_rec list \<times> u32) option" where
  "replay_recs n 0 chk f = Some ([], chk)"
| "replay_recs n (Suc i) chk f =
     (if length f < rec_size n then None
      else (let r = load_rec (take (rec_size n) f) in
            case replay_recs n i (chk + computeChkSum r) (drop (rec_size n) f) of
              Some (rs, chk') \<Rightarrow> Some (r # rs, chk')
            | None \<Rightarrow> None))"

definition replayTest :: "nat \<Rightarrow> val \<Rightarrow> (log_header \<times> log_rec list \<times> u32) option" where
  "replayTest n f =
     (if length f < 16 then None
      else (let h = load_header (take 16 f) in
            case replay_recs n (unat (lh_num h)) 0 (drop 16 f) of
              Some (rs, chk) \<Rightarrow> Some (h, rs, chk)
            | None \<Rightarrow> None))"

section \<open>Reading what was written\<close>

definition chk_sum :: "log_rec list \<Rightarrow> u32" where
  "chk_sum rs = sum_list (map computeChkSum rs)"

text \<open>What one flush writes.\<close>

definition log_package :: "nat \<Rightarrow> log_rec list \<Rightarrow> val" where
  "log_package n rs = header_bytes n \<lparr>lh_chk = - chk_sum rs, lh_num = of_nat (length rs)\<rparr> @ concat (map rec_bytes rs)"

lemma convertChkSum_neg: "convertChkSum h = h\<lparr>lh_chk := - lh_chk h\<rparr>"
proof -
  have "x XOR 0xffffffff = NOT x" for x :: u32
  proof -
    have "(0xffffffff :: u32) = - 1" by simp
    then show ?thesis by (metis bit.xor_one_right)
  qed
  then show ?thesis by (simp add: convertChkSum_def minus_eq_not_plus_1)
qed

lemma unat_len: "m < 2 ^ 32 \<Longrightarrow> unat (of_nat m :: u32) = m"
  by (simp add: unsigned_of_nat take_bit_nat_eq_self)

lemma take_bit_full: "take_bit 32 (x :: u32) = x" "take_bit 64 (y :: u64) = y"
  by (simp_all add: take_bit_word_eq_self)

lemma length_rec_bytes: "length (lr_val r) = n \<Longrightarrow> length (rec_bytes r) = rec_size n"
  by (simp add: rec_bytes_def rec_size_def)

lemma load_rec_bytes: "load_rec (rec_bytes r) = r"
  using le_word_bytes [of 8 "lr_tid r"] le_word_bytes [of 4 "lr_key r"]
  by (simp add: load_rec_def rec_bytes_def take_bit_full)

lemma load_header_bytes: "load_header (header_bytes n h) = h"
  using le_word_bytes [of 4 "lh_chk h"] le_word_bytes [of 4 "lh_num h"]
  by (simp add: load_header_def header_bytes_def take_bit_full)

lemma length_header_bytes [simp]: "length (header_bytes n h) = 16"
  by (simp add: header_bytes_def)

lemma replay_recs_bytes:
  assumes "\<forall>r \<in> set rs. length (lr_val r) = n"
  shows "replay_recs n (length rs) chk (concat (map rec_bytes rs) @ f) = Some (rs, chk + chk_sum rs)"
  using assms
proof (induction rs arbitrary: chk)
  case (Cons r rs)
  then have len: "length (rec_bytes r) = rec_size n" by (simp add: length_rec_bytes)
  have "replay_recs n (length rs) (chk + computeChkSum r) (concat (map rec_bytes rs) @ f) =
      Some (rs, chk + computeChkSum r + chk_sum rs)" using Cons by simp
  with len show ?case by (simp add: Let_def load_rec_bytes chk_sum_def add.assoc)
qed (simp add: chk_sum_def)

lemma replay_package:
  assumes "\<forall>r \<in> set rs. length (lr_val r) = n" "length rs < 2 ^ 32"
  shows "replayTest n (log_package n rs @ f) =
    Some (\<lparr>lh_chk = - chk_sum rs, lh_num = of_nat (length rs)\<rparr>, rs, chk_sum rs)"
proof -
  have "unat (of_nat (length rs) :: u32) = length rs"
    using assms(2) by (simp add: unsigned_of_nat take_bit_nat_eq_self)
  then show ?thesis
    using replay_recs_bytes [OF assms(1), of 0 f]
    by (simp add: replayTest_def log_package_def Let_def load_header_bytes)
qed

section \<open>The log of a run\<close>

definition tx_recs :: "nat \<Rightarrow> u64 \<times> sl_tx \<Rightarrow> log_rec list" where
  "tx_recs n = (\<lambda>(ctid, t). map (\<lambda>e. log_record n ctid (we_key e) (write_val t)) (write_set t))"

definition wal_ok :: "nat \<Rightarrow> log_rec list \<Rightarrow> log_state \<Rightarrow> bool" where
  "wal_ok n rs l \<longleftrightarrow> log_header l = \<lparr>lh_chk = chk_sum (log_set l), lh_num = of_nat (length (log_set l))\<rparr> \<and>
     length (log_set l) \<le> LOGSET_SIZE div 2 \<and>
     (\<exists>ps. log_file l = concat (map (log_package n) ps) \<and> concat ps @ log_set l = rs \<and> (\<forall>p \<in> set ps. 500 < length p \<and> length p < 2 ^ 32))"

lemma wal_pushes:
  assumes "log_header l = \<lparr>lh_chk = chk_sum (log_set l), lh_num = of_nat (length (log_set l))\<rparr>"
  shows "fold wal_push rs l = l\<lparr>log_set := log_set l @ rs,
    log_header := \<lparr>lh_chk = chk_sum (log_set l @ rs), lh_num = of_nat (length (log_set l @ rs))\<rparr>\<rparr>"
  using assms
  by (induction rs arbitrary: l) (simp_all add: wal_push_def Let_def chk_sum_def ac_simps)

lemma fold_write_set: "fold (\<lambda>e. wal_push (log_record n ctid (we_key e) v)) es = fold wal_push (map (\<lambda>e. log_record n ctid (we_key e) v) es)"
  by (induction es) auto

lemma wal_step:
  assumes ok: "wal_ok n rs l" and small: "length (write_set t) < 2 ^ 31"
  shows "wal_ok n (rs @ tx_recs n (ctid, t)) (wal n ctid t l)"
proof -
  define new where "new = tx_recs n (ctid, t)"
  have h: "log_header l = \<lparr>lh_chk = chk_sum (log_set l), lh_num = of_nat (length (log_set l))\<rparr>"
    and len: "length (log_set l) \<le> 500" using ok by (simp_all add: wal_ok_def LOGSET_SIZE_def)
  obtain ps where ps: "log_file l = concat (map (log_package n) ps)" "concat ps @ log_set l = rs"
    "\<forall>p \<in> set ps. 500 < length p \<and> length p < 2 ^ 32" using ok by (auto simp: wal_ok_def)
  let ?l = "l\<lparr>log_set := log_set l @ new, log_header := \<lparr>lh_chk = chk_sum (log_set l @ new), lh_num = of_nat (length (log_set l @ new))\<rparr>\<rparr>"
  have w: "wal n ctid t l = (if LOGSET_SIZE div 2 < length (log_set ?l) then wal_flush n ?l else ?l)"
    using wal_pushes [OF h, of new] by (simp add: wal_def Let_def fold_write_set new_def tx_recs_def)
  show ?thesis
  proof (cases "LOGSET_SIZE div 2 < length (log_set ?l)")
    case False
    then show ?thesis using w ps by (auto simp: wal_ok_def new_def [symmetric])
  next
    case True
    have lt: "length (log_set l @ new) < 2 ^ 32" using len small by (simp add: new_def tx_recs_def)
    then have u: "unat (of_nat (length (log_set l @ new)) :: u32) = length (log_set l @ new)"
      by (rule unat_len)
    have fl: "wal_flush n ?l = l\<lparr>log_file := log_file l @ log_package n (log_set l @ new), log_header := log_header_init, log_set := []\<rparr>"
      unfolding wal_flush_def Let_def convertChkSum_neg log_package_def using u by simp
    have W: "wal n ctid t l =
        l\<lparr>log_file := log_file l @ log_package n (log_set l @ new), log_header := log_header_init, log_set := []\<rparr>"
      using w True fl by simp
    have "log_file l @ log_package n (log_set l @ new) = concat (map (log_package n) (ps @ [log_set l @ new])) \<and>
        concat (ps @ [log_set l @ new]) = rs @ new \<and> (\<forall>p \<in> set (ps @ [log_set l @ new]). 500 < length p \<and> length p < 2 ^ 32)"
      using ps lt True by (auto simp: LOGSET_SIZE_def)
    then have "\<exists>qs. log_file l @ log_package n (log_set l @ new) = concat (map (log_package n) qs) \<and>
        concat qs = rs @ new \<and> (\<forall>p \<in> set qs. 500 < length p \<and> length p < 2 ^ 32)" ..
    then show ?thesis by (simp add: W wal_ok_def log_header_init_def chk_sum_def new_def [symmetric])
  qed
qed

lemma wal_run:
  assumes "\<forall>(ctid, t) \<in> set txs. length (write_set t) < 2 ^ 31"
  shows "wal_ok n (concat (map (tx_recs n) txs)) (fold (\<lambda>(ctid, t). wal n ctid t) txs log_start)"
  using assms
proof (induction txs rule: rev_induct)
  case Nil
  show ?case by (simp add: wal_ok_def log_start_def log_header_init_def chk_sum_def exI [of _ "[]"])
next
  case (snoc a txs)
  obtain ctid t where a: "a = (ctid, t)" by (cases a)
  with snoc wal_step [of n _ _ t ctid] show ?case by simp
qed

section \<open>Properties\<close>

text \<open>
  C35. Silo, write-ahead log: what \<^verbatim>\<open>replayTest\<close> reads from the start of a flushed package is what was logged:
  the header, the records with their order, and the two checksums cancel.
\<close>

theorem silo_log_roundtrip:
  assumes "log_layout n" "\<forall>(ctid, t) \<in> set txs. length (write_set t) < 2 ^ 31 \<and> length (write_val t) = n"
    and "log_file (fold (\<lambda>(ctid, t). wal n ctid t) txs log_start) \<noteq> []"
  shows "\<exists>h rs chk more. replayTest n (log_file (fold (\<lambda>(ctid, t). wal n ctid t) txs log_start)) = Some (h, rs, chk) \<and>
    unat (lh_num h) = length rs \<and> lh_chk h + chk = 0 \<and> 500 < length rs \<and> concat (map (tx_recs n) txs) = rs @ more"
proof -
  let ?l = "fold (\<lambda>(ctid, t). wal n ctid t) txs log_start"
  have "wal_ok n (concat (map (tx_recs n) txs)) ?l" using assms(2) by (intro wal_run) auto
  then obtain ps where ps: "log_file ?l = concat (map (log_package n) ps)" "concat ps @ log_set ?l = concat (map (tx_recs n) txs)"
    "\<forall>p \<in> set ps. 500 < length p \<and> length p < 2 ^ 32" by (auto simp: wal_ok_def)
  then obtain p qs where q: "ps = p # qs" using assms(3) by (cases ps) auto
  have "\<forall>r \<in> set (concat (map (tx_recs n) txs)). length (lr_val r) = n"
    using assms(2) by (auto simp: tx_recs_def log_record_def)
  then have "\<forall>r \<in> set p. length (lr_val r) = n" unfolding ps(2) [symmetric] q by auto
  then have "replayTest n (log_file ?l) = Some (\<lparr>lh_chk = - chk_sum p, lh_num = of_nat (length p)\<rparr>, p, chk_sum p)"
    using replay_package ps(1,3) q by simp
  moreover have "unat (of_nat (length p) :: u32) = length p"
    using ps(3) q by (simp add: unsigned_of_nat take_bit_nat_eq_self)
  moreover have "concat (map (tx_recs n) txs) = p @ (concat qs @ log_set ?l)" using ps(2) q by simp
  ultimately show ?thesis using ps(3) q by (intro exI conjI) (assumption | simp)+
qed


section \<open>Witnesses\<close>

definition demo_log_tx :: sl_tx where
  "demo_log_tx = (sl_new 0 [1, 2, 3, 4])\<lparr>write_set := replicate 501 \<lparr>we_key = 7, we_rcdptr = 7, we_buf = []\<rparr>\<rparr>"

lemma demo_log_file: "log_file (fold (\<lambda>(ctid, t). wal 4 ctid t) [(5, demo_log_tx)] log_start) \<noteq> []"
proof -
  have "header_bytes 4 h \<noteq> []" for h by (metis length_header_bytes list.size(3) zero_neq_numeral)
  then have "log_file (wal_flush 4 l) \<noteq> []" for l by (simp add: wal_flush_def Let_def)
  moreover have "log_set (fold (\<lambda>e. wal_push (g e)) es l) = log_set l @ map g es" for g :: "sl_welem \<Rightarrow> log_rec" and es l
    by (induction es arbitrary: l) (simp_all add: wal_push_def Let_def)
  then have "length (log_set (fold (\<lambda>e. wal_push (g e)) (write_set demo_log_tx) log_start)) = 501" for g
    by (simp only: length_append length_map) (simp add: demo_log_tx_def log_start_def)
  ultimately show ?thesis by (simp add: wal_def Let_def LOGSET_SIZE_def)
qed

theorem silo_log_roundtrip_witness:
  "\<exists>h rs chk more. replayTest 4 (log_file (fold (\<lambda>(ctid, t). wal 4 ctid t) [(5, demo_log_tx)] log_start)) = Some (h, rs, chk) \<and>
    unat (lh_num h) = length rs \<and> lh_chk h + chk = 0 \<and> 500 < length rs \<and>
    concat (map (tx_recs 4) [(5, demo_log_tx)]) = rs @ more"
  by (rule silo_log_roundtrip [OF _ _ demo_log_file]) (simp_all add: log_layout_def rec_size_def demo_log_tx_def sl_new_def)


end
