(* ===== verification/Ermia_Model.thy ===== *)
theory Ermia_Model
  imports Procedures Ss2pl_Model
begin

text \<open>
  The data of \<^verbatim>\<open>ermia/\<close>, the serial safety net over chains of versions: versions, the elements of the
  transaction table, the local sets, the executor, and the control points of a worker. A pointer is an
  address in the heap of versions or of elements. The two halves of \<^verbatim>\<open>psstamp_\<close> are changed by
  loops of compare-and-swap on the 64-bit word that end only when the swap succeeds, so each such call is one
  step here; the same holds for \<^verbatim>\<open>upReadersBits\<close> and \<^verbatim>\<open>downReadersBits\<close>.
\<close>

section \<open>Records\<close>

datatype er_vstatus = VsInFlight | VsCommitted | VsAborted

record er_version =
  ev_pstamp :: u32
  ev_sstamp :: u32
  ev_prev :: "nat option"
  ev_readers :: u64
  ev_cstamp :: u32
  ev_status :: er_vstatus
  ev_val :: val

record er_tuple =
  et_latest :: nat
  et_min_cstamp :: u32
  et_gc_lock :: u8

datatype er_status = ErInFlight | ErCommitting | ErCommitted | ErAborted

record er_tmt =
  tm_txid :: u32
  tm_cstamp :: u32
  tm_sstamp :: u32
  tm_lastcstamp :: u32
  tm_status :: er_status

record er_elem =
  ee_key :: key
  ee_rcdptr :: key
  ee_ver :: nat

record er_gce =
  eg_key :: key
  eg_rcdptr :: key
  eg_ver :: nat
  eg_cstamp :: u32

record er_tx =
  ex_cstamp :: u32
  ex_pstamp :: u32
  ex_sstamp :: u32
  ex_txid :: u32
  ex_rset :: "er_elem list"
  ex_wset :: "er_elem list"
  ex_pro :: "procedure list"
  ex_status :: er_status
  ex_write_val :: val
  ex_return_val :: val
  ex_gcq_for_TMT :: "nat list"
  ex_reuse_TMT :: "nat list"
  ex_gcq_for_version :: "er_gce list"
  ex_reuse_version :: "nat list"

record er_gcob =
  egc_fmin :: u32
  egc_fmax :: u32

section \<open>Stamps\<close>

text \<open>\<^verbatim>\<open>UINT32_MAX & ~(TIDFLAG)\<close>: not overwritten. A stamp with the last bit set holds the worker of an overwriter.\<close>

definition TIDFLAG :: u32 where "TIDFLAG = 1"

definition er_infinity :: u32 where "er_infinity = - 1 AND NOT TIDFLAG"

definition er_is_tid :: "u32 \<Rightarrow> bool" where "er_is_tid x \<longleftrightarrow> x AND TIDFLAG \<noteq> 0"

definition er_stamp :: "u32 \<Rightarrow> u32" where "er_stamp x = drop_bit 1 x"

text \<open>\<^verbatim>\<open>uint8_t worker = (v_sstamp >> TIDFLAG)\<close>\<close>

definition er_worker :: "u32 \<Rightarrow> nat" where "er_worker x = unat (ucast (er_stamp x) :: u8)"

text \<open>The mark of a writer, and the stamp it leaves at its commit; both are truncated to 32 bits.\<close>

definition er_mark :: "nat \<Rightarrow> u32" where
  "er_mark w = ucast (push_bit 1 (of_nat w :: u64) OR 1)"

definition er_final :: "u32 \<Rightarrow> u32" where
  "er_final sstamp = push_bit 1 sstamp AND NOT TIDFLAG"

text \<open>\<^verbatim>\<open>1 << thid_\<close> is an \<^verbatim>\<open>int\<close>, extended to 64 bits.\<close>

definition er_bit :: "nat \<Rightarrow> u64" where
  "er_bit w = scast (push_bit w (1 :: u32))"

definition er_up :: "nat \<Rightarrow> er_version \<Rightarrow> er_version" where
  "er_up w v = v\<lparr>ev_readers := ev_readers v OR er_bit w\<rparr>"

definition er_down :: "nat \<Rightarrow> er_version \<Rightarrow> er_version" where
  "er_down w v = v\<lparr>ev_readers := ev_readers v AND NOT (er_bit w)\<rparr>"

text \<open>The test of bit \<^verbatim>\<open>worker\<close> in the loop of the commit.\<close>

definition er_reads :: "u64 \<Rightarrow> nat \<Rightarrow> bool" where
  "er_reads rdrs i \<longleftrightarrow> rdrs AND push_bit i 1 \<noteq> 0"

section \<open>Local sets\<close>

text \<open>The parameter of the two searches is an \<^verbatim>\<open>unsigned int\<close>.\<close>

definition er_narrow :: "key \<Rightarrow> key" where "er_narrow k = ucast (ucast k :: u32)"

definition er_searchReadSet :: "key \<Rightarrow> er_tx \<Rightarrow> er_elem option" where
  "er_searchReadSet k t = search_set ee_key (er_narrow k) (ex_rset t)"

definition er_searchWriteSet :: "key \<Rightarrow> er_tx \<Rightarrow> er_elem option" where
  "er_searchWriteSet k t = search_set ee_key (er_narrow k) (ex_wset t)"

definition er_excluded :: "er_tx \<Rightarrow> bool" where
  "er_excluded t \<longleftrightarrow> ex_sstamp t \<le> ex_pstamp t"

definition er_min_sstamp :: "u32 \<Rightarrow> er_tx \<Rightarrow> er_tx" where
  "er_min_sstamp x t = t\<lparr>ex_sstamp := min (ex_sstamp t) x\<rparr>"

definition er_max_pstamp :: "u32 \<Rightarrow> er_tx \<Rightarrow> er_tx" where
  "er_max_pstamp x t = t\<lparr>ex_pstamp := max (ex_pstamp t) x\<rparr>"

section \<open>Control points\<close>

text \<open>The calls of a transaction; \<open>ErCheck\<close> is the test of \<^verbatim>\<open>status_\<close> after each procedure.\<close>

datatype er_call = ErRead key | ErWrite key | ErCheck

text \<open>Where the commit waits for another worker: for the stamp of an overwriter, or of a reader.\<close>

datatype er_wait =
    ForPi "er_elem list"
  | ForEta "er_elem list" nat u64 nat

text \<open>Inside a read, a write, a wait, the walk to the readers of an element, its publication and its withdrawal.\<close>

datatype er_rpc = RStatus | RCstamp | RSstamp | RPi | RBit | RVerify | RCopy

datatype er_wpc = WStatus nat | WCstamp nat | WReload | WWalk nat nat | WCheck nat nat | WCas nat | WMark nat | WEta nat

datatype er_vpc = VPtr nat | VStatus nat | VCstamp nat | VLess nat | VEnd nat | VDone nat | VStamp nat

datatype er_epc = NWalk nat | NReaders nat | NLoop nat u64 nat | NPstamp nat

datatype er_ppc = PWalk nat | PSstamp nat | PCstamp | PPstamp | PInfinity | PVal | PStatus

datatype er_apc = AWalk nat | ASstamp nat | AStatus

datatype er_pc =
    EMake
  | ERetry
  | ELeadPtr nat u32 u32
  | ELeadVal nat nat u32 u32
  | EQuit
  | EBegin
  | EScanPtr nat nat
  | EScanVal nat nat nat
  | ECalls "er_call list"
  | ERead er_rpc key nat "er_call list"
  | EWriteDown key er_elem "er_call list"
  | EWriteNew key key "er_call list"
  | EWrite er_wpc key key nat "er_call list"
  | EWriteVerify "er_call list"
  | ELsn
  | EStoreCstamp
  | EPi "er_elem list"
  | EEta "er_elem list"
  | EEtaAt er_epc "er_elem list"
  | EWait er_vpc er_wait
  | ECheck
  | EStoreSstamp
  | EStoreCommitted
  | EUpdateEta "er_elem list"
  | EUpdateBit er_elem "er_elem list"
  | EPub "er_elem list"
  | EPubAt er_ppc er_elem "er_elem list"
  | EAbort "er_elem list"
  | EAbortAt er_apc er_elem "er_elem list"
  | EAbortReads "er_elem list"
  | EStop
  | EError

end
