(* ===== verification/Ermia_System.thy ===== *)
theory Ermia_System
  imports Ermia_Model Serial_Spec
begin

text \<open>
  \<^verbatim>\<open>TxExecutor\<close> of \<^verbatim>\<open>ermia/transaction.cc\<close> with \<^verbatim>\<open>ssn_parallel_commit\<close>, the worker of \<^verbatim>\<open>ermia/ermia.cc\<close>
  and the leader, cut at every access that another worker can observe. The interval of the
  collector (\<^verbatim>\<open>gc_inter_us\<close>) does not elapse, so \<^verbatim>\<open>mainte\<close> does nothing. Ghost state: the record each version was published for and the worker that allocated
  it, what the running transactions read, and the committed transactions in the order in which they
  passed the exclusion test.
\<close>

record er_sys =
  er_table :: "key \<Rightarrow> er_tuple"
  er_vers :: "nat \<Rightarrow> er_version"
  er_next :: nat
  er_Lsn :: u64
  er_TMT :: "nat \<Rightarrow> nat"
  er_tmts :: "nat \<Rightarrow> er_tmt"
  er_tmt_next :: nat
  er_gcob :: er_gcob
  er_GC_threshold :: u32
  er_quit :: bool
  er_txs :: "nat \<Rightarrow> er_tx"
  er_pcs :: "nat \<Rightarrow> er_pc"
  er_pub :: "nat \<Rightarrow> key option"
  er_owner :: "nat \<Rightarrow> nat"
  er_vals :: "nat \<Rightarrow> (key \<times> val) list"
  er_com :: "txrec list"

record er_config =
  er_workers :: nat
  er_val_size :: nat

definition er_upd :: "nat \<Rightarrow> er_tx \<Rightarrow> er_pc \<Rightarrow> er_sys \<Rightarrow> er_sys" where
  "er_upd w t pc s = s\<lparr>er_txs := (er_txs s)(w := t), er_pcs := (er_pcs s)(w := pc)\<rparr>"

definition er_goto :: "nat \<Rightarrow> er_pc \<Rightarrow> er_sys \<Rightarrow> er_sys" where
  "er_goto w pc s = s\<lparr>er_pcs := (er_pcs s)(w := pc)\<rparr>"

definition er_set_ver :: "nat \<Rightarrow> er_version \<Rightarrow> er_sys \<Rightarrow> er_sys" where
  "er_set_ver a v s = s\<lparr>er_vers := (er_vers s)(a := v)\<rparr>"

definition er_set_tmt :: "nat \<Rightarrow> er_tmt \<Rightarrow> er_sys \<Rightarrow> er_sys" where
  "er_set_tmt a m s = s\<lparr>er_tmts := (er_tmts s)(a := m)\<rparr>"

text \<open>The status of the own element of the transaction table.\<close>

definition er_tell :: "nat \<Rightarrow> er_status \<Rightarrow> er_sys \<Rightarrow> er_sys" where
  "er_tell w st s = er_set_tmt (er_TMT s w) ((er_tmts s (er_TMT s w))\<lparr>tm_status := st\<rparr>) s"

text \<open>A null pointer ends the program.\<close>

definition er_follow :: "nat \<Rightarrow> nat option \<Rightarrow> (nat \<Rightarrow> er_pc) \<Rightarrow> er_sys \<Rightarrow> er_sys" where
  "er_follow w p pc s = (case p of None \<Rightarrow> er_goto w EError s | Some a \<Rightarrow> er_goto w (pc a) s)"

section \<open>The leader\<close>

definition er_decideFirstRange :: "u32 list \<Rightarrow> er_gcob" where
  "er_decideFirstRange txids = \<lparr>egc_fmin = fold min txids 0, egc_fmax = fold max txids 0\<rparr>"

definition er_leader_end :: "nat \<Rightarrow> u32 \<Rightarrow> u32 \<Rightarrow> er_sys \<Rightarrow> er_sys" where
  "er_leader_end w smin smax s =
     (let g = er_gcob s in
      if egc_fmax g < smin then
        (er_goto w EQuit s)\<lparr>er_GC_threshold := egc_fmin g, er_gcob := \<lparr>egc_fmin = smin, egc_fmax = smax\<rparr>\<rparr>
      else er_goto w EQuit s)"

definition er_leader_ptr :: "er_config \<Rightarrow> nat \<Rightarrow> nat \<Rightarrow> u32 \<Rightarrow> u32 \<Rightarrow> er_sys \<Rightarrow> er_sys" where
  "er_leader_ptr c w i smin smax s =
     (if i < er_workers c then er_goto w (ELeadVal i (er_TMT s i) smin smax) s
      else er_leader_end w smin smax s)"

definition er_leader_val :: "nat \<Rightarrow> nat \<Rightarrow> nat \<Rightarrow> u32 \<Rightarrow> u32 \<Rightarrow> er_sys \<Rightarrow> er_sys" where
  "er_leader_val w i tmt smin smax s =
     (let txid = tm_txid (er_tmts s tmt) in
      er_goto w (ELeadPtr (Suc i) (min smin txid) (max smax txid)) s)"

section \<open>Begin\<close>

definition er_tbegin :: "nat \<Rightarrow> er_sys \<Rightarrow> er_sys" where
  "er_tbegin w s =
     (let t = er_txs s w; tmt = er_tmts s (er_TMT s w);
          lastcstamp = (if ex_status t = ErAborted then tm_lastcstamp tmt else ex_cstamp t);
          fresh = (ex_reuse_TMT t = []);
          a = (if fresh then er_tmt_next s else last (ex_reuse_TMT t));
          t' = t\<lparr>ex_txid := lastcstamp, ex_reuse_TMT := butlast (ex_reuse_TMT t)\<rparr>
      in (er_set_tmt a \<lparr>tm_txid = 0, tm_cstamp = 0, tm_sstamp = - 1, tm_lastcstamp = lastcstamp, tm_status = ErInFlight\<rparr>
            (er_upd w t' (EScanPtr 0 a) s))
           \<lparr>er_tmt_next := (if fresh then Suc (er_tmt_next s) else er_tmt_next s)\<rparr>)"

text \<open>The end of \<^verbatim>\<open>tbegin\<close>: the store to \<^verbatim>\<open>TMT\<close> publishes the element.\<close>

definition er_register :: "nat \<Rightarrow> nat \<Rightarrow> er_pc \<Rightarrow> er_sys \<Rightarrow> er_sys" where
  "er_register w a pc s =
     (let t = er_txs s w; txid = ex_txid t + 1;
          t' = t\<lparr>ex_txid := txid, ex_gcq_for_TMT := ex_gcq_for_TMT t @ [er_TMT s w],
                 ex_pstamp := 0, ex_sstamp := - 1, ex_status := ErInFlight\<rparr>
      in (er_set_tmt a ((er_tmts s a)\<lparr>tm_txid := txid\<rparr>) (er_upd w t' pc s))\<lparr>er_TMT := (er_TMT s)(w := a)\<rparr>)"

fun er_calls :: "procedure \<Rightarrow> er_call list" where
  "er_calls p =
     (case p_ope p of
        READ \<Rightarrow> [ErRead (p_key p), ErCheck]
      | WRITE \<Rightarrow> [ErWrite (p_key p), ErCheck]
      | READ_MODIFY_WRITE \<Rightarrow> [ErRead (p_key p), ErWrite (p_key p), ErCheck])"

definition er_scan_ptr :: "er_config \<Rightarrow> nat \<Rightarrow> nat \<Rightarrow> nat \<Rightarrow> er_sys \<Rightarrow> er_sys" where
  "er_scan_ptr c w i a s =
     (if i < er_workers c then er_goto w (EScanVal i (er_TMT s i) a) s
      else (er_register w a (ECalls (concat (map er_calls (ex_pro (er_txs s w))))) s)\<lparr>er_vals := (er_vals s)(w := [])\<rparr>)"

definition er_scan_val :: "nat \<Rightarrow> nat \<Rightarrow> nat \<Rightarrow> nat \<Rightarrow> er_sys \<Rightarrow> er_sys" where
  "er_scan_val w i tmt a s =
     (let t = er_txs s w in
      er_upd w (t\<lparr>ex_txid := max (ex_txid t) (tm_lastcstamp (er_tmts s tmt))\<rparr>) (EScanPtr (Suc i) a) s)"

section \<open>Read\<close>

definition er_ssn_tread :: "nat \<Rightarrow> key \<Rightarrow> er_call list \<Rightarrow> er_sys \<Rightarrow> er_sys" where
  "er_ssn_tread w k rest s =
     (let t = er_txs s w in
      if er_searchWriteSet k t \<noteq> None \<or> er_searchReadSet k t \<noteq> None then er_goto w (ECalls rest) s
      else er_goto w (ERead RStatus k (et_latest (er_table s (get_tuple k))) rest) s)"

definition er_read_status :: "nat \<Rightarrow> key \<Rightarrow> nat \<Rightarrow> er_call list \<Rightarrow> er_sys \<Rightarrow> er_sys" where
  "er_read_status w k a rest s =
     (let v = er_vers s a in
      if ev_status v \<noteq> VsCommitted then er_follow w (ev_prev v) (\<lambda>b. ERead RStatus k b rest) s
      else er_goto w (ERead RCstamp k a rest) s)"

definition er_read_cstamp :: "nat \<Rightarrow> key \<Rightarrow> nat \<Rightarrow> er_call list \<Rightarrow> er_sys \<Rightarrow> er_sys" where
  "er_read_cstamp w k a rest s =
     (let v = er_vers s a in
      if ex_txid (er_txs s w) < ev_cstamp v then er_follow w (ev_prev v) (\<lambda>b. ERead RStatus k b rest) s
      else er_goto w (ERead RSstamp k a rest) s)"

definition er_read_sstamp :: "nat \<Rightarrow> key \<Rightarrow> nat \<Rightarrow> er_call list \<Rightarrow> er_sys \<Rightarrow> er_sys" where
  "er_read_sstamp w k a rest s =
     (let t = er_txs s w in
      if ev_sstamp (er_vers s a) = er_infinity
      then er_upd w (t\<lparr>ex_rset := ex_rset t @ [\<lparr>ee_key = k, ee_rcdptr = get_tuple k, ee_ver = a\<rparr>]\<rparr>) (ERead RBit k a rest) s
      else er_goto w (ERead RPi k a rest) s)"

definition er_read_pi :: "nat \<Rightarrow> key \<Rightarrow> nat \<Rightarrow> er_call list \<Rightarrow> er_sys \<Rightarrow> er_sys" where
  "er_read_pi w k a rest s =
     er_upd w (er_min_sstamp (er_stamp (ev_sstamp (er_vers s a))) (er_txs s w)) (ERead RBit k a rest) s"

text \<open>\<^verbatim>\<open>verify_exclusion_or_abort\<close>\<close>

definition er_verify :: "nat \<Rightarrow> er_pc \<Rightarrow> er_pc \<Rightarrow> er_sys \<Rightarrow> er_sys" where
  "er_verify w pc_abort pc s =
     (let t = er_txs s w in
      if er_excluded t then er_tell w ErAborted (er_upd w (t\<lparr>ex_status := ErAborted\<rparr>) pc_abort s)
      else er_goto w pc s)"

definition er_read_copy :: "er_config \<Rightarrow> nat \<Rightarrow> key \<Rightarrow> nat \<Rightarrow> er_call list \<Rightarrow> er_sys \<Rightarrow> er_sys" where
  "er_read_copy c w k a rest s =
     (let t = er_txs s w; v = er_vers s a in
      (er_upd w (t\<lparr>ex_return_val := memcpy (ex_return_val t) (ev_val v) (er_val_size c)\<rparr>) (ECalls rest) s)
        \<lparr>er_vals := (er_vals s)(w := er_vals s w @ [(k, ev_val v)])\<rparr>)"

section \<open>Write\<close>

definition er_ssn_twrite :: "nat \<Rightarrow> key \<Rightarrow> er_call list \<Rightarrow> er_sys \<Rightarrow> er_sys" where
  "er_ssn_twrite w k rest s =
     (let t = er_txs s w in
      if er_searchWriteSet k t \<noteq> None then er_goto w (ECalls rest) s
      else (case search_set ee_key k (ex_rset t) of
              Some e \<Rightarrow> er_goto w (EWriteDown k e rest) s
            | None \<Rightarrow> er_goto w (EWriteNew k (get_tuple k) rest) s))"

text \<open>The element leaves the read set, to avoid a false positive.\<close>

definition er_write_down :: "nat \<Rightarrow> key \<Rightarrow> er_elem \<Rightarrow> er_call list \<Rightarrow> er_sys \<Rightarrow> er_sys" where
  "er_write_down w k e rest s =
     (let t = er_txs s w in
      er_set_ver (ee_ver e) (er_down w (er_vers s (ee_ver e)))
        (er_upd w (t\<lparr>ex_rset := remove1 e (ex_rset t)\<rparr>) (EWriteNew k (ee_rcdptr e) rest) s))"

text \<open>The new version: from the end of the reuse list and initialised, or allocated.\<close>

definition er_new_version :: "u32 \<Rightarrow> er_version \<Rightarrow> er_version" where
  "er_new_version txid v =
     v\<lparr>ev_pstamp := 0, ev_sstamp := er_infinity, ev_status := VsInFlight, ev_readers := 0, ev_cstamp := txid\<rparr>"

definition er_write_new :: "nat \<Rightarrow> key \<Rightarrow> key \<Rightarrow> er_call list \<Rightarrow> er_sys \<Rightarrow> er_sys" where
  "er_write_new w k p rest s =
     (let t = er_txs s w;
          fresh = (ex_reuse_version t = []);
          d = (if fresh then er_next s else last (ex_reuse_version t));
          t' = t\<lparr>ex_reuse_version := butlast (ex_reuse_version t)\<rparr>
      in (er_set_ver d (er_new_version (ex_txid t) (er_vers s d))
           (er_upd w t' (EWrite (WStatus (et_latest (er_table s p))) k p d rest) s))
           \<lparr>er_next := (if fresh then Suc (er_next s) else er_next s),
            er_owner := (if fresh then (er_owner s)(d := w) else er_owner s)\<rparr>)"

definition er_write_abort :: "nat \<Rightarrow> nat \<Rightarrow> er_call list \<Rightarrow> er_sys \<Rightarrow> er_sys" where
  "er_write_abort w d rest s =
     (let t = er_txs s w in
      er_tell w ErAborted
        (er_upd w (t\<lparr>ex_status := ErAborted, ex_reuse_version := ex_reuse_version t @ [d]\<rparr>) (ECalls rest) s))"

definition er_write_status :: "nat \<Rightarrow> key \<Rightarrow> key \<Rightarrow> nat \<Rightarrow> nat \<Rightarrow> er_call list \<Rightarrow> er_sys \<Rightarrow> er_sys" where
  "er_write_status w k p d e rest s =
     (if ev_status (er_vers s e) = VsInFlight then er_goto w (EWrite (WCstamp e) k p d rest) s
      else er_goto w (EWrite (WWalk e e) k p d rest) s)"

definition er_write_cstamp :: "nat \<Rightarrow> key \<Rightarrow> key \<Rightarrow> nat \<Rightarrow> nat \<Rightarrow> er_call list \<Rightarrow> er_sys \<Rightarrow> er_sys" where
  "er_write_cstamp w k p d e rest s =
     (if ex_txid (er_txs s w) \<le> ev_cstamp (er_vers s e) then er_write_abort w d rest s
      else er_goto w (EWrite WReload k p d rest) s)"

definition er_write_walk :: "nat \<Rightarrow> key \<Rightarrow> key \<Rightarrow> nat \<Rightarrow> nat \<Rightarrow> nat \<Rightarrow> er_call list \<Rightarrow> er_sys \<Rightarrow> er_sys" where
  "er_write_walk w k p d e v rest s =
     (if ev_status (er_vers s v) \<noteq> VsCommitted
      then er_follow w (ev_prev (er_vers s v)) (\<lambda>b. EWrite (WWalk e b) k p d rest) s
      else er_goto w (EWrite (WCheck e v) k p d rest) s)"

definition er_write_check :: "nat \<Rightarrow> key \<Rightarrow> key \<Rightarrow> nat \<Rightarrow> nat \<Rightarrow> nat \<Rightarrow> er_call list \<Rightarrow> er_sys \<Rightarrow> er_sys" where
  "er_write_check w k p d e v rest s =
     (if ex_txid (er_txs s w) < ev_cstamp (er_vers s v) then er_write_abort w d rest s
      else er_set_ver d ((er_vers s d)\<lparr>ev_prev := Some e\<rparr>) (er_goto w (EWrite (WCas e) k p d rest) s))"

definition er_write_cas :: "nat \<Rightarrow> key \<Rightarrow> key \<Rightarrow> nat \<Rightarrow> nat \<Rightarrow> er_call list \<Rightarrow> er_sys \<Rightarrow> er_sys" where
  "er_write_cas w k p d e rest s =
     (let latest = et_latest (er_table s p) in
      if latest = e then
        (er_goto w (EWrite (WMark e) k p d rest) s)
          \<lparr>er_table := (er_table s)(p := (er_table s p)\<lparr>et_latest := d\<rparr>), er_pub := (er_pub s)(d := Some p)\<rparr>
      else er_goto w (EWrite (WStatus latest) k p d rest) s)"

definition er_write_mark :: "nat \<Rightarrow> key \<Rightarrow> key \<Rightarrow> nat \<Rightarrow> nat \<Rightarrow> er_call list \<Rightarrow> er_sys \<Rightarrow> er_sys" where
  "er_write_mark w k p d e rest s =
     er_set_ver e ((er_vers s e)\<lparr>ev_sstamp := er_mark w\<rparr>) (er_goto w (EWrite (WEta e) k p d rest) s)"

definition er_write_eta :: "nat \<Rightarrow> key \<Rightarrow> key \<Rightarrow> nat \<Rightarrow> nat \<Rightarrow> er_call list \<Rightarrow> er_sys \<Rightarrow> er_sys" where
  "er_write_eta w k p d e rest s =
     (let t = er_max_pstamp (ev_pstamp (er_vers s e)) (er_txs s w) in
      er_upd w (t\<lparr>ex_wset := ex_wset t @ [\<lparr>ee_key = k, ee_rcdptr = p, ee_ver = d\<rparr>]\<rparr>) (EWriteVerify rest) s)"

text \<open>The worker aborts early when a procedure has set the status.\<close>

definition er_early_abort :: "nat \<Rightarrow> er_call list \<Rightarrow> er_sys \<Rightarrow> er_sys" where
  "er_early_abort w rest s =
     (let t = er_txs s w in
      if ex_status t = ErAborted then er_goto w (EAbort (ex_wset t)) s else er_goto w (ECalls rest) s)"

section \<open>Commit\<close>

definition er_committing :: "nat \<Rightarrow> er_sys \<Rightarrow> er_sys" where
  "er_committing w s = er_tell w ErCommitting (er_upd w ((er_txs s w)\<lparr>ex_status := ErCommitting\<rparr>) ELsn s)"

definition er_lsn :: "nat \<Rightarrow> er_sys \<Rightarrow> er_sys" where
  "er_lsn w s =
     (let n = er_Lsn s + 1 in
      (er_upd w ((er_txs s w)\<lparr>ex_cstamp := ucast n\<rparr>) EStoreCstamp s)\<lparr>er_Lsn := n\<rparr>)"

definition er_store_cstamp :: "nat \<Rightarrow> er_sys \<Rightarrow> er_sys" where
  "er_store_cstamp w s =
     (let t = er_txs s w; a = er_TMT s w in
      er_set_tmt a ((er_tmts s a)\<lparr>tm_cstamp := ex_cstamp t\<rparr>)
        (er_upd w (er_min_sstamp (ex_cstamp t) t) (EPi (ex_rset t)) s))"

text \<open>One element of the read set; a mark leads to its writer.\<close>

definition er_pi :: "nat \<Rightarrow> er_elem list \<Rightarrow> er_sys \<Rightarrow> er_sys" where
  "er_pi w rs s =
     (let t = er_txs s w in
      case rs of
        [] \<Rightarrow> er_goto w (EEta (ex_wset t)) s
      | r # rs \<Rightarrow>
          (let x = ev_sstamp (er_vers s (ee_ver r)) in
           if er_is_tid x then er_goto w (EWait (VPtr (er_worker x)) (ForPi rs)) s
           else er_upd w (er_min_sstamp (er_stamp x) t) (EPi rs) s))"

definition er_eta :: "nat \<Rightarrow> er_elem list \<Rightarrow> er_sys \<Rightarrow> er_sys" where
  "er_eta w es s =
     (case es of
        [] \<Rightarrow> er_goto w ECheck s
      | e # es \<Rightarrow> er_goto w (EEtaAt (NWalk (ee_ver e)) es) s)"

definition er_eta_walk :: "nat \<Rightarrow> er_elem list \<Rightarrow> nat \<Rightarrow> er_sys \<Rightarrow> er_sys" where
  "er_eta_walk w es v s =
     (if ev_status (er_vers s v) \<noteq> VsCommitted then er_follow w (ev_prev (er_vers s v)) (\<lambda>b. EEtaAt (NWalk b) es) s
      else er_goto w (EEtaAt (NReaders v) es) s)"

definition er_eta_loop :: "er_config \<Rightarrow> nat \<Rightarrow> er_elem list \<Rightarrow> nat \<Rightarrow> u64 \<Rightarrow> nat \<Rightarrow> er_sys \<Rightarrow> er_sys" where
  "er_eta_loop c w es v rdrs i s =
     (if i < er_workers c then
        (if er_reads rdrs i then er_goto w (EWait (VPtr i) (ForEta es v rdrs (Suc i))) s
         else er_goto w (EEtaAt (NLoop v rdrs (Suc i)) es) s)
      else er_goto w (EEtaAt (NPstamp v) es) s)"

definition er_eta_pstamp :: "nat \<Rightarrow> er_elem list \<Rightarrow> nat \<Rightarrow> er_sys \<Rightarrow> er_sys" where
  "er_eta_pstamp w es v s = er_upd w (er_max_pstamp (ev_pstamp (er_vers s v)) (er_txs s w)) (EEta es) s"

text \<open>Waiting for a concurrent committer, in both loops: for its stamp, then for its end.\<close>

fun er_resume :: "er_wait \<Rightarrow> er_pc" where
  "er_resume (ForPi rs) = EPi rs"
| "er_resume (ForEta es v rdrs i) = EEtaAt (NLoop v rdrs i) es"

definition er_wait_status :: "nat \<Rightarrow> nat \<Rightarrow> er_wait \<Rightarrow> er_sys \<Rightarrow> er_sys" where
  "er_wait_status w a k s =
     er_goto w (if tm_status (er_tmts s a) = ErCommitting then EWait (VCstamp a) k else er_resume k) s"

definition er_wait_cstamp :: "nat \<Rightarrow> nat \<Rightarrow> er_wait \<Rightarrow> er_sys \<Rightarrow> er_sys" where
  "er_wait_cstamp w a k s = (if tm_cstamp (er_tmts s a) = 0 then s else er_goto w (EWait (VLess a) k) s)"

definition er_wait_less :: "nat \<Rightarrow> nat \<Rightarrow> er_wait \<Rightarrow> er_sys \<Rightarrow> er_sys" where
  "er_wait_less w a k s =
     er_goto w (if tm_cstamp (er_tmts s a) < ex_cstamp (er_txs s w) then EWait (VEnd a) k else er_resume k) s"

definition er_wait_end :: "nat \<Rightarrow> nat \<Rightarrow> er_wait \<Rightarrow> er_sys \<Rightarrow> er_sys" where
  "er_wait_end w a k s = (if tm_status (er_tmts s a) = ErCommitting then s else er_goto w (EWait (VDone a) k) s)"

definition er_wait_done :: "nat \<Rightarrow> nat \<Rightarrow> er_wait \<Rightarrow> er_sys \<Rightarrow> er_sys" where
  "er_wait_done w a k s =
     er_goto w (if tm_status (er_tmts s a) = ErCommitted then EWait (VStamp a) k else er_resume k) s"

definition er_wait_stamp :: "nat \<Rightarrow> nat \<Rightarrow> er_wait \<Rightarrow> er_sys \<Rightarrow> er_sys" where
  "er_wait_stamp w a k s =
     (let t = er_txs s w; m = er_tmts s a in
      er_upd w (case k of ForPi rs \<Rightarrow> er_min_sstamp (tm_sstamp m) t | ForEta es v rdrs i \<Rightarrow> er_max_pstamp (tm_cstamp m) t)
        (er_resume k) s)"

definition er_record :: "er_config \<Rightarrow> (key \<times> val) list \<Rightarrow> er_tx \<Rightarrow> txrec" where
  "er_record c reads t =
     \<lparr>tx_reads = reads, tx_writes = map (\<lambda>e. (ee_key e, \<lambda>old. memcpy old (ex_write_val t) (er_val_size c))) (ex_wset t)\<rparr>"

text \<open>\<^verbatim>\<open>ssn_check_exclusion\<close>: with the test the transaction is committed.\<close>

definition er_check :: "er_config \<Rightarrow> nat \<Rightarrow> er_sys \<Rightarrow> er_sys" where
  "er_check c w s =
     (let t = er_txs s w in
      if ex_pstamp t < ex_sstamp t then
        (er_upd w (t\<lparr>ex_status := ErCommitted\<rparr>) EStoreSstamp s)\<lparr>er_com := er_com s @ [er_record c (er_vals s w) t]\<rparr>
      else er_tell w ErAborted (er_upd w (t\<lparr>ex_status := ErAborted\<rparr>) (EAbort (ex_wset t)) s))"

definition er_store_sstamp :: "nat \<Rightarrow> er_sys \<Rightarrow> er_sys" where
  "er_store_sstamp w s =
     (let a = er_TMT s w in
      er_set_tmt a ((er_tmts s a)\<lparr>tm_sstamp := ex_sstamp (er_txs s w)\<rparr>) (er_goto w EStoreCommitted s))"

definition er_update_eta :: "nat \<Rightarrow> er_elem list \<Rightarrow> er_sys \<Rightarrow> er_sys" where
  "er_update_eta w rs s =
     (let t = er_txs s w in
      case rs of
        [] \<Rightarrow> er_goto w (EPub (ex_wset t)) s
      | r # rs \<Rightarrow>
          (let v = er_vers s (ee_ver r) in
           er_set_ver (ee_ver r) (v\<lparr>ev_pstamp := max (ev_pstamp v) (ex_cstamp t)\<rparr>) (er_goto w (EUpdateBit r rs) s)))"

definition er_update_bit :: "nat \<Rightarrow> er_elem \<Rightarrow> er_elem list \<Rightarrow> er_sys \<Rightarrow> er_sys" where
  "er_update_bit w r rs s = er_set_ver (ee_ver r) (er_down w (er_vers s (ee_ver r))) (er_goto w (EUpdateEta rs) s)"

text \<open>The loop that publishes the write set, and the end of \<^verbatim>\<open>ssn_parallel_commit\<close>.\<close>

definition er_pub_next :: "nat \<Rightarrow> er_elem list \<Rightarrow> er_sys \<Rightarrow> er_sys" where
  "er_pub_next w es s =
     (let t = er_txs s w; a = er_TMT s w in
      case es of
        e # es \<Rightarrow> er_follow w (ev_prev (er_vers s (ee_ver e))) (\<lambda>b. EPubAt (PWalk b) e es) s
      | [] \<Rightarrow>
          er_set_tmt a ((er_tmts s a)\<lparr>tm_lastcstamp := ex_cstamp t\<rparr>)
            (er_upd w (t\<lparr>ex_rset := [], ex_wset := []\<rparr>) EMake s))"

definition er_pub_walk :: "nat \<Rightarrow> er_elem \<Rightarrow> er_elem list \<Rightarrow> nat \<Rightarrow> er_sys \<Rightarrow> er_sys" where
  "er_pub_walk w e es v s =
     (if ev_status (er_vers s v) \<noteq> VsCommitted then er_follow w (ev_prev (er_vers s v)) (\<lambda>b. EPubAt (PWalk b) e es) s
      else er_goto w (EPubAt (PSstamp v) e es) s)"

definition er_pub_val :: "er_config \<Rightarrow> nat \<Rightarrow> er_elem \<Rightarrow> er_elem list \<Rightarrow> er_sys \<Rightarrow> er_sys" where
  "er_pub_val c w e es s =
     (let v = er_vers s (ee_ver e) in
      er_set_ver (ee_ver e) (v\<lparr>ev_val := memcpy (ev_val v) (ex_write_val (er_txs s w)) (er_val_size c)\<rparr>)
        (er_goto w (EPubAt PStatus e es) s))"

definition er_pub_status :: "nat \<Rightarrow> er_elem \<Rightarrow> er_elem list \<Rightarrow> er_sys \<Rightarrow> er_sys" where
  "er_pub_status w e es s =
     (let t = er_txs s w;
          g = \<lparr>eg_key = ee_key e, eg_rcdptr = ee_rcdptr e, eg_ver = ee_ver e, eg_cstamp = ex_cstamp t\<rparr> in
      er_set_ver (ee_ver e) ((er_vers s (ee_ver e))\<lparr>ev_status := VsCommitted\<rparr>)
        (er_upd w (t\<lparr>ex_gcq_for_version := ex_gcq_for_version t @ [g]\<rparr>) (EPub es) s))"

section \<open>Abort\<close>

definition er_abort :: "nat \<Rightarrow> er_elem list \<Rightarrow> er_sys \<Rightarrow> er_sys" where
  "er_abort w es s =
     (let t = er_txs s w in
      case es of
        e # es \<Rightarrow> er_follow w (ev_prev (er_vers s (ee_ver e))) (\<lambda>b. EAbortAt (AWalk b) e es) s
      | [] \<Rightarrow> er_upd w (t\<lparr>ex_wset := []\<rparr>) (EAbortReads (ex_rset t)) s)"

definition er_abort_walk :: "nat \<Rightarrow> er_elem \<Rightarrow> er_elem list \<Rightarrow> nat \<Rightarrow> er_sys \<Rightarrow> er_sys" where
  "er_abort_walk w e es v s =
     (if ev_status (er_vers s v) \<noteq> VsCommitted then er_follow w (ev_prev (er_vers s v)) (\<lambda>b. EAbortAt (AWalk b) e es) s
      else er_goto w (EAbortAt (ASstamp v) e es) s)"

definition er_abort_status :: "nat \<Rightarrow> er_elem \<Rightarrow> er_elem list \<Rightarrow> er_sys \<Rightarrow> er_sys" where
  "er_abort_status w e es s =
     er_set_ver (ee_ver e) ((er_vers s (ee_ver e))\<lparr>ev_status := VsAborted\<rparr>) (er_goto w (EAbort es) s)"

definition er_abort_reads :: "nat \<Rightarrow> er_elem list \<Rightarrow> er_sys \<Rightarrow> er_sys" where
  "er_abort_reads w rs s =
     (case rs of
        r # rs \<Rightarrow> er_set_ver (ee_ver r) (er_down w (er_vers s (ee_ver r))) (er_goto w (EAbortReads rs) s)
      | [] \<Rightarrow> er_upd w ((er_txs s w)\<lparr>ex_rset := []\<rparr>) ERetry s)"

text \<open>The stores to the stamps of a version.\<close>

definition er_sstamp_to :: "nat \<Rightarrow> u32 \<Rightarrow> er_sys \<Rightarrow> er_sys" where
  "er_sstamp_to v x s = er_set_ver v ((er_vers s v)\<lparr>ev_sstamp := x\<rparr>) s"

section \<open>One step of worker \<open>w\<close>\<close>

definition er_step_read :: "er_config \<Rightarrow> nat \<Rightarrow> er_rpc \<Rightarrow> key \<Rightarrow> nat \<Rightarrow> er_call list \<Rightarrow> er_sys \<Rightarrow> er_sys" where
  "er_step_read c w r k a rest s =
     (case r of
        RStatus \<Rightarrow> er_read_status w k a rest s
      | RCstamp \<Rightarrow> er_read_cstamp w k a rest s
      | RSstamp \<Rightarrow> er_read_sstamp w k a rest s
      | RPi \<Rightarrow> er_read_pi w k a rest s
      | RBit \<Rightarrow> er_set_ver a (er_up w (er_vers s a)) (er_goto w (ERead RVerify k a rest) s)
      | RVerify \<Rightarrow> er_verify w (ECalls rest) (ERead RCopy k a rest) s
      | RCopy \<Rightarrow> er_read_copy c w k a rest s)"

definition er_step_write :: "nat \<Rightarrow> er_wpc \<Rightarrow> key \<Rightarrow> key \<Rightarrow> nat \<Rightarrow> er_call list \<Rightarrow> er_sys \<Rightarrow> er_sys" where
  "er_step_write w r k p d rest s =
     (case r of
        WStatus e \<Rightarrow> er_write_status w k p d e rest s
      | WCstamp e \<Rightarrow> er_write_cstamp w k p d e rest s
      | WReload \<Rightarrow> er_goto w (EWrite (WStatus (et_latest (er_table s p))) k p d rest) s
      | WWalk e v \<Rightarrow> er_write_walk w k p d e v rest s
      | WCheck e v \<Rightarrow> er_write_check w k p d e v rest s
      | WCas e \<Rightarrow> er_write_cas w k p d e rest s
      | WMark e \<Rightarrow> er_write_mark w k p d e rest s
      | WEta e \<Rightarrow> er_write_eta w k p d e rest s)"

definition er_step_eta :: "er_config \<Rightarrow> nat \<Rightarrow> er_epc \<Rightarrow> er_elem list \<Rightarrow> er_sys \<Rightarrow> er_sys" where
  "er_step_eta c w r es s =
     (case r of
        NWalk v \<Rightarrow> er_eta_walk w es v s
      | NReaders v \<Rightarrow> er_goto w (EEtaAt (NLoop v (ev_readers (er_vers s v)) 0) es) s
      | NLoop v rdrs i \<Rightarrow> er_eta_loop c w es v rdrs i s
      | NPstamp v \<Rightarrow> er_eta_pstamp w es v s)"

definition er_step_wait :: "nat \<Rightarrow> er_vpc \<Rightarrow> er_wait \<Rightarrow> er_sys \<Rightarrow> er_sys" where
  "er_step_wait w r k s =
     (case r of
        VPtr i \<Rightarrow> er_goto w (EWait (VStatus (er_TMT s i)) k) s
      | VStatus a \<Rightarrow> er_wait_status w a k s
      | VCstamp a \<Rightarrow> er_wait_cstamp w a k s
      | VLess a \<Rightarrow> er_wait_less w a k s
      | VEnd a \<Rightarrow> er_wait_end w a k s
      | VDone a \<Rightarrow> er_wait_done w a k s
      | VStamp a \<Rightarrow> er_wait_stamp w a k s)"

definition er_step_pub :: "er_config \<Rightarrow> nat \<Rightarrow> er_ppc \<Rightarrow> er_elem \<Rightarrow> er_elem list \<Rightarrow> er_sys \<Rightarrow> er_sys" where
  "er_step_pub c w r e es s =
     (let t = er_txs s w; v = er_vers s (ee_ver e) in
      case r of
        PWalk b \<Rightarrow> er_pub_walk w e es b s
      | PSstamp b \<Rightarrow> er_sstamp_to b (er_final (ex_sstamp t)) (er_goto w (EPubAt PCstamp e es) s)
      | PCstamp \<Rightarrow> er_set_ver (ee_ver e) (v\<lparr>ev_cstamp := ex_cstamp t\<rparr>) (er_goto w (EPubAt PPstamp e es) s)
      | PPstamp \<Rightarrow> er_set_ver (ee_ver e) (v\<lparr>ev_pstamp := ex_cstamp t\<rparr>) (er_goto w (EPubAt PInfinity e es) s)
      | PInfinity \<Rightarrow> er_sstamp_to (ee_ver e) er_infinity (er_goto w (EPubAt PVal e es) s)
      | PVal \<Rightarrow> er_pub_val c w e es s
      | PStatus \<Rightarrow> er_pub_status w e es s)"

definition er_step_abort :: "nat \<Rightarrow> er_apc \<Rightarrow> er_elem \<Rightarrow> er_elem list \<Rightarrow> er_sys \<Rightarrow> er_sys" where
  "er_step_abort w r e es s =
     (case r of
        AWalk v \<Rightarrow> er_abort_walk w e es v s
      | ASstamp v \<Rightarrow> er_sstamp_to v er_infinity (er_goto w (EAbortAt AStatus e es) s)
      | AStatus \<Rightarrow> er_abort_status w e es s)"

definition er_step :: "er_config \<Rightarrow> nat \<Rightarrow> procedure list \<Rightarrow> er_sys \<Rightarrow> er_sys" where
  "er_step c w pro s =
     (let t = er_txs s w in
      case er_pcs s w of
        EMake \<Rightarrow> (if er_quit s then er_goto w EStop s else er_upd w (t\<lparr>ex_pro := pro\<rparr>) ERetry s)
      | ERetry \<Rightarrow> er_goto w (if w = 0 then ELeadPtr 0 (- 1) 0 else EQuit) s
      | ELeadPtr i smin smax \<Rightarrow> er_leader_ptr c w i smin smax s
      | ELeadVal i a smin smax \<Rightarrow> er_leader_val w i a smin smax s
      | EQuit \<Rightarrow> er_goto w (if er_quit s then EStop else EBegin) s
      | EBegin \<Rightarrow> er_tbegin w s
      | EScanPtr i a \<Rightarrow> er_scan_ptr c w i a s
      | EScanVal i tmt a \<Rightarrow> er_scan_val w i tmt a s
      | ECalls cs \<Rightarrow>
          (case cs of
             [] \<Rightarrow> er_committing w s
           | ErRead k # rest \<Rightarrow> er_ssn_tread w k rest s
           | ErWrite k # rest \<Rightarrow> er_ssn_twrite w k rest s
           | ErCheck # rest \<Rightarrow> er_early_abort w rest s)
      | ERead r k a rest \<Rightarrow> er_step_read c w r k a rest s
      | EWriteDown k e rest \<Rightarrow> er_write_down w k e rest s
      | EWriteNew k p rest \<Rightarrow> er_write_new w k p rest s
      | EWrite r k p d rest \<Rightarrow> er_step_write w r k p d rest s
      | EWriteVerify rest \<Rightarrow> er_verify w (ECalls rest) (ECalls rest) s
      | ELsn \<Rightarrow> er_lsn w s
      | EStoreCstamp \<Rightarrow> er_store_cstamp w s
      | EPi rs \<Rightarrow> er_pi w rs s
      | EEta es \<Rightarrow> er_eta w es s
      | EEtaAt r es \<Rightarrow> er_step_eta c w r es s
      | EWait r k \<Rightarrow> er_step_wait w r k s
      | ECheck \<Rightarrow> er_check c w s
      | EStoreSstamp \<Rightarrow> er_store_sstamp w s
      | EStoreCommitted \<Rightarrow> er_tell w ErCommitted (er_goto w (EUpdateEta (ex_rset t)) s)
      | EUpdateEta rs \<Rightarrow> er_update_eta w rs s
      | EUpdateBit r rs \<Rightarrow> er_update_bit w r rs s
      | EPub es \<Rightarrow> er_pub_next w es s
      | EPubAt r e es \<Rightarrow> er_step_pub c w r e es s
      | EAbort es \<Rightarrow> er_abort w es s
      | EAbortAt r e es \<Rightarrow> er_step_abort w r e es s
      | EAbortReads rs \<Rightarrow> er_abort_reads w rs s
      | EStop \<Rightarrow> s
      | EError \<Rightarrow> s)"

section \<open>The system\<close>

text \<open>
  \<^verbatim>\<open>partTableInit\<close> and \<^verbatim>\<open>chkArg\<close>: record \<open>k\<close> has one committed version, at address \<open>unat k\<close>; the elements of
  the transaction table are at the addresses of the workers; nothing is reserved in advance.
\<close>

definition er_init :: "er_config \<Rightarrow> db \<Rightarrow> (nat \<Rightarrow> val) \<Rightarrow> er_sys" where
  "er_init c d wv =
     \<lparr>er_table = (\<lambda>k. \<lparr>et_latest = unat k, et_min_cstamp = 0, et_gc_lock = 0\<rparr>),
      er_vers = (\<lambda>a. \<lparr>ev_pstamp = 0, ev_sstamp = er_infinity, ev_prev = None, ev_readers = 0, ev_cstamp = 0,
                      ev_status = (if a < 2 ^ 64 then VsCommitted else VsInFlight),
                      ev_val = (if a < 2 ^ 64 then d (of_nat a) else replicate (er_val_size c) 0)\<rparr>),
      er_next = 2 ^ 64, er_Lsn = 0, er_TMT = (\<lambda>w. w),
      er_tmts = (\<lambda>_. \<lparr>tm_txid = 0, tm_cstamp = 0, tm_sstamp = - 1, tm_lastcstamp = 0, tm_status = ErInFlight\<rparr>),
      er_tmt_next = er_workers c, er_gcob = er_decideFirstRange (replicate (er_workers c) 0), er_GC_threshold = 0,
      er_quit = False,
      er_txs = (\<lambda>w. \<lparr>ex_cstamp = 0, ex_pstamp = 0, ex_sstamp = - 1, ex_txid = 0, ex_rset = [], ex_wset = [], ex_pro = [],
                     ex_status = ErInFlight, ex_write_val = wv w, ex_return_val = replicate (er_val_size c) 0,
                     ex_gcq_for_TMT = [], ex_reuse_TMT = [], ex_gcq_for_version = [], ex_reuse_version = []\<rparr>),
      er_pcs = (\<lambda>_. EMake), er_pub = (\<lambda>a. if a < 2 ^ 64 then Some (of_nat a) else None), er_owner = (\<lambda>_. 0),
      er_vals = (\<lambda>_. []), er_com = []\<rparr>"

definition er_start :: "er_config \<Rightarrow> db \<Rightarrow> er_sys \<Rightarrow> bool" where
  "er_start c d s \<longleftrightarrow>
     (\<exists>wv. s = er_init c d wv \<and> (\<forall>w. length (wv w) = er_val_size c) \<and> (\<forall>k. length (d k) = er_val_size c))"

definition er_next_sys :: "er_config \<Rightarrow> er_sys \<Rightarrow> er_sys \<Rightarrow> bool" where
  "er_next_sys c s t \<longleftrightarrow> (\<exists>w pro. w < er_workers c \<and> t = er_step c w pro s) \<or> t = s\<lparr>er_quit := True\<rparr>"

abbreviation er_reach :: "er_config \<Rightarrow> db \<Rightarrow> er_sys \<Rightarrow> bool" where
  "er_reach c d \<equiv> reach (er_start c d) (er_next_sys c)"

fun er_run :: "er_config \<Rightarrow> (nat \<times> procedure list) list \<Rightarrow> er_sys \<Rightarrow> er_sys" where
  "er_run c [] s = s"
| "er_run c ((w, pro) # sched) s = er_run c sched (er_step c w pro s)"

lemma er_step_reach: "er_reach c d s \<Longrightarrow> w < er_workers c \<Longrightarrow> er_reach c d (er_step c w pro s)"
  by (rule reach_step) (auto simp: er_next_sys_def)

lemma er_run_reach:
  "er_reach c d s \<Longrightarrow> \<forall>(w, pro) \<in> set sched. w < er_workers c \<Longrightarrow> er_reach c d (er_run c sched s)"
proof (induction sched arbitrary: s)
  case (Cons a sched)
  then have "er_reach c d (er_step c (fst a) (snd a) s)"
    using er_step_reach [OF Cons.prems(1)] by auto
  with Cons show ?case by (cases a) simp
qed simp

end
