(* ===== verification/Ermia_Gc.thy ===== *)
theory Ermia_Gc
  imports Ermia_System
begin

text \<open>
  The collector of \<^verbatim>\<open>ermia/garbage_collection.cc\<close> as one operation of a worker, and \<^verbatim>\<open>mainte\<close>, which calls
  it. A queue is the list of its elements, front first. The walk over the detached versions has no value
  when it does not end. The collector tries the lock of a record once and gives up the
  element when it is taken, so other collectors may be at work on other records.
\<close>

section \<open>Chains of versions\<close>


text \<open>
  Chains of versions in a heap, as the lists of their addresses, and the loop with which the collectors walk
  to the end of a chain that they have detached.
\<close>

primrec chain :: "(nat \<Rightarrow> nat option) \<Rightarrow> nat option \<Rightarrow> nat list \<Rightarrow> bool" where
  "chain h p [] \<longleftrightarrow> p = None"
| "chain h p (a # as) \<longleftrightarrow> p = Some a \<and> chain h (h a) as"

lemma chain_None [simp]: "chain h None as \<longleftrightarrow> as = []"
  by (cases as) auto

lemma chain_Some: "chain h (Some a) as \<longleftrightarrow> (\<exists>bs. as = a # bs \<and> chain h (h a) bs)"
  by (cases as) auto

lemma chain_unique: "chain h p as \<Longrightarrow> chain h p bs \<Longrightarrow> as = bs"
  by (induction as arbitrary: p bs) (auto simp: chain_Some)

lemma chain_append: "chain h p (as @ b # bs) \<Longrightarrow> chain h (Some b) (b # bs)"
  by (induction as arbitrary: p) auto

lemma chain_distinct: "chain h p as \<Longrightarrow> distinct as"
proof (induction as arbitrary: p)
  case (Cons a as)
  have "a \<notin> set as"
  proof
    assume "a \<in> set as"
    then obtain xs ys where as: "as = xs @ a # ys" by (auto dest: split_list)
    with Cons.prems have "chain h (Some a) (a # ys)" using chain_append [of h p "a # xs" a ys] by simp
    moreover have "chain h (Some a) (a # as)" using Cons.prems by simp
    ultimately have "a # ys = a # as" by (rule chain_unique)
    with as show False by simp
  qed
  with Cons show ?case by auto
qed simp

lemma chain_cong: "(\<And>a. a \<in> set as \<Longrightarrow> h a = g a) \<Longrightarrow> chain h p as \<longleftrightarrow> chain g p as"
  by (induction as arbitrary: p) auto

lemma chain_upd [simp]: "a \<notin> set as \<Longrightarrow> chain (h(a := q)) p as \<longleftrightarrow> chain h p as"
  by (rule chain_cong) auto

lemma chain_cut: "chain h p (as @ a # bs) \<Longrightarrow> a \<notin> set as \<Longrightarrow> chain (h(a := None)) p (as @ [a])"
  by (induction as arbitrary: p) auto

text \<open>\<^verbatim>\<open>while (delTarget != nullptr)\<close>: the versions from \<open>p\<close> on; no value when the chain has no end.\<close>

partial_function (option) collect :: "(nat \<Rightarrow> nat option) \<Rightarrow> nat option \<Rightarrow> nat list \<Rightarrow> nat list option" where
  "collect h p acc = (case p of None \<Rightarrow> Some acc | Some a \<Rightarrow> collect h (h a) (acc @ [a]))"

lemma collect_chain: "chain h p as \<Longrightarrow> collect h p acc = Some (acc @ as)"
proof (induction as arbitrary: p acc)
  case Nil then show ?case by (simp add: collect.simps)
next
  case (Cons a as) then show ?case by (subst collect.simps) simp
qed

section \<open>The newest version that a reader accepts\<close>

definition newest :: "(nat \<Rightarrow> bool) \<Rightarrow> nat list \<Rightarrow> nat option" where
  "newest P as = List.find P as"

lemma newest_cut: "P a \<Longrightarrow> newest P (as @ a # bs) = newest P (as @ [a])"
  by (induction as) (auto simp: newest_def)

lemma newest_cong: "(\<And>a. a \<in> set as \<Longrightarrow> P a = Q a) \<Longrightarrow> newest P as = newest Q as"
  by (induction as) (auto simp: newest_def)

section \<open>Collection at one version\<close>

text \<open>
  The versions of a record in a heap: \<open>done\<close> tells which are committed, \<open>stamp\<close> their timestamps. Along a
  chain the timestamps of the committed versions decrease.
\<close>

definition descending :: "(nat \<Rightarrow> bool) \<Rightarrow> (nat \<Rightarrow> u32) \<Rightarrow> nat list \<Rightarrow> bool" where
  "descending ok stamp as \<longleftrightarrow> sorted_wrt (\<lambda>a b. ok a \<longrightarrow> ok b \<longrightarrow> stamp b < stamp a) as"

lemma descending_below:
  "descending ok stamp (as @ a # bs) \<Longrightarrow> ok a \<Longrightarrow> ok b \<Longrightarrow> b \<in> set bs \<Longrightarrow> stamp b < stamp a"
  by (auto simp: descending_def sorted_wrt_append)

lemma descending_cut: "descending ok stamp (as @ a # bs) \<Longrightarrow> descending ok stamp (as @ [a])"
  by (auto simp: descending_def sorted_wrt_append)

lemma descending_Cons:
  "descending ok stamp (a # as) \<longleftrightarrow> (\<forall>b \<in> set as. ok a \<longrightarrow> ok b \<longrightarrow> stamp b < stamp a) \<and> descending ok stamp as"
  by (simp add: descending_def)

lemma descending_cong:
  assumes "\<And>a. a \<in> set as \<Longrightarrow> ok a = ok' a" "\<And>a. a \<in> set as \<Longrightarrow> ok a \<Longrightarrow> stamp a = stamp' a"
  shows "descending ok stamp as = descending ok' stamp' as"
  using assms by (induction as) (auto simp: descending_def)


section \<open>The elements of the transaction table\<close>

fun er_gcTMT_loop :: "u32 \<Rightarrow> (nat \<Rightarrow> er_tmt) \<Rightarrow> nat list \<Rightarrow> nat list \<Rightarrow> nat list \<times> nat list" where
  "er_gcTMT_loop th tmts [] reuse = ([], reuse)"
| "er_gcTMT_loop th tmts (a # q) reuse =
     (if tm_txid (tmts a) < th then er_gcTMT_loop th tmts q (reuse @ [a]) else (a # q, reuse))"

definition er_gcTMTelement :: "nat \<Rightarrow> er_sys \<Rightarrow> er_sys" where
  "er_gcTMTelement w s =
     (let t = er_txs s w;
          (q, reuse) = er_gcTMT_loop (er_GC_threshold s) (er_tmts s) (ex_gcq_for_TMT t) (ex_reuse_TMT t)
      in s\<lparr>er_txs := (er_txs s)(w := t\<lparr>ex_gcq_for_TMT := q, ex_reuse_TMT := reuse\<rparr>)\<rparr>)"

section \<open>The versions\<close>

definition er_prev :: "er_sys \<Rightarrow> nat \<Rightarrow> nat option" where
  "er_prev s a = ev_prev (er_vers s a)"

definition er_set_tuple :: "key \<Rightarrow> er_tuple \<Rightarrow> er_sys \<Rightarrow> er_sys" where
  "er_set_tuple p t s = s\<lparr>er_table := (er_table s)(p := t)\<rparr>"

definition er_gc_lock :: "key \<Rightarrow> u8 \<Rightarrow> er_sys \<Rightarrow> er_sys" where
  "er_gc_lock p x s = er_set_tuple p ((er_table s p)\<lparr>et_gc_lock := x\<rparr>) s"

definition er_gc_pop :: "nat \<Rightarrow> er_sys \<Rightarrow> er_sys" where
  "er_gc_pop w s =
     (let t = er_txs s w in s\<lparr>er_txs := (er_txs s)(w := t\<lparr>ex_gcq_for_version := tl (ex_gcq_for_version t)\<rparr>)\<rparr>)"

definition er_gc_reuse :: "nat \<Rightarrow> nat list \<Rightarrow> er_sys \<Rightarrow> er_sys" where
  "er_gc_reuse w as s =
     (let t = er_txs s w in s\<lparr>er_txs := (er_txs s)(w := t\<lparr>ex_reuse_version := ex_reuse_version t @ as\<rparr>)\<rparr>)"

text \<open>Detach what is behind the version, note its stamp in the record, and take the detached versions.\<close>

definition er_gc_detach :: "nat \<Rightarrow> er_gce \<Rightarrow> nat \<Rightarrow> er_sys \<Rightarrow> er_sys option" where
  "er_gc_detach w e target s =
     (let v = er_vers s (eg_ver e); p = eg_rcdptr e;
          s1 = er_set_ver (eg_ver e) (v\<lparr>ev_prev := None\<rparr>) s;
          s2 = er_set_tuple p ((er_table s1 p)\<lparr>et_min_cstamp := ev_cstamp v\<rparr>) s1
      in map_option (\<lambda>as. er_gc_pop w (er_gc_lock p 0 (er_gc_reuse w as s2))) (collect (er_prev s2) (Some target) []))"

definition er_gc_entry :: "nat \<Rightarrow> er_gce \<Rightarrow> er_sys \<Rightarrow> er_sys option" where
  "er_gc_entry w e s =
     (let p = eg_rcdptr e in
      if et_gc_lock (er_table s p) \<noteq> 0 then Some (er_gc_pop w s)
      else
        let s = er_gc_lock p 1 s in
        if eg_cstamp e \<le> et_min_cstamp (er_table s p) then Some (er_gc_pop w (er_gc_lock p 0 s))
        else (case er_prev s (eg_ver e) of
                None \<Rightarrow> Some (er_gc_pop w (er_gc_lock p 0 s))
              | Some target \<Rightarrow> er_gc_detach w e target s))"

fun er_gc_loop :: "u32 \<Rightarrow> nat \<Rightarrow> er_gce list \<Rightarrow> er_sys \<Rightarrow> er_sys option" where
  "er_gc_loop th w [] s = Some s"
| "er_gc_loop th w (e # q) s =
     (if th \<le> eg_cstamp e then Some s
      else case er_gc_entry w e s of None \<Rightarrow> None | Some s' \<Rightarrow> er_gc_loop th w q s')"

definition er_gcVersion :: "nat \<Rightarrow> er_sys \<Rightarrow> er_sys option" where
  "er_gcVersion w s = er_gc_loop (er_GC_threshold s) w (ex_gcq_for_version (er_txs s w)) s"

text \<open>\<^verbatim>\<open>mainte\<close>, with the clock as an argument.\<close>

record er_timer =
  eti_gcstart :: u64
  eti_pre_gc_threshold :: u32

definition er_mainte :: "u64 \<Rightarrow> u64 \<Rightarrow> nat \<Rightarrow> er_timer \<times> er_sys \<Rightarrow> (er_timer \<times> er_sys) option" where
  "er_mainte span now w ts =
     (let (tm, s) = ts; th = er_GC_threshold s in
      if chkClkSpan (eti_gcstart tm) now span \<and> eti_pre_gc_threshold tm \<noteq> th then
        map_option (\<lambda>s'. (tm\<lparr>eti_pre_gc_threshold := th, eti_gcstart := now\<rparr>, s')) (er_gcVersion w (er_gcTMTelement w s))
      else Some ts)"

section \<open>What the collector relies on\<close>

definition er_done :: "er_sys \<Rightarrow> nat \<Rightarrow> bool" where
  "er_done s a \<longleftrightarrow> ev_status (er_vers s a) = VsCommitted"

definition er_cst :: "er_sys \<Rightarrow> nat \<Rightarrow> u32" where
  "er_cst s a = ev_cstamp (er_vers s a)"

text \<open>The version that \<^verbatim>\<open>ssn_tread\<close> accepts for the snapshot \<open>x\<close>.\<close>

definition er_accepts :: "er_sys \<Rightarrow> u32 \<Rightarrow> nat \<Rightarrow> bool" where
  "er_accepts s x a \<longleftrightarrow> er_done s a \<and> er_cst s a \<le> x"

definition er_chain_of :: "(key \<Rightarrow> nat list) \<Rightarrow> er_sys \<Rightarrow> key \<Rightarrow> bool" where
  "er_chain_of C s p \<longleftrightarrow>
     chain (er_prev s) (Some (et_latest (er_table s p))) (C p) \<and> descending (er_done s) (er_cst s) (C p)"

definition er_apart :: "(key \<Rightarrow> nat list) \<Rightarrow> bool" where
  "er_apart C \<longleftrightarrow> (\<forall>p q. p \<noteq> q \<longrightarrow> set (C p) \<inter> set (C q) = {})"

text \<open>An element of a queue: a committed version with its stamp, on the chain of its record or behind a cut.\<close>

definition er_queued :: "(key \<Rightarrow> nat list) \<Rightarrow> er_sys \<Rightarrow> er_gce \<Rightarrow> bool" where
  "er_queued C s e \<longleftrightarrow> er_done s (eg_ver e) \<and> er_cst s (eg_ver e) = eg_cstamp e \<and>
     (eg_cstamp e \<le> et_min_cstamp (er_table s (eg_rcdptr e)) \<or> eg_ver e \<in> set (C (eg_rcdptr e)))"

definition er_chains :: "(key \<Rightarrow> nat list) \<Rightarrow> er_sys \<Rightarrow> bool" where
  "er_chains C s \<longleftrightarrow> (\<forall>p. er_chain_of C s p) \<and> er_apart C \<and>
     (\<forall>w. \<forall>e \<in> set (ex_gcq_for_version (er_txs s w)). er_queued C s e)"

text \<open>What one run of the collector may change.\<close>

definition er_gc_step :: "u32 \<Rightarrow> nat \<Rightarrow> (key \<Rightarrow> nat list) \<Rightarrow> er_sys \<Rightarrow> (key \<Rightarrow> nat list) \<Rightarrow> er_sys \<Rightarrow> bool" where
  "er_gc_step th w C s D t \<longleftrightarrow> er_chains D t \<and>
     (\<forall>p x. th \<le> x \<longrightarrow> newest (er_accepts t x) (D p) = newest (er_accepts s x) (C p)) \<and>
     (\<forall>p. set (D p) \<subseteq> set (C p)) \<and>
     (\<exists>as. ex_reuse_version (er_txs t w) = ex_reuse_version (er_txs s w) @ as \<and>
        set as = (\<Union>p. set (C p) - set (D p)))"

lemmas er_gc_simps = er_gc_lock_def er_set_tuple_def er_gc_pop_def er_gc_reuse_def er_set_ver_def Let_def

lemma set_tl: "set (tl xs) \<subseteq> set xs"
  by (cases xs) auto

lemma er_chains_frame:
  assumes "er_chains C s" "er_vers t = er_vers s"
    "\<And>p. et_latest (er_table t p) = et_latest (er_table s p)"
    "\<And>p. et_min_cstamp (er_table t p) = et_min_cstamp (er_table s p)"
    "\<And>v. set (ex_gcq_for_version (er_txs t v)) \<subseteq> set (ex_gcq_for_version (er_txs s v))"
  shows "er_chains C t"
proof -
  have "er_prev t = er_prev s" "er_done t = er_done s" "er_cst t = er_cst s"
    using assms(2) by (simp_all add: fun_eq_iff er_prev_def er_done_def er_cst_def)
  then have "er_chain_of C t p = er_chain_of C s p" "er_queued C t e = er_queued C s e" for p e
    by (simp_all add: er_chain_of_def er_queued_def assms(3,4))
  with assms(1,5) show ?thesis by (simp add: er_chains_def) blast
qed

lemma er_gc_step_skip:
  assumes "er_chains C s" "er_vers t = er_vers s"
    "\<And>p. et_latest (er_table t p) = et_latest (er_table s p)"
    "\<And>p. et_min_cstamp (er_table t p) = et_min_cstamp (er_table s p)"
    "\<And>v. set (ex_gcq_for_version (er_txs t v)) \<subseteq> set (ex_gcq_for_version (er_txs s v))"
    "ex_reuse_version (er_txs t w) = ex_reuse_version (er_txs s w)"
  shows "er_gc_step th w C s C t"
proof -
  have "er_accepts t x = er_accepts s x" for x
    using assms(2) by (simp add: fun_eq_iff er_accepts_def er_done_def er_cst_def)
  then show ?thesis using er_chains_frame [OF assms(1-5)] assms(6) by (simp add: er_gc_step_def)
qed

lemma er_gc_step_trans:
  assumes "er_gc_step th w C s D t" "er_gc_step th w D t E u"
  shows "er_gc_step th w C s E u"
proof -
  obtain as where a: "ex_reuse_version (er_txs t w) = ex_reuse_version (er_txs s w) @ as"
      "set as = (\<Union>p. set (C p) - set (D p))"
    using assms(1) by (auto simp: er_gc_step_def)
  obtain bs where b: "ex_reuse_version (er_txs u w) = ex_reuse_version (er_txs t w) @ bs"
      "set bs = (\<Union>p. set (D p) - set (E p))"
    using assms(2) by (auto simp: er_gc_step_def)
  have sub: "set (D p) \<subseteq> set (C p)" "set (E p) \<subseteq> set (D p)" for p
    using assms by (simp_all add: er_gc_step_def)
  then have "set (C p) - set (E p) = (set (C p) - set (D p)) \<union> (set (D p) - set (E p))" for p by blast
  then have "set (as @ bs) = (\<Union>p. set (C p) - set (E p))" using a(2) b(2) by (simp add: UN_Un_distrib)
  moreover have "ex_reuse_version (er_txs u w) = ex_reuse_version (er_txs s w) @ (as @ bs)" using a(1) b(1) by simp
  moreover have "set (E p) \<subseteq> set (C p)" for p using sub by blast
  moreover have "er_chains E u" using assms(2) by (simp add: er_gc_step_def)
  moreover have "newest (er_accepts u x) (E p) = newest (er_accepts s x) (C p)" if "th \<le> x" for p x
    using assms that by (simp add: er_gc_step_def)
  ultimately show ?thesis unfolding er_gc_step_def by metis
qed

text \<open>The cut behind a queued version.\<close>

lemma er_gc_cut:
  assumes ok: "er_chains C s" and q: "er_queued C s e" and lt: "eg_cstamp e < th"
    and min: "\<not> eg_cstamp e \<le> et_min_cstamp (er_table s (eg_rcdptr e))"
    and target: "er_prev s (eg_ver e) = Some target"
  shows "\<exists>D t. er_gc_detach w e target s = Some t \<and> er_gc_step th w C s D t"
proof -
  let ?p = "eg_rcdptr e" and ?v = "eg_ver e"
  from q min have v: "?v \<in> set (C ?p)" "er_done s ?v" "er_cst s ?v = eg_cstamp e"
    by (auto simp: er_queued_def)
  then obtain pre post where C: "C ?p = pre @ ?v # post" by (auto dest: split_list)
  have ch: "chain (er_prev s) (Some (et_latest (er_table s ?p))) (pre @ ?v # post)"
    and desc: "descending (er_done s) (er_cst s) (pre @ ?v # post)"
    using ok C by (metis er_chains_def er_chain_of_def)+
  have dist: "?v \<notin> set pre" "?v \<notin> set post" "set pre \<inter> set post = {}"
    using chain_distinct [OF ch] by auto
  have post: "chain (er_prev s) (Some target) post" using chain_append [OF ch] target by simp
  define h where "h = (er_prev s)(?v := None)"
  define D where "D = C(?p := pre @ [?v])"
  define s1 where "s1 = er_set_ver ?v ((er_vers s ?v)\<lparr>ev_prev := None\<rparr>) s"
  define s2 where "s2 = er_set_tuple ?p ((er_table s1 ?p)\<lparr>et_min_cstamp := ev_cstamp (er_vers s ?v)\<rparr>) s1"
  define t where "t = er_gc_pop w (er_gc_lock ?p 0 (er_gc_reuse w post s2))"
  have h: "er_prev s2 = h"
    by (simp add: fun_eq_iff h_def s2_def s1_def er_prev_def er_gc_simps)
  have "collect (er_prev s2) (Some target) [] = Some post"
    using collect_chain [of h "Some target" post "[]"] post dist(2) by (simp add: h h_def)
  then have detach: "er_gc_detach w e target s = Some t"
    by (simp add: er_gc_detach_def Let_def t_def s2_def s1_def)
  have t: "er_prev t = h" "er_done t = er_done s" "er_cst t = er_cst s"
      "\<And>p. et_latest (er_table t p) = et_latest (er_table s p)"
      "\<And>p. et_min_cstamp (er_table t p) = (if p = ?p then eg_cstamp e else et_min_cstamp (er_table s p))"
      "\<And>u. set (ex_gcq_for_version (er_txs t u)) \<subseteq> set (ex_gcq_for_version (er_txs s u))"
      "ex_reuse_version (er_txs t w) = ex_reuse_version (er_txs s w) @ post"
    using v(3)
    by (simp_all add: t_def s2_def s1_def h_def fun_eq_iff er_prev_def er_done_def er_cst_def er_gc_simps set_tl)
  have acc: "er_accepts t x = er_accepts s x" for x
    by (simp add: fun_eq_iff er_accepts_def t)
  have off: "?v \<notin> set (C p)" if "p \<noteq> ?p" for p
    using ok v(1) that by (auto simp: er_chains_def er_apart_def)
  have "er_chain_of D t p" for p
  proof (cases "p = ?p")
    case True
    then show ?thesis
      using chain_cut [OF ch dist(1)] descending_cut [OF desc] by (simp add: er_chain_of_def D_def t h_def)
  next
    case False
    then show ?thesis using ok off [OF False] by (simp add: er_chains_def er_chain_of_def D_def t h_def)
  qed
  moreover have sub: "set (D p) \<subseteq> set (C p)" for p by (auto simp: D_def C)
  then have "er_apart D" using ok unfolding er_chains_def er_apart_def by blast
  moreover have "er_queued D t f" if "f \<in> set (ex_gcq_for_version (er_txs t u))" for u f
  proof -
    from that t(6) have "f \<in> set (ex_gcq_for_version (er_txs s u))" by blast
    then have f: "er_queued C s f" using ok by (simp add: er_chains_def)
    then have post_lt: "eg_cstamp f < eg_cstamp e" if "eg_ver f \<in> set post"
      using descending_below [OF desc v(2) _ that] v(3) by (simp add: er_queued_def)
    from f min show ?thesis
      by (cases "eg_ver f \<in> set post") (auto simp: er_queued_def t D_def C dest: post_lt)
  qed
  ultimately have "er_chains D t" by (simp add: er_chains_def)
  moreover have "newest (er_accepts t x) (D p) = newest (er_accepts s x) (C p)" if "th \<le> x" for p x
  proof (cases "p = ?p")
    case True
    have "er_accepts s x ?v" using v lt that by (simp add: er_accepts_def)
    then show ?thesis using True newest_cut [of "er_accepts s x" ?v pre post] by (simp add: acc D_def C)
  qed (simp add: acc D_def)
  moreover have "set post = (\<Union>p. set (C p) - set (D p))"
    using dist by (auto simp: D_def C split: if_splits)
  ultimately show ?thesis using detach sub t(7) unfolding er_gc_step_def by blast
qed

lemma er_gc_detach_queue:
  "er_gc_detach w e target s = Some t \<Longrightarrow> ex_gcq_for_version (er_txs t w) = tl (ex_gcq_for_version (er_txs s w))"
  by (auto simp: er_gc_detach_def er_gc_simps)

lemma er_gc_popped:
  assumes "er_chains C s" "t = er_gc_pop w s \<or> t = er_gc_pop w (er_gc_lock p x (er_gc_lock p y s)) \<or> t = er_gc_lock p x s"
  shows "er_gc_step th w C s C t"
  using assms(2) by (intro er_gc_step_skip [OF assms(1)]) (auto simp: er_gc_simps dest: set_tl [THEN subsetD] split: if_splits)

lemma er_gc_entry_step:
  assumes ok: "er_chains C s" and q: "ex_gcq_for_version (er_txs s w) = e # q" and lt: "eg_cstamp e < th"
  shows "\<exists>D t. er_gc_entry w e s = Some t \<and> er_gc_step th w C s D t \<and> ex_gcq_for_version (er_txs t w) = q"
proof -
  let ?p = "eg_rcdptr e"
  define r where "r = er_gc_lock ?p 1 s"
  have r: "er_gc_step th w C s C r" "er_chains C r" "ex_gcq_for_version (er_txs r w) = e # q"
    using er_gc_popped [OF ok, of r w ?p 1] q by (auto simp: r_def er_gc_step_def er_gc_simps)
  consider "et_gc_lock (er_table s ?p) \<noteq> 0" | "et_gc_lock (er_table s ?p) = 0" "eg_cstamp e \<le> et_min_cstamp (er_table r ?p)"
    | "et_gc_lock (er_table s ?p) = 0" "\<not> eg_cstamp e \<le> et_min_cstamp (er_table r ?p)" "er_prev r (eg_ver e) = None"
    | target where "et_gc_lock (er_table s ?p) = 0" "\<not> eg_cstamp e \<le> et_min_cstamp (er_table r ?p)"
        "er_prev r (eg_ver e) = Some target"
    by fastforce
  then show ?thesis
  proof cases
    case 1
    then have "er_gc_entry w e s = Some (er_gc_pop w s)" by (simp add: er_gc_entry_def Let_def)
    then show ?thesis using er_gc_popped [OF ok] q by (fastforce simp: er_gc_pop_def Let_def)
  next
    case 2
    then have "er_gc_entry w e s = Some (er_gc_pop w (er_gc_lock ?p 0 r))" by (simp add: er_gc_entry_def Let_def r_def)
    then show ?thesis using er_gc_popped [OF ok] q unfolding r_def by (fastforce simp: er_gc_simps)
  next
    case 3
    then have "er_gc_entry w e s = Some (er_gc_pop w (er_gc_lock ?p 0 r))" by (simp add: er_gc_entry_def Let_def r_def)
    then show ?thesis using er_gc_popped [OF ok] q unfolding r_def by (fastforce simp: er_gc_simps)
  next
    case 4
    then have "er_gc_entry w e s = er_gc_detach w e target r" by (simp add: er_gc_entry_def Let_def r_def)
    moreover have "e \<in> set (ex_gcq_for_version (er_txs r w))" using r(3) by simp
    then have "er_queued C r e" using r(2) unfolding er_chains_def by blast
    then obtain D t where "er_gc_detach w e target r = Some t" "er_gc_step th w C r D t"
      using er_gc_cut [OF r(2) _ lt] 4 by blast
    ultimately show ?thesis using er_gc_step_trans [OF r(1)] er_gc_detach_queue r(3) by fastforce
  qed
qed

lemma er_gc_loop_step:
  "er_chains C s \<Longrightarrow> ex_gcq_for_version (er_txs s w) = q \<Longrightarrow>
   \<exists>D t. er_gc_loop th w q s = Some t \<and> er_gc_step th w C s D t"
proof (induction q arbitrary: C s)
  case Nil
  then show ?case using er_gc_step_skip [of C s s w th] by auto
next
  case (Cons e q)
  show ?case
  proof (cases "th \<le> eg_cstamp e")
    case True
    then show ?thesis using Cons.prems er_gc_step_skip [of C s s w th] by auto
  next
    case False
    then obtain D t where t: "er_gc_entry w e s = Some t" "er_gc_step th w C s D t"
        "ex_gcq_for_version (er_txs t w) = q"
      using er_gc_entry_step [OF Cons.prems, of th] by (auto simp: not_le)
    then have "er_chains D t" by (simp add: er_gc_step_def)
    then obtain E u where "er_gc_loop th w q t = Some u" "er_gc_step th w D t E u"
      using Cons.IH t(3) by blast
    then show ?thesis using False t(1) er_gc_step_trans [OF t(2)] by auto
  qed
qed

end
