(* ===== verification/Ermia_Proofs.thy ===== *)
theory Ermia_Proofs
  imports Ermia_Gc
begin

text \<open>
  The invariant of the ERMIA executor while its counter stays below \<open>2 ^ 32\<close>: every record has one
  finite chain of versions, all published for it, in flight at most at the head, the stamps of the committed ones
  decreasing; a version that a worker has not published is its own; a committed version holds the initial
  value or one that a committed transaction wrote.
\<close>

definition er_st :: "er_sys \<Rightarrow> nat \<Rightarrow> er_vstatus" where "er_st s a = ev_status (er_vers s a)"

definition er_value :: "er_sys \<Rightarrow> nat \<Rightarrow> val" where "er_value s a = ev_val (er_vers s a)"

lemma er_done_st: "er_done s a \<longleftrightarrow> er_st s a = VsCommitted"
  by (simp add: er_done_def er_st_def)

section \<open>What a worker holds\<close>

text \<open>The published versions of the worker that are in flight, and its versions that are not published.\<close>

definition er_held :: "er_pc \<Rightarrow> er_tx \<Rightarrow> er_elem list" where
  "er_held pc t = (case pc of
      EWrite r k p d rest \<Rightarrow>
        (case r of
           WMark e \<Rightarrow> ex_wset t @ [\<lparr>ee_key = k, ee_rcdptr = p, ee_ver = d\<rparr>]
         | WEta e \<Rightarrow> ex_wset t @ [\<lparr>ee_key = k, ee_rcdptr = p, ee_ver = d\<rparr>]
         | _ \<Rightarrow> ex_wset t)
    | EPub es \<Rightarrow> es
    | EPubAt r e es \<Rightarrow> e # es
    | EAbort es \<Rightarrow> es
    | EAbortAt r e es \<Rightarrow> e # es
    | EError \<Rightarrow> []
    | _ \<Rightarrow> ex_wset t)"

definition er_private :: "er_pc \<Rightarrow> er_tx \<Rightarrow> nat list" where
  "er_private pc t = ex_reuse_version t @ (case pc of
      EWrite r k p d rest \<Rightarrow> (case r of WMark e \<Rightarrow> [] | WEta e \<Rightarrow> [] | _ \<Rightarrow> [d])
    | _ \<Rightarrow> [])"

definition er_commit_pc :: "er_pc \<Rightarrow> bool" where
  "er_commit_pc pc = (case pc of
      EStoreCstamp \<Rightarrow> True | EPi rs \<Rightarrow> True | EEta es \<Rightarrow> True | EEtaAt r es \<Rightarrow> True | EWait r k \<Rightarrow> True
    | ECheck \<Rightarrow> True | EStoreSstamp \<Rightarrow> True | EStoreCommitted \<Rightarrow> True | EUpdateEta rs \<Rightarrow> True
    | EUpdateBit r rs \<Rightarrow> True | EPub es \<Rightarrow> True | EPubAt r e es \<Rightarrow> True | _ \<Rightarrow> False)"

definition er_done_pc :: "er_pc \<Rightarrow> bool" where
  "er_done_pc pc = (case pc of
      EStoreSstamp \<Rightarrow> True | EStoreCommitted \<Rightarrow> True | EUpdateEta rs \<Rightarrow> True
    | EUpdateBit r rs \<Rightarrow> True | EPub es \<Rightarrow> True | EPubAt r e es \<Rightarrow> True | _ \<Rightarrow> False)"

section \<open>What holds of one worker\<close>

text \<open>A value that the record had initially or that one of the transactions wrote.\<close>

definition er_good :: "er_config \<Rightarrow> db \<Rightarrow> txrec set \<Rightarrow> key \<Rightarrow> val \<Rightarrow> bool" where
  "er_good c d R k v \<longleftrightarrow> v = d k \<or>
     (\<exists>r \<in> R. \<exists>f. (k, f) \<in> set (tx_writes r) \<and> (\<forall>old. length old = er_val_size c \<longrightarrow> f old = v))"

definition er_holding :: "er_sys \<Rightarrow> nat \<Rightarrow> bool" where
  "er_holding s w \<longleftrightarrow>
     (\<forall>e \<in> set (er_held (er_pcs s w) (er_txs s w)).
        er_pub s (ee_ver e) = Some (ee_rcdptr e) \<and> er_st s (ee_ver e) = VsInFlight \<and> er_owner s (ee_ver e) = w \<and>
        ee_rcdptr e = ee_key e) \<and>
     distinct (map ee_ver (er_held (er_pcs s w) (er_txs s w)))"

definition er_hiding :: "er_sys \<Rightarrow> nat \<Rightarrow> bool" where
  "er_hiding s w \<longleftrightarrow>
     (\<forall>a \<in> set (er_private (er_pcs s w) (er_txs s w)). er_pub s a = None \<and> er_owner s a = w \<and> a < er_next s) \<and>
     distinct (er_private (er_pcs s w) (er_txs s w))"

definition er_settled :: "er_sys \<Rightarrow> key \<Rightarrow> nat \<Rightarrow> bool" where
  "er_settled s p a \<longleftrightarrow> er_pub s a = Some p \<and> er_st s a \<noteq> VsInFlight"

definition er_writing :: "er_sys \<Rightarrow> nat \<Rightarrow> bool" where
  "er_writing s w \<longleftrightarrow> (\<forall>e \<in> set (ex_rset (er_txs s w)). ee_rcdptr e = ee_key e) \<and>
     (case er_pcs s w of
        EWriteDown k e rest \<Rightarrow> ee_rcdptr e = k
      | EWriteNew k p rest \<Rightarrow> p = k
      | EWrite r k p d rest \<Rightarrow> p = k \<and>
          (case r of WMark e \<Rightarrow> True | WEta e \<Rightarrow> True | _ \<Rightarrow> er_st s d = VsInFlight) \<and>
          (case r of
             WStatus e \<Rightarrow> er_pub s e = Some p
           | WWalk e v \<Rightarrow> er_settled s p e
           | WCheck e v \<Rightarrow> er_settled s p e
           | WCas e \<Rightarrow> er_settled s p e \<and> er_prev s d = Some e
           | _ \<Rightarrow> True)
      | _ \<Rightarrow> True)"

definition er_reading :: "er_sys \<Rightarrow> nat \<Rightarrow> bool" where
  "er_reading s w \<longleftrightarrow> (case er_pcs s w of
      ERead r k a rest \<Rightarrow> er_pub s a = Some k \<and> (r \<noteq> RStatus \<longrightarrow> er_st s a = VsCommitted)
    | _ \<Rightarrow> True)"

definition er_stamped :: "er_sys \<Rightarrow> nat \<Rightarrow> bool" where
  "er_stamped s w \<longleftrightarrow> (er_commit_pc (er_pcs s w) \<longrightarrow>
     (\<forall>e \<in> set (er_held (er_pcs s w) (er_txs s w)). \<forall>b. er_pub s b = Some (ee_rcdptr e) \<longrightarrow>
        er_st s b = VsCommitted \<longrightarrow> er_cst s b < ex_cstamp (er_txs s w)))"

definition er_copying :: "er_sys \<Rightarrow> nat \<Rightarrow> bool" where
  "er_copying s w \<longleftrightarrow> (case er_pcs s w of
      EPubAt r e es \<Rightarrow>
        (r \<in> {PPstamp, PInfinity, PVal, PStatus} \<longrightarrow> er_cst s (ee_ver e) = ex_cstamp (er_txs s w)) \<and>
        (r = PStatus \<longrightarrow> er_value s (ee_ver e) = ex_write_val (er_txs s w))
    | _ \<Rightarrow> True)"

definition er_recorded :: "er_config \<Rightarrow> db \<Rightarrow> er_sys \<Rightarrow> nat \<Rightarrow> bool" where
  "er_recorded c d s w \<longleftrightarrow> (er_done_pc (er_pcs s w) \<longrightarrow>
     (\<forall>e \<in> set (er_held (er_pcs s w) (er_txs s w)). er_good c d (set (er_com s)) (ee_key e) (ex_write_val (er_txs s w))))"

definition er_local :: "er_config \<Rightarrow> db \<Rightarrow> er_sys \<Rightarrow> nat \<Rightarrow> bool" where
  "er_local c d s w \<longleftrightarrow> er_holding s w \<and> er_hiding s w \<and> er_writing s w \<and> er_reading s w \<and> er_stamped s w \<and>
     er_copying s w \<and> er_recorded c d s w"

section \<open>What holds of the memory\<close>

definition er_heap :: "(key \<Rightarrow> nat list) \<Rightarrow> er_sys \<Rightarrow> bool" where
  "er_heap C s \<longleftrightarrow>
     (\<forall>p. chain (er_prev s) (Some (et_latest (er_table s p))) (C p)) \<and>
     (\<forall>p a. a \<in> set (C p) \<longleftrightarrow> er_pub s a = Some p) \<and>
     (\<forall>p. \<forall>a \<in> set (tl (C p)). er_st s a \<noteq> VsInFlight) \<and>
     (\<forall>p. descending (er_done s) (er_cst s) (C p)) \<and>
     (\<forall>a. er_pub s a \<noteq> None \<longrightarrow> a < er_next s)"

definition er_stamps :: "er_sys \<Rightarrow> bool" where
  "er_stamps s \<longleftrightarrow> er_Lsn s < 2 ^ 32 \<and> (\<forall>w. ex_cstamp (er_txs s w) \<le> ucast (er_Lsn s)) \<and>
     (\<forall>a. er_pub s a \<noteq> None \<longrightarrow> er_st s a = VsCommitted \<longrightarrow> er_cst s a \<le> ucast (er_Lsn s))"

definition er_queues :: "er_sys \<Rightarrow> bool" where
  "er_queues s \<longleftrightarrow> (\<forall>w. \<forall>e \<in> set (ex_gcq_for_version (er_txs s w)).
     er_pub s (eg_ver e) = Some (eg_rcdptr e) \<and> er_st s (eg_ver e) = VsCommitted \<and> er_cst s (eg_ver e) = eg_cstamp e)"

definition er_values :: "er_config \<Rightarrow> db \<Rightarrow> er_sys \<Rightarrow> bool" where
  "er_values c d s \<longleftrightarrow> (\<forall>a. length (er_value s a) = er_val_size c) \<and>
     (\<forall>w. length (ex_write_val (er_txs s w)) = er_val_size c) \<and>
     (\<forall>a p. er_pub s a = Some p \<longrightarrow> er_st s a = VsCommitted \<longrightarrow> er_good c d (set (er_com s)) p (er_value s a))"

definition er_reads_good :: "er_config \<Rightarrow> db \<Rightarrow> er_sys \<Rightarrow> bool" where
  "er_reads_good c d s \<longleftrightarrow>
     (\<forall>w k v. (k, v) \<in> set (er_vals s w) \<longrightarrow> er_good c d (set (er_com s)) k v) \<and>
     (\<forall>i < length (er_com s). \<forall>k v. (k, v) \<in> set (tx_reads (er_com s ! i)) \<longrightarrow> er_good c d (set (take i (er_com s))) k v)"

definition er_global :: "er_config \<Rightarrow> db \<Rightarrow> er_sys \<Rightarrow> bool" where
  "er_global c d s \<longleftrightarrow> (\<exists>C. er_heap C s) \<and> er_stamps s \<and> er_queues s \<and> er_values c d s \<and> er_reads_good c d s"

definition er_inv :: "er_config \<Rightarrow> db \<Rightarrow> er_sys \<Rightarrow> bool" where
  "er_inv c d s \<longleftrightarrow> er_global c d s \<and> (\<forall>w. er_local c d s w)"

section \<open>What the other workers see of a step\<close>

definition er_env :: "nat \<Rightarrow> er_sys \<Rightarrow> er_sys \<Rightarrow> bool" where
  "er_env w s t \<longleftrightarrow>
     (\<forall>v. v \<noteq> w \<longrightarrow> er_txs t v = er_txs s v \<and> er_pcs t v = er_pcs s v \<and> er_vals t v = er_vals s v) \<and>
     er_next s \<le> er_next t \<and> set (er_com s) \<subseteq> set (er_com t) \<and>
     (\<forall>a. er_owner s a \<noteq> w \<and> a < er_next s \<longrightarrow> er_owner t a = er_owner s a \<and> er_pub t a = er_pub s a \<and>
        er_st t a = er_st s a \<and> er_prev t a = er_prev s a \<and> er_cst t a = er_cst s a \<and> er_value t a = er_value s a) \<and>
     (\<forall>a p. er_pub s a = Some p \<longrightarrow> er_pub t a = Some p \<and>
        (er_st s a \<noteq> VsInFlight \<longrightarrow> er_st t a = er_st s a \<and> er_cst t a = er_cst s a)) \<and>
     (\<forall>a p. er_pub t a = Some p \<longrightarrow> er_st t a = VsCommitted \<longrightarrow> er_pub s a = Some p \<and>
        (er_st s a \<noteq> VsCommitted \<longrightarrow> er_st s a = VsInFlight \<and> er_owner s a = w))"

lemma er_heapD:
  assumes "er_heap C s"
  shows "chain (er_prev s) (Some (et_latest (er_table s p))) (C p)" "a \<in> set (C p) \<longleftrightarrow> er_pub s a = Some p"
    "a \<in> set (tl (C p)) \<Longrightarrow> er_st s a \<noteq> VsInFlight" "descending (er_done s) (er_cst s) (C p)"
    "er_pub s a \<noteq> None \<Longrightarrow> a < er_next s"
  using assms unfolding er_heap_def by blast+

lemma er_good_mono: "er_good c d R k v \<Longrightarrow> R \<subseteq> S \<Longrightarrow> er_good c d S k v"
  by (auto simp: er_good_def)

text \<open>Two versions in flight on one chain are the same.\<close>

lemma er_heap_flight:
  assumes "er_heap C s" "er_pub s a = Some p" "er_pub s b = Some p" "er_st s a = VsInFlight" "er_st s b = VsInFlight"
  shows "a = b"
proof -
  have "a \<in> set (C p)" "b \<in> set (C p)" "a \<notin> set (tl (C p))" "b \<notin> set (tl (C p))"
    using assms by (auto simp: er_heap_def)
  then show ?thesis by (cases "C p") auto
qed

lemma er_env_same:
  assumes "er_env w s t" "v \<noteq> w"
  shows "er_txs t v = er_txs s v" "er_pcs t v = er_pcs s v" "er_vals t v = er_vals s v"
  using assms unfolding er_env_def by blast+

lemma er_env_grow:
  assumes "er_env w s t"
  shows "er_next s \<le> er_next t" "set (er_com s) \<subseteq> set (er_com t)"
  using assms unfolding er_env_def by blast+

lemma er_env_own:
  assumes "er_env w s t" "er_owner s a \<noteq> w" "a < er_next s"
  shows "er_owner t a = er_owner s a" "er_pub t a = er_pub s a" "er_st t a = er_st s a" "er_prev t a = er_prev s a"
    "er_cst t a = er_cst s a" "er_value t a = er_value s a"
  using assms unfolding er_env_def by blast+

lemma er_env_pub: "er_env w s t \<Longrightarrow> er_pub s a = Some p \<Longrightarrow> er_pub t a = Some p"
  unfolding er_env_def by blast

lemma er_env_fixed:
  assumes "er_env w s t" "er_pub s a = Some p" "er_st s a \<noteq> VsInFlight"
  shows "er_st t a = er_st s a" "er_cst t a = er_cst s a"
  using assms unfolding er_env_def by blast+

lemma er_env_new:
  assumes "er_env w s t" "er_pub t a = Some p" "er_st t a = VsCommitted"
  shows "er_pub s a = Some p" "er_st s a = VsCommitted \<or> er_st s a = VsInFlight \<and> er_owner s a = w"
  using assms unfolding er_env_def by blast+

lemma er_heap_next: "er_heap C s \<Longrightarrow> er_pub s a = Some p \<Longrightarrow> a < er_next s"
  unfolding er_heap_def by blast

lemma er_heldD:
  assumes "er_holding s w" "e \<in> set (er_held (er_pcs s w) (er_txs s w))"
  shows "er_pub s (ee_ver e) = Some (ee_rcdptr e)" "er_st s (ee_ver e) = VsInFlight" "er_owner s (ee_ver e) = w"
    "ee_rcdptr e = ee_key e"
  using assms unfolding er_holding_def by blast+

lemma er_hiddenD:
  assumes "er_hiding s w" "a \<in> set (er_private (er_pcs s w) (er_txs s w))"
  shows "er_pub s a = None" "er_owner s a = w" "a < er_next s"
  using assms unfolding er_hiding_def by blast+

section \<open>A worker keeps its part of the invariant while the others move\<close>

lemma er_env_holding:
  assumes env: "er_env w s t" and v: "v \<noteq> w" and "er_heap C s" "er_holding s v"
  shows "er_holding t v"
  using assms(3,4) unfolding er_holding_def er_env_same [OF env v]
  using er_env_own [OF env] er_heap_next v by metis

lemma er_env_hiding:
  assumes env: "er_env w s t" and v: "v \<noteq> w" and "er_hiding s v"
  shows "er_hiding t v"
  using assms(3) unfolding er_hiding_def er_env_same [OF env v]
  using er_env_own [OF env] er_env_grow(1) [OF env] v by (metis order.strict_trans2)

lemma er_env_settled: "er_env w s t \<Longrightarrow> er_settled s p a \<Longrightarrow> er_settled t p a"
  unfolding er_settled_def using er_env_pub er_env_fixed by metis

lemma er_env_writing:
  assumes env: "er_env w s t" and v: "v \<noteq> w" and hide: "er_hiding s v" and wr: "er_writing s v"
  shows "er_writing t v"
proof -
  have prev: "er_prev t a = er_prev s a \<and> er_st t a = er_st s a" if "a \<in> set (er_private (er_pcs s v) (er_txs s v))" for a
    using er_hiddenD [OF hide that] er_env_own(3,4) [OF env, of a] v by simp
  show ?thesis
    using wr prev
    by (auto simp: er_writing_def er_env_same [OF env v] er_private_def split: er_pc.splits er_wpc.splits
        intro: er_env_settled [OF env] er_env_pub [OF env])
qed

lemma er_env_reading:
  assumes env: "er_env w s t" and v: "v \<noteq> w" and "er_reading s v"
  shows "er_reading t v"
  using assms(3) by (auto simp: er_reading_def er_env_same [OF env v] er_env_pub [OF env] er_env_fixed [OF env] split: er_pc.splits)

lemma er_env_stamped:
  assumes env: "er_env w s t" and v: "v \<noteq> w" and heap: "er_heap C s" and hold: "er_holding s v" and st: "er_stamped s v"
  shows "er_stamped t v"
  unfolding er_stamped_def er_env_same [OF env v]
proof (intro impI ballI allI)
  fix e b
  assume a: "er_commit_pc (er_pcs s v)" "e \<in> set (er_held (er_pcs s v) (er_txs s v))"
    "er_pub t b = Some (ee_rcdptr e)" "er_st t b = VsCommitted"
  note e = er_heldD [OF hold a(2)]
  have b: "er_st s b = VsCommitted"
  proof (rule ccontr)
    assume "\<not> ?thesis"
    then have b: "er_st s b = VsInFlight" "er_owner s b = w" using er_env_new [OF env a(3,4)] by blast+
    then have "b = ee_ver e" using er_heap_flight [OF heap er_env_new(1) [OF env a(3,4)] e(1) _ e(2)] by simp
    with b(2) e(3) v show False by simp
  qed
  show "er_cst t b < ex_cstamp (er_txs s v)"
    using st a(1,2) b er_env_new(1) [OF env a(3,4)] er_env_fixed(2) [OF env, of b] by (simp add: er_stamped_def)
qed

lemma er_env_copying:
  assumes env: "er_env w s t" and v: "v \<noteq> w" and heap: "er_heap C s" and hold: "er_holding s v" and cp: "er_copying s v"
  shows "er_copying t v"
proof -
  have "er_cst t (ee_ver e) = er_cst s (ee_ver e)" "er_value t (ee_ver e) = er_value s (ee_ver e)"
    if "e \<in> set (er_held (er_pcs s v) (er_txs s v))" for e
    using er_env_own(5,6) [OF env, of "ee_ver e"] er_heldD [OF hold that] er_heap_next [OF heap] v by simp_all
  then show ?thesis
    using cp by (simp add: er_copying_def er_env_same [OF env v] er_held_def split: er_pc.splits)
qed

lemma er_env_recorded:
  assumes env: "er_env w s t" and v: "v \<noteq> w" and "er_recorded c d s v"
  shows "er_recorded c d t v"
  using assms(3) er_env_grow(2) [OF env] by (auto simp: er_recorded_def er_env_same [OF env v] intro: er_good_mono)

lemma er_env_local:
  assumes "er_env w s t" "v \<noteq> w" "er_heap C s" "er_local c d s v"
  shows "er_local c d t v"
  using assms(4) er_env_holding [OF assms(1-3)] er_env_hiding [OF assms(1,2)] er_env_writing [OF assms(1,2)]
    er_env_reading [OF assms(1,2)] er_env_stamped [OF assms(1-3)] er_env_copying [OF assms(1-3)]
    er_env_recorded [OF assms(1,2)]
  unfolding er_local_def by blast

section \<open>The frame of a step\<close>


text \<open>
  Steps that change no field of a version that the invariant speaks of: they keep the memory part, and the
  part of the worker when it holds the same versions.
\<close>

section \<open>Fields of a version through the updates\<close>

lemma er_prev_upd [simp]:
  "er_prev (s\<lparr>er_txs := x1\<rparr>) = er_prev s" "er_prev (s\<lparr>er_pcs := x2\<rparr>) = er_prev s"
  "er_prev (s\<lparr>er_tmts := x3\<rparr>) = er_prev s" "er_prev (s\<lparr>er_TMT := x4\<rparr>) = er_prev s"
  "er_prev (s\<lparr>er_tmt_next := x5\<rparr>) = er_prev s" "er_prev (s\<lparr>er_Lsn := x6\<rparr>) = er_prev s"
  "er_prev (s\<lparr>er_vals := x7\<rparr>) = er_prev s" "er_prev (s\<lparr>er_com := x8\<rparr>) = er_prev s"
  "er_prev (s\<lparr>er_table := x9\<rparr>) = er_prev s" "er_prev (s\<lparr>er_pub := y1\<rparr>) = er_prev s"
  "er_prev (s\<lparr>er_owner := y2\<rparr>) = er_prev s" "er_prev (s\<lparr>er_next := y3\<rparr>) = er_prev s"
  "er_prev (s\<lparr>er_gcob := y4\<rparr>) = er_prev s" "er_prev (s\<lparr>er_GC_threshold := y5\<rparr>) = er_prev s"
  "er_prev (s\<lparr>er_quit := y6\<rparr>) = er_prev s"
  "er_prev (s\<lparr>er_vers := g(a := v)\<rparr>) = (\<lambda>b. ev_prev (g b))(a := ev_prev v)"
  "(\<lambda>b. ev_prev (er_vers s b)) = er_prev s" "(er_prev s)(a := ev_prev (er_vers s a)) = er_prev s"
  by (auto simp: er_prev_def fun_eq_iff)

lemma er_st_upd [simp]:
  "er_st (s\<lparr>er_txs := x1\<rparr>) = er_st s" "er_st (s\<lparr>er_pcs := x2\<rparr>) = er_st s"
  "er_st (s\<lparr>er_tmts := x3\<rparr>) = er_st s" "er_st (s\<lparr>er_TMT := x4\<rparr>) = er_st s"
  "er_st (s\<lparr>er_tmt_next := x5\<rparr>) = er_st s" "er_st (s\<lparr>er_Lsn := x6\<rparr>) = er_st s"
  "er_st (s\<lparr>er_vals := x7\<rparr>) = er_st s" "er_st (s\<lparr>er_com := x8\<rparr>) = er_st s"
  "er_st (s\<lparr>er_table := x9\<rparr>) = er_st s" "er_st (s\<lparr>er_pub := y1\<rparr>) = er_st s"
  "er_st (s\<lparr>er_owner := y2\<rparr>) = er_st s" "er_st (s\<lparr>er_next := y3\<rparr>) = er_st s"
  "er_st (s\<lparr>er_gcob := y4\<rparr>) = er_st s" "er_st (s\<lparr>er_GC_threshold := y5\<rparr>) = er_st s"
  "er_st (s\<lparr>er_quit := y6\<rparr>) = er_st s"
  "er_st (s\<lparr>er_vers := g(a := v)\<rparr>) = (\<lambda>b. ev_status (g b))(a := ev_status v)"
  "(\<lambda>b. ev_status (er_vers s b)) = er_st s" "(er_st s)(a := ev_status (er_vers s a)) = er_st s"
  by (auto simp: er_st_def fun_eq_iff)

lemma er_cst_upd [simp]:
  "er_cst (s\<lparr>er_txs := x1\<rparr>) = er_cst s" "er_cst (s\<lparr>er_pcs := x2\<rparr>) = er_cst s"
  "er_cst (s\<lparr>er_tmts := x3\<rparr>) = er_cst s" "er_cst (s\<lparr>er_TMT := x4\<rparr>) = er_cst s"
  "er_cst (s\<lparr>er_tmt_next := x5\<rparr>) = er_cst s" "er_cst (s\<lparr>er_Lsn := x6\<rparr>) = er_cst s"
  "er_cst (s\<lparr>er_vals := x7\<rparr>) = er_cst s" "er_cst (s\<lparr>er_com := x8\<rparr>) = er_cst s"
  "er_cst (s\<lparr>er_table := x9\<rparr>) = er_cst s" "er_cst (s\<lparr>er_pub := y1\<rparr>) = er_cst s"
  "er_cst (s\<lparr>er_owner := y2\<rparr>) = er_cst s" "er_cst (s\<lparr>er_next := y3\<rparr>) = er_cst s"
  "er_cst (s\<lparr>er_gcob := y4\<rparr>) = er_cst s" "er_cst (s\<lparr>er_GC_threshold := y5\<rparr>) = er_cst s"
  "er_cst (s\<lparr>er_quit := y6\<rparr>) = er_cst s"
  "er_cst (s\<lparr>er_vers := g(a := v)\<rparr>) = (\<lambda>b. ev_cstamp (g b))(a := ev_cstamp v)"
  "(\<lambda>b. ev_cstamp (er_vers s b)) = er_cst s" "(er_cst s)(a := ev_cstamp (er_vers s a)) = er_cst s"
  by (auto simp: er_cst_def fun_eq_iff)

lemma er_value_upd [simp]:
  "er_value (s\<lparr>er_txs := x1\<rparr>) = er_value s" "er_value (s\<lparr>er_pcs := x2\<rparr>) = er_value s"
  "er_value (s\<lparr>er_tmts := x3\<rparr>) = er_value s" "er_value (s\<lparr>er_TMT := x4\<rparr>) = er_value s"
  "er_value (s\<lparr>er_tmt_next := x5\<rparr>) = er_value s" "er_value (s\<lparr>er_Lsn := x6\<rparr>) = er_value s"
  "er_value (s\<lparr>er_vals := x7\<rparr>) = er_value s" "er_value (s\<lparr>er_com := x8\<rparr>) = er_value s"
  "er_value (s\<lparr>er_table := x9\<rparr>) = er_value s" "er_value (s\<lparr>er_pub := y1\<rparr>) = er_value s"
  "er_value (s\<lparr>er_owner := y2\<rparr>) = er_value s" "er_value (s\<lparr>er_next := y3\<rparr>) = er_value s"
  "er_value (s\<lparr>er_gcob := y4\<rparr>) = er_value s" "er_value (s\<lparr>er_GC_threshold := y5\<rparr>) = er_value s"
  "er_value (s\<lparr>er_quit := y6\<rparr>) = er_value s"
  "er_value (s\<lparr>er_vers := g(a := v)\<rparr>) = (\<lambda>b. ev_val (g b))(a := ev_val v)"
  "(\<lambda>b. ev_val (er_vers s b)) = er_value s" "(er_value s)(a := ev_val (er_vers s a)) = er_value s"
  by (auto simp: er_value_def fun_eq_iff)

lemmas er_prims = er_upd_def er_goto_def er_set_ver_def er_set_tmt_def er_tell_def er_follow_def er_sstamp_to_def
  er_up_def er_down_def Let_def

section \<open>Quiet steps\<close>

definition er_quiet :: "er_config \<Rightarrow> db \<Rightarrow> nat \<Rightarrow> er_sys \<Rightarrow> er_sys \<Rightarrow> bool" where
  "er_quiet c d w s t \<longleftrightarrow>
     (\<forall>v. v \<noteq> w \<longrightarrow> er_txs t v = er_txs s v \<and> er_pcs t v = er_pcs s v \<and> er_vals t v = er_vals s v) \<and>
     er_pub t = er_pub s \<and> er_owner t = er_owner s \<and> er_next t = er_next s \<and> er_com t = er_com s \<and> er_Lsn t = er_Lsn s \<and>
     er_table t = er_table s \<and> er_prev t = er_prev s \<and> er_st t = er_st s \<and> er_cst t = er_cst s \<and> er_value t = er_value s \<and>
     ex_cstamp (er_txs t w) = ex_cstamp (er_txs s w) \<and> ex_write_val (er_txs t w) = ex_write_val (er_txs s w) \<and>
     ex_gcq_for_version (er_txs t w) = ex_gcq_for_version (er_txs s w) \<and>
     (\<forall>k v. (k, v) \<in> set (er_vals t w) \<longrightarrow> (k, v) \<in> set (er_vals s w) \<or> er_good c d (set (er_com s)) k v)"

lemma er_quiet_eqs:
  assumes "er_quiet c d w s t"
  shows "er_pub t = er_pub s" "er_owner t = er_owner s" "er_next t = er_next s" "er_com t = er_com s" "er_Lsn t = er_Lsn s"
    "er_table t = er_table s" "er_prev t = er_prev s" "er_st t = er_st s" "er_cst t = er_cst s" "er_value t = er_value s"
    "ex_cstamp (er_txs t v) = ex_cstamp (er_txs s v)" "ex_write_val (er_txs t v) = ex_write_val (er_txs s v)"
    "ex_gcq_for_version (er_txs t v) = ex_gcq_for_version (er_txs s v)"
  using assms by (cases "v = w"; simp add: er_quiet_def)+

lemma er_quiet_env:
  assumes "er_quiet c d w s t"
  shows "er_env w s t"
  using assms by (simp add: er_env_def er_quiet_eqs [OF assms]) (simp add: er_quiet_def)

lemma er_quiet_global:
  assumes q: "er_quiet c d w s t" and g: "er_global c d s"
  shows "er_global c d t"
proof -
  note e = er_quiet_eqs [OF q]
  have don: "er_done t = er_done s" by (simp add: fun_eq_iff er_done_st e)
  have "er_good c d (set (er_com s)) k x" if "(k, x) \<in> set (er_vals t v)" for k x v
  proof (cases "v = w")
    case True
    with that q have "(k, x) \<in> set (er_vals s w) \<or> ?thesis" unfolding er_quiet_def by blast
    with g show ?thesis unfolding er_global_def er_reads_good_def by blast
  next
    case False
    then have "er_vals t v = er_vals s v" using q by (simp add: er_quiet_def)
    with that g show ?thesis unfolding er_global_def er_reads_good_def by simp
  qed
  then have "er_reads_good c d t" using g unfolding er_global_def er_reads_good_def e by blast
  then show ?thesis
    using g by (simp add: er_global_def er_heap_def er_stamps_def er_queues_def er_values_def e don)
qed

lemma er_quiet_local:
  assumes q: "er_quiet c d w s t" and l: "er_local c d s w"
    and held: "er_held (er_pcs t w) (er_txs t w) = er_held (er_pcs s w) (er_txs s w) \<or> er_held (er_pcs t w) (er_txs t w) = []"
    and priv: "\<exists>ys. er_private (er_pcs s w) (er_txs s w) = er_private (er_pcs t w) (er_txs t w) @ ys"
    and flags: "er_commit_pc (er_pcs t w) \<Longrightarrow> er_commit_pc (er_pcs s w)" "er_done_pc (er_pcs t w) \<Longrightarrow> er_done_pc (er_pcs s w)"
    and "er_writing t w" "er_reading t w" "er_copying t w"
  shows "er_local c d t w"
proof -
  note e = er_quiet_eqs [OF q]
  have "er_holding t w" "er_stamped t w" "er_recorded c d t w"
    using l held flags by (auto simp: er_local_def er_holding_def er_stamped_def er_recorded_def e)
  moreover have "er_hiding t w" using l priv by (auto simp: er_local_def er_hiding_def e)
  ultimately show ?thesis using assms(7-9) by (simp add: er_local_def)
qed

lemma er_quiet_inv: "er_quiet c d w s t \<Longrightarrow> er_inv c d s \<Longrightarrow> er_local c d t w \<Longrightarrow> er_inv c d t"
  unfolding er_inv_def
  using er_quiet_global er_env_local [OF er_quiet_env] by (metis er_global_def)

lemma er_env_inv:
  assumes "er_env w s t" "er_inv c d s" "er_global c d t" "er_local c d t w"
  shows "er_inv c d t"
  using assms er_env_local [OF assms(1)] unfolding er_inv_def by (metis er_global_def)

end
