(* ===== verification/Ermia_Steps.thy ===== *)
theory Ermia_Steps
  imports Ermia_Proofs
begin

text \<open>
  The steps that keep the memory part of the invariant and what the worker holds, operation by operation.
\<close>

lemma er_quietI:
  assumes inv: "er_inv c d s" and q: "er_quiet c d w s t"
    and "er_held (er_pcs t w) (er_txs t w) = er_held (er_pcs s w) (er_txs s w) \<or> er_held (er_pcs t w) (er_txs t w) = []"
    and "\<exists>ys. er_private (er_pcs s w) (er_txs s w) = er_private (er_pcs t w) (er_txs t w) @ ys"
    and "\<not> er_commit_pc (er_pcs t w) \<or> er_commit_pc (er_pcs s w)" "\<not> er_done_pc (er_pcs t w) \<or> er_done_pc (er_pcs s w)"
    and "er_writing t w" "er_reading t w" "er_copying t w"
  shows "er_inv c d t"
proof (rule er_quiet_inv [OF q inv], rule er_quiet_local [OF q])
  show "er_local c d s w" using inv by (simp add: er_inv_def)
qed (use assms(3-9) in blast)+

lemma er_inv_local:
  assumes "er_inv c d s"
  shows "er_holding s w" "er_hiding s w" "er_writing s w" "er_reading s w" "er_stamped s w" "er_copying s w"
    "er_recorded c d s w"
  using assms by (simp_all add: er_inv_def er_local_def)

lemma er_heap_prev:
  assumes "er_heap C s" "er_pub s a = Some k" "er_prev s a = Some b"
  shows "er_pub s b = Some k"
proof -
  have ch: "chain (er_prev s) (Some (et_latest (er_table s k))) (C k)" and "a \<in> set (C k)"
    using assms(1,2) by (auto simp: er_heap_def)
  then obtain xs ys where "C k = xs @ a # ys" by (auto dest: split_list)
  then have "b \<in> set (C k)" using chain_append [of "er_prev s" "Some (et_latest (er_table s k))" xs a ys] ch assms(3)
    by (auto simp: chain_Some)
  then show ?thesis using assms(1) unfolding er_heap_def by blast
qed

lemma er_inv_heap: "er_inv c d s \<Longrightarrow> \<exists>C. er_heap C s"
  by (simp add: er_inv_def er_global_def)

lemma er_inv_prev: "er_inv c d s \<Longrightarrow> er_pub s a = Some k \<Longrightarrow> er_prev s a = Some b \<Longrightarrow> er_pub s b = Some k"
  using er_inv_heap er_heap_prev by blast

lemma er_inv_latest: "er_inv c d s \<Longrightarrow> er_pub s (et_latest (er_table s k)) = Some k"
proof -
  assume "er_inv c d s"
  then obtain C where C: "er_heap C s" using er_inv_heap by blast
  then have "chain (er_prev s) (Some (et_latest (er_table s k))) (C k)" by (simp add: er_heap_def)
  then have "et_latest (er_table s k) \<in> set (C k)" by (auto simp: chain_Some)
  with C show ?thesis unfolding er_heap_def by blast
qed

lemma er_inv_good:
  "er_inv c d s \<Longrightarrow> er_pub s a = Some k \<Longrightarrow> er_st s a = VsCommitted \<Longrightarrow> er_good c d (set (er_com s)) k (er_value s a)"
  by (simp add: er_inv_def er_global_def er_values_def)

lemma er_fields:
  "ev_status (er_vers s a) = er_st s a" "ev_prev (er_vers s a) = er_prev s a" "ev_cstamp (er_vers s a) = er_cst s a"
  "ev_val (er_vers s a) = er_value s a"
  by (simp_all add: er_st_def er_prev_def er_cst_def er_value_def)

lemmas er_pc_simps = er_quiet_def er_writing_def er_reading_def er_copying_def er_held_def er_private_def
  er_commit_pc_def er_done_pc_def er_settled_def er_prims er_fields

lemma er_make_inv:
  assumes inv: "er_inv c d s" and pc: "er_pcs s w = EMake"
  shows "er_inv c d ((if er_quit s then er_goto w EStop s else er_upd w ((er_txs s w)\<lparr>ex_pro := pro\<rparr>) ERetry s))"
  by (rule er_quietI [OF inv, where w = w]; use er_inv_local(3,4,6) [OF inv, of w] pc in
    \<open>auto simp: er_pc_simps  er_inv_latest [OF inv] dest: search_set_Some er_inv_prev [OF inv] er_inv_good [OF inv]
      split: option.split list.split er_wait.split er_vpc.split er_epc.split if_split if_split_asm\<close>)

lemma er_retry_inv:
  assumes inv: "er_inv c d s" and pc: "er_pcs s w = ERetry"
  shows "er_inv c d (er_goto w (if w = 0 then ELeadPtr 0 (- 1) 0 else EQuit) s)"
  by (rule er_quietI [OF inv, where w = w]; use er_inv_local(3,4,6) [OF inv, of w] pc in
    \<open>auto simp: er_pc_simps  er_inv_latest [OF inv] dest: search_set_Some er_inv_prev [OF inv] er_inv_good [OF inv]
      split: option.split list.split er_wait.split er_vpc.split er_epc.split if_split if_split_asm\<close>)

lemma er_leader_ptr_inv:
  assumes inv: "er_inv c d s" and pc: "er_pcs s w = ELeadPtr i smin smax"
  shows "er_inv c d (er_leader_ptr cc w i smin smax s)"
  by (rule er_quietI [OF inv, where w = w]; use er_inv_local(3,4,6) [OF inv, of w] pc in
    \<open>auto simp: er_pc_simps er_leader_ptr_def er_leader_end_def er_inv_latest [OF inv] dest: search_set_Some er_inv_prev [OF inv] er_inv_good [OF inv]
      split: option.split list.split er_wait.split er_vpc.split er_epc.split if_split if_split_asm\<close>)

lemma er_leader_val_inv:
  assumes inv: "er_inv c d s" and pc: "er_pcs s w = ELeadVal i a smin smax"
  shows "er_inv c d (er_leader_val w i a smin smax s)"
  by (rule er_quietI [OF inv, where w = w]; use er_inv_local(3,4,6) [OF inv, of w] pc in
    \<open>auto simp: er_pc_simps er_leader_val_def er_inv_latest [OF inv] dest: search_set_Some er_inv_prev [OF inv] er_inv_good [OF inv]
      split: option.split list.split er_wait.split er_vpc.split er_epc.split if_split if_split_asm\<close>)

lemma er_quitting_inv:
  assumes inv: "er_inv c d s" and pc: "er_pcs s w = EQuit"
  shows "er_inv c d (er_goto w (if er_quit s then EStop else EBegin) s)"
  by (rule er_quietI [OF inv, where w = w]; use er_inv_local(3,4,6) [OF inv, of w] pc in
    \<open>auto simp: er_pc_simps  er_inv_latest [OF inv] dest: search_set_Some er_inv_prev [OF inv] er_inv_good [OF inv]
      split: option.split list.split er_wait.split er_vpc.split er_epc.split if_split if_split_asm\<close>)

lemma er_tbegin_inv:
  assumes inv: "er_inv c d s" and pc: "er_pcs s w = EBegin"
  shows "er_inv c d (er_tbegin w s)"
  by (rule er_quietI [OF inv, where w = w]; use er_inv_local(3,4,6) [OF inv, of w] pc in
    \<open>auto simp: er_pc_simps er_tbegin_def er_inv_latest [OF inv] dest: search_set_Some er_inv_prev [OF inv] er_inv_good [OF inv]
      split: option.split list.split er_wait.split er_vpc.split er_epc.split if_split if_split_asm\<close>)

lemma er_scan_ptr_inv:
  assumes inv: "er_inv c d s" and pc: "er_pcs s w = EScanPtr i a"
  shows "er_inv c d (er_scan_ptr cc w i a s)"
  by (rule er_quietI [OF inv, where w = w]; use er_inv_local(3,4,6) [OF inv, of w] pc in
    \<open>auto simp: er_pc_simps er_scan_ptr_def er_register_def er_inv_latest [OF inv] dest: search_set_Some er_inv_prev [OF inv] er_inv_good [OF inv]
      split: option.split list.split er_wait.split er_vpc.split er_epc.split if_split if_split_asm\<close>)

lemma er_scan_val_inv:
  assumes inv: "er_inv c d s" and pc: "er_pcs s w = EScanVal i tmt a"
  shows "er_inv c d (er_scan_val w i tmt a s)"
  by (rule er_quietI [OF inv, where w = w]; use er_inv_local(3,4,6) [OF inv, of w] pc in
    \<open>auto simp: er_pc_simps er_scan_val_def er_inv_latest [OF inv] dest: search_set_Some er_inv_prev [OF inv] er_inv_good [OF inv]
      split: option.split list.split er_wait.split er_vpc.split er_epc.split if_split if_split_asm\<close>)

lemma er_committing_inv:
  assumes inv: "er_inv c d s" and pc: "er_pcs s w = ECalls []"
  shows "er_inv c d (er_committing w s)"
  by (rule er_quietI [OF inv, where w = w]; use er_inv_local(3,4,6) [OF inv, of w] pc in
    \<open>auto simp: er_pc_simps er_committing_def er_inv_latest [OF inv] dest: search_set_Some er_inv_prev [OF inv] er_inv_good [OF inv]
      split: option.split list.split er_wait.split er_vpc.split er_epc.split if_split if_split_asm\<close>)

lemma er_ssn_tread_inv:
  assumes inv: "er_inv c d s" and pc: "er_pcs s w = ECalls cs"
  shows "er_inv c d (er_ssn_tread w k rest s)"
  by (rule er_quietI [OF inv, where w = w]; use er_inv_local(3,4,6) [OF inv, of w] pc in
    \<open>auto simp: er_pc_simps er_ssn_tread_def get_tuple_def er_inv_latest [OF inv] dest: search_set_Some er_inv_prev [OF inv] er_inv_good [OF inv]
      split: option.split list.split er_wait.split er_vpc.split er_epc.split if_split if_split_asm\<close>)

lemma er_ssn_twrite_inv:
  assumes inv: "er_inv c d s" and pc: "er_pcs s w = ECalls cs"
  shows "er_inv c d (er_ssn_twrite w k rest s)"
  by (rule er_quietI [OF inv, where w = w]; use er_inv_local(3,4,6) [OF inv, of w] pc in
    \<open>auto simp: er_pc_simps er_ssn_twrite_def get_tuple_def er_inv_latest [OF inv] dest: search_set_Some er_inv_prev [OF inv] er_inv_good [OF inv]
      split: option.split list.split er_wait.split er_vpc.split er_epc.split if_split if_split_asm\<close>)

lemma er_early_abort_inv:
  assumes inv: "er_inv c d s" and pc: "er_pcs s w = ECalls cs"
  shows "er_inv c d (er_early_abort w rest s)"
  by (rule er_quietI [OF inv, where w = w]; use er_inv_local(3,4,6) [OF inv, of w] pc in
    \<open>auto simp: er_pc_simps er_early_abort_def er_inv_latest [OF inv] dest: search_set_Some er_inv_prev [OF inv] er_inv_good [OF inv]
      split: option.split list.split er_wait.split er_vpc.split er_epc.split if_split if_split_asm\<close>)

lemma er_read_status_inv:
  assumes inv: "er_inv c d s" and pc: "er_pcs s w = ERead RStatus k a rest"
  shows "er_inv c d (er_read_status w k a rest s)"
  by (rule er_quietI [OF inv, where w = w]; use er_inv_local(3,4,6) [OF inv, of w] pc in
    \<open>auto simp: er_pc_simps er_read_status_def er_inv_latest [OF inv] dest: search_set_Some er_inv_prev [OF inv] er_inv_good [OF inv]
      split: option.split list.split er_wait.split er_vpc.split er_epc.split if_split if_split_asm\<close>)

lemma er_read_cstamp_inv:
  assumes inv: "er_inv c d s" and pc: "er_pcs s w = ERead RCstamp k a rest"
  shows "er_inv c d (er_read_cstamp w k a rest s)"
  by (rule er_quietI [OF inv, where w = w]; use er_inv_local(3,4,6) [OF inv, of w] pc in
    \<open>auto simp: er_pc_simps er_read_cstamp_def er_inv_latest [OF inv] dest: search_set_Some er_inv_prev [OF inv] er_inv_good [OF inv]
      split: option.split list.split er_wait.split er_vpc.split er_epc.split if_split if_split_asm\<close>)

lemma er_read_sstamp_inv:
  assumes inv: "er_inv c d s" and pc: "er_pcs s w = ERead RSstamp k a rest"
  shows "er_inv c d (er_read_sstamp w k a rest s)"
  by (rule er_quietI [OF inv, where w = w]; use er_inv_local(3,4,6) [OF inv, of w] pc in
    \<open>auto simp: er_pc_simps er_read_sstamp_def get_tuple_def er_inv_latest [OF inv] dest: search_set_Some er_inv_prev [OF inv] er_inv_good [OF inv]
      split: option.split list.split er_wait.split er_vpc.split er_epc.split if_split if_split_asm\<close>)

lemma er_read_pi_inv:
  assumes inv: "er_inv c d s" and pc: "er_pcs s w = ERead RPi k a rest"
  shows "er_inv c d (er_read_pi w k a rest s)"
  by (rule er_quietI [OF inv, where w = w]; use er_inv_local(3,4,6) [OF inv, of w] pc in
    \<open>auto simp: er_pc_simps er_read_pi_def er_min_sstamp_def er_inv_latest [OF inv] dest: search_set_Some er_inv_prev [OF inv] er_inv_good [OF inv]
      split: option.split list.split er_wait.split er_vpc.split er_epc.split if_split if_split_asm\<close>)

lemma er_read_bit_inv:
  assumes inv: "er_inv c d s" and pc: "er_pcs s w = ERead RBit k a rest"
  shows "er_inv c d (er_set_ver a (er_up w (er_vers s a)) (er_goto w (ERead RVerify k a rest) s))"
  by (rule er_quietI [OF inv, where w = w]; use er_inv_local(3,4,6) [OF inv, of w] pc in
    \<open>auto simp: er_pc_simps  er_inv_latest [OF inv] dest: search_set_Some er_inv_prev [OF inv] er_inv_good [OF inv]
      split: option.split list.split er_wait.split er_vpc.split er_epc.split if_split if_split_asm\<close>)

lemma er_read_verify_inv:
  assumes inv: "er_inv c d s" and pc: "er_pcs s w = ERead RVerify k a rest"
  shows "er_inv c d (er_verify w (ECalls rest) (ERead RCopy k a rest) s)"
  by (rule er_quietI [OF inv, where w = w]; use er_inv_local(3,4,6) [OF inv, of w] pc in
    \<open>auto simp: er_pc_simps er_verify_def er_inv_latest [OF inv] dest: search_set_Some er_inv_prev [OF inv] er_inv_good [OF inv]
      split: option.split list.split er_wait.split er_vpc.split er_epc.split if_split if_split_asm\<close>)

lemma er_read_copy_inv:
  assumes inv: "er_inv c d s" and pc: "er_pcs s w = ERead RCopy k a rest"
  shows "er_inv c d (er_read_copy cc w k a rest s)"
  by (rule er_quietI [OF inv, where w = w]; use er_inv_local(3,4,6) [OF inv, of w] pc in
    \<open>auto simp: er_pc_simps er_read_copy_def er_inv_latest [OF inv] dest: search_set_Some er_inv_prev [OF inv] er_inv_good [OF inv]
      split: option.split list.split er_wait.split er_vpc.split er_epc.split if_split if_split_asm\<close>)

lemma er_write_down_inv:
  assumes inv: "er_inv c d s" and pc: "er_pcs s w = EWriteDown k e rest"
  shows "er_inv c d (er_write_down w k e rest s)"
  by (rule er_quietI [OF inv, where w = w]; use er_inv_local(3,4,6) [OF inv, of w] pc in
    \<open>auto simp: er_pc_simps er_write_down_def er_inv_latest [OF inv] dest: search_set_Some er_inv_prev [OF inv] er_inv_good [OF inv]
      split: option.split list.split er_wait.split er_vpc.split er_epc.split if_split if_split_asm\<close>)

lemma er_write_status_inv:
  assumes inv: "er_inv c d s" and pc: "er_pcs s w = EWrite (WStatus e) k p a rest"
  shows "er_inv c d (er_write_status w k p a e rest s)"
  by (rule er_quietI [OF inv, where w = w]; use er_inv_local(3,4,6) [OF inv, of w] pc in
    \<open>auto simp: er_pc_simps er_write_status_def er_inv_latest [OF inv] dest: search_set_Some er_inv_prev [OF inv] er_inv_good [OF inv]
      split: option.split list.split er_wait.split er_vpc.split er_epc.split if_split if_split_asm\<close>)

lemma er_write_cstamp_inv:
  assumes inv: "er_inv c d s" and pc: "er_pcs s w = EWrite (WCstamp e) k p a rest"
  shows "er_inv c d (er_write_cstamp w k p a e rest s)"
  by (rule er_quietI [OF inv, where w = w]; use er_inv_local(3,4,6) [OF inv, of w] pc in
    \<open>auto simp: er_pc_simps er_write_cstamp_def er_write_abort_def er_inv_latest [OF inv] dest: search_set_Some er_inv_prev [OF inv] er_inv_good [OF inv]
      split: option.split list.split er_wait.split er_vpc.split er_epc.split if_split if_split_asm\<close>)

lemma er_write_reload_inv:
  assumes inv: "er_inv c d s" and pc: "er_pcs s w = EWrite WReload k p a rest"
  shows "er_inv c d (er_goto w (EWrite (WStatus (et_latest (er_table s p))) k p a rest) s)"
  by (rule er_quietI [OF inv, where w = w]; use er_inv_local(3,4,6) [OF inv, of w] pc in
    \<open>auto simp: er_pc_simps  er_inv_latest [OF inv] dest: search_set_Some er_inv_prev [OF inv] er_inv_good [OF inv]
      split: option.split list.split er_wait.split er_vpc.split er_epc.split if_split if_split_asm\<close>)

lemma er_write_walk_inv:
  assumes inv: "er_inv c d s" and pc: "er_pcs s w = EWrite (WWalk e v) k p a rest"
  shows "er_inv c d (er_write_walk w k p a e v rest s)"
  by (rule er_quietI [OF inv, where w = w]; use er_inv_local(3,4,6) [OF inv, of w] pc in
    \<open>auto simp: er_pc_simps er_write_walk_def er_inv_latest [OF inv] dest: search_set_Some er_inv_prev [OF inv] er_inv_good [OF inv]
      split: option.split list.split er_wait.split er_vpc.split er_epc.split if_split if_split_asm\<close>)

lemma er_write_mark_inv:
  assumes inv: "er_inv c d s" and pc: "er_pcs s w = EWrite (WMark e) k p a rest"
  shows "er_inv c d (er_write_mark w k p a e rest s)"
  by (rule er_quietI [OF inv, where w = w]; use er_inv_local(3,4,6) [OF inv, of w] pc in
    \<open>auto simp: er_pc_simps er_write_mark_def er_inv_latest [OF inv] dest: search_set_Some er_inv_prev [OF inv] er_inv_good [OF inv]
      split: option.split list.split er_wait.split er_vpc.split er_epc.split if_split if_split_asm\<close>)

lemma er_write_eta_inv:
  assumes inv: "er_inv c d s" and pc: "er_pcs s w = EWrite (WEta e) k p a rest"
  shows "er_inv c d (er_write_eta w k p a e rest s)"
  by (rule er_quietI [OF inv, where w = w]; use er_inv_local(3,4,6) [OF inv, of w] pc in
    \<open>auto simp: er_pc_simps er_write_eta_def er_max_pstamp_def er_inv_latest [OF inv] dest: search_set_Some er_inv_prev [OF inv] er_inv_good [OF inv]
      split: option.split list.split er_wait.split er_vpc.split er_epc.split if_split if_split_asm\<close>)

lemma er_write_verify_inv:
  assumes inv: "er_inv c d s" and pc: "er_pcs s w = EWriteVerify rest"
  shows "er_inv c d (er_verify w (ECalls rest) (ECalls rest) s)"
  by (rule er_quietI [OF inv, where w = w]; use er_inv_local(3,4,6) [OF inv, of w] pc in
    \<open>auto simp: er_pc_simps er_verify_def er_inv_latest [OF inv] dest: search_set_Some er_inv_prev [OF inv] er_inv_good [OF inv]
      split: option.split list.split er_wait.split er_vpc.split er_epc.split if_split if_split_asm\<close>)

lemma er_store_cstamp_inv:
  assumes inv: "er_inv c d s" and pc: "er_pcs s w = EStoreCstamp"
  shows "er_inv c d (er_store_cstamp w s)"
  by (rule er_quietI [OF inv, where w = w]; use er_inv_local(3,4,6) [OF inv, of w] pc in
    \<open>auto simp: er_pc_simps er_store_cstamp_def er_min_sstamp_def er_inv_latest [OF inv] dest: search_set_Some er_inv_prev [OF inv] er_inv_good [OF inv]
      split: option.split list.split er_wait.split er_vpc.split er_epc.split if_split if_split_asm\<close>)

lemma er_pi_inv:
  assumes inv: "er_inv c d s" and pc: "er_pcs s w = EPi rs"
  shows "er_inv c d (er_pi w rs s)"
  by (rule er_quietI [OF inv, where w = w]; use er_inv_local(3,4,6) [OF inv, of w] pc in
    \<open>auto simp: er_pc_simps er_pi_def er_min_sstamp_def er_inv_latest [OF inv] dest: search_set_Some er_inv_prev [OF inv] er_inv_good [OF inv]
      split: option.split list.split er_wait.split er_vpc.split er_epc.split if_split if_split_asm\<close>)

lemma er_eta_inv:
  assumes inv: "er_inv c d s" and pc: "er_pcs s w = EEta es"
  shows "er_inv c d (er_eta w es s)"
  by (rule er_quietI [OF inv, where w = w]; use er_inv_local(3,4,6) [OF inv, of w] pc in
    \<open>auto simp: er_pc_simps er_eta_def er_inv_latest [OF inv] dest: search_set_Some er_inv_prev [OF inv] er_inv_good [OF inv]
      split: option.split list.split er_wait.split er_vpc.split er_epc.split if_split if_split_asm\<close>)

lemma er_step_eta_inv:
  assumes inv: "er_inv c d s" and pc: "er_pcs s w = EEtaAt r es"
  shows "er_inv c d (er_step_eta cc w r es s)"
  by (rule er_quietI [OF inv, where w = w]; use er_inv_local(3,4,6) [OF inv, of w] pc in
    \<open>auto simp: er_pc_simps er_step_eta_def er_eta_walk_def er_eta_loop_def er_eta_pstamp_def er_max_pstamp_def er_inv_latest [OF inv] dest: search_set_Some er_inv_prev [OF inv] er_inv_good [OF inv]
      split: option.split list.split er_wait.split er_vpc.split er_epc.split if_split if_split_asm\<close>)

lemma er_step_wait_inv:
  assumes inv: "er_inv c d s" and pc: "er_pcs s w = EWait r k"
  shows "er_inv c d (er_step_wait w r k s)"
  by (cases k; cases r; rule er_quietI [OF inv, where w = w]; use er_inv_local(3,4,6) [OF inv, of w] pc in
    \<open>auto simp: er_pc_simps er_step_wait_def er_wait_status_def er_wait_cstamp_def er_wait_less_def er_wait_end_def er_wait_done_def er_wait_stamp_def er_min_sstamp_def er_max_pstamp_def er_inv_latest [OF inv] dest: search_set_Some er_inv_prev [OF inv] er_inv_good [OF inv]
      split: option.split list.split er_wait.split er_vpc.split er_epc.split if_split if_split_asm\<close>)

lemma er_store_sstamp_inv:
  assumes inv: "er_inv c d s" and pc: "er_pcs s w = EStoreSstamp"
  shows "er_inv c d (er_store_sstamp w s)"
  by (rule er_quietI [OF inv, where w = w]; use er_inv_local(3,4,6) [OF inv, of w] pc in
    \<open>auto simp: er_pc_simps er_store_sstamp_def er_inv_latest [OF inv] dest: search_set_Some er_inv_prev [OF inv] er_inv_good [OF inv]
      split: option.split list.split er_wait.split er_vpc.split er_epc.split if_split if_split_asm\<close>)

lemma er_store_committed_inv:
  assumes inv: "er_inv c d s" and pc: "er_pcs s w = EStoreCommitted"
  shows "er_inv c d (er_tell w ErCommitted (er_goto w (EUpdateEta (ex_rset (er_txs s w))) s))"
  by (rule er_quietI [OF inv, where w = w]; use er_inv_local(3,4,6) [OF inv, of w] pc in
    \<open>auto simp: er_pc_simps  er_inv_latest [OF inv] dest: search_set_Some er_inv_prev [OF inv] er_inv_good [OF inv]
      split: option.split list.split er_wait.split er_vpc.split er_epc.split if_split if_split_asm\<close>)

lemma er_update_eta_inv:
  assumes inv: "er_inv c d s" and pc: "er_pcs s w = EUpdateEta rs"
  shows "er_inv c d (er_update_eta w rs s)"
  by (rule er_quietI [OF inv, where w = w]; use er_inv_local(3,4,6) [OF inv, of w] pc in
    \<open>auto simp: er_pc_simps er_update_eta_def er_inv_latest [OF inv] dest: search_set_Some er_inv_prev [OF inv] er_inv_good [OF inv]
      split: option.split list.split er_wait.split er_vpc.split er_epc.split if_split if_split_asm\<close>)

lemma er_update_bit_inv:
  assumes inv: "er_inv c d s" and pc: "er_pcs s w = EUpdateBit r rs"
  shows "er_inv c d (er_update_bit w r rs s)"
  by (rule er_quietI [OF inv, where w = w]; use er_inv_local(3,4,6) [OF inv, of w] pc in
    \<open>auto simp: er_pc_simps er_update_bit_def er_inv_latest [OF inv] dest: search_set_Some er_inv_prev [OF inv] er_inv_good [OF inv]
      split: option.split list.split er_wait.split er_vpc.split er_epc.split if_split if_split_asm\<close>)

lemma er_pub_next_inv:
  assumes inv: "er_inv c d s" and pc: "er_pcs s w = EPub es"
  shows "er_inv c d (er_pub_next w es s)"
  by (rule er_quietI [OF inv, where w = w]; use er_inv_local(3,4,6) [OF inv, of w] pc in
    \<open>auto simp: er_pc_simps er_pub_next_def er_inv_latest [OF inv] dest: search_set_Some er_inv_prev [OF inv] er_inv_good [OF inv]
      split: option.split list.split er_wait.split er_vpc.split er_epc.split if_split if_split_asm\<close>)

lemma er_pub_walk_inv:
  assumes inv: "er_inv c d s" and pc: "er_pcs s w = EPubAt (PWalk b) e es"
  shows "er_inv c d (er_pub_walk w e es b s)"
  by (rule er_quietI [OF inv, where w = w]; use er_inv_local(3,4,6) [OF inv, of w] pc in
    \<open>auto simp: er_pc_simps er_pub_walk_def er_inv_latest [OF inv] dest: search_set_Some er_inv_prev [OF inv] er_inv_good [OF inv]
      split: option.split list.split er_wait.split er_vpc.split er_epc.split if_split if_split_asm\<close>)

lemma er_pub_sstamp_inv:
  assumes inv: "er_inv c d s" and pc: "er_pcs s w = EPubAt (PSstamp b) e es"
  shows "er_inv c d (er_sstamp_to b x (er_goto w (EPubAt PCstamp e es) s))"
  by (rule er_quietI [OF inv, where w = w]; use er_inv_local(3,4,6) [OF inv, of w] pc in
    \<open>auto simp: er_pc_simps  er_inv_latest [OF inv] dest: search_set_Some er_inv_prev [OF inv] er_inv_good [OF inv]
      split: option.split list.split er_wait.split er_vpc.split er_epc.split if_split if_split_asm\<close>)

lemma er_pub_pstamp_inv:
  assumes inv: "er_inv c d s" and pc: "er_pcs s w = EPubAt PPstamp e es"
  shows "er_inv c d (er_set_ver (ee_ver e) ((er_vers s (ee_ver e))\<lparr>ev_pstamp := x\<rparr>) (er_goto w (EPubAt PInfinity e es) s))"
  by (rule er_quietI [OF inv, where w = w]; use er_inv_local(3,4,6) [OF inv, of w] pc in
    \<open>auto simp: er_pc_simps  er_inv_latest [OF inv] dest: search_set_Some er_inv_prev [OF inv] er_inv_good [OF inv]
      split: option.split list.split er_wait.split er_vpc.split er_epc.split if_split if_split_asm\<close>)

lemma er_pub_infinity_inv:
  assumes inv: "er_inv c d s" and pc: "er_pcs s w = EPubAt PInfinity e es"
  shows "er_inv c d (er_sstamp_to (ee_ver e) x (er_goto w (EPubAt PVal e es) s))"
  by (rule er_quietI [OF inv, where w = w]; use er_inv_local(3,4,6) [OF inv, of w] pc in
    \<open>auto simp: er_pc_simps  er_inv_latest [OF inv] dest: search_set_Some er_inv_prev [OF inv] er_inv_good [OF inv]
      split: option.split list.split er_wait.split er_vpc.split er_epc.split if_split if_split_asm\<close>)

lemma er_abort_inv:
  assumes inv: "er_inv c d s" and pc: "er_pcs s w = EAbort es"
  shows "er_inv c d (er_abort w es s)"
  by (rule er_quietI [OF inv, where w = w]; use er_inv_local(3,4,6) [OF inv, of w] pc in
    \<open>auto simp: er_pc_simps er_abort_def er_inv_latest [OF inv] dest: search_set_Some er_inv_prev [OF inv] er_inv_good [OF inv]
      split: option.split list.split er_wait.split er_vpc.split er_epc.split if_split if_split_asm\<close>)

lemma er_abort_walk_inv:
  assumes inv: "er_inv c d s" and pc: "er_pcs s w = EAbortAt (AWalk v) e es"
  shows "er_inv c d (er_abort_walk w e es v s)"
  by (rule er_quietI [OF inv, where w = w]; use er_inv_local(3,4,6) [OF inv, of w] pc in
    \<open>auto simp: er_pc_simps er_abort_walk_def er_inv_latest [OF inv] dest: search_set_Some er_inv_prev [OF inv] er_inv_good [OF inv]
      split: option.split list.split er_wait.split er_vpc.split er_epc.split if_split if_split_asm\<close>)

lemma er_abort_sstamp_inv:
  assumes inv: "er_inv c d s" and pc: "er_pcs s w = EAbortAt (ASstamp v) e es"
  shows "er_inv c d (er_sstamp_to v x (er_goto w (EAbortAt AStatus e es) s))"
  by (rule er_quietI [OF inv, where w = w]; use er_inv_local(3,4,6) [OF inv, of w] pc in
    \<open>auto simp: er_pc_simps  er_inv_latest [OF inv] dest: search_set_Some er_inv_prev [OF inv] er_inv_good [OF inv]
      split: option.split list.split er_wait.split er_vpc.split er_epc.split if_split if_split_asm\<close>)

lemma er_abort_reads_inv:
  assumes inv: "er_inv c d s" and pc: "er_pcs s w = EAbortReads rs"
  shows "er_inv c d (er_abort_reads w rs s)"
  by (rule er_quietI [OF inv, where w = w]; use er_inv_local(3,4,6) [OF inv, of w] pc in
    \<open>auto simp: er_pc_simps er_abort_reads_def er_inv_latest [OF inv] dest: search_set_Some er_inv_prev [OF inv] er_inv_good [OF inv]
      split: option.split list.split er_wait.split er_vpc.split er_epc.split if_split if_split_asm\<close>)

end
