(* ===== verification/Ermia_Moves.thy ===== *)
theory Ermia_Moves
  imports Ermia_Steps
begin

text \<open>
  The steps that change a version, the counter or the history: a version of the worker's own, its
  publication, the commit stamp, the exclusion test, and the end of a commit or of an abort.
\<close>

section \<open>Changes to an own version that is private or in flight\<close>

definition er_soft :: "er_config \<Rightarrow> nat \<Rightarrow> er_sys \<Rightarrow> er_sys \<Rightarrow> bool" where
  "er_soft c w s t \<longleftrightarrow>
     (\<forall>v. v \<noteq> w \<longrightarrow> er_txs t v = er_txs s v \<and> er_pcs t v = er_pcs s v) \<and> er_vals t = er_vals s \<and>
     er_pub t = er_pub s \<and> er_next s \<le> er_next t \<and> er_com t = er_com s \<and> er_Lsn t = er_Lsn s \<and> er_table t = er_table s \<and>
     ex_cstamp (er_txs t w) = ex_cstamp (er_txs s w) \<and> ex_write_val (er_txs t w) = ex_write_val (er_txs s w) \<and>
     ex_gcq_for_version (er_txs t w) = ex_gcq_for_version (er_txs s w) \<and>
     (\<forall>a. length (er_value s a) = er_val_size c \<longrightarrow> length (er_value t a) = er_val_size c) \<and>
     (\<forall>a. er_pub s a \<noteq> None \<longrightarrow> er_prev t a = er_prev s a \<and> er_st t a = er_st s a \<and>
        (er_st s a \<noteq> VsInFlight \<longrightarrow> er_cst t a = er_cst s a \<and> er_value t a = er_value s a)) \<and>
     (\<forall>a. er_owner s a \<noteq> w \<and> a < er_next s \<longrightarrow> er_owner t a = er_owner s a \<and> er_prev t a = er_prev s a \<and>
        er_st t a = er_st s a \<and> er_cst t a = er_cst s a \<and> er_value t a = er_value s a)"

lemma er_soft_eqs:
  assumes "er_soft c w s t"
  shows "er_vals t = er_vals s" "er_pub t = er_pub s" "er_com t = er_com s" "er_Lsn t = er_Lsn s" "er_table t = er_table s"
    "er_next s \<le> er_next t"
    "ex_cstamp (er_txs t v) = ex_cstamp (er_txs s v)" "ex_write_val (er_txs t v) = ex_write_val (er_txs s v)"
    "ex_gcq_for_version (er_txs t v) = ex_gcq_for_version (er_txs s v)"
  using assms by (cases "v = w"; simp add: er_soft_def)+

lemma er_soft_pub:
  assumes "er_soft c w s t" "er_pub s a \<noteq> None"
  shows "er_prev t a = er_prev s a" "er_st t a = er_st s a"
    "er_st s a \<noteq> VsInFlight \<Longrightarrow> er_cst t a = er_cst s a" "er_st s a \<noteq> VsInFlight \<Longrightarrow> er_value t a = er_value s a"
  using assms unfolding er_soft_def by blast+

lemma er_soft_env:
  assumes soft: "er_soft c w s t" shows "er_env w s t"
  unfolding er_env_def er_soft_eqs [OF soft]
proof (intro conjI allI impI)
  fix a p assume "er_pub s a = Some p"
  then show "er_st s a \<noteq> VsInFlight \<Longrightarrow> er_st t a = er_st s a" "er_st s a \<noteq> VsInFlight \<Longrightarrow> er_cst t a = er_cst s a"
    using er_soft_pub [OF soft, of a] by simp_all
next
  fix a p assume "er_pub s a = Some p" "er_st t a = VsCommitted"
  then have "er_st s a = VsCommitted" using er_soft_pub [OF soft, of a] by simp
  then show "er_st s a \<noteq> VsCommitted \<Longrightarrow> er_st s a = VsInFlight" "er_st s a \<noteq> VsCommitted \<Longrightarrow> er_owner s a = w" by simp_all
qed (use soft in \<open>simp_all add: er_soft_def\<close>)

lemma er_soft_heap:
  assumes soft: "er_soft c w s t" and heap: "er_heap C s"
  shows "er_heap C t"
proof -
  have pub: "er_pub s a \<noteq> None" if "a \<in> set (C p)" for a p using er_heapD(2) [OF heap, of a p] that by simp
  note p = er_soft_pub [OF soft]
  have "chain (er_prev t) x (C p) \<longleftrightarrow> chain (er_prev s) x (C p)" for x p
    by (rule chain_cong) (simp add: p(1) [OF pub])
  moreover have "descending (er_done t) (er_cst t) (C p) \<longleftrightarrow> descending (er_done s) (er_cst s) (C p)" for p
    by (rule descending_cong) (auto simp: er_done_st p pub)
  moreover have "er_st t a \<noteq> VsInFlight" if "a \<in> set (tl (C p))" for a p
  proof -
    have "a \<in> set (C p)" using subsetD [OF set_tl that] .
    then have "er_st t a = er_st s a" by (rule p(2) [OF pub])
    moreover have "er_st s a \<noteq> VsInFlight" using er_heapD(3) [OF heap that] .
    ultimately show ?thesis by simp
  qed
  moreover have "a < er_next t" if "er_pub s a \<noteq> None" for a
    using er_heapD(5) [OF heap that] er_soft_eqs(6) [OF soft] by simp
  ultimately show ?thesis
    using heap unfolding er_heap_def er_soft_eqs(1-5) [OF soft] by simp
qed

lemma er_soft_global:
  assumes soft: "er_soft c w s t" and g: "er_global c d s"
  shows "er_global c d t"
proof -
  note e = er_soft_eqs [OF soft]
  note p = er_soft_pub [OF soft]
  have "er_values c d t"
  proof -
    have "length (er_value t a) = er_val_size c" for a
      using g soft by (simp add: er_global_def er_values_def er_soft_def)
    moreover have "er_good c d (set (er_com s)) q (er_value t a)" if "er_pub s a = Some q" "er_st t a = VsCommitted" for a q
      using that g p(2,4) [of a] by (simp add: er_global_def er_values_def)
    ultimately show ?thesis using g unfolding er_global_def er_values_def e by simp
  qed
  moreover have "er_stamps t" using g p by (simp add: er_global_def er_stamps_def e)
  moreover have "er_queues t" using g p by (simp add: er_global_def er_queues_def e)
  moreover have "er_reads_good c d t" using g unfolding er_global_def er_reads_good_def e by blast
  ultimately show ?thesis using g er_soft_heap [OF soft] unfolding er_global_def by blast
qed

lemma er_soft_inv: "er_soft c w s t \<Longrightarrow> er_inv c d s \<Longrightarrow> er_local c d t w \<Longrightarrow> er_inv c d t"
  by (rule er_env_inv [OF er_soft_env]) (auto simp: er_inv_def intro: er_soft_global)

lemma er_softI:
  assumes inv: "er_inv c d s" and soft: "er_soft c w s t"
    and "er_holding t w" "er_hiding t w" "er_writing t w" "er_reading t w" "er_stamped t w" "er_copying t w" "er_recorded c d t w"
  shows "er_inv c d t"
  by (rule er_soft_inv [OF soft inv]) (simp add: er_local_def assms)

lemmas er_local_simps = er_soft_def er_holding_def er_hiding_def er_writing_def er_reading_def er_stamped_def er_copying_def
  er_recorded_def er_held_def er_private_def er_commit_pc_def er_done_pc_def er_settled_def er_prims er_fields

lemma er_pub_cstamp_inv:
  assumes inv: "er_inv c d s" and pc: "er_pcs s w = EPubAt PCstamp e es"
  shows "er_inv c d (er_set_ver (ee_ver e) ((er_vers s (ee_ver e))\<lparr>ev_cstamp := ex_cstamp (er_txs s w)\<rparr>)
           (er_goto w (EPubAt PPstamp e es) s))"
  by (rule er_softI [OF inv, where w = w]; use er_inv_local [OF inv, of w] pc in \<open>auto simp: er_local_simps\<close>)

lemma er_values_length:
  assumes "er_inv c d s"
  shows "length (er_value s a) = er_val_size c" "length (ex_write_val (er_txs s w)) = er_val_size c"
  using assms by (simp_all add: er_inv_def er_global_def er_values_def)

lemma er_pub_val_inv:
  assumes inv: "er_inv c d s" and pc: "er_pcs s w = EPubAt PVal e es"
  shows "er_inv c d (er_pub_val c w e es s)"
  by (rule er_softI [OF inv, where w = w]; use er_inv_local [OF inv, of w] pc er_values_length [OF inv] in
    \<open>auto simp: er_local_simps er_pub_val_def memcpy_def\<close>)

lemma er_inv_next:
  assumes inv: "er_inv c d s"
  shows "er_pub s (er_next s) = None" "er_pub s a = Some k \<Longrightarrow> a \<noteq> er_next s"
proof -
  obtain C where C: "er_heap C s" using er_inv_heap [OF inv] by blast
  show *: "er_pub s (er_next s) = None" using er_heapD(5) [OF C, of "er_next s"] by blast
  show "er_pub s a = Some k \<Longrightarrow> a \<noteq> er_next s" using * by auto
qed

lemma er_write_new_inv:
  assumes inv: "er_inv c d s" and pc: "er_pcs s w = EWriteNew k p rest"
  shows "er_inv c d (er_write_new w k p rest s)"
proof (cases "ex_reuse_version (er_txs s w)" rule: rev_cases)
  case Nil
  then show ?thesis
    by (intro er_softI [OF inv, where w = w]; use er_inv_local [OF inv, of w] pc er_inv_latest [OF inv] er_inv_next [OF inv] in
      \<open>auto simp: er_local_simps er_write_new_def er_new_version_def\<close>)
next
  case (snoc xs x)
  then show ?thesis
    by (intro er_softI [OF inv, where w = w]; use er_inv_local [OF inv, of w] pc er_inv_latest [OF inv] in
      \<open>auto simp: er_local_simps er_write_new_def er_new_version_def\<close>)
qed

lemma er_write_check_inv:
  assumes inv: "er_inv c d s" and pc: "er_pcs s w = EWrite (WCheck e v) k p a rest"
  shows "er_inv c d (er_write_check w k p a e v rest s)"
proof (cases "ex_txid (er_txs s w) < ev_cstamp (er_vers s v)")
  case True
  then show ?thesis
    by (intro er_quietI [OF inv, where w = w]; use er_inv_local(3,4,6) [OF inv, of w] pc in
      \<open>auto simp: er_pc_simps er_write_check_def er_write_abort_def\<close>)
next
  case False
  then show ?thesis
    by (intro er_softI [OF inv, where w = w]; use er_inv_local [OF inv, of w] pc in
      \<open>auto simp: er_local_simps er_write_check_def\<close>)
qed

section \<open>The commit stamp\<close>

lemma er_count:
  fixes x :: u64
  assumes "x < 2 ^ 32" "x + 1 < 2 ^ 32"
  shows "(ucast x :: u32) < ucast (x + 1)"
proof -
  have x: "unat x < 2 ^ 32" "unat (x + 1) < 2 ^ 32" using assms by (simp_all add: word_less_nat_alt)
  then have "unat (x + 1) = unat x + 1" by (simp add: unat_word_ariths)
  then show ?thesis using x by (simp add: word_less_nat_alt unsigned_ucast_eq take_bit_nat_eq_self)
qed

lemma er_done_fun: "er_done s = (\<lambda>a. er_st s a = VsCommitted)"
  by (simp add: fun_eq_iff er_done_st)

lemma er_inv_parts:
  assumes "er_inv c d s"
  obtains C where "er_heap C s" "er_stamps s" "er_queues s" "er_values c d s" "er_reads_good c d s"
  using assms unfolding er_inv_def er_global_def by blast

lemma er_globalI:
  "er_heap C s \<Longrightarrow> er_stamps s \<Longrightarrow> er_queues s \<Longrightarrow> er_values c d s \<Longrightarrow> er_reads_good c d s \<Longrightarrow> er_global c d s"
  unfolding er_global_def by blast

lemma er_lsn_inv:
  assumes inv: "er_inv c d s" and pc: "er_pcs s w = ELsn" and small: "er_Lsn s + 1 < 2 ^ 32"
  shows "er_inv c d (er_lsn w s)"
proof (rule er_env_inv [OF _ inv])
  obtain C where C: "er_heap C s" "er_stamps s" "er_queues s" "er_values c d s" "er_reads_good c d s"
    using er_inv_parts [OF inv] .
  then have lt: "(ucast (er_Lsn s) :: u32) < ucast (er_Lsn s + 1)" using er_count small by (simp add: er_stamps_def)
  show "er_env w s (er_lsn w s)" by (simp add: er_env_def er_lsn_def er_prims)
  have "er_stamps (er_lsn w s)"
    using C(2) lt small by (auto simp: er_stamps_def er_lsn_def er_prims intro: order.trans less_imp_le)
  then show "er_global c d (er_lsn w s)"
    using C by (intro er_globalI [of C])
      (simp_all add: er_heap_def er_queues_def er_values_def er_reads_good_def er_lsn_def er_prims er_done_fun)
  show "er_local c d (er_lsn w s) w"
    using er_inv_local [OF inv, of w] pc C(2) lt
    by (auto simp: er_local_def er_local_simps er_lsn_def er_stamps_def intro: order.strict_trans1)
qed

section \<open>Publication of a version\<close>

lemma er_inv_private:
  assumes inv: "er_inv c d s" and pc: "er_pcs s w = EWrite r k p a rest" and r: "\<And>e. r \<noteq> WMark e" "\<And>e. r \<noteq> WEta e"
  shows "p = k" "er_pub s a = None" "er_owner s a = w" "a < er_next s" "er_st s a = VsInFlight"
    "a \<notin> set (ex_reuse_version (er_txs s w))"
  using er_inv_local(2,3) [OF inv, of w] pc r
  by (auto simp: er_hiding_def er_private_def er_writing_def split: er_wpc.splits)

lemma er_write_cas_inv:
  assumes inv: "er_inv c d s" and pc: "er_pcs s w = EWrite (WCas e) k p a rest"
  shows "er_inv c d (er_write_cas w k p a e rest s)"
proof (cases "et_latest (er_table s p) = e")
  case False
  then show ?thesis
    by (intro er_quietI [OF inv, where w = w]; use er_inv_local(3,4,6) [OF inv, of w] pc in
      \<open>auto simp: er_pc_simps er_write_cas_def er_inv_latest [OF inv]\<close>)
next
  case True
  let ?t = "er_write_cas w k p a e rest s"
  obtain C where C: "er_heap C s" "er_stamps s" "er_queues s" "er_values c d s" "er_reads_good c d s"
    using er_inv_parts [OF inv] .
  note a = er_inv_private [OF inv pc, simplified]
  have e: "er_pub s e = Some p" "er_st s e \<noteq> VsInFlight" "er_prev s a = Some e"
    using er_inv_local(3) [OF inv, of w] pc by (auto simp: er_writing_def er_settled_def)
  have t: "?t = (er_goto w (EWrite (WMark e) k p a rest) s)\<lparr>er_table := (er_table s)(p := (er_table s p)\<lparr>et_latest := a\<rparr>),
      er_pub := (er_pub s)(a := Some p)\<rparr>"
    using True by (simp add: er_write_cas_def Let_def)
  define D where "D = C(p := a # C p)"
  have off: "a \<notin> set (C q)" for q using er_heapD(2) [OF C(1), of a q] a(2) by simp
  have "descending (er_done s) (er_cst s) (a # C p)"
    using er_heapD(4) [OF C(1), of p] a(5) by (simp add: descending_def er_done_fun)
  moreover have "er_st s b \<noteq> VsInFlight" if "b \<in> set (C p)" for b
  proof -
    from er_heapD(1) [OF C(1), of p] True obtain bs where "C p = e # bs" by (auto simp: chain_Some)
    then show ?thesis using that e(2) er_heapD(3) [OF C(1), of b p] by auto
  qed
  ultimately have "er_heap D ?t"
    using er_heapD [OF C(1)] True e(3) a(2,4) off
    unfolding er_heap_def t by (auto simp: D_def er_prims er_done_fun)
  moreover have "er_stamps ?t" "er_queues ?t" "er_values c d ?t" "er_reads_good c d ?t"
    using C(2-5) a(2,5) unfolding t
    by (auto simp: er_stamps_def er_queues_def er_values_def er_reads_good_def er_prims)
  ultimately have "er_global c d ?t" by (rule er_globalI)
  moreover have "er_env w s ?t" using a unfolding t by (auto simp: er_env_def er_prims)
  moreover have "er_holding ?t w"
    using er_inv_local(1) [OF inv, of w] pc a(1-3,5) unfolding t
    by (auto simp: er_holding_def er_held_def er_prims)
  moreover have "er_hiding ?t w"
    using er_inv_local(2) [OF inv, of w] pc unfolding t by (auto simp: er_hiding_def er_private_def er_prims)
  moreover have "er_writing ?t w" "er_reading ?t w" "er_stamped ?t w" "er_copying ?t w" "er_recorded c d ?t w"
    using er_inv_local(3) [OF inv, of w] pc unfolding t
    by (simp_all add: er_writing_def er_reading_def er_stamped_def er_copying_def er_recorded_def er_commit_pc_def er_done_pc_def er_prims)
  ultimately show ?thesis using er_env_inv [OF _ inv] unfolding er_local_def by blast
qed

section \<open>The exclusion test\<close>

lemma er_record_good:
  assumes "e \<in> set (ex_wset t)" "length (ex_write_val t) = er_val_size c"
  shows "er_good c d (insert (er_record c reads t) R) (ee_key e) (ex_write_val t)"
  unfolding er_good_def
  using assms by (intro disjI2 bexI [of _ "er_record c reads t"] exI [of _ "\<lambda>old. memcpy old (ex_write_val t) (er_val_size c)"])
    (auto simp: er_record_def memcpy_def)

lemma er_check_inv:
  assumes inv: "er_inv c d s" and pc: "er_pcs s w = ECheck"
  shows "er_inv c d (er_check c w s)"
proof (cases "ex_pstamp (er_txs s w) < ex_sstamp (er_txs s w)")
  case False
  then show ?thesis
    by (intro er_quietI [OF inv, where w = w]; use er_inv_local(3,4,6) [OF inv, of w] pc in \<open>auto simp: er_pc_simps er_check_def\<close>)
next
  case True
  let ?t = "er_check c w s"
  define r where "r = er_record c (er_vals s w) (er_txs s w)"
  obtain C where C: "er_heap C s" "er_stamps s" "er_queues s" "er_values c d s" "er_reads_good c d s"
    using er_inv_parts [OF inv] .
  have t: "?t = (er_upd w ((er_txs s w)\<lparr>ex_status := ErCommitted\<rparr>) EStoreSstamp s)\<lparr>er_com := er_com s @ [r]\<rparr>"
    using True by (simp add: er_check_def r_def Let_def)
  have mono: "er_good c d R k v \<Longrightarrow> er_good c d (insert r R) k v" for R k v
    by (erule er_good_mono) auto
  have "er_heap C ?t" "er_stamps ?t" "er_queues ?t" "er_values c d ?t"
    using C unfolding t by (simp_all add: er_heap_def er_stamps_def er_queues_def er_values_def er_prims er_done_fun mono)
  moreover have "er_reads_good c d ?t"
    unfolding er_reads_good_def
  proof (intro conjI allI impI)
    fix i k v assume i: "i < length (er_com ?t)" "(k, v) \<in> set (tx_reads (er_com ?t ! i))"
    show "er_good c d (set (take i (er_com ?t))) k v"
    proof (cases "i < length (er_com s)")
      case True
      then show ?thesis using i(2) C(5) unfolding t by (simp add: er_reads_good_def er_prims nth_append)
    next
      case False
      then have "i = length (er_com s)" using i(1) unfolding t by (simp add: er_prims)
      then show ?thesis using i(2) C(5) unfolding t by (simp add: er_reads_good_def er_prims nth_append r_def er_record_def)
    qed
  qed (use C(5) in \<open>auto simp: t er_reads_good_def er_prims mono split: if_splits\<close>)
  ultimately have "er_global c d ?t" by (rule er_globalI)
  moreover have "er_env w s ?t" unfolding t by (auto simp: er_env_def er_prims)
  moreover have "er_recorded c d ?t w"
    using er_record_good [OF _ er_values_length(2) [OF inv], of _ w d "er_vals s w" "set (er_com s)"]
    unfolding t by (auto simp: er_recorded_def er_held_def er_prims r_def)
  moreover have "er_holding ?t w" "er_hiding ?t w" "er_writing ?t w" "er_reading ?t w" "er_stamped ?t w" "er_copying ?t w"
    using er_inv_local(1-5) [OF inv, of w] pc unfolding t
    by (simp_all add: er_holding_def er_hiding_def er_writing_def er_reading_def er_stamped_def er_copying_def er_held_def er_private_def
        er_commit_pc_def er_prims)
  ultimately show ?thesis using er_env_inv [OF _ inv] unfolding er_local_def by blast
qed

section \<open>The end of a version in flight\<close>

text \<open>A held version is the head of its chain.\<close>

lemma er_held_head:
  assumes "er_heap C s" "er_pub s a = Some p" "er_st s a = VsInFlight"
  shows "\<exists>bs. C p = a # bs \<and> (\<forall>b \<in> set bs. b \<noteq> a)"
proof -
  have "a \<in> set (C p)" "a \<notin> set (tl (C p))" using assms er_heapD(2,3) [OF assms(1)] by auto
  then show ?thesis by (cases "C p") auto
qed

lemma er_end_heap:
  assumes C: "er_heap C s" and a: "er_pub s a = Some p" "er_st s a = VsInFlight" and x: "x \<noteq> VsInFlight"
    and t: "er_prev t = er_prev s" "er_table t = er_table s" "er_pub t = er_pub s" "er_next t = er_next s"
      "er_st t = (er_st s)(a := x)" "er_cst t = er_cst s"
    and above: "\<And>b. x = VsCommitted \<Longrightarrow> er_pub s b = Some p \<Longrightarrow> er_st s b = VsCommitted \<Longrightarrow> er_cst s b < er_cst s a"
  shows "er_heap C t"
proof -
  obtain bs where bs: "C p = a # bs" "\<forall>b \<in> set bs. b \<noteq> a" using er_held_head [OF C a] by blast
  have "descending (er_done t) (er_cst t) (C q)" for q
  proof (cases "q = p")
    case True
    have "er_cst s b < er_cst s a" if "x = VsCommitted" "b \<in> set bs" "er_st s b = VsCommitted" for b
      using above that er_heapD(2) [OF C, of b p] bs by simp
    then have "\<forall>b \<in> set bs. er_done t a \<longrightarrow> er_done t b \<longrightarrow> er_cst t b < er_cst t a"
      using bs(2) by (auto simp: er_done_fun t(5,6))
    moreover have "descending (er_done t) (er_cst t) bs = descending (er_done s) (er_cst s) bs"
      using bs(2) by (intro descending_cong) (auto simp: er_done_fun t(5,6))
    ultimately show ?thesis using True bs(1) er_heapD(4) [OF C, of p] by (simp add: descending_Cons)
  next
    case False
    then have "a \<notin> set (C q)" using er_heapD(2) [OF C, of a q] a(1) by simp
    then show ?thesis using er_heapD(4) [OF C, of q]
      by (subst descending_cong [where ok' = "er_done s" and stamp' = "er_cst s"]) (auto simp: er_done_fun t)
  qed
  moreover have "er_st t b \<noteq> VsInFlight" if "b \<in> set (tl (C q))" for b q
    using er_heapD(3) [OF C that] x by (simp add: t)
  ultimately show ?thesis using C unfolding er_heap_def t(1-4) by blast
qed

lemma er_queue_off:
  assumes "er_queues s" "er_st s a = VsInFlight" "g \<in> set (ex_gcq_for_version (er_txs s v))"
  shows "eg_ver g \<noteq> a"
proof
  assume "eg_ver g = a"
  moreover have "er_st s (eg_ver g) = VsCommitted" using assms(1,3) by (simp add: er_queues_def)
  ultimately show False using assms(2) by simp
qed

lemma er_abort_status_inv:
  assumes inv: "er_inv c d s" and pc: "er_pcs s w = EAbortAt AStatus e es"
  shows "er_inv c d (er_abort_status w e es s)"
proof -
  let ?t = "er_abort_status w e es s"
  obtain C where C: "er_heap C s" "er_stamps s" "er_queues s" "er_values c d s" "er_reads_good c d s"
    using er_inv_parts [OF inv] .
  have e: "er_pub s (ee_ver e) = Some (ee_rcdptr e)" "er_st s (ee_ver e) = VsInFlight" "er_owner s (ee_ver e) = w"
    using er_inv_local(1) [OF inv, of w] pc by (auto simp: er_holding_def er_held_def)
  have "er_heap C ?t"
    by (rule er_end_heap [OF C(1) e(1,2), of VsAborted]) (simp_all add: er_abort_status_def er_prims er_fields)
  moreover have "er_stamps ?t" using C(2) unfolding er_abort_status_def by (simp add: er_stamps_def er_prims er_fields)
  moreover have "er_queues ?t" using C(3) er_queue_off [OF C(3) e(2)] unfolding er_abort_status_def
    by (simp add: er_queues_def er_prims er_fields)
  moreover have "er_values c d ?t" "er_reads_good c d ?t"
    using C(4,5) unfolding er_abort_status_def
    by (simp_all add: er_values_def er_reads_good_def er_prims er_fields)
  ultimately have "er_global c d ?t" by (rule er_globalI)
  moreover have "er_env w s ?t" using e unfolding er_abort_status_def by (auto simp: er_env_def er_prims er_fields)
  moreover have "ee_ver e \<notin> ee_ver ` set es"
    using er_inv_local(1) [OF inv, of w] pc by (simp add: er_holding_def er_held_def)
  then have rest: "ee_ver f \<noteq> ee_ver e" if "f \<in> set es" for f using that by (metis imageI)
  have "er_holding ?t w"
    using er_inv_local(1) [OF inv, of w] pc rest unfolding er_abort_status_def by (simp add: er_holding_def er_held_def er_prims er_fields)
  moreover have "er_hiding ?t w" "er_writing ?t w" "er_reading ?t w" "er_stamped ?t w" "er_copying ?t w" "er_recorded c d ?t w"
    using er_inv_local(2,3) [OF inv, of w] pc unfolding er_abort_status_def
    by (simp_all add: er_hiding_def er_writing_def er_reading_def er_stamped_def er_copying_def er_recorded_def er_private_def
        er_commit_pc_def er_done_pc_def er_prims er_fields)
  ultimately show ?thesis using er_env_inv [OF _ inv] unfolding er_local_def by blast
qed

lemma er_pub_status_inv:
  assumes inv: "er_inv c d s" and pc: "er_pcs s w = EPubAt PStatus e es"
  shows "er_inv c d (er_pub_status w e es s)"
proof -
  let ?t = "er_pub_status w e es s" and ?a = "ee_ver e"
  obtain C where C: "er_heap C s" "er_stamps s" "er_queues s" "er_values c d s" "er_reads_good c d s"
    using er_inv_parts [OF inv] .
  have e: "er_pub s ?a = Some (ee_rcdptr e)" "er_st s ?a = VsInFlight" "er_owner s ?a = w" "ee_rcdptr e = ee_key e"
    using er_inv_local(1) [OF inv, of w] pc by (auto simp: er_holding_def er_held_def)
  have cst: "er_cst s ?a = ex_cstamp (er_txs s w)" "er_value s ?a = ex_write_val (er_txs s w)"
    using er_inv_local(6) [OF inv, of w] pc by (auto simp: er_copying_def)
  have good: "er_good c d (set (er_com s)) (ee_rcdptr e) (er_value s ?a)"
    using er_inv_local(7) [OF inv, of w] pc cst(2) e(4) by (simp add: er_recorded_def er_done_pc_def er_held_def)
  have "er_heap C ?t"
  proof (rule er_end_heap [OF C(1) e(1,2), of VsCommitted])
    fix b assume "er_pub s b = Some (ee_rcdptr e)" "er_st s b = VsCommitted"
    then show "er_cst s b < er_cst s ?a"
      using er_inv_local(5) [OF inv, of w] pc cst(1) by (simp add: er_stamped_def er_commit_pc_def er_held_def)
  qed (simp_all add: er_pub_status_def er_prims er_fields)
  moreover have "er_stamps ?t" using C(2) cst(1) unfolding er_pub_status_def by (auto simp: er_stamps_def er_prims er_fields)
  moreover have "er_queues ?t" using C(3) er_queue_off [OF C(3) e(2)] e(1) cst(1) unfolding er_pub_status_def
    by (simp add: er_queues_def er_prims er_fields)
  moreover have "er_values c d ?t" using C(4) e(1) good unfolding er_pub_status_def by (auto simp: er_values_def er_prims er_fields)
  moreover have "er_reads_good c d ?t" using C(5) unfolding er_pub_status_def by (simp add: er_reads_good_def er_prims)
  ultimately have "er_global c d ?t" by (rule er_globalI)
  moreover have "er_env w s ?t" using e unfolding er_pub_status_def by (auto simp: er_env_def er_prims er_fields)
  moreover have "ee_ver e \<notin> ee_ver ` set es"
    using er_inv_local(1) [OF inv, of w] pc by (simp add: er_holding_def er_held_def)
  then have rest: "ee_ver f \<noteq> ?a" if "f \<in> set es" for f using that by (metis imageI)
  have "er_holding ?t w" "er_recorded c d ?t w"
    using er_inv_local(1,7) [OF inv, of w] pc rest unfolding er_pub_status_def
    by (simp_all add: er_holding_def er_recorded_def er_done_pc_def er_held_def er_prims er_fields)
  moreover have "er_hiding ?t w" "er_writing ?t w" "er_reading ?t w" "er_copying ?t w"
    using er_inv_local(2,3) [OF inv, of w] pc unfolding er_pub_status_def
    by (simp_all add: er_hiding_def er_writing_def er_reading_def er_copying_def er_private_def er_prims er_fields)
  moreover have "er_stamped ?t w"
    unfolding er_stamped_def
  proof (intro impI ballI allI)
    fix f b assume f: "f \<in> set (er_held (er_pcs ?t w) (er_txs ?t w))" and b: "er_pub ?t b = Some (ee_rcdptr f)" "er_st ?t b = VsCommitted"
    from f have es: "f \<in> set es" by (simp add: er_pub_status_def er_held_def er_prims)
    then have h: "er_pub s (ee_ver f) = Some (ee_rcdptr f)" "er_st s (ee_ver f) = VsInFlight" "ee_ver f \<noteq> ?a"
      using er_inv_local(1) [OF inv, of w] pc rest [OF es] by (simp_all add: er_holding_def er_held_def)
    have "b \<noteq> ?a" using er_heap_flight [OF C(1) h(1) _ h(2) e(2)] h(3) b(1) by (auto simp: er_pub_status_def er_prims)
    then show "er_cst ?t b < ex_cstamp (er_txs ?t w)"
      using er_inv_local(5) [OF inv, of w] pc es b
      by (auto simp: er_stamped_def er_commit_pc_def er_held_def er_pub_status_def er_prims er_fields)
  qed
  ultimately show ?thesis using er_env_inv [OF _ inv] unfolding er_local_def by blast
qed

end
