(* ===== verification/Ermia_Anomalies.thy ===== *)
theory Ermia_Anomalies
  imports Ermia_System
begin

text \<open>
  Two schedules of the serial safety net that it is meant to exclude.

  A transaction takes as \<^verbatim>\<open>txid_\<close> the largest \<^verbatim>\<open>lastcstamp_\<close> plus one, which can be the stamp of a
  transaction that is still running, so a writer accepts a version that it has not read; and as a write takes
  the record out of the read set, nothing is left that would show that the version read is another one.

  \<^verbatim>\<open>ssn_tread\<close> does not raise \<^verbatim>\<open>pstamp_\<close> by the commit stamp of the version it reads, so that a dependency
  on an earlier transaction does not count: a read-only transaction can see the effect of one transaction
  and miss that of another one that comes before it.
\<close>

definition edemo_start :: "er_config \<Rightarrow> er_sys" where
  "edemo_start c = er_init c (\<lambda>_. [0]) (\<lambda>w. [of_nat (Suc w)])"

definition edemo_two :: er_config where "edemo_two = \<lparr>er_workers = 2, er_val_size = 1\<rparr>"

definition edemo_three :: er_config where "edemo_three = \<lparr>er_workers = 3, er_val_size = 1\<rparr>"

definition er_moves :: "nat \<Rightarrow> nat \<Rightarrow> procedure list \<Rightarrow> (nat \<times> procedure list) list" where
  "er_moves n w pro = replicate n (w, pro)"

definition edemo_lost :: er_sys where
  "edemo_lost = er_run edemo_two
     (er_moves 21 0 [Procedure READ_MODIFY_WRITE 1] @ er_moves 54 1 [Procedure READ_MODIFY_WRITE 1] @
      er_moves 25 0 []) (edemo_start edemo_two)"

definition edemo_reader :: er_sys where
  "edemo_reader = er_run edemo_three
     (er_moves 19 2 [Procedure READ 1, Procedure WRITE 2] @ er_moves 50 1 [Procedure WRITE 1] @
      er_moves 34 0 [Procedure READ 1, Procedure READ 2] @ er_moves 36 2 [] @ er_moves 8 0 [])
     (edemo_start edemo_three)"

lemma er_ones:
  "(- 1 :: u32) \<le> x \<longleftrightarrow> x = - 1" "\<not> (- 1 :: u32) < x" "min (- 1 :: u32) x = x" "max x (0 :: u32) = x"
  by (simp_all add: word_order.extremum_unique min_def max_def)

lemmas er_eval = edemo_start_def edemo_two_def edemo_three_def er_moves_def er_init_def er_step_def er_upd_def er_goto_def
  er_set_ver_def er_set_tmt_def er_tell_def er_follow_def er_decideFirstRange_def er_leader_end_def
  er_leader_ptr_def er_leader_val_def er_tbegin_def er_register_def er_scan_ptr_def er_scan_val_def er_ssn_tread_def
  er_read_status_def er_read_cstamp_def er_read_sstamp_def er_read_pi_def er_verify_def er_read_copy_def
  er_ssn_twrite_def er_early_abort_def er_write_down_def er_new_version_def er_write_new_def er_write_abort_def er_write_status_def
  er_write_cstamp_def er_write_walk_def er_write_check_def er_write_cas_def er_write_mark_def er_write_eta_def
  er_committing_def er_lsn_def er_store_cstamp_def er_pi_def er_eta_def er_eta_walk_def er_eta_loop_def
  er_eta_pstamp_def er_wait_status_def er_wait_cstamp_def er_wait_less_def er_wait_end_def er_wait_done_def
  er_wait_stamp_def er_record_def er_check_def er_store_sstamp_def er_update_eta_def er_update_bit_def
  er_pub_next_def er_pub_walk_def er_pub_val_def er_pub_status_def er_abort_def er_abort_walk_def
  er_abort_status_def er_abort_reads_def er_sstamp_to_def er_step_read_def er_step_write_def er_step_eta_def
  er_step_wait_def er_step_pub_def er_step_abort_def TIDFLAG_def er_infinity_def er_is_tid_def er_stamp_def
  er_worker_def er_mark_def er_final_def er_bit_def er_up_def er_down_def er_reads_def er_narrow_def er_searchReadSet_def
  er_searchWriteSet_def er_excluded_def er_min_sstamp_def er_max_pstamp_def get_tuple_def Procedure_def memcpy_def er_ones

lemma edemo_run_reach:
  "\<forall>(w, pro) \<in> set sched. w < er_workers c \<Longrightarrow> er_val_size c = 1 \<Longrightarrow>
   er_reach c (\<lambda>_. [0]) (er_run c sched (edemo_start c))"
  by (rule er_run_reach, rule reach_init) (auto simp: er_start_def edemo_start_def)

lemma edemo_reach:
  "er_reach edemo_two (\<lambda>_. [0]) edemo_lost" "er_reach edemo_three (\<lambda>_. [0]) edemo_reader"
  unfolding edemo_lost_def edemo_reader_def
  by (rule edemo_run_reach, auto simp: er_moves_def edemo_two_def edemo_three_def)+

lemma edemo_lost_com:
  "er_com edemo_lost =
     [\<lparr>tx_reads = [(1, [0])], tx_writes = [(1, \<lambda>old. 2 # drop (Suc 0) old)]\<rparr>,
      \<lparr>tx_reads = [(1, [0])], tx_writes = [(1, \<lambda>old. 1 # drop (Suc 0) old)]\<rparr>]"
  by (simp add: edemo_lost_def er_eval Let_def replicate_numeral)

lemma edemo_reader_com:
  "er_com edemo_reader =
     [\<lparr>tx_reads = [], tx_writes = [(1, \<lambda>old. 2 # drop (Suc 0) old)]\<rparr>,
      \<lparr>tx_reads = [(1, [0])], tx_writes = [(2, \<lambda>old. 3 # drop (Suc 0) old)]\<rparr>,
      \<lparr>tx_reads = [(1, [2]), (2, [0])], tx_writes = []\<rparr>]"
  by (simp add: edemo_reader_def er_eval Let_def replicate_numeral)

text \<open>
  C39. ERMIA, lost update: a state is reachable in which two committed transactions have both read the
  initial value of a record and both written the record. No serial order explains it.
\<close>

theorem ermia_lost_update:
  "\<exists>s a b. er_reach edemo_two (\<lambda>_. [0]) s \<and> er_com s = [a, b] \<and>
     tx_reads a = [(1, [0])] \<and> tx_reads b = [(1, [0])] \<and> 1 \<in> fst ` set (tx_writes a) \<and>
     1 \<in> fst ` set (tx_writes b) \<and> unserializable (\<lambda>_. [0]) (er_com s)"
proof (intro exI conjI)
  show "unserializable (\<lambda>_. [0]) (er_com edemo_lost)"
    unfolding edemo_lost_com by (rule unserializable_two) (simp_all add: apply_tx_def apply_write_def)
qed (rule edemo_reach edemo_lost_com | simp)+

text \<open>
  C40. ERMIA, read-only anomaly: a state is reachable in which three transactions have committed that no
  serial order explains, while the two that write are serializable without the third, which only reads.
\<close>

theorem ermia_read_only_anomaly:
  "\<exists>s a b r. er_reach edemo_three (\<lambda>_. [0]) s \<and> er_com s = [a, b, r] \<and> tx_writes r = [] \<and>
     serial_ok (\<lambda>_. [0]) [b, a] \<and> unserializable (\<lambda>_. [0]) (er_com s)"
proof (intro exI conjI)
  show "unserializable (\<lambda>_. [0]) (er_com edemo_reader)"
    unfolding edemo_reader_com by (rule unserializable_three) (simp_all add: apply_tx_def apply_write_def)
qed (rule edemo_reach edemo_reader_com | simp add: apply_tx_def apply_write_def)+

end
