(* ===== verification/Ermia_Theorems.thy ===== *)
theory Ermia_Theorems
  imports Ermia_Moves Ermia_Anomalies
begin

text \<open>
  The invariant holds in every state that is reached before the counter \<^verbatim>\<open>Lsn\<close> passes \<open>2 ^ 32\<close>, the
  width of \<^verbatim>\<open>cstamp_\<close>; what it gives for the reads of committed transactions and for the collector.
\<close>

definition er_below :: "er_config \<Rightarrow> er_sys \<Rightarrow> er_sys \<Rightarrow> bool" where
  "er_below c s t \<longleftrightarrow> er_next_sys c s t \<and> er_Lsn t < 2 ^ 32"

abbreviation er_reach32 :: "er_config \<Rightarrow> db \<Rightarrow> er_sys \<Rightarrow> bool" where
  "er_reach32 c d \<equiv> reach (er_start c d) (er_below c)"

section \<open>The invariant\<close>

lemma er_key_bound: "unat (p :: key) < 18446744073709551616"
proof -
  have "unat p < 2 ^ LENGTH(64)" by (rule unsigned_less)
  then show ?thesis by simp
qed

lemma er_init_inv:
  assumes "er_start c d s"
  shows "er_inv c d s"
proof -
  obtain wv where s: "s = er_init c d wv" and len: "\<And>w. length (wv w) = er_val_size c" "\<And>k. length (d k) = er_val_size c"
    using assms by (auto simp: er_start_def)
  have "er_heap (\<lambda>p. [unat p]) s"
    by (auto simp: er_heap_def s er_init_def er_prev_def er_st_def descending_def unsigned_of_nat take_bit_nat_eq_self er_key_bound split: if_splits)
  moreover have "er_stamps s" "er_queues s" "er_values c d s" "er_reads_good c d s"
    using len by (auto simp: s er_init_def er_stamps_def er_queues_def er_values_def er_reads_good_def er_value_def er_st_def er_cst_def
        er_good_def split: if_splits)
  ultimately have "er_global c d s" by (rule er_globalI)
  moreover have "er_local c d s w" for w
    by (simp add: s er_init_def er_local_def er_local_simps)
  ultimately show ?thesis by (simp add: er_inv_def)
qed

lemma er_step_inv:
  assumes inv: "er_inv c d s" and small: "er_Lsn (er_step c w pro s) < 2 ^ 32"
  shows "er_inv c d (er_step c w pro s)"
proof (cases "er_pcs s w")
  case (ECalls cs)
  then show ?thesis
    using er_committing_inv [OF inv] er_ssn_tread_inv [OF inv ECalls] er_ssn_twrite_inv [OF inv ECalls]
      er_early_abort_inv [OF inv ECalls]
    by (cases cs) (auto simp: er_step_def split: er_call.split)
next
  case (ERead r k a rest)
  then show ?thesis
    using er_read_status_inv [OF inv] er_read_cstamp_inv [OF inv] er_read_sstamp_inv [OF inv] er_read_pi_inv [OF inv]
      er_read_bit_inv [OF inv] er_read_verify_inv [OF inv] er_read_copy_inv [OF inv]
    by (cases r) (simp_all add: er_step_def er_step_read_def)
next
  case (EWrite r k p a rest)
  then show ?thesis
    using er_write_status_inv [OF inv] er_write_cstamp_inv [OF inv] er_write_reload_inv [OF inv] er_write_walk_inv [OF inv]
      er_write_check_inv [OF inv] er_write_cas_inv [OF inv] er_write_mark_inv [OF inv] er_write_eta_inv [OF inv]
    by (cases r) (simp_all add: er_step_def er_step_write_def)
next
  case (EPubAt r e es)
  then show ?thesis
    using er_pub_walk_inv [OF inv] er_pub_sstamp_inv [OF inv] er_pub_cstamp_inv [OF inv] er_pub_pstamp_inv [OF inv]
      er_pub_infinity_inv [OF inv] er_pub_val_inv [OF inv] er_pub_status_inv [OF inv]
    by (cases r) (simp_all add: er_step_def er_step_pub_def Let_def)
next
  case (EAbortAt r e es)
  then show ?thesis
    using er_abort_walk_inv [OF inv] er_abort_sstamp_inv [OF inv] er_abort_status_inv [OF inv]
    by (cases r) (simp_all add: er_step_def er_step_abort_def)
next
  case ELsn
  then have "er_Lsn s + 1 < 2 ^ 32" using small by (simp add: er_step_def er_lsn_def er_prims)
  then show ?thesis using er_lsn_inv [OF inv ELsn] ELsn by (simp add: er_step_def)
qed (use inv er_make_inv [OF inv] er_retry_inv [OF inv] er_leader_ptr_inv [OF inv] er_leader_val_inv [OF inv] er_quitting_inv [OF inv]
    er_tbegin_inv [OF inv] er_scan_ptr_inv [OF inv] er_scan_val_inv [OF inv] er_write_down_inv [OF inv] er_write_new_inv [OF inv]
    er_write_verify_inv [OF inv] er_store_cstamp_inv [OF inv] er_pi_inv [OF inv] er_eta_inv [OF inv] er_step_eta_inv [OF inv]
    er_step_wait_inv [OF inv] er_check_inv [OF inv] er_store_sstamp_inv [OF inv] er_store_committed_inv [OF inv]
    er_update_eta_inv [OF inv] er_update_bit_inv [OF inv] er_pub_next_inv [OF inv] er_abort_inv [OF inv] er_abort_reads_inv [OF inv]
  in \<open>simp_all add: er_step_def Let_def\<close>)

lemma er_quit_inv:
  assumes inv: "er_inv c d s"
  shows "er_inv c d (s\<lparr>er_quit := True\<rparr>)"
proof -
  let ?t = "s\<lparr>er_quit := True\<rparr>"
  have q: "er_quiet c d w s ?t" for w by (simp add: er_quiet_def)
  obtain C where C: "er_heap C s" using er_inv_heap [OF inv] by blast
  have "er_local c d ?t v" for v
    using er_env_local [OF er_quiet_env [OF q [of "Suc v"]] _ C] inv by (simp add: er_inv_def)
  then show ?thesis using er_quiet_global [OF q [of 0]] inv by (simp add: er_inv_def)
qed

interpretation er32: invariant_system "er_start c d" "er_below c" "er_inv c d" for c d
proof
  fix s t assume "er_inv c d s" "er_below c s t"
  then show "er_inv c d t" using er_step_inv er_quit_inv unfolding er_below_def er_next_sys_def by blast
qed (rule er_init_inv)

lemma er_reach_length: "er_reach32 c d s \<Longrightarrow> length (d k) = er_val_size c"
  by (induction rule: reach.induct) (auto simp: er_start_def)

section \<open>Runs below the bound\<close>

lemmas er_moves_defs = er_leader_end_def
  er_leader_ptr_def er_leader_val_def er_tbegin_def er_register_def er_scan_ptr_def er_scan_val_def er_ssn_tread_def
  er_read_status_def er_read_cstamp_def er_read_sstamp_def er_read_pi_def er_verify_def er_read_copy_def
  er_ssn_twrite_def er_early_abort_def er_write_down_def er_write_new_def er_write_abort_def er_write_status_def
  er_write_cstamp_def er_write_walk_def er_write_check_def er_write_cas_def er_write_mark_def er_write_eta_def
  er_committing_def er_lsn_def er_store_cstamp_def er_pi_def er_eta_def er_eta_walk_def er_eta_loop_def
  er_eta_pstamp_def er_wait_status_def er_wait_cstamp_def er_wait_less_def er_wait_end_def er_wait_done_def
  er_wait_stamp_def er_check_def er_store_sstamp_def er_update_eta_def er_update_bit_def
  er_pub_next_def er_pub_walk_def er_pub_val_def er_pub_status_def er_abort_def er_abort_walk_def
  er_abort_status_def er_abort_reads_def

lemma er_step_Lsn: "er_Lsn (er_step c w pro s) = er_Lsn s \<or> er_Lsn (er_step c w pro s) = er_Lsn s + 1"
  by (cases "er_pcs s w")
    (simp_all add: er_step_def er_step_read_def er_step_write_def er_step_eta_def er_step_wait_def er_step_pub_def er_step_abort_def
      er_moves_defs er_prims split: option.split list.split er_call.split er_rpc.split er_wpc.split er_epc.split er_vpc.split
      er_ppc.split er_apc.split)

lemma er_run_reach32:
  "er_reach32 c d s \<Longrightarrow> \<forall>(w, pro) \<in> set sched. w < er_workers c \<Longrightarrow> unat (er_Lsn s) + length sched < 2 ^ 32 \<Longrightarrow>
   er_reach32 c d (er_run c sched s)"
proof (induction sched arbitrary: s)
  case (Cons a sched)
  obtain w pro where a: "a = (w, pro)" by (cases a)
  let ?t = "er_step c w pro s"
  have "unat (er_Lsn ?t) \<le> unat (er_Lsn s) + 1"
    using er_step_Lsn [of c w pro s] by (auto simp: unat_word_ariths)
  then have le: "unat (er_Lsn ?t) + length sched < 2 ^ 32" using Cons.prems(3) by simp
  then have "er_Lsn ?t < 2 ^ 32" by (simp add: word_less_nat_alt)
  then have "er_below c s ?t" using Cons.prems(2) a by (auto simp: er_below_def er_next_sys_def)
  then have "er_reach32 c d ?t" using Cons.prems(1) by (rule reach_step [rotated])
  then show ?case using Cons.IH le Cons.prems(2) a by simp
qed simp

section \<open>The properties\<close>

text \<open>
  C37. ERMIA, committed reads: before the counter passes \<open>2 ^ 32\<close>, every value that a committed transaction read is
  the initial one or one that a transaction wrote that has committed before it; no transaction reads from one that aborts.
\<close>

theorem ermia_committed_reads:
  assumes "er_reach32 c d s" "i < length (er_com s)" "(k, v) \<in> set (tx_reads (er_com s ! i))"
  shows "v = d k \<or> (\<exists>j < i. \<exists>f. (k, f) \<in> set (tx_writes (er_com s ! j)) \<and> f (d k) = v)"
proof -
  have "er_good c d (set (take i (er_com s))) k v"
    using er32.reach_inv [OF assms(1)] assms(2,3) by (simp add: er_inv_def er_global_def er_reads_good_def)
  then show ?thesis
    using er_reach_length [OF assms(1), of k] assms(2) unfolding er_good_def set_conv_nth by fastforce
qed



section \<open>Witnesses\<close>

lemma edemo_reach32:
  "\<forall>(w, pro) \<in> set sched. w < er_workers c \<Longrightarrow> er_val_size c = 1 \<Longrightarrow> length sched < 2 ^ 32 \<Longrightarrow>
   er_reach32 c (\<lambda>_. [0]) (er_run c sched (edemo_start c))"
  by (rule er_run_reach32, rule reach_init) (auto simp: er_start_def edemo_start_def er_init_def)

lemma edemo_reader_reach32: "er_reach32 edemo_three (\<lambda>_. [0]) edemo_reader"
  unfolding edemo_reader_def by (rule edemo_reach32) (auto simp: er_moves_def edemo_three_def)

theorem ermia_committed_reads_witness:
  "\<exists>j < 2. \<exists>f. (1, f) \<in> set (tx_writes (er_com edemo_reader ! j)) \<and> f [0] = [2]"
  using ermia_committed_reads [OF edemo_reader_reach32, of 2 1 "[2]"] by (simp add: edemo_reader_com)







end
