(* ===== verification/Spec2Isabelle.thy ===== *)
theory Spec2Isabelle
  imports Prelude Rw_Lock Procedures Serial_Spec Ss2pl_Theorems Silo_Theorems Tictoc_Theorems
    Lockmgr_Theorems Fairdet_Theorems Fairss_Theorems Kr_Theorems Random_Theorems Si_Theorems
    Mocc_Theorems Silo_Log Ermia_Theorems
begin

text \<open>
  A verification library for ccbench, a benchmark of concurrency control protocols for
  main-memory transactions.

  \<^bold>\<open>The program.\<close> Every protocol is a program of its own with the same shape: worker threads
  draw a list of operations (\<^verbatim>\<open>makeProcedure\<close> of \<^verbatim>\<open>include/procedure.hh\<close>, random numbers of
  \<^verbatim>\<open>include/random.hh\<close>), run it as a transaction through a \<^verbatim>\<open>TxExecutor\<close> on one shared table,
  and commit or retry. Worker 0 is also the leader where the protocol has epochs or garbage
  collection. The protocols share \<^verbatim>\<open>include/\<close> and \<^verbatim>\<open>common/\<close> only; each keeps its own tuple,
  local sets and executor. The fork adds single-file programs (\<^verbatim>\<open>lock-manager\<close>,
  \<^verbatim>\<open>fair_determinism\<close>, \<^verbatim>\<open>fair_ss2pl\<close>) for deterministic and fair locking.

  \<^bold>\<open>How a program is modelled.\<close> The state of a program is a record: the shared memory (table,
  counters, epochs), one executor record per worker and one program counter per worker, a
  \<^verbatim>\<open>datatype\<close> whose constructors are the points between two accesses to shared memory. One step of
  worker \<open>w\<close> is a function; a step of the system is a step of any worker, with the generated
  procedures and clock values chosen freely; the theorems hold in every reachable state, so for
  every interleaving and any number of workers. Memory is sequentially consistent. Fields called
  ghost in the theories record history (commits in their order, versions, what was read) and
  are never read by the code's part of a step.

  \<^bold>\<open>Shared theories.\<close>
  \<^item> \<open>Prelude\<close>: machine types, \<^verbatim>\<open>memcpy\<close>, search in local sets, interference lists, reachability and
    the locale of an inductive invariant, which every protocol interprets.
  \<^item> \<open>Procedures\<close>: \<^verbatim>\<open>include/procedure.hh\<close>, \<^verbatim>\<open>include/util.hh\<close>, \<^verbatim>\<open>common/util.cc\<close>: generated
    transactions, clock spans, the ranges of the parallel build.
  \<^item> \<open>Random_Gen\<close>, \<open>Random_Jump\<close>, \<open>Random_Poly\<close>, \<open>Random_Theorems\<close>: \<^verbatim>\<open>include/random.hh\<close>. The jumps
    are proved by computing with the polynomials of the linear map of one call.
  \<^item> \<open>Rw_Lock\<close>: \<^verbatim>\<open>include/rwlock.hh\<close>, each operation as its compare-and-swap loop against an
    interference list. The list is the fuel of a spin loop: \<open>None\<close> means that it spins as long as
    the list lasts. The protocols use the operations as atomic steps, which
    \<open>rwlock_linearizable\<close> justifies for fewer than \<open>2 ^ 32 - 2\<close> workers.
  \<^item> Abstract specifications: \<open>Serial_Spec\<close> (serial execution, serial histories), \<open>Occ_Spec\<close> (optimistic
    execution with locked writes), \<open>Ts_Spec\<close> (timestamp ordering with extension), \<open>Ord_Spec\<close>
    (ordered locking), \<open>Lock_Table\<close> (a table of reader-writer locks and its holders) and
    \<open>Serial_Order\<close>. The protocols are proved against them by simulation or as interpretations.

  \<^bold>\<open>The protocols.\<close>
  \<^item> \<open>Ss2pl_*\<close>: \<^verbatim>\<open>ss2pl/\<close>. Strict two-phase locking in the builds \<^verbatim>\<open>DLR0\<close> (waiting) and \<^verbatim>\<open>DLR1\<close> (no
    wait). Serializability, exclusion, the table against the serial run, termination without
    waiting, and the deadlock of two upgrades with waiting.
  \<^item> \<open>Silo_*\<close>: \<^verbatim>\<open>silo/\<close>. \<open>Silo_Tid\<close> is the bit layout of the TID word (29-bit tid), \<open>Silo_Model\<close> and
    \<open>Silo_System\<close> the executor and leader in its three locking variants, \<open>Silo_Refinement\<close> the
    simulation of \<open>Occ_Spec\<close>, \<open>Silo_Epoch\<close> the epochs (32 bits). Serializability holds up to the first
    overflow of the tid, which \<open>silo_tid_overflow\<close> describes. \<open>Silo_Log\<close>: the write-ahead log as bytes, its
    reader, and that nothing is lost or reordered between them.
  \<^item> \<open>Tictoc_*\<close>, \<open>Ts_*\<close>: \<^verbatim>\<open>tictoc/\<close>. The word with the 48-bit write timestamp and 15-bit difference, the
    executor in every build variant, refinement of \<open>Ts_Spec\<close> for the variants that are right, and
    counterexamples for the two that are not (timestamp history, \<^verbatim>\<open>NO_WAIT_OF_TICTOC\<close>).
  \<^item> \<open>Kr_*\<close>: \<^verbatim>\<open>occ/\<close>. The optimistic protocol of Kung and Robinson with unlocked reads byte by byte
    and its garbage collection, below \<open>2 ^ 31\<close> commits.
  \<^item> \<open>Si_*\<close>: \<^verbatim>\<open>si/\<close>. Snapshot isolation over version chains: \<open>Si_System\<close> the executor, \<open>Si_Proofs\<close> the
    invariant, \<open>Si_Frame\<close>, \<open>Si_Quiet\<close>, \<open>Si_Local\<close>, \<open>Si_Publish\<close>, \<open>Si_Steps\<close> its preservation, \<open>Si_Anomalies\<close>
    the two anomalies of the code, \<open>Si_Theorems\<close> what it guarantees below \<open>2 ^ 32 - 2\<close> commits, where
    the timestamps do not wrap.
  \<^item> \<open>Mocc_*\<close>: \<^verbatim>\<open>mocc/\<close>. Mixed pessimistic and optimistic locking with temperatures. \<open>Mocc_Model\<close> and \<open>Mocc_System\<close>
    the executor and leader, \<open>Mocc_Proofs\<close> the shape of the lock lists, \<open>Mocc_Shape\<close> and \<open>Mocc_Moves\<close> its
    preservation, \<open>Mocc_Frame\<close> and \<open>Mocc_Steps\<close> locks and payloads, \<open>Mocc_Facts\<close>, \<open>Mocc_Own\<close> and \<open>Mocc_Loud\<close> what a
    transaction knows of what it read, \<open>Mocc_Theorems\<close> exclusion, no deadlock, committed and locked
    reads (at most 100 operations a transaction, the branch of \<^verbatim>\<open>lock\<close> for more violations is modelled but
    not reached, and at most \<open>2 ^ 32\<close> records, the width of \<^verbatim>\<open>key_\<close>), \<open>Mocc_Anomaly\<close> the write skew that its validation lets through.
  \<^item> \<open>Ermia_*\<close>: \<^verbatim>\<open>ermia/\<close>. The serial safety net over version chains: \<open>Ermia_Model\<close> the data, stamps and control
    points, \<open>Ermia_System\<close> the executor with \<^verbatim>\<open>ssn_parallel_commit\<close> and the leader, \<open>Ermia_Gc\<close> chains of versions and
    the collector, \<open>Ermia_Proofs\<close>, \<open>Ermia_Steps\<close> and \<open>Ermia_Moves\<close> the invariant of the chains, \<open>Ermia_Theorems\<close> committed
    reads and the safety of the collector while the 32-bit stamps do not wrap, \<open>Ermia_Anomalies\<close> a lost update and a read-only
    anomaly that the exclusion test of the code lets through. The collector is an operation after a run without collection;
    its interleaving with transactions that use its versions again is not modelled.
  \<^item> \<open>Standalone_Model\<close>: tasks, lock class and local sets that the single-file programs share.
    \<open>Lockmgr_*\<close>: \<^verbatim>\<open>lock-manager/ss2pl.cc\<close>; \<open>Fairdet_*\<close>: \<^verbatim>\<open>fair_determinism/ss2pl.cc\<close>; both are proved to
    be ordered locking. \<open>Fairss_*\<close>: \<^verbatim>\<open>fair_ss2pl/ss2pl.cc\<close>, with its dirty read.

  \<^bold>\<open>Not modelled.\<close> Counters of the statistics, printing, back-off and sleeping; the Masstree index, a
  third-party library (records are found by key in the table); a payload is copied in one
  step, except in \<^verbatim>\<open>occ/\<close>, where nothing protects the copy; the load and store of an
  unlocking are one step, since only the holder of the lock changes the word; in Silo and TicToc
  the workers run for ever (\<^verbatim>\<open>quit\<close> ends the measurement); collection of old versions in snapshot
  isolation. Doubles (Zipf, back-off) are not modelled: the generated keys are arguments.
  Cicada and TPC-C are not in the development.
\<close>

end
